(* ===== verification/Prelude.thy ===== *)
theory Prelude
  imports Main "HOL-Library.Word" "HOL-Library.Monad_Syntax"
begin

text \<open>
  Shared vocabulary of the development: the C integer types of \<open>types.h\<close> as words of
  their width, the two loop shapes the sources use, and the generic facts on words, lists
  and options that the component theories rely on.
\<close>

unbundle bit_operations_syntax

type_synonym u8 = "8 word"
type_synonym u16 = "16 word"
type_synonym u32 = "32 word"
type_synonym u64 = "64 word"

text \<open>Facts collected for \<open>simp add:\<close>; each component adds to them.\<close>

named_theorems word_norm
named_theorems frame_simps

section \<open>Words\<close>

lemma unat_inc_less:
  fixes i n :: "'a::len word"
  assumes "i < n"
  shows "unat (i + 1) = Suc (unat i)"
proof -
  have "Suc (unat i) < 2 ^ LENGTH('a)"
    using assms unsigned_less [of n, where ?'a = nat]
    unfolding word_less_nat_alt by linarith
  then show ?thesis by (simp add: unat_word_ariths)
qed

lemma inc_le_of_less:
  fixes i n :: "'a::len word"
  assumes "i < n"
  shows "i + 1 \<le> n"
  using assms by (simp add: word_le_nat_alt word_less_nat_alt unat_inc_less Suc_le_eq)

lemma less_inc_iff:
  fixes i j n :: "'a::len word"
  assumes "i < n"
  shows "j < i + 1 \<longleftrightarrow> j \<le> i"
  using assms by (simp add: word_le_nat_alt word_less_nat_alt unat_inc_less less_Suc_eq_le)

lemma unat_mod_numeral:
  fixes w :: "'a::len word"
  shows "unat (w mod numeral k) = unat w mod unat (numeral k :: 'a word)"
  by (rule unat_mod)

text \<open>4 KB pages: the frame part and the offset part of a 32-bit address.\<close>

lemma bit_masks [word_norm]:
  "bit (0xFFF :: int) n \<longleftrightarrow> n < 12"
  "bit (- 4096 :: int) n \<longleftrightarrow> 12 \<le> n"
  "bit (0xFFFFFFFF :: int) n \<longleftrightarrow> n < 32"
  "bit (0xFFFFF000 :: int) n \<longleftrightarrow> 12 \<le> n \<and> n < 32"
proof -
  have eqs: "(0xFFF :: int) = mask 12" "(- 4096 :: int) = NOT (mask 12)"
    "(0xFFFFFFFF :: int) = mask 32" "(0xFFFFF000 :: int) = push_bit 12 (mask 20)"
    by (simp_all add: mask_eq_exp_minus_1 not_eq_complement)
  show "bit (0xFFF :: int) n \<longleftrightarrow> n < 12" "bit (- 4096 :: int) n \<longleftrightarrow> 12 \<le> n"
    "bit (0xFFFFFFFF :: int) n \<longleftrightarrow> n < 32" "bit (0xFFFFF000 :: int) n \<longleftrightarrow> 12 \<le> n \<and> n < 32"
    unfolding eqs bit_not_iff bit_push_bit_iff bit_mask_iff by auto
qed

lemma page_part: "(a :: u32) AND NOT 0xFFF = push_bit 12 (drop_bit 12 a)"
  by (rule bit_eqI)
     (auto simp: bit_and_iff bit_not_iff bit_push_bit_iff bit_drop_bit_eq word_norm)

lemma unat_push12:
  fixes p :: u32
  assumes "unat p < 2 ^ 20"
  shows "unat (push_bit 12 p) = 4096 * unat p"
  using assms by (simp add: push_bit_eq_mult unat_word_ariths)

lemma unat_drop12: "unat (drop_bit 12 (a :: u32)) = unat a div 4096"
  by (simp add: drop_bit_eq_div unat_div)

lemma drop_push12:
  fixes p :: u32
  assumes "unat p < 2 ^ 20"
  shows "drop_bit 12 (push_bit 12 p) = p"
proof -
  have "unat (drop_bit 12 (push_bit 12 p)) = unat p"
    by (simp add: unat_drop12 unat_push12 [OF assms])
  then show ?thesis by (simp only: word_unat_eq_iff)
qed

lemma unat_page_part: "unat ((a :: u32) AND NOT 0xFFF) = 4096 * (unat a div 4096)"
proof -
  have "unat (drop_bit 12 a) < 2 ^ 20"
    using unsigned_less [of a, where ?'a = nat] unat_drop12 [of a] by simp
  then show ?thesis by (simp only: page_part unat_push12 unat_drop12)
qed

section \<open>Counting loops\<close>

text \<open>
  \<open>for (i = a; i < n; i++) body\<close> over an unsigned counter. The guard \<open>i < n\<close> keeps the
  increment from wrapping, so the loop ends.
\<close>

function for_up :: "'a::len word \<Rightarrow> 'a word \<Rightarrow> ('a word \<Rightarrow> 's \<Rightarrow> 's) \<Rightarrow> 's \<Rightarrow> 's" where
  "for_up i n body s = (if i < n then for_up (i + 1) n body (body i s) else s)"
  by pat_completeness auto
termination
  by (relation "measure (\<lambda>(i, n, _, _). unat n - unat i)")
     (auto simp: unat_inc_less word_less_nat_alt)

declare for_up.simps [simp del]

lemma for_up_done: "\<not> i < n \<Longrightarrow> for_up i n body s = s"
  by (simp add: for_up.simps)

lemma for_up_step: "i < n \<Longrightarrow> for_up i n body s = for_up (i + 1) n body (body i s)"
  by (simp add: for_up.simps [of i])

text \<open>The loop rule: a property of counter and state, kept by every iteration.\<close>

lemma for_up_rule:
  fixes a n :: "'a::len word"
  assumes "P a s"
    and "\<And>i s. a \<le> i \<Longrightarrow> i < n \<Longrightarrow> P i s \<Longrightarrow> P (i + 1) (body i s)"
  shows "P (max a n) (for_up a n body s)"
  using assms
proof (induction a n body s rule: for_up.induct)
  case (1 i n body s)
  show ?case
  proof (cases "i < n")
    case True
    have "P (max (i + 1) n) (for_up (i + 1) n body (body i s))"
    proof (rule "1.IH")
      show "P (i + 1) (body i s)" using "1.prems" True by simp
      show "P (j + 1) (body j t)" if "i + 1 \<le> j" "j < n" "P j t" for j t
        using that "1.prems"(2) True less_inc_iff [OF True, of j] by (auto simp: not_less)
    qed (rule True)
    moreover have "max (i + 1) n = max i n"
      using True inc_le_of_less [OF True] by (metis less_le max_absorb2)
    ultimately show ?thesis using True by (simp add: for_up_step)
  next
    case False
    with "1.prems"(1) show ?thesis by (simp add: for_up_done max_def not_less)
  qed
qed

lemma for_up_invariant:
  fixes a n :: "'a::len word"
  assumes "P s" and "\<And>i s. a \<le> i \<Longrightarrow> i < n \<Longrightarrow> P s \<Longrightarrow> P (body i s)"
  shows "P (for_up a n body s)"
  using for_up_rule [of "\<lambda>_ s. P s" a s n body] assms by blast

text \<open>The same loop with a body that may fault: \<open>None\<close> ends it.\<close>

function for_try :: "'a::len word \<Rightarrow> 'a word \<Rightarrow> ('a word \<Rightarrow> 's \<Rightarrow> 's option) \<Rightarrow> 's \<Rightarrow> 's option" where
  "for_try i n body s =
     (if i < n then (case body i s of None \<Rightarrow> None | Some t \<Rightarrow> for_try (i + 1) n body t) else Some s)"
  by pat_completeness auto
termination
  by (relation "measure (\<lambda>(i, n, _, _). unat n - unat i)")
     (auto simp: unat_inc_less word_less_nat_alt)

declare for_try.simps [simp del]

lemma for_try_rule:
  fixes a n :: "'a::len word"
  assumes "P a s"
    and "\<And>i s. a \<le> i \<Longrightarrow> i < n \<Longrightarrow> P i s \<Longrightarrow> \<exists>t. body i s = Some t \<and> P (i + 1) t"
  shows "\<exists>t. for_try a n body s = Some t \<and> P (max a n) t"
  using assms
proof (induction a n body s rule: for_try.induct)
  case (1 i n body s)
  show ?case
  proof (cases "i < n")
    case True
    then obtain t where t: "body i s = Some t" "P (i + 1) t"
      using "1.prems" by blast
    have "\<exists>u. for_try (i + 1) n body t = Some u \<and> P (max (i + 1) n) u"
    proof (rule "1.IH" [OF True t])
      show "\<exists>v. body j u = Some v \<and> P (j + 1) v" if "i + 1 \<le> j" "j < n" "P j u" for j u
        using that "1.prems"(2) True less_inc_iff [OF True, of j] by (auto simp: not_less)
    qed
    moreover have "max (i + 1) n = max i n"
      using True inc_le_of_less [OF True] by (metis less_le max_absorb2)
    ultimately show ?thesis using True t by (simp add: for_try.simps [of i])
  next
    case False
    with "1.prems"(1) show ?thesis by (auto simp: for_try.simps [of i] max_def)
  qed
qed

text \<open>A small unsigned value read as a C \<open>int\<close>.\<close>

lemma sint_small: "unat w < 2 ^ 31 \<Longrightarrow> sint w = int (unat w)" for w :: u32
  unfolding sint_uint using of_nat_less_iff [of "unat w" "2 ^ 31", where 'a = int] uint_ge_0 [of w]
  by (subst signed_take_bit_int_eq_self) (simp_all add: order_trans [OF _ uint_ge_0])

end
