(* ===== verification/Ports.thy ===== *)
theory Ports
  imports Prelude
begin

text \<open>
  The I/O ports as the drivers use them through \<open>inb\<close> and \<open>outb\<close> of \<open>io.asm\<close>. What a port answers
  is up to the device: the field \<open>device\<close> gives the byte for every port at every read, \<open>clock\<close> counts
  the reads, and \<open>port_writes\<close> lists what was sent, newest first. The record is extended by the
  state of the drivers.
\<close>

record hw =
  device :: "nat \<Rightarrow> u16 \<Rightarrow> u8"
  clock :: nat
  port_writes :: "(u16 \<times> u8) list"

definition inb :: "u16 \<Rightarrow> 's hw_scheme \<Rightarrow> u8 \<times> 's hw_scheme" where
  "inb p s = (device s (clock s) p, s\<lparr>clock := clock s + 1\<rparr>)"

definition outb :: "u16 \<Rightarrow> u8 \<Rightarrow> 's hw_scheme \<Rightarrow> 's hw_scheme" where
  "outb p v s = s\<lparr>port_writes := (p, v) # port_writes s\<rparr>"

text \<open>\<open>io_wait\<close> is a delay: a write to an unused port of whatever the register holds.\<close>

definition io_wait :: "'s hw_scheme \<Rightarrow> 's hw_scheme" where
  "io_wait s = s"

lemma outb_simps [simp]:
  "device (outb p v s) = device s" "clock (outb p v s) = clock s"
  "port_writes (outb p v s) = (p, v) # port_writes s"
  by (simp_all add: outb_def)

section \<open>Waiting for a device\<close>

text \<open>\<open>while (inb(p) \<dots>);\<close> reads until the byte passes the test; a device that never answers so keeps the
  processor for ever, which is the result \<open>None\<close>.\<close>

partial_function (option) spin_until :: "u16 \<Rightarrow> (u8 \<Rightarrow> bool) \<Rightarrow> 's hw_scheme \<Rightarrow> 's hw_scheme option" where
  "spin_until p ok s = (case inb p s of (v, t) \<Rightarrow> if ok v then Some t else spin_until p ok t)"

lemma spin_until_returns:
  assumes "ok (device s n p)" and "clock s \<le> n"
  shows "\<exists>m. clock s < m \<and> m \<le> n + 1 \<and> spin_until p ok s = Some (s\<lparr>clock := m\<rparr>)"
  using assms
proof (induction "n - clock s" arbitrary: s rule: less_induct)
  case less
  show ?case
  proof (cases "ok (device s (clock s) p)")
    case True
    then show ?thesis using less.prems by (subst spin_until.simps) (auto simp: inb_def)
  next
    case False
    then have lt: "clock s < n" using less.prems by (metis le_neq_implies_less)
    let ?t = "s\<lparr>clock := clock s + 1\<rparr>"
    have "n - clock ?t < n - clock s" using lt by simp
    moreover have "ok (device ?t n p)" "clock ?t \<le> n" using less.prems lt by simp_all
    ultimately obtain m where m: "clock ?t < m" "m \<le> n + 1" "spin_until p ok ?t = Some (?t\<lparr>clock := m\<rparr>)"
      using less.hyps by blast
    then show ?thesis
      using False by (intro exI [of _ m]) (subst spin_until.simps, simp add: inb_def)
  qed
qed

lemma spin_until_never:
  assumes "spin_until p ok s = Some t"
  shows "\<exists>n. clock s \<le> n \<and> ok (device s n p)"
proof (rule spin_until.raw_induct [OF _ assms])
  fix f :: "u16 \<Rightarrow> (u8 \<Rightarrow> bool) \<Rightarrow> 'a hw_scheme \<Rightarrow> 'a hw_scheme option" and p ok s t
  assume IH: "\<And>p ok s t. f p ok s = Some t \<Longrightarrow> \<exists>n\<ge>clock s. ok (device s n p)"
    and step: "(case inb p s of (v, t) \<Rightarrow> if ok v then Some t else f p ok t) = Some t"
  show "\<exists>n\<ge>clock s. ok (device s n p)"
  proof (cases "ok (device s (clock s) p)")
    case False
    then have "f p ok (s\<lparr>clock := clock s + 1\<rparr>) = Some t" using step by (simp add: inb_def)
    from IH [OF this] show ?thesis by (auto intro: Suc_leD)
  qed auto
qed

text \<open>A device that answers so again and again.\<close>

definition ready :: "u16 \<Rightarrow> (u8 \<Rightarrow> bool) \<Rightarrow> 's hw_scheme \<Rightarrow> bool" where
  "ready p ok s \<longleftrightarrow> (\<forall>n. \<exists>m \<ge> n. ok (device s m p))"

lemma ready_spin:
  assumes "ready p ok s"
  obtains m where "clock s < m" "spin_until p ok s = Some (s\<lparr>clock := m\<rparr>)"
  using assms spin_until_returns unfolding ready_def by metis

end
