(* ===== verification/Interfaces.thy ===== *)
theory Interfaces
  imports Prelude
begin

text \<open>
  The contracts between components, as locales: what a client may assume of the operations it
  calls, and the facts every client may use. Each locale is interpreted on the model's own
  operations in the theory of the component that provides them.
\<close>

section \<open>Page frames\<close>

text \<open>
  The client's view of \<open>pmm_alloc_page\<close> and \<open>pmm_free_page\<close>: \<open>frames\<close> are the addresses the
  next allocations may return, \<open>managed\<close> all addresses that ever can be.
\<close>

locale frame_allocator =
  fixes alloc :: "'s \<Rightarrow> u32 \<times> 's"
    and release :: "'s \<Rightarrow> u32 \<Rightarrow> 's"
    and frames :: "'s \<Rightarrow> u32 set"
    and managed :: "'s \<Rightarrow> u32 set"
    and inv :: "'s \<Rightarrow> bool"
  assumes alloc_some: "\<lbrakk>inv s; alloc s = (a, t); a \<noteq> 0\<rbrakk> \<Longrightarrow>
            inv t \<and> a \<in> frames s \<and> frames t = frames s - {a} \<and> managed t = managed s"
    and alloc_none: "\<lbrakk>inv s; alloc s = (0, t)\<rbrakk> \<Longrightarrow> t = s \<and> frames s = {}"
    and frames_managed: "frames s \<subseteq> managed s"
    and managed_nonzero: "inv s \<Longrightarrow> 0 \<notin> managed s"
    and managed_aligned: "\<lbrakk>inv s; a \<in> managed s\<rbrakk> \<Longrightarrow> a AND 0xFFF = 0"
    and release_ok: "\<lbrakk>inv s; a \<in> managed s; a \<notin> frames s\<rbrakk> \<Longrightarrow>
            inv (release s a) \<and> frames (release s a) = insert a (frames s) \<and>
            managed (release s a) = managed s"
begin

lemma alloc_succeeds_iff:
  assumes "inv s"
  shows "fst (alloc s) \<noteq> 0 \<longleftrightarrow> frames s \<noteq> {}"
  using assms alloc_some [of s "fst (alloc s)" "snd (alloc s)"]
    alloc_none [of s "snd (alloc s)"]
  by (metis equals0D prod.collapse)

lemma alloc_inv:
  assumes "inv s" and "alloc s = (a, t)"
  shows "inv t" and "managed t = managed s"
  using assms alloc_some [of s a t] alloc_none [of s t] by (cases "a = 0"; simp)+

lemma alloc_managed:
  assumes "inv s" and "alloc s = (a, t)" and "a \<noteq> 0"
  shows "a \<in> managed t" and "a \<notin> frames t" and "a AND 0xFFF = 0"
  using assms alloc_some [OF assms] frames_managed [of s] managed_aligned [of s a] by auto

text \<open>An allocation that is given back leaves the free frames as they were.\<close>

lemma alloc_release:
  assumes "inv s" and "alloc s = (a, t)" and "a \<noteq> 0"
  shows "inv (release t a)" and "frames (release t a) = frames s"
    and "managed (release t a) = managed s"
  using release_ok [of t a] alloc_some [OF assms] alloc_managed [OF assms] by auto

lemma alloc_twice:
  assumes "inv s" and "alloc s = (a, t)" and "a \<noteq> 0" and "alloc t = (b, u)" and "b \<noteq> 0"
  shows "a \<noteq> b" and "frames u = frames s - {a, b}" and "inv u"
  using assms alloc_some [OF assms(1-3)] alloc_some [of t b u] by auto

text \<open>The roll-back of two allocations, the first given back first as \<open>process_create\<close> does.\<close>

lemma alloc_twice_release:
  assumes "inv s" and "alloc s = (a, t)" and "a \<noteq> 0" and "alloc t = (b, u)" and "b \<noteq> 0"
  shows "frames (release (release u b) a) = frames s" and "inv (release (release u b) a)"
proof -
  note t = alloc_some [OF assms(1-3)] and u = alloc_release [OF _ assms(4,5)]
  have "inv (release u b)" "frames (release u b) = frames s - {a}"
    "managed (release u b) = managed s"
    using t u by auto
  then show "frames (release (release u b) a) = frames s"
    and "inv (release (release u b) a)"
    using release_ok [of "release u b" a] t frames_managed [of s] by auto
qed

end

section \<open>Bounded queues\<close>

text \<open>\<open>n\<close> removals in a row, with the elements in the order they came out.\<close>

primrec drain :: "('q \<Rightarrow> 'a \<times> 'q) \<Rightarrow> nat \<Rightarrow> 'q \<Rightarrow> 'a list \<times> 'q" where
  "drain pop 0 q = ([], q)"
| "drain pop (Suc n) q = (let (x, q1) = pop q; (xs, q2) = drain pop n q1 in (x # xs, q2))"

text \<open>
  A queue of at most \<open>cap\<close> elements that gives up its oldest element to make room for a new one,
  as \<open>push_event\<close> does. The client sees the list of waiting elements, oldest first.
\<close>

locale bounded_queue =
  fixes push :: "'q \<Rightarrow> 'a \<Rightarrow> 'q"
    and pop :: "'q \<Rightarrow> 'a \<times> 'q"
    and pending :: "'q \<Rightarrow> bool"
    and waiting :: "'q \<Rightarrow> 'a list"
    and cap :: nat
    and inv :: "'q \<Rightarrow> bool"
  assumes cap_pos: "0 < cap"
    and waiting_cap: "inv q \<Longrightarrow> length (waiting q) \<le> cap"
    and push_inv: "inv q \<Longrightarrow> inv (push q x)"
    and pop_inv: "inv q \<Longrightarrow> inv (snd (pop q))"
    and push_waiting: "inv q \<Longrightarrow> waiting (push q x) =
          (if length (waiting q) = cap then tl (waiting q) else waiting q) @ [x]"
    and pop_waiting: "\<lbrakk>inv q; waiting q = x # xs\<rbrakk> \<Longrightarrow> fst (pop q) = x \<and> waiting (snd (pop q)) = xs"
    and pop_empty: "\<lbrakk>inv q; waiting q = []\<rbrakk> \<Longrightarrow> snd (pop q) = q"
    and pending_iff: "inv q \<Longrightarrow> pending q \<longleftrightarrow> waiting q \<noteq> []"
begin

lemma pushes_inv: "inv q \<Longrightarrow> inv (fold (\<lambda>x q. push q x) xs q)"
  by (induction xs arbitrary: q) (simp_all add: push_inv)

text \<open>After any number of insertions exactly the newest \<open>cap\<close> elements are waiting, in order.\<close>

lemma push_last:
  assumes "inv q"
  shows "waiting (push q x) = drop (Suc (length (waiting q)) - cap) (waiting q @ [x])"
  using push_waiting [OF assms, of x] waiting_cap [OF assms] cap_pos
  by (cases "waiting q") (auto simp: Suc_diff_le)

lemma pushes_waiting:
  assumes "inv q"
  shows "waiting (fold (\<lambda>x q. push q x) xs q) =
           drop (length (waiting q @ xs) - cap) (waiting q @ xs)"
  using assms
proof (induction xs arbitrary: q)
  case Nil
  then show ?case using waiting_cap [OF Nil] by simp
next
  case (Cons x xs)
  let ?w = "waiting q"
  have IH: "waiting (fold (\<lambda>x q. push q x) (x # xs) q) =
      drop (length (waiting (push q x) @ xs) - cap) (waiting (push q x) @ xs)"
    using Cons.IH [OF push_inv [OF Cons.prems]] by simp
  show ?case
  proof (cases "length ?w = cap")
    case True
    then obtain y ys where w: "?w = y # ys" using cap_pos by (cases ?w) auto
    then have "waiting (push q x) = ys @ [x]"
      using push_waiting [OF Cons.prems, of x] True by simp
    then show ?thesis using IH w True by (simp add: Suc_diff_le)
  next
    case False
    then have "waiting (push q x) = ?w @ [x]"
      using push_waiting [OF Cons.prems, of x] by simp
    then show ?thesis using IH by simp
  qed
qed

text \<open>Removals return the waiting elements first in, first out.\<close>

lemma drain_waiting:
  assumes "inv q" and "n \<le> length (waiting q)"
  shows "fst (drain pop n q) = take n (waiting q) \<and>
         waiting (snd (drain pop n q)) = drop n (waiting q) \<and> inv (snd (drain pop n q))"
  using assms
proof (induction n arbitrary: q)
  case (Suc n)
  then obtain x xs where w: "waiting q = x # xs" by (cases "waiting q") auto
  obtain y q1 where p: "pop q = (y, q1)" by (cases "pop q")
  have "y = x" "waiting q1 = xs" "inv q1"
    using pop_waiting [OF Suc.prems(1) w] pop_inv [OF Suc.prems(1)] p by simp_all
  then show ?case using Suc.IH [of q1] Suc.prems(2) w p by (simp add: split_beta)
qed simp

lemma push_drain:
  assumes "inv q" and "waiting q = []" and "length xs \<le> cap"
  shows "fst (drain pop (length xs) (fold (\<lambda>x q. push q x) xs q)) = xs"
  using drain_waiting [OF pushes_inv [OF assms(1)], of "length xs" xs] pushes_waiting [OF assms(1), of xs]
    assms(2,3) by simp

end

section \<open>Files by name\<close>

text \<open>A sequence of writes, each expected to store its whole argument.\<close>

primrec store_all :: "('s \<Rightarrow> string \<Rightarrow> u8 list \<Rightarrow> u32 \<Rightarrow> (int \<times> 's) option) \<Rightarrow>
    (string \<times> u8 list) list \<Rightarrow> 's \<Rightarrow> 's option" where
  "store_all put [] s = Some s"
| "store_all put (x # xs) s =
     (case put s (fst x) (snd x) (word_of_nat (length (snd x))) of
        None \<Rightarrow> None
      | Some (r, t) \<Rightarrow> if 0 \<le> r then store_all put xs t else None)"

text \<open>
  The contract of the file system: \<open>files\<close> is the partial map from names to contents that its
  state stands for, with at most \<open>cap\<close> files of at most \<open>limit\<close> bytes under \<open>valid\<close> names.
\<close>

locale file_store =
  fixes create :: "'s \<Rightarrow> string \<Rightarrow> int \<times> 's"
    and put :: "'s \<Rightarrow> string \<Rightarrow> u8 list \<Rightarrow> u32 \<Rightarrow> (int \<times> 's) option"
    and remove :: "'s \<Rightarrow> string \<Rightarrow> int \<times> 's"
    and files :: "'s \<Rightarrow> string \<Rightarrow> u8 list option"
    and valid :: "string \<Rightarrow> bool"
    and cap :: nat
    and limit :: nat
    and inv :: "'s \<Rightarrow> bool"
  assumes limit_word: "limit < 2 ^ 32"
    and finite_files: "inv s \<Longrightarrow> finite (dom (files s)) \<and> card (dom (files s)) \<le> cap"
    and create_new: "\<lbrakk>inv s; valid n; n \<notin> dom (files s); card (dom (files s)) < cap\<rbrakk> \<Longrightarrow>
          \<exists>t. create s n = (0, t) \<and> inv t \<and> files t = (files s)(n \<mapsto> [])"
    and create_fail: "\<lbrakk>inv s; valid n; n \<in> dom (files s) \<or> card (dom (files s)) = cap\<rbrakk> \<Longrightarrow>
          create s n = (-1, s)"
    and write_ok: "\<lbrakk>inv s; valid n; unat sz \<le> length d; n \<in> dom (files s) \<or> card (dom (files s)) < cap\<rbrakk>
          \<Longrightarrow> \<exists>t. put s n d sz = Some (int (min (unat sz) limit), t) \<and> inv t \<and>
                files t = (files s)(n \<mapsto> take (min (unat sz) limit) d)"
    and write_full: "\<lbrakk>inv s; valid n; n \<notin> dom (files s); card (dom (files s)) = cap\<rbrakk> \<Longrightarrow>
          put s n d sz = Some (-1, s)"
    and remove_law: "inv s \<Longrightarrow> inv (snd (remove s n)) \<and> files (snd (remove s n)) = (files s)(n := None)
          \<and> fst (remove s n) = (if n \<in> dom (files s) then 0 else -1)"
begin

lemma write_card:
  assumes "inv s" and "files t = (files s)(n \<mapsto> d)"
  shows "dom (files t) = insert n (dom (files s))"
  using assms by auto

text \<open>
  A batch of files is stored as long as all names together fit: of each file at most \<open>limit\<close> bytes
  are kept, the last put to a name wins and no other file changes.
\<close>

lemma store_all_ok:
  assumes "inv s" and "\<forall>x \<in> set xs. valid (fst x) \<and> length (snd x) < 2 ^ 32"
    and "card (dom (files s) \<union> fst ` set xs) \<le> cap"
  shows "\<exists>t. store_all put xs s = Some t \<and> inv t \<and>
           files t = files s ++ map_of (rev (map (apsnd (take limit)) xs))"
  using assms
proof (induction xs arbitrary: s)
  case (Cons x xs)
  obtain n d where x: "x = (n, d)" by (cases x)
  have len: "unat (word_of_nat (length d) :: u32) = length d" "take (min (length d) limit) d = take limit d"
    using Cons.prems(2) by (auto simp: x unat_of_nat take_bit_nat_eq_self min_def)
  have fin: "finite (dom (files s))" using finite_files [OF Cons.prems(1)] by blast
  have "card (insert n (dom (files s))) \<le> card (dom (files s) \<union> fst ` set (x # xs))"
    using fin by (intro card_mono) (auto simp: x)
  then have room: "n \<in> dom (files s) \<or> card (dom (files s)) < cap"
    using Cons.prems(3) fin by (cases "n \<in> dom (files s)") auto
  obtain t where t: "put s n d (word_of_nat (length d)) = Some (int (min (length d) limit), t)" "inv t"
    "files t = (files s)(n \<mapsto> take limit d)"
    using write_ok [OF Cons.prems(1) _ _ room, of "word_of_nat (length d)" d] Cons.prems(2) len
    by (auto simp: x)
  have "dom (files t) \<union> fst ` set xs = dom (files s) \<union> fst ` set (x # xs)"
    by (auto simp: t(3) x)
  then obtain u where u: "store_all put xs t = Some u" "inv u" "files u = files t ++ map_of (rev (map (apsnd (take limit)) xs))"
    using Cons.IH [OF t(2)] Cons.prems(2,3) by fastforce
  have "files u = files s ++ map_of (rev (map (apsnd (take limit)) (x # xs)))"
    by (auto simp: u(3) t(3) x map_add_def fun_eq_iff split: option.splits)
  then show ?case using t u by (simp add: x)
qed simp

lemma create_write_remove:
  assumes "inv s" and "valid n" and "n \<notin> dom (files s)" and "card (dom (files s)) < cap"
    and "unat sz \<le> length d"
  shows "\<exists>t u. create s n = (0, t) \<and> put t n d sz = Some (int (min (unat sz) limit), u) \<and>
           inv (snd (remove u n)) \<and> files (snd (remove u n)) = files s \<and> fst (remove u n) = 0"
proof -
  obtain t where t: "create s n = (0, t)" "inv t" "files t = (files s)(n \<mapsto> [])"
    using create_new [OF assms(1-4)] by blast
  obtain u where u: "put t n d sz = Some (int (min (unat sz) limit), u)" "inv u"
    "files u = (files t)(n \<mapsto> take (min (unat sz) limit) d)"
    using write_ok [OF t(2) assms(2,5)] t(3) by auto
  have "(files u)(n := None) = files s" using assms(3) by (auto simp: u(3) t(3))
  then show ?thesis using t(1) u remove_law [OF u(2), of n] by auto
qed

end


section \<open>Terminals\<close>

text \<open>
  A screen of 25 lines of 80 cells, line after line in a list, with the row and column of the cursor. Both text consoles
  of the sources keep one in the video memory.
\<close>

type_synonym 'b screen = "'b list \<times> int \<times> int"

definition printable :: "char \<Rightarrow> bool" where
  "printable c \<longleftrightarrow> c \<notin> {CHR 0x08, CHR 0x09, CHR 0x0A, CHR 0x0D}"

text \<open>The line wrapped and, below the last line, the screen moved up with \<open>e\<close> in the new cells.\<close>

definition settled :: "'b \<Rightarrow> 'b screen \<Rightarrow> 'b screen" where
  "settled e x = (case x of (b, r, k) \<Rightarrow>
     let r' = (if 80 \<le> k then r + 1 else r); k' = (if 80 \<le> k then 0 else k)
     in if 25 \<le> r' then (drop 80 b @ replicate 80 e, 24, k') else (b, r', k'))"

definition placed :: "'b \<Rightarrow> 'b screen \<Rightarrow> 'b screen" where
  "placed v x = (case x of (b, r, k) \<Rightarrow> (b[nat (80 * r + k) := v], r, k + 1))"

fun on_screen :: "'b screen \<Rightarrow> bool" where
  "on_screen (b, r, k) \<longleftrightarrow> length b = 2000 \<and> 0 \<le> r \<and> r < 25 \<and> 0 \<le> k \<and> k < 80"

fun put_text :: "(char \<Rightarrow> 's \<Rightarrow> 's option) \<Rightarrow> string \<Rightarrow> 's \<Rightarrow> 's option" where
  "put_text putc [] s = Some s"
| "put_text putc (c # str) s = do { t \<leftarrow> putc c s; put_text putc str t }"

locale terminal =
  fixes putc :: "char \<Rightarrow> 's \<Rightarrow> 's option"
    and ok :: "'s \<Rightarrow> bool"
    and screen :: "'s \<Rightarrow> 'b screen"
    and entry :: "char \<Rightarrow> 's \<Rightarrow> 'b"
    and frame :: "'s \<Rightarrow> 'f"
  assumes inside: "ok s \<Longrightarrow> on_screen (screen s)"
    and put: "ok s \<Longrightarrow> printable c \<Longrightarrow>
      \<exists>t. putc c s = Some t \<and> ok t \<and> screen t = settled (entry CHR '' '' s) (placed (entry c s) (screen s)) \<and> frame t = frame s"
    and colour: "frame t = frame s \<Longrightarrow> entry c t = entry c s"
begin

text \<open>A text of printable characters always appears, and the cursor stays on the screen.\<close>

lemma text_shown: "ok s \<Longrightarrow> \<forall>c\<in>set str. printable c \<Longrightarrow> \<exists>t. put_text putc str s = Some t \<and> ok t \<and> frame t = frame s"
proof (induction str arbitrary: s)
  case (Cons c str)
  obtain t where "putc c s = Some t" "ok t" "frame t = frame s" using put [OF Cons.prems(1), of c] Cons.prems(2) by auto
  then show ?case using Cons.IH [of t] Cons.prems(2) by auto
qed simp

text \<open>If it fits on the line, it appears cell by cell from the cursor on and nothing else changes.\<close>

lemma text_on_line:
  assumes "ok s" "\<forall>c\<in>set str. printable c" "screen s = (b, r, k)" "k + int (length str) < 80"
  shows "\<exists>t. put_text putc str s = Some t \<and> ok t \<and> frame t = frame s \<and>
    screen t = (take (nat (80 * r + k)) b @ map (\<lambda>c. entry c s) str @ drop (nat (80 * r + k) + length str) b, r, k + int (length str))"
  using assms
proof (induction str arbitrary: s b k)
  case (Cons c str)
  let ?p = "nat (80 * r + k)"
  have on: "length b = 2000" "0 \<le> r" "r < 25" "0 \<le> k" "k + 1 < 80" using inside [OF Cons.prems(1)] Cons.prems(3,4) by auto
  obtain t where t: "putc c s = Some t" "ok t" "frame t = frame s"
      "screen t = settled (entry CHR '' '' s) (placed (entry c s) (screen s))"
    using put [OF Cons.prems(1), of c] Cons.prems(2) by auto
  then have st: "screen t = (b[?p := entry c s], r, k + 1)" using on Cons.prems(3) by (simp add: settled_def placed_def)
  obtain u where u: "put_text putc str t = Some u" "ok u" "frame u = frame t"
      "screen u = (take (nat (80 * r + (k + 1))) (b[?p := entry c s]) @ map (\<lambda>c. entry c t) str @
         drop (nat (80 * r + (k + 1)) + length str) (b[?p := entry c s]), r, k + 1 + int (length str))"
    using Cons.IH [OF t(2) _ st] Cons.prems(2,4) by auto
  have p: "nat (80 * r + (k + 1)) = Suc ?p" "?p < length b" using on by auto
  have "take (Suc ?p) (b[?p := entry c s]) = take ?p b @ [entry c s]" using p(2) by (simp add: take_Suc_conv_app_nth)
  then show ?case using t(1,3) u colour [OF t(3)] unfolding p(1) by simp
qed (use inside in auto)

end

section \<open>Run queues\<close>

text \<open>The highest index below \<open>n\<close> with a non-empty list.\<close>

fun highest :: "(nat \<Rightarrow> 'a list) \<Rightarrow> nat \<Rightarrow> nat option" where
  "highest Qs 0 = None"
| "highest Qs (Suc k) = (if Qs k \<noteq> [] then Some k else highest Qs k)"

lemma highest_None: "highest Qs n = None \<longleftrightarrow> (\<forall>k<n. Qs k = [])"
  by (induction n) (auto simp: less_Suc_eq)

lemma highest_Some: "highest Qs n = Some k \<longleftrightarrow> k < n \<and> Qs k \<noteq> [] \<and> (\<forall>j. k < j \<and> j < n \<longrightarrow> Qs j = [])"
  by (induction n) (auto simp: less_Suc_eq)

lemma highest_skip: "(\<And>k. m \<le> k \<Longrightarrow> k < n \<Longrightarrow> Qs k = []) \<Longrightarrow> m \<le> n \<Longrightarrow> highest Qs n = highest Qs m"
proof (induction n)
  case (Suc n)
  then show ?case by (cases "m = Suc n") auto
qed simp

lemma concat_none: "\<forall>k<n. Qs k = [] \<Longrightarrow> concat (map Qs (rev [0..<n])) = []"
  by simp

lemma highest_first: "highest Qs n = Some k \<Longrightarrow>
    concat (map Qs (rev [0..<n])) = hd (Qs k) # concat (map (Qs(k := tl (Qs k))) (rev [0..<n])) \<and>
    (\<Sum>j<n. length (Qs j)) = Suc (\<Sum>j<n. length ((Qs(k := tl (Qs k))) j))"
proof (induction n)
  case (Suc n)
  show ?case
  proof (cases "Qs n = []")
    case True
    then have "k \<noteq> n" "highest Qs n = Some k" using Suc.prems by (auto simp: highest_Some)
    then show ?thesis using Suc.IH True by simp
  next
    case False
    then have k: "k = n" using Suc.prems by simp
    have same: "concat (map (\<lambda>j. if j = n then ps else Qs j) (rev [0..<n])) = concat (map Qs (rev [0..<n]))" for ps
      by (rule arg_cong [where f = concat]) simp
    show ?thesis using False unfolding k by (cases "Qs n") (simp_all add: same)
  qed
qed simp

text \<open>
  The client's view of \<open>enqueue_thread\<close> and \<open>dequeue_highest_priority\<close>: a processor's queue is one list per priority
  below \<open>n\<close>; \<open>add\<close> puts a fitting element in front of its list, \<open>remove\<close> takes the first one of the highest list.
\<close>

fun drain_queue :: "('s \<Rightarrow> ('a option \<times> 's) option) \<Rightarrow> nat \<Rightarrow> 's \<Rightarrow> ('a list \<times> 's) option" where
  "drain_queue remove 0 s = Some ([], s)"
| "drain_queue remove (Suc m) s = do {
     (x, t) \<leftarrow> remove s;
     (case x of
        None \<Rightarrow> Some ([], t)
      | Some p \<Rightarrow> do { (xs, u) \<leftarrow> drain_queue remove m t; Some (p # xs, u) })
   }"

locale run_queue =
  fixes add :: "'q \<Rightarrow> 'a \<Rightarrow> 's \<Rightarrow> 's option"
    and remove :: "'q \<Rightarrow> 's \<Rightarrow> ('a option \<times> 's) option"
    and lists :: "'q \<Rightarrow> 's \<Rightarrow> (nat \<Rightarrow> 'a list) \<Rightarrow> bool"
    and fits :: "'q \<Rightarrow> 's \<Rightarrow> 'a \<Rightarrow> nat \<Rightarrow> bool"
    and n :: nat
  assumes fits_less: "fits q s p k \<Longrightarrow> k < n"
    and add_front: "\<lbrakk>lists q s C; fits q s p k; p \<notin> set (C k)\<rbrakk> \<Longrightarrow>
          \<exists>t. add q p s = Some t \<and> lists q t (C(k := p # C k))"
    and remove_none: "\<lbrakk>lists q s C; highest C n = None\<rbrakk> \<Longrightarrow> remove q s = Some (None, s)"
    and remove_some: "\<lbrakk>lists q s C; highest C n = Some k\<rbrakk> \<Longrightarrow>
          \<exists>t. remove q s = Some (Some (hd (C k)), t) \<and> lists q t (C(k := tl (C k)))"
begin

text \<open>Removing until nothing is left gives every element once, in descending priority, the newest first.\<close>

lemma drain_order:
  assumes "lists q s C"
  shows "\<exists>t. drain_queue (remove q) (\<Sum>k<n. length (C k)) s = Some (concat (map C (rev [0..<n])), t) \<and>
    remove q t = Some (None, t)"
  using assms
proof (induction "\<Sum>k<n. length (C k)" arbitrary: s C)
  case 0
  then have none: "highest C n = None" by (simp add: highest_None)
  then have "concat (map C (rev [0..<n])) = []" using concat_none by (simp only: highest_None)
  then show ?case using remove_none [OF 0(2) none] unfolding 0(1) [symmetric] by simp
next
  case (Suc m)
  then obtain k where k: "highest C n = Some k"
    by (cases "highest C n") (auto simp: highest_None)
  obtain t where t: "remove q s = Some (Some (hd (C k)), t)" "lists q t (C(k := tl (C k)))"
    using remove_some [OF Suc.prems k] by blast
  note h = highest_first [OF k]
  then have "m = (\<Sum>j<n. length ((C(k := tl (C k))) j))" using Suc.hyps(2) by simp
  from Suc.hyps(1) [OF this t(2)] this obtain u
    where "drain_queue (remove q) m t = Some (concat (map (C(k := tl (C k))) (rev [0..<n])), u)" "remove q u = Some (None, u)"
    by auto
  then show ?case using t(1) h unfolding Suc.hyps(2) [symmetric] by simp
qed

text \<open>An element added while no higher one waits is the next to be removed, and the queue is as before.\<close>

lemma add_remove:
  assumes "lists q s C" "fits q s p k" "p \<notin> set (C k)" "\<And>j. k < j \<Longrightarrow> j < n \<Longrightarrow> C j = []"
  shows "\<exists>t u. add q p s = Some t \<and> remove q t = Some (Some p, u) \<and> lists q u C"
proof -
  obtain t where t: "add q p s = Some t" "lists q t (C(k := p # C k))" using add_front [OF assms(1-3)] by blast
  have "highest (C(k := p # C k)) n = Some k" using fits_less [OF assms(2)] assms(4) by (auto simp: highest_Some)
  from remove_some [OF t(2) this] show ?thesis using t(1) by simp
qed

end

end
