(* ===== verification/Console.thy ===== *)
theory Console
  imports Ports Interfaces
begin

text \<open>
  The text screen of \<open>simpleos-main/simpleos/vga.c\<close> and \<open>vga.h\<close>. A character is an Isabelle
  \<open>char\<close>, read as C's signed \<open>char\<close> where it is widened. The 2000 cells of the video memory
  are a list; an access outside it is the value \<open>None\<close>.
\<close>

section \<open>State and operations\<close>

definition VGA_WIDTH :: int where "VGA_WIDTH = 80"
definition VGA_HEIGHT :: int where "VGA_HEIGHT = 25"
definition VGA_COLOR_BLACK :: u8 where "VGA_COLOR_BLACK = 0"
definition VGA_COLOR_RED :: u8 where "VGA_COLOR_RED = 4"
definition VGA_COLOR_LIGHT_GREY :: u8 where "VGA_COLOR_LIGHT_GREY = 7"
definition VGA_COLOR_LIGHT_GREEN :: u8 where "VGA_COLOR_LIGHT_GREEN = 10"
definition VGA_COLOR_LIGHT_CYAN :: u8 where "VGA_COLOR_LIGHT_CYAN = 11"
definition VGA_COLOR_WHITE :: u8 where "VGA_COLOR_WHITE = 15"

record vga = hw +
  vga_buffer :: "u16 list"
  vga_row :: int
  vga_col :: int
  vga_color_attr :: u8

definition signed_char :: "char \<Rightarrow> 'a::len word" where
  "signed_char c = scast (of_char c :: u8)"

definition vga_entry :: "char \<Rightarrow> u8 \<Rightarrow> u16" where
  "vga_entry c color = signed_char c OR push_bit 8 (ucast color)"

definition vga_color :: "u8 \<Rightarrow> u8 \<Rightarrow> u8" where
  "vga_color fg bg = fg OR push_bit 4 bg"

definition update_cursor :: "'s vga_scheme \<Rightarrow> 's vga_scheme" where
  "update_cursor s =
     (let pos = (of_int (vga_row s * VGA_WIDTH + vga_col s) :: u16)
      in outb 0x3D5 (ucast (drop_bit 8 pos AND 0xFF)) (outb 0x3D4 0x0E
           (outb 0x3D5 (ucast (pos AND 0xFF)) (outb 0x3D4 0x0F s))))"

text \<open>A store to the video memory.\<close>

definition vga_store :: "int \<Rightarrow> u16 \<Rightarrow> 's vga_scheme \<Rightarrow> 's vga_scheme option" where
  "vga_store i v s =
     (if 0 \<le> i \<and> i < int (length (vga_buffer s)) then Some (s\<lparr>vga_buffer := (vga_buffer s)[nat i := v]\<rparr>) else None)"

definition vga_load :: "int \<Rightarrow> 's vga_scheme \<Rightarrow> u16 option" where
  "vga_load i s = (if 0 \<le> i \<and> i < int (length (vga_buffer s)) then Some (vga_buffer s ! nat i) else None)"

text \<open>\<open>for (int i = a; i < n; i++)\<close> with a body that may fault.\<close>

function for_int :: "int \<Rightarrow> int \<Rightarrow> (int \<Rightarrow> 's \<Rightarrow> 's option) \<Rightarrow> 's \<Rightarrow> 's option" where
  "for_int i n body s = (if i < n then (case body i s of None \<Rightarrow> None | Some t \<Rightarrow> for_int (i + 1) n body t) else Some s)"
  by pat_completeness auto
termination by (relation "measure (\<lambda>(i, n, _, _). nat (n - i))") auto

declare for_int.simps [simp del]

definition scroll :: "'s vga_scheme \<Rightarrow> 's vga_scheme option" where
  "scroll s =
     (if vga_row s \<ge> VGA_HEIGHT
      then do {
        s1 \<leftarrow> for_int 0 ((VGA_HEIGHT - 1) * VGA_WIDTH)
                (\<lambda>i t. do { v \<leftarrow> vga_load (i + VGA_WIDTH) t; vga_store i v t }) s;
        s2 \<leftarrow> for_int ((VGA_HEIGHT - 1) * VGA_WIDTH) (VGA_HEIGHT * VGA_WIDTH)
                (\<lambda>i t. vga_store i (vga_entry CHR '' '' (vga_color_attr t)) t) s1;
        Some (s2\<lparr>vga_row := VGA_HEIGHT - 1\<rparr>)
      }
      else Some s)"

definition vga_clear :: "'s vga_scheme \<Rightarrow> 's vga_scheme option" where
  "vga_clear s = do {
     s1 \<leftarrow> for_int 0 (VGA_WIDTH * VGA_HEIGHT) (\<lambda>i t. vga_store i (vga_entry CHR '' '' (vga_color_attr t)) t) s;
     Some (update_cursor (s1\<lparr>vga_row := 0, vga_col := 0\<rparr>))
   }"

definition vga_init :: "'s vga_scheme \<Rightarrow> 's vga_scheme option" where
  "vga_init s = do {
     s1 \<leftarrow> vga_clear (s\<lparr>vga_color_attr := vga_color VGA_COLOR_LIGHT_GREY VGA_COLOR_BLACK\<rparr>);
     let (v, s2) = inb 0x3D5 (outb 0x3D4 0x0A s1);
     let s3 = outb 0x3D5 ((v AND 0xC0) OR 0) s2;
     let (w, s4) = inb 0x3D5 (outb 0x3D4 0x0B s3);
     Some (outb 0x3D5 ((w AND 0xE0) OR 15) s4)
   }"

definition vga_putchar :: "char \<Rightarrow> 's vga_scheme \<Rightarrow> 's vga_scheme option" where
  "vga_putchar c s = do {
     s1 \<leftarrow> (if c = CHR 0x0A then Some (s\<lparr>vga_col := 0, vga_row := vga_row s + 1\<rparr>)
           else if c = CHR 0x0D then Some (s\<lparr>vga_col := 0\<rparr>)
           else if c = CHR 0x09 then Some (s\<lparr>vga_col := (vga_col s + 8) AND NOT 7\<rparr>)
           else if c = CHR 0x08 then
             (if vga_col s > 0
              then let t = s\<lparr>vga_col := vga_col s - 1\<rparr>
                   in vga_store (vga_row t * VGA_WIDTH + vga_col t) (vga_entry CHR '' '' (vga_color_attr t)) t
              else Some s)
           else do {
             t \<leftarrow> vga_store (vga_row s * VGA_WIDTH + vga_col s) (vga_entry c (vga_color_attr s)) s;
             Some (t\<lparr>vga_col := vga_col t + 1\<rparr>)
           });
     let s2 = (if vga_col s1 \<ge> VGA_WIDTH then s1\<lparr>vga_col := 0, vga_row := vga_row s1 + 1\<rparr> else s1);
     s3 \<leftarrow> scroll s2;
     Some (update_cursor s3)
   }"

fun vga_puts :: "string \<Rightarrow> 's vga_scheme \<Rightarrow> 's vga_scheme option" where
  "vga_puts [] s = Some s"
| "vga_puts (c # str) s = do { t \<leftarrow> vga_putchar c s; vga_puts str t }"

definition vga_set_color :: "u8 \<Rightarrow> u8 \<Rightarrow> 's vga_scheme \<Rightarrow> 's vga_scheme" where
  "vga_set_color fg bg s = s\<lparr>vga_color_attr := vga_color fg bg\<rparr>"

definition vga_set_cursor :: "int \<Rightarrow> int \<Rightarrow> 's vga_scheme \<Rightarrow> 's vga_scheme" where
  "vga_set_cursor x y s =
     (if x \<ge> 0 \<and> x < VGA_WIDTH \<and> y \<ge> 0 \<and> y < VGA_HEIGHT
      then update_cursor (s\<lparr>vga_col := x, vga_row := y\<rparr>) else s)"

section \<open>The screen as a list of cells\<close>

lemma vga_constants [word_norm]: "VGA_WIDTH = 80" "VGA_HEIGHT = 25"
  by (simp_all add: VGA_WIDTH_def VGA_HEIGHT_def)

definition vga_inv :: "'s vga_scheme \<Rightarrow> bool" where
  "vga_inv s \<longleftrightarrow> length (vga_buffer s) = 2000 \<and> 0 \<le> vga_row s \<and> vga_row s < 25 \<and> 0 \<le> vga_col s \<and> vga_col s < 80"

lemma for_int_rule:
  assumes "P a s" and "a \<le> n"
    and "\<And>i s. a \<le> i \<Longrightarrow> i < n \<Longrightarrow> P i s \<Longrightarrow> \<exists>t. body i s = Some t \<and> P (i + 1) t"
  shows "\<exists>t. for_int a n body s = Some t \<and> P n t"
  using assms
proof (induction a n body s rule: for_int.induct)
  case (1 i n body s)
  show ?case
  proof (cases "i < n")
    case True
    then obtain t where t: "body i s = Some t" "P (i + 1) t" using "1.prems" by blast
    have "\<exists>u. for_int (i + 1) n body t = Some u \<and> P n u"
      by (rule "1.IH" [OF True t(1) t(2)]) (use True "1.prems"(3) in auto)
    then show ?thesis using True t by (simp add: for_int.simps [of i])
  next
    case False
    with "1.prems"(1,2) show ?thesis by (simp add: for_int.simps)
  qed
qed

definition blank :: "'s vga_scheme \<Rightarrow> u16" where
  "blank s = vga_entry CHR '' '' (vga_color_attr s)"

lemma fill_cells:
  assumes len: "length (vga_buffer s) = 2000" and ab: "0 \<le> a" "a \<le> b" "b \<le> 2000"
  shows "for_int a b (\<lambda>i t. vga_store i (vga_entry CHR '' '' (vga_color_attr t)) t) s =
    Some (s\<lparr>vga_buffer := take (nat a) (vga_buffer s) @ replicate (nat (b - a)) (blank s) @ drop (nat b) (vga_buffer s)\<rparr>)"
proof -
  let ?P = "\<lambda>i t. t = s\<lparr>vga_buffer := take (nat a) (vga_buffer s) @ replicate (nat (i - a)) (blank s) @
      drop (nat i) (vga_buffer s)\<rparr>"
  have "\<exists>t. for_int a b (\<lambda>i t. vga_store i (vga_entry CHR '' '' (vga_color_attr t)) t) s = Some t \<and> ?P b t"
  proof (rule for_int_rule)
    show "?P a s" by simp
    show "a \<le> b" by (rule ab)
  next
    fix i t assume i: "a \<le> i" "i < b" and t: "?P i t"
    have n: "nat i < 2000" "nat (i + 1) = Suc (nat i)" "nat (i + 1 - a) = Suc (nat (i - a))" using i ab by auto
    let ?p = "take (nat a) (vga_buffer s) @ replicate (nat (i - a)) (blank s)"
    have d: "drop (nat i) (vga_buffer s) = vga_buffer s ! nat i # drop (Suc (nat i)) (vga_buffer s)"
      using n len by (simp add: Cons_nth_drop_Suc)
    have "length ?p = nat i" using i ab len by auto
    then have "(?p @ drop (nat i) (vga_buffer s))[nat i := blank s] = ?p @ blank s # drop (Suc (nat i)) (vga_buffer s)"
      unfolding d by (metis list_update_length)
    then have "(take (nat a) (vga_buffer s) @ replicate (nat (i - a)) (blank s) @ drop (nat i) (vga_buffer s))[nat i := blank s]
        = take (nat a) (vga_buffer s) @ replicate (nat (i + 1 - a)) (blank s) @ drop (nat (i + 1)) (vga_buffer s)"
      unfolding n(2,3) by (simp add: replicate_append_same [symmetric])
    moreover have "i < int (length (vga_buffer t))" using i ab len by (simp add: t)
    ultimately show "\<exists>u. vga_store i (vga_entry CHR '' '' (vga_color_attr t)) t = Some u \<and> ?P (i + 1) u"
      using i ab t by (simp add: vga_store_def blank_def)
  qed
  then show ?thesis by auto
qed

lemma move_cells:
  assumes len: "length (vga_buffer s) = 2000"
  shows "for_int 0 1920 (\<lambda>i t. do { v \<leftarrow> vga_load (i + 80) t; vga_store i v t }) s =
    Some (s\<lparr>vga_buffer := drop 80 (vga_buffer s) @ drop 1920 (vga_buffer s)\<rparr>)"
proof -
  let ?b = "vga_buffer s"
  let ?P = "\<lambda>i t. t = s\<lparr>vga_buffer := take (nat i) (drop 80 ?b) @ drop (nat i) ?b\<rparr>"
  have "\<exists>t. for_int 0 1920 (\<lambda>i t. do { v \<leftarrow> vga_load (i + 80) t; vga_store i v t }) s = Some t \<and> ?P 1920 t"
  proof (rule for_int_rule)
    show "?P 0 s" by simp
    show "(0 :: int) \<le> 1920" by simp
  next
    fix i :: int and t assume i: "0 \<le> i" "i < 1920" and t: "?P i t"
    define n where "n = nat i"
    have n: "n < 1920" "i = int n" "nat (i + 1) = Suc n" "nat (i + 80) = n + 80" using i by (auto simp: n_def)
    have l: "length (vga_buffer t) = 2000" using n(1) len by (simp add: t n_def [symmetric])
    have at: "vga_buffer t ! (n + 80) = ?b ! (n + 80)"
      using n(1) len by (simp add: t n_def [symmetric] nth_append)
    have d: "drop n ?b = ?b ! n # drop (Suc n) ?b" using n(1) len by (simp add: Cons_nth_drop_Suc)
    have tk: "take (Suc n) (drop 80 ?b) = take n (drop 80 ?b) @ [?b ! (n + 80)]"
      using n(1) len by (subst take_Suc_conv_app_nth) (simp_all add: add.commute)
    have "(take n (drop 80 ?b) @ drop n ?b)[n := ?b ! (n + 80)] = take (Suc n) (drop 80 ?b) @ drop (Suc n) ?b"
      using n(1) len unfolding d tk by (simp add: list_update_append)
    then have "vga_store i (?b ! (n + 80)) t = Some (s\<lparr>vga_buffer := take (Suc n) (drop 80 ?b) @ drop (Suc n) ?b\<rparr>)"
      using l n by (simp add: vga_store_def t n_def [symmetric])
    moreover have "vga_load (i + 80) t = Some (?b ! (n + 80))"
      using l n at by (simp add: vga_load_def)
    ultimately show "\<exists>u. (do { v \<leftarrow> vga_load (i + 80) t; vga_store i v t }) = Some u \<and> ?P (i + 1) u"
      using n(3) by simp
  qed
  then show ?thesis using len by (simp add: take_all)
qed

lemma update_cursor_simps [simp]:
  "vga_buffer (update_cursor s) = vga_buffer s" "vga_row (update_cursor s) = vga_row s"
  "vga_col (update_cursor s) = vga_col s" "vga_color_attr (update_cursor s) = vga_color_attr s"
  "device (update_cursor s) = device s" "clock (update_cursor s) = clock s" "vga.more (update_cursor s) = vga.more s"
  by (simp_all add: update_cursor_def Let_def outb_def)

lemma scroll_spec:
  assumes "length (vga_buffer s) = 2000"
  shows "scroll s = Some (if vga_row s \<ge> 25
    then s\<lparr>vga_buffer := drop 80 (vga_buffer s) @ replicate 80 (blank s), vga_row := 24\<rparr> else s)"
proof -
  let ?s = "s\<lparr>vga_buffer := drop 80 (vga_buffer s) @ drop 1920 (vga_buffer s)\<rparr>"
  have "length (vga_buffer ?s) = 2000" "blank ?s = blank s" using assms by (simp_all add: blank_def)
  then have "for_int 1920 2000 (\<lambda>i t. vga_store i (vga_entry CHR '' '' (vga_color_attr t)) t) ?s =
      Some (s\<lparr>vga_buffer := drop 80 (vga_buffer s) @ replicate 80 (blank s)\<rparr>)"
    using assms fill_cells [of ?s 1920 2000] by (simp add: eval_nat_numeral(3) [symmetric])
  then show ?thesis using move_cells [OF assms] by (simp add: scroll_def word_norm)
qed

lemma vga_clear_spec:
  assumes "length (vga_buffer s) = 2000"
  shows "\<exists>t. vga_clear s = Some t \<and> vga_inv t \<and> vga_buffer t = replicate 2000 (blank s) \<and> vga_row t = 0 \<and>
    vga_col t = 0 \<and> vga_color_attr t = vga_color_attr s \<and> device t = device s \<and> clock t = clock s"
  using fill_cells [OF assms, of 0 2000] assms by (simp add: vga_clear_def word_norm vga_inv_def)

text \<open>What a character does before the line is wrapped and the screen scrolled: cells, row and column.\<close>

definition typed :: "char \<Rightarrow> 's vga_scheme \<Rightarrow> u16 list \<times> int \<times> int" where
  "typed c s =
     (let b = vga_buffer s; r = vga_row s; k = vga_col s
      in if c = CHR 0x0A then (b, r + 1, 0)
         else if c = CHR 0x0D then (b, r, 0)
         else if c = CHR 0x09 then (b, r, 8 + 8 * (k div 8))
         else if c = CHR 0x08 then (if 0 < k then (b[nat (80 * r + k - 1) := blank s], r, k - 1) else (b, r, k))
         else (b[nat (80 * r + k) := vga_entry c (vga_color_attr s)], r, k + 1))"

lemma and_not_mask: "a AND NOT (mask m) = push_bit m (drop_bit m a)" for a :: int
  by (rule bit_eqI) (auto simp: bit_simps not_less)

lemma tab_stop: "(k + 8) AND - 8 = 8 + 8 * (k div 8)" for k :: int
proof -
  have "(- 8 :: int) = NOT (mask 3)" by (simp add: mask_eq_exp_minus_1)
  then have "(k + 8) AND - 8 = push_bit 3 (drop_bit 3 (k + 8))" by (simp only: and_not_mask)
  moreover have "(k + 8) div 8 = k div 8 + 1" by simp
  ultimately show ?thesis by (simp add: push_bit_eq_mult drop_bit_eq_div)
qed

lemma vga_putchar_spec:
  assumes "vga_inv s"
  obtains t where "vga_putchar c s = Some t" "vga_inv t"
    "(vga_buffer t, vga_row t, vga_col t) = settled (blank s) (typed c s)"
    "vga_color_attr t = vga_color_attr s" "device t = device s" "clock t = clock s" "vga.more t = vga.more s"
proof -
  note I = assms [unfolded vga_inv_def]
  obtain b r k where ty: "typed c s = (b, r, k)" by (cases "typed c s")
  have t: "length b = 2000" "0 \<le> r" "r \<le> 25" "0 \<le> k" "k \<le> 80" "r = 25 \<Longrightarrow> k = 0"
    using ty I by (auto simp: typed_def Let_def split: if_splits)
  define s1 where "s1 = s\<lparr>vga_buffer := b, vga_row := r, vga_col := k\<rparr>"
  define s2 where "s2 = (if vga_col s1 \<ge> 80 then s1\<lparr>vga_col := 0, vga_row := vga_row s1 + 1\<rparr> else s1)"
  have len: "length (vga_buffer s2) = 2000" using t(1) by (simp add: s1_def s2_def)
  have step: "(if c = CHR 0x0A then Some (s\<lparr>vga_col := 0, vga_row := vga_row s + 1\<rparr>)
           else if c = CHR 0x0D then Some (s\<lparr>vga_col := 0\<rparr>)
           else if c = CHR 0x09 then Some (s\<lparr>vga_col := (vga_col s + 8) AND NOT 7\<rparr>)
           else if c = CHR 0x08 then
             (if vga_col s > 0
              then let t = s\<lparr>vga_col := vga_col s - 1\<rparr>
                   in vga_store (vga_row t * VGA_WIDTH + vga_col t) (vga_entry CHR '' '' (vga_color_attr t)) t
              else Some s)
           else do {
             t \<leftarrow> vga_store (vga_row s * VGA_WIDTH + vga_col s) (vga_entry c (vga_color_attr s)) s;
             Some (t\<lparr>vga_col := vga_col t + 1\<rparr>)
           }) = Some s1"
  proof -
    have i: "80 * vga_row s + vga_col s = vga_row s * 80 + vga_col s" by simp
    consider "c = CHR 0x0A" | "c = CHR 0x0D" | "c = CHR 0x09" | "c = CHR 0x08" | "printable c"
      by (auto simp: printable_def)
    then show ?thesis
      using ty I by cases (auto simp: typed_def printable_def Let_def word_norm vga_store_def tab_stop s1_def blank_def i
        add_diff_eq)
  qed
  have "vga_putchar c s = (do { s3 \<leftarrow> scroll s2; Some (update_cursor s3) })"
    unfolding vga_putchar_def step by (simp add: s2_def word_norm)
  then have e: "vga_putchar c s = Some (update_cursor (if vga_row s2 \<ge> 25
      then s2\<lparr>vga_buffer := drop 80 (vga_buffer s2) @ replicate 80 (blank s2), vga_row := 24\<rparr> else s2))"
    by (simp add: scroll_spec [OF len])
  have bl: "blank s2 = blank s" by (simp add: s1_def s2_def blank_def)
  show thesis
    by (rule that [OF e])
      (use t ty in \<open>auto simp: vga_inv_def bl settled_def Let_def\<close>, auto simp: s2_def s1_def)
qed

text \<open>The console keeps the contract of a terminal.\<close>

definition screen_cells :: "'s vga_scheme \<Rightarrow> u16 screen" where
  "screen_cells s = (vga_buffer s, vga_row s, vga_col s)"

interpretation vt: terminal vga_putchar vga_inv screen_cells "\<lambda>c s. vga_entry c (vga_color_attr s)" vga_color_attr
proof
  fix s :: "'s vga_scheme" and c :: char
  assume s: "vga_inv s"
  then show "on_screen (screen_cells s)" by (simp add: screen_cells_def vga_inv_def)
  assume c: "printable c"
  obtain t where t: "vga_putchar c s = Some t" "vga_inv t"
      "(vga_buffer t, vga_row t, vga_col t) = settled (blank s) (typed c s)" "vga_color_attr t = vga_color_attr s"
    by (rule vga_putchar_spec [OF s, of c])
  have "typed c s = placed (vga_entry c (vga_color_attr s)) (screen_cells s)"
    using c by (simp add: typed_def placed_def screen_cells_def printable_def Let_def)
  then show "\<exists>t. vga_putchar c s = Some t \<and> vga_inv t \<and> screen_cells t = settled (vga_entry CHR '' '' (vga_color_attr s))
      (placed (vga_entry c (vga_color_attr s)) (screen_cells s)) \<and> vga_color_attr t = vga_color_attr s"
    using t by (auto simp: screen_cells_def blank_def)
qed simp

lemma vga_puts_text: "vga_puts str = put_text vga_putchar str"
proof (induction str)
  case (Cons c str)
  then show ?case by (intro ext) simp
qed auto

text \<open>What the row of the cursor shows from column \<open>p\<close> on: the low byte of a cell is its character.\<close>

definition row_text :: "int \<Rightarrow> 's vga_scheme \<Rightarrow> string" where
  "row_text p s = map (\<lambda>v. char_of (unat (ucast v :: u8)))
     (take (80 - nat p) (drop (nat (80 * vga_row s + p)) (vga_buffer s)))"

lemma char_of_byte [simp]: "char_of (unat (of_char c :: u8)) = c"
proof -
  have "(of_char c :: nat) = of_char c mod 256" by simp
  also have "\<dots> < 256" by simp
  finally have "unat (of_nat (of_char c) :: u8) = of_char c"
    by (subst unsigned_of_nat, subst take_bit_nat_eq_self) simp_all
  then show ?thesis by (simp only: of_nat_of_char char_of_char)
qed

lemma entry_char: "char_of (unat (ucast (vga_entry c a) :: u8)) = c"
proof -
  have "(ucast (vga_entry c a) :: u8) = of_char c"
  proof (rule bit_word_eqI)
    fix n assume "n < LENGTH(8)"
    then have "n < 7 \<or> n = 7" by auto
    then show "bit (ucast (vga_entry c a) :: u8) n = bit (of_char c :: u8) n"
      by (auto simp: vga_entry_def signed_char_def bit_simps min_def)
  qed
  then show ?thesis by simp
qed

lemma row_update:
  assumes "0 \<le> p" "0 \<le> r" "p + int m < 80"
  shows "map (\<lambda>v. char_of (unat (ucast v :: u8)))
      (take (80 - nat p) (drop (nat (80 * r + p)) (b[nat (80 * r + (p + int m)) := vga_entry c a]))) =
    (map (\<lambda>v. char_of (unat (ucast v :: u8))) (take (80 - nat p) (drop (nat (80 * r + p)) b)))[m := c]"
proof -
  have i: "nat (80 * r + (p + int m)) = nat (80 * r + p) + m" using assms(1,2) by simp
  show ?thesis
    unfolding i by (simp add: drop_update_swap take_update_swap map_update entry_char)
qed

text \<open>A character that stays on its row replaces the next cell, a backspace inside the row blanks the
  previous one.\<close>

lemma putchar_row:
  assumes "vga_inv s" "0 \<le> p" "vga_col s = p + int m" "p + int m + 1 < 80" "printable c"
    and "vga_putchar c s = Some t"
  shows "row_text p t = (row_text p s)[m := c]" and "vga_col t = p + int m + 1" and "vga_row t = vga_row s"
proof -
  obtain u where u: "vga_putchar c s = Some u" "(vga_buffer u, vga_row u, vga_col u) = settled (blank s) (typed c s)"
    by (rule vga_putchar_spec [OF assms(1), of c])
  have "typed c s = ((vga_buffer s)[nat (80 * vga_row s + (p + int m)) := vga_entry c (vga_color_attr s)], vga_row s, p + int m + 1)"
    using assms(3,5) by (simp add: typed_def printable_def Let_def)
  then have t: "vga_buffer t = (vga_buffer s)[nat (80 * vga_row s + (p + int m)) := vga_entry c (vga_color_attr s)]"
    "vga_row t = vga_row s" "vga_col t = p + int m + 1"
    using u assms(1,4,6) by (simp_all add: settled_def vga_inv_def Let_def)
  then show "vga_col t = p + int m + 1" "vga_row t = vga_row s" by auto
  show "row_text p t = (row_text p s)[m := c]"
    unfolding row_text_def t by (rule row_update) (use assms in \<open>auto simp: vga_inv_def\<close>)
qed

lemma backspace_row:
  assumes "vga_inv s" "0 \<le> p" "vga_col s = p + int (Suc m)" "vga_putchar CHR 0x08 s = Some t"
  shows "row_text p t = (row_text p s)[m := CHR '' '']" and "vga_col t = p + int m" and "vga_row t = vga_row s"
proof -
  obtain u where u: "vga_putchar CHR 0x08 s = Some u" "(vga_buffer u, vga_row u, vga_col u) = settled (blank s) (typed CHR 0x08 s)"
    by (rule vga_putchar_spec [OF assms(1), of "CHR 0x08"])
  have i: "80 * vga_row s + vga_col s - 1 = 80 * vga_row s + (p + int m)" using assms(3) by simp
  have "typed CHR 0x08 s = ((vga_buffer s)[nat (80 * vga_row s + vga_col s - 1) := blank s], vga_row s, vga_col s - 1)"
    using assms(2,3) by (simp add: typed_def Let_def)
  then have t: "vga_buffer t = (vga_buffer s)[nat (80 * vga_row s + (p + int m)) := vga_entry CHR '' '' (vga_color_attr s)]"
    "vga_row t = vga_row s" "vga_col t = p + int m"
    using u assms(1,3,4) unfolding i by (simp_all add: settled_def vga_inv_def blank_def Let_def)
  then show "vga_col t = p + int m" "vga_row t = vga_row s" by auto
  show "row_text p t = (row_text p s)[m := CHR '' '']"
    unfolding row_text_def t by (rule row_update) (use assms in \<open>auto simp: vga_inv_def\<close>)
qed

text \<open>At the start of a row a backspace erases nothing.\<close>

lemma backspace_at_margin:
  assumes "vga_inv s" "vga_col s = 0" "vga_putchar CHR 0x08 s = Some t"
  shows "vga_buffer t = vga_buffer s" and "vga_row t = vga_row s" and "vga_col t = 0"
proof -
  obtain u where u: "vga_putchar CHR 0x08 s = Some u" "(vga_buffer u, vga_row u, vga_col u) = settled (blank s) (typed CHR 0x08 s)"
    by (rule vga_putchar_spec [OF assms(1), of "CHR 0x08"])
  then show "vga_buffer t = vga_buffer s" "vga_row t = vga_row s" "vga_col t = 0"
    using assms by (simp_all add: settled_def typed_def Let_def vga_inv_def)
qed

section \<open>Properties\<close>

definition blank_screen :: vga where
  "blank_screen = \<lparr>device = (\<lambda>_ _. 0xFF), clock = 0, port_writes = [], vga_buffer = replicate 2000 0,
     vga_row = 0, vga_col = 0, vga_color_attr = 0x0F\<rparr>"

lemma blank_screen_inv: "vga_inv blank_screen"
  by (simp add: vga_inv_def blank_screen_def)

text \<open>Whatever character is written, \<open>vga_putchar\<close> stays inside the video memory and leaves the cursor on
  the screen; its copying and clearing loops amount to dropping the first line and adding a blank one.\<close>

theorem vga_putchar_on_screen:
  assumes "vga_inv s"
  shows "\<exists>t. vga_putchar c s = Some t \<and> vga_inv t \<and>
     (vga_buffer t, vga_row t, vga_col t) = settled (blank s) (typed c s) \<and>
     vga_color_attr t = vga_color_attr s"
  using vga_putchar_spec [OF assms, of c] by metis

theorem vga_putchar_on_screen_witness:
  "\<exists>t. vga_putchar CHR ''A'' blank_screen = Some t \<and> vga_buffer t = (replicate 2000 0)[0 := 0x0F41] \<and> vga_col t = 1"
  using vga_putchar_on_screen [OF blank_screen_inv, of "CHR ''A''"]
  by (auto simp: settled_def typed_def Let_def blank_screen_def vga_entry_def signed_char_def)

text \<open>A text of printable characters that fits on the line appears cell by cell from the cursor on, in
  the current colour, and nothing else on the screen changes.\<close>

theorem vga_puts_line:
  assumes "vga_inv s" and "\<forall>c \<in> set str. printable c" and "vga_col s + int (length str) < 80"
  shows "\<exists>t. vga_puts str s = Some t \<and> vga_inv t \<and> vga_row t = vga_row s \<and> vga_col t = vga_col s + int (length str) \<and>
     (let p = nat (80 * vga_row s + vga_col s)
      in vga_buffer t = take p (vga_buffer s) @ map (\<lambda>c. vga_entry c (vga_color_attr s)) str @
           drop (p + length str) (vga_buffer s))"
  using vt.text_on_line [OF assms(1,2), of "vga_buffer s" "vga_row s" "vga_col s"] assms(3)
  by (auto simp: vga_puts_text screen_cells_def Let_def)

theorem vga_puts_line_witness:
  "\<exists>t. vga_puts ''OS'' blank_screen = Some t \<and> vga_buffer t = [0x0F4F, 0x0F53] @ replicate 1998 0"
proof -
  have "\<forall>c \<in> set ''OS''. printable c" "vga_col blank_screen + int (length ''OS'') < 80"
    by (simp_all add: printable_def blank_screen_def)
  from vga_puts_line [OF blank_screen_inv this] show ?thesis
    by (auto simp: blank_screen_def vga_entry_def signed_char_def Let_def)
qed

text \<open>A character above 127 overwrites the colour: widening the signed \<open>char\<close> sets all attribute bits, so
  it appears as blinking white on light grey whatever colour is chosen.\<close>

theorem vga_entry_high:
  assumes "0x80 \<le> (of_char c :: u8)"
  shows "drop_bit 8 (vga_entry c color) = 0xFF"
proof (rule bit_word_eqI)
  fix n assume n: "n < LENGTH(16)"
  let ?w = "of_char c :: u8"
  have "unat ?w div 128 = 1" using assms unsigned_less [of ?w, where ?'a = nat] by (simp add: word_le_nat_alt)
  then have "bit (unat ?w) 7" by (simp add: bit_iff_odd)
  then have m: "bit ?w 7" by (simp add: bit_unsigned_iff)
  have "bit (drop_bit 8 (vga_entry c color)) n \<longleftrightarrow> n < 8"
    using m by (auto simp: vga_entry_def signed_char_def bit_simps min_def)
  moreover have "bit (0xFF :: u16) n \<longleftrightarrow> n < 8"
  proof -
    have "(0xFF :: u16) = mask 8" by (simp add: mask_eq_exp_minus_1)
    then show ?thesis using n by (simp only: bit_mask_iff) auto
  qed
  ultimately show "bit (drop_bit 8 (vga_entry c color)) n = bit (0xFF :: u16) n" by simp
qed

theorem vga_entry_high_witness: "drop_bit 8 (vga_entry (CHR 0xE9) 0x07) = 0xFF"
  by (rule vga_entry_high) simp

end
