(* ===== verification/Printf.thy ===== *)
theory Printf
  imports Console "HOL-Library.Char_ord"
begin

text \<open>
  Formatted output of \<open>simpleos-main/simpleos/printf.c\<close>: number conversion with its in-place
  reversal, the serial port, and \<open>printf\<close> itself. The variable arguments are a list; taking one
  that is not there, one of the wrong type, or reading past the format's terminator is \<open>None\<close>.
\<close>

section \<open>Numbers\<close>

definition digit_char :: "u32 \<Rightarrow> char" where
  "digit_char remainder =
     (if remainder < 10 then char_of (unat remainder + 48) else char_of (unat remainder - 10 + 97))"

text \<open>The loop \<open>do \<dots> while (ud /= divisor)\<close>; it divides by zero for base 0 and does not end for base 1.\<close>

partial_function (option) digit_loop :: "u32 \<Rightarrow> u32 \<Rightarrow> string option" where
  "digit_loop ud divisor =
     (if divisor = 0 then None
      else do {
        rest \<leftarrow> (if ud div divisor \<noteq> 0 then digit_loop (ud div divisor) divisor else Some []);
        Some (digit_char (ud mod divisor) # rest)
      })"

text \<open>The reversal: \<open>p1\<close> and \<open>p2\<close> are indices into the buffer.\<close>

function reverse_loop :: "nat \<Rightarrow> nat \<Rightarrow> string \<Rightarrow> string" where
  "reverse_loop p1 p2 buf =
     (if p1 < p2 then reverse_loop (p1 + 1) (p2 - 1) (buf[p1 := buf ! p2, p2 := buf ! p1]) else buf)"
  by pat_completeness auto
termination by (relation "measure (\<lambda>(p1, p2, _). p2 - p1)") auto

declare reverse_loop.simps [simp del]

definition utoa :: "u32 \<Rightarrow> u32 \<Rightarrow> string option" where
  "utoa value base = do {
     digits \<leftarrow> digit_loop value base;
     Some (reverse_loop 0 (length digits - 1) digits)
   }"

definition itoa :: "u32 \<Rightarrow> u32 \<Rightarrow> string option" where
  "itoa value base =
     (if base = 10 \<and> sint value < 0
      then do {
        digits \<leftarrow> digit_loop (- value) base;
        Some (CHR ''-'' # reverse_loop 0 (length digits - 1) digits)
      }
      else do {
        digits \<leftarrow> digit_loop value base;
        Some (reverse_loop 0 (length digits - 1) digits)
      })"

section \<open>The serial port\<close>

definition serial_init :: "'s hw_scheme \<Rightarrow> 's hw_scheme" where
  "serial_init s =
     outb 0x3FC 0x0B (outb 0x3FA 0xC7 (outb 0x3FB 0x03 (outb 0x3F9 0x00 (outb 0x3F8 0x03
       (outb 0x3FB 0x80 (outb 0x3F9 0x00 s))))))"

definition serial_putchar :: "char \<Rightarrow> 's hw_scheme \<Rightarrow> 's hw_scheme option" where
  "serial_putchar c s = do {
     t \<leftarrow> spin_until 0x3FD (\<lambda>v. v AND 0x20 \<noteq> 0) s;
     Some (outb 0x3F8 (of_char c) t)
   }"

fun serial_puts :: "string \<Rightarrow> 's hw_scheme \<Rightarrow> 's hw_scheme option" where
  "serial_puts [] s = Some s"
| "serial_puts (c # str) s = do {
     t \<leftarrow> (if c = CHR 0x0A then serial_putchar CHR 0x0D s else Some s);
     u \<leftarrow> serial_putchar c t;
     serial_puts str u
   }"

section \<open>printf\<close>

datatype arg = Word u32 | Text "string option"

text \<open>What is sent where: a string to the screen or to the serial line, or one character to the line, which
  \<open>serial_putchar\<close> sends without a carriage return before a newline.\<close>

datatype out = Vga string | Serial string | Serial_char char

definition uppercase :: "string \<Rightarrow> string" where
  "uppercase buf = map (\<lambda>c. if CHR ''a'' \<le> c \<and> c \<le> CHR ''f'' then char_of (of_char c - 32 :: nat) else c) buf"

definition both :: "string \<Rightarrow> out list" where
  "both s = [Vga s, Serial s]"

definition both_char :: "char \<Rightarrow> out list" where
  "both_char c = [Vga [c], Serial_char c]"

fun take_int :: "arg list \<Rightarrow> (u32 \<times> arg list) option" where
  "take_int (Word v # args) = Some (v, args)"
| "take_int _ = None"

fun take_str :: "arg list \<Rightarrow> (string option \<times> arg list) option" where
  "take_str (Text v # args) = Some (v, args)"
| "take_str _ = None"

text \<open>One conversion: the character after the percent sign.\<close>

definition convert :: "char \<Rightarrow> arg list \<Rightarrow> (out list \<times> arg list) option" where
  "convert c args =
     (if c = CHR ''d'' \<or> c = CHR ''i'' then do {
        (v, rest) \<leftarrow> take_int args; buf \<leftarrow> itoa v 10; Some (both buf, rest) }
      else if c = CHR ''u'' then do {
        (v, rest) \<leftarrow> take_int args; buf \<leftarrow> utoa v 10; Some (both buf, rest) }
      else if c = CHR ''x'' then do {
        (v, rest) \<leftarrow> take_int args; buf \<leftarrow> utoa v 16; Some (both buf, rest) }
      else if c = CHR ''X'' then do {
        (v, rest) \<leftarrow> take_int args; buf \<leftarrow> utoa v 16; Some (both (uppercase buf), rest) }
      else if c = CHR ''p'' then do {
        (v, rest) \<leftarrow> take_int args; buf \<leftarrow> utoa v 16; Some (both ''0x'' @ both buf, rest) }
      else if c = CHR ''c'' then do {
        (v, rest) \<leftarrow> take_int args; Some (both_char (char_of (unat v)), rest) }
      else if c = CHR ''s'' then do {
        (v, rest) \<leftarrow> take_str args;
        Some (both (case v of Some str \<Rightarrow> str | None \<Rightarrow> ''(null)''), rest) }
      else if c = CHR ''%'' then Some (both_char CHR ''%'', args)
      else Some (both_char CHR ''%'' @ both_char c, args))"

text \<open>The format is read to its terminator; after a final percent sign the loop would run on past it.\<close>

fun printf_out :: "string \<Rightarrow> arg list \<Rightarrow> out list option" where
  "printf_out [] args = Some []"
| "printf_out (c # fmt) args =
     (if c = CHR ''%''
      then (case fmt of
              [] \<Rightarrow> None
            | d # fmt' \<Rightarrow> do {
                (out, rest) \<leftarrow> convert d args;
                more \<leftarrow> printf_out fmt' rest;
                Some (out @ more) })
      else do {
        more \<leftarrow> printf_out fmt args;
        Some ([Vga [c]] @ (if c = CHR 0x0A then [Serial_char CHR 0x0D] else []) @ [Serial_char c] @ more) })"

fun emit :: "out list \<Rightarrow> 's vga_scheme \<Rightarrow> 's vga_scheme option" where
  "emit [] s = Some s"
| "emit (Vga str # os) s = do { t \<leftarrow> vga_puts str s; emit os t }"
| "emit (Serial str # os) s = do { t \<leftarrow> serial_puts str s; emit os t }"
| "emit (Serial_char c # os) s = do { t \<leftarrow> serial_putchar c s; emit os t }"

definition printf :: "string \<Rightarrow> arg list \<Rightarrow> 's vga_scheme \<Rightarrow> 's vga_scheme option" where
  "printf fmt args s = do { os \<leftarrow> printf_out fmt args; emit os s }"

section \<open>Number conversion is right\<close>

text \<open>Reading a numeral back.\<close>

definition digit_value :: "char \<Rightarrow> nat" where
  "digit_value c = (if CHR ''a'' \<le> c then of_char c - 97 + 10 else of_char c - 48)"

definition number :: "nat \<Rightarrow> string \<Rightarrow> nat" where
  "number b str = fold (\<lambda>c n. b * n + digit_value c) str 0"

definition decimal :: "string \<Rightarrow> int" where
  "decimal str = (if str \<noteq> [] \<and> hd str = CHR ''-'' then - int (number 10 (tl str)) else int (number 10 str))"

text \<open>No leading zero, apart from the numeral 0 itself.\<close>

definition short :: "string \<Rightarrow> bool" where
  "short str \<longleftrightarrow> str = ''0'' \<or> (str \<noteq> [] \<and> hd str \<noteq> CHR ''0'')"

lemma below_16:
  fixes k :: nat
  assumes "k < 16"
  shows "k = 0 \<or> k = 1 \<or> k = 2 \<or> k = 3 \<or> k = 4 \<or> k = 5 \<or> k = 6 \<or> k = 7 \<or> k = 8 \<or> k = 9 \<or> k = 10 \<or>
    k = 11 \<or> k = 12 \<or> k = 13 \<or> k = 14 \<or> k = 15"
  using assms by presburger

lemma digit_char_value:
  assumes "r < 16"
  shows "digit_value (digit_char r) = unat r" and "digit_char r = CHR ''0'' \<longleftrightarrow> r = 0" and "digit_char r \<noteq> CHR ''-''"
proof -
  have w: "r < 10 \<longleftrightarrow> unat r < 10" "r = 0 \<longleftrightarrow> unat r = 0" by (simp_all add: word_less_nat_alt unat_eq_zero)
  have "unat r < 16" using assms by (simp add: word_less_nat_alt)
  from below_16 [OF this] have "digit_value (digit_char r) = unat r \<and> (digit_char r = CHR ''0'' \<longleftrightarrow> r = 0) \<and> digit_char r \<noteq> CHR ''-''"
    unfolding w(2) digit_value_def digit_char_def w(1) by (elim disjE) (simp_all add: less_eq_char_def char_of_def bit_Suc bit_0)
  then show "digit_value (digit_char r) = unat r" "digit_char r = CHR ''0'' \<longleftrightarrow> r = 0" "digit_char r \<noteq> CHR ''-''"
    by auto
qed

lemma number_snoc [simp]: "number b (str @ [c]) = b * number b str + digit_value c"
  by (simp add: number_def)

lemma digit_loop_spec:
  assumes d: "2 \<le> d" "d \<le> 16"
  shows "\<exists>ds. digit_loop n d = Some ds \<and> number (unat d) (rev ds) = unat n \<and> short (rev ds) \<and> CHR ''-'' \<notin> set ds \<and>
     (\<forall>k. 0 < k \<longrightarrow> unat n < unat d ^ k \<longrightarrow> length ds \<le> k)"
proof (induction "unat n" arbitrary: n rule: less_induct)
  case less
  have du: "2 \<le> unat d" using d(1) by (simp add: word_le_nat_alt)
  have pos: "0 < d" using d(1) by (metis du less_le_trans word_gt_0_no unat_0 word_gt_0 not_numeral_le_zero)
  have "n mod d < d" using pos by (rule word_mod_less_divisor)
  then have r: "n mod d < 16" using d(2) by simp
  note D = digit_char_value [OF r]
  have v: "unat d * unat (n div d) + unat (n mod d) = unat n" by (simp add: unat_div unat_mod)
  have d0: "d \<noteq> 0" using pos by auto
  show ?case
  proof (cases "n div d = 0")
    case True
    have "digit_loop n d = Some [digit_char (n mod d)]" using d0 True by (subst digit_loop.simps) simp
    moreover have "number (unat d) [digit_char (n mod d)] = unat n" using v True D by (simp add: number_def)
    ultimately show ?thesis using D by (auto simp: short_def)
  next
    case False
    have "n \<noteq> 0" using False by auto
    then have lt: "unat (n div d) < unat n" using du by (simp add: unat_div unat_gt_0)
    from less [OF lt] obtain ds where ds: "digit_loop (n div d) d = Some ds"
      "number (unat d) (rev ds) = unat (n div d)" "short (rev ds)" "CHR ''-'' \<notin> set ds"
      "\<forall>k. 0 < k \<longrightarrow> unat (n div d) < unat d ^ k \<longrightarrow> length ds \<le> k" by blast
    have e: "digit_loop n d = Some (digit_char (n mod d) # ds)" using d0 False ds(1) by (subst digit_loop.simps) simp
    have "rev ds \<noteq> ''0''"
    proof
      assume "rev ds = ''0''"
      then have "unat (n div d) = 0" using ds(2) by (simp add: number_def digit_value_def less_eq_char_def)
      then show False using False by (simp add: unat_eq_zero)
    qed
    then have "short (rev ds @ [digit_char (n mod d)])" using ds(3) by (auto simp: short_def)
    moreover have "length ds + 1 \<le> k" if k: "0 < k" "unat n < unat d ^ k" for k
    proof (cases k)
      case (Suc m)
      have "unat (n div d) < unat d ^ m" using k(2) du unfolding Suc unat_div
        by (simp add: less_mult_imp_div_less mult.commute)
      moreover have "0 < m" using calculation False by (cases m) (auto simp: unat_eq_zero)
      ultimately show ?thesis using ds(5) Suc by auto
    qed (use k in simp)
    ultimately show ?thesis using e v ds(2,4) D by simp
  qed
qed

lemma reverse_loop_middle:
  "reverse_loop (length xs) (length xs + length ys - 1) (xs @ ys @ zs) = xs @ rev ys @ zs"
proof (induction "length ys" arbitrary: xs ys zs rule: less_induct)
  case less
  show ?case
  proof (cases "length ys \<le> 1")
    case True
    then have "rev ys = ys" by (cases ys) auto
    moreover have "\<not> length xs < length xs + length ys - 1" using True by simp
    ultimately show ?thesis by (subst reverse_loop.simps) simp
  next
    case False
    then obtain a ys' where y: "ys = a # ys'" "ys' \<noteq> []" by (cases ys) auto
    then obtain mid b where m: "ys' = mid @ [b]" by (metis rev_exhaust)
    let ?i = "length xs" and ?j = "length xs + length mid + 1"
    have "(xs @ ys @ zs) ! ?i = a" by (simp add: y nth_append)
    moreover have "(xs @ ys @ zs) ! ?j = b" by (simp add: y m nth_append)
    moreover have "(xs @ ys @ zs)[?i := b, ?j := a] = (xs @ [b]) @ mid @ ([a] @ zs)"
      by (simp add: y m list_update_append)
    moreover have "length xs + length ys - 1 = ?j" by (simp add: y m)
    ultimately have "reverse_loop ?i (length xs + length ys - 1) (xs @ ys @ zs) =
        reverse_loop (length (xs @ [b])) (length (xs @ [b]) + length mid - 1) ((xs @ [b]) @ mid @ ([a] @ zs))"
      by (subst reverse_loop.simps) simp
    also have "\<dots> = (xs @ [b]) @ rev mid @ ([a] @ zs)"
      by (rule less) (simp add: y m)
    finally show ?thesis by (simp add: y m)
  qed
qed

lemma reverse_loop_rev: "reverse_loop 0 (length ds - 1) ds = rev ds"
  using reverse_loop_middle [of "[]" ds "[]"] by simp

lemma utoa_spec:
  assumes "2 \<le> d" "d \<le> 16"
  shows "\<exists>str. utoa n d = Some str \<and> number (unat d) str = unat n \<and> short str \<and> CHR ''-'' \<notin> set str \<and>
     (\<forall>k. 0 < k \<longrightarrow> unat n < unat d ^ k \<longrightarrow> length str \<le> k)"
  using digit_loop_spec [OF assms, of n] by (auto simp: utoa_def reverse_loop_rev simp del: One_nat_def)

lemma sint_u32: "sint n = (if 2 ^ 31 \<le> uint n then uint n - 2 ^ 32 else uint n)" for n :: u32
proof -
  have u: "uint n < 2 ^ 32" "0 \<le> uint n" using unsigned_less [of n, where ?'a = int] by simp_all
  have s: "sint n = (uint n + 2 ^ 31) mod 2 ^ 32 - 2 ^ 31"
    by (simp add: sint_uint signed_take_bit_eq_take_bit_shift take_bit_eq_mod)
  show ?thesis
  proof (cases "2 ^ 31 \<le> uint n")
    case True
    have "(uint n + 2 ^ 31) mod 2 ^ 32 = (uint n - 2 ^ 31 + 2 ^ 32) mod 2 ^ 32" by (simp add: add.commute)
    also have "\<dots> = (uint n - 2 ^ 31) mod 2 ^ 32" by (rule mod_add_self2)
    also have "\<dots> = uint n - 2 ^ 31" by (intro mod_pos_pos_trivial) (use True u in simp_all)
    finally show ?thesis using True s by simp
  next
    case False
    then have "(uint n + 2 ^ 31) mod 2 ^ 32 = uint n + 2 ^ 31" by (intro mod_pos_pos_trivial) (use u False in simp_all)
    then show ?thesis using False s by simp
  qed
qed

lemma uint_neg_u32: "uint (- n) = 2 ^ 32 - uint n" if "n \<noteq> 0" for n :: u32
proof -
  have u: "uint n < 2 ^ 32" "0 < uint n" using unsigned_less [of n, where ?'a = int] that
    by (simp_all add: order_less_le [of 0]) (metis uint_0_iff)
  have "uint (- n) = (- uint n) mod 2 ^ 32" by (simp add: uint_word_ariths)
  also have "\<dots> = (- uint n + 2 ^ 32) mod 2 ^ 32" by (rule mod_add_self2 [symmetric])
  also have "\<dots> = - uint n + 2 ^ 32" by (intro mod_pos_pos_trivial) (use u in simp_all)
  finally show ?thesis by simp
qed

lemma unat_bound_10: "unat n < 10 ^ 10" for n :: u32
proof -
  have "unat n < 2 ^ 32" using unsigned_less [of n, where ?'a = nat] by simp
  also have "(2 :: nat) ^ 32 < 10 ^ 10" by simp
  finally show ?thesis .
qed

lemma itoa_spec:
  shows "\<exists>str. itoa n 10 = Some str \<and> decimal str = sint n \<and> length str \<le> 11"
proof (cases "sint n < 0")
  case False
  obtain str where s: "utoa n 10 = Some str" "number 10 str = unat n" "CHR ''-'' \<notin> set str" "length str \<le> 10"
    using utoa_spec [of 10 n] unat_bound_10 [of n] by force
  have "decimal str = int (number 10 str)" using s(3) by (cases str) (auto simp: decimal_def)
  moreover have "sint n = int (unat n)" using False unsigned_less [of n, where ?'a = int] by (simp add: sint_u32 split: if_splits)
  ultimately show ?thesis using s False by (simp add: itoa_def utoa_def)
next
  case True
  obtain str where s: "utoa (- n) 10 = Some str" "number 10 str = unat (- n)" "length str \<le> 10"
    using utoa_spec [of 10 "- n"] unat_bound_10 [of "- n"] by force
  have "n \<noteq> 0" using True by auto
  then have "int (unat (- n)) = - sint n" using True uint_neg_u32 [of n] unsigned_less [of n, where ?'a = int] by (simp add: sint_u32 split: if_splits)
  then have "decimal (CHR ''-'' # str) = sint n" using s(2) by (simp add: decimal_def)
  moreover have "itoa n 10 = Some (CHR ''-'' # str)" using s(1) True by (auto simp: itoa_def utoa_def bind_eq_Some_conv)
  ultimately show ?thesis using s(3) by simp
qed

section \<open>Printing returns\<close>

text \<open>The serial line takes a character again and again.\<close>

definition line_ready :: "'s hw_scheme \<Rightarrow> bool" where
  "line_ready = ready 0x3FD (\<lambda>v. v AND 0x20 \<noteq> 0)"

lemma line_ready_cong: "device t = device s \<Longrightarrow> line_ready t = line_ready s"
  by (simp add: line_ready_def ready_def)

lemma serial_putchar_returns:
  fixes s :: "'s vga_scheme"
  assumes "vga_inv s" and "line_ready s"
  shows "\<exists>t. serial_putchar c s = Some t \<and> vga_inv t \<and> line_ready t \<and> vga_color_attr t = vga_color_attr s \<and> vga.more t = vga.more s"
proof -
  obtain m where "spin_until 0x3FD (\<lambda>v. v AND 0x20 \<noteq> 0) s = Some (s\<lparr>clock := m\<rparr>)"
    using assms(2) unfolding line_ready_def by (rule ready_spin)
  then show ?thesis using assms
    by (simp add: serial_putchar_def outb_def vga_inv_def line_ready_def ready_def)
qed

lemma serial_puts_returns:
  fixes s :: "'s vga_scheme"
  assumes "vga_inv s" and "line_ready s"
  shows "\<exists>t. serial_puts str s = Some t \<and> vga_inv t \<and> line_ready t \<and> vga_color_attr t = vga_color_attr s \<and> vga.more t = vga.more s"
  using assms
proof (induction str arbitrary: s)
  case (Cons c str)
  obtain t where t: "(if c = CHR 0x0A then serial_putchar CHR 0x0D s else Some s) = Some t" "vga_inv t" "line_ready t"
    "vga_color_attr t = vga_color_attr s" "vga.more t = vga.more s"
    using serial_putchar_returns [OF Cons.prems] Cons.prems by (cases "c = CHR 0x0A") auto
  obtain u where u: "serial_putchar c t = Some u" "vga_inv u" "line_ready u" "vga_color_attr u = vga_color_attr s" "vga.more u = vga.more s"
    using serial_putchar_returns [OF t(2,3)] t(4,5) by auto
  show ?case using Cons.IH [OF u(2,3)] t(1) u(1,4,5) by simp
qed simp

lemma vga_puts_returns:
  assumes "vga_inv s"
  shows "\<exists>t. vga_puts str s = Some t \<and> vga_inv t \<and> device t = device s \<and> vga_color_attr t = vga_color_attr s \<and> vga.more t = vga.more s"
  using assms
proof (induction str arbitrary: s)
  case (Cons c str)
  obtain t where t: "vga_putchar c s = Some t" "vga_inv t" "device t = device s" "vga_color_attr t = vga_color_attr s" "vga.more t = vga.more s"
    using Cons.prems by (rule vga_putchar_spec)
  show ?case using Cons.IH [OF t(2)] t by simp
qed simp

lemma emit_returns:
  assumes "vga_inv s" and "line_ready s"
  shows "\<exists>t. emit os s = Some t \<and> vga_inv t \<and> line_ready t \<and> vga_color_attr t = vga_color_attr s \<and> vga.more t = vga.more s"
  using assms
proof (induction os s rule: emit.induct)
  case (2 str os s)
  obtain t where t: "vga_puts str s = Some t" "vga_inv t" "device t = device s" "vga_color_attr t = vga_color_attr s" "vga.more t = vga.more s"
    using vga_puts_returns [OF "2.prems"(1)] by blast
  show ?case using "2.IH" [OF t(1,2)] "2.prems"(2) t line_ready_cong [OF t(3)] by simp
next
  case (3 str os s)
  obtain t where t: "serial_puts str s = Some t" "vga_inv t" "line_ready t" "vga_color_attr t = vga_color_attr s" "vga.more t = vga.more s"
    using serial_puts_returns [OF "3.prems"] by blast
  show ?case using "3.IH" [OF t(1,2,3)] t by simp
next
  case (4 c os s)
  obtain t where t: "serial_putchar c s = Some t" "vga_inv t" "line_ready t" "vga_color_attr t = vga_color_attr s" "vga.more t = vga.more s"
    using serial_putchar_returns [OF "4.prems"] by blast
  show ?case using "4.IH" [OF t(1,2,3)] t by simp
qed simp

text \<open>The formats \<open>printf\<close> can run on given arguments: every conversion finds an argument of its type, and
  the format does not end in a percent sign.\<close>

fun accepts :: "string \<Rightarrow> arg list \<Rightarrow> bool" where
  "accepts [] args = True"
| "accepts (c # fmt) args =
     (if c = CHR ''%''
      then case fmt of
          [] \<Rightarrow> False
        | d # rest \<Rightarrow>
            (if d \<in> set ''diuxXpc'' then case args of Word v # others \<Rightarrow> accepts rest others | _ \<Rightarrow> False
             else if d = CHR ''s'' then case args of Text v # others \<Rightarrow> accepts rest others | _ \<Rightarrow> False
             else accepts rest args)
      else accepts fmt args)"

lemma utoa_total: "2 \<le> d \<Longrightarrow> d \<le> 16 \<Longrightarrow> \<exists>str. utoa n d = Some str"
  using utoa_spec by blast

lemma convert_rest:
  "map_option snd (convert d args) =
     (if d \<in> set ''diuxXpc'' then case args of Word v # others \<Rightarrow> Some others | _ \<Rightarrow> None
      else if d = CHR ''s'' then case args of Text v # others \<Rightarrow> Some others | _ \<Rightarrow> None
      else Some args)"
proof -
  have n: "\<exists>str. itoa v 10 = Some str" "\<exists>str. utoa v 10 = Some str" "\<exists>str. utoa v 16 = Some str" for v
    using itoa_spec [of v] utoa_total [of 10 v] utoa_total [of 16 v] by auto
  show ?thesis
  proof (cases args)
    case (Cons a rest)
    show ?thesis
    proof (cases a)
      case (Word v)
      show ?thesis using n [of v] unfolding Cons Word by (auto simp: convert_def)
    next
      case (Text v)
      show ?thesis unfolding Cons Text by (auto simp: convert_def)
    qed
  qed (auto simp: convert_def)
qed

lemma printf_out_accepts: "(\<exists>os. printf_out fmt args = Some os) \<longleftrightarrow> accepts fmt args"
proof (induction fmt args rule: printf_out.induct)
  case (2 c fmt args)
  show ?case
  proof (cases "c = CHR ''%''")
    case True
    show ?thesis
    proof (cases fmt)
      case (Cons d rest)
      show ?thesis
      proof (cases "convert d args")
        case None
        then show ?thesis using True Cons convert_rest [of d args]
          by (auto split: if_splits list.splits arg.splits)
      next
        case (Some p)
        obtain out x where p: "p = (out, x)" by (cases p)
        have "accepts (c # fmt) args = accepts rest x"
          using True Cons Some p convert_rest [of d args] by (auto split: if_splits list.splits arg.splits)
        moreover have "(\<exists>os. printf_out rest x = Some os) \<longleftrightarrow> accepts rest x"
          by (rule "2.IH"(1) [OF True Cons Some]) (rule p [symmetric])
        ultimately show ?thesis using True Cons Some p by (auto simp: bind_eq_Some_conv)
      qed
    qed (simp add: True)
  next
    case False
    then show ?thesis using "2.IH"(2) [OF False] by (auto simp: bind_eq_Some_conv)
  qed
qed simp

lemma printf_returns_iff:
  assumes "vga_inv s" and "line_ready s"
  shows "(\<exists>t. printf fmt args s = Some t) \<longleftrightarrow> accepts fmt args"
  using emit_returns [OF assms] printf_out_accepts [of fmt args] by (fastforce simp: printf_def bind_eq_Some_conv)

text \<open>What the kernel's own messages rely on.\<close>

lemma printf_total:
  assumes "vga_inv s" and "line_ready s" and "accepts fmt args"
  shows "\<exists>t. printf fmt args s = Some t \<and> vga_inv t \<and> line_ready t \<and> vga_color_attr t = vga_color_attr s \<and> vga.more t = vga.more s"
proof -
  obtain os where "printf_out fmt args = Some os" using assms(3) printf_out_accepts by blast
  then show ?thesis using emit_returns [OF assms(1,2), of os] by (simp add: printf_def)
qed

lemma vga_set_color_frame:
  "vga_inv (vga_set_color fg bg s) = vga_inv s" "device (vga_set_color fg bg s) = device s"
  "vga.more (vga_set_color fg bg s) = vga.more s"
  by (simp_all add: vga_set_color_def vga_inv_def)

text \<open>Code that only prints: it returns, and nothing but the screen and the lines to the devices changes.\<close>

definition console_ok :: "'s vga_scheme \<Rightarrow> bool" where
  "console_ok s \<longleftrightarrow> vga_inv s \<and> line_ready s"

definition displays :: "('s vga_scheme \<Rightarrow> 's vga_scheme option) \<Rightarrow> bool" where
  "displays p \<longleftrightarrow> (\<forall>s. console_ok s \<longrightarrow> (\<exists>t. p s = Some t \<and> console_ok t \<and> vga.more t = vga.more s))"

lemma displaysD:
  assumes "displays p" and "console_ok s"
  obtains t where "p s = Some t" "console_ok t" "vga.more t = vga.more s"
  using assms unfolding displays_def by blast

lemma displays_printf: "accepts fmt args \<Longrightarrow> displays (printf fmt args)"
  using printf_total unfolding displays_def console_ok_def by blast

lemma displays_bind: "displays p \<Longrightarrow> displays q \<Longrightarrow> displays (\<lambda>s. p s \<bind> q)"
  unfolding displays_def by (metis bind.bind_lunit)

lemma displays_Some: "displays Some"
  by (simp add: displays_def)

lemma displays_color: "displays (\<lambda>s. Some (vga_set_color fg bg s))"
  by (simp add: displays_def console_ok_def vga_set_color_frame line_ready_cong [of "vga_set_color _ _ _"])

lemma displays_color_first:
  assumes "displays p"
  shows "displays (\<lambda>s. p (vga_set_color fg bg s))"
  using displays_bind [OF displays_color assms] by simp

lemma displays_puts: "displays (vga_puts str)"
  unfolding displays_def console_ok_def using vga_puts_returns line_ready_cong by metis

lemma displays_putchar: "displays (vga_putchar c)"
  unfolding displays_def console_ok_def using vga_putchar_spec line_ready_cong by metis

text \<open>The shapes a block of messages is made of.\<close>

lemma displays_steps:
  "accepts fmt args \<Longrightarrow> displays q \<Longrightarrow> displays (\<lambda>s. printf fmt args s \<bind> q)"
  "accepts fmt args \<Longrightarrow> displays q \<Longrightarrow> displays (\<lambda>s. printf fmt args (vga_set_color fg bg s) \<bind> q)"
  "accepts fmt args \<Longrightarrow> displays (\<lambda>s. printf fmt args (vga_set_color fg bg s))"
  by (simp_all add: displays_bind displays_printf displays_color_first [of "\<lambda>s. printf fmt args s \<bind> q"]
      displays_color_first [OF displays_printf])

lemmas displays_intros = displays_steps displays_printf displays_Some displays_color displays_puts displays_putchar

section \<open>Properties\<close>

text \<open>The decimal numeral \<open>%d\<close> prints denotes the signed value of its argument for every 32-bit
  word, the smallest one included, in at most eleven characters, so it fits the buffer.\<close>

theorem printf_signed_decimal:
  "\<exists>str. convert CHR ''d'' [Word v] = Some ([Vga str, Serial str], []) \<and> decimal str = sint v \<and> length str \<le> 11"
  using itoa_spec [of v] by (auto simp: convert_def both_def)

text \<open>The numeral of \<open>%x\<close> denotes the unsigned value of its argument, has no leading zero and at most
  eight digits.\<close>

theorem printf_hexadecimal:
  "\<exists>str. convert CHR ''x'' [Word v] = Some ([Vga str, Serial str], []) \<and> number 16 str = unat v \<and> short str \<and>
     length str \<le> 8"
proof -
  have "unat v < 16 ^ 8" using unsigned_less [of v, where ?'a = nat] by simp
  then show ?thesis using utoa_spec [of 16 v] by (auto simp: convert_def both_def)
qed

text \<open>C16: While the serial line keeps accepting characters, \<open>printf\<close> returns exactly for the formats whose
  conversions find their arguments and that do not end in a percent sign.\<close>

theorem printf_terminates:
  assumes "vga_inv s" and "line_ready s"
  shows "(\<exists>t. printf fmt args s = Some t) \<longleftrightarrow> accepts fmt args"
  by (rule printf_returns_iff [OF assms])

lemma blank_screen_ready: "line_ready blank_screen"
  by (auto simp: line_ready_def ready_def blank_screen_def)

theorem printf_terminates_witness:
  "(\<exists>t. printf ''PID %d%%'' [Word 7] blank_screen = Some t) \<and> (\<forall>t. printf ''100%'' [] blank_screen \<noteq> Some t)"
  using printf_terminates [OF blank_screen_inv blank_screen_ready, of "''PID %d%%''" "[Word 7]"]
    printf_terminates [OF blank_screen_inv blank_screen_ready, of "''100%''" "[]"] by simp

end
