(* ===== verification/Pmm.thy ===== *)
theory Pmm
  imports Interfaces
begin

text \<open>
  The physical memory manager of \<open>simpleos-main/simpleos/pmm.c\<close> and \<open>pmm.h\<close>: one bit per
  4 KB page frame, set while the frame is in use. The record \<open>pmm\<close> holds the file's four
  static variables. Diagnostic output is left out of the state.
\<close>

section \<open>State and macros\<close>

record pmm =
  page_bitmap :: "u32 list"
  total_pages :: u32
  used_pages :: u32
  total_memory :: u32

definition PAGE_SIZE :: u32 where "PAGE_SIZE = 4096"
definition MAX_PHYSICAL_MEMORY :: u32 where "MAX_PHYSICAL_MEMORY = 256 * 1024 * 1024"
definition MAX_PAGES :: u32 where "MAX_PAGES = MAX_PHYSICAL_MEMORY div PAGE_SIZE"
definition BITMAP_SIZE :: u32 where "BITMAP_SIZE = MAX_PAGES div 32"
definition NOT_FOUND :: u32 where "NOT_FOUND = 0xFFFFFFFF"
definition MMAP_TYPE_AVAILABLE :: u32 where "MMAP_TYPE_AVAILABLE = 1"

definition PAGE_ALIGN_DOWN :: "u32 \<Rightarrow> u32" where
  "PAGE_ALIGN_DOWN addr = addr AND NOT (PAGE_SIZE - 1)"

definition PAGE_ALIGN_UP :: "u32 \<Rightarrow> u32" where
  "PAGE_ALIGN_UP addr = (addr + PAGE_SIZE - 1) AND NOT (PAGE_SIZE - 1)"

definition ADDR_TO_PFN :: "u32 \<Rightarrow> u32" where
  "ADDR_TO_PFN addr = drop_bit 12 addr"

definition PFN_TO_ADDR :: "u32 \<Rightarrow> u32" where
  "PFN_TO_ADDR pfn = push_bit 12 pfn"

section \<open>The bitmap\<close>

definition bitmap_set :: "pmm \<Rightarrow> u32 \<Rightarrow> pmm" where
  "bitmap_set s pfn =
     (if pfn < MAX_PAGES
      then s\<lparr>page_bitmap := (page_bitmap s)[unat (pfn div 32) :=
             page_bitmap s ! unat (pfn div 32) OR push_bit (unat (pfn mod 32)) 1]\<rparr>
      else s)"

definition bitmap_clear :: "pmm \<Rightarrow> u32 \<Rightarrow> pmm" where
  "bitmap_clear s pfn =
     (if pfn < MAX_PAGES
      then s\<lparr>page_bitmap := (page_bitmap s)[unat (pfn div 32) :=
             page_bitmap s ! unat (pfn div 32) AND NOT (push_bit (unat (pfn mod 32)) 1)]\<rparr>
      else s)"

definition bitmap_test :: "pmm \<Rightarrow> u32 \<Rightarrow> bool" where
  "bitmap_test s pfn =
     (if pfn < MAX_PAGES
      then page_bitmap s ! unat (pfn div 32) AND push_bit (unat (pfn mod 32)) 1 \<noteq> 0
      else True)"

section \<open>Searching\<close>

function find_free_page :: "pmm \<Rightarrow> u32 \<Rightarrow> u32" where
  "find_free_page s i =
     (if i < total_pages s
      then (if \<not> bitmap_test s i then i else find_free_page s (i + 1))
      else NOT_FOUND)"
  by pat_completeness auto
termination
  by (relation "measure (\<lambda>(s, i). unat (total_pages s) - unat i)")
     (auto simp: unat_inc_less word_less_nat_alt)

text \<open>The loop of \<open>find_free_pages\<close>, with its locals \<open>consecutive\<close> and \<open>start\<close>.\<close>

function find_free_pages_loop :: "pmm \<Rightarrow> u32 \<Rightarrow> u32 \<Rightarrow> u32 \<Rightarrow> u32 \<Rightarrow> u32" where
  "find_free_pages_loop s count i consecutive start =
     (if i < total_pages s
      then (if \<not> bitmap_test s i
            then let start' = (if consecutive = 0 then i else start);
                     consecutive' = consecutive + 1
                 in if consecutive' = count then start'
                    else find_free_pages_loop s count (i + 1) consecutive' start'
            else find_free_pages_loop s count (i + 1) 0 start)
      else NOT_FOUND)"
  by pat_completeness auto
termination
  by (relation "measure (\<lambda>(s, _, i, _). unat (total_pages s) - unat i)")
     (auto simp: unat_inc_less word_less_nat_alt)

declare find_free_page.simps [simp del] find_free_pages_loop.simps [simp del]

definition find_free_pages :: "pmm \<Rightarrow> u32 \<Rightarrow> u32 \<Rightarrow> u32" where
  "find_free_pages s count start_pfn = find_free_pages_loop s count start_pfn 0 0"

section \<open>Allocation and release\<close>

definition pmm_alloc_page :: "pmm \<Rightarrow> u32 \<times> pmm" where
  "pmm_alloc_page s =
     (let pfn = find_free_page s (ADDR_TO_PFN 0x100000)
      in if pfn = NOT_FOUND then (0, s)
         else let s1 = bitmap_set s pfn
              in (PFN_TO_ADDR pfn, s1\<lparr>used_pages := used_pages s1 + 1\<rparr>))"

definition pmm_alloc_pages :: "pmm \<Rightarrow> u32 \<Rightarrow> u32 \<times> pmm" where
  "pmm_alloc_pages s count =
     (if count = 0 then (0, s)
      else if count = 1 then pmm_alloc_page s
      else let pfn = find_free_pages s count (ADDR_TO_PFN 0x100000)
           in if pfn = NOT_FOUND then (0, s)
              else let s1 = for_up 0 count (\<lambda>i t. bitmap_set t (pfn + i)) s
                   in (PFN_TO_ADDR pfn, s1\<lparr>used_pages := used_pages s1 + count\<rparr>))"

text \<open>The tail shared by every release: clear the bit and decrement the counter above 0.\<close>

definition release_frame :: "pmm \<Rightarrow> u32 \<Rightarrow> pmm" where
  "release_frame s pfn =
     (let s1 = bitmap_clear s pfn
      in if used_pages s1 > 0 then s1\<lparr>used_pages := used_pages s1 - 1\<rparr> else s1)"

definition pmm_free_page :: "pmm \<Rightarrow> u32 \<Rightarrow> pmm" where
  "pmm_free_page s phys_addr =
     (let pfn = ADDR_TO_PFN phys_addr
      in if pfn < total_pages s \<and> bitmap_test s pfn then release_frame s pfn else s)"

definition pmm_free_pages :: "pmm \<Rightarrow> u32 \<Rightarrow> u32 \<Rightarrow> pmm" where
  "pmm_free_pages s phys_addr count =
     (let pfn = ADDR_TO_PFN phys_addr
      in for_up 0 count
           (\<lambda>i t. if pfn + i < total_pages t \<and> bitmap_test t (pfn + i)
                  then release_frame t (pfn + i) else t) s)"

definition pmm_mark_region_used :: "pmm \<Rightarrow> u32 \<Rightarrow> u32 \<Rightarrow> pmm" where
  "pmm_mark_region_used s base len =
     (let start_pfn = ADDR_TO_PFN (PAGE_ALIGN_DOWN base);
          end_pfn = ADDR_TO_PFN (PAGE_ALIGN_UP (base + len))
      in for_up start_pfn (min end_pfn MAX_PAGES)
           (\<lambda>pfn t. if \<not> bitmap_test t pfn
                    then let t1 = bitmap_set t pfn in t1\<lparr>used_pages := used_pages t1 + 1\<rparr>
                    else t) s)"

definition pmm_mark_region_free :: "pmm \<Rightarrow> u32 \<Rightarrow> u32 \<Rightarrow> pmm" where
  "pmm_mark_region_free s base len =
     (let start_pfn = ADDR_TO_PFN (PAGE_ALIGN_UP base);
          end_pfn = ADDR_TO_PFN (PAGE_ALIGN_DOWN (base + len))
      in for_up start_pfn (min end_pfn MAX_PAGES)
           (\<lambda>pfn t. if bitmap_test t pfn then release_frame t pfn else t) s)"

definition pmm_get_total_memory :: "pmm \<Rightarrow> u32" where
  "pmm_get_total_memory s = total_pages s * PAGE_SIZE"

definition pmm_get_free_memory :: "pmm \<Rightarrow> u32" where
  "pmm_get_free_memory s = (total_pages s - used_pages s) * PAGE_SIZE"

definition pmm_get_used_memory :: "pmm \<Rightarrow> u32" where
  "pmm_get_used_memory s = used_pages s * PAGE_SIZE"

text \<open>The numbers the two lines of \<open>pmm_print_stats\<close> show.\<close>

definition pmm_print_stats :: "pmm \<Rightarrow> u32 list" where
  "pmm_print_stats s =
     [pmm_get_total_memory s div 1024, pmm_get_used_memory s div 1024,
      pmm_get_free_memory s div 1024,
      total_pages s, used_pages s, total_pages s - used_pages s]"

section \<open>Start-up from the multiboot memory map\<close>

text \<open>
  The map lies in memory as packed entries \<open>mmap_entry_t\<close>: a 4-byte \<open>size\<close> that does not
  count itself, an 8-byte base, an 8-byte length and a 4-byte type, little endian. The memory
  is the argument \<open>m\<close>. A map whose sizes do not advance the cursor makes the loop run
  forever, so the loop is a partial function.
\<close>

definition read32 :: "(u32 \<Rightarrow> u8) \<Rightarrow> u32 \<Rightarrow> u32" where
  "read32 m a = ucast (m a) OR push_bit 8 (ucast (m (a + 1)))
     OR push_bit 16 (ucast (m (a + 2))) OR push_bit 24 (ucast (m (a + 3)))"

definition read64 :: "(u32 \<Rightarrow> u8) \<Rightarrow> u32 \<Rightarrow> u64" where
  "read64 m a = ucast (read32 m a) OR push_bit 32 (ucast (read32 m (a + 4)))"

record mmap_entry =
  me_size :: u32
  me_base_addr :: u64
  me_length :: u64
  me_type :: u32

definition read_mmap_entry :: "(u32 \<Rightarrow> u8) \<Rightarrow> u32 \<Rightarrow> mmap_entry" where
  "read_mmap_entry m a =
     \<lparr>me_size = read32 m a, me_base_addr = read64 m (a + 4),
      me_length = read64 m (a + 12), me_type = read32 m (a + 20)\<rparr>"

definition pmm_region :: "mmap_entry \<Rightarrow> pmm \<Rightarrow> pmm" where
  "pmm_region e s =
     (let base = ucast (me_base_addr e) :: u32;
          len = ucast (me_length e) :: u32
      in if me_type e = MMAP_TYPE_AVAILABLE
         then let s1 = s\<lparr>total_memory := total_memory s + len\<rparr>
              in if base < MAX_PHYSICAL_MEMORY
                 then let end0 = base + len;
                          end1 = (if end0 > MAX_PHYSICAL_MEMORY then MAX_PHYSICAL_MEMORY else end0);
                          start_pfn = ADDR_TO_PFN (PAGE_ALIGN_UP base);
                          end_pfn = ADDR_TO_PFN (PAGE_ALIGN_DOWN end1)
                      in for_up start_pfn (min end_pfn MAX_PAGES) (\<lambda>pfn t. bitmap_clear t pfn) s1
                 else s1
         else s)"

partial_function (option) pmm_regions ::
  "(u32 \<Rightarrow> u8) \<Rightarrow> u32 \<Rightarrow> u32 \<Rightarrow> pmm \<Rightarrow> pmm option" where
  "pmm_regions m mmap mmap_end s =
     (if mmap < mmap_end
      then let e = read_mmap_entry m mmap
           in pmm_regions m (mmap + me_size e + 4) mmap_end (pmm_region e s)
      else Some s)"

definition reserve_low_and_kernel :: "u32 \<Rightarrow> pmm \<Rightarrow> pmm" where
  "reserve_low_and_kernel kernel_end s =
     (let s1 = for_up 0 (ADDR_TO_PFN 0x100000) (\<lambda>pfn t. bitmap_set t pfn) s;
          kernel_start = 0x100000;
          kernel_end_aligned = PAGE_ALIGN_UP kernel_end;
          kernel_pages = (kernel_end_aligned - kernel_start) div PAGE_SIZE
      in for_up 0 kernel_pages (\<lambda>i t. bitmap_set t (ADDR_TO_PFN kernel_start + i)) s1)"

definition count_used :: "pmm \<Rightarrow> pmm" where
  "count_used s =
     for_up 0 (total_pages s)
       (\<lambda>pfn t. if bitmap_test t pfn then t\<lparr>used_pages := used_pages t + 1\<rparr> else t)
       (s\<lparr>used_pages := 0\<rparr>)"

definition pmm_init :: "(u32 \<Rightarrow> u8) \<Rightarrow> u32 \<Rightarrow> u32 \<Rightarrow> u32 \<Rightarrow> pmm \<Rightarrow> pmm option" where
  "pmm_init m mmap_addr mmap_length kernel_end s =
     (let s0 = for_up 0 BITMAP_SIZE
                 (\<lambda>i t. t\<lparr>page_bitmap := (page_bitmap t)[unat i := 0xFFFFFFFF]\<rparr>) s;
          s1 = s0\<lparr>total_memory := 0, total_pages := 0, used_pages := 0\<rparr>
      in case pmm_regions m mmap_addr (mmap_addr + mmap_length) s1 of
           None \<Rightarrow> None
         | Some s2 \<Rightarrow>
             let n = total_memory s2 div PAGE_SIZE;
                 s3 = s2\<lparr>total_pages := (if n > MAX_PAGES then MAX_PAGES else n)\<rparr>;
                 s4 = reserve_low_and_kernel kernel_end s3
             in Some (count_used s4))"


section \<open>The bitmap as a set of frames\<close>

text \<open>
  Above this section frames are only read through \<open>bitmap_test\<close>. A state is well formed
  when the bitmap has its 2048 words and no more pages are managed than it has bits.
\<close>

definition pmm_wf :: "pmm \<Rightarrow> bool" where
  "pmm_wf s \<longleftrightarrow> length (page_bitmap s) = unat BITMAP_SIZE \<and> total_pages s \<le> MAX_PAGES"

definition used_set :: "pmm \<Rightarrow> u32 set" where
  "used_set s = {p. p < total_pages s \<and> bitmap_test s p}"

definition free_set :: "pmm \<Rightarrow> u32 set" where
  "free_set s = {p. p < total_pages s \<and> \<not> bitmap_test s p}"

text \<open>The counter agrees with the bitmap.\<close>

definition pmm_inv :: "pmm \<Rightarrow> bool" where
  "pmm_inv s \<longleftrightarrow> pmm_wf s \<and> unat (used_pages s) = card (used_set s)"

lemma pmm_numerals [word_norm]:
  "PAGE_SIZE = 4096" "MAX_PHYSICAL_MEMORY = 0x10000000" "MAX_PAGES = 65536"
  "BITMAP_SIZE = 2048" "NOT_FOUND = 0xFFFFFFFF" "ADDR_TO_PFN 0x100000 = 256"
  by (simp_all add: PAGE_SIZE_def MAX_PHYSICAL_MEMORY_def MAX_PAGES_def BITMAP_SIZE_def
        NOT_FOUND_def ADDR_TO_PFN_def)

lemma div32_mod32_eq:
  fixes p q :: u32
  assumes "p div 32 = q div 32" and "p mod 32 = q mod 32"
  shows "p = q"
  using assms by (metis div_mult_mod_eq)

lemma unat_div32_less:
  fixes p :: u32
  assumes "p < 65536"
  shows "unat (p div 32) < 2048"
  using assms by (simp add: unat_div word_less_nat_alt)

lemma unat_mod32_less: "unat ((p::u32) mod 32) < 32"
  by (simp add: unat_mod)

lemma bit_one_push:
  fixes p q :: u32
  assumes "p div 32 = q div 32"
  shows "bit (2 ^ unat (p mod 32) :: u32) (unat (q mod 32)) \<longleftrightarrow> p = q"
proof -
  have "bit (2 ^ unat (p mod 32) :: u32) (unat (q mod 32))
          \<longleftrightarrow> unat (q mod 32) = unat (p mod 32)"
    using unat_mod32_less [of p] by (auto simp: bit_exp_iff)
  also have "\<dots> \<longleftrightarrow> p = q"
    using assms div32_mod32_eq [of p q] by (metis word_unat_eq_iff)
  finally show ?thesis .
qed

lemma and_push_bit_one:
  fixes w :: u32
  assumes "n < 32"
  shows "w AND 2 ^ n \<noteq> 0 \<longleftrightarrow> bit w n"
proof -
  have "bit (w AND 2 ^ n) k \<longleftrightarrow> bit w n \<and> k = n" for k
    using assms by (auto simp: bit_and_iff bit_exp_iff)
  then show ?thesis by (metis bit_0_eq bit_eq_iff bot_apply bot_bool_def)
qed

lemma bitmap_test_bit:
  "bitmap_test s p \<longleftrightarrow>
     (p < MAX_PAGES \<longrightarrow> bit (page_bitmap s ! unat (p div 32)) (unat (p mod 32)))"
  using and_push_bit_one [OF unat_mod32_less] by (simp add: bitmap_test_def)

lemma bitmap_set_fields [simp]:
  "total_pages (bitmap_set s p) = total_pages s"
  "used_pages (bitmap_set s p) = used_pages s"
  "total_memory (bitmap_set s p) = total_memory s"
  "length (page_bitmap (bitmap_set s p)) = length (page_bitmap s)"
  by (simp_all add: bitmap_set_def)

lemma bitmap_clear_fields [simp]:
  "total_pages (bitmap_clear s p) = total_pages s"
  "used_pages (bitmap_clear s p) = used_pages s"
  "total_memory (bitmap_clear s p) = total_memory s"
  "length (page_bitmap (bitmap_clear s p)) = length (page_bitmap s)"
  by (simp_all add: bitmap_clear_def)

lemma bitmap_test_fields [simp]:
  "bitmap_test (s\<lparr>used_pages := u\<rparr>) p = bitmap_test s p"
  "bitmap_test (s\<lparr>total_pages := u\<rparr>) p = bitmap_test s p"
  "bitmap_test (s\<lparr>total_memory := u\<rparr>) p = bitmap_test s p"
  by (simp_all add: bitmap_test_def)

text \<open>How a write to the word of \<open>p\<close> shows in the word of \<open>q\<close>.\<close>

lemma bitmap_word_update:
  assumes "length ws = unat BITMAP_SIZE" and "p < MAX_PAGES"
  shows "ws[unat (p div 32) := w] ! unat (q div 32)
           = (if q div 32 = p div 32 then w else ws ! unat (q div 32))"
  using assms unat_div32_less [of p]
  by (auto simp: word_norm nth_list_update word_unat_eq_iff)

lemma bitmap_test_set:
  assumes "length (page_bitmap s) = unat BITMAP_SIZE"
  shows "bitmap_test (bitmap_set s p) q \<longleftrightarrow> q = p \<or> bitmap_test s q"
  using bit_one_push [of p q]
  by (auto simp: bitmap_test_bit bitmap_set_def bitmap_word_update [OF assms] bit_or_iff
      bit_one_push)

lemma bitmap_test_clear:
  assumes "length (page_bitmap s) = unat BITMAP_SIZE"
  shows "bitmap_test (bitmap_clear s p) q \<longleftrightarrow> bitmap_test s q \<and> (q = p \<longrightarrow> \<not> p < MAX_PAGES)"
  using bit_one_push [of p q] unat_mod32_less [of q]
  by (auto simp: bitmap_test_bit bitmap_clear_def bitmap_word_update [OF assms] bit_and_iff
      bit_not_iff bit_one_push)


lemma pmm_wf_set [simp]: "pmm_wf (bitmap_set s p) = pmm_wf s"
  by (simp add: pmm_wf_def)

lemma pmm_wf_clear [simp]: "pmm_wf (bitmap_clear s p) = pmm_wf s"
  by (simp add: pmm_wf_def)

lemma pmm_wf_used [simp]: "pmm_wf (s\<lparr>used_pages := u\<rparr>) = pmm_wf s"
  by (simp add: pmm_wf_def)

lemma pmm_wfD:
  assumes "pmm_wf s"
  shows "length (page_bitmap s) = unat BITMAP_SIZE" and "total_pages s \<le> MAX_PAGES"
  using assms by (simp_all add: pmm_wf_def)

lemma used_set_update [simp]:
  "used_set (s\<lparr>used_pages := u\<rparr>) = used_set s"
  "free_set (s\<lparr>used_pages := u\<rparr>) = free_set s"
  by (simp_all add: used_set_def free_set_def)

lemma used_set_bitmap_set:
  assumes "pmm_wf s" and "p < total_pages s"
  shows "used_set (bitmap_set s p) = insert p (used_set s)"
    and "free_set (bitmap_set s p) = free_set s - {p}"
  using assms by (auto simp: used_set_def free_set_def bitmap_test_set [OF pmm_wfD(1)])

lemma used_set_bitmap_clear:
  assumes "pmm_wf s" and "p < total_pages s"
  shows "used_set (bitmap_clear s p) = used_set s - {p}"
    and "free_set (bitmap_clear s p) = insert p (free_set s)"
  using assms pmm_wfD(2) [OF assms(1)]
  by (auto simp: used_set_def free_set_def bitmap_test_clear [OF pmm_wfD(1)])

lemma card_words_below: "card {p :: 'a::len word. p < n} = unat n"
proof -
  have "unat ` {p. p < n} = {..<unat n}"
  proof
    show "{..<unat n} \<subseteq> unat ` {p. p < n}"
    proof
      fix k assume "k \<in> {..<unat n}"
      then have "k < unat n" by simp
      moreover from this have "k < 2 ^ LENGTH('a)"
        using unsigned_less [of n, where ?'a = nat] by linarith
      ultimately have "of_nat k < n" and "k = unat (of_nat k :: 'a word)"
        by (simp_all add: word_less_nat_alt unat_of_nat)
      then show "k \<in> unat ` {p. p < n}" by blast
    qed
  qed (auto simp: word_less_nat_alt)
  moreover have "inj_on unat {p :: 'a word. p < n}"
    by (meson inj_onI word_unat_eq_iff)
  ultimately show ?thesis by (metis card_image card_lessThan)
qed

lemma used_card_le: "card (used_set s) \<le> unat (total_pages s)"
  using card_mono [of "{p. p < total_pages s}" "used_set s"]
  by (simp add: card_words_below used_set_def subset_eq)

lemma used_free_card:
  "card (used_set s) + card (free_set s) = unat (total_pages s)"
proof -
  have "card (used_set s \<union> free_set s) = card (used_set s) + card (free_set s)"
    by (rule card_Un_disjoint) (auto simp: used_set_def free_set_def)
  moreover have "used_set s \<union> free_set s = {p. p < total_pages s}"
    by (auto simp: used_set_def free_set_def)
  ultimately show ?thesis by (simp add: card_words_below)
qed

lemma page_bound: "pmm_wf s \<Longrightarrow> p < total_pages s \<Longrightarrow> unat p < 65536"
  using pmm_wfD(2) [of s] by (simp add: word_norm word_less_nat_alt word_le_nat_alt)

lemma free_not_NOT_FOUND: "pmm_wf s \<Longrightarrow> p < total_pages s \<Longrightarrow> p \<noteq> NOT_FOUND"
  using page_bound [of s p] by (auto simp: word_norm)

section \<open>One frame\<close>

lemma find_free_page_spec:
  assumes "pmm_wf s"
  shows "(find_free_page s i = NOT_FOUND \<and> (\<forall>p \<in> free_set s. p < i)) \<or>
         (find_free_page s i \<in> free_set s \<and> i \<le> find_free_page s i \<and>
          (\<forall>p \<in> free_set s. i \<le> p \<longrightarrow> find_free_page s i \<le> p))"
  using assms
proof (induction s i rule: find_free_page.induct)
  case (1 s i)
  consider "\<not> i < total_pages s" | "i < total_pages s" "\<not> bitmap_test s i"
    | "i < total_pages s" "bitmap_test s i" by blast
  then show ?case
  proof cases
    case 1
    then show ?thesis by (auto simp: find_free_page.simps [of s i] free_set_def)
  next
    case 2
    then show ?thesis by (simp add: find_free_page.simps [of s i] free_set_def)
  next
    case 3
    have lt: "p < i + 1 \<longleftrightarrow> p < i" if "p \<in> free_set s" for p
      using that 3 less_inc_iff [OF 3(1), of p] by (auto simp: free_set_def order.order_iff_strict)
    then have "i + 1 \<le> p \<longleftrightarrow> i \<le> p" if "p \<in> free_set s" for p
      using that by (metis not_less)
    note lt this
    moreover have "i \<le> i + 1"
      using less_inc_iff [OF 3(1), of i] by simp
    ultimately show ?thesis
      using "1.IH" [OF 3(1)] 3 "1.prems" order_trans
      by (auto simp: find_free_page.simps [of s i])
  qed
qed

lemma pmm_inv_take:
  assumes "pmm_inv s" and "p \<in> free_set s"
  shows "pmm_inv ((bitmap_set s p)\<lparr>used_pages := used_pages s + 1\<rparr>)"
proof -
  have wf: "pmm_wf s" and p: "p < total_pages s" "p \<notin> used_set s"
    using assms by (auto simp: pmm_inv_def free_set_def used_set_def)
  have "card (insert p (used_set s)) = Suc (card (used_set s))"
    using p(2) by simp
  moreover have "card (used_set s) < 65536"
  proof -
    have "card (used_set s) < card {q. q < total_pages s}"
      using p by (intro psubset_card_mono) (auto simp: used_set_def)
    then show ?thesis
      using pmm_wfD(2) [OF wf] by (simp add: card_words_below word_norm word_le_nat_alt)
  qed
  ultimately show ?thesis
    using assms(1) wf p(1)
    by (simp add: pmm_inv_def used_set_bitmap_set unat_word_ariths)
qed

lemma release_frame_spec:
  assumes "pmm_inv s" and "p \<in> used_set s"
  shows "pmm_inv (release_frame s p)"
    and "used_set (release_frame s p) = used_set s - {p}"
    and "free_set (release_frame s p) = insert p (free_set s)"
    and "total_pages (release_frame s p) = total_pages s"
proof -
  have wf: "pmm_wf s" and p: "p < total_pages s"
    using assms by (auto simp: pmm_inv_def used_set_def)
  have "0 < card (used_set s)"
    using assms(2) by (auto simp: card_gt_0_iff)
  then have pos: "used_pages s > 0"
    using assms(1) by (simp add: pmm_inv_def word_less_nat_alt)
  then have r: "release_frame s p = (bitmap_clear s p)\<lparr>used_pages := used_pages s - 1\<rparr>"
    by (simp add: release_frame_def Let_def)
  have "unat (used_pages s - 1) = card (used_set s - {p})"
    using assms pos unat_minus_one [of "used_pages s"] by (auto simp: pmm_inv_def)
  then show "pmm_inv (release_frame s p)"
    using wf p by (simp add: r pmm_inv_def used_set_bitmap_clear)
  show "used_set (release_frame s p) = used_set s - {p}"
    and "free_set (release_frame s p) = insert p (free_set s)"
    and "total_pages (release_frame s p) = total_pages s"
    using wf p by (simp_all add: r used_set_bitmap_clear)
qed


lemma unat_PFN_TO_ADDR: "unat p < 65536 \<Longrightarrow> unat (PFN_TO_ADDR p) = 4096 * unat p"
  unfolding PFN_TO_ADDR_def by (rule unat_push12) simp

lemma pfn_addr_inverse: "unat p < 65536 \<Longrightarrow> ADDR_TO_PFN (PFN_TO_ADDR p) = p"
  unfolding PFN_TO_ADDR_def ADDR_TO_PFN_def by (rule drop_push12) simp

section \<open>Runs of frames\<close>

text \<open>The frames \<open>pfn, pfn + 1, \<dots>\<close>, \<open>n\<close> of them, with the wrap-around of the index.\<close>

definition pages_from :: "u32 \<Rightarrow> u32 \<Rightarrow> u32 set" where
  "pages_from pfn n = {q. \<exists>i < n. q = pfn + i}"

text \<open>\<open>n\<close> consecutive free frames from number \<open>q\<close>, as naturals.\<close>

definition free_run :: "pmm \<Rightarrow> nat \<Rightarrow> nat \<Rightarrow> bool" where
  "free_run s q n \<longleftrightarrow>
     (\<forall>k. q \<le> k \<and> k < q + n \<longrightarrow> k < unat (total_pages s) \<and> \<not> bitmap_test s (of_nat k))"

lemma free_run_bound:
  assumes "free_run s q n" and "0 < n"
  shows "q + n \<le> unat (total_pages s)"
proof -
  have "q + n - 1 < unat (total_pages s)"
    using assms by (simp add: free_run_def)
  then show ?thesis using assms(2) by simp
qed

lemma find_free_pages_loop_spec:
  assumes "unat c < unat count" and "b + unat c \<le> unat i"
    and "free_run s (unat i - unat c) (unat c)"
    and "0 < unat c \<longrightarrow> unat st = unat i - unat c"
    and "\<forall>q. b \<le> q \<and> q < unat i - unat c \<longrightarrow> \<not> free_run s q (unat count)"
    and "pmm_wf s"
  defines "r \<equiv> find_free_pages_loop s count i c st"
  shows "(r = NOT_FOUND \<and> (\<forall>q \<ge> b. \<not> free_run s q (unat count))) \<or>
         (b \<le> unat r \<and> free_run s (unat r) (unat count) \<and>
          (\<forall>q. b \<le> q \<and> q < unat r \<longrightarrow> \<not> free_run s q (unat count)))"
  using assms(1-6) unfolding r_def
proof (induction s count i c st rule: find_free_pages_loop.induct)
  case (1 s count i c st)
  note prems = "1.prems"
  consider "\<not> i < total_pages s" | "i < total_pages s" "bitmap_test s i"
    | "i < total_pages s" "\<not> bitmap_test s i" by blast
  then show ?case
  proof cases
    case 1
    have "\<not> free_run s q (unat count)" if "b \<le> q" for q
    proof (cases "q < unat i - unat c")
      case True
      then show ?thesis using prems(5) that by blast
    next
      case False
      then show ?thesis
        using 1 prems(1,2) free_run_bound [of s q "unat count"] by (auto simp: word_less_nat_alt)
    qed
    then show ?thesis using 1 by (simp add: find_free_pages_loop.simps [of s])
  next
    case 2
    have i1: "unat (i + 1) = Suc (unat i)" using 2(1) by (rule unat_inc_less)
    have none: "\<forall>q. b \<le> q \<and> q < Suc (unat i) \<longrightarrow> \<not> free_run s q (unat count)"
    proof (intro allI impI)
      fix q assume q: "b \<le> q \<and> q < Suc (unat i)"
      show "\<not> free_run s q (unat count)"
      proof (cases "q < unat i - unat c")
        case True
        then show ?thesis using prems(5) q by blast
      next
        case False
        then have "q \<le> unat i \<and> unat i < q + unat count"
          using q prems(1,2) by linarith
        then show ?thesis using 2(2) unfolding free_run_def by force
      qed
    qed
    have "free_run s (Suc (unat i)) 0" by (auto simp: free_run_def)
    then show ?thesis
      using "1.IH"(2) 2 prems none
      by (simp add: find_free_pages_loop.simps [of s count i] i1)
  next
    case 3
    define st' where "st' = (if c = 0 then i else st)"
    have i1: "unat (i + 1) = Suc (unat i)" using 3(1) by (rule unat_inc_less)
    have c1: "unat (c + 1) = Suc (unat c)"
      using prems(1) by (intro unat_inc_less [of c count]) (simp add: word_less_nat_alt)
    have st': "unat st' = unat i - unat c"
      using prems(4) by (auto simp: st'_def unat_gt_0)
    have run: "free_run s (unat i - unat c) (Suc (unat c))"
      unfolding free_run_def
    proof (intro allI impI)
      fix k assume k: "unat i - unat c \<le> k \<and> k < unat i - unat c + Suc (unat c)"
      show "k < unat (total_pages s) \<and> \<not> bitmap_test s (of_nat k)"
      proof (cases "k = unat i")
        case True
        then show ?thesis using 3 by (simp add: word_less_nat_alt)
      next
        case False
        then have "k < unat i - unat c + unat c" using k prems(2) by linarith
        then show ?thesis using prems(3) k by (simp add: free_run_def)
      qed
    qed
    show ?thesis
    proof (cases "c + 1 = count")
      case True
      then show ?thesis
        using 3 prems run st' c1 add_le_imp_le_diff [OF prems(2)]
        by (simp add: find_free_pages_loop.simps [of s count i] Let_def st'_def [symmetric])
    next
      case False
      then have "unat (c + 1) < unat count"
        using prems(1) c1 by (metis Suc_lessI word_unat_eq_iff)
      then show ?thesis
        using "1.IH"(1) [of st' "c + 1"] 3 prems run st' False
        by (simp add: find_free_pages_loop.simps [of s count i] Let_def st'_def [symmetric] i1 c1)
    qed
  qed
qed


lemma find_free_pages_spec:
  assumes "pmm_wf s" and "0 < unat count"
  shows "(find_free_pages s count a = NOT_FOUND \<and> (\<forall>q \<ge> unat a. \<not> free_run s q (unat count))) \<or>
         (unat a \<le> unat (find_free_pages s count a) \<and>
          free_run s (unat (find_free_pages s count a)) (unat count) \<and>
          (\<forall>q. unat a \<le> q \<and> q < unat (find_free_pages s count a) \<longrightarrow>
               \<not> free_run s q (unat count)))"
  unfolding find_free_pages_def
  by (rule find_free_pages_loop_spec [of 0]) (use assms in \<open>auto simp: free_run_def\<close>)

lemma pages_from_0 [simp]: "pages_from p 0 = {}"
  by (simp add: pages_from_def)

lemma pages_from_Suc:
  assumes "i < n"
  shows "pages_from p (i + 1) = insert (p + i) (pages_from p i)"
  using less_inc_iff [OF assms] by (auto simp: pages_from_def order.order_iff_strict)

lemma pages_from_fresh: "p + i \<notin> pages_from p i"
  by (auto simp: pages_from_def)

lemma card_pages_from: "card (pages_from p n) = unat n"
proof -
  have "pages_from p n = (+) p ` {i. i < n}"
    by (auto simp: pages_from_def)
  then show ?thesis by (simp add: card_image card_words_below)
qed

lemma free_run_pages:
  assumes "pmm_wf s" and "free_run s (unat p) (unat n)" and "0 < unat n"
  shows "pages_from p n \<subseteq> free_set s"
    and "q \<in> pages_from p n \<Longrightarrow> p \<le> q"
proof -
  have bound: "unat p + unat n \<le> 65536"
    using free_run_bound [OF assms(2,3)] pmm_wfD(2) [OF assms(1)]
    by (simp add: word_norm word_le_nat_alt)
  have *: "unat (p + i) = unat p + unat i" if "i < n" for i
    using that bound by (simp add: unat_word_ariths word_less_nat_alt)
  show "pages_from p n \<subseteq> free_set s"
  proof
    fix q assume "q \<in> pages_from p n"
    then obtain i where i: "i < n" "q = p + i" by (auto simp: pages_from_def)
    then have "unat q = unat p + unat i" and "unat i < unat n"
      using * by (simp_all add: word_less_nat_alt)
    then have "unat q < unat (total_pages s) \<and> \<not> bitmap_test s (of_nat (unat q))"
      using assms(2) [unfolded free_run_def, rule_format, of "unat q"] by simp
    then show "q \<in> free_set s" by (simp add: free_set_def word_less_nat_alt)
  qed
  show "p \<le> q" if "q \<in> pages_from p n"
    using that * by (auto simp: pages_from_def word_le_nat_alt)
qed

text \<open>The marking loop of \<open>pmm_alloc_pages\<close> and the clearing loop of \<open>pmm_free_pages\<close>.\<close>

lemma mark_run:
  fixes p n :: u32
  assumes "pmm_wf s"
  defines "t \<equiv> for_up 0 n (\<lambda>i t. bitmap_set t (p + i)) s"
  shows "pmm_wf t \<and> total_pages t = total_pages s \<and> used_pages t = used_pages s \<and>
         (\<forall>q. bitmap_test t q \<longleftrightarrow> q \<in> pages_from p n \<or> bitmap_test s q)"
proof -
  let ?P = "\<lambda>i t. pmm_wf t \<and> total_pages t = total_pages s \<and> used_pages t = used_pages s \<and>
         (\<forall>q. bitmap_test t q \<longleftrightarrow> q \<in> pages_from p i \<or> bitmap_test s q)"
  have "?P (max 0 n) (for_up 0 n (\<lambda>i t. bitmap_set t (p + i)) s)"
    by (rule for_up_rule)
       (use assms in \<open>auto simp: pages_from_Suc bitmap_test_set [OF pmm_wfD(1)]\<close>)
  then show ?thesis by (simp add: t_def)
qed

lemma clear_run:
  fixes p n :: u32
  assumes "pmm_inv s"
  defines "t \<equiv> for_up 0 n (\<lambda>i t. if p + i < total_pages t \<and> bitmap_test t (p + i)
                                then release_frame t (p + i) else t) s"
  shows "pmm_inv t \<and> total_pages t = total_pages s \<and>
         used_set t = used_set s - pages_from p n"
proof -
  let ?P = "\<lambda>i t. pmm_inv t \<and> total_pages t = total_pages s \<and>
         used_set t = used_set s - pages_from p i"
  have "?P (max 0 n) t"
    unfolding t_def
  proof (rule for_up_rule)
    fix i t assume i: "i < n" and P: "?P i t"
    show "?P (i + 1) (if p + i < total_pages t \<and> bitmap_test t (p + i)
                      then release_frame t (p + i) else t)"
    proof (cases "p + i \<in> used_set t")
      case True
      then have c: "p + i < total_pages t \<and> bitmap_test t (p + i)"
        by (simp add: used_set_def)
      have r: "used_set s - pages_from p (i + 1) = used_set t - {p + i}"
        using P by (auto simp: pages_from_Suc [OF i])
      show ?thesis
        using c P r release_frame_spec [OF _ True] by simp
    next
      case False
      then have "\<not> (p + i < total_pages t \<and> bitmap_test t (p + i))"
        by (simp add: used_set_def)
      then show ?thesis using P False by (auto simp: pages_from_Suc [OF i])
    qed
  qed (use assms in simp)
  then show ?thesis by simp
qed

lemma free_set_alt: "free_set s = {p. p < total_pages s} - used_set s"
  by (auto simp: free_set_def used_set_def)

lemma mark_run_inv:
  assumes "pmm_inv s" and "pages_from p n \<subseteq> free_set s"
    and t: "t = for_up 0 n (\<lambda>i t. bitmap_set t (p + i)) s"
  shows "pmm_inv (t\<lparr>used_pages := used_pages t + n\<rparr>)"
    and "used_set t = used_set s \<union> pages_from p n"
    and "free_set t = free_set s - pages_from p n"
proof -
  have wf: "pmm_wf s" using assms(1) by (simp add: pmm_inv_def)
  note m = mark_run [OF wf, of n p, folded t]
  show us: "used_set t = used_set s \<union> pages_from p n"
    using m assms(2) by (auto simp: used_set_def free_set_def)
  show fs: "free_set t = free_set s - pages_from p n"
    using m by (auto simp: free_set_def)
  have "used_set s \<inter> pages_from p n = {}"
    using assms(2) by (auto simp: used_set_def free_set_def)
  then have card: "card (used_set t) = card (used_set s) + unat n"
    by (simp add: us card_Un_disjoint card_pages_from)
  moreover have "card (used_set t) < 2 ^ 32"
    using used_card_le [of t] m pmm_wfD(2) [of t]
    by (simp add: word_norm word_le_nat_alt)
  ultimately show "pmm_inv (t\<lparr>used_pages := used_pages t + n\<rparr>)"
    using m assms(1) by (simp add: pmm_inv_def unat_word_ariths)
qed


section \<open>The allocator as a set of frames\<close>

text \<open>The frames of the allocator by address: \<open>pmm_alloc_page\<close> starts at 1 MB.\<close>

definition managed_frames :: "pmm \<Rightarrow> u32 set" where
  "managed_frames s = PFN_TO_ADDR ` {p. 256 \<le> p \<and> p < total_pages s}"

definition free_frames :: "pmm \<Rightarrow> u32 set" where
  "free_frames s = PFN_TO_ADDR ` {p \<in> free_set s. 256 \<le> p}"

lemma PFN_TO_ADDR_inj:
  assumes "pmm_wf s" and "p < total_pages s" and "q < total_pages s"
  shows "PFN_TO_ADDR p = PFN_TO_ADDR q \<longleftrightarrow> p = q"
  using assms page_bound pfn_addr_inverse by metis

lemma free_frames_iff:
  assumes "pmm_wf s" and "p < total_pages s" and "256 \<le> p"
  shows "PFN_TO_ADDR p \<in> free_frames s \<longleftrightarrow> p \<in> free_set s"
  using assms PFN_TO_ADDR_inj [OF assms(1)] by (auto simp: free_frames_def free_set_def)

lemma PFN_TO_ADDR_aligned: "PFN_TO_ADDR p AND 0xFFF = 0"
  unfolding PFN_TO_ADDR_def
  by (rule bit_eqI) (auto simp: bit_and_iff bit_push_bit_iff word_norm)

lemma pmm_alloc_page_cases:
  assumes "pmm_inv s"
  obtains (none) "pmm_alloc_page s = (0, s)" "free_frames s = {}"
  | (some) p where "p \<in> free_set s" "256 \<le> p" "\<And>q. q \<in> free_set s \<Longrightarrow> 256 \<le> q \<Longrightarrow> p \<le> q"
      "pmm_alloc_page s =
         (PFN_TO_ADDR p, (bitmap_set s p)\<lparr>used_pages := used_pages s + 1\<rparr>)"
proof -
  have wf: "pmm_wf s" using assms by (simp add: pmm_inv_def)
  show thesis
  proof (cases "find_free_page s 256 = NOT_FOUND")
    case True
    then have "NOT_FOUND \<notin> free_set s"
      using free_not_NOT_FOUND [OF wf] by (auto simp: free_set_def)
    then have "\<forall>p \<in> free_set s. p < 256"
      using find_free_page_spec [OF wf, of 256] True by auto
    then have "free_frames s = {}" by (fastforce simp: free_frames_def)
    moreover have "pmm_alloc_page s = (0, s)"
      using True by (simp add: pmm_alloc_page_def word_norm)
    ultimately show thesis by (rule none [rotated])
  next
    case False
    then have "find_free_page s 256 \<in> free_set s \<and> 256 \<le> find_free_page s 256 \<and>
          (\<forall>p \<in> free_set s. 256 \<le> p \<longrightarrow> find_free_page s 256 \<le> p)"
      using find_free_page_spec [OF wf, of 256] by blast
    moreover have "pmm_alloc_page s = (PFN_TO_ADDR (find_free_page s 256),
        (bitmap_set s (find_free_page s 256))\<lparr>used_pages := used_pages s + 1\<rparr>)"
      using False by (simp add: pmm_alloc_page_def word_norm Let_def)
    ultimately show thesis by (intro some) auto
  qed
qed

lemma pfn_addr_nonzero:
  assumes "pmm_wf s" and "p < total_pages s" and "256 \<le> p"
  shows "PFN_TO_ADDR p \<noteq> 0"
proof
  assume "PFN_TO_ADDR p = 0"
  then have "4096 * unat p = 0"
    using unat_PFN_TO_ADDR [OF page_bound [OF assms(1,2)]] by simp
  then show False using assms(3) by (simp add: word_le_nat_alt)
qed

lemma pmm_free_page_used:
  assumes "pmm_inv s" and "p \<in> used_set s"
  shows "pmm_free_page s (PFN_TO_ADDR p) = release_frame s p"
  using assms pfn_addr_inverse [OF page_bound, of s p]
  by (simp add: pmm_free_page_def used_set_def pmm_inv_def)

interpretation fa: frame_allocator pmm_alloc_page pmm_free_page free_frames managed_frames pmm_inv
proof
  fix s t :: pmm and a :: u32
  show "pmm_inv t \<and> a \<in> free_frames s \<and> free_frames t = free_frames s - {a} \<and>
        managed_frames t = managed_frames s"
    if "pmm_inv s" "pmm_alloc_page s = (a, t)" "a \<noteq> 0"
    using that(1)
  proof (cases rule: pmm_alloc_page_cases)
    case none
    then show ?thesis using that by simp
  next
    case (some p)
    have wf: "pmm_wf s" and p: "p < total_pages s"
      using that(1) some(1) by (auto simp: pmm_inv_def free_set_def)
    have t: "a = PFN_TO_ADDR p" "t = (bitmap_set s p)\<lparr>used_pages := used_pages s + 1\<rparr>"
      using some(4) that(2) by auto
    have "PFN_TO_ADDR ` {q \<in> free_set s - {p}. 256 \<le> q} = free_frames s - {PFN_TO_ADDR p}"
      using PFN_TO_ADDR_inj [OF wf _ p] by (auto simp: free_frames_def free_set_def)
    then have "free_frames t = free_frames s - {a}"
      using used_set_bitmap_set [OF wf p] by (simp add: free_frames_def t)
    moreover have "managed_frames t = managed_frames s" by (simp add: t managed_frames_def)
    moreover have "a \<in> free_frames s"
      using some(1,2) by (auto simp: t free_frames_def)
    ultimately show ?thesis
      using pmm_inv_take [OF that(1) some(1)] by (simp add: t)
  qed
  show "t = s \<and> free_frames s = {}" if "pmm_inv s" "pmm_alloc_page s = (0, t)"
    using that(1)
  proof (cases rule: pmm_alloc_page_cases)
    case none
    then show ?thesis using that by simp
  next
    case (some p)
    then show ?thesis
      using that pfn_addr_nonzero [of s p] by (auto simp: pmm_inv_def free_set_def)
  qed
  show "free_frames s \<subseteq> managed_frames s"
    by (auto simp: free_frames_def managed_frames_def free_set_def)
  show "0 \<notin> managed_frames s" if "pmm_inv s"
    using that pfn_addr_nonzero [of s] by (auto simp: managed_frames_def pmm_inv_def)
  show "a AND 0xFFF = 0" if "a \<in> managed_frames s"
    using that by (auto simp: managed_frames_def PFN_TO_ADDR_aligned)
  show "pmm_inv (pmm_free_page s a) \<and> free_frames (pmm_free_page s a) = insert a (free_frames s) \<and>
        managed_frames (pmm_free_page s a) = managed_frames s"
    if as: "pmm_inv s" "a \<in> managed_frames s" "a \<notin> free_frames s"
  proof -
    obtain p where p: "a = PFN_TO_ADDR p" "256 \<le> p" "p < total_pages s"
      using as(2) by (auto simp: managed_frames_def)
    then have "p \<in> used_set s"
      using as free_frames_iff [of s p]
      by (auto simp: pmm_inv_def free_set_def used_set_def)
    note r = release_frame_spec [OF as(1) this] pmm_free_page_used [OF as(1) this]
    have "{q \<in> insert p (free_set s). 256 \<le> q} = insert p {q \<in> free_set s. 256 \<le> q}"
      using p(2) by auto
    then show ?thesis
      using r by (simp add: p(1) free_frames_def managed_frames_def)
  qed
qed


section \<open>Start-up\<close>

text \<open>
  The specification of the map loop: the entries met from \<open>a\<close> on, in order. A walk exists
  exactly for the maps on which the loop ends.
\<close>

inductive mmap_walk :: "(u32 \<Rightarrow> u8) \<Rightarrow> u32 \<Rightarrow> u32 \<Rightarrow> mmap_entry list \<Rightarrow> bool"
  for m where
  walk_done: "\<not> a < last_addr \<Longrightarrow> mmap_walk m a last_addr []"
| walk_step: "\<lbrakk>a < last_addr; e = read_mmap_entry m a;
     mmap_walk m (a + me_size e + 4) last_addr es\<rbrakk> \<Longrightarrow> mmap_walk m a last_addr (e # es)"

lemma pmm_regions_walk:
  "mmap_walk m a last_addr es \<Longrightarrow> pmm_regions m a last_addr s = Some (fold pmm_region es s)"
proof (induction arbitrary: s rule: mmap_walk.induct)
  case (walk_done a)
  then show ?case by (simp add: pmm_regions.simps)
next
  case (walk_step a e es)
  then show ?case by (subst pmm_regions.simps) (simp add: Let_def)
qed

lemma walk_pmm_regions:
  assumes "pmm_regions m a last_addr s = Some t"
  shows "\<exists>es. mmap_walk m a last_addr es"
proof (rule pmm_regions.raw_induct
    [where P = "\<lambda>m a last_addr s t. \<exists>es. mmap_walk m a last_addr es", OF _ assms])
  fix f m a n s t
  assume IH: "\<And>m a n s t. f m a n s = Some t \<Longrightarrow> \<exists>es. mmap_walk m a n es"
    and eq: "(if a < n then let e = read_mmap_entry m a
                in f m (a + me_size e + 4) n (pmm_region e s) else Some s) = Some t"
  show "\<exists>es. mmap_walk m a n es"
  proof (cases "a < n")
    case True
    then have "f m (a + me_size (read_mmap_entry m a) + 4) n (pmm_region (read_mmap_entry m a) s) = Some t"
      using eq by (simp add: Let_def)
    then show ?thesis using IH walk_step [OF True refl] by blast
  qed (blast intro: walk_done)
qed

text \<open>The frames an available entry frees: whole pages of the region below 256 MB.\<close>

definition region_frames :: "mmap_entry \<Rightarrow> u32 set" where
  "region_frames e =
     (let base = ucast (me_base_addr e) :: u32; len = ucast (me_length e) :: u32
      in if me_type e = MMAP_TYPE_AVAILABLE \<and> base < MAX_PHYSICAL_MEMORY
         then {p. ADDR_TO_PFN (PAGE_ALIGN_UP base) \<le> p \<and> p < MAX_PAGES \<and>
                  p < ADDR_TO_PFN (PAGE_ALIGN_DOWN (min (base + len) MAX_PHYSICAL_MEMORY))}
         else {})"

lemma clear_range:
  fixes a n :: u32
  assumes "length (page_bitmap s) = unat BITMAP_SIZE" and "n \<le> MAX_PAGES"
  defines "t \<equiv> for_up a n (\<lambda>p t. bitmap_clear t p) s"
  shows "length (page_bitmap t) = unat BITMAP_SIZE \<and> total_memory t = total_memory s \<and>
         (\<forall>q. bitmap_test t q \<longleftrightarrow> bitmap_test s q \<and> \<not> (a \<le> q \<and> q < n))"
proof -
  let ?P = "\<lambda>i t. length (page_bitmap t) = unat BITMAP_SIZE \<and> total_memory t = total_memory s \<and>
         (\<forall>q. bitmap_test t q \<longleftrightarrow> bitmap_test s q \<and> \<not> (a \<le> q \<and> q < i))"
  have "?P (max a n) t"
    unfolding t_def
  proof (rule for_up_rule)
    fix i t assume i: "a \<le> i" "i < n" and P: "?P i t"
    have "q < i + 1 \<longleftrightarrow> q < i \<or> q = i" for q
      using less_inc_iff [OF i(2)] by (simp add: order.order_iff_strict)
    moreover have "i < MAX_PAGES" using i(2) assms(2) by simp
    ultimately show "?P (i + 1) (bitmap_clear t i)"
      using P i(1) by (auto simp: bitmap_test_clear)
  qed (use assms in auto)
  moreover have "(a \<le> q \<and> q < max a n) = (a \<le> q \<and> q < n)" for q
    by (metis less_max_iff_disj not_less)
  ultimately show ?thesis by simp
qed

lemma pmm_region_spec:
  assumes "length (page_bitmap s) = unat BITMAP_SIZE"
  shows "length (page_bitmap (pmm_region e s)) = unat BITMAP_SIZE"
    and "total_memory (pmm_region e s) = total_memory s +
           (if me_type e = MMAP_TYPE_AVAILABLE then ucast (me_length e) else 0)"
    and "bitmap_test (pmm_region e s) q \<longleftrightarrow> bitmap_test s q \<and> q \<notin> region_frames e"
proof -
  define base len where "base = (ucast (me_base_addr e) :: u32)" and "len = (ucast (me_length e) :: u32)"
  let ?s1 = "s\<lparr>total_memory := total_memory s + len\<rparr>"
  let ?a = "ADDR_TO_PFN (PAGE_ALIGN_UP base)"
  let ?n = "min (ADDR_TO_PFN (PAGE_ALIGN_DOWN (min (base + len) MAX_PHYSICAL_MEMORY))) MAX_PAGES"
  have end1: "(if base + len > MAX_PHYSICAL_MEMORY then MAX_PHYSICAL_MEMORY else base + len)
      = min (base + len) MAX_PHYSICAL_MEMORY"
    by (auto simp: min_def)
  have r: "pmm_region e s = (if me_type e = MMAP_TYPE_AVAILABLE
      then if base < MAX_PHYSICAL_MEMORY
           then for_up ?a ?n (\<lambda>p t. bitmap_clear t p) ?s1 else ?s1 else s)"
    by (simp add: pmm_region_def Let_def base_def [symmetric] len_def [symmetric] end1)
  note c = clear_range [of ?s1 ?n ?a]
  show "length (page_bitmap (pmm_region e s)) = unat BITMAP_SIZE"
    and "total_memory (pmm_region e s) = total_memory s +
           (if me_type e = MMAP_TYPE_AVAILABLE then ucast (me_length e) else 0)"
    using assms c by (simp_all add: r len_def [symmetric])
  show "bitmap_test (pmm_region e s) q \<longleftrightarrow> bitmap_test s q \<and> q \<notin> region_frames e"
    using assms c
    by (auto simp: r region_frames_def Let_def base_def [symmetric] len_def [symmetric])
qed

lemma fold_pmm_region:
  assumes "length (page_bitmap s) = unat BITMAP_SIZE"
  shows "length (page_bitmap (fold pmm_region es s)) = unat BITMAP_SIZE \<and>
         total_memory (fold pmm_region es s) = total_memory s +
           sum_list (map (\<lambda>e. if me_type e = MMAP_TYPE_AVAILABLE then ucast (me_length e) else 0) es) \<and>
         (bitmap_test (fold pmm_region es s) q \<longleftrightarrow>
            bitmap_test s q \<and> (\<forall>e \<in> set es. q \<notin> region_frames e))"
  using assms
proof (induction es arbitrary: s)
  case (Cons e es)
  then show ?case using pmm_region_spec [OF Cons.prems] by (auto simp: algebra_simps)
qed simp

lemma count_used_spec:
  assumes "pmm_wf s"
  shows "pmm_inv (count_used s)" and "total_pages (count_used s) = total_pages s"
    and "bitmap_test (count_used s) q = bitmap_test s q"
proof -
  let ?n = "\<lambda>i. card {p. p < i \<and> bitmap_test s p}"
  let ?P = "\<lambda>i t. t = s\<lparr>used_pages := of_nat (?n i)\<rparr>"
  have "?P (max 0 (total_pages s)) (count_used s)"
    unfolding count_used_def
  proof (rule for_up_rule)
    fix i t assume i: "i < total_pages s" and P: "?P i t"
    have "{p. p < i + 1 \<and> bitmap_test s p} =
        (if bitmap_test s i then insert i {p. p < i \<and> bitmap_test s p}
         else {p. p < i \<and> bitmap_test s p})"
      using less_inc_iff [OF i] by (auto simp: order.order_iff_strict)
    then show "?P (i + 1) (if bitmap_test t i then t\<lparr>used_pages := used_pages t + 1\<rparr> else t)"
      using P by (simp add: add.commute)
  qed simp
  then have c: "count_used s = s\<lparr>used_pages := of_nat (card (used_set s))\<rparr>"
    by (simp add: used_set_def)
  have "card (used_set s) < 2 ^ 32"
    using used_card_le [of s] pmm_wfD(2) [OF assms] by (simp add: word_norm word_le_nat_alt)
  then show "pmm_inv (count_used s)"
    using assms by (simp add: c pmm_inv_def unat_of_nat)
  show "total_pages (count_used s) = total_pages s"
    and "bitmap_test (count_used s) q = bitmap_test s q"
    by (simp_all add: c)
qed


text \<open>The frames \<open>pmm_init\<close> reserves for the kernel image, from 1 MB on.\<close>

definition kernel_frames :: "u32 \<Rightarrow> u32 set" where
  "kernel_frames kernel_end =
     pages_from (ADDR_TO_PFN 0x100000) ((PAGE_ALIGN_UP kernel_end - 0x100000) div PAGE_SIZE)"

lemma reserve_spec:
  assumes "pmm_wf s"
  shows "pmm_wf (reserve_low_and_kernel k s)"
    and "total_pages (reserve_low_and_kernel k s) = total_pages s"
    and "bitmap_test (reserve_low_and_kernel k s) q \<longleftrightarrow>
           q < 256 \<or> q \<in> kernel_frames k \<or> bitmap_test s q"
proof -
  let ?s1 = "for_up 0 256 (\<lambda>pfn t. bitmap_set t pfn) s"
  have low: "pages_from 0 256 = {q. q < 256}" by (auto simp: pages_from_def)
  note m1 = mark_run [OF assms, of 256 0, simplified low add_0]
  have r: "reserve_low_and_kernel k s =
      for_up 0 ((PAGE_ALIGN_UP k - 0x100000) div PAGE_SIZE) (\<lambda>i t. bitmap_set t (256 + i)) ?s1"
    by (simp add: reserve_low_and_kernel_def word_norm Let_def)
  note m2 = mark_run [OF conjunct1 [OF m1], of "(PAGE_ALIGN_UP k - 0x100000) div PAGE_SIZE" 256]
  show "pmm_wf (reserve_low_and_kernel k s)"
    and "total_pages (reserve_low_and_kernel k s) = total_pages s"
    and "bitmap_test (reserve_low_and_kernel k s) q \<longleftrightarrow>
           q < 256 \<or> q \<in> kernel_frames k \<or> bitmap_test s q"
    using m1 m2 by (auto simp: r kernel_frames_def word_norm)
qed

lemma fill_bitmap:
  assumes "length (page_bitmap s) = unat BITMAP_SIZE"
  defines "t \<equiv> for_up 0 BITMAP_SIZE
                 (\<lambda>i t. t\<lparr>page_bitmap := (page_bitmap t)[unat i := 0xFFFFFFFF]\<rparr>) s"
  shows "length (page_bitmap t) = unat BITMAP_SIZE" and "bitmap_test t q"
proof -
  let ?P = "\<lambda>i t. length (page_bitmap t) = unat BITMAP_SIZE \<and>
              (\<forall>k < unat (i :: u32). page_bitmap t ! k = 0xFFFFFFFF)"
  have "?P (max 0 BITMAP_SIZE) t"
    unfolding t_def
    by (rule for_up_rule)
       (use assms in \<open>auto simp: unat_inc_less nth_list_update less_Suc_eq word_less_nat_alt\<close>)
  then have P: "?P BITMAP_SIZE t" by (simp add: word_norm)
  then show "length (page_bitmap t) = unat BITMAP_SIZE" by simp
  show "bitmap_test t q"
    using P unat_div32_less [of q] unat_mod32_less [of q]
    by (simp add: bitmap_test_bit word_norm)
qed

text \<open>The available bytes the map announces, in the 32-bit arithmetic of the code.\<close>

definition available_bytes :: "mmap_entry list \<Rightarrow> u32" where
  "available_bytes es = sum_list
     (map (\<lambda>e. if me_type e = MMAP_TYPE_AVAILABLE then ucast (me_length e) else 0) es)"

lemma pmm_init_walk:
  assumes len: "length (page_bitmap s) = unat BITMAP_SIZE"
    and walk: "mmap_walk m mmap_addr (mmap_addr + mmap_length) es"
  obtains t where "pmm_init m mmap_addr mmap_length kernel_end s = Some t"
    and "pmm_inv t" and "total_pages t = min (available_bytes es div PAGE_SIZE) MAX_PAGES"
    and "\<And>p. p \<in> free_set t \<longleftrightarrow> p < total_pages t \<and> (\<exists>e \<in> set es. p \<in> region_frames e) \<and>
              256 \<le> p \<and> p \<notin> kernel_frames kernel_end"
proof -
  define s1 where "s1 = (for_up 0 BITMAP_SIZE
      (\<lambda>i t. t\<lparr>page_bitmap := (page_bitmap t)[unat i := 0xFFFFFFFF]\<rparr>) s)
      \<lparr>total_memory := 0, total_pages := 0, used_pages := 0\<rparr>"
  define s2 where "s2 = fold pmm_region es s1"
  define s3 where "s3 = s2\<lparr>total_pages := min (total_memory s2 div PAGE_SIZE) MAX_PAGES\<rparr>"
  let ?t = "count_used (reserve_low_and_kernel kernel_end s3)"
  have s1: "length (page_bitmap s1) = unat BITMAP_SIZE" "total_memory s1 = 0" "bitmap_test s1 q" for q
    using fill_bitmap [OF len] by (simp_all add: s1_def)
  note s2 = fold_pmm_region [OF s1(1), of es, folded s2_def]
  have wf3: "pmm_wf s3" using s2 by (simp add: s3_def pmm_wf_def)
  note r = reserve_spec [OF wf3, of kernel_end] and c = count_used_spec [OF reserve_spec(1) [OF wf3]]
  have tp: "total_pages ?t = total_pages s3" by (simp add: c r)
  have bt: "bitmap_test ?t q \<longleftrightarrow> q < 256 \<or> q \<in> kernel_frames kernel_end \<or> bitmap_test s2 q" for q
    by (simp add: c r) (simp add: s3_def)
  have "pmm_init m mmap_addr mmap_length kernel_end s = Some ?t"
    using pmm_regions_walk [OF walk, of s1]
    by (simp add: pmm_init_def Let_def s1_def [symmetric] s2_def [symmetric] s3_def min_def not_less)
  moreover have "total_pages ?t = min (available_bytes es div PAGE_SIZE) MAX_PAGES"
    using s2 s1 tp by (simp add: s3_def available_bytes_def)
  moreover have "p \<in> free_set ?t \<longleftrightarrow> p < total_pages ?t \<and> (\<exists>e \<in> set es. p \<in> region_frames e) \<and>
              256 \<le> p \<and> p \<notin> kernel_frames kernel_end" for p
    using s2 s1 by (auto simp: free_set_def bt)
  ultimately show thesis using that c(1) by blast
qed


section \<open>Properties\<close>

text \<open>A small machine with two free frames, for the closed instances below.\<close>

definition sample_pmm :: pmm where
  "sample_pmm = count_used (bitmap_clear (bitmap_clear
     \<lparr>page_bitmap = replicate 2048 0xFFFFFFFF, total_pages = 258, used_pages = 0,
      total_memory = 0\<rparr> 256) 257)"

lemma sample_pmm_facts:
  "pmm_inv sample_pmm" "total_pages sample_pmm = 258" "free_set sample_pmm = {256, 257}"
proof -
  let ?z = "\<lparr>page_bitmap = replicate 2048 0xFFFFFFFF, total_pages = 258, used_pages = 0,
      total_memory = 0\<rparr>"
  let ?s = "bitmap_clear (bitmap_clear ?z 256) 257"
  have wf: "pmm_wf ?s" by (simp add: pmm_wf_def word_norm)
  have "bitmap_test ?z q" for q
    using unat_div32_less [of q] unat_mod32_less [of q] by (simp add: bitmap_test_bit word_norm)
  then have bt: "bitmap_test ?s q \<longleftrightarrow> q \<noteq> 256 \<and> q \<noteq> 257" for q
    by (simp add: bitmap_test_clear word_norm)
  note c = count_used_spec [OF wf, folded sample_pmm_def]
  show "pmm_inv sample_pmm" by (rule c(1))
  show total: "total_pages sample_pmm = 258" by (simp add: c(2))
  show "free_set sample_pmm = {256, 257}"
    unfolding free_set_def total c(3) bt by auto
qed

lemma pmm_alloc_page_spec:
  assumes "pmm_inv s" and "pmm_alloc_page s = (a, t)"
  shows "(a = 0 \<and> t = s \<and> (\<forall>p \<in> free_set s. p < 256)) \<or>
         (\<exists>p \<in> free_set s. a = PFN_TO_ADDR p \<and> a \<noteq> 0 \<and> 256 \<le> p \<and>
            (\<forall>q \<in> free_set s. 256 \<le> q \<longrightarrow> p \<le> q) \<and>
            free_set t = free_set s - {p} \<and> used_set t = insert p (used_set s) \<and>
            used_pages t = used_pages s + 1 \<and>
            total_pages t = total_pages s \<and> pmm_inv t)"
  using assms(1)
proof (cases rule: pmm_alloc_page_cases)
  case none
  then show ?thesis using assms(2) by (auto simp: free_frames_def not_le)
next
  case (some p)
  have wf: "pmm_wf s" and p: "p < total_pages s"
    using assms(1) some(1) by (auto simp: pmm_inv_def free_set_def)
  show ?thesis
    using some assms pmm_inv_take [OF assms(1) some(1)] pfn_addr_nonzero [OF wf p some(2)]
      used_set_bitmap_set [OF wf p]
    by (intro disjI2 bexI [of _ p]) auto
qed

lemma free_run_one:
  assumes "pmm_wf s"
  shows "free_run s (unat p) (Suc 0) \<longleftrightarrow> p \<in> free_set s"
proof -
  have "unat p \<le> k \<and> k < unat p + Suc 0 \<longleftrightarrow> k = unat p" for k by auto
  then show ?thesis by (simp add: free_run_def free_set_def word_less_nat_alt)
qed

lemma free_run_oneD:
  assumes "pmm_wf s" and "free_run s q 1"
  shows "of_nat q \<in> free_set s" and "unat (of_nat q :: u32) = q"
proof -
  have "q < 65536"
    using free_run_bound [OF assms(2)] pmm_wfD(2) [OF assms(1)]
    by (simp add: word_norm word_le_nat_alt)
  then show q: "unat (of_nat q :: u32) = q" by (simp add: unat_of_nat)
  then show "of_nat q \<in> free_set s"
    using assms(2) free_run_one [OF assms(1), of "of_nat q"] by simp
qed

lemma pages_from_one: "pages_from p 1 = {p}"
proof -
  have "i < 1 \<longleftrightarrow> i = 0" for i :: u32 by (simp add: word_less_nat_alt word_unat_eq_iff)
  then show ?thesis by (auto simp: pages_from_def)
qed

lemma pmm_alloc_pages_spec:
  assumes "pmm_inv s" and "0 < count" and "pmm_alloc_pages s count = (a, t)"
  shows "(a = 0 \<and> t = s \<and> (\<forall>q \<ge> 256. \<not> free_run s q (unat count))) \<or>
         (\<exists>p. a = PFN_TO_ADDR p \<and> a \<noteq> 0 \<and> 256 \<le> p \<and> pages_from p count \<subseteq> free_set s \<and>
            (\<forall>q. 256 \<le> q \<and> q < unat p \<longrightarrow> \<not> free_run s q (unat count)) \<and>
            free_set t = free_set s - pages_from p count \<and>
            used_set t = used_set s \<union> pages_from p count \<and>
            used_pages t = used_pages s + count \<and> total_pages t = total_pages s \<and> pmm_inv t)"
proof -
  have wf: "pmm_wf s" using assms(1) by (simp add: pmm_inv_def)
  show ?thesis
  proof (cases "count = 1")
    case True
    then have alloc: "pmm_alloc_page s = (a, t)"
      using assms(3) by (simp add: pmm_alloc_pages_def)
    show ?thesis
      using pmm_alloc_page_spec [OF assms(1) alloc]
    proof
      assume *: "a = 0 \<and> t = s \<and> (\<forall>p \<in> free_set s. p < 256)"
      have "\<not> free_run s q 1" if "256 \<le> q" for q
      proof
        assume "free_run s q 1"
        then have "of_nat q \<in> free_set s" "unat (of_nat q :: u32) = q"
          using free_run_oneD [OF wf] by auto
        then show False using * that by (auto simp: word_less_nat_alt)
      qed
      then show ?thesis using * True by auto
    next
      assume "\<exists>p \<in> free_set s. a = PFN_TO_ADDR p \<and> a \<noteq> 0 \<and> 256 \<le> p \<and>
            (\<forall>q \<in> free_set s. 256 \<le> q \<longrightarrow> p \<le> q) \<and>
            free_set t = free_set s - {p} \<and> used_set t = insert p (used_set s) \<and>
            used_pages t = used_pages s + 1 \<and>
            total_pages t = total_pages s \<and> pmm_inv t"
      then obtain p where "p \<in> free_set s" "a = PFN_TO_ADDR p" "a \<noteq> 0" "256 \<le> p"
        "free_set t = free_set s - {p}" "used_set t = insert p (used_set s)"
        "used_pages t = used_pages s + 1" "total_pages t = total_pages s" "pmm_inv t"
        and least: "\<forall>q \<in> free_set s. 256 \<le> q \<longrightarrow> p \<le> q" by blast
      moreover have "\<not> free_run s q 1" if "256 \<le> q" "q < unat p" for q
      proof
        assume "free_run s q 1"
        then have "of_nat q \<in> free_set s" "unat (of_nat q :: u32) = q"
          using free_run_oneD [OF wf] by auto
        then show False
          using bspec [OF least, of "of_nat q"] that by (auto simp: word_le_nat_alt)
      qed
      ultimately show ?thesis using True by (intro disjI2 exI [of _ p]) (simp add: pages_from_one)
    qed
  next
    case False
    let ?p = "find_free_pages s count 256"
    let ?t = "for_up 0 count (\<lambda>i t. bitmap_set t (?p + i)) s"
    have n: "0 < unat count" using assms(2) by (simp add: word_less_nat_alt)
    have nz: "count \<noteq> 0" using assms(2) by auto
    show ?thesis
    proof (cases "?p = NOT_FOUND")
      case True
      have "unat ?p = 4294967295" using True by (simp add: word_norm)
      moreover have "unat (total_pages s) \<le> 65536"
        using pmm_wfD(2) [OF wf] by (simp add: word_norm word_le_nat_alt)
      ultimately have "\<not> free_run s (unat ?p) (unat count)"
        using free_run_bound [of s "unat ?p" "unat count"] n by linarith
      then have "\<forall>q \<ge> 256. \<not> free_run s q (unat count)"
        using find_free_pages_spec [OF wf n, of 256] by auto
      then show ?thesis
        using assms(3) False True nz by (simp add: pmm_alloc_pages_def word_norm)
    next
      case found: False
      then have run: "256 \<le> ?p" "free_run s (unat ?p) (unat count)"
        "\<forall>q. 256 \<le> q \<and> q < unat ?p \<longrightarrow> \<not> free_run s q (unat count)"
        using find_free_pages_spec [OF wf n, of 256] by (auto simp: word_le_nat_alt)
      note sub = free_run_pages(1) [OF wf run(2) n]
      note m = mark_run_inv [OF assms(1) sub refl]
      have "?p + 0 \<in> pages_from ?p count"
        using assms(2) by (auto simp: pages_from_def)
      then have "?p < total_pages s" using sub by (auto simp: free_set_def)
      then have "PFN_TO_ADDR ?p \<noteq> 0" using pfn_addr_nonzero [OF wf _ run(1)] by blast
      then show ?thesis
        using assms(3) False found nz m sub run(1,3) mark_run [OF wf, of count ?p]
        by (intro disjI2 exI [of _ ?p]) (auto simp: pmm_alloc_pages_def word_norm Let_def)
    qed
  qed
qed

text \<open>C1: A page allocation returns 0 and changes nothing when no managed frame at or above 1 MB
  is free; otherwise it returns the address of the least such frame, which is then used, with the
  counter and the bitmap in step.\<close>

theorem pmm_alloc_page_first_fit:
  assumes "pmm_inv s" and "pmm_alloc_page s = (a, t)"
  shows "(a = 0 \<and> t = s \<and> (\<forall>p \<in> free_set s. p < 256)) \<or>
         (\<exists>p \<in> free_set s. a = PFN_TO_ADDR p \<and> a \<noteq> 0 \<and> 256 \<le> p \<and>
            (\<forall>q \<in> free_set s. 256 \<le> q \<longrightarrow> p \<le> q) \<and>
            free_set t = free_set s - {p} \<and> used_set t = insert p (used_set s) \<and>
            used_pages t = used_pages s + 1 \<and>
            total_pages t = total_pages s \<and> pmm_inv t)"
  using assms by (rule pmm_alloc_page_spec)

theorem pmm_alloc_page_first_fit_witness:
  "\<exists>p \<in> free_set sample_pmm. fst (pmm_alloc_page sample_pmm) = PFN_TO_ADDR p \<and> 256 \<le> p \<and>
     free_set (snd (pmm_alloc_page sample_pmm)) = free_set sample_pmm - {p}"
  using pmm_alloc_page_first_fit [OF sample_pmm_facts(1) prod.collapse [symmetric]]
  by (auto simp: sample_pmm_facts)

text \<open>C2: A request for \<open>count\<close> contiguous pages fails, without a change, exactly when no run of
  that many free frames starts at or above 1 MB; a success takes the first such run (no run of
  \<open>count\<close> free frames starts between 1 MB and it), marks exactly its frames and counts each of
  them once.\<close>

theorem pmm_alloc_pages_contiguous:
  assumes "pmm_inv s" and "0 < count" and "pmm_alloc_pages s count = (a, t)"
  shows "(a = 0 \<and> t = s \<and> (\<forall>q \<ge> 256. \<not> free_run s q (unat count))) \<or>
         (\<exists>p. a = PFN_TO_ADDR p \<and> a \<noteq> 0 \<and> 256 \<le> p \<and> pages_from p count \<subseteq> free_set s \<and>
            (\<forall>q. 256 \<le> q \<and> q < unat p \<longrightarrow> \<not> free_run s q (unat count)) \<and>
            free_set t = free_set s - pages_from p count \<and>
            used_set t = used_set s \<union> pages_from p count \<and>
            used_pages t = used_pages s + count \<and> total_pages t = total_pages s \<and> pmm_inv t)"
  using assms by (rule pmm_alloc_pages_spec)

lemma sample_run: "free_run sample_pmm 256 2"
proof -
  have "k = 256 \<or> k = 257" if "256 \<le> k" "k < 258" for k :: nat
    using that by linarith
  moreover have "\<not> bitmap_test sample_pmm 256" "\<not> bitmap_test sample_pmm 257"
    using sample_pmm_facts(3) by (auto simp: free_set_def)
  ultimately show ?thesis by (force simp: free_run_def sample_pmm_facts(2))
qed

theorem pmm_alloc_pages_contiguous_witness:
  "fst (pmm_alloc_pages sample_pmm 2) = PFN_TO_ADDR 256"
proof -
  obtain p :: u32 where p: "fst (pmm_alloc_pages sample_pmm 2) = PFN_TO_ADDR p" "256 \<le> p"
    "\<forall>q. 256 \<le> q \<and> q < unat p \<longrightarrow> \<not> free_run sample_pmm q (unat (2 :: u32))"
    using pmm_alloc_pages_contiguous [OF sample_pmm_facts(1), of 2, OF _ prod.collapse [symmetric]]
      sample_run by auto
  have "\<not> 256 < unat p" using spec [OF p(3), of 256] sample_run by simp
  then have "p = 256" using p(2) by (simp add: word_le_nat_alt word_unat_eq_iff)
  then show ?thesis using p(1) by simp
qed


lemma pmm_free_pages_undo:
  assumes "pmm_inv s" and "0 < count" and "pmm_alloc_pages s count = (a, t)" and "a \<noteq> 0"
  shows "free_set (pmm_free_pages t a count) = free_set s"
    and "used_pages (pmm_free_pages t a count) = used_pages s"
    and "pmm_inv (pmm_free_pages t a count)"
proof -
  obtain p where p: "a = PFN_TO_ADDR p" "256 \<le> p" "pages_from p count \<subseteq> free_set s"
    "used_set t = used_set s \<union> pages_from p count" "total_pages t = total_pages s" "pmm_inv t"
    using pmm_alloc_pages_spec [OF assms(1-3)] assms(4) by auto
  have "p + 0 \<in> pages_from p count" using assms(2) by (auto simp: pages_from_def)
  then have "p < total_pages s" using p(3) by (auto simp: free_set_def)
  then have "ADDR_TO_PFN a = p"
    using pfn_addr_inverse [OF page_bound [of s p]] assms(1) by (simp add: p(1) pmm_inv_def)
  then have f: "pmm_inv (pmm_free_pages t a count)"
    "total_pages (pmm_free_pages t a count) = total_pages s"
    "used_set (pmm_free_pages t a count) = used_set s"
    using clear_run [OF p(6), of count p] p by (auto simp: pmm_free_pages_def used_set_def free_set_def)
  then show "pmm_inv (pmm_free_pages t a count)"
    and "free_set (pmm_free_pages t a count) = free_set s"
    by (simp_all add: free_set_alt)
  show "used_pages (pmm_free_pages t a count) = used_pages s"
    using f assms(1) by (simp add: pmm_inv_def word_unat_eq_iff)
qed

text \<open>Giving a run of pages back undoes its allocation: the same frames are free and the
  counters are as before.\<close>

theorem pmm_free_pages_roundtrip:
  assumes "pmm_inv s" and "0 < count" and "pmm_alloc_pages s count = (a, t)" and "a \<noteq> 0"
  shows "free_set (pmm_free_pages t a count) = free_set s \<and>
         used_pages (pmm_free_pages t a count) = used_pages s \<and> pmm_inv (pmm_free_pages t a count)"
  using pmm_free_pages_undo [OF assms] by blast

theorem pmm_free_pages_roundtrip_witness:
  "\<exists>a t. pmm_alloc_pages sample_pmm 2 = (a, t) \<and> a \<noteq> 0 \<and>
     free_set (pmm_free_pages t a 2) = {256, 257}"
proof -
  obtain a t where at: "pmm_alloc_pages sample_pmm 2 = (a, t)" by (cases "pmm_alloc_pages sample_pmm 2")
  have "a \<noteq> 0"
    using pmm_alloc_pages_spec [OF sample_pmm_facts(1) _ at] sample_run by auto
  then show ?thesis
    using pmm_free_pages_roundtrip [OF sample_pmm_facts(1) _ at] at sample_pmm_facts(3) by auto
qed

text \<open>C3: On a memory map that can be walked, start-up returns, the counter agrees with the bitmap,
  and the free frames are exactly those of available regions below the page limit, outside the
  first megabyte and outside the kernel image.\<close>

theorem pmm_init_free_frames:
  assumes "length (page_bitmap s) = unat BITMAP_SIZE"
    and "mmap_walk m mmap_addr (mmap_addr + mmap_length) es"
  shows "\<exists>t. pmm_init m mmap_addr mmap_length kernel_end s = Some t \<and> pmm_inv t \<and>
           total_pages t = min (available_bytes es div PAGE_SIZE) MAX_PAGES \<and>
           free_set t = {p. p < total_pages t \<and> 256 \<le> p \<and> p \<notin> kernel_frames kernel_end \<and>
                            (\<exists>e \<in> set es. p \<in> region_frames e)}"
  by (rule pmm_init_walk [OF assms, of kernel_end]) blast

text \<open>One available entry: 2 MB from 1 MB on.\<close>

definition sample_map :: "u32 \<Rightarrow> u8" where
  "sample_map a = (if a = 0 then 20 else if a = 6 then 0x10 else if a = 14 then 0x20
                   else if a = 20 then 1 else 0)"

lemma sample_walk: "mmap_walk sample_map 0 (0 + 24) [read_mmap_entry sample_map 0]"
proof -
  have "me_size (read_mmap_entry sample_map 0) = 20"
    by (simp add: read_mmap_entry_def read32_def sample_map_def)
  then show ?thesis by (auto intro!: mmap_walk.intros)
qed

theorem pmm_init_free_frames_witness:
  "\<exists>t. pmm_init sample_map 0 24 0x180000
         \<lparr>page_bitmap = replicate 2048 0, total_pages = 0, used_pages = 0, total_memory = 0\<rparr>
       = Some t \<and> pmm_inv t"
  using pmm_init_free_frames [OF _ sample_walk,
      of "\<lparr>page_bitmap = replicate 2048 0, total_pages = 0, used_pages = 0, total_memory = 0\<rparr>"
         "0x180000"]
  by (auto simp: word_norm)

lemma unat_PAGE_ALIGN_UP:
  assumes "unat a \<le> 0x10000000"
  shows "unat (PAGE_ALIGN_UP a) = 4096 * ((unat a + 4095) div 4096)"
proof -
  have "unat (a + 4096 - 1) = unat a + 4095"
    using assms by (simp add: unat_word_ariths)
  then show ?thesis
    using unat_page_part [of "a + 4096 - 1"] by (simp add: PAGE_ALIGN_UP_def word_norm)
qed

lemma kernel_frames_cover:
  assumes "0x100000 \<le> unat k" and "unat k \<le> 0x10000000" and "256 \<le> p" and "unat p < 65536"
    and "p \<notin> kernel_frames k"
  shows "unat k \<le> 4096 * unat p"
proof (rule ccontr)
  assume "\<not> unat k \<le> 4096 * unat p"
  have k: "unat (PAGE_ALIGN_UP k) = 4096 * ((unat k + 4095) div 4096)"
    by (rule unat_PAGE_ALIGN_UP [OF assms(2)])
  have p: "unat (p - 256) = unat p - 256"
    using assms(3) by (simp add: unat_sub word_le_nat_alt)
  have "(0x100000 :: u32) \<le> PAGE_ALIGN_UP k"
    using assms(1) k by (simp add: word_le_nat_alt)
  then have "unat ((PAGE_ALIGN_UP k - 0x100000) div PAGE_SIZE)
      = (4096 * ((unat k + 4095) div 4096) - 0x100000) div 4096"
    using k by (simp add: unat_div unat_sub word_norm)
  also have "\<dots> = (unat k + 4095) div 4096 - 256" by arith
  finally have "p - 256 < (PAGE_ALIGN_UP k - 0x100000) div PAGE_SIZE"
    using \<open>\<not> unat k \<le> 4096 * unat p\<close> assms(3) p
    unfolding word_less_nat_alt word_le_nat_alt by simp
  moreover have "p = 256 + (p - 256)" by simp
  ultimately have "p \<in> kernel_frames k"
    unfolding kernel_frames_def pages_from_def word_norm by blast
  then show False using assms(5) by blast
qed

text \<open>
  The callers of the allocator after start-up: any sequence of allocations of one or of several
  pages and of releases, with the set of the frames that are handed out. A release may name any
  address and any count, as long as no frame in use is among them that was not handed out; giving
  a frame back twice is allowed.
\<close>

inductive pmm_run :: "pmm \<Rightarrow> pmm \<Rightarrow> u32 set \<Rightarrow> bool" for t where
  run_init: "pmm_run t t {}"
| run_alloc_page: "\<lbrakk>pmm_run t s H; pmm_alloc_page s = (a, u)\<rbrakk>
     \<Longrightarrow> pmm_run t u (if a = 0 then H else insert (ADDR_TO_PFN a) H)"
| run_alloc_pages: "\<lbrakk>pmm_run t s H; pmm_alloc_pages s n = (a, u)\<rbrakk>
     \<Longrightarrow> pmm_run t u (if a = 0 then H else pages_from (ADDR_TO_PFN a) n \<union> H)"
| run_free_page: "\<lbrakk>pmm_run t s H; ADDR_TO_PFN a \<in> used_set s \<longrightarrow> ADDR_TO_PFN a \<in> H\<rbrakk>
     \<Longrightarrow> pmm_run t (pmm_free_page s a) (H - {ADDR_TO_PFN a})"
| run_free_pages: "\<lbrakk>pmm_run t s H; pages_from (ADDR_TO_PFN a) n \<inter> used_set s \<subseteq> H\<rbrakk>
     \<Longrightarrow> pmm_run t (pmm_free_pages s a n) (H - pages_from (ADDR_TO_PFN a) n)"

definition handed_out :: "pmm \<Rightarrow> pmm \<Rightarrow> u32 set \<Rightarrow> bool" where
  "handed_out t s H \<longleftrightarrow> pmm_inv s \<and> total_pages s = total_pages t \<and>
     H \<union> free_set s = free_set t \<and> H \<inter> free_set s = {}"

lemma handed_out_alloc:
  assumes "handed_out t s H" and "pmm_alloc_page s = (a, u)"
  shows "handed_out t u (if a = 0 then H else insert (ADDR_TO_PFN a) H)"
proof -
  have s: "pmm_inv s" using assms(1) by (simp add: handed_out_def)
  show ?thesis using pmm_alloc_page_spec [OF s assms(2)]
  proof
    assume "\<exists>p \<in> free_set s. a = PFN_TO_ADDR p \<and> a \<noteq> 0 \<and> 256 \<le> p \<and>
            (\<forall>q \<in> free_set s. 256 \<le> q \<longrightarrow> p \<le> q) \<and>
            free_set u = free_set s - {p} \<and> used_set u = insert p (used_set s) \<and>
            used_pages u = used_pages s + 1 \<and> total_pages u = total_pages s \<and> pmm_inv u"
    then obtain p where p: "p \<in> free_set s" "a = PFN_TO_ADDR p" "a \<noteq> 0"
      "free_set u = free_set s - {p}" "total_pages u = total_pages s" "pmm_inv u" by blast
    have "ADDR_TO_PFN a = p"
      using pfn_addr_inverse [OF page_bound, of s p] s p(1,2)
      by (simp add: pmm_inv_def free_set_def)
    then show ?thesis using p assms(1) by (auto simp: handed_out_def)
  qed (use assms(1) in simp)
qed

lemma handed_out_alloc_pages:
  assumes "handed_out t s H" and "pmm_alloc_pages s n = (a, u)"
  shows "handed_out t u (if a = 0 then H else pages_from (ADDR_TO_PFN a) n \<union> H)"
proof (cases "n = 0")
  case True
  then show ?thesis using assms by (simp add: pmm_alloc_pages_def)
next
  case False
  then have n: "0 < n" by (simp add: word_gt_0)
  have s: "pmm_inv s" using assms(1) by (simp add: handed_out_def)
  show ?thesis
  proof (cases "a = 0")
    case True
    then show ?thesis using pmm_alloc_pages_spec [OF s n assms(2)] assms(1) by auto
  next
    case nz: False
    then obtain p where p: "pages_from p n \<subseteq> free_set s" "a = PFN_TO_ADDR p"
      "free_set u = free_set s - pages_from p n" "total_pages u = total_pages s" "pmm_inv u"
      using pmm_alloc_pages_spec [OF s n assms(2)] by blast
    have "p + 0 \<in> pages_from p n" using n by (auto simp: pages_from_def)
    then have "ADDR_TO_PFN a = p"
      using pfn_addr_inverse [OF page_bound, of s p] s p(1,2)
      by (auto simp: pmm_inv_def free_set_def)
    then show ?thesis using p nz assms(1) by (auto simp: handed_out_def)
  qed
qed

lemma handed_out_used:
  assumes "handed_out t s H"
  shows "H \<subseteq> used_set s"
proof
  fix p assume p: "p \<in> H"
  then have "p \<in> free_set t" "p \<notin> free_set s" using assms by (auto simp: handed_out_def)
  then show "p \<in> used_set s"
    using assms by (auto simp: handed_out_def free_set_def used_set_def)
qed

lemma handed_out_free_pages:
  assumes "handed_out t s H" and "pages_from (ADDR_TO_PFN a) n \<inter> used_set s \<subseteq> H"
  shows "handed_out t (pmm_free_pages s a n) (H - pages_from (ADDR_TO_PFN a) n)"
proof -
  let ?s = "pmm_free_pages s a n" and ?R = "pages_from (ADDR_TO_PFN a) n"
  have s: "pmm_inv s" "total_pages s = total_pages t" "H \<union> free_set s = free_set t"
    "H \<inter> free_set s = {}"
    using assms(1) by (auto simp: handed_out_def)
  have c: "pmm_inv ?s" "total_pages ?s = total_pages s" "used_set ?s = used_set s - ?R"
    using clear_run [OF s(1), of n "ADDR_TO_PFN a"] by (simp_all add: pmm_free_pages_def Let_def)
  have "used_set s \<subseteq> {p. p < total_pages s}" by (auto simp: used_set_def)
  then have "free_set ?s = free_set s \<union> (?R \<inter> used_set s)"
    unfolding free_set_alt c by blast
  moreover have "?R \<inter> used_set s = ?R \<inter> H" using handed_out_used [OF assms(1)] assms(2) by blast
  ultimately have "free_set ?s = free_set s \<union> (?R \<inter> H)" by simp
  moreover have "(H - ?R) \<union> (free_set s \<union> (?R \<inter> H)) = H \<union> free_set s"
    "(H - ?R) \<inter> (free_set s \<union> (?R \<inter> H)) = {}"
    using s(4) by blast+
  ultimately show ?thesis using s c(1,2) by (simp add: handed_out_def)
qed

lemma handed_out_free:
  assumes "handed_out t s H" and "ADDR_TO_PFN a \<in> used_set s \<longrightarrow> ADDR_TO_PFN a \<in> H"
  shows "handed_out t (pmm_free_page s a) (H - {ADDR_TO_PFN a})"
proof -
  have "pmm_free_pages s a 1 = pmm_free_page s a"
    by (simp add: pmm_free_pages_def pmm_free_page_def Let_def for_up_step for_up_done)
  moreover have "{ADDR_TO_PFN a} \<inter> used_set s \<subseteq> H" using assms(2) by blast
  ultimately show ?thesis
    using handed_out_free_pages [OF assms(1), of a 1] by (simp add: pages_from_one)
qed

lemma pmm_run_handed_out:
  assumes "pmm_run t s H" and "pmm_inv t"
  shows "handed_out t s H"
  using assms
proof induction
  case run_init
  then show ?case by (simp add: handed_out_def)
qed (auto intro: handed_out_free handed_out_free_pages
       dest: handed_out_alloc handed_out_alloc_pages)

text \<open>C4: No sequence of allocations and releases after start-up ever touches the kernel image:
  the frames that are handed out and those still free are at every moment exactly the frames
  start-up left free, none is both, and every frame handed out lies above the first megabyte, at
  or above the end of the kernel and below 256 MB. The releases are any that name no frame in use
  other than those handed out.\<close>

theorem pmm_init_protects_kernel:
  assumes "length (page_bitmap s) = unat BITMAP_SIZE"
    and "mmap_walk m mmap_addr (mmap_addr + mmap_length) es"
    and "0x100000 \<le> kernel_end" and "kernel_end \<le> MAX_PHYSICAL_MEMORY"
    and "pmm_init m mmap_addr mmap_length kernel_end s = Some t"
    and "pmm_run t u H"
  shows "pmm_inv u \<and> H \<union> free_set u = free_set t \<and> H \<inter> free_set u = {} \<and>
         (\<forall>p \<in> H. kernel_end \<le> PFN_TO_ADDR p \<and> 0x100000 \<le> PFN_TO_ADDR p \<and>
                 PFN_TO_ADDR p < MAX_PHYSICAL_MEMORY)"
proof -
  obtain t' where t': "pmm_init m mmap_addr mmap_length kernel_end s = Some t'" "pmm_inv t'"
    "\<And>p. p \<in> free_set t' \<longleftrightarrow> p < total_pages t' \<and> (\<exists>e \<in> set es. p \<in> region_frames e) \<and>
              256 \<le> p \<and> p \<notin> kernel_frames kernel_end"
    by (rule pmm_init_walk [OF assms(1,2), of kernel_end]) blast
  then have t: "t' = t" using assms(5) by simp
  note run = pmm_run_handed_out [OF assms(6) t'(2) [unfolded t], unfolded handed_out_def]
  have "kernel_end \<le> PFN_TO_ADDR p \<and> 0x100000 \<le> PFN_TO_ADDR p \<and>
        PFN_TO_ADDR p < MAX_PHYSICAL_MEMORY" if "p \<in> H" for p
  proof -
    have "p \<in> free_set t" using run that by blast
    then have q: "256 \<le> p" "p \<notin> kernel_frames kernel_end" "unat p < 65536"
      using t' t page_bound [of t p] by (auto simp: pmm_inv_def)
    have "unat kernel_end \<le> 4096 * unat p"
      by (rule kernel_frames_cover) (use assms(3,4) q in \<open>auto simp: word_norm word_le_nat_alt\<close>)
    then show ?thesis
      using q by (simp add: word_le_nat_alt word_less_nat_alt unat_PFN_TO_ADDR word_norm)
  qed
  then show ?thesis using run by blast
qed


lemma sample_entry:
  "me_base_addr (read_mmap_entry sample_map 0) = 0x100000"
  "me_length (read_mmap_entry sample_map 0) = 0x200000"
  "me_type (read_mmap_entry sample_map 0) = 1"
  by (simp_all add: read_mmap_entry_def read32_def read64_def sample_map_def)

lemma sample_boot:
  obtains t a u where "pmm_init sample_map 0 24 0x180000
      \<lparr>page_bitmap = replicate 2048 0, total_pages = 0, used_pages = 0, total_memory = 0\<rparr> = Some t"
    and "pmm_alloc_page t = (a, u)" and "a \<noteq> 0"
proof -
  let ?z = "\<lparr>page_bitmap = replicate 2048 0, total_pages = 0, used_pages = 0, total_memory = 0\<rparr>"
  have len: "length (page_bitmap ?z) = unat BITMAP_SIZE" by (simp add: word_norm)
  obtain t where t: "pmm_init sample_map 0 24 0x180000 ?z = Some t" "pmm_inv t"
    "total_pages t = min (available_bytes [read_mmap_entry sample_map 0] div PAGE_SIZE) MAX_PAGES"
    "\<And>p. p \<in> free_set t \<longleftrightarrow> p < total_pages t \<and>
        (\<exists>e \<in> set [read_mmap_entry sample_map 0]. p \<in> region_frames e) \<and>
        256 \<le> p \<and> p \<notin> kernel_frames 0x180000"
    by (rule pmm_init_walk [OF len sample_walk, of "0x180000"]) blast
  have "total_pages t = 512"
    by (simp add: t(3) available_bytes_def sample_entry MMAP_TYPE_AVAILABLE_def word_norm)
  moreover have "384 \<in> region_frames (read_mmap_entry sample_map 0)"
    by (simp add: region_frames_def sample_entry MMAP_TYPE_AVAILABLE_def word_norm
        PAGE_ALIGN_UP_def PAGE_ALIGN_DOWN_def ADDR_TO_PFN_def)
  moreover have "384 \<notin> kernel_frames 0x180000"
  proof -
    have "(PAGE_ALIGN_UP 0x180000 - 0x100000) div PAGE_SIZE = 128"
      by (simp add: PAGE_ALIGN_UP_def word_norm)
    moreover have "\<not> i < 128" if "384 = 256 + i" for i :: u32
    proof -
      have "i = 384 - 256" using that by (metis add_diff_cancel_left')
      then show ?thesis by simp
    qed
    ultimately show ?thesis by (auto simp: kernel_frames_def pages_from_def word_norm)
  qed
  ultimately have "384 \<in> free_set t" by (simp add: t(4))
  then have "fst (pmm_alloc_page t) \<noteq> 0"
    using pmm_alloc_page_spec [OF t(2) prod.collapse [symmetric]] by fastforce
  then show thesis using that t(1) by (metis prod.collapse)
qed

theorem pmm_init_protects_kernel_witness:
  "\<exists>t u H a. pmm_init sample_map 0 24 0x180000
      \<lparr>page_bitmap = replicate 2048 0, total_pages = 0, used_pages = 0, total_memory = 0\<rparr> = Some t \<and>
     pmm_run t u H \<and> a \<in> H \<and> 0x180000 \<le> PFN_TO_ADDR a \<and> PFN_TO_ADDR a < MAX_PHYSICAL_MEMORY"
proof -
  obtain t a u where b: "pmm_init sample_map 0 24 0x180000
      \<lparr>page_bitmap = replicate 2048 0, total_pages = 0, used_pages = 0, total_memory = 0\<rparr> = Some t"
    "pmm_alloc_page t = (a, u)" "a \<noteq> 0"
    by (rule sample_boot)
  let ?p = "ADDR_TO_PFN a"
  have r1: "pmm_run t u {?p}" using run_alloc_page [OF run_init b(2)] b(3) by simp
  show ?thesis
    using pmm_init_protects_kernel [OF _ sample_walk _ _ b(1) r1] b(1) r1 by (auto simp: word_norm)
qed

lemma unat_times_page: "unat d \<le> 65536 \<Longrightarrow> unat (d * PAGE_SIZE) = 4096 * unat d"
  by (simp add: unat_word_ariths word_norm)

lemma pmm_memory_counts:
  assumes "pmm_inv s"
  shows "unat (pmm_get_used_memory s) = 4096 * card (used_set s)"
    and "unat (pmm_get_free_memory s) = 4096 * card (free_set s)"
    and "pmm_get_total_memory s = pmm_get_used_memory s + pmm_get_free_memory s"
proof -
  have u: "unat (used_pages s) = card (used_set s)" and n: "unat (total_pages s) \<le> 65536"
    using assms pmm_wfD(2) [of s] by (simp_all add: pmm_inv_def word_norm word_le_nat_alt)
  have sum: "card (used_set s) + card (free_set s) = unat (total_pages s)"
    by (rule used_free_card)
  then have "unat (total_pages s - used_pages s) = card (free_set s)"
    using u by (simp add: unat_sub word_le_nat_alt)
  then show "unat (pmm_get_used_memory s) = 4096 * card (used_set s)"
    and "unat (pmm_get_free_memory s) = 4096 * card (free_set s)"
    using u n sum by (simp_all add: pmm_get_used_memory_def pmm_get_free_memory_def unat_times_page)
  show "pmm_get_total_memory s = pmm_get_used_memory s + pmm_get_free_memory s"
    by (simp add: pmm_get_used_memory_def pmm_get_free_memory_def pmm_get_total_memory_def
        algebra_simps)
qed

text \<open>The byte counts the kernel reports are exact: 4096 bytes for each used and each free
  managed frame, and together they are the total.\<close>

theorem pmm_memory_accounting:
  assumes "pmm_inv s"
  shows "unat (pmm_get_used_memory s) = 4096 * card (used_set s) \<and>
         unat (pmm_get_free_memory s) = 4096 * card (free_set s) \<and>
         pmm_get_total_memory s = pmm_get_used_memory s + pmm_get_free_memory s"
  using pmm_memory_counts [OF assms] by blast

theorem pmm_memory_accounting_witness:
  "unat (pmm_get_free_memory sample_pmm) = 8192"
  using pmm_memory_accounting [OF sample_pmm_facts(1)] by (simp add: sample_pmm_facts(3))

lemma pmm_mark_region_used_marks:
  fixes base len :: u32
  assumes "length (page_bitmap s) = unat BITMAP_SIZE"
  defines "a \<equiv> ADDR_TO_PFN (PAGE_ALIGN_DOWN base)"
    and "n \<equiv> min (ADDR_TO_PFN (PAGE_ALIGN_UP (base + len))) MAX_PAGES"
    and "t \<equiv> pmm_mark_region_used s base len"
  shows "bitmap_test t q \<longleftrightarrow> bitmap_test s q \<or> (a \<le> q \<and> q < n)"
    and "used_pages t = used_pages s + of_nat (card {q. a \<le> q \<and> q < n \<and> \<not> bitmap_test s q})"
proof -
  let ?P = "\<lambda>i t. length (page_bitmap t) = unat BITMAP_SIZE \<and>
      (\<forall>q. bitmap_test t q \<longleftrightarrow> bitmap_test s q \<or> (a \<le> q \<and> q < i)) \<and>
      used_pages t = used_pages s + of_nat (card {q. a \<le> q \<and> q < i \<and> \<not> bitmap_test s q})"
  have empty: "{q. a \<le> q \<and> q < a \<and> \<not> bitmap_test s q} = {}"
    by (auto dest: leD)
  have "?P (max a n) t"
    unfolding t_def pmm_mark_region_used_def a_def n_def Let_def
  proof (rule for_up_rule, fold a_def n_def)
    fix i t assume i: "a \<le> i" "i < n" and P: "?P i t"
    have lt: "q < i + 1 \<longleftrightarrow> q < i \<or> q = i" for q
      using less_inc_iff [OF i(2)] by (simp add: order.order_iff_strict)
    let ?old = "{q. a \<le> q \<and> q < i \<and> \<not> bitmap_test s q}"
    have new: "{q. a \<le> q \<and> q < i + 1 \<and> \<not> bitmap_test s q} =
        (if bitmap_test s i then ?old else insert i ?old)"
      using i(1) by (auto simp: lt)
    have same: "bitmap_test t i = bitmap_test s i" using P by simp
    have split: "a \<le> q \<and> q < i + 1 \<longleftrightarrow> (a \<le> q \<and> q < i) \<or> q = i" for q
      using i(1) by (auto simp: lt)
    show "?P (i + 1) (if \<not> bitmap_test t i
        then (bitmap_set t i)\<lparr>used_pages := used_pages (bitmap_set t i) + 1\<rparr> else t)"
    proof (cases "bitmap_test s i")
      case True
      then have "bitmap_test t q \<longleftrightarrow> bitmap_test s q \<or> a \<le> q \<and> q < i + 1" for q
        using P split [of q] by blast
      then show ?thesis using True P same new by simp
    next
      case False
      then have "bitmap_test (bitmap_set t i) q \<longleftrightarrow> bitmap_test s q \<or> a \<le> q \<and> q < i + 1" for q
        using P split [of q] bitmap_test_set [of t i q] by blast
      moreover have "card (insert i ?old) = Suc (card ?old)" by simp
      ultimately show ?thesis using False P same new by (simp add: add.commute)
    qed
  qed (use assms(1) in \<open>auto simp: empty\<close>)
  then have P: "\<forall>q. bitmap_test t q \<longleftrightarrow> bitmap_test s q \<or> (a \<le> q \<and> q < max a n)"
    "used_pages t = used_pages s + of_nat (card {q. a \<le> q \<and> q < max a n \<and> \<not> bitmap_test s q})"
    by blast+
  have rng: "(a \<le> q \<and> q < max a n) = (a \<le> q \<and> q < n)" for q
    by (metis less_max_iff_disj not_less)
  then have "{q. a \<le> q \<and> q < max a n \<and> \<not> bitmap_test s q} =
      {q. a \<le> q \<and> q < n \<and> \<not> bitmap_test s q}"
    by blast
  then show "used_pages t = used_pages s + of_nat (card {q. a \<le> q \<and> q < n \<and> \<not> bitmap_test s q})"
    using P(2) by (simp only:)
  show "bitmap_test t q \<longleftrightarrow> bitmap_test s q \<or> (a \<le> q \<and> q < n)"
    using P(1) rng by blast
qed

text \<open>Marking a region used sets exactly the bits of the pages the region touches, below the
  256 MB limit, and adds one to the counter for each that was free, also for pages beyond
  \<open>total_pages\<close>.\<close>

theorem pmm_mark_region_used_exact:
  assumes "length (page_bitmap s) = unat BITMAP_SIZE"
  shows "let a = ADDR_TO_PFN (PAGE_ALIGN_DOWN base);
             n = min (ADDR_TO_PFN (PAGE_ALIGN_UP (base + len))) MAX_PAGES;
             t = pmm_mark_region_used s base len
         in (\<forall>q. bitmap_test t q \<longleftrightarrow> bitmap_test s q \<or> (a \<le> q \<and> q < n)) \<and>
            used_pages t = used_pages s + of_nat (card {q. a \<le> q \<and> q < n \<and> \<not> bitmap_test s q})"
  using pmm_mark_region_used_marks [OF assms, of base len] unfolding Let_def by blast

theorem pmm_mark_region_used_exact_witness:
  "bitmap_test (pmm_mark_region_used sample_pmm 0x100000 1) 256"
  using pmm_mark_region_used_exact [of sample_pmm "0x100000" 1] sample_pmm_facts(1)
  by (simp add: pmm_inv_def pmm_wf_def PAGE_ALIGN_DOWN_def PAGE_ALIGN_UP_def ADDR_TO_PFN_def Let_def word_norm)

end
