(* ===== verification/Vmm.thy ===== *)
theory Vmm
  imports Pmm
begin

text \<open>
  The paging code of \<open>simpleos-main/simpleos/vmm.c\<close> and \<open>vmm.h\<close> over a flat physical memory of
  32-bit words. Every dereference of the C code goes through \<open>translate\<close>, the processor's page
  walk, once paging is on; a missing translation is the page fault, whose handler halts the
  machine, and is the result \<open>None\<close>. The translation look-aside buffer is not modelled: a
  translation always reads the tables, so \<open>invlpg\<close> changes nothing.
\<close>

section \<open>State and hardware\<close>

record vmm =
  vm_memory :: "u32 \<Rightarrow> u32"
  vm_pmm :: pmm
  vm_cr3 :: u32
  vm_paging :: bool
  current_pd_phys :: u32
  kernel_page_directory :: u32
  first_page_table :: u32

definition PTE_PRESENT :: u32 where "PTE_PRESENT = 1"
definition PTE_WRITABLE :: u32 where "PTE_WRITABLE = 2"
definition PTE_USER :: u32 where "PTE_USER = 4"
definition PTE_FRAME_MASK :: u32 where "PTE_FRAME_MASK = 0xFFFFF000"
definition PTE_FLAGS_MASK :: u32 where "PTE_FLAGS_MASK = 0x00000FFF"
definition PAGE_ENTRIES :: u32 where "PAGE_ENTRIES = 1024"

definition VADDR_PD_INDEX :: "u32 \<Rightarrow> u32" where
  "VADDR_PD_INDEX addr = (drop_bit 22 addr) AND 0x3FF"

definition VADDR_PT_INDEX :: "u32 \<Rightarrow> u32" where
  "VADDR_PT_INDEX addr = (drop_bit 12 addr) AND 0x3FF"

definition VADDR_OFFSET :: "u32 \<Rightarrow> u32" where
  "VADDR_OFFSET addr = addr AND 0xFFF"

text \<open>\<open>&table[i]\<close> for an array of 32-bit entries.\<close>

definition entry :: "u32 \<Rightarrow> u32 \<Rightarrow> u32" where
  "entry table i = table + 4 * i"

text \<open>The two-level page walk of the processor.\<close>

definition walk :: "(u32 \<Rightarrow> u32) \<Rightarrow> u32 \<Rightarrow> u32 \<Rightarrow> u32 option" where
  "walk m pd a =
     (let pde = m (entry pd (VADDR_PD_INDEX a))
      in if pde AND PTE_PRESENT = 0 then None
         else let pte = m (entry (pde AND PTE_FRAME_MASK) (VADDR_PT_INDEX a))
              in if pte AND PTE_PRESENT = 0 then None
                 else Some ((pte AND PTE_FRAME_MASK) OR VADDR_OFFSET a))"

definition translate :: "vmm \<Rightarrow> u32 \<Rightarrow> u32 option" where
  "translate s a = (if vm_paging s then walk (vm_memory s) (vm_cr3 s) a else Some a)"

definition load32 :: "vmm \<Rightarrow> u32 \<Rightarrow> u32 option" where
  "load32 s a = map_option (vm_memory s) (translate s a)"

definition store32 :: "u32 \<Rightarrow> u32 \<Rightarrow> vmm \<Rightarrow> vmm option" where
  "store32 a v s = map_option (\<lambda>p. s\<lparr>vm_memory := (vm_memory s)(p := v)\<rparr>) (translate s a)"

definition load_page_directory :: "u32 \<Rightarrow> vmm \<Rightarrow> vmm" where
  "load_page_directory pd_phys s = s\<lparr>vm_cr3 := pd_phys\<rparr>"

definition enable_paging :: "vmm \<Rightarrow> vmm" where
  "enable_paging s = s\<lparr>vm_paging := True\<rparr>"

definition invlpg :: "u32 \<Rightarrow> vmm \<Rightarrow> vmm" where
  "invlpg virt s = s"

section \<open>Operations\<close>

definition zero_page :: "u32 \<Rightarrow> vmm \<Rightarrow> vmm option" where
  "zero_page phys_addr = for_try 0 (PAGE_SIZE div 4) (\<lambda>i. store32 (entry phys_addr i) 0)"

text \<open>The null pointer is 0.\<close>

definition get_page_table :: "u32 \<Rightarrow> bool \<Rightarrow> vmm \<Rightarrow> (u32 \<times> vmm) option" where
  "get_page_table virt create s =
     (let pd_index = VADDR_PD_INDEX virt;
          pd = current_pd_phys s
      in do {
           pde \<leftarrow> load32 s (entry pd pd_index);
           if pde AND PTE_PRESENT = 0 then
             if \<not> create then Some (0, s)
             else
               let (pt_phys, p) = pmm_alloc_page (vm_pmm s);
                   s1 = s\<lparr>vm_pmm := p\<rparr>
               in if pt_phys = 0 then Some (0, s1)
                  else do {
                    s2 \<leftarrow> zero_page pt_phys s1;
                    s3 \<leftarrow> store32 (entry pd pd_index)
                            (pt_phys OR PTE_PRESENT OR PTE_WRITABLE OR PTE_USER) s2;
                    e \<leftarrow> load32 s3 (entry pd pd_index);
                    Some (e AND PTE_FRAME_MASK, s3)
                  }
           else Some (pde AND PTE_FRAME_MASK, s)
         })"

definition vmm_init :: "vmm \<Rightarrow> vmm option" where
  "vmm_init s = do {
     s1 \<leftarrow> for_try 0 PAGE_ENTRIES (\<lambda>i t. store32 (entry (kernel_page_directory t) i) 0 t) s;
     s2 \<leftarrow> for_try 0 PAGE_ENTRIES (\<lambda>i t. store32 (entry (first_page_table t) i) 0 t) s1;
     s3 \<leftarrow> for_try 0 PAGE_ENTRIES
             (\<lambda>i t. let phys = i * PAGE_SIZE
                    in store32 (entry (first_page_table t) i)
                         (phys OR PTE_PRESENT OR PTE_WRITABLE OR PTE_USER) t) s2;
     s4 \<leftarrow> store32 (entry (kernel_page_directory s3) 0)
             (first_page_table s3 OR PTE_PRESENT OR PTE_WRITABLE OR PTE_USER) s3;
     let s5 = s4\<lparr>current_pd_phys := kernel_page_directory s4\<rparr>
     in Some (enable_paging (load_page_directory (current_pd_phys s5) s5))
   }"

definition vmm_create_page_directory :: "vmm \<Rightarrow> (u32 \<times> vmm) option" where
  "vmm_create_page_directory s =
     (let (pd_phys, p) = pmm_alloc_page (vm_pmm s);
          s0 = s\<lparr>vm_pmm := p\<rparr>
      in if pd_phys = 0 then Some (0, s0)
         else do {
           s1 \<leftarrow> for_try 0 768 (\<lambda>i. store32 (entry pd_phys i) 0) s0;
           s2 \<leftarrow> for_try 768 PAGE_ENTRIES
                   (\<lambda>i t. do {
                      e \<leftarrow> load32 t (entry (kernel_page_directory t) i);
                      store32 (entry pd_phys i) e t
                    }) s1;
           e \<leftarrow> load32 s2 (entry (kernel_page_directory s2) 0);
           s3 \<leftarrow> store32 (entry pd_phys 0) e s2;
           Some (pd_phys, s3)
         })"

text \<open>\<open>pmm_free_page\<close> on the allocator inside the state.\<close>

definition release_page :: "u32 \<Rightarrow> vmm \<Rightarrow> vmm" where
  "release_page a s = s\<lparr>vm_pmm := pmm_free_page (vm_pmm s) a\<rparr>"

text \<open>The body of the outer loop of \<open>vmm_destroy_page_directory\<close>.\<close>

definition destroy_table :: "u32 \<Rightarrow> u32 \<Rightarrow> vmm \<Rightarrow> vmm option" where
  "destroy_table pd i s = do {
     e \<leftarrow> load32 s (entry pd i);
     if e AND PTE_PRESENT \<noteq> 0 then do {
       pt_phys \<leftarrow> map_option (\<lambda>e. e AND PTE_FRAME_MASK) (load32 s (entry pd i));
       s1 \<leftarrow> for_try 0 PAGE_ENTRIES
               (\<lambda>j t. do {
                  pte \<leftarrow> load32 t (entry pt_phys j);
                  Some (if pte AND PTE_PRESENT \<noteq> 0 then release_page (pte AND PTE_FRAME_MASK) t else t)
                }) s;
       Some (release_page pt_phys s1)
     }
     else Some s
   }"

definition vmm_destroy_page_directory :: "u32 \<Rightarrow> vmm \<Rightarrow> vmm option" where
  "vmm_destroy_page_directory pd_phys s =
     (if pd_phys = 0 \<or> pd_phys = kernel_page_directory s then Some s
      else do {
        s1 \<leftarrow> for_try 0 768 (destroy_table pd_phys) s;
        Some (release_page pd_phys s1)
      })"

definition vmm_switch_page_directory :: "u32 \<Rightarrow> vmm \<Rightarrow> vmm" where
  "vmm_switch_page_directory pd_phys s =
     (if pd_phys \<noteq> current_pd_phys s
      then load_page_directory pd_phys (s\<lparr>current_pd_phys := pd_phys\<rparr>) else s)"

definition vmm_get_current_directory :: "vmm \<Rightarrow> u32" where
  "vmm_get_current_directory s = current_pd_phys s"

definition vmm_map_page :: "u32 \<Rightarrow> u32 \<Rightarrow> u32 \<Rightarrow> vmm \<Rightarrow> (bool \<times> vmm) option" where
  "vmm_map_page virt phys flags s = do {
     (pt, s1) \<leftarrow> get_page_table virt True s;
     if pt = 0 then Some (False, s1)
     else
       let pt_index = VADDR_PT_INDEX virt
       in do {
            old \<leftarrow> load32 s1 (entry pt pt_index);
            let s2 = (if old AND PTE_PRESENT \<noteq> 0 then invlpg virt s1 else s1)
            in do {
                 s3 \<leftarrow> store32 (entry pt pt_index)
                         ((phys AND PTE_FRAME_MASK) OR (flags AND PTE_FLAGS_MASK) OR PTE_PRESENT) s2;
                 Some (True, s3)
               }
          }
   }"

definition vmm_unmap_page :: "u32 \<Rightarrow> vmm \<Rightarrow> vmm option" where
  "vmm_unmap_page virt s = do {
     (pt, s1) \<leftarrow> get_page_table virt False s;
     if pt = 0 then Some s1
     else do {
       s2 \<leftarrow> store32 (entry pt (VADDR_PT_INDEX virt)) 0 s1;
       Some (invlpg virt s2)
     }
   }"

definition vmm_unmap_range :: "u32 \<Rightarrow> u32 \<Rightarrow> vmm \<Rightarrow> vmm option" where
  "vmm_unmap_range virt_start sz s =
     (let pages = (sz + PAGE_SIZE - 1) div PAGE_SIZE
      in for_try 0 pages (\<lambda>i. vmm_unmap_page (virt_start + i * PAGE_SIZE)) s)"

text \<open>The loop of \<open>vmm_map_range\<close> from page \<open>i\<close> on.\<close>

function map_range_loop :: "u32 \<Rightarrow> u32 \<Rightarrow> u32 \<Rightarrow> u32 \<Rightarrow> u32 \<Rightarrow> vmm \<Rightarrow> (bool \<times> vmm) option" where
  "map_range_loop i pages virt_start phys_start flags s =
     (if i < pages
      then let virt = virt_start + i * PAGE_SIZE;
               phys = phys_start + i * PAGE_SIZE
           in case vmm_map_page virt phys flags s of
                None \<Rightarrow> None
              | Some (ok, t) \<Rightarrow>
                  if \<not> ok
                  then map_option (\<lambda>u. (False, u)) (vmm_unmap_range virt_start (i * PAGE_SIZE) t)
                  else map_range_loop (i + 1) pages virt_start phys_start flags t
      else Some (True, s))"
  by pat_completeness auto
termination
  by (relation "measure (\<lambda>(i, n, _). unat n - unat i)")
     (auto simp: unat_inc_less word_less_nat_alt)

declare map_range_loop.simps [simp del]

definition vmm_map_range :: "u32 \<Rightarrow> u32 \<Rightarrow> u32 \<Rightarrow> u32 \<Rightarrow> vmm \<Rightarrow> (bool \<times> vmm) option" where
  "vmm_map_range virt_start phys_start sz flags s =
     (let pages = (sz + PAGE_SIZE - 1) div PAGE_SIZE
      in map_range_loop 0 pages virt_start phys_start flags s)"

definition vmm_get_physical :: "u32 \<Rightarrow> vmm \<Rightarrow> u32 option" where
  "vmm_get_physical virt s = do {
     (pt, s1) \<leftarrow> get_page_table virt False s;
     if pt = 0 then Some 0
     else do {
       e \<leftarrow> load32 s1 (entry pt (VADDR_PT_INDEX virt));
       if e AND PTE_PRESENT = 0 then Some 0
       else Some ((e AND PTE_FRAME_MASK) OR VADDR_OFFSET virt)
     }
   }"

definition vmm_is_mapped :: "u32 \<Rightarrow> vmm \<Rightarrow> bool option" where
  "vmm_is_mapped virt s = do {
     (pt, s1) \<leftarrow> get_page_table virt False s;
     if pt = 0 then Some False
     else do {
       e \<leftarrow> load32 s1 (entry pt (VADDR_PT_INDEX virt));
       Some (e AND PTE_PRESENT \<noteq> 0)
     }
   }"

definition vmm_alloc_page :: "u32 \<Rightarrow> u32 \<Rightarrow> vmm \<Rightarrow> (bool \<times> vmm) option" where
  "vmm_alloc_page virt flags s =
     (let (phys, p) = pmm_alloc_page (vm_pmm s);
          s0 = s\<lparr>vm_pmm := p\<rparr>
      in if phys = 0 then Some (False, s0)
         else do {
           (ok, s1) \<leftarrow> vmm_map_page virt phys flags s0;
           if \<not> ok then Some (False, release_page phys s1)
           else do {
             s2 \<leftarrow> zero_page virt s1;
             Some (True, s2)
           }
         })"

definition vmm_free_page :: "u32 \<Rightarrow> vmm \<Rightarrow> vmm option" where
  "vmm_free_page virt s = do {
     phys \<leftarrow> vmm_get_physical virt s;
     if phys \<noteq> 0 then do {
       s1 \<leftarrow> vmm_unmap_page virt s;
       Some (release_page phys s1)
     }
     else Some s
   }"

definition vmm_invalidate_page :: "u32 \<Rightarrow> vmm \<Rightarrow> vmm" where
  "vmm_invalidate_page virt s = invlpg virt s"

definition vmm_flush_tlb :: "vmm \<Rightarrow> vmm" where
  "vmm_flush_tlb s = load_page_directory (current_pd_phys s) s"

text \<open>The rows \<open>vmm_print_mappings\<close> prints: index, entry, table address, first and last address.\<close>

definition vmm_print_mappings :: "vmm \<Rightarrow> (u32 \<times> u32 \<times> u32 \<times> u32 \<times> u32) list option" where
  "vmm_print_mappings s =
     map_option snd (for_try 0 PAGE_ENTRIES
       (\<lambda>i (t, rows). do {
          e \<leftarrow> load32 t (entry (kernel_page_directory t) i);
          let virt_base = i * PAGE_SIZE * PAGE_ENTRIES
          in Some (t, if e AND PTE_PRESENT \<noteq> 0
                      then rows @ [(i, e, e AND PTE_FRAME_MASK, virt_base,
                                    virt_base + PAGE_SIZE * PAGE_ENTRIES - 1)]
                      else rows)
        }) (s, []))"

section \<open>Addresses of table entries\<close>

lemma vmm_numerals [word_norm]:
  "PTE_PRESENT = 1" "PTE_WRITABLE = 2" "PTE_USER = 4" "PTE_FRAME_MASK = 0xFFFFF000"
  "PTE_FLAGS_MASK = 0xFFF" "PAGE_ENTRIES = 1024"
  by (simp_all add: PTE_PRESENT_def PTE_WRITABLE_def PTE_USER_def PTE_FRAME_MASK_def
      PTE_FLAGS_MASK_def PAGE_ENTRIES_def)

definition page_ok :: "u32 \<Rightarrow> bool" where
  "page_ok f \<longleftrightarrow> f AND 0xFFF = 0 \<and> f < 0x400000"

definition page_of :: "u32 \<Rightarrow> u32" where
  "page_of a = a AND 0xFFFFF000"

lemma frame_mask_not: "(0xFFFFF000 :: u32) = NOT 0xFFF"
  by simp

lemma aligned_dvd: "f AND 0xFFF = 0 \<Longrightarrow> 4096 dvd unat f" for f :: u32
proof -
  assume a: "f AND 0xFFF = 0"
  have "f = (f AND 0xFFF) OR (f AND NOT 0xFFF)"
    by (metis bit.conj_disj_distrib bit.disj_cancel_right bit.conj_one_right)
  then have "f = f AND NOT 0xFFF" by (simp only: a or.left_neutral)
  then have "unat f = 4096 * (unat f div 4096)" using unat_page_part [of f] by metis
  then show ?thesis by (metis dvd_triv_left)
qed

lemma unat_entry:
  assumes "f AND 0xFFF = 0" and "i < 1024"
  shows "unat (entry f i) = unat f + 4 * unat i"
proof -
  obtain k where k: "unat f = 4096 * k" using aligned_dvd [OF assms(1)] by blast
  then have "k < 1048576" using unsigned_less [of f, where ?'a = nat] by simp
  moreover have "unat i < 1024" using assms(2) by (simp add: word_less_nat_alt)
  ultimately show ?thesis by (simp add: entry_def unat_word_ariths k)
qed

lemma entry_inject:
  assumes "f AND 0xFFF = 0" and "g AND 0xFFF = 0" and "i < 1024" and "j < 1024"
  shows "entry f i = entry g j \<longleftrightarrow> f = g \<and> i = j"
proof
  assume e: "entry f i = entry g j"
  obtain k l where k: "unat f = 4096 * k" "unat g = 4096 * l"
    using aligned_dvd [OF assms(1)] aligned_dvd [OF assms(2)] by blast
  have ij: "unat i < 1024" "unat j < 1024" using assms(3,4) by (simp_all add: word_less_nat_alt)
  have "4096 * k + 4 * unat i = 4096 * l + 4 * unat j"
    using unat_entry [OF assms(1,3)] unat_entry [OF assms(2,4)] e k by simp
  moreover have "(4096 * k + 4 * unat i) div 4096 = k" "(4096 * l + 4 * unat j) div 4096 = l"
    using ij by simp_all
  ultimately have "k = l" "unat i = unat j" by simp_all
  then show "f = g \<and> i = j" using k by (simp add: word_unat_eq_iff)
qed simp

lemma entry_low:
  assumes "page_ok f" and "i < 1024"
  shows "entry f i < 0x400000"
proof -
  obtain k where k: "unat f = 4096 * k" using aligned_dvd assms(1) unfolding page_ok_def by blast
  have "unat f < 4194304" "unat i < 1024"
    using assms by (simp_all add: page_ok_def word_less_nat_alt)
  then show ?thesis
    using unat_entry [of f i] assms k by (simp add: page_ok_def word_less_nat_alt)
qed

lemma mask10_eq: "(0x3FF :: u32) = mask 10"
  by (simp add: mask_eq_exp_minus_1)

lemma mask10: "(a AND 0x3FF) < 1024" for a :: u32
proof -
  have "a AND mask 10 = a mod 1024" by (simp add: take_bit_eq_mod flip: take_bit_eq_mask)
  then show ?thesis unfolding mask10_eq by (simp add: word_less_nat_alt unat_mod)
qed

lemma index_less [simp]: "VADDR_PD_INDEX a < 1024" "VADDR_PT_INDEX a < 1024"
  by (simp_all add: VADDR_PD_INDEX_def VADDR_PT_INDEX_def mask10)

lemma bit_page_of: "bit (page_of a) n \<longleftrightarrow> 12 \<le> n \<and> bit a n"
  unfolding page_of_def using bit_imp_le_length [of a n]
  by (auto simp: bit_and_iff word_norm)

lemma bit_pd_index: "bit (VADDR_PD_INDEX a) n \<longleftrightarrow> n < 10 \<and> bit a (n + 22)"
  unfolding VADDR_PD_INDEX_def mask10_eq
  by (auto simp: bit_and_iff bit_drop_bit_eq bit_mask_iff add.commute)

lemma bit_pt_index: "bit (VADDR_PT_INDEX a) n \<longleftrightarrow> n < 10 \<and> bit a (n + 12)"
  unfolding VADDR_PT_INDEX_def mask10_eq
  by (auto simp: bit_and_iff bit_drop_bit_eq bit_mask_iff add.commute)

lemma same_page_iff:
  "page_of a = page_of b \<longleftrightarrow>
     VADDR_PD_INDEX a = VADDR_PD_INDEX b \<and> VADDR_PT_INDEX a = VADDR_PT_INDEX b"
proof
  assume p: "page_of a = page_of b"
  have "bit a n = bit b n" if "12 \<le> n" for n
    using arg_cong [OF p, of "\<lambda>w. bit w n"] that by (simp add: bit_page_of)
  then show "VADDR_PD_INDEX a = VADDR_PD_INDEX b \<and> VADDR_PT_INDEX a = VADDR_PT_INDEX b"
    by (intro conjI bit_eqI) (simp_all add: bit_pd_index bit_pt_index)
next
  assume i: "VADDR_PD_INDEX a = VADDR_PD_INDEX b \<and> VADDR_PT_INDEX a = VADDR_PT_INDEX b"
  have "bit a n = bit b n" if n: "12 \<le> n" "n < 32" for n
  proof (cases "n < 22")
    case True
    then have "n - 12 < 10" "n - 12 + 12 = n" using n by auto
    then show ?thesis using i bit_pt_index [of a "n - 12"] bit_pt_index [of b "n - 12"] by simp
  next
    case False
    then have "n - 22 < 10" "n - 22 + 22 = n" using n by auto
    then show ?thesis using i bit_pd_index [of a "n - 22"] bit_pd_index [of b "n - 22"] by simp
  qed
  then show "page_of a = page_of b"
    by (intro bit_eqI) (auto simp: bit_page_of)
qed

lemma split_address: "(page_of a) OR VADDR_OFFSET a = a"
  unfolding VADDR_OFFSET_def page_of_def
  by (rule bit_eqI) (auto simp: bit_or_iff bit_and_iff word_norm)

lemma aligned_bits: "f AND 0xFFF = 0 \<longleftrightarrow> (\<forall>n < 12. \<not> bit f n)" for f :: u32
proof -
  have "bit (f AND 0xFFF) n \<longleftrightarrow> n < 12 \<and> bit f n" for n
    by (auto simp: bit_and_iff word_norm dest: bit_imp_le_length)
  then show ?thesis by (auto simp: bit_eq_iff)
qed

lemma page_of_or:
  fixes f g :: u32
  assumes "f AND 0xFFF = 0" and "\<And>n. bit g n \<Longrightarrow> n < 12"
  shows "(f OR g) AND 0xFFFFF000 = f"
proof (rule bit_word_eqI)
  fix n assume "n < LENGTH(32)"
  then have n: "n < 32" by simp
  have "\<not> bit f n" if "n < 12" using assms(1) that by (simp add: aligned_bits)
  moreover have "\<not> bit g n" if "12 \<le> n" using assms(2) [of n] that by auto
  ultimately show "bit ((f OR g) AND 0xFFFFF000) n = bit f n"
    using n by (cases "n < 12") (auto simp: bit_or_iff bit_and_iff word_norm)
qed

lemma flags_bits: "bit ((g AND 0xFFF) OR 1) n \<Longrightarrow> n < 12" "bit (7 :: u32) n \<Longrightarrow> n < 12"
  "bit (0 :: u32) n \<Longrightarrow> n < 12" "bit (VADDR_OFFSET a) n \<Longrightarrow> n < 12" for g :: u32
proof -
  have seven: "(7 :: u32) = mask 3" by (simp add: mask_eq_exp_minus_1)
  show "bit ((g AND 0xFFF) OR 1) n \<Longrightarrow> n < 12" "bit (VADDR_OFFSET a) n \<Longrightarrow> n < 12"
    "bit (0 :: u32) n \<Longrightarrow> n < 12"
    by (auto simp: bit_or_iff bit_and_iff word_norm bit_1_iff VADDR_OFFSET_def)
  show "bit (7 :: u32) n \<Longrightarrow> n < 12"
    unfolding seven by (simp add: bit_mask_iff)
qed

lemma present_or: "(f OR g OR 1) AND 1 = (1 :: u32)" "(f OR 7) AND 1 = (1 :: u32)" for f g :: u32
proof -
  show "(f OR g OR 1) AND 1 = (1 :: u32)"
    by (rule bit_eqI) (auto simp: bit_or_iff bit_and_iff bit_1_iff)
  have seven: "(7 :: u32) = mask 3" by (simp add: mask_eq_exp_minus_1)
  show "(f OR 7) AND 1 = (1 :: u32)"
    unfolding seven by (rule bit_eqI) (auto simp: bit_or_iff bit_and_iff bit_1_iff bit_mask_iff)
qed

lemma flags_seven: "f OR PTE_PRESENT OR PTE_WRITABLE OR PTE_USER = f OR 7"
  by (simp add: word_norm)

lemma low_address:
  assumes "a < 0x400000"
  shows "VADDR_PD_INDEX a = 0"
proof -
  have "unat (drop_bit 22 a) = 0"
    using assms by (simp add: drop_bit_eq_div unat_div word_less_nat_alt)
  then have "drop_bit 22 a = 0" by (simp only: unat_eq_0)
  then show ?thesis by (simp add: VADDR_PD_INDEX_def)
qed

lemma low_iff: "a < 0x400000 \<longleftrightarrow> VADDR_PD_INDEX a = 0"
proof
  assume i: "VADDR_PD_INDEX a = 0"
  have "drop_bit 22 a = 0"
  proof (rule bit_word_eqI)
    fix n assume "n < LENGTH(32)"
    then show "bit (drop_bit 22 a) n = bit 0 n"
      using bit_pd_index [of a n] i bit_imp_le_length [of a "n + 22"]
      by (cases "n < 10") (auto simp: bit_drop_bit_eq add.commute)
  qed
  moreover have "unat (drop_bit 22 a) = unat a div 4194304" by (simp add: drop_bit_eq_div unat_div)
  ultimately have "unat a div 4194304 = 0" by simp
  then show "a < 0x400000" by (simp add: word_less_nat_alt)
qed (rule low_address)

text \<open>The entry that maps a low page to itself.\<close>

lemma page_number:
  assumes "a < 0x400000"
  shows "VADDR_PT_INDEX a * PAGE_SIZE = page_of a"
proof (rule bit_word_eqI)
  fix n assume "n < LENGTH(32)"
  then have n: "n < 32" by simp
  have "VADDR_PT_INDEX a * PAGE_SIZE = push_bit 12 (VADDR_PT_INDEX a)"
    by (simp add: push_bit_eq_mult PAGE_SIZE_def)
  moreover have "n < 22" if "bit a n"
    using that n low_address [OF assms] bit_pd_index [of a "n - 22"] by (cases "n < 22") auto
  ultimately show "bit (VADDR_PT_INDEX a * PAGE_SIZE) n = bit (page_of a) n"
    using n by (auto simp: bit_push_bit_iff bit_pt_index bit_page_of)
qed

section \<open>Directories as maps of pages\<close>

definition pde :: "(u32 \<Rightarrow> u32) \<Rightarrow> u32 \<Rightarrow> u32 \<Rightarrow> u32" where
  "pde m pd i = m (entry pd i)"

definition has_table :: "(u32 \<Rightarrow> u32) \<Rightarrow> u32 \<Rightarrow> u32 \<Rightarrow> bool" where
  "has_table m pd i \<longleftrightarrow> pde m pd i AND 1 \<noteq> 0"

definition table_of :: "(u32 \<Rightarrow> u32) \<Rightarrow> u32 \<Rightarrow> u32 \<Rightarrow> u32" where
  "table_of m pd i = pde m pd i AND 0xFFFFF000"

text \<open>
  The directory at \<open>pd\<close> and its tables are pairwise distinct pages below 4 MB and directory entry
  0 maps the first 4 MB to themselves; \<open>fs\<close> are pages that are no part of it.
\<close>

definition tables_ok :: "(u32 \<Rightarrow> u32) \<Rightarrow> u32 \<Rightarrow> u32 set \<Rightarrow> bool" where
  "tables_ok m pd fs \<longleftrightarrow> page_ok pd \<and> pd \<notin> fs \<and> 0 \<notin> fs \<and> pd \<noteq> 0 \<and>
     (\<forall>i < 1024. has_table m pd i \<longrightarrow>
        page_ok (table_of m pd i) \<and> table_of m pd i \<noteq> pd \<and> table_of m pd i \<notin> fs \<and> table_of m pd i \<noteq> 0) \<and>
     (\<forall>i < 1024. \<forall>j < 1024. has_table m pd i \<and> has_table m pd j \<and> table_of m pd i = table_of m pd j \<longrightarrow> i = j) \<and>
     (\<forall>a < 0x400000. walk m pd a = Some a)"

lemma table_aligned: "table_of m pd i AND 0xFFF = 0"
  by (simp add: aligned_bits table_of_def bit_and_iff word_norm)

lemma walk_eq:
  "walk m pd a =
     (if has_table m pd (VADDR_PD_INDEX a)
      then let pte = m (entry (table_of m pd (VADDR_PD_INDEX a)) (VADDR_PT_INDEX a))
           in if pte AND 1 = 0 then None else Some ((pte AND 0xFFFFF000) OR VADDR_OFFSET a)
      else None)"
  by (simp add: walk_def has_table_def table_of_def pde_def Let_def word_norm)

text \<open>Two memories that agree on a page, and the pages a directory is made of.\<close>

definition page_eq :: "(u32 \<Rightarrow> u32) \<Rightarrow> (u32 \<Rightarrow> u32) \<Rightarrow> u32 \<Rightarrow> bool" where
  "page_eq m m' f \<longleftrightarrow> (\<forall>i < 1024. m' (entry f i) = m (entry f i))"

definition dir_pages :: "(u32 \<Rightarrow> u32) \<Rightarrow> u32 \<Rightarrow> u32 set" where
  "dir_pages m pd = insert pd (table_of m pd ` {i. i < 1024 \<and> has_table m pd i})"

lemma page_eq_write:
  assumes "f AND 0xFFF = 0" and "g AND 0xFFF = 0" and "f \<noteq> g" and "k < 1024"
  shows "page_eq m (m(entry g k := e)) f"
  using assms by (auto simp: page_eq_def entry_inject)

lemma page_eq_refl [simp]: "page_eq m m f"
  by (simp add: page_eq_def)

lemma page_eq_trans: "page_eq m m' f \<Longrightarrow> page_eq m' m'' f \<Longrightarrow> page_eq m m'' f"
  by (simp add: page_eq_def)

lemma dir_eq:
  assumes "page_eq m m' pd" and "i < 1024"
  shows "has_table m' pd i = has_table m pd i" and "table_of m' pd i = table_of m pd i"
  using assms by (simp_all add: has_table_def table_of_def pde_def page_eq_def)

lemma walk_page_eq:
  assumes "\<And>f. f \<in> dir_pages m pd \<Longrightarrow> page_eq m m' f"
  shows "walk m' pd a = walk m pd a"
proof -
  have pd: "page_eq m m' pd" using assms by (simp add: dir_pages_def)
  have "page_eq m m' (table_of m pd (VADDR_PD_INDEX a))" if "has_table m pd (VADDR_PD_INDEX a)"
    using that by (intro assms) (auto simp: dir_pages_def)
  then show ?thesis by (simp add: walk_eq dir_eq [OF pd] page_eq_def Let_def)
qed

lemma tables_okD:
  assumes "tables_ok m pd fs"
  shows "page_ok pd" and "f \<in> dir_pages m pd \<Longrightarrow> page_ok f \<and> f \<notin> fs \<and> f \<noteq> 0"
    and "a < 0x400000 \<Longrightarrow> walk m pd a = Some a" and "0 \<notin> fs"
  using assms by (auto simp: tables_ok_def dir_pages_def)

lemma tables_ok_page_eq:
  assumes "tables_ok m pd fs" and "\<And>f. f \<in> dir_pages m pd \<Longrightarrow> page_eq m m' f"
  shows "tables_ok m' pd fs" and "dir_pages m' pd = dir_pages m pd"
proof -
  have "page_eq m m' pd" using assms(2) by (simp add: dir_pages_def)
  note d = dir_eq [OF this]
  show "tables_ok m' pd fs"
    using assms(1) d walk_page_eq [OF assms(2)] by (auto simp: tables_ok_def)
  show "dir_pages m' pd = dir_pages m pd" unfolding dir_pages_def
    by (intro arg_cong2 [where f = insert] image_cong) (auto simp: d)
qed

text \<open>Writing one entry of a table changes the mapping of that page only.\<close>

lemma write_entry_eq:
  assumes "tables_ok m pd fs" and "has_table m pd j" and "j < 1024" and "k < 1024"
    and "f AND 0xFFF = 0" and "f \<noteq> table_of m pd j"
  shows "page_eq m (m(entry (table_of m pd j) k := e)) f"
  using assms by (intro page_eq_write) (simp_all add: table_aligned)

lemma walk_write_entry:
  assumes ok: "tables_ok m pd fs" and has: "has_table m pd (VADDR_PD_INDEX v)"
    and m': "m' = m(entry (table_of m pd (VADDR_PD_INDEX v)) (VADDR_PT_INDEX v) := e)"
  shows "walk m' pd a =
           (if page_of a = page_of v
            then if e AND 1 = 0 then None else Some ((e AND 0xFFFFF000) OR VADDR_OFFSET a)
            else walk m pd a)" (is ?walk)
    and "page_eq m m' pd"
proof -
  let ?j = "VADDR_PD_INDEX v" and ?k = "VADDR_PT_INDEX v" and ?i = "VADDR_PD_INDEX a"
  have "table_of m pd ?j \<noteq> pd" "page_ok pd"
    using ok has index_less(1) [of v] unfolding tables_ok_def by blast+
  then show pd: "page_eq m m' pd"
    unfolding m' by (intro write_entry_eq [OF ok has]) (auto simp: page_ok_def)
  note d = dir_eq [OF this index_less(1) [of a]]
  show ?walk
  proof (cases "has_table m pd ?i")
    case False
    then have "page_of a \<noteq> page_of v" using has by (auto simp: same_page_iff)
    then show ?thesis using False d by (simp add: walk_eq)
  next
    case True
    have "table_of m pd ?i = table_of m pd ?j \<longleftrightarrow> ?i = ?j"
      using ok True has by (auto simp: tables_ok_def)
    then have "m' (entry (table_of m pd ?i) (VADDR_PT_INDEX a)) =
        (if page_of a = page_of v then e else m (entry (table_of m pd ?i) (VADDR_PT_INDEX a)))"
      by (auto simp: m' entry_inject table_aligned same_page_iff)
    then show ?thesis using True d by (simp add: walk_eq Let_def)
  qed
qed

text \<open>The low identity mapping survives a write for a page above 4 MB, or of an entry that maps
  the page to itself.\<close>

definition keeps_low :: "u32 \<Rightarrow> u32 \<Rightarrow> bool" where
  "keeps_low v e \<longleftrightarrow> 0x400000 \<le> v \<or> (e AND 1 \<noteq> 0 \<and> e AND 0xFFFFF000 = page_of v)"

lemma tables_ok_write_entry:
  assumes ok: "tables_ok m pd fs" and has: "has_table m pd (VADDR_PD_INDEX v)"
    and m': "m' = m(entry (table_of m pd (VADDR_PD_INDEX v)) (VADDR_PT_INDEX v) := e)"
    and low: "keeps_low v e"
  shows "tables_ok m' pd fs" and "dir_pages m' pd = dir_pages m pd"
proof -
  note w = walk_write_entry [OF ok has m'] and d = dir_eq [OF walk_write_entry(2) [OF ok has m']]
  have "walk m' pd a = Some a" if a: "a < 0x400000" for a
  proof (cases "page_of a = page_of v")
    case True
    then have "v < 0x400000" using a by (simp add: low_iff same_page_iff)
    then have "e AND 1 \<noteq> 0" "e AND 0xFFFFF000 = page_of a" using low True by (auto simp: keeps_low_def)
    then show ?thesis using True split_address [of a] by (simp add: w(1))
  next
    case False
    then show ?thesis using ok a by (simp add: w(1) tables_ok_def)
  qed
  then show "tables_ok m' pd fs" using ok d by (auto simp: tables_ok_def)
  show "dir_pages m' pd = dir_pages m pd" unfolding dir_pages_def
    by (intro arg_cong2 [where f = insert] image_cong) (auto simp: d)
qed

text \<open>Hanging a zeroed page into an empty directory entry changes no mapping.\<close>

lemma add_table:
  assumes ok: "tables_ok m pd fs" and no: "\<not> has_table m pd i" and i: "i < 1024"
    and f: "f \<in> fs" "page_ok f" and zero: "\<And>k. k < 1024 \<Longrightarrow> m (entry f k) = 0"
    and m': "m' = m(entry pd i := f OR 7)"
  shows "tables_ok m' pd (fs - {f})" and "walk m' pd a = walk m pd a"
    and "has_table m' pd i" and "table_of m' pd i = f" and "dir_pages m' pd = insert f (dir_pages m pd)"
proof -
  have pdal: "pd AND 0xFFF = 0" "f AND 0xFFF = 0" "f \<noteq> pd" "f \<noteq> 0"
    using ok f by (auto simp: tables_ok_def page_ok_def)
  have p: "pde m' pd j = (if j = i then f OR 7 else pde m pd j)" if "j < 1024" for j
    using that i pdal by (simp add: m' pde_def entry_inject)
  have f7: "(f OR 7) AND 1 = 1" "(f OR 7) AND 0xFFFFF000 = f"
    using present_or(2) page_of_or [of f 7] flags_bits(2) pdal by simp_all
  have d: "has_table m' pd j = (if j = i then True else has_table m pd j)"
    "table_of m' pd j = (if j = i then f else table_of m pd j)" if "j < 1024" for j
    using p [OF that] f7 by (simp_all add: has_table_def table_of_def)
  have other: "m' (entry g k) = m (entry g k)" if "g AND 0xFFF = 0" "g \<noteq> pd" "k < 1024" for g k
    using that pdal i by (simp add: m' entry_inject)
  show w: "walk m' pd a = walk m pd a" for a
  proof (cases "VADDR_PD_INDEX a = i")
    case True
    then show ?thesis
      using no i other [of f "VADDR_PT_INDEX a"] zero pdal by (simp add: walk_eq d)
  next
    case False
    show ?thesis
    proof (cases "has_table m pd (VADDR_PD_INDEX a)")
      case True
      then have "table_of m pd (VADDR_PD_INDEX a) \<noteq> pd" using ok by (simp add: tables_ok_def)
      then show ?thesis using False by (simp add: walk_eq d other table_aligned)
    qed (use False in \<open>simp add: walk_eq d\<close>)
  qed
  show "has_table m' pd i" "table_of m' pd i = f" using d i by simp_all
  show "tables_ok m' pd (fs - {f})"
    using ok f pdal no unfolding tables_ok_def w by (auto simp: d)
  show "dir_pages m' pd = insert f (dir_pages m pd)"
    using i no by (auto simp: dir_pages_def d)
qed

section \<open>The operations on a running system\<close>

text \<open>Paging is on, the current directory is loaded, and no free frame is part of it.\<close>

definition vm_inv :: "vmm \<Rightarrow> bool" where
  "vm_inv s \<longleftrightarrow> pmm_inv (vm_pmm s) \<and> vm_paging s \<and> vm_cr3 s = current_pd_phys s \<and>
     tables_ok (vm_memory s) (current_pd_phys s) (free_frames (vm_pmm s))"

text \<open>The current address space: the physical address of every mapped address.\<close>

definition space :: "vmm \<Rightarrow> u32 \<Rightarrow> u32 option" where
  "space s = walk (vm_memory s) (current_pd_phys s)"

abbreviation free_now :: "vmm \<Rightarrow> u32 set" where
  "free_now s \<equiv> free_frames (vm_pmm s)"

text \<open>The free frames the kernel can reach through the identity mapping.\<close>

definition low_free :: "vmm \<Rightarrow> nat" where
  "low_free s = card {f \<in> free_now s. f < 0x400000}"

lemma vm_invD:
  assumes "vm_inv s"
  shows "pmm_inv (vm_pmm s)" and "tables_ok (vm_memory s) (current_pd_phys s) (free_now s)"
    and "translate s = space s" and "a < 0x400000 \<Longrightarrow> space s a = Some a"
  using assms by (auto simp: vm_inv_def fun_eq_iff translate_def space_def tables_ok_def)

lemma load_low: "vm_inv s \<Longrightarrow> a < 0x400000 \<Longrightarrow> load32 s a = Some (vm_memory s a)"
  by (simp add: load32_def vm_invD)

lemma store_low:
  "vm_inv s \<Longrightarrow> a < 0x400000 \<Longrightarrow> store32 a v s = Some (s\<lparr>vm_memory := (vm_memory s)(a := v)\<rparr>)"
  by (simp add: store32_def vm_invD)

lemma free_aligned: "pmm_inv p \<Longrightarrow> f \<in> free_frames p \<Longrightarrow> f AND 0xFFF = 0"
  using fa.frames_managed fa.managed_aligned by blast

text \<open>An allocation takes the least free frame, which is below 4 MB while any such is free.\<close>

lemma alloc_least:
  assumes "pmm_inv p" and "pmm_alloc_page p = (a, q)" and "f \<in> free_frames p"
  shows "a \<noteq> 0 \<and> a \<le> f"
  using assms(1)
proof (cases rule: pmm_alloc_page_cases)
  case (some n)
  have wf: "pmm_wf p" using assms(1) by (simp add: pmm_inv_def)
  obtain m where m: "f = PFN_TO_ADDR m" "m \<in> free_set p" "256 \<le> m"
    using assms(3) by (auto simp: free_frames_def)
  have nm: "unat n < 65536" "unat m < 65536" "n \<le> m"
    using page_bound [OF wf] some m by (auto simp: free_set_def)
  then show ?thesis
    using some assms(2) pfn_addr_nonzero [OF wf, of n]
    by (auto simp: m(1) word_le_nat_alt unat_PFN_TO_ADDR free_set_def)
qed (use assms in simp)

lemma alloc_low:
  assumes inv: "pmm_inv (vm_pmm s)" and "0 < low_free s" and al: "pmm_alloc_page (vm_pmm s) = (a, q)"
  shows "a \<noteq> 0" and "page_ok a" and "a \<in> free_now s" and "free_frames q = free_now s - {a}"
    and "pmm_inv q" and "Suc (card {f \<in> free_frames q. f < 0x400000}) = low_free s"
    and "managed_frames q = managed_frames (vm_pmm s)"
proof -
  have "{f \<in> free_now s. f < 0x400000} \<noteq> {}"
    using assms(2) unfolding low_free_def by (metis card.empty less_irrefl)
  then obtain f where f: "f \<in> free_now s" "f < 0x400000" by blast
  show nz: "a \<noteq> 0" using alloc_least [OF inv al f(1)] by simp
  note t = fa.alloc_some [OF inv al nz]
  have "a < 0x400000" using alloc_least [OF inv al f(1)] f(2) le_less_trans by blast
  then show "page_ok a" using t free_aligned [OF inv, of a] by (simp add: page_ok_def)
  show "a \<in> free_now s" "free_frames q = free_now s - {a}" "pmm_inv q"
    "managed_frames q = managed_frames (vm_pmm s)" using t by auto
  have "{f \<in> free_now s. f < 0x400000} = insert a {f \<in> free_frames q. f < 0x400000}"
    using t \<open>a < 0x400000\<close> by auto
  then show "Suc (card {f \<in> free_frames q. f < 0x400000}) = low_free s"
    using t by (simp add: low_free_def)
qed

text \<open>A page reached through a mapping: its words lie at the same offsets of the frame.\<close>

lemma unat_page_of: "unat (page_of a) = 4096 * (unat a div 4096)"
  unfolding page_of_def frame_mask_not by (rule unat_page_part)

lemma unat_offset: "unat (VADDR_OFFSET a) = unat a mod 4096"
proof -
  have m: "(0xFFF :: u32) = mask 12" by (simp add: mask_eq_exp_minus_1)
  have "a AND mask 12 = a mod 4096" by (simp add: take_bit_eq_mod flip: take_bit_eq_mask)
  then have "VADDR_OFFSET a = a mod 4096" by (simp only: VADDR_OFFSET_def m)
  then show ?thesis by (simp add: unat_mod)
qed

lemma entry_parts:
  assumes "v AND 0xFFF = 0" and "i < 1024"
  shows "page_of (entry v i) = v" and "unat (VADDR_OFFSET (entry v i)) = 4 * unat i"
proof -
  obtain k where k: "unat v = 4096 * k" using aligned_dvd [OF assms(1)] by blast
  have i: "unat i < 1024" using assms(2) by (simp add: word_less_nat_alt)
  show "page_of (entry v i) = v"
    using i by (simp add: word_unat_eq_iff unat_page_of unat_entry [OF assms] k)
  show "unat (VADDR_OFFSET (entry v i)) = 4 * unat i"
    using i by (simp add: unat_offset unat_entry [OF assms] k)
qed

lemma entry_through:
  assumes "v AND 0xFFF = 0" and "f AND 0xFFF = 0" and "i < 1024"
  shows "f OR VADDR_OFFSET (entry v i) = entry f i"
proof -
  have "VADDR_OFFSET (entry v i) = VADDR_OFFSET (entry f i)"
    using entry_parts [OF assms(1,3)] entry_parts [OF assms(2,3)] by (simp add: word_unat_eq_iff)
  then show ?thesis using split_address [of "entry f i"] entry_parts [OF assms(2,3)] by simp
qed

text \<open>Zeroing a page that is no part of the directory.\<close>

lemma zero_page_spec:
  assumes inv: "vm_inv s" and v: "v AND 0xFFF = 0" and f: "f AND 0xFFF = 0"
    and map: "\<And>i. i < 1024 \<Longrightarrow> space s (entry v i) = Some (entry f i)"
    and fresh: "f \<notin> dir_pages (vm_memory s) (current_pd_phys s)"
  shows "\<exists>t m. zero_page v s = Some t \<and> t = s\<lparr>vm_memory := m\<rparr> \<and> (\<forall>i < 1024. m (entry f i) = 0) \<and>
           (\<forall>g. g AND 0xFFF = 0 \<and> g \<noteq> f \<longrightarrow> page_eq (vm_memory s) m g)"
proof -
  let ?P = "\<lambda>i t. \<exists>m. t = s\<lparr>vm_memory := m\<rparr> \<and> (\<forall>k < i. k < 1024 \<longrightarrow> m (entry f k) = 0) \<and>
      (\<forall>g. g AND 0xFFF = 0 \<and> g \<noteq> f \<longrightarrow> page_eq (vm_memory s) m g)"
  have ok: "tables_ok (vm_memory s) (current_pd_phys s) (free_now s)"
    by (rule vm_invD(2) [OF inv])
  have n: "PAGE_SIZE div 4 = 1024" by (simp add: PAGE_SIZE_def)
  have "\<exists>t. zero_page v s = Some t \<and> ?P (max 0 1024) t"
    unfolding zero_page_def n
  proof (rule for_try_rule)
    show "?P 0 s" by (intro exI [of _ "vm_memory s"]) simp
    fix i t assume i: "0 \<le> i" "i < 1024" and "?P i t"
    then obtain m where t: "t = s\<lparr>vm_memory := m\<rparr>" and z: "\<forall>k < i. k < 1024 \<longrightarrow> m (entry f k) = 0"
      and eq: "\<And>g. g AND 0xFFF = 0 \<Longrightarrow> g \<noteq> f \<Longrightarrow> page_eq (vm_memory s) m g" by blast
    have "page_eq (vm_memory s) m g" if "g \<in> dir_pages (vm_memory s) (current_pd_phys s)" for g
      using tables_okD(2) [OF ok that] that fresh by (intro eq) (auto simp: page_ok_def)
    then have "walk m (current_pd_phys s) a = space s a" for a
      by (simp add: walk_page_eq space_def)
    then have st: "store32 (entry v i) 0 t = Some (t\<lparr>vm_memory := m(entry f i := 0)\<rparr>)"
      using inv map [OF i(2)] by (simp add: store32_def translate_def t vm_inv_def)
    have "?P (i + 1) (t\<lparr>vm_memory := m(entry f i := 0)\<rparr>)"
    proof (intro exI conjI allI impI)
      show "t\<lparr>vm_memory := m(entry f i := 0)\<rparr> = s\<lparr>vm_memory := m(entry f i := 0)\<rparr>" by (simp add: t)
      show "(m(entry f i := 0)) (entry f k) = 0" if "k < i + 1" "k < 1024" for k
        using that z less_inc_iff [OF i(2), of k] f i(2) by (auto simp: entry_inject le_less)
      show "page_eq (vm_memory s) (m(entry f i := 0)) g" if "g AND 0xFFF = 0 \<and> g \<noteq> f" for g
        using that f i(2) by (intro page_eq_trans [OF eq page_eq_write]) auto
    qed
    then show "\<exists>u. store32 (entry v i) 0 t = Some u \<and> ?P (i + 1) u" using st by blast
  qed
  then show ?thesis by (auto simp: max_def)
qed

text \<open>What an operation may not touch: memory pages outside the directory and the free frames.\<close>

definition keeps_pages :: "vmm \<Rightarrow> vmm \<Rightarrow> bool" where
  "keeps_pages s t \<longleftrightarrow>
     (\<forall>g. g AND 0xFFF = 0 \<longrightarrow> g \<notin> dir_pages (vm_memory s) (current_pd_phys s) \<union> free_now s \<longrightarrow>
        page_eq (vm_memory s) (vm_memory t) g) \<and>
     current_pd_phys t = current_pd_phys s \<and> kernel_page_directory t = kernel_page_directory s \<and>
     first_page_table t = first_page_table s \<and> managed_frames (vm_pmm t) = managed_frames (vm_pmm s)"

lemma keeps_pages_refl [simp]: "keeps_pages s s"
  by (simp add: keeps_pages_def)

lemma low_word: "page_ok f \<Longrightarrow> i < 1024 \<Longrightarrow> entry f i < 0x400000"
  by (rule entry_low)

lemma PTE_PRESENT_eq: "x AND PTE_PRESENT = x AND 1"
  by (simp add: PTE_PRESENT_def)

text \<open>The table of the address is there, or a frame for one can be zeroed, or there is none.\<close>

definition table_room :: "u32 \<Rightarrow> vmm \<Rightarrow> bool" where
  "table_room v s \<longleftrightarrow> has_table (vm_memory s) (current_pd_phys s) (VADDR_PD_INDEX v) \<or>
     0 < low_free s \<or> free_now s = {}"

lemma table_roomI: "0 < low_free s \<or> free_now s = {} \<Longrightarrow> table_room v s"
  by (auto simp: table_room_def)

text \<open>\<open>get_page_table\<close>: the table of the address, made from the least free frame if it is missing
  and wanted; no mapping changes.\<close>

lemma get_page_table_cases:
  assumes inv: "vm_inv s" and room: "create \<Longrightarrow> table_room v s"
  obtains (found) "has_table (vm_memory s) (current_pd_phys s) (VADDR_PD_INDEX v)"
      "get_page_table v create s = Some (table_of (vm_memory s) (current_pd_phys s) (VADDR_PD_INDEX v), s)"
  | (none) "\<not> has_table (vm_memory s) (current_pd_phys s) (VADDR_PD_INDEX v)"
      "get_page_table v create s = Some (0, s)" "create \<Longrightarrow> free_now s = {}"
  | (made) f t where "\<not> has_table (vm_memory s) (current_pd_phys s) (VADDR_PD_INDEX v)" "create"
      "get_page_table v create s = Some (f, t)" "f = table_of (vm_memory t) (current_pd_phys t) (VADDR_PD_INDEX v)"
      "has_table (vm_memory t) (current_pd_phys t) (VADDR_PD_INDEX v)" "f \<in> free_now s"
      "vm_inv t" "space t = space s" "free_now t = free_now s - {f}" "Suc (low_free t) = low_free s"
      "keeps_pages s t" "dir_pages (vm_memory t) (current_pd_phys t) =
        insert f (dir_pages (vm_memory s) (current_pd_phys s))"
      "\<And>g. g AND 0xFFF = 0 \<Longrightarrow> g \<notin> free_now s \<Longrightarrow> g \<noteq> current_pd_phys s \<Longrightarrow>
        page_eq (vm_memory s) (vm_memory t) g"
      "\<And>i. i < 1024 \<Longrightarrow> i \<noteq> VADDR_PD_INDEX v \<Longrightarrow>
        pde (vm_memory t) (current_pd_phys s) i = pde (vm_memory s) (current_pd_phys s) i"
proof -
  let ?m = "vm_memory s" and ?pd = "current_pd_phys s" and ?i = "VADDR_PD_INDEX v"
  note ok = vm_invD(2) [OF inv]
  have pd: "page_ok ?pd" "?pd AND 0xFFF = 0" using tables_okD(1) [OF ok] by (simp_all add: page_ok_def)
  have lo: "entry ?pd ?i < 0x400000" by (rule entry_low [OF pd(1)]) simp
  have ld: "load32 s (entry ?pd ?i) = Some (pde ?m ?pd ?i)"
    by (simp add: load_low [OF inv lo] pde_def)
  show thesis
  proof (cases "has_table ?m ?pd ?i")
    case True
    then show thesis
      using ld by (intro found) (simp_all add: get_page_table_def has_table_def table_of_def Let_def word_norm)
  next
    case False
    then have no: "pde ?m ?pd ?i AND 1 = 0" by (simp add: has_table_def)
    obtain a q where al: "pmm_alloc_page (vm_pmm s) = (a, q)" by (cases "pmm_alloc_page (vm_pmm s)")
    show thesis
    proof (cases "create \<and> free_now s \<noteq> {}")
      case as: False
      have "a = 0 \<and> q = vm_pmm s" if "free_now s = {}"
        using vm_invD(1) [OF inv]
      proof (cases rule: pmm_alloc_page_cases)
        case (some p)
        then have "PFN_TO_ADDR p \<in> free_now s" by (auto simp: free_frames_def)
        then show ?thesis using that by simp
      qed (use al in simp)
      then show thesis
        using as ld no al False
        by (intro none) (auto simp: get_page_table_def Let_def word_norm)
    next
      case True
      then have low: "0 < low_free s" using room False by (auto simp: table_room_def)
      note a = alloc_low [OF vm_invD(1) [OF inv] low al]
      have aal: "a AND 0xFFF = 0" using a(2) by (simp add: page_ok_def)
      define s1 where "s1 = s\<lparr>vm_pmm := q\<rparr>"
      have ok1: "tables_ok ?m ?pd (free_frames q)" using ok a(4) by (auto simp: tables_ok_def)
      have inv1: "vm_inv s1" using inv ok1 a(5) by (simp add: vm_inv_def s1_def)
      have fresh: "a \<notin> dir_pages ?m ?pd" using tables_okD(2) [OF ok] a(3) by blast
      have "space s1 (entry a i) = Some (entry a i)" if "i < 1024" for i
        using entry_low [OF a(2) that] vm_invD(4) [OF inv1] by simp
      then obtain m where z: "zero_page a s1 = Some (s1\<lparr>vm_memory := m\<rparr>)"
        "\<And>i. i < 1024 \<Longrightarrow> m (entry a i) = 0"
        "\<And>g. g AND 0xFFF = 0 \<Longrightarrow> g \<noteq> a \<Longrightarrow> page_eq ?m m g"
        using zero_page_spec [OF inv1 aal aal] fresh by (auto simp: s1_def)
      have eq: "page_eq ?m m g" if "g \<in> dir_pages ?m ?pd" for g
        using z(3) [of g] tables_okD(2) [OF ok that] that fresh by (auto simp: page_ok_def)
      note ok2 = tables_ok_page_eq [OF ok eq]
      have "page_eq ?m m ?pd" by (intro eq) (simp add: dir_pages_def)
      note d = dir_eq [OF this index_less(1)]
      define s2 where "s2 = s1\<lparr>vm_memory := m\<rparr>"
      have inv2: "vm_inv s2"
        using inv1 ok2(1) a(4) by (auto simp: vm_inv_def s2_def s1_def tables_ok_def)
      define t where "t = s2\<lparr>vm_memory := m(entry ?pd ?i := a OR 7)\<rparr>"
      have "\<not> has_table m ?pd ?i" using False d by simp
      note add = add_table [OF ok2(1) this index_less(1) a(3) a(2) z(2) refl]
      have "walk m ?pd x = walk ?m ?pd x" for x by (rule walk_page_eq [OF eq])
      then have sp: "space t = space s" using add(2) by (simp add: space_def t_def s2_def s1_def fun_eq_iff)
      have invt: "vm_inv t"
        using inv add(1) a(4,5) by (simp add: vm_inv_def t_def s2_def s1_def)
      have st: "store32 (entry ?pd ?i) (a OR PTE_PRESENT OR PTE_WRITABLE OR PTE_USER) s2 = Some t"
        unfolding flags_seven using store_low [OF inv2 lo] by (simp add: t_def s2_def)
      have ld2: "load32 t (entry ?pd ?i) = Some (a OR 7)"
        using load_low [OF invt lo] by (simp add: t_def)
      have am: "(a OR 7) AND 0xFFFFF000 = a" by (rule page_of_or [OF aal flags_bits(2)])
      have get: "get_page_table v create s = Some (a, t)"
        using True ld no al z(1) st ld2 a(1) am
        by (simp add: get_page_table_def Let_def PTE_PRESENT_eq PTE_FRAME_MASK_def s1_def s2_def)
      have fr: "free_now t = free_now s - {a}" using a(4) by (simp add: t_def s2_def s1_def)
      have lf: "Suc (low_free t) = low_free s"
        using a(6) unfolding low_free_def by (simp add: t_def s2_def s1_def)
      have kp: "keeps_pages s t"
        unfolding keeps_pages_def
      proof (intro conjI allI impI)
        fix g :: u32 assume g: "g AND 0xFFF = 0" "g \<notin> dir_pages ?m ?pd \<union> free_now s"
        then have "g \<noteq> a" "g \<noteq> ?pd" using a(3) by (auto simp: dir_pages_def)
        then show "page_eq ?m (vm_memory t) g"
          using g(1) pd page_eq_trans [OF z(3) page_eq_write] by (simp add: t_def)
      qed (use a in \<open>simp_all add: t_def s2_def s1_def\<close>)
      have pages: "page_eq ?m (vm_memory t) g" if "g AND 0xFFF = 0" "g \<notin> free_now s" "g \<noteq> ?pd" for g
      proof -
        have "g \<noteq> a" using that(2) a(3) by metis
        then show ?thesis
          using that pd page_eq_trans [OF z(3) page_eq_write] by (simp add: t_def)
      qed
      have entries: "pde (vm_memory t) ?pd i = pde ?m ?pd i" if "i < 1024" "i \<noteq> ?i" for i
        using that pd(2) eq [of ?pd] by (simp add: t_def pde_def entry_inject page_eq_def dir_pages_def)
      show thesis
        by (rule made [OF False _ get _ _ a(3) invt sp fr lf kp _ pages entries])
          (use True add(3,4,5) ok2(2) in \<open>simp_all add: t_def s2_def s1_def\<close>)
    qed
  qed
qed

lemma table_page:
  assumes "vm_inv s" and "has_table (vm_memory s) (current_pd_phys s) (VADDR_PD_INDEX v)"
  defines "f \<equiv> table_of (vm_memory s) (current_pd_phys s) (VADDR_PD_INDEX v)"
  shows "page_ok f" and "f \<noteq> 0" and "f \<in> dir_pages (vm_memory s) (current_pd_phys s)"
    and "entry f (VADDR_PT_INDEX v) < 0x400000"
proof -
  show d: "f \<in> dir_pages (vm_memory s) (current_pd_phys s)"
    using assms(2) by (auto simp: dir_pages_def f_def)
  from tables_okD(2) [OF vm_invD(2) [OF assms(1)] d] show "page_ok f" "f \<noteq> 0" by auto
  then show "entry f (VADDR_PT_INDEX v) < 0x400000" by (intro entry_low) simp_all
qed

lemma space_entry:
  assumes "has_table (vm_memory s) (current_pd_phys s) (VADDR_PD_INDEX v)"
  shows "space s v =
     (let pte = vm_memory s (entry (table_of (vm_memory s) (current_pd_phys s) (VADDR_PD_INDEX v)) (VADDR_PT_INDEX v))
      in if pte AND 1 = 0 then None else Some ((pte AND 0xFFFFF000) OR VADDR_OFFSET v))"
  using assms by (simp add: space_def walk_eq)

text \<open>Setting the entry of a page that has a table.\<close>

definition set_entry :: "vmm \<Rightarrow> u32 \<Rightarrow> u32 \<Rightarrow> vmm" where
  "set_entry s v e = s\<lparr>vm_memory := (vm_memory s)
     (entry (table_of (vm_memory s) (current_pd_phys s) (VADDR_PD_INDEX v)) (VADDR_PT_INDEX v) := e)\<rparr>"

lemma set_entry_spec:
  assumes inv: "vm_inv s" and has: "has_table (vm_memory s) (current_pd_phys s) (VADDR_PD_INDEX v)"
    and low: "keeps_low v e"
  shows "store32 (entry (table_of (vm_memory s) (current_pd_phys s) (VADDR_PD_INDEX v)) (VADDR_PT_INDEX v)) e s
           = Some (set_entry s v e)"
    and "vm_inv (set_entry s v e)"
    and "space (set_entry s v e) a =
           (if page_of a = page_of v
            then if e AND 1 = 0 then None else Some ((e AND 0xFFFFF000) OR VADDR_OFFSET a)
            else space s a)"
    and "keeps_pages s (set_entry s v e)" and "vm_pmm (set_entry s v e) = vm_pmm s"
    and "dir_pages (vm_memory (set_entry s v e)) (current_pd_phys (set_entry s v e)) =
           dir_pages (vm_memory s) (current_pd_phys s)"
proof -
  let ?m = "vm_memory s" and ?pd = "current_pd_phys s"
  note ok = vm_invD(2) [OF inv] and tp = table_page [OF inv has]
  note w = walk_write_entry [OF ok has refl, of e] and t = tables_ok_write_entry [OF ok has refl low]
  show "store32 (entry (table_of ?m ?pd (VADDR_PD_INDEX v)) (VADDR_PT_INDEX v)) e s = Some (set_entry s v e)"
    using store_low [OF inv tp(4)] by (simp add: set_entry_def)
  show "vm_inv (set_entry s v e)" using inv t by (simp add: vm_inv_def set_entry_def)
  show "space (set_entry s v e) a =
      (if page_of a = page_of v
       then if e AND 1 = 0 then None else Some ((e AND 0xFFFFF000) OR VADDR_OFFSET a)
       else space s a)"
    using w(1) by (simp add: space_def set_entry_def)
  show "dir_pages (vm_memory (set_entry s v e)) (current_pd_phys (set_entry s v e)) = dir_pages ?m ?pd"
    using t(2) by (simp add: set_entry_def)
  show "keeps_pages s (set_entry s v e)"
    unfolding keeps_pages_def set_entry_def using tp(3)
    by (auto intro!: write_entry_eq [OF ok has])
qed (simp add: set_entry_def)

lemma map_entry_bits:
  "((phys AND 0xFFFFF000) OR (flags AND 0xFFF) OR 1) AND 1 = (1 :: u32)"
  "((phys AND 0xFFFFF000) OR (flags AND 0xFFF) OR 1) AND 0xFFFFF000 = page_of phys"
proof -
  have "(phys AND 0xFFFFF000) AND 0xFFF = 0"
    by (simp add: aligned_bits bit_and_iff word_norm)
  then show "((phys AND 0xFFFFF000) OR (flags AND 0xFFF) OR 1) AND 0xFFFFF000 = page_of phys"
    unfolding page_of_def by (rule page_of_or) (rule flags_bits(1))
qed (rule present_or)

text \<open>\<open>vmm_map_page\<close>. The low 4 MB may only be mapped to themselves.\<close>

lemma vmm_map_page_cases:
  assumes inv: "vm_inv s" and room: "table_room virt s"
    and low: "0x400000 \<le> virt \<or> page_of phys = page_of virt"
  obtains (full) "vmm_map_page virt phys flags s = Some (False, s)" "free_now s = {}"
      "\<not> has_table (vm_memory s) (current_pd_phys s) (VADDR_PD_INDEX virt)"
  | (mapped) t where "vmm_map_page virt phys flags s = Some (True, t)" "vm_inv t"
      "space t = (\<lambda>a. if page_of a = page_of virt then Some (page_of phys OR VADDR_OFFSET a) else space s a)"
      "free_now t \<subseteq> free_now s" "low_free s \<le> Suc (low_free t)" "keeps_pages s t"
      "has_table (vm_memory s) (current_pd_phys s) (VADDR_PD_INDEX virt) \<longrightarrow> vm_pmm t = vm_pmm s"
      "dir_pages (vm_memory t) (current_pd_phys t) \<subseteq>
         dir_pages (vm_memory s) (current_pd_phys s) \<union> (free_now s - free_now t)"
      "\<And>g. g AND 0xFFF = 0 \<Longrightarrow> g \<notin> free_now s \<Longrightarrow> g \<noteq> current_pd_phys s \<Longrightarrow>
        g \<noteq> table_of (vm_memory s) (current_pd_phys s) (VADDR_PD_INDEX virt) \<or>
          \<not> has_table (vm_memory s) (current_pd_phys s) (VADDR_PD_INDEX virt) \<Longrightarrow>
        page_eq (vm_memory s) (vm_memory t) g"
      "\<And>i. i < 1024 \<Longrightarrow> i \<noteq> VADDR_PD_INDEX virt \<or>
          has_table (vm_memory s) (current_pd_phys s) (VADDR_PD_INDEX virt) \<Longrightarrow>
        pde (vm_memory t) (current_pd_phys s) i = pde (vm_memory s) (current_pd_phys s) i"
proof -
  let ?e = "(phys AND 0xFFFFF000) OR (flags AND 0xFFF) OR 1"
  have kl: "keeps_low virt ?e"
    using low by (auto simp: keeps_low_def map_entry_bits)
  have put: "\<exists>u. (do {
          old \<leftarrow> load32 t (entry f (VADDR_PT_INDEX virt));
          let s2 = (if old AND PTE_PRESENT \<noteq> 0 then invlpg virt t else t)
          in do {
               s3 \<leftarrow> store32 (entry f (VADDR_PT_INDEX virt))
                       ((phys AND PTE_FRAME_MASK) OR (flags AND PTE_FLAGS_MASK) OR PTE_PRESENT) s2;
               Some (True, s3)
             }
        }) = Some (True, u) \<and> u = set_entry t virt ?e"
    if inv': "vm_inv t" and has: "has_table (vm_memory t) (current_pd_phys t) (VADDR_PD_INDEX virt)"
      and f: "f = table_of (vm_memory t) (current_pd_phys t) (VADDR_PD_INDEX virt)" for f t
    using load_low [OF inv' table_page(4) [OF inv' has]] set_entry_spec(1) [OF inv' has kl]
    by (simp add: f invlpg_def word_norm)
  from inv room show thesis
  proof (cases rule: get_page_table_cases [where create = True and v = virt])
    case found
    note se = set_entry_spec [OF inv found(1) kl]
    have pages: "page_eq (vm_memory s) (vm_memory (set_entry s virt ?e)) g"
      if "g AND 0xFFF = 0" "g \<noteq> table_of (vm_memory s) (current_pd_phys s) (VADDR_PD_INDEX virt)" for g
      using that page_eq_write table_aligned by (simp add: set_entry_def)
    have "page_eq (vm_memory s) (vm_memory (set_entry s virt ?e)) (current_pd_phys s)"
      using walk_write_entry(2) [OF vm_invD(2) [OF inv] found(1) refl] by (simp add: set_entry_def)
    then have entries: "pde (vm_memory (set_entry s virt ?e)) (current_pd_phys s) i = pde (vm_memory s) (current_pd_phys s) i"
      if "i < 1024" for i using that by (simp add: pde_def page_eq_def)
    show thesis
      using put [OF inv found(1) refl] table_page(2) [OF inv found(1)] found(1) pages entries
      by (intro mapped [OF _ se(2) _ _ _ se(4)])
        (auto simp: vmm_map_page_def found(2) Let_def se(3,5,6) map_entry_bits fun_eq_iff low_free_def)
  next
    case none
    then show thesis by (intro full) (simp_all add: vmm_map_page_def)
  next
    case (made f t)
    note has = made(5) [folded made(4)] and inv' = made(7)
    note se = set_entry_spec [OF inv' made(5) kl]
    have kp: "keeps_pages s (set_entry t virt ?e)"
      using made(11) se(4) made(12,6,9) unfolding keeps_pages_def by (auto intro: page_eq_trans)
    have pages: "page_eq (vm_memory s) (vm_memory (set_entry t virt ?e)) g"
      if "g AND 0xFFF = 0" "g \<notin> free_now s" "g \<noteq> current_pd_phys s" for g
    proof -
      have "g \<noteq> f" using that(2) made(6) by metis
      then have "page_eq (vm_memory t) (vm_memory (set_entry t virt ?e)) g"
        using that(1) page_eq_write table_aligned made(4) by (simp add: set_entry_def)
      then show ?thesis using page_eq_trans [OF made(13) [OF that]] by blast
    qed
    have cp: "current_pd_phys t = current_pd_phys s" using made(11) by (simp add: keeps_pages_def)
    have "page_eq (vm_memory t) (vm_memory (set_entry t virt ?e)) (current_pd_phys t)"
      using walk_write_entry(2) [OF vm_invD(2) [OF inv'] made(5) refl] by (simp add: set_entry_def)
    then have entries: "pde (vm_memory (set_entry t virt ?e)) (current_pd_phys s) i = pde (vm_memory s) (current_pd_phys s) i"
      if "i < 1024" "i \<noteq> VADDR_PD_INDEX virt" for i
      using made(14) [OF that] that by (simp add: pde_def page_eq_def cp)
    have "f \<noteq> 0" using table_page(2) [OF inv' made(5)] made(4) by simp
    then show thesis
      using put [OF inv' made(5) made(4)] made(1-12) pages entries
      by (intro mapped [OF _ se(2) _ _ _ kp])
        (auto simp: vmm_map_page_def Let_def se(3,5,6) map_entry_bits fun_eq_iff low_free_def)
  qed
qed

lemma get_page_table_find:
  assumes inv: "vm_inv s"
  obtains (found) "has_table (vm_memory s) (current_pd_phys s) (VADDR_PD_INDEX v)"
      "get_page_table v False s = Some (table_of (vm_memory s) (current_pd_phys s) (VADDR_PD_INDEX v), s)"
  | (none) "\<not> has_table (vm_memory s) (current_pd_phys s) (VADDR_PD_INDEX v)"
      "get_page_table v False s = Some (0, s)"
  by (rule get_page_table_cases [OF inv, of False v]) (simp_all add: that)

text \<open>\<open>vmm_unmap_page\<close>, for a page above the identity mapping.\<close>

lemma vmm_unmap_page_spec:
  assumes inv: "vm_inv s" and high: "0x400000 \<le> virt"
  obtains t where "vmm_unmap_page virt s = Some t" and "vm_inv t"
    and "space t = (\<lambda>a. if page_of a = page_of virt then None else space s a)"
    and "vm_pmm t = vm_pmm s" and "keeps_pages s t"
    and "dir_pages (vm_memory t) (current_pd_phys t) = dir_pages (vm_memory s) (current_pd_phys s)"
proof -
  have kl: "keeps_low virt 0" using high by (simp add: keeps_low_def)
  from inv show thesis
  proof (cases rule: get_page_table_find [where v = virt])
    case found
    note se = set_entry_spec [OF inv found(1) kl]
    show thesis
      using se(1) table_page(2) [OF inv found(1)]
      by (intro that [OF _ se(2) _ se(5) se(4) se(6)])
        (simp_all add: vmm_unmap_page_def found(2) invlpg_def se(3) fun_eq_iff)
  next
    case none
    have "space s a = None" if "page_of a = page_of virt" for a
      using that none(1) by (simp add: space_def walk_eq same_page_iff)
    then show thesis
      using none(2) by (intro that [of s]) (auto simp: vmm_unmap_page_def inv fun_eq_iff)
  qed
qed

lemma vmm_get_physical_spec:
  assumes inv: "vm_inv s"
  shows "vmm_get_physical virt s = Some (case space s virt of None \<Rightarrow> 0 | Some p \<Rightarrow> p)"
    and "vmm_is_mapped virt s = Some (space s virt \<noteq> None)"
proof -
  have "vmm_get_physical virt s = Some (case space s virt of None \<Rightarrow> 0 | Some p \<Rightarrow> p) \<and>
        vmm_is_mapped virt s = Some (space s virt \<noteq> None)"
    using inv
  proof (cases rule: get_page_table_find [where v = virt])
    case found
    then show ?thesis
      using load_low [OF inv table_page(4) [OF inv found(1)]] table_page(2) [OF inv found(1)]
      by (simp add: vmm_get_physical_def vmm_is_mapped_def space_entry Let_def word_norm)
  next
    case none
    then show ?thesis
      by (simp add: vmm_get_physical_def vmm_is_mapped_def space_def walk_eq)
  qed
  then show "vmm_get_physical virt s = Some (case space s virt of None \<Rightarrow> 0 | Some p \<Rightarrow> p)"
    and "vmm_is_mapped virt s = Some (space s virt \<noteq> None)" by blast+
qed

end
