(* ===== verification/Address_Spaces.thy ===== *)
theory Address_Spaces
  imports Vmm
begin

text \<open>
  The properties of \<open>vmm.c\<close>: what its operations do to the current address space, the map
  \<open>space s\<close> from virtual to physical addresses, and to the free frames.
\<close>

section \<open>Ranges of pages\<close>

definition in_range :: "u32 \<Rightarrow> u32 \<Rightarrow> u32 \<Rightarrow> bool" where
  "in_range v n a \<longleftrightarrow> unat v \<le> unat a \<and> unat a < unat v + 4096 * unat n"

lemma in_range_0 [simp]: "\<not> in_range v 0 a"
  by (simp add: in_range_def)

lemma page_shift:
  assumes v: "v AND 0xFFF = 0" and i: "i < n" and n: "unat v + 4096 * unat n \<le> 2 ^ 32"
  shows "unat (v + i * PAGE_SIZE) = unat v + 4096 * unat i" and "(v + i * PAGE_SIZE) AND 0xFFF = 0"
proof -
  have "unat i < unat n" using i by (simp add: word_less_nat_alt)
  then have b: "unat v + 4096 * unat i < 2 ^ 32" using n by simp
  then have "unat (i * PAGE_SIZE) = 4096 * unat i"
    by (simp add: PAGE_SIZE_def unat_word_ariths)
  then show u: "unat (v + i * PAGE_SIZE) = unat v + 4096 * unat i"
    using b by (simp add: unat_word_ariths)
  have "unat (VADDR_OFFSET (v + i * PAGE_SIZE)) = 0"
    using aligned_dvd [OF v] by (auto simp: unat_offset u)
  then show "(v + i * PAGE_SIZE) AND 0xFFF = 0"
    unfolding VADDR_OFFSET_def by (simp only: unat_eq_0)
qed

lemma div_page_iff: "x div 4096 = q \<longleftrightarrow> 4096 * q \<le> x \<and> x < 4096 * q + 4096" for x q :: nat
  using div_mult_mod_eq [of x 4096] mod_less_divisor [of 4096 x] by (auto simp: div_nat_eqI)

lemma page_shift_iff:
  assumes v: "v AND 0xFFF = 0" and i: "i < n" and n: "unat v + 4096 * unat n \<le> 2 ^ 32"
  shows "page_of a = page_of (v + i * PAGE_SIZE) \<longleftrightarrow> in_range v (i + 1) a \<and> \<not> in_range v i a"
proof -
  note s = page_shift [OF v i n]
  obtain k where k: "unat v = 4096 * k" using aligned_dvd [OF v] by blast
  have "page_of a = page_of (v + i * PAGE_SIZE) \<longleftrightarrow>
      4096 * (unat a div 4096) = 4096 * ((4096 * k + 4096 * unat i) div 4096)"
    by (simp only: word_unat_eq_iff unat_page_of s(1) k)
  also have "\<dots> \<longleftrightarrow> unat a div 4096 = k + unat i" by auto
  also have "\<dots> \<longleftrightarrow> 4096 * (k + unat i) \<le> unat a \<and> unat a < 4096 * (k + unat i) + 4096"
    by (rule div_page_iff)
  finally show ?thesis
    using unat_inc_less [OF i] by (auto simp: in_range_def k)
qed

lemma in_range_inc: "i < n \<Longrightarrow> in_range v i a \<Longrightarrow> in_range v (i + 1) a"
  by (simp add: in_range_def unat_inc_less)

lemma high_page:
  assumes "0x400000 \<le> v" and "v AND 0xFFF = 0" and "i < n" and "unat v + 4096 * unat n \<le> 2 ^ 32"
  shows "0x400000 \<le> v + i * PAGE_SIZE"
  using assms(1) page_shift(1) [OF assms(2-4)] by (simp add: word_le_nat_alt)

lemma aligned_plus_offset:
  assumes "p AND 0xFFF = 0"
  shows "p OR VADDR_OFFSET a = p + VADDR_OFFSET a"
proof -
  have "p AND VADDR_OFFSET a = 0"
    using assms flags_bits(4) [of a] unfolding aligned_bits by (intro bit_eqI) (auto simp: bit_and_iff)
  then show ?thesis by (simp add: disjunctive_add_eq_or)
qed

lemma offset_minus: "VADDR_OFFSET a = a - page_of a"
proof -
  have "(page_of a) AND 0xFFF = 0" by (simp add: aligned_bits bit_page_of)
  then have "page_of a + VADDR_OFFSET a = a"
    using aligned_plus_offset [of "page_of a" a] split_address [of a] by simp
  then show ?thesis by (metis add_diff_cancel_left')
qed

lemma page_of_aligned: "p AND 0xFFF = 0 \<Longrightarrow> page_of p = p"
  using page_of_or [of p 0] flags_bits(3) by (simp add: page_of_def)

lemma linear_page:
  assumes "page_of a = page_of (v + x)" and "(v + x) AND 0xFFF = 0" and "(p + x) AND 0xFFF = 0"
  shows "page_of (p + x) OR VADDR_OFFSET a = p + (a - v)"
proof -
  have "page_of (p + x) OR VADDR_OFFSET a = p + x + VADDR_OFFSET a"
    using aligned_plus_offset [OF assms(3)] assms(3) by (simp add: page_of_aligned)
  also have "\<dots> = p + x + (a - (v + x))"
    using assms(1,2) by (simp add: offset_minus page_of_aligned)
  finally have "page_of (p + x) OR VADDR_OFFSET a = p + x + (a - (v + x))" .
  then show ?thesis by (simp add: algebra_simps)
qed

text \<open>Unmapping and mapping a range, page by page.\<close>

lemma keeps_pages_unmap:
  assumes "keeps_pages s t" and "keeps_pages t u" and "vm_pmm t = vm_pmm s"
    and "dir_pages (vm_memory t) (current_pd_phys t) = dir_pages (vm_memory s) (current_pd_phys s)"
  shows "keeps_pages s u"
  using assms unfolding keeps_pages_def by (auto intro: page_eq_trans)

lemma unmap_loop:
  assumes inv: "vm_inv s" and v: "v AND 0xFFF = 0" and high: "0x400000 \<le> v"
    and n: "unat v + 4096 * unat n \<le> 2 ^ 32"
  shows "\<exists>t. for_try 0 n (\<lambda>i. vmm_unmap_page (v + i * PAGE_SIZE)) s = Some t \<and> vm_inv t \<and>
           vm_pmm t = vm_pmm s \<and> space t = (\<lambda>a. if in_range v n a then None else space s a)"
proof -
  let ?P = "\<lambda>i t. vm_inv t \<and> vm_pmm t = vm_pmm s \<and>
      space t = (\<lambda>a. if in_range v i a then None else space s a)"
  have "\<exists>t. for_try 0 n (\<lambda>i. vmm_unmap_page (v + i * PAGE_SIZE)) s = Some t \<and> ?P (max 0 n) t"
  proof (rule for_try_rule)
    fix i t assume i: "0 \<le> i" "i < n" and P: "?P i t"
    then have "vm_inv t" by blast
    from this high_page [OF high v i(2) n]
    obtain u where "vmm_unmap_page (v + i * PAGE_SIZE) t = Some u" "vm_inv u" "vm_pmm u = vm_pmm t"
      "space u = (\<lambda>a. if page_of a = page_of (v + i * PAGE_SIZE) then None else space t a)"
      by (rule vmm_unmap_page_spec)
    moreover from this(4) have "space u = (\<lambda>a. if in_range v (i + 1) a then None else space s a)"
      using P in_range_inc [OF i(2)] by (auto simp: page_shift_iff [OF v i(2) n] fun_eq_iff)
    ultimately show "\<exists>u. vmm_unmap_page (v + i * PAGE_SIZE) t = Some u \<and> ?P (i + 1) u"
      using P by auto
  qed (use inv in simp)
  then show ?thesis by (simp add: max_def)
qed

text \<open>Room for \<open>n\<close> more page tables: that many frames below 4 MB, or no frame above 4 MB at all.\<close>

definition room_for :: "nat \<Rightarrow> vmm \<Rightarrow> bool" where
  "room_for n s \<longleftrightarrow> n \<le> low_free s \<or> (\<forall>f \<in> free_now s. f < 0x400000)"

lemma room_forD:
  assumes "vm_inv s" and "room_for (Suc n) s"
  shows "0 < low_free s \<or> free_now s = {}"
proof (cases "free_now s = {}")
  case False
  have fin: "finite {f \<in> free_now s. f < 0x400000}"
    by (rule finite_subset [of _ UNIV]) simp_all
  have "0 < low_free s" if "\<forall>f \<in> free_now s. f < 0x400000"
    using False that fin by (auto simp: low_free_def card_gt_0_iff)
  then show ?thesis using assms(2) by (auto simp: room_for_def)
qed simp

lemma room_for_step:
  assumes "room_for (Suc n) s" and "free_now t \<subseteq> free_now s" and "low_free s \<le> Suc (low_free t)"
  shows "room_for n t"
  using assms by (auto simp: room_for_def)

lemma range_pages: "i < n \<Longrightarrow> unat n \<le> 2 ^ 20 \<Longrightarrow> (i * PAGE_SIZE + PAGE_SIZE - 1) div PAGE_SIZE = i" for i n :: u32
proof -
  assume i: "i < n" "unat n \<le> 2 ^ 20"
  then have "4096 * unat i + 4095 < 2 ^ 32" by (simp add: word_less_nat_alt)
  moreover from this have "unat (i * PAGE_SIZE) = 4096 * unat i" by (simp add: PAGE_SIZE_def unat_word_ariths)
  ultimately have u: "unat (i * PAGE_SIZE + 4095) = 4096 * unat i + 4095"
    by (simp add: unat_word_ariths)
  have e: "i * PAGE_SIZE + PAGE_SIZE - 1 = i * PAGE_SIZE + 4095" "unat PAGE_SIZE = 4096"
    by (simp_all add: PAGE_SIZE_def)
  have "unat ((i * PAGE_SIZE + PAGE_SIZE - 1) div PAGE_SIZE) = (4096 * unat i + 4095) div 4096"
    by (simp only: e unat_div u)
  also have "\<dots> = unat i" by simp
  finally have "unat ((i * PAGE_SIZE + PAGE_SIZE - 1) div PAGE_SIZE) = unat i" .
  then show ?thesis by (simp only: word_unat_eq_iff)
qed

lemma map_range_loop_spec:
  assumes inv: "vm_inv s" and v: "v AND 0xFFF = 0" and p: "p AND 0xFFF = 0" and high: "0x400000 \<le> v"
    and n: "unat v + 4096 * unat n \<le> 2 ^ 32" "unat p + 4096 * unat n \<le> 2 ^ 32"
    and room: "room_for (unat n - unat i) s" and i: "i \<le> n"
    and s: "space s = (\<lambda>a. if in_range v i a then Some (p + (a - v)) else sp a)"
  shows "(\<exists>t. map_range_loop i n v p flags s = Some (True, t) \<and> vm_inv t \<and> free_now t \<subseteq> free_now s \<and>
            space t = (\<lambda>a. if in_range v n a then Some (p + (a - v)) else sp a)) \<or>
         (\<exists>t j. map_range_loop i n v p flags s = Some (False, t) \<and> vm_inv t \<and> free_now t = {} \<and>
            j < n \<and> low_free s < unat n - unat i \<and>
            space t = (\<lambda>a. if in_range v j a then None else sp a))"
  using assms
proof (induction i n v p flags s rule: map_range_loop.induct)
  case (1 i n v p flags s)
  note inv = "1.prems"(1) and v = "1.prems"(2) and p = "1.prems"(3) and high = "1.prems"(4)
    and n = "1.prems"(5) and np = "1.prems"(6) and room = "1.prems"(7) and s = "1.prems"(9)
  show ?case
  proof (cases "i < n")
    case False
    then have "i = n" using "1.prems"(8) by simp
    then show ?thesis using inv s by (simp add: map_range_loop.simps)
  next
    case True
    let ?v = "v + i * PAGE_SIZE" and ?p = "p + i * PAGE_SIZE"
    have Suc: "unat n - unat i = Suc (unat n - unat (i + 1))"
      using True by (simp add: unat_inc_less word_less_nat_alt)
    have rm: "0 < low_free s \<or> free_now s = {}"
      using room_forD [OF inv] room unfolding Suc by blast
    have hi: "0x400000 \<le> ?v \<or> page_of ?p = page_of ?v" using high_page [OF high v True n] by simp
    from inv table_roomI [OF rm] hi show ?thesis
    proof (cases rule: vmm_map_page_cases [where flags = flags])
      case full
      have "unat i \<le> 2 ^ 20" "unat n \<le> 2 ^ 20" using n True by (simp_all add: word_less_nat_alt)
      then have pg: "(i * PAGE_SIZE + PAGE_SIZE - 1) div PAGE_SIZE = i" using range_pages [OF True] by simp
      have "unat v + 4096 * unat i \<le> 2 ^ 32" using n True by (simp add: word_less_nat_alt)
      then obtain t where t: "vmm_unmap_range v (i * PAGE_SIZE) s = Some t" "vm_inv t" "vm_pmm t = vm_pmm s"
        "space t = (\<lambda>a. if in_range v i a then None else space s a)"
        using unmap_loop [OF inv v high, of i] by (auto simp: vmm_unmap_range_def Let_def pg)
      moreover have "low_free s < unat n - unat i" using full(2) by (simp add: low_free_def Suc)
      ultimately show ?thesis
        using full True s by (intro disjI2 exI [of _ t] exI [of _ i])
          (simp add: map_range_loop.simps [of i] fun_eq_iff)
    next
      case (mapped t)
      have sp': "space t = (\<lambda>a. if in_range v (i + 1) a then Some (p + (a - v)) else sp a)"
      proof
        fix a
        show "space t a = (if in_range v (i + 1) a then Some (p + (a - v)) else sp a)"
          using mapped(3) s page_shift_iff [OF v True n, of a] in_range_inc [OF True, of v a]
            linear_page [OF _ page_shift(2) [OF v True n] page_shift(2) [OF p True np], of a]
            page_of_aligned [OF page_shift(2) [OF v True n]]
          by auto
      qed
      have rm': "room_for (unat n - unat (i + 1)) t"
        using room_for_step [OF _ mapped(4,5)] room unfolding Suc by blast
      note IH = "1.IH" [OF True refl refl mapped(1) refl _ mapped(2) v p high n np rm' inc_le_of_less [OF True] sp']
      have "low_free s < unat n - unat i" if "low_free t < unat n - unat (i + 1)"
        using that mapped(5) Suc by simp
      with IH show ?thesis
        using mapped(1,4) True by (auto simp: map_range_loop.simps [of i])
    qed
  qed
qed

section \<open>Fresh pages\<close>

lemma vm_inv_alloc:
  assumes inv: "vm_inv s" and al: "pmm_alloc_page (vm_pmm s) = (a, q)" and nz: "a \<noteq> 0"
  shows "vm_inv (s\<lparr>vm_pmm := q\<rparr>)" and "a \<in> free_now s" and "free_frames q = free_now s - {a}"
    and "a \<in> managed_frames q" and "a AND 0xFFF = 0" and "managed_frames q = managed_frames (vm_pmm s)"
    and "a \<notin> dir_pages (vm_memory s) (current_pd_phys s)"
proof -
  note t = fa.alloc_some [OF vm_invD(1) [OF inv] al nz] and m = fa.alloc_managed [OF vm_invD(1) [OF inv] al nz]
  show "a \<in> free_now s" "free_frames q = free_now s - {a}" "a \<in> managed_frames q" "a AND 0xFFF = 0"
    "managed_frames q = managed_frames (vm_pmm s)"
    using t m by auto
  then show "a \<notin> dir_pages (vm_memory s) (current_pd_phys s)"
    using tables_okD(2) [OF vm_invD(2) [OF inv]] by blast
  show "vm_inv (s\<lparr>vm_pmm := q\<rparr>)"
    using inv t by (auto simp: vm_inv_def tables_ok_def)
qed

lemma vm_inv_release:
  assumes inv: "vm_inv s" and f: "f \<in> managed_frames (vm_pmm s)" "f \<notin> free_now s"
    and d: "f \<notin> dir_pages (vm_memory s) (current_pd_phys s)"
  shows "vm_inv (release_page f s)" and "free_now (release_page f s) = insert f (free_now s)"
    and "space (release_page f s) = space s"
proof -
  note r = fa.release_ok [OF vm_invD(1) [OF inv] f]
  have "f \<noteq> 0" using fa.managed_nonzero [OF vm_invD(1) [OF inv]] f(1) by metis
  then have "tables_ok (vm_memory s) (current_pd_phys s) (insert f (free_now s))"
    using vm_invD(2) [OF inv] d by (auto simp: tables_ok_def dir_pages_def)
  then show "vm_inv (release_page f s)" "free_now (release_page f s) = insert f (free_now s)"
    "space (release_page f s) = space s"
    using inv r by (simp_all add: vm_inv_def release_page_def space_def)
qed

text \<open>Zeroing a page through its mapping, as the last step of an allocation.\<close>

lemma zero_mapped:
  assumes inv: "vm_inv s" and v: "v AND 0xFFF = 0" and f: "f AND 0xFFF = 0"
    and map: "\<And>a. page_of a = v \<Longrightarrow> space s a = Some (f OR VADDR_OFFSET a)"
    and fresh: "f \<notin> dir_pages (vm_memory s) (current_pd_phys s)"
  obtains t where "zero_page v s = Some t" "vm_inv t" "space t = space s" "vm_pmm t = vm_pmm s"
    "\<forall>i < 1024. load32 t (entry v i) = Some 0"
    "dir_pages (vm_memory t) (current_pd_phys t) = dir_pages (vm_memory s) (current_pd_phys s)"
proof -
  have mp: "space s (entry v i) = Some (entry f i)" if "i < 1024" for i
    using map [of "entry v i"] entry_parts(1) [OF v that] entry_through [OF v f that] by simp
  obtain m where z: "zero_page v s = Some (s\<lparr>vm_memory := m\<rparr>)" "\<And>i. i < 1024 \<Longrightarrow> m (entry f i) = 0"
    "\<And>g. g AND 0xFFF = 0 \<Longrightarrow> g \<noteq> f \<Longrightarrow> page_eq (vm_memory s) m g"
    using zero_page_spec [OF inv v f mp fresh] by blast
  note ok = vm_invD(2) [OF inv]
  have eq: "page_eq (vm_memory s) m g" if "g \<in> dir_pages (vm_memory s) (current_pd_phys s)" for g
    using z(3) [of g] tables_okD(2) [OF ok that] that fresh by (auto simp: page_ok_def)
  note ok' = tables_ok_page_eq [OF ok eq]
  have sp: "space (s\<lparr>vm_memory := m\<rparr>) = space s"
    by (simp add: space_def walk_page_eq [OF eq] fun_eq_iff)
  have inv': "vm_inv (s\<lparr>vm_memory := m\<rparr>)" using inv ok'(1) by (simp add: vm_inv_def)
  have "load32 (s\<lparr>vm_memory := m\<rparr>) (entry v i) = Some 0" if "i < 1024" for i
    using vm_invD(3) [OF inv'] mp [OF that] z(2) [OF that] by (simp add: load32_def sp)
  then show thesis by (intro that [OF z(1) inv' sp]) (simp_all add: ok'(2))
qed

lemma low_free_alloc:
  assumes "free_frames q = free_now s - {a}" and "a \<in> free_now s"
  shows "low_free s \<le> Suc (low_free (s\<lparr>vm_pmm := q\<rparr>))"
proof -
  let ?L = "{f \<in> free_now s. f < 0x400000}"
  have "{f \<in> free_frames q. f < 0x400000} = ?L - {a}" using assms by auto
  moreover have "card ?L \<le> Suc (card (?L - {a}))"
    using card_Diff1_le [of ?L a] by (cases "a \<in> ?L") (simp_all add: card_Suc_Diff1)
  ultimately show ?thesis by (simp add: low_free_def)
qed

lemma vmm_alloc_page_cases:
  assumes inv: "vm_inv s" and v: "v AND 0xFFF = 0" and high: "0x400000 \<le> v" and room: "room_for 2 s"
  obtains (full) t where "vmm_alloc_page v flags s = Some (False, t)" "vm_inv t" "space t = space s"
      "free_now t = free_now s" "card (free_now s) \<le> 1"
  | (fresh) f t where "vmm_alloc_page v flags s = Some (True, t)" "vm_inv t" "f \<in> free_now s"
      "f \<notin> free_now t" "free_now t \<subseteq> free_now s" "f \<in> managed_frames (vm_pmm t)" "f AND 0xFFF = 0"
      "f \<notin> dir_pages (vm_memory t) (current_pd_phys t)"
      "space t = (\<lambda>a. if page_of a = v then Some (f OR VADDR_OFFSET a) else space s a)"
      "\<forall>i < 1024. load32 t (entry v i) = Some 0"
      "has_table (vm_memory s) (current_pd_phys s) (VADDR_PD_INDEX v) \<Longrightarrow> free_now t = free_now s - {f}"
proof -
  obtain a q where al: "pmm_alloc_page (vm_pmm s) = (a, q)" by (cases "pmm_alloc_page (vm_pmm s)")
  show thesis
  proof (cases "a = 0")
    case True
    then have "q = vm_pmm s" "free_now s = {}"
      using fa.alloc_none [OF vm_invD(1) [OF inv]] al by auto
    then show thesis using True al inv by (intro full) (simp_all add: vmm_alloc_page_def)
  next
    case nz: False
    note a = vm_inv_alloc [OF inv al nz]
    let ?s = "s\<lparr>vm_pmm := q\<rparr>"
    have lf: "low_free s \<le> Suc (low_free ?s)" by (rule low_free_alloc [OF a(3,2)])
    have "room_for (Suc 1) s" using room by (simp add: numeral_2_eq_2)
    moreover have "free_now ?s \<subseteq> free_now s" using a(3) by auto
    ultimately have "room_for (Suc 0) ?s" using room_for_step lf by auto
    then have rm: "0 < low_free ?s \<or> free_now ?s = {}" by (rule room_forD [OF a(1)])
    have hi: "0x400000 \<le> v \<or> page_of a = page_of v" using high by simp
    from a(1) table_roomI [OF rm] hi show thesis
    proof (cases rule: vmm_map_page_cases [where flags = flags])
      case full
      have "a \<in> managed_frames (vm_pmm ?s)" "a \<notin> free_now ?s" using a(3,4) by simp_all
      note r = vm_inv_release [OF a(1) this]
      have "free_now s = {a}" using full(2) a(2,3) by auto
      moreover have "vmm_alloc_page v flags s = Some (False, release_page a ?s)"
        using full(1) al nz by (simp add: vmm_alloc_page_def)
      moreover have "a \<notin> dir_pages (vm_memory ?s) (current_pd_phys ?s)" using a(7) by simp
      ultimately show thesis
        using r a(3) full(2) by (intro that(1) [of "release_page a ?s"]) (simp_all add: space_def)
    next
      case (mapped t)
      have d: "a \<notin> dir_pages (vm_memory t) (current_pd_phys t)"
        using mapped(8) a(3,7) by auto
      have sp: "space t x = Some (a OR VADDR_OFFSET x)" if "page_of x = v" for x
        using that mapped(3) page_of_aligned [OF v] page_of_aligned [OF a(5)] by simp
      from mapped(2) v a(5) sp d obtain u where u: "zero_page v t = Some u" "vm_inv u" "space u = space t"
        "vm_pmm u = vm_pmm t" "\<forall>i < 1024. load32 u (entry v i) = Some 0"
        "dir_pages (vm_memory u) (current_pd_phys u) = dir_pages (vm_memory t) (current_pd_phys t)"
        by (rule zero_mapped)
      have mg: "managed_frames (vm_pmm t) = managed_frames q"
        using mapped(6) by (simp add: keeps_pages_def)
      show thesis
      proof (rule that(2) [OF _ u(2) a(2)])
        show "vmm_alloc_page v flags s = Some (True, u)"
          using al nz mapped(1) u(1) by (simp add: vmm_alloc_page_def)
        show "space u = (\<lambda>x. if page_of x = v then Some (a OR VADDR_OFFSET x) else space s x)"
          unfolding u(3) mapped(3) using page_of_aligned [OF v] page_of_aligned [OF a(5)]
          by (simp add: fun_eq_iff space_def)
        show "free_now u = free_now s - {a}"
          if "has_table (vm_memory s) (current_pd_phys s) (VADDR_PD_INDEX v)"
          using that mapped(7) a(3) by (simp add: u(4))
      qed (use u d mapped(4) a mg in auto)
    qed
  qed
qed

lemma vmm_free_page_spec:
  assumes inv: "vm_inv s" and v: "v AND 0xFFF = 0" and high: "0x400000 \<le> v"
    and f: "space s v = Some f" "f \<in> managed_frames (vm_pmm s)" "f \<notin> free_now s"
      "f \<notin> dir_pages (vm_memory s) (current_pd_phys s)"
  shows "\<exists>t. vmm_free_page v s = Some t \<and> vm_inv t \<and> free_now t = insert f (free_now s) \<and>
           space t = (\<lambda>a. if page_of a = v then None else space s a)"
proof -
  obtain t where t: "vmm_unmap_page v s = Some t" "vm_inv t"
    "space t = (\<lambda>a. if page_of a = page_of v then None else space s a)" "vm_pmm t = vm_pmm s"
    "dir_pages (vm_memory t) (current_pd_phys t) = dir_pages (vm_memory s) (current_pd_phys s)"
    using inv high by (rule vmm_unmap_page_spec)
  have "f \<noteq> 0" using fa.managed_nonzero [OF vm_invD(1) [OF inv]] f(2) by metis
  then have "vmm_free_page v s = Some (release_page f t)"
    using t(1) f(1) vmm_get_physical_spec(1) [OF inv, of v] by (simp add: vmm_free_page_def)
  then show ?thesis
    using vm_inv_release [OF t(2), of f] f t(3,4,5) by (simp add: page_of_aligned [OF v])
qed

section \<open>Building directories\<close>

text \<open>A loop that fills the entries \<open>a .. n-1\<close> of the page \<open>p\<close>; its body may read other pages.\<close>

lemma fill_entries:
  assumes p: "p AND 0xFFF = 0" and n: "a \<le> n" "n \<le> 1024"
    and step: "\<And>i m. a \<le> i \<Longrightarrow> i < n \<Longrightarrow>
      (\<forall>g. g AND 0xFFF = 0 \<and> g \<noteq> p \<longrightarrow> page_eq (vm_memory s) m g) \<Longrightarrow>
      body i (s\<lparr>vm_memory := m\<rparr>) = Some (s\<lparr>vm_memory := m(entry p i := val i)\<rparr>)"
  obtains m where "for_try a n body s = Some (s\<lparr>vm_memory := m\<rparr>)"
    and "\<And>i. i < 1024 \<Longrightarrow> m (entry p i) = (if a \<le> i \<and> i < n then val i else vm_memory s (entry p i))"
    and "\<And>g. g AND 0xFFF = 0 \<Longrightarrow> g \<noteq> p \<Longrightarrow> page_eq (vm_memory s) m g"
proof -
  let ?P = "\<lambda>j t. \<exists>m. t = s\<lparr>vm_memory := m\<rparr> \<and>
      (\<forall>i < 1024. m (entry p i) = (if a \<le> i \<and> i < j then val i else vm_memory s (entry p i))) \<and>
      (\<forall>g. g AND 0xFFF = 0 \<and> g \<noteq> p \<longrightarrow> page_eq (vm_memory s) m g)"
  have "\<exists>t. for_try a n body s = Some t \<and> ?P (max a n) t"
  proof (rule for_try_rule)
    show "?P a s" by (intro exI [of _ "vm_memory s"]) auto
    fix j t assume j: "a \<le> j" "j < n" and "?P j t"
    then obtain m where t: "t = s\<lparr>vm_memory := m\<rparr>"
      and val: "\<forall>i < 1024. m (entry p i) = (if a \<le> i \<and> i < j then val i else vm_memory s (entry p i))"
      and eq: "\<forall>g. g AND 0xFFF = 0 \<and> g \<noteq> p \<longrightarrow> page_eq (vm_memory s) m g" by blast
    have j2: "j < 1024" using j(2) n(2) by simp
    have "?P (j + 1) (s\<lparr>vm_memory := m(entry p j := val j)\<rparr>)"
    proof (intro exI conjI allI impI)
      show "s\<lparr>vm_memory := m(entry p j := val j)\<rparr> = s\<lparr>vm_memory := m(entry p j := val j)\<rparr>" by simp
      show "(m(entry p j := val j)) (entry p i) = (if a \<le> i \<and> i < j + 1 then val i else vm_memory s (entry p i))"
        if "i < 1024" for i
        using that val less_inc_iff [OF j(2), of i] p j j2 by (auto simp: entry_inject le_less)
      show "page_eq (vm_memory s) (m(entry p j := val j)) g" if "g AND 0xFFF = 0 \<and> g \<noteq> p" for g
        using that eq p j2 by (intro page_eq_trans [OF _ page_eq_write]) auto
    qed
    then show "\<exists>u. body j t = Some u \<and> ?P (j + 1) u"
      using step [OF j eq] unfolding t by blast
  qed
  then obtain m where "for_try a n body s = Some (s\<lparr>vm_memory := m\<rparr>)"
    "\<forall>i < 1024. m (entry p i) = (if a \<le> i \<and> i < n then val i else vm_memory s (entry p i))"
    "\<forall>g. g AND 0xFFF = 0 \<and> g \<noteq> p \<longrightarrow> page_eq (vm_memory s) m g"
    using n(1) by (auto simp: max_def)
  then show thesis by (intro that) auto
qed

text \<open>Access below 4 MB while a page outside the directory is being written.\<close>

lemma low_access:
  assumes inv: "vm_inv s" and fresh: "f \<notin> dir_pages (vm_memory s) (current_pd_phys s)"
    and eq: "\<forall>g. g AND 0xFFF = 0 \<and> g \<noteq> f \<longrightarrow> page_eq (vm_memory s) m g" and a: "a < 0x400000"
  shows "store32 a v (s\<lparr>vm_memory := m\<rparr>) = Some (s\<lparr>vm_memory := m(a := v)\<rparr>)"
    and "load32 (s\<lparr>vm_memory := m\<rparr>) a = Some (m a)"
    and "walk m (current_pd_phys s) = space s"
    and "tables_ok m (current_pd_phys s) (free_now s)"
proof -
  note ok = vm_invD(2) [OF inv]
  have eq': "page_eq (vm_memory s) m g" if "g \<in> dir_pages (vm_memory s) (current_pd_phys s)" for g
    using eq tables_okD(2) [OF ok that] that fresh by (auto simp: page_ok_def)
  show w: "walk m (current_pd_phys s) = space s"
    by (simp add: fun_eq_iff space_def walk_page_eq [OF eq'])
  show "tables_ok m (current_pd_phys s) (free_now s)" by (rule tables_ok_page_eq(1) [OF ok eq'])
  have "translate (s\<lparr>vm_memory := m\<rparr>) a = Some a"
    using inv a vm_invD(4) [OF inv a] by (simp add: translate_def vm_inv_def w)
  then show "store32 a v (s\<lparr>vm_memory := m\<rparr>) = Some (s\<lparr>vm_memory := m(a := v)\<rparr>)"
    and "load32 (s\<lparr>vm_memory := m\<rparr>) a = Some (m a)"
    by (simp_all add: store32_def load32_def)
qed

text \<open>The kernel's own directory, from which every other one is copied.\<close>

definition kernel_ok :: "vmm \<Rightarrow> bool" where
  "kernel_ok s \<longleftrightarrow> tables_ok (vm_memory s) (kernel_page_directory s) (free_now s)"

text \<open>The writes of \<open>vmm_create_page_directory\<close> to the new page \<open>f\<close>.\<close>

lemma create_fill:
  assumes inv: "vm_inv s" and f: "page_ok f" "f \<notin> dir_pages (vm_memory s) (current_pd_phys s)"
    and k: "page_ok (kernel_page_directory s)" "f \<noteq> kernel_page_directory s"
  obtains m where
    "(do {
        s1 \<leftarrow> for_try 0 768 (\<lambda>i. store32 (entry f i) 0) s;
        s2 \<leftarrow> for_try 768 PAGE_ENTRIES
                (\<lambda>i t. do {
                   e \<leftarrow> load32 t (entry (kernel_page_directory t) i);
                   store32 (entry f i) e t
                 }) s1;
        e \<leftarrow> load32 s2 (entry (kernel_page_directory s2) 0);
        s3 \<leftarrow> store32 (entry f 0) e s2;
        Some (f, s3)
      }) = Some (f, s\<lparr>vm_memory := m\<rparr>)"
    "\<And>i. i < 1024 \<Longrightarrow> pde m f i = (if i = 0 \<or> 768 \<le> i then pde (vm_memory s) (kernel_page_directory s) i else 0)"
    "\<And>g. g AND 0xFFF = 0 \<Longrightarrow> g \<noteq> f \<Longrightarrow> page_eq (vm_memory s) m g"
proof -
  let ?m0 = "vm_memory s" and ?k = "kernel_page_directory s"
  have fo: "f AND 0xFFF = 0" "?k AND 0xFFF = 0" using f(1) k(1) by (simp_all add: page_ok_def)
  note la = low_access [OF inv f(2)]
  have lt: "i < 768 \<Longrightarrow> i < 1024" for i :: u32 by (erule less_trans) simp
  have st: "store32 (entry f i) e (s\<lparr>vm_memory := m\<rparr>) = Some (s\<lparr>vm_memory := m(entry f i := e)\<rparr>)"
    and ld: "load32 (s\<lparr>vm_memory := m\<rparr>) (entry ?k i) = Some (?m0 (entry ?k i))"
    if "\<forall>g. g AND 0xFFF = 0 \<and> g \<noteq> f \<longrightarrow> page_eq ?m0 m g" "i < 1024" for m i e
  proof -
    show "store32 (entry f i) e (s\<lparr>vm_memory := m\<rparr>) = Some (s\<lparr>vm_memory := m(entry f i := e)\<rparr>)"
      by (rule la(1) [OF that(1) entry_low [OF f(1) that(2)]])
    have "m (entry ?k i) = ?m0 (entry ?k i)"
      using that fo(2) k(2) by (auto simp: page_eq_def)
    then show "load32 (s\<lparr>vm_memory := m\<rparr>) (entry ?k i) = Some (?m0 (entry ?k i))"
      using la(2) [OF that(1) entry_low [OF k(1) that(2)]] by simp
  qed
  obtain m1 where m1: "for_try 0 768 (\<lambda>i. store32 (entry f i) 0) s = Some (s\<lparr>vm_memory := m1\<rparr>)"
    "\<And>i. i < 1024 \<Longrightarrow> m1 (entry f i) = (if 0 \<le> i \<and> i < 768 then 0 else ?m0 (entry f i))"
    "\<And>g. g AND 0xFFF = 0 \<Longrightarrow> g \<noteq> f \<Longrightarrow> page_eq ?m0 m1 g"
    by (rule fill_entries [OF fo(1), of 0 768 s "\<lambda>i. store32 (entry f i) 0" "\<lambda>_. 0"])
      (use st lt in auto)
  define s1 where "s1 = s\<lparr>vm_memory := m1\<rparr>"
  define copy where "copy = (\<lambda>i t. do {
      e \<leftarrow> load32 t (entry (kernel_page_directory t) i);
      store32 (entry f i) e t
    })"
  obtain m2 where m2: "for_try 768 1024 copy s1 = Some (s1\<lparr>vm_memory := m2\<rparr>)"
    "\<And>i. i < 1024 \<Longrightarrow> m2 (entry f i) = (if 768 \<le> i \<and> i < 1024 then ?m0 (entry ?k i) else vm_memory s1 (entry f i))"
    "\<And>g. g AND 0xFFF = 0 \<Longrightarrow> g \<noteq> f \<Longrightarrow> page_eq (vm_memory s1) m2 g"
  proof (rule fill_entries [OF fo(1), of 768 1024 s1 copy "\<lambda>i. ?m0 (entry ?k i)"])
    fix i m assume i: "768 \<le> i" "i < (1024 :: u32)"
      and eq: "\<forall>g. g AND 0xFFF = 0 \<and> g \<noteq> f \<longrightarrow> page_eq (vm_memory s1) m g"
    have "\<forall>g. g AND 0xFFF = 0 \<and> g \<noteq> f \<longrightarrow> page_eq ?m0 m g"
      using m1(3) eq by (auto simp: s1_def intro: page_eq_trans)
    from st [OF this i(2)] ld [OF this i(2)]
    show "copy i (s1\<lparr>vm_memory := m\<rparr>) = Some (s1\<lparr>vm_memory := m(entry f i := ?m0 (entry ?k i))\<rparr>)"
      by (simp add: copy_def s1_def)
  qed simp_all
  have eq2: "\<forall>g. g AND 0xFFF = 0 \<and> g \<noteq> f \<longrightarrow> page_eq ?m0 m2 g"
    using m1(3) m2(3) by (auto simp: s1_def intro: page_eq_trans)
  let ?m3 = "m2(entry f 0 := ?m0 (entry ?k 0))"
  show thesis
  proof (rule that [of ?m3])
    show "(do {
        s1 \<leftarrow> for_try 0 768 (\<lambda>i. store32 (entry f i) 0) s;
        s2 \<leftarrow> for_try 768 PAGE_ENTRIES
                (\<lambda>i t. do {
                   e \<leftarrow> load32 t (entry (kernel_page_directory t) i);
                   store32 (entry f i) e t
                 }) s1;
        e \<leftarrow> load32 s2 (entry (kernel_page_directory s2) 0);
        s3 \<leftarrow> store32 (entry f 0) e s2;
        Some (f, s3)
      }) = Some (f, s\<lparr>vm_memory := ?m3\<rparr>)"
      using m1(1) m2(1) st [OF eq2, of 0 "?m0 (entry ?k 0)"] ld [OF eq2, of 0]
      by (simp add: copy_def s1_def PAGE_ENTRIES_def)
    show "pde ?m3 f i = (if i = 0 \<or> 768 \<le> i then pde ?m0 ?k i else 0)" if "i < 1024" for i
      using that m1(2) m2(2) fo(1) by (auto simp: pde_def s1_def entry_inject not_le)
    show "page_eq ?m0 ?m3 g" if "g AND 0xFFF = 0" "g \<noteq> f" for g
      using that eq2 fo(1) by (intro page_eq_trans [OF _ page_eq_write]) auto
  qed
qed

text \<open>The directory so filled: the kernel's entry 0 and upper quarter, and nothing else.\<close>

lemma copied_directory:
  assumes K: "tables_ok m0 k fs" and f: "f \<in> fs" "page_ok f" "f \<noteq> k"
    and val: "\<And>i. i < 1024 \<Longrightarrow> pde m f i = (if i = 0 \<or> 768 \<le> i then pde m0 k i else 0)"
    and eq: "\<And>g. g AND 0xFFF = 0 \<Longrightarrow> g \<noteq> f \<Longrightarrow> page_eq m0 m g"
  shows "tables_ok m k fs" and "walk m k = walk m0 k"
    and "walk m f a = (if VADDR_PD_INDEX a = 0 \<or> 768 \<le> VADDR_PD_INDEX a then walk m0 k a else None)"
    and "tables_ok m f (fs - {f})" and "pde m f 0 = pde m k 0"
    and "i < 1024 \<Longrightarrow> pde m f i = (if i = 0 \<or> 768 \<le> i then pde m k i else 0)"
    and "dir_pages m k = dir_pages m0 k"
proof -
  have eqk: "page_eq m0 m g" if "g \<in> dir_pages m0 k" for g
    using tables_okD(2) [OF K that] f(1) by (intro eq) (auto simp: page_ok_def)
  note dk = tables_ok_page_eq [OF K eqk]
  show "tables_ok m k fs" by (rule dk(1))
  show "dir_pages m k = dir_pages m0 k" by (rule dk(2))
  show wk: "walk m k = walk m0 k" by (simp add: fun_eq_iff walk_page_eq [OF eqk])
  have k0: "page_eq m0 m k" by (rule eqk) (simp add: dir_pages_def)
  let ?in = "\<lambda>i. i = 0 \<or> 768 \<le> i"
  have d: "has_table m f i \<longleftrightarrow> ?in i \<and> has_table m0 k i"
    "?in i \<Longrightarrow> table_of m f i = table_of m0 k i" if "i < 1024" for i
    using val [OF that] by (auto simp: has_table_def table_of_def)
  show w: "walk m f a = (if ?in (VADDR_PD_INDEX a) then walk m0 k a else None)" for a
  proof (cases "?in (VADDR_PD_INDEX a)")
    case True
    have "walk m f a = walk m k a"
      using d [OF index_less(1) [of a]] dir_eq [OF k0 index_less(1) [of a]] True by (simp add: walk_eq)
    then show ?thesis using True by (simp add: wk)
  qed (use d [OF index_less(1) [of a]] in \<open>simp add: walk_eq\<close>)
  have low: "walk m f a = Some a" if "a < 0x400000" for a
    using that K low_address [OF that] by (simp add: w tables_ok_def)
  have tab: "page_ok (table_of m f i) \<and> table_of m f i \<noteq> f \<and> table_of m f i \<notin> fs - {f} \<and> table_of m f i \<noteq> 0"
    if "i < 1024" "has_table m f i" for i
    using that d [OF that(1)] K f(1) by (auto simp: tables_ok_def)
  have inj: "i = j" if "i < 1024" "j < 1024" "has_table m f i" "has_table m f j" "table_of m f i = table_of m f j" for i j
    using that d [OF that(1)] d [OF that(2)] K unfolding tables_ok_def by metis
  have "f \<noteq> 0" "0 \<notin> fs" using K f(1) by (auto simp: tables_ok_def)
  then show "tables_ok m f (fs - {f})"
    using low tab inj f(2) by (auto simp: tables_ok_def)
  show "pde m f 0 = pde m k 0" using val [of 0] k0 by (simp add: pde_def page_eq_def)
  show "i < 1024 \<Longrightarrow> pde m f i = (if i = 0 \<or> 768 \<le> i then pde m k i else 0)"
    using val [of i] k0 by (simp add: pde_def page_eq_def)
qed

lemma create_directory_spec:
  assumes inv: "vm_inv s" and ker: "kernel_ok s" and room: "0 < low_free s"
  obtains f t where "vmm_create_page_directory s = Some (f, t)" "f \<in> free_now s" "f \<noteq> 0"
    "vm_inv t" "kernel_ok t" "space t = space s" "free_now t = free_now s - {f}"
    "current_pd_phys t = current_pd_phys s" "kernel_page_directory t = kernel_page_directory s"
    "tables_ok (vm_memory t) f (free_now t)" "Suc (low_free t) = low_free s"
    "\<And>a. walk (vm_memory t) f a = (if VADDR_PD_INDEX a = 0 \<or> 768 \<le> VADDR_PD_INDEX a
        then walk (vm_memory s) (kernel_page_directory s) a else None)"
    "pde (vm_memory t) f 0 = pde (vm_memory t) (kernel_page_directory t) 0"
    "walk (vm_memory t) (kernel_page_directory t) = walk (vm_memory s) (kernel_page_directory s)"
    "managed_frames (vm_pmm t) = managed_frames (vm_pmm s)" "vm_cr3 t = vm_cr3 s"
    "\<And>i. i < 1024 \<Longrightarrow> pde (vm_memory t) f i =
       (if i = 0 \<or> 768 \<le> i then pde (vm_memory t) (kernel_page_directory t) i else 0)"
    "dir_pages (vm_memory t) (kernel_page_directory t) = dir_pages (vm_memory s) (kernel_page_directory s)"
proof -
  obtain f q where al: "pmm_alloc_page (vm_pmm s) = (f, q)" by (cases "pmm_alloc_page (vm_pmm s)")
  note a = alloc_low [OF vm_invD(1) [OF inv] room al]
  note b = vm_inv_alloc [OF inv al a(1)]
  let ?s = "s\<lparr>vm_pmm := q\<rparr>" and ?k = "kernel_page_directory s"
  note K = ker [unfolded kernel_ok_def]
  have kp: "page_ok ?k" "f \<noteq> ?k" using tables_okD(1) [OF K] K a(3) by (auto simp: tables_ok_def)
  have fd: "f \<notin> dir_pages (vm_memory ?s) (current_pd_phys ?s)" using b(7) by simp
  have kp': "page_ok (kernel_page_directory ?s)" "f \<noteq> kernel_page_directory ?s" using kp by simp_all
  obtain m where m: "(do {
        s1 \<leftarrow> for_try 0 768 (\<lambda>i. store32 (entry f i) 0) ?s;
        s2 \<leftarrow> for_try 768 PAGE_ENTRIES
                (\<lambda>i t. do {
                   e \<leftarrow> load32 t (entry (kernel_page_directory t) i);
                   store32 (entry f i) e t
                 }) s1;
        e \<leftarrow> load32 s2 (entry (kernel_page_directory s2) 0);
        s3 \<leftarrow> store32 (entry f 0) e s2;
        Some (f, s3)
      }) = Some (f, ?s\<lparr>vm_memory := m\<rparr>)"
    "\<And>i. i < 1024 \<Longrightarrow> pde m f i =
        (if i = 0 \<or> 768 \<le> i then pde (vm_memory ?s) (kernel_page_directory ?s) i else 0)"
    "\<And>g. g AND 0xFFF = 0 \<Longrightarrow> g \<noteq> f \<Longrightarrow> page_eq (vm_memory ?s) m g"
    by (rule create_fill [OF b(1) a(2) fd kp']) (rule that, assumption+)
  have val: "pde m f i = (if i = 0 \<or> 768 \<le> i then pde (vm_memory s) ?k i else 0)" if "i < 1024" for i
    using m(2) [OF that] by simp
  have eq0: "page_eq (vm_memory s) m g" if "g AND 0xFFF = 0" "g \<noteq> f" for g using m(3) [OF that] by simp
  let ?t = "?s\<lparr>vm_memory := m\<rparr>"
  have c: "vmm_create_page_directory s = Some (f, ?t)"
    using al a(1) m(1) unfolding vmm_create_page_directory_def Let_def by simp
  note cd = copied_directory [OF K a(3) a(2) kp(2) val eq0]
  have eq: "\<forall>g. g AND 0xFFF = 0 \<and> g \<noteq> f \<longrightarrow> page_eq (vm_memory ?s) m g" using m(3) by simp
  note la = low_access(3,4) [OF b(1) fd eq, where a = 0, simplified]
  show thesis
  proof (rule that [OF c a(3) a(1)])
    show "vm_inv ?t" using b(1) la(2) by (simp add: vm_inv_def)
    show "kernel_ok ?t" using cd(1) a(4) by (auto simp: kernel_ok_def tables_ok_def)
    show "space ?t = space s" using la(1) by (simp add: space_def)
    show "Suc (low_free ?t) = low_free s" using a(6) by (simp add: low_free_def)
  qed (use cd a b in simp_all)
qed

section \<open>Destroying directories\<close>

lemma pmm_free_page_any:
  assumes "pmm_inv p"
  shows "pmm_inv (pmm_free_page p a)" and "total_pages (pmm_free_page p a) = total_pages p"
    and "free_set p \<subseteq> free_set (pmm_free_page p a)"
    and "ADDR_TO_PFN a < total_pages p \<Longrightarrow> ADDR_TO_PFN a \<in> free_set (pmm_free_page p a)"
proof -
  let ?n = "ADDR_TO_PFN a"
  have "pmm_inv (pmm_free_page p a) \<and> total_pages (pmm_free_page p a) = total_pages p \<and>
      free_set p \<subseteq> free_set (pmm_free_page p a) \<and>
      (?n < total_pages p \<longrightarrow> ?n \<in> free_set (pmm_free_page p a))"
  proof (cases "?n < total_pages p \<and> bitmap_test p ?n")
    case True
    then have u: "?n \<in> used_set p" by (simp add: used_set_def)
    then show ?thesis
      using release_frame_spec [OF assms u] True by (simp add: pmm_free_page_def) blast
  next
    case False
    then show ?thesis using assms by (auto simp: pmm_free_page_def free_set_def Let_def)
  qed
  then show "pmm_inv (pmm_free_page p a)" "total_pages (pmm_free_page p a) = total_pages p"
    "free_set p \<subseteq> free_set (pmm_free_page p a)"
    "?n < total_pages p \<Longrightarrow> ?n \<in> free_set (pmm_free_page p a)" by blast+
qed

text \<open>Releases only: the allocator's invariant, its size and what is already free are kept.\<close>

definition releases :: "pmm \<Rightarrow> pmm \<Rightarrow> bool" where
  "releases p q \<longleftrightarrow> pmm_inv q \<and> total_pages q = total_pages p \<and> free_set p \<subseteq> free_set q"

lemma releases_free: "releases p q \<Longrightarrow> releases p (pmm_free_page q a)"
  using pmm_free_page_any [of q a] by (auto simp: releases_def)

definition all_free :: "(u32 \<Rightarrow> u32) \<Rightarrow> u32 \<Rightarrow> u32 \<Rightarrow> pmm \<Rightarrow> bool" where
  "all_free m f n q \<longleftrightarrow> (\<forall>j < n. m (entry f j) AND 1 \<noteq> 0 \<longrightarrow>
     ADDR_TO_PFN (page_of (m (entry f j))) < total_pages q \<longrightarrow>
     ADDR_TO_PFN (page_of (m (entry f j))) \<in> free_set q)"

lemma all_free_mono: "all_free m f n p \<Longrightarrow> releases p q \<Longrightarrow> all_free m f n q"
  unfolding all_free_def releases_def by (metis subsetD)

lemma load_pmm [simp]: "load32 (s\<lparr>vm_pmm := p\<rparr>) a = load32 s a"
  by (simp add: load32_def translate_def)

lemma destroy_loop:
  assumes inv: "vm_inv s" and f: "page_ok f" and p: "pmm_inv p"
  shows "\<exists>q. for_try 0 PAGE_ENTRIES
      (\<lambda>j t. do {
         pte \<leftarrow> load32 t (entry f j);
         Some (if pte AND PTE_PRESENT \<noteq> 0 then release_page (pte AND PTE_FRAME_MASK) t else t)
       }) (s\<lparr>vm_pmm := p\<rparr>) = Some (s\<lparr>vm_pmm := q\<rparr>) \<and> releases p q \<and> all_free (vm_memory s) f 1024 q"
proof -
  let ?body = "\<lambda>j t. do {
         pte \<leftarrow> load32 t (entry f j);
         Some (if pte AND PTE_PRESENT \<noteq> 0 then release_page (pte AND PTE_FRAME_MASK) t else t)
       }"
  let ?P = "\<lambda>j t. \<exists>q. t = s\<lparr>vm_pmm := q\<rparr> \<and> releases p q \<and> all_free (vm_memory s) f j q"
  have "\<exists>t. for_try 0 1024 ?body (s\<lparr>vm_pmm := p\<rparr>) = Some t \<and> ?P (max 0 1024) t"
  proof (rule for_try_rule)
    show "?P 0 (s\<lparr>vm_pmm := p\<rparr>)"
      using p by (intro exI [of _ p]) (simp add: releases_def all_free_def)
    fix j t assume j: "0 \<le> j" "j < (1024 :: u32)" and "?P j t"
    then obtain q where t: "t = s\<lparr>vm_pmm := q\<rparr>" and q: "releases p q" "all_free (vm_memory s) f j q" by blast
    let ?e = "vm_memory s (entry f j)"
    define q' where "q' = (if ?e AND 1 \<noteq> 0 then pmm_free_page q (page_of ?e) else q)"
    have q': "releases p q'" "releases q q'"
      using q(1) releases_free [of q q] releases_free [of p q] by (auto simp: q'_def releases_def)
    have "all_free (vm_memory s) f (j + 1) q'"
      unfolding all_free_def
    proof (intro allI impI)
      fix i assume i: "i < j + 1" "vm_memory s (entry f i) AND 1 \<noteq> 0"
        "ADDR_TO_PFN (page_of (vm_memory s (entry f i))) < total_pages q'"
      show "ADDR_TO_PFN (page_of (vm_memory s (entry f i))) \<in> free_set q'"
      proof (cases "i = j")
        case True
        then show ?thesis
          using i q(1) pmm_free_page_any(2,4) [of q "page_of ?e"] by (simp add: q'_def releases_def)
      next
        case False
        then have "i < j" using i(1) less_inc_iff [OF j(2), of i] by (simp add: le_less)
        then show ?thesis
          using all_free_mono [OF q(2) q'(2)] i by (simp add: all_free_def)
      qed
    qed
    moreover have "?body j t = Some (s\<lparr>vm_pmm := q'\<rparr>)"
      using load_low [OF inv entry_low [OF f j(2)]]
      by (simp add: t q'_def release_page_def page_of_def word_norm)
    ultimately show "\<exists>u. ?body j t = Some u \<and> ?P (j + 1) u" using q'(1) by blast
  qed
  then show ?thesis by (auto simp: PAGE_ENTRIES_def max_def)
qed

lemma destroy_table_spec:
  assumes inv: "vm_inv s" and pd: "tables_ok (vm_memory s) pd {}" and i: "i < 1024" and p: "pmm_inv p"
  shows "\<exists>q. destroy_table pd i (s\<lparr>vm_pmm := p\<rparr>) = Some (s\<lparr>vm_pmm := q\<rparr>) \<and> releases p q \<and>
           (has_table (vm_memory s) pd i \<longrightarrow> all_free (vm_memory s) (table_of (vm_memory s) pd i) 1024 q)"
proof -
  let ?m = "vm_memory s" and ?f = "table_of (vm_memory s) pd i"
  have ld: "load32 s (entry pd i) = Some (pde ?m pd i)"
    using load_low [OF inv entry_low [OF tables_okD(1) [OF pd] i]] by (simp add: pde_def)
  show ?thesis
  proof (cases "has_table ?m pd i")
    case True
    then have f: "page_ok ?f" using pd i by (simp add: tables_ok_def)
    obtain q where q: "for_try 0 PAGE_ENTRIES
      (\<lambda>j t. do {
         pte \<leftarrow> load32 t (entry ?f j);
         Some (if pte AND PTE_PRESENT \<noteq> 0 then release_page (pte AND PTE_FRAME_MASK) t else t)
       }) (s\<lparr>vm_pmm := p\<rparr>) = Some (s\<lparr>vm_pmm := q\<rparr>)" "releases p q" "all_free ?m ?f 1024 q"
      using destroy_loop [OF inv f p] by blast
    let ?q = "pmm_free_page q ?f"
    have "releases q ?q" using q(2) releases_free [of q q] by (simp add: releases_def)
    then have "all_free ?m ?f 1024 ?q" by (rule all_free_mono [OF q(3)])
    moreover have "destroy_table pd i (s\<lparr>vm_pmm := p\<rparr>) = Some (s\<lparr>vm_pmm := ?q\<rparr>)"
    proof -
      have "pde ?m pd i AND PTE_FRAME_MASK = ?f" "pde ?m pd i AND PTE_PRESENT \<noteq> 0"
        using True by (simp_all add: table_of_def has_table_def PTE_FRAME_MASK_def PTE_PRESENT_def)
      then show ?thesis
        using ld q(1) unfolding destroy_table_def by (simp add: release_page_def)
    qed
    ultimately show ?thesis using releases_free [OF q(2)] by blast
  next
    case False
    then have "destroy_table pd i (s\<lparr>vm_pmm := p\<rparr>) = Some (s\<lparr>vm_pmm := p\<rparr>)"
      using ld by (simp add: destroy_table_def has_table_def PTE_PRESENT_def)
    then show ?thesis using False p by (auto simp: releases_def)
  qed
qed

lemma destroy_spec:
  assumes inv: "vm_inv s" and pd: "tables_ok (vm_memory s) pd {}" and nk: "pd \<noteq> kernel_page_directory s"
  shows "\<exists>q. vmm_destroy_page_directory pd s = Some (s\<lparr>vm_pmm := q\<rparr>) \<and> releases (vm_pmm s) q \<and>
           (\<forall>i < 768. has_table (vm_memory s) pd i \<longrightarrow> all_free (vm_memory s) (table_of (vm_memory s) pd i) 1024 q)"
proof -
  let ?A = "\<lambda>i q. has_table (vm_memory s) pd i \<longrightarrow> all_free (vm_memory s) (table_of (vm_memory s) pd i) 1024 q"
  let ?P = "\<lambda>i t. \<exists>q. t = s\<lparr>vm_pmm := q\<rparr> \<and> releases (vm_pmm s) q \<and> (\<forall>k < i. ?A k q)"
  have p: "pmm_inv (vm_pmm s)" by (rule vm_invD(1) [OF inv])
  have "\<exists>t. for_try 0 768 (destroy_table pd) s = Some t \<and> ?P (max 0 768) t"
  proof (rule for_try_rule)
    show "?P 0 s" using p by (intro exI [of _ "vm_pmm s"]) (simp add: releases_def)
    fix i t assume i: "0 \<le> i" "i < (768 :: u32)" and "?P i t"
    then obtain q where t: "t = s\<lparr>vm_pmm := q\<rparr>" and q: "releases (vm_pmm s) q" "\<forall>k < i. ?A k q" by blast
    have "i < 1024" using i(2) by (rule less_trans) simp
    then obtain q' where q': "destroy_table pd i t = Some (s\<lparr>vm_pmm := q'\<rparr>)" "releases q q'" "?A i q'"
      using destroy_table_spec [OF inv pd, of i q] q(1) by (auto simp: releases_def t)
    have "releases (vm_pmm s) q'" using q(1) q'(2) by (auto simp: releases_def)
    moreover have "?A k q'" if "k < i + 1" for k
      using that less_inc_iff [OF i(2), of k] q(2) q'(2,3) all_free_mono by (auto simp: le_less)
    ultimately show "\<exists>u. destroy_table pd i t = Some u \<and> ?P (i + 1) u" using q'(1) by blast
  qed
  then obtain q where q: "for_try 0 768 (destroy_table pd) s = Some (s\<lparr>vm_pmm := q\<rparr>)"
    "releases (vm_pmm s) q" "\<forall>k < 768. ?A k q" by (auto simp: max_def)
  let ?q = "pmm_free_page q pd"
  have "pd \<noteq> 0" using pd by (simp add: tables_ok_def)
  then have "vmm_destroy_page_directory pd s = Some (s\<lparr>vm_pmm := ?q\<rparr>)"
    using nk q(1) by (simp add: vmm_destroy_page_directory_def release_page_def)
  moreover have "releases q ?q" using q(2) releases_free [of q q] by (simp add: releases_def)
  then have "\<forall>k < 768. ?A k ?q" using q(3) all_free_mono by blast
  ultimately show ?thesis using releases_free [OF q(2)] by blast
qed

text \<open>Entry 0 maps every page below 4 MB to itself.\<close>

lemma low_entry:
  assumes "tables_ok m pd fs" and "page_ok a"
  shows "has_table m pd 0" and "m (entry (table_of m pd 0) (VADDR_PT_INDEX a)) AND 1 \<noteq> 0"
    and "page_of (m (entry (table_of m pd 0) (VADDR_PT_INDEX a))) = a"
proof -
  have a: "a < 0x400000" "a AND 0xFFF = 0" using assms(2) by (simp_all add: page_ok_def)
  let ?e = "m (entry (table_of m pd 0) (VADDR_PT_INDEX a))"
  have w: "walk m pd a = Some a" using assms(1) a(1) by (simp add: tables_ok_def)
  then show h: "has_table m pd 0" and p: "?e AND 1 \<noteq> 0"
    using low_address [OF a(1)] by (auto simp: walk_eq Let_def split: if_splits)
  have "(?e AND 0xFFFFF000) OR VADDR_OFFSET a = a"
    using w h p low_address [OF a(1)] by (simp add: walk_eq)
  then show "page_of ?e = a" using a(2) by (simp add: page_of_def VADDR_OFFSET_def)
qed

section \<open>Start-up\<close>

text \<open>Before paging the tables are plain memory.\<close>

lemma store_unpaged: "\<not> vm_paging s \<Longrightarrow> store32 a v s = Some (s\<lparr>vm_memory := (vm_memory s)(a := v)\<rparr>)"
  by (simp add: store32_def translate_def)

definition boot_ok :: "vmm \<Rightarrow> bool" where
  "boot_ok s \<longleftrightarrow> \<not> vm_paging s \<and> pmm_inv (vm_pmm s) \<and>
     page_ok (kernel_page_directory s) \<and> page_ok (first_page_table s) \<and>
     kernel_page_directory s \<noteq> first_page_table s \<and>
     kernel_page_directory s \<noteq> 0 \<and> first_page_table s \<noteq> 0 \<and>
     kernel_page_directory s \<notin> free_now s \<and> first_page_table s \<notin> free_now s"

lemma identity_directory:
  assumes pages: "page_ok pd" "page_ok f" "pd \<noteq> f" "pd \<noteq> 0" "f \<noteq> 0" "pd \<notin> fs" "f \<notin> fs" "0 \<notin> fs"
    and dir: "\<And>i. i < 1024 \<Longrightarrow> m (entry pd i) = (if i = 0 then f OR 7 else 0)"
    and tab: "\<And>i. i < 1024 \<Longrightarrow> m (entry f i) = i * PAGE_SIZE OR 7"
  shows "walk m pd a = (if a < 0x400000 then Some a else None)" and "tables_ok m pd fs"
    and "i < 1024 \<Longrightarrow> has_table m pd i \<longleftrightarrow> i = 0"
proof -
  have f7: "(f OR 7) AND 1 = 1" "(f OR 7) AND 0xFFFFF000 = f"
    using present_or(2) page_of_or [of f 7] flags_bits(2) pages(2) by (simp_all add: page_ok_def)
  have d: "has_table m pd i \<longleftrightarrow> i = 0" "table_of m pd 0 = f" if "i < 1024" for i
    using dir [OF that] dir [of 0] f7 by (simp_all add: has_table_def table_of_def pde_def)
  show "i < 1024 \<Longrightarrow> has_table m pd i \<longleftrightarrow> i = 0" by (rule d(1))
  show w: "walk m pd a = (if a < 0x400000 then Some a else None)" for a
  proof (cases "a < 0x400000")
    case True
    have al: "page_of a AND 0xFFF = 0" by (simp add: aligned_bits bit_page_of)
    have "m (entry f (VADDR_PT_INDEX a)) = page_of a OR 7"
      using tab [OF index_less(2)] page_number [OF True] by simp
    moreover have "(page_of a OR 7) AND 0xFFFFF000 = page_of a"
      by (rule page_of_or [OF al flags_bits(2)])
    ultimately show ?thesis
      using True low_address [OF True] d [of 0] present_or(2) [of "page_of a"] split_address [of a]
      by (simp add: walk_eq)
  next
    case False
    then show ?thesis using d(1) [OF index_less(1) [of a]] by (simp add: walk_eq low_iff)
  qed
  show "tables_ok m pd fs"
    using pages d w by (auto simp: tables_ok_def)
qed

lemma vmm_init_spec:
  assumes b: "boot_ok s"
  shows "\<exists>t. vmm_init s = Some t \<and> vm_inv t \<and> kernel_ok t \<and> vm_pmm t = vm_pmm s \<and>
           current_pd_phys t = kernel_page_directory s \<and> kernel_page_directory t = kernel_page_directory s \<and>
           space t = (\<lambda>a. if a < 0x400000 then Some a else None) \<and>
           (\<forall>i < 1024. has_table (vm_memory t) (current_pd_phys t) i \<longleftrightarrow> i = 0)"
proof -
  let ?k = "kernel_page_directory s" and ?f = "first_page_table s"
  have np: "\<not> vm_paging s" using b by (simp add: boot_ok_def)
  have al: "?k AND 0xFFF = 0" "?f AND 0xFFF = 0" "?k \<noteq> ?f" using b by (simp_all add: boot_ok_def page_ok_def)
  have st: "store32 a v (s\<lparr>vm_memory := m\<rparr>) = Some (s\<lparr>vm_memory := m(a := v)\<rparr>)" for a v m
    using np by (simp add: store_unpaged)
  obtain m1 where m1: "for_try 0 1024 (\<lambda>i t. store32 (entry (kernel_page_directory t) i) 0 t) s = Some (s\<lparr>vm_memory := m1\<rparr>)"
    "\<And>i. i < 1024 \<Longrightarrow> m1 (entry ?k i) = (if 0 \<le> i \<and> i < 1024 then 0 else vm_memory s (entry ?k i))"
    "\<And>g. g AND 0xFFF = 0 \<Longrightarrow> g \<noteq> ?k \<Longrightarrow> page_eq (vm_memory s) m1 g"
    by (rule fill_entries [OF al(1), of 0 1024 s "\<lambda>i t. store32 (entry (kernel_page_directory t) i) 0 t"
        "\<lambda>_. 0"]) (simp_all add: st)
  define s1 where "s1 = s\<lparr>vm_memory := m1\<rparr>"
  obtain m2 where m2: "for_try 0 1024 (\<lambda>i t. store32 (entry (first_page_table t) i) 0 t) s1 = Some (s1\<lparr>vm_memory := m2\<rparr>)"
    "\<And>i. i < 1024 \<Longrightarrow> m2 (entry ?f i) = (if 0 \<le> i \<and> i < 1024 then 0 else vm_memory s1 (entry ?f i))"
    "\<And>g. g AND 0xFFF = 0 \<Longrightarrow> g \<noteq> ?f \<Longrightarrow> page_eq (vm_memory s1) m2 g"
    by (rule fill_entries [OF al(2), of 0 1024 s1 "\<lambda>i t. store32 (entry (first_page_table t) i) 0 t"
        "\<lambda>_. 0"]) (simp_all add: st s1_def)
  define s2 where "s2 = s1\<lparr>vm_memory := m2\<rparr>"
  obtain m3 where m3: "for_try 0 1024 (\<lambda>i t. let phys = i * PAGE_SIZE
      in store32 (entry (first_page_table t) i) (phys OR PTE_PRESENT OR PTE_WRITABLE OR PTE_USER) t) s2 =
      Some (s2\<lparr>vm_memory := m3\<rparr>)"
    "\<And>i. i < 1024 \<Longrightarrow> m3 (entry ?f i) = (if 0 \<le> i \<and> i < 1024 then i * PAGE_SIZE OR 7 else vm_memory s2 (entry ?f i))"
    "\<And>g. g AND 0xFFF = 0 \<Longrightarrow> g \<noteq> ?f \<Longrightarrow> page_eq (vm_memory s2) m3 g"
    by (rule fill_entries [OF al(2), of 0 1024 s2 "\<lambda>i t. let phys = i * PAGE_SIZE
        in store32 (entry (first_page_table t) i) (phys OR PTE_PRESENT OR PTE_WRITABLE OR PTE_USER) t"
        "\<lambda>i. i * PAGE_SIZE OR 7"])
      (simp_all add: st s1_def s2_def Let_def flags_seven)
  let ?m = "m3(entry ?k 0 := ?f OR 7)"
  let ?t = "s\<lparr>vm_memory := ?m, current_pd_phys := ?k, vm_cr3 := ?k, vm_paging := True\<rparr>"
  have init: "vmm_init s = Some ?t"
    using m1(1) m2(1) m3(1) st
    by (simp add: vmm_init_def s1_def s2_def PAGE_ENTRIES_def flags_seven load_page_directory_def
        enable_paging_def del: fun_upd_apply)
  have "page_eq m1 m3 ?k"
    using m2(3) [OF al(1,3)] m3(3) [OF al(1,3)] by (simp add: s1_def s2_def page_eq_def)
  then have dir: "?m (entry ?k i) = (if i = 0 then ?f OR 7 else 0)" if "i < 1024" for i
    using that m1(2) al(1) by (simp add: page_eq_def entry_inject)
  have tab: "?m (entry ?f i) = i * PAGE_SIZE OR 7" if "i < 1024" for i
    using that m3(2) al by (simp add: entry_inject)
  have fs: "0 \<notin> free_now s"
    using b fa.managed_nonzero fa.frames_managed by (auto simp: boot_ok_def)
  have id: "walk ?m ?k a = (if a < 0x400000 then Some a else None)" "tables_ok ?m ?k (free_now s)"
    "i < 1024 \<Longrightarrow> has_table ?m ?k i \<longleftrightarrow> i = 0" for a i
    using identity_directory [of ?k ?f "free_now s" ?m, OF _ _ _ _ _ _ _ fs dir tab] b
    by (simp_all add: boot_ok_def del: fun_upd_apply)
  have "space ?t = (\<lambda>a. if a < 0x400000 then Some a else None)"
    by (simp add: space_def id(1) fun_eq_iff del: fun_upd_apply)
  then show ?thesis
    using init id(2,3) b by (intro exI [of _ ?t]) (simp add: vm_inv_def kernel_ok_def boot_ok_def del: fun_upd_apply)
qed

section \<open>Properties\<close>

text \<open>A machine with the two free frames of \<open>sample_pmm\<close>, before and after \<open>vmm_init\<close>.\<close>

definition boot_vm :: vmm where
  "boot_vm = \<lparr>vm_memory = (\<lambda>_. 0), vm_pmm = sample_pmm, vm_cr3 = 0, vm_paging = False,
     current_pd_phys = 0, kernel_page_directory = 0x10000, first_page_table = 0x11000\<rparr>"

lemma sample_frames: "free_frames sample_pmm = {0x100000, 0x101000}"
proof -
  have "{p \<in> {256, 257}. 256 \<le> p} = {256, 257 :: u32}" by auto
  then show ?thesis
    unfolding free_frames_def sample_pmm_facts(3) by (simp add: PFN_TO_ADDR_def push_bit_eq_mult)
qed

lemma boot_vm_ok: "boot_ok boot_vm"
  using sample_pmm_facts(1) sample_frames by (simp add: boot_ok_def boot_vm_def page_ok_def)

text \<open>Start-up builds the tables, turns paging on and returns; from then on the first 4 MB are
  mapped to themselves and nothing else is mapped.\<close>

theorem vmm_init_identity:
  assumes "boot_ok s"
  shows "\<exists>t. vmm_init s = Some t \<and> vm_paging t \<and> vm_inv t \<and> kernel_ok t \<and> vm_pmm t = vm_pmm s \<and>
           current_pd_phys t = kernel_page_directory t \<and>
           (\<forall>a. translate t a = (if a < 0x400000 then Some a else None))"
  using vmm_init_spec [OF assms] vm_invD(3) by (auto simp: vm_inv_def)

theorem vmm_init_identity_witness:
  "\<exists>t. vmm_init boot_vm = Some t \<and> translate t 0x3FFFFF = Some 0x3FFFFF \<and> translate t 0x400000 = None"
  using vmm_init_identity [OF boot_vm_ok] by auto

lemma running_vm:
  obtains s where "vmm_init boot_vm = Some s" "vm_inv s" "kernel_ok s" "low_free s = 2"
    "free_now s = {0x100000, 0x101000}" "vm_pmm s = sample_pmm" "kernel_page_directory s = 0x10000"
    "current_pd_phys s = 0x10000" "space s = (\<lambda>a. if a < 0x400000 then Some a else None)"
proof -
  obtain s where s: "vmm_init boot_vm = Some s" "vm_inv s" "kernel_ok s" "vm_pmm s = sample_pmm"
    "kernel_page_directory s = 0x10000" "current_pd_phys s = 0x10000" "space s = (\<lambda>a. if a < 0x400000 then Some a else None)"
    using vmm_init_spec [OF boot_vm_ok] by (auto simp: boot_vm_def)
  have "{f \<in> {0x100000, 0x101000}. f < (0x400000 :: u32)} = {0x100000, 0x101000}" by auto
  then have "low_free s = card {0x100000, 0x101000 :: u32}"
    unfolding low_free_def s(4) sample_frames by simp
  then show thesis using s by (intro that [of s]) (simp_all add: sample_frames)
qed

lemma high_table_faults:
  assumes "vm_inv s" and "\<not> has_table (vm_memory s) (current_pd_phys s) (VADDR_PD_INDEX virt)"
    and "free_now s \<noteq> {}" and "\<forall>f \<in> free_now s. space s f = None"
  shows "vmm_map_page virt phys flags s = None"
proof -
  obtain a q where al: "pmm_alloc_page (vm_pmm s) = (a, q)" by (cases "pmm_alloc_page (vm_pmm s)")
  have nz: "a \<noteq> 0" using alloc_least [OF vm_invD(1) [OF assms(1)] al] assms(3) by blast
  note b = vm_inv_alloc [OF assms(1) al nz]
  let ?s = "s\<lparr>vm_pmm := q\<rparr>"
  have lo: "entry (current_pd_phys s) (VADDR_PD_INDEX virt) < 0x400000"
    using tables_okD(1) [OF vm_invD(2) [OF assms(1)]] by (rule entry_low) simp
  have "translate ?s a = None"
    using assms(4) b(2) vm_invD(3) [OF b(1)] by (simp add: space_def)
  then have "zero_page a ?s = None"
    by (simp add: zero_page_def for_try.simps [of 0] entry_def store32_def PAGE_SIZE_def)
  then have "get_page_table virt True s = None"
    using load_low [OF assms(1) lo] assms(2) al nz
    by (simp add: get_page_table_def Let_def has_table_def pde_def PTE_PRESENT_def)
  then show ?thesis by (simp add: vmm_map_page_def)
qed

text \<open>C5: \<open>vmm_map_page\<close> in each situation of the allocator, for a page at or above 4 MB (or an
  identity mapping) and with no free frame above 4 MB mapped anywhere: when the page table is
  there or a frame below 4 MB is free, it succeeds, the whole page translates to the given frame,
  every other address as before, and \<open>vmm_get_physical\<close> reports exactly this map; when the page
  table is missing and no frame at all is free, it returns false and changes nothing; when it is
  missing and every free frame lies at or above 4 MB, it faults.\<close>

theorem vmm_map_page_outcome:
  assumes "vm_inv s" and "\<forall>f \<in> free_now s. 0x400000 \<le> f \<longrightarrow> space s f = None"
    and "0x400000 \<le> virt \<or> page_of phys = page_of virt"
  defines "has \<equiv> has_table (vm_memory s) (current_pd_phys s) (VADDR_PD_INDEX virt)"
  shows "(has \<or> 0 < low_free s) \<and>
         (\<exists>t. vmm_map_page virt phys flags s = Some (True, t) \<and> vm_inv t \<and>
            space t = (\<lambda>a. if page_of a = page_of virt then Some (page_of phys OR VADDR_OFFSET a) else space s a) \<and>
            (\<forall>a. vmm_get_physical a t = Some (case space t a of None \<Rightarrow> 0 | Some p \<Rightarrow> p))) \<or>
         \<not> has \<and> free_now s = {} \<and> vmm_map_page virt phys flags s = Some (False, s) \<or>
         \<not> has \<and> free_now s \<noteq> {} \<and> low_free s = 0 \<and> vmm_map_page virt phys flags s = None"
proof (cases "table_room virt s")
  case True
  from assms(1) True assms(3) show ?thesis
  proof (cases rule: vmm_map_page_cases [where flags = flags])
    case full
    then show ?thesis by (simp add: has_def)
  next
    case (mapped t)
    have "has \<or> 0 < low_free s"
    proof (rule ccontr)
      assume no: "\<not> (has \<or> 0 < low_free s)"
      then have fr: "free_now s = {}" using True by (simp add: table_room_def has_def)
      have lo: "entry (current_pd_phys s) (VADDR_PD_INDEX virt) < 0x400000"
        using tables_okD(1) [OF vm_invD(2) [OF assms(1)]] by (rule entry_low) simp
      have "fst (pmm_alloc_page (vm_pmm s)) = 0"
        using fa.alloc_succeeds_iff [OF vm_invD(1) [OF assms(1)]] fr by blast
      then have "\<exists>p. get_page_table virt True s = Some (0, p)"
        using load_low [OF assms(1) lo] no
        by (auto simp: get_page_table_def Let_def has_table_def has_def pde_def PTE_PRESENT_def split: prod.split)
      then show False using mapped(1) by (auto simp: vmm_map_page_def)
    qed
    then show ?thesis using mapped vmm_get_physical_spec(1) by blast
  qed
next
  case False
  then have no: "\<not> has" "low_free s = 0" "free_now s \<noteq> {}" by (auto simp: table_room_def has_def)
  have fin: "finite {f \<in> free_now s. f < 0x400000}" by simp
  have "space s f = None" if "f \<in> free_now s" for f
  proof -
    have "f \<notin> {f \<in> free_now s. f < 0x400000}"
      using no(2) fin by (simp add: low_free_def)
    then show ?thesis using that assms(2) by (simp add: not_less)
  qed
  then show ?thesis
    using high_table_faults [OF assms(1)] no by (simp add: has_def)
qed

theorem vmm_map_page_outcome_witness:
  "\<exists>s t. vmm_init boot_vm = Some s \<and> vmm_map_page 0x800000 0x5000 7 s = Some (True, t) \<and>
     space t 0x800010 = Some 0x5010"
proof -
  obtain s where s: "vmm_init boot_vm = Some s" "vm_inv s" "low_free s = 2" "free_now s = {0x100000, 0x101000}"
    by (rule running_vm)
  then show ?thesis
    using vmm_map_page_outcome [OF s(2), of "0x800000" "0x5000" 7]
    by (auto simp: page_of_def VADDR_OFFSET_def)
qed

text \<open>Mapping a page-aligned range above 4 MB: either every page is mapped to its frame in
  order, or the frames for page tables ran out and the mappings already made are taken back (with
  whatever was mapped there before); no address outside the range changes.\<close>

theorem vmm_map_range_outcome:
  assumes "vm_inv s" and "v AND 0xFFF = 0" and "p AND 0xFFF = 0" and "0x400000 \<le> v"
    and "n = (sz + PAGE_SIZE - 1) div PAGE_SIZE"
    and "unat v + 4096 * unat n \<le> 2 ^ 32" and "unat p + 4096 * unat n \<le> 2 ^ 32"
    and "room_for (unat n) s"
  shows "(\<exists>t. vmm_map_range v p sz flags s = Some (True, t) \<and> vm_inv t \<and>
            space t = (\<lambda>a. if in_range v n a then Some (p + (a - v)) else space s a)) \<or>
         (\<exists>t j. vmm_map_range v p sz flags s = Some (False, t) \<and> vm_inv t \<and> free_now t = {} \<and>
            low_free s < unat n \<and> j < n \<and> space t = (\<lambda>a. if in_range v j a then None else space s a))"
  using map_range_loop_spec [OF assms(1-4,6,7), of 0 "space s" flags] assms(5,8)
  by (auto simp: vmm_map_range_def Let_def)

theorem vmm_map_range_outcome_witness:
  "\<exists>s t. vmm_init boot_vm = Some s \<and> vmm_map_range 0x800000 0x5000 0x1800 7 s = Some (True, t) \<and>
     space t 0x801004 = Some 0x6004 \<and> space t 0x802000 = None"
proof -
  obtain s where s: "vmm_init boot_vm = Some s" "vm_inv s" "low_free s = 2" "free_now s = {0x100000, 0x101000}"
    "space s = (\<lambda>a. if a < 0x400000 then Some a else None)"
    by (rule running_vm)
  then show ?thesis
    using vmm_map_range_outcome [OF s(2), of "0x800000" "0x5000" 2 "0x1800" 7]
    by (auto simp: PAGE_SIZE_def room_for_def in_range_def)
qed

text \<open>\<open>vmm_alloc_page\<close> either fails without losing a frame, or maps a frame of zeroes that
  was free at the page; \<open>vmm_free_page\<close> then unmaps the page and makes that frame free again, so
  that at most a new page table is gone.\<close>

theorem vmm_alloc_free_roundtrip:
  assumes "vm_inv s" and "v AND 0xFFF = 0" and "0x400000 \<le> v" and "room_for 2 s"
  shows "(\<exists>t. vmm_alloc_page v flags s = Some (False, t) \<and> card (free_now s) \<le> 1 \<and> vm_inv t \<and>
            free_now t = free_now s \<and> space t = space s) \<or>
         (\<exists>t u. vmm_alloc_page v flags s = Some (True, t) \<and> vm_inv t \<and> free_now t \<subset> free_now s \<and>
            (\<forall>i < 1024. load32 t (entry v i) = Some 0) \<and>
            (\<forall>a. page_of a \<noteq> v \<longrightarrow> space t a = space s a) \<and>
            vmm_free_page v t = Some u \<and> vm_inv u \<and> free_now u \<subseteq> free_now s \<and>
            (has_table (vm_memory s) (current_pd_phys s) (VADDR_PD_INDEX v) \<longrightarrow> free_now u = free_now s) \<and>
            space u = (\<lambda>a. if page_of a = v then None else space s a))"
  using assms
proof (cases rule: vmm_alloc_page_cases [where flags = flags])
  case (full t)
  then show ?thesis by blast
next
  case (fresh f t)
  have "space t v = Some f"
    using fresh(9) page_of_aligned [OF assms(2)] assms(2) by (simp add: VADDR_OFFSET_def)
  from vmm_free_page_spec [OF fresh(2) assms(2,3) this fresh(6,4,8)] obtain u where
    u: "vmm_free_page v t = Some u" "vm_inv u" "free_now u = insert f (free_now t)"
      "space u = (\<lambda>a. if page_of a = v then None else space t a)" by blast
  have "space u = (\<lambda>a. if page_of a = v then None else space s a)"
    by (simp add: u(4) fresh(9) fun_eq_iff)
  moreover have "free_now u = free_now s"
    if "has_table (vm_memory s) (current_pd_phys s) (VADDR_PD_INDEX v)"
    using fresh(11) [OF that] fresh(3) u(3) by auto
  ultimately show ?thesis using fresh u by auto
qed

theorem vmm_alloc_free_roundtrip_witness:
  "\<exists>s t u. vmm_init boot_vm = Some s \<and> vmm_alloc_page 0x800000 6 s = Some (True, t) \<and>
     load32 t 0x800ffc = Some 0 \<and> vmm_free_page 0x800000 t = Some u \<and> space u 0x800000 = None"
proof -
  obtain s where s: "vmm_init boot_vm = Some s" "vm_inv s" "low_free s = 2" "free_now s = {0x100000, 0x101000}"
    by (rule running_vm)
  have "room_for 2 s" by (simp add: room_for_def s(3))
  moreover have "card (free_now s) = 2" by (simp add: s(4))
  ultimately obtain t u where tu: "vmm_alloc_page 0x800000 6 s = Some (True, t)"
    "\<forall>i < 1024. load32 t (entry 0x800000 i) = Some 0" "vmm_free_page 0x800000 t = Some u"
    "space u = (\<lambda>a. if page_of a = 0x800000 then None else space s a)"
    using vmm_alloc_free_roundtrip [OF s(2), of "0x800000" 6] by auto
  have "load32 t (entry 0x800000 1023) = Some 0" using tu(2) by simp
  then show ?thesis using s(1) tu by (auto simp: entry_def page_of_def)
qed

lemma top_quarter: "768 \<le> VADDR_PD_INDEX a \<longleftrightarrow> 0xC0000000 \<le> a"
proof -
  have "drop_bit 22 a AND mask 10 = drop_bit 22 a mod 1024"
    by (simp add: take_bit_eq_mod flip: take_bit_eq_mask)
  then have "unat (VADDR_PD_INDEX a) = (unat a div 4194304) mod 1024"
    unfolding VADDR_PD_INDEX_def mask10_eq by (simp add: unat_mod drop_bit_eq_div unat_div)
  also have "\<dots> = unat a div 4194304"
    using unsigned_less [of a, where ?'a = nat] by (intro mod_less) simp
  finally show ?thesis by (simp add: word_le_nat_alt less_eq_div_iff_mult_less_eq)
qed

text \<open>C6: A new directory is a free frame that maps exactly what the kernel's directory maps below
  4 MB and above 3 GB; making one changes no existing mapping, and switching to it is safe.\<close>

theorem vmm_create_directory_isolated:
  assumes "vm_inv s" and "kernel_ok s" and "0 < low_free s"
  shows "\<exists>f t. vmm_create_page_directory s = Some (f, t) \<and> f \<in> free_now s \<and> free_now t = free_now s - {f} \<and>
           vm_inv t \<and> kernel_ok t \<and> space t = space s \<and>
           vm_inv (vmm_switch_page_directory f t) \<and>
           (\<forall>a. space (vmm_switch_page_directory f t) a =
             (if a < 0x400000 \<or> 0xC0000000 \<le> a
              then walk (vm_memory s) (kernel_page_directory s) a else None))"
proof -
  from assms show ?thesis
  proof (rule create_directory_spec)
    fix f t
    assume c: "vmm_create_page_directory s = Some (f, t)" "f \<in> free_now s" "vm_inv t" "kernel_ok t"
      "space t = space s" "free_now t = free_now s - {f}" "tables_ok (vm_memory t) f (free_now t)"
      "current_pd_phys t = current_pd_phys s"
      and w: "\<And>a. walk (vm_memory t) f a = (if VADDR_PD_INDEX a = 0 \<or> 768 \<le> VADDR_PD_INDEX a
        then walk (vm_memory s) (kernel_page_directory s) a else None)"
    have "current_pd_phys s \<noteq> f"
      using tables_okD(2) [OF vm_invD(2) [OF assms(1)]] c(2) by (auto simp: dir_pages_def)
    then have sw: "vmm_switch_page_directory f t = t\<lparr>current_pd_phys := f, vm_cr3 := f\<rparr>"
      using c(8) by (simp add: vmm_switch_page_directory_def load_page_directory_def)
    have "vm_inv (vmm_switch_page_directory f t)"
      using c(3,7) by (simp add: sw vm_inv_def)
    moreover have "space (vmm_switch_page_directory f t) a =
        (if a < 0x400000 \<or> 0xC0000000 \<le> a then walk (vm_memory s) (kernel_page_directory s) a else None)" for a
      by (simp add: sw space_def w low_iff top_quarter)
    ultimately show ?thesis using c by blast
  qed
qed

theorem vmm_create_directory_isolated_witness:
  "\<exists>s f t. vmm_init boot_vm = Some s \<and> vmm_create_page_directory s = Some (f, t) \<and>
     space (vmm_switch_page_directory f t) 0x1234 = Some 0x1234 \<and>
     space (vmm_switch_page_directory f t) 0x800000 = None"
proof -
  obtain s where s: "vmm_init boot_vm = Some s" "vm_inv s" "kernel_ok s" "low_free s = 2"
    "kernel_page_directory s = 0x10000" "current_pd_phys s = 0x10000"
    "space s = (\<lambda>a. if a < 0x400000 then Some a else None)"
    by (rule running_vm)
  have "walk (vm_memory s) (kernel_page_directory s) 0x1234 = Some 0x1234"
    using s(5,6) fun_cong [OF s(7), of "0x1234"] by (simp add: space_def)
  then show ?thesis
    using vmm_create_directory_isolated [OF s(2,3)] s(1,4) by auto
qed

lemma destroy_frees_low:
  assumes "vm_inv s" and "tables_ok (vm_memory s) pd {}" and "pd \<noteq> kernel_page_directory s"
    and "0x100000 \<in> managed_frames (vm_pmm s)"
  shows "\<exists>t. vmm_destroy_page_directory pd s = Some t \<and>
           {f \<in> managed_frames (vm_pmm s). f < 0x400000} \<subseteq> free_now t \<and>
           fst (pmm_alloc_page (vm_pmm t)) = 0x100000"
proof -
  obtain q where q: "vmm_destroy_page_directory pd s = Some (s\<lparr>vm_pmm := q\<rparr>)" "releases (vm_pmm s) q"
    and af: "\<forall>i < 768. has_table (vm_memory s) pd i \<longrightarrow> all_free (vm_memory s) (table_of (vm_memory s) pd i) 1024 q"
    using destroy_spec [OF assms(1-3)] by blast
  have inv: "pmm_inv q" and wf: "pmm_wf q" and tot: "total_pages q = total_pages (vm_pmm s)"
    using q(2) by (simp_all add: releases_def pmm_inv_def)
  have fr: "p \<in> free_set q" if "PFN_TO_ADDR p < 0x400000" "p < total_pages q" for p
  proof -
    have "page_ok (PFN_TO_ADDR p)" using that(1) by (simp add: page_ok_def PFN_TO_ADDR_aligned)
    note le = low_entry [OF assms(2) this]
    have "all_free (vm_memory s) (table_of (vm_memory s) pd 0) 1024 q" using af le(1) by simp
    then show ?thesis
      using le(2,3) that(2) pfn_addr_inverse [OF page_bound [OF wf that(2)]]
        index_less(2) [of "PFN_TO_ADDR p"] unfolding all_free_def by metis
  qed
  have sub: "{f \<in> managed_frames (vm_pmm s). f < 0x400000} \<subseteq> free_frames q"
    using fr tot by (auto simp: managed_frames_def free_frames_def)
  have p256: "PFN_TO_ADDR 256 = 0x100000" by (simp add: PFN_TO_ADDR_def push_bit_eq_mult)
  obtain p where "PFN_TO_ADDR p = PFN_TO_ADDR 256" "p < total_pages q"
    using assms(4) tot p256 by (auto simp: managed_frames_def)
  moreover from this have "ADDR_TO_PFN (PFN_TO_ADDR 256) = p"
    using pfn_addr_inverse [OF page_bound [OF wf, of p]] by simp
  then have "p = 256" by (simp add: pfn_addr_inverse)
  ultimately have f256: "256 \<in> free_set q" using fr [of 256] p256 by simp
  have "fst (pmm_alloc_page q) = 0x100000"
    using inv
  proof (cases rule: pmm_alloc_page_cases)
    case none
    then show ?thesis using f256 by (auto simp: free_frames_def)
  next
    case (some p)
    then have "p = 256" using f256 by (metis order.antisym order_refl)
    then show ?thesis using some(4) p256 by simp
  qed
  then show ?thesis using q(1) sub by auto
qed

text \<open>Destroying any process directory frees the frames its shared first table maps: every managed
  frame below 4 MB becomes free, the kernel's own among them, and the next allocation hands out
  the frame at 1 MB, where the kernel is loaded.\<close>

theorem vmm_destroy_frees_kernel:
  assumes "vm_inv s" and "tables_ok (vm_memory s) pd {}" and "pd \<noteq> kernel_page_directory s"
    and "0x100000 \<in> managed_frames (vm_pmm s)"
  shows "\<exists>t. vmm_destroy_page_directory pd s = Some t \<and>
           {f \<in> managed_frames (vm_pmm s). f < 0x400000} \<subseteq> free_now t \<and>
           fst (pmm_alloc_page (vm_pmm t)) = 0x100000"
  using assms by (rule destroy_frees_low)

theorem vmm_destroy_frees_kernel_witness:
  "\<exists>s f t u. vmm_init boot_vm = Some s \<and> vmm_create_page_directory s = Some (f, t) \<and>
     vmm_destroy_page_directory f t = Some u \<and> fst (pmm_alloc_page (vm_pmm u)) = 0x100000"
proof -
  obtain s where s: "vmm_init boot_vm = Some s" "vm_inv s" "kernel_ok s" "low_free s = 2"
    "vm_pmm s = sample_pmm"
    by (rule running_vm)
  have low: "0 < low_free s" by (simp add: s(4))
  from s(2,3) low show ?thesis
  proof (rule create_directory_spec)
    fix f t
    assume c: "vmm_create_page_directory s = Some (f, t)" "f \<in> free_now s" "vm_inv t" "kernel_ok t"
      "tables_ok (vm_memory t) f (free_now t)" "kernel_page_directory t = kernel_page_directory s"
      "managed_frames (vm_pmm t) = managed_frames (vm_pmm s)"
    have "f \<noteq> kernel_page_directory t"
      using c(2,6) s(3) by (auto simp: kernel_ok_def tables_ok_def)
    moreover have "tables_ok (vm_memory t) f {}" using c(5) by (auto simp: tables_ok_def)
    moreover have "0x100000 \<in> managed_frames (vm_pmm t)"
      using fa.frames_managed [of sample_pmm] c(7) s(5) sample_frames by auto
    ultimately show ?thesis
      using vmm_destroy_frees_kernel [OF c(3), of f] s(1) c(1) by blast
  qed
qed

text \<open>Once no frame below 4 MB is free, making a page table faults: the new table is zeroed
  through an address that is not mapped, and the kernel halts in its page-fault handler.\<close>

theorem vmm_high_table_faults:
  assumes "vm_inv s" and "\<not> has_table (vm_memory s) (current_pd_phys s) (VADDR_PD_INDEX virt)"
    and "free_now s \<noteq> {}" and "\<forall>f \<in> free_now s. space s f = None"
  shows "vmm_map_page virt phys flags s = None"
  using assms by (rule high_table_faults)

text \<open>The same machine with its one free frame just above the identity mapping.\<close>

definition high_pmm :: pmm where
  "high_pmm = count_used (bitmap_clear
     \<lparr>page_bitmap = replicate 2048 0xFFFFFFFF, total_pages = 1025, used_pages = 0, total_memory = 0\<rparr> 1024)"

lemma high_pmm_facts: "pmm_inv high_pmm" "free_frames high_pmm = {0x400000}"
proof -
  let ?z = "\<lparr>page_bitmap = replicate 2048 0xFFFFFFFF, total_pages = 1025, used_pages = 0, total_memory = 0\<rparr>"
  have wf: "pmm_wf (bitmap_clear ?z 1024)" by (simp add: pmm_wf_def word_norm)
  have "bitmap_test ?z q" for q
    using unat_div32_less [of q] unat_mod32_less [of q] by (simp add: bitmap_test_bit word_norm)
  then have bt: "bitmap_test (bitmap_clear ?z 1024) q \<longleftrightarrow> q \<noteq> 1024" for q
    by (simp add: bitmap_test_clear word_norm)
  note c = count_used_spec [OF wf, folded high_pmm_def]
  show "pmm_inv high_pmm" by (rule c(1))
  have "free_set high_pmm = {1024}"
    unfolding free_set_def c(2,3) bt by auto
  moreover have "{p \<in> {1024}. 256 \<le> p} = {1024 :: u32}" by auto
  ultimately show "free_frames high_pmm = {0x400000}"
    by (simp add: free_frames_def PFN_TO_ADDR_def push_bit_eq_mult)
qed

theorem vmm_high_table_faults_witness:
  "\<exists>s. vmm_init (boot_vm\<lparr>vm_pmm := high_pmm\<rparr>) = Some s \<and> vmm_map_page 0x800000 0x5000 7 s = None"
proof -
  have "boot_ok (boot_vm\<lparr>vm_pmm := high_pmm\<rparr>)"
    using high_pmm_facts by (simp add: boot_ok_def boot_vm_def page_ok_def)
  from vmm_init_spec [OF this] obtain s where s: "vmm_init (boot_vm\<lparr>vm_pmm := high_pmm\<rparr>) = Some s"
    "vm_inv s" "vm_pmm s = high_pmm" "space s = (\<lambda>a. if a < 0x400000 then Some a else None)"
    "\<forall>i < 1024. has_table (vm_memory s) (current_pd_phys s) i \<longleftrightarrow> i = 0"
    by auto
  have "\<not> has_table (vm_memory s) (current_pd_phys s) (VADDR_PD_INDEX 0x800000)"
    using s(5) index_less(1) low_iff [of "0x800000"] by auto
  then show ?thesis
    using vmm_high_table_faults [OF s(2), of "0x800000" "0x5000" 7] s high_pmm_facts by auto
qed

end
