(* ===== verification/Process.thy ===== *)
theory Process
  imports Address_Spaces
begin

text \<open>
  Processes: the table of process control blocks of \<open>simpleos-main/simpleos/process.c\<close> and
  \<open>process.h\<close>. A pointer to a block is its index in the table, the null pointer is \<open>None\<close>; a
  fault in the memory manager is the result \<open>None\<close> of an operation.
\<close>

section \<open>State\<close>

definition PROCESS_STATE_UNUSED :: u32 where "PROCESS_STATE_UNUSED = 0"
definition PROCESS_STATE_READY :: u32 where "PROCESS_STATE_READY = 1"
definition PROCESS_STATE_RUNNING :: u32 where "PROCESS_STATE_RUNNING = 2"
definition PROCESS_STATE_BLOCKED :: u32 where "PROCESS_STATE_BLOCKED = 3"
definition PROCESS_STATE_TERMINATED :: u32 where "PROCESS_STATE_TERMINATED = 4"
definition MAX_PROCESSES :: nat where "MAX_PROCESSES = 32"
definition PRIORITY_IDLE :: u32 where "PRIORITY_IDLE = 0"

record process =
  p_pid :: u32
  p_state :: u32
  p_name :: string
  p_eip :: u32
  p_esp :: u32
  p_ebp :: u32
  p_eax :: u32
  p_ebx :: u32
  p_ecx :: u32
  p_edx :: u32
  p_esi :: u32
  p_edi :: u32
  p_eflags :: u32
  p_cs :: u32
  p_ds :: u32
  p_es :: u32
  p_fs :: u32
  p_gs :: u32
  p_ss :: u32
  p_page_directory :: u32
  p_kernel_stack :: u32
  p_user_stack :: u32
  p_priority :: u32
  p_time_slice :: u32
  p_total_time :: u32
  p_parent_pid :: u32
  p_exit_code :: u32
  p_child_count :: u32

text \<open>\<open>tss_esp0\<close> is the kernel stack in the task state segment; \<open>switched_to\<close> lists the processes the
  assembly routine \<open>switch_to_process\<close> was called with, newest first.\<close>

record kernel =
  kvm :: vmm
  process_table :: "process list"
  current_process :: "nat option"
  next_pid :: u32
  tss_esp0 :: u32
  scheduling_enabled :: bool
  switched_to :: "nat list"

text \<open>Assignment to fields of the block at an index.\<close>

definition upd_proc :: "nat \<Rightarrow> (process \<Rightarrow> process) \<Rightarrow> kernel \<Rightarrow> kernel" where
  "upd_proc i f s = s\<lparr>process_table := (process_table s)[i := f (process_table s ! i)]\<rparr>"

section \<open>Operations\<close>

fun str_copy_safe :: "string \<Rightarrow> nat \<Rightarrow> string" where
  "str_copy_safe [] n = []"
| "str_copy_safe (c # rest) n = (if 0 < n - 1 then c # str_copy_safe rest (n - 1) else [])"

definition process_init :: "kernel \<Rightarrow> kernel" where
  "process_init s =
     (let s1 = fold (\<lambda>i. upd_proc i (\<lambda>p. p\<lparr>p_state := PROCESS_STATE_UNUSED, p_pid := 0\<rparr>))
                 [0..<MAX_PROCESSES] s;
          s2 = upd_proc 0 (\<lambda>p. p\<lparr>p_pid := 0, p_state := PROCESS_STATE_RUNNING, p_priority := PRIORITY_IDLE,
                 p_name := str_copy_safe ''kernel_idle'' 32,
                 p_page_directory := vmm_get_current_directory (kvm s1)\<rparr>) s1
      in s2\<lparr>current_process := Some 0\<rparr>)"

definition process_next_pid :: "kernel \<Rightarrow> u32 \<times> kernel" where
  "process_next_pid s = (next_pid s, s\<lparr>next_pid := next_pid s + 1\<rparr>)"

definition process_alloc :: "kernel \<Rightarrow> nat option" where
  "process_alloc s =
     find (\<lambda>i. p_state (process_table s ! i) = PROCESS_STATE_UNUSED) [0..<MAX_PROCESSES]"

definition process_get :: "u32 \<Rightarrow> kernel \<Rightarrow> nat option" where
  "process_get n s =
     find (\<lambda>i. p_pid (process_table s ! i) = n \<and> p_state (process_table s ! i) \<noteq> PROCESS_STATE_UNUSED)
       [0..<MAX_PROCESSES]"

text \<open>The first part of \<open>process_create\<close>: the block's fields and the parent's child count.\<close>

definition create_block :: "nat \<Rightarrow> u32 \<Rightarrow> string \<Rightarrow> u32 \<Rightarrow> kernel \<Rightarrow> kernel" where
  "create_block i n nm prio s =
     (let s1 = upd_proc i (\<lambda>p. p\<lparr>p_pid := n, p_state := PROCESS_STATE_READY, p_priority := prio,
                 p_name := str_copy_safe nm 32\<rparr>) s;
          parent = (case current_process s1 of None \<Rightarrow> 0 | Some c \<Rightarrow> p_pid (process_table s1 ! c));
          s2 = upd_proc i (\<lambda>p. p\<lparr>p_parent_pid := parent, p_time_slice := 10, p_total_time := 0,
                 p_exit_code := 0, p_child_count := 0\<rparr>) s1
      in if parent \<noteq> 0
         then (case process_get parent s2 of
                 None \<Rightarrow> s2
               | Some j \<Rightarrow> upd_proc j (\<lambda>p. p\<lparr>p_child_count := p_child_count p + 1\<rparr>) s2)
         else s2)"

text \<open>The failure exits: the block is given back.\<close>

definition abandon :: "nat \<Rightarrow> kernel \<Rightarrow> u32 \<times> kernel" where
  "abandon i s = (0, upd_proc i (\<lambda>p. p\<lparr>p_state := PROCESS_STATE_UNUSED\<rparr>) s)"

definition with_vm :: "vmm \<Rightarrow> kernel \<Rightarrow> kernel" where
  "with_vm v s = s\<lparr>kvm := v\<rparr>"

definition alloc_frame :: "vmm \<Rightarrow> u32 \<times> vmm" where
  "alloc_frame v = (let (a, p) = pmm_alloc_page (vm_pmm v) in (a, v\<lparr>vm_pmm := p\<rparr>))"

text \<open>The last part of \<open>process_create\<close>: user stack pointer and initial context.\<close>

definition start_context :: "u32 \<Rightarrow> process \<Rightarrow> process" where
  "start_context entry_point p =
     (let us = 0xBFFFF000 + PAGE_SIZE - 4
      in p\<lparr>p_user_stack := us, p_eip := entry_point, p_esp := us, p_ebp := us, p_cs := 0x1B,
           p_ds := 0x23, p_es := 0x23, p_fs := 0x23, p_gs := 0x23, p_ss := 0x23, p_eflags := 0x3202,
           p_eax := 0, p_ebx := 0, p_ecx := 0, p_edx := 0, p_esi := 0, p_edi := 0\<rparr>)"

definition process_create :: "string \<Rightarrow> u32 \<Rightarrow> u32 \<Rightarrow> kernel \<Rightarrow> (u32 \<times> kernel) option" where
  "process_create nm entry_point prio s =
     (case process_alloc s of
        None \<Rightarrow> Some (0, s)
      | Some i \<Rightarrow>
          let (n, s0) = process_next_pid s;
              s1 = create_block i n nm prio s0
          in do {
            (pd, v1) \<leftarrow> vmm_create_page_directory (kvm s1);
            let s2 = upd_proc i (\<lambda>p. p\<lparr>p_page_directory := pd\<rparr>) (with_vm v1 s1)
            in if pd = 0 then Some (abandon i s2)
            else let (kernel_stack_phys, v2) = alloc_frame v1
            in if kernel_stack_phys = 0 then do {
                 v3 \<leftarrow> vmm_destroy_page_directory pd v2;
                 Some (abandon i (with_vm v3 s2))
               }
            else let s3 = upd_proc i (\<lambda>p. p\<lparr>p_kernel_stack := kernel_stack_phys + PAGE_SIZE\<rparr>) (with_vm v2 s2);
                     (user_stack_phys, v3) = alloc_frame v2
            in if user_stack_phys = 0 then do {
                 v4 \<leftarrow> vmm_destroy_page_directory pd (release_page kernel_stack_phys v3);
                 Some (abandon i (with_vm v4 s3))
               }
            else let old_pd = vmm_get_current_directory v3;
                     v4 = vmm_switch_page_directory pd v3
            in do {
              (ok, v5) \<leftarrow> vmm_map_page 0xBFFFF000 user_stack_phys (PTE_PRESENT OR PTE_WRITABLE OR PTE_USER) v4;
              if \<not> ok then do {
                let v6 = release_page kernel_stack_phys
                           (release_page user_stack_phys (vmm_switch_page_directory old_pd v5));
                v7 \<leftarrow> vmm_destroy_page_directory pd v6;
                Some (abandon i (with_vm v7 s3))
              }
              else do {
                let code_page = entry_point AND 0xFFFFF000;
                cp \<leftarrow> vmm_get_physical code_page v5;
                let code_phys = (if cp = 0 then code_page else cp);
                (_, v6) \<leftarrow> vmm_map_page code_page code_phys (PTE_PRESENT OR PTE_USER) v5;
                let v7 = vmm_switch_page_directory old_pd v6;
                Some (n, upd_proc i (start_context entry_point) (with_vm v7 s3))
              }
            }
          })"

text \<open>\<open>process_yield\<close> is an empty placeholder in the source.\<close>

definition process_yield :: "kernel \<Rightarrow> kernel" where
  "process_yield s = s"

definition reparent :: "u32 \<Rightarrow> kernel \<Rightarrow> kernel" where
  "reparent n s =
     fold (\<lambda>i t. let child = process_table t ! i
                 in if p_state child \<noteq> PROCESS_STATE_UNUSED \<and> p_parent_pid child = n
                    then upd_proc i (\<lambda>p. p\<lparr>p_parent_pid := 0\<rparr>) t else t)
       [0..<MAX_PROCESSES] s"

definition process_exit_with_code :: "u32 \<Rightarrow> u32 \<Rightarrow> kernel \<Rightarrow> kernel option" where
  "process_exit_with_code n code s =
     (case process_get n s of
        None \<Rightarrow> Some s
      | Some i \<Rightarrow>
          if p_state (process_table s ! i) = PROCESS_STATE_UNUSED then Some s
          else
            let s1 = upd_proc i (\<lambda>p. p\<lparr>p_exit_code := code\<rparr>) s;
                s2 = (if p_parent_pid (process_table s1 ! i) \<noteq> 0
                      then (case process_get (p_parent_pid (process_table s1 ! i)) s1 of
                              None \<Rightarrow> s1
                            | Some j \<Rightarrow>
                                if p_child_count (process_table s1 ! j) > 0
                                then upd_proc j (\<lambda>p. p\<lparr>p_child_count := p_child_count p - 1\<rparr>) s1
                                else s1)
                      else s1);
                s3 = (if p_child_count (process_table s2 ! i) > 0 then reparent n s2 else s2);
                pd = p_page_directory (process_table s3 ! i)
            in do {
              v \<leftarrow> (if pd \<noteq> 0 \<and> pd \<noteq> vmm_get_current_directory (kvm s3)
                    then vmm_destroy_page_directory pd (kvm s3) else Some (kvm s3));
              let s4 = upd_proc i (\<lambda>p. p\<lparr>p_state := PROCESS_STATE_UNUSED, p_pid := 0\<rparr>) (with_vm v s3)
              in Some (if Some i = current_process s4 then process_yield s4 else s4)
            })"

definition process_exit :: "u32 \<Rightarrow> kernel \<Rightarrow> kernel option" where
  "process_exit n s = process_exit_with_code n 0 s"

definition process_current :: "kernel \<Rightarrow> nat option" where
  "process_current s = current_process s"

definition process_get_pid :: "nat option \<Rightarrow> kernel \<Rightarrow> u32" where
  "process_get_pid proc s = (case proc of None \<Rightarrow> 0 | Some i \<Rightarrow> p_pid (process_table s ! i))"

definition tss_set_kernel_stack :: "u32 \<Rightarrow> kernel \<Rightarrow> kernel" where
  "tss_set_kernel_stack stack s = s\<lparr>tss_esp0 := stack\<rparr>"

definition process_set_current :: "nat option \<Rightarrow> kernel \<Rightarrow> kernel" where
  "process_set_current proc s =
     (let s1 = s\<lparr>current_process := proc\<rparr>
      in case proc of
           None \<Rightarrow> s1
         | Some i \<Rightarrow> tss_set_kernel_stack (p_kernel_stack (process_table s1 ! i)) s1)"

definition process_get_table :: "kernel \<Rightarrow> process list" where
  "process_get_table s = process_table s"

definition process_get_max :: nat where
  "process_get_max = MAX_PROCESSES"

text \<open>The rows of \<open>process_print_table\<close>: the arguments of its one \<open>printf\<close> call per process.\<close>

definition state_str :: "u32 \<Rightarrow> string" where
  "state_str st =
     (if st = PROCESS_STATE_READY then ''READY    ''
      else if st = PROCESS_STATE_RUNNING then ''RUNNING  ''
      else if st = PROCESS_STATE_BLOCKED then ''BLOCKED  ''
      else if st = PROCESS_STATE_TERMINATED then ''TERMINATED''
      else ''UNKNOWN  '')"

definition process_print_table :: "kernel \<Rightarrow> (u32 \<times> string \<times> u32 \<times> u32 \<times> u32 \<times> string) list" where
  "process_print_table s =
     map (\<lambda>i. let p = process_table s ! i
              in (p_pid p, state_str (p_state p), p_priority p, p_parent_pid p, p_child_count p, p_name p))
       (filter (\<lambda>i. p_state (process_table s ! i) \<noteq> PROCESS_STATE_UNUSED) [0..<MAX_PROCESSES])"

definition process_get_parent :: "u32 \<Rightarrow> kernel \<Rightarrow> u32" where
  "process_get_parent n s =
     (case process_get n s of None \<Rightarrow> 0 | Some i \<Rightarrow> p_parent_pid (process_table s ! i))"

definition process_get_child_count :: "u32 \<Rightarrow> kernel \<Rightarrow> u32" where
  "process_get_child_count n s =
     (case process_get n s of None \<Rightarrow> 0 | Some i \<Rightarrow> p_child_count (process_table s ! i))"

text \<open>The array filled by \<open>process_list_children\<close>; its length is the returned count.\<close>

definition process_list_children :: "u32 \<Rightarrow> u32 \<Rightarrow> kernel \<Rightarrow> u32 list" where
  "process_list_children n limit s =
     fold (\<lambda>i out. if length out < unat limit \<and>
                      p_state (process_table s ! i) \<noteq> PROCESS_STATE_UNUSED \<and>
                      p_parent_pid (process_table s ! i) = n
                   then out @ [p_pid (process_table s ! i)] else out)
       [0..<MAX_PROCESSES] []"

section \<open>Table lookups\<close>

lemma process_numerals [word_norm]:
  "PROCESS_STATE_UNUSED = 0" "PROCESS_STATE_READY = 1" "PROCESS_STATE_RUNNING = 2"
  "PROCESS_STATE_BLOCKED = 3" "PROCESS_STATE_TERMINATED = 4" "MAX_PROCESSES = 32" "PRIORITY_IDLE = 0"
  by (simp_all add: PROCESS_STATE_UNUSED_def PROCESS_STATE_READY_def PROCESS_STATE_RUNNING_def
      PROCESS_STATE_BLOCKED_def PROCESS_STATE_TERMINATED_def MAX_PROCESSES_def PRIORITY_IDLE_def)

abbreviation proc :: "kernel \<Rightarrow> nat \<Rightarrow> process" where
  "proc s i \<equiv> process_table s ! i"

definition used :: "kernel \<Rightarrow> nat \<Rightarrow> bool" where
  "used s i \<longleftrightarrow> i < 32 \<and> p_state (proc s i) \<noteq> 0"

lemma find_upt_Some: "find P [0..<n] = Some i \<longleftrightarrow> i < n \<and> P i \<and> (\<forall>j < i. \<not> P j)"
  by (auto simp: find_Some_iff)

lemma find_upt_none: "find P [0..<n] = None \<longleftrightarrow> (\<forall>i < n. \<not> P i)"
  by (auto simp: find_None_iff)

lemma process_alloc_Some:
  "process_alloc s = Some i \<Longrightarrow> i < 32 \<and> \<not> used s i \<and> (\<forall>j < i. used s j)"
  by (auto simp: process_alloc_def find_upt_Some used_def word_norm)

lemma process_alloc_None: "process_alloc s = None \<longleftrightarrow> (\<forall>i < 32. used s i)"
  by (auto simp: process_alloc_def find_upt_none used_def word_norm)

lemma process_get_Some:
  "process_get n s = Some i \<Longrightarrow> used s i \<and> p_pid (proc s i) = n"
  by (auto simp: process_get_def find_upt_Some used_def word_norm)

lemma process_get_None: "process_get n s = None \<longleftrightarrow> (\<forall>i. used s i \<longrightarrow> p_pid (proc s i) \<noteq> n)"
  by (auto simp: process_get_def find_upt_none used_def word_norm)

lemma upd_proc_simps [simp]:
  "process_table (upd_proc i f s) = (process_table s)[i := f (process_table s ! i)]"
  "kvm (upd_proc i f s) = kvm s" "current_process (upd_proc i f s) = current_process s"
  "next_pid (upd_proc i f s) = next_pid s" "tss_esp0 (upd_proc i f s) = tss_esp0 s"
  "scheduling_enabled (upd_proc i f s) = scheduling_enabled s" "switched_to (upd_proc i f s) = switched_to s"
  by (simp_all add: upd_proc_def)

lemma with_vm_simps [simp]:
  "process_table (with_vm v s) = process_table s" "kvm (with_vm v s) = v"
  "current_process (with_vm v s) = current_process s" "next_pid (with_vm v s) = next_pid s"
  "upd_proc i f (with_vm v s) = with_vm v (upd_proc i f s)" "with_vm v (with_vm w s) = with_vm v s"
  by (simp_all add: with_vm_def upd_proc_def)

lemma upd_proc_twice:
  "i < length (process_table s) \<Longrightarrow> upd_proc i f (upd_proc i g s) = upd_proc i (\<lambda>p. f (g p)) s"
  by (simp add: upd_proc_def)

section \<open>The table's invariant\<close>

text \<open>
  The idle process sits in slot 0; process numbers are distinct and below the next one; every parent
  number is 0 or that of a live process; and no process has more children than its count says.
\<close>

definition children :: "kernel \<Rightarrow> u32 \<Rightarrow> nat set" where
  "children s n = {k. used s k \<and> p_parent_pid (proc s k) = n}"

definition live_pid :: "kernel \<Rightarrow> u32 \<Rightarrow> bool" where
  "live_pid s n \<longleftrightarrow> (\<exists>i. used s i \<and> p_pid (proc s i) = n)"

definition proc_inv :: "kernel \<Rightarrow> bool" where
  "proc_inv s \<longleftrightarrow> length (process_table s) = 32 \<and>
     used s 0 \<and> p_pid (proc s 0) = 0 \<and> p_parent_pid (proc s 0) = 0 \<and>
     (\<forall>i. used s i \<and> i \<noteq> 0 \<longrightarrow> p_pid (proc s i) \<noteq> 0 \<and> p_pid (proc s i) < next_pid s \<and>
        p_parent_pid (proc s i) \<noteq> p_pid (proc s i) \<and> live_pid s (p_parent_pid (proc s i)) \<and>
        card (children s (p_pid (proc s i))) \<le> unat (p_child_count (proc s i))) \<and>
     (\<forall>i j. used s i \<and> used s j \<and> p_pid (proc s i) = p_pid (proc s j) \<longrightarrow> i = j) \<and>
     (\<forall>i. used s i \<longrightarrow> p_child_count (proc s i) < next_pid s)"

lemma proc_invD:
  assumes "proc_inv s"
  shows "length (process_table s) = 32" and "used s 0" and "p_pid (proc s 0) = 0"
    and "used s i \<Longrightarrow> i \<noteq> 0 \<Longrightarrow> p_pid (proc s i) \<noteq> 0 \<and> p_pid (proc s i) < next_pid s \<and>
      p_parent_pid (proc s i) \<noteq> p_pid (proc s i) \<and> live_pid s (p_parent_pid (proc s i)) \<and>
      card (children s (p_pid (proc s i))) \<le> unat (p_child_count (proc s i))"
    and "used s i \<Longrightarrow> used s j \<Longrightarrow> p_pid (proc s i) = p_pid (proc s j) \<Longrightarrow> i = j"
    and "used s i \<Longrightarrow> p_child_count (proc s i) < next_pid s"
    and "p_parent_pid (proc s 0) = 0"
  using assms unfolding proc_inv_def by blast+

lemma used_lt: "used s i \<Longrightarrow> i < 32"
  by (simp add: used_def)

lemma finite_children [simp]: "finite (children s n)"
  by (rule finite_subset [of _ "{..<32}"]) (auto simp: children_def used_def)

lemma process_get_iff:
  assumes "proc_inv s"
  shows "process_get n s = Some i \<longleftrightarrow> used s i \<and> p_pid (proc s i) = n"
proof
  assume i: "used s i \<and> p_pid (proc s i) = n"
  then obtain j where j: "process_get n s = Some j"
    using process_get_None [of n s] by (cases "process_get n s") auto
  then show "process_get n s = Some i"
    using process_get_Some [OF j] i proc_invD(5) [OF assms] by metis
qed (rule process_get_Some)

lemma parent_below:
  assumes "proc_inv s" and "used s i" and "0 < next_pid s"
  shows "p_parent_pid (proc s i) < next_pid s"
proof (cases "i = 0")
  case False
  then obtain j where "used s j" "p_pid (proc s j) = p_parent_pid (proc s i)"
    using proc_invD(4) [OF assms(1,2)] by (auto simp: live_pid_def)
  then show ?thesis
    using proc_invD(3) [OF assms(1)] proc_invD(4) [OF assms(1), of j] assms(3) by (cases "j = 0") auto
qed (use proc_invD(7) [OF assms(1)] assms(3) in simp)

text \<open>Only the fields the invariant reads matter, and only in slots that are in use.\<close>

definition same_links :: "process \<Rightarrow> process \<Rightarrow> bool" where
  "same_links p q \<longleftrightarrow> p_pid p = p_pid q \<and> p_parent_pid p = p_parent_pid q \<and> p_child_count p = p_child_count q \<and>
     (p_state p = 0 \<longleftrightarrow> p_state q = 0)"

lemma proc_inv_cong:
  assumes "proc_inv s" and "length (process_table t) = 32" and "next_pid t = next_pid s"
    and "\<And>i. i < 32 \<Longrightarrow> same_links (proc t i) (proc s i)"
  shows "proc_inv t"
proof -
  have u: "used t = used s" using assms(4) by (auto simp: used_def fun_eq_iff same_links_def)
  have l: "p_pid (proc t i) = p_pid (proc s i)" "p_parent_pid (proc t i) = p_parent_pid (proc s i)"
    "p_child_count (proc t i) = p_child_count (proc s i)" if "used s i" for i
    using assms(4) [OF used_lt [OF that]] by (simp_all add: same_links_def)
  have c: "children t = children s" by (auto simp: children_def u l fun_eq_iff)
  have v: "live_pid t = live_pid s" by (auto simp: live_pid_def u l fun_eq_iff)
  show ?thesis using assms(1,2,3) unfolding proc_inv_def u c v by (auto simp: l)
qed

section \<open>Creation\<close>

text \<open>The process that runs when a process is created or ends.\<close>

definition current_ok :: "kernel \<Rightarrow> bool" where
  "current_ok s \<longleftrightarrow> (\<forall>c. current_process s = Some c \<longrightarrow> used s c)"

definition parent_of_new :: "kernel \<Rightarrow> u32" where
  "parent_of_new s = (case current_process s of None \<Rightarrow> 0 | Some c \<Rightarrow> p_pid (proc s c))"

lemma create_block_table:
  assumes inv: "proc_inv s" and cur: "current_ok s" and i: "i < 32" "\<not> used s i" and n: "n = next_pid s" "0 < n"
    and t_def: "t = create_block i n nm pr (s\<lparr>next_pid := n + 1\<rparr>)"
  shows "length (process_table t) = 32" and "p_pid (proc t i) = n" and "p_state (proc t i) = 1"
    and "p_parent_pid (proc t i) = parent_of_new s" and "p_child_count (proc t i) = 0"
    and "k \<noteq> i \<Longrightarrow> k < 32 \<Longrightarrow> proc t k =
      (if current_process s = Some k \<and> p_pid (proc s k) \<noteq> 0
       then (proc s k)\<lparr>p_child_count := p_child_count (proc s k) + 1\<rparr> else proc s k)"
    and "next_pid t = n + 1" and "kvm t = kvm s" and "current_process t = current_process s"
    and "p_priority (proc t i) = pr" and "p_name (proc t i) = str_copy_safe nm 32"
    and "p_time_slice (proc t i) = 10" and "p_total_time (proc t i) = 0" and "p_exit_code (proc t i) = 0"
proof -
  have len: "length (process_table s) = 32" by (rule proc_invD(1) [OF inv])
  let ?pp = "parent_of_new s"
  define N where "N = (proc s i)\<lparr>p_pid := n, p_state := PROCESS_STATE_READY, p_priority := pr,
      p_name := str_copy_safe nm 32, p_parent_pid := ?pp, p_time_slice := 10, p_total_time := 0,
      p_exit_code := 0, p_child_count := 0\<rparr>"
  define s2 where "s2 = s\<lparr>next_pid := n + 1, process_table := (process_table s)[i := N]\<rparr>"
  have cur0: "i \<noteq> c" if "current_process s = Some c" for c
    using that cur i(2) by (auto simp: current_ok_def)
  define s1 where "s1 = upd_proc i (\<lambda>p. p\<lparr>p_pid := n, p_state := PROCESS_STATE_READY, p_priority := pr,
      p_name := str_copy_safe nm 32\<rparr>) (s\<lparr>next_pid := n + 1\<rparr>)"
  have pp: "(case current_process s1 of None \<Rightarrow> 0 | Some c \<Rightarrow> p_pid (process_table s1 ! c)) = ?pp"
    using cur0 by (cases "current_process s") (auto simp: parent_of_new_def s1_def)
  have s2: "upd_proc i (\<lambda>p. p\<lparr>p_parent_pid := ?pp, p_time_slice := 10, p_total_time := 0,
      p_exit_code := 0, p_child_count := 0\<rparr>) s1 = s2"
    using len i(1) by (simp add: s1_def s2_def N_def upd_proc_def)
  have t: "t = (if ?pp \<noteq> 0
      then (case process_get ?pp s2 of None \<Rightarrow> s2
            | Some j \<Rightarrow> upd_proc j (\<lambda>p. p\<lparr>p_child_count := p_child_count p + 1\<rparr>) s2) else s2)"
    unfolding t_def create_block_def Let_def s1_def [symmetric] pp s2 by (rule refl)
  have us2: "used s2 k \<longleftrightarrow> k = i \<or> used s k" for k
    using len i by (auto simp: used_def s2_def N_def nth_list_update word_norm)
  have get: "process_get ?pp s2 = Some c" if c: "current_process s = Some c" "?pp \<noteq> 0" for c
  proof -
    have uc: "used s c" "p_pid (proc s c) = ?pp" "c \<noteq> i"
      using c cur i(2) by (auto simp: current_ok_def parent_of_new_def)
    then obtain j where j: "process_get ?pp s2 = Some j"
      using process_get_None [of ?pp s2] us2 by (cases "process_get ?pp s2") (auto simp: s2_def)
    have lt: "?pp < n"
      using uc proc_invD(3) [OF inv] proc_invD(4) [OF inv uc(1)] n by (cases "c = 0") auto
    have "j \<noteq> i" using process_get_Some [OF j] len i(1) lt by (auto simp: s2_def N_def)
    then have "used s j" "p_pid (proc s j) = ?pp"
      using process_get_Some [OF j] us2 by (auto simp: s2_def)
    then show ?thesis using j proc_invD(5) [OF inv _ uc(1)] uc(2) by metis
  qed
  have main: "process_table t = (case current_process s of
      Some c \<Rightarrow> if ?pp \<noteq> 0 then (process_table s)[i := N, c := (proc s c)\<lparr>p_child_count := p_child_count (proc s c) + 1\<rparr>]
                else (process_table s)[i := N]
    | None \<Rightarrow> (process_table s)[i := N])"
    using get cur0 by (auto simp: t s2_def parent_of_new_def split: option.splits)
  have ci: "c \<noteq> i" "c < 32" if "current_process s = Some c" for c
    using that cur i(2) by (auto simp: current_ok_def used_def)
  have pi: "proc t i = N"
    using main ci len i(1) by (auto simp: nth_list_update split: option.splits)
  show "length (process_table t) = 32" using main len by (simp split: option.splits)
  show "p_pid (proc t i) = n" "p_state (proc t i) = 1" "p_parent_pid (proc t i) = ?pp" "p_child_count (proc t i) = 0"
    "p_priority (proc t i) = pr" "p_name (proc t i) = str_copy_safe nm 32" "p_time_slice (proc t i) = 10"
    "p_total_time (proc t i) = 0" "p_exit_code (proc t i) = 0"
    unfolding pi N_def by (simp_all add: word_norm)
  show "proc t k = (if current_process s = Some k \<and> p_pid (proc s k) \<noteq> 0
       then (proc s k)\<lparr>p_child_count := p_child_count (proc s k) + 1\<rparr> else proc s k)" if "k \<noteq> i" "k < 32"
    using main that len ci
    by (cases "current_process s = Some k") (auto simp: nth_list_update parent_of_new_def split: option.splits)
  show "next_pid t = n + 1" "kvm t = kvm s" "current_process t = current_process s"
    by (auto simp: t s2_def split: option.splits)
qed

lemma create_block_inv:
  assumes inv: "proc_inv s" and cur: "current_ok s" and i: "i < 32" "\<not> used s i" and n: "n = next_pid s" "0 < n"
    and t_def: "t = create_block i n nm pr (s\<lparr>next_pid := n + 1\<rparr>)" and nw: "n < 0xFFFFFFFF"
  shows "proc_inv t" and "used t k \<longleftrightarrow> k = i \<or> used s k" and "i \<noteq> 0"
    and "\<And>k. used t k \<Longrightarrow> p_parent_pid (proc t k) \<noteq> n" and "current_ok t"
proof -
  note T = create_block_table [OF inv cur i n t_def]
  note I = proc_invD [OF inv]
  have u: "used t k \<longleftrightarrow> k = i \<or> used s k" for k
    using T(3) T(6) [of k] i by (cases "k = i") (auto simp: used_def split: if_splits)
  then show "used t k \<longleftrightarrow> k = i \<or> used s k" .
  show i0: "i \<noteq> 0" using i(2) I(2) by metis
  have unn: "unat (n + 1) = Suc (unat n)" by (rule unat_inc_less [OF nw])
  have less: "x < n \<Longrightarrow> x < n + 1" for x using less_inc_iff [OF nw, of x] by simp
  have old: "p_pid (proc t k) = p_pid (proc s k)" "p_parent_pid (proc t k) = p_parent_pid (proc s k)"
    if "used s k" for k
  proof -
    have "k \<noteq> i" using that i(2) by metis
    then show "p_pid (proc t k) = p_pid (proc s k)" "p_parent_pid (proc t k) = p_parent_pid (proc s k)"
      using T(6) [of k] used_lt [OF that] by simp_all
  qed
  have pidlt: "p_pid (proc s k) < n" if "used s k" for k
    using I(3) I(4) [OF that] n by (cases "k = 0") auto
  have parlt: "p_parent_pid (proc s k) < n" if "used s k" for k
    using parent_below [OF inv that] n by simp
  have pplt: "parent_of_new s < n" and pplive: "live_pid s (parent_of_new s)"
    using cur pidlt n(2) I(2,3) by (auto simp: parent_of_new_def current_ok_def live_pid_def split: option.splits)
  show par: "p_parent_pid (proc t k) \<noteq> n" if "used t k" for k
    using that u [of k] parlt [of k] pplt T(4) old [of k] by (cases "k = i") auto
  show "current_ok t" using cur u by (auto simp: current_ok_def T(9))
  have live: "live_pid t m" if "live_pid s m" for m
    using that u old(1) by (auto simp: live_pid_def)
  have ch: "children t m = (if m = parent_of_new s then insert i (children s m) else children s m)" for m
    using u old(2) T(4) i(2) by (auto simp: children_def)
  have cc: "p_child_count (proc t k) =
      (if current_process s = Some k \<and> p_pid (proc s k) \<noteq> 0 then p_child_count (proc s k) + 1
       else p_child_count (proc s k))" if "used s k" for k
  proof -
    have "k \<noteq> i" using that i(2) by metis
    then show ?thesis using T(6) [of k] used_lt [OF that] by simp
  qed
  have ccn: "unat (p_child_count (proc s k) + 1) = Suc (unat (p_child_count (proc s k)))" if "used s k" for k
    using I(6) [OF that] by (intro unat_inc_less [of _ "next_pid s"])
  have count: "card (children t (p_pid (proc t k))) \<le> unat (p_child_count (proc t k))" if k: "used t k" "k \<noteq> 0" for k
  proof (cases "k = i")
    case True
    then have "children t (p_pid (proc t k)) = {}" using par by (auto simp: children_def T(2))
    then show ?thesis by simp
  next
    case False
    then have us: "used s k" using k u by simp
    have "card (children s (p_pid (proc s k))) \<le> unat (p_child_count (proc s k))" using I(4) [OF us k(2)] by blast
    moreover have "current_process s = Some k \<and> p_pid (proc s k) \<noteq> 0" if pk: "p_pid (proc s k) = parent_of_new s"
    proof -
      have "p_pid (proc s k) \<noteq> 0" using I(4) [OF us k(2)] by blast
      then obtain c where c: "current_process s = Some c" "p_pid (proc s c) = p_pid (proc s k)"
        using pk by (auto simp: parent_of_new_def split: option.splits)
      then have "c = k" using cur I(5) [OF _ us] by (auto simp: current_ok_def)
      then show ?thesis using c \<open>p_pid (proc s k) \<noteq> 0\<close> by simp
    qed
    ultimately show ?thesis
      using old(1) [OF us] cc [OF us] ccn [OF us] card_insert_le_m1 [of "Suc (card (children s (p_pid (proc s k))))" "children s (p_pid (proc s k))" i]
      by (auto simp: ch)
  qed
  have bound: "p_child_count (proc t k) < next_pid t" if "used t k" for k
  proof (cases "k = i")
    case True
    then show ?thesis using T(5,7) unn by (simp add: word_less_nat_alt)
  next
    case False
    then have us: "used s k" using that u by simp
    show ?thesis
      using I(6) [OF us] cc [OF us] ccn [OF us] T(7) unn n by (auto simp: word_less_nat_alt)
  qed
  have dist: "k = j" if "used t k" "used t j" "p_pid (proc t k) = p_pid (proc t j)" for j k
    using that u old(1) I(5) pidlt T(2) by (metis less_irrefl)
  have link: "p_pid (proc t k) \<noteq> 0 \<and> p_pid (proc t k) < next_pid t \<and>
      p_parent_pid (proc t k) \<noteq> p_pid (proc t k) \<and> live_pid t (p_parent_pid (proc t k))"
    if k: "used t k" "k \<noteq> 0" for k
  proof (cases "k = i")
    case True
    then show ?thesis using T(2,4,7) n(2) pplt live [OF pplive] unn by (auto simp: word_less_nat_alt)
  next
    case False
    then have us: "used s k" using k u by simp
    show ?thesis using I(4) [OF us k(2)] old [OF us] T(7) less live n(1) by auto
  qed
  have zero: "used t 0" "p_pid (proc t 0) = 0" "p_parent_pid (proc t 0) = 0"
    using u I(2,3,7) old [of 0] by auto
  show "proc_inv t"
    unfolding proc_inv_def using T(1) zero link count dist bound by blast
qed

text \<open>The contract of a new process: every field \<open>process_create\<close> documents, apart from the parent and the
  frames the memory manager chose.\<close>

definition started :: "string \<Rightarrow> u32 \<Rightarrow> u32 \<Rightarrow> u32 \<Rightarrow> process \<Rightarrow> bool" where
  "started nm e pr n p \<longleftrightarrow> p_pid p = n \<and> p_state p = PROCESS_STATE_READY \<and> p_priority p = pr \<and>
     p_name p = take 31 nm \<and> p_eip p = e \<and> p_esp p = 0xBFFFFFFC \<and> p_ebp p = 0xBFFFFFFC \<and>
     p_user_stack p = 0xBFFFFFFC \<and> p_cs p = 0x1B \<and> p_ss p = 0x23 \<and>
     p_ds p = 0x23 \<and> p_es p = 0x23 \<and> p_fs p = 0x23 \<and> p_gs p = 0x23 \<and> p_eflags p = 0x3202 \<and>
     p_eax p = 0 \<and> p_ebx p = 0 \<and> p_ecx p = 0 \<and> p_edx p = 0 \<and> p_esi p = 0 \<and> p_edi p = 0 \<and>
     p_time_slice p = 10 \<and> p_total_time p = 0 \<and> p_exit_code p = 0 \<and> p_child_count p = 0 \<and>
     p_page_directory p \<noteq> 0 \<and> p_kernel_stack p - PAGE_SIZE \<noteq> 0"

lemma str_copy_safe_take: "str_copy_safe nm n = take (n - 1) nm"
  by (induction nm n rule: str_copy_safe.induct) (simp_all add: take_Cons')

text \<open>The result of \<open>process_create\<close> up to the memory manager: the new block with some fields set, or
  given back.\<close>

definition memory_fields :: "(process \<Rightarrow> process) \<Rightarrow> bool" where
  "memory_fields g \<longleftrightarrow> (\<exists>pd. g = (\<lambda>p. p\<lparr>p_page_directory := pd\<rparr>)) \<or>
     (\<exists>pd ks. g = (\<lambda>p. p\<lparr>p_page_directory := pd, p_kernel_stack := ks\<rparr>))"

lemma memory_fieldsI [simp]:
  "memory_fields (\<lambda>p. p\<lparr>p_page_directory := pd\<rparr>)"
  "memory_fields (\<lambda>p. p\<lparr>p_page_directory := pd, p_kernel_stack := ks\<rparr>)"
  unfolding memory_fields_def by blast+

lemma memory_fields_form:
  assumes "memory_fields g"
  shows "g p = p\<lparr>p_page_directory := p_page_directory (g p), p_kernel_stack := p_kernel_stack (g p)\<rparr>"
  using assms by (auto simp: memory_fields_def)

lemma process_create_form:
  assumes r: "process_create nm e pr s = Some (r, t)" and al: "process_alloc s = Some i"
    and s1: "s1 = create_block i (next_pid s) nm pr (s\<lparr>next_pid := next_pid s + 1\<rparr>)"
    and len: "i < length (process_table s1)"
  shows "\<exists>v g. memory_fields g \<and>
           ((r = 0 \<and> t = with_vm v (upd_proc i (\<lambda>p. (g p)\<lparr>p_state := PROCESS_STATE_UNUSED\<rparr>) s1)) \<or>
            (r = next_pid s \<and> (\<forall>p. p_page_directory (g p) \<noteq> 0 \<and> p_kernel_stack (g p) - PAGE_SIZE \<noteq> 0) \<and>
             t = with_vm v (upd_proc i (\<lambda>p. start_context e (g p)) s1)))"
proof -
  have fold1: "upd_proc i f (upd_proc i g s1) = upd_proc i (\<lambda>p. f (g p)) s1" for f g
    by (rule upd_proc_twice [OF len])
  have fail: "\<exists>v g. memory_fields g \<and> with_vm w (upd_proc i (\<lambda>p. (h p)\<lparr>p_state := PROCESS_STATE_UNUSED\<rparr>) s1) =
      with_vm v (upd_proc i (\<lambda>p. (g p)\<lparr>p_state := PROCESS_STATE_UNUSED\<rparr>) s1)"
    if "memory_fields h" for w h using that by blast
  note R = r [unfolded process_create_def al option.case process_next_pid_def Let_def prod.case, folded s1]
  obtain pd v1 where c: "vmm_create_page_directory (kvm s1) = Some (pd, v1)"
    using R by (cases "vmm_create_page_directory (kvm s1)") auto
  obtain ks v2 where ks: "alloc_frame v1 = (ks, v2)" by (cases "alloc_frame v1")
  obtain us v3 where us: "alloc_frame v2 = (us, v3)" by (cases "alloc_frame v2")
  consider "pd = 0" | "pd \<noteq> 0" "ks = 0" | "pd \<noteq> 0" "ks \<noteq> 0" "us = 0" | "pd \<noteq> 0" "ks \<noteq> 0" "us \<noteq> 0" by blast
  then show ?thesis
  proof cases
    case 1
    have "\<exists>v g. memory_fields g \<and> t = with_vm v (upd_proc i (\<lambda>p. (g p)\<lparr>p_state := PROCESS_STATE_UNUSED\<rparr>) s1)" "r = 0"
      using R c 1 by (auto simp: abandon_def fold1 intro!: fail)
    then show ?thesis by blast
  next
    case 2
    obtain w where "vmm_destroy_page_directory pd v2 = Some w"
      using R c ks 2 by (cases "vmm_destroy_page_directory pd v2") auto
    then have "\<exists>v g. memory_fields g \<and> t = with_vm v (upd_proc i (\<lambda>p. (g p)\<lparr>p_state := PROCESS_STATE_UNUSED\<rparr>) s1)" "r = 0"
      using R c ks 2 by (auto simp: abandon_def fold1 intro!: fail)
    then show ?thesis by blast
  next
    case 3
    then have "vmm_destroy_page_directory pd (release_page ks v3) \<bind>
        (\<lambda>w. Some (0, with_vm w (upd_proc i (\<lambda>p. p\<lparr>p_page_directory := pd, p_kernel_stack := ks + PAGE_SIZE,
          p_state := PROCESS_STATE_UNUSED\<rparr>) s1))) = Some (r, t)"
      using R c ks us by (simp add: abandon_def fold1)
    then have "\<exists>v g. memory_fields g \<and> t = with_vm v (upd_proc i (\<lambda>p. (g p)\<lparr>p_state := PROCESS_STATE_UNUSED\<rparr>) s1)" "r = 0"
      by (auto simp: bind_eq_Some_conv intro!: fail)
    then show ?thesis by blast
  next
    case 4
    let ?d = "vmm_get_current_directory v3"
    obtain ok v5 where m: "vmm_map_page 0xBFFFF000 us (PTE_PRESENT OR PTE_WRITABLE OR PTE_USER)
        (vmm_switch_page_directory pd v3) = Some (ok, v5)"
      using R c ks us 4
      by (cases "vmm_map_page 0xBFFFF000 us (PTE_PRESENT OR PTE_WRITABLE OR PTE_USER)
        (vmm_switch_page_directory pd v3)") auto
    show ?thesis
    proof (cases ok)
      case False
      then have "vmm_destroy_page_directory pd (release_page ks (release_page us (vmm_switch_page_directory ?d v5))) \<bind>
          (\<lambda>w. Some (0, with_vm w (upd_proc i (\<lambda>p. p\<lparr>p_page_directory := pd, p_kernel_stack := ks + PAGE_SIZE,
            p_state := PROCESS_STATE_UNUSED\<rparr>) s1))) = Some (r, t)"
        using R c ks us 4 m by (simp add: abandon_def fold1)
      then have "\<exists>v g. memory_fields g \<and> t = with_vm v (upd_proc i (\<lambda>p. (g p)\<lparr>p_state := PROCESS_STATE_UNUSED\<rparr>) s1)" "r = 0"
        by (auto simp: bind_eq_Some_conv intro!: fail)
      then show ?thesis by blast
    next
      case True
      then obtain w where "t = with_vm w (upd_proc i (\<lambda>p. start_context e (p\<lparr>p_page_directory := pd,
          p_kernel_stack := ks + PAGE_SIZE\<rparr>)) s1)" "r = next_pid s"
        using R c ks us 4 m by (auto simp: bind_eq_Some_conv fold1)
      then show ?thesis
        by (intro exI [of _ w] exI [of _ "\<lambda>p. p\<lparr>p_page_directory := pd, p_kernel_stack := ks + PAGE_SIZE\<rparr>"]) (simp add: 4)
    qed
  qed
qed

text \<open>Giving an unused block back keeps the invariant.\<close>

lemma abandon_inv:
  assumes inv: "proc_inv s" and i: "i < 32" "i \<noteq> 0" and par: "\<And>k. used s k \<Longrightarrow> p_parent_pid (proc s k) \<noteq> p_pid (proc s i)"
    and t: "process_table t = (process_table s)[i := q]" "p_state q = 0" "next_pid t = next_pid s"
  shows "proc_inv t" and "used t k \<longleftrightarrow> k \<noteq> i \<and> used s k"
proof -
  have len: "length (process_table s) = 32" by (rule proc_invD(1) [OF inv])
  have u: "used t k \<longleftrightarrow> k \<noteq> i \<and> used s k" for k
    using len i by (cases "k = i") (auto simp: used_def t)
  then show "used t k \<longleftrightarrow> k \<noteq> i \<and> used s k" .
  have old: "proc t k = proc s k" if "k \<noteq> i" for k using that by (simp add: t(1))
  have live: "live_pid t m" if "live_pid s m" "m \<noteq> p_pid (proc s i)" for m
    using that u old unfolding live_pid_def by metis
  have ch: "children t m \<subseteq> children s m" for m
    using u old by (auto simp: children_def)
  note I = proc_invD [OF inv]
  have "card (children t (p_pid (proc t k))) \<le> unat (p_child_count (proc t k))" if "used t k" "k \<noteq> 0" for k
    using card_mono [OF finite_children ch [of "p_pid (proc s k)"]] I(4) [of k] that u old [of k] by force
  moreover have "p_pid (proc t k) \<noteq> 0 \<and> p_pid (proc t k) < next_pid t \<and>
      p_parent_pid (proc t k) \<noteq> p_pid (proc t k) \<and> live_pid t (p_parent_pid (proc t k))"
    if "used t k" "k \<noteq> 0" for k
    using that u [of k] old [of k] I(4) [of k] par [of k] live t(3) by simp
  moreover have "k = j" if "used t k" "used t j" "p_pid (proc t k) = p_pid (proc t j)" for j k
    using that u old I(5) by metis
  moreover have "p_child_count (proc t k) < next_pid t" if "used t k" for k
    using that u old I(6) t(3) by metis
  moreover have "used t 0" "p_pid (proc t 0) = 0" "p_parent_pid (proc t 0) = 0" "length (process_table t) = 32"
    using u i(2) old [of 0] I(1,2,3,7) t(1) by auto
  ultimately show "proc_inv t" unfolding proc_inv_def by blast
qed

text \<open>Every outcome of \<open>process_create\<close> in the process table.\<close>

lemma process_create_cases:
  assumes inv: "proc_inv s" and cur: "current_ok s" and n: "0 < next_pid s" "next_pid s < 0xFFFFFFFF"
    and r: "process_create nm e pr s = Some (r, t)"
  obtains (full) "r = 0" "t = s" "\<forall>i < 32. used s i"
  | (failed) "r = 0" "proc_inv t" "\<And>k. used t k \<longleftrightarrow> used s k" "current_ok t" "current_process t = current_process s" "next_pid t = next_pid s + 1"
      "\<And>k. used s k \<Longrightarrow> proc t k = (if current_process s = Some k \<and> p_pid (proc s k) \<noteq> 0
         then (proc s k)\<lparr>p_child_count := p_child_count (proc s k) + 1\<rparr> else proc s k)"
  | (made) i where "r = next_pid s" "process_alloc s = Some i" "proc_inv t" "\<And>k. used t k \<longleftrightarrow> k = i \<or> used s k"
      "current_ok t" "current_process t = current_process s" "next_pid t = next_pid s + 1" "p_pid (proc t i) = r" "p_state (proc t i) = PROCESS_STATE_READY"
      "p_parent_pid (proc t i) = parent_of_new s" "p_eip (proc t i) = e" "p_esp (proc t i) = 0xBFFFFFFC"
      "p_cs (proc t i) = 0x1B" "p_ss (proc t i) = 0x23" "p_priority (proc t i) = pr"
      "\<And>k. used s k \<Longrightarrow> proc t k = (if current_process s = Some k \<and> p_pid (proc s k) \<noteq> 0
         then (proc s k)\<lparr>p_child_count := p_child_count (proc s k) + 1\<rparr> else proc s k)"
      "started nm e pr r (proc t i)"
proof (cases "process_alloc s")
  case None
  then show thesis using r process_alloc_None [of s] by (intro full) (simp_all add: process_create_def)
next
  case (Some i)
  note al = process_alloc_Some [OF Some]
  define s1 where "s1 = create_block i (next_pid s) nm pr (s\<lparr>next_pid := next_pid s + 1\<rparr>)"
  have i: "i < 32" "\<not> used s i" using al by auto
  note T = create_block_table [OF inv cur i refl n(1) s1_def]
    and I = create_block_inv [OF inv cur i refl n(1) s1_def n(2)]
  have len: "i < length (process_table s1)" using i(1) T(1) by simp
  have old: "proc s1 k = (if current_process s = Some k \<and> p_pid (proc s k) \<noteq> 0
         then (proc s k)\<lparr>p_child_count := p_child_count (proc s k) + 1\<rparr> else proc s k)" "k \<noteq> i" if "used s k" for k
  proof -
    show "k \<noteq> i" using that i(2) by metis
    then show "proc s1 k = (if current_process s = Some k \<and> p_pid (proc s k) \<noteq> 0
         then (proc s k)\<lparr>p_child_count := p_child_count (proc s k) + 1\<rparr> else proc s k)"
      using T(6) [of k] used_lt [OF that] by blast
  qed
  obtain v g where g: "memory_fields g" and
    res: "(r = 0 \<and> t = with_vm v (upd_proc i (\<lambda>p. (g p)\<lparr>p_state := PROCESS_STATE_UNUSED\<rparr>) s1)) \<or>
       (r = next_pid s \<and> (\<forall>p. p_page_directory (g p) \<noteq> 0 \<and> p_kernel_stack (g p) - PAGE_SIZE \<noteq> 0) \<and>
        t = with_vm v (upd_proc i (\<lambda>p. start_context e (g p)) s1))"
    using process_create_form [OF r Some s1_def len] by blast
  from res show thesis
  proof
    assume f: "r = 0 \<and> t = with_vm v (upd_proc i (\<lambda>p. (g p)\<lparr>p_state := PROCESS_STATE_UNUSED\<rparr>) s1)"
    have par: "p_parent_pid (proc s1 k) \<noteq> p_pid (proc s1 i)" if "used s1 k" for k
      using I(4) [OF that] T(2) by simp
    have tt: "process_table t = (process_table s1)[i := (g (proc s1 i))\<lparr>p_state := PROCESS_STATE_UNUSED\<rparr>]"
      "next_pid t = next_pid s1" "current_process t = current_process s" using f T(9) by simp_all
    note A = abandon_inv [OF I(1) i(1) I(3) par tt(1) _ tt(2)]
    have u: "used t k \<longleftrightarrow> used s k" for k
      using A(2) [of k] I(2) [of k] i(2) by (auto simp: word_norm)
    show thesis
    proof (rule failed)
      show "current_ok t" using cur u tt(3) by (simp add: current_ok_def)
      show "proc t k = (if current_process s = Some k \<and> p_pid (proc s k) \<noteq> 0
         then (proc s k)\<lparr>p_child_count := p_child_count (proc s k) + 1\<rparr> else proc s k)" if "used s k" for k
        using old [OF that] by (simp add: tt(1))
    qed (use f A(1) u T(7) tt in \<open>simp_all add: word_norm\<close>)
  next
    assume f: "r = next_pid s \<and> (\<forall>p. p_page_directory (g p) \<noteq> 0 \<and> p_kernel_stack (g p) - PAGE_SIZE \<noteq> 0) \<and>
        t = with_vm v (upd_proc i (\<lambda>p. start_context e (g p)) s1)"
    have tt: "process_table t = (process_table s1)[i := start_context e (g (proc s1 i))]"
      "next_pid t = next_pid s1" "current_process t = current_process s" using f T(9) by simp_all
    have N: "proc t i = start_context e (g (proc s1 i))" using len by (simp add: tt(1))
    have sl: "same_links (proc t k) (proc s1 k)" for k
      using g N by (cases "k = i") (auto simp: tt(1) same_links_def memory_fields_def start_context_def Let_def)
    have NF: "p_pid (proc t i) = next_pid s" "p_state (proc t i) = PROCESS_STATE_READY"
      "p_parent_pid (proc t i) = parent_of_new s" "p_eip (proc t i) = e" "p_esp (proc t i) = 0xBFFFFFFC"
      "p_cs (proc t i) = 0x1B" "p_ss (proc t i) = 0x23" "p_priority (proc t i) = pr"
      unfolding N using g T(2,3,4,10)
      by (auto simp: start_context_def Let_def memory_fields_def word_norm PAGE_SIZE_def)
    have st: "started nm e pr (next_pid s) (proc t i)"
    proof -
      obtain pd ks where "g (proc s1 i) = (proc s1 i)\<lparr>p_page_directory := pd, p_kernel_stack := ks\<rparr>"
        using memory_fields_form [OF g] by blast
      moreover have "p_page_directory (g (proc s1 i)) \<noteq> 0 \<and> p_kernel_stack (g (proc s1 i)) - PAGE_SIZE \<noteq> 0"
        using f by blast
      ultimately show ?thesis
        unfolding N started_def using T(2,3,5,10-14)
        by (simp add: start_context_def Let_def str_copy_safe_take word_norm PAGE_SIZE_def)
    qed
    have inv': "proc_inv t" using proc_inv_cong [OF I(1) _ tt(2) sl] T(1) tt(1) by simp
    have u: "used t k \<longleftrightarrow> k = i \<or> used s k" for k
      using sl [of k] I(2) [of k] unfolding used_def same_links_def by metis
    show thesis
    proof (rule made [OF _ Some inv' u])
      show "current_ok t" using cur u tt(3) by (simp add: current_ok_def)
      show "proc t k = (if current_process s = Some k \<and> p_pid (proc s k) \<noteq> 0
         then (proc s k)\<lparr>p_child_count := p_child_count (proc s k) + 1\<rparr> else proc s k)" if "used s k" for k
        using old [OF that] by (simp add: tt(1))
      show "current_process t = current_process s" by (rule tt(3))
    qed (use f T(7) NF st in \<open>simp_all add: tt(2)\<close>)
  qed
qed

section \<open>Termination\<close>

lemma reparent_spec:
  assumes "length (process_table s) = 32"
  shows "length (process_table (reparent n s)) = 32"
    and "k < 32 \<Longrightarrow> proc (reparent n s) k =
      (if p_state (proc s k) \<noteq> 0 \<and> p_parent_pid (proc s k) = n then (proc s k)\<lparr>p_parent_pid := 0\<rparr> else proc s k)"
    and "kvm (reparent n s) = kvm s" and "next_pid (reparent n s) = next_pid s"
    and "current_process (reparent n s) = current_process s"
proof -
  let ?f = "\<lambda>p. if p_state p \<noteq> 0 \<and> p_parent_pid p = n then p\<lparr>p_parent_pid := 0\<rparr> else p"
  let ?step = "\<lambda>i t. let child = process_table t ! i
                 in if p_state child \<noteq> PROCESS_STATE_UNUSED \<and> p_parent_pid child = n
                    then upd_proc i (\<lambda>p. p\<lparr>p_parent_pid := 0\<rparr>) t else t"
  have "fold ?step [0..<m] s = s\<lparr>process_table := map ?f (take m (process_table s)) @ drop m (process_table s)\<rparr>"
    if "m \<le> 32" for m
    using that
  proof (induction m)
    case (Suc m)
    then have m: "m < length (process_table s)" using assms by simp
    then have "take (Suc m) (process_table s) = take m (process_table s) @ [proc s m]"
      "drop m (process_table s) = proc s m # drop (Suc m) (process_table s)"
      by (simp_all add: take_Suc_conv_app_nth Cons_nth_drop_Suc)
    then show ?case
      using Suc m by (auto simp: Let_def upd_proc_def nth_append list_update_append word_norm)
  qed simp
  from this [of 32] have r: "reparent n s = s\<lparr>process_table := map ?f (process_table s)\<rparr>"
    using assms by (simp add: reparent_def MAX_PROCESSES_def)
  show "length (process_table (reparent n s)) = 32" "kvm (reparent n s) = kvm s"
    "next_pid (reparent n s) = next_pid s" "current_process (reparent n s) = current_process s"
    "k < 32 \<Longrightarrow> proc (reparent n s) k = ?f (proc s k)"
    using assms by (simp_all add: r)
qed

definition exit_release :: "u32 \<Rightarrow> vmm \<Rightarrow> vmm option" where
  "exit_release pd v =
     (if pd \<noteq> 0 \<and> pd \<noteq> vmm_get_current_directory v then vmm_destroy_page_directory pd v else Some v)"

lemma process_exit_form:
  assumes inv: "proc_inv s" and n: "n \<noteq> 0" and i: "process_get n s = Some i"
  obtains t where "process_exit_with_code n code s =
      map_option (\<lambda>v. with_vm v t) (exit_release (p_page_directory (proc s i)) (kvm s))" "next_pid t = next_pid s"
    "current_process t = current_process s" "length (process_table t) = 32"
    "p_state (proc t i) = 0" "p_pid (proc t i) = 0" "p_exit_code (proc t i) = code"
    "\<And>k. used s k \<Longrightarrow> k \<noteq> i \<Longrightarrow> proc t k = (proc s k)
       \<lparr>p_parent_pid := (if p_parent_pid (proc s k) = n then 0 else p_parent_pid (proc s k)),
        p_child_count := (if p_pid (proc s k) = p_parent_pid (proc s i) \<and> k \<noteq> 0
          then p_child_count (proc s k) - 1 else p_child_count (proc s k))\<rparr>"
    "\<And>k. used t k \<longleftrightarrow> used s k \<and> k \<noteq> i"
proof -
  note I = proc_invD [OF inv]
  have ui: "used s i" "p_pid (proc s i) = n" using process_get_Some [OF i] by auto
  have i0: "i \<noteq> 0" using ui I(3) n by metis
  have il: "i < 32" using ui(1) by (rule used_lt)
  have par: "p_parent_pid (proc s i) \<noteq> n" "live_pid s (p_parent_pid (proc s i))"
    using I(4) [OF ui(1) i0] ui(2) by auto
  define s1 where "s1 = upd_proc i (\<lambda>p. p\<lparr>p_exit_code := code\<rparr>) s"
  have len1: "length (process_table s1) = 32" using I(1) by (simp add: s1_def)
  have sl: "same_links (proc s1 k) (proc s k)" for k
    using I(1) il by (cases "k = i") (simp_all add: s1_def same_links_def)
  have inv1: "proc_inv s1" using proc_inv_cong [OF inv len1 _ sl] by (simp add: s1_def)
  have u1: "used s1 k = used s k" for k using sl [of k] unfolding used_def same_links_def by metis
  have pi1: "p_parent_pid (proc s1 i) = p_parent_pid (proc s i)" using sl [of i] by (simp add: same_links_def)
  define s2 where "s2 = (if p_parent_pid (proc s1 i) \<noteq> 0
                      then (case process_get (p_parent_pid (proc s1 i)) s1 of
                              None \<Rightarrow> s1
                            | Some j \<Rightarrow>
                                if p_child_count (proc s1 j) > 0
                                then upd_proc j (\<lambda>p. p\<lparr>p_child_count := p_child_count p - 1\<rparr>) s1
                                else s1)
                      else s1)"
  let ?dec = "\<lambda>k. p_pid (proc s k) = p_parent_pid (proc s i) \<and> k \<noteq> 0"
  have s2: "length (process_table s2) = 32 \<and> kvm s2 = kvm s \<and> next_pid s2 = next_pid s \<and>
      current_process s2 = current_process s \<and>
      (\<forall>k. used s k \<longrightarrow> proc s2 k = (if ?dec k then (proc s1 k)\<lparr>p_child_count := p_child_count (proc s1 k) - 1\<rparr> else proc s1 k))
      \<and> (\<forall>k < 32. \<not> used s k \<longrightarrow> proc s2 k = proc s1 k)"
  proof (cases "p_parent_pid (proc s i) = 0")
    case True
    then have "\<not> ?dec k" if "used s k" for k using that I(4) [of k] by auto
    then show ?thesis using True pi1 len1 by (simp add: s2_def) (simp add: s1_def)
  next
    case False
    obtain j where j: "used s j" "p_pid (proc s j) = p_parent_pid (proc s i)"
      using par(2) by (auto simp: live_pid_def)
    have g: "process_get (p_parent_pid (proc s1 i)) s1 = Some j"
      using process_get_iff [OF inv1] j u1 sl [of j] by (simp add: pi1 same_links_def)
    have j0: "j \<noteq> 0" using False j(2) I(3) by metis
    have "i \<in> children s (p_pid (proc s j))" using ui j(2) by (simp add: children_def)
    then have "0 < card (children s (p_pid (proc s j)))" using card_gt_0_iff finite_children by blast
    then have "0 < p_child_count (proc s1 j)"
      using I(4) [OF j(1) j0] sl [of j] by (simp add: same_links_def word_less_nat_alt)
    then have s2e: "s2 = upd_proc j (\<lambda>p. p\<lparr>p_child_count := p_child_count p - 1\<rparr>) s1"
      using False g pi1 by (simp add: s2_def)
    have dj: "?dec k \<longleftrightarrow> k = j" if "used s k" for k
      using I(5) [OF that j(1)] j(2) j0 by metis
    have p2: "proc s2 k = (if k = j then (proc s1 k)\<lparr>p_child_count := p_child_count (proc s1 k) - 1\<rparr> else proc s1 k)" for k
      using len1 used_lt [OF j(1)] by (simp add: s2e nth_list_update)
    have "proc s2 k = proc s1 k" if "\<not> used s k" for k using that j(1) p2 [of k] by metis
    moreover have "length (process_table s2) = 32 \<and> kvm s2 = kvm s \<and> next_pid s2 = next_pid s \<and>
        current_process s2 = current_process s"
      using len1 by (simp add: s2e) (simp add: s1_def)
    ultimately show ?thesis using p2 dj by simp
  qed
  have ndi: "\<not> ?dec i" using par(1) ui(2) by simp
  define s3 where "s3 = (if p_child_count (proc s2 i) > 0 then reparent n s2 else s2)"
  have cci: "p_child_count (proc s2 i) = p_child_count (proc s i)"
    using s2 ui(1) ndi sl [of i] by (simp add: same_links_def)
  have st2: "used s2 k = used s k" "p_parent_pid (proc s2 k) = p_parent_pid (proc s k)" if "used s k" for k
    using s2 that sl [of k] u1 [of k] by (auto simp: used_def same_links_def)
  have s3: "length (process_table s3) = 32" "kvm s3 = kvm s" "next_pid s3 = next_pid s"
      "current_process s3 = current_process s"
    using s2 reparent_spec(1,3,4,5) [of s2 n] by (auto simp: s3_def)
  have s3k: "proc s3 k = (if p_parent_pid (proc s k) = n then (proc s2 k)\<lparr>p_parent_pid := 0\<rparr> else proc s2 k)"
    if k: "used s k" for k
  proof (cases "p_child_count (proc s2 i) > 0")
    case True
    then show ?thesis
      using reparent_spec(2) [of s2 k n] s2 st2 [OF k] k by (auto simp: s3_def used_def)
  next
    case False
    then have "children s n = {}"
      using I(4) [OF ui(1) i0] ui(2) cci by (simp add: word_less_nat_alt)
    then have "p_parent_pid (proc s k) \<noteq> n" using k by (auto simp: children_def)
    then show ?thesis using False by (simp add: s3_def)
  qed
  have s3u: "p_state (proc s3 k) = 0" if "k < 32" "\<not> used s k" for k
  proof -
    have "p_state (proc s2 k) = 0" using s2 that sl [of k] by (auto simp: used_def same_links_def)
    then show ?thesis using reparent_spec(2) [of s2 k n] s2 that by (auto simp: s3_def)
  qed
  have pd: "p_page_directory (proc s3 i) = p_page_directory (proc s i)"
    using s3k [OF ui(1)] par(1) s2 ui(1) ndi I(1) il by (simp add: s1_def)
  define t where "t = upd_proc i (\<lambda>p. p\<lparr>p_state := PROCESS_STATE_UNUSED, p_pid := 0\<rparr>) s3"
  have rel': "(if p_page_directory (proc s3 i) \<noteq> 0 \<and> p_page_directory (proc s3 i) \<noteq> vmm_get_current_directory (kvm s3)
      then vmm_destroy_page_directory (p_page_directory (proc s3 i)) (kvm s3) else Some (kvm s3)) =
      exit_release (p_page_directory (proc s i)) (kvm s)"
    unfolding exit_release_def pd s3(2) ..
  have nu: "p_state (proc s i) \<noteq> PROCESS_STATE_UNUSED" using ui(1) by (simp add: used_def word_norm)
  have ex: "process_exit_with_code n code s =
      map_option (\<lambda>v. with_vm v t) (exit_release (p_page_directory (proc s i)) (kvm s))"
    unfolding process_exit_with_code_def i option.case Let_def s1_def [symmetric]
    unfolding s2_def [symmetric] unfolding s3_def [symmetric] unfolding rel'
    using nu by (cases "exit_release (p_page_directory (proc s i)) (kvm s)") (simp_all add: t_def process_yield_def)
  have tk: "proc t k = proc s3 k" if "k \<noteq> i" for k using that by (simp add: t_def)
  have ti: "proc t i = (proc s3 i)\<lparr>p_state := PROCESS_STATE_UNUSED, p_pid := 0\<rparr>"
    using s3(1) il by (simp add: t_def)
  have "p_exit_code (proc s3 i) = code"
    using s3k [OF ui(1)] par(1) s2 ui(1) ndi I(1) il by (simp add: s1_def)
  moreover have tused: "proc t k = (proc s k)
       \<lparr>p_parent_pid := (if p_parent_pid (proc s k) = n then 0 else p_parent_pid (proc s k)),
        p_child_count := (if p_pid (proc s k) = p_parent_pid (proc s i) \<and> k \<noteq> 0
          then p_child_count (proc s k) - 1 else p_child_count (proc s k))\<rparr>" if "used s k" "k \<noteq> i" for k
    using tk [OF that(2)] s3k [OF that(1)] s2 that by (simp add: s1_def)
  moreover have "used t k \<longleftrightarrow> used s k \<and> k \<noteq> i" for k
  proof (cases "used s k")
    case True
    then show ?thesis using tused [OF True] ti by (cases "k = i") (auto simp: used_def word_norm)
  next
    case False
    then have "k \<noteq> i" using ui(1) by metis
    then show ?thesis using False s3u [of k] tk [of k] by (auto simp: used_def)
  qed
  ultimately show thesis
    using s3 by (intro that [OF ex]) (simp_all add: ti word_norm, simp_all add: t_def)
qed

lemma with_vm_used [simp]: "used (with_vm v s) k = used s k"
  by (simp add: used_def)

lemma process_exit_cases:
  assumes inv: "proc_inv s" and n: "n \<noteq> 0" and i: "process_get n s = Some i"
    and rel: "exit_release (p_page_directory (proc s i)) (kvm s) = Some v"
  obtains t where "process_exit_with_code n code s = Some t" "kvm t = v" "next_pid t = next_pid s"
    "current_process t = current_process s" "length (process_table t) = 32"
    "p_state (proc t i) = 0" "p_pid (proc t i) = 0" "p_exit_code (proc t i) = code"
    "\<And>k. used s k \<Longrightarrow> k \<noteq> i \<Longrightarrow> proc t k = (proc s k)
       \<lparr>p_parent_pid := (if p_parent_pid (proc s k) = n then 0 else p_parent_pid (proc s k)),
        p_child_count := (if p_pid (proc s k) = p_parent_pid (proc s i) \<and> k \<noteq> 0
          then p_child_count (proc s k) - 1 else p_child_count (proc s k))\<rparr>"
    "\<And>k. used t k \<longleftrightarrow> used s k \<and> k \<noteq> i"
proof -
  from inv n i show thesis
  proof (rule process_exit_form [where code = code])
    fix t0
    assume f: "process_exit_with_code n code s = map_option (\<lambda>v. with_vm v t0)
        (exit_release (p_page_directory (proc s i)) (kvm s))"
      and g: "next_pid t0 = next_pid s" "current_process t0 = current_process s" "length (process_table t0) = 32"
        "p_state (proc t0 i) = 0" "p_pid (proc t0 i) = 0" "p_exit_code (proc t0 i) = code"
      and h: "\<And>k. used s k \<Longrightarrow> k \<noteq> i \<Longrightarrow> proc t0 k = (proc s k)
       \<lparr>p_parent_pid := (if p_parent_pid (proc s k) = n then 0 else p_parent_pid (proc s k)),
        p_child_count := (if p_pid (proc s k) = p_parent_pid (proc s i) \<and> k \<noteq> 0
          then p_child_count (proc s k) - 1 else p_child_count (proc s k))\<rparr>"
      and u: "\<And>k. used t0 k \<longleftrightarrow> used s k \<and> k \<noteq> i"
    show thesis
    proof (rule that)
      show "process_exit_with_code n code s = Some (with_vm v t0)" using f rel by simp
      show "proc (with_vm v t0) k = (proc s k)
       \<lparr>p_parent_pid := (if p_parent_pid (proc s k) = n then 0 else p_parent_pid (proc s k)),
        p_child_count := (if p_pid (proc s k) = p_parent_pid (proc s i) \<and> k \<noteq> 0
          then p_child_count (proc s k) - 1 else p_child_count (proc s k))\<rparr>" if "used s k" "k \<noteq> i" for k
        using h [OF that] by simp
    qed (use g u in simp_all)
  qed
qed

lemma process_exit_Some:
  assumes "proc_inv s" and "n \<noteq> 0" and "process_get n s = Some i" and "process_exit_with_code n code s = Some t"
  obtains v where "exit_release (p_page_directory (proc s i)) (kvm s) = Some v"
  using process_exit_form [OF assms(1-3), of code] assms(4) by fastforce

end
