(* ===== verification/Process_Life.thy ===== *)
theory Process_Life
  imports Process
begin

text \<open>
  The life of a process: what \<open>process_create\<close> and \<open>process_exit_with_code\<close> do to the process
  table and to the address spaces.
\<close>

section \<open>The address space of a new process\<close>

lemma alloc_frame_spec:
  assumes inv: "vm_inv v" and ker: "kernel_ok v" and room: "0 < low_free v"
  obtains a w where "alloc_frame v = (a, w)" "a \<noteq> 0" "page_ok a" "a \<in> free_now v" "free_now w = free_now v - {a}"
    "vm_inv w" "kernel_ok w" "Suc (low_free w) = low_free v" "vm_memory w = vm_memory v"
    "current_pd_phys w = current_pd_phys v" "kernel_page_directory w = kernel_page_directory v"
    "managed_frames (vm_pmm w) = managed_frames (vm_pmm v)"
proof -
  obtain a q where al: "pmm_alloc_page (vm_pmm v) = (a, q)" by (cases "pmm_alloc_page (vm_pmm v)")
  note a = alloc_low [OF vm_invD(1) [OF inv] room al]
  note b = vm_inv_alloc [OF inv al a(1)]
  have "alloc_frame v = (a, v\<lparr>vm_pmm := q\<rparr>)" using al by (simp add: alloc_frame_def)
  then show thesis
    by (rule that) (use a b ker in \<open>auto simp: kernel_ok_def tables_ok_def low_free_def\<close>)
qed

text \<open>The kernel's directory when only free frames and its own first table were written, the latter
  without losing the identity mapping.\<close>

lemma kernel_low:
  assumes K: "tables_ok m k fs" and eq: "\<And>g. g \<in> dir_pages m k \<Longrightarrow> g \<noteq> table_of m k 0 \<Longrightarrow> page_eq m m' g"
    and D: "tables_ok m' pd fs'" and same: "pde m' pd 0 = pde m k 0"
  shows "walk m' k = walk m k" and "tables_ok m' k fs"
proof -
  have zero: "(0 :: u32) < 1024" by simp
  have k: "page_eq m m' k"
  proof (rule eq)
    have "has_table m k 0" by (rule low_entry(1) [OF K, of 0]) (simp add: page_ok_def)
    moreover have "(0 :: u32) < 1024" by simp
    ultimately show "k \<noteq> table_of m k 0" using K unfolding tables_ok_def by metis
  qed (simp add: dir_pages_def)
  note d = dir_eq [OF k]
  have p0: "pde m' pd 0 = pde m' k 0" using same k by (simp add: pde_def page_eq_def)
  have w: "walk m' k a = walk m k a" for a
  proof (cases "VADDR_PD_INDEX a = 0")
    case True
    then have "walk m' k a = walk m' pd a"
      using p0 by (simp add: walk_eq has_table_def table_of_def)
    then show ?thesis using True D K low_iff [of a] by (simp add: tables_ok_def)
  next
    case False
    show ?thesis
    proof (cases "has_table m k (VADDR_PD_INDEX a)")
      case True
      have "has_table m k 0" by (rule low_entry(1) [OF K, of 0]) (simp add: page_ok_def)
      then have "table_of m k (VADDR_PD_INDEX a) \<noteq> table_of m k 0"
        using K True False index_less(1) [of a] zero unfolding tables_ok_def by blast
      then have "page_eq m m' (table_of m k (VADDR_PD_INDEX a))"
        using True by (intro eq) (auto simp: dir_pages_def)
      then show ?thesis using d [OF index_less(1) [of a]] by (simp add: walk_eq page_eq_def)
    qed (use d [OF index_less(1) [of a]] in \<open>simp add: walk_eq\<close>)
  qed
  show "walk m' k = walk m k" using w by (simp add: fun_eq_iff)
  show "tables_ok m' k fs" using K d w by (auto simp: tables_ok_def)
qed

lemma tables_ok_subset: "tables_ok m pd fs \<Longrightarrow> gs \<subseteq> fs \<Longrightarrow> tables_ok m pd gs"
  by (auto simp: tables_ok_def)

lemma no_low_free: "free_now v = {} \<Longrightarrow> low_free v = 0"
  by (simp add: low_free_def)

text \<open>
  All steps of \<open>process_create\<close> in the memory manager: from the kernel's directory, with five frames
  free below 4 MB and the entry point there, they succeed; the new directory maps the low 4 MB, the
  kernel's upper quarter and one stack page, and the kernel's own mapping is as before.
\<close>

lemma user_space:
  assumes inv: "vm_inv v" and ker: "kernel_ok v" and cur: "current_pd_phys v = kernel_page_directory v"
    and room: "5 \<le> low_free v" and e: "e < 0x400000"
  obtains pd v1 ks v2 us v3 v5 v6 ok where
    "vmm_create_page_directory v = Some (pd, v1)" "pd \<noteq> 0"
    "alloc_frame v1 = (ks, v2)" "ks \<noteq> 0" "alloc_frame v2 = (us, v3)" "us \<noteq> 0"
    "vmm_map_page 0xBFFFF000 us (PTE_PRESENT OR PTE_WRITABLE OR PTE_USER) (vmm_switch_page_directory pd v3) = Some (True, v5)"
    "vmm_get_physical (e AND 0xFFFFF000) v5 = Some (e AND 0xFFFFF000)"
    "vmm_map_page (e AND 0xFFFFF000) (e AND 0xFFFFF000) (PTE_PRESENT OR PTE_USER) v5 = Some (ok, v6)"
    "vmm_get_current_directory v3 = current_pd_phys v"
    "vm_inv (vmm_switch_page_directory (current_pd_phys v) v6)"
    "kernel_ok (vmm_switch_page_directory (current_pd_phys v) v6)"
    "space (vmm_switch_page_directory (current_pd_phys v) v6) = space v"
    "current_pd_phys (vmm_switch_page_directory (current_pd_phys v) v6) = kernel_page_directory v"
    "kernel_page_directory (vmm_switch_page_directory (current_pd_phys v) v6) = kernel_page_directory v"
    "free_now v6 \<subseteq> free_now v - {pd, ks, us}" "low_free v \<le> low_free v6 + 4"
    "managed_frames (vm_pmm v6) = managed_frames (vm_pmm v)"
    "tables_ok (vm_memory v6) pd (free_now v6)" "pd \<noteq> kernel_page_directory v"
    "walk (vm_memory v6) pd = (\<lambda>a. if page_of a = 0xBFFFF000 then Some (us OR VADDR_OFFSET a)
       else if a < 0x400000 \<or> 0xC0000000 \<le> a then space v a else None)"
    "us \<in> free_now v"
proof -
  let ?k = "kernel_page_directory v"
  have r0: "0 < low_free v" using room by simp
  obtain pd v1 where c: "vmm_create_page_directory v = Some (pd, v1)" "pd \<in> free_now v" "pd \<noteq> 0"
    "vm_inv v1" "kernel_ok v1" "space v1 = space v" "free_now v1 = free_now v - {pd}"
    "current_pd_phys v1 = current_pd_phys v" "kernel_page_directory v1 = kernel_page_directory v"
    "tables_ok (vm_memory v1) pd (free_now v1)" "Suc (low_free v1) = low_free v"
    "\<And>a. walk (vm_memory v1) pd a = (if VADDR_PD_INDEX a = 0 \<or> 768 \<le> VADDR_PD_INDEX a
        then walk (vm_memory v) (kernel_page_directory v) a else None)"
    "walk (vm_memory v1) (kernel_page_directory v1) = walk (vm_memory v) (kernel_page_directory v)"
    "managed_frames (vm_pmm v1) = managed_frames (vm_pmm v)"
    "\<And>i. i < 1024 \<Longrightarrow> pde (vm_memory v1) pd i =
       (if i = 0 \<or> 768 \<le> i then pde (vm_memory v1) (kernel_page_directory v1) i else 0)"
    "dir_pages (vm_memory v1) (kernel_page_directory v1) = dir_pages (vm_memory v) (kernel_page_directory v)"
    by (rule create_directory_spec [OF inv ker r0]) (rule that, assumption+)
  have r1: "0 < low_free v1" using c(11) room by simp
  obtain ks v2 where f2: "alloc_frame v1 = (ks, v2)" "ks \<noteq> 0" "page_ok ks" "ks \<in> free_now v1"
    "free_now v2 = free_now v1 - {ks}" "vm_inv v2" "kernel_ok v2" "Suc (low_free v2) = low_free v1"
    "vm_memory v2 = vm_memory v1" "current_pd_phys v2 = current_pd_phys v1"
    "kernel_page_directory v2 = kernel_page_directory v1" "managed_frames (vm_pmm v2) = managed_frames (vm_pmm v1)"
    by (rule alloc_frame_spec [OF c(4,5) r1])
  have r2: "0 < low_free v2" using f2(8) c(11) room by simp
  obtain us v3 where f3: "alloc_frame v2 = (us, v3)" "us \<noteq> 0" "page_ok us" "us \<in> free_now v2"
    "free_now v3 = free_now v2 - {us}" "vm_inv v3" "kernel_ok v3" "Suc (low_free v3) = low_free v2"
    "vm_memory v3 = vm_memory v2" "current_pd_phys v3 = current_pd_phys v2"
    "kernel_page_directory v3 = kernel_page_directory v2" "managed_frames (vm_pmm v3) = managed_frames (vm_pmm v2)"
    by (rule alloc_frame_spec [OF f2(6,7) r2])
  have m3: "vm_memory v3 = vm_memory v1" and fr3: "free_now v3 = free_now v - {pd, ks, us}"
    and l3: "low_free v = low_free v3 + 3"
    using f2 f3 c(7,11) by auto
  define v4 where "v4 = vmm_switch_page_directory pd v3"
  have pdk: "pd \<noteq> ?k" using c(2) ker by (auto simp: kernel_ok_def tables_ok_def)
  have v4: "v4 = v3\<lparr>current_pd_phys := pd, vm_cr3 := pd\<rparr>"
    using pdk cur c(8) f2(10) f3(10) by (simp add: v4_def vmm_switch_page_directory_def load_page_directory_def)
  have inv4: "vm_inv v4"
    using f3(6) c(10) fr3 c(7) by (auto simp: v4 vm_inv_def tables_ok_def m3)
  have no767: "\<not> has_table (vm_memory v4) (current_pd_phys v4) (VADDR_PD_INDEX 0xBFFFF000)"
  proof -
    have "VADDR_PD_INDEX 0xBFFFF000 = 767" by (simp add: VADDR_PD_INDEX_def)
    then show ?thesis using c(15) [of 767] by (simp add: v4 has_table_def m3)
  qed
  have l4: "low_free v4 = low_free v3" "free_now v4 = free_now v3" by (simp_all add: v4 low_free_def)
  have r4: "0 < low_free v4 \<or> free_now v4 = {}" using l4 l3 room by simp
  have hi: "0x400000 \<le> (0xBFFFF000 :: u32) \<or> page_of us = page_of 0xBFFFF000" by simp
  have pdk': "pd \<notin> dir_pages (vm_memory v3) ?k"
    using tables_okD(2) [OF ker [unfolded kernel_ok_def]] c(2,9,16) m3 by metis
  have k3: "kernel_page_directory v3 = ?k" using c(9) f2(11) f3(11) by simp
  have K3: "tables_ok (vm_memory v3) ?k (free_now v3)" using f3(7) by (simp add: kernel_ok_def k3)
  have zero: "(0 :: u32) < 1024" by simp
  have i767: "VADDR_PD_INDEX 0xBFFFF000 = 767" by (simp add: VADDR_PD_INDEX_def)
  from inv4 table_roomI [OF r4] hi show thesis
  proof (cases rule: vmm_map_page_cases [where flags = "PTE_PRESENT OR PTE_WRITABLE OR PTE_USER"])
    case full
    then show thesis using no_low_free [of v4] l4 l3 room by simp
  next
    case (mapped v5)
    have cp5: "current_pd_phys v5 = pd" "kernel_page_directory v5 = ?k"
      "managed_frames (vm_pmm v5) = managed_frames (vm_pmm v4)"
      using mapped(6) by (auto simp: keeps_pages_def v4 k3)
    note D5 = vm_invD(2) [OF mapped(2), unfolded cp5(1)]
    have p5: "pde (vm_memory v5) pd 0 = pde (vm_memory v3) ?k 0"
      using mapped(10) [OF zero] c(15) [OF zero] i767 m3 c(9) by (simp add: v4)
    have eq5: "page_eq (vm_memory v3) (vm_memory v5) g" if "g \<in> dir_pages (vm_memory v3) ?k" for g
    proof -
      have "page_ok g" "g \<notin> free_now v3" using tables_okD(2) [OF K3 that] by auto
      then show ?thesis
        using mapped(9) [of g] that pdk' no767 l4(2) by (auto simp: v4 page_ok_def)
    qed
    note K5 = kernel_low [OF K3 eq5 D5 p5]
    have fsub: "free_now v5 \<subseteq> free_now v3" using mapped(4) l4(2) by simp
    have w5: "walk (vm_memory v5) ?k = space v"
      using K5(1) c(9,13) cur m3 by (simp add: space_def)
    have s5: "space v5 = (\<lambda>a. if page_of a = 0xBFFFF000 then Some (us OR VADDR_OFFSET a)
       else if a < 0x400000 \<or> 0xC0000000 \<le> a then space v a else None)"
    proof
      fix a
      have us: "page_of us = us" by (rule page_of_aligned) (use f3(3) in \<open>simp add: page_ok_def\<close>)
      have "page_of 0xBFFFF000 = 0xBFFFF000" by (simp add: page_of_def)
      moreover have "space v4 a = (if a < 0x400000 \<or> 0xC0000000 \<le> a then space v a else None)"
        using c(12) [of a] cur by (simp add: space_def v4 m3 low_iff top_quarter)
      ultimately show "space v5 a = (if page_of a = 0xBFFFF000 then Some (us OR VADDR_OFFSET a)
       else if a < 0x400000 \<or> 0xC0000000 \<le> a then space v a else None)"
        by (simp add: mapped(3) us)
    qed
    let ?c = "e AND 0xFFFFF000"
    have pe: "?c = page_of e" by (simp add: page_of_def)
    have pp: "page_of (page_of e) = page_of e" by (rule bit_eqI) (simp add: bit_page_of)
    then have lo: "?c < 0x400000" using e unfolding pe low_iff same_page_iff by metis
    have get: "vmm_get_physical ?c v5 = Some ?c"
      using vmm_get_physical_spec(1) [OF mapped(2), of ?c] vm_invD(4) [OF mapped(2) lo] by simp
    have h0: "has_table (vm_memory v5) pd 0" by (rule low_entry(1) [OF D5, of 0]) (simp add: page_ok_def)
    have ic: "VADDR_PD_INDEX ?c = 0" using lo by (simp add: low_iff)
    have r5: "0 < low_free v5 \<or> free_now v5 = {}" using mapped(5) l3 l4 room by simp
    have lc: "0x400000 \<le> ?c \<or> page_of ?c = page_of ?c" by simp
    from mapped(2) table_roomI [OF r5] lc show thesis
    proof (cases rule: vmm_map_page_cases [where flags = "PTE_PRESENT OR PTE_USER"])
      case full
      then show thesis using h0 ic cp5(1) by simp
    next
      case (mapped v6)
      note m6 = mapped
      have cp6: "current_pd_phys v6 = pd" "kernel_page_directory v6 = ?k"
        "managed_frames (vm_pmm v6) = managed_frames (vm_pmm v5)"
        using m6(6) cp5 by (auto simp: keeps_pages_def)
      have pm: "vm_pmm v6 = vm_pmm v5" using m6(7) h0 ic cp5(1) by simp
      note D6 = vm_invD(2) [OF m6(2), unfolded cp6(1)]
      have p56: "pde (vm_memory v6) pd 0 = pde (vm_memory v5) pd 0"
        using m6(10) [OF zero] h0 ic cp5(1) by simp
      have k05: "pde (vm_memory v5) pd 0 = pde (vm_memory v5) ?k 0"
        using p5 eq5 [of ?k] by (simp add: pde_def page_eq_def dir_pages_def)
      have eq6: "page_eq (vm_memory v5) (vm_memory v6) g"
        if g: "g \<in> dir_pages (vm_memory v5) ?k" "g \<noteq> table_of (vm_memory v5) ?k 0" for g
      proof -
        have "page_ok g" "g \<notin> free_now v3" using tables_okD(2) [OF K5(2) g(1)] by auto
        moreover have "g \<noteq> pd"
          using g(1) pdk' tables_ok_page_eq(2) [OF K3 eq5] by metis
        moreover have "g \<noteq> table_of (vm_memory v5) pd (VADDR_PD_INDEX ?c)"
          using g(2) k05 ic by (simp add: table_of_def)
        ultimately show ?thesis
          using m6(9) [of g] fsub by (auto simp: page_ok_def cp5(1))
      qed
      note K6 = kernel_low [OF K5(2) eq6 D6 p56 [unfolded k05]]
      define v7 where "v7 = vmm_switch_page_directory (current_pd_phys v) v6"
      have v7: "v7 = v6\<lparr>current_pd_phys := ?k, vm_cr3 := ?k\<rparr>"
        using pdk cur cp6(1) by (simp add: v7_def vmm_switch_page_directory_def load_page_directory_def)
      have fr6: "free_now v6 = free_now v5" "low_free v6 = low_free v5" by (simp_all add: pm low_free_def)
      have T6: "tables_ok (vm_memory v6) ?k (free_now v6)"
        unfolding fr6 by (rule tables_ok_subset [OF K6(2) fsub])
      have inv7: "vm_inv v7" using m6(2) T6 by (simp add: v7 vm_inv_def)
      have ker7: "kernel_ok v7" using T6 by (simp add: kernel_ok_def v7 cp6(2))
      have sp7: "space v7 = space v" using K6(1) w5 by (simp add: v7 space_def)
      have s6: "space v6 = space v5"
      proof
        fix a
        have "space v5 a = Some a" if "page_of a = page_of ?c"
          using that lo by (intro vm_invD(4) [OF \<open>vm_inv v5\<close>]) (simp add: low_iff same_page_iff)
        moreover have "page_of ?c OR VADDR_OFFSET a = a" if "page_of a = page_of ?c"
          using that split_address [of a] by simp
        ultimately show "space v6 a = space v5 a" by (simp add: m6(3))
      qed
      have w6: "walk (vm_memory v6) pd = (\<lambda>a. if page_of a = 0xBFFFF000 then Some (us OR VADDR_OFFSET a)
         else if a < 0x400000 \<or> 0xC0000000 \<le> a then space v a else None)"
        using s6 s5 cp6(1) by (simp add: space_def)
      have cd: "vmm_get_current_directory v3 = current_pd_phys v"
        using c(8) f2(10) f3(10) by (simp add: vmm_get_current_directory_def)
      have mg: "managed_frames (vm_pmm v6) = managed_frames (vm_pmm v)"
        using cp6(3) cp5(3) f3(12) f2(12) c(14) by (simp add: v4)
      have lf: "low_free v \<le> low_free v6 + 4" using l3 l4 fr6 \<open>low_free v4 \<le> Suc (low_free v5)\<close> by simp
      have fr: "free_now v6 \<subseteq> free_now v - {pd, ks, us}" using fr6 fsub fr3 by simp
      have usv: "us \<in> free_now v" using f3(4) f2(5) c(7) by simp
      have m5: "vmm_map_page 0xBFFFF000 us (PTE_PRESENT OR PTE_WRITABLE OR PTE_USER) (vmm_switch_page_directory pd v3) = Some (True, v5)"
        using \<open>vmm_map_page 0xBFFFF000 us (PTE_PRESENT OR PTE_WRITABLE OR PTE_USER) v4 = Some (True, v5)\<close>
        by (simp add: v4_def)
      show thesis
        by (rule that [OF c(1,3) f2(1,2) f3(1,2) m5 get m6(1) cd _ _ _ _ _ fr lf mg D6 pdk w6 usv])
          (use inv7 ker7 sp7 in \<open>simp_all add: v7_def [symmetric]\<close>, simp_all add: v7 cp6)
    qed
  qed
qed

lemma create_block_kvm [simp]:
  "kvm (create_block i n nm pr s) = kvm s" "length (process_table (create_block i n nm pr s)) = length (process_table s)"
  by (auto simp: create_block_def Let_def split: option.splits)

lemma process_create_runs:
  assumes inv: "vm_inv (kvm s)" and ker: "kernel_ok (kvm s)"
    and cur: "current_pd_phys (kvm s) = kernel_page_directory (kvm s)"
    and room: "5 \<le> low_free (kvm s)" and e: "e < 0x400000"
    and i: "process_alloc s = Some i" and len: "length (process_table s) = 32"
  obtains t pd us where "process_create nm e pr s = Some (next_pid s, t)"
    "vm_inv (kvm t)" "kernel_ok (kvm t)" "space (kvm t) = space (kvm s)"
    "current_pd_phys (kvm t) = kernel_page_directory (kvm t)"
    "kernel_page_directory (kvm t) = kernel_page_directory (kvm s)"
    "free_now (kvm t) \<subset> free_now (kvm s)" "low_free (kvm s) \<le> low_free (kvm t) + 4"
    "managed_frames (vm_pmm (kvm t)) = managed_frames (vm_pmm (kvm s))"
    "p_page_directory (proc t i) = pd" "pd \<noteq> 0" "pd \<noteq> kernel_page_directory (kvm t)"
    "tables_ok (vm_memory (kvm t)) pd (free_now (kvm t))" "us \<in> free_now (kvm s)" "us \<notin> free_now (kvm t)"
    "walk (vm_memory (kvm t)) pd = (\<lambda>a. if page_of a = 0xBFFFF000 then Some (us OR VADDR_OFFSET a)
       else if a < 0x400000 \<or> 0xC0000000 \<le> a then space (kvm s) a else None)"
proof -
  let ?v = "kvm s"
  define s1 where "s1 = create_block i (next_pid s) nm pr (s\<lparr>next_pid := next_pid s + 1\<rparr>)"
  have kv: "kvm s1 = ?v" by (simp add: s1_def)
  have il: "i < 32" using process_alloc_Some [OF i] by blast
  have len1: "length (process_table s1) = 32" by (simp add: s1_def len)
  obtain pd v1 ks v2 us v3 v5 v6 ok where u:
    "vmm_create_page_directory ?v = Some (pd, v1)" "pd \<noteq> 0"
    "alloc_frame v1 = (ks, v2)" "ks \<noteq> 0" "alloc_frame v2 = (us, v3)" "us \<noteq> 0"
    "vmm_map_page 0xBFFFF000 us (PTE_PRESENT OR PTE_WRITABLE OR PTE_USER) (vmm_switch_page_directory pd v3) = Some (True, v5)"
    "vmm_get_physical (e AND 0xFFFFF000) v5 = Some (e AND 0xFFFFF000)"
    "vmm_map_page (e AND 0xFFFFF000) (e AND 0xFFFFF000) (PTE_PRESENT OR PTE_USER) v5 = Some (ok, v6)"
    "vmm_get_current_directory v3 = current_pd_phys ?v"
    "vm_inv (vmm_switch_page_directory (current_pd_phys ?v) v6)"
    "kernel_ok (vmm_switch_page_directory (current_pd_phys ?v) v6)"
    "space (vmm_switch_page_directory (current_pd_phys ?v) v6) = space ?v"
    "current_pd_phys (vmm_switch_page_directory (current_pd_phys ?v) v6) = kernel_page_directory ?v"
    "kernel_page_directory (vmm_switch_page_directory (current_pd_phys ?v) v6) = kernel_page_directory ?v"
    "free_now v6 \<subseteq> free_now ?v - {pd, ks, us}" "low_free ?v \<le> low_free v6 + 4"
    "managed_frames (vm_pmm v6) = managed_frames (vm_pmm ?v)"
    "tables_ok (vm_memory v6) pd (free_now v6)" "pd \<noteq> kernel_page_directory ?v"
    "walk (vm_memory v6) pd = (\<lambda>a. if page_of a = 0xBFFFF000 then Some (us OR VADDR_OFFSET a)
       else if a < 0x400000 \<or> 0xC0000000 \<le> a then space ?v a else None)"
    "us \<in> free_now ?v"
    by (rule user_space [OF inv ker cur room e]) (rule that, assumption+)
  define v7 where "v7 = vmm_switch_page_directory (current_pd_phys ?v) v6"
  define t where "t = with_vm v7 (upd_proc i (\<lambda>p. start_context e (p\<lparr>p_page_directory := pd,
      p_kernel_stack := ks + PAGE_SIZE\<rparr>)) s1)"
  have ex: "process_create nm e pr s = Some (next_pid s, t)"
    using u(1-10) len1 il
    by (simp add: process_create_def i process_next_pid_def Let_def s1_def [symmetric] kv t_def v7_def upd_proc_twice)
  have v67: "vm_memory v7 = vm_memory v6" "vm_pmm v7 = vm_pmm v6" "low_free v7 = low_free v6"
    by (auto simp: v7_def vmm_switch_page_directory_def load_page_directory_def low_free_def)
  have pt: "p_page_directory (proc t i) = pd"
    using len1 il by (simp add: t_def start_context_def Let_def)
  have kt: "kvm t = v7" by (simp add: t_def)
  have sub: "free_now v6 \<subset> free_now ?v" "us \<notin> free_now v6" using u(16,22) by auto
  show thesis
    by (rule that [OF ex _ _ _ _ _ _ _ _ pt u(2)])
      (use u(11-22) v67 sub in \<open>simp_all add: kt v7_def [symmetric]\<close>)
qed

section \<open>Start-up\<close>

lemma process_init_table:
  assumes "length (process_table s) = 32"
  shows "process_table (process_init s) =
      (let blank = map (\<lambda>p. p\<lparr>p_state := 0, p_pid := 0\<rparr>) (process_table s)
       in blank[0 := (blank ! 0)\<lparr>p_pid := 0, p_state := PROCESS_STATE_RUNNING, p_priority := PRIORITY_IDLE,
            p_name := str_copy_safe ''kernel_idle'' 32, p_page_directory := current_pd_phys (kvm s)\<rparr>])"
    and "kvm (process_init s) = kvm s" and "current_process (process_init s) = Some 0"
    and "next_pid (process_init s) = next_pid s" and "scheduling_enabled (process_init s) = scheduling_enabled s"
    and "switched_to (process_init s) = switched_to s"
proof -
  let ?f = "\<lambda>p. p\<lparr>p_state := PROCESS_STATE_UNUSED, p_pid := 0\<rparr>"
  have "fold (\<lambda>i. upd_proc i ?f) [0..<m] s =
      s\<lparr>process_table := map ?f (take m (process_table s)) @ drop m (process_table s)\<rparr>" if "m \<le> 32" for m
    using that
  proof (induction m)
    case (Suc m)
    then have m: "m < length (process_table s)" using assms by simp
    then have "take (Suc m) (process_table s) = take m (process_table s) @ [proc s m]"
      "drop m (process_table s) = proc s m # drop (Suc m) (process_table s)"
      by (simp_all add: take_Suc_conv_app_nth Cons_nth_drop_Suc)
    then show ?case using Suc m by (auto simp: upd_proc_def nth_append list_update_append)
  qed simp
  from this [of 32] have "fold (\<lambda>i. upd_proc i ?f) [0..<MAX_PROCESSES] s = s\<lparr>process_table := map ?f (process_table s)\<rparr>"
    using assms by (simp add: MAX_PROCESSES_def)
  then show "process_table (process_init s) =
      (let blank = map (\<lambda>p. p\<lparr>p_state := 0, p_pid := 0\<rparr>) (process_table s)
       in blank[0 := (blank ! 0)\<lparr>p_pid := 0, p_state := PROCESS_STATE_RUNNING, p_priority := PRIORITY_IDLE,
            p_name := str_copy_safe ''kernel_idle'' 32, p_page_directory := current_pd_phys (kvm s)\<rparr>])"
    "kvm (process_init s) = kvm s" "current_process (process_init s) = Some 0"
    "next_pid (process_init s) = next_pid s" "scheduling_enabled (process_init s) = scheduling_enabled s"
    "switched_to (process_init s) = switched_to s"
    by (simp_all add: process_init_def Let_def vmm_get_current_directory_def upd_proc_def PROCESS_STATE_UNUSED_def)
qed

text \<open>The table as the loader leaves it: the idle process's slot has no parent and no children.\<close>

definition blank_table :: "kernel \<Rightarrow> bool" where
  "blank_table s \<longleftrightarrow> length (process_table s) = 32 \<and> p_parent_pid (proc s 0) = 0 \<and>
     p_child_count (proc s 0) = 0 \<and> next_pid s = 1"

lemma process_init_inv:
  assumes "blank_table s"
  shows "proc_inv (process_init s)" and "current_ok (process_init s)"
    and "used (process_init s) k \<longleftrightarrow> k = 0" and "p_state (proc (process_init s) 0) = PROCESS_STATE_RUNNING"
    and "length (process_table (process_init s)) = 32" and "p_pid (proc (process_init s) 0) = 0"
    and "k < 32 \<Longrightarrow> k \<noteq> 0 \<Longrightarrow> p_state (proc (process_init s) k) = 0 \<and> p_pid (proc (process_init s) k) = 0"
proof -
  have len: "length (process_table s) = 32" using assms by (simp add: blank_table_def)
  note t = process_init_table [OF len]
  have k: "proc (process_init s) k = (if k = 0
      then (proc s 0)\<lparr>p_state := PROCESS_STATE_RUNNING, p_pid := 0, p_priority := PRIORITY_IDLE,
            p_name := str_copy_safe ''kernel_idle'' 32, p_page_directory := current_pd_phys (kvm s)\<rparr>
      else (proc s k)\<lparr>p_state := 0, p_pid := 0\<rparr>)" if "k < 32" for k
    using that len by (auto simp: t(1) Let_def nth_list_update)
  have u: "used (process_init s) k \<longleftrightarrow> k = 0" for k
    using k [of k] by (cases "k = 0") (auto simp: used_def word_norm)
  have z: "p_pid (proc (process_init s) 0) = 0" "p_parent_pid (proc (process_init s) 0) = 0"
    "p_child_count (proc (process_init s) 0) < next_pid (process_init s)"
    using k [of 0] assms t(4) by (simp_all add: blank_table_def)
  show "length (process_table (process_init s)) = 32" using len by (simp add: t(1) Let_def)
  then show "proc_inv (process_init s)" using u z by (auto simp: proc_inv_def)
  show "current_ok (process_init s)" by (simp add: current_ok_def t(3) u)
  show "used (process_init s) k \<longleftrightarrow> k = 0" by (rule u)
  show "p_state (proc (process_init s) 0) = PROCESS_STATE_RUNNING" "p_pid (proc (process_init s) 0) = 0"
    using k [of 0] by simp_all
  show "k < 32 \<Longrightarrow> k \<noteq> 0 \<Longrightarrow> p_state (proc (process_init s) k) = 0 \<and> p_pid (proc (process_init s) k) = 0"
    using k [of k] by simp
qed

lemma exit_inv:
  assumes inv: "proc_inv s" and n: "n \<noteq> 0" and i: "process_get n s = Some i"
    and len: "length (process_table t) = 32" and np: "next_pid t = next_pid s"
    and old: "\<And>k. used s k \<Longrightarrow> k \<noteq> i \<Longrightarrow> proc t k = (proc s k)
       \<lparr>p_parent_pid := (if p_parent_pid (proc s k) = n then 0 else p_parent_pid (proc s k)),
        p_child_count := (if p_pid (proc s k) = p_parent_pid (proc s i) \<and> k \<noteq> 0
          then p_child_count (proc s k) - 1 else p_child_count (proc s k))\<rparr>"
    and u: "\<And>k. used t k \<longleftrightarrow> used s k \<and> k \<noteq> i"
  shows "proc_inv t" and "children t n = {}"
proof -
  note I = proc_invD [OF inv]
  have ui: "used s i" "p_pid (proc s i) = n" using process_get_Some [OF i] by auto
  have i0: "i \<noteq> 0" using ui I(3) n by metis
  have pid: "p_pid (proc t k) = p_pid (proc s k)"
    and par: "p_parent_pid (proc s k) \<noteq> n \<Longrightarrow> p_parent_pid (proc t k) = p_parent_pid (proc s k)"
    and orphan: "p_parent_pid (proc s k) = n \<Longrightarrow> p_parent_pid (proc t k) = 0"
    if k: "used t k" for k
  proof -
    have us: "used s k" "k \<noteq> i" using u k by auto
    show "p_pid (proc t k) = p_pid (proc s k)" by (subst old [OF us]) simp
    show "p_parent_pid (proc t k) = p_parent_pid (proc s k)" if "p_parent_pid (proc s k) \<noteq> n"
      by (subst old [OF us]) (simp add: that)
    show "p_parent_pid (proc t k) = 0" if "p_parent_pid (proc s k) = n"
      by (subst old [OF us]) (simp add: that)
  qed
  have z: "used t 0" "p_pid (proc t 0) = 0" "p_parent_pid (proc t 0) = 0"
    using u [of 0] i0 I(2,3,7) pid [of 0] par [of 0] n by auto
  have live: "live_pid t m" if "live_pid s m" "m \<noteq> n" for m
    using that u pid ui unfolding live_pid_def by metis
  have live0: "live_pid t 0" using z unfolding live_pid_def by blast
  have parn: "p_parent_pid (proc t k) = m \<longleftrightarrow> m \<noteq> n \<and> p_parent_pid (proc s k) = m" if "m \<noteq> 0" "used t k" for k m
    using par [OF that(2)] orphan [OF that(2)] n that(1) by metis
  have ch: "children t m = (if m = n then {} else children s m - {i})" if "m \<noteq> 0" for m
    using u parn [OF that] by (auto simp: children_def)
  show "children t n = {}" using ch [OF n] by simp
  have link: "p_pid (proc t k) \<noteq> 0 \<and> p_pid (proc t k) < next_pid t \<and>
      p_parent_pid (proc t k) \<noteq> p_pid (proc t k) \<and> live_pid t (p_parent_pid (proc t k))"
    if k: "used t k" "k \<noteq> 0" for k
  proof -
    have us: "used s k" "k \<noteq> i" using u k by auto
    have s: "p_pid (proc s k) \<noteq> 0" "p_pid (proc s k) < next_pid s" "p_parent_pid (proc s k) \<noteq> p_pid (proc s k)"
      "live_pid s (p_parent_pid (proc s k))"
      using I(4) [OF us(1) k(2)] by auto
    show ?thesis
      using s par [OF k(1)] orphan [OF k(1)] pid [OF k(1)] np live [OF s(4)] live0
      by (cases "p_parent_pid (proc s k) = n") auto
  qed
  have cnt: "card (children t (p_pid (proc t k))) \<le> unat (p_child_count (proc t k))"
    if k: "used t k" "k \<noteq> 0" for k
  proof -
    have us: "used s k" "k \<noteq> i" using u k by auto
    have c: "card (children s (p_pid (proc s k))) \<le> unat (p_child_count (proc s k))" "p_pid (proc s k) \<noteq> 0"
      using I(4) [OF us(1) k(2)] by auto
    have chk: "children t (p_pid (proc t k)) \<subseteq> children s (p_pid (proc s k)) - {i}"
      using ch [OF c(2)] pid [OF k(1)] by auto
    then have le: "card (children t (p_pid (proc t k))) \<le> card (children s (p_pid (proc s k)) - {i})"
      by (intro card_mono) auto
    show ?thesis
    proof (cases "p_pid (proc s k) = p_parent_pid (proc s i)")
      case True
      then have "i \<in> children s (p_pid (proc s k))" using ui(1) by (simp add: children_def)
      then have m: "card (children s (p_pid (proc s k)) - {i}) = card (children s (p_pid (proc s k))) - 1"
        by (rule card_Diff_singleton)
      have "0 < card (children s (p_pid (proc s k)))"
        using \<open>i \<in> children s (p_pid (proc s k))\<close> card_gt_0_iff finite_children by blast
      then have "p_child_count (proc s k) \<noteq> 0" using c(1) by auto
      then have "unat (p_child_count (proc s k) - 1) = unat (p_child_count (proc s k)) - 1"
        by (rule unat_minus_one)
      moreover have "p_child_count (proc t k) = p_child_count (proc s k) - 1" by (subst old [OF us]) (simp add: True k(2))
      ultimately show ?thesis using c(1) le m by simp
    next
      case False
      have "p_child_count (proc t k) = p_child_count (proc s k)" by (subst old [OF us]) (simp add: False)
      moreover have "card (children s (p_pid (proc s k)) - {i}) \<le> card (children s (p_pid (proc s k)))"
        by (rule card_mono) auto
      ultimately show ?thesis using c(1) le by simp
    qed
  qed
  have bound: "p_child_count (proc t k) < next_pid t" if k: "used t k" for k
  proof -
    have us: "used s k" "k \<noteq> i" using u k by auto
    have b: "p_child_count (proc s k) < next_pid s" by (rule I(6) [OF us(1)])
    show ?thesis
    proof (cases "p_pid (proc s k) = p_parent_pid (proc s i) \<and> k \<noteq> 0")
      case True
      then have "i \<in> children s (p_pid (proc s k))" using ui(1) by (simp add: children_def)
      then have "0 < card (children s (p_pid (proc s k)))" using card_gt_0_iff finite_children by blast
      then have "p_child_count (proc s k) \<noteq> 0" using I(4) [OF us(1)] True by auto
      then have "unat (p_child_count (proc s k) - 1) < unat (next_pid s)"
        using unat_minus_one [of "p_child_count (proc s k)"] b by (simp add: word_less_nat_alt)
      moreover have "p_child_count (proc t k) = p_child_count (proc s k) - 1" by (subst old [OF us]) (simp add: True)
      ultimately show ?thesis using np by (simp add: word_less_nat_alt)
    next
      case False
      have "p_child_count (proc t k) = p_child_count (proc s k)" by (subst old [OF us]) (use False in auto)
      then show ?thesis using b np by simp
    qed
  qed
  have dist: "k = j" if "used t k" "used t j" "p_pid (proc t k) = p_pid (proc t j)" for j k
    using that pid u I(5) by metis
  show "proc_inv t"
    unfolding proc_inv_def using len z link cnt bound dist by blast
qed

section \<open>Properties\<close>

text \<open>The tables of \<open>process.c\<close> as the loader leaves them, and a machine with six free frames.\<close>

definition blank_process :: process where
  "blank_process = \<lparr>p_pid = 0, p_state = 0, p_name = '''', p_eip = 0, p_esp = 0, p_ebp = 0, p_eax = 0,
     p_ebx = 0, p_ecx = 0, p_edx = 0, p_esi = 0, p_edi = 0, p_eflags = 0, p_cs = 0, p_ds = 0, p_es = 0,
     p_fs = 0, p_gs = 0, p_ss = 0, p_page_directory = 0, p_kernel_stack = 0, p_user_stack = 0,
     p_priority = 0, p_time_slice = 0, p_total_time = 0, p_parent_pid = 0, p_exit_code = 0, p_child_count = 0\<rparr>"

definition static_kernel :: "vmm \<Rightarrow> kernel" where
  "static_kernel v = \<lparr>kvm = v, process_table = replicate 32 blank_process, current_process = None,
     next_pid = 1, tss_esp0 = 0, scheduling_enabled = False, switched_to = []\<rparr>"

lemma static_kernel_blank: "blank_table (static_kernel v)"
  by (simp add: blank_table_def static_kernel_def blank_process_def)

definition roomy_pmm :: pmm where
  "roomy_pmm = count_used (fold (\<lambda>p s. bitmap_clear s p) [256, 257, 258, 259, 260, 261]
     \<lparr>page_bitmap = replicate 2048 0xFFFFFFFF, total_pages = 262, used_pages = 0, total_memory = 0\<rparr>)"

lemma roomy_pmm_facts:
  "pmm_inv roomy_pmm" "total_pages roomy_pmm = 262"
  "free_frames roomy_pmm = {0x100000, 0x101000, 0x102000, 0x103000, 0x104000, 0x105000}"
proof -
  let ?z = "\<lparr>page_bitmap = replicate 2048 0xFFFFFFFF, total_pages = 262, used_pages = 0, total_memory = 0\<rparr>"
  let ?s = "fold (\<lambda>p s. bitmap_clear s p) [256, 257, 258, 259, 260, 261] ?z"
  have wf: "pmm_wf ?s" by (simp add: pmm_wf_def word_norm)
  have "bitmap_test ?z q" for q
    using unat_div32_less [of q] unat_mod32_less [of q] by (simp add: bitmap_test_bit word_norm)
  then have bt: "bitmap_test ?s q \<longleftrightarrow> q \<notin> {256, 257, 258, 259, 260, 261}" for q
    by (auto simp: bitmap_test_clear word_norm)
  note c = count_used_spec [OF wf, folded roomy_pmm_def]
  show "pmm_inv roomy_pmm" by (rule c(1))
  show total: "total_pages roomy_pmm = 262" by (simp add: c(2))
  have "free_set roomy_pmm = {256, 257, 258, 259, 260, 261}"
    unfolding free_set_def total c(3) bt by auto
  moreover have "{p \<in> {256, 257, 258, 259, 260, 261}. 256 \<le> p} = {256, 257, 258, 259, 260, 261 :: u32}" by auto
  ultimately show "free_frames roomy_pmm = {0x100000, 0x101000, 0x102000, 0x103000, 0x104000, 0x105000}"
    by (simp add: free_frames_def PFN_TO_ADDR_def push_bit_eq_mult)
qed

definition roomy_boot :: vmm where
  "roomy_boot = boot_vm\<lparr>vm_pmm := roomy_pmm\<rparr>"

lemma roomy_machine:
  obtains v where "vmm_init roomy_boot = Some v" "vm_inv v" "kernel_ok v" "low_free v = 6"
    "kernel_page_directory v = 0x10000" "current_pd_phys v = 0x10000" "0x100000 \<in> managed_frames (vm_pmm v)"
    "space v = (\<lambda>a. if a < 0x400000 then Some a else None)"
proof -
  have "boot_ok roomy_boot"
    using roomy_pmm_facts(1,3) by (simp add: boot_ok_def roomy_boot_def boot_vm_def page_ok_def)
  then obtain v where v: "vmm_init roomy_boot = Some v" "vm_inv v" "kernel_ok v" "vm_pmm v = roomy_pmm"
    "kernel_page_directory v = 0x10000" "current_pd_phys v = 0x10000"
    "space v = (\<lambda>a. if a < 0x400000 then Some a else None)"
    using vmm_init_spec [of roomy_boot] by (auto simp: roomy_boot_def boot_vm_def)
  let ?F = "{0x100000, 0x101000, 0x102000, 0x103000, 0x104000, 0x105000} :: u32 set"
  have "{f \<in> ?F. f < 0x400000} = ?F" by auto
  then have "low_free v = card ?F" unfolding low_free_def v(4) roomy_pmm_facts(3) by simp
  moreover have "0x100000 \<in> managed_frames (vm_pmm v)"
    using fa.frames_managed [of roomy_pmm] v(4) roomy_pmm_facts(3) by auto
  ultimately show thesis using v by (intro that [of v]) simp_all
qed

text \<open>The kernel after start-up on that machine.\<close>

lemma running_kernel:
  obtains v s where "vmm_init roomy_boot = Some v" "s = process_init (static_kernel v)"
    "proc_inv s" "current_ok s" "current_process s = Some 0" "next_pid s = 1" "process_alloc s = Some 1"
    "\<And>k. used s k \<longleftrightarrow> k = 0" "p_child_count (proc s 0) = 0" "kvm s = v"
    "vm_inv v" "kernel_ok v" "low_free v = 6" "current_pd_phys v = kernel_page_directory v"
    "0x100000 \<in> managed_frames (vm_pmm v)" "space v = (\<lambda>a. if a < 0x400000 then Some a else None)"
    "length (process_table s) = 32"
proof -
  obtain v where v: "vmm_init roomy_boot = Some v" "vm_inv v" "kernel_ok v" "low_free v = 6"
    "kernel_page_directory v = 0x10000" "current_pd_phys v = 0x10000" "0x100000 \<in> managed_frames (vm_pmm v)"
    "space v = (\<lambda>a. if a < 0x400000 then Some a else None)" by (rule roomy_machine)
  define s where "s = process_init (static_kernel v)"
  note i = process_init_inv [OF static_kernel_blank [of v], folded s_def]
  have len: "length (process_table (static_kernel v)) = 32" by (simp add: static_kernel_def)
  note t = process_init_table [OF len, folded s_def]
  have al: "process_alloc s = Some 1"
    using i(4) i(7) [of 1] by (simp add: process_alloc_def find_upt_Some word_norm)
  have cc: "p_child_count (proc s 0) = 0"
    by (simp add: t(1) Let_def static_kernel_def blank_process_def)
  show thesis
    by (rule that [of v s]) (use v i t al cc in \<open>simp_all add: s_def [symmetric]\<close>, simp_all add: static_kernel_def)
qed

text \<open>What the rest of the kernel does to the table: creations by a current process that is in use,
  terminations of any process but the idle one, of the current one as well (as \<open>SYSCALL_EXIT\<close> does),
  and changes of the current process to one in use.\<close>

inductive process_run :: "kernel \<Rightarrow> kernel \<Rightarrow> bool" for s0 where
  start: "process_run s0 (process_init s0)"
| create: "process_run s0 s \<Longrightarrow> current_ok s \<Longrightarrow> next_pid s < 0xFFFFFFFF \<Longrightarrow> process_create nm e pr s = Some (r, t) \<Longrightarrow>
    process_run s0 t"
| exit: "process_run s0 s \<Longrightarrow> n \<noteq> 0 \<Longrightarrow> process_exit_with_code n code s = Some t \<Longrightarrow> process_run s0 t"
| switch: "process_run s0 s \<Longrightarrow> process_get n s = Some i \<Longrightarrow> process_run s0 (process_set_current (Some i) s)"

lemma set_current_inv:
  assumes "proc_inv s" and "process_get n s = Some i"
  shows "proc_inv (process_set_current (Some i) s)" and "current_ok (process_set_current (Some i) s)"
    and "next_pid (process_set_current (Some i) s) = next_pid s"
proof -
  let ?t = "process_set_current (Some i) s"
  have t: "process_table ?t = process_table s" "next_pid ?t = next_pid s" "current_process ?t = Some i"
    by (simp_all add: process_set_current_def Let_def tss_set_kernel_stack_def)
  show "proc_inv ?t"
    by (rule proc_inv_cong [OF assms(1)]) (use t proc_invD(1) [OF assms(1)] in \<open>simp_all add: same_links_def\<close>)
  show "current_ok ?t" using process_get_Some [OF assms(2)] by (simp add: current_ok_def used_def t)
  show "next_pid ?t = next_pid s" by (rule t)
qed

lemma exit_keeps_inv:
  assumes "proc_inv s" and "n \<noteq> 0" and "process_get n s = Some i" and "process_exit_with_code n code s = Some t"
  shows "proc_inv t" and "children t n = {}" and "\<And>k. used t k \<longleftrightarrow> used s k \<and> k \<noteq> i"
    and "next_pid t = next_pid s" and "current_process t = current_process s"
proof -
  obtain v where "exit_release (p_page_directory (proc s i)) (kvm s) = Some v"
    by (rule process_exit_Some [OF assms])
  with assms(1-3) have "proc_inv t \<and> children t n = {} \<and> (\<forall>k. used t k \<longleftrightarrow> used s k \<and> k \<noteq> i) \<and>
      next_pid t = next_pid s \<and> current_process t = current_process s"
  proof (rule process_exit_cases [where code = code])
    fix u
    assume u: "process_exit_with_code n code s = Some u" "next_pid u = next_pid s"
      "current_process u = current_process s" "length (process_table u) = 32"
      and old: "\<And>k. used s k \<Longrightarrow> k \<noteq> i \<Longrightarrow> proc u k = (proc s k)
       \<lparr>p_parent_pid := (if p_parent_pid (proc s k) = n then 0 else p_parent_pid (proc s k)),
        p_child_count := (if p_pid (proc s k) = p_parent_pid (proc s i) \<and> k \<noteq> 0
          then p_child_count (proc s k) - 1 else p_child_count (proc s k))\<rparr>"
      and us: "\<And>k. used u k \<longleftrightarrow> used s k \<and> k \<noteq> i"
    have "u = t" using u(1) assms(4) by simp
    then show "proc_inv t \<and> children t n = {} \<and> (\<forall>k. used t k \<longleftrightarrow> used s k \<and> k \<noteq> i) \<and>
      next_pid t = next_pid s \<and> current_process t = current_process s"
      using exit_inv [OF assms(1-3) u(4,2) old us] u us by simp
  qed
  then show "proc_inv t" "children t n = {}" "\<And>k. used t k \<longleftrightarrow> used s k \<and> k \<noteq> i"
    "next_pid t = next_pid s" "current_process t = current_process s" by auto
qed

lemma process_run_inv:
  assumes "process_run s0 s" and "blank_table s0"
  shows "proc_inv s \<and> 0 < next_pid s"
  using assms(1)
proof induction
  case start
  have "next_pid (process_init s0) = 1"
    using process_init_table(4) [of s0] assms(2) by (simp add: blank_table_def)
  then show ?case using process_init_inv(1) [OF assms(2)] by simp
next
  case (create s nm e pr r t)
  have n: "0 < next_pid s + 1" using unat_inc_less [OF create.hyps(3)] by (simp add: word_less_nat_alt)
  from create.IH create.hyps(2) have "proc_inv s" "current_ok s" "0 < next_pid s" by auto
  from this create.hyps(3,4) show ?case
    by (cases rule: process_create_cases) (use create.IH n in auto)
next
  case (exit s n code t)
  show ?case
  proof (cases "process_get n s")
    case None
    then show ?thesis using exit by (simp add: process_exit_with_code_def)
  next
    case (Some i)
    show ?thesis using exit_keeps_inv(1,4) [OF _ exit.hyps(2) Some exit.hyps(3)] exit.IH by auto
  qed
next
  case (switch s n i)
  then show ?case using set_current_inv [OF _ switch.hyps(2)] by simp
qed

text \<open>What \<open>process_list_children\<close> collects.\<close>

lemma list_children_eq:
  assumes "32 \<le> unat limit"
  shows "process_list_children n limit s =
      map (\<lambda>i. p_pid (proc s i)) (filter (\<lambda>i. p_state (proc s i) \<noteq> 0 \<and> p_parent_pid (proc s i) = n) [0..<32])"
proof -
  let ?P = "\<lambda>i. p_state (proc s i) \<noteq> 0 \<and> p_parent_pid (proc s i) = n"
  have "fold (\<lambda>i out. if length out < unat limit \<and> p_state (proc s i) \<noteq> PROCESS_STATE_UNUSED \<and>
      p_parent_pid (proc s i) = n then out @ [p_pid (proc s i)] else out) [0..<m] [] =
      map (\<lambda>i. p_pid (proc s i)) (filter ?P [0..<m])" if "m \<le> 32" for m
    using that
  proof (induction m)
    case (Suc m)
    have "length (filter ?P [0..<m]) \<le> m" using length_filter_le [of ?P "[0..<m]"] by simp
    then have "length (filter ?P [0..<m]) < unat limit" using Suc.prems assms by linarith
    then show ?case using Suc by (simp add: word_norm)
  qed simp
  then show ?thesis by (simp add: process_list_children_def MAX_PROCESSES_def)
qed

lemma list_children_set:
  "32 \<le> unat limit \<Longrightarrow> set (process_list_children n limit s) = (\<lambda>i. p_pid (proc s i)) ` children s n"
  by (auto simp: list_children_eq children_def used_def)

lemma list_children_length:
  assumes "32 \<le> unat limit"
  shows "length (process_list_children n limit s) = card (children s n)"
proof -
  have "length (filter P [0..<m]) = card {i. i < m \<and> P i}" for P and m :: nat
  proof -
    have "distinct (filter P [0..<m])" "set (filter P [0..<m]) = {i. i < m \<and> P i}" by auto
    then show ?thesis by (metis distinct_card)
  qed
  moreover have "children s n = {i. i < 32 \<and> (p_state (proc s i) \<noteq> 0 \<and> p_parent_pid (proc s i) = n)}"
    by (auto simp: children_def used_def)
  ultimately show ?thesis by (simp only: list_children_eq [OF assms] length_map)
qed


text \<open>One process more on the sample machine.\<close>

lemma created_kernel:
  obtains v s t where "vmm_init roomy_boot = Some v" "s = process_init (static_kernel v)"
    "process_create ''shell'' 0x2000 1 s = Some (1, t)" "process_run (static_kernel v) t"
    "proc_inv t" "current_ok t" "process_get 1 t = Some 1" "process_get 1 t \<noteq> current_process t"
proof -
  obtain v s where m: "vmm_init roomy_boot = Some v" "s = process_init (static_kernel v)"
    "proc_inv s" "current_ok s" "current_process s = Some 0" "next_pid s = 1" "process_alloc s = Some 1"
    "\<And>k. used s k \<longleftrightarrow> k = 0" "p_child_count (proc s 0) = 0" "kvm s = v"
    "vm_inv v" "kernel_ok v" "low_free v = 6" "current_pd_phys v = kernel_page_directory v"
    "0x100000 \<in> managed_frames (vm_pmm v)" "space v = (\<lambda>a. if a < 0x400000 then Some a else None)"
    "length (process_table s) = 32" by (rule running_kernel) (rule that, assumption+)
  have "vm_inv (kvm s)" "kernel_ok (kvm s)" "current_pd_phys (kvm s) = kernel_page_directory (kvm s)"
    "5 \<le> low_free (kvm s)" "(0x2000 :: u32) < 0x400000" using m by simp_all
  from this m(7,17) obtain t where t: "process_create ''shell'' 0x2000 1 s = Some (next_pid s, t)"
    by (rule process_create_runs)
  have n: "0 < next_pid s" "next_pid s < 0xFFFFFFFF" using m(6) by simp_all
  have run: "process_run (static_kernel v) t"
    using process_run.create [OF process_run.start [of "static_kernel v"]] t n(2) m(2,4) by blast
  note inv = process_run_inv [OF run static_kernel_blank]
  from m(3,4) n t have "process_get 1 t = Some 1 \<and> current_process t = Some 0 \<and> current_ok t"
  proof (cases rule: process_create_cases)
    case full
    then show ?thesis using m(6) by simp
  next
    case failed
    then show ?thesis using m(6) by simp
  next
    case (made i)
    have "used t 1" using made(4) [of 1] made(2) m(7) by simp
    then show ?thesis using made m(6,7) inv by (simp add: process_get_iff m(5))
  qed
  then show thesis using that [OF m(1,2) _ run] t m(6) inv by simp
qed


text \<open>C8: Creating a process either fails, and then the same slots are in use as before, or it makes a ready process in the first
  unused slot with the whole documented context: the entry point as first instruction, stack and base pointer at the
  last word of the page below 3 GB, the user code and data selectors in every segment register, interrupts enabled
  (flags 0x3202), all general registers 0; the name cut to 31 characters, a time slice of 10, the given priority, no
  children, no run time and no exit code, an own page directory and kernel stack, and the current process as parent. The
  other processes are unchanged, apart from the child count of the current process, which grows even if the creation fails
  after a slot was found.\<close>

theorem process_create_outcome:
  assumes "proc_inv s" and "current_ok s" and "0 < next_pid s" and "next_pid s < 0xFFFFFFFF"
    and "process_create nm e pr s = Some (r, t)"
  shows "proc_inv t \<and> current_ok t \<and>
     (if r = 0 then \<forall>k. used t k \<longleftrightarrow> used s k
      else \<exists>i. process_alloc s = Some i \<and> r = next_pid s \<and> process_get r t = Some i \<and>
             (\<forall>k. used t k \<longleftrightarrow> k = i \<or> used s k) \<and> p_state (proc t i) = PROCESS_STATE_READY \<and>
             p_parent_pid (proc t i) = parent_of_new s \<and> started nm e pr r (proc t i)) \<and>
     (\<forall>k. used s k \<longrightarrow> proc t k =
        (if process_alloc s \<noteq> None \<and> current_process s = Some k \<and> p_pid (proc s k) \<noteq> 0
         then (proc s k)\<lparr>p_child_count := p_child_count (proc s k) + 1\<rparr> else proc s k))"
  using assms
proof (cases rule: process_create_cases)
  case full
  then have "process_alloc s = None" by (simp add: process_alloc_None)
  then show ?thesis using full assms(1,2) by simp
next
  case failed
  have "process_alloc s \<noteq> None" using failed(6) assms(5) by (cases "process_alloc s") (auto simp: process_create_def)
  then show ?thesis using failed by simp
next
  case (made i)
  have "process_get r t = Some i" using made(1,2,3,4,8) by (simp add: process_get_iff)
  moreover have "r \<noteq> 0" using made(1) assms(3) by auto
  ultimately show ?thesis using made by simp
qed

theorem process_create_outcome_witness:
  "\<exists>v t. vmm_init roomy_boot = Some v \<and>
     process_create ''shell'' 0x2000 1 (process_init (static_kernel v)) = Some (1, t) \<and>
     proc_inv t \<and> (\<exists>i. process_get 1 t = Some i \<and> started ''shell'' 0x2000 1 1 (proc t i))"
proof -
  obtain v s t where c: "vmm_init roomy_boot = Some v" "s = process_init (static_kernel v)"
    "process_create ''shell'' 0x2000 1 s = Some (1, t)" by (rule created_kernel) (rule that, assumption+)
  note inv = process_init_inv(1,2) [OF static_kernel_blank, of v, folded c(2)]
  have "next_pid s = 1" using process_init_table(4) [of "static_kernel v"] c(2) by (simp add: static_kernel_def)
  then show ?thesis
    using process_create_outcome [OF _ _ _ _ c(3)] inv c by auto
qed

text \<open>With five free frames below 4 MB, a free slot and an entry point below 4 MB, creating a process
  succeeds without a fault. The caller's address space is as before; the new process sees the low 4 MB
  and the upper quarter of the address space as the kernel does, one stack page in a frame that was free, and nothing else.\<close>

theorem process_create_succeeds:
  assumes "vm_inv (kvm s)" and "kernel_ok (kvm s)" and "current_pd_phys (kvm s) = kernel_page_directory (kvm s)"
    and "5 \<le> low_free (kvm s)" and "e < 0x400000" and "process_alloc s = Some i" and "length (process_table s) = 32"
  shows "\<exists>t us. process_create nm e pr s = Some (next_pid s, t) \<and> vm_inv (kvm t) \<and> kernel_ok (kvm t) \<and>
     space (kvm t) = space (kvm s) \<and> us \<in> free_now (kvm s) \<and> us \<notin> free_now (kvm t) \<and>
     walk (vm_memory (kvm t)) (p_page_directory (proc t i)) =
       (\<lambda>a. if page_of a = 0xBFFFF000 then Some (us OR VADDR_OFFSET a)
            else if a < 0x400000 \<or> 0xC0000000 \<le> a then space (kvm s) a else None)"
proof (rule process_create_runs [OF assms, of nm pr])
  fix t pd us
  assume a: "process_create nm e pr s = Some (next_pid s, t)" "vm_inv (kvm t)" "kernel_ok (kvm t)"
    "space (kvm t) = space (kvm s)" "p_page_directory (proc t i) = pd"
    "us \<in> free_now (kvm s)" "us \<notin> free_now (kvm t)"
    "walk (vm_memory (kvm t)) pd = (\<lambda>a. if page_of a = 0xBFFFF000 then Some (us OR VADDR_OFFSET a)
       else if a < 0x400000 \<or> 0xC0000000 \<le> a then space (kvm s) a else None)"
  show ?thesis by (intro exI [of _ t] exI [of _ us]) (use a in simp)
qed

theorem process_create_succeeds_witness:
  "\<exists>v t us. vmm_init roomy_boot = Some v \<and>
     process_create ''shell'' 0x2000 1 (process_init (static_kernel v)) = Some (1, t) \<and>
     walk (vm_memory (kvm t)) (p_page_directory (proc t 1)) 0xBFFFFFFC = Some (us OR 0xFFC) \<and> us \<in> free_now v"
proof -
  obtain v s where m: "vmm_init roomy_boot = Some v" "s = process_init (static_kernel v)"
    "next_pid s = 1" "process_alloc s = Some 1" "kvm s = v"
    "vm_inv v" "kernel_ok v" "low_free v = 6" "current_pd_phys v = kernel_page_directory v"
    "length (process_table s) = 32" by (rule running_kernel) (rule that, assumption+)
  have "vm_inv (kvm s)" "kernel_ok (kvm s)" "current_pd_phys (kvm s) = kernel_page_directory (kvm s)"
    "5 \<le> low_free (kvm s)" "(0x2000 :: u32) < 0x400000" using m by simp_all
  from process_create_succeeds [OF this m(4,10), of "''shell''" 1] obtain t us
    where "process_create ''shell'' 0x2000 1 s = Some (next_pid s, t)" "us \<in> free_now (kvm s)"
      "walk (vm_memory (kvm t)) (p_page_directory (proc t 1)) =
       (\<lambda>a. if page_of a = 0xBFFFF000 then Some (us OR VADDR_OFFSET a)
            else if a < 0x400000 \<or> 0xC0000000 \<le> a then space (kvm s) a else None)"
    by blast
  then show ?thesis
    using m(1-3,5) by (intro exI [of _ v] exI [of _ t] exI [of _ us]) (simp add: page_of_def VADDR_OFFSET_def)
qed

text \<open>Ending a process whose address space can be released frees its slot and number, leaves it the
  exit code, makes its children orphans with parent 0, takes one from its parent's child count and changes
  nothing else in the table; a number that no process has changes nothing.\<close>

theorem process_exit_outcome:
  assumes "proc_inv s" and "n \<noteq> 0"
    and "\<forall>i. process_get n s = Some i \<longrightarrow> exit_release (p_page_directory (proc s i)) (kvm s) \<noteq> None"
  shows "\<exists>t. process_exit_with_code n code s = Some t \<and> proc_inv t \<and>
     (case process_get n s of
        None \<Rightarrow> t = s
      | Some i \<Rightarrow> (\<forall>k. used t k \<longleftrightarrow> used s k \<and> k \<noteq> i) \<and> process_get n t = None \<and> p_exit_code (proc t i) = code \<and>
          process_list_children n 32 t = [] \<and>
          (\<forall>k. used s k \<longrightarrow> k \<noteq> i \<longrightarrow> proc t k = (proc s k)
             \<lparr>p_parent_pid := (if p_parent_pid (proc s k) = n then 0 else p_parent_pid (proc s k)),
              p_child_count := (if p_pid (proc s k) = p_parent_pid (proc s i) \<and> k \<noteq> 0
                then p_child_count (proc s k) - 1 else p_child_count (proc s k))\<rparr>))"
proof (cases "process_get n s")
  case None
  then show ?thesis using assms(1) by (simp add: process_exit_with_code_def)
next
  case (Some i)
  then obtain v where v: "exit_release (p_page_directory (proc s i)) (kvm s) = Some v" using assms(3) by auto
  from assms(1,2) Some v show ?thesis
  proof (rule process_exit_cases [where code = code])
    fix t
    assume t: "process_exit_with_code n code s = Some t" "p_exit_code (proc t i) = code"
      and old: "\<And>k. used s k \<Longrightarrow> k \<noteq> i \<Longrightarrow> proc t k = (proc s k)
       \<lparr>p_parent_pid := (if p_parent_pid (proc s k) = n then 0 else p_parent_pid (proc s k)),
        p_child_count := (if p_pid (proc s k) = p_parent_pid (proc s i) \<and> k \<noteq> 0
          then p_child_count (proc s k) - 1 else p_child_count (proc s k))\<rparr>"
      and u: "\<And>k. used t k \<longleftrightarrow> used s k \<and> k \<noteq> i"
    note e = exit_keeps_inv [OF assms(1,2) Some t(1)]
    have "process_list_children n 32 t = []"
      using e(2) list_children_length [of 32 n t] by simp
    moreover have "process_get n t = None"
    proof (subst process_get_None, intro allI impI)
      fix k assume "used t k"
      then have k: "used s k" "k \<noteq> i" using u by auto
      have "p_pid (proc t k) = p_pid (proc s k)" by (subst old [OF k]) simp
      then show "p_pid (proc t k) \<noteq> n"
        using k process_get_Some [OF Some] proc_invD(5) [OF assms(1) k(1), of i] by metis
    qed
    ultimately show ?thesis using Some t e(1) old u by (intro exI [of _ t]) simp
  qed
qed

lemma made_slot:
  assumes "proc_inv s" and "current_ok s" and "0 < next_pid s" and "next_pid s < 0xFFFFFFFF"
    and "process_create nm e pr s = Some (next_pid s, t)" and "process_alloc s = Some i"
  shows "process_get (next_pid s) t = Some i \<and> proc_inv t"
  using assms(1-5)
proof (cases rule: process_create_cases)
  case (made j)
  then show ?thesis using assms(6) by (simp add: process_get_iff)
qed (use assms(3) in auto)

text \<open>What creation followed by termination does to the frames; the last frame is the one of the kernel.\<close>

lemma created_then_exited:
  assumes "proc_inv s" and "current_ok s" and n: "0 < next_pid s" "next_pid s < 0xFFFFFFFF"
    and m: "vm_inv (kvm s)" "kernel_ok (kvm s)" "current_pd_phys (kvm s) = kernel_page_directory (kvm s)"
      "5 \<le> low_free (kvm s)" and e: "e < 0x400000" and i: "process_alloc s = Some i"
    and f: "0x100000 \<in> managed_frames (vm_pmm (kvm s))"
  obtains t u where "process_create nm e pr s = Some (next_pid s, t)" "process_exit (next_pid s) t = Some u"
    "{f \<in> managed_frames (vm_pmm (kvm s)). f < 0x400000} \<subseteq> free_now (kvm u)"
    "fst (pmm_alloc_page (vm_pmm (kvm u))) = 0x100000" "process_get (next_pid s) t = Some i"
    "exit_release (p_page_directory (proc t i)) (kvm t) \<noteq> None" "proc_inv t"
proof -
  have len: "length (process_table s) = 32" by (rule proc_invD(1) [OF assms(1)])
  from m e i len show thesis
  proof (rule process_create_runs [where nm = nm and pr = pr])
    fix t pd us
    assume t: "process_create nm e pr s = Some (next_pid s, t)" "vm_inv (kvm t)"
      "current_pd_phys (kvm t) = kernel_page_directory (kvm t)"
      "managed_frames (vm_pmm (kvm t)) = managed_frames (vm_pmm (kvm s))"
      "p_page_directory (proc t i) = pd" "pd \<noteq> 0" "pd \<noteq> kernel_page_directory (kvm t)"
      "tables_ok (vm_memory (kvm t)) pd (free_now (kvm t))"
    have g: "process_get (next_pid s) t = Some i" "proc_inv t"
      using made_slot [OF assms(1,2) n t(1) i] by auto
    have "tables_ok (vm_memory (kvm t)) pd {}" by (rule tables_ok_subset [OF t(8)]) simp
    then obtain w where w: "vmm_destroy_page_directory pd (kvm t) = Some w"
      "{f \<in> managed_frames (vm_pmm (kvm t)). f < 0x400000} \<subseteq> free_now w"
      "fst (pmm_alloc_page (vm_pmm w)) = 0x100000"
      using destroy_frees_low [OF t(2) _ t(7)] f t(4) by auto
    have rel: "exit_release (p_page_directory (proc t i)) (kvm t) = Some w"
      using w(1) t(3,5-7) by (simp add: exit_release_def vmm_get_current_directory_def)
    have n0: "next_pid s \<noteq> 0" using n(1) by auto
    from g(2) n0 g(1) rel show thesis
    proof (rule process_exit_cases [where code = 0])
      fix u assume u: "process_exit_with_code (next_pid s) 0 t = Some u" "kvm u = w"
      show thesis
        by (rule that [OF t(1), of u]) (use u w g rel t(4) in \<open>simp_all add: process_exit_def\<close>)
    qed
  qed
qed

theorem process_exit_outcome_witness:
  "\<exists>v t u. vmm_init roomy_boot = Some v \<and>
     process_create ''shell'' 0x2000 1 (process_init (static_kernel v)) = Some (1, t) \<and>
     process_exit_with_code 1 7 t = Some u \<and> process_get 1 u = None \<and> (\<forall>k. used u k \<longleftrightarrow> used t k \<and> k \<noteq> 1)"
proof -
  obtain v s where m: "vmm_init roomy_boot = Some v" "s = process_init (static_kernel v)" "proc_inv s" "current_ok s"
    "next_pid s = 1" "process_alloc s = Some 1" "kvm s = v"
    "vm_inv v" "kernel_ok v" "low_free v = 6" "current_pd_phys v = kernel_page_directory v"
    "0x100000 \<in> managed_frames (vm_pmm v)" by (rule running_kernel) (rule that, assumption+)
  have "0 < next_pid s" "next_pid s < 0xFFFFFFFF" "vm_inv (kvm s)" "kernel_ok (kvm s)"
    "current_pd_phys (kvm s) = kernel_page_directory (kvm s)" "5 \<le> low_free (kvm s)" "(0x2000 :: u32) < 0x400000"
    "0x100000 \<in> managed_frames (vm_pmm (kvm s))" using m by simp_all
  note c = created_then_exited [OF m(3,4) this(1-7) m(6) this(8), of "''shell''" 1]
  obtain t u0 where t: "process_create ''shell'' 0x2000 1 s = Some (next_pid s, t)" "process_get (next_pid s) t = Some 1"
    "exit_release (p_page_directory (proc t 1)) (kvm t) \<noteq> None" "proc_inv t"
    by (rule c)
  have "\<forall>i. process_get 1 t = Some i \<longrightarrow> exit_release (p_page_directory (proc t i)) (kvm t) \<noteq> None"
    using t(2,3) m(5) by simp
  with t(4) show ?thesis
    using process_exit_outcome [of t 1 7] t(1,2) m(1,2,5) by auto
qed

text \<open>A process that is created and ended in an intact system leaves every managed frame below
  4 MB marked free, and the next allocation hands out the frame at 1 MB, where the kernel is loaded.\<close>

theorem process_exit_frees_kernel:
  assumes "proc_inv s" and "current_ok s" and "0 < next_pid s" and "next_pid s < 0xFFFFFFFF"
    and "vm_inv (kvm s)" and "kernel_ok (kvm s)" and "current_pd_phys (kvm s) = kernel_page_directory (kvm s)"
    and "5 \<le> low_free (kvm s)" and "e < 0x400000" and "process_alloc s = Some i"
    and "0x100000 \<in> managed_frames (vm_pmm (kvm s))"
  shows "\<exists>t u. process_create nm e pr s = Some (next_pid s, t) \<and> process_exit (next_pid s) t = Some u \<and>
     {f \<in> managed_frames (vm_pmm (kvm s)). f < 0x400000} \<subseteq> free_now (kvm u) \<and>
     fst (pmm_alloc_page (vm_pmm (kvm u))) = 0x100000"
  by (rule created_then_exited [OF assms, of nm pr]) blast

theorem process_exit_frees_kernel_witness:
  "\<exists>v t u. vmm_init roomy_boot = Some v \<and>
     process_create ''shell'' 0x2000 1 (process_init (static_kernel v)) = Some (1, t) \<and>
     process_exit 1 t = Some u \<and> fst (pmm_alloc_page (vm_pmm (kvm u))) = 0x100000"
proof -
  obtain v s where m: "vmm_init roomy_boot = Some v" "s = process_init (static_kernel v)" "proc_inv s" "current_ok s"
    "next_pid s = 1" "process_alloc s = Some 1" "kvm s = v"
    "vm_inv v" "kernel_ok v" "low_free v = 6" "current_pd_phys v = kernel_page_directory v"
    "0x100000 \<in> managed_frames (vm_pmm v)" by (rule running_kernel) (rule that, assumption+)
  have "0 < next_pid s" "next_pid s < 0xFFFFFFFF" "vm_inv (kvm s)" "kernel_ok (kvm s)"
    "current_pd_phys (kvm s) = kernel_page_directory (kvm s)" "5 \<le> low_free (kvm s)" "(0x2000 :: u32) < 0x400000"
    "0x100000 \<in> managed_frames (vm_pmm (kvm s))" using m by simp_all
  from process_exit_frees_kernel [OF m(3,4) this(1-7) m(6) this(8), of "''shell''" 1] show ?thesis
    using m(1,2,5) by auto
qed

end
