(* ===== verification/Scheduler.thy ===== *)
theory Scheduler
  imports Process_Life
begin

text \<open>
  The round-robin scheduler of \<open>simpleos-main/simpleos/scheduler.c\<close>. Its only own variable, the
  flag \<open>scheduling_enabled\<close>, is a field of the kernel state; the assembly routine
  \<open>switch_to_process\<close> is recorded in the list \<open>switched_to\<close>.
\<close>

section \<open>Operations\<close>

definition scheduler_init :: "kernel \<Rightarrow> kernel" where
  "scheduler_init s = s\<lparr>scheduling_enabled := False\<rparr>"

definition scheduler_start :: "kernel \<Rightarrow> kernel" where
  "scheduler_start s = s\<lparr>scheduling_enabled := True\<rparr>"

definition find_next_process :: "kernel \<Rightarrow> nat" where
  "find_next_process s =
     (let start_pid = (case process_current s of None \<Rightarrow> 1 | Some c \<Rightarrow> p_pid (process_get_table s ! c) + 1);
          slot = (\<lambda>i. unat ((start_pid + of_nat i) mod of_nat process_get_max))
      in case find (\<lambda>i. p_state (process_get_table s ! slot i) = PROCESS_STATE_READY \<and>
                        p_pid (process_get_table s ! slot i) \<noteq> 0) [0..<process_get_max * 2] of
           Some i \<Rightarrow> slot i
         | None \<Rightarrow> 0)"

text \<open>The routine leaves by \<open>iret\<close> into the process and never comes back to its caller. The call is the
  last action of \<open>scheduler_schedule\<close>, and that of every handler that reaches it (\<open>scheduler_tick\<close>, the
  timer's, \<open>irq_handler\<close>, the exit system call), so the state these definitions return after a switch is
  the one in which the process on top of the list starts.\<close>

definition switch_to_process :: "nat \<Rightarrow> kernel \<Rightarrow> kernel" where
  "switch_to_process i s = s\<lparr>switched_to := i # switched_to s\<rparr>"

definition scheduler_schedule :: "kernel \<Rightarrow> kernel" where
  "scheduler_schedule s =
     (if \<not> scheduling_enabled s then s
      else
        let current = process_current s; nxt = find_next_process s
        in if Some nxt = current then s
        else
          let s1 = (case current of
                      None \<Rightarrow> s
                    | Some c \<Rightarrow> if p_state (process_table s ! c) = PROCESS_STATE_RUNNING
                                then upd_proc c (\<lambda>p. p\<lparr>p_state := PROCESS_STATE_READY\<rparr>) s else s);
              s2 = upd_proc nxt (\<lambda>p. p\<lparr>p_state := PROCESS_STATE_RUNNING, p_time_slice := 10\<rparr>) s1;
              s3 = process_set_current (Some nxt) s2;
              pd = p_page_directory (process_table s3 ! nxt);
              s4 = (if pd \<noteq> vmm_get_current_directory (kvm s3)
                    then with_vm (vmm_switch_page_directory pd (kvm s3)) s3 else s3)
          in switch_to_process nxt s4)"

definition scheduler_tick :: "kernel \<Rightarrow> kernel" where
  "scheduler_tick s =
     (if \<not> scheduling_enabled s then s
      else case process_current s of
        None \<Rightarrow> s
      | Some c \<Rightarrow>
          let s1 = (if p_time_slice (process_table s ! c) > 0
                    then upd_proc c (\<lambda>p. p\<lparr>p_time_slice := p_time_slice p - 1\<rparr>) s else s)
          in if p_time_slice (process_table s1 ! c) = 0 then scheduler_schedule s1 else s1)"

definition scheduler_add_process :: "nat option \<Rightarrow> kernel \<Rightarrow> kernel" where
  "scheduler_add_process p s =
     (case p of None \<Rightarrow> s | Some i \<Rightarrow> upd_proc i (\<lambda>b. b\<lparr>p_state := PROCESS_STATE_READY\<rparr>) s)"

definition scheduler_remove_process :: "nat option \<Rightarrow> kernel \<Rightarrow> kernel" where
  "scheduler_remove_process p s =
     (case p of None \<Rightarrow> s | Some i \<Rightarrow> upd_proc i (\<lambda>b. b\<lparr>p_state := PROCESS_STATE_BLOCKED\<rparr>) s)"

section \<open>The process chosen\<close>

definition runnable :: "kernel \<Rightarrow> nat \<Rightarrow> bool" where
  "runnable s k \<longleftrightarrow> p_state (proc s k) = PROCESS_STATE_READY \<and> p_pid (proc s k) \<noteq> 0"

definition first_slot :: "kernel \<Rightarrow> nat" where
  "first_slot s = (case current_process s of None \<Rightarrow> 1 | Some c \<Rightarrow> (unat (p_pid (proc s c)) + 1) mod 32)"

lemma slot_index: "unat ((p + 1 + of_nat i) mod 32) = ((unat p + 1) mod 32 + i) mod 32" for p :: u32
proof -
  have e: "p + 1 + of_nat i = (of_nat (unat p + 1 + i) :: u32)" by simp
  have "unat ((p + 1 + of_nat i) mod 32) = unat (p + 1 + of_nat i) mod 32" by (simp add: unat_mod)
  also have "\<dots> = (unat p + 1 + i) mod 2 ^ 32 mod 32" unfolding e unat_of_nat by simp
  also have "\<dots> = (unat p + 1 + i) mod 32" by (rule mod_mod_cancel) simp
  also have "\<dots> = ((unat p + 1) mod 32 + i) mod 32" by (simp only: mod_simps)
  finally show ?thesis .
qed

lemma find_next_process_eq:
  "find_next_process s = (case find (\<lambda>i. runnable s ((first_slot s + i) mod 32)) [0..<64] of
     Some i \<Rightarrow> (first_slot s + i) mod 32 | None \<Rightarrow> 0)"
proof -
  have slot: "unat (((case current_process s of None \<Rightarrow> 1 | Some c \<Rightarrow> p_pid (proc s c) + 1) + of_nat i) mod of_nat 32)
      = (first_slot s + i) mod 32" for i
    using slot_index [of 0 i] slot_index [of _ i]
    by (cases "current_process s") (simp_all add: first_slot_def)
  show ?thesis
    unfolding find_next_process_def Let_def process_current_def process_get_table_def process_get_max_def
      MAX_PROCESSES_def slot runnable_def by (simp cong: option.case_cong)
qed

text \<open>The choice: the first runnable slot from \<open>first_slot\<close> on, cyclically, and else the idle process.\<close>

lemma find_next_process_cases:
  obtains (idle) "find_next_process s = 0" "\<And>k. k < 32 \<Longrightarrow> \<not> runnable s k"
  | (found) d where "d < 32" "find_next_process s = (first_slot s + d) mod 32"
      "runnable s ((first_slot s + d) mod 32)" "\<And>e. e < d \<Longrightarrow> \<not> runnable s ((first_slot s + e) mod 32)"
proof (cases "find (\<lambda>i. runnable s ((first_slot s + i) mod 32)) [0..<64]")
  case None
  have "\<not> runnable s k" if "k < 32" for k
  proof -
    define r where "r = first_slot s mod 32"
    define d where "d = (if r \<le> k then k - r else k + 32 - r)"
    have "r < 32" by (simp add: r_def)
    then have "(r + d) mod 32 = k" using that by (auto simp: d_def)
    then have "(first_slot s + d) mod 32 = k" by (simp only: r_def mod_add_left_eq)
    moreover have "d < 64" using that \<open>r < 32\<close> by (auto simp: d_def)
    moreover have "\<And>i. i < 64 \<Longrightarrow> \<not> runnable s ((first_slot s + i) mod 32)" using None unfolding find_upt_none by blast
    ultimately show ?thesis by metis
  qed
  moreover have "find_next_process s = 0" by (simp only: find_next_process_eq None option.case)
  ultimately show thesis using idle by blast
next
  case (Some d)
  note f = iffD1 [OF find_upt_Some Some]
  have "d < 32"
  proof (rule ccontr)
    assume "\<not> d < 32"
    then obtain e where e: "d = e + 32" by (metis le_add_diff_inverse2 not_less)
    then have "(first_slot s + d) mod 32 = (first_slot s + e) mod 32" by (simp only: add.assoc [symmetric] mod_add_self2)
    moreover have "e < d" using e by simp
    ultimately show False using f by metis
  qed
  moreover have "find_next_process s = (first_slot s + d) mod 32"
    by (simp only: find_next_process_eq Some option.case)
  moreover have "runnable s ((first_slot s + d) mod 32)" "\<And>e. e < d \<Longrightarrow> \<not> runnable s ((first_slot s + e) mod 32)"
    using f by auto
  ultimately show thesis by (rule found)
qed

lemma next_slot_less: "find_next_process s < 32"
  by (cases rule: find_next_process_cases [of s]) simp_all

section \<open>The effect of a switch\<close>

text \<open>Fields the scheduler leaves alone in every block.\<close>

definition rescheduled :: "process \<Rightarrow> process \<Rightarrow> bool" where
  "rescheduled p q \<longleftrightarrow> p_pid q = p_pid p \<and> p_parent_pid q = p_parent_pid p \<and> p_child_count q = p_child_count p \<and>
     p_kernel_stack q = p_kernel_stack p \<and> p_page_directory q = p_page_directory p \<and> p_eip q = p_eip p \<and>
     p_esp q = p_esp p"

lemma scheduler_schedule_cases:
  assumes len: "length (process_table s) = 32" and cur: "\<forall>c. current_process s = Some c \<longrightarrow> c < 32"
  obtains (still) "\<not> scheduling_enabled s \<or> current_process s = Some (find_next_process s)" "scheduler_schedule s = s"
  | (switched) n t where "scheduling_enabled s" "n = find_next_process s" "current_process s \<noteq> Some n"
      "scheduler_schedule s = t" "current_process t = Some n" "switched_to t = n # switched_to s"
      "tss_esp0 t = p_kernel_stack (proc s n)" "vm_memory (kvm t) = vm_memory (kvm s)" "vm_pmm (kvm t) = vm_pmm (kvm s)"
      "current_pd_phys (kvm t) = p_page_directory (proc s n)"
      "kernel_page_directory (kvm t) = kernel_page_directory (kvm s)"
      "next_pid t = next_pid s" "length (process_table t) = 32" "scheduling_enabled t"
      "p_time_slice (proc t n) = 10"
      "\<And>k. k < 32 \<Longrightarrow> rescheduled (proc s k) (proc t k)"
      "\<And>k. k < 32 \<Longrightarrow> p_state (proc t k) = (if k = n then PROCESS_STATE_RUNNING
         else if current_process s = Some k \<and> p_state (proc s k) = PROCESS_STATE_RUNNING then PROCESS_STATE_READY
         else p_state (proc s k))"
      "\<And>k. k < 32 \<Longrightarrow> k \<noteq> n \<Longrightarrow> current_process s \<noteq> Some k \<Longrightarrow> proc t k = proc s k"
proof (cases "\<not> scheduling_enabled s \<or> current_process s = Some (find_next_process s)")
  case True
  then show thesis by (intro still) (auto simp: scheduler_schedule_def process_current_def)
next
  case False
  define n where "n = find_next_process s"
  have n: "n < 32" by (simp add: n_def next_slot_less)
  define s1 where "s1 = (case current_process s of None \<Rightarrow> s
      | Some c \<Rightarrow> if p_state (proc s c) = PROCESS_STATE_RUNNING
                  then upd_proc c (\<lambda>p. p\<lparr>p_state := PROCESS_STATE_READY\<rparr>) s else s)"
  define s2 where "s2 = upd_proc n (\<lambda>p. p\<lparr>p_state := PROCESS_STATE_RUNNING, p_time_slice := 10\<rparr>) s1"
  define s3 where "s3 = process_set_current (Some n) s2"
  define s4 where "s4 = (if p_page_directory (proc s3 n) \<noteq> vmm_get_current_directory (kvm s3)
      then with_vm (vmm_switch_page_directory (p_page_directory (proc s3 n)) (kvm s3)) s3 else s3)"
  have e: "scheduler_schedule s = switch_to_process n s4"
    using False unfolding scheduler_schedule_def Let_def process_current_def n_def [symmetric]
      s1_def [symmetric] s2_def [symmetric] s3_def [symmetric] s4_def [symmetric] by auto
  have s1: "length (process_table s1) = 32" "kvm s1 = kvm s" "next_pid s1 = next_pid s"
    "scheduling_enabled s1 = scheduling_enabled s" "switched_to s1 = switched_to s"
    "\<And>k. k < 32 \<Longrightarrow> proc s1 k = (if current_process s = Some k \<and> p_state (proc s k) = PROCESS_STATE_RUNNING
       then (proc s k)\<lparr>p_state := PROCESS_STATE_READY\<rparr> else proc s k)"
    using len cur by (auto simp: s1_def nth_list_update split: option.splits)
  have s2: "length (process_table s2) = 32" "kvm s2 = kvm s" "next_pid s2 = next_pid s"
    "scheduling_enabled s2 = scheduling_enabled s" "switched_to s2 = switched_to s"
    "\<And>k. k < 32 \<Longrightarrow> proc s2 k = (if k = n then (proc s1 n)\<lparr>p_state := PROCESS_STATE_RUNNING, p_time_slice := 10\<rparr> else proc s1 k)"
    using s1(1-5) n by (auto simp: s2_def nth_list_update)
  have s3: "process_table s3 = process_table s2" "kvm s3 = kvm s" "next_pid s3 = next_pid s"
    "scheduling_enabled s3 = scheduling_enabled s" "switched_to s3 = switched_to s"
    "current_process s3 = Some n" "tss_esp0 s3 = p_kernel_stack (proc s2 n)"
    using s2(2-5) by (simp_all add: s3_def process_set_current_def Let_def tss_set_kernel_stack_def)
  have s4: "process_table s4 = process_table s2" "next_pid s4 = next_pid s"
    "scheduling_enabled s4 = scheduling_enabled s" "switched_to s4 = switched_to s"
    "current_process s4 = Some n" "tss_esp0 s4 = p_kernel_stack (proc s2 n)"
    "vm_memory (kvm s4) = vm_memory (kvm s)" "vm_pmm (kvm s4) = vm_pmm (kvm s)"
    "current_pd_phys (kvm s4) = p_page_directory (proc s2 n)"
    "kernel_page_directory (kvm s4) = kernel_page_directory (kvm s)"
    using s3 by (auto simp: s4_def vmm_get_current_directory_def vmm_switch_page_directory_def
        load_page_directory_def with_vm_def)
  let ?t = "switch_to_process n s4"
  have pn: "p_kernel_stack (proc s2 n) = p_kernel_stack (proc s n)"
    "p_page_directory (proc s2 n) = p_page_directory (proc s n)" "p_time_slice (proc s2 n) = 10"
    using s2(6) [OF n] s1(6) [OF n] by auto
  have k: "rescheduled (proc s k) (proc ?t k)"
    "p_state (proc ?t k) = (if k = n then PROCESS_STATE_RUNNING
         else if current_process s = Some k \<and> p_state (proc s k) = PROCESS_STATE_RUNNING then PROCESS_STATE_READY
         else p_state (proc s k))"
    "k \<noteq> n \<Longrightarrow> current_process s \<noteq> Some k \<Longrightarrow> proc ?t k = proc s k" if "k < 32" for k
    using s2(6) [OF that] s1(6) [OF that] n s4(1) by (auto simp: rescheduled_def switch_to_process_def)
  show thesis
    by (rule switched [of n ?t])
      (use False e k n_def in \<open>auto simp: switch_to_process_def s4 pn [unfolded n_def] s2(1)\<close>)
qed

section \<open>Invariants\<close>

definition run_ok :: "kernel \<Rightarrow> bool" where
  "run_ok s \<longleftrightarrow> (\<forall>k < 32. p_state (proc s k) = PROCESS_STATE_RUNNING \<longrightarrow> current_process s = Some k)"

text \<open>One block's state set to another one than unused: what \<open>scheduler_add_process\<close> and
  \<open>scheduler_remove_process\<close> do.\<close>

lemma set_state_inv:
  assumes "proc_inv s" and "used s i" and "st \<noteq> 0" and "st \<noteq> PROCESS_STATE_RUNNING"
  shows "proc_inv (upd_proc i (\<lambda>b. b\<lparr>p_state := st\<rparr>) s)"
    and "current_ok s \<Longrightarrow> current_ok (upd_proc i (\<lambda>b. b\<lparr>p_state := st\<rparr>) s)"
    and "run_ok s \<Longrightarrow> run_ok (upd_proc i (\<lambda>b. b\<lparr>p_state := st\<rparr>) s)"
proof -
  let ?t = "upd_proc i (\<lambda>b. b\<lparr>p_state := st\<rparr>) s"
  have len: "length (process_table s) = 32" and i: "i < 32"
    using proc_invD(1) [OF assms(1)] used_lt [OF assms(2)] by auto
  have p: "proc ?t k = (if k = i then (proc s i)\<lparr>p_state := st\<rparr> else proc s k)" for k
    using len i by (simp add: nth_list_update)
  show "proc_inv ?t"
    by (rule proc_inv_cong [OF assms(1)])
      (use assms(2,3) len i in \<open>auto simp: same_links_def used_def nth_list_update\<close>)
  have "used ?t k = used s k" for k using p [of k] assms(2,3) by (auto simp: used_def)
  then show "current_ok s \<Longrightarrow> current_ok ?t" by (simp add: current_ok_def)
  show "run_ok s \<Longrightarrow> run_ok ?t" using p assms(4) by (simp add: run_ok_def)
qed

lemma runnable_used: "k < 32 \<Longrightarrow> runnable s k \<Longrightarrow> used s k"
  by (simp add: runnable_def used_def word_norm)

lemma next_used: "proc_inv s \<Longrightarrow> used s (find_next_process s)"
  by (cases rule: find_next_process_cases [of s]) (auto simp: proc_invD(2) intro!: runnable_used)

lemma schedule_inv:
  assumes "proc_inv s" and "current_ok s"
  shows "proc_inv (scheduler_schedule s)" and "current_ok (scheduler_schedule s)"
    and "run_ok s \<Longrightarrow> run_ok (scheduler_schedule s)" and "next_pid (scheduler_schedule s) = next_pid s"
proof -
  have len: "length (process_table s) = 32" by (rule proc_invD(1) [OF assms(1)])
  have cur: "\<forall>c. current_process s = Some c \<longrightarrow> c < 32" using assms(2) by (auto simp: current_ok_def used_def)
  from len cur have "proc_inv (scheduler_schedule s) \<and> current_ok (scheduler_schedule s) \<and>
      (run_ok s \<longrightarrow> run_ok (scheduler_schedule s)) \<and> next_pid (scheduler_schedule s) = next_pid s"
  proof (cases rule: scheduler_schedule_cases)
    case still
    then show ?thesis using assms by simp
  next
    case (switched n t)
    have n: "used s n" using next_used [OF assms(1)] switched(2) by simp
    have st: "p_state (proc t k) = 0 \<longleftrightarrow> p_state (proc s k) = 0" if "k < 32" for k
    proof -
      have "PROCESS_STATE_RUNNING \<noteq> 0" "PROCESS_STATE_READY \<noteq> 0" by (simp_all add: word_norm)
      moreover have "p_state (proc s n) \<noteq> 0" using n by (simp add: used_def)
      ultimately show ?thesis using switched(17) [OF that] by metis
    qed
    have "proc_inv t"
    proof (rule proc_inv_cong [OF assms(1) switched(13,12)])
      show "same_links (proc t i) (proc s i)" if "i < 32" for i
        using switched(16) [OF that] st [OF that] by (simp add: same_links_def rescheduled_def)
    qed
    moreover have "current_ok t" using n st [OF used_lt [OF n]] by (simp add: current_ok_def switched(5) used_def)
    moreover have "run_ok t" if "run_ok s"
      unfolding run_ok_def
    proof (intro allI impI)
      fix k :: nat assume k: "k < 32" "p_state (proc t k) = PROCESS_STATE_RUNNING"
      have "PROCESS_STATE_RUNNING \<noteq> PROCESS_STATE_READY" by (simp add: word_norm)
      then have "k = n" using that switched(17) [OF k(1)] k unfolding run_ok_def by metis
      then show "current_process t = Some k" by (simp add: switched(5))
    qed
    ultimately show ?thesis using switched(4,12) by simp
  qed
  then show "proc_inv (scheduler_schedule s)" "current_ok (scheduler_schedule s)"
    "run_ok s \<Longrightarrow> run_ok (scheduler_schedule s)" "next_pid (scheduler_schedule s) = next_pid s" by auto
qed

definition tick_slice :: "kernel \<Rightarrow> nat \<Rightarrow> kernel" where
  "tick_slice s c = (if p_time_slice (proc s c) > 0
     then upd_proc c (\<lambda>p. p\<lparr>p_time_slice := p_time_slice p - 1\<rparr>) s else s)"

lemma scheduler_tick_cases:
  obtains (still) "\<not> scheduling_enabled s \<or> current_process s = None" "scheduler_tick s = s"
  | (slice) c where "scheduling_enabled s" "current_process s = Some c" "scheduler_tick s =
      (if p_time_slice (proc (tick_slice s c) c) = 0 then scheduler_schedule (tick_slice s c) else tick_slice s c)"
proof (cases "scheduling_enabled s \<and> current_process s \<noteq> None")
  case True
  then obtain c where "current_process s = Some c" by auto
  then show thesis using True
    by (intro slice [of c]) (simp_all add: scheduler_tick_def process_current_def tick_slice_def Let_def)
next
  case False
  then show thesis by (intro still) (auto simp: scheduler_tick_def process_current_def)
qed

lemma tick_slice_keeps:
  assumes "length (process_table s) = 32" and "c < 32"
  shows "proc (tick_slice s c) k = (if k = c then (proc s c)\<lparr>p_time_slice := p_time_slice (proc s c) - (if p_time_slice (proc s c) > 0 then 1 else 0)\<rparr> else proc s k)"
    and "length (process_table (tick_slice s c)) = 32" and "current_process (tick_slice s c) = current_process s"
    and "next_pid (tick_slice s c) = next_pid s" and "kvm (tick_slice s c) = kvm s"
    and "scheduling_enabled (tick_slice s c) = scheduling_enabled s" and "switched_to (tick_slice s c) = switched_to s"
  using assms by (auto simp: tick_slice_def nth_list_update)

text \<open>A tick either comes back to the interrupted code or hands the processor to the process it made current.\<close>

lemma tick_switch:
  assumes "proc_inv s" and "current_ok s"
  shows "switched_to (scheduler_tick s) = switched_to s \<or>
    scheduling_enabled s \<and> (\<exists>c. switched_to (scheduler_tick s) = c # switched_to s \<and>
      current_process (scheduler_tick s) = Some c \<and> p_state (proc (scheduler_tick s) c) = PROCESS_STATE_RUNNING)"
proof (cases rule: scheduler_tick_cases [of s])
  case (slice c)
  have len: "length (process_table s) = 32" by (rule proc_invD(1) [OF assms(1)])
  have c: "c < 32" using assms(2) slice(2) by (simp add: current_ok_def used_def)
  note k = tick_slice_keeps [OF len c]
  have cur: "\<forall>d. current_process (tick_slice s c) = Some d \<longrightarrow> d < 32" using slice(2) c by (simp add: k(3))
  from k(2) cur show ?thesis
  proof (cases rule: scheduler_schedule_cases)
    case still
    then show ?thesis by (simp add: slice(3) k(7))
  next
    case (switched n t)
    have "n < 32" by (simp add: switched(2) next_slot_less)
    then have "p_state (proc t n) = PROCESS_STATE_RUNNING" by (simp add: switched(17))
    then show ?thesis using switched(4-6) slice(1) by (auto simp: slice(3) k(7))
  qed
qed simp

lemma tick_slice_inv:
  assumes "proc_inv s" and "used s c"
  shows "proc_inv (tick_slice s c)" and "current_ok s \<Longrightarrow> current_ok (tick_slice s c)"
    and "run_ok s \<Longrightarrow> run_ok (tick_slice s c)"
proof -
  note k = tick_slice_keeps [OF proc_invD(1) [OF assms(1)] used_lt [OF assms(2)]]
  show "proc_inv (tick_slice s c)"
    by (rule proc_inv_cong [OF assms(1) k(2,4)]) (simp add: k(1) same_links_def)
  show "current_ok s \<Longrightarrow> current_ok (tick_slice s c)" by (auto simp: current_ok_def used_def k(1,3))
  show "run_ok s \<Longrightarrow> run_ok (tick_slice s c)" by (auto simp: run_ok_def k(1,3) split: if_splits)
qed

lemma tick_inv:
  assumes "proc_inv s" and "current_ok s"
  shows "proc_inv (scheduler_tick s) \<and> current_ok (scheduler_tick s) \<and> (run_ok s \<longrightarrow> run_ok (scheduler_tick s)) \<and>
    next_pid (scheduler_tick s) = next_pid s"
proof (cases rule: scheduler_tick_cases [of s])
  case still
  then show ?thesis using assms by simp
next
  case (slice c)
  have c: "used s c" using assms(2) slice(2) by (simp add: current_ok_def)
  note t = tick_slice_inv [OF assms(1) c]
  have n: "next_pid (tick_slice s c) = next_pid s"
    by (rule tick_slice_keeps(4) [OF proc_invD(1) [OF assms(1)] used_lt [OF c]])
  show ?thesis unfolding slice(3) using t assms(2) schedule_inv [OF t(1) t(2)] n by auto
qed

section \<open>Runs of the kernel\<close>

text \<open>The steps of the process and scheduler interface, from start-up on: creation, termination of
  another process than the current one, timer ticks, forced scheduling, starting the scheduler,
  blocking and waking.\<close>

inductive kernel_run :: "kernel \<Rightarrow> kernel \<Rightarrow> bool" for s0 where
  start: "kernel_run s0 (scheduler_init (process_init s0))"
| enable: "kernel_run s0 s \<Longrightarrow> kernel_run s0 (scheduler_start s)"
| create: "kernel_run s0 s \<Longrightarrow> next_pid s < 0xFFFFFFFF \<Longrightarrow> process_create nm e pr s = Some (r, t) \<Longrightarrow>
    kernel_run s0 t"
| exit: "kernel_run s0 s \<Longrightarrow> n \<noteq> 0 \<Longrightarrow> process_get n s \<noteq> current_process s \<Longrightarrow>
    process_exit_with_code n code s = Some t \<Longrightarrow> kernel_run s0 t"
| schedule: "kernel_run s0 s \<Longrightarrow> kernel_run s0 (scheduler_schedule s)"
| tick: "kernel_run s0 s \<Longrightarrow> kernel_run s0 (scheduler_tick s)"
| wake: "kernel_run s0 s \<Longrightarrow> process_get n s = Some i \<Longrightarrow> kernel_run s0 (scheduler_add_process (Some i) s)"
| block: "kernel_run s0 s \<Longrightarrow> process_get n s = Some i \<Longrightarrow> kernel_run s0 (scheduler_remove_process (Some i) s)"

lemma enabled_inv:
  "proc_inv (s\<lparr>scheduling_enabled := b\<rparr>) = proc_inv s" "current_ok (s\<lparr>scheduling_enabled := b\<rparr>) = current_ok s"
  "run_ok (s\<lparr>scheduling_enabled := b\<rparr>) = run_ok s"
proof -
  have u: "used (s\<lparr>scheduling_enabled := b\<rparr>) = used s" by (simp add: used_def fun_eq_iff)
  have c: "children (s\<lparr>scheduling_enabled := b\<rparr>) = children s" by (simp add: children_def u fun_eq_iff)
  have l: "live_pid (s\<lparr>scheduling_enabled := b\<rparr>) = live_pid s" by (simp add: live_pid_def u fun_eq_iff)
  show "proc_inv (s\<lparr>scheduling_enabled := b\<rparr>) = proc_inv s" "current_ok (s\<lparr>scheduling_enabled := b\<rparr>) = current_ok s"
    "run_ok (s\<lparr>scheduling_enabled := b\<rparr>) = run_ok s"
    unfolding proc_inv_def current_ok_def run_ok_def u c l by simp_all
qed

lemma create_run_ok:
  assumes "proc_inv s" and "current_ok s" and "0 < next_pid s" and "next_pid s < 0xFFFFFFFF"
    and "process_create nm e pr s = Some (r, t)" and run: "run_ok s"
  shows "run_ok t" and "0 < next_pid t"
proof -
  have old: "current_process s = Some k" if k: "used s k" "p_state (proc t k) = PROCESS_STATE_RUNNING"
    and pk: "proc t k = (if current_process s = Some k \<and> p_pid (proc s k) \<noteq> 0
         then (proc s k)\<lparr>p_child_count := p_child_count (proc s k) + 1\<rparr> else proc s k)" for k
  proof -
    have "p_state (proc t k) = p_state (proc s k)" by (subst pk) simp
    then show ?thesis using k(2) run used_lt [OF k(1)] unfolding run_ok_def by metis
  qed
  have ru: "used t k" if "k < 32" "p_state (proc t k) = PROCESS_STATE_RUNNING" for k
    using that by (simp add: used_def word_norm)
  have "0 < next_pid s + 1" using unat_inc_less [OF assms(4)] by (simp add: word_less_nat_alt)
  note next_pos = this
  from assms(1-5) have "run_ok t \<and> 0 < next_pid t"
  proof (cases rule: process_create_cases)
    case full
    then show ?thesis using run assms(3) by simp
  next
    case failed
    have "current_process t = Some k" if k: "k < 32" "p_state (proc t k) = PROCESS_STATE_RUNNING" for k
    proof -
      have s: "used s k" using ru [OF k] failed(3) by simp
      show ?thesis using old [OF s k(2) failed(7) [OF s]] failed(5) by simp
    qed
    then show ?thesis using failed(6) next_pos by (simp add: run_ok_def)
  next
    case (made i)
    have "current_process t = Some k" if k: "k < 32" "p_state (proc t k) = PROCESS_STATE_RUNNING" for k
    proof -
      have "k \<noteq> i" using k(2) made(9) by (auto simp: word_norm)
      then have s: "used s k" using ru [OF k] made(4) [of k] by simp
      show ?thesis using old [OF s k(2) made(16) [OF s]] made(6) by simp
    qed
    then show ?thesis using made(7) next_pos by (simp add: run_ok_def)
  qed
  then show "run_ok t" "0 < next_pid t" by auto
qed

lemma exit_run_ok:
  assumes "proc_inv s" and "n \<noteq> 0" and "process_get n s = Some i" and "process_exit_with_code n code s = Some t"
    and "run_ok s"
  shows "run_ok t"
proof -
  obtain v where "exit_release (p_page_directory (proc s i)) (kvm s) = Some v"
    by (rule process_exit_Some [OF assms(1-4)])
  with assms(1-3) show ?thesis
  proof (rule process_exit_cases [where code = code])
    fix u
    assume u: "process_exit_with_code n code s = Some u" "current_process u = current_process s"
      and old: "\<And>k. used s k \<Longrightarrow> k \<noteq> i \<Longrightarrow> proc u k = (proc s k)
       \<lparr>p_parent_pid := (if p_parent_pid (proc s k) = n then 0 else p_parent_pid (proc s k)),
        p_child_count := (if p_pid (proc s k) = p_parent_pid (proc s i) \<and> k \<noteq> 0
          then p_child_count (proc s k) - 1 else p_child_count (proc s k))\<rparr>"
      and us: "\<And>k. used u k \<longleftrightarrow> used s k \<and> k \<noteq> i"
    have "t = u" using u(1) assms(4) by simp
    have "current_process s = Some k" if k: "k < 32" "p_state (proc u k) = PROCESS_STATE_RUNNING" for k
    proof -
      have "used u k" using k by (simp add: used_def word_norm)
      then have s: "used s k" "k \<noteq> i" using us by auto
      have "p_state (proc u k) = p_state (proc s k)" by (subst old [OF s]) simp
      then show ?thesis using assms(5) k by (simp add: run_ok_def)
    qed
    then show ?thesis by (simp add: run_ok_def \<open>t = u\<close> u(2))
  qed
qed

lemma kernel_run_inv:
  assumes "kernel_run s0 s" and "blank_table s0"
  shows "proc_inv s \<and> current_ok s \<and> run_ok s \<and> 0 < next_pid s"
  using assms(1)
proof induction
  case start
  note i = process_init_inv [OF assms(2)]
  have "run_ok (process_init s0)"
    unfolding run_ok_def
  proof (intro allI impI)
    fix k :: nat assume "k < 32" "p_state (proc (process_init s0) k) = PROCESS_STATE_RUNNING"
    then have "k = 0" using i(7) [of k] by (cases "k = 0") (auto simp: word_norm)
    then show "current_process (process_init s0) = Some k"
      using process_init_table(3) [of s0] assms(2) by (simp add: blank_table_def)
  qed
  moreover have "next_pid (process_init s0) = 1"
    using process_init_table(4) [of s0] assms(2) by (simp add: blank_table_def)
  ultimately show ?case using i(1,2) by (simp add: scheduler_init_def enabled_inv)
next
  case (enable s)
  then show ?case by (simp add: scheduler_start_def enabled_inv)
next
  case (create s nm e pr r t)
  then have s: "proc_inv s" "current_ok s" "0 < next_pid s" "run_ok s" by auto
  note c = create_run_ok [OF s(1-3) create.hyps(2,3) s(4)]
  from s(1-3) create.hyps(2,3) show ?case by (cases rule: process_create_cases) (use s c in auto)
next
  case (exit s n code t)
  show ?case
  proof (cases "process_get n s")
    case None
    then show ?thesis using exit by (simp add: process_exit_with_code_def)
  next
    case (Some i)
    note e = exit_keeps_inv [OF _ exit.hyps(2) Some exit.hyps(4)]
    have "c \<noteq> i" if "current_process s = Some c" for c using Some exit.hyps(3) that by auto
    moreover have "run_ok t"
      using exit_run_ok [OF _ exit.hyps(2) Some exit.hyps(4)] exit.IH by blast
    ultimately show ?thesis using e exit.IH by (auto simp: current_ok_def)
  qed
next
  case (schedule s)
  then show ?case using schedule_inv [of s] by simp
next
  case (tick s)
  then show ?case using tick_inv [of s] by simp
next
  case (wake s n i)
  have "used s i" by (rule conjunct1 [OF process_get_Some [OF wake.hyps(2)]])
  then show ?case using set_state_inv [of s i PROCESS_STATE_READY] wake.IH
    by (simp add: scheduler_add_process_def word_norm)
next
  case (block s n i)
  have "used s i" by (rule conjunct1 [OF process_get_Some [OF block.hyps(2)]])
  then show ?case using set_state_inv [of s i PROCESS_STATE_BLOCKED] block.IH
    by (simp add: scheduler_remove_process_def word_norm)
qed

text \<open>C9: In every state the kernel reaches, at most one process is marked running, and it is the current
  one; the current process is in use and the process numbers in use are distinct.\<close>

theorem scheduler_single_running:
  assumes "kernel_run s0 s" and "blank_table s0"
  shows "(\<forall>k < 32. p_state (proc s k) = PROCESS_STATE_RUNNING \<longrightarrow> current_process s = Some k) \<and>
     (\<forall>c. current_process s = Some c \<longrightarrow> process_get (p_pid (proc s c)) s = Some c)"
proof -
  have i: "proc_inv s" "current_ok s" "run_ok s" using kernel_run_inv [OF assms] by auto
  have "process_get (p_pid (proc s c)) s = Some c" if "current_process s = Some c" for c
    using i(1,2) that by (simp add: process_get_iff current_ok_def)
  then show ?thesis using i(3) by (simp add: run_ok_def)
qed

theorem scheduler_single_running_witness:
  "\<exists>v s t. vmm_init roomy_boot = Some v \<and> s = scheduler_init (process_init (static_kernel v)) \<and>
     process_create ''TestA'' 0x2000 2 s = Some (1, t) \<and>
     (\<forall>k < 32. p_state (proc (scheduler_schedule (scheduler_start t)) k) = PROCESS_STATE_RUNNING \<longrightarrow>
        current_process (scheduler_schedule (scheduler_start t)) = Some k)"
proof -
  obtain v s0 where m: "vmm_init roomy_boot = Some v" "s0 = process_init (static_kernel v)"
    "next_pid s0 = 1" "process_alloc s0 = Some 1" "kvm s0 = v"
    "vm_inv v" "kernel_ok v" "low_free v = 6" "current_pd_phys v = kernel_page_directory v"
    "length (process_table s0) = 32" by (rule running_kernel) (rule that, assumption+)
  define s where "s = scheduler_init s0"
  have s: "vm_inv (kvm s)" "kernel_ok (kvm s)" "current_pd_phys (kvm s) = kernel_page_directory (kvm s)"
    "5 \<le> low_free (kvm s)" "(0x2000 :: u32) < 0x400000" "process_alloc s = Some 1" "length (process_table s) = 32"
    "next_pid s = 1"
    using m by (simp_all add: s_def scheduler_init_def process_alloc_def)
  obtain t where t: "process_create ''TestA'' 0x2000 2 s = Some (next_pid s, t)"
    using process_create_runs [OF s(1-7), of "''TestA''" 2] by blast
  have "kernel_run (static_kernel v) s" using kernel_run.start [of "static_kernel v"] by (simp add: s_def m(2))
  moreover have "next_pid s < 0xFFFFFFFF" by (simp add: s(8))
  ultimately have "kernel_run (static_kernel v) t" using t by (rule kernel_run.create)
  then have "kernel_run (static_kernel v) (scheduler_schedule (scheduler_start t))"
    by (intro kernel_run.schedule kernel_run.enable)
  from scheduler_single_running [OF this static_kernel_blank] show ?thesis
    using m(1,2) t s(8) by (auto simp: s_def)
qed

text \<open>C10: With the scheduler on, \<open>scheduler_schedule\<close> gives the processor to the first ready process other than
  the idle one in the slots from the one after the current process number on, cyclically, and to the idle process when there is none:
  that process becomes the only one marked running, has a fresh time slice, its kernel stack is in the task
  state segment and its page directory is loaded.\<close>

theorem scheduler_schedule_outcome:
  assumes "proc_inv s" and "current_ok s" and "run_ok s" and "scheduling_enabled s"
  shows "\<exists>n < 32. current_process (scheduler_schedule s) = Some n \<and>
     (\<exists>d < 32. n = (first_slot s + d) mod 32 \<and> runnable s n \<and> (\<forall>e < d. \<not> runnable s ((first_slot s + e) mod 32)) \<or>
        n = 0 \<and> (\<forall>k < 32. \<not> runnable s k)) \<and>
     (if current_process s = Some n then scheduler_schedule s = s
      else let t = scheduler_schedule s in
        (\<forall>k < 32. p_state (proc t k) = PROCESS_STATE_RUNNING \<longleftrightarrow> k = n) \<and> p_time_slice (proc t n) = 10 \<and>
        tss_esp0 t = p_kernel_stack (proc t n) \<and> current_pd_phys (kvm t) = p_page_directory (proc t n) \<and>
        switched_to t = n # switched_to s \<and>
        (\<forall>k < 32. k \<noteq> n \<longrightarrow> current_process s \<noteq> Some k \<longrightarrow> proc t k = proc s k) \<and>
        (\<forall>c. current_process s = Some c \<longrightarrow> p_state (proc s c) = PROCESS_STATE_RUNNING \<longrightarrow>
           p_state (proc t c) = PROCESS_STATE_READY))"
proof -
  let ?n = "find_next_process s"
  have n32: "?n < 32" by (rule next_slot_less)
  have choice: "\<exists>d < 32. ?n = (first_slot s + d) mod 32 \<and> runnable s ?n \<and>
      (\<forall>e < d. \<not> runnable s ((first_slot s + e) mod 32)) \<or> ?n = 0 \<and> (\<forall>k < 32. \<not> runnable s k)"
  proof (cases rule: find_next_process_cases [of s])
    case idle
    then show ?thesis by (intro exI [of _ 0]) simp
  next
    case (found d)
    then show ?thesis by (intro exI [of _ d]) simp
  qed
  have len: "length (process_table s) = 32" by (rule proc_invD(1) [OF assms(1)])
  have cur: "\<forall>c. current_process s = Some c \<longrightarrow> c < 32" using assms(2) by (auto simp: current_ok_def used_def)
  have run: "run_ok (scheduler_schedule s)" by (rule schedule_inv(3) [OF assms(1-3)])
  from len cur show ?thesis
  proof (cases rule: scheduler_schedule_cases)
    case still
    then have "current_process s = Some ?n" using assms(4) by simp
    then show ?thesis using still(2) choice n32 by (intro exI [of _ ?n]) simp
  next
    case (switched n t)
    have r: "p_state (proc t k) = PROCESS_STATE_RUNNING \<longleftrightarrow> k = n" if "k < 32" for k
      using run switched(5) switched(17) [OF that] that unfolding switched(4) run_ok_def
      by (metis option.inject)
    have n: "n < 32" using n32 switched(2) by simp
    have same: "p_kernel_stack (proc t n) = p_kernel_stack (proc s n)" "p_page_directory (proc t n) = p_page_directory (proc s n)"
      using switched(16) [OF n] by (simp_all add: rescheduled_def)
    have ready: "p_state (proc t c) = PROCESS_STATE_READY"
      if "current_process s = Some c" "p_state (proc s c) = PROCESS_STATE_RUNNING" for c
    proof -
      have "c < 32" "c \<noteq> n" using cur that(1) switched(3) by auto
      then show ?thesis using switched(17) [of c] that by simp
    qed
    show ?thesis
      using choice n switched(2) switched(3) r same ready switched(5-7,10,15,18)
      by (intro exI [of _ n]) (simp add: switched(4) Let_def)
  qed
qed

text \<open>A kernel whose table holds, from slot 1 on, ready processes with the given numbers.\<close>

definition ready_kernel :: "u32 list \<Rightarrow> kernel" where
  "ready_kernel ns = (process_init (static_kernel boot_vm))\<lparr>process_table :=
     map (\<lambda>k. if k = 0 then blank_process\<lparr>p_state := PROCESS_STATE_RUNNING\<rparr>
              else if k \<le> length ns then blank_process\<lparr>p_pid := ns ! (k - 1), p_state := PROCESS_STATE_READY\<rparr>
              else blank_process) [0..<32],
     next_pid := 100, scheduling_enabled := True\<rparr>"

lemma ready_kernel_proc:
  "k < 32 \<Longrightarrow> proc (ready_kernel ns) k = (if k = 0 then blank_process\<lparr>p_state := PROCESS_STATE_RUNNING\<rparr>
     else if k \<le> length ns then blank_process\<lparr>p_pid := ns ! (k - 1), p_state := PROCESS_STATE_READY\<rparr>
     else blank_process)"
  by (simp add: ready_kernel_def)

lemma ready_kernel_fields:
  assumes "k < 32"
  shows "p_pid (proc (ready_kernel ns) k) = (if k \<noteq> 0 \<and> k \<le> length ns then ns ! (k - 1) else 0)"
    and "p_state (proc (ready_kernel ns) k) = (if k = 0 then 2 else if k \<le> length ns then 1 else 0)"
    and "p_parent_pid (proc (ready_kernel ns) k) = 0" and "p_child_count (proc (ready_kernel ns) k) = 0"
  using assms by (simp_all add: ready_kernel_proc blank_process_def word_norm)

lemma ready_kernel_globals:
  "current_process (ready_kernel ns) = Some 0" "next_pid (ready_kernel ns) = 100"
  "length (process_table (ready_kernel ns)) = 32" "scheduling_enabled (ready_kernel ns)"
  using process_init_table(3) [of "static_kernel boot_vm"] by (simp_all add: ready_kernel_def static_kernel_def)

lemma ready_kernel_used: "length ns < 32 \<Longrightarrow> used (ready_kernel ns) k \<longleftrightarrow> k \<le> length ns"
  by (cases "k < 32") (simp_all add: used_def ready_kernel_fields)

lemma ready_kernel_pid:
  assumes "length ns < 32" and "\<forall>n \<in> set ns. n \<noteq> 0 \<and> n < 100" and "k \<noteq> 0" and "k \<le> length ns"
  shows "p_pid (proc (ready_kernel ns) k) = ns ! (k - 1)" and "p_pid (proc (ready_kernel ns) k) \<noteq> 0"
    and "p_pid (proc (ready_kernel ns) k) < 100"
proof -
  show e: "p_pid (proc (ready_kernel ns) k) = ns ! (k - 1)" using assms(1,3,4) by (simp add: ready_kernel_fields)
  have "k - 1 < length ns" using assms(3,4) by arith
  then have "ns ! (k - 1) \<in> set ns" by (rule nth_mem)
  then show "p_pid (proc (ready_kernel ns) k) \<noteq> 0" "p_pid (proc (ready_kernel ns) k) < 100"
    using assms(2) unfolding e by blast+
qed

lemma ready_kernel_inv:
  assumes "length ns < 32" and "distinct ns" and "\<forall>n \<in> set ns. n \<noteq> 0 \<and> n < 100"
  shows "proc_inv (ready_kernel ns)"
proof -
  let ?s = "ready_kernel ns"
  note u = ready_kernel_used [OF assms(1)] and P = ready_kernel_pid [OF assms(1,3)]
  have z: "p_pid (proc ?s 0) = 0" by (simp add: ready_kernel_fields)
  have par: "p_parent_pid (proc ?s k) = 0" "p_child_count (proc ?s k) = 0" if "k \<le> length ns" for k
    using that assms(1) by (simp_all add: ready_kernel_fields)
  have live: "live_pid ?s 0" unfolding live_pid_def using u z by blast
  have dist: "i = j" if "i \<le> length ns" "j \<le> length ns" "p_pid (proc ?s i) = p_pid (proc ?s j)" for i j
  proof (cases "i = 0 \<or> j = 0")
    case True
    show ?thesis
    proof (rule ccontr)
      assume "i \<noteq> j"
      then consider "i = 0" "j \<noteq> 0" | "j = 0" "i \<noteq> 0" using True by auto
      then show False using that(3) z P(2) [OF _ that(1)] P(2) [OF _ that(2)] by cases simp_all
    qed
  next
    case False
    then have "ns ! (i - 1) = ns ! (j - 1)" using that(3) P(1) [OF _ that(1)] P(1) [OF _ that(2)] by simp
    moreover have "i - 1 < length ns" "j - 1 < length ns" using that False by arith+
    ultimately have "i - 1 = j - 1" using assms(2) by (simp only: nth_eq_iff_index_eq)
    then show ?thesis using False by arith
  qed
  have "p_pid (proc ?s i) \<noteq> 0 \<and> p_pid (proc ?s i) < next_pid ?s \<and> p_parent_pid (proc ?s i) \<noteq> p_pid (proc ?s i) \<and>
      live_pid ?s (p_parent_pid (proc ?s i)) \<and> card (children ?s (p_pid (proc ?s i))) \<le> unat (p_child_count (proc ?s i))"
    if i: "used ?s i" "i \<noteq> 0" for i
  proof -
    have le: "i \<le> length ns" using i(1) u by simp
    have "children ?s (p_pid (proc ?s i)) = {}"
    proof -
      have "p_parent_pid (proc ?s k) \<noteq> p_pid (proc ?s i)" if "used ?s k" for k
        using P(2) [OF i(2) le] par(1) [of k] that u [of k] by simp
      then show ?thesis unfolding children_def by blast
    qed
    then show ?thesis using P(2,3) [OF i(2) le] par(1) [OF le] live ready_kernel_globals(2) by simp
  qed
  moreover have "p_child_count (proc ?s i) < next_pid ?s" if "used ?s i" for i
    using par(2) [of i] that u ready_kernel_globals(2) by simp
  moreover have "used ?s 0" "p_parent_pid (proc ?s 0) = 0" using u par(1) [of 0] by simp_all
  moreover have "i = j" if "used ?s i" "used ?s j" "p_pid (proc ?s i) = p_pid (proc ?s j)" for i j
    using that dist u by blast
  ultimately show ?thesis
    unfolding proc_inv_def using ready_kernel_globals(3) z by blast
qed

lemma ready_kernel_facts:
  assumes "length ns < 32" and "distinct ns" and "\<forall>n \<in> set ns. n \<noteq> 0 \<and> n < 100"
  shows "proc_inv (ready_kernel ns)" and "current_ok (ready_kernel ns)" and "run_ok (ready_kernel ns)"
    and "scheduling_enabled (ready_kernel ns)" and "current_process (ready_kernel ns) = Some 0"
    and "used (ready_kernel ns) k \<longleftrightarrow> k \<le> length ns"
    and "k < 32 \<Longrightarrow> runnable (ready_kernel ns) k \<longleftrightarrow> 0 < k \<and> k \<le> length ns"
proof -
  let ?s = "ready_kernel ns"
  show "proc_inv ?s" by (rule ready_kernel_inv [OF assms])
  show "current_ok ?s" by (simp add: current_ok_def ready_kernel_globals ready_kernel_used [OF assms(1)])
  show "run_ok ?s"
    unfolding run_ok_def
  proof (intro allI impI)
    fix k :: nat assume "k < 32" "p_state (proc ?s k) = PROCESS_STATE_RUNNING"
    then have "k = 0" by (simp add: ready_kernel_fields word_norm split: if_splits)
    then show "current_process ?s = Some k" by (simp add: ready_kernel_globals)
  qed
  show "scheduling_enabled ?s" "current_process ?s = Some 0" by (rule ready_kernel_globals)+
  show "used ?s k \<longleftrightarrow> k \<le> length ns" by (rule ready_kernel_used [OF assms(1)])
  show "runnable ?s k \<longleftrightarrow> 0 < k \<and> k \<le> length ns" if k: "k < 32"
  proof (cases "k \<noteq> 0 \<and> k \<le> length ns")
    case True
    then show ?thesis using k ready_kernel_pid(2) [OF assms(1,3), of k]
      by (simp add: runnable_def ready_kernel_fields(2) [OF k] word_norm)
  next
    case False
    then show ?thesis by (auto simp: runnable_def ready_kernel_fields [OF k] word_norm)
  qed
qed

theorem scheduler_schedule_outcome_witness:
  "\<exists>n < 32. current_process (scheduler_schedule (ready_kernel [1, 2])) = Some n \<and> (n = 1 \<or> n = 2) \<and>
     p_time_slice (proc (scheduler_schedule (ready_kernel [1, 2])) n) = 10"
proof -
  let ?s = "ready_kernel [1, 2]"
  have a: "length [1, 2 :: u32] < 32" "distinct [1, 2 :: u32]" "\<forall>n \<in> set [1, 2 :: u32]. n \<noteq> 0 \<and> n < 100" by auto
  note f = ready_kernel_facts [OF a]
  obtain n where n: "n < 32" "current_process (scheduler_schedule ?s) = Some n"
    "runnable ?s n \<or> (\<forall>k < 32. \<not> runnable ?s k)"
    "if current_process ?s = Some n then scheduler_schedule ?s = ?s
      else let t = scheduler_schedule ?s in
        (\<forall>k < 32. p_state (proc t k) = PROCESS_STATE_RUNNING \<longleftrightarrow> k = n) \<and> p_time_slice (proc t n) = 10 \<and>
        tss_esp0 t = p_kernel_stack (proc t n) \<and> current_pd_phys (kvm t) = p_page_directory (proc t n) \<and>
        switched_to t = n # switched_to ?s \<and>
        (\<forall>k < 32. k \<noteq> n \<longrightarrow> current_process ?s \<noteq> Some k \<longrightarrow> proc t k = proc ?s k) \<and>
        (\<forall>c. current_process ?s = Some c \<longrightarrow> p_state (proc ?s c) = PROCESS_STATE_RUNNING \<longrightarrow>
           p_state (proc t c) = PROCESS_STATE_READY)"
    using scheduler_schedule_outcome [OF f(1-4)] by blast
  have "runnable ?s 1" using f(7) [of 1] by simp
  then have "runnable ?s n" using n(3) by auto
  then have "n = 1 \<or> n = 2" using f(7) [OF n(1)] by auto
  moreover have "p_time_slice (proc (scheduler_schedule ?s) n) = 10"
    using n(4) calculation f(5) by (auto simp: Let_def)
  ultimately show ?thesis using n(1,2) by blast
qed

section \<open>Fairness\<close>

text \<open>The numbering the search relies on: every process sits in the slot of its number modulo 32.\<close>

definition slots_match :: "kernel \<Rightarrow> bool" where
  "slots_match s \<longleftrightarrow> (\<forall>k. used s k \<longrightarrow> unat (p_pid (proc s k)) mod 32 = k)"

lemma first_slot_match:
  assumes "slots_match s" and "current_process s = Some c" and "used s c"
  shows "first_slot s = (c + 1) mod 32"
proof -
  have "unat (p_pid (proc s c)) mod 32 = c" using assms(1,3) by (simp add: slots_match_def)
  then have "(unat (p_pid (proc s c)) + 1) mod 32 = (c + 1) mod 32" by (metis mod_add_left_eq)
  then show ?thesis by (simp add: first_slot_def assms(2))
qed

lemma cycle_back:
  assumes "(c + 1 + e) mod 32 = c" and "c < 32" and "e < (32 :: nat)"
  shows "e = 31"
proof (cases "c + 1 + e < 32")
  case True
  then show ?thesis using assms(1) by simp
next
  case False
  then have "(c + 1 + e) mod 32 = c + 1 + e - 32" using assms(2,3) by (simp add: mod_if)
  then show ?thesis using assms(1) False by arith
qed

lemma fair_step:
  assumes "proc_inv s" and "current_ok s" and "scheduling_enabled s" and "slots_match s"
    and "j = (first_slot s + d) mod 32" and "d < 32" and "runnable s j"
  shows "\<exists>n \<le> d + 1. current_process ((scheduler_schedule ^^ n) s) = Some j"
  using assms
proof (induction d arbitrary: s rule: less_induct)
  case (less d s)
  note inv = less.prems(1) and cur = less.prems(2) and en = less.prems(3) and sm = less.prems(4)
    and j = less.prems(5) and d = less.prems(6) and rj = less.prems(7)
  have len: "length (process_table s) = 32" by (rule proc_invD(1) [OF inv])
  have lt: "\<forall>c. current_process s = Some c \<longrightarrow> c < 32" using cur by (auto simp: current_ok_def used_def)
  have j32: "j < 32" using j by simp
  obtain e where e: "e \<le> d" "find_next_process s = (first_slot s + e) mod 32"
  proof (cases rule: find_next_process_cases [of s])
    case idle
    then show thesis using rj j32 by blast
  next
    case (found e)
    then have "e \<le> d" using rj j by (metis not_le)
    then show thesis using that found(2) by blast
  qed
  from len lt show ?case
  proof (cases rule: scheduler_schedule_cases)
    case still
    then have c: "current_process s = Some (find_next_process s)" using en by simp
    let ?c = "find_next_process s"
    have "used s ?c" using c cur by (simp add: current_ok_def)
    then have f: "first_slot s = (?c + 1) mod 32" by (rule first_slot_match [OF sm c])
    have "?c < 32" by (rule next_slot_less)
    have "((?c + 1) mod 32 + e) mod 32 = ?c" unfolding f [symmetric] using e(2) by (rule sym)
    then have "(?c + 1 + e) mod 32 = ?c" by (simp only: mod_add_left_eq)
    then have "e = 31" using e(1) d by (intro cycle_back [OF _ \<open>?c < 32\<close>]) simp_all
    then have "e = d" using e(1) d by simp
    then have "j = ?c" using j e(2) by simp
    then show ?thesis using c by (intro exI [of _ 0]) simp
  next
    case (switched n t)
    have nn: "n = (first_slot s + e) mod 32" using switched(2) e(2) by simp
    show ?thesis
    proof (cases "n = j")
      case True
      then show ?thesis using switched(4,5) by (intro exI [of _ 1]) simp
    next
      case False
      then have "e \<noteq> d" using nn j by auto
      then have ed: "e < d" using e(1) by simp
      have n32: "n < 32" using nn by simp
      note S = schedule_inv [OF inv cur, unfolded switched(4)]
      have ust: "used t k = used s k" if "k < 32" for k
      proof -
        have "p_state (proc s n) \<noteq> 0" using next_used [OF inv] switched(2) by (simp add: used_def)
        moreover have "PROCESS_STATE_RUNNING \<noteq> 0" "PROCESS_STATE_READY \<noteq> 0" by (simp_all add: word_norm)
        ultimately show ?thesis using switched(17) [OF that] that unfolding used_def by metis
      qed
      have pid: "p_pid (proc t k) = p_pid (proc s k)" if "k < 32" for k
        using switched(16) [OF that] by (simp add: rescheduled_def)
      have smt: "slots_match t"
        using sm ust pid used_lt unfolding slots_match_def by metis
      have un: "used t n" using ust [OF n32] next_used [OF inv] switched(2) by simp
      then have f: "first_slot t = (n + 1) mod 32" by (rule first_slot_match [OF smt switched(5)])
      have "j = (first_slot t + (d - e - 1)) mod 32"
      proof -
        have "(first_slot t + (d - e - 1)) mod 32 = (first_slot s + e + 1 + (d - e - 1)) mod 32"
          unfolding f nn by (simp only: mod_simps)
        also have "first_slot s + e + 1 + (d - e - 1) = first_slot s + d" using ed by simp
        finally show ?thesis using j by simp
      qed
      moreover have "runnable t j"
      proof -
        have "p_state (proc t j) = PROCESS_STATE_READY"
          using switched(17) [OF j32] False rj by (auto simp: runnable_def)
        then show ?thesis using rj pid [OF j32] by (simp add: runnable_def)
      qed
      moreover have "d - e - 1 < d" "d - e - 1 < 32" using ed d by auto
      ultimately obtain m where m: "m \<le> d - e - 1 + 1" "current_process ((scheduler_schedule ^^ m) t) = Some j"
        using less.IH [OF _ S(1,2) switched(14) smt] by blast
      then have "current_process ((scheduler_schedule ^^ Suc m) s) = Some j"
        using switched(4) by (simp only: funpow_Suc_right o_apply)
      then show ?thesis using m(1) ed by (intro exI [of _ "Suc m"]) simp
    qed
  qed
qed

text \<open>C11: As long as every process sits in the slot of its number modulo 32, scheduling is fair: a ready
  process gets the processor after at most 32 switches.\<close>

theorem scheduler_fair:
  assumes "proc_inv s" and "current_ok s" and "scheduling_enabled s" and "slots_match s"
    and "j < 32" and "runnable s j"
  shows "\<exists>n \<le> 32. current_process ((scheduler_schedule ^^ n) s) = Some j"
proof -
  define f where "f = first_slot s mod 32"
  define d where "d = (if f \<le> j then j - f else j + 32 - f)"
  have f32: "f < 32" by (simp add: f_def)
  then have "(f + d) mod 32 = j" using assms(5) by (auto simp: d_def)
  then have "j = (first_slot s + d) mod 32" by (simp only: f_def mod_add_left_eq)
  moreover have "d < 32" using assms(5) f32 by (auto simp: d_def)
  ultimately obtain n where "n \<le> d + 1" "current_process ((scheduler_schedule ^^ n) s) = Some j"
    using fair_step [OF assms(1-4) _ _ assms(6)] by blast
  then show ?thesis using \<open>d < 32\<close> by (intro exI [of _ n]) simp
qed

theorem scheduler_fair_witness:
  "\<exists>n \<le> 32. current_process ((scheduler_schedule ^^ n) (ready_kernel [1, 2, 3])) = Some 3"
proof -
  let ?s = "ready_kernel [1, 2, 3]"
  have a: "length [1, 2, 3 :: u32] < 32" "distinct [1, 2, 3 :: u32]" "\<forall>n \<in> set [1, 2, 3 :: u32]. n \<noteq> 0 \<and> n < 100"
    by auto
  note f = ready_kernel_facts [OF a]
  have "slots_match ?s"
    unfolding slots_match_def
  proof (intro allI impI)
    fix k assume "used ?s k"
    then consider "k = 0" | "k = 1" | "k = 2" | "k = 3" using f(6) by fastforce
    then show "unat (p_pid (proc ?s k)) mod 32 = k"
      by cases (simp_all add: ready_kernel_proc blank_process_def)
  qed
  then show ?thesis using scheduler_fair [OF f(1,2,4), of 3] f(7) [of 3] by simp
qed

section \<open>Starvation\<close>

text \<open>Two processes that pass the processor to each other: number 1 in slot 1, and number 32 in slot 2,
  whose successor the search takes to be slot 33 modulo 32.\<close>

definition pair_runs :: "nat \<Rightarrow> nat \<Rightarrow> kernel \<Rightarrow> bool" where
  "pair_runs c d s \<longleftrightarrow> proc_inv s \<and> current_ok s \<and> scheduling_enabled s \<and> current_process s = Some c \<and>
     p_state (proc s c) = PROCESS_STATE_RUNNING \<and> p_state (proc s d) = PROCESS_STATE_READY \<and>
     p_pid (proc s 1) = 1 \<and> p_pid (proc s 2) = 32"

lemma first_slot_runs:
  assumes "runnable s (first_slot s)" and "first_slot s < 32"
  shows "find_next_process s = first_slot s"
proof (cases rule: find_next_process_cases [of s])
  case idle
  then show ?thesis using assms by blast
next
  case (found d)
  have "d = 0" using found(4) [of 0] assms by (cases d) auto
  then show ?thesis using found(2) assms(2) by simp
qed

lemma pair_step:
  assumes "pair_runs c d s" and "(c, d) = (1, 2) \<or> (c, d) = (2, 1)"
  shows "pair_runs d c (scheduler_schedule s)"
proof -
  note A = assms(1) [unfolded pair_runs_def]
  have len: "length (process_table s) = 32" using A proc_invD(1) by blast
  have lt: "\<forall>x. current_process s = Some x \<longrightarrow> x < 32" using A by (auto simp: current_ok_def used_def)
  have cd: "c < 32" "d < 32" "c \<noteq> d" using assms(2) by auto
  have f: "first_slot s = d" using assms(2) A by (auto simp: first_slot_def)
  have "p_pid (proc s d) \<noteq> 0" using assms(2) A by auto
  then have "runnable s d" using A by (simp add: runnable_def)
  then have n: "find_next_process s = d" using first_slot_runs [of s] cd by (simp add: f)
  from len lt show ?thesis
  proof (cases rule: scheduler_schedule_cases)
    case still
    then show ?thesis using A n cd by simp
  next
    case (switched m t)
    have m: "m = d" using switched(2) n by simp
    have "proc_inv t" "current_ok t" using schedule_inv(1,2) [of s] A unfolding switched(4) by blast+
    moreover have "p_pid (proc t 1) = 1" "p_pid (proc t 2) = 32"
      using switched(16) [of 1] switched(16) [of 2] A by (auto simp: rescheduled_def)
    moreover have "p_state (proc t d) = PROCESS_STATE_RUNNING" "p_state (proc t c) = PROCESS_STATE_READY"
      using switched(17) [OF cd(2)] switched(17) [OF cd(1)] A m cd(3) by simp_all
    ultimately show ?thesis using switched(5,14) m unfolding switched(4) pair_runs_def by simp
  qed
qed

text \<open>When process 32 sits in slot 2, as it does after slots have been reused, it and process 1 in slot 1
  get the processor in turn for ever and no other process runs again, however many are ready.\<close>

theorem scheduler_starvation:
  assumes "pair_runs 1 2 s"
  shows "current_process ((scheduler_schedule ^^ n) s) = Some (if even n then 1 else 2)"
proof -
  have "pair_runs (if even n then 1 else 2) (if even n then 2 else 1) ((scheduler_schedule ^^ n) s)"
  proof (induction n)
    case 0
    then show ?case using assms by simp
  next
    case (Suc n)
    then show ?case using pair_step [OF Suc.IH] by (simp split: if_splits)
  qed
  then show ?thesis by (simp add: pair_runs_def)
qed

theorem scheduler_starvation_witness:
  "runnable (scheduler_schedule (ready_kernel [1, 32, 3])) 3 \<and>
   current_process ((scheduler_schedule ^^ 7) (scheduler_schedule (ready_kernel [1, 32, 3]))) = Some 2"
proof -
  let ?s = "ready_kernel [1, 32, 3]"
  have a: "length [1, 32, 3 :: u32] < 32" "distinct [1, 32, 3 :: u32]" "\<forall>n \<in> set [1, 32, 3 :: u32]. n \<noteq> 0 \<and> n < 100"
    by auto
  note f = ready_kernel_facts [OF a]
  have fs: "first_slot ?s = 1" by (simp add: first_slot_def f(5) ready_kernel_fields)
  then have n: "find_next_process ?s = 1" using first_slot_runs [of ?s] f(7) [of 1] by simp
  have len: "length (process_table ?s) = 32" by (rule ready_kernel_globals)
  have lt: "\<forall>x. current_process ?s = Some x \<longrightarrow> x < 32" by (simp add: f(5))
  from len lt have "pair_runs 1 2 (scheduler_schedule ?s) \<and> runnable (scheduler_schedule ?s) 3"
  proof (cases rule: scheduler_schedule_cases)
    case still
    then show ?thesis using n f(4,5) by simp
  next
    case (switched m t)
    have inv: "proc_inv t" "current_ok t" using schedule_inv(1,2) [OF f(1,2)] unfolding switched(4) .
    have r: "p_pid (proc t k) = p_pid (proc ?s k)" if "k < 32" for k
      using switched(16) [OF that] by (simp add: rescheduled_def)
    have st: "p_state (proc t k) = (if k = 1 then PROCESS_STATE_RUNNING else p_state (proc ?s k))"
      if "k \<noteq> 0" "k < 32" for k
      using switched(17) [OF that(2)] switched(2) n that(1) by (simp add: f(5))
    have "pair_runs 1 2 t"
      using inv switched(2,5,14) n st [of 1] st [of 2] r [of 1] r [of 2]
      by (simp add: pair_runs_def ready_kernel_fields word_norm)
    moreover have "runnable t 3"
      using st [of 3] r [of 3] by (simp add: runnable_def ready_kernel_fields word_norm)
    ultimately show ?thesis by (simp add: switched(4))
  qed
  then show ?thesis using scheduler_starvation [of "scheduler_schedule ?s" 7] by simp
qed

section \<open>Time slices\<close>

text \<open>The current process keeps the processor for exactly as many timer ticks as its time slice says; the last of
  them schedules.\<close>

theorem scheduler_quantum:
  assumes "length (process_table s) = 32" and "scheduling_enabled s" and "current_process s = Some c" and "c < 32"
    and "0 < p_time_slice (proc s c)"
  shows "(\<forall>n < unat (p_time_slice (proc s c)). (scheduler_tick ^^ n) s =
            upd_proc c (\<lambda>p. p\<lparr>p_time_slice := p_time_slice p - of_nat n\<rparr>) s) \<and>
         (scheduler_tick ^^ unat (p_time_slice (proc s c))) s =
            scheduler_schedule (upd_proc c (\<lambda>p. p\<lparr>p_time_slice := 0\<rparr>) s)"
proof -
  let ?q = "p_time_slice (proc s c)"
  let ?s = "\<lambda>n. upd_proc c (\<lambda>p. p\<lparr>p_time_slice := p_time_slice p - of_nat n\<rparr>) s"
  have step: "scheduler_tick (?s n) = (if Suc n = unat ?q then scheduler_schedule (?s (Suc n)) else ?s (Suc n))"
    if n: "n < unat ?q" for n
  proof -
    have v: "unat (?q - of_nat n) = unat ?q - n"
    proof -
      have "n < 2 ^ LENGTH(32)" using n unsigned_less [of ?q] by (metis less_trans)
      then have un: "unat (of_nat n :: u32) = n" by (simp add: unsigned_of_nat take_bit_nat_eq_self)
      then show ?thesis using n by (subst unat_sub) (simp_all add: word_le_nat_alt un)
    qed
    have p: "0 < ?q - of_nat n" using n v by (simp add: word_less_nat_alt)
    have z: "?q - of_nat n - 1 = 0 \<longleftrightarrow> Suc n = unat ?q"
    proof -
      have "unat (?q - of_nat n - 1) = unat ?q - n - 1" using p by (subst unat_minus_one) (auto simp: v)
      then have "?q - of_nat n - 1 = 0 \<longleftrightarrow> unat ?q - n - 1 = 0" by (metis unat_eq_zero)
      then show ?thesis using n by auto
    qed
    have e: "?s (Suc n) = upd_proc c (\<lambda>p. p\<lparr>p_time_slice := p_time_slice p - 1\<rparr>) (?s n)"
      using assms(1,4) by (simp add: upd_proc_def algebra_simps)
    have sl: "p_time_slice (proc (?s n) c) = ?q - of_nat n" "p_time_slice (proc (?s (Suc n)) c) = ?q - of_nat n - 1"
      using assms(1,4) by (simp_all add: algebra_simps)
    have en: "scheduling_enabled (?s n)" "process_current (?s n) = Some c"
      using assms(2,3) by (simp_all add: process_current_def)
    show ?thesis
      unfolding scheduler_tick_def Let_def en option.case sl(1) e [symmetric] if_P [OF p] sl(2) z
      using en(1) by simp
  qed
  have "(scheduler_tick ^^ n) s = ?s n" if "n < unat ?q" for n
    using that
  proof (induction n)
    case 0
    then show ?case by (simp add: upd_proc_def)
  next
    case (Suc n)
    then show ?case using step [of n] by simp
  qed
  note run = this
  obtain m where m: "unat ?q = Suc m" using assms(5) by (cases "unat ?q") (auto simp: unat_eq_zero)
  have "?s (unat ?q) = upd_proc c (\<lambda>p. p\<lparr>p_time_slice := 0\<rparr>) s" by (simp add: upd_proc_def)
  then have e: "scheduler_schedule (?s (unat ?q)) = scheduler_schedule (upd_proc c (\<lambda>p. p\<lparr>p_time_slice := 0\<rparr>) s)"
    by (rule arg_cong)
  have "(scheduler_tick ^^ unat ?q) s = scheduler_schedule (?s (unat ?q))"
    using step [of m] run [of m] by (simp only: m funpow.simps o_apply lessI refl if_True)
  with e have "(scheduler_tick ^^ unat ?q) s = scheduler_schedule (upd_proc c (\<lambda>p. p\<lparr>p_time_slice := 0\<rparr>) s)"
    by (rule trans [rotated])
  then show ?thesis using run by blast
qed

theorem scheduler_quantum_witness:
  "(scheduler_tick ^^ 10) (scheduler_schedule (ready_kernel [1, 2])) =
     scheduler_schedule (upd_proc 1 (\<lambda>p. p\<lparr>p_time_slice := 0\<rparr>) (scheduler_schedule (ready_kernel [1, 2])))"
proof -
  let ?s = "ready_kernel [1, 2]"
  have a: "length [1, 2 :: u32] < 32" "distinct [1, 2 :: u32]" "\<forall>n \<in> set [1, 2 :: u32]. n \<noteq> 0 \<and> n < 100" by auto
  note f = ready_kernel_facts [OF a]
  have fs: "first_slot ?s = 1" by (simp add: first_slot_def f(5) ready_kernel_fields)
  then have n: "find_next_process ?s = 1" using first_slot_runs [of ?s] f(7) [of 1] by simp
  have len: "length (process_table ?s) = 32" by (rule ready_kernel_globals)
  have lt: "\<forall>x. current_process ?s = Some x \<longrightarrow> x < 32" by (simp add: f(5))
  from len lt show ?thesis
  proof (cases rule: scheduler_schedule_cases)
    case still
    then show ?thesis using n f(4,5) by simp
  next
    case (switched m t)
    then show ?thesis using scheduler_quantum [of t 1] n by simp
  qed
qed

end
