(* ===== verification/Cpu.thy ===== *)
theory Cpu
  imports Printf Scheduler
begin

text \<open>
  The processor's tables and interrupt dispatch of \<open>simpleos-main/simpleos/gdt.c\<close> and \<open>idt.c\<close>. The
  stack field \<open>esp0\<close> of the task state segment is \<open>tss_esp0\<close> of the kernel state, where the process
  switch writes it. Addresses the linker gives (tables, assembly stubs) are fields of the state.
\<close>

section \<open>State\<close>

record gdt_entry =
  limit_low :: u16
  base_low :: u16
  base_middle :: u8
  gdt_access :: u8
  granularity :: u8
  base_high :: u8

record tss_entry =
  tss_prev_tss :: u32
  tss_ss0 :: u32
  tss_esp1 :: u32
  tss_ss1 :: u32
  tss_esp2 :: u32
  tss_ss2 :: u32
  tss_cr3 :: u32
  tss_eip :: u32
  tss_eflags :: u32
  tss_eax :: u32
  tss_ecx :: u32
  tss_edx :: u32
  tss_ebx :: u32
  tss_esp :: u32
  tss_ebp :: u32
  tss_esi :: u32
  tss_edi :: u32
  tss_es :: u32
  tss_cs :: u32
  tss_ss :: u32
  tss_ds :: u32
  tss_fs :: u32
  tss_gs :: u32
  tss_ldt :: u32
  tss_trap :: u16
  tss_iomap_base :: u16

record idt_entry =
  base_lo :: u16
  gate_sel :: u16
  always0 :: u8
  gate_flags :: u8
  base_hi :: u16

record registers =
  r_ds :: u32
  r_edi :: u32
  r_esi :: u32
  r_ebp :: u32
  r_esp :: u32
  r_ebx :: u32
  r_edx :: u32
  r_ecx :: u32
  r_eax :: u32
  r_int_no :: u32
  r_err_code :: u32
  r_eip :: u32
  r_cs :: u32
  r_eflags :: u32
  r_useresp :: u32
  r_ss :: u32

text \<open>The functions the kernel registers as handlers.\<close>

datatype isr = Timer_callback | Keyboard_callback | Mouse_callback | Syscall_handler | Page_fault_handler

record cpu = vga +
  kern :: kernel
  gdt :: "gdt_entry list"
  gdt_pointer :: "u16 \<times> u32"
  tss :: tss_entry
  gdtr :: "u16 \<times> u32"
  task_register :: u16
  idt :: "idt_entry list"
  idt_pointer :: "u16 \<times> u32"
  idtr :: "u16 \<times> u32"
  interrupt_handlers :: "isr option list"
  interrupts_on :: bool
  gdt_addr :: u32
  tss_addr :: u32
  idt_addr :: u32
  isr_addr :: "nat \<Rightarrow> u32"
  irq_addr :: "nat \<Rightarrow> u32"

text \<open>A handler returns, or stops the machine for good; \<open>None\<close> around it is undefined behaviour or an
  endless wait for a device.\<close>

datatype 'a ending = Returns 'a | Halts 'a

definition andthen :: "'a ending option \<Rightarrow> ('a \<Rightarrow> 'a ending option) \<Rightarrow> 'a ending option" where
  "andthen r f = (case r of None \<Rightarrow> None | Some (Returns s) \<Rightarrow> f s | Some (Halts s) \<Rightarrow> Some (Halts s))"

section \<open>The descriptor table\<close>

definition gdt_set_gate :: "nat \<Rightarrow> u32 \<Rightarrow> u32 \<Rightarrow> u8 \<Rightarrow> u8 \<Rightarrow> 's cpu_scheme \<Rightarrow> 's cpu_scheme" where
  "gdt_set_gate num base limit access gran s =
     s\<lparr>gdt := (gdt s)[num :=
       \<lparr>limit_low = ucast (limit AND 0xFFFF),
        base_low = ucast (base AND 0xFFFF),
        base_middle = ucast (drop_bit 16 base AND 0xFF),
        gdt_access = access,
        granularity = ucast (drop_bit 16 limit AND 0x0F) OR (gran AND 0xF0),
        base_high = ucast (drop_bit 24 base AND 0xFF)\<rparr>]\<rparr>"

definition TSS_SIZE :: u32 where "TSS_SIZE = 104"

definition zero_tss :: tss_entry where
  "zero_tss =
     \<lparr>tss_prev_tss = 0, tss_ss0 = 0, tss_esp1 = 0, tss_ss1 = 0, tss_esp2 = 0, tss_ss2 = 0, tss_cr3 = 0,
      tss_eip = 0, tss_eflags = 0, tss_eax = 0, tss_ecx = 0, tss_edx = 0, tss_ebx = 0, tss_esp = 0,
      tss_ebp = 0, tss_esi = 0, tss_edi = 0, tss_es = 0, tss_cs = 0, tss_ss = 0, tss_ds = 0, tss_fs = 0,
      tss_gs = 0, tss_ldt = 0, tss_trap = 0, tss_iomap_base = 0\<rparr>"

definition tss_init :: "u32 \<Rightarrow> u32 \<Rightarrow> 's cpu_scheme \<Rightarrow> 's cpu_scheme" where
  "tss_init ss0 esp0 s =
     (let s1 = gdt_set_gate 5 (tss_addr s) TSS_SIZE 0xE9 0x00 s;
          s2 = s1\<lparr>tss := zero_tss, kern := tss_set_kernel_stack 0 (kern s1)\<rparr>;
          s3 = s2\<lparr>tss := (tss s2)\<lparr>tss_ss0 := ss0\<rparr>, kern := (kern s2)\<lparr>tss_esp0 := esp0\<rparr>\<rparr>
      in s3\<lparr>tss := (tss s3)\<lparr>tss_cs := 0x0b, tss_ss := 0x13, tss_ds := 0x13, tss_es := 0x13, tss_fs := 0x13,
             tss_gs := 0x13, tss_iomap_base := ucast TSS_SIZE\<rparr>\<rparr>)"

text \<open>\<open>lgdt\<close> and \<open>ltr\<close> of \<open>io.asm\<close>.\<close>

definition gdt_flush :: "'s cpu_scheme \<Rightarrow> 's cpu_scheme" where
  "gdt_flush s = s\<lparr>gdtr := gdt_pointer s\<rparr>"

definition tss_flush :: "'s cpu_scheme \<Rightarrow> 's cpu_scheme" where
  "tss_flush s = s\<lparr>task_register := 0x2B\<rparr>"

definition gdt_init :: "'s cpu_scheme \<Rightarrow> 's cpu_scheme" where
  "gdt_init s =
     (let s0 = s\<lparr>gdt_pointer := (8 * 6 - 1, gdt_addr s)\<rparr>;
          s1 = gdt_set_gate 0 0 0 0 0 s0;
          s2 = gdt_set_gate 1 0 0xFFFFFFFF 0x9A 0xCF s1;
          s3 = gdt_set_gate 2 0 0xFFFFFFFF 0x92 0xCF s2;
          s4 = gdt_set_gate 3 0 0xFFFFFFFF 0xFA 0xCF s3;
          s5 = gdt_set_gate 4 0 0xFFFFFFFF 0xF2 0xCF s4;
          s6 = tss_init 0x10 0x90000 s5
      in tss_flush (gdt_flush s6))"

section \<open>The interrupt table\<close>

definition gate :: "u32 \<Rightarrow> u16 \<Rightarrow> u8 \<Rightarrow> idt_entry" where
  "gate base sel flags =
     \<lparr>base_lo = ucast (base AND 0xFFFF), gate_sel = sel, always0 = 0, gate_flags = flags,
      base_hi = ucast (drop_bit 16 base AND 0xFFFF)\<rparr>"

definition idt_set_gate :: "u8 \<Rightarrow> u32 \<Rightarrow> u16 \<Rightarrow> u8 \<Rightarrow> 's cpu_scheme \<Rightarrow> 's cpu_scheme" where
  "idt_set_gate num base sel flags s = s\<lparr>idt := (idt s)[unat num := gate base sel flags]\<rparr>"

definition pic_remap :: "'s cpu_scheme \<Rightarrow> 's cpu_scheme" where
  "pic_remap s0 =
     (let (mask1, s1) = inb 0x21 s0;
          (mask2, s2) = inb 0xA1 s1;
          s3 = io_wait (outb 0x20 0x11 s2);
          s4 = io_wait (outb 0xA0 0x11 s3);
          s5 = io_wait (outb 0x21 0x20 s4);
          s6 = io_wait (outb 0xA1 0x28 s5);
          s7 = io_wait (outb 0x21 0x04 s6);
          s8 = io_wait (outb 0xA1 0x02 s7);
          s9 = io_wait (outb 0x21 0x01 s8);
          s10 = io_wait (outb 0xA1 0x01 s9)
      in outb 0xA1 mask2 (outb 0x21 mask1 s10))"

definition idt_flush :: "'s cpu_scheme \<Rightarrow> 's cpu_scheme" where
  "idt_flush s = s\<lparr>idtr := idt_pointer s\<rparr>"

text \<open>The calls for the exception stubs and the interrupt stubs, one per line in the source, are loops here.\<close>

definition idt_init :: "'s cpu_scheme \<Rightarrow> 's cpu_scheme" where
  "idt_init s =
     (let s0 = s\<lparr>idt_pointer := (8 * 256 - 1, idt_addr s)\<rparr>;
          s1 = fold (\<lambda>i t. let u = idt_set_gate (of_nat i) 0 0 0 t
                           in u\<lparr>interrupt_handlers := (interrupt_handlers u)[i := None]\<rparr>) [0..<256] s0;
          s2 = pic_remap s1;
          s3 = fold (\<lambda>i t. idt_set_gate (of_nat i) (isr_addr t i) 0x08 0x8E t) [0..<32] s2;
          s4 = fold (\<lambda>i t. idt_set_gate (32 + of_nat i) (irq_addr t i) 0x08 0x8E t) [0..<16] s3;
          s5 = idt_set_gate 128 (isr_addr s4 128) 0x08 0xEE s4
      in idt_flush s5)"

definition register_interrupt_handler :: "u8 \<Rightarrow> isr \<Rightarrow> 's cpu_scheme \<Rightarrow> 's cpu_scheme" where
  "register_interrupt_handler n handler s =
     s\<lparr>interrupt_handlers := (interrupt_handlers s)[unat n := Some handler]\<rparr>"

definition exception_messages :: "string list" where
  "exception_messages =
     [''Division By Zero'', ''Debug'', ''Non Maskable Interrupt'', ''Breakpoint'', ''Overflow'',
      ''Bound Range Exceeded'', ''Invalid Opcode'', ''Device Not Available'', ''Double Fault'',
      ''Coprocessor Segment Overrun'', ''Invalid TSS'', ''Segment Not Present'', ''Stack Fault'',
      ''General Protection Fault'', ''Page Fault'', ''Reserved'', ''x87 Floating Point Exception'',
      ''Alignment Check'', ''Machine Check'', ''SIMD Floating Point Exception'',
      ''Virtualization Exception'', ''Reserved'', ''Reserved'', ''Reserved'', ''Reserved'', ''Reserved'',
      ''Reserved'', ''Reserved'', ''Reserved'', ''Reserved'', ''Security Exception'', ''Reserved'']"

text \<open>A newline ends most of the kernel's formats.\<close>

definition nl :: string where
  "nl = [CHR 0x0A]"

definition panic_report :: "registers \<Rightarrow> 's vga_scheme \<Rightarrow> 's vga_scheme option" where
  "panic_report regs s = do {
     s1 \<leftarrow> printf (nl @ ''*** KERNEL PANIC ***'' @ nl) [] (vga_set_color VGA_COLOR_WHITE VGA_COLOR_RED s);
     s2 \<leftarrow> printf (''Exception: %s'' @ nl) [Text (Some (exception_messages ! unat (r_int_no regs)))] s1;
     s3 \<leftarrow> printf (''Error Code: 0x%x'' @ nl) [Word (r_err_code regs)] s2;
     s4 \<leftarrow> printf (''EIP: 0x%x  CS: 0x%x'' @ nl) [Word (r_eip regs), Word (r_cs regs)] s3;
     s5 \<leftarrow> printf (''EFLAGS: 0x%x'' @ nl) [Word (r_eflags regs)] s4;
     s6 \<leftarrow> printf (''EAX: 0x%x  EBX: 0x%x  ECX: 0x%x  EDX: 0x%x'' @ nl)
            [Word (r_eax regs), Word (r_ebx regs), Word (r_ecx regs), Word (r_edx regs)] s5;
     printf (''ESP: 0x%x  EBP: 0x%x  ESI: 0x%x  EDI: 0x%x'' @ nl)
       [Word (r_esp regs), Word (r_ebp regs), Word (r_esi regs), Word (r_edi regs)] s6
   }"

text \<open>The report, then \<open>cli; hlt\<close> for ever.\<close>

definition panic :: "registers \<Rightarrow> 's cpu_scheme \<Rightarrow> 's cpu_scheme option" where
  "panic regs s = map_option (\<lambda>t. t\<lparr>interrupts_on := False\<rparr>) (panic_report regs s)"

text \<open>Calling through the handler table is the argument \<open>call\<close>; an index past the table is \<open>None\<close>.\<close>

definition isr_handler ::
  "(isr \<Rightarrow> registers \<times> 's cpu_scheme \<Rightarrow> (registers \<times> 's cpu_scheme) ending option) \<Rightarrow>
   registers \<times> 's cpu_scheme \<Rightarrow> (registers \<times> 's cpu_scheme) ending option" where
  "isr_handler call x = (case x of (regs, s) \<Rightarrow>
     if r_int_no regs = 128
     then (case interrupt_handlers s ! 128 of Some h \<Rightarrow> call h (regs, s) | None \<Rightarrow> Some (Returns (regs, s)))
     else if r_int_no regs \<ge> 256 then None
     else case interrupt_handlers s ! unat (r_int_no regs) of
        Some h \<Rightarrow> call h (regs, s)
      | None \<Rightarrow>
          if r_int_no regs < 32 then map_option (\<lambda>t. Halts (regs, t)) (panic regs s)
          else Some (Returns (regs, s)))"

definition irq_handler ::
  "(isr \<Rightarrow> registers \<times> 's cpu_scheme \<Rightarrow> (registers \<times> 's cpu_scheme) ending option) \<Rightarrow>
   registers \<times> 's cpu_scheme \<Rightarrow> (registers \<times> 's cpu_scheme) ending option" where
  "irq_handler call x = (case x of (regs, s) \<Rightarrow>
     let s1 = (if r_int_no regs \<ge> 40 then outb 0xA0 0x20 s else s);
         s2 = outb 0x20 0x20 s1
     in if r_int_no regs \<ge> 256 then None
        else case interrupt_handlers s2 ! unat (r_int_no regs) of
           Some h \<Rightarrow> call h (regs, s2)
         | None \<Rightarrow> Some (Returns (regs, s2)))"

text \<open>The port of the mask register and the bit number in it; \<open>1 << irq\<close> loses all bits past the byte.\<close>

definition irq_unmask :: "u8 \<Rightarrow> 's hw_scheme \<Rightarrow> 's hw_scheme" where
  "irq_unmask irq s =
     (let (port, k) = (if irq < 8 then (0x21, irq) else (0xA1, irq - 8));
          (v, s1) = inb port s
      in outb port (v AND NOT (push_bit (unat k) 1)) s1)"

definition irq_mask :: "u8 \<Rightarrow> 's hw_scheme \<Rightarrow> 's hw_scheme" where
  "irq_mask irq s =
     (let (port, k) = (if irq < 8 then (0x21, irq) else (0xA1, irq - 8));
          (v, s1) = inb port s
      in outb port (v OR push_bit (unat k) 1) s1)"

lemma displays_panic_report: "displays (panic_report regs)"
  unfolding panic_report_def by (intro displays_intros) (simp_all add: nl_def)

section \<open>What the processor reads in a descriptor\<close>

definition descriptor_base :: "gdt_entry \<Rightarrow> u32" where
  "descriptor_base e =
     ucast (base_low e) OR push_bit 16 (ucast (base_middle e)) OR push_bit 24 (ucast (base_high e))"

definition descriptor_limit :: "gdt_entry \<Rightarrow> u32" where
  "descriptor_limit e = ucast (limit_low e) OR push_bit 16 (ucast (granularity e AND 0x0F))"

definition gate_target :: "idt_entry \<Rightarrow> u32" where
  "gate_target e = ucast (base_lo e) OR push_bit 16 (ucast (base_hi e))"

definition privilege :: "u8 \<Rightarrow> u8" where
  "privilege a = drop_bit 5 a AND 3"

lemma low_mask [word_norm]: "(0xFFFF :: 'a::len word) = mask 16" "(0xFF :: 'a::len word) = mask 8"
  "(0x0F :: 'a::len word) = mask 4" "(0xFFFFF :: 'a::len word) = mask 20"
  by (simp_all add: mask_eq_exp_minus_1)

lemma descriptor_base_set:
  "descriptor_base \<lparr>limit_low = l, base_low = ucast (base AND 0xFFFF), base_middle = ucast (drop_bit 16 base AND 0xFF),
     gdt_access = a, granularity = g, base_high = ucast (drop_bit 24 base AND 0xFF)\<rparr> = base"
  by (rule bit_word_eqI, rename_tac n, case_tac "n < 24")
    (auto simp: descriptor_base_def low_mask bit_simps)

lemma high_nibble: "(0xF0 :: u8) = push_bit 4 (mask 4)"
  by (simp add: mask_eq_exp_minus_1 push_bit_eq_mult)

lemma descriptor_limit_set:
  "descriptor_limit \<lparr>limit_low = ucast (limit AND 0xFFFF), base_low = b, base_middle = bm, gdt_access = a,
     granularity = ucast (drop_bit 16 limit AND 0x0F) OR (gran AND 0xF0), base_high = bh\<rparr> = limit AND 0xFFFFF"
  by (rule bit_word_eqI, rename_tac n, case_tac "n < 16")
    (auto simp: descriptor_limit_def low_mask high_nibble bit_simps)

lemma gate_target_gate: "gate_target (gate base sel flags) = base"
  by (rule bit_word_eqI) (auto simp: gate_target_def gate_def low_mask bit_simps)

section \<open>The tables after start-up\<close>

lemma granularity_flags: "(ucast (x AND 0x0F :: u32) OR (gran AND 0xF0)) AND 0xF0 = gran AND (0xF0 :: u8)"
  by (rule bit_word_eqI) (auto simp: low_mask high_nibble bit_simps)

lemma nth_gdt_set_gate:
  "n < length (gdt s) \<Longrightarrow> gdt (gdt_set_gate num b l a g s) ! n =
     (if n = num
      then \<lparr>limit_low = ucast (l AND 0xFFFF), base_low = ucast (b AND 0xFFFF), base_middle = ucast (drop_bit 16 b AND 0xFF),
            gdt_access = a, granularity = ucast (drop_bit 16 l AND 0x0F) OR (g AND 0xF0),
            base_high = ucast (drop_bit 24 b AND 0xFF)\<rparr>
      else gdt s ! n)"
  by (auto simp: gdt_set_gate_def)

lemma descriptor_set_gate:
  assumes "n < length (gdt s)"
  shows "descriptor_base (gdt (gdt_set_gate num b l a g s) ! n) = (if n = num then b else descriptor_base (gdt s ! n))"
    and "descriptor_limit (gdt (gdt_set_gate num b l a g s) ! n) =
      (if n = num then l AND 0xFFFFF else descriptor_limit (gdt s ! n))"
    and "gdt_access (gdt (gdt_set_gate num b l a g s) ! n) = (if n = num then a else gdt_access (gdt s ! n))"
    and "granularity (gdt (gdt_set_gate num b l a g s) ! n) AND 0xF0 =
      (if n = num then g AND 0xF0 else granularity (gdt s ! n) AND 0xF0)"
  using assms by (simp_all add: nth_gdt_set_gate descriptor_base_set descriptor_limit_set granularity_flags)

lemma gdt_set_gate_simps [simp]:
  "length (gdt (gdt_set_gate num b l a g s)) = length (gdt s)"
  "gdt_addr (gdt_set_gate num b l a g s) = gdt_addr s" "tss_addr (gdt_set_gate num b l a g s) = tss_addr s"
  "gdt_pointer (gdt_set_gate num b l a g s) = gdt_pointer s"
  by (simp_all add: gdt_set_gate_def)

lemma gdt_init_gdt:
  "gdt (gdt_init s) = gdt (gdt_set_gate 5 (tss_addr s) TSS_SIZE 0xE9 0x00
     (gdt_set_gate 4 0 0xFFFFFFFF 0xF2 0xCF (gdt_set_gate 3 0 0xFFFFFFFF 0xFA 0xCF
       (gdt_set_gate 2 0 0xFFFFFFFF 0x92 0xCF (gdt_set_gate 1 0 0xFFFFFFFF 0x9A 0xCF (gdt_set_gate 0 0 0 0 0 s))))))"
  by (simp add: gdt_init_def tss_init_def Let_def gdt_flush_def tss_flush_def) (simp add: gdt_set_gate_def)

lemma nth_updates:
  assumes "\<forall>i < k. num i < length xs" and "inj_on num {..<k}" and "i < k"
  shows "fold (\<lambda>i xs. xs[num i := f i]) [0..<k] xs ! num i = f i"
  using assms
proof (induction k)
  case (Suc k)
  have len: "length (fold (\<lambda>i xs. xs[num i := f i]) [0..<j] xs) = length xs" for j
    by (induction j) simp_all
  show ?case
  proof (cases "i = k")
    case False
    have "num i \<noteq> num k" using Suc.prems(2,3) False by (auto simp: inj_on_def)
    moreover have "inj_on num {..<k}" using Suc.prems(2) by (auto simp: inj_on_def)
    ultimately show ?thesis using Suc False by (simp add: nth_list_update)
  qed (use Suc.prems len in simp)
qed simp

lemma nth_no_update:
  "\<forall>i < k. num i \<noteq> j \<Longrightarrow> fold (\<lambda>i xs. xs[num i := f i]) [0..<k] xs ! j = xs ! j"
  by (induction k) (simp_all add: nth_list_update)

lemma length_updates [simp]: "length (fold (\<lambda>i xs. xs[num i := f i]) is xs) = length xs"
  by (induction "is" arbitrary: xs) simp_all

text \<open>The loops of \<open>idt_init\<close> on the table alone.\<close>

lemma fold_clear:
  "fold (\<lambda>i t. let u = idt_set_gate (of_nat i) 0 0 0 t
               in u\<lparr>interrupt_handlers := (interrupt_handlers u)[i := None]\<rparr>) is s =
   s\<lparr>idt := fold (\<lambda>i xs. xs[unat (of_nat i :: u8) := gate 0 0 0]) is (idt s),
     interrupt_handlers := fold (\<lambda>i xs. xs[i := None]) is (interrupt_handlers s)\<rparr>"
  by (induction "is" arbitrary: s) (simp_all add: idt_set_gate_def Let_def)

lemma fold_stubs:
  "fold (\<lambda>i t. idt_set_gate (b + of_nat i) (isr_addr t i) sel fl t) is s =
   s\<lparr>idt := fold (\<lambda>i xs. xs[unat (b + of_nat i) := gate (isr_addr s i) sel fl]) is (idt s)\<rparr>"
  "fold (\<lambda>i t. idt_set_gate (b + of_nat i) (irq_addr t i) sel fl t) is s =
   s\<lparr>idt := fold (\<lambda>i xs. xs[unat (b + of_nat i) := gate (irq_addr s i) sel fl]) is (idt s)\<rparr>"
  by (induction "is" arbitrary: s) (simp_all add: idt_set_gate_def)

lemma outb_cpu [simp]:
  "idt (outb p v s) = idt s" "interrupt_handlers (outb p v s) = interrupt_handlers s" "isr_addr (outb p v s) = isr_addr s"
  "irq_addr (outb p v s) = irq_addr s" "idt_pointer (outb p v s) = idt_pointer s"
  by (simp_all add: outb_def)

lemma pic_remap_cpu [simp]:
  "idt (pic_remap s) = idt s" "interrupt_handlers (pic_remap s) = interrupt_handlers s"
  "isr_addr (pic_remap s) = isr_addr s" "irq_addr (pic_remap s) = irq_addr s" "idt_pointer (pic_remap s) = idt_pointer s"
  by (simp_all add: pic_remap_def inb_def io_wait_def)

definition set_vectors :: "nat \<Rightarrow> nat \<Rightarrow> (nat \<Rightarrow> idt_entry) \<Rightarrow> idt_entry list \<Rightarrow> idt_entry list" where
  "set_vectors b n f = fold (\<lambda>i xs. xs[b + i := f i]) [0..<n]"

lemma nth_set_vectors:
  assumes "b + n \<le> length xs"
  shows "set_vectors b n f xs ! v = (if b \<le> v \<and> v < b + n then f (v - b) else xs ! v)"
proof (cases "b \<le> v \<and> v < b + n")
  case True
  then have "set_vectors b n f xs ! (b + (v - b)) = f (v - b)"
    unfolding set_vectors_def using assms by (intro nth_updates) (auto simp: inj_on_def)
  then show ?thesis using True by simp
next
  case False
  then show ?thesis unfolding set_vectors_def by (subst nth_no_update) auto
qed

lemma length_set_vectors [simp]: "length (set_vectors b n f xs) = length xs"
  by (simp add: set_vectors_def)

lemma vector_index: "b + n \<le> 256 \<Longrightarrow> i < n \<Longrightarrow> unat (of_nat b + of_nat i :: u8) = b + i"
  by (subst of_nat_add [symmetric], subst unsigned_of_nat, subst take_bit_nat_eq_self) simp_all

lemma fold_vectors:
  assumes "b + n \<le> 256"
  shows "fold (\<lambda>i xs. xs[unat (of_nat b + of_nat i :: u8) := f i]) [0..<n] xs = set_vectors b n f xs"
  unfolding set_vectors_def by (rule fold_cong) (use vector_index [OF assms] in auto)

lemma idt_init_idt:
  "idt (idt_init s) = (set_vectors 32 16 (\<lambda>i. gate (irq_addr s i) 8 0x8E) (set_vectors 0 32 (\<lambda>i. gate (isr_addr s i) 8 0x8E)
     (set_vectors 0 256 (\<lambda>_. gate 0 0 0) (idt s))))[128 := gate (isr_addr s 128) 8 0xEE]"
proof -
  have f: "fold (\<lambda>i xs. xs[unat (of_nat i :: u8) := gate 0 0 0]) [0..<256] xs = set_vectors 0 256 (\<lambda>_. gate 0 0 0) xs"
    "fold (\<lambda>i xs. xs[unat (of_nat i :: u8) := gate (isr_addr s i) 8 0x8E]) [0..<32] xs =
       set_vectors 0 32 (\<lambda>i. gate (isr_addr s i) 8 0x8E) xs"
    "fold (\<lambda>i xs. xs[unat (32 + of_nat i :: u8) := gate (irq_addr s i) 8 0x8E]) [0..<16] xs =
       set_vectors 32 16 (\<lambda>i. gate (irq_addr s i) 8 0x8E) xs" for xs
    using fold_vectors [of 0 256 "\<lambda>_. gate 0 0 0" xs] fold_vectors [of 0 32 "\<lambda>i. gate (isr_addr s i) 8 0x8E" xs]
      fold_vectors [of 32 16 "\<lambda>i. gate (irq_addr s i) 8 0x8E" xs] by simp_all
  have g: "fold (\<lambda>i t. idt_set_gate (of_nat i) (isr_addr t i) 8 0x8E t) [0..<32] u =
    u\<lparr>idt := fold (\<lambda>i xs. xs[unat (of_nat i :: u8) := gate (isr_addr u i) 8 0x8E]) [0..<32] (idt u)\<rparr>" for u :: "'a cpu_scheme"
    using fold_stubs(1) [of 0] by simp
  show ?thesis
    unfolding idt_init_def Let_def [of "s\<lparr>idt_pointer := _\<rparr>"] fold_clear g fold_stubs(2)
    by (simp add: Let_def idt_flush_def idt_set_gate_def f)
qed

lemma idt_init_handlers:
  "interrupt_handlers (idt_init s) = fold (\<lambda>i xs. xs[i := None]) [0..<256] (interrupt_handlers s)"
proof -
  have "interrupt_handlers (fold (\<lambda>i t. idt_set_gate (h i) (g i t) sel fl t) is u) = interrupt_handlers u"
    for h :: "nat \<Rightarrow> u8" and g sel fl "is" and u :: "'a cpu_scheme"
    by (induction "is" arbitrary: u) (simp_all add: idt_set_gate_def)
  then show ?thesis
    unfolding idt_init_def Let_def [of "s\<lparr>idt_pointer := _\<rparr>"] fold_clear
    by (simp add: Let_def idt_flush_def idt_set_gate_def [of 128])
qed

lemma idt_init_idtr: "idtr (idt_init s) = (2047, idt_addr s)"
proof -
  have "idt_pointer (fold (\<lambda>i t. idt_set_gate (h i) (g i t) sel fl t) is u) = idt_pointer u"
    for h :: "nat \<Rightarrow> u8" and g sel fl "is" and u :: "'a cpu_scheme"
    by (induction "is" arbitrary: u) (simp_all add: idt_set_gate_def)
  then show ?thesis
    unfolding idt_init_def Let_def [of "s\<lparr>idt_pointer := _\<rparr>"] fold_clear
    by (simp add: Let_def idt_flush_def idt_set_gate_def [of 128])
qed

section \<open>Properties\<close>

lemma gate_fields [simp]:
  "gate_flags (gate b sel fl) = fl" "gate_sel (gate b sel fl) = sel" "always0 (gate b sel fl) = 0"
  by (simp_all add: gate_def)

definition present :: "u8 \<Rightarrow> bool" where
  "present a = bit a 7"

text \<open>A descriptor read back the way the processor does has the base that was stored, the low twenty
  bits of the limit, the access byte and the upper flag nibble, for all arguments.\<close>

theorem gdt_descriptor_roundtrip:
  assumes "num < length (gdt s)"
  shows "let e = gdt (gdt_set_gate num base limit access gran s) ! num
     in descriptor_base e = base \<and> descriptor_limit e = limit AND 0xFFFFF \<and> gdt_access e = access \<and>
        granularity e AND 0xF0 = gran AND 0xF0"
  using assms by (simp add: Let_def descriptor_set_gate)

definition blank_cpu :: cpu where
  "blank_cpu = \<lparr>device = (\<lambda>_ _. 0xFF), clock = 0, port_writes = [], vga_buffer = replicate 2000 0,
     vga_row = 0, vga_col = 0, vga_color_attr = 0x0F, kern = static_kernel boot_vm,
     gdt = replicate 6 \<lparr>limit_low = 0, base_low = 0, base_middle = 0, gdt_access = 0, granularity = 0, base_high = 0\<rparr>,
     gdt_pointer = (0, 0), tss = zero_tss, gdtr = (0, 0), task_register = 0,
     idt = replicate 256 (gate 0 0 0), idt_pointer = (0, 0), idtr = (0, 0), interrupt_handlers = replicate 256 None,
     interrupts_on = False, gdt_addr = 0x106000, tss_addr = 0x106040, idt_addr = 0x107000,
     isr_addr = (\<lambda>v. 0x101000 + 16 * of_nat v), irq_addr = (\<lambda>v. 0x102000 + 16 * of_nat v)\<rparr>"

theorem gdt_descriptor_roundtrip_witness:
  "descriptor_base (gdt (gdt_set_gate 5 0x106040 104 0xE9 0 blank_cpu) ! 5) = 0x106040 \<and>
   descriptor_limit (gdt (gdt_set_gate 5 0x106040 104 0xE9 0 blank_cpu) ! 5) = 104"
  using gdt_descriptor_roundtrip [where num = 5 and s = blank_cpu and base = "0x106040" and limit = 104 and access = "0xE9" and gran = 0] by (simp add: blank_cpu_def Let_def)

text \<open>After \<open>gdt_init\<close> the loaded table has a null entry, four segments that start at 0 and span four
  gigabytes, the first two for the kernel and the next two for ring 3, and the task state segment.\<close>

theorem gdt_init_segments:
  assumes "length (gdt s) = 6"
  shows "let g = gdt (gdt_init s)
     in gdtr (gdt_init s) = (47, gdt_addr s) \<and> \<not> present (gdt_access (g ! 0)) \<and>
        (\<forall>n \<in> {1, 2, 3, 4}. present (gdt_access (g ! n)) \<and> descriptor_base (g ! n) = 0 \<and>
           descriptor_limit (g ! n) = 0xFFFFF \<and> granularity (g ! n) AND 0xF0 = 0xC0 \<and>
           privilege (gdt_access (g ! n)) = (if n \<le> 2 then 0 else 3)) \<and>
        descriptor_base (g ! 5) = tss_addr s \<and> descriptor_limit (g ! 5) = 104"
proof -
  have "gdtr (gdt_init s) = (47, gdt_addr s)"
    by (simp add: gdt_init_def tss_init_def Let_def gdt_flush_def tss_flush_def)
  moreover have "descriptor_base (gdt (gdt_init s) ! 5) = tss_addr s" "descriptor_limit (gdt (gdt_init s) ! 5) = 104"
    unfolding gdt_init_gdt using assms
    by (simp_all add: descriptor_set_gate TSS_SIZE_def)
  moreover have "\<not> present (gdt_access (gdt (gdt_init s) ! 0))"
    unfolding gdt_init_gdt using assms by (simp add: descriptor_set_gate present_def)
  moreover have "present (gdt_access (gdt (gdt_init s) ! n)) \<and> descriptor_base (gdt (gdt_init s) ! n) = 0 \<and>
      descriptor_limit (gdt (gdt_init s) ! n) = 0xFFFFF \<and> granularity (gdt (gdt_init s) ! n) AND 0xF0 = 0xC0 \<and>
      privilege (gdt_access (gdt (gdt_init s) ! n)) = (if n \<le> 2 then 0 else 3)" if "n \<in> {1, 2, 3, 4}" for n
    unfolding gdt_init_gdt using assms that
    by (elim insertE) (simp_all add: descriptor_set_gate present_def privilege_def)
  ultimately show ?thesis by (simp add: Let_def)
qed

theorem gdt_init_segments_witness:
  "descriptor_limit (gdt (gdt_init blank_cpu) ! 3) = 0xFFFFF \<and> privilege (gdt_access (gdt (gdt_init blank_cpu) ! 3)) = 3"
  using gdt_init_segments [of blank_cpu] by (simp add: blank_cpu_def Let_def)

text \<open>C17: After \<open>idt_init\<close> the gates of the 32 exceptions, the 16 interrupt lines and vector 128 lead to their
  assembly stubs, every other gate is absent, no handler is left, and vector 128 is the only one that code in
  ring 3 may raise.\<close>

theorem idt_init_gates:
  assumes "length (idt s) = 256" and "length (interrupt_handlers s) = 256"
  shows "(\<forall>v < 256. let e = idt (idt_init s) ! v
            in (present (gate_flags e) \<longleftrightarrow> v < 48 \<or> v = 128) \<and>
               (present (gate_flags e) \<longrightarrow> gate_target e = (if 32 \<le> v \<and> v < 48 then irq_addr s (v - 32) else isr_addr s v)) \<and>
               (privilege (gate_flags e) = 3 \<longleftrightarrow> v = 128) \<and> interrupt_handlers (idt_init s) ! v = None) \<and>
     idtr (idt_init s) = (2047, idt_addr s)"
proof -
  have "idtr (idt_init s) = (2047, idt_addr s)" by (rule idt_init_idtr)
  moreover have "interrupt_handlers (idt_init s) ! v = None" if "v < 256" for v
    unfolding idt_init_handlers using nth_updates [of 256 "\<lambda>i. i" "interrupt_handlers s" v "\<lambda>_. None"] that assms(2) by simp
  moreover have "idt (idt_init s) ! v =
      (if v = 128 then gate (isr_addr s 128) 8 0xEE else if 32 \<le> v \<and> v < 48 then gate (irq_addr s (v - 32)) 8 0x8E
       else if v < 32 then gate (isr_addr s v) 8 0x8E else gate 0 0 0)" if "v < 256" for v
    unfolding idt_init_idt using assms(1) that by (simp add: nth_list_update nth_set_vectors)
  ultimately show ?thesis by (simp add: Let_def gate_target_gate present_def privilege_def)
qed

theorem idt_init_gates_witness:
  "gate_target (idt (idt_init blank_cpu) ! 33) = 0x102010 \<and> privilege (gate_flags (idt (idt_init blank_cpu) ! 33)) \<noteq> 3"
  using idt_init_gates [of blank_cpu] by (auto simp: blank_cpu_def Let_def dest!: spec [of _ 33])

text \<open>\<open>irq_unmask\<close> clears and \<open>irq_mask\<close> sets exactly the bit of the given line in the mask register of
  its controller, for the sixteen lines the two controllers have.\<close>

theorem irq_mask_bits:
  assumes "irq < 16"
  shows "let port = (if irq < 8 then 0x21 else 0xA1); v = device s (clock s) port; k = unat irq mod 8
     in \<exists>w w'. port_writes (irq_unmask irq s) = (port, w) # port_writes s \<and>
               port_writes (irq_mask irq s) = (port, w') # port_writes s \<and>
               (\<forall>n < 8. bit w n \<longleftrightarrow> bit v n \<and> n \<noteq> k) \<and> (\<forall>n < 8. bit w' n \<longleftrightarrow> bit v n \<or> n = k)"
proof -
  have n: "unat irq < 16" using assms by (simp add: word_less_nat_alt)
  have e: "unat (if irq < 8 then irq else irq - 8) = unat irq mod 8"
  proof (cases "irq < 8")
    case True
    then show ?thesis by (simp add: word_less_nat_alt)
  next
    case False
    then have "unat (irq - 8) = unat irq - 8" by (simp add: unat_sub_if' word_less_nat_alt)
    then show ?thesis using False n by (simp add: word_less_nat_alt mod_if)
  qed
  show ?thesis
    unfolding irq_unmask_def irq_mask_def inb_def
    by (simp add: Let_def e [symmetric] split: if_splits)
      (auto simp: bit_simps word_less_nat_alt)
qed

theorem irq_mask_bits_witness:
  "\<exists>w. port_writes (irq_unmask 12 blank_cpu) = [(0xA1, w)] \<and> \<not> bit w 4 \<and> bit w 3"
  using irq_mask_bits [of 12 blank_cpu] by (auto simp: blank_cpu_def Let_def)

end
