(* ===== verification/Events.thy ===== *)
theory Events
  imports Interfaces
begin

text \<open>
  The input event queue of \<open>simpleos-main/simpleos/events.c\<close> and \<open>events.h\<close>: a ring of 256 slots
  between the interrupt handlers, which push, and the main loop, which pops. When the ring is
  full the oldest event is dropped. One slot stays empty, so 255 events can wait.
\<close>

section \<open>State and operations\<close>

definition EVENT_TYPE_NONE :: u8 where "EVENT_TYPE_NONE = 0"
definition EVENT_TYPE_KEY_DOWN :: u8 where "EVENT_TYPE_KEY_DOWN = 1"
definition EVENT_TYPE_MOUSE_MOVE :: u8 where "EVENT_TYPE_MOUSE_MOVE = 3"
definition EVENT_TYPE_MOUSE_CLICK :: u8 where "EVENT_TYPE_MOUSE_CLICK = 4"
definition EVENT_QUEUE_SIZE :: u32 where "EVENT_QUEUE_SIZE = 256"

record input_event =
  ev_type :: u8
  ev_data :: "u8 list"

record events =
  event_queue :: "input_event list"
  queue_head :: u32
  queue_tail :: u32

definition push_event :: "events \<Rightarrow> input_event \<Rightarrow> events" where
  "push_event s event =
     (let next_head = (queue_head s + 1) mod EVENT_QUEUE_SIZE;
          s1 = (if next_head = queue_tail s
                then s\<lparr>queue_tail := (queue_tail s + 1) mod EVENT_QUEUE_SIZE\<rparr> else s)
      in s1\<lparr>event_queue := (event_queue s1)[unat (queue_head s1) := event],
            queue_head := next_head\<rparr>)"

text \<open>
  On an empty queue only the \<open>type\<close> of the returned structure is assigned; its data bytes are the
  indeterminate contents of the stack, here the argument \<open>junk\<close>.
\<close>

definition pop_event :: "u8 list \<Rightarrow> events \<Rightarrow> input_event \<times> events" where
  "pop_event junk s =
     (if queue_head s = queue_tail s
      then (\<lparr>ev_type = EVENT_TYPE_NONE, ev_data = junk\<rparr>, s)
      else (event_queue s ! unat (queue_tail s),
            s\<lparr>queue_tail := (queue_tail s + 1) mod EVENT_QUEUE_SIZE\<rparr>))"

definition events_pending :: "events \<Rightarrow> bool" where
  "events_pending s = (queue_head s \<noteq> queue_tail s)"

definition events_clear :: "events \<Rightarrow> events" where
  "events_clear s = s\<lparr>queue_head := 0, queue_tail := 0\<rparr>"

section \<open>The waiting events\<close>

definition events_inv :: "events \<Rightarrow> bool" where
  "events_inv s \<longleftrightarrow> length (event_queue s) = 256 \<and> queue_head s < 256 \<and> queue_tail s < 256"

definition event_count :: "events \<Rightarrow> nat" where
  "event_count s = (unat (queue_head s) + 256 - unat (queue_tail s)) mod 256"

definition waiting_events :: "events \<Rightarrow> input_event list" where
  "waiting_events s =
     map (\<lambda>k. event_queue s ! ((unat (queue_tail s) + k) mod 256)) [0..<event_count s]"

lemma unat_ring_inc:
  fixes w :: u32
  assumes "w < 256"
  shows "unat ((w + 1) mod EVENT_QUEUE_SIZE) = (unat w + 1) mod 256"
  using assms by (simp add: EVENT_QUEUE_SIZE_def unat_mod unat_word_ariths word_less_nat_alt)

text \<open>Indices below 512 wrap at most once.\<close>

lemma ring_mod: "x < 512 \<Longrightarrow> x mod 256 = (if x < 256 then x else x - 256)" for x :: nat
  by (simp add: mod_if)

lemma events_inv_nat:
  assumes "events_inv s"
  shows "unat (queue_head s) < 256" and "unat (queue_tail s) < 256" and "length (event_queue s) = 256"
  using assms by (simp_all add: events_inv_def word_less_nat_alt)

lemma event_count_if:
  assumes "events_inv s"
  shows "event_count s = (if unat (queue_tail s) \<le> unat (queue_head s)
           then unat (queue_head s) - unat (queue_tail s)
           else unat (queue_head s) + 256 - unat (queue_tail s))"
  using events_inv_nat [OF assms] by (simp add: event_count_def ring_mod)

lemma event_count_less: "event_count s < 256"
  by (simp add: event_count_def)

lemma waiting_nth:
  "k < event_count s \<Longrightarrow> waiting_events s ! k = event_queue s ! ((unat (queue_tail s) + k) mod 256)"
  by (simp add: waiting_events_def)

lemma length_waiting [simp]: "length (waiting_events s) = event_count s"
  by (simp add: waiting_events_def)

lemma event_count_0:
  assumes "events_inv s"
  shows "event_count s = 0 \<longleftrightarrow> queue_head s = queue_tail s"
proof -
  have "event_count s = 0 \<longleftrightarrow> unat (queue_head s) = unat (queue_tail s)"
    using events_inv_nat [OF assms] by (auto simp: event_count_if [OF assms])
  then show ?thesis by (simp add: word_unat_eq_iff)
qed

lemma push_event_fields:
  assumes "events_inv s"
  shows "events_inv (push_event s e)"
    and "unat (queue_head (push_event s e)) = (unat (queue_head s) + 1) mod 256"
    and "unat (queue_tail (push_event s e)) =
           (if event_count s = 255 then (unat (queue_tail s) + 1) mod 256 else unat (queue_tail s))"
    and "event_queue (push_event s e) = (event_queue s)[unat (queue_head s) := e]"
proof -
  note n = events_inv_nat [OF assms]
  have "(unat (queue_head s) + 1) mod 256 = unat (queue_tail s) \<longleftrightarrow> event_count s = 255"
    using n by (auto simp: event_count_if [OF assms] ring_mod)
  then have full: "(queue_head s + 1) mod EVENT_QUEUE_SIZE = queue_tail s \<longleftrightarrow> event_count s = 255"
    using assms by (simp add: word_unat_eq_iff unat_ring_inc events_inv_def)
  show "unat (queue_head (push_event s e)) = (unat (queue_head s) + 1) mod 256"
    and "unat (queue_tail (push_event s e)) =
           (if event_count s = 255 then (unat (queue_tail s) + 1) mod 256 else unat (queue_tail s))"
    and "event_queue (push_event s e) = (event_queue s)[unat (queue_head s) := e]"
    using assms by (simp_all add: push_event_def Let_def full unat_ring_inc events_inv_def)
  then show "events_inv (push_event s e)"
    using n by (simp add: events_inv_def word_less_nat_alt)
qed

lemma push_event_count:
  assumes "events_inv s"
  shows "event_count (push_event s e) = (if event_count s = 255 then 255 else Suc (event_count s))"
proof -
  note n = events_inv_nat [OF assms] and f = push_event_fields [OF assms, of e]
  show ?thesis
    using n by (auto simp: event_count_if [OF f(1)] f(2,3) event_count_if [OF assms] ring_mod)
qed

text \<open>Where the waiting events lie in the ring, before and after an insertion.\<close>

lemma ring_slots:
  assumes "events_inv s"
  shows "k < event_count s \<Longrightarrow> (unat (queue_tail s) + k) mod 256 \<noteq> unat (queue_head s)"
    and "(unat (queue_tail s) + event_count s) mod 256 = unat (queue_head s)"
  using events_inv_nat [OF assms]
  by (auto simp: event_count_if [OF assms] ring_mod split: if_splits)

lemma push_event_waiting:
  assumes "events_inv s"
  shows "waiting_events (push_event s e) =
           (if length (waiting_events s) = 255 then tl (waiting_events s) else waiting_events s) @ [e]"
proof -
  note n = events_inv_nat [OF assms] and f = push_event_fields [OF assms, of e]
    and c = push_event_count [OF assms, of e]
  let ?h = "unat (queue_head s)" and ?t = "unat (queue_tail s)"
  have old: "event_queue (push_event s e) ! ((?t + k) mod 256) = event_queue s ! ((?t + k) mod 256)"
    if "k < event_count s" for k
    using ring_slots(1) [OF assms that] by (simp add: f(4))
  have new: "event_queue (push_event s e) ! ((?t + event_count s) mod 256) = e"
    using n by (simp add: f(4) ring_slots(2) [OF assms])
  have idx: "((?t + 1) mod 256 + k) mod 256 = (?t + Suc k) mod 256" for k
    by (simp add: mod_add_left_eq)
  show ?thesis
  proof (cases "event_count s = 255")
    case True
    have "waiting_events (push_event s e) ! k = (tl (waiting_events s) @ [e]) ! k" if "k < 255" for k
      using that old [of "Suc k"] new idx [of k] True c
      by (cases "k = 254") (auto simp: waiting_nth f(3) nth_append nth_tl)
    then show ?thesis using True c by (intro nth_equalityI) auto
  next
    case False
    have "waiting_events (push_event s e) ! k = (waiting_events s @ [e]) ! k"
      if "k < Suc (event_count s)" for k
      using that old [of k] new False c by (auto simp: waiting_nth f(3) nth_append less_Suc_eq)
    then show ?thesis using False c by (intro nth_equalityI) auto
  qed
qed

lemma pop_event_spec:
  assumes "events_inv s" and "waiting_events s = x # xs"
  shows "fst (pop_event junk s) = x" and "waiting_events (snd (pop_event junk s)) = xs"
proof -
  note n = events_inv_nat [OF assms(1)]
  let ?t = "unat (queue_tail s)" and ?s = "s\<lparr>queue_tail := (queue_tail s + 1) mod EVENT_QUEUE_SIZE\<rparr>"
  have cnt: "event_count s = Suc (length xs)"
    using arg_cong [OF assms(2), of length] by simp
  then have p: "pop_event junk s = (event_queue s ! ?t, ?s)"
    using event_count_0 [OF assms(1)] by (simp add: pop_event_def)
  have t: "unat (queue_tail ?s) = (?t + 1) mod 256"
    using assms(1) by (simp add: unat_ring_inc events_inv_def)
  then have inv: "events_inv ?s" using assms(1) by (simp add: events_inv_def word_less_nat_alt)
  have cnt': "event_count ?s = length xs"
    using n cnt t
    by (auto simp: event_count_if [OF inv] event_count_if [OF assms(1)] ring_mod split: if_splits)
  have nth: "(x # xs) ! k = event_queue s ! ((?t + k) mod 256)" if "k < Suc (length xs)" for k
    using waiting_nth [of k s] that cnt assms(2) by simp
  show "fst (pop_event junk s) = x" using nth [of 0] n by (simp add: p)
  have "waiting_events ?s ! k = xs ! k" if "k < length xs" for k
    using that cnt' nth [of "Suc k"] t by (simp add: waiting_nth mod_add_left_eq)
  then show "waiting_events (snd (pop_event junk s)) = xs"
    using cnt' by (simp add: p list_eq_iff_nth_eq)
qed

lemma pop_event_inv: "events_inv s \<Longrightarrow> events_inv (snd (pop_event junk s))"
  by (auto simp: pop_event_def events_inv_def word_less_nat_alt unat_ring_inc)

lemma waiting_nil_iff: "events_inv s \<Longrightarrow> waiting_events s = [] \<longleftrightarrow> queue_head s = queue_tail s"
  using event_count_0 [of s] by (simp add: waiting_events_def)

interpretation eq: bounded_queue push_event "pop_event junk" events_pending waiting_events 255 events_inv
  for junk
proof
  fix s :: events and e x :: input_event and xs
  show "length (waiting_events s) \<le> 255" using event_count_less [of s] by simp
  assume inv: "events_inv s"
  show "events_inv (push_event s e)" by (rule push_event_fields(1) [OF inv])
  show "events_inv (snd (pop_event junk s))" by (rule pop_event_inv [OF inv])
  show "waiting_events (push_event s e) =
      (if length (waiting_events s) = 255 then tl (waiting_events s) else waiting_events s) @ [e]"
    by (rule push_event_waiting [OF inv])
  show "fst (pop_event junk s) = x \<and> waiting_events (snd (pop_event junk s)) = xs"
    if "waiting_events s = x # xs"
    using pop_event_spec [OF inv that] by simp
  show "snd (pop_event junk s) = s" if "waiting_events s = []"
    using that by (simp add: waiting_nil_iff [OF inv] pop_event_def)
  show "events_pending s \<longleftrightarrow> waiting_events s \<noteq> []"
    by (simp add: waiting_nil_iff [OF inv] events_pending_def)
qed simp

lemma events_clear_spec:
  assumes "length (event_queue s) = 256"
  shows "events_inv (events_clear s)" and "waiting_events (events_clear s) = []"
proof -
  show inv: "events_inv (events_clear s)" using assms by (simp add: events_inv_def events_clear_def)
  show "waiting_events (events_clear s) = []"
    by (simp add: waiting_nil_iff [OF inv]) (simp add: events_clear_def)
qed

section \<open>Properties\<close>

text \<open>C12: Whatever sequence of events is pushed, the queue holds exactly the newest 255 of what was
  waiting and what came, in arrival order: overflow loses only the oldest events.\<close>

theorem push_events_keep_newest:
  assumes "events_inv s"
  shows "waiting_events (fold (\<lambda>e s. push_event s e) es s) =
           drop (length (waiting_events s @ es) - 255) (waiting_events s @ es)"
  using assms by (rule eq.pushes_waiting)

theorem push_events_keep_newest_witness:
  "waiting_events (push_event (push_event (events_clear
     \<lparr>event_queue = replicate 256 \<lparr>ev_type = 0, ev_data = []\<rparr>, queue_head = 9, queue_tail = 3\<rparr>)
       \<lparr>ev_type = 1, ev_data = [65]\<rparr>) \<lparr>ev_type = 1, ev_data = [66]\<rparr>) =
   [\<lparr>ev_type = 1, ev_data = [65]\<rparr>, \<lparr>ev_type = 1, ev_data = [66]\<rparr>]"
  using push_events_keep_newest
      [of "events_clear \<lparr>event_queue = replicate 256 \<lparr>ev_type = 0, ev_data = []\<rparr>,
            queue_head = 9, queue_tail = 3\<rparr>"
          "[\<lparr>ev_type = 1, ev_data = [65]\<rparr>, \<lparr>ev_type = 1, ev_data = [66]\<rparr>]"]
  by (simp add: events_clear_spec del: length_waiting)

text \<open>First in, first out: up to 255 events pushed into an empty queue come out of the same
  number of pops unchanged and in order.\<close>

theorem events_fifo:
  assumes "events_inv s" and "\<not> events_pending s" and "length es \<le> 255"
  shows "fst (drain (pop_event junk) (length es) (fold (\<lambda>e s. push_event s e) es s)) = es"
  using eq.push_drain [OF assms(1) _ assms(3)] assms(2) eq.pending_iff [OF assms(1)] by blast

theorem events_fifo_witness:
  "fst (drain (pop_event []) 1 (push_event
     \<lparr>event_queue = replicate 256 \<lparr>ev_type = 0, ev_data = []\<rparr>, queue_head = 255, queue_tail = 255\<rparr>
     \<lparr>ev_type = 1, ev_data = [65]\<rparr>)) = [\<lparr>ev_type = 1, ev_data = [65]\<rparr>]"
  using events_fifo [of "\<lparr>event_queue = replicate 256 \<lparr>ev_type = 0, ev_data = []\<rparr>,
      queue_head = 255, queue_tail = 255\<rparr>" "[\<lparr>ev_type = 1, ev_data = [65]\<rparr>]" "[]"]
  by (simp add: events_inv_def events_pending_def)

end
