(* ===== verification/Devices.thy ===== *)
theory Devices
  imports Cpu Events
begin

text \<open>
  The drivers that feed the kernel: the interval timer (\<open>timer.c\<close>), the keyboard (\<open>keyboard.c\<close>) and the
  mouse (\<open>mouse.c\<close>) of \<open>simpleos-main/simpleos\<close>. Their static variables extend the processor state;
  their interrupt handlers read the ports and push into the event queue. Bytes of an event that the
  driver leaves unassigned are the argument \<open>junk\<close>.
\<close>

section \<open>State\<close>

record devices = cpu +
  queue :: events
  tick_count :: u32
  timer_frequency :: u32
  shift_pressed :: bool
  ctrl_pressed :: bool
  alt_pressed :: bool
  caps_lock :: bool
  mouse_x :: int
  mouse_y :: int
  mouse_cycle :: u8
  mouse_bytes :: "u8 list"
  mouse_buttons :: "bool list"

section \<open>The timer\<close>

definition PIT_FREQUENCY :: u32 where "PIT_FREQUENCY = 1193182"

text \<open>Where \<open>scheduler_tick\<close> switches the process, the interrupt does not return (see \<open>switch_to_process\<close>): the
  state is then the one the next process starts in.\<close>

definition timer_callback :: "'s devices_scheme \<Rightarrow> 's devices_scheme" where
  "timer_callback s0 =
     (let s = s0\<lparr>tick_count := tick_count s0 + 1\<rparr> in s\<lparr>kern := scheduler_tick (kern s)\<rparr>)"

definition timer_get_ticks :: "'s devices_scheme \<Rightarrow> u32" where
  "timer_get_ticks s = tick_count s"

text \<open>\<open>hlt\<close> returns after an interrupt: \<open>wake n\<close> is what the \<open>n\<close>-th one does to the state.\<close>

partial_function (option) sleep_loop ::
  "(nat \<Rightarrow> 's devices_scheme \<Rightarrow> 's devices_scheme) \<Rightarrow> nat \<Rightarrow> u32 \<Rightarrow> u32 \<Rightarrow> 's devices_scheme \<Rightarrow> 's devices_scheme option" where
  "sleep_loop wake n start ticks_to_wait s =
     (if tick_count s - start < ticks_to_wait then sleep_loop wake (n + 1) start ticks_to_wait (wake n s) else Some s)"

definition timer_sleep :: "(nat \<Rightarrow> 's devices_scheme \<Rightarrow> 's devices_scheme) \<Rightarrow> u32 \<Rightarrow> 's devices_scheme \<Rightarrow> 's devices_scheme option" where
  "timer_sleep wake ms s =
     (let start = tick_count s;
          t = (ms * timer_frequency s) div 1000;
          ticks_to_wait = (if t = 0 then 1 else t)
      in sleep_loop wake 0 start ticks_to_wait s)"

definition timer_init :: "u32 \<Rightarrow> 's devices_scheme \<Rightarrow> 's devices_scheme option" where
  "timer_init frequency s0 =
     (let s1 = register_interrupt_handler 32 Timer_callback (s0\<lparr>timer_frequency := frequency\<rparr>)
      in if frequency = 0 then None
         else
           let d = PIT_FREQUENCY div frequency;
               d' = (if d > 65535 then 65535 else d);
               divisor = (if d' < 1 then 1 else d');
               s2 = outb 0x43 0x36 s1;
               s3 = outb 0x40 (ucast (divisor AND 0xFF)) s2;
               s4 = outb 0x40 (ucast (drop_bit 8 divisor AND 0xFF)) s3;
               s5 = irq_unmask 0 s4
           in printf (''[Timer] Initialized at %d Hz'' @ nl) [Word frequency] s5)"

section \<open>The keyboard\<close>

definition scancode_to_ascii :: string where
  "scancode_to_ascii =
     [CHR 0x00, CHR 0x1B] @ ''1234567890-='' @ [CHR 0x08] @
     [CHR 0x09] @ ''qwertyuiop[]'' @ [CHR 0x0A] @
     [CHR 0x00] @ ''asdfghjkl;'' @ [CHR 0x27, CHR 0x60] @
     [CHR 0x00, CHR 0x5C] @ ''zxcvbnm,./'' @ [CHR 0x00] @
     [CHR ''*'', CHR 0x00, CHR '' '', CHR 0x00]"

definition scancode_to_ascii_shift :: string where
  "scancode_to_ascii_shift =
     [CHR 0x00, CHR 0x1B] @ ''!@#$%^&*()_+'' @ [CHR 0x08] @
     [CHR 0x09] @ ''QWERTYUIOP{}'' @ [CHR 0x0A] @
     [CHR 0x00] @ ''ASDFGHJKL:'' @ [CHR 0x22, CHR ''~''] @
     [CHR 0x00, CHR ''|''] @ ''ZXCVBNM<>?'' @ [CHR 0x00] @
     [CHR ''*'', CHR 0x00, CHR '' '', CHR 0x00]"

definition scancode_to_char :: "u8 \<Rightarrow> 's devices_scheme \<Rightarrow> char" where
  "scancode_to_char scancode s =
     (if unat scancode \<ge> length scancode_to_ascii then CHR 0x00
      else
        let use_upper = shift_pressed s;
            use_upper' = (if caps_lock s
                          then let c = scancode_to_ascii ! unat scancode
                               in if CHR ''a'' \<le> c \<and> c \<le> CHR ''z'' then \<not> use_upper else use_upper
                          else use_upper)
        in if use_upper' then scancode_to_ascii_shift ! unat scancode else scancode_to_ascii ! unat scancode)"

definition of_flag :: "bool \<Rightarrow> u8" where
  "of_flag b = (if b then 1 else 0)"

definition keyboard_callback :: "u8 list \<Rightarrow> 's devices_scheme \<Rightarrow> 's devices_scheme" where
  "keyboard_callback junk s0 =
     (let (code, s) = inb 0x60 s0;
          released = (code AND 0x80 \<noteq> 0);
          scancode = code AND 0x7F
      in if scancode = 0x2A \<or> scancode = 0x36 then s\<lparr>shift_pressed := \<not> released\<rparr>
         else if scancode = 0x1D then s\<lparr>ctrl_pressed := \<not> released\<rparr>
         else if scancode = 0x38 then s\<lparr>alt_pressed := \<not> released\<rparr>
         else if scancode = 0x3A then (if \<not> released then s\<lparr>caps_lock := \<not> caps_lock s\<rparr> else s)
         else if released then s
         else
           let c = scancode_to_char scancode s
           in if c \<noteq> CHR 0x00
              then s\<lparr>queue := push_event (queue s)
                     \<lparr>ev_type = EVENT_TYPE_KEY_DOWN,
                      ev_data = [of_char c, scancode, of_flag (shift_pressed s), of_flag (ctrl_pressed s),
                                 of_flag (alt_pressed s)] @ drop 5 junk\<rparr>\<rparr>
              else s)"

text \<open>\<open>while (inb(0x64) & 0x01) inb(0x60);\<close>\<close>

partial_function (option) drain_port :: "'s hw_scheme \<Rightarrow> 's hw_scheme option" where
  "drain_port s = (case inb 0x64 s of (v, t) \<Rightarrow> if v AND 1 \<noteq> 0 then drain_port (snd (inb 0x60 t)) else Some t)"

definition keyboard_init :: "'s devices_scheme \<Rightarrow> 's devices_scheme option" where
  "keyboard_init s = do {
     s1 \<leftarrow> spin_until 0x64 (\<lambda>v. v AND 2 = 0) (register_interrupt_handler 33 Keyboard_callback s);
     s2 \<leftarrow> drain_port (outb 0x64 0xAE s1);
     printf (''[Keyboard] Initialized'' @ nl) [] (irq_unmask 1 s2)
   }"

definition keyboard_shift_pressed :: "'s devices_scheme \<Rightarrow> bool" where
  "keyboard_shift_pressed s = shift_pressed s"

definition keyboard_ctrl_pressed :: "'s devices_scheme \<Rightarrow> bool" where
  "keyboard_ctrl_pressed s = ctrl_pressed s"

definition keyboard_alt_pressed :: "'s devices_scheme \<Rightarrow> bool" where
  "keyboard_alt_pressed s = alt_pressed s"

section \<open>The mouse\<close>

definition SCREEN_WIDTH :: int where "SCREEN_WIDTH = 1024"
definition SCREEN_HEIGHT :: int where "SCREEN_HEIGHT = 768"

text \<open>\<open>while (timeout--)\<close>: at most \<open>timeout\<close> reads of the status port.\<close>

fun wait_loop :: "nat \<Rightarrow> (u8 \<Rightarrow> bool) \<Rightarrow> 's hw_scheme \<Rightarrow> 's hw_scheme" where
  "wait_loop 0 ok s = s"
| "wait_loop (Suc timeout) ok s = (case inb 0x64 s of (v, t) \<Rightarrow> if ok v then t else wait_loop timeout ok t)"

definition mouse_wait :: "u8 \<Rightarrow> 's hw_scheme \<Rightarrow> 's hw_scheme" where
  "mouse_wait type s =
     (if type = 0 then wait_loop 100000 (\<lambda>v. v AND 1 \<noteq> 0) s
      else wait_loop 100000 (\<lambda>v. v AND 2 = 0) s)"

definition mouse_write :: "u8 \<Rightarrow> 's hw_scheme \<Rightarrow> 's hw_scheme" where
  "mouse_write data s = outb 0x60 data (mouse_wait 1 (outb 0x64 0xD4 (mouse_wait 1 s)))"

definition mouse_read :: "'s hw_scheme \<Rightarrow> u8 \<times> 's hw_scheme" where
  "mouse_read s = inb 0x60 (mouse_wait 0 s)"

definition bytes16 :: "int \<Rightarrow> u8 list" where
  "bytes16 v = (let w = (of_int v :: u16) in [ucast w, ucast (drop_bit 8 w)])"

definition click :: "u8 \<Rightarrow> u8 list \<Rightarrow> 's devices_scheme \<Rightarrow> 's devices_scheme" where
  "click button junk s =
     s\<lparr>queue := push_event (queue s)
        \<lparr>ev_type = EVENT_TYPE_MOUSE_CLICK,
         ev_data = bytes16 (mouse_x s) @ bytes16 (mouse_y s) @ [button] @ drop 5 junk\<rparr>\<rparr>"

definition sign_extend :: "u8 \<Rightarrow> bool \<Rightarrow> u32" where
  "sign_extend b neg = (if neg then ucast b OR 0xFFFFFF00 else ucast b)"

text \<open>The third byte of a packet: position, clicks, the button state and the move event.\<close>

definition move_pointer :: "int \<Rightarrow> int \<Rightarrow> 's devices_scheme \<Rightarrow> 's devices_scheme" where
  "move_pointer dx dy s =
     (let s1 = s\<lparr>mouse_x := mouse_x s + dx, mouse_y := mouse_y s - dy\<rparr>;
          s2 = (if mouse_x s1 < 0 then s1\<lparr>mouse_x := 0\<rparr> else s1);
          s3 = (if mouse_x s2 \<ge> SCREEN_WIDTH then s2\<lparr>mouse_x := SCREEN_WIDTH - 1\<rparr> else s2);
          s4 = (if mouse_y s3 < 0 then s3\<lparr>mouse_y := 0\<rparr> else s3)
      in if mouse_y s4 \<ge> SCREEN_HEIGHT then s4\<lparr>mouse_y := SCREEN_HEIGHT - 1\<rparr> else s4)"

definition press :: "nat \<Rightarrow> bool \<Rightarrow> u8 list \<Rightarrow> 's devices_scheme \<Rightarrow> 's devices_scheme" where
  "press k down junk s = (if down \<and> \<not> mouse_buttons s ! k then click (of_nat k) junk s else s)"

definition move_event :: "int \<Rightarrow> int \<Rightarrow> u8 list \<Rightarrow> 's devices_scheme \<Rightarrow> 's devices_scheme" where
  "move_event dx dy junk s =
     (if dx \<noteq> 0 \<or> dy \<noteq> 0
      then s\<lparr>queue := push_event (queue s)
             \<lparr>ev_type = EVENT_TYPE_MOUSE_MOVE,
              ev_data = bytes16 (mouse_x s) @ bytes16 (mouse_y s) @
                [of_flag (mouse_buttons s ! 0), of_flag (mouse_buttons s ! 1)] @ drop 6 junk\<rparr>\<rparr>
      else s)"

definition mouse_packet :: "(nat \<Rightarrow> u8 list) \<Rightarrow> 's devices_scheme \<Rightarrow> 's devices_scheme" where
  "mouse_packet junk s =
     (let b0 = mouse_bytes s ! 0;
          dx0 = sign_extend (mouse_bytes s ! 1) (b0 AND 0x10 \<noteq> 0);
          dy0 = sign_extend (mouse_bytes s ! 2) (b0 AND 0x20 \<noteq> 0);
          dx = (if b0 AND 0x40 \<noteq> 0 then 0 else sint dx0);
          dy = (if b0 AND 0x80 \<noteq> 0 then 0 else sint dy0);
          left = (b0 AND 1 \<noteq> 0); right = (b0 AND 2 \<noteq> 0); middle = (b0 AND 4 \<noteq> 0);
          s1 = press 2 middle (junk 2) (press 1 right (junk 1) (press 0 left (junk 0) (move_pointer dx dy s)))
      in move_event dx dy (junk 3) (s1\<lparr>mouse_buttons := [left, right, middle]\<rparr>))"

definition mouse_callback :: "(nat \<Rightarrow> u8 list) \<Rightarrow> 's devices_scheme \<Rightarrow> 's devices_scheme" where
  "mouse_callback junk s0 =
     (let (status, s1) = inb 0x64 s0
      in if status AND 0x20 = 0 then s1
         else
           let (data, s) = inb 0x60 s1
           in if mouse_cycle s = 0 then
                let t = s\<lparr>mouse_bytes := (mouse_bytes s)[0 := data]\<rparr>
                in if data AND 8 \<noteq> 0 then t\<lparr>mouse_cycle := mouse_cycle t + 1\<rparr> else t
              else if mouse_cycle s = 1 then
                s\<lparr>mouse_bytes := (mouse_bytes s)[1 := data], mouse_cycle := mouse_cycle s + 1\<rparr>
              else if mouse_cycle s = 2 then
                mouse_packet junk (s\<lparr>mouse_bytes := (mouse_bytes s)[2 := data], mouse_cycle := 0\<rparr>)
              else s)"

definition mouse_init :: "'s devices_scheme \<Rightarrow> 's devices_scheme option" where
  "mouse_init s0 =
     (let s1 = register_interrupt_handler 44 Mouse_callback s0;
          s2 = outb 0x64 0xA8 (mouse_wait 1 s1);
          s3 = outb 0x64 0x20 (mouse_wait 1 s2);
          (v, s4) = inb 0x60 (mouse_wait 0 s3);
          status = v OR 2;
          s5 = outb 0x64 0x60 (mouse_wait 1 s4);
          s6 = outb 0x60 status (mouse_wait 1 s5);
          (_, s7) = mouse_read (mouse_write 0xF6 s6);
          (_, s8) = mouse_read (mouse_write 0xF4 s7);
          s9 = irq_unmask 12 s8
      in printf (''[Mouse] Initialized at (%d, %d)'' @ nl) [Word (of_int (mouse_x s9)), Word (of_int (mouse_y s9))] s9)"

definition mouse_get_position :: "'s devices_scheme \<Rightarrow> int \<times> int" where
  "mouse_get_position s = (mouse_x s, mouse_y s)"

definition mouse_button_pressed :: "int \<Rightarrow> 's devices_scheme \<Rightarrow> bool" where
  "mouse_button_pressed button s = (if 0 \<le> button \<and> button < 3 then mouse_buttons s ! nat button else False)"

section \<open>Characters\<close>

definition is_lower :: "char \<Rightarrow> bool" where
  "is_lower c \<longleftrightarrow> CHR ''a'' \<le> c \<and> c \<le> CHR ''z''"

definition to_upper :: "char \<Rightarrow> char" where
  "to_upper c = char_of (of_char c - 32 :: nat)"

text \<open>What a key stands for: letters follow shift and caps lock together, the other keys shift alone.\<close>

definition key_char :: "bool \<Rightarrow> bool \<Rightarrow> nat \<Rightarrow> char" where
  "key_char shift caps sc =
     (let c = scancode_to_ascii ! sc
      in if is_lower c then (if shift \<noteq> caps then to_upper c else c)
         else if shift then scancode_to_ascii_shift ! sc else c)"

lemma table_length: "length scancode_to_ascii = 59" "length scancode_to_ascii_shift = 59"
  by (simp_all add: scancode_to_ascii_def scancode_to_ascii_shift_def)

lemma tables_agree:
  assumes "sc < 59" and "is_lower (scancode_to_ascii ! sc)"
  shows "scancode_to_ascii_shift ! sc = to_upper (scancode_to_ascii ! sc)"
proof -
  have "list_all2 (\<lambda>c d. is_lower c \<longrightarrow> d = to_upper c) scancode_to_ascii scancode_to_ascii_shift"
    by (simp add: scancode_to_ascii_def scancode_to_ascii_shift_def is_lower_def to_upper_def less_eq_char_def char_of_def
        bit_Suc bit_0)
  then show ?thesis using assms by (simp add: list_all2_conv_all_nth table_length)
qed

lemma scancode_to_char_key:
  assumes "unat sc < 59"
  shows "scancode_to_char sc s = key_char (shift_pressed s) (caps_lock s) (unat sc)"
  using assms tables_agree [of "unat sc"]
  by (auto simp: scancode_to_char_def key_char_def Let_def table_length is_lower_def)

section \<open>Signed movement\<close>

definition clamp :: "int \<Rightarrow> int \<Rightarrow> int" where
  "clamp hi v = (if v < 0 then 0 else if v > hi then hi else v)"

text \<open>The movement of one axis: nine bits in two's complement, or none after an overflow.\<close>

definition movement :: "u8 \<Rightarrow> bool \<Rightarrow> bool \<Rightarrow> int" where
  "movement b neg overflow = (if overflow then 0 else int (unat b) - (if neg then 256 else 0))"

lemma sint_sign_extend: "sint (sign_extend b neg) = int (unat b) - (if neg then 256 else 0)"
proof -
  have lt: "uint b < 256" "0 \<le> uint b" using unsigned_less [of b, where ?'a = int] by simp_all
  have u: "uint (ucast b :: u32) = uint b" using lt by (simp add: unsigned_ucast_eq take_bit_int_eq_self)
  have m: "(0xFFFFFF00 :: u32) = NOT (mask 8)" by (simp add: mask_eq_exp_minus_1)
  have "bit (ucast b :: u32) n \<Longrightarrow> n < 8" for n using bit_imp_le_length [of b n] by (auto simp: bit_simps)
  then have d: "(ucast b :: u32) AND NOT (mask 8) = 0"
    by (intro bit_word_eqI) (auto simp: bit_simps)
  have "(ucast b :: u32) + NOT (mask 8) = ucast b OR NOT (mask 8)"
    by (rule disjunctive_add_eq_or [OF d])
  then have o: "(ucast b OR 0xFFFFFF00 :: u32) = ucast b + 0xFFFFFF00" by (simp only: m)
  have "uint (ucast b + 0xFFFFFF00 :: u32) = uint b + 0xFFFFFF00"
    using lt by (simp add: uint_word_ariths u)
  then show ?thesis using lt u by (simp add: sign_extend_def o sint_u32)
qed

definition mouse_inv :: "'s devices_scheme \<Rightarrow> bool" where
  "mouse_inv s \<longleftrightarrow> 0 \<le> mouse_x s \<and> mouse_x s < 1024 \<and> 0 \<le> mouse_y s \<and> mouse_y s < 768 \<and> mouse_cycle s < 3 \<and>
     length (mouse_bytes s) = 3 \<and> length (mouse_buttons s) = 3"

lemma screen_size [word_norm]: "SCREEN_WIDTH = 1024" "SCREEN_HEIGHT = 768"
  by (simp_all add: SCREEN_WIDTH_def SCREEN_HEIGHT_def)

lemma press_simps [simp]:
  "mouse_x (press k d j s) = mouse_x s" "mouse_y (press k d j s) = mouse_y s" "mouse_cycle (press k d j s) = mouse_cycle s"
  "mouse_bytes (press k d j s) = mouse_bytes s" "mouse_buttons (press k d j s) = mouse_buttons s"
  "clock (press k d j s) = clock s" "device (press k d j s) = device s"
  by (simp_all add: press_def click_def)

lemma move_event_simps [simp]:
  "mouse_x (move_event dx dy j s) = mouse_x s" "mouse_y (move_event dx dy j s) = mouse_y s"
  "mouse_cycle (move_event dx dy j s) = mouse_cycle s" "mouse_bytes (move_event dx dy j s) = mouse_bytes s"
  "mouse_buttons (move_event dx dy j s) = mouse_buttons s" "clock (move_event dx dy j s) = clock s"
  "device (move_event dx dy j s) = device s"
  by (simp_all add: move_event_def)

lemma move_pointer_eq:
  "move_pointer dx dy s = s\<lparr>mouse_x := clamp 1023 (mouse_x s + dx), mouse_y := clamp 767 (mouse_y s - dy)\<rparr>"
  by (simp add: move_pointer_def Let_def screen_size clamp_def)

lemma mouse_packet_position:
  "mouse_x (mouse_packet junk s) = clamp 1023 (mouse_x s + movement (mouse_bytes s ! 1)
     (mouse_bytes s ! 0 AND 0x10 \<noteq> 0) (mouse_bytes s ! 0 AND 0x40 \<noteq> 0))"
  "mouse_y (mouse_packet junk s) = clamp 767 (mouse_y s - movement (mouse_bytes s ! 2)
     (mouse_bytes s ! 0 AND 0x20 \<noteq> 0) (mouse_bytes s ! 0 AND 0x80 \<noteq> 0))"
  by (simp_all add: mouse_packet_def Let_def move_pointer_eq movement_def sint_sign_extend)

lemma mouse_packet_rest:
  "mouse_cycle (mouse_packet junk s) = mouse_cycle s" "mouse_bytes (mouse_packet junk s) = mouse_bytes s"
  "mouse_buttons (mouse_packet junk s) =
     [mouse_bytes s ! 0 AND 1 \<noteq> 0, mouse_bytes s ! 0 AND 2 \<noteq> 0, mouse_bytes s ! 0 AND 4 \<noteq> 0]"
  "clock (mouse_packet junk s) = clock s" "device (mouse_packet junk s) = device s"
  by (simp_all add: mouse_packet_def Let_def move_pointer_eq)

lemma clamp_bounds [simp]:
  "0 \<le> clamp 1023 v" "clamp 1023 v < 1024" "0 \<le> clamp 767 v" "clamp 767 v < 768"
  by (simp_all add: clamp_def)

lemma small_cycle: "c = 0 \<or> c = 1 \<or> c = 2" if "c < 3" for c :: u8
proof -
  have "unat c < 3" using that by (simp add: word_less_nat_alt)
  then have "unat c = unat (0 :: u8) \<or> unat c = unat (1 :: u8) \<or> unat c = unat (2 :: u8)" by auto
  then show ?thesis by (simp only: word_unat_eq_iff [symmetric])
qed

lemma mouse_callback_inv:
  assumes "mouse_inv s"
  shows "mouse_inv (mouse_callback junk s)"
proof -
  have "mouse_cycle s < 3" using assms by (simp add: mouse_inv_def)
  from small_cycle [OF this] show ?thesis using assms
    by (elim disjE) (auto simp: mouse_callback_def Let_def inb_def mouse_inv_def mouse_packet_position mouse_packet_rest)
qed

section \<open>Sleeping\<close>

text \<open>The interrupts while the processor sleeps: those marked by \<open>tick\<close> are the timer's, and they come again
  and again; no other one moves the tick counter.\<close>

definition ticking :: "(nat \<Rightarrow> bool) \<Rightarrow> (nat \<Rightarrow> 's devices_scheme \<Rightarrow> 's devices_scheme) \<Rightarrow> bool" where
  "ticking tick wake \<longleftrightarrow>
     (\<forall>n s. tick_count (wake n s) = tick_count s + (if tick n then 1 else 0)) \<and> (\<forall>n. \<exists>m \<ge> n. tick m)"

lemma sleep_to_tick:
  assumes "ticking tick wake" and "tick m" and "n \<le> m" and "tick_count s - start < ticks"
  shows "\<exists>m' s'. sleep_loop wake n start ticks s = sleep_loop wake m' start ticks s' \<and> tick_count s' = tick_count s + 1"
  using assms(3,4)
proof (induction "m - n" arbitrary: n s rule: less_induct)
  case less
  have step: "sleep_loop wake n start ticks s = sleep_loop wake (n + 1) start ticks (wake n s)"
    using less.prems(2) by (simp add: sleep_loop.simps [of wake n])
  show ?case
  proof (cases "tick n")
    case True
    then have "tick_count (wake n s) = tick_count s + 1" using assms(1) by (simp add: ticking_def)
    then show ?thesis using step by blast
  next
    case False
    then have same: "tick_count (wake n s) = tick_count s" using assms(1) by (simp add: ticking_def)
    have "n \<noteq> m" using False assms(2) by auto
    then have "m - (n + 1) < m - n" "n + 1 \<le> m" using less.prems(1) by auto
    then show ?thesis using less.hyps [of "n + 1" "wake n s"] less.prems(2) same step by auto
  qed
qed

lemma sleep_loop_returns:
  assumes "ticking tick wake" and "tick_count s - start \<le> ticks"
  shows "\<exists>t. sleep_loop wake n start ticks s = Some t \<and> tick_count t - start = ticks"
  using assms(2)
proof (induction "unat ticks - unat (tick_count s - start)" arbitrary: n s rule: less_induct)
  case less
  show ?case
  proof (cases "tick_count s - start < ticks")
    case False
    then show ?thesis using less.prems by (intro exI [of _ s]) (auto simp: sleep_loop.simps [of wake n])
  next
    case True
    obtain m where "n \<le> m" "tick m" using assms(1) unfolding ticking_def by blast
    then obtain m' s' where s': "sleep_loop wake n start ticks s = sleep_loop wake m' start ticks s'"
      "tick_count s' = tick_count s + 1" using sleep_to_tick [OF assms(1) _ _ True] by blast
    have e: "tick_count s' - start = (tick_count s - start) + 1" using s'(2) by simp
    have "unat ticks - unat (tick_count s' - start) < unat ticks - unat (tick_count s - start)"
      using True unfolding e by (simp add: unat_inc_less [OF True] word_less_nat_alt)
    moreover have "tick_count s' - start \<le> ticks" unfolding e by (rule inc_le_of_less [OF True])
    ultimately show ?thesis using less.hyps s'(1) by simp
  qed
qed

section \<open>Waiting for the controller\<close>

lemma wait_loop_clock: "\<exists>m \<ge> clock s. wait_loop n ok s = s\<lparr>clock := m\<rparr>"
proof (induction n arbitrary: s)
  case (Suc n)
  show ?case
  proof (cases "ok (device s (clock s) 0x64)")
    case True
    then show ?thesis by (intro exI [of _ "clock s + 1"]) (simp add: inb_def)
  next
    case False
    obtain m where "clock s + 1 \<le> m" "wait_loop n ok (s\<lparr>clock := clock s + 1\<rparr>) = s\<lparr>clock := m\<rparr>"
      using Suc.IH [of "s\<lparr>clock := clock s + 1\<rparr>"] by auto
    then show ?thesis using False by (intro exI [of _ m]) (simp add: inb_def)
  qed
qed (auto intro: exI [of _ "clock s"])

text \<open>Only the clock and the list of writes differ.\<close>

definition io_only :: "'s hw_scheme \<Rightarrow> 's hw_scheme \<Rightarrow> bool" where
  "io_only s t \<longleftrightarrow> device t = device s \<and> hw.more t = hw.more s"

lemma io_only_refl: "io_only s s"
  by (simp add: io_only_def)

lemma io_only_wait: "io_only s (mouse_wait k t) = io_only s t"
  using wait_loop_clock [of t 100000 "\<lambda>v. v AND 1 \<noteq> 0"] wait_loop_clock [of t 100000 "\<lambda>v. v AND 2 = 0"]
  by (auto simp: mouse_wait_def io_only_def)

lemma io_only_steps:
  "io_only s (outb p v t) = io_only s t" "io_only s (mouse_wait k t) = io_only s t"
  "io_only s (mouse_write v t) = io_only s t" "io_only s (snd (inb p t)) = io_only s t"
  "io_only s (snd (mouse_read t)) = io_only s t" "io_only s (irq_unmask i t) = io_only s t"
proof -
  have o: "io_only s (outb p v t) = io_only s t" for p v t by (simp add: io_only_def outb_def)
  have i: "io_only s (snd (inb p t)) = io_only s t" for p t by (simp add: io_only_def inb_def)
  show "io_only s (outb p v t) = io_only s t" "io_only s (mouse_wait k t) = io_only s t"
    "io_only s (mouse_write v t) = io_only s t" "io_only s (snd (inb p t)) = io_only s t"
    "io_only s (snd (mouse_read t)) = io_only s t"
    by (simp_all add: o i io_only_wait mouse_write_def mouse_read_def)
  show "io_only s (irq_unmask i t) = io_only s t"
    by (simp add: irq_unmask_def Let_def inb_def o) (simp add: io_only_def)
qed

lemma io_only_screen:
  fixes s t :: "'s devices_scheme"
  assumes "io_only s t"
  shows "vga_inv t = vga_inv s" and "line_ready t = line_ready s" and "mouse_x t = mouse_x s" and "mouse_y t = mouse_y s"
    and "interrupt_handlers t = interrupt_handlers s"
  using assms by (cases s; cases t; simp add: io_only_def vga_inv_def line_ready_def ready_def)+

text \<open>The handlers of a run: \<open>n\<close> interrupts of one device.\<close>

definition key_codes :: "nat \<Rightarrow> 's devices_scheme \<Rightarrow> u8 list" where
  "key_codes n s = map (\<lambda>i. device s (clock s + i) 0x60) [0..<n]"

definition last_code :: "u8 set \<Rightarrow> u8 list \<Rightarrow> u8 option" where
  "last_code K codes =
     (let ks = filter (\<lambda>c. c AND 0x7F \<in> K) codes in if ks = [] then None else Some (last ks))"

lemma last_code_snoc:
  "last_code K (codes @ [c]) = (if c AND 0x7F \<in> K then Some c else last_code K codes)"
  by (simp add: last_code_def)

lemma keyboard_callback_frame:
  "device (keyboard_callback junk s) = device s" "clock (keyboard_callback junk s) = clock s + 1"
  "mouse_x (keyboard_callback junk s) = mouse_x s" "mouse_y (keyboard_callback junk s) = mouse_y s"
  by (auto simp: keyboard_callback_def Let_def inb_def)

lemma keyboard_run_frame:
  "device ((keyboard_callback junk ^^ n) s) = device s" "clock ((keyboard_callback junk ^^ n) s) = clock s + n"
  by (induction n) (simp_all add: keyboard_callback_frame)

lemma keyboard_callback_shift:
  "shift_pressed (keyboard_callback junk s) =
     (let c = device s (clock s) 0x60 in if c AND 0x7F \<in> {0x2A, 0x36} then c AND 0x80 = 0 else shift_pressed s)"
  "ctrl_pressed (keyboard_callback junk s) =
     (let c = device s (clock s) 0x60 in if c AND 0x7F \<in> {0x1D} then c AND 0x80 = 0 else ctrl_pressed s)"
  "alt_pressed (keyboard_callback junk s) =
     (let c = device s (clock s) 0x60 in if c AND 0x7F \<in> {0x38} then c AND 0x80 = 0 else alt_pressed s)"
  by (auto simp: keyboard_callback_def Let_def inb_def)

section \<open>Properties\<close>

definition blank_devices :: devices where
  "blank_devices = cpu.extend blank_cpu
     \<lparr>queue = \<lparr>event_queue = replicate 256 \<lparr>ev_type = 0, ev_data = replicate 8 0\<rparr>, queue_head = 0, queue_tail = 0\<rparr>,
      tick_count = 0, timer_frequency = 100, shift_pressed = False, ctrl_pressed = False, alt_pressed = False,
      caps_lock = False, mouse_x = 512, mouse_y = 384, mouse_cycle = 0, mouse_bytes = [0, 0, 0],
      mouse_buttons = [False, False, False]\<rparr>"

lemma blank_keys [simp]:
  "\<not> shift_pressed blank_devices" "\<not> ctrl_pressed blank_devices" "\<not> alt_pressed blank_devices"
  "\<not> caps_lock blank_devices" "clock blank_devices = 0" "device blank_devices = (\<lambda>_ _. 0xFF)"
  by (simp_all add: blank_devices_def cpu.defs blank_cpu_def)

lemma keyboard_callback_key:
  assumes "sc = device s (clock s) 0x60" and "sc < 59" and "sc \<notin> {0x2A, 0x36, 0x1D, 0x38, 0x3A}"
  shows "keyboard_callback junk s =
     (let t = s\<lparr>clock := clock s + 1\<rparr>; c = key_char (shift_pressed s) (caps_lock s) (unat sc)
      in if c = CHR 0x00 then t
         else t\<lparr>queue := push_event (queue s)
                \<lparr>ev_type = EVENT_TYPE_KEY_DOWN,
                 ev_data = [of_char c, sc, of_flag (shift_pressed s), of_flag (ctrl_pressed s),
                            of_flag (alt_pressed s)] @ drop 5 junk\<rparr>\<rparr>)"
proof -
  have n: "unat sc < 59" using assms(2) by (simp add: word_less_nat_alt)
  have hi: "\<not> bit sc 7"
  proof
    assume "bit sc 7"
    then have "bit (unat sc) 7" by (simp add: bit_unsigned_iff)
    then show False using n by (simp add: bit_iff_odd)
  qed
  have m: "(0x7F :: u8) = mask 7" by (simp add: mask_eq_exp_minus_1)
  have r: "sc AND 0x80 = 0" using hi and_exp_eq_0_iff_not_bit [of sc 7] by simp
  have c: "sc AND 0x7F = sc" using hi unfolding m
    by (intro bit_word_eqI, rename_tac n, case_tac "n = 7") (auto simp: bit_simps)
  have k: "scancode_to_char sc (s\<lparr>clock := clock s + 1\<rparr>) = key_char (shift_pressed s) (caps_lock s) (unat sc)"
    using scancode_to_char_key [OF n, of "s\<lparr>clock := clock s + 1\<rparr>"] by simp
  have i: "inb 0x60 s = (sc, s\<lparr>clock := clock s + 1\<rparr>)" by (simp add: inb_def assms(1))
  show ?thesis using assms(3) by (simp add: keyboard_callback_def i r c k [simplified] Let_def)
qed

text \<open>Pressing a key that is not a modifier puts one event into the queue when it stands for a
  character: letters follow shift and caps lock, other keys shift alone. The event carries the character, the
  key code and the three modifiers.\<close>

theorem keyboard_key_event:
  assumes "sc = device s (clock s) 0x60" and "sc < 59" and "sc \<notin> {0x2A, 0x36, 0x1D, 0x38, 0x3A}"
  shows "keyboard_callback junk s =
     (let t = s\<lparr>clock := clock s + 1\<rparr>; c = key_char (shift_pressed s) (caps_lock s) (unat sc)
      in if c = CHR 0x00 then t
         else t\<lparr>queue := push_event (queue s)
                \<lparr>ev_type = EVENT_TYPE_KEY_DOWN,
                 ev_data = [of_char c, sc, of_flag (shift_pressed s), of_flag (ctrl_pressed s),
                            of_flag (alt_pressed s)] @ drop 5 junk\<rparr>\<rparr>)"
  using assms by (rule keyboard_callback_key)

theorem keyboard_key_event_witness:
  "queue (keyboard_callback (replicate 8 0) (blank_devices\<lparr>device := \<lambda>_ _. 0x1E\<rparr>)) =
     push_event (queue blank_devices) \<lparr>ev_type = EVENT_TYPE_KEY_DOWN, ev_data = [97, 0x1E, 0, 0, 0] @ replicate 3 0\<rparr>"
proof -
  have "key_char False False 30 = CHR ''a''" by (simp add: key_char_def scancode_to_ascii_def Let_def)
  then show ?thesis
    using keyboard_key_event [of "0x1E" "blank_devices\<lparr>device := \<lambda>_ _. 0x1E\<rparr>" "replicate 8 0"]
    by (simp add: of_flag_def)
qed

text \<open>However many keyboard interrupts there were, shift, control and alt are held exactly when the last
  code of such a key was a press.\<close>

theorem keyboard_modifiers:
  "let t = (keyboard_callback junk ^^ n) s; codes = key_codes n s
   in shift_pressed t = (case last_code {0x2A, 0x36} codes of None \<Rightarrow> shift_pressed s | Some c \<Rightarrow> c AND 0x80 = 0) \<and>
      ctrl_pressed t = (case last_code {0x1D} codes of None \<Rightarrow> ctrl_pressed s | Some c \<Rightarrow> c AND 0x80 = 0) \<and>
      alt_pressed t = (case last_code {0x38} codes of None \<Rightarrow> alt_pressed s | Some c \<Rightarrow> c AND 0x80 = 0)"
proof (induction n)
  case 0
  show ?case by (simp add: last_code_def key_codes_def)
next
  case (Suc n)
  have "key_codes (Suc n) s = key_codes n s @ [device s (clock s + n) 0x60]" by (simp add: key_codes_def)
  then show ?case using Suc
    by (simp add: Let_def last_code_snoc keyboard_callback_shift keyboard_run_frame)
qed

text \<open>Whatever bytes the controller delivers, the pointer stays on the screen and the packet state within
  its arrays.\<close>

theorem mouse_stays_on_screen:
  assumes "mouse_inv s"
  shows "mouse_inv ((mouse_callback junk ^^ n) s)"
  using assms by (induction n) (simp_all add: mouse_callback_inv)

lemma blank_devices_inv: "mouse_inv blank_devices" "vga_inv blank_devices" "line_ready blank_devices"
  by (simp_all add: mouse_inv_def blank_devices_def vga_inv_def line_ready_def ready_def cpu.defs blank_cpu_def)
     (auto)

theorem mouse_stays_on_screen_witness: "mouse_inv ((mouse_callback (\<lambda>_. replicate 8 0) ^^ 100) blank_devices)"
  by (rule mouse_stays_on_screen [OF blank_devices_inv(1)])

text \<open>A packet of three bytes, read over three interrupts, moves the pointer by the nine-bit signed
  movement of each axis, or not at all after an overflow, and clamps it to the screen.\<close>

theorem mouse_packet_moves:
  assumes "mouse_inv s" and "mouse_cycle s = 0"
    and "\<forall>i < 3. device s (clock s + 2 * i) 0x64 AND 0x20 \<noteq> 0"
    and "b0 = device s (clock s + 1) 0x60" and "b1 = device s (clock s + 3) 0x60" and "b2 = device s (clock s + 5) 0x60"
    and "b0 AND 8 \<noteq> 0"
  shows "let t = (mouse_callback junk ^^ 3) s
     in mouse_x t = clamp 1023 (mouse_x s + movement b1 (b0 AND 0x10 \<noteq> 0) (b0 AND 0x40 \<noteq> 0)) \<and>
        mouse_y t = clamp 767 (mouse_y s - movement b2 (b0 AND 0x20 \<noteq> 0) (b0 AND 0x80 \<noteq> 0)) \<and>
        mouse_buttons t = [b0 AND 1 \<noteq> 0, b0 AND 2 \<noteq> 0, b0 AND 4 \<noteq> 0] \<and> mouse_cycle t = 0"
proof -
  have len: "length (mouse_bytes s) = 3" using assms(1) by (simp add: mouse_inv_def)
  have st: "device s (clock s) 0x64 AND 0x20 \<noteq> 0" "device s (clock s + 2) 0x64 AND 0x20 \<noteq> 0"
    "device s (clock s + 4) 0x64 AND 0x20 \<noteq> 0"
    using assms(3) [rule_format, of 0] assms(3) [rule_format, of 1] assms(3) [rule_format, of 2] by simp_all
  define s1 where "s1 = s\<lparr>clock := clock s + 2, mouse_bytes := (mouse_bytes s)[0 := b0], mouse_cycle := 1\<rparr>"
  define s2 where "s2 = s1\<lparr>clock := clock s + 4, mouse_bytes := (mouse_bytes s1)[1 := b1], mouse_cycle := 2\<rparr>"
  have e1: "mouse_callback junk s = s1"
    using st(1) assms(2,4,7) by (simp add: mouse_callback_def inb_def s1_def)
  have e2: "mouse_callback junk s1 = s2"
    using st(2) assms(5) by (simp add: mouse_callback_def inb_def s1_def s2_def numeral_eq_Suc)
  have e3: "mouse_callback junk s2 = mouse_packet junk (s2\<lparr>clock := clock s + 6,
      mouse_bytes := (mouse_bytes s2)[2 := b2], mouse_cycle := 0\<rparr>)"
    using st(3) assms(6) by (simp add: mouse_callback_def inb_def s1_def s2_def numeral_eq_Suc)
  have "(mouse_callback junk ^^ 3) s = mouse_callback junk (mouse_callback junk (mouse_callback junk s))"
    by (simp add: numeral_eq_Suc)
  also have "\<dots> = mouse_packet junk (s2\<lparr>clock := clock s + 6, mouse_bytes := (mouse_bytes s2)[2 := b2], mouse_cycle := 0\<rparr>)"
    unfolding e1 e2 by (rule e3)
  finally show ?thesis
    using len by (simp add: Let_def mouse_packet_position mouse_packet_rest s1_def s2_def)
qed

theorem mouse_packet_moves_witness:
  "mouse_x ((mouse_callback (\<lambda>_. replicate 8 0) ^^ 3)
     (blank_devices\<lparr>device := \<lambda>n p. if p = 0x64 then 0x20 else if n = 1 then 0x18 else if n = 3 then 0xF6 else 0\<rparr>)) = 502"
proof -
  let ?s = "blank_devices\<lparr>device := \<lambda>n p. if p = 0x64 then 0x20 else if n = 1 then 0x18 else if n = 3 then 0xF6 else 0\<rparr>"
  have "mouse_inv ?s" using blank_devices_inv(1) by (simp add: mouse_inv_def)
  moreover have "clock ?s = 0" "mouse_x ?s = 512" "mouse_cycle ?s = 0"
    by (simp_all add: blank_devices_def cpu.defs blank_cpu_def)
  ultimately show ?thesis
    using mouse_packet_moves [of ?s "0x18" "0xF6" 0 "\<lambda>_. replicate 8 0"]
    by (simp add: Let_def movement_def clamp_def)
qed

text \<open>Sleeping ends, and exactly when the rounded-down number of ticks, at least one, has passed, also when
  the tick counter wraps around meanwhile; the product of milliseconds and frequency wraps too.\<close>

theorem timer_sleep_terminates:
  assumes "ticking tick wake"
  shows "\<exists>t. timer_sleep wake ms s = Some t \<and>
     tick_count t = tick_count s + (let n = (ms * timer_frequency s) div 1000 in if n = 0 then 1 else n)"
proof -
  define n where "n = (let n = (ms * timer_frequency s) div 1000 in if n = 0 then 1 else n)"
  have "tick_count s - tick_count s \<le> n" by simp
  from sleep_loop_returns [OF assms this, of 0] obtain t
    where t: "sleep_loop wake 0 (tick_count s) n s = Some t" "tick_count t - tick_count s = n" by blast
  from t(2) have "tick_count t = tick_count s + n" by (simp add: algebra_simps)
  then show ?thesis using t(1) by (simp add: timer_sleep_def n_def Let_def)
qed

theorem timer_sleep_terminates_witness:
  "\<exists>t. timer_sleep (\<lambda>n s. if even n then timer_callback s else s) 50 blank_devices = Some t \<and> tick_count t = 5"
proof -
  have "ticking even (\<lambda>n (s :: devices). if even n then timer_callback s else s)"
  proof -
    have "\<exists>m \<ge> n. even m" for n :: nat by (rule exI [of _ "2 * n"]) simp
    then show ?thesis by (simp add: ticking_def timer_callback_def Let_def)
  qed
  from timer_sleep_terminates [OF this, of 50 blank_devices] show ?thesis
    by (simp add: blank_devices_def cpu.defs Let_def)
qed

lemma mouse_init_form:
  obtains u where "io_only (register_interrupt_handler 44 Mouse_callback s) u"
    "mouse_init s = printf (''[Mouse] Initialized at (%d, %d)'' @ nl)
       [Word (of_int (mouse_x u)), Word (of_int (mouse_y u))] u"
proof
  show "io_only (register_interrupt_handler 44 Mouse_callback s) (irq_unmask 12 (snd (mouse_read (mouse_write 0xF4
    (snd (mouse_read (mouse_write 0xF6 (outb 0x60 (fst (inb 0x60 (mouse_wait 0 (outb 0x64 0x20 (mouse_wait 1
      (outb 0x64 0xA8 (mouse_wait 1 (register_interrupt_handler 44 Mouse_callback s))))))) OR 2)
      (mouse_wait 1 (outb 0x64 0x60 (mouse_wait 1 (snd (inb 0x60 (mouse_wait 0 (outb 0x64 0x20 (mouse_wait 1
      (outb 0x64 0xA8 (mouse_wait 1 (register_interrupt_handler 44 Mouse_callback s)))))))))))))))))))"
    by (simp add: io_only_steps io_only_refl)
qed (simp add: mouse_init_def Let_def case_prod_beta)

text \<open>Setting up the mouse ends on any hardware, as its waits give up; it leaves the pointer where it is.\<close>

theorem mouse_init_terminates:
  assumes "vga_inv s" and "line_ready s"
  shows "\<exists>t. mouse_init s = Some t \<and> vga_inv t \<and> line_ready t"
proof -
  obtain u where u: "io_only (register_interrupt_handler 44 Mouse_callback s) u"
    "mouse_init s = printf (''[Mouse] Initialized at (%d, %d)'' @ nl)
       [Word (of_int (mouse_x u)), Word (of_int (mouse_y u))] u" by (rule mouse_init_form)
  have "vga_inv u" "line_ready u"
    using io_only_screen(1,2) [OF u(1)] assms
    by (simp_all add: register_interrupt_handler_def vga_inv_def line_ready_def ready_def)
  then show ?thesis using u(2) printf_total [of u "''[Mouse] Initialized at (%d, %d)'' @ nl"
    "[Word (of_int (mouse_x u)), Word (of_int (mouse_y u))]"] by (auto simp: nl_def)
qed

theorem mouse_init_terminates_witness: "\<exists>t. mouse_init blank_devices = Some t"
  using mouse_init_terminates [OF blank_devices_inv(2,3)] by blast

text \<open>With no keyboard controller, where every read of a port gives 0xFF, the start-up of the keyboard
  never comes back.\<close>

theorem keyboard_init_stuck:
  assumes "\<forall>n p. device s n p = 0xFF"
  shows "keyboard_init s = None"
proof (cases "spin_until 0x64 (\<lambda>v. v AND 2 = 0) (register_interrupt_handler 33 Keyboard_callback s)")
  case (Some t)
  then have "\<exists>n. (device s n 0x64 AND 2 = (0 :: u8))"
    using spin_until_never [OF Some] by (auto simp: register_interrupt_handler_def)
  then show ?thesis using assms by simp
qed (simp add: keyboard_init_def)

theorem keyboard_init_stuck_witness: "keyboard_init blank_devices = None"
  by (rule keyboard_init_stuck) (simp add: blank_devices_def cpu.defs blank_cpu_def)

end
