(* ===== verification/Syscalls.thy ===== *)
theory Syscalls
  imports Devices
begin

text \<open>
  System calls: the handler of \<open>simpleos-main/simpleos/syscall.c\<close>, the ring 3 test of \<open>usermode.c\<close>, the
  page fault handler of \<open>vmm.c\<close>, the call through the handler table that connects them with \<open>idt.c\<close>, and the
  wrappers of \<open>dosapi.c\<close> on the other side of \<open>int 0x80\<close>.
\<close>

section \<open>The handlers\<close>

type_synonym 's frame = "registers \<times> 's devices_scheme"

text \<open>A byte of memory through the current page directory.\<close>

definition load8 :: "u32 \<Rightarrow> vmm \<Rightarrow> u8 option" where
  "load8 a v = map_option (\<lambda>w. ucast (drop_bit (8 * unat (a AND 3)) w)) (load32 v (a AND NOT 3))"

definition fault_report :: "u32 \<Rightarrow> u32 \<Rightarrow> 's vga_scheme \<Rightarrow> 's vga_scheme option" where
  "fault_report fault_addr error_code s = do {
     s1 \<leftarrow> printf (nl @ ''[VMM] PAGE FAULT at 0x%x'' @ nl) [Word fault_addr] s;
     s2 \<leftarrow> printf (''[VMM] Error code: 0x%x'' @ nl) [Word error_code] s1;
     s3 \<leftarrow> printf (''[VMM]   - %s'' @ nl)
            [Text (Some (if error_code AND 1 \<noteq> 0 then ''Protection violation'' else ''Page not present''))] s2;
     s4 \<leftarrow> printf (''[VMM]   - %s access'' @ nl) [Text (Some (if error_code AND 2 \<noteq> 0 then ''Write'' else ''Read''))] s3;
     s5 \<leftarrow> printf (''[VMM]   - %s mode'' @ nl) [Text (Some (if error_code AND 4 \<noteq> 0 then ''User'' else ''Kernel''))] s4;
     printf (''[VMM] FATAL: Unhandled page fault!'' @ nl) [] s5
   }"

definition vmm_page_fault_handler :: "u32 \<Rightarrow> u32 \<Rightarrow> 's devices_scheme \<Rightarrow> 's devices_scheme ending option" where
  "vmm_page_fault_handler fault_addr error_code s =
     map_option (\<lambda>t. Halts (t\<lparr>interrupts_on := False\<rparr>)) (fault_report fault_addr error_code s)"

definition usermode_report :: "registers \<Rightarrow> 's vga_scheme \<Rightarrow> 's vga_scheme option" where
  "usermode_report regs s = do {
     s1 \<leftarrow> printf (nl @ ''[Syscall] SUCCESS! System call from Ring 3 received!'' @ nl) []
            (vga_set_color VGA_COLOR_LIGHT_GREEN VGA_COLOR_BLACK s);
     s2 \<leftarrow> printf (''[Syscall] EAX (syscall number) = 0x%x'' @ nl) [Word (r_eax regs)] s1;
     s3 \<leftarrow> printf (''[Syscall] EIP (user code) = 0x%x'' @ nl) [Word (r_eip regs)] s2;
     s4 \<leftarrow> printf (''[Syscall] CS = 0x%x (Ring %d)'' @ nl) [Word (r_cs regs), Word (r_cs regs AND 3)] s3;
     s5 \<leftarrow> printf (nl @ ''[Syscall] User mode test PASSED!'' @ nl) [] (vga_set_color VGA_COLOR_LIGHT_GREY VGA_COLOR_BLACK s4);
     printf (''[Syscall] Halting system...'' @ nl) [] s5
   }"

definition usermode_syscall_handler :: "'s frame \<Rightarrow> 's frame ending option" where
  "usermode_syscall_handler x = (case x of (regs, s) \<Rightarrow>
     map_option (\<lambda>t. Halts (regs, t\<lparr>interrupts_on := False\<rparr>)) (usermode_report regs s))"

definition SYSCALL_EXIT :: u32 where "SYSCALL_EXIT = 1"
definition SYSCALL_WRITE :: u32 where "SYSCALL_WRITE = 2"
definition SYSCALL_READ :: u32 where "SYSCALL_READ = 3"
definition SYSCALL_FORK :: u32 where "SYSCALL_FORK = 4"
definition SYSCALL_EXEC :: u32 where "SYSCALL_EXEC = 5"
definition SYSCALL_GETPID :: u32 where "SYSCALL_GETPID = 6"

definition sys_exit :: "'s frame \<Rightarrow> 's frame ending option" where
  "sys_exit x = (case x of (regs, s) \<Rightarrow>
     (case process_current (kern s) of
        None \<Rightarrow> Some (Returns (regs, s))
      | Some self \<Rightarrow>
          let n = process_get_pid (Some self) (kern s)
          in do {
            s1 \<leftarrow> printf (''[Syscall] Process %d exiting with code %d'' @ nl) [Word n, Word (r_ebx regs)] s;
            k \<leftarrow> process_exit_with_code n (r_ebx regs) (kern s1);
            Some (Returns (regs, s1\<lparr>kern := scheduler_schedule k\<rparr>))
          }))"

definition sys_write :: "'s frame \<Rightarrow> 's frame ending option" where
  "sys_write x = (case x of (regs, s) \<Rightarrow>
     let fd = r_ebx regs; buffer = r_ecx regs; len = r_edx regs
     in if fd = 1 \<or> fd = 2
        then do {
          t \<leftarrow> for_try 0 len (\<lambda>i t. do { c \<leftarrow> load8 (buffer + i) (kvm (kern t)); vga_putchar (char_of (unat c)) t }) s;
          Some (Returns (regs\<lparr>r_eax := len\<rparr>, t))
        }
        else Some (Returns (regs\<lparr>r_eax := - 1\<rparr>, s)))"

definition syscall_handler :: "'s frame \<Rightarrow> 's frame ending option" where
  "syscall_handler x = (case x of (regs, s) \<Rightarrow>
     let syscall_num = r_eax regs
     in if syscall_num = 1 then usermode_syscall_handler (regs, s)
        else if syscall_num = SYSCALL_EXIT then sys_exit (regs, s)
        else if syscall_num = SYSCALL_WRITE then sys_write (regs, s)
        else if syscall_num = SYSCALL_READ then Some (Returns (regs\<lparr>r_eax := - 1\<rparr>, s))
        else if syscall_num = SYSCALL_FORK then
          map_option (\<lambda>t. Returns (regs\<lparr>r_eax := - 1\<rparr>, t))
            (printf (''[Syscall] FORK called (not implemented)'' @ nl) [] s)
        else if syscall_num = SYSCALL_EXEC then
          map_option (\<lambda>t. Returns (regs\<lparr>r_eax := - 1\<rparr>, t))
            (printf (''[Syscall] EXEC called (not implemented)'' @ nl) [] s)
        else if syscall_num = SYSCALL_GETPID then Some (Returns (regs\<lparr>r_eax := 1\<rparr>, s))
        else
          map_option (\<lambda>t. Returns (regs\<lparr>r_eax := - 1\<rparr>, t))
            (printf (''[Syscall] Unknown syscall %d'' @ nl) [Word syscall_num] s))"

definition syscall_init :: "'s devices_scheme \<Rightarrow> 's devices_scheme option" where
  "syscall_init s =
     printf (''[Syscall] Handler registered (int 0x80)'' @ nl) [] (register_interrupt_handler 128 Syscall_handler s)"

text \<open>The functions behind the entries of the handler table. \<open>cr2\<close> is the register the page fault handler of
  \<open>kernel.c\<close> reads.\<close>

definition page_fault_handler :: "u32 \<Rightarrow> 's frame \<Rightarrow> 's frame ending option" where
  "page_fault_handler cr2 x = (case x of (regs, s) \<Rightarrow>
     map_option (map_ending (\<lambda>t. (regs, t))) (vmm_page_fault_handler cr2 (r_err_code regs) s))"

fun call_handler :: "u32 \<Rightarrow> (nat \<Rightarrow> u8 list) \<Rightarrow> isr \<Rightarrow> 's frame \<Rightarrow> 's frame ending option" where
  "call_handler cr2 junk Timer_callback (regs, s) = Some (Returns (regs, timer_callback s))"
| "call_handler cr2 junk Keyboard_callback (regs, s) = Some (Returns (regs, keyboard_callback (junk 0) s))"
| "call_handler cr2 junk Mouse_callback (regs, s) = Some (Returns (regs, mouse_callback junk s))"
| "call_handler cr2 junk Syscall_handler x = syscall_handler x"
| "call_handler cr2 junk Page_fault_handler x = page_fault_handler cr2 x"

section \<open>The program's side\<close>

text \<open>\<open>int 0x80\<close> with the registers of the caller.\<close>

definition int_80 :: "u32 \<Rightarrow> (nat \<Rightarrow> u8 list) \<Rightarrow> 's frame \<Rightarrow> 's frame ending option" where
  "int_80 cr2 junk x = (case x of (regs, s) \<Rightarrow> isr_handler (call_handler cr2 junk) (regs\<lparr>r_int_no := 128\<rparr>, s))"

definition STDOUT_HANDLE :: u32 where "STDOUT_HANDLE = 1"

text \<open>The result of a wrapper is in \<open>r_eax\<close>.\<close>

definition DosWrite :: "u32 \<Rightarrow> (nat \<Rightarrow> u8 list) \<Rightarrow> u32 \<Rightarrow> u32 \<Rightarrow> u32 \<Rightarrow> 's frame \<Rightarrow> 's frame ending option" where
  "DosWrite cr2 junk handle buffer len x = (case x of (regs, s) \<Rightarrow>
     int_80 cr2 junk (regs\<lparr>r_eax := SYSCALL_WRITE, r_ebx := handle, r_ecx := buffer, r_edx := len\<rparr>, s))"

text \<open>\<open>addr\<close> is where the compiler keeps the character parameter.\<close>

definition DosPutChar :: "u32 \<Rightarrow> (nat \<Rightarrow> u8 list) \<Rightarrow> u32 \<Rightarrow> 's frame \<Rightarrow> 's frame ending option" where
  "DosPutChar cr2 junk addr x = DosWrite cr2 junk STDOUT_HANDLE addr 1 x"

partial_function (option) strlen_at :: "u32 \<Rightarrow> u32 \<Rightarrow> vmm \<Rightarrow> u32 option" where
  "strlen_at str len v = do {
     c \<leftarrow> load8 (str + len) v;
     if c \<noteq> 0 then strlen_at str (len + 1) v else Some len
   }"

definition DosPutString :: "u32 \<Rightarrow> (nat \<Rightarrow> u8 list) \<Rightarrow> u32 \<Rightarrow> 's frame \<Rightarrow> 's frame ending option" where
  "DosPutString cr2 junk str x = (case x of (regs, s) \<Rightarrow> do {
     len \<leftarrow> strlen_at str 0 (kvm (kern s));
     DosWrite cr2 junk STDOUT_HANDLE str len (regs, s)
   })"

definition DosExit :: "u32 \<Rightarrow> (nat \<Rightarrow> u8 list) \<Rightarrow> u32 \<Rightarrow> 's frame \<Rightarrow> 's frame ending option" where
  "DosExit cr2 junk exit_code x = (case x of (regs, s) \<Rightarrow>
     andthen (int_80 cr2 junk (regs\<lparr>r_eax := SYSCALL_EXIT, r_ebx := exit_code\<rparr>, s)) (\<lambda>y. Some (Halts y)))"

definition DosGetPID :: "u32 \<Rightarrow> (nat \<Rightarrow> u8 list) \<Rightarrow> 's frame \<Rightarrow> 's frame ending option" where
  "DosGetPID cr2 junk x = (case x of (regs, s) \<Rightarrow> int_80 cr2 junk (regs\<lparr>r_eax := SYSCALL_GETPID\<rparr>, s))"

section \<open>Entering ring 3\<close>

text \<open>After the system call the test function halts in a loop, which ring 3 may not do: exception 13.\<close>

definition user_mode_test_function :: "u32 \<Rightarrow> (nat \<Rightarrow> u8 list) \<Rightarrow> 's frame \<Rightarrow> 's frame ending option" where
  "user_mode_test_function cr2 junk x = (case x of (regs, s) \<Rightarrow>
     andthen (int_80 cr2 junk (regs\<lparr>r_eax := 1\<rparr>, s))
       (\<lambda>(r, t). isr_handler (call_handler cr2 junk) (r\<lparr>r_int_no := 13, r_err_code := 0\<rparr>, t)))"

text \<open>\<open>iret\<close> loads the code and stack segments of ring 3 and enables interrupts.\<close>

definition jump_to_ring3 :: "u32 \<Rightarrow> 's frame \<Rightarrow> 's frame" where
  "jump_to_ring3 user_stack x = (case x of (regs, s) \<Rightarrow>
     (regs\<lparr>r_ds := 0x23, r_ss := 0x23, r_useresp := user_stack, r_eflags := r_eflags regs OR 0x200, r_cs := 0x1B\<rparr>,
      s\<lparr>interrupts_on := True\<rparr>))"

definition with_kvm :: "vmm \<Rightarrow> 's devices_scheme \<Rightarrow> 's devices_scheme" where
  "with_kvm v s = s\<lparr>kern := with_vm v (kern s)\<rparr>"

definition enter_user_mode :: "u32 \<Rightarrow> u32 \<Rightarrow> (nat \<Rightarrow> u8 list) \<Rightarrow> 's frame \<Rightarrow> 's frame ending option" where
  "enter_user_mode entry_point cr2 junk x = (case x of (regs, s) \<Rightarrow> do {
     s1 \<leftarrow> printf (''[UserMode] Preparing to enter Ring 3...'' @ nl) [] s;
     let user_stack = 0x800000;
     (ok, v) \<leftarrow> vmm_alloc_page (user_stack - 4096) (PTE_WRITABLE OR PTE_USER) (kvm (kern s1));
     let s2 = with_kvm v s1;
     if \<not> ok then
       map_option (\<lambda>t. Returns (regs, t)) (printf (''[UserMode] ERROR: Failed to allocate user stack!'' @ nl) [] s2)
     else do {
       s3 \<leftarrow> printf (''[UserMode] User stack allocated at 0x%x'' @ nl) [Word user_stack] s2;
       s4 \<leftarrow> printf (''[UserMode] Entry point at 0x%x'' @ nl) [Word entry_point] s3;
       let code_page = entry_point AND 0xFFFFF000;
       code_phys \<leftarrow> vmm_get_physical code_page (kvm (kern s4));
       if code_phys = 0 then
         map_option (\<lambda>t. Returns (regs, t)) (printf (''[UserMode] ERROR: Code page not mapped!'' @ nl) [] s4)
       else do {
         (_, v') \<leftarrow> vmm_map_page code_page code_phys (PTE_PRESENT OR PTE_USER) (kvm (kern s4));
         s5 \<leftarrow> printf (''[UserMode] Code page mapped with user permissions'' @ nl) [] (with_kvm v' s4);
         s6 \<leftarrow> printf (''[UserMode] Jumping to Ring 3...'' @ nl @ nl) [] s5;
         user_mode_test_function cr2 junk (jump_to_ring3 user_stack (regs, s6))
       }
     }
   })"

section \<open>What the handlers leave alone\<close>

lemma more_devices:
  fixes s t :: "'s devices_scheme"
  assumes "vga.more t = vga.more s"
  shows "kern t = kern s" and "interrupt_handlers t = interrupt_handlers s" and "queue t = queue s"
    and "tick_count t = tick_count s" and "mouse_x t = mouse_x s" and "idt t = idt s" and "devices.more t = devices.more s"
  using assms by (cases s; cases t; simp)+

lemma console_ok_irrelevant [simp]:
  "console_ok (s\<lparr>kern := k\<rparr>) = console_ok s" "console_ok (s\<lparr>interrupts_on := b\<rparr>) = console_ok s"
  "console_ok (s\<lparr>interrupt_handlers := h\<rparr>) = console_ok s"
  by (simp_all add: console_ok_def vga_inv_def line_ready_def ready_def)

lemma displays_fault_report: "displays (fault_report a e)"
  unfolding fault_report_def by (intro displays_intros) (simp_all add: nl_def)

lemma displays_usermode_report: "displays (usermode_report regs)"
  unfolding usermode_report_def by (intro displays_intros) (simp_all add: nl_def)

lemma usermode_syscall_handler_halts:
  fixes s :: "'s devices_scheme"
  assumes "console_ok s"
  shows "\<exists>t. usermode_syscall_handler (regs, s) = Some (Halts (regs, t)) \<and> console_ok t \<and> kern t = kern s \<and> \<not> interrupts_on t"
proof -
  obtain u where u: "usermode_report regs s = Some u" "console_ok u" "vga.more u = vga.more s"
    using assms by (rule displaysD [OF displays_usermode_report])
  then show ?thesis using more_devices(1) [OF u(3)] by (simp add: usermode_syscall_handler_def)
qed

lemma nth_handler: "interrupt_handlers s ! 128 = Some Syscall_handler \<Longrightarrow>
  int_80 cr2 junk (regs, s) = syscall_handler (regs\<lparr>r_int_no := 128\<rparr>, s)"
  by (simp add: int_80_def isr_handler_def)

text \<open>The bytes of a text at an address.\<close>

definition text_at :: "vmm \<Rightarrow> u32 \<Rightarrow> string \<Rightarrow> bool" where
  "text_at v a str \<longleftrightarrow> (\<forall>i < length str. load8 (a + of_nat i) v = Some (of_char (str ! i)))"

lemma vga_puts_more:
  fixes s :: "'s devices_scheme"
  assumes "console_ok s"
  shows "\<exists>t. vga_puts str s = Some t \<and> console_ok t \<and> kern t = kern s"
proof -
  obtain t where t: "vga_puts str s = Some t" "console_ok t" "vga.more t = vga.more s"
    using assms by (rule displaysD [OF displays_puts])
  then show ?thesis using more_devices(1) [OF t(3)] by blast
qed

lemma vga_puts_append: "vga_puts (xs @ ys) s = vga_puts xs s \<bind> vga_puts ys"
  proof (induction xs arbitrary: s)
  case (Cons c xs)
  show ?case by (cases "vga_putchar c s") (simp_all add: Cons)
qed simp

lemma write_loop:
  fixes s :: "'s devices_scheme"
  assumes ok: "console_ok s" and bytes: "text_at (kvm (kern s)) a str" and len: "length str < 2 ^ 32"
  shows "for_try 0 (of_nat (length str)) (\<lambda>i t. do { c \<leftarrow> load8 (a + i) (kvm (kern t)); vga_putchar (char_of (unat c)) t }) s =
    vga_puts str s"
proof -
  let ?n = "of_nat (length str) :: u32"
  have n: "unat ?n = length str" using len by (simp add: unsigned_of_nat take_bit_nat_eq_self)
  let ?P = "\<lambda>i t. unat i \<le> length str \<and> vga_puts (take (unat i) str) s = Some t"
  let ?body = "\<lambda>i t. do { c \<leftarrow> load8 (a + i) (kvm (kern t)); vga_putchar (char_of (unat c)) t }"
  have "\<exists>t. for_try 0 ?n ?body s = Some t \<and> ?P (max 0 ?n) t"
  proof (rule for_try_rule)
    show "?P 0 s" by simp
    fix i :: u32 and t assume i: "i < ?n" and P: "?P i t"
    have lt: "unat i < length str" using i n by (simp add: word_less_nat_alt)
    have "kern t = kern s" "console_ok t" using vga_puts_more [OF ok, of "take (unat i) str"] P by auto
    moreover have "load8 (a + of_nat (unat i)) (kvm (kern s)) = Some (of_char (str ! unat i))"
      using bytes lt unfolding text_at_def by blast
    ultimately have b: "?body i t = vga_putchar (str ! unat i) t"
      by simp
    obtain u where u: "vga_putchar (str ! unat i) t = Some u"
      using \<open>console_ok t\<close> by (rule displaysD [OF displays_putchar])
    have "take (unat (i + 1)) str = take (unat i) str @ [str ! unat i]"
      using lt unat_inc_less [OF i] by (simp add: take_Suc_conv_app_nth)
    then have "?P (i + 1) u" using P u lt unat_inc_less [OF i] by (simp add: vga_puts_append)
    then show "\<exists>u. ?body i t = Some u \<and> ?P (i + 1) u" using b u by auto
  qed
  then show ?thesis using n by auto
qed

section \<open>Properties\<close>

text \<open>Writing a text to descriptor 1 or 2 prints exactly its bytes on the screen and returns its length.\<close>

theorem sys_write_prints:
  assumes "console_ok s" and "interrupt_handlers s ! 128 = Some Syscall_handler" and "handle \<in> {1, 2}"
    and "text_at (kvm (kern s)) a str" and "length str < 2 ^ 32"
  shows "\<exists>t r. DosWrite cr2 junk handle a (of_nat (length str)) (regs, s) = Some (Returns (r, t)) \<and>
     r_eax r = of_nat (length str) \<and> vga_puts str s = Some t \<and> kern t = kern s"
proof -
  obtain t where t: "vga_puts str s = Some t" "kern t = kern s" using vga_puts_more [OF assms(1)] by metis
  have "DosWrite cr2 junk handle a (of_nat (length str)) (regs, s) =
      sys_write (regs\<lparr>r_eax := 2, r_ebx := handle, r_ecx := a, r_edx := of_nat (length str), r_int_no := 128\<rparr>, s)"
    by (simp add: DosWrite_def nth_handler [OF assms(2)] syscall_handler_def SYSCALL_WRITE_def SYSCALL_EXIT_def)
  then show ?thesis using t write_loop [OF assms(1,4,5)] assms(3) by (auto simp: sys_write_def Let_def)
qed

text \<open>Sample: the text \<open>ABC\<close>, stored little endian at \<open>0x1000\<close>, before paging.\<close>

definition sample_system :: devices where
  "sample_system = register_interrupt_handler 128 Syscall_handler
     (blank_devices\<lparr>kern := static_kernel (boot_vm\<lparr>vm_memory := (\<lambda>_. 0)(0x1000 := 0x00434241), vm_paging := False\<rparr>)\<rparr>)"

lemma sample_system_ok: "console_ok sample_system" "interrupt_handlers sample_system ! 128 = Some Syscall_handler"
  using blank_devices_inv(2,3)
  by (simp_all add: sample_system_def register_interrupt_handler_def console_ok_def vga_inv_def line_ready_def ready_def)
     (simp add: blank_devices_def cpu.defs blank_cpu_def)

lemma sample_memory: "kvm (kern sample_system) = boot_vm\<lparr>vm_memory := (\<lambda>_. 0)(0x1000 := 0x00434241), vm_paging := False\<rparr>"
  by (simp add: sample_system_def register_interrupt_handler_def static_kernel_def)

lemma sample_text: "text_at (kvm (kern sample_system)) 0x1000 ''ABC''"
  unfolding text_at_def sample_memory
proof (intro allI impI)
  let ?v = "boot_vm\<lparr>vm_memory := (\<lambda>_. 0)(0x1000 := 0x00434241), vm_paging := False\<rparr>"
  have l: "load8 0x1000 ?v = Some 0x41" "load8 0x1001 ?v = Some 0x42" "load8 0x1002 ?v = Some 0x43"
    by (simp_all add: load8_def load32_def translate_def)
  fix i assume "i < length ''ABC''"
  then consider "i = 0" | "i = 1" | "i = 2" by fastforce
  then show "load8 (0x1000 + of_nat i) ?v = Some (of_char (''ABC'' ! i))"
    using l by cases simp_all
qed

definition blank_regs :: registers where
  "blank_regs = \<lparr>r_ds = 0, r_edi = 0, r_esi = 0, r_ebp = 0, r_esp = 0, r_ebx = 0, r_edx = 0, r_ecx = 0, r_eax = 0,
     r_int_no = 0, r_err_code = 0, r_eip = 0, r_cs = 0, r_eflags = 0, r_useresp = 0, r_ss = 0\<rparr>"

theorem sys_write_prints_witness:
  "\<exists>t r. DosWrite 0 (\<lambda>_. []) 1 0x1000 3 (blank_regs, sample_system) = Some (Returns (r, t)) \<and> r_eax r = 3 \<and>
     vga_puts ''ABC'' sample_system = Some t"
  using sys_write_prints [OF sample_system_ok _ sample_text, of 1 0 "\<lambda>_. []" blank_regs] by simp blast

text \<open>A program that calls \<open>DosExit\<close> stops the whole machine: number 1 goes to the ring 3 test before the
  exit call is looked at, so no process is ended and the process table stays as it is.\<close>

theorem dos_exit_halts_machine:
  assumes "console_ok s" and "interrupt_handlers s ! 128 = Some Syscall_handler"
  shows "\<exists>t r. DosExit cr2 junk code (regs, s) = Some (Halts (r, t)) \<and> \<not> interrupts_on t \<and> kern t = kern s"
proof -
  obtain t where "usermode_syscall_handler (regs\<lparr>r_eax := 1, r_ebx := code, r_int_no := 128\<rparr>, s) =
      Some (Halts (regs\<lparr>r_eax := 1, r_ebx := code, r_int_no := 128\<rparr>, t))" "kern t = kern s" "\<not> interrupts_on t"
    using usermode_syscall_handler_halts [OF assms(1)] by blast
  then show ?thesis
    by (simp add: DosExit_def nth_handler [OF assms(2)] syscall_handler_def SYSCALL_EXIT_def andthen_def)
qed

theorem dos_exit_halts_machine_witness:
  "\<exists>t r. DosExit 0 (\<lambda>_. []) 7 (blank_regs, sample_system) = Some (Halts (r, t)) \<and> kern t = kern sample_system"
  using dos_exit_halts_machine [OF sample_system_ok, of 0 "\<lambda>_. []" 7 blank_regs] by blast

text \<open>Every system call number other than 1 and 2 returns and leaves the kernel's own state alone; the result
  is the constant 1 for the process number, whichever process asks, and -1 for all others.\<close>

theorem syscall_results:
  assumes "console_ok s" and "r_eax regs \<notin> {1, 2}"
  shows "\<exists>t. syscall_handler (regs, s) = Some (Returns (regs\<lparr>r_eax := (if r_eax regs = 6 then 1 else - 1)\<rparr>, t)) \<and>
     console_ok t \<and> kern t = kern s"
proof -
  have p: "\<exists>t. printf fmt args s = Some t \<and> console_ok t \<and> kern t = kern s" if "accepts fmt args" for fmt args
  proof -
    from displays_printf [OF that] assms(1) obtain t
      where t: "printf fmt args s = Some t" "console_ok t" "vga.more t = vga.more s" by (rule displaysD)
    then show ?thesis using more_devices(1) [OF t(3)] by blast
  qed
  have "accepts (''[Syscall] FORK called (not implemented)'' @ nl) []" "accepts (''[Syscall] EXEC called (not implemented)'' @ nl) []"
    "accepts (''[Syscall] Unknown syscall %d'' @ nl) [Word (r_eax regs)]" by (simp_all add: nl_def)
  note m = p [OF this(1)] p [OF this(2)] p [OF this(3)]
  note n = SYSCALL_EXIT_def SYSCALL_WRITE_def SYSCALL_READ_def SYSCALL_FORK_def SYSCALL_EXEC_def SYSCALL_GETPID_def
  consider "r_eax regs \<in> {3, 6}" | "r_eax regs = 4" | "r_eax regs = 5" | "r_eax regs \<notin> {1, 2, 3, 4, 5, 6}"
    using assms(2) by auto
  then show ?thesis
  proof cases
    case 1
    then show ?thesis using assms(1) by (auto simp: syscall_handler_def n)
  next
    case 2
    obtain t where "printf (''[Syscall] FORK called (not implemented)'' @ nl) [] s = Some t" "console_ok t" "kern t = kern s"
      using m(1) by blast
    then show ?thesis using 2 by (simp add: syscall_handler_def n)
  next
    case 3
    obtain t where "printf (''[Syscall] EXEC called (not implemented)'' @ nl) [] s = Some t" "console_ok t" "kern t = kern s"
      using m(2) by blast
    then show ?thesis using 3 by (simp add: syscall_handler_def n)
  next
    case 4
    obtain t where "printf (''[Syscall] Unknown syscall %d'' @ nl) [Word (r_eax regs)] s = Some t" "console_ok t" "kern t = kern s"
      using m(3) by blast
    then show ?thesis using 4 by (simp add: syscall_handler_def n)
  qed
qed

theorem syscall_results_witness:
  "\<exists>t. syscall_handler (blank_regs\<lparr>r_eax := 6\<rparr>, sample_system) = Some (Returns (blank_regs\<lparr>r_eax := 1\<rparr>, t))"
  using syscall_results [OF sample_system_ok(1), of "blank_regs\<lparr>r_eax := 6\<rparr>"] by auto

text \<open>Every hardware interrupt is acknowledged before its handler runs: the master controller always and the
  slave exactly for the lines it serves; a timer interrupt then counts one tick.\<close>

theorem irq_acknowledged:
  assumes "32 \<le> r_int_no regs" and "r_int_no regs < 48"
  shows "let n = unat (r_int_no regs);
       s' = s\<lparr>port_writes := (0x20, 0x20) # (if 40 \<le> n then (0xA0, 0x20) # port_writes s else port_writes s)\<rparr>
     in irq_handler (call_handler cr2 junk) (regs, s) =
          (case interrupt_handlers s ! n of None \<Rightarrow> Some (Returns (regs, s')) | Some h \<Rightarrow> call_handler cr2 junk h (regs, s')) \<and>
        (interrupt_handlers s ! n = Some Timer_callback \<longrightarrow>
           (\<exists>t. irq_handler (call_handler cr2 junk) (regs, s) = Some (Returns (regs, t)) \<and> tick_count t = tick_count s + 1))"
proof -
  have "r_int_no regs < 256" using assms(2) by (simp add: word_less_nat_alt)
  moreover have "40 \<le> r_int_no regs \<longleftrightarrow> 40 \<le> unat (r_int_no regs)" by (simp add: word_le_nat_alt)
  ultimately show ?thesis
    by (auto simp: irq_handler_def Let_def outb_def timer_callback_def not_le split: option.splits)
qed

theorem irq_acknowledged_witness:
  "\<exists>t. irq_handler (call_handler 0 (\<lambda>_. [])) (blank_regs\<lparr>r_int_no := 32\<rparr>,
     sample_system\<lparr>interrupt_handlers := replicate 256 (Some Timer_callback)\<rparr>) = Some (Returns (blank_regs\<lparr>r_int_no := 32\<rparr>, t)) \<and>
     tick_count t = tick_count sample_system + 1"
  using irq_acknowledged [of "blank_regs\<lparr>r_int_no := 32\<rparr>"
    "sample_system\<lparr>interrupt_handlers := replicate 256 (Some Timer_callback)\<rparr>" 0 "\<lambda>_. []"]
  by (auto simp: Let_def)

end
