(* ===== verification/Graphics.thy ===== *)
theory Graphics
  imports Devices
begin

text \<open>
  The framebuffer drawing of \<open>simpleos-main/simpleos/graphics.c\<close> (VGA mode 13h, 320 by 200 bytes). The
  framebuffer is a list; a store outside it is the value \<open>None\<close>, and so is an \<open>int\<close> operation of
  \<open>draw_line\<close> whose result leaves the 32 bits of the type, which C leaves undefined.
\<close>

section \<open>Operations\<close>

definition GFX_WIDTH :: int where "GFX_WIDTH = 320"
definition GFX_HEIGHT :: int where "GFX_HEIGHT = 200"

record graphics = devices +
  framebuffer :: "u8 list"
  graphics_enabled :: bool

definition crtc_regs :: "u8 list" where
  "crtc_regs =
     [0x5F, 0x4F, 0x50, 0x82, 0x54, 0x80, 0xBF, 0x1F,
      0x00, 0x41, 0x00, 0x00, 0x00, 0x00, 0x00, 0x00,
      0x9C, 0x0E, 0x8F, 0x28, 0x40, 0x96, 0xB9, 0xA3,
      0xFF]"

definition gc_regs :: "u8 list" where
  "gc_regs = [0x00, 0x00, 0x00, 0x00, 0x00, 0x40, 0x05, 0x0F, 0xFF]"

definition ac_regs :: "u8 list" where
  "ac_regs =
     [0x00, 0x01, 0x02, 0x03, 0x04, 0x05, 0x06, 0x07,
      0x08, 0x09, 0x0A, 0x0B, 0x0C, 0x0D, 0x0E, 0x0F,
      0x41, 0x00, 0x0F, 0x00, 0x00]"

text \<open>Index and value to a register pair of ports.\<close>

definition set_reg :: "u16 \<Rightarrow> u16 \<Rightarrow> u8 \<Rightarrow> u8 \<Rightarrow> 's hw_scheme \<Rightarrow> 's hw_scheme" where
  "set_reg index_port data_port i v s = outb data_port v (outb index_port i s)"

definition graphics_set_mode_13h :: "'s graphics_scheme \<Rightarrow> 's graphics_scheme" where
  "graphics_set_mode_13h s0 =
     (let s1 = outb 0x3C2 0x63 s0;
          s2 = set_reg 0x3C4 0x3C5 4 0x0E (set_reg 0x3C4 0x3C5 3 0x00 (set_reg 0x3C4 0x3C5 2 0x0F
                 (set_reg 0x3C4 0x3C5 1 0x01 (set_reg 0x3C4 0x3C5 0 0x03 s1))));
          (v, s3) = inb 0x3D5 (outb 0x3D4 0x11 s2);
          s4 = outb 0x3D5 (v AND 0x7F) s3;
          s5 = fold (\<lambda>i. set_reg 0x3D4 0x3D5 (of_nat i) (crtc_regs ! i)) [0..<25] s4;
          s6 = fold (\<lambda>i. set_reg 0x3CE 0x3CF (of_nat i) (gc_regs ! i)) [0..<9] s5;
          (_, s7) = inb 0x3DA s6;
          s8 = fold (\<lambda>i. set_reg 0x3C0 0x3C0 (of_nat i) (ac_regs ! i)) [0..<21] s7;
          s9 = outb 0x3C0 0x20 s8
      in s9\<lparr>graphics_enabled := True\<rparr>)"

definition graphics_set_text_mode :: "'s graphics_scheme \<Rightarrow> 's graphics_scheme" where
  "graphics_set_text_mode s = s\<lparr>graphics_enabled := False\<rparr>"

definition graphics_init :: "'s graphics_scheme \<Rightarrow> 's graphics_scheme option" where
  "graphics_init s = printf (''[Graphics] Text mode active (VGA available)'' @ nl) [] s"

definition fb_store :: "int \<Rightarrow> u8 \<Rightarrow> 's graphics_scheme \<Rightarrow> 's graphics_scheme option" where
  "fb_store i v s =
     (if 0 \<le> i \<and> i < int (length (framebuffer s)) then Some (s\<lparr>framebuffer := (framebuffer s)[nat i := v]\<rparr>) else None)"

definition put_pixel :: "u16 \<Rightarrow> u16 \<Rightarrow> u8 \<Rightarrow> 's graphics_scheme \<Rightarrow> 's graphics_scheme option" where
  "put_pixel x y color s =
     (if \<not> graphics_enabled s then Some s
      else if uint x < GFX_WIDTH \<and> uint y < GFX_HEIGHT then fb_store (uint y * GFX_WIDTH + uint x) color s
      else Some s)"

text \<open>The two conditions of each loop are one upper bound; \<open>y + h\<close> is computed in \<open>int\<close> and does not wrap.\<close>

definition draw_rect :: "u16 \<Rightarrow> u16 \<Rightarrow> u16 \<Rightarrow> u16 \<Rightarrow> u8 \<Rightarrow> 's graphics_scheme \<Rightarrow> 's graphics_scheme option" where
  "draw_rect x y w h color s =
     (if \<not> graphics_enabled s then Some s
      else for_int (uint y) (min (uint y + uint h) GFX_HEIGHT)
        (\<lambda>cy. for_int (uint x) (min (uint x + uint w) GFX_WIDTH) (\<lambda>cx. fb_store (cy * GFX_WIDTH + cx) color)) s)"

definition graphics_clear :: "u8 \<Rightarrow> 's graphics_scheme \<Rightarrow> 's graphics_scheme option" where
  "graphics_clear color s =
     (if \<not> graphics_enabled s then Some s
      else for_int 0 (GFX_WIDTH * GFX_HEIGHT) (\<lambda>i. fb_store i color) s)"

text \<open>The result of an \<open>int\<close> operation.\<close>

definition c_int :: "int \<Rightarrow> int option" where
  "c_int i = (if - (2 ^ 31) \<le> i \<and> i < 2 ^ 31 then Some i else None)"

partial_function (option) line_loop ::
  "int \<Rightarrow> int \<Rightarrow> int \<Rightarrow> int \<Rightarrow> int \<Rightarrow> int \<Rightarrow> u8 \<Rightarrow> int \<Rightarrow> int \<Rightarrow> int \<Rightarrow> 's graphics_scheme \<Rightarrow> 's graphics_scheme option" where
  "line_loop x1 y1 dx dy sx sy color err x0 y0 s = do {
     t \<leftarrow> put_pixel (of_int x0) (of_int y0) color s;
     if x0 = x1 \<and> y0 = y1 then Some t
     else do {
       e2 \<leftarrow> c_int (2 * err);
       neg \<leftarrow> c_int (- dy);
       err' \<leftarrow> (if e2 > neg then c_int (err - dy) else Some err);
       x0' \<leftarrow> (if e2 > neg then c_int (x0 + sx) else Some x0);
       err'' \<leftarrow> (if e2 < dx then c_int (err' + dx) else Some err');
       y0' \<leftarrow> (if e2 < dx then c_int (y0 + sy) else Some y0);
       line_loop x1 y1 dx dy sx sy color err'' x0' y0' t
     }
   }"

definition draw_line :: "int \<Rightarrow> int \<Rightarrow> int \<Rightarrow> int \<Rightarrow> u8 \<Rightarrow> 's graphics_scheme \<Rightarrow> 's graphics_scheme option" where
  "draw_line x0 y0 x1 y1 color s =
     (if \<not> graphics_enabled s then Some s
      else do {
        dx \<leftarrow> c_int (x1 - x0);
        dy \<leftarrow> c_int (y1 - y0);
        let sx = (if dx > 0 then 1 else -1); sy = (if dy > 0 then 1 else -1)
        in do {
          dx' \<leftarrow> (if dx < 0 then c_int (- dx) else Some dx);
          dy' \<leftarrow> (if dy < 0 then c_int (- dy) else Some dy);
          err \<leftarrow> c_int (dx' - dy');
          line_loop x1 y1 dx' dy' sx sy color err x0 y0 s
        }
      })"

definition graphics_is_enabled :: "'s graphics_scheme \<Rightarrow> bool" where
  "graphics_is_enabled s = graphics_enabled s"

section \<open>Pixels\<close>

lemma screen_dims [word_norm]: "GFX_WIDTH = 320" "GFX_HEIGHT = 200"
  by (simp_all add: GFX_WIDTH_def GFX_HEIGHT_def)

definition pixel :: "'s graphics_scheme \<Rightarrow> int \<Rightarrow> int \<Rightarrow> u8" where
  "pixel s x y = framebuffer s ! nat (320 * y + x)"

definition on_screen :: "int \<Rightarrow> int \<Rightarrow> bool" where
  "on_screen x y \<longleftrightarrow> 0 \<le> x \<and> x < 320 \<and> 0 \<le> y \<and> y < 200"

definition gfx_inv :: "'s graphics_scheme \<Rightarrow> bool" where
  "gfx_inv s \<longleftrightarrow> length (framebuffer s) = 64000"

lemma same_cell:
  assumes "on_screen x y" and "on_screen a b"
  shows "nat (320 * y + x) = nat (320 * b + a) \<longleftrightarrow> x = a \<and> y = b"
proof
  assume "nat (320 * y + x) = nat (320 * b + a)"
  moreover have "0 \<le> 320 * y + x" "0 \<le> 320 * b + a" using assms by (auto simp: on_screen_def)
  ultimately have e: "320 * y + x = 320 * b + a" by (simp only: eq_nat_nat_iff)
  have "(320 * y + x) div 320 = y" "(320 * b + a) div 320 = b" using assms by (auto simp: on_screen_def)
  then have "y = b" using e by simp
  then show "x = a \<and> y = b" using e by simp
qed simp

text \<open>A store at a point of the screen.\<close>

lemma fb_store_on_screen:
  assumes "gfx_inv s" and "on_screen x y"
  shows "\<exists>t. fb_store (y * 320 + x) c s = Some t \<and> gfx_inv t \<and> graphics_enabled t = graphics_enabled s \<and>
    (\<forall>a b. on_screen a b \<longrightarrow> pixel t a b = (if a = x \<and> b = y then c else pixel s a b))"
proof -
  have b: "0 \<le> y * 320 + x" "y * 320 + x < 64000" using assms(2) by (auto simp: on_screen_def)
  have "nat (y * 320 + x) = nat (320 * y + x)" by (simp add: mult.commute)
  then show ?thesis using assms b same_cell [OF assms(2)]
    by (auto simp: fb_store_def gfx_inv_def pixel_def nth_list_update)
qed

lemma put_pixel_spec:
  assumes "gfx_inv s" and "graphics_enabled s"
  shows "\<exists>t. put_pixel x y c s = Some t \<and> gfx_inv t \<and> graphics_enabled t \<and>
    (\<forall>a b. on_screen a b \<longrightarrow> pixel t a b = (if a = uint x \<and> b = uint y then c else pixel s a b))"
proof (cases "uint x < 320 \<and> uint y < 200")
  case True
  then have "on_screen (uint x) (uint y)" by (simp add: on_screen_def)
  from fb_store_on_screen [OF assms(1) this] show ?thesis using True assms(2) by (auto simp: put_pixel_def screen_dims)
next
  case False
  then have "\<not> on_screen (uint x) (uint y)" by (simp add: on_screen_def)
  then show ?thesis using False assms by (auto simp: put_pixel_def screen_dims)
qed

text \<open>The line algorithm after \<open>a\<close> steps in x and \<open>b\<close> in y: the error term, and no step past the end.\<close>

definition line_err :: "int \<Rightarrow> int \<Rightarrow> int \<Rightarrow> int \<Rightarrow> int" where
  "line_err dx dy a b = (b + 1) * dx - (a + 1) * dy"

lemma line_no_overshoot:
  assumes "0 \<le> a" "a \<le> dx" "0 \<le> b" "b \<le> dy" and "\<not> (a = dx \<and> b = dy)"
  shows "2 * line_err dx dy a b > - dy \<Longrightarrow> a < dx"
    and "2 * line_err dx dy a b < dx \<Longrightarrow> b < dy"
    and "2 * line_err dx dy a b > - dy \<or> 2 * line_err dx dy a b < dx"
proof -
  show "a < dx" if e: "2 * line_err dx dy a b > - dy"
  proof (rule ccontr)
    assume "\<not> a < dx"
    then have a: "a = dx" using assms by simp
    then have "b + 1 \<le> dy" using assms by auto
    then have "(b + 1) * dx \<le> dy * dx" using assms by (intro mult_right_mono) auto
    then have "line_err dx dy a b \<le> - dy" by (simp add: line_err_def a algebra_simps)
    then show False using e assms \<open>b + 1 \<le> dy\<close> by linarith
  qed
  show "b < dy" if e: "2 * line_err dx dy a b < dx"
  proof (rule ccontr)
    assume "\<not> b < dy"
    then have b: "b = dy" using assms by simp
    then have "a + 1 \<le> dx" using assms by auto
    then have "(a + 1) * dy \<le> dx * dy" using assms by (intro mult_right_mono) auto
    then have "dx \<le> line_err dx dy a b" by (simp add: line_err_def b algebra_simps)
    then show False using e assms \<open>a + 1 \<le> dx\<close> by linarith
  qed
  show "2 * line_err dx dy a b > - dy \<or> 2 * line_err dx dy a b < dx"
    using assms by linarith
qed

text \<open>The range of the error term: with both distances at most \<open>(2 ^ 31 - 2) / 3\<close> no operation of the
  loop leaves the type.\<close>

definition err_ok :: "int \<Rightarrow> int \<Rightarrow> int \<Rightarrow> bool" where
  "err_ok dx dy e \<longleftrightarrow> - 3 * dy \<le> 2 * e \<and> 2 * e \<le> 3 * dx"

lemma c_int_ok [simp]: "- 2147483648 \<le> i \<Longrightarrow> i < 2147483648 \<Longrightarrow> c_int i = Some i"
  by (simp add: c_int_def)

lemma line_step_ints:
  assumes "err_ok dx dy e" and "0 \<le> dx" "dx \<le> 715827882" "0 \<le> dy" "dy \<le> 715827882"
  shows "c_int (2 * e) = Some (2 * e)" and "c_int (- dy) = Some (- dy)"
    and "2 * e > - dy \<Longrightarrow> c_int (e - dy) = Some (e - dy)"
    and "2 * e < dx \<Longrightarrow> c_int ((if 2 * e > - dy then e - dy else e) + dx) =
      Some ((if 2 * e > - dy then e - dy else e) + dx)"
    and "err_ok dx dy (if 2 * e < dx then (if 2 * e > - dy then e - dy else e) + dx
      else (if 2 * e > - dy then e - dy else e))"
  using assms by (auto simp: err_ok_def c_int_def)

lemma line_loop_ends:
  assumes "gfx_inv s" and "graphics_enabled s"
    and dirs: "sx \<in> {1, -1}" "sy \<in> {1, -1}"
    and ab: "0 \<le> a" "a \<le> dx" "0 \<le> b" "b \<le> dy"
    and x: "x0 = x1 - sx * (dx - a)" and y: "y0 = y1 - sy * (dy - b)"
    and e: "err_ok dx dy (line_err dx dy a b)" "dx \<le> 715827882" "dy \<le> 715827882"
    and r: "c_int x1 \<noteq> None" "c_int y1 \<noteq> None" "c_int (x1 - sx * dx) \<noteq> None" "c_int (y1 - sy * dy) \<noteq> None"
  shows "\<exists>t. line_loop x1 y1 dx dy sx sy c (line_err dx dy a b) x0 y0 s = Some t \<and> gfx_inv t \<and> graphics_enabled t \<and>
    (on_screen x1 y1 \<longrightarrow> pixel t x1 y1 = c) \<and>
    (\<forall>p q. on_screen p q \<longrightarrow> pixel t p q = c \<or> pixel t p q = pixel s p q)"
  using assms
proof (induction "nat ((dx - a) + (dy - b))" arbitrary: a b x0 y0 s rule: less_induct)
  case less
  note ab = less.prems(5-8)
  obtain t where t: "put_pixel (of_int x0) (of_int y0) c s = Some t" "gfx_inv t" "graphics_enabled t"
    "\<forall>p q. on_screen p q \<longrightarrow> pixel t p q = (if p = uint (of_int x0 :: u16) \<and> q = uint (of_int y0 :: u16) then c else pixel s p q)"
    using put_pixel_spec [OF less.prems(1,2)] by metis
  have at_end: "x0 = x1 \<and> y0 = y1 \<longleftrightarrow> a = dx \<and> b = dy"
    using less.prems(3,4,9,10) by auto
  show ?case
  proof (cases "a = dx \<and> b = dy")
    case True
    have w: "uint (of_int x1 :: u16) = x1" "uint (of_int y1 :: u16) = y1" if "on_screen x1 y1"
      using that by (simp_all add: on_screen_def unsigned_of_int take_bit_int_eq_self)
    have "line_loop x1 y1 dx dy sx sy c (line_err dx dy a b) x0 y0 s = Some t"
      using True at_end t(1) by (subst line_loop.simps) simp
    then show ?thesis using t(2-4) w True at_end by auto
  next
    case False
    note N = line_no_overshoot [OF ab False]
    define e where "e = line_err dx dy a b"
    define a' where "a' = (if 2 * e > - dy then a + 1 else a)"
    define b' where "b' = (if 2 * e < dx then b + 1 else b)"
    define x0' where "x0' = (if 2 * e > - dy then x0 + sx else x0)"
    define y0' where "y0' = (if 2 * e < dx then y0 + sy else y0)"
    have bounds: "0 \<le> a'" "a' \<le> dx" "0 \<le> b'" "b' \<le> dy" "(dx - a') + (dy - b') < (dx - a) + (dy - b)"
      using ab N by (auto simp: a'_def b'_def e_def)
    have lt: "nat ((dx - a') + (dy - b')) < nat ((dx - a) + (dy - b))" using bounds by simp
    have xy: "x0' = x1 - sx * (dx - a')" "y0' = y1 - sy * (dy - b')"
      using less.prems(9,10) by (auto simp: x0'_def y0'_def a'_def b'_def algebra_simps)
    have err: "(if 2 * e < dx then (if 2 * e > - dy then e - dy else e) + dx else (if 2 * e > - dy then e - dy else e)) =
        line_err dx dy a' b'"
      by (auto simp: e_def a'_def b'_def line_err_def algebra_simps)
    have "0 \<le> dx" "0 \<le> dy" using ab by auto
    note I = line_step_ints [OF less.prems(11) [folded e_def] this(1) less.prems(12) this(2) less.prems(13)]
    have ok': "err_ok dx dy (line_err dx dy a' b')" using I(5) unfolding err .
    have cx: "c_int x0' = Some x0'" "c_int y0' = Some y0'"
      using xy bounds(1-4) less.prems(3,4,14-17) by (auto simp: c_int_def split: if_splits)
    have "line_loop x1 y1 dx dy sx sy c e x0 y0 s = line_loop x1 y1 dx dy sx sy c (line_err dx dy a' b') x0' y0' t"
    proof -
      have "(if 2 * e > - dy then c_int (e - dy) else Some e) = Some (if 2 * e > - dy then e - dy else e)"
        "(if 2 * e > - dy then c_int (x0 + sx) else Some x0) = Some x0'"
        "(if 2 * e < dx then c_int (y0 + sy) else Some y0) = Some y0'"
        using I(3) cx by (auto simp: x0'_def y0'_def)
      moreover have "(if 2 * e < dx then c_int ((if 2 * e > - dy then e - dy else e) + dx)
          else Some (if 2 * e > - dy then e - dy else e)) = Some (line_err dx dy a' b')"
        using I(4) unfolding err [symmetric] by simp
      moreover have "(x0 = x1 \<and> y0 = y1) = False" using False at_end by blast
      ultimately show ?thesis
        using t(1) I(1,2) by (subst line_loop.simps) (simp only: option.simps bind.bind_lunit if_False)
    qed
    moreover obtain u where "line_loop x1 y1 dx dy sx sy c (line_err dx dy a' b') x0' y0' t = Some u" "gfx_inv u"
      "graphics_enabled u" "on_screen x1 y1 \<longrightarrow> pixel u x1 y1 = c"
      "\<forall>p q. on_screen p q \<longrightarrow> pixel u p q = c \<or> pixel u p q = pixel t p q"
      using less.hyps [OF lt t(2,3) less.prems(3,4) bounds(1-4) xy ok' less.prems(12-17)] by blast
    ultimately show ?thesis using t(4) unfolding e_def by metis
  qed
qed

text \<open>A loop that stores one colour at the cells its index runs over.\<close>

lemma row_loop:
  assumes "gfx_inv s" and "0 \<le> x" "n \<le> 320" "x \<le> n" and "0 \<le> y" "y < 200"
  shows "\<exists>t. for_int x n (\<lambda>cx. fb_store (y * 320 + cx) c) s = Some t \<and> gfx_inv t \<and> graphics_enabled t = graphics_enabled s \<and>
    (\<forall>a b. on_screen a b \<longrightarrow> pixel t a b = (if b = y \<and> x \<le> a \<and> a < n then c else pixel s a b))"
proof -
  let ?P = "\<lambda>i t. gfx_inv t \<and> graphics_enabled t = graphics_enabled s \<and>
    (\<forall>a b. on_screen a b \<longrightarrow> pixel t a b = (if b = y \<and> x \<le> a \<and> a < i then c else pixel s a b))"
  show ?thesis
  proof (rule for_int_rule [where P = ?P])
    show "?P x s" using assms(1) by auto
    show "x \<le> n" by (rule assms(4))
    fix i t assume i: "x \<le> i" "i < n" and P: "?P i t"
    have "on_screen i y" using i assms by (simp add: on_screen_def)
    from fb_store_on_screen [OF _ this, of t c] P obtain u where u: "fb_store (y * 320 + i) c t = Some u" "gfx_inv u"
      "graphics_enabled u = graphics_enabled t"
      "\<forall>a b. on_screen a b \<longrightarrow> pixel u a b = (if a = i \<and> b = y then c else pixel t a b)" by blast
    then show "\<exists>u. fb_store (y * 320 + i) c t = Some u \<and> ?P (i + 1) u" using P i by auto
  qed
qed

lemma rect_loop:
  assumes "gfx_inv s" and "0 \<le> x" "n \<le> 320" "x \<le> n" and "0 \<le> y" "m \<le> 200" "y \<le> m"
  shows "\<exists>t. for_int y m (\<lambda>cy. for_int x n (\<lambda>cx. fb_store (cy * 320 + cx) c)) s = Some t \<and> gfx_inv t \<and>
    (\<forall>a b. on_screen a b \<longrightarrow> pixel t a b = (if y \<le> b \<and> b < m \<and> x \<le> a \<and> a < n then c else pixel s a b))"
proof -
  let ?P = "\<lambda>i t. gfx_inv t \<and>
    (\<forall>a b. on_screen a b \<longrightarrow> pixel t a b = (if y \<le> b \<and> b < i \<and> x \<le> a \<and> a < n then c else pixel s a b))"
  show ?thesis
  proof (rule for_int_rule [where P = ?P])
    show "?P y s" using assms(1) by auto
    show "y \<le> m" by (rule assms(7))
    fix i t assume i: "y \<le> i" "i < m" and P: "?P i t"
    have "0 \<le> i" "i < 200" using i assms by auto
    from row_loop [OF _ assms(2-4) this, of t c] P obtain u where u: "for_int x n (\<lambda>cx. fb_store (i * 320 + cx) c) t = Some u"
      "gfx_inv u" "\<forall>a b. on_screen a b \<longrightarrow> pixel u a b = (if b = i \<and> x \<le> a \<and> a < n then c else pixel t a b)" by blast
    then show "\<exists>u. for_int x n (\<lambda>cx. fb_store (i * 320 + cx) c) t = Some u \<and> ?P (i + 1) u" using P i by auto
  qed
qed

section \<open>Properties\<close>

definition blank_graphics :: graphics where
  "blank_graphics = devices.extend blank_devices \<lparr>framebuffer = replicate 64000 0, graphics_enabled = True\<rparr>"

lemma blank_graphics_inv: "gfx_inv blank_graphics" "graphics_enabled blank_graphics"
  by (simp_all add: gfx_inv_def blank_graphics_def devices.defs)

lemma blank_pixel: "on_screen x y \<Longrightarrow> pixel blank_graphics x y = 0"
proof -
  assume "on_screen x y"
  then have "nat (320 * y + x) < 64000" by (auto simp: on_screen_def)
  then show "pixel blank_graphics x y = 0" by (simp add: pixel_def blank_graphics_def devices.defs)
qed

text \<open>C18: Between any two points of \<open>int\<close> coordinates whose distance in each direction is at most 715827882,
  \<open>draw_line\<close> ends without an \<open>int\<close> overflow, writes inside the framebuffer only, colours the last
  point when it is on the screen, and gives every other pixel the line's colour or leaves it.\<close>

theorem draw_line_terminates:
  assumes "gfx_inv s" and "graphics_enabled s"
    and "c_int x0 \<noteq> None" "c_int y0 \<noteq> None" "c_int x1 \<noteq> None" "c_int y1 \<noteq> None"
    and "\<bar>x1 - x0\<bar> \<le> 715827882" "\<bar>y1 - y0\<bar> \<le> 715827882"
  shows "\<exists>t. draw_line x0 y0 x1 y1 c s = Some t \<and> gfx_inv t \<and> (on_screen x1 y1 \<longrightarrow> pixel t x1 y1 = c) \<and>
    (\<forall>p q. on_screen p q \<longrightarrow> pixel t p q = c \<or> pixel t p q = pixel s p q)"
proof -
  let ?dx = "\<bar>x1 - x0\<bar>" and ?dy = "\<bar>y1 - y0\<bar>"
  let ?sx = "if x1 - x0 > 0 then 1 else - 1 :: int" and ?sy = "if y1 - y0 > 0 then 1 else - 1 :: int"
  have "draw_line x0 y0 x1 y1 c s = line_loop x1 y1 ?dx ?dy ?sx ?sy c (line_err ?dx ?dy 0 0) x0 y0 s"
    using assms(2,7,8) by (auto simp: draw_line_def Let_def line_err_def abs_if c_int_def)
  moreover have "err_ok ?dx ?dy (line_err ?dx ?dy 0 0)"
  proof -
    have "err_ok d e (line_err d e 0 0)" if "0 \<le> d" "0 \<le> e" for d e
      using that by (simp add: err_ok_def line_err_def)
    then show ?thesis by simp
  qed
  moreover have "\<exists>t. line_loop x1 y1 ?dx ?dy ?sx ?sy c (line_err ?dx ?dy 0 0) x0 y0 s = Some t \<and> gfx_inv t \<and> graphics_enabled t \<and>
      (on_screen x1 y1 \<longrightarrow> pixel t x1 y1 = c) \<and> (\<forall>p q. on_screen p q \<longrightarrow> pixel t p q = c \<or> pixel t p q = pixel s p q)"
    using calculation(2) by (intro line_loop_ends [OF assms(1,2)]) (use assms(3-8) in auto)
  ultimately show ?thesis by auto
qed

theorem draw_line_terminates_witness: "\<exists>t. draw_line 10 10 20 (- 5) 7 blank_graphics = Some t \<and> gfx_inv t"
  using draw_line_terminates [OF blank_graphics_inv, of 10 10 20 "- 5" 7] by (auto simp: c_int_def)

text \<open>The bound matters: a horizontal line of \<open>2 ^ 30\<close> pixels overflows in its first step.\<close>

lemma long_line_overflows:
  assumes "gfx_inv s" and "graphics_enabled s"
  shows "draw_line 0 y 0x40000000 y c s = None"
proof -
  obtain t where "put_pixel (of_int 0) (of_int y) c s = Some t" using put_pixel_spec [OF assms] by metis
  then have "line_loop 0x40000000 y 0x40000000 0 1 (- 1) c 0x40000000 0 y s = None"
    by (subst line_loop.simps) (simp add: c_int_def)
  then show ?thesis using assms(2) by (simp add: draw_line_def Let_def c_int_def)
qed

text \<open>\<open>draw_rect\<close> colours exactly the pixels of the rectangle that lie on the screen, for every position and
  size, also where the far corner is beyond the 16-bit range.\<close>

theorem draw_rect_pixels:
  assumes "gfx_inv s" and "graphics_enabled s"
  shows "\<exists>t. draw_rect x y w h c s = Some t \<and> gfx_inv t \<and>
    (\<forall>a b. on_screen a b \<longrightarrow> pixel t a b =
       (if uint x \<le> a \<and> a < uint x + uint w \<and> uint y \<le> b \<and> b < uint y + uint h then c else pixel s a b))"
proof -
  let ?n = "min (uint x + uint w) 320" and ?m = "min (uint y + uint h) 200"
  have d: "draw_rect x y w h c s = for_int (uint y) ?m (\<lambda>cy. for_int (uint x) ?n (\<lambda>cx. fb_store (cy * 320 + cx) c)) s"
    using assms(2) by (simp add: draw_rect_def screen_dims)
  show ?thesis
  proof (cases "uint x \<le> ?n \<and> uint y \<le> ?m")
    case True
    have "\<exists>t. for_int (uint y) ?m (\<lambda>cy. for_int (uint x) ?n (\<lambda>cx. fb_store (cy * 320 + cx) c)) s = Some t \<and> gfx_inv t \<and>
      (\<forall>a b. on_screen a b \<longrightarrow> pixel t a b = (if uint y \<le> b \<and> b < ?m \<and> uint x \<le> a \<and> a < ?n then c else pixel s a b))"
      by (rule rect_loop) (use True assms(1) in auto)
    then obtain t where "draw_rect x y w h c s = Some t" "gfx_inv t"
      "\<forall>a b. on_screen a b \<longrightarrow> pixel t a b = (if uint y \<le> b \<and> b < ?m \<and> uint x \<le> a \<and> a < ?n then c else pixel s a b)"
      using d by auto
    then show ?thesis by (intro exI [of _ t]) (auto simp: on_screen_def)
  next
    case False
    have inner: "for_int (uint x) ?n (\<lambda>cx. fb_store (cy * 320 + cx) c) t = Some t" if "\<not> uint x < ?n" for cy t
      by (subst for_int.simps) (rule if_not_P [OF that])
    have "draw_rect x y w h c s = Some s"
    proof (cases "uint y \<le> ?m")
      case True
      have nx: "\<not> uint x < ?n" using True False by auto
      have "\<exists>t. for_int (uint y) ?m (\<lambda>cy. for_int (uint x) ?n (\<lambda>cx. fb_store (cy * 320 + cx) c)) s = Some t \<and> t = s"
        by (rule for_int_rule [where P = "\<lambda>_ t. t = s"]) (use True inner [OF nx] in blast)+
      then show ?thesis by (simp add: d)
    qed (simp add: d for_int.simps)
    then show ?thesis using False assms(1) unsigned_greater_eq [of w, where ?'a = int] unsigned_greater_eq [of h, where ?'a = int]
      by (auto simp: on_screen_def)
  qed
qed

theorem draw_rect_pixels_witness:
  "\<exists>t. draw_rect 300 190 0xFFF0 20 9 blank_graphics = Some t \<and> pixel t 319 199 = 9 \<and> pixel t 299 199 = 0"
proof -
  obtain t where t: "draw_rect 300 190 0xFFF0 20 9 blank_graphics = Some t"
    "\<forall>a b. on_screen a b \<longrightarrow> pixel t a b =
       (if uint (300 :: u16) \<le> a \<and> a < uint (300 :: u16) + uint (0xFFF0 :: u16) \<and> uint (190 :: u16) \<le> b \<and>
           b < uint (190 :: u16) + uint (20 :: u16) then 9 else pixel blank_graphics a b)"
    using draw_rect_pixels [OF blank_graphics_inv, of 300 190 "0xFFF0" 20 9] by blast
  have "on_screen 319 199" "on_screen 299 199" by (simp_all add: on_screen_def)
  with t(2) have "pixel t 319 199 = 9" "pixel t 299 199 = 0" by (auto simp: blank_pixel)
  then show ?thesis using t(1) by blast
qed

end
