(* ===== verification/Ramfs.thy ===== *)
theory Ramfs
  imports Interfaces
begin

text \<open>
  The RAM file system of \<open>simpleos-main/simpleos/ramfs.c\<close> and \<open>ramfs.h\<close>: 32 slots with a name of
  at most 31 characters and 4096 bytes of data each. C strings are \<open>string\<close> values without
  their terminator; a result \<open>None\<close> is an access outside an object or through the null pointer.
\<close>

section \<open>State and helpers\<close>

definition RAMFS_MAX_FILES :: nat where "RAMFS_MAX_FILES = 32"
definition RAMFS_MAX_FILENAME :: nat where "RAMFS_MAX_FILENAME = 32"
definition RAMFS_MAX_FILESIZE :: u32 where "RAMFS_MAX_FILESIZE = 4096"

record ramfs_file =
  file_name :: string
  file_data :: "u8 list"
  file_size :: u32
  file_used :: bool

type_synonym ramfs = "ramfs_file list"

fun str_equal :: "string \<Rightarrow> string \<Rightarrow> bool" where
  "str_equal (a # as) (b # bs) = (if a \<noteq> b then False else str_equal as bs)"
| "str_equal [] [] = True"
| "str_equal _ _ = False"

text \<open>\<open>max\<close> counts the terminator: at most \<open>max - 1\<close> characters are copied.\<close>

fun str_copy :: "string \<Rightarrow> nat \<Rightarrow> string" where
  "str_copy [] n = []"
| "str_copy (c # cs) n = (if 0 < n - 1 then c # str_copy cs (n - 1) else [])"

text \<open>Copying \<open>n\<close> bytes from \<open>src\<close> to offset \<open>off\<close> of \<open>dest\<close>, byte by byte.\<close>

fun mem_copy :: "u8 list \<Rightarrow> nat \<Rightarrow> u8 list \<Rightarrow> nat \<Rightarrow> u8 list option" where
  "mem_copy dest off src 0 = Some dest"
| "mem_copy dest off [] (Suc n) = None"
| "mem_copy dest off (x # src) (Suc n) =
     (if off < length dest then mem_copy (dest[off := x]) (Suc off) src n else None)"

definition mem_set :: "u8 list \<Rightarrow> u8 \<Rightarrow> nat \<Rightarrow> u8 list" where
  "mem_set dest val n = replicate n val @ drop n dest"

definition find_file :: "ramfs \<Rightarrow> string \<Rightarrow> nat option" where
  "find_file s name =
     find (\<lambda>i. file_used (s ! i) \<and> str_equal (file_name (s ! i)) name) [0..<RAMFS_MAX_FILES]"

definition find_free_slot :: "ramfs \<Rightarrow> nat option" where
  "find_free_slot s = find (\<lambda>i. \<not> file_used (s ! i)) [0..<RAMFS_MAX_FILES]"

section \<open>Operations\<close>

definition ramfs_init :: "ramfs \<Rightarrow> ramfs" where
  "ramfs_init s =
     fold (\<lambda>i s. s[i := (s ! i)\<lparr>file_used := False, file_size := 0, file_name := []\<rparr>])
       [0..<RAMFS_MAX_FILES] s"

definition ramfs_create :: "ramfs \<Rightarrow> string \<Rightarrow> int \<times> ramfs" where
  "ramfs_create s name =
     (if find_file s name \<noteq> None then (-1, s)
      else case find_free_slot s of
             None \<Rightarrow> (-1, s)
           | Some i \<Rightarrow>
               (0, s[i := (s ! i)\<lparr>file_name := str_copy name RAMFS_MAX_FILENAME,
                        file_size := 0, file_used := True,
                        file_data := mem_set (file_data (s ! i)) 0 (unat RAMFS_MAX_FILESIZE)\<rparr>]))"

text \<open>The part of \<open>ramfs_write\<close> after the file is found or created: a missing file is a null
  pointer, which \<open>mem_copy\<close> then dereferences.\<close>

definition write_found :: "ramfs \<Rightarrow> nat option \<Rightarrow> u8 list \<Rightarrow> u32 \<Rightarrow> (int \<times> ramfs) option" where
  "write_found s file data sz =
     (case file of
        None \<Rightarrow> None
      | Some i \<Rightarrow>
          let sz' = (if sz > RAMFS_MAX_FILESIZE then RAMFS_MAX_FILESIZE else sz)
          in case mem_copy (file_data (s ! i)) 0 data (unat sz') of
               None \<Rightarrow> None
             | Some d \<Rightarrow> Some (uint sz', s[i := (s ! i)\<lparr>file_data := d, file_size := sz'\<rparr>]))"

definition ramfs_write :: "ramfs \<Rightarrow> string \<Rightarrow> u8 list \<Rightarrow> u32 \<Rightarrow> (int \<times> ramfs) option" where
  "ramfs_write s name data sz =
     (case find_file s name of
        Some i \<Rightarrow> write_found s (Some i) data sz
      | None \<Rightarrow>
          let (r, s1) = ramfs_create s name
          in if r < 0 then Some (-1, s1)
             else write_found s1 (find_file s1 name) data sz)"

definition ramfs_append :: "ramfs \<Rightarrow> string \<Rightarrow> u8 list \<Rightarrow> u32 \<Rightarrow> (int \<times> ramfs) option" where
  "ramfs_append s name data sz =
     (case find_file s name of
        None \<Rightarrow> Some (-1, s)
      | Some i \<Rightarrow>
          let available = RAMFS_MAX_FILESIZE - file_size (s ! i);
              sz' = (if sz > available then available else sz)
          in if sz' = 0 then Some (0, s)
             else case mem_copy (file_data (s ! i)) (unat (file_size (s ! i))) data (unat sz') of
                    None \<Rightarrow> None
                  | Some d \<Rightarrow>
                      Some (uint sz',
                        s[i := (s ! i)\<lparr>file_data := d, file_size := file_size (s ! i) + sz'\<rparr>]))"

definition ramfs_read :: "ramfs \<Rightarrow> string \<Rightarrow> u8 list \<Rightarrow> u32 \<Rightarrow> (int \<times> u8 list) option" where
  "ramfs_read s name buffer max_size =
     (case find_file s name of
        None \<Rightarrow> Some (-1, buffer)
      | Some i \<Rightarrow>
          let to_read = (if file_size (s ! i) > max_size then max_size else file_size (s ! i))
          in map_option (\<lambda>b. (uint to_read, b))
               (mem_copy buffer 0 (file_data (s ! i)) (unat to_read)))"

definition ramfs_delete :: "ramfs \<Rightarrow> string \<Rightarrow> int \<times> ramfs" where
  "ramfs_delete s name =
     (case find_file s name of
        None \<Rightarrow> (-1, s)
      | Some i \<Rightarrow>
          (0, s[i := (s ! i)\<lparr>file_used := False, file_size := 0, file_name := []\<rparr>]))"

definition ramfs_exists :: "ramfs \<Rightarrow> string \<Rightarrow> bool" where
  "ramfs_exists s name = (find_file s name \<noteq> None)"

definition ramfs_size :: "ramfs \<Rightarrow> string \<Rightarrow> int" where
  "ramfs_size s name =
     (case find_file s name of None \<Rightarrow> -1 | Some i \<Rightarrow> sint (file_size (s ! i)))"

text \<open>The calls \<open>ramfs_list\<close> makes to its callback, in order.\<close>

definition ramfs_list :: "ramfs \<Rightarrow> (string \<times> u32) list" where
  "ramfs_list s =
     concat (map (\<lambda>i. if file_used (s ! i) then [(file_name (s ! i), file_size (s ! i))] else [])
       [0..<RAMFS_MAX_FILES])"

definition ramfs_count :: "ramfs \<Rightarrow> int" where
  "ramfs_count s =
     fold (\<lambda>i count. if file_used (s ! i) then count + 1 else count) [0..<RAMFS_MAX_FILES] 0"

definition ramfs_free_space :: "ramfs \<Rightarrow> u32" where
  "ramfs_free_space s =
     fold (\<lambda>i n. if \<not> file_used (s ! i) then n + 1 else n) [0..<RAMFS_MAX_FILES] 0
       * RAMFS_MAX_FILESIZE"

section \<open>Helper lemmas\<close>

lemma str_equal_eq [simp]: "str_equal a b \<longleftrightarrow> a = b"
  by (induction a b rule: str_equal.induct) auto

lemma str_copy_take: "str_copy cs n = take (n - 1) cs"
proof (induction cs n rule: str_copy.induct)
  case (2 c cs n)
  show ?case
  proof (cases "0 < n - 1")
    case True
    then obtain m where "n = Suc (Suc m)" by (metis Suc_diff_1 Suc_pred gr0_conv_Suc zero_less_diff less_trans zero_less_one)
    then show ?thesis using "2.IH" by simp
  qed simp
qed simp

lemma mem_copy_eq:
  assumes "n \<le> length src" and "off + n \<le> length dest"
  shows "mem_copy dest off src n = Some (take off dest @ take n src @ drop (off + n) dest)"
  using assms
proof (induction dest off src n rule: mem_copy.induct)
  case (3 dest off x src n)
  have "take (Suc off) (dest[off := x]) = take off dest @ [x]"
    using "3.prems" by (simp add: take_Suc_conv_app_nth)
  then show ?case using 3 by (simp add: drop_update_cancel)
qed simp_all

lemma find_upt:
  "find P [0..<n] = Some i \<longleftrightarrow> i < n \<and> P i \<and> (\<forall>j < i. \<not> P j)"
  by (auto simp: find_Some_iff)

lemma find_upt_None: "find P [0..<n] = None \<longleftrightarrow> (\<forall>i < n. \<not> P i)"
  by (auto simp: find_None_iff)

section \<open>The file system as a map\<close>

definition slot_ok :: "ramfs_file \<Rightarrow> bool" where
  "slot_ok f \<longleftrightarrow> length (file_data f) = 4096 \<and> file_size f \<le> 4096 \<and> length (file_name f) < 32"

definition ramfs_inv :: "ramfs \<Rightarrow> bool" where
  "ramfs_inv s \<longleftrightarrow> length s = 32 \<and> (\<forall>i < 32. slot_ok (s ! i)) \<and>
     (\<forall>i < 32. \<forall>j < 32. file_used (s ! i) \<and> file_used (s ! j) \<and> file_name (s ! i) = file_name (s ! j)
        \<longrightarrow> i = j)"

definition contents :: "ramfs_file \<Rightarrow> u8 list" where
  "contents f = take (unat (file_size f)) (file_data f)"

definition ramfs_lookup :: "ramfs \<Rightarrow> string \<Rightarrow> u8 list option" where
  "ramfs_lookup s name = map_option (\<lambda>i. contents (s ! i)) (find_file s name)"

lemma ramfs_invD:
  assumes "ramfs_inv s"
  shows "length s = 32" and "i < 32 \<Longrightarrow> slot_ok (s ! i)"
  using assms by (auto simp: ramfs_inv_def)

lemma find_file_iff:
  assumes "ramfs_inv s"
  shows "find_file s n = Some i \<longleftrightarrow> i < 32 \<and> file_used (s ! i) \<and> file_name (s ! i) = n"
  using assms unfolding ramfs_inv_def
  by (auto simp: find_file_def find_upt RAMFS_MAX_FILES_def) (metis less_trans less_irrefl)

lemma find_file_None:
  "find_file s n = None \<longleftrightarrow> (\<forall>i < 32. file_used (s ! i) \<longrightarrow> file_name (s ! i) \<noteq> n)"
  by (auto simp: find_file_def find_upt_None RAMFS_MAX_FILES_def)

lemma find_free_slot_Some:
  "find_free_slot s = Some i \<Longrightarrow> i < 32 \<and> \<not> file_used (s ! i)"
  by (simp add: find_free_slot_def find_upt RAMFS_MAX_FILES_def)

lemma find_free_slot_None:
  "find_free_slot s = None \<longleftrightarrow> (\<forall>i < 32. file_used (s ! i))"
  by (simp add: find_free_slot_def find_upt_None RAMFS_MAX_FILES_def)

lemma lookup_Some_iff:
  assumes "ramfs_inv s"
  shows "ramfs_lookup s n = Some d \<longleftrightarrow>
           (\<exists>i < 32. file_used (s ! i) \<and> file_name (s ! i) = n \<and> contents (s ! i) = d)"
  using find_file_iff [OF assms] by (auto simp: ramfs_lookup_def)

lemma lookup_None_iff:
  "ramfs_lookup s n = None \<longleftrightarrow> find_file s n = None"
  by (simp add: ramfs_lookup_def)

text \<open>
  Replacing one slot: the invariant stays if the new slot is well formed and its name is used by
  no other slot, and the map changes at the slot's old and new name only.
\<close>

lemma ramfs_inv_update:
  assumes "ramfs_inv s" and "i < 32" and "slot_ok f"
    and "file_used f \<Longrightarrow> \<forall>j < 32. j \<noteq> i \<and> file_used (s ! j) \<longrightarrow> file_name (s ! j) \<noteq> file_name f"
  shows "ramfs_inv (s[i := f])"
  using assms unfolding ramfs_inv_def by (auto simp: nth_list_update)

lemma lookup_update:
  assumes "ramfs_inv s" and "i < 32" and "ramfs_inv (s[i := f])"
  shows "ramfs_lookup (s[i := f]) n =
           (if file_used f \<and> file_name f = n then Some (contents f)
            else if file_used (s ! i) \<and> file_name (s ! i) = n then None else ramfs_lookup s n)"
proof -
  note L = lookup_Some_iff [OF assms(1)] and L' = lookup_Some_iff [OF assms(3)]
  have len: "length s = 32" by (rule ramfs_invD(1) [OF assms(1)])
  have uniq: "j = i" if "j < 32" "file_used (s ! j)" "file_used (s ! i)" "file_name (s ! j) = file_name (s ! i)" for j
    using that assms(1,2) by (auto simp: ramfs_inv_def)
  consider "file_used f \<and> file_name f = n"
    | "\<not> (file_used f \<and> file_name f = n)" "file_used (s ! i) \<and> file_name (s ! i) = n"
    | "\<not> (file_used f \<and> file_name f = n)" "\<not> (file_used (s ! i) \<and> file_name (s ! i) = n)" by blast
  then show ?thesis
  proof cases
    case 1
    then have "ramfs_lookup (s[i := f]) n = Some (contents f)"
      using assms(2) len by (auto simp: L' intro!: exI [of _ i])
    then show ?thesis using 1 by simp
  next
    case 2
    have "ramfs_lookup (s[i := f]) n \<noteq> Some d" for d
    proof
      assume "ramfs_lookup (s[i := f]) n = Some d"
      then obtain j where j: "j < 32" "file_used (s[i := f] ! j)" "file_name (s[i := f] ! j) = n"
        by (auto simp: L')
      then have "j \<noteq> i" using 2(1) len by auto
      then show False using uniq [of j] j 2(2) by auto
    qed
    then show ?thesis using 2 by (cases "ramfs_lookup (s[i := f]) n") auto
  next
    case 3
    have "(j < 32 \<and> file_used (s[i := f] ! j) \<and> file_name (s[i := f] ! j) = n \<and> contents (s[i := f] ! j) = d)
      \<longleftrightarrow> (j < 32 \<and> file_used (s ! j) \<and> file_name (s ! j) = n \<and> contents (s ! j) = d)" for j d
      using 3 len assms(2) by (cases "j = i") auto
    then have "ramfs_lookup (s[i := f]) n = Some d \<longleftrightarrow> ramfs_lookup s n = Some d" for d
      unfolding L L' by metis
    then show ?thesis using 3 by (metis not_None_eq)
  qed
qed

section \<open>Creation and deletion\<close>

lemma slot_fresh:
  assumes "ramfs_inv s" and "i < 32"
  shows "slot_ok ((s ! i)\<lparr>file_name := str_copy n RAMFS_MAX_FILENAME, file_size := 0, file_used := True,
           file_data := mem_set (file_data (s ! i)) 0 (unat RAMFS_MAX_FILESIZE)\<rparr>)"
  using ramfs_invD(2) [OF assms]
  by (simp add: slot_ok_def mem_set_def RAMFS_MAX_FILESIZE_def RAMFS_MAX_FILENAME_def str_copy_take)

lemma ramfs_create_cases:
  assumes "ramfs_inv s" and "length n < 32"
  obtains (failed) "ramfs_create s n = (-1, s)"
      "ramfs_lookup s n \<noteq> None \<or> (\<forall>i < 32. file_used (s ! i))"
  | (created) t where "ramfs_create s n = (0, t)" "ramfs_inv t" "ramfs_lookup s n = None"
      "\<exists>i < 32. \<not> file_used (s ! i)" "ramfs_lookup t = (ramfs_lookup s)(n := Some [])"
proof (cases "find_file s n = None \<and> find_free_slot s \<noteq> None")
  case True
  then obtain i where i: "find_free_slot s = Some i" "i < 32" "\<not> file_used (s ! i)"
    using find_free_slot_Some by blast
  define f where "f = (s ! i)\<lparr>file_name := str_copy n RAMFS_MAX_FILENAME, file_size := 0,
      file_used := True, file_data := mem_set (file_data (s ! i)) 0 (unat RAMFS_MAX_FILESIZE)\<rparr>"
  have f: "file_name f = n" "file_used f" "contents f = []" "slot_ok f"
    using assms(2) slot_fresh [OF assms(1) i(2), of n]
    by (simp_all add: f_def str_copy_take RAMFS_MAX_FILENAME_def contents_def)
  have inv: "ramfs_inv (s[i := f])"
    using True by (intro ramfs_inv_update [OF assms(1) i(2) f(4)]) (auto simp: find_file_None f(1))
  have "ramfs_lookup (s[i := f]) = (ramfs_lookup s)(n := Some [])"
    using i f lookup_update [OF assms(1) i(2) inv] by (simp add: fun_eq_iff)
  moreover have "ramfs_create s n = (0, s[i := f])"
    using True i(1) by (simp add: ramfs_create_def f_def)
  ultimately show thesis
    using True i inv by (intro created) (auto simp: lookup_None_iff)
next
  case False
  then show thesis
    by (intro failed) (auto simp: ramfs_create_def lookup_None_iff find_free_slot_None
        dest: find_free_slot_Some split: option.splits)
qed

lemma ramfs_delete_spec:
  assumes "ramfs_inv s" and "ramfs_delete s n = (r, t)"
  shows "ramfs_inv t" and "ramfs_lookup t = (ramfs_lookup s)(n := None)"
    and "r = (if ramfs_lookup s n = None then -1 else 0)"
proof -
  have "ramfs_inv t \<and> ramfs_lookup t = (ramfs_lookup s)(n := None) \<and>
        r = (if ramfs_lookup s n = None then -1 else 0)"
  proof (cases "find_file s n")
    case None
    then show ?thesis
      using assms by (auto simp: ramfs_delete_def fun_eq_iff lookup_None_iff)
  next
    case (Some i)
    define f where "f = (s ! i)\<lparr>file_used := False, file_size := 0, file_name := []\<rparr>"
    have i: "i < 32" "file_used (s ! i)" "file_name (s ! i) = n"
      using Some find_file_iff [OF assms(1)] by auto
    have inv: "ramfs_inv (s[i := f])"
      using ramfs_invD(2) [OF assms(1) i(1)]
      by (intro ramfs_inv_update [OF assms(1) i(1)]) (auto simp: slot_ok_def f_def)
    have "ramfs_lookup (s[i := f]) = (ramfs_lookup s)(n := None)"
      using i lookup_update [OF assms(1) i(1) inv] by (simp add: fun_eq_iff f_def)
    then show ?thesis
      using assms(2) Some inv by (auto simp: ramfs_delete_def f_def lookup_None_iff)
  qed
  then show "ramfs_inv t" and "ramfs_lookup t = (ramfs_lookup s)(n := None)"
    and "r = (if ramfs_lookup s n = None then -1 else 0)" by blast+
qed

section \<open>Writing, appending, reading\<close>

lemma overwrite_slot:
  assumes "ramfs_inv s" and "find_file s n = Some i" and "length d = 4096" and "sz \<le> 4096"
  shows "ramfs_inv (s[i := (s ! i)\<lparr>file_data := d, file_size := sz\<rparr>])"
    and "ramfs_lookup (s[i := (s ! i)\<lparr>file_data := d, file_size := sz\<rparr>])
           = (ramfs_lookup s)(n := Some (take (unat sz) d))"
proof -
  let ?f = "(s ! i)\<lparr>file_data := d, file_size := sz\<rparr>"
  have i: "i < 32" "file_used (s ! i)" "file_name (s ! i) = n"
    using assms(2) find_file_iff [OF assms(1)] by auto
  show inv: "ramfs_inv (s[i := ?f])"
    using ramfs_invD(2) [OF assms(1) i(1)] assms i
    by (intro ramfs_inv_update [OF assms(1) i(1)]) (auto simp: slot_ok_def ramfs_inv_def)
  show "ramfs_lookup (s[i := ?f]) = (ramfs_lookup s)(n := Some (take (unat sz) d))"
    using i by (auto simp: lookup_update [OF assms(1) i(1) inv] fun_eq_iff contents_def)
qed

definition clamp_size :: "u32 \<Rightarrow> u32" where
  "clamp_size sz = (if sz > 4096 then 4096 else sz)"

lemma clamp_size_le: "clamp_size sz \<le> 4096" "unat (clamp_size sz) \<le> 4096"
  "unat (clamp_size sz) \<le> unat sz"
  by (auto simp: clamp_size_def word_less_nat_alt word_le_nat_alt)

lemma write_found_spec:
  assumes "ramfs_inv s" and "find_file s n = Some i" and "unat sz \<le> length data"
  obtains t where "write_found s (Some i) data sz = Some (uint (clamp_size sz), t)"
    and "ramfs_inv t" and "ramfs_lookup t = (ramfs_lookup s)(n := Some (take (unat (clamp_size sz)) data))"
proof -
  let ?k = "unat (clamp_size sz)"
  have i: "i < 32" using assms(2) find_file_iff [OF assms(1)] by auto
  have len: "length (file_data (s ! i)) = 4096"
    using ramfs_invD(2) [OF assms(1) i] by (simp add: slot_ok_def)
  define d where "d = take ?k data @ drop ?k (file_data (s ! i))"
  have cp: "mem_copy (file_data (s ! i)) 0 data ?k = Some d"
    using mem_copy_eq [of ?k data 0 "file_data (s ! i)"] clamp_size_le [of sz] assms(3) len
    by (simp add: d_def)
  have "length d = 4096" "take ?k d = take ?k data"
    using clamp_size_le [of sz] assms(3) len by (simp_all add: d_def)
  note o = overwrite_slot [OF assms(1,2) this(1) clamp_size_le(1) [of sz]] this(2)
  have clamp: "(if sz > RAMFS_MAX_FILESIZE then RAMFS_MAX_FILESIZE else sz) = clamp_size sz"
    by (simp add: clamp_size_def RAMFS_MAX_FILESIZE_def)
  show thesis
    using that [OF _ o(1)] o(2,3) cp unfolding write_found_def clamp by (simp add: Let_def)
qed

text \<open>A write of \<open>sz\<close> bytes under a name that fits its slot: every outcome.\<close>

lemma ramfs_write_cases:
  assumes "ramfs_inv s" and "length n < 32" and "unat sz \<le> length data"
  obtains (full) "ramfs_write s n data sz = Some (-1, s)" "ramfs_lookup s n = None"
      "\<forall>i < 32. file_used (s ! i)"
  | (written) t where "ramfs_write s n data sz = Some (uint (clamp_size sz), t)" "ramfs_inv t"
      "ramfs_lookup s n \<noteq> None \<or> (\<exists>i < 32. \<not> file_used (s ! i))"
      "ramfs_lookup t = (ramfs_lookup s)(n := Some (take (unat (clamp_size sz)) data))"
proof (cases "find_file s n")
  case (Some i)
  obtain t where t: "write_found s (Some i) data sz = Some (uint (clamp_size sz), t)"
    "ramfs_inv t" "ramfs_lookup t = (ramfs_lookup s)(n := Some (take (unat (clamp_size sz)) data))"
    by (rule write_found_spec [OF assms(1) Some assms(3)])
  show thesis
    by (rule written [OF _ t(2) _ t(3)]) (simp_all add: ramfs_write_def Some t(1) ramfs_lookup_def)
next
  case None
  from assms(1,2) show thesis
  proof (cases rule: ramfs_create_cases)
    case failed
    then show thesis using None by (intro full) (auto simp: ramfs_write_def lookup_None_iff)
  next
    case (created s1)
    then obtain i where i: "find_file s1 n = Some i"
      using lookup_None_iff [of s1 n] by auto
    obtain t where t: "write_found s1 (Some i) data sz = Some (uint (clamp_size sz), t)"
      "ramfs_inv t" "ramfs_lookup t = (ramfs_lookup s1)(n := Some (take (unat (clamp_size sz)) data))"
      by (rule write_found_spec [OF created(2) i assms(3)])
    show thesis
      by (rule written [OF _ t(2)]) (simp_all add: ramfs_write_def None created i t(1,3))
  qed
qed

lemma ramfs_append_spec:
  assumes "ramfs_inv s" and "ramfs_lookup s n = Some d" and "unat sz \<le> length data"
  obtains t where "ramfs_append s n data sz = Some (int (min (unat sz) (4096 - length d)), t)"
    and "ramfs_inv t"
    and "ramfs_lookup t = (ramfs_lookup s)(n \<mapsto> take 4096 (d @ take (unat sz) data))"
proof -
  obtain i where i: "find_file s n = Some i" "i < 32" and d: "d = contents (s ! i)"
    using assms(2) find_file_iff [OF assms(1)] by (auto simp: ramfs_lookup_def)
  let ?f = "s ! i"
  have ok: "length (file_data ?f) = 4096" "file_size ?f \<le> 4096"
    using ramfs_invD(2) [OF assms(1) i(2)] by (simp_all add: slot_ok_def)
  define m where "m = unat (file_size ?f)"
  have m: "m \<le> 4096" "length d = m"
    using ok by (auto simp: m_def d contents_def word_le_nat_alt)
  define k where "k = min (unat sz) (4096 - m)"
  have av: "unat (RAMFS_MAX_FILESIZE - file_size ?f) = 4096 - m"
    using ok(2) by (simp add: RAMFS_MAX_FILESIZE_def unat_sub m_def)
  define z where "z = (if sz > RAMFS_MAX_FILESIZE - file_size ?f then RAMFS_MAX_FILESIZE - file_size ?f else sz)"
  have z: "unat z = k"
    using av by (auto simp: z_def k_def word_less_nat_alt)
  have kb: "k \<le> length data" "m + k \<le> 4096" using m assms(3) by (auto simp: k_def)
  define e where "e = take m (file_data ?f) @ take k data @ drop (m + k) (file_data ?f)"
  have cp: "mem_copy (file_data ?f) m data k = Some e"
    using mem_copy_eq [of k data m "file_data ?f"] kb ok(1) by (simp add: e_def)
  have le: "length e = 4096" using ok(1) kb by (simp add: e_def)
  have sum: "unat (file_size ?f + z) = m + k"
    using kb(2) z by (simp add: unat_word_ariths m_def)
  then have bnd: "file_size ?f + z \<le> 4096" using kb(2) by (simp add: word_le_nat_alt)
  have "take (m + k) e = d @ take k data"
    using ok(1) kb m by (simp add: e_def d contents_def m_def)
  also have "\<dots> = take 4096 (d @ take (unat sz) data)"
    using m by (simp add: k_def min_def)
  finally have new: "take (unat (file_size ?f + z)) e = take 4096 (d @ take (unat sz) data)"
    by (simp add: sum)
  note o = overwrite_slot [OF assms(1) i(1) le bnd, unfolded new]
  show thesis
  proof (cases "z = 0")
    case False
    then have r: "ramfs_append s n data sz = Some (uint z, s[i := ?f\<lparr>file_data := e, file_size := file_size ?f + z\<rparr>])"
      using cp z by (simp add: ramfs_append_def i(1) Let_def z_def [symmetric] m_def)
    have "uint z = int (min (unat sz) (4096 - length d))"
      using z m(2) by (simp add: k_def uint_nat)
    then show thesis using that [OF _ o] r by simp
  next
    case True
    then have k0: "k = 0" using z by simp
    then have "take 4096 (d @ take (unat sz) data) = d"
      using m by (auto simp: k_def)
    then have same: "(ramfs_lookup s)(n \<mapsto> take 4096 (d @ take (unat sz) data)) = ramfs_lookup s"
      using assms(2) by auto
    have "ramfs_append s n data sz = Some (int (min (unat sz) (4096 - length d)), s)"
      using True k0 m(2) by (simp add: ramfs_append_def i(1) Let_def z_def [symmetric] k_def)
    from that [OF this assms(1)] same show thesis by simp
  qed
qed

lemma ramfs_read_spec:
  assumes "ramfs_inv s" and "ramfs_lookup s n = Some d" and "min (length d) (unat sz) \<le> length buffer"
  shows "ramfs_read s n buffer sz =
           Some (int (min (length d) (unat sz)), take (unat sz) d @ drop (min (length d) (unat sz)) buffer)"
proof -
  obtain i where i: "find_file s n = Some i" "i < 32" and d: "d = contents (s ! i)"
    using assms(2) find_file_iff [OF assms(1)] by (auto simp: ramfs_lookup_def)
  have ok: "length (file_data (s ! i)) = 4096" "unat (file_size (s ! i)) \<le> 4096"
    using ramfs_invD(2) [OF assms(1) i(2)] by (simp_all add: slot_ok_def word_le_nat_alt)
  have ld: "length d = unat (file_size (s ! i))" using ok by (simp add: d contents_def)
  define z where "z = (if file_size (s ! i) > sz then sz else file_size (s ! i))"
  have z: "unat z = min (length d) (unat sz)"
    by (auto simp: z_def ld word_less_nat_alt)
  have tk: "take (min (length d) (unat sz)) (file_data (s ! i)) = take (unat sz) d"
    using ld by (simp add: d contents_def min.commute)
  have cp: "mem_copy buffer 0 (file_data (s ! i)) (unat z) =
      Some (take (unat sz) d @ drop (min (length d) (unat sz)) buffer)"
    using mem_copy_eq [of "unat z" "file_data (s ! i)" 0 buffer] assms(3) ok ld
    unfolding z tk by simp
  have "uint z = int (min (length d) (unat sz))" using z by (simp only: uint_nat)
  then show ?thesis unfolding ramfs_read_def i(1) option.case Let_def z_def [symmetric] cp by simp
qed

section \<open>Counting\<close>

definition used_slots :: "ramfs \<Rightarrow> nat set" where
  "used_slots s = {i. i < 32 \<and> file_used (s ! i)}"

lemma fold_count:
  "fold (\<lambda>i c. if P i then c + 1 else c) [0..<n] c = c + of_nat (card {i. i < n \<and> P i})"
  for c :: "'a::semiring_1"
proof (induction n arbitrary: c)
  case (Suc n)
  have "{i. i < Suc n \<and> P i} = (if P n then insert n {i. i < n \<and> P i} else {i. i < n \<and> P i})"
    by (auto simp: less_Suc_eq)
  then show ?case using Suc by (simp add: add_ac)
qed simp

lemma card_used_le: "card (used_slots s) \<le> 32"
  using card_mono [of "{..<32::nat}" "used_slots s"] by (auto simp: used_slots_def)

lemma dom_lookup:
  assumes "ramfs_inv s"
  shows "dom (ramfs_lookup s) = (\<lambda>i. file_name (s ! i)) ` used_slots s"
  using lookup_Some_iff [OF assms] by (auto simp: dom_def used_slots_def)

lemma card_dom_lookup:
  assumes "ramfs_inv s"
  shows "card (dom (ramfs_lookup s)) = card (used_slots s)"
  unfolding dom_lookup [OF assms]
  using assms by (intro card_image) (auto simp: inj_on_def ramfs_inv_def used_slots_def)

lemma room_iff: "(\<exists>i < 32. \<not> file_used (s ! i)) \<longleftrightarrow> card (used_slots s) < 32"
proof
  assume "\<exists>i < 32. \<not> file_used (s ! i)"
  then have "used_slots s \<subset> {..<32}" by (auto simp: used_slots_def)
  then show "card (used_slots s) < 32" using psubset_card_mono [of "{..<32::nat}"] by simp
next
  assume c: "card (used_slots s) < 32"
  show "\<exists>i < 32. \<not> file_used (s ! i)"
  proof (rule ccontr)
    assume "\<not> (\<exists>i < 32. \<not> file_used (s ! i))"
    then have "used_slots s = {..<32}" by (auto simp: used_slots_def)
    then show False using c by simp
  qed
qed

lemma card_unused: "card {i. i < 32 \<and> \<not> file_used (s ! i)} = 32 - card (used_slots s)"
proof -
  have "{i. i < 32 \<and> \<not> file_used (s ! i)} = {..<32} - used_slots s" by (auto simp: used_slots_def)
  moreover have "used_slots s \<subseteq> {..<32}" by (auto simp: used_slots_def)
  ultimately show ?thesis by (simp add: card_Diff_subset finite_subset)
qed

lemma min_clamp: "unat (clamp_size sz) = min (unat sz) 4096"
  by (auto simp: clamp_size_def word_less_nat_alt)

interpretation fs: file_store ramfs_create ramfs_write ramfs_delete ramfs_lookup "\<lambda>n. length n < 32" 32 4096
  ramfs_inv
proof
  fix s :: ramfs and n and d :: "u8 list" and sz :: u32
  assume inv: "ramfs_inv s"
  note card = card_dom_lookup [OF inv] and room = room_iff [of s]
  show "finite (dom (ramfs_lookup s)) \<and> card (dom (ramfs_lookup s)) \<le> 32"
    using card card_used_le dom_lookup [OF inv] by (simp add: used_slots_def)
  show "ramfs_inv (snd (ramfs_delete s n)) \<and> ramfs_lookup (snd (ramfs_delete s n)) = (ramfs_lookup s)(n := None)
      \<and> fst (ramfs_delete s n) = (if n \<in> dom (ramfs_lookup s) then 0 else -1)"
    using ramfs_delete_spec [OF inv, of n "fst (ramfs_delete s n)" "snd (ramfs_delete s n)"]
    by (simp add: domIff)
  assume n: "length n < 32"
  show "\<exists>t. ramfs_create s n = (0, t) \<and> ramfs_inv t \<and> ramfs_lookup t = (ramfs_lookup s)(n \<mapsto> [])"
    if "n \<notin> dom (ramfs_lookup s)" "card (dom (ramfs_lookup s)) < 32"
    using inv n by (cases rule: ramfs_create_cases) (use that card room in auto)
  show "ramfs_create s n = (-1, s)"
    if "n \<in> dom (ramfs_lookup s) \<or> card (dom (ramfs_lookup s)) = 32"
    using inv n by (cases rule: ramfs_create_cases) (use that card room in auto)
  show "\<exists>t. ramfs_write s n d sz = Some (int (min (unat sz) 4096), t) \<and> ramfs_inv t \<and>
      ramfs_lookup t = (ramfs_lookup s)(n \<mapsto> take (min (unat sz) 4096) d)"
    if len: "unat sz \<le> length d" and a: "n \<in> dom (ramfs_lookup s) \<or> card (dom (ramfs_lookup s)) < 32"
    using inv n len by (cases rule: ramfs_write_cases)
      (use a card room in \<open>auto simp: min_clamp uint_nat\<close>)
  show "ramfs_write s n d sz = Some (-1, s)"
    if a: "n \<notin> dom (ramfs_lookup s)" "card (dom (ramfs_lookup s)) = 32"
    using inv n a card room by (cases rule: ramfs_create_cases [OF inv n])
      (auto simp: ramfs_write_def domIff lookup_None_iff)
qed simp

lemma ramfs_count_eq:
  assumes "ramfs_inv s"
  shows "ramfs_count s = int (card (dom (ramfs_lookup s)))"
  using fold_count [of "\<lambda>i. file_used (s ! i)" 32 0] card_dom_lookup [OF assms]
  by (simp add: ramfs_count_def RAMFS_MAX_FILES_def used_slots_def)

lemma ramfs_count_le: "ramfs_inv s \<Longrightarrow> ramfs_count s \<le> 32"
  using card_used_le [of s] by (simp add: ramfs_count_eq card_dom_lookup)

lemma ramfs_free_space_eq:
  assumes "ramfs_inv s"
  shows "uint (ramfs_free_space s) = (32 - ramfs_count s) * 4096"
proof -
  let ?c = "card (used_slots s)"
  have "ramfs_free_space s = word_of_nat (32 - ?c) * 4096"
    using fold_count [of "\<lambda>i. \<not> file_used (s ! i)" 32 "0 :: u32"]
    by (simp add: ramfs_free_space_def RAMFS_MAX_FILES_def RAMFS_MAX_FILESIZE_def card_unused)
  also have "\<dots> = word_of_nat ((32 - ?c) * 4096)" by simp
  finally have "unat (ramfs_free_space s) = (32 - ?c) * 4096"
    by (simp only: unat_of_nat) (simp add: take_bit_nat_eq_self)
  then show ?thesis
    using card_used_le [of s] unfolding uint_nat
    by (simp add: ramfs_count_eq [OF assms] card_dom_lookup [OF assms] of_nat_diff)
qed

lemma ramfs_list_eq: "ramfs_list s = map (\<lambda>i. (file_name (s ! i), file_size (s ! i))) (filter (\<lambda>i. file_used (s ! i)) [0..<32])"
proof -
  have "concat (map (\<lambda>i. if P i then [f i] else []) xs) = map f (filter P xs)" for P and f :: "nat \<Rightarrow> string \<times> u32" and xs
    by (induction xs) auto
  then show ?thesis by (simp add: ramfs_list_def RAMFS_MAX_FILES_def)
qed

lemma ramfs_list_spec:
  assumes "ramfs_inv s"
  shows "distinct (map fst (ramfs_list s))"
    and "(n, z) \<in> set (ramfs_list s) \<longleftrightarrow>
           (\<exists>d. ramfs_lookup s n = Some d \<and> unat z = length d)"
    and "int (length (ramfs_list s)) = ramfs_count s"
proof -
  let ?us = "filter (\<lambda>i. file_used (s ! i)) [0..<32]"
  have us: "set ?us = used_slots s" by (auto simp: used_slots_def)
  have "inj_on (\<lambda>i. file_name (s ! i)) (set ?us)"
    unfolding us using assms by (auto simp: inj_on_def ramfs_inv_def used_slots_def)
  then show "distinct (map fst (ramfs_list s))"
    by (simp add: ramfs_list_eq o_def distinct_map)
  have "length ?us = card (used_slots s)" unfolding us [symmetric] by (rule distinct_card [symmetric]) simp
  then show "int (length (ramfs_list s)) = ramfs_count s"
    by (simp add: ramfs_list_eq ramfs_count_eq [OF assms] card_dom_lookup [OF assms])
  have len: "length (contents (s ! i)) = unat (file_size (s ! i))" if "i < 32" for i
    using ramfs_invD(2) [OF assms that] by (simp add: contents_def slot_ok_def word_le_nat_alt)
  show "(n, z) \<in> set (ramfs_list s) \<longleftrightarrow> (\<exists>d. ramfs_lookup s n = Some d \<and> unat z = length d)"
    using len by (auto simp: ramfs_list_eq lookup_Some_iff [OF assms] word_unat_eq_iff image_iff)
qed

section \<open>Reachable file systems\<close>

text \<open>One call of a modifying operation that returns, under any name. Only a creation is restricted: the
  part of its name that fits the slot, 31 characters, is the whole name or no file's name yet.\<close>

inductive ramfs_step :: "ramfs \<Rightarrow> ramfs \<Rightarrow> bool" where
  create: "length n < 32 \<or> \<not> ramfs_exists s (take 31 n) \<Longrightarrow> ramfs_step s (snd (ramfs_create s n))"
| overwrite: "ramfs_write s n d sz = Some (r, t) \<Longrightarrow> ramfs_step s t"
| append: "ramfs_append s n d sz = Some (r, t) \<Longrightarrow> ramfs_step s t"
| delete: "ramfs_step s (snd (ramfs_delete s n))"

text \<open>The object \<open>files\<close> before \<open>ramfs_init\<close>: 32 entries with a data array each.\<close>

definition ramfs_object :: "ramfs \<Rightarrow> bool" where
  "ramfs_object s \<longleftrightarrow> length s = 32 \<and> (\<forall>f \<in> set s. length (file_data f) = 4096)"

lemma ramfs_init_nth:
  assumes "i < length s" and "length s = 32"
  shows "ramfs_init s ! i = (s ! i)\<lparr>file_used := False, file_size := 0, file_name := []\<rparr>"
    and "length (ramfs_init s) = length s"
proof -
  let ?g = "\<lambda>f. f\<lparr>file_used := False, file_size := 0, file_name := []\<rparr>"
  have "fold (\<lambda>i s. s[i := ?g (s ! i)]) [0..<n] s = map ?g (take n s) @ drop n s"
    if "n \<le> length s" for n
    using that
  proof (induction n)
    case (Suc n)
    then have "take (Suc n) s = take n s @ [s ! n]" "drop n s = s ! n # drop (Suc n) s"
      by (simp_all add: take_Suc_conv_app_nth Cons_nth_drop_Suc)
    then show ?case using Suc by (simp add: list_update_append nth_append)
  qed simp
  from this [of 32] show "ramfs_init s ! i = ?g (s ! i)" "length (ramfs_init s) = length s"
    using assms by (simp_all add: ramfs_init_def RAMFS_MAX_FILES_def)
qed

lemma ramfs_init_spec:
  assumes "ramfs_object s"
  shows "ramfs_inv (ramfs_init s)" and "ramfs_lookup (ramfs_init s) = Map.empty"
proof -
  have len: "length s = 32" and dat: "\<And>i. i < 32 \<Longrightarrow> length (file_data (s ! i)) = 4096"
    using assms by (auto simp: ramfs_object_def)
  show "ramfs_inv (ramfs_init s)"
    using len dat ramfs_init_nth(2) [of 0 s] by (simp add: ramfs_inv_def ramfs_init_nth(1) slot_ok_def)
  show "ramfs_lookup (ramfs_init s) = Map.empty"
    using len by (auto simp: fun_eq_iff lookup_None_iff find_file_None ramfs_init_nth)
qed

lemma ramfs_append_missing: "ramfs_lookup s n = None \<Longrightarrow> ramfs_append s n d sz = Some (-1, s)"
  by (simp add: ramfs_append_def lookup_None_iff)

lemma mem_copy_length: "mem_copy dest off src n = Some d \<Longrightarrow> length d = length dest"
  by (induction dest off src n rule: mem_copy.induct) (auto split: if_splits)

lemma create_inv:
  assumes "ramfs_inv s" and "length n < 32 \<or> \<not> ramfs_exists s (take 31 n)"
  shows "ramfs_inv (snd (ramfs_create s n))"
proof (cases "find_file s n = None \<and> find_free_slot s \<noteq> None")
  case True
  then obtain i where i: "find_free_slot s = Some i" "i < 32"
    using find_free_slot_Some by blast
  have "find_file s (take 31 n) = None" using assms(2) True by (auto simp: ramfs_exists_def)
  then have "ramfs_inv (s[i := (s ! i)\<lparr>file_name := str_copy n RAMFS_MAX_FILENAME, file_size := 0,
      file_used := True, file_data := mem_set (file_data (s ! i)) 0 (unat RAMFS_MAX_FILESIZE)\<rparr>])"
    by (intro ramfs_inv_update [OF assms(1) i(2) slot_fresh [OF assms(1) i(2)]])
       (simp add: find_file_None str_copy_take RAMFS_MAX_FILENAME_def)
  then show ?thesis using True i(1) by (simp add: ramfs_create_def)
next
  case False
  then show ?thesis using assms(1) by (auto simp: ramfs_create_def split: option.splits)
qed

lemma write_found_inv:
  assumes "ramfs_inv s" and "find_file s n = Some i" and "write_found s (Some i) d sz = Some (r, t)"
  shows "ramfs_inv t"
proof -
  have clamp: "(if sz > RAMFS_MAX_FILESIZE then RAMFS_MAX_FILESIZE else sz) = clamp_size sz"
    by (simp add: clamp_size_def RAMFS_MAX_FILESIZE_def)
  obtain e where e: "mem_copy (file_data (s ! i)) 0 d (unat (clamp_size sz)) = Some e"
    "t = s[i := (s ! i)\<lparr>file_data := e, file_size := clamp_size sz\<rparr>]"
    using assms(3) unfolding write_found_def clamp by (auto simp: Let_def split: option.splits)
  have "length e = 4096"
    using mem_copy_length [OF e(1)] ramfs_invD(2) [OF assms(1), of i] assms(2) find_file_iff [OF assms(1)]
    by (simp add: slot_ok_def)
  then show ?thesis using overwrite_slot(1) [OF assms(1,2) _ clamp_size_le(1)] e(2) by simp
qed

lemma append_inv:
  assumes "ramfs_inv s" and "ramfs_append s n d sz = Some (r, t)"
  shows "ramfs_inv t"
proof (cases "find_file s n")
  case None
  then show ?thesis using assms by (simp add: ramfs_append_def)
next
  case (Some i)
  have ok: "length (file_data (s ! i)) = 4096" "file_size (s ! i) \<le> 4096"
    using ramfs_invD(2) [OF assms(1), of i] Some find_file_iff [OF assms(1)] by (auto simp: slot_ok_def)
  define a where "a = RAMFS_MAX_FILESIZE - file_size (s ! i)"
  define z where "z = (if sz > a then a else sz)"
  have "unat a = 4096 - unat (file_size (s ! i))"
    using ok(2) by (simp add: a_def RAMFS_MAX_FILESIZE_def unat_sub)
  moreover have "z \<le> a" by (simp add: z_def not_less)
  then have "unat z \<le> unat a" by (simp only: word_le_nat_alt)
  moreover have "unat (file_size (s ! i)) \<le> 4096" using ok(2) by (simp add: word_le_nat_alt)
  ultimately have "unat z + unat (file_size (s ! i)) \<le> 4096" by linarith
  then have "unat (file_size (s ! i) + z) \<le> 4096" by (simp add: unat_word_ariths)
  then have bnd: "file_size (s ! i) + z \<le> 4096" by (simp add: word_le_nat_alt)
  have t: "t = s \<or> (\<exists>e. mem_copy (file_data (s ! i)) (unat (file_size (s ! i))) d (unat z) = Some e \<and>
      t = s[i := (s ! i)\<lparr>file_data := e, file_size := file_size (s ! i) + z\<rparr>])"
  proof (cases "z = 0")
    case True
    then show ?thesis
      using assms(2) unfolding ramfs_append_def Some option.case Let_def a_def [symmetric]
      unfolding z_def [symmetric] by simp
  next
    case False
    then show ?thesis
      using assms(2) unfolding ramfs_append_def Some option.case Let_def a_def [symmetric]
      unfolding z_def [symmetric]
      by (cases "mem_copy (file_data (s ! i)) (unat (file_size (s ! i))) d (unat z)") auto
  qed
  then show ?thesis
  proof
    assume "\<exists>e. mem_copy (file_data (s ! i)) (unat (file_size (s ! i))) d (unat z) = Some e \<and>
      t = s[i := (s ! i)\<lparr>file_data := e, file_size := file_size (s ! i) + z\<rparr>]"
    then obtain e where e: "mem_copy (file_data (s ! i)) (unat (file_size (s ! i))) d (unat z) = Some e"
      "t = s[i := (s ! i)\<lparr>file_data := e, file_size := file_size (s ! i) + z\<rparr>]" by blast
    then show ?thesis
      using overwrite_slot(1) [OF assms(1) Some _ bnd] mem_copy_length [OF e(1)] ok(1) by simp
  qed (use assms(1) in simp)
qed

lemma create_long_name:
  assumes "length s = 32" and "32 \<le> length n" and "find_file s n = None" and "find_free_slot s = Some i"
  obtains t where "ramfs_create s n = (0, t)" "find_file t n = None"
    "file_used (t ! i)" "file_name (t ! i) = take 31 n" "\<forall>j. j \<noteq> i \<longrightarrow> t ! j = s ! j" "length t = 32"
proof -
  have i: "i < 32"
    using find_free_slot_Some [OF assms(4)] by auto
  define f where "f = (s ! i)\<lparr>file_name := str_copy n RAMFS_MAX_FILENAME, file_size := 0,
      file_used := True, file_data := mem_set (file_data (s ! i)) 0 (unat RAMFS_MAX_FILESIZE)\<rparr>"
  have f: "file_name f = take 31 n" "file_used f"
    by (simp_all add: f_def str_copy_take RAMFS_MAX_FILENAME_def)
  have c: "ramfs_create s n = (0, s[i := f])"
    using assms(3,4) by (simp add: ramfs_create_def f_def)
  have "length (take 31 n) \<noteq> length n" using assms(2) by simp
  then have "take 31 n \<noteq> n" by metis
  then have "find_file (s[i := f]) n = None"
    using assms(1,3) i f by (auto simp: find_file_None nth_list_update)
  then show thesis by (intro that [OF c]) (use i f assms(1) in auto)
qed

text \<open>A write under a name that does not fit: no file has it, and a creation does not make one.\<close>

lemma long_name_missing:
  assumes "ramfs_inv s" and "32 \<le> length n"
  shows "find_file s n = None" and "ramfs_lookup s n = None"
proof -
  show "find_file s n = None"
    using ramfs_invD(2) [OF assms(1)] assms(2) by (fastforce simp: find_file_None slot_ok_def)
  then show "ramfs_lookup s n = None" by (simp add: lookup_None_iff)
qed

lemma write_long_name:
  assumes "ramfs_inv s" and "32 \<le> length n"
  shows "ramfs_write s n d sz = (if find_free_slot s = None then Some (-1, s) else None)"
proof (cases "find_free_slot s")
  case None
  then show ?thesis
    using long_name_missing [OF assms] by (simp add: ramfs_write_def ramfs_create_def)
next
  case (Some i)
  from ramfs_invD(1) [OF assms(1)] assms(2) long_name_missing(1) [OF assms] Some show ?thesis
    by (rule create_long_name)
       (simp add: ramfs_write_def write_found_def long_name_missing [OF assms] Some)
qed

lemma write_inv:
  assumes "ramfs_inv s" and "ramfs_write s n d sz = Some (r, t)"
  shows "ramfs_inv t"
proof (cases "length n < 32")
  case False
  then show ?thesis using assms write_long_name [OF assms(1), of n d sz] by (auto split: if_splits)
next
  case short: True
  show ?thesis
  proof (cases "find_file s n")
    case (Some i)
    then show ?thesis using assms write_found_inv by (simp add: ramfs_write_def)
  next
    case None
    obtain q u where c: "ramfs_create s n = (q, u)" by (cases "ramfs_create s n")
    have u: "ramfs_inv u" using create_inv [OF assms(1), of n] short c by simp
    show ?thesis
    proof (cases "q < 0")
      case True
      then show ?thesis using assms(2) u c None by (simp add: ramfs_write_def)
    next
      case False
      then have w: "write_found u (find_file u n) d sz = Some (r, t)"
        using assms(2) c None by (simp add: ramfs_write_def)
      then obtain j where "find_file u n = Some j" by (cases "find_file u n") (simp_all add: write_found_def)
      then show ?thesis using write_found_inv [OF u] w by simp
    qed
  qed
qed

lemma ramfs_step_inv:
  assumes "ramfs_step s t" and "ramfs_inv s"
  shows "ramfs_inv t"
  using assms(1)
proof (cases rule: ramfs_step.cases)
  case (create n)
  then show ?thesis using create_inv [OF assms(2)] by simp
next
  case (overwrite n d sz r)
  show ?thesis by (rule write_inv [OF assms(2) overwrite])
next
  case (append n d sz r)
  show ?thesis by (rule append_inv [OF assms(2) append])
next
  case (delete n)
  then show ?thesis using fs.remove_law [OF assms(2)] by simp
qed

lemma ramfs_reach_inv:
  assumes "ramfs_step\<^sup>*\<^sup>* (ramfs_init s0) s" and "ramfs_object s0"
  shows "ramfs_inv s"
  using assms by (induction rule: rtranclp_induct) (auto simp: ramfs_init_spec ramfs_step_inv)

lemma ramfs_size_spec:
  assumes "ramfs_inv s" and "ramfs_lookup s n = Some d"
  shows "ramfs_size s n = int (length d)"
proof -
  obtain i where i: "find_file s n = Some i" "i < 32" and d: "d = contents (s ! i)"
    using assms(2) find_file_iff [OF assms(1)] by (auto simp: ramfs_lookup_def)
  have ok: "length (file_data (s ! i)) = 4096" "unat (file_size (s ! i)) \<le> 4096"
    using ramfs_invD(2) [OF assms(1) i(2)] by (simp_all add: slot_ok_def word_le_nat_alt)
  then have "sint (file_size (s ! i)) = int (unat (file_size (s ! i)))" by (intro sint_small) simp
  then show ?thesis
    using ok by (simp only: ramfs_size_def i(1) option.case) (simp add: d contents_def)
qed

section \<open>Properties\<close>

text \<open>The object \<open>files\<close> as the loader leaves it: all bytes zero.\<close>

definition blank_files :: ramfs where
  "blank_files = replicate 32 \<lparr>file_name = [], file_data = replicate 4096 0, file_size = 0, file_used = False\<rparr>"

lemma blank_init:
  "ramfs_inv (ramfs_init blank_files)" "ramfs_lookup (ramfs_init blank_files) = Map.empty"
  using ramfs_init_spec [of blank_files] by (simp_all add: ramfs_object_def blank_files_def)

text \<open>C13: After initialisation and any sequence of creations, writes, appends and deletions that return,
  under names of any length as long as no creation cuts its name to that of an existing file (names
  are cut to 31 characters), no two files share a name, every size is at most 4096, and the
  directory listing, the file count and the free space agree with the stored files.\<close>

theorem ramfs_reachable_consistent:
  assumes "ramfs_step\<^sup>*\<^sup>* (ramfs_init s0) s" and "ramfs_object s0"
  shows "distinct (map fst (ramfs_list s)) \<and>
         (\<forall>n z. (n, z) \<in> set (ramfs_list s) \<longleftrightarrow> (\<exists>d. ramfs_lookup s n = Some d \<and> unat z = length d)) \<and>
         int (length (ramfs_list s)) = ramfs_count s \<and>
         0 \<le> ramfs_count s \<and> ramfs_count s \<le> 32 \<and>
         uint (ramfs_free_space s) = (32 - ramfs_count s) * 4096"
proof -
  have inv: "ramfs_inv s" by (rule ramfs_reach_inv [OF assms])
  have "0 \<le> ramfs_count s" by (simp add: ramfs_count_eq [OF inv])
  then show ?thesis
    using ramfs_list_spec [OF inv] ramfs_free_space_eq [OF inv] ramfs_count_le [OF inv] by blast
qed

theorem ramfs_reachable_consistent_witness:
  "\<exists>t. ramfs_create (ramfs_init blank_files) ''a.txt'' = (0, t) \<and> uint (ramfs_free_space t) = 31 * 4096"
proof -
  obtain t where t: "ramfs_create (ramfs_init blank_files) ''a.txt'' = (0, t)" "ramfs_inv t"
    "ramfs_lookup t = [''a.txt'' \<mapsto> []]"
    using fs.create_new [OF blank_init(1), of "''a.txt''"] blank_init(2) by auto
  have "ramfs_step\<^sup>*\<^sup>* (ramfs_init blank_files) t"
    using ramfs_step.create [of "''a.txt''" "ramfs_init blank_files"] t(1) by auto
  from ramfs_reachable_consistent [OF this]
  have "uint (ramfs_free_space t) = (32 - ramfs_count t) * 4096"
    by (simp add: ramfs_object_def blank_files_def)
  then show ?thesis using t by (simp add: ramfs_count_eq)
qed

text \<open>C14: A write of a buffer that holds the announced bytes fails, changing nothing, exactly when the
  file is new and all 32 slots are in use; with a free slot, a new name of more than 31 characters makes
  it use a null pointer; otherwise it stores the first 4096 bytes of the data under that name, leaves every other
  file alone and returns the number of bytes stored.\<close>

theorem ramfs_write_outcome:
  assumes "ramfs_inv s" and "unat sz \<le> length d"
  shows "if ramfs_lookup s n = None \<and> ramfs_count s = 32 then ramfs_write s n d sz = Some (-1, s)
         else if ramfs_lookup s n = None \<and> 31 < length n then ramfs_write s n d sz = None
         else \<exists>t. ramfs_write s n d sz = Some (int (min (unat sz) 4096), t) \<and> ramfs_inv t \<and>
                ramfs_lookup t = (ramfs_lookup s)(n \<mapsto> take (min (unat sz) 4096) d)"
proof (cases "length n < 32")
  case True
  then show ?thesis
    using fs.write_full [OF assms(1) True, of d sz] fs.write_ok [OF assms(1) True assms(2)]
      ramfs_count_le [OF assms(1)] ramfs_count_eq [OF assms(1)] by (auto simp: domIff)
next
  case False
  then have n: "32 \<le> length n" by simp
  have "find_free_slot s = None \<longleftrightarrow> ramfs_count s = 32"
    using room_iff [of s] card_used_le [of s]
    by (auto simp: find_free_slot_None ramfs_count_eq [OF assms(1)] card_dom_lookup [OF assms(1)])
  then show ?thesis
    using write_long_name [OF assms(1) n, of d sz] long_name_missing(2) [OF assms(1) n] n by simp
qed

theorem ramfs_write_outcome_witness:
  "\<exists>t. ramfs_write (ramfs_init blank_files) ''a'' [7, 8, 9] 2 = Some (2, t) \<and> ramfs_lookup t = [''a'' \<mapsto> [7, 8]]"
  using ramfs_write_outcome [OF blank_init(1), of 2 "[7, 8, 9]" "''a''"]
  by (auto simp: blank_init ramfs_count_eq)

text \<open>C15: Any batch of files under names of at most 31 characters that together with the existing
  ones number at most 32 is stored without an error; of each file the first 4096 bytes are kept, the
  last write to a name wins and all other files keep their contents. The data of a file may have any
  length a 32-bit size can announce.\<close>

theorem ramfs_store_batch:
  assumes "ramfs_inv s" and "\<forall>x \<in> set xs. length (fst x) < 32 \<and> length (snd x) < 2 ^ 32"
    and "card (dom (ramfs_lookup s) \<union> fst ` set xs) \<le> 32"
  shows "\<exists>t. store_all ramfs_write xs s = Some t \<and> ramfs_inv t \<and>
           ramfs_lookup t = ramfs_lookup s ++ map_of (rev (map (apsnd (take 4096)) xs))"
  using assms by (rule fs.store_all_ok)

theorem ramfs_store_batch_witness:
  "\<exists>t. store_all ramfs_write [(''a'', [1]), (''b'', [2, 3]), (''a'', [4])] (ramfs_init blank_files) = Some t \<and>
       ramfs_lookup t = [''b'' \<mapsto> [2, 3], ''a'' \<mapsto> [4]]"
proof -
  have "card ({} \<union> fst ` set [(''a'', [1]), (''b'', [2, 3]), (''a'', [4 :: u8])]) \<le> 32" by (simp add: card_insert_if)
  then show ?thesis
    using ramfs_store_batch [OF blank_init(1), of "[(''a'', [1]), (''b'', [2, 3]), (''a'', [4])]"]
    by (auto simp: blank_init(2))
qed

text \<open>What is written is read back: a read after a successful write returns the stored bytes, up to
  the reader's limit, and leaves the rest of the reader's buffer alone.\<close>

theorem ramfs_write_read:
  assumes "ramfs_inv s" and "length n < 32" and "unat sz \<le> length d"
    and "ramfs_lookup s n \<noteq> None \<or> ramfs_count s < 32" and "unat max_size \<le> length buffer"
  shows "\<exists>t. ramfs_write s n d sz = Some (int (min (unat sz) 4096), t) \<and>
           ramfs_size t n = int (min (unat sz) 4096) \<and>
           ramfs_read t n buffer max_size =
             (let k = min (min (unat sz) 4096) (unat max_size)
              in Some (int k, take k d @ drop k buffer))"
proof -
  have "n \<in> dom (ramfs_lookup s) \<or> card (dom (ramfs_lookup s)) < 32"
    using assms(4) ramfs_count_eq [OF assms(1)] by (auto simp: domIff)
  then obtain t where t: "ramfs_write s n d sz = Some (int (min (unat sz) 4096), t)" "ramfs_inv t"
    "ramfs_lookup t = (ramfs_lookup s)(n \<mapsto> take (min (unat sz) 4096) d)"
    using fs.write_ok [OF assms(1-3)] by blast
  then have l: "ramfs_lookup t n = Some (take (min (unat sz) 4096) d)" by simp
  have "ramfs_size t n = int (min (unat sz) 4096)"
    using ramfs_size_spec [OF t(2) l] assms(3) by simp
  then show ?thesis
    using ramfs_read_spec [OF t(2) l, of max_size buffer] assms(3,5) t(1)
    by (auto simp: Let_def min.commute min.left_commute)
qed

theorem ramfs_write_read_witness:
  "\<exists>t. ramfs_write (ramfs_init blank_files) ''a'' [7, 8, 9] 3 = Some (3, t) \<and>
       ramfs_read t ''a'' [0, 0] 2 = Some (2, [7, 8])"
  using ramfs_write_read [OF blank_init(1), of "''a''" 3 "[7, 8, 9]" 2 "[0, 0]"]
  by (auto simp: blank_init ramfs_count_eq)

text \<open>An append to an existing file extends it by as much of the data as its 4096 bytes allow
  and returns that number; no other file changes, and a missing file gives -1.\<close>

theorem ramfs_append_extends:
  assumes "ramfs_inv s" and "unat sz \<le> length data"
  shows "case ramfs_lookup s n of
           None \<Rightarrow> ramfs_append s n data sz = Some (-1, s)
         | Some d \<Rightarrow> \<exists>t. ramfs_append s n data sz = Some (int (min (unat sz) (4096 - length d)), t) \<and>
             ramfs_inv t \<and> ramfs_lookup t = (ramfs_lookup s)(n \<mapsto> take 4096 (d @ take (unat sz) data))"
proof (cases "ramfs_lookup s n")
  case None
  then show ?thesis by (simp add: ramfs_append_missing)
next
  case (Some d)
  show ?thesis by (rule ramfs_append_spec [OF assms(1) Some assms(2)]) (use Some in auto)
qed

theorem ramfs_append_extends_witness:
  "ramfs_append (ramfs_init blank_files) ''a'' [1] 1 = Some (-1, ramfs_init blank_files)"
  using ramfs_append_extends [OF blank_init(1), of 1 "[1]" "''a''"] by (simp add: blank_init(2))

text \<open>A name of 32 or more characters breaks the file system: a creation under it succeeds but
  the file is stored under the truncated name and cannot be found; a second creation makes a
  duplicate; and a write under it dereferences the null pointer.\<close>

theorem ramfs_long_name:
  assumes "ramfs_inv s" and "32 \<le> length n" and "ramfs_count s \<le> 30"
  shows "ramfs_write s n d sz = None \<and>
         (\<exists>t u i j. ramfs_create s n = (0, t) \<and> \<not> ramfs_exists t n \<and> ramfs_create t n = (0, u) \<and>
            i < 32 \<and> j < 32 \<and> i \<noteq> j \<and> file_used (u ! i) \<and> file_used (u ! j) \<and>
            file_name (u ! i) = take 31 n \<and> file_name (u ! j) = take 31 n)"
proof -
  have len: "length s = 32" by (rule ramfs_invD(1) [OF assms(1)])
  have missing: "find_file s n = None" by (rule long_name_missing(1) [OF assms(1,2)])
  have used: "card (used_slots s) \<le> 30"
    using assms(3) by (simp add: ramfs_count_eq [OF assms(1)] card_dom_lookup [OF assms(1)])
  then obtain i where i: "find_free_slot s = Some i"
    using room_iff [of s] find_free_slot_None [of s] by (cases "find_free_slot s") auto
  from len assms(2) missing i show ?thesis
  proof (rule create_long_name)
    fix t
    assume t: "ramfs_create s n = (0, t)" "find_file t n = None" "file_used (t ! i)"
      "file_name (t ! i) = take 31 n" "\<forall>j. j \<noteq> i \<longrightarrow> t ! j = s ! j" "length t = 32"
    have "used_slots t \<subseteq> insert i (used_slots s)" using t(5) by (auto simp: used_slots_def)
    then have "card (used_slots t) \<le> card (insert i (used_slots s))"
      by (intro card_mono) (auto simp: used_slots_def)
    also have "\<dots> \<le> Suc (card (used_slots s))" by (rule card_insert_le_m1) simp_all
    finally have "card (used_slots t) < 32" using used by simp
    then obtain j where j: "find_free_slot t = Some j"
      using room_iff [of t] find_free_slot_None [of t] by (cases "find_free_slot t") auto
    then have ij: "i < 32" "j < 32" "i \<noteq> j"
      using find_free_slot_Some [OF i] find_free_slot_Some [OF j] t(3) by auto
    from t(6) assms(2) t(2) j show ?thesis
    proof (rule create_long_name)
      fix u
      assume "ramfs_create t n = (0, u)" "file_used (u ! j)" "file_name (u ! j) = take 31 n"
        "\<forall>k. k \<noteq> j \<longrightarrow> u ! k = t ! k"
      moreover from this have "ramfs_write s n d sz = None \<and> i < 32 \<and> j < 32 \<and> i \<noteq> j \<and> file_used (u ! i)
          \<and> file_used (u ! j) \<and> file_name (u ! i) = take 31 n \<and> file_name (u ! j) = take 31 n"
        using t ij missing by (simp add: ramfs_write_def write_found_def)
      ultimately show ?thesis using t(1,2) unfolding ramfs_exists_def by blast
    qed
  qed
qed

theorem ramfs_long_name_witness:
  "ramfs_write (ramfs_init blank_files) (replicate 40 CHR ''x'') [1] 1 = None"
  using ramfs_long_name [OF blank_init(1), of "replicate 40 CHR ''x''" "[1]" 1]
  by (simp add: ramfs_count_eq blank_init)

end
