(* ===== verification/Shell.thy ===== *)
theory Shell
  imports Syscalls Graphics Ramfs
begin

text \<open>
  The shell of \<open>simpleos-main/simpleos/kernel.c\<close>: its string helpers, one definition per command, the
  dispatch, and the event loop that edits the command line. The state of the whole kernel is the record
  \<open>system\<close>. The messages that the memory, process and scheduler functions print themselves are left out, as
  in their theories; every message of \<open>kernel.c\<close> is there. A result \<open>None\<close> is undefined behaviour or an
  endless wait.
\<close>

section \<open>State\<close>

definition CMD_BUFFER_SIZE :: int where "CMD_BUFFER_SIZE = 256"
definition PRIORITY_REGULAR :: u32 where "PRIORITY_REGULAR = 1"

record system = graphics +
  files :: ramfs
  cmd_buffer :: string
  cmd_pos :: int

text \<open>What the compiler and linker fix: the addresses of functions, the end of the kernel, and the contents of
  the uninitialised stack arrays the code reads. \<open>cr2\<close> is the register a page fault leaves its address in.\<close>

record image =
  address_of :: "string \<Rightarrow> u32"
  kernel_end :: u32
  cr2 :: u32
  stack_junk :: "nat \<Rightarrow> u8 list"
  file_buffer :: "u8 list"

section \<open>String helpers\<close>

fun str_starts_with :: "string \<Rightarrow> string \<Rightarrow> bool" where
  "str_starts_with str [] = True"
| "str_starts_with [] (p # prefix) = False"
| "str_starts_with (c # str) (p # prefix) = (if c \<noteq> p then False else str_starts_with str prefix)"

fun cmd_equal :: "string \<Rightarrow> string \<Rightarrow> bool" where
  "cmd_equal (a # as) (b # bs) = (if a \<noteq> b then False else cmd_equal as bs)"
| "cmd_equal [] [] = True"
| "cmd_equal _ _ = False"

fun skip_whitespace :: "string \<Rightarrow> string" where
  "skip_whitespace [] = []"
| "skip_whitespace (c # s) = (if c = CHR '' '' \<or> c = CHR 0x09 then skip_whitespace s else c # s)"

fun skip_to_whitespace :: "string \<Rightarrow> string" where
  "skip_to_whitespace [] = []"
| "skip_to_whitespace (c # s) = (if c \<noteq> CHR '' '' \<and> c \<noteq> CHR 0x09 then skip_to_whitespace s else c # s)"

fun str_len :: "string \<Rightarrow> nat" where
  "str_len [] = 0"
| "str_len (c # s) = str_len s + 1"

text \<open>At most \<open>n - 1\<close> characters are copied.\<close>

fun copy_str :: "string \<Rightarrow> nat \<Rightarrow> string" where
  "copy_str [] n = []"
| "copy_str (c # s) n = (if 0 < n - 1 then c # copy_str s (n - 1) else [])"

text \<open>The file name at the start of the arguments, cut to the size of its array.\<close>

definition parse_name :: "string \<Rightarrow> string" where
  "parse_name name =
     (let end = skip_to_whitespace name;
          len = length name - length end;
          len' = (if len \<ge> RAMFS_MAX_FILENAME then RAMFS_MAX_FILENAME - 1 else len)
      in copy_str name (len' + 1))"

section \<open>Commands\<close>

definition list_file_callback :: "string \<Rightarrow> u32 \<Rightarrow> 's vga_scheme \<Rightarrow> 's vga_scheme option" where
  "list_file_callback name sz = printf (''  %-20s %5d bytes'' @ nl) [Text (Some name), Word sz]"

definition shell_prompt :: "'s vga_scheme \<Rightarrow> 's vga_scheme option" where
  "shell_prompt s = do {
     t \<leftarrow> printf ''kernel> '' [] (vga_set_color VGA_COLOR_LIGHT_GREEN VGA_COLOR_BLACK s);
     Some (vga_set_color VGA_COLOR_LIGHT_GREY VGA_COLOR_BLACK t)
   }"

text \<open>A list of lines without arguments, printed one call each.\<close>

fun print_lines :: "string list \<Rightarrow> 's vga_scheme \<Rightarrow> 's vga_scheme option" where
  "print_lines [] s = Some s"
| "print_lines (l # ls) s = do { t \<leftarrow> printf (l @ nl) [] s; print_lines ls t }"

definition cmd_help :: "'s vga_scheme \<Rightarrow> 's vga_scheme option" where
  "cmd_help s = do {
     s1 \<leftarrow> printf (''Available commands:'' @ nl) [] s;
     s2 \<leftarrow> printf (nl @ ''  System:'' @ nl) [] (vga_set_color VGA_COLOR_LIGHT_CYAN VGA_COLOR_BLACK s1);
     s3 \<leftarrow> print_lines
       [''    help              - Show this help'',
        ''    clear             - Clear screen'',
        ''    info              - Show system info'',
        ''    mem               - Show memory info'',
        ''    vmm               - Show VMM mappings'',
        ''    alloc             - Test page allocation'',
        ''    ps                - Show process table'',
        ''    testproc          - Create and run test processes'',
        ''    testexit          - Test process termination (DosExit)'',
        ''    testhier          - Test parent-child hierarchy'',
        ''    usermode          - Test user mode (Ring 3)'',
        ''    reboot            - Reboot the system'',
        ''    halt              - Halt the CPU''] (vga_set_color VGA_COLOR_LIGHT_GREY VGA_COLOR_BLACK s2);
     s4 \<leftarrow> printf (nl @ ''  Filesystem (RamFS):'' @ nl) [] (vga_set_color VGA_COLOR_LIGHT_CYAN VGA_COLOR_BLACK s3);
     print_lines
       [''    ls                - List all files'',
        ''    touch <file>      - Create empty file'',
        ''    write <f> <txt>   - Write text to file'',
        ''    cat <file>        - Display file contents'',
        ''    rm <file>         - Delete file'',
        ''    df                - Show filesystem info''] (vga_set_color VGA_COLOR_LIGHT_GREY VGA_COLOR_BLACK s4)
   }"

definition cmd_info :: "'s system_scheme \<Rightarrow> 's system_scheme option" where
  "cmd_info s = do {
     s1 \<leftarrow> printf (''SimpleOS v0.3 (Virtual Memory)'' @ nl) [] s;
     s2 \<leftarrow> printf (''Architecture: i386 (32-bit)'' @ nl) [] s1;
     s3 \<leftarrow> printf (''Timer frequency: 100 Hz'' @ nl) [] s2;
     s4 \<leftarrow> printf (''Current ticks: %d'' @ nl) [Word (timer_get_ticks s3)] s3;
     printf (''Files in RamFS: %d'' @ nl) [Word (of_int (ramfs_count (files s4)))] s4
   }"

definition print_stats :: "'s system_scheme \<Rightarrow> 's system_scheme option" where
  "print_stats s = (let v = pmm_print_stats (vm_pmm (kvm (kern s))) in do {
     t \<leftarrow> printf (''[PMM] Memory: %d KB total, %d KB used, %d KB free'' @ nl) (map Word (take 3 v)) s;
     printf (''[PMM] Pages: %d total, %d used, %d free'' @ nl) (map Word (drop 3 v)) t
   })"

fun print_rows :: "string \<Rightarrow> arg list list \<Rightarrow> 's vga_scheme \<Rightarrow> 's vga_scheme option" where
  "print_rows fmt [] s = Some s"
| "print_rows fmt (r # rs) s = do { t \<leftarrow> printf fmt r s; print_rows fmt rs t }"

definition cmd_vmm :: "'s system_scheme \<Rightarrow> 's system_scheme option" where
  "cmd_vmm s = do {
     rows \<leftarrow> vmm_print_mappings (kvm (kern s));
     t \<leftarrow> printf (''[VMM] Page Directory at 0x%x:'' @ nl) [Word (kernel_page_directory (kvm (kern s)))] s;
     print_rows (''[VMM]   PDE[%d]: 0x%x -> PT at 0x%x (virt 0x%x - 0x%x)'' @ nl)
       (map (\<lambda>(i, e, a, lo, hi). [Word i, Word e, Word a, Word lo, Word hi]) rows) t
   }"

definition process_row_format :: string where
  "process_row_format = ''%-4d %s %-8d  %-6d  %-8d  %s'' @ nl"

definition cmd_ps :: "'s system_scheme \<Rightarrow> 's system_scheme option" where
  "cmd_ps s = do {
     s1 \<leftarrow> printf (''PID  State      Priority  Parent  Children  Name'' @ nl) [] s;
     s2 \<leftarrow> printf (''---  ---------  --------  ------  --------  ----'' @ nl) [] s1;
     print_rows process_row_format
       (map (\<lambda>(n, st, prio, parent, kids, name).
              [Word n, Text (Some st), Word prio, Word parent, Word kids, Text (Some name)])
         (process_print_table (kern s2))) s2
   }"

text \<open>The test page of \<open>alloc\<close>: map, write, read back, unmap.\<close>

definition alloc_map_test :: "u32 \<Rightarrow> 's system_scheme \<Rightarrow> 's system_scheme option" where
  "alloc_map_test phys s = do {
     let virt = 0x400000;
     (ok, v) \<leftarrow> vmm_map_page virt phys PTE_WRITABLE (kvm (kern s));
     let s1 = s\<lparr>kern := with_vm v (kern s)\<rparr>;
     if \<not> ok then Some s1
     else do {
       s2 \<leftarrow> printf (''  Mapped to virtual address 0x%x'' @ nl) [Word virt] s1;
       v2 \<leftarrow> store32 virt 0xDEADBEEF (kvm (kern s2));
       s3 \<leftarrow> printf (''  Wrote 0xDEADBEEF to page'' @ nl) [] (s2\<lparr>kern := with_vm v2 (kern s2)\<rparr>);
       back \<leftarrow> load32 (kvm (kern s3)) virt;
       s4 \<leftarrow> printf (''  Read back: 0x%x'' @ nl) [Word back] s3;
       v3 \<leftarrow> vmm_unmap_page virt (kvm (kern s4));
       printf (''  Unmapped virtual address'' @ nl) [] (s4\<lparr>kern := with_vm v3 (kern s4)\<rparr>)
     }
   }"

definition cmd_alloc :: "'s system_scheme \<Rightarrow> 's system_scheme option" where
  "cmd_alloc s = do {
     s1 \<leftarrow> printf (''Testing page allocation...'' @ nl) [] s;
     let (phys, v) = alloc_frame (kvm (kern s1));
     let s2 = s1\<lparr>kern := with_vm v (kern s1)\<rparr>;
     s3 \<leftarrow> (if phys \<noteq> 0 then do {
              t1 \<leftarrow> printf (''  Allocated physical page at 0x%x'' @ nl) [Word phys] s2;
              t2 \<leftarrow> alloc_map_test phys t1;
              printf (''  Freed physical page'' @ nl) []
                (t2\<lparr>kern := with_vm (release_page phys (kvm (kern t2))) (kern t2)\<rparr>)
            }
            else printf (''  ERROR: Could not allocate page!'' @ nl) [] s2);
     print_stats s3
   }"

text \<open>Loading an empty interrupt table and raising an interrupt resets the machine.\<close>

definition cmd_reboot :: "'s system_scheme \<Rightarrow> 's system_scheme ending option" where
  "cmd_reboot s = map_option (\<lambda>t. Halts (t\<lparr>interrupts_on := False, idtr := (0, 0)\<rparr>)) (printf (''Rebooting...'' @ nl) [] s)"

definition cmd_halt :: "'s system_scheme \<Rightarrow> 's system_scheme ending option" where
  "cmd_halt s = map_option (\<lambda>t. Halts (t\<lparr>interrupts_on := False\<rparr>)) (printf (''Halting CPU...'' @ nl) [] s)"

definition create :: "image \<Rightarrow> string \<Rightarrow> string \<Rightarrow> 's system_scheme \<Rightarrow> (u32 \<times> 's system_scheme) option" where
  "create img name fn s = do {
     (n, k) \<leftarrow> process_create name (address_of img fn) PRIORITY_REGULAR (kern s);
     Some (n, s\<lparr>kern := k\<rparr>)
   }"

definition start_scheduler :: "'s system_scheme \<Rightarrow> 's system_scheme" where
  "start_scheduler s = s\<lparr>kern := scheduler_start (kern s)\<rparr>"

definition cmd_testproc :: "image \<Rightarrow> 's system_scheme \<Rightarrow> 's system_scheme option" where
  "cmd_testproc img s = do {
     s0 \<leftarrow> printf (''Creating test processes...'' @ nl) [] s;
     (pid1, s1) \<leftarrow> create img ''TestA'' ''test_process_1'' s0;
     (pid2, s2) \<leftarrow> create img ''TestB'' ''test_process_2'' s1;
     (pid3, s3) \<leftarrow> create img ''TestC'' ''test_process_3'' s2;
     if pid1 \<noteq> 0 \<and> pid2 \<noteq> 0 \<and> pid3 \<noteq> 0 then do {
       s4 \<leftarrow> printf (''Created processes: PID %d, %d, %d'' @ nl) [Word pid1, Word pid2, Word pid3] s3;
       s5 \<leftarrow> printf (''Starting scheduler...'' @ nl) [] s4;
       s6 \<leftarrow> printf (''You should see A, B, C printed in rotation.'' @ nl) [] s5;
       s7 \<leftarrow> printf (''(Press Ctrl+C or reset to stop)'' @ nl @ nl) [] s6;
       Some (start_scheduler s7)
     }
     else printf (''ERROR: Failed to create test processes!'' @ nl) [] s3
   }"

definition cmd_testexit :: "image \<Rightarrow> 's system_scheme \<Rightarrow> 's system_scheme option" where
  "cmd_testexit img s = do {
     s0 \<leftarrow> printf (''Testing DosExit - process termination...'' @ nl) [] s;
     (pid1, s1) \<leftarrow> create img ''TestX'' ''test_process_4'' s0;
     (pid2, s2) \<leftarrow> create img ''TestA'' ''test_process_1'' s1;
     (pid3, s3) \<leftarrow> create img ''TestB'' ''test_process_2'' s2;
     if pid1 \<noteq> 0 \<and> pid2 \<noteq> 0 \<and> pid3 \<noteq> 0 then do {
       s4 \<leftarrow> printf (''Created: TestX (PID %d, will exit), TestA (PID %d), TestB (PID %d)'' @ nl)
               [Word pid1, Word pid2, Word pid3] s3;
       s5 \<leftarrow> printf (''Watch: X will print 5 times then exit, leaving A and B running.'' @ nl @ nl) [] s4;
       Some (start_scheduler s5)
     }
     else printf (''ERROR: Failed to create test processes!'' @ nl) [] s3
   }"

definition cmd_testhier :: "image \<Rightarrow> 's system_scheme \<Rightarrow> 's system_scheme option" where
  "cmd_testhier img s = do {
     s0 \<leftarrow> printf (''Testing parent-child process hierarchy...'' @ nl) [] s;
     (parent, s1) \<leftarrow> create img ''Parent'' ''test_parent_process'' s0;
     (child1, s2) \<leftarrow> create img ''Child1'' ''test_child_process'' s1;
     (child2, s3) \<leftarrow> create img ''Child2'' ''test_child_process'' s2;
     (bg, s4) \<leftarrow> create img ''TestA'' ''test_process_1'' s3;
     if parent \<noteq> 0 \<and> child1 \<noteq> 0 \<and> child2 \<noteq> 0 \<and> bg \<noteq> 0 then do {
       t1 \<leftarrow> printf (''Created hierarchy:'' @ nl) [] s4;
       t2 \<leftarrow> printf (''  Parent (PID %d) - will exit after 10 iterations'' @ nl) [Word parent] t1;
       t3 \<leftarrow> printf (''  Child1 (PID %d) - will exit with code 42 after 3 iterations'' @ nl) [Word child1] t2;
       t4 \<leftarrow> printf (''  Child2 (PID %d) - will exit with code 42 after 3 iterations'' @ nl) [Word child2] t3;
       t5 \<leftarrow> printf (''  TestA  (PID %d) - background process (infinite)'' @ nl) [Word bg] t4;
       t6 \<leftarrow> printf (nl @ ''Run '' @ [CHR 0x27] @ ''ps'' @ [CHR 0x27] @
               '' later to see parent/child relationships and exit codes.'' @ nl @ nl) [] t5;
       Some (start_scheduler t6)
     }
     else printf (''ERROR: Failed to create test processes!'' @ nl) [] s4
   }"

text \<open>\<open>regs\<close> are the registers the processor holds when the jump to ring 3 is made.\<close>

definition cmd_usermode :: "image \<Rightarrow> registers \<Rightarrow> 's system_scheme \<Rightarrow> 's system_scheme ending option" where
  "cmd_usermode img regs s = do {
     s1 \<leftarrow> printf (''Testing user mode (Ring 3) support...'' @ nl) [] s;
     s2 \<leftarrow> printf (''This will jump to Ring 3 and make a system call.'' @ nl) [] s1;
     s3 \<leftarrow> printf (''If successful, you'' @ [CHR 0x27] @ ''ll see a syscall message.'' @ nl @ nl) [] s2;
     map_option (map_ending snd)
       (enter_user_mode (address_of img ''user_mode_test_function'') (cr2 img) (stack_junk img) (regs, s3))
   }"

definition with_files :: "ramfs \<Rightarrow> 's system_scheme \<Rightarrow> 's system_scheme" where
  "with_files fs s = s\<lparr>files := fs\<rparr>"

definition quoted :: "string \<Rightarrow> string \<Rightarrow> string \<Rightarrow> string" where
  "quoted before str after = before @ [CHR 0x27] @ str @ [CHR 0x27] @ after"

fun list_files :: "(string \<times> u32) list \<Rightarrow> 's vga_scheme \<Rightarrow> 's vga_scheme option" where
  "list_files [] s = Some s"
| "list_files ((name, sz) # rest) s = do { t \<leftarrow> list_file_callback name sz s; list_files rest t }"

definition cmd_ls :: "'s system_scheme \<Rightarrow> 's system_scheme option" where
  "cmd_ls s =
     (let count = ramfs_count (files s)
      in if count = 0 then printf (''No files in filesystem.'' @ nl) [] s
         else do {
           t \<leftarrow> printf (''Files in RamFS (%d):'' @ nl) [Word (of_int count)] s;
           list_files (ramfs_list (files t)) t
         })"

definition cmd_df :: "'s system_scheme \<Rightarrow> 's system_scheme option" where
  "cmd_df s = do {
     s1 \<leftarrow> printf (''RamFS Filesystem Info:'' @ nl) [] s;
     s2 \<leftarrow> printf (''  Max files:     %d'' @ nl) [Word (of_nat RAMFS_MAX_FILES)] s1;
     s3 \<leftarrow> printf (''  Used files:    %d'' @ nl) [Word (of_int (ramfs_count (files s2)))] s2;
     s4 \<leftarrow> printf (''  Free slots:    %d'' @ nl) [Word (of_int (int RAMFS_MAX_FILES - ramfs_count (files s3)))] s3;
     s5 \<leftarrow> printf (''  Max file size: %d bytes'' @ nl) [Word RAMFS_MAX_FILESIZE] s4;
     printf (''  Free space:    %d bytes'' @ nl) [Word (ramfs_free_space (files s5))] s5
   }"

definition cmd_touch :: "string \<Rightarrow> 's system_scheme \<Rightarrow> 's system_scheme option" where
  "cmd_touch cmd s =
     (let name = skip_whitespace (drop 6 cmd)
      in if name = [] then printf (''Usage: touch <filename>'' @ nl) [] s
         else
           let filename = parse_name name
           in if ramfs_exists (files s) filename
              then printf (quoted ''File '' ''%s'' '' already exists.'' @ nl) [Text (Some filename)] s
              else
                let (r, fs) = ramfs_create (files s) filename; t = with_files fs s
                in if r = 0 then printf (quoted ''Created file '' ''%s'' [] @ nl) [Text (Some filename)] t
                   else printf (''Error: Could not create file.'' @ nl) [] t)"

definition cmd_rm :: "string \<Rightarrow> 's system_scheme \<Rightarrow> 's system_scheme option" where
  "cmd_rm cmd s =
     (let name = skip_whitespace (drop 3 cmd)
      in if name = [] then printf (''Usage: rm <filename>'' @ nl) [] s
         else
           let filename = parse_name name;
               (r, fs) = ramfs_delete (files s) filename; t = with_files fs s
           in if r = 0 then printf (quoted ''Deleted '' ''%s'' [] @ nl) [Text (Some filename)] t
              else printf (quoted ''Error: File '' ''%s'' '' not found.'' @ nl) [Text (Some filename)] t)"

text \<open>A C string in an array of bytes, up to its terminator.\<close>

definition c_string :: "u8 list \<Rightarrow> string" where
  "c_string bs = map (\<lambda>b. char_of (unat b)) (takeWhile (\<lambda>b. b \<noteq> 0) bs)"

definition cmd_cat :: "image \<Rightarrow> string \<Rightarrow> 's system_scheme \<Rightarrow> 's system_scheme option" where
  "cmd_cat img cmd s =
     (let name = skip_whitespace (drop 4 cmd)
      in if name = [] then printf (''Usage: cat <filename>'' @ nl) [] s
         else
           let filename = parse_name name
           in if \<not> ramfs_exists (files s) filename
              then printf (quoted ''Error: File '' ''%s'' '' not found.'' @ nl) [Text (Some filename)] s
              else do {
                (bytes, buffer) \<leftarrow> ramfs_read (files s) filename (file_buffer img) RAMFS_MAX_FILESIZE;
                if bytes \<ge> 0 then
                  let buf = buffer[nat bytes := 0]
                  in if bytes = 0 then printf (''(empty file)'' @ nl) [] s
                     else do {
                       t \<leftarrow> printf ''%s'' [Text (Some (c_string buf))] s;
                       if bytes > 0 \<and> buf ! nat (bytes - 1) \<noteq> 10 then printf nl [] t else Some t
                     }
                else Some s
              })"

definition to_bytes :: "string \<Rightarrow> u8 list" where
  "to_bytes str = map of_char str"

definition cmd_write :: "string \<Rightarrow> 's system_scheme \<Rightarrow> 's system_scheme option" where
  "cmd_write cmd s =
     (let args = skip_whitespace (drop 6 cmd)
      in if args = [] then printf (''Usage: write <filename> <text>'' @ nl) [] s
         else
           let filename = parse_name args;
               content = skip_whitespace (skip_to_whitespace args)
           in if content = [] then printf (''Usage: write <filename> <text>'' @ nl) [] s
              else do {
                (written, fs) \<leftarrow> ramfs_write (files s) filename (to_bytes content) (of_nat (str_len content));
                let t = with_files fs s;
                if written \<ge> 0
                then printf (quoted ''Wrote %d bytes to '' ''%s'' [] @ nl) [Word (of_int written), Text (Some filename)] t
                else printf (''Error: Could not write to file.'' @ nl) [] t
              })"

definition cmd_unknown :: "string \<Rightarrow> 's vga_scheme \<Rightarrow> 's vga_scheme option" where
  "cmd_unknown cmd s = do {
     t \<leftarrow> printf (''Unknown command: %s'' @ nl) [Text (Some cmd)] s;
     printf (quoted ''Type '' ''help'' '' for available commands.'' @ nl) [] t
   }"

definition returns :: "'a option \<Rightarrow> 'a ending option" where
  "returns r = map_option Returns r"

definition shell_process_command :: "image \<Rightarrow> registers \<Rightarrow> string \<Rightarrow> 's system_scheme \<Rightarrow> 's system_scheme ending option" where
  "shell_process_command img regs line s =
     (let cmd = skip_whitespace line
      in if cmd = [] then Some (Returns s)
         else if cmd_equal cmd ''help'' then returns (cmd_help s)
         else if cmd_equal cmd ''clear'' then returns (vga_clear s)
         else if cmd_equal cmd ''info'' then returns (cmd_info s)
         else if cmd_equal cmd ''mem'' then returns (print_stats s)
         else if cmd_equal cmd ''vmm'' then returns (cmd_vmm s)
         else if cmd_equal cmd ''alloc'' then returns (cmd_alloc s)
         else if cmd_equal cmd ''reboot'' then cmd_reboot s
         else if cmd_equal cmd ''halt'' then cmd_halt s
         else if cmd_equal cmd ''ps'' then returns (cmd_ps s)
         else if cmd_equal cmd ''testproc'' then returns (cmd_testproc img s)
         else if cmd_equal cmd ''testexit'' then returns (cmd_testexit img s)
         else if cmd_equal cmd ''testhier'' then returns (cmd_testhier img s)
         else if cmd_equal cmd ''usermode'' then cmd_usermode img regs s
         else if cmd_equal cmd ''ls'' then returns (cmd_ls s)
         else if cmd_equal cmd ''df'' then returns (cmd_df s)
         else if str_starts_with cmd ''touch '' then returns (cmd_touch cmd s)
         else if str_starts_with cmd ''rm '' then returns (cmd_rm cmd s)
         else if str_starts_with cmd ''cat '' then returns (cmd_cat img cmd s)
         else if str_starts_with cmd ''write '' then returns (cmd_write cmd s)
         else returns (cmd_unknown cmd s))"

section \<open>The event loop\<close>

definition store_cmd :: "char \<Rightarrow> 's system_scheme \<Rightarrow> 's system_scheme option" where
  "store_cmd c s =
     (if 0 \<le> cmd_pos s \<and> cmd_pos s < int (length (cmd_buffer s))
      then Some (s\<lparr>cmd_buffer := (cmd_buffer s)[nat (cmd_pos s) := c]\<rparr>) else None)"

text \<open>The buffer as a C string.\<close>

definition command_line :: "'s system_scheme \<Rightarrow> string" where
  "command_line s = takeWhile (\<lambda>c. c \<noteq> CHR 0x00) (cmd_buffer s)"

definition key_down :: "image \<Rightarrow> registers \<Rightarrow> char \<Rightarrow> 's system_scheme \<Rightarrow> 's system_scheme ending option" where
  "key_down img regs c s =
     (if c = CHR 0x0A then do {
        s1 \<leftarrow> printf nl [] s;
        s2 \<leftarrow> store_cmd CHR 0x00 s1;
        andthen (shell_process_command img regs (command_line s2) s2)
          (\<lambda>s3. returns (shell_prompt (s3\<lparr>cmd_pos := 0\<rparr>)))
      }
      else if c = CHR 0x08 then
        (if cmd_pos s > 0 then returns (vga_putchar CHR 0x08 (s\<lparr>cmd_pos := cmd_pos s - 1\<rparr>)) else Some (Returns s))
      else if CHR '' '' \<le> c \<and> c < CHR 0x7F then
        (if cmd_pos s < CMD_BUFFER_SIZE - 1
         then do {
           s1 \<leftarrow> store_cmd c s;
           returns (vga_putchar c (s1\<lparr>cmd_pos := cmd_pos s1 + 1\<rparr>))
         }
         else Some (Returns s))
      else Some (Returns s))"

definition word16 :: "u8 list \<Rightarrow> nat \<Rightarrow> u32" where
  "word16 bs i = ucast (bs ! i) OR push_bit 8 (ucast (bs ! (i + 1)))"

definition mouse_click :: "u8 list \<Rightarrow> 's system_scheme \<Rightarrow> 's system_scheme option" where
  "mouse_click data s = do {
     s1 \<leftarrow> printf (nl @ ''[Mouse] Click at (%d, %d) button %d'' @ nl)
            [Word (word16 data 0), Word (word16 data 2), Word (ucast (data ! 4))] s;
     s2 \<leftarrow> shell_prompt s1;
     for_int 0 (cmd_pos s2) (\<lambda>i t. vga_putchar (cmd_buffer t ! nat i) t) s2
   }"

definition loop_body :: "image \<Rightarrow> registers \<Rightarrow> 's system_scheme \<Rightarrow> 's system_scheme ending option" where
  "loop_body img regs s =
     (if events_pending (queue s)
      then let (e, q) = pop_event (stack_junk img 0) (queue s); t = s\<lparr>queue := q\<rparr>
           in if ev_type e = EVENT_TYPE_KEY_DOWN then key_down img regs (char_of (unat (ev_data e ! 0))) t
              else if ev_type e = EVENT_TYPE_MOUSE_MOVE then Some (Returns t)
              else if ev_type e = EVENT_TYPE_MOUSE_CLICK then returns (mouse_click (ev_data e) t)
              else Some (Returns t)
      else Some (Returns s))"

text \<open>\<open>n\<close> turns of the endless loop; between two of them \<open>hlt\<close> waits for the interrupt \<open>wake n\<close>.\<close>

fun main_loop :: "image \<Rightarrow> registers \<Rightarrow> (nat \<Rightarrow> 's system_scheme \<Rightarrow> 's system_scheme) \<Rightarrow> nat \<Rightarrow> 's system_scheme \<Rightarrow>
    's system_scheme ending option" where
  "main_loop img regs wake 0 s = Some (Returns s)"
| "main_loop img regs wake (Suc n) s = andthen (loop_body img regs s) (\<lambda>t. main_loop img regs wake n (wake n t))"

section \<open>The helpers in terms of the list library\<close>

definition is_blank :: "char \<Rightarrow> bool" where
  "is_blank c \<longleftrightarrow> c = CHR '' '' \<or> c = CHR 0x09"

lemma skip_whitespace_eq: "skip_whitespace s = dropWhile is_blank s"
  by (induction s) (auto simp: is_blank_def)

lemma skip_to_whitespace_eq: "skip_to_whitespace s = dropWhile (\<lambda>c. \<not> is_blank c) s"
  by (induction s) (auto simp: is_blank_def)

lemma str_len_eq [simp]: "str_len s = length s"
  by (induction s) simp_all

lemma cmd_equal_eq [simp]: "cmd_equal a b \<longleftrightarrow> a = b"
  by (induction a b rule: cmd_equal.induct) auto

lemma str_starts_with_eq: "str_starts_with s p \<longleftrightarrow> (\<exists>r. s = p @ r)"
  by (induction s p rule: str_starts_with.induct) auto

lemma copy_str_take: "copy_str s n = take (n - 1) s"
proof (induction s n rule: copy_str.induct)
  case (2 c s n)
  show ?case
  proof (cases "0 < n - 1")
    case True
    then have "n - 1 = Suc (n - 2)" by linarith
    then show ?thesis using "2.IH" [OF True] True by (simp add: diff_diff_left)
  qed simp
qed simp

lemma parse_name_eq: "parse_name s = take 31 (takeWhile (\<lambda>c. \<not> is_blank c) s)"
proof -
  let ?w = "takeWhile (\<lambda>c. \<not> is_blank c) s"
  have s: "s = ?w @ skip_to_whitespace s" by (simp add: skip_to_whitespace_eq)
  then have "length s - length (skip_to_whitespace s) = length ?w" by (metis add_diff_cancel_right' length_append)
  moreover have "(if 32 \<le> k then 31 else k) = min 31 k" for k :: nat by auto
  ultimately have "parse_name s = take (min 31 (length ?w)) s"
    by (simp add: parse_name_def copy_str_take RAMFS_MAX_FILENAME_def Let_def)
  also have "\<dots> = take (min 31 (length ?w)) ?w" by (subst s) simp
  finally show ?thesis by (simp add: min_def)
qed

lemma parse_name_word:
  assumes "n \<noteq> []" and "\<forall>c \<in> set n. \<not> is_blank c" and "length n < 32" and "rest = [] \<or> is_blank (hd rest)"
  shows "parse_name (n @ rest) = n" and "skip_to_whitespace (n @ rest) = rest" and "skip_whitespace (n @ rest) = n @ rest"
proof -
  have "takeWhile (\<lambda>c. \<not> is_blank c) (n @ rest) = n" "dropWhile (\<lambda>c. \<not> is_blank c) (n @ rest) = rest"
    using assms(2,4) by (cases rest; auto simp: takeWhile_append dropWhile_append)+
  then show "parse_name (n @ rest) = n" "skip_to_whitespace (n @ rest) = rest"
    using assms(3) by (simp_all add: parse_name_eq skip_to_whitespace_eq)
  show "skip_whitespace (n @ rest) = n @ rest" using assms(1,2) by (cases n) (simp_all add: skip_whitespace_eq)
qed

section \<open>Printing leaves the system alone\<close>

lemma more_system:
  fixes s t :: "'s system_scheme"
  assumes "vga.more t = vga.more s"
  shows "kern t = kern s" and "files t = files s" and "cmd_buffer t = cmd_buffer s" and "cmd_pos t = cmd_pos s"
    and "queue t = queue s"
  using assms by (cases s; cases t; simp)+

lemma console_ok_system [simp]:
  "console_ok (s\<lparr>files := fs\<rparr>) = console_ok s" "console_ok (s\<lparr>cmd_pos := p\<rparr>) = console_ok s"
  "console_ok (s\<lparr>cmd_buffer := b\<rparr>) = console_ok s" "console_ok (s\<lparr>queue := q\<rparr>) = console_ok s"
  "console_ok (with_files fs s) = console_ok s"
  by (simp_all add: console_ok_def vga_inv_def line_ready_def ready_def with_files_def)

lemma displays_system:
  fixes s :: "'s system_scheme"
  assumes "displays p" and "console_ok s"
  shows "\<exists>t. p s = Some t \<and> console_ok t \<and> vga.more t = vga.more s \<and> kern t = kern s \<and> files t = files s \<and>
    cmd_buffer t = cmd_buffer s \<and> cmd_pos t = cmd_pos s \<and> queue t = queue s"
proof -
  obtain t where t: "p s = Some t" "console_ok t" "vga.more t = vga.more s" using assms by (rule displaysD)
  then show ?thesis using more_system [OF t(3)] by blast
qed

lemma accepts_append: "CHR ''%'' \<notin> set f \<Longrightarrow> accepts (f @ g) args = accepts g args"
  by (induction f) auto

lemma accepts_plain: "CHR ''%'' \<notin> set f \<Longrightarrow> accepts f args"
  using accepts_append [of f "[]" args] by simp

lemma displays_shell_prompt: "displays shell_prompt"
  unfolding shell_prompt_def by (intro displays_intros) (simp_all add: nl_def)

lemma displays_cmd_unknown: "displays (cmd_unknown cmd)"
  unfolding cmd_unknown_def by (intro displays_intros) (simp_all add: nl_def quoted_def)

lemma displays_print_lines: "\<forall>l \<in> set ls. CHR ''%'' \<notin> set l \<Longrightarrow> displays (print_lines ls :: 's vga_scheme \<Rightarrow> 's vga_scheme option)"
proof (induction ls)
  case Nil
  then show ?case using displays_Some by (simp add: displays_def)
next
  case (Cons l ls)
  have "accepts (l @ nl) []" using Cons.prems by (intro accepts_plain) (simp add: nl_def)
  then have "displays (\<lambda>s :: 's vga_scheme. printf (l @ nl) [] s \<bind> print_lines ls)" by (rule displays_steps(1)) (use Cons in auto)
  moreover have "print_lines (l # ls) = (\<lambda>s. printf (l @ nl) [] s \<bind> print_lines ls)" by (rule ext) simp
  ultimately show ?case by simp
qed

section \<open>Editing the command line\<close>

definition editable :: "char \<Rightarrow> bool" where
  "editable c \<longleftrightarrow> CHR '' '' \<le> c \<and> c < CHR 0x7F"

text \<open>The line the user sees.\<close>

definition edit :: "char \<Rightarrow> string \<Rightarrow> string" where
  "edit c line =
     (if c = CHR 0x08 then butlast line
      else if editable c \<and> length line < 255 then line @ [c] else line)"

definition edit_inv :: "string \<Rightarrow> 's system_scheme \<Rightarrow> bool" where
  "edit_inv line s \<longleftrightarrow> console_ok s \<and> length (cmd_buffer s) = 256 \<and> length line \<le> 255 \<and> cmd_pos s = int (length line) \<and>
     take (length line) (cmd_buffer s) = line \<and> (\<forall>c \<in> set line. editable c)"

lemma key_down_edit:
  assumes inv: "edit_inv line s" and c: "c \<noteq> CHR 0x0A"
  shows "\<exists>t. key_down img regs c s = Some (Returns t) \<and> edit_inv (edit c line) t \<and> files t = files s \<and> kern t = kern s"
proof -
  note I = inv [unfolded edit_inv_def]
  consider "c = CHR 0x08" "line \<noteq> []" | "c = CHR 0x08" "line = []" | "c \<noteq> CHR 0x08" "editable c" "length line < 255"
    | "c \<noteq> CHR 0x08" "\<not> (editable c \<and> length line < 255)" by blast
  then show ?thesis
  proof cases
    case 1
    let ?s = "s\<lparr>cmd_pos := cmd_pos s - 1\<rparr>"
    have "console_ok ?s" using I by simp
    from displays_system [OF displays_putchar this, of "CHR 0x08"] obtain t where t: "vga_putchar CHR 0x08 ?s = Some t"
      "console_ok t" "kern t = kern s" "files t = files s" "cmd_buffer t = cmd_buffer s" "cmd_pos t = cmd_pos s - 1" by auto
    have "take (length (butlast line)) (cmd_buffer s) = butlast line"
      using I by (metis butlast_conv_take take_take length_butlast min.absorb1 diff_le_self)
    then have "edit_inv (butlast line) t"
      using I t 1 by (auto simp: edit_inv_def of_nat_diff Suc_le_eq dest: in_set_butlastD)
    then show ?thesis using t 1 I by (simp add: key_down_def returns_def edit_def)
  next
    case 2
    then show ?thesis using I inv by (simp add: key_down_def edit_def)
  next
    case 3
    let ?s = "s\<lparr>cmd_buffer := (cmd_buffer s)[length line := c], cmd_pos := cmd_pos s + 1\<rparr>"
    have "console_ok ?s" using I by simp
    from displays_system [OF displays_putchar this, of c] obtain t where t: "vga_putchar c ?s = Some t"
      "console_ok t" "kern t = kern s" "files t = files s" "cmd_buffer t = (cmd_buffer s)[length line := c]"
      "cmd_pos t = cmd_pos s + 1" by auto
    have "take (Suc (length line)) ((cmd_buffer s)[length line := c]) = line @ [c]"
      using I 3(3) by (simp add: take_Suc_conv_app_nth)
    then have "edit_inv (line @ [c]) t" using I t 3 by (simp add: edit_inv_def)
    moreover have "key_down img regs c s = Some (Returns t)"
      using t(1) 3 c I by (simp add: key_down_def returns_def store_cmd_def editable_def CMD_BUFFER_SIZE_def)
    ultimately show ?thesis using t 3 by (simp add: edit_def)
  next
    case 4
    then have "key_down img regs c s = Some (Returns s)"
      using c I by (auto simp: key_down_def editable_def CMD_BUFFER_SIZE_def)
    then show ?thesis using 4 inv by (auto simp: edit_def)
  qed
qed

text \<open>The row of the cursor shows the line from column \<open>p\<close> on, then blanks, and the cursor stands
  behind it.\<close>

definition echoed :: "int \<Rightarrow> string \<Rightarrow> 's vga_scheme \<Rightarrow> bool" where
  "echoed p line s \<longleftrightarrow> 0 \<le> p \<and> p + int (length line) < 80 \<and> vga_col s = p + int (length line) \<and>
     row_text p s = line @ replicate (80 - nat p - length line) CHR '' ''"

lemma echoed_update:
  "echoed p l (s\<lparr>cmd_buffer := b\<rparr>) = echoed p l s" "echoed p l (s\<lparr>cmd_pos := i\<rparr>) = echoed p l s"
  for s :: "'s system_scheme"
  by (simp_all add: echoed_def row_text_def)

lemma echo_char:
  assumes "vga_inv s" "echoed p line s" "printable c" "p + int (length line) + 1 < 80" "vga_putchar c s = Some t"
  shows "echoed p (line @ [c]) t"
proof -
  have e: "0 \<le> p" "vga_col s = p + int (length line)" "row_text p s = line @ replicate (80 - nat p - length line) CHR '' ''"
    using assms(2) by (simp_all add: echoed_def)
  note r = putchar_row [OF assms(1) e(1,2) assms(4,3,5)]
  have n: "80 - nat p - length line = Suc (80 - nat p - Suc (length line))" using e(1) assms(4) by simp
  have "(line @ replicate (80 - nat p - length line) CHR '' '')[length line := c] =
      (line @ [c]) @ replicate (80 - nat p - Suc (length line)) CHR '' ''"
    unfolding n by (simp add: list_update_append)
  then show ?thesis using r e(1,3) assms(4) by (simp add: echoed_def)
qed

lemma echo_backspace:
  assumes "vga_inv s" "echoed p line s" "line \<noteq> []" "vga_putchar CHR 0x08 s = Some t"
  shows "echoed p (butlast line) t"
proof -
  obtain cs c where l: "line = cs @ [c]" using assms(3) by (cases line rule: rev_cases) auto
  have e: "0 \<le> p" "vga_col s = p + int (Suc (length cs))" "p + int (Suc (length cs)) < 80"
    "row_text p s = (cs @ [c]) @ replicate (80 - nat p - Suc (length cs)) CHR '' ''"
    using assms(2) by (simp_all add: echoed_def l)
  note r = backspace_row [OF assms(1) e(1,2) assms(4)]
  have n: "80 - nat p - length cs = Suc (80 - nat p - Suc (length cs))" using e(1,3) by simp
  have "((cs @ [c]) @ replicate (80 - nat p - Suc (length cs)) CHR '' '')[length cs := CHR '' ''] =
      cs @ replicate (80 - nat p - length cs) CHR '' ''"
    unfolding n by (simp add: list_update_append)
  then show ?thesis using r e by (simp add: echoed_def l)
qed

text \<open>Every key keeps the screen in step with the line, as long as the line stays on its row.\<close>

lemma key_down_echo:
  assumes inv: "edit_inv line s" and e: "echoed p line s" and c: "c \<noteq> CHR 0x0A"
    and fit: "p + int (length (edit c line)) < 80" and t: "key_down img regs c s = Some (Returns t)"
  shows "echoed p (edit c line) t"
proof -
  note I = inv [unfolded edit_inv_def]
  have vga: "vga_inv s" using I by (simp add: console_ok_def)
  consider "c = CHR 0x08" "line \<noteq> []" | "c = CHR 0x08" "line = []" | "c \<noteq> CHR 0x08" "editable c" "length line < 255"
    | "c \<noteq> CHR 0x08" "\<not> (editable c \<and> length line < 255)" by blast
  then show ?thesis
  proof cases
    case 1
    let ?s = "s\<lparr>cmd_pos := cmd_pos s - 1\<rparr>"
    have "vga_putchar CHR 0x08 ?s = Some t"
      using t 1 I by (cases "vga_putchar CHR 0x08 ?s") (simp_all add: key_down_def returns_def)
    moreover have "vga_inv ?s" "echoed p line ?s" using vga e by (simp_all add: vga_inv_def echoed_update)
    ultimately show ?thesis using echo_backspace [of ?s p line t] 1 by (simp add: edit_def)
  next
    case 2
    then show ?thesis using t I e by (simp add: key_down_def edit_def)
  next
    case 3
    let ?s = "s\<lparr>cmd_buffer := (cmd_buffer s)[length line := c], cmd_pos := cmd_pos s + 1\<rparr>"
    have "vga_putchar c ?s = Some t"
      using t 3 c I by (cases "vga_putchar c ?s") (simp_all add: key_down_def returns_def store_cmd_def editable_def CMD_BUFFER_SIZE_def)
    moreover have "vga_inv ?s" "echoed p line ?s" using vga e by (simp_all add: vga_inv_def echoed_update)
    moreover have "printable c" using 3(2) by (auto simp: printable_def editable_def less_eq_char_def)
    ultimately show ?thesis using echo_char [of ?s p line c t] 3 fit by (simp add: edit_def)
  next
    case 4
    then have "key_down img regs c s = Some (Returns s)"
      using c I by (auto simp: key_down_def editable_def CMD_BUFFER_SIZE_def)
    then show ?thesis using 4 e t by (auto simp: edit_def)
  qed
qed

text \<open>A sequence of keys.\<close>

fun type_keys :: "image \<Rightarrow> registers \<Rightarrow> string \<Rightarrow> 's system_scheme \<Rightarrow> 's system_scheme ending option" where
  "type_keys img regs [] s = Some (Returns s)"
| "type_keys img regs (c # cs) s = andthen (key_down img regs c s) (type_keys img regs cs)"

lemma type_keys_edit:
  assumes "edit_inv line s" and "CHR 0x0A \<notin> set cs"
  shows "\<exists>t. type_keys img regs cs s = Some (Returns t) \<and> edit_inv (fold edit cs line) t \<and> files t = files s \<and> kern t = kern s"
  using assms
proof (induction cs arbitrary: line s)
  case (Cons c cs)
  obtain u where u: "key_down img regs c s = Some (Returns u)" "edit_inv (edit c line) u" "files u = files s" "kern u = kern s"
    using key_down_edit [OF Cons.prems(1), of c] Cons.prems(2) by auto
  then show ?case using Cons.IH [OF u(2)] Cons.prems(2) by (auto simp: andthen_def)
qed simp

lemma type_keys_echo:
  assumes "edit_inv line s" and "echoed p line s" and "CHR 0x0A \<notin> set cs"
    and "\<And>n. p + int (length (fold edit (take n cs) line)) < 80"
    and "type_keys img regs cs s = Some (Returns t)"
  shows "echoed p (fold edit cs line) t"
  using assms
proof (induction cs arbitrary: line s)
  case (Cons c cs)
  have c: "c \<noteq> CHR 0x0A" using Cons.prems(3) by auto
  obtain u where u: "key_down img regs c s = Some (Returns u)" "edit_inv (edit c line) u"
    using key_down_edit [OF Cons.prems(1) c] by blast
  have "echoed p (edit c line) u"
    using key_down_echo [OF Cons.prems(1,2) c _ u(1)] Cons.prems(4) [of 1] by simp
  moreover have "p + int (length (fold edit (take n cs) (edit c line))) < 80" for n
    using Cons.prems(4) [of "Suc n"] by simp
  ultimately show ?case
    using Cons.IH [OF u(2)] Cons.prems(3,5) u(1) by (simp add: andthen_def)
qed simp

section \<open>Writing and reading files from the shell\<close>

lemma command_cases:
  assumes "str_starts_with cmd p" and "p \<in> {''touch '', ''rm '', ''cat '', ''write ''}"
  shows "skip_whitespace cmd = cmd" and "cmd \<noteq> []"
    and "cmd \<notin> {''help'', ''clear'', ''info'', ''mem'', ''vmm'', ''alloc'', ''reboot'', ''halt'', ''ps'', ''testproc'',
      ''testexit'', ''testhier'', ''usermode'', ''ls'', ''df''}"
  using assms by (auto simp: str_starts_with_eq skip_whitespace_eq is_blank_def)

lemma write_command:
  assumes "str_starts_with cmd ''write ''"
  shows "shell_process_command img regs cmd s = returns (cmd_write cmd s)"
proof -
  note C = command_cases [OF assms]
  have "\<not> str_starts_with cmd ''touch ''" "\<not> str_starts_with cmd ''rm ''" "\<not> str_starts_with cmd ''cat ''"
    using assms by (auto simp: str_starts_with_eq)
  then show ?thesis using C assms by (simp add: shell_process_command_def)
qed

lemma cat_command:
  assumes "str_starts_with cmd ''cat ''"
  shows "shell_process_command img regs cmd s = returns (cmd_cat img cmd s)"
proof -
  note C = command_cases [OF assms]
  have "\<not> str_starts_with cmd ''touch ''" "\<not> str_starts_with cmd ''rm ''"
    using assms by (auto simp: str_starts_with_eq)
  then show ?thesis using C assms by (simp add: shell_process_command_def)
qed

text \<open>Words that can be file names, and texts that can be contents.\<close>

definition file_word :: "string \<Rightarrow> bool" where
  "file_word n \<longleftrightarrow> n \<noteq> [] \<and> length n < 32 \<and> (\<forall>c \<in> set n. \<not> is_blank c)"

definition file_text :: "string \<Rightarrow> bool" where
  "file_text x \<longleftrightarrow> x \<noteq> [] \<and> \<not> is_blank (hd x) \<and> CHR 0x00 \<notin> set x \<and> length x \<le> 4096"

lemma c_string_bytes:
  assumes "CHR 0x00 \<notin> set x"
  shows "c_string (to_bytes x @ 0 # rest) = x"
proof -
  have nz: "(of_char c :: u8) = 0 \<longleftrightarrow> c = CHR 0x00" for c
  proof
    assume "(of_char c :: u8) = 0"
    then have "char_of (unat (of_char c :: u8)) = (CHR 0x00 :: char)" by (simp add: char_of_def)
    then show "c = CHR 0x00" by simp
  qed simp
  have "takeWhile (\<lambda>b. b \<noteq> 0) (to_bytes x @ 0 # rest) = to_bytes x"
    unfolding to_bytes_def using assms by (subst takeWhile_append2) (auto simp: nz)
  then show ?thesis by (simp add: c_string_def to_bytes_def comp_def)
qed

lemma cmd_write_stores:
  fixes s :: "'s system_scheme"
  assumes ok: "console_ok s" "ramfs_inv (files s)" and n: "file_word n" and x: "file_text x"
    and room: "n \<in> dom (ramfs_lookup (files s)) \<or> card (dom (ramfs_lookup (files s))) < 32"
  shows "\<exists>t. cmd_write (''write '' @ n @ '' '' @ x) s = Some t \<and> console_ok t \<and> ramfs_inv (files t) \<and>
    ramfs_lookup (files t) = (ramfs_lookup (files s))(n \<mapsto> to_bytes x) \<and> kern t = kern s"
proof -
  have p: "parse_name (n @ '' '' @ x) = n" "skip_to_whitespace (n @ '' '' @ x) = '' '' @ x"
    "skip_whitespace (n @ '' '' @ x) = n @ '' '' @ x"
    using parse_name_word [of n "'' '' @ x"] n by (simp_all add: file_word_def is_blank_def)
  have c: "skip_whitespace ('' '' @ x) = x" using x by (cases x) (auto simp: file_text_def is_blank_def)
  have ne: "n @ '' '' @ x \<noteq> []" "x \<noteq> []" using x by (simp_all add: file_text_def)
  have sz: "unat (of_nat (length x) :: u32) = length x" using x by (simp add: file_text_def unsigned_of_nat take_bit_nat_eq_self)
  obtain fs where fs: "ramfs_write (files s) n (to_bytes x) (of_nat (length x)) = Some (int (length x), fs)" "ramfs_inv fs"
    "ramfs_lookup fs = (ramfs_lookup (files s))(n \<mapsto> to_bytes x)"
    using fs.write_ok [OF ok(2), of n "of_nat (length x)" "to_bytes x"] n x room sz
    by (auto simp: file_word_def file_text_def to_bytes_def)
  let ?f = "quoted ''Wrote %d bytes to '' ''%s'' [] @ nl" and ?a = "[Word (of_int (int (length x))), Text (Some n)]"
  have "accepts ?f ?a" by (simp add: quoted_def nl_def)
  moreover have "console_ok (with_files fs s)" using ok(1) by simp
  ultimately obtain t where t: "printf ?f ?a (with_files fs s) = Some t" "console_ok t" "kern t = kern (with_files fs s)"
    "files t = files (with_files fs s)"
    using displays_system [OF displays_printf [of ?f ?a]] by blast
  have "cmd_write (''write '' @ n @ '' '' @ x) s = printf ?f ?a (with_files fs s)"
    using p c ne fs(1) by (simp add: cmd_write_def Let_def)
  then show ?thesis using t fs(2,3) by (simp add: with_files_def)
qed

lemma cmd_cat_prints:
  fixes s :: "'s system_scheme"
  assumes ok: "ramfs_inv (files s)" and n: "file_word n" and x: "file_text x"
    and lk: "ramfs_lookup (files s) n = Some (to_bytes x)" and buf: "length (file_buffer img) = 4097"
  shows "cmd_cat img (''cat '' @ n) s =
    (do { t \<leftarrow> printf ''%s'' [Text (Some x)] s; if last x \<noteq> CHR 0x0A then printf nl [] t else Some t })"
proof -
  have p: "parse_name n = n" "skip_whitespace n = n" "n \<noteq> []"
    using parse_name_word [of n "[]"] n by (simp_all add: file_word_def)
  have e: "ramfs_exists (files s) n" using lk by (auto simp: ramfs_exists_def ramfs_lookup_def)
  have len: "length (to_bytes x) = length x" "length x \<le> 4096" "0 < length x" using x by (auto simp: to_bytes_def file_text_def)
  have rd: "ramfs_read (files s) n (file_buffer img) RAMFS_MAX_FILESIZE =
      Some (int (length x), to_bytes x @ drop (length x) (file_buffer img))"
    using ramfs_read_spec [OF ok lk, of RAMFS_MAX_FILESIZE "file_buffer img"] len buf
    by (simp add: RAMFS_MAX_FILESIZE_def)
  obtain b where b: "drop (length x) (file_buffer img) = b # drop (Suc (length x)) (file_buffer img)"
    using len buf by (metis Cons_nth_drop_Suc le_imp_less_Suc eval_nat_numeral(3) add.commute)
  let ?rest = "drop (Suc (length x)) (file_buffer img)"
  have upd: "(to_bytes x @ drop (length x) (file_buffer img))[length x := 0] = to_bytes x @ 0 # ?rest"
    unfolding b using len(1) by (metis list_update_length)
  have "(to_bytes x @ 0 # ?rest) ! (length x - 1) = of_char (last x)"
    using len by (simp add: nth_append last_conv_nth to_bytes_def)
  moreover have "(of_char (last x) :: u8) = 10 \<longleftrightarrow> last x = CHR 0x0A"
  proof
    assume "(of_char (last x) :: u8) = 10"
    then have "char_of (unat (of_char (last x) :: u8)) = (CHR 0x0A :: char)" by (simp add: char_of_def bit_Suc bit_0)
    then show "last x = CHR 0x0A" by simp
  qed simp
  moreover have "c_string (to_bytes x @ 0 # ?rest) = x" by (rule c_string_bytes) (use x in \<open>simp add: file_text_def\<close>)
  moreover have "nat (int (length x) - 1) = length x - 1" using len(3) by simp
  ultimately show ?thesis
    using p e rd upd len by (simp add: cmd_cat_def Let_def) 
qed

section \<open>Properties\<close>

definition boot_system :: system where
  "boot_system = graphics.extend blank_graphics
     \<lparr>files = ramfs_init blank_files, cmd_buffer = replicate 256 CHR 0x00, cmd_pos = 0\<rparr>"

definition blank_image :: image where
  "blank_image = \<lparr>address_of = (\<lambda>_. 0x100000), kernel_end = 0x110000, cr2 = 0, stack_junk = (\<lambda>_. replicate 8 0),
     file_buffer = replicate 4097 0\<rparr>"

lemma boot_system_ok: "console_ok boot_system" "edit_inv [] boot_system" "files boot_system = ramfs_init blank_files"
proof -
  show c: "console_ok boot_system"
    using blank_devices_inv(2,3)
    by (simp add: boot_system_def console_ok_def vga_inv_def line_ready_def ready_def graphics.defs blank_graphics_def devices.defs)
  show "edit_inv [] boot_system" using c by (simp add: edit_inv_def boot_system_def graphics.defs)
  show "files boot_system = ramfs_init blank_files" by (simp add: boot_system_def graphics.defs)
qed

text \<open>The same system with a cleared screen.\<close>

definition cleared_system :: system where
  "cleared_system = boot_system\<lparr>vga_buffer := replicate 2000 0x0720, vga_row := 0, vga_col := 0\<rparr>"

lemma cleared_system_ok: "edit_inv [] cleared_system" "echoed 0 [] cleared_system"
proof -
  have "console_ok cleared_system"
    using boot_system_ok(1) by (simp add: cleared_system_def console_ok_def vga_inv_def line_ready_def ready_def)
  then show "edit_inv [] cleared_system"
    using boot_system_ok(2) by (simp add: edit_inv_def cleared_system_def)
  have "row_text 0 cleared_system = replicate 80 CHR '' ''"
    by (simp add: row_text_def cleared_system_def char_of_def bit_Suc bit_0)
  then show "echoed 0 [] cleared_system" by (simp add: echoed_def cleared_system_def)
qed

lemma c_prefix:
  assumes "n < length xs" and "xs ! n = CHR 0x00" and "CHR 0x00 \<notin> set (take n xs)"
  shows "takeWhile (\<lambda>c. c \<noteq> CHR 0x00) xs = take n xs"
proof -
  have "xs = take n xs @ CHR 0x00 # drop (Suc n) xs" using assms(1,2) by (metis id_take_nth_drop)
  moreover have "takeWhile (\<lambda>c. c \<noteq> CHR 0x00) (take n xs @ CHR 0x00 # drop (Suc n) xs) = take n xs"
    using assms(3) by (subst takeWhile_append2) auto
  ultimately show ?thesis by simp
qed

text \<open>C19: Typing on the command line is editing a string of at most 255 characters: no key faults, the row of
  the prompt shows exactly the edited line from the prompt on, with the cursor behind it, as long as the
  line never reaches the end of the row, and the enter key runs that line, on the unchanged files and
  kernel state.\<close>

theorem typed_line_runs:
  assumes "edit_inv [] s" and "CHR 0x0A \<notin> set keys"
  shows "\<exists>t u. type_keys img regs keys s = Some (Returns t) \<and>
     key_down img regs CHR 0x0A t =
       andthen (shell_process_command img regs (fold edit keys []) u) (\<lambda>v. returns (shell_prompt (v\<lparr>cmd_pos := 0\<rparr>))) \<and>
     length (fold edit keys []) \<le> 255 \<and> console_ok u \<and> files u = files s \<and> kern u = kern s \<and>
     (echoed p [] s \<and> (\<forall>n. p + int (length (fold edit (take n keys) [])) < 80) \<longrightarrow>
        vga_col t = p + int (length (fold edit keys [])) \<and>
        row_text p t = fold edit keys [] @ replicate (80 - nat p - length (fold edit keys [])) CHR '' '')"
proof -
  let ?line = "fold edit keys []"
  obtain t where t: "type_keys img regs keys s = Some (Returns t)" "edit_inv ?line t" "files t = files s" "kern t = kern s"
    using type_keys_edit [OF assms] by blast
  note I = t(2) [unfolded edit_inv_def]
  have "accepts nl []" by (simp add: nl_def)
  from displays_system [OF displays_printf [OF this], of t] I obtain w where w: "printf nl [] t = Some w" "console_ok w"
    "kern w = kern t" "files w = files t" "cmd_buffer w = cmd_buffer t" "cmd_pos w = cmd_pos t" by auto
  define u where "u = w\<lparr>cmd_buffer := (cmd_buffer w)[length ?line := CHR 0x00]\<rparr>"
  have b: "take (length ?line) (cmd_buffer u) = ?line" "cmd_buffer u ! length ?line = CHR 0x00" "length (cmd_buffer u) = 256"
    using I w by (simp_all add: u_def)
  have "CHR 0x00 \<notin> set ?line" using I by (auto simp: editable_def less_eq_char_def)
  then have cl: "command_line u = ?line"
    unfolding command_line_def using c_prefix [of "length ?line" "cmd_buffer u"] b I by simp
  have "store_cmd CHR 0x00 w = Some u" using I w by (simp add: store_cmd_def u_def)
  then have "key_down img regs CHR 0x0A t =
      andthen (shell_process_command img regs ?line u) (\<lambda>v. returns (shell_prompt (v\<lparr>cmd_pos := 0\<rparr>)))"
    using w(1) cl by (simp add: key_down_def)
  moreover have "vga_col t = p + int (length ?line) \<and> row_text p t = ?line @ replicate (80 - nat p - length ?line) CHR '' ''"
    if "echoed p [] s" "\<forall>n. p + int (length (fold edit (take n keys) [])) < 80"
    using type_keys_echo [OF assms(1) that(1) assms(2) _ t(1)] that(2) by (simp add: echoed_def)
  ultimately show ?thesis using t I w by (intro exI [of _ t] exI [of _ u]) (simp add: u_def)
qed

theorem typed_line_runs_witness:
  "\<exists>t u. type_keys blank_image blank_regs [CHR ''l'', CHR ''x'', CHR 0x08, CHR ''s''] cleared_system = Some (Returns t) \<and>
     vga_col t = 2 \<and> row_text 0 t = ''ls'' @ replicate 78 CHR '' '' \<and>
     key_down blank_image blank_regs CHR 0x0A t =
       andthen (shell_process_command blank_image blank_regs ''ls'' u) (\<lambda>v. returns (shell_prompt (v\<lparr>cmd_pos := 0\<rparr>)))"
proof -
  let ?keys = "[CHR ''l'', CHR ''x'', CHR 0x08, CHR ''s'']"
  have f: "edit CHR ''s'' (edit CHR 0x08 (edit CHR ''x'' (edit CHR ''l'' []))) = ''ls''"
    by (simp add: edit_def editable_def less_eq_char_def less_char_def)
  have "length (fold edit cs l) \<le> length cs + length l" for cs l
  proof (induction cs arbitrary: l)
    case (Cons c cs)
    have "length (edit c l) \<le> Suc (length l)" by (auto simp: edit_def)
    then show ?case using Cons [of "edit c l"] by simp
  qed simp
  note short = this
  have "0 + int (length (fold edit (take n ?keys) [])) < 80" for n
  proof -
    have "length (fold edit (take n ?keys) []) \<le> length (take n ?keys) + length ([] :: string)" by (rule short)
    also have "\<dots> \<le> 4" by simp
    finally show ?thesis by linarith
  qed
  then show ?thesis
    using typed_line_runs [OF cleared_system_ok(1), of ?keys blank_image blank_regs 0] cleared_system_ok(2)
    by (auto simp: f)
qed

text \<open>C20: What \<open>write\<close> stores \<open>cat\<close> prints: after \<open>write n x\<close> every other file is as before, and
  \<open>cat n\<close> prints the text, completed by a newline where it has none.\<close>

theorem write_cat_roundtrip:
  assumes "console_ok s" and "ramfs_inv (files s)" and "file_word n" and "file_text x"
    and "n \<in> dom (ramfs_lookup (files s)) \<or> card (dom (ramfs_lookup (files s))) < 32"
    and "length (file_buffer img) = 4097"
  shows "\<exists>t. shell_process_command img regs (''write '' @ n @ '' '' @ x) s = Some (Returns t) \<and>
     ramfs_lookup (files t) = (ramfs_lookup (files s))(n \<mapsto> to_bytes x) \<and>
     shell_process_command img regs (''cat '' @ n) t =
       returns (do { u \<leftarrow> printf ''%s'' [Text (Some x)] t; if last x \<noteq> CHR 0x0A then printf nl [] u else Some u })"
proof -
  obtain t where t: "cmd_write (''write '' @ n @ '' '' @ x) s = Some t" "ramfs_inv (files t)"
    "ramfs_lookup (files t) = (ramfs_lookup (files s))(n \<mapsto> to_bytes x)"
    using cmd_write_stores [OF assms(1-5)] by blast
  have l: "ramfs_lookup (files t) n = Some (to_bytes x)" using t(3) by simp
  have "shell_process_command img regs (''write '' @ n @ '' '' @ x) s = Some (Returns t)"
    using write_command [of "''write '' @ n @ '' '' @ x" img regs s] t(1) by (simp add: str_starts_with_eq returns_def)
  moreover have "shell_process_command img regs (''cat '' @ n) t = returns (cmd_cat img (''cat '' @ n) t)"
    by (rule cat_command) (auto simp: str_starts_with_eq)
  ultimately show ?thesis using t(3) cmd_cat_prints [OF t(2) assms(3,4) l assms(6)] by simp
qed

theorem write_cat_roundtrip_witness:
  "\<exists>t. shell_process_command blank_image blank_regs ''write a.txt hello world'' boot_system = Some (Returns t) \<and>
     ramfs_lookup (files t) = [''a.txt'' \<mapsto> to_bytes ''hello world'']"
proof -
  have "file_word ''a.txt''" "file_text ''hello world''" by (auto simp: file_word_def file_text_def is_blank_def)
  from write_cat_roundtrip [OF boot_system_ok(1) _ this, of blank_image blank_regs] show ?thesis
    by (auto simp: boot_system_ok blank_init blank_image_def)
qed

text \<open>The names the shell passes to the file system always fit its slots: at most 31 characters and no blank,
  whatever was typed.\<close>

theorem parse_name_fits:
  "length (parse_name args) < RAMFS_MAX_FILENAME \<and> filter is_blank (parse_name args) = []"
proof -
  have "c \<in> set (takeWhile (\<lambda>c. \<not> is_blank c) args) \<Longrightarrow> \<not> is_blank c" for c
    using set_takeWhileD [of c "\<lambda>c. \<not> is_blank c" args] by blast
  then show ?thesis by (auto simp: parse_name_eq RAMFS_MAX_FILENAME_def filter_empty_conv dest: in_set_takeD)
qed

text \<open>C24: One key press travels from the port to the command line: with an empty queue, a turn of the event
  loop after the keyboard interrupt does exactly what the character of the key asks for.\<close>

theorem key_press_reaches_line:
  assumes "events_inv (queue s)" and "\<not> events_pending (queue s)"
    and "sc = device s (clock s) 0x60" and "sc < 59" and "sc \<notin> {0x2A, 0x36, 0x1D, 0x38, 0x3A}"
    and "c = key_char (shift_pressed s) (caps_lock s) (unat sc)" and "c \<noteq> CHR 0x00"
  shows "\<exists>q. loop_body img regs (keyboard_callback junk s) = key_down img regs c (s\<lparr>clock := clock s + 1, queue := q\<rparr>) \<and>
     events_inv q \<and> \<not> events_pending q"
proof -
  define e where "e = \<lparr>ev_type = EVENT_TYPE_KEY_DOWN, ev_data = [of_char c, sc, of_flag (shift_pressed s),
    of_flag (ctrl_pressed s), of_flag (alt_pressed s)] @ drop 5 junk\<rparr>"
  let ?q = "push_event (queue s) e"
  have k: "keyboard_callback junk s = s\<lparr>clock := clock s + 1, queue := ?q\<rparr>"
    using keyboard_callback_key [OF assms(3-5), of junk] assms(6,7) by (simp add: e_def Let_def)
  have empty: "waiting_events (queue s) = []"
    using assms(1,2) by (simp add: waiting_nil_iff events_pending_def)
  have inv: "events_inv ?q" by (rule push_event_fields(1) [OF assms(1)])
  have w: "waiting_events ?q = [e]" using push_event_waiting [OF assms(1), of e] empty by simp
  note P = pop_event_spec [OF inv w, of "stack_junk img 0"]
  have pend: "events_pending ?q" using w waiting_nil_iff [OF inv] by (simp add: events_pending_def)
  define q where "q = snd (pop_event (stack_junk img 0) ?q)"
  have q: "events_inv q" "\<not> events_pending q"
    using pop_event_inv [OF inv] P(2) waiting_nil_iff [of q] by (simp_all add: q_def events_pending_def)
  have "pop_event (stack_junk img 0) ?q = (e, q)" using P(1) by (simp add: q_def prod_eq_iff)
  moreover have "ev_type e = EVENT_TYPE_KEY_DOWN" "char_of (unat (ev_data e ! 0)) = c" by (simp_all add: e_def)
  ultimately have "loop_body img regs (keyboard_callback junk s) = key_down img regs c (s\<lparr>clock := clock s + 1, queue := q\<rparr>)"
    using pend unfolding k loop_body_def by simp
  then show ?thesis using q by blast
qed

theorem key_press_reaches_line_witness:
  "\<exists>q. loop_body blank_image blank_regs (keyboard_callback (replicate 8 0) (boot_system\<lparr>device := \<lambda>_ _. 0x1E\<rparr>)) =
     key_down blank_image blank_regs CHR ''a'' (boot_system\<lparr>device := \<lambda>_ _. 0x1E, clock := 1, queue := q\<rparr>)"
proof -
  let ?s = "boot_system\<lparr>device := \<lambda>_ _. 0x1E\<rparr>"
  have f: "\<not> shift_pressed ?s" "\<not> caps_lock ?s" "clock ?s = 0" "queue ?s = queue blank_devices"
    by (simp_all add: boot_system_def graphics.defs blank_graphics_def devices.defs blank_devices_def cpu.defs blank_cpu_def)
  have q: "events_inv (queue ?s)" "\<not> events_pending (queue ?s)"
    unfolding f(4) by (simp_all add: blank_devices_def cpu.defs events_inv_def events_pending_def)
  have "key_char False False 30 = CHR ''a''" by (simp add: key_char_def scancode_to_ascii_def Let_def)
  then show ?thesis
    using key_press_reaches_line [OF q, of "0x1E" "CHR ''a''" blank_image blank_regs "replicate 8 0"] f by auto
qed

text \<open>Neither \<open>ls\<close> row depends on the file: the minus sign and the digits of its format are not understood, so
  the conversions are printed as they stand and name and size are never taken.\<close>

theorem ls_row_is_literal:
  "list_file_callback name sz = printf (''  %%-20s %%5d bytes'' @ nl) []"
  by (rule ext) (simp add: list_file_callback_def printf_def nl_def convert_def both_char_def)

lemma some_process: "p_state (proc k 0) \<noteq> PROCESS_STATE_UNUSED \<Longrightarrow> process_print_table k \<noteq> []"
  by (auto simp: process_print_table_def filter_empty_conv MAX_PROCESSES_def intro!: bexI [of _ 0])

text \<open>Printing a process row is undefined: after the unsupported width the string conversion meets the process
  number, an integer, as its pointer. So \<open>ps\<close> fails whenever there is a process to show.\<close>

theorem ps_row_undefined:
  assumes "console_ok s" and "process_print_table (kern s) \<noteq> []"
  shows "cmd_ps s = None"
proof -
  let ?h1 = "''PID  State      Priority  Parent  Children  Name'' @ nl"
  let ?h2 = "''---  ---------  --------  ------  --------  ----'' @ nl"
  have a: "accepts ?h1 []" "accepts ?h2 []" by (simp_all add: nl_def)
  obtain s1 where s1: "printf ?h1 [] s = Some s1" "console_ok s1" "kern s1 = kern s"
    using displays_system [OF displays_printf [OF a(1)] assms(1)] by blast
  obtain s2 where s2: "printf ?h2 [] s1 = Some s2" "console_ok s2" "kern s2 = kern s1"
    using displays_system [OF displays_printf [OF a(2)] s1(2)] by blast
  obtain row rows where r: "process_print_table (kern s) = row # rows" using assms(2) by (cases "process_print_table (kern s)") auto
  obtain n st prio parent kids nm where row: "row = (n, st, prio, parent, kids, nm)" by (cases row) auto
  have "\<not> accepts process_row_format [Word n, Text (Some st), Word prio, Word parent, Word kids, Text (Some nm)]"
    by (simp add: process_row_format_def nl_def)
  then have "printf process_row_format [Word n, Text (Some st), Word prio, Word parent, Word kids, Text (Some nm)] s2 = None"
    using printf_returns_iff [of s2 process_row_format] s2(2) by (metis console_ok_def not_Some_eq)
  then show ?thesis using s1 s2 r row by (simp add: cmd_ps_def)
qed

theorem ps_row_undefined_witness:
  "cmd_ps (boot_system\<lparr>kern := process_init (static_kernel boot_vm)\<rparr>) = None"
proof (rule ps_row_undefined)
  show "console_ok (boot_system\<lparr>kern := process_init (static_kernel boot_vm)\<rparr>)" using boot_system_ok(1) by simp
  have "p_state (proc (process_init (static_kernel boot_vm)) 0) = PROCESS_STATE_RUNNING"
    by (rule process_init_inv(4) [OF static_kernel_blank])
  then show "process_print_table (kern (boot_system\<lparr>kern := process_init (static_kernel boot_vm)\<rparr>)) \<noteq> []"
    by (simp add: some_process PROCESS_STATE_UNUSED_def PROCESS_STATE_RUNNING_def)
qed

end
