(* ===== verification/Boot.thy ===== *)
theory Boot
  imports Shell
begin

text \<open>
  Start-up: \<open>kmain\<close> of \<open>simpleos-main/simpleos/kernel.c\<close> in its stages, and the test processes of
  \<open>test_proc.c\<close> that the shell starts.
\<close>

section \<open>What the boot loader passes\<close>

record multiboot_info =
  mb_flags :: u32
  mb_mem_lower :: u32
  mb_mem_upper :: u32
  mb_boot_device :: u32
  mb_cmdline :: u32
  mb_mods_count :: u32
  mb_mods_addr :: u32
  mb_syms :: "u32 list"
  mb_mmap_length :: u32
  mb_mmap_addr :: u32
  mb_drives_length :: u32
  mb_drives_addr :: u32
  mb_config_table :: u32
  mb_boot_loader_name :: u32

definition MULTIBOOT_MAGIC :: u32 where "MULTIBOOT_MAGIC = 0x2BADB002"
definition MB_FLAG_MEM :: u32 where "MB_FLAG_MEM = push_bit 0 1"
definition MB_FLAG_MMAP :: u32 where "MB_FLAG_MMAP = push_bit 6 1"

text \<open>Memory as bytes, before paging.\<close>

definition byte_memory :: "vmm \<Rightarrow> u32 \<Rightarrow> u8" where
  "byte_memory v a = ucast (drop_bit (8 * unat (a AND 3)) (vm_memory v (a AND NOT 3)))"

text \<open>The static array of two packed entries that stands in for a missing memory map, in little-endian bytes.\<close>

definition fake_mmap :: "u8 list" where
  "fake_mmap =
     [20, 0, 0, 0,  0, 0, 0, 0, 0, 0, 0, 0,  0, 0, 0x10, 0, 0, 0, 0, 0,  2, 0, 0, 0,
      20, 0, 0, 0,  0, 0, 0x10, 0, 0, 0, 0, 0,  0, 0, 0xF0, 3, 0, 0, 0, 0,  1, 0, 0, 0]"

definition with_fake_mmap :: "u32 \<Rightarrow> (u32 \<Rightarrow> u8) \<Rightarrow> u32 \<Rightarrow> u8" where
  "with_fake_mmap base m a = (if unat (a - base) < 48 then fake_mmap ! unat (a - base) else m a)"

section \<open>The stages of kmain\<close>

definition boot_banner :: "'s system_scheme \<Rightarrow> 's system_scheme option" where
  "boot_banner s0 = do {
     s1 \<leftarrow> vga_init (serial_init s0);
     s2 \<leftarrow> printf (''====================================='' @ nl) [] (vga_set_color VGA_COLOR_LIGHT_CYAN VGA_COLOR_BLACK s1);
     s3 \<leftarrow> printf (''  SimpleOS v0.3 (Virtual Memory)'' @ nl) [] s2;
     s4 \<leftarrow> printf (''====================================='' @ nl @ nl) [] s3;
     Some (vga_set_color VGA_COLOR_LIGHT_GREY VGA_COLOR_BLACK s4)
   }"

text \<open>Whether the boot loader left a memory map.\<close>

definition boot_info :: "image \<Rightarrow> u32 \<Rightarrow> multiboot_info \<Rightarrow> 's system_scheme \<Rightarrow> (bool \<times> 's system_scheme) option" where
  "boot_info img magic mbi s = do {
     s1 \<leftarrow> printf (''[Boot] Kernel ends at 0x%x'' @ nl) [Word (kernel_end img)] s;
     if magic \<noteq> MULTIBOOT_MAGIC then do {
       s2 \<leftarrow> printf (''[Boot] WARNING: Invalid multiboot magic (0x%x)'' @ nl) [Word magic] s1;
       s3 \<leftarrow> printf (''[Boot] Assuming 64MB RAM for testing'' @ nl) [] s2;
       Some (False, s3)
     }
     else do {
       s2 \<leftarrow> printf (''[Boot] Multiboot magic OK (0x%x)'' @ nl) [Word magic] s1;
       s3 \<leftarrow> printf (''[Boot] Multiboot flags: 0x%x'' @ nl) [Word (mb_flags mbi)] s2;
       s4 \<leftarrow> (if mb_flags mbi AND MB_FLAG_MEM \<noteq> 0
             then printf (''[Boot] Memory: %d KB lower, %d KB upper'' @ nl) [Word (mb_mem_lower mbi), Word (mb_mem_upper mbi)] s3
             else Some s3);
       if mb_flags mbi AND MB_FLAG_MMAP \<noteq> 0 then do {
         s5 \<leftarrow> printf (''[Boot] Memory map available at 0x%x, length %d'' @ nl)
                [Word (mb_mmap_addr mbi), Word (mb_mmap_length mbi)] s4;
         Some (True, s5)
       }
       else Some (False, s4)
     }
   }"

definition boot_tables :: "'s system_scheme \<Rightarrow> 's system_scheme option" where
  "boot_tables s = do {
     s1 \<leftarrow> printf (''[Init] Setting up GDT...'' @ nl) [] s;
     s2 \<leftarrow> printf (''[Init] GDT loaded'' @ nl) [] (gdt_init s1);
     s3 \<leftarrow> printf (''[Init] Setting up IDT...'' @ nl) [] s2;
     s4 \<leftarrow> printf (''[Init] IDT loaded, PIC remapped'' @ nl) [] (idt_init s3);
     Some (register_interrupt_handler 14 Page_fault_handler s4)
   }"

definition boot_memory :: "image \<Rightarrow> bool \<Rightarrow> multiboot_info \<Rightarrow> 's system_scheme \<Rightarrow> 's system_scheme option" where
  "boot_memory img have_mmap mbi s = do {
     s1 \<leftarrow> printf (''[Init] Setting up PMM...'' @ nl) [] s;
     let v = kvm (kern s1);
     s2 \<leftarrow> (if have_mmap then do {
             p \<leftarrow> pmm_init (byte_memory v) (mb_mmap_addr mbi) (mb_mmap_length mbi) (kernel_end img) (vm_pmm v);
             Some (with_kvm (v\<lparr>vm_pmm := p\<rparr>) s1)
           }
           else do {
             t \<leftarrow> printf (''[PMM] No memory map, using fallback (64MB)'' @ nl) [] s1;
             let fake = address_of img ''fake_mmap'';
             p \<leftarrow> pmm_init (with_fake_mmap fake (byte_memory v)) fake 48 (kernel_end img) (vm_pmm v);
             Some (with_kvm (v\<lparr>vm_pmm := p\<rparr>) t)
           });
     s3 \<leftarrow> printf (''[Init] Setting up VMM...'' @ nl) [] s2;
     v' \<leftarrow> vmm_init (kvm (kern s3));
     Some (with_kvm v' s3)
   }"

definition boot_devices :: "'s system_scheme \<Rightarrow> 's system_scheme option" where
  "boot_devices s = do {
     s1 \<leftarrow> timer_init 100 s;
     s2 \<leftarrow> keyboard_init s1;
     s3 \<leftarrow> mouse_init s2;
     s4 \<leftarrow> syscall_init s3;
     graphics_init s4
   }"

definition welcome_text :: string where
  "welcome_text = ''Welcome to SimpleOS v0.3!'' @ nl @ ''Now with virtual memory support.'' @ nl"

definition readme_text :: string where
  "readme_text = ''SimpleOS v0.3 - Virtual Memory Edition'' @ nl @ nl @ ''New commands:'' @ nl @
     ''  mem - show memory stats'' @ nl @ ''  vmm - show page mappings'' @ nl @ ''  alloc - test page allocation'' @ nl"

definition boot_services :: "'s system_scheme \<Rightarrow> 's system_scheme option" where
  "boot_services s = do {
     s1 \<leftarrow> printf (''[Init] Initializing RamFS...'' @ nl) [] s;
     s2 \<leftarrow> printf (''[RamFS] Initialized (%d file slots, %d bytes/file)'' @ nl)
            [Word (of_nat RAMFS_MAX_FILES), Word RAMFS_MAX_FILESIZE] (with_files (ramfs_init (files s1)) s1);
     s3 \<leftarrow> printf (''[Init] Initializing process manager...'' @ nl) [] s2;
     let s4 = s3\<lparr>kern := process_init (kern s3)\<rparr>;
     s5 \<leftarrow> printf (''[Init] Initializing scheduler...'' @ nl) [] s4;
     let s6 = s5\<lparr>kern := scheduler_init (kern s5)\<rparr>;
     (_, f1) \<leftarrow> ramfs_write (files s6) ''welcome.txt'' (to_bytes welcome_text @ [0]) 58;
     (_, f2) \<leftarrow> ramfs_write f1 ''readme.txt'' (to_bytes readme_text @ [0]) 136;
     Some (with_files f2 s6)
   }"

definition boot_ready :: "'s system_scheme \<Rightarrow> 's system_scheme option" where
  "boot_ready s = do {
     s1 \<leftarrow> printf (''[Init] Enabling interrupts...'' @ nl) [] s;
     s2 \<leftarrow> printf nl [] (s1\<lparr>interrupts_on := True\<rparr>);
     s3 \<leftarrow> printf (quoted ''System ready! Type '' ''help'' '' for commands.'' @ nl) []
            (vga_set_color VGA_COLOR_LIGHT_GREEN VGA_COLOR_BLACK s2);
     s4 \<leftarrow> printf (''Try: mem, vmm, alloc'' @ nl @ nl) [] s3;
     shell_prompt (vga_set_color VGA_COLOR_LIGHT_GREY VGA_COLOR_BLACK s4)
   }"

text \<open>The whole of \<open>kmain\<close>, with \<open>n\<close> turns of its endless loop.\<close>

definition kmain :: "image \<Rightarrow> registers \<Rightarrow> u32 \<Rightarrow> multiboot_info \<Rightarrow> (nat \<Rightarrow> 's system_scheme \<Rightarrow> 's system_scheme) \<Rightarrow> nat \<Rightarrow>
    's system_scheme \<Rightarrow> 's system_scheme ending option" where
  "kmain img regs magic mbi wake n s = do {
     s1 \<leftarrow> boot_banner s;
     (have_mmap, s2) \<leftarrow> boot_info img magic mbi s1;
     s3 \<leftarrow> boot_tables s2;
     s4 \<leftarrow> boot_memory img have_mmap mbi s3;
     s5 \<leftarrow> boot_devices s4;
     s6 \<leftarrow> boot_services s5;
     s7 \<leftarrow> boot_ready s6;
     main_loop img regs wake n s7
   }"

section \<open>The test processes\<close>

text \<open>The first \<open>n\<close> rounds of an endless process that prints its letter; its busy loops have no effect.\<close>

fun letter_rounds :: "string \<Rightarrow> nat \<Rightarrow> int \<Rightarrow> 's vga_scheme \<Rightarrow> 's vga_scheme option" where
  "letter_rounds l 0 counter s = Some s"
| "letter_rounds l (Suc n) counter s = do {
     s1 \<leftarrow> printf l [] s;
     s2 \<leftarrow> (if (counter + 1) mod 10 = 0 then printf '' '' [] s1 else Some s1);
     letter_rounds l n (counter + 1) s2
   }"

definition test_process_1 :: "nat \<Rightarrow> 's vga_scheme \<Rightarrow> 's vga_scheme option" where
  "test_process_1 n s = letter_rounds ''A'' n 0 s"

definition test_process_2 :: "nat \<Rightarrow> 's vga_scheme \<Rightarrow> 's vga_scheme option" where
  "test_process_2 n s = letter_rounds ''B'' n 0 s"

definition test_process_3 :: "nat \<Rightarrow> 's vga_scheme \<Rightarrow> 's vga_scheme option" where
  "test_process_3 n s = letter_rounds ''C'' n 0 s"

fun repeat_printf :: "nat \<Rightarrow> string \<Rightarrow> 's vga_scheme \<Rightarrow> 's vga_scheme option" where
  "repeat_printf 0 l s = Some s"
| "repeat_printf (Suc n) l s = do { t \<leftarrow> printf l [] s; repeat_printf n l t }"

definition test_process_4 :: "u32 \<Rightarrow> (nat \<Rightarrow> u8 list) \<Rightarrow> 's frame \<Rightarrow> 's frame ending option" where
  "test_process_4 cr junk x = (case x of (regs, s) \<Rightarrow> do {
     s1 \<leftarrow> printf (nl @ ''[TestX] Starting finite process...'' @ nl) [] s;
     s2 \<leftarrow> repeat_printf 5 ''X'' s1;
     s3 \<leftarrow> printf (nl @ ''[TestX] Exiting gracefully'' @ nl) [] s2;
     andthen (DosExit cr junk 0 (regs, s3))
       (\<lambda>(r, t). map_option (\<lambda>u. Returns (r, u)) (printf (''[TestX] ERROR: Returned from DosExit!'' @ nl) [] t))
   })"

definition test_child_process :: "u32 \<Rightarrow> (nat \<Rightarrow> u8 list) \<Rightarrow> 's frame \<Rightarrow> 's frame ending option" where
  "test_child_process cr junk x = (case x of (regs, s) \<Rightarrow> do {
     s1 \<leftarrow> printf (nl @ ''[Child] I am a child process, running briefly...'' @ nl) [] s;
     s2 \<leftarrow> repeat_printf 3 ''c'' s1;
     s3 \<leftarrow> printf (nl @ ''[Child] Exiting...'' @ nl) [] s2;
     DosExit cr junk 42 (regs, s3)
   })"

definition test_parent_process :: "u32 \<Rightarrow> (nat \<Rightarrow> u8 list) \<Rightarrow> 's frame \<Rightarrow> 's frame ending option" where
  "test_parent_process cr junk x = (case x of (regs, s) \<Rightarrow> do {
     s1 \<leftarrow> printf (nl @ ''[Parent] I am the parent process'' @ nl) [] s;
     s2 \<leftarrow> printf (''[Parent] Creating 2 child processes...'' @ nl) [] s1;
     s3 \<leftarrow> printf (''[Parent] Running for a while...'' @ nl) [] s2;
     s4 \<leftarrow> repeat_printf 10 ''P'' s3;
     s5 \<leftarrow> printf (nl @ ''[Parent] Exiting (children will be orphaned)'' @ nl) [] s4;
     DosExit cr junk 0 (regs, s5)
   })"

section \<open>Properties\<close>

lemma fake_byte: "k < 48 \<Longrightarrow> with_fake_mmap base m (base + of_nat k) = fake_mmap ! k"
  by (simp add: with_fake_mmap_def unsigned_of_nat take_bit_nat_eq_self)

lemma fake_entries:
  "read_mmap_entry (with_fake_mmap base m) base =
     \<lparr>me_size = 20, me_base_addr = 0, me_length = 0x100000, me_type = 2\<rparr>"
  "read_mmap_entry (with_fake_mmap base m) (base + 24) =
     \<lparr>me_size = 20, me_base_addr = 0x100000, me_length = 0x3F00000, me_type = 1\<rparr>"
  by (simp_all add: read_mmap_entry_def read32_def read64_def with_fake_mmap_def fake_mmap_def)

lemma fake_walk:
  assumes "unat base + 48 < 2 ^ 32"
  shows "mmap_walk (with_fake_mmap base m) base (base + 48)
    [read_mmap_entry (with_fake_mmap base m) base, read_mmap_entry (with_fake_mmap base m) (base + 24)]"
proof -
  let ?m = "with_fake_mmap base m"
  have u: "unat (base + 24) = unat base + 24" "unat (base + 48) = unat base + 48"
    using assms by (simp_all add: unat_word_ariths)
  have lt: "base < base + 48" "base + 24 < base + 48" by (simp_all add: word_less_nat_alt u)
  have nx: "base + me_size (read_mmap_entry ?m base) + 4 = base + 24"
    "base + 24 + me_size (read_mmap_entry ?m (base + 24)) + 4 = base + 48" by (simp_all add: fake_entries)
  have "mmap_walk ?m (base + 48) (base + 48) []" by (rule walk_done) simp
  then have "mmap_walk ?m (base + 24) (base + 48) [read_mmap_entry ?m (base + 24)]"
    by (intro walk_step [OF lt(2) refl]) (simp only: nx)
  then show ?thesis by (intro walk_step [OF lt(1) refl]) (simp only: nx)
qed

text \<open>Without a memory map from the boot loader the allocator gets the 64 MB fallback, but manages only 63 MB of
  it: the frames from 1 MB up to frame 16128, less the kernel's own, are free, and the top 256 are never given out.\<close>

theorem fallback_memory_map:
  assumes "length (page_bitmap p) = unat BITMAP_SIZE" and "unat base + 48 < 2 ^ 32"
  shows "\<exists>t. pmm_init (with_fake_mmap base m) base 48 kernel_last p = Some t \<and> pmm_inv t \<and> total_pages t = 16128 \<and>
     free_set t = {q. 256 \<le> q \<and> q < 16128 \<and> q \<notin> kernel_frames kernel_last}"
proof -
  let ?m = "with_fake_mmap base m"
  let ?es = "[read_mmap_entry ?m base, read_mmap_entry ?m (base + 24)]"
  have av: "available_bytes ?es = 0x3F00000"
    by (simp add: fake_entries available_bytes_def MMAP_TYPE_AVAILABLE_def)
  have rf: "q \<in> region_frames (read_mmap_entry ?m (base + 24))" if "256 \<le> q" "q < 16128" for q
    using that by (auto simp: fake_entries region_frames_def MMAP_TYPE_AVAILABLE_def word_norm ADDR_TO_PFN_def
        PAGE_ALIGN_UP_def PAGE_ALIGN_DOWN_def drop_bit_eq_div word_less_nat_alt word_le_nat_alt unat_div)
  obtain t where t: "pmm_init ?m base 48 kernel_last p = Some t" "pmm_inv t"
    "total_pages t = min (available_bytes ?es div PAGE_SIZE) MAX_PAGES"
    "\<And>q. q \<in> free_set t \<longleftrightarrow> q < total_pages t \<and> (\<exists>e \<in> set ?es. q \<in> region_frames e) \<and> 256 \<le> q \<and> q \<notin> kernel_frames kernel_last"
    by (rule pmm_init_walk [OF assms(1) fake_walk [OF assms(2), of m], of kernel_last]) blast
  have tp: "total_pages t = 16128" unfolding t(3) av by (simp add: word_norm)
  have "free_set t = {q. 256 \<le> q \<and> q < 16128 \<and> q \<notin> kernel_frames kernel_last}"
    using rf by (auto simp: t(4) tp)
  then show ?thesis using t(1,2) tp by blast
qed

theorem fallback_memory_map_witness:
  "\<exists>t. pmm_init (with_fake_mmap 0x108000 (\<lambda>_. 0)) 0x108000 48 0x110000
     \<lparr>page_bitmap = replicate 2048 0, total_pages = 0, used_pages = 0, total_memory = 0\<rparr> = Some t \<and> total_pages t = 16128"
  using fallback_memory_map [of "\<lparr>page_bitmap = replicate 2048 0, total_pages = 0, used_pages = 0, total_memory = 0\<rparr>"
    "0x108000" "\<lambda>_. 0" "0x110000"] by (auto simp: word_norm)

lemma more_updates:
  fixes s t :: "'s system_scheme"
  assumes "vga.more s = vga.more t"
  shows "vga.more (s\<lparr>kern := k\<rparr>) = vga.more (t\<lparr>kern := k\<rparr>)" "vga.more (with_files fs s) = vga.more (with_files fs t)"
    "vga.more (s\<lparr>interrupts_on := b\<rparr>) = vga.more (t\<lparr>interrupts_on := b\<rparr>)"
  using assms by (cases s; cases t; simp add: with_files_def)+

lemma with_files_kern: "(with_files f s)\<lparr>kern := k\<rparr> = with_files f (s\<lparr>kern := k\<rparr>)"
  by (cases s) (simp add: with_files_def)

lemma with_files_again: "with_files f (with_files g s) = with_files f s" by (simp add: with_files_def)

lemma boot_services_spec:
  fixes s :: "'s system_scheme"
  assumes "console_ok s" and "ramfs_object (files s)"
  shows "\<exists>t fs. boot_services s = Some t \<and> console_ok t \<and>
     vga.more t = vga.more (with_files fs (s\<lparr>kern := scheduler_init (process_init (kern s))\<rparr>)) \<and> ramfs_inv fs \<and>
     ramfs_lookup fs = [''welcome.txt'' \<mapsto> to_bytes (butlast welcome_text), ''readme.txt'' \<mapsto> to_bytes (take 136 readme_text)]"
proof -
  let ?p2 = "''[RamFS] Initialized (%d file slots, %d bytes/file)'' @ nl" and ?a2 = "[Word (of_nat RAMFS_MAX_FILES), Word RAMFS_MAX_FILESIZE]"
  have acc: "accepts (''[Init] Initializing RamFS...'' @ nl) []" "accepts ?p2 ?a2"
    "accepts (''[Init] Initializing process manager...'' @ nl) []" "accepts (''[Init] Initializing scheduler...'' @ nl) []"
    by (simp_all add: nl_def)
  note P = displaysD [OF displays_printf]
  obtain s1 where s1: "printf (''[Init] Initializing RamFS...'' @ nl) [] s = Some s1" "console_ok s1" "vga.more s1 = vga.more s"
    by (rule P [OF acc(1) assms(1)])
  let ?f0 = "ramfs_init (files s)"
  have f1: "files s1 = files s" using more_system(2) [OF s1(3)] .
  have "console_ok (with_files ?f0 s1)" using s1 by simp
  then obtain s2 where s2: "printf ?p2 ?a2 (with_files ?f0 s1) = Some s2" "console_ok s2" "vga.more s2 = vga.more (with_files ?f0 s1)"
    by (rule P [OF acc(2)])
  obtain s3 where s3: "printf (''[Init] Initializing process manager...'' @ nl) [] s2 = Some s3" "console_ok s3" "vga.more s3 = vga.more s2"
    by (rule P [OF acc(3) s2(2)])
  have m3: "vga.more s3 = vga.more (with_files ?f0 s)" using s3(3) s2(3) more_updates(2) [OF s1(3)] by simp
  have k3: "kern s3 = kern s" using more_system(1) [OF m3] by (simp add: with_files_def)
  let ?s4 = "s3\<lparr>kern := process_init (kern s)\<rparr>"
  have "console_ok ?s4" using s3 by simp
  then obtain s5 where s5: "printf (''[Init] Initializing scheduler...'' @ nl) [] ?s4 = Some s5" "console_ok s5" "vga.more s5 = vga.more ?s4"
    by (rule P [OF acc(4)])
  have f5: "files s5 = ?f0" using more_system(2) [OF s5(3)] more_system(2) [OF m3] by (simp add: with_files_def)
  have k5: "kern s5 = process_init (kern s)" using more_system(1) [OF s5(3)] by simp
  have len: "length welcome_text = 59" "length readme_text = 138" by (simp_all add: welcome_text_def readme_text_def nl_def)
  note I = ramfs_init_spec [OF assms(2)]
  have b: "take 58 (to_bytes welcome_text @ [0]) = to_bytes (butlast welcome_text)"
    "take 136 (to_bytes readme_text @ [0]) = to_bytes (take 136 readme_text)"
    using len by (simp_all add: to_bytes_def butlast_conv_take take_map)
  obtain f1' where f1': "ramfs_write ?f0 ''welcome.txt'' (to_bytes welcome_text @ [0]) 58 = Some (58, f1')" "ramfs_inv f1'"
    "ramfs_lookup f1' = [''welcome.txt'' \<mapsto> to_bytes (butlast welcome_text)]"
    using fs.write_ok [OF I(1), of "''welcome.txt''" 58 "to_bytes welcome_text @ [0]"] len b I(2) by (auto simp: to_bytes_def)
  obtain f2 where f2: "ramfs_write f1' ''readme.txt'' (to_bytes readme_text @ [0]) 136 = Some (136, f2)" "ramfs_inv f2"
    "ramfs_lookup f2 = [''welcome.txt'' \<mapsto> to_bytes (butlast welcome_text), ''readme.txt'' \<mapsto> to_bytes (take 136 readme_text)]"
    using fs.write_ok [OF f1'(2), of "''readme.txt''" 136 "to_bytes readme_text @ [0]"] len b f1'(3) by (auto simp: to_bytes_def)
  let ?k = "scheduler_init (process_init (kern s))"
  let ?t = "with_files f2 (s5\<lparr>kern := ?k\<rparr>)"
  have "boot_services s = Some ?t" using s1(1) s2(1) s3(1) s5(1) f1'(1) f2(1) f1 f5 k3 k5 by (simp add: boot_services_def Let_def)
  moreover have "vga.more s5 = vga.more (with_files ?f0 (s\<lparr>kern := process_init (kern s)\<rparr>))"
    using s5(3) more_updates(1) [OF m3, of "process_init (kern s)"] by (simp only: with_files_kern)
  then have "vga.more (with_files f2 (s5\<lparr>kern := ?k\<rparr>)) = vga.more (with_files f2 ((with_files ?f0 (s\<lparr>kern := process_init (kern s)\<rparr>))\<lparr>kern := ?k\<rparr>))"
    by (intro more_updates)
  then have "vga.more ?t = vga.more (with_files f2 (s\<lparr>kern := ?k\<rparr>))"
    by (simp add: with_files_kern with_files_again)
  moreover have "console_ok ?t" using s5(2) by simp
  ultimately show ?thesis using f2 by blast
qed

text \<open>After the services are started the file system holds exactly the two welcome files, each without its last
  characters, as their lengths are counted short; the idle process is current and the scheduler still off.\<close>

theorem boot_files:
  assumes "console_ok s" and "ramfs_object (files s)"
  shows "\<exists>t. boot_services s = Some t \<and> console_ok t \<and> ramfs_inv (files t) \<and>
     ramfs_lookup (files t) = [''welcome.txt'' \<mapsto> to_bytes (butlast welcome_text),
       ''readme.txt'' \<mapsto> to_bytes (take 136 readme_text)] \<and> length readme_text = 138 \<and>
     current_process (kern t) = Some 0 \<and> \<not> scheduling_enabled (kern t)"
proof -
  obtain t fs where t: "boot_services s = Some t" "console_ok t"
      "vga.more t = vga.more (with_files fs (s\<lparr>kern := scheduler_init (process_init (kern s))\<rparr>))" "ramfs_inv fs"
      "ramfs_lookup fs = [''welcome.txt'' \<mapsto> to_bytes (butlast welcome_text), ''readme.txt'' \<mapsto> to_bytes (take 136 readme_text)]"
    using boot_services_spec [OF assms] by blast
  have "files t = fs" "kern t = scheduler_init (process_init (kern s))" using more_system(1,2) [OF t(3)] by (simp_all add: with_files_def)
  moreover have "length readme_text = 138" by (simp add: readme_text_def nl_def)
  ultimately show ?thesis using t by (simp add: scheduler_init_def process_init_def Let_def)
qed

theorem boot_files_witness:
  "\<exists>t. boot_services (boot_system\<lparr>files := blank_files\<rparr>) = Some t \<and> dom (ramfs_lookup (files t)) = {''readme.txt'', ''welcome.txt''}"
  using boot_files [of "boot_system\<lparr>files := blank_files\<rparr>"] boot_system_ok(1)
  by (force simp: ramfs_object_def blank_files_def)

end
