(* ===== verification/Session.thy ===== *)
theory Session
  imports Boot
begin

text \<open>
  The running kernel: the event loop of \<open>kernel.c\<close> between the interrupts of timer, keyboard and mouse. Every command of the
  shell, every interrupt and every turn of the loop keeps one invariant over the state of all components, and only
  seven commands, which work on processes and page tables, can make a turn fail. A session lasts until the timer interrupt
  hands the processor to another process, which the kernel state records: from then on the loop does not run any more.
\<close>

section \<open>What every step keeps\<close>

definition kernel_fine :: "kernel \<Rightarrow> bool" where
  "kernel_fine k \<longleftrightarrow> proc_inv k \<and> current_ok k \<and> run_ok k \<and> 0 < next_pid k"

text \<open>\<open>n\<close> more processes can be created before the counter of process numbers wraps.\<close>

definition sys_ok :: "nat \<Rightarrow> 's system_scheme \<Rightarrow> bool" where
  "sys_ok n s \<longleftrightarrow> console_ok s \<and> ramfs_inv (files s) \<and> kernel_fine (kern s) \<and> unat (next_pid (kern s)) + n < 2 ^ 32"

text \<open>What a command leaves alone.\<close>

definition untouched :: "'s system_scheme \<Rightarrow>
    isr option list \<times> events \<times> nat \<times> int \<times> int \<times> u8 \<times> u8 list \<times> bool list" where
  "untouched s = (interrupt_handlers s, queue s, length (cmd_buffer s), mouse_x s, mouse_y s, mouse_cycle s, mouse_bytes s, mouse_buttons s)"

lemma sys_ok_updates [simp]:
  "sys_ok n (vga_set_color fg bg s) = sys_ok n s" "sys_ok n (s\<lparr>cmd_pos := p\<rparr>) = sys_ok n s"
  "sys_ok n (s\<lparr>cmd_buffer := b\<rparr>) = sys_ok n s" "sys_ok n (s\<lparr>queue := q\<rparr>) = sys_ok n s"
  "sys_ok n (s\<lparr>interrupts_on := e\<rparr>) = sys_ok n s"
  by (simp_all add: sys_ok_def console_ok_def vga_inv_def line_ready_def ready_def vga_set_color_def)

lemma untouched_updates [simp]:
  "untouched (vga_set_color fg bg s) = untouched s" "untouched (s\<lparr>cmd_pos := p\<rparr>) = untouched s"
  "untouched (s\<lparr>interrupts_on := e\<rparr>) = untouched s" "untouched (s\<lparr>kern := k\<rparr>) = untouched s"
  "untouched (with_files fs s) = untouched s" "untouched (s\<lparr>idtr := i\<rparr>) = untouched s"
  by (simp_all add: untouched_def vga_set_color_def with_files_def)

lemma color_fields [simp]:
  "kern (vga_set_color fg bg s) = kern s" "files (vga_set_color fg bg s) = files s"
  "queue (vga_set_color fg bg s) = queue s" "cmd_pos (vga_set_color fg bg s) = cmd_pos s"
  by (simp_all add: vga_set_color_def)

lemma sys_ok_mono: "sys_ok n s \<Longrightarrow> m \<le> n \<Longrightarrow> sys_ok m s"
  by (simp add: sys_ok_def)

lemma sys_ok_files: "sys_ok n s \<Longrightarrow> ramfs_inv fs \<Longrightarrow> sys_ok n (with_files fs s)"
  by (simp add: sys_ok_def with_files_def)

lemma sys_ok_kern: "sys_ok n s \<Longrightarrow> kernel_fine k \<Longrightarrow> unat (next_pid k) + m < 2 ^ 32 \<Longrightarrow> sys_ok m (s\<lparr>kern := k\<rparr>)"
  by (simp add: sys_ok_def)

lemma more_untouched:
  fixes s t :: "'s system_scheme"
  assumes "vga.more t = vga.more s"
  shows "untouched t = untouched s" "kern t = kern s" "files t = files s" "cmd_pos t = cmd_pos s" "cmd_buffer t = cmd_buffer s"
  using assms by (cases s; cases t; simp add: untouched_def)+

lemma displays_keeps:
  fixes s :: "'s system_scheme"
  assumes "displays p" "sys_ok n s"
  obtains t where "p s = Some t" "sys_ok n t" "untouched t = untouched s" "kern t = kern s" "files t = files s"
    "cmd_pos t = cmd_pos s" "cmd_buffer t = cmd_buffer s"
proof -
  have "console_ok s" using assms(2) by (simp add: sys_ok_def)
  then obtain t where t: "p s = Some t" "console_ok t" "vga.more t = vga.more s" by (rule displaysD [OF assms(1)])
  note m = more_untouched [OF t(3)]
  show thesis by (rule that [OF t(1) _ m]) (use assms(2) t(2) m in \<open>simp add: sys_ok_def\<close>)
qed

section \<open>Commands that return, and commands that keep the invariant if they return\<close>

definition goes :: "nat \<Rightarrow> 's system_scheme \<Rightarrow> 's system_scheme option \<Rightarrow> bool" where
  "goes n s r \<longleftrightarrow> (\<exists>t. r = Some t \<and> sys_ok n t \<and> untouched t = untouched s)"

definition may :: "nat \<Rightarrow> 's system_scheme \<Rightarrow> 's system_scheme option \<Rightarrow> bool" where
  "may n s r \<longleftrightarrow> (\<forall>t. r = Some t \<longrightarrow> sys_ok n t \<and> untouched t = untouched s)"

named_theorems step_rules

lemma goes_may: "goes n s r \<Longrightarrow> may n s r"
  by (auto simp: goes_def may_def)

lemma goes_mono: "goes n s r \<Longrightarrow> m \<le> n \<Longrightarrow> goes m s r"
  using sys_ok_mono by (auto simp: goes_def)

lemma goes_Some [step_rules]: "sys_ok n u \<Longrightarrow> untouched u = untouched s \<Longrightarrow> goes n s (Some u)"
  by (simp add: goes_def)

lemma goes_displays:
  fixes s u :: "'s system_scheme"
  assumes "displays p" "sys_ok n u" "untouched u = untouched s"
    "\<And>t. sys_ok n t \<Longrightarrow> untouched t = untouched s \<Longrightarrow> kern t = kern u \<Longrightarrow> files t = files u \<Longrightarrow> goes n s (f t)"
  shows "goes n s (p u \<bind> f)"
proof -
  obtain t where "p u = Some t" "sys_ok n t" "untouched t = untouched u" "kern t = kern u" "files t = files u"
    using displays_keeps [OF assms(1,2)] by metis
  then show ?thesis using assms(3,4) by simp
qed

lemma goes_display:
  fixes s u :: "'s system_scheme"
  assumes "displays p" "sys_ok n u" "untouched u = untouched s"
  shows "goes n s (p u)"
  using goes_displays [OF assms, of Some] by (simp add: goes_Some)

lemmas goes_printf [step_rules] = goes_displays [OF displays_printf] goes_display [OF displays_printf]

text \<open>Where \<open>printf\<close> returns at all, its format was accepted.\<close>

lemma printf_any:
  fixes s u :: "'s system_scheme"
  assumes "sys_ok m u" "untouched u = untouched s" "Q None"
    "\<And>t. sys_ok m t \<Longrightarrow> untouched t = untouched s \<Longrightarrow> Q (f t)"
  shows "Q (printf fmt args u \<bind> f)"
proof (cases "accepts fmt args")
  case True
  obtain t where "printf fmt args u = Some t" "sys_ok m t" "untouched t = untouched u"
    using displays_keeps [OF displays_printf [OF True] assms(1)] by metis
  then show ?thesis using assms(2,4) by simp
next
  case False
  have "vga_inv u" "line_ready u" using assms(1) by (simp_all add: sys_ok_def console_ok_def)
  then have "printf fmt args u = None" using printf_returns_iff [of u fmt args] False by auto
  then show ?thesis using assms(3) by simp
qed

lemma may_None: "may n s None"
  by (simp add: may_def)

lemmas may_printf [step_rules] = printf_any [where Q = "may n s" for n s, OF _ _ may_None]

lemma may_Some [step_rules]: "sys_ok n u \<Longrightarrow> untouched u = untouched s \<Longrightarrow> may n s (Some u)"
  by (simp add: may_def)

lemma may_last [step_rules]: "sys_ok n u \<Longrightarrow> untouched u = untouched s \<Longrightarrow> may n s (printf fmt args (u :: 's system_scheme))"
  using may_printf [where n = n and s = s and u = u and m = n and f = Some] by (simp add: may_Some)

lemma step_if [step_rules]:
  "(b \<Longrightarrow> goes n s x) \<Longrightarrow> (\<not> b \<Longrightarrow> goes n s y) \<Longrightarrow> goes n s (if b then x else y)"
  "(b \<Longrightarrow> may n s x) \<Longrightarrow> (\<not> b \<Longrightarrow> may n s y) \<Longrightarrow> may n s (if b then x else y)"
  by simp_all

lemma may_bind: "(\<And>x. r = Some x \<Longrightarrow> may n s (f x)) \<Longrightarrow> may n s (r \<bind> f)"
  by (cases r) (simp_all add: may_def)


lemma may_bind_pair: "(\<And>a b. r = Some (a, b) \<Longrightarrow> may n s (f a b)) \<Longrightarrow> may n s (r \<bind> (\<lambda>(a, b). f a b))"
  by (cases r) (auto simp: may_def)

section \<open>The commands that print\<close>

lemma ending_formats [simp]: "CHR ''%'' \<notin> set nl"
  by (simp add: nl_def)

lemmas goes_lines = goes_displays [OF displays_print_lines] goes_display [OF displays_print_lines]

lemma goes_help: "sys_ok n s \<Longrightarrow> goes n s (cmd_help s)"
  unfolding cmd_help_def by (intro step_rules goes_lines) (simp_all add: nl_def)

lemma goes_info: "sys_ok n s \<Longrightarrow> goes n s (cmd_info s)"
  unfolding cmd_info_def by (intro step_rules) (simp_all add: nl_def)

lemma displays_clear: "displays vga_clear"
  unfolding displays_def
proof (intro allI impI)
  fix s :: "'s vga_scheme"
  assume ok: "console_ok s"
  then have len: "length (vga_buffer s) = 2000" by (simp add: console_ok_def vga_inv_def)
  obtain t where t: "vga_clear s = Some t" "vga_inv t" "device t = device s" using vga_clear_spec [OF len] by blast
  have "vga.more t = vga.more s"
    using t(1) fill_cells [OF len, of 0 2000] by (auto simp: vga_clear_def word_norm)
  moreover have "line_ready t" using ok line_ready_cong [OF t(3)] by (simp add: console_ok_def)
  ultimately show "\<exists>t. vga_clear s = Some t \<and> console_ok t \<and> vga.more t = vga.more s" using t by (auto simp: console_ok_def)
qed

lemma goes_clear: "sys_ok n s \<Longrightarrow> goes n s (vga_clear s)"
  by (rule goes_display [OF displays_clear]) simp_all

lemma goes_stats: "sys_ok n s \<Longrightarrow> goes n s (print_stats s)"
  unfolding print_stats_def Let_def by (intro step_rules) (simp_all add: nl_def pmm_print_stats_def)

lemma goes_unknown: "sys_ok n s \<Longrightarrow> goes n s (cmd_unknown cmd s)"
  by (rule goes_display [OF displays_cmd_unknown]) simp_all

lemma goes_df: "sys_ok n s \<Longrightarrow> goes n s (cmd_df s)"
  unfolding cmd_df_def by (intro step_rules) (simp_all add: nl_def)

lemma goes_list_files: "sys_ok n u \<Longrightarrow> untouched u = untouched s \<Longrightarrow> goes n s (list_files fs u)"
proof (induction fs arbitrary: u)
  case Nil
  then show ?case by (simp add: goes_Some)
next
  case (Cons f fs)
  obtain nm sz where f: "f = (nm, sz)" by (cases f)
  have "goes n s (printf (''  %%-20s %%5d bytes'' @ nl) [] u \<bind> list_files fs)"
    by (rule goes_printf(1)) (use Cons in \<open>simp_all add: nl_def\<close>)
  then show ?case unfolding f list_files.simps ls_row_is_literal .
qed

lemma goes_ls: "sys_ok n s \<Longrightarrow> goes n s (cmd_ls s)"
  unfolding cmd_ls_def Let_def
  by (intro step_rules goes_list_files) (simp_all add: nl_def)

section \<open>The commands that use files\<close>

lemma parsed_name: "length (parse_name args) < 32"
  by (simp add: parse_name_eq)

lemma goes_touch:
  assumes ok: "sys_ok n s"
  shows "goes n s (cmd_touch cmd s)"
proof -
  let ?args = "skip_whitespace (drop 6 cmd)"
  let ?name = "parse_name ?args"
  have inv: "ramfs_inv (files s)" using ok by (simp add: sys_ok_def)
  obtain r fs where c: "ramfs_create (files s) ?name = (r, fs)" by fastforce
  from inv parsed_name [of ?args] have "ramfs_inv fs" by (cases rule: ramfs_create_cases) (use c inv in simp_all)
  then have t: "sys_ok n (with_files fs s)" by (rule sys_ok_files [OF ok])
  have p: "goes n s (printf fmt args u)" if "accepts fmt args" "u = s \<or> u = with_files fs s" for fmt args u
    using goes_printf(2) [OF that(1), of n u s] that(2) ok t by auto
  show ?thesis
    unfolding cmd_touch_def by (auto simp: Let_def c intro!: p) (simp_all add: nl_def quoted_def)
qed

lemma goes_rm:
  assumes ok: "sys_ok n s"
  shows "goes n s (cmd_rm cmd s)"
proof -
  let ?args = "skip_whitespace (drop 3 cmd)"
  obtain r fs where c: "ramfs_delete (files s) (parse_name ?args) = (r, fs)" by fastforce
  have "ramfs_inv (files s)" using ok by (simp add: sys_ok_def)
  then have "ramfs_inv fs" by (rule ramfs_delete_spec(1) [OF _ c])
  then have t: "sys_ok n (with_files fs s)" by (rule sys_ok_files [OF ok])
  have p: "goes n s (printf fmt args u)" if "accepts fmt args" "u = s \<or> u = with_files fs s" for fmt args u
    using goes_printf(2) [OF that(1), of n u s] that(2) ok t by auto
  show ?thesis
    unfolding cmd_rm_def by (auto simp: Let_def c intro!: p) (simp_all add: nl_def quoted_def)
qed

lemma goes_cat:
  assumes ok: "sys_ok n s" and buf: "length (file_buffer img) = 4097"
  shows "goes n s (cmd_cat img cmd s)"
proof -
  let ?name = "parse_name (skip_whitespace (drop 4 cmd))"
  have inv: "ramfs_inv (files s)" using ok by (simp add: sys_ok_def)
  have p: "goes n s (printf fmt args s)" if "accepts fmt args" for fmt args
    using goes_printf(2) [OF that ok refl] .
  show ?thesis
  proof (cases "skip_whitespace (drop 4 cmd) = [] \<or> \<not> ramfs_exists (files s) ?name")
    case True
    then show ?thesis unfolding cmd_cat_def by (auto simp: Let_def intro!: p) (simp_all add: nl_def quoted_def)
  next
    case False
    then obtain d where d: "ramfs_lookup (files s) ?name = Some d" by (auto simp: ramfs_exists_def ramfs_lookup_def)
    have "min (length d) (unat RAMFS_MAX_FILESIZE) \<le> length (file_buffer img)"
      using buf by (simp add: RAMFS_MAX_FILESIZE_def)
    from ramfs_read_spec [OF inv d this] obtain k buffer
      where r: "ramfs_read (files s) ?name (file_buffer img) RAMFS_MAX_FILESIZE = Some (int k, buffer)" by blast
    have "goes n s (do { t \<leftarrow> printf ''%s'' [Text (Some (c_string (buffer[k := 0])))] s;
        if k > 0 \<and> buffer[k := 0] ! nat (int k - 1) \<noteq> 10 then printf nl [] t else Some t })"
      by (rule goes_printf(1)) (use ok in \<open>auto intro!: goes_printf(2) goes_Some simp: nl_def\<close>)
    moreover have "goes n s (printf (''(empty file)'' @ nl) [] s)" by (rule p) (simp add: nl_def)
    ultimately show ?thesis using False r unfolding cmd_cat_def by (cases "k = 0") (simp_all add: Let_def)
  qed
qed

lemma goes_write:
  assumes ok: "sys_ok n s" and len: "length cmd \<le> 255"
  shows "goes n s (cmd_write cmd s)"
proof -
  let ?args = "skip_whitespace (drop 6 cmd)"
  let ?text = "skip_whitespace (skip_to_whitespace ?args)"
  have inv: "ramfs_inv (files s)" using ok by (simp add: sys_ok_def)
  have "length ?text \<le> length cmd"
    using length_dropWhile_le [of is_blank "skip_to_whitespace ?args"] length_dropWhile_le [of "\<lambda>c. \<not> is_blank c" ?args]
      length_dropWhile_le [of is_blank "drop 6 cmd"]
    unfolding skip_whitespace_eq skip_to_whitespace_eq by simp
  then have "unat (of_nat (length ?text) :: u32) \<le> length (to_bytes ?text)"
    using len by (simp add: to_bytes_def unsigned_of_nat take_bit_nat_eq_self)
  from inv parsed_name [of ?args] this obtain w fs
    where w: "ramfs_write (files s) (parse_name ?args) (to_bytes ?text) (of_nat (length ?text)) = Some (w, fs)" "ramfs_inv fs"
    by (cases rule: ramfs_write_cases) (use inv in auto)
  have t: "sys_ok n (with_files fs s)" by (rule sys_ok_files [OF ok w(2)])
  have p: "goes n s (printf fmt args u)" if "accepts fmt args" "u = s \<or> u = with_files fs s" for fmt args u
    using goes_printf(2) [OF that(1), of n u s] that(2) ok t by auto
  show ?thesis
    unfolding cmd_write_def by (auto simp: Let_def w(1) intro!: p) (simp_all add: nl_def quoted_def)
qed


section \<open>The commands that use processes and pages\<close>

text \<open>They keep the invariant when they return; whether they do depends on the page tables and the frames left.\<close>

lemma fine_with_vm: "kernel_fine (with_vm v k) = kernel_fine k"
proof -
  have u: "used (with_vm v k) = used k" by (simp add: fun_eq_iff)
  have c: "children (with_vm v k) = children k" by (simp add: children_def fun_eq_iff)
  have l: "live_pid (with_vm v k) = live_pid k" by (simp add: live_pid_def fun_eq_iff)
  show ?thesis unfolding kernel_fine_def proc_inv_def current_ok_def run_ok_def u c l by simp
qed

lemma sys_ok_vm [simp]: "sys_ok n (s\<lparr>kern := with_vm v (kern s)\<rparr>) = sys_ok n s"
  by (simp add: sys_ok_def fine_with_vm)

lemma sys_ok_vmI [step_rules]: "sys_ok n s \<Longrightarrow> sys_ok n (s\<lparr>kern := with_vm v (kern s)\<rparr>)"
  by simp

lemma create_fine:
  assumes "kernel_fine k" "next_pid k < 0xFFFFFFFF" "process_create nm e pr k = Some (r, u)"
  shows "kernel_fine u" "unat (next_pid u) \<le> Suc (unat (next_pid k))"
proof -
  have k: "proc_inv k" "current_ok k" "0 < next_pid k" "run_ok k" using assms(1) by (auto simp: kernel_fine_def)
  note c = create_run_ok [OF k(1-3) assms(2,3) k(4)]
  have up: "unat (next_pid k + 1) = Suc (unat (next_pid k))" using unat_inc_less [OF assms(2)] .
  from k(1-3) assms(2,3) have "proc_inv u \<and> current_ok u \<and> unat (next_pid u) \<le> Suc (unat (next_pid k))"
    by (cases rule: process_create_cases) (use k up in auto)
  then show "kernel_fine u" "unat (next_pid u) \<le> Suc (unat (next_pid k))" using c by (auto simp: kernel_fine_def)
qed

lemma may_create [step_rules]:
  assumes "sys_ok (Suc n) u" "untouched u = untouched s"
    "\<And>r t. sys_ok n t \<Longrightarrow> untouched t = untouched s \<Longrightarrow> may m s (f r t)"
  shows "may m s (create img nm fn u \<bind> (\<lambda>(r, t). f r t))"
proof (rule may_bind)
  fix x assume "create img nm fn u = Some x"
  then obtain r k where x: "process_create nm (address_of img fn) PRIORITY_REGULAR (kern u) = Some (r, k)"
    "x = (r, u\<lparr>kern := k\<rparr>)" by (auto simp: create_def bind_eq_Some_conv)
  have u: "kernel_fine (kern u)" "unat (next_pid (kern u)) + Suc n < 2 ^ 32" using assms(1) by (simp_all add: sys_ok_def)
  then have "next_pid (kern u) < 0xFFFFFFFF" by (simp add: word_less_nat_alt)
  note c = create_fine [OF u(1) this x(1)]
  have "sys_ok n (u\<lparr>kern := k\<rparr>)" by (rule sys_ok_kern [OF assms(1) c(1)]) (use c(2) u(2) in simp)
  then have "may m s (f r (u\<lparr>kern := k\<rparr>))" by (rule assms(3)) (simp add: assms(2))
  then show "may m s (case x of (r, t) \<Rightarrow> f r t)" by (simp add: x(2))
qed

lemma sys_ok_start [simp]: "sys_ok n (start_scheduler s) = sys_ok n s" "untouched (start_scheduler s) = untouched s"
  by (simp_all add: start_scheduler_def sys_ok_def scheduler_start_def kernel_fine_def enabled_inv)

lemma may_drop: "may n s r \<Longrightarrow> m \<le> n \<Longrightarrow> may m s r"
  using sys_ok_mono by (auto simp: may_def)

lemma sys_ok_later: "sys_ok (Suc n) s \<Longrightarrow> sys_ok n s"
  using sys_ok_mono by fastforce

lemma may_testproc: "sys_ok (Suc (Suc (Suc n))) s \<Longrightarrow> may n s (cmd_testproc img s)"
  unfolding cmd_testproc_def by (rule step_rules | assumption | simp)+

lemma may_testexit: "sys_ok (Suc (Suc (Suc n))) s \<Longrightarrow> may n s (cmd_testexit img s)"
  unfolding cmd_testexit_def by (rule step_rules | assumption | simp)+

lemma may_testhier: "sys_ok (Suc (Suc (Suc (Suc n)))) s \<Longrightarrow> may n s (cmd_testhier img s)"
  unfolding cmd_testhier_def by (rule step_rules | assumption | simp)+

lemma may_rows: "sys_ok n u \<Longrightarrow> untouched u = untouched s \<Longrightarrow> may n s (print_rows fmt rows (u :: 's system_scheme))"
proof (induction rows arbitrary: u)
  case (Cons row rows)
  show ?case unfolding print_rows.simps by (rule may_printf [OF Cons.prems]) (rule Cons.IH)
qed (simp add: may_Some)

lemma may_ps: "sys_ok n s \<Longrightarrow> may n s (cmd_ps s)"
  unfolding cmd_ps_def by (rule step_rules may_rows | assumption | simp)+

text \<open>The row format of \<open>ps\<close> is one \<open>printf\<close> does not know: its first \<open>%s\<close> takes the process number for a string.\<close>

lemma ps_row_rejected: "\<not> accepts process_row_format (Word n # args)"
  by (simp add: process_row_format_def)

lemma cmd_ps_undefined:
  fixes s :: "'s system_scheme"
  assumes ok: "console_ok s" and used: "k < 32" "p_state (proc (kern s) k) \<noteq> PROCESS_STATE_UNUSED"
  shows "cmd_ps s = None"
proof -
  have acc: "accepts (''PID  State      Priority  Parent  Children  Name'' @ nl) []"
    "accepts (''---  ---------  --------  ------  --------  ----'' @ nl) []" by (simp_all add: nl_def)
  obtain s1 where s1: "printf (''PID  State      Priority  Parent  Children  Name'' @ nl) [] s = Some s1" "console_ok s1" "vga.more s1 = vga.more s"
    by (rule displaysD [OF displays_printf [OF acc(1)] ok])
  obtain s2 where s2: "printf (''---  ---------  --------  ------  --------  ----'' @ nl) [] s1 = Some s2" "console_ok s2" "vga.more s2 = vga.more s1"
    by (rule displaysD [OF displays_printf [OF acc(2)] s1(2)])
  have kern: "kern s2 = kern s" using more_system(1) [OF s2(3)] more_system(1) [OF s1(3)] by simp
  have "k \<in> set (filter (\<lambda>i. p_state (process_table (kern s) ! i) \<noteq> PROCESS_STATE_UNUSED) [0..<MAX_PROCESSES])"
    using used by (simp add: MAX_PROCESSES_def)
  then obtain n st pr pa ch nm rest where "process_print_table (kern s) = (n, st, pr, pa, ch, nm) # rest"
    unfolding process_print_table_def by (metis (no_types, lifting) empty_iff list.map_disc_iff list.set(1) neq_Nil_conv prod_cases6)
  moreover have "printf process_row_format (Word n # args) s2 = None" for n args
    using printf_returns_iff [of s2 process_row_format "Word n # args"] ps_row_rejected s2(2) by (auto simp: console_ok_def)
  ultimately show ?thesis using s1(1) s2(1) by (simp add: cmd_ps_def kern)
qed

lemma may_vmm: "sys_ok n s \<Longrightarrow> may n s (cmd_vmm s)"
  unfolding cmd_vmm_def by (rule may_bind, rule step_rules) (assumption | simp | rule may_rows)+

lemma may_alloc_map: "sys_ok n u \<Longrightarrow> untouched u = untouched s \<Longrightarrow> may n s (alloc_map_test phys (u :: 's system_scheme))"
  unfolding alloc_map_test_def Let_def
  by (rule step_rules may_bind_pair may_bind | assumption | simp)+

lemma may_pair: "(\<And>a b. r = (a, b) \<Longrightarrow> may n s (f a b)) \<Longrightarrow> may n s (case r of (a, b) \<Rightarrow> f a b)"
  by (cases r) simp

lemma may_then: "may n s r \<Longrightarrow> (\<And>t. sys_ok n t \<Longrightarrow> untouched t = untouched s \<Longrightarrow> may n s (f t)) \<Longrightarrow> may n s (r \<bind> f)"
  by (rule may_bind) (metis may_def)

lemma may_stats: "sys_ok n u \<Longrightarrow> untouched u = untouched s \<Longrightarrow> may n s (print_stats (u :: 's system_scheme))"
  unfolding print_stats_def Let_def by (rule step_rules | assumption)+

lemma may_alloc: "sys_ok n s \<Longrightarrow> may n s (cmd_alloc s)"
  unfolding cmd_alloc_def Let_def
  by (rule step_rules may_pair may_then may_stats may_alloc_map | assumption | simp)+

text \<open>The switch to ring 3 returns only when it could not be made: the system call from there stops the machine.\<close>

definition may_frame :: "nat \<Rightarrow> 's system_scheme \<Rightarrow> (registers \<times> 's system_scheme) ending option \<Rightarrow> bool" where
  "may_frame n s r \<longleftrightarrow> (\<forall>regs t. r = Some (Returns (regs, t)) \<longrightarrow> sys_ok n t \<and> untouched t = untouched s)"

lemma may_frame_simps [simp]: "may_frame n s None" "may_frame n s (Some (Halts x))"
  by (simp_all add: may_frame_def)

lemma may_frame_message:
  fixes u :: "'s system_scheme"
  assumes "sys_ok n u" "untouched u = untouched s"
  shows "may_frame n s (map_option (\<lambda>t. Returns (regs, t)) (printf fmt args u))"
  using may_last [OF assms, of fmt args] by (auto simp: may_frame_def may_def)

lemmas may_frame_printf = printf_any [where Q = "may_frame n s" for n s, OF _ _ may_frame_simps(1)]

lemma may_frame_bind:
  "(\<And>x. r = Some x \<Longrightarrow> may_frame n s (f x)) \<Longrightarrow> may_frame n s (r \<bind> f)"
  "(\<And>a b. q = Some (a, b) \<Longrightarrow> may_frame n s (g a b)) \<Longrightarrow> may_frame n s (q \<bind> (\<lambda>(a, b). g a b))"
  "(c \<Longrightarrow> may_frame n s x) \<Longrightarrow> (\<not> c \<Longrightarrow> may_frame n s y) \<Longrightarrow> may_frame n s (if c then x else y)"
  by (cases r; simp) (cases q; auto)+

lemma ring3_halts:
  fixes t :: "'s system_scheme"
  assumes "sys_ok n t" "interrupt_handlers t ! 128 = Some Syscall_handler"
  shows "may_frame m s (user_mode_test_function cr junk (jump_to_ring3 stack (regs, t)))"
proof -
  obtain r u where j: "jump_to_ring3 stack (regs, t) = (r, u)" "u = t\<lparr>interrupts_on := True\<rparr>"
    by (simp add: jump_to_ring3_def)
  have "interrupt_handlers u ! 128 = Some Syscall_handler" using assms(2) j(2) by simp
  note h = nth_handler [OF this]
  have "console_ok u" using assms(1) j(2) by (simp add: sys_ok_def)
  then obtain v where "usermode_syscall_handler (r\<lparr>r_eax := 1, r_int_no := 128\<rparr>, u) =
      Some (Halts (r\<lparr>r_eax := 1, r_int_no := 128\<rparr>, v))" using usermode_syscall_handler_halts by blast
  then show ?thesis unfolding j(1) by (simp add: user_mode_test_function_def h syscall_handler_def andthen_def)
qed

lemma untouched_handlers: "untouched t = untouched s \<Longrightarrow> interrupt_handlers t = interrupt_handlers s"
  by (simp add: untouched_def)

lemma sys_ok_kvm [simp]: "sys_ok n (with_kvm v s) = sys_ok n s" "untouched (with_kvm v s) = untouched (s :: 's system_scheme)"
  by (simp_all add: with_kvm_def)

lemma may_frame_enter:
  fixes u :: "'s system_scheme"
  assumes "sys_ok n u" "untouched u = untouched s" "interrupt_handlers s ! 128 = Some Syscall_handler"
  shows "may_frame n s (enter_user_mode ep cr junk (regs, u))"
proof -
  have h: "interrupt_handlers t ! 128 = Some Syscall_handler" if "untouched t = untouched s" for t
    using untouched_handlers [OF that] assms(3) by simp
  show ?thesis
    unfolding enter_user_mode_def Let_def prod.case using assms(1,2)
    by - (rule may_frame_printf may_frame_bind(3) may_frame_bind(2) may_frame_bind(1) may_frame_message ring3_halts h |
      assumption | simp)+
qed

lemma may_frame_snd:
  "may_frame n s r \<Longrightarrow> map_option (map_ending snd) r = Some (Returns t) \<Longrightarrow> sys_ok n t \<and> untouched t = untouched s"
  unfolding may_frame_def map_option_eq_Some
  by (elim exE conjE, rename_tac e, case_tac e) auto

lemma usermode_keeps:
  fixes s t :: "'s system_scheme"
  assumes ok: "sys_ok n s" "interrupt_handlers s ! 128 = Some Syscall_handler" and r: "cmd_usermode img regs s = Some (Returns t)"
  shows "sys_ok n t \<and> untouched t = untouched s"
proof -
  let ?Q = "\<lambda>r. \<forall>t :: 's system_scheme. r = Some (Returns t) \<longrightarrow> sys_ok n t \<and> untouched t = untouched s"
  have last: "?Q (map_option (map_ending snd) (enter_user_mode e cr junk (regs, u)))"
    if "sys_ok n u" "untouched u = untouched s" for e cr junk and u :: "'s system_scheme"
    using may_frame_snd [OF may_frame_enter [OF that ok(2)]] by blast
  have "?Q (cmd_usermode img regs s)"
    using ok(1) unfolding cmd_usermode_def
    by - (rule printf_any [where Q = ?Q and m = n and s = s] last | assumption | rule refl | simp)+
  then show ?thesis using r by blast
qed


section \<open>Any command line\<close>

definition kernel_commands :: "string set" where
  "kernel_commands = {''vmm'', ''alloc'', ''ps'', ''testproc'', ''testexit'', ''testhier'', ''usermode''}"

lemma halting_commands:
  assumes "sys_ok n s"
  shows "\<exists>t. cmd_reboot s = Some (Halts t)" "\<exists>t. cmd_halt s = Some (Halts t)"
proof -
  have "goes n s (printf (''Rebooting...'' @ nl) [] s)" "goes n s (printf (''Halting CPU...'' @ nl) [] s)"
    by (rule goes_printf(2) [OF _ assms refl]; simp add: nl_def)+
  then show "\<exists>t. cmd_reboot s = Some (Halts t)" "\<exists>t. cmd_halt s = Some (Halts t)"
    by (auto simp: cmd_reboot_def cmd_halt_def goes_def)
qed

text \<open>All other commands return or stop the machine as they should.\<close>

lemma command_returns:
  assumes ok: "sys_ok n s" and len: "length line \<le> 255" and buf: "length (file_buffer img) = 4097"
    and other: "skip_whitespace line \<notin> kernel_commands"
  shows "\<exists>r. shell_process_command img regs line s = Some r \<and> (\<forall>t. r = Returns t \<longrightarrow> sys_ok n t \<and> untouched t = untouched s)"
proof -
  let ?cmd = "skip_whitespace line"
  have l: "length ?cmd \<le> 255" using len length_dropWhile_le [of is_blank line] by (simp add: skip_whitespace_eq)
  have g: "\<exists>r. returns x = Some r \<and> (\<forall>t. r = Returns t \<longrightarrow> sys_ok n t \<and> untouched t = untouched s)" if "goes n s x" for x
    using that by (auto simp: goes_def returns_def)
  note G = g [OF goes_help [OF ok]] g [OF goes_clear [OF ok]] g [OF goes_info [OF ok]] g [OF goes_stats [OF ok]]
    g [OF goes_ls [OF ok]] g [OF goes_df [OF ok]] g [OF goes_touch [OF ok]] g [OF goes_rm [OF ok]]
    g [OF goes_cat [OF ok buf]] g [OF goes_write [OF ok l]] g [OF goes_unknown [OF ok]]
  have h: "\<exists>r. x = Some r \<and> (\<forall>t. r = Returns t \<longrightarrow> sys_ok n t \<and> untouched t = untouched s)" if "\<exists>t. x = Some (Halts t)" for x
    using that by auto
  show ?thesis
    using other unfolding kernel_commands_def shell_process_command_def Let_def cmd_equal_eq
    by (simp add: G h halting_commands [OF ok] ok)
qed

lemma command_keeps:
  assumes ok: "sys_ok (n + 4) s" "interrupt_handlers s ! 128 = Some Syscall_handler"
    and len: "length line \<le> 255" and buf: "length (file_buffer img) = 4097"
    and r: "shell_process_command img regs line s = Some (Returns t)"
  shows "sys_ok n t \<and> untouched t = untouched s"
proof -
  have lower: "sys_ok k s" if "k \<le> n + 4" for k using sys_ok_mono [OF ok(1) that] .
  have m: "sys_ok n t \<and> untouched t = untouched s" if "may n s x" "returns x = Some (Returns t)" for x
    using that by (auto simp: may_def returns_def)
  have four: "sys_ok (Suc (Suc (Suc (Suc n)))) s" "sys_ok (Suc (Suc (Suc n))) s" "sys_ok n s" by (rule lower; simp)+
  show ?thesis
  proof (cases "skip_whitespace line \<in> kernel_commands")
    case False
    then show ?thesis using command_returns [OF four(3) len buf False, of regs] r by auto
  next
    case True
    note M = m [OF may_vmm [OF four(3)]] m [OF may_alloc [OF four(3)]] m [OF may_ps [OF four(3)]]
      m [OF may_testproc [OF four(2)]] m [OF may_testexit [OF four(2)]] m [OF may_testhier [OF four(1)]]
      usermode_keeps [OF four(3) ok(2)]
    show ?thesis
      using True r unfolding kernel_commands_def shell_process_command_def Let_def cmd_equal_eq
      by (elim insertE emptyE) (simp_all add: M)
  qed
qed


section \<open>Interrupts\<close>

text \<open>The handlers start-up registers: those of the sixteen interrupt lines, and the system call's.\<close>

definition handlers_ok :: "isr option list \<Rightarrow> bool" where
  "handlers_ok hs \<longleftrightarrow> hs ! 128 = Some Syscall_handler \<and>
     (\<forall>i. 32 \<le> i \<and> i < 48 \<longrightarrow> hs ! i \<in> {None, Some Timer_callback, Some Keyboard_callback, Some Mouse_callback})"

definition session_inv :: "nat \<Rightarrow> 's system_scheme \<Rightarrow> bool" where
  "session_inv n s \<longleftrightarrow> sys_ok n s \<and> length (cmd_buffer s) = 256 \<and> 0 \<le> cmd_pos s \<and> cmd_pos s \<le> 255 \<and>
     events_inv (queue s) \<and> mouse_inv s \<and> handlers_ok (interrupt_handlers s)"

text \<open>What the interrupt handlers of keyboard and mouse leave alone.\<close>

definition behind :: "'s system_scheme \<Rightarrow>
    (u16 list \<times> int \<times> int \<times> (nat \<Rightarrow> u16 \<Rightarrow> u8)) \<times> kernel \<times> ramfs \<times> string \<times> int \<times> isr option list" where
  "behind s = ((vga_buffer s, vga_row s, vga_col s, device s), kern s, files s, cmd_buffer s, cmd_pos s, interrupt_handlers s)"

lemma session_cong:
  assumes "session_inv n s" "behind t = behind s" "events_inv (queue t)" "mouse_inv t"
  shows "session_inv n t"
proof -
  have "console_ok t = console_ok s"
    using assms(2) line_ready_cong [of t s] by (simp add: behind_def console_ok_def vga_inv_def)
  then show ?thesis using assms by (simp add: session_inv_def sys_ok_def behind_def)
qed

lemma press_behind: "behind (press k d j s) = behind s" "events_inv (queue s) \<Longrightarrow> events_inv (queue (press k d j s))"
  by (simp_all add: press_def click_def behind_def push_event_fields(1))

lemma move_event_behind: "behind (move_event dx dy j s) = behind s"
    "events_inv (queue s) \<Longrightarrow> events_inv (queue (move_event dx dy j s))"
  by (simp_all add: move_event_def behind_def push_event_fields(1))

lemma behind_updates [simp]:
  "behind (s\<lparr>clock := c\<rparr>) = behind s" "behind (s\<lparr>mouse_buttons := b\<rparr>) = behind s" "behind (s\<lparr>mouse_bytes := bs\<rparr>) = behind s"
  "behind (s\<lparr>mouse_cycle := cy\<rparr>) = behind s" "behind (s\<lparr>mouse_x := x\<rparr>) = behind s" "behind (s\<lparr>mouse_y := y\<rparr>) = behind s"
  "behind (s\<lparr>queue := q\<rparr>) = behind s" "behind (s\<lparr>shift_pressed := f\<rparr>) = behind s" "behind (s\<lparr>ctrl_pressed := f\<rparr>) = behind s"
  "behind (s\<lparr>alt_pressed := f\<rparr>) = behind s" "behind (s\<lparr>caps_lock := f\<rparr>) = behind s" "behind (s\<lparr>port_writes := w\<rparr>) = behind s"
  "behind (s\<lparr>tick_count := n\<rparr>) = behind s"
  by (simp_all add: behind_def outb_def)

lemma mouse_packet_behind:
  fixes s :: "'s system_scheme"
  shows "behind (mouse_packet junk s) = behind s" "events_inv (queue s) \<Longrightarrow> events_inv (queue (mouse_packet junk s))"
  by (simp_all add: mouse_packet_def Let_def move_pointer_eq move_event_behind press_behind)

lemma mouse_behind:
  fixes s :: "'s system_scheme"
  shows "behind (mouse_callback junk s) = behind s" "events_inv (queue s) \<Longrightarrow> events_inv (queue (mouse_callback junk s))"
  by (simp_all add: mouse_callback_def Let_def inb_def mouse_packet_behind)

lemma keyboard_behind:
  fixes s :: "'s system_scheme"
  shows "behind (keyboard_callback junk s) = behind s" "events_inv (queue s) \<Longrightarrow> events_inv (queue (keyboard_callback junk s))"
    "mouse_inv (keyboard_callback junk s) = mouse_inv s"
  by (simp_all add: keyboard_callback_def Let_def inb_def push_event_fields(1) mouse_inv_def)

lemma timer_session: "session_inv n s \<Longrightarrow> session_inv n (timer_callback s)"
  using tick_inv [of "kern s"]
  by (simp add: session_inv_def sys_ok_def timer_callback_def kernel_fine_def mouse_inv_def console_ok_def vga_inv_def
      line_ready_def ready_def)

lemma irq_session:
  fixes s :: "'s system_scheme"
  assumes inv: "session_inv n s" and no: "32 \<le> r_int_no regs" "r_int_no regs < 48"
  shows "\<exists>t. irq_handler (call_handler cr junk) (regs, s) = Some (Returns (regs, t)) \<and> session_inv n t \<and>
    (switched_to (kern t) = switched_to (kern s) \<or>
     interrupt_handlers s ! unat (r_int_no regs) = Some Timer_callback \<and> scheduling_enabled (kern s) \<and>
     (\<exists>c. switched_to (kern t) = c # switched_to (kern s) \<and> current_process (kern t) = Some c \<and>
       p_state (proc (kern t) c) = PROCESS_STATE_RUNNING))"
proof -
  define u where "u = outb 0x20 0x20 (if r_int_no regs \<ge> 40 then outb 0xA0 0x20 s else s)"
  have ui: "session_inv n u"
    by (rule session_cong [OF inv]) (use inv in \<open>auto simp: u_def session_inv_def mouse_inv_def outb_def\<close>)
  have i: "32 \<le> unat (r_int_no regs)" "unat (r_int_no regs) < 48" "\<not> r_int_no regs \<ge> 256"
    using no by (simp_all add: word_le_nat_alt word_less_nat_alt)
  have h: "interrupt_handlers u ! unat (r_int_no regs) \<in> {None, Some Timer_callback, Some Keyboard_callback, Some Mouse_callback}"
    using ui i(1,2) unfolding session_inv_def handlers_ok_def by blast
  have eq: "irq_handler (call_handler cr junk) (regs, s) =
      (case interrupt_handlers u ! unat (r_int_no regs) of Some h \<Rightarrow> call_handler cr junk h (regs, u) | None \<Rightarrow> Some (Returns (regs, u)))"
    using i(3) by (simp only: irq_handler_def Let_def prod.case u_def if_False)
  have "session_inv n (keyboard_callback (junk 0) u)" "session_inv n (mouse_callback junk u)"
    by (rule session_cong [OF ui keyboard_behind(1)] session_cong [OF ui mouse_behind(1)];
        use ui in \<open>simp add: session_inv_def keyboard_behind mouse_behind mouse_callback_inv\<close>)+
  moreover have "kern (keyboard_callback (junk 0) u) = kern s" "kern (mouse_callback junk u) = kern s" "kern u = kern s"
    "interrupt_handlers u = interrupt_handlers s"
    using keyboard_behind(1) [of "junk 0" u] mouse_behind(1) [of junk u] by (simp_all add: behind_def u_def outb_def)
  moreover have "proc_inv (kern s)" "current_ok (kern s)"
    using inv by (simp_all add: session_inv_def sys_ok_def kernel_fine_def)
  note tick_switch [OF this]
  moreover have "kern (timer_callback u) = scheduler_tick (kern s)"
    using \<open>kern u = kern s\<close> by (simp add: timer_callback_def)
  ultimately show ?thesis unfolding eq using h ui timer_session [OF ui] by auto
qed


section \<open>Turns of the event loop\<close>

text \<open>The line the enter key hands to the shell.\<close>

definition entered :: "'s system_scheme \<Rightarrow> string" where
  "entered s = takeWhile (\<lambda>c. c \<noteq> CHR 0x00) (take (nat (cmd_pos s)) (cmd_buffer s))"

lemma session_invD:
  assumes "session_inv n s"
  shows "sys_ok n s" "length (cmd_buffer s) = 256" "0 \<le> cmd_pos s" "cmd_pos s \<le> 255"
  using assms by (simp_all add: session_inv_def)

lemma session_mono: "session_inv n s \<Longrightarrow> m \<le> n \<Longrightarrow> session_inv m s"
  using sys_ok_mono by (auto simp: session_inv_def)

lemma mouse_untouched: "untouched t = untouched s \<Longrightarrow> mouse_inv t = mouse_inv s"
  by (simp add: untouched_def mouse_inv_def)

lemma session_untouched:
  assumes "session_inv n s" "sys_ok m t" "untouched t = untouched s" "0 \<le> cmd_pos t" "cmd_pos t \<le> 255"
  shows "session_inv m t"
  using assms mouse_untouched [OF assms(3)] by (simp add: session_inv_def untouched_def)

text \<open>Keys other than enter.\<close>

lemma key_down_plain:
  fixes s :: "'s system_scheme"
  assumes inv: "session_inv n s" and c: "c \<noteq> CHR 0x0A"
  shows "\<exists>t. key_down img regs c s = Some (Returns t) \<and> session_inv n t"
proof -
  note D = session_invD [OF inv]
  have put: "\<exists>t. vga_putchar c u = Some t \<and> session_inv n t"
    if u: "sys_ok n u" "untouched u = untouched s" "0 \<le> cmd_pos u" "cmd_pos u \<le> 255" for u :: "'s system_scheme" and c
  proof -
    obtain t where "vga_putchar c u = Some t" "sys_ok n t" "untouched t = untouched u" "cmd_pos t = cmd_pos u"
      using displays_keeps [OF displays_putchar u(1)] by metis
    then show ?thesis using session_untouched [OF inv, of n t] u by auto
  qed
  consider "c = CHR 0x08" "0 < cmd_pos s" | "c \<noteq> CHR 0x08" "CHR '' '' \<le> c" "c < CHR 0x7F" "cmd_pos s < 255"
    | "key_down img regs c s = Some (Returns s)"
    using c by (cases "c = CHR 0x08"; cases "CHR '' '' \<le> c \<and> c < CHR 0x7F"; cases "0 < cmd_pos s"; cases "cmd_pos s < 255")
      (auto simp: key_down_def CMD_BUFFER_SIZE_def)
  then show ?thesis
  proof cases
    case 1
    obtain t where "vga_putchar CHR 0x08 (s\<lparr>cmd_pos := cmd_pos s - 1\<rparr>) = Some t" "session_inv n t"
      using put [of "s\<lparr>cmd_pos := cmd_pos s - 1\<rparr>"] D 1 by auto
    then show ?thesis using 1 by (simp add: key_down_def returns_def)
  next
    case 2
    let ?s1 = "s\<lparr>cmd_buffer := (cmd_buffer s)[nat (cmd_pos s) := c]\<rparr>"
    have st: "store_cmd c s = Some ?s1" using D by (simp add: store_cmd_def)
    have "untouched (?s1\<lparr>cmd_pos := cmd_pos s + 1\<rparr>) = untouched s" by (simp add: untouched_def)
    then obtain t where "vga_putchar c (?s1\<lparr>cmd_pos := cmd_pos s + 1\<rparr>) = Some t" "session_inv n t"
      using put [of "?s1\<lparr>cmd_pos := cmd_pos s + 1\<rparr>" c] D 2 by auto
    then show ?thesis using 2 c st by (simp add: key_down_def returns_def CMD_BUFFER_SIZE_def)
  next
    case 3
    then show ?thesis using inv by simp
  qed
qed

text \<open>The enter key runs the line, then asks for the next one.\<close>

lemma key_down_enter:
  fixes s :: "'s system_scheme"
  assumes inv: "session_inv (n + 4) s" and buf: "length (file_buffer img) = 4097"
  shows "key_down img regs CHR 0x0A s = Some (Returns t) \<Longrightarrow> session_inv n t"
    and "key_down img regs CHR 0x0A s = None \<Longrightarrow> skip_whitespace (entered s) \<in> kernel_commands"
proof -
  note D = session_invD [OF inv]
  have "accepts nl []" by (simp add: nl_def)
  from displays_keeps [OF displays_printf [OF this] D(1)] obtain s1
    where s1: "printf nl [] s = Some s1" "sys_ok (n + 4) s1" "untouched s1 = untouched s" "cmd_pos s1 = cmd_pos s" "cmd_buffer s1 = cmd_buffer s"
    by metis
  define s2 where "s2 = s1\<lparr>cmd_buffer := (cmd_buffer s)[nat (cmd_pos s) := CHR 0x00]\<rparr>"
  have s2: "store_cmd CHR 0x00 s1 = Some s2" using D s1 by (simp add: store_cmd_def s2_def)
  have u2: "sys_ok (n + 4) s2" "untouched s2 = untouched s" using s1 by (simp_all add: s2_def untouched_def)
  have line: "command_line s2 = entered s"
  proof -
    let ?k = "nat (cmd_pos s)"
    have "?k < length (cmd_buffer s)" using D by simp
    then have "(cmd_buffer s)[?k := CHR 0x00] = take ?k (cmd_buffer s) @ CHR 0x00 # drop (Suc ?k) (cmd_buffer s)"
      by (rule upd_conv_take_nth_drop)
    moreover have "takeWhile P (xs @ x # ys) = takeWhile P xs" if "\<not> P x" for P and x :: char and xs ys
      using that by (induction xs) auto
    ultimately show ?thesis by (simp add: command_line_def s2_def entered_def)
  qed
  have len: "length (entered s) \<le> 255"
    using D length_takeWhile_le [of "\<lambda>c. c \<noteq> CHR 0x00" "take (nat (cmd_pos s)) (cmd_buffer s)"] by (simp add: entered_def)
  have h: "interrupt_handlers s2 ! 128 = Some Syscall_handler"
    using untouched_handlers [OF u2(2)] inv by (simp add: session_inv_def handlers_ok_def)
  have eq: "key_down img regs CHR 0x0A s =
      andthen (shell_process_command img regs (entered s) s2) (\<lambda>s3. returns (shell_prompt (s3\<lparr>cmd_pos := 0\<rparr>)))"
    using s1(1) s2 line by (simp add: key_down_def)
  have prompt: "\<exists>v. shell_prompt (u\<lparr>cmd_pos := 0\<rparr>) = Some v \<and> session_inv n v"
    if u: "sys_ok n u" "untouched u = untouched s2" for u
  proof -
    have "sys_ok n (u\<lparr>cmd_pos := 0\<rparr>)" using u by simp
    then obtain v where v: "shell_prompt (u\<lparr>cmd_pos := 0\<rparr>) = Some v" "sys_ok n v" "untouched v = untouched (u\<lparr>cmd_pos := 0\<rparr>)"
        "cmd_pos v = cmd_pos (u\<lparr>cmd_pos := 0\<rparr>)"
      using displays_keeps [OF displays_shell_prompt] by metis
    then show ?thesis using session_untouched [OF inv v(2)] u u2 by simp
  qed
  show "session_inv n t" if ret: "key_down img regs CHR 0x0A s = Some (Returns t)"
  proof -
    obtain u where u: "shell_process_command img regs (entered s) s2 = Some (Returns u)"
        "returns (shell_prompt (u\<lparr>cmd_pos := 0\<rparr>)) = Some (Returns t)"
      using ret unfolding eq by (auto simp: andthen_def split: option.splits ending.splits)
    have "sys_ok n u \<and> untouched u = untouched s2" by (rule command_keeps [OF u2(1) h len buf u(1)])
    then show ?thesis using prompt [of u] u(2) by (auto simp: returns_def)
  qed
  show "skip_whitespace (entered s) \<in> kernel_commands" if none: "key_down img regs CHR 0x0A s = None"
  proof (rule ccontr)
    assume other: "skip_whitespace (entered s) \<notin> kernel_commands"
    have "sys_ok n s2" by (rule sys_ok_mono [OF u2(1)]) simp
    from command_returns [OF this len buf other, of regs] obtain r
      where r: "shell_process_command img regs (entered s) s2 = Some r" "\<And>t. r = Returns t \<Longrightarrow> sys_ok n t \<and> untouched t = untouched s2"
      by blast
    show False
    proof (cases r)
      case (Returns u)
      then show ?thesis using none r prompt [of u] unfolding eq by (auto simp: andthen_def returns_def)
    next
      case (Halts u)
      then show ?thesis using none r unfolding eq by (simp add: andthen_def)
    qed
  qed
qed


definition runs_line :: "'s system_scheme \<Rightarrow> bool" where
  "runs_line s \<longleftrightarrow> (\<exists>e es. waiting_events (queue s) = e # es \<and> ev_type e = EVENT_TYPE_KEY_DOWN \<and>
     char_of (unat (ev_data e ! 0)) = CHR 0x0A)"

lemma click_session:
  fixes s :: "'s system_scheme"
  assumes inv: "session_inv n s"
  shows "\<exists>t. mouse_click data s = Some t \<and> session_inv n t"
proof -
  note D = session_invD [OF inv]
  let ?f = "nl @ ''[Mouse] Click at (%d, %d) button %d'' @ nl"
  let ?a = "[Word (word16 data 0), Word (word16 data 2), Word (ucast (data ! 4))]"
  have "accepts ?f ?a" by (simp add: nl_def)
  from displays_keeps [OF displays_printf [OF this] D(1)] obtain s1
    where s1: "printf ?f ?a s = Some s1" "sys_ok n s1" "untouched s1 = untouched s" "cmd_pos s1 = cmd_pos s" by metis
  from displays_keeps [OF displays_shell_prompt s1(2)] obtain s2
    where s2: "shell_prompt s1 = Some s2" "sys_ok n s2" "untouched s2 = untouched s" "cmd_pos s2 = cmd_pos s"
    using s1(3,4) by metis
  let ?P = "\<lambda>i t. sys_ok n t \<and> untouched t = untouched s \<and> cmd_pos t = cmd_pos s"
  have "\<exists>t. for_int 0 (cmd_pos s2) (\<lambda>i t. vga_putchar (cmd_buffer t ! nat i) t) s2 = Some t \<and> ?P (cmd_pos s2) t"
  proof (rule for_int_rule)
    show "?P 0 s2" using s2 by simp
    show "0 \<le> cmd_pos s2" using s2(4) D by simp
  next
    fix i :: int and t assume P: "?P i t"
    then show "\<exists>u. vga_putchar (cmd_buffer t ! nat i) t = Some u \<and> ?P (i + 1) u"
      using displays_keeps [OF displays_putchar conjunct1 [OF P], of "cmd_buffer t ! nat i"] by metis
  qed
  then obtain t where t: "for_int 0 (cmd_pos s2) (\<lambda>i t. vga_putchar (cmd_buffer t ! nat i) t) s2 = Some t" "?P (cmd_pos s2) t" by blast
  have "mouse_click data s = Some t" using s1(1) s2(1) t(1) by (simp add: mouse_click_def)
  moreover have "session_inv n t" using session_untouched [OF inv, of n t] t(2) D by simp
  ultimately show ?thesis by blast
qed

lemma loop_body_step:
  fixes s :: "'s system_scheme"
  assumes inv: "session_inv (n + 4) s" and buf: "length (file_buffer img) = 4097"
  shows "loop_body img regs s = Some (Returns t) \<Longrightarrow> session_inv n t"
    and "loop_body img regs s = None \<Longrightarrow> runs_line s \<and> skip_whitespace (entered s) \<in> kernel_commands"
proof -
  have q: "events_inv (queue s)" using inv by (simp add: session_inv_def)
  let ?K = "skip_whitespace (entered s) \<in> kernel_commands"
  have "(\<forall>t. loop_body img regs s = Some (Returns t) \<longrightarrow> session_inv n t) \<and> (loop_body img regs s = None \<longrightarrow> runs_line s \<and> ?K)"
  proof (cases "waiting_events (queue s)")
    case Nil
    then have "loop_body img regs s = Some (Returns s)" using waiting_nil_iff [OF q] by (simp add: loop_body_def events_pending_def)
    then show ?thesis using session_mono [OF inv, of n] by simp
  next
    case (Cons e es)
    obtain q' where pop: "pop_event (stack_junk img 0) (queue s) = (e, q')"
      using pop_event_spec(1) [OF q Cons, of "stack_junk img 0"] by (metis prod.collapse)
    have q': "events_inv q'" using pop_event_inv [OF q, of "stack_junk img 0"] pop by simp
    let ?t = "s\<lparr>queue := q'\<rparr>"
    have pend: "events_pending (queue s)" using Cons waiting_nil_iff [OF q] by (simp add: events_pending_def)
    have t: "session_inv (n + 4) ?t" "entered ?t = entered s"
      using inv q' by (simp_all add: session_inv_def mouse_inv_def entered_def)
    then have tn: "session_inv n ?t" using session_mono by fastforce
    let ?c = "char_of (unat (ev_data e ! 0)) :: char"
    have eq: "loop_body img regs s =
       (if ev_type e = EVENT_TYPE_KEY_DOWN then key_down img regs ?c ?t
        else if ev_type e = EVENT_TYPE_MOUSE_MOVE then Some (Returns ?t)
        else if ev_type e = EVENT_TYPE_MOUSE_CLICK then returns (mouse_click (ev_data e) ?t)
        else Some (Returns ?t))"
      by (simp only: loop_body_def pop pend Let_def prod.case if_True)
    consider "ev_type e = EVENT_TYPE_KEY_DOWN" "?c = CHR 0x0A" | "ev_type e = EVENT_TYPE_KEY_DOWN" "?c \<noteq> CHR 0x0A"
      | "ev_type e \<noteq> EVENT_TYPE_KEY_DOWN" by blast
    then show ?thesis
    proof cases
      case 1
      have "runs_line s" using Cons 1 by (auto simp: runs_line_def)
      then show ?thesis using eq 1 key_down_enter [OF t(1) buf, of regs] t(2) by auto
    next
      case 2
      then show ?thesis using eq key_down_plain [OF tn 2(2), of img regs] by auto
    next
      case 3
      then show ?thesis using eq tn click_session [OF tn, of "ev_data e"] by (auto simp: returns_def)
    qed
  qed
  then show "loop_body img regs s = Some (Returns t) \<Longrightarrow> session_inv n t"
    "loop_body img regs s = None \<Longrightarrow> runs_line s \<and> ?K" by auto
qed

section \<open>Sessions\<close>

text \<open>Interrupts that return to the loop, without a switch of the process, and turns of the loop in any order; the
  number of turns bounds the processes that can have been created.\<close>

inductive session :: "image \<Rightarrow> 's system_scheme \<Rightarrow> nat \<Rightarrow> 's system_scheme \<Rightarrow> bool" for img s0 where
  start: "session img s0 0 s0"
| interrupt: "session img s0 n s \<Longrightarrow> 32 \<le> r_int_no regs \<Longrightarrow> r_int_no regs < 48 \<Longrightarrow>
    irq_handler (call_handler cr junk) (regs, s) = Some (Returns (r, t)) \<Longrightarrow>
    switched_to (kern t) = switched_to (kern s) \<Longrightarrow> session img s0 n t"
| turn: "session img s0 n s \<Longrightarrow> loop_body img regs s = Some (Returns t) \<Longrightarrow> session img s0 (Suc n) t"

lemma session_keeps:
  fixes s0 :: "'s system_scheme"
  assumes "session img s0 n s" "session_inv m s0" "length (file_buffer img) = 4097" "4 * n \<le> m"
  shows "session_inv (m - 4 * n) s"
  using assms(1,4)
proof induction
  case start
  then show ?case using assms(2) by simp
next
  case (interrupt n s regs cr junk r t)
  then show ?case using irq_session [of "m - 4 * n" s regs cr junk] by auto
next
  case (turn n s regs t)
  then have "session_inv (m - 4 * Suc n + 4) s" by simp
  then show ?case using loop_body_step(1) [OF _ assms(3) turn.hyps(2)] by blast
qed

text \<open>A started system whose keyboard controller holds the code of the A key.\<close>

definition typing_system :: system where
  "typing_system = boot_system\<lparr>device := \<lambda>_ p. if p = 0x3FD then 0x20 else 0x1E, kern := scheduler_init (process_init (static_kernel boot_vm)),
     interrupt_handlers := (replicate 256 None)[33 := Some Keyboard_callback, 128 := Some Syscall_handler]\<rparr>"

lemma typing_system_ok: "session_inv 8 typing_system"
proof -
  let ?k = "scheduler_init (process_init (static_kernel boot_vm))"
  have "kernel_fine ?k" using kernel_run_inv [OF kernel_run.start static_kernel_blank] by (simp add: kernel_fine_def)
  moreover have "next_pid ?k = 1" using process_init_table(4) [of "static_kernel boot_vm"]
    by (simp add: scheduler_init_def static_kernel_def)
  moreover have "console_ok typing_system"
    using boot_system_ok(1) by (auto simp: typing_system_def console_ok_def vga_inv_def line_ready_def ready_def)
  moreover have "ramfs_inv (files typing_system)"
    using boot_system_ok(3) blank_init by (simp add: typing_system_def)
  ultimately have "sys_ok 8 typing_system" by (simp add: sys_ok_def typing_system_def)
  moreover have "handlers_ok (interrupt_handlers typing_system)"
    by (simp add: handlers_ok_def typing_system_def nth_list_update)
  moreover have "events_inv (queue typing_system)" "mouse_inv typing_system"
    using blank_devices_inv(1) by (simp_all add: typing_system_def boot_system_def graphics.defs blank_graphics_def devices.defs mouse_inv_def blank_devices_def cpu.defs events_inv_def)
  ultimately show ?thesis
    by (simp add: session_inv_def) (simp add: typing_system_def boot_system_def graphics.defs)
qed


text \<open>C22: Whatever is typed, clicked and interrupted: in every state of a session (interrupts and turns of the event loop
  until the processor is handed to another process, with \<open>n\<close> turns and at least \<open>4 n + 4\<close> process numbers left) every
  hardware interrupt is handled without a fault and returns to the loop, except for the timer interrupt of a running scheduler,
  which may instead hand the processor to another process, then the current one and running; at most one process runs, the
  files and the event queue are well formed, and a turn of the event loop fails only by running one of the seven commands
  that work on processes and page tables.\<close>

theorem session_never_faults:
  fixes s0 :: "'s system_scheme"
  assumes "session_inv m s0" "length (file_buffer img) = 4097" "session img s0 n s" "4 * n + 4 \<le> m"
  shows "(32 \<le> r_int_no regs \<and> r_int_no regs < 48 \<longrightarrow>
      (\<exists>t. irq_handler (call_handler cr junk) (regs, s) = Some (Returns (regs, t)) \<and>
         (switched_to (kern t) = switched_to (kern s) \<or>
          interrupt_handlers s ! unat (r_int_no regs) = Some Timer_callback \<and> scheduling_enabled (kern s) \<and>
          (\<exists>c. switched_to (kern t) = c # switched_to (kern s) \<and> current_process (kern t) = Some c \<and>
            p_state (proc (kern t) c) = PROCESS_STATE_RUNNING)))) \<and>
    (loop_body img regs s = None \<longrightarrow> runs_line s \<and> skip_whitespace (entered s) \<in> kernel_commands) \<and>
    (\<forall>k<32. p_state (proc (kern s) k) = PROCESS_STATE_RUNNING \<longrightarrow> current_process (kern s) = Some k) \<and>
    ramfs_inv (files s) \<and> events_inv (queue s) \<and> mouse_inv s \<and> console_ok s"
proof -
  have inv: "session_inv (m - 4 * n) s" by (rule session_keeps [OF assms(3,1,2)]) (use assms(4) in simp)
  then have four: "session_inv (0 + 4) s" by (rule session_mono) (use assms(4) in simp)
  have "run_ok (kern s)" using inv by (simp add: session_inv_def sys_ok_def kernel_fine_def)
  then show ?thesis
    using irq_session [OF inv, of regs cr junk] loop_body_step(2) [OF four assms(2), of regs] inv
    by (simp add: session_inv_def sys_ok_def run_ok_def) blast
qed

theorem session_never_faults_witness:
  "\<exists>t. irq_handler (call_handler 0 (\<lambda>_. replicate 8 0)) (blank_regs\<lparr>r_int_no := 33\<rparr>, typing_system) =
         Some (Returns (blank_regs\<lparr>r_int_no := 33\<rparr>, t)) \<and>
       session blank_image typing_system 0 t \<and> loop_body blank_image blank_regs t \<noteq> None"
proof -
  let ?regs = "blank_regs\<lparr>r_int_no := 33\<rparr>"
  let ?t = "keyboard_callback (replicate 8 0) (outb 0x20 0x20 typing_system)"
  have call: "irq_handler (call_handler 0 (\<lambda>_. replicate 8 0)) (?regs, typing_system) = Some (Returns (?regs, ?t))"
    by (simp add: irq_handler_def Let_def outb_def) (simp add: typing_system_def nth_list_update)
  have same: "behind ?t = behind typing_system" by (simp add: keyboard_behind(1) outb_def)
  then have "switched_to (kern ?t) = switched_to (kern typing_system)" by (simp add: behind_def)
  from session.interrupt [OF session.start _ _ call this] have ses: "session blank_image typing_system 0 ?t" by simp
  note same
  then have "cmd_pos ?t = 0" by (simp add: behind_def) (simp add: typing_system_def boot_system_def graphics.defs)
  then have "entered ?t = []" by (simp add: entered_def)
  then have "skip_whitespace (entered ?t) \<notin> kernel_commands" by (simp add: kernel_commands_def)
  then have "loop_body blank_image blank_regs ?t \<noteq> None"
    using session_never_faults [OF typing_system_ok _ ses, of blank_regs] by (auto simp: blank_image_def)
  then show ?thesis using call ses by blast
qed

end
