(* ===== verification/Test_Run.thy ===== *)
theory Test_Run
  imports Session
begin

text \<open>
  The command \<open>testproc\<close> of \<open>kernel.c\<close> from the keyboard line to the timer: it makes the three processes of \<open>test_proc.c\<close>, each
  in an address space of its own, and the ticks of the timer then pass the processor round.
\<close>

section \<open>Creating processes from the idle process\<close>

text \<open>Besides the idle process there are those with the entry points \<open>es\<close>, in slots and numbers from 1 on; the memory
  manager is in the kernel's address space.\<close>

definition lineup :: "u32 list \<Rightarrow> kernel \<Rightarrow> bool" where
  "lineup es k \<longleftrightarrow> proc_inv k \<and> current_ok k \<and> run_ok k \<and> current_process k = Some 0 \<and> p_time_slice (proc k 0) = 0 \<and>
     p_state (proc k 0) = PROCESS_STATE_RUNNING \<and> next_pid k = of_nat (Suc (length es)) \<and>
     (\<forall>i < 32. used k i \<longleftrightarrow> i \<le> length es) \<and>
     (\<forall>i < length es. p_pid (proc k (Suc i)) = of_nat (Suc i) \<and> p_state (proc k (Suc i)) = PROCESS_STATE_READY \<and>
        p_eip (proc k (Suc i)) = es ! i) \<and>
     vm_inv (kvm k) \<and> kernel_ok (kvm k) \<and> current_pd_phys (kvm k) = kernel_page_directory (kvm k)"

lemma small_number: "m < 32 \<Longrightarrow> unat (of_nat m :: u32) = m"
  by (simp add: unsigned_of_nat take_bit_nat_eq_self)

lemma lineup_create:
  assumes L: "lineup es k" and m: "length es < 31" and room: "5 \<le> low_free (kvm k)" and e: "e < 0x400000"
  obtains k' where "process_create nm e pr k = Some (of_nat (Suc (length es)), k')" "lineup (es @ [e]) k'"
    "low_free (kvm k) \<le> low_free (kvm k') + 4"
proof -
  note D = L [unfolded lineup_def]
  have len: "length (process_table k) = 32" and pid0: "p_pid (proc k 0) = 0" and u0: "used k 0" using D proc_invD(1-3) by auto
  have n: "unat (next_pid k) = Suc (length es)" using D m small_number [of "Suc (length es)"] by simp
  then have np: "0 < next_pid k" "next_pid k < 0xFFFFFFFF" using m by (auto simp: word_less_nat_alt)
  have al: "process_alloc k = Some (Suc (length es))"
  proof (cases "process_alloc k")
    case None
    then have "used k 31" using process_alloc_None [of k] by simp
    moreover have "used k 31 \<longleftrightarrow> 31 \<le> length es" using D by simp
    ultimately show ?thesis using m by simp
  next
    case (Some i)
    note a = process_alloc_Some [OF Some]
    have "\<not> i \<le> length es" using a D by auto
    moreover have "\<not> Suc (length es) < i" using a D m by (metis Suc_n_not_le_n less_trans)
    ultimately show ?thesis using Some by simp
  qed
  have "vm_inv (kvm k)" "kernel_ok (kvm k)" "current_pd_phys (kvm k) = kernel_page_directory (kvm k)" using D by auto
  from process_create_runs [OF this room e al len, of nm pr] obtain k'
    where c: "process_create nm e pr k = Some (next_pid k, k')" and v: "vm_inv (kvm k')" "kernel_ok (kvm k')"
      "current_pd_phys (kvm k') = kernel_page_directory (kvm k')" "low_free (kvm k) \<le> low_free (kvm k') + 4" by metis
  have inv: "proc_inv k" "current_ok k" "run_ok k" using D by auto
  have run: "run_ok k'" using create_run_ok [OF inv(1,2) np c inv(3)] by blast
  from inv(1,2) np c have "lineup (es @ [e]) k'"
  proof (cases rule: process_create_cases)
    case (made i)
    have i: "i = Suc (length es)" using al made(2) by simp
    have old: "proc k' j = proc k j" if "used k j" for j
      using made(16) [OF that] D pid0 by (metis option.inject)
    have us: "used k j" if "j \<le> length es" for j using D that m by simp
    have all: "p_pid (proc k' (Suc j)) = of_nat (Suc j) \<and> p_state (proc k' (Suc j)) = PROCESS_STATE_READY \<and>
        p_eip (proc k' (Suc j)) = (es @ [e]) ! j" if "j < Suc (length es)" for j
    proof (cases "j = length es")
      case True
      then show ?thesis using made(8,9,11) i D by simp
    next
      case False
      then have "j < length es" using that by simp
      then show ?thesis using old [OF us, of "Suc j"] D by (simp add: nth_append)
    qed
    have z: "proc k' 0 = proc k 0" by (rule old [OF u0])
    have u: "used k' j \<longleftrightarrow> j \<le> Suc (length es)" if "j < 32" for j
      using made(4) [of j] i D that by (auto simp: le_Suc_eq)
    have nx: "next_pid k' = of_nat (Suc (length (es @ [e])))" using made(7) D by simp
    show ?thesis unfolding lineup_def using made(3,5,6) run nx u all v D z by simp
  qed (use np in auto)
  moreover have "next_pid k = of_nat (Suc (length es))" using D by blast
  ultimately show thesis using c v(4) by (intro that) auto
qed

text \<open>So it is after start-up.\<close>

lemma lineup_started:
  assumes "blank_table k" "p_time_slice (proc k 0) = 0" "vm_inv (kvm k)" "kernel_ok (kvm k)"
    "current_pd_phys (kvm k) = kernel_page_directory (kvm k)"
  shows "lineup [] (scheduler_init (process_init k))"
proof -
  have len: "length (process_table k) = 32" using assms(1) by (simp add: blank_table_def)
  note T = process_init_table [OF len] and I = process_init_inv [OF assms(1)]
  note run = kernel_run_inv [OF kernel_run.start assms(1)]
  have "p_time_slice (proc (process_init k) 0) = 0" using len assms(2) by (simp add: T(1) Let_def)
  moreover have "used (scheduler_init (process_init k)) i \<longleftrightarrow> i = 0" for i
    using I(3) [of i] by (simp add: scheduler_init_def used_def)
  ultimately show ?thesis
    using run I(4) T(2-4) assms by (simp add: lineup_def scheduler_init_def blank_table_def)
qed

section \<open>Three processes take turns\<close>

definition rotating :: "nat \<Rightarrow> kernel \<Rightarrow> bool" where
  "rotating c k \<longleftrightarrow> length (process_table k) = 32 \<and> scheduling_enabled k \<and> current_process k = Some c \<and> c \<le> 3 \<and>
     p_state (proc k c) = PROCESS_STATE_RUNNING \<and> (\<forall>i \<le> 3. p_pid (proc k i) = of_nat i) \<and>
     (\<forall>i < 32. runnable k i \<longleftrightarrow> 0 < i \<and> i \<le> 3 \<and> i \<noteq> c)"

lemma rotating_next:
  assumes R: "rotating c k"
  shows "find_next_process k = c mod 3 + 1"
proof -
  note D = R [unfolded rotating_def]
  have fs: "first_slot k = c + 1" using D small_number [of c] by (simp add: first_slot_def)
  have run: "runnable k i \<longleftrightarrow> 0 < i \<and> i \<le> 3 \<and> i \<noteq> c" if "i < 32" for i using D that by blast
  have n: "c mod 3 + 1 < 32" "0 < c mod 3 + 1" "c mod 3 + 1 \<le> 3" "c mod 3 + 1 \<noteq> c" by presburger+
  have next_runs: "runnable k (c mod 3 + 1)" using run [OF n(1)] n(2-4) by blast
  show ?thesis
  proof (cases rule: find_next_process_cases [of k])
    case idle
    then show ?thesis using next_runs idle(2) [OF n(1)] by blast
  next
    case (found d)
    show ?thesis
    proof (cases "c < 3")
      case True
      then have "d = 0" using found(4) [of 0] next_runs fs by (cases d) simp_all
      then show ?thesis using True found(2) fs by simp
    next
      case False
      then have c: "c = 3" using D by simp
      let ?n = "(4 + d) mod 32"
      have "?n < 32" "runnable k ?n" using found(3) c fs by simp_all
      then have "0 < ?n" "?n \<le> 2" using run [of ?n] c by auto
      then have "d = 29 \<or> d = 30" using found(1) by presburger
      moreover have "d \<noteq> 30" using found(4) [of 29] next_runs c fs by auto
      ultimately show ?thesis using found(2) fs c by simp
    qed
  qed
qed

lemma rotating_schedule:
  assumes R: "rotating c k"
  shows "rotating (c mod 3 + 1) (scheduler_schedule k) \<and> p_time_slice (proc (scheduler_schedule k) (c mod 3 + 1)) = 10"
proof -
  note D = R [unfolded rotating_def]
  have len: "length (process_table k) = 32" and cur: "\<forall>x. current_process k = Some x \<longrightarrow> x < 32" using D by auto
  from len cur show ?thesis
  proof (cases rule: scheduler_schedule_cases)
    case still
    moreover have "c \<noteq> c mod 3 + 1" using D by presburger
    ultimately show ?thesis using D rotating_next [OF R] by simp
  next
    case (switched n t)
    have n: "n = c mod 3 + 1" "n < 32" "0 < n" "n \<le> 3" "c \<noteq> n" using switched(2,3) rotating_next [OF R] D by auto
    have pid: "p_pid (proc t i) = p_pid (proc k i)" if "i < 32" for i
      using switched(16) [OF that] by (simp add: rescheduled_def)
    have st: "p_state (proc t i) = (if i = n then PROCESS_STATE_RUNNING else if i = c then PROCESS_STATE_READY
        else p_state (proc k i))" if "i < 32" for i
      using switched(17) [OF that] D by auto
    have pids: "p_pid (proc k i) = 0 \<longleftrightarrow> i = 0" if "i \<le> 3" for i
    proof -
      have "unat (p_pid (proc k i)) = i" using that D small_number [of i] by simp
      then show ?thesis by (metis unat_eq_zero)
    qed
    have run: "runnable k i \<longleftrightarrow> 0 < i \<and> i \<le> 3 \<and> i \<noteq> c" if "i < 32" for i using D that by blast
    have "runnable t i \<longleftrightarrow> 0 < i \<and> i \<le> 3 \<and> i \<noteq> n" if i: "i < 32" for i
    proof -
      consider "i = n" | "i = c" "i \<noteq> n" | "i \<noteq> n" "i \<noteq> c" by blast
      then show ?thesis
      proof cases
        case 1
        then show ?thesis using st [OF i] by (simp add: runnable_def word_norm)
      next
        case 2
        have "runnable t i \<longleftrightarrow> p_pid (proc k c) \<noteq> 0" using st [OF i] pid [OF i] 2 by (simp add: runnable_def)
        then show ?thesis using 2 pids [of c] D by auto
      next
        case 3
        then have "runnable t i = runnable k i" using st [OF i] pid [OF i] by (simp add: runnable_def)
        then show ?thesis using run [OF i] 3 by blast
      qed
    qed
    moreover have "\<forall>i \<le> 3. p_pid (proc t i) = of_nat i" using pid D by simp
    moreover have "p_state (proc t n) = PROCESS_STATE_RUNNING" using st [OF n(2)] by simp
    ultimately have "rotating n t" unfolding rotating_def using switched(5,13,14) n(4) by blast
    then show ?thesis using switched(4,15) n(1) by simp
  qed
qed

lemma rotating_slice: "rotating c k \<Longrightarrow> rotating c (upd_proc c (\<lambda>p. p\<lparr>p_time_slice := x\<rparr>) k)"
  by (simp add: rotating_def runnable_def nth_list_update word_norm)

text \<open>Ten ticks to a turn.\<close>

lemma rotating_ticks:
  assumes R: "rotating c k" and q: "p_time_slice (proc k c) = 10"
  shows "j < 10 \<Longrightarrow> current_process ((scheduler_tick ^^ j) k) = Some c"
    and "rotating (c mod 3 + 1) ((scheduler_tick ^^ 10) k) \<and>
      p_time_slice (proc ((scheduler_tick ^^ 10) k) (c mod 3 + 1)) = 10"
proof -
  have D: "length (process_table k) = 32" "scheduling_enabled k" "current_process k = Some c" "c < 32"
    using R by (simp_all add: rotating_def)
  have "0 < p_time_slice (proc k c)" using q by simp
  note Q = scheduler_quantum [OF D this, unfolded q]
  show "current_process ((scheduler_tick ^^ j) k) = Some c" if "j < 10"
    using Q that D(3) by (simp add: upd_proc_def)
  have "(scheduler_tick ^^ 10) k = scheduler_schedule (upd_proc c (\<lambda>p. p\<lparr>p_time_slice := 0\<rparr>) k)" using Q by simp
  then show "rotating (c mod 3 + 1) ((scheduler_tick ^^ 10) k) \<and>
      p_time_slice (proc ((scheduler_tick ^^ 10) k) (c mod 3 + 1)) = 10"
    using rotating_schedule [OF rotating_slice [OF R, of 0]] by simp
qed

lemma rotation:
  assumes R: "rotating 0 k" and q: "p_time_slice (proc k 0) = 0" and m: "0 < m"
  shows "current_process ((scheduler_tick ^^ m) k) = Some ((m - 1) div 10 mod 3 + 1)"
proof -
  have first: "scheduler_tick k = scheduler_schedule k" using R q by (simp add: scheduler_tick_def rotating_def process_current_def)
  have turn: "rotating (n mod 3 + 1) ((scheduler_tick ^^ (10 * n + 1)) k) \<and>
      p_time_slice (proc ((scheduler_tick ^^ (10 * n + 1)) k) (n mod 3 + 1)) = 10" for n
  proof (induction n)
    case 0
    show ?case using rotating_schedule [OF R] first by simp
  next
    case (Suc n)
    have "10 * Suc n + 1 = 10 + (10 * n + 1)" by simp
    then have e: "(scheduler_tick ^^ (10 * Suc n + 1)) k = (scheduler_tick ^^ 10) ((scheduler_tick ^^ (10 * n + 1)) k)"
      by (simp only: funpow_add o_apply)
    have "(n mod 3 + 1) mod 3 + 1 = Suc n mod 3 + 1" by (simp add: mod_simps)
    then show ?case using rotating_ticks(2) [OF conjunct1 [OF Suc] conjunct2 [OF Suc]] unfolding e by simp
  qed
  let ?n = "(m - 1) div 10" and ?j = "(m - 1) mod 10"
  have "m = ?j + (10 * ?n + 1)" using m by simp
  then have "(scheduler_tick ^^ m) k = (scheduler_tick ^^ ?j) ((scheduler_tick ^^ (10 * ?n + 1)) k)" by (metis funpow_add o_apply)
  then show ?thesis using rotating_ticks(1) [OF conjunct1 [OF turn [of ?n]] conjunct2 [OF turn [of ?n]], of ?j] by simp
qed

section \<open>The command\<close>

text \<open>A step that keeps the process table, the memory manager and the invariant.\<close>

lemma testproc_runs:
  fixes s :: "'s system_scheme"
  assumes ok: "console_ok s" and L: "lineup [] (kern s)" and room: "13 \<le> low_free (kvm (kern s))"
    and e: "address_of img ''test_process_1'' < 0x400000" "address_of img ''test_process_2'' < 0x400000"
      "address_of img ''test_process_3'' < 0x400000"
  shows "\<exists>t k. cmd_testproc img s = Some t \<and> kern t = scheduler_start k \<and>
    lineup [address_of img ''test_process_1'', address_of img ''test_process_2'', address_of img ''test_process_3''] k"
proof -
  let ?e1 = "address_of img ''test_process_1''" and ?e2 = "address_of img ''test_process_2''" and ?e3 = "address_of img ''test_process_3''"
  have print: "\<exists>t. printf fmt args u = Some t \<and> console_ok t \<and> kern t = kern u" if "accepts fmt args" "console_ok u"
    for fmt args and u :: "'s system_scheme"
    using displaysD [OF displays_printf [OF that(1)] that(2)] more_system(1) by metis
  have ck: "console_ok (u\<lparr>kern := k\<rparr>) = console_ok u" for u :: "'s system_scheme" and k
    by (simp add: console_ok_def vga_inv_def line_ready_def ready_def)
  obtain s0 where s0: "printf (''Creating test processes...'' @ nl) [] s = Some s0" "console_ok s0" "kern s0 = kern s"
    using print [OF _ ok, of "''Creating test processes...'' @ nl" "[]"] by (auto simp: nl_def)
  obtain k1 where k1: "process_create ''TestA'' ?e1 PRIORITY_REGULAR (kern s) = Some (1, k1)" "lineup [?e1] k1"
      "low_free (kvm (kern s)) \<le> low_free (kvm k1) + 4"
    by (rule lineup_create [OF L, of ?e1 "''TestA''" PRIORITY_REGULAR]) (use room e in simp_all)
  obtain k2 where k2: "process_create ''TestB'' ?e2 PRIORITY_REGULAR k1 = Some (2, k2)" "lineup [?e1, ?e2] k2"
      "low_free (kvm k1) \<le> low_free (kvm k2) + 4"
    by (rule lineup_create [OF k1(2), of ?e2 "''TestB''" PRIORITY_REGULAR]) (use room e k1(3) in simp_all)
  obtain k3 where k3: "process_create ''TestC'' ?e3 PRIORITY_REGULAR k2 = Some (3, k3)" "lineup [?e1, ?e2, ?e3] k3"
    by (rule lineup_create [OF k2(2), of ?e3 "''TestC''" PRIORITY_REGULAR]) (use room e k1(3) k2(3) in simp_all)
  let ?s3 = "s0\<lparr>kern := k3\<rparr>"
  have c3: "console_ok ?s3" using s0(2) ck by simp
  obtain s4 where s4: "printf (''Created processes: PID %d, %d, %d'' @ nl) [Word 1, Word 2, Word 3] ?s3 = Some s4" "console_ok s4" "kern s4 = k3"
    using print [OF _ c3, of "''Created processes: PID %d, %d, %d'' @ nl" "[Word 1, Word 2, Word 3]"] by (auto simp: nl_def)
  obtain s5 where s5: "printf (''Starting scheduler...'' @ nl) [] s4 = Some s5" "console_ok s5" "kern s5 = k3"
    using print [OF _ s4(2), of "''Starting scheduler...'' @ nl" "[]"] s4(3) by (auto simp: nl_def)
  obtain s6 where s6: "printf (''You should see A, B, C printed in rotation.'' @ nl) [] s5 = Some s6" "console_ok s6" "kern s6 = k3"
    using print [OF _ s5(2), of "''You should see A, B, C printed in rotation.'' @ nl" "[]"] s5(3) by (auto simp: nl_def)
  obtain s7 where s7: "printf (''(Press Ctrl+C or reset to stop)'' @ nl @ nl) [] s6 = Some s7" "kern s7 = k3"
    using print [OF _ s6(2), of "''(Press Ctrl+C or reset to stop)'' @ nl @ nl" "[]"] s6(3) by (auto simp: nl_def)
  have cr: "create img nm fn u = Some (r, u\<lparr>kern := k\<rparr>)" if "process_create nm (address_of img fn) PRIORITY_REGULAR (kern u) = Some (r, k)"
    for nm fn r k and u :: "'s system_scheme"
    using that by (simp add: create_def)
  have "cmd_testproc img s = Some (start_scheduler s7)"
    unfolding cmd_testproc_def using s0(1,3) cr [of "''TestA''" "''test_process_1''" s0] cr [of "''TestB''" "''test_process_2''" "s0\<lparr>kern := k1\<rparr>"]
      cr [of "''TestC''" "''test_process_3''" "s0\<lparr>kern := k2\<rparr>"] k1(1) k2(1) k3(1) s4(1) s5(1) s6(1) s7(1) by simp
  then show ?thesis using k3(2) s7(2) by (auto simp: start_scheduler_def)
qed

lemma lineup_rotates:
  assumes "lineup [a, b, c] k"
  shows "rotating 0 (scheduler_start k)" and "p_time_slice (proc (scheduler_start k) 0) = 0"
proof -
  note D = assms [unfolded lineup_def]
  have len: "length (process_table k) = 32" and pid0: "p_pid (proc k 0) = 0" using D proc_invD(1,3) by auto
  have slot: "p_pid (proc k (Suc i)) = of_nat (Suc i)" "p_state (proc k (Suc i)) = PROCESS_STATE_READY" if "i < 3" for i
    using D that by simp_all
  have pid: "p_pid (proc k i) = of_nat i" if "i \<le> 3" for i using pid0 slot(1) [of "i - 1"] that by (cases i) simp_all
  have run: "runnable k i \<longleftrightarrow> 0 < i \<and> i \<le> 3 \<and> i \<noteq> 0" if i: "i < 32" for i
  proof (cases "0 < i \<and> i \<le> 3")
    case True
    then have "unat (p_pid (proc k i)) = i" using pid small_number [of i] by simp
    then have "p_pid (proc k i) \<noteq> 0" using True by (metis less_numeral_extra(3) unat_0)
    moreover have "Suc (i - 1) = i" "i - 1 < 3" using True by auto
    ultimately show ?thesis using True slot(2) [of "i - 1"] by (simp add: runnable_def)
  next
    case False
    then have "i = 0 \<or> \<not> used k i" using D i by auto
    then show ?thesis using False pid0 i by (auto simp: runnable_def used_def word_norm)
  qed
  show "rotating 0 (scheduler_start k)"
    using D len pid run by (simp add: rotating_def scheduler_start_def runnable_def)
  show "p_time_slice (proc (scheduler_start k) 0) = 0" using D by (simp add: scheduler_start_def)
qed

lemma timer_ticks: "kern ((timer_callback ^^ m) s) = (scheduler_tick ^^ m) (kern s)"
  by (induction m) (simp_all add: timer_callback_def Let_def)

text \<open>A machine with thirteen free frames from 1 MB on, just started.\<close>

definition wide_pmm :: pmm where
  "wide_pmm = count_used (fold (\<lambda>p s. bitmap_clear s p) [256, 257, 258, 259, 260, 261, 262, 263, 264, 265, 266, 267, 268]
     \<lparr>page_bitmap = replicate 2048 0xFFFFFFFF, total_pages = 269, used_pages = 0, total_memory = 0\<rparr>)"

lemma wide_pmm_facts:
  "pmm_inv wide_pmm" "free_frames wide_pmm = {0x100000, 0x101000, 0x102000, 0x103000, 0x104000, 0x105000, 0x106000, 0x107000, 0x108000, 0x109000, 0x10A000, 0x10B000, 0x10C000}"
proof -
  let ?z = "\<lparr>page_bitmap = replicate 2048 0xFFFFFFFF, total_pages = 269, used_pages = 0, total_memory = 0\<rparr>"
  let ?ps = "[256, 257, 258, 259, 260, 261, 262, 263, 264, 265, 266, 267, 268] :: u32 list"
  let ?s = "fold (\<lambda>p s. bitmap_clear s p) ?ps ?z"
  have wf: "pmm_wf ?s" by (simp add: pmm_wf_def word_norm)
  have "bitmap_test ?z q" for q
    using unat_div32_less [of q] unat_mod32_less [of q] by (simp add: bitmap_test_bit word_norm)
  then have bt: "bitmap_test ?s q \<longleftrightarrow> q \<notin> set ?ps" for q
    by (simp add: bitmap_test_clear word_norm)
  note c = count_used_spec [OF wf, folded wide_pmm_def]
  show "pmm_inv wide_pmm" by (rule c(1))
  have total: "total_pages wide_pmm = 269" by (simp add: c(2))
  have small: "q < 269" "256 \<le> q" if "q \<in> set ?ps" for q using that by auto
  have "{q \<in> free_set wide_pmm. 256 \<le> q} = set ?ps"
    unfolding free_set_def total c(3) bt using small by blast
  then show "free_frames wide_pmm = {0x100000, 0x101000, 0x102000, 0x103000, 0x104000, 0x105000, 0x106000, 0x107000, 0x108000, 0x109000, 0x10A000, 0x10B000, 0x10C000}"
    by (simp add: free_frames_def PFN_TO_ADDR_def push_bit_eq_mult)
qed

lemma wide_system:
  obtains s :: system where "session_inv 8 s" "lineup [] (kern s)" "13 \<le> low_free (kvm (kern s))"
proof -
  let ?F = "{0x100000, 0x101000, 0x102000, 0x103000, 0x104000, 0x105000, 0x106000, 0x107000, 0x108000, 0x109000, 0x10A000, 0x10B000, 0x10C000} :: u32 set"
  have "boot_ok (boot_vm\<lparr>vm_pmm := wide_pmm\<rparr>)"
    using wide_pmm_facts by (simp add: boot_ok_def boot_vm_def page_ok_def)
  then obtain v where v: "vm_inv v" "kernel_ok v" "vm_pmm v = wide_pmm" "current_pd_phys v = kernel_page_directory v"
    using vmm_init_spec [of "boot_vm\<lparr>vm_pmm := wide_pmm\<rparr>"] by auto
  have "{f \<in> ?F. f < 0x400000} = ?F" by auto
  then have low: "low_free v = 13" unfolding low_free_def v(3) wide_pmm_facts(2) by simp
  let ?k = "scheduler_init (process_init (static_kernel v))"
  let ?s = "typing_system\<lparr>kern := ?k\<rparr>"
  have L: "lineup [] ?k"
    by (rule lineup_started) (use v static_kernel_blank in \<open>simp_all add: static_kernel_def blank_process_def\<close>)
  have "kernel_fine ?k" "next_pid ?k = 1" using L kernel_run_inv [OF kernel_run.start static_kernel_blank]
    by (simp_all add: kernel_fine_def lineup_def)
  then have "session_inv 8 ?s"
    using typing_system_ok by (simp add: session_inv_def sys_ok_def mouse_inv_def console_ok_def vga_inv_def line_ready_def ready_def)
  moreover have "kvm ?k = v" using process_init_table(2) [of "static_kernel v"] by (simp add: scheduler_init_def static_kernel_def)
  ultimately show thesis using L low by (intro that [of ?s]) simp_all
qed

text \<open>C23: With thirteen frames free below 4 MB the command \<open>testproc\<close>, given when only the idle process exists, makes processes 1,
  2 and 3 with the entry points of the three test functions, and the invariant of the session holds on. From the first timer tick on
  they run in turn, ten ticks each, for ever.\<close>

theorem testproc_takes_turns:
  fixes s :: "'s system_scheme"
  assumes "session_inv (n + 3) s" and "lineup [] (kern s)" and "13 \<le> low_free (kvm (kern s))"
    and "address_of img ''test_process_1'' < 0x400000" "address_of img ''test_process_2'' < 0x400000"
      "address_of img ''test_process_3'' < 0x400000"
  shows "\<exists>t. shell_process_command img regs ''testproc'' s = Some (Returns t) \<and> sys_ok n t \<and>
     (\<forall>i < 3. p_pid (proc (kern t) (Suc i)) = of_nat (Suc i) \<and> p_eip (proc (kern t) (Suc i)) =
        [address_of img ''test_process_1'', address_of img ''test_process_2'', address_of img ''test_process_3''] ! i) \<and>
     (\<forall>m > 0. current_process (kern ((timer_callback ^^ m) t)) = Some ((m - 1) div 10 mod 3 + 1))"
proof -
  have "n + 3 = Suc (Suc (Suc n))" by simp
  then have ok: "sys_ok (Suc (Suc (Suc n))) s" "console_ok s" using assms(1) unfolding session_inv_def sys_ok_def by metis+
  obtain t k where t: "cmd_testproc img s = Some t" "kern t = scheduler_start k"
      "lineup [address_of img ''test_process_1'', address_of img ''test_process_2'', address_of img ''test_process_3''] k"
    using testproc_runs [OF ok(2) assms(2-6)] by blast
  have "shell_process_command img regs ''testproc'' s = Some (Returns t)"
    using t(1) unfolding shell_process_command_def Let_def cmd_equal_eq by (simp add: returns_def)
  moreover have "sys_ok n t" using may_testproc [OF ok(1), of img] t(1) by (simp add: may_def)
  moreover have "p_pid (proc (kern t) (Suc i)) = of_nat (Suc i) \<and> p_eip (proc (kern t) (Suc i)) =
        [address_of img ''test_process_1'', address_of img ''test_process_2'', address_of img ''test_process_3''] ! i" if "i < 3" for i
    using t(3) that by (simp add: t(2) scheduler_start_def lineup_def)
  moreover have "current_process (kern ((timer_callback ^^ m) t)) = Some ((m - 1) div 10 mod 3 + 1)" if "0 < m" for m
    unfolding timer_ticks t(2) by (rule rotation [OF lineup_rotates [OF t(3)] that])
  ultimately show ?thesis by blast
qed

theorem testproc_takes_turns_witness:
  "\<exists>(s :: system) t. shell_process_command blank_image blank_regs ''testproc'' s = Some (Returns t) \<and>
     p_pid (proc (kern t) 3) = 3 \<and> current_process (kern ((timer_callback ^^ 21) t)) = Some 3 \<and>
     current_process (kern ((timer_callback ^^ 31) t)) = Some 1"
proof -
  obtain s :: system where s: "session_inv (5 + 3) s" "lineup [] (kern s)" "13 \<le> low_free (kvm (kern s))"
    by (rule wide_system) simp
  have a: "address_of blank_image f < 0x400000" for f by (simp add: blank_image_def)
  obtain t where t: "shell_process_command blank_image blank_regs ''testproc'' s = Some (Returns t)"
    "\<forall>i < 3. p_pid (proc (kern t) (Suc i)) = of_nat (Suc i)"
    "\<forall>m > 0. current_process (kern ((timer_callback ^^ m) t)) = Some ((m - 1) div 10 mod 3 + 1)"
    using testproc_takes_turns [OF s a a a, of blank_regs] by blast
  have "p_pid (proc (kern t) (Suc 2)) = of_nat (Suc 2)" by (rule t(2) [THEN spec, THEN mp]) simp
  then have "p_pid (proc (kern t) 3) = 3" by simp
  moreover have "current_process (kern ((timer_callback ^^ 21) t)) = Some ((21 - 1) div 10 mod 3 + 1)"
    "current_process (kern ((timer_callback ^^ 31) t)) = Some ((31 - 1) div 10 mod 3 + 1)"
    by (rule t(3) [THEN spec, THEN mp], simp)+
  ultimately show ?thesis using t(1) by (intro exI [of _ s] exI [of _ t]) simp
qed

end
