(* ===== verification/Power_On.thy ===== *)
theory Power_On
  imports Test_Run
begin

text \<open>
  From the boot loader to the event loop: \<open>kmain\<close> of \<open>kernel.c\<close> as a whole. On a machine whose serial line and keyboard
  controller answer and whose memory map ends, start-up returns, and what it leaves is a state every session keeps.
\<close>

section \<open>Devices and start-up state\<close>

text \<open>The keyboard controller takes commands again and again, and its buffer runs empty at last.\<close>

definition keyboard_ready :: "'s hw_scheme \<Rightarrow> bool" where
  "keyboard_ready s \<longleftrightarrow> ready 0x64 (\<lambda>v. v AND 2 = 0) s \<and> (\<exists>n. \<forall>m\<ge>n. device s m 0x64 AND 1 = 0)"

definition image_ok :: "image \<Rightarrow> vmm \<Rightarrow> bool" where
  "image_ok img v \<longleftrightarrow> 0x100000 \<le> kernel_end img \<and> kernel_end img \<le> MAX_PHYSICAL_MEMORY \<and>
     \<not> vm_paging v \<and> length (page_bitmap (vm_pmm v)) = unat BITMAP_SIZE \<and>
     page_ok (kernel_page_directory v) \<and> page_ok (first_page_table v) \<and> kernel_page_directory v \<noteq> first_page_table v \<and>
     kernel_page_directory v \<noteq> 0 \<and> first_page_table v \<noteq> 0 \<and>
     kernel_page_directory v < kernel_end img \<and> first_page_table v < kernel_end img"

text \<open>The static data as the boot loader leaves it.\<close>

definition loaded :: "image \<Rightarrow> 's system_scheme \<Rightarrow> bool" where
  "loaded img s \<longleftrightarrow> length (vga_buffer s) = 2000 \<and> line_ready s \<and> keyboard_ready s \<and> blank_table (kern s) \<and>
     p_time_slice (proc (kern s) 0) = 0 \<and> ramfs_object (files s) \<and> length (cmd_buffer s) = 256 \<and> cmd_pos s = 0 \<and> events_inv (queue s) \<and> mouse_inv s \<and>
     length (interrupt_handlers s) = 256 \<and> image_ok img (kvm (kern s))"

text \<open>Where the kernel looks for memory, the list of entries ends.\<close>

definition has_map :: "u32 \<Rightarrow> multiboot_info \<Rightarrow> bool" where
  "has_map magic mbi \<longleftrightarrow> magic = MULTIBOOT_MAGIC \<and> mb_flags mbi AND MB_FLAG_MMAP \<noteq> 0"

definition map_ends :: "image \<Rightarrow> u32 \<Rightarrow> multiboot_info \<Rightarrow> vmm \<Rightarrow> bool" where
  "map_ends img magic mbi v \<longleftrightarrow>
     (if has_map magic mbi
      then \<exists>es. mmap_walk (byte_memory v) (mb_mmap_addr mbi) (mb_mmap_addr mbi + mb_mmap_length mbi) es
      else unat (address_of img ''fake_mmap'') + 48 < 2 ^ 32)"

section \<open>Waiting changes the clock only\<close>

lemma spin_until_io:
  assumes "spin_until p ok s = Some t"
  shows "io_only s t"
  using assms
proof (rule spin_until.raw_induct [rotated])
  fix f p ok and s t :: "'a hw_scheme"
  assume IH: "\<And>p ok (s :: 'a hw_scheme) t. f p ok s = Some t \<Longrightarrow> io_only s t"
    and step: "(case inb p s of (v, t) \<Rightarrow> if ok v then Some t else f p ok t) = Some t"
  show "io_only s t"
  proof (cases "ok (device s (clock s) p)")
    case True
    then show ?thesis using step by (auto simp: inb_def io_only_def)
  next
    case False
    then have "f p ok (s\<lparr>clock := clock s + 1\<rparr>) = Some t" using step by (simp add: inb_def)
    from IH [OF this] show ?thesis by (simp add: io_only_def)
  qed
qed

lemma io_only_trans: "io_only s t \<Longrightarrow> io_only t u \<Longrightarrow> io_only s u"
  by (simp add: io_only_def)

lemma serial_putchar_io: "serial_putchar c s = Some t \<Longrightarrow> io_only s t"
  by (auto simp: serial_putchar_def bind_eq_Some_conv io_only_steps(1) intro: spin_until_io)

lemma serial_puts_io: "serial_puts str s = Some t \<Longrightarrow> io_only s t"
proof (induction str arbitrary: s t)
  case (Cons c str)
  then obtain u v where u: "(if c = CHR 0x0A then serial_putchar CHR 0x0D s else Some s) = Some u"
    "serial_putchar c u = Some v" "serial_puts str v = Some t" by (auto simp: bind_eq_Some_conv)
  have "io_only s u" using u(1) serial_putchar_io [of _ s u] io_only_refl by (auto split: if_splits)
  then show ?case using serial_putchar_io [OF u(2)] Cons.IH [OF u(3)] io_only_trans by blast
qed (simp add: io_only_refl)

lemma io_only_vga:
  fixes s t :: "'s vga_scheme"
  shows "io_only s t \<Longrightarrow> vga_inv t = vga_inv s"
  by (cases s; cases t) (simp add: io_only_def vga_inv_def)

lemma emit_device:
  fixes s :: "'s vga_scheme"
  assumes "vga_inv s" "emit os s = Some t"
  shows "device t = device s"
  using assms
proof (induction os s rule: emit.induct)
  case (2 str os s)
  then show ?case using vga_puts_returns [of s str] by auto
next
  case (3 str os s)
  then obtain u where u: "serial_puts str s = Some u" "emit os u = Some t" by (auto simp: bind_eq_Some_conv)
  have io: "io_only s u" by (rule serial_puts_io [OF u(1)])
  show ?case using "3.IH" [OF u(1) _ u(2)] io_only_vga [OF io] "3.prems"(1) io by (simp add: io_only_def)
next
  case (4 c os s)
  then obtain u where u: "serial_putchar c s = Some u" "emit os u = Some t" by (auto simp: bind_eq_Some_conv)
  have io: "io_only s u" by (rule serial_putchar_io [OF u(1)])
  show ?case using "4.IH" [OF u(1) _ u(2)] io_only_vga [OF io] "4.prems"(1) io by (simp add: io_only_def)
qed simp

lemma printf_device: "vga_inv s \<Longrightarrow> printf fmt args s = Some t \<Longrightarrow> device t = device s"
  using emit_device by (auto simp: printf_def bind_eq_Some_conv)

text \<open>The loop that empties the keyboard's buffer ends.\<close>

lemma drain_port_returns:
  assumes "\<forall>m\<ge>n. device s m 0x64 AND 1 = 0"
  shows "\<exists>t. drain_port s = Some t \<and> io_only s t"
  using assms
proof (induction "n - clock s" arbitrary: s rule: less_induct)
  case less
  let ?t = "s\<lparr>clock := clock s + 1\<rparr>"
  show ?case
  proof (cases "device s (clock s) 0x64 AND 1 = 0")
    case True
    then have "drain_port s = Some ?t" by (subst drain_port.simps) (simp add: inb_def)
    then show ?thesis by (simp add: io_only_def)
  next
    case False
    let ?u = "s\<lparr>clock := clock s + 2\<rparr>"
    have "\<not> n \<le> clock s" using False less.prems by auto
    then have "n - clock ?u < n - clock s" by simp
    then obtain t where t: "drain_port ?u = Some t" "io_only ?u t" using less.hyps [of ?u] less.prems by auto
    have "drain_port s = drain_port ?u" using False by (subst drain_port.simps) (simp add: inb_def)
    then show ?thesis using t by (simp add: io_only_def)
  qed
qed

section \<open>The state between the stages\<close>

text \<open>The fields start-up may not touch.\<close>

definition kept :: "'s system_scheme \<Rightarrow> events \<times> string \<times> int \<times> int \<times> int \<times> u8 \<times> u8 list \<times> bool list" where
  "kept s = (queue s, cmd_buffer s, cmd_pos s, mouse_x s, mouse_y s, mouse_cycle s, mouse_bytes s, mouse_buttons s)"

definition stage :: "'s system_scheme \<Rightarrow> kernel \<Rightarrow> ramfs \<Rightarrow> isr option list \<Rightarrow> bool \<Rightarrow> 's system_scheme \<Rightarrow> bool" where
  "stage s0 k fs hs e s \<longleftrightarrow> console_ok s \<and> kept s = kept s0 \<and> device s = device s0 \<and>
     kern s = k \<and> files s = fs \<and> interrupt_handlers s = hs \<and> interrupts_on s = e"

definition reaches :: "('s system_scheme \<Rightarrow> bool) \<Rightarrow> 's system_scheme option \<Rightarrow> bool" where
  "reaches P r \<longleftrightarrow> (\<exists>t. r = Some t \<and> P t)"

lemma stage_more:
  fixes s t :: "'s system_scheme"
  assumes "stage s0 k fs hs e s" "console_ok t" "device t = device s" "vga.more t = vga.more s"
  shows "stage s0 k fs hs e t"
proof -
  have "kept t = kept s" "kern t = kern s" "files t = files s" "interrupt_handlers t = interrupt_handlers s"
    "interrupts_on t = interrupts_on s"
    using assms(4) by (cases s; cases t; simp add: kept_def)+
  then show ?thesis using assms(1-3) by (simp add: stage_def)
qed

lemma stage_io:
  fixes s t :: "'s system_scheme"
  assumes "stage s0 k fs hs e s" "io_only s t"
  shows "stage s0 k fs hs e t"
proof (rule stage_more [OF assms(1)])
  show "console_ok t" using io_only_screen(1,2) [OF assms(2)] assms(1) by (simp add: stage_def console_ok_def)
  show "vga.more t = vga.more s" using assms(2) by (cases s; cases t) (simp add: io_only_def)
qed (use assms(2) in \<open>simp add: io_only_def\<close>)

lemma reaches_Some: "P t \<Longrightarrow> reaches P (Some t)"
  by (simp add: reaches_def)

lemma reaches_printf:
  fixes s :: "'s system_scheme"
  assumes "stage s0 k fs hs e s" "accepts fmt args" "\<And>t. stage s0 k fs hs e t \<Longrightarrow> reaches P (f t)"
  shows "reaches P (printf fmt args s \<bind> f)"
proof -
  have ok: "console_ok s" using assms(1) by (simp add: stage_def)
  obtain t where t: "printf fmt args s = Some t" "console_ok t" "vga.more t = vga.more s"
    by (rule displaysD [OF displays_printf [OF assms(2)] ok])
  have "device t = device s" using ok printf_device [OF _ t(1)] by (simp add: console_ok_def)
  then show ?thesis using assms(3) [OF stage_more [OF assms(1) t(2) _ t(3)]] t(1) by simp
qed

lemma reaches_last:
  fixes s :: "'s system_scheme"
  assumes "stage s0 k fs hs e s" "accepts fmt args"
  shows "reaches (stage s0 k fs hs e) (printf fmt args s)"
  using reaches_printf [OF assms, of _ Some] by (simp add: reaches_Some)

lemma stage_updates:
  fixes s :: "'s system_scheme"
  assumes "stage s0 k fs hs e s"
  shows "stage s0 k fs (hs[unat n := Some h]) e (register_interrupt_handler n h s)"
    "stage s0 k fs hs e (vga_set_color fg bg s)" "stage s0 k fs hs e (outb p v s)" "stage s0 k fs hs e (irq_unmask i s)"
    "stage s0 k fs hs True (s\<lparr>interrupts_on := True\<rparr>)" "stage s0 k fs hs e (s\<lparr>timer_frequency := u\<rparr>)"
    "stage s0 (with_vm v' k) fs hs e (with_kvm v' s)"
proof -
  show "stage s0 k fs hs e (outb p v s)" "stage s0 k fs hs e (irq_unmask i s)"
    by (rule stage_io [OF assms], simp add: io_only_steps io_only_refl)+
qed (use assms in \<open>auto simp: stage_def kept_def register_interrupt_handler_def vga_set_color_def with_kvm_def console_ok_def
  vga_inv_def line_ready_def ready_def\<close>)

section \<open>The stages\<close>

lemma reaches_banner:
  fixes s :: "'s system_scheme"
  assumes "length (vga_buffer s) = 2000" "line_ready s"
  shows "reaches (stage s (kern s) (files s) (interrupt_handlers s) (interrupts_on s)) (boot_banner s)"
proof -
  let ?P = "stage s (kern s) (files s) (interrupt_handlers s) (interrupts_on s)"
  let ?s1 = "(serial_init s)\<lparr>vga_color_attr := vga_color VGA_COLOR_LIGHT_GREY VGA_COLOR_BLACK\<rparr>"
  have len: "length (vga_buffer ?s1) = 2000" using assms(1) by (simp add: serial_init_def outb_def)
  obtain t where t: "vga_clear ?s1 = Some t" "vga_inv t" "device t = device ?s1" using vga_clear_spec [OF len] by blast
  have more: "vga.more t = vga.more ?s1" using t(1) fill_cells [OF len, of 0 2000] by (auto simp: vga_clear_def word_norm)
  have "device t = device s" "vga.more t = vga.more s" using t(3) more by (simp_all add: serial_init_def outb_def)
  moreover have "console_ok t" using t(2) assms(2) line_ready_cong [OF \<open>device t = device s\<close>] by (simp add: console_ok_def)
  ultimately have "?P t" by (cases s; cases t; simp add: stage_def kept_def)
  moreover have "vga_init (serial_init s) = Some (outb 0x3D5 ((fst (inb 0x3D5 (outb 0x3D4 0x0B (outb 0x3D5 ((fst (inb 0x3D5 (outb 0x3D4 0x0A t)) AND 0xC0) OR 0) (snd (inb 0x3D5 (outb 0x3D4 0x0A t)))))) AND 0xE0) OR 15)
      (snd (inb 0x3D5 (outb 0x3D4 0x0B (outb 0x3D5 ((fst (inb 0x3D5 (outb 0x3D4 0x0A t)) AND 0xC0) OR 0) (snd (inb 0x3D5 (outb 0x3D4 0x0A t))))))))"
    using t(1) by (simp add: vga_init_def case_prod_beta Let_def)
  ultimately obtain u where u: "vga_init (serial_init s) = Some u" "?P u"
    using stage_io [of s "kern s" "files s" "interrupt_handlers s" "interrupts_on s" t] by (simp add: io_only_steps io_only_refl)
  show ?thesis unfolding boot_banner_def u(1) bind.bind_lunit
    by (intro reaches_printf reaches_Some stage_updates) (simp_all add: nl_def u(2))
qed

lemma reaches_info:
  fixes s :: "'s system_scheme"
  assumes "stage s0 k fs hs e s"
  shows "\<exists>t. boot_info img magic mbi s = Some (has_map magic mbi, t) \<and> stage s0 k fs hs e t"
proof -
  have step: "\<exists>t. (printf fmt args u \<bind> f) = Some (b, t) \<and> stage s0 k fs hs e t"
    if "stage s0 k fs hs e u" "accepts fmt args" "\<And>t. stage s0 k fs hs e t \<Longrightarrow> \<exists>v. f t = Some (b, v) \<and> stage s0 k fs hs e v"
    for fmt args b and u :: "'s system_scheme" and f
    using reaches_printf [OF that(1,2), of "\<lambda>_. True" Some] reaches_last [OF that(1,2)] that(3) by (auto simp: reaches_def)
  show ?thesis
    unfolding boot_info_def
    by (cases "magic = MULTIBOOT_MAGIC"; cases "mb_flags mbi AND MB_FLAG_MEM = 0"; cases "mb_flags mbi AND MB_FLAG_MMAP = 0";
        simp add: has_map_def; intro step assms; (assumption | simp add: nl_def))
qed

lemma stage_gdt:
  fixes s :: "'s system_scheme"
  shows "stage s0 k fs hs e s \<Longrightarrow> stage s0 (k\<lparr>tss_esp0 := 0x90000\<rparr>) fs hs e (gdt_init s)"
  by (auto simp: gdt_init_def tss_init_def gdt_set_gate_def gdt_flush_def tss_flush_def tss_set_kernel_stack_def Let_def
      stage_def kept_def console_ok_def vga_inv_def line_ready_def ready_def)

definition cleared :: "isr option list \<Rightarrow> isr option list" where
  "cleared hs = fold (\<lambda>i xs. xs[i := None]) [0..<256] hs"

lemma cleared_None: "length hs = 256 \<Longrightarrow> length (cleared hs) = 256 \<and> (\<forall>i<256. cleared hs ! i = None)"
  using nth_updates [of 256 "\<lambda>i. i" hs _ "\<lambda>_. None"] length_updates [of "\<lambda>i. i" "\<lambda>_. None" "[0..<256]" hs] by (simp add: cleared_def)

lemma stage_idt:
  fixes s :: "'s system_scheme"
  assumes "stage s0 k fs hs e s"
  shows "stage s0 k fs (cleared hs) e (idt_init s)"
proof -
  have g: "fold (\<lambda>i t. idt_set_gate (of_nat i) (isr_addr t i) sel fl t) is u =
    u\<lparr>idt := fold (\<lambda>i xs. xs[unat (of_nat i :: u8) := gate (isr_addr u i) sel fl]) is (idt u)\<rparr>" for u :: "'s system_scheme" and sel fl "is"
    using fold_stubs(1) [of 0] by simp
  have pic: "io_only u (pic_remap u)" for u :: "'s system_scheme"
    by (simp add: pic_remap_def case_prod_beta Let_def io_wait_def io_only_steps io_only_refl)
  let ?s1 = "fold (\<lambda>i t. let u = idt_set_gate (of_nat i) 0 0 0 t in u\<lparr>interrupt_handlers := (interrupt_handlers u)[i := None]\<rparr>) [0..<256]
    (s\<lparr>idt_pointer := (8 * 256 - 1, idt_addr s)\<rparr>)"
  have "stage s0 k fs (cleared hs) e ?s1"
    using assms unfolding fold_clear cleared_def
    by (auto simp: stage_def kept_def console_ok_def vga_inv_def line_ready_def ready_def)
  then have p: "stage s0 k fs (cleared hs) e (pic_remap ?s1)" using pic by (rule stage_io)
  have idt: "stage s0 k fs (cleared hs) e (u\<lparr>idt := x\<rparr>)" "stage s0 k fs (cleared hs) e (u\<lparr>idtr := y\<rparr>)"
    if "stage s0 k fs (cleared hs) e u" for u :: "'s system_scheme" and x y
    using that by (auto simp: stage_def kept_def console_ok_def vga_inv_def line_ready_def ready_def)
  show ?thesis
    unfolding idt_init_def Let_def [of "s\<lparr>idt_pointer := _\<rparr>"] Let_def [of "fold _ _ _"] Let_def [of "pic_remap _"] g fold_stubs(2)
      Let_def idt_flush_def idt_set_gate_def [of 128]
    using p by (intro idt) (simp only: Let_def)
qed

lemma reaches_tables:
  fixes s :: "'s system_scheme"
  assumes "stage s0 k fs hs e s"
  shows "reaches (stage s0 (k\<lparr>tss_esp0 := 0x90000\<rparr>) fs ((cleared hs)[14 := Some Page_fault_handler]) e) (boot_tables s)"
proof -
  have r: "stage s0 k' fs (hs'[14 := Some h]) e (register_interrupt_handler 14 h u)" if "stage s0 k' fs hs' e u"
    for k' hs' h and u :: "'s system_scheme"
    using stage_updates(1) [OF that, of 14 h] by simp
  show ?thesis
    unfolding boot_tables_def
    by (rule reaches_printf [OF assms] reaches_printf [OF stage_gdt] reaches_printf [OF stage_idt] reaches_printf reaches_Some r
        | assumption | simp add: nl_def)+
qed

text \<open>The frames the allocator starts with lie above the kernel, so its page directory and first page table are not among them.\<close>

lemma frames_above_kernel:
  assumes "length (page_bitmap s) = unat BITMAP_SIZE" "mmap_walk m addr (addr + len) es"
    "0x100000 \<le> ke" "ke \<le> MAX_PHYSICAL_MEMORY"
  shows "\<exists>t. pmm_init m addr len ke s = Some t \<and> pmm_inv t \<and> (\<forall>f \<in> free_frames t. ke \<le> f)"
proof -
  obtain t where t: "pmm_init m addr len ke s = Some t" "pmm_inv t"
    "\<And>p. p \<in> free_set t \<longleftrightarrow> p < total_pages t \<and> (\<exists>e \<in> set es. p \<in> region_frames e) \<and> 256 \<le> p \<and> p \<notin> kernel_frames ke"
    by (rule pmm_init_walk [OF assms(1,2), of ke]) blast
  have "ke \<le> PFN_TO_ADDR p" if p: "p \<in> free_set t" for p
  proof -
    have q: "256 \<le> p" "p \<notin> kernel_frames ke" "unat p < 65536"
      using p t page_bound [of t p] by (auto simp: pmm_inv_def)
    have "unat ke \<le> 4096 * unat p"
      by (rule kernel_frames_cover) (use assms(3,4) q in \<open>auto simp: word_norm word_le_nat_alt\<close>)
    then show ?thesis using q by (simp add: word_le_nat_alt unat_PFN_TO_ADDR)
  qed
  then show ?thesis using t(1,2) by (auto simp: free_frames_def)
qed

lemma reaches_memory:
  fixes s :: "'s system_scheme"
  assumes st: "stage s0 k fs hs e s" and img: "image_ok img (kvm k)" and map: "map_ends img magic mbi (kvm k)"
  shows "\<exists>v. vm_inv v \<and> kernel_ok v \<and> current_pd_phys v = kernel_page_directory v \<and>
    reaches (stage s0 (with_vm v k) fs hs e) (boot_memory img (has_map magic mbi) mbi s)"
proof -
  let ?v = "kvm k" and ?fake = "address_of img ''fake_mmap''"
  let ?m = "if has_map magic mbi then byte_memory ?v else with_fake_mmap ?fake (byte_memory ?v)"
  let ?addr = "if has_map magic mbi then mb_mmap_addr mbi else ?fake" and ?len = "if has_map magic mbi then mb_mmap_length mbi else 48"
  note I = img [unfolded image_ok_def]
  have "\<exists>es. mmap_walk ?m ?addr (?addr + ?len) es"
    using map fake_walk [of ?fake "byte_memory ?v"] by (auto simp: map_ends_def)
  then obtain p where p: "pmm_init ?m ?addr ?len (kernel_end img) (vm_pmm ?v) = Some p" "pmm_inv p"
      "\<forall>f \<in> free_frames p. kernel_end img \<le> f"
    using frames_above_kernel [of "vm_pmm ?v" ?m ?addr ?len _ "kernel_end img"] I by blast
  let ?w = "?v\<lparr>vm_pmm := p\<rparr>"
  have "boot_ok ?w" using I p(2,3) by (auto simp: boot_ok_def)
  then obtain v where v: "vmm_init ?w = Some v" "vm_inv v" "kernel_ok v" "current_pd_phys v = kernel_page_directory v"
    using vmm_init_spec [of ?w] by auto
  have w: "with_vm v (with_vm ?w k) = with_vm v k" by (simp add: with_vm_def)
  have last: "reaches (stage s0 (with_vm v k) fs hs e)
      (do { s3 \<leftarrow> printf (''[Init] Setting up VMM...'' @ nl) [] u; v' \<leftarrow> vmm_init (kvm (kern s3)); Some (with_kvm v' s3) })"
    if "stage s0 (with_vm ?w k) fs hs e u" for u :: "'s system_scheme"
  proof (rule reaches_printf [OF that])
    fix t :: "'s system_scheme" assume t: "stage s0 (with_vm ?w k) fs hs e t"
    then have "vmm_init (kvm (kern t)) = Some v" using v(1) by (simp add: stage_def with_vm_def)
    then show "reaches (stage s0 (with_vm v k) fs hs e) (vmm_init (kvm (kern t)) \<bind> (\<lambda>v'. Some (with_kvm v' t)))"
      using stage_updates(7) [OF t, of v] by (simp add: w reaches_Some)
  qed (simp add: nl_def)
  have "reaches (stage s0 (with_vm v k) fs hs e) (boot_memory img (has_map magic mbi) mbi s)"
    unfolding boot_memory_def
  proof (rule reaches_printf [OF st])
    fix t :: "'s system_scheme" assume t: "stage s0 k fs hs e t"
    then have kt: "kern t = k" by (simp add: stage_def)
    show "reaches (stage s0 (with_vm v k) fs hs e) (let w = kvm (kern t) in do {
       s2 \<leftarrow> (if has_map magic mbi then do {
             p \<leftarrow> pmm_init (byte_memory w) (mb_mmap_addr mbi) (mb_mmap_length mbi) (kernel_end img) (vm_pmm w);
             Some (with_kvm (w\<lparr>vm_pmm := p\<rparr>) t)
           }
           else do {
             t \<leftarrow> printf (''[PMM] No memory map, using fallback (64MB)'' @ nl) [] t;
             let fake = address_of img ''fake_mmap'';
             p \<leftarrow> pmm_init (with_fake_mmap fake (byte_memory w)) fake 48 (kernel_end img) (vm_pmm w);
             Some (with_kvm (w\<lparr>vm_pmm := p\<rparr>) t)
           });
       s3 \<leftarrow> printf (''[Init] Setting up VMM...'' @ nl) [] s2;
       v' \<leftarrow> vmm_init (kvm (kern s3));
       Some (with_kvm v' s3)
     })"
    proof (cases "has_map magic mbi")
      case True
      then show ?thesis using p(1) last [OF stage_updates(7) [OF t, of ?w]] by (simp add: kt)
    next
      case False
      have "reaches (stage s0 (with_vm ?w k) fs hs e)
         (printf (''[PMM] No memory map, using fallback (64MB)'' @ nl) [] t \<bind> (\<lambda>t. Some (with_kvm ?w t)))"
        by (rule reaches_printf [OF t]) (simp_all add: nl_def reaches_Some stage_updates(7))
      then obtain u where "printf (''[PMM] No memory map, using fallback (64MB)'' @ nl) [] t = Some u"
          "stage s0 (with_vm ?w k) fs hs e (with_kvm ?w u)"
        by (auto simp: reaches_def bind_eq_Some_conv)
      then show ?thesis using False p(1) last by (simp add: kt Let_def)
    qed
  qed (simp add: nl_def)
  then show ?thesis using v by blast
qed

lemma reaches_bind: "reaches P r \<Longrightarrow> (\<And>t. P t \<Longrightarrow> reaches Q (f t)) \<Longrightarrow> reaches Q (r \<bind> f)"
  by (auto simp: reaches_def)

lemma reaches_timer:
  fixes s :: "'s system_scheme"
  assumes "stage s0 k fs hs e s"
  shows "reaches (stage s0 k fs (hs[32 := Some Timer_callback]) e) (timer_init 100 s)"
proof -
  have "stage s0 k fs (hs[32 := Some Timer_callback]) e (register_interrupt_handler 32 Timer_callback (s\<lparr>timer_frequency := 100\<rparr>))"
    using stage_updates(1) [OF stage_updates(6) [OF assms], of 32 Timer_callback 100] by simp
  then have "reaches (stage s0 k fs (hs[32 := Some Timer_callback]) e) (printf (''[Timer] Initialized at %d Hz'' @ nl) [Word 100]
      (irq_unmask 0 (outb 0x40 d (outb 0x40 c (outb 0x43 0x36 (register_interrupt_handler 32 Timer_callback (s\<lparr>timer_frequency := 100\<rparr>)))))))" for c d
    by (intro reaches_last stage_updates(3,4)) (simp_all add: nl_def)
  then show ?thesis by (simp add: timer_init_def Let_def)
qed

lemma reaches_keyboard:
  fixes s :: "'s system_scheme"
  assumes st: "stage s0 k fs hs e s" and ready: "keyboard_ready s0"
  shows "reaches (stage s0 k fs (hs[33 := Some Keyboard_callback]) e) (keyboard_init s)"
proof -
  let ?S = "stage s0 k fs (hs[33 := Some Keyboard_callback]) e"
  let ?s1 = "register_interrupt_handler 33 Keyboard_callback s"
  have s1: "?S ?s1" using stage_updates(1) [OF st, of 33 Keyboard_callback] by simp
  then have "ready 0x64 (\<lambda>v. v AND 2 = 0) ?s1" using ready by (simp add: stage_def keyboard_ready_def ready_def)
  then obtain m where m: "spin_until 0x64 (\<lambda>v. v AND 2 = 0) ?s1 = Some (?s1\<lparr>clock := m\<rparr>)" by (rule ready_spin)
  have s2: "?S (outb 0x64 0xAE (?s1\<lparr>clock := m\<rparr>))"
    by (intro stage_updates(3) stage_io [OF s1]) (simp add: io_only_def)
  have "device (outb 0x64 0xAE (?s1\<lparr>clock := m\<rparr>)) = device s0" using s2 unfolding stage_def by blast
  then have "\<exists>n. \<forall>i\<ge>n. device (outb 0x64 0xAE (?s1\<lparr>clock := m\<rparr>)) i 0x64 AND 1 = 0"
    using ready unfolding keyboard_ready_def by simp
  then obtain t where t: "drain_port (outb 0x64 0xAE (?s1\<lparr>clock := m\<rparr>)) = Some t" "io_only (outb 0x64 0xAE (?s1\<lparr>clock := m\<rparr>)) t"
    using drain_port_returns by blast
  have "?S (irq_unmask 1 t)" by (rule stage_updates(4) [OF stage_io [OF s2 t(2)]])
  then have "reaches ?S (printf (''[Keyboard] Initialized'' @ nl) [] (irq_unmask 1 t))" by (rule reaches_last) (simp add: nl_def)
  then show ?thesis using m t(1) by (simp add: keyboard_init_def)
qed

lemma reaches_mouse:
  fixes s :: "'s system_scheme"
  assumes "stage s0 k fs hs e s"
  shows "reaches (stage s0 k fs (hs[44 := Some Mouse_callback]) e) (mouse_init s)"
proof -
  obtain u where u: "io_only (register_interrupt_handler 44 Mouse_callback s) u"
    "mouse_init s = printf (''[Mouse] Initialized at (%d, %d)'' @ nl)
       [Word (of_int (mouse_x u)), Word (of_int (mouse_y u))] u" by (rule mouse_init_form)
  have "stage s0 k fs (hs[44 := Some Mouse_callback]) e u"
    using stage_io [OF stage_updates(1) [OF assms] u(1)] by simp
  then show ?thesis unfolding u(2) by (rule reaches_last) (simp add: nl_def)
qed

definition boot_handlers :: "isr option list \<Rightarrow> isr option list" where
  "boot_handlers hs = (cleared hs)[14 := Some Page_fault_handler, 32 := Some Timer_callback, 33 := Some Keyboard_callback,
     44 := Some Mouse_callback, 128 := Some Syscall_handler]"

lemma boot_handlers_ok: "length hs = 256 \<Longrightarrow> handlers_ok (boot_handlers hs)"
  using cleared_None [of hs] by (auto simp: handlers_ok_def boot_handlers_def nth_list_update)

lemma reaches_devices:
  fixes s :: "'s system_scheme"
  assumes "stage s0 k fs ((cleared hs)[14 := Some Page_fault_handler]) e s" "keyboard_ready s0"
  shows "reaches (stage s0 k fs (boot_handlers hs) e) (boot_devices s)"
proof -
  have sc: "reaches (stage s0 k fs (hs'[128 := Some Syscall_handler]) e) (syscall_init t)" if "stage s0 k fs hs' e t"
    for hs' and t :: "'s system_scheme"
    unfolding syscall_init_def using stage_updates(1) [OF that, of 128 Syscall_handler]
    by (intro reaches_last) (simp_all add: nl_def)
  have gr: "reaches (stage s0 k fs hs' e) (graphics_init t)" if "stage s0 k fs hs' e t" for hs' and t :: "'s system_scheme"
    unfolding graphics_init_def using that by (intro reaches_last) (simp_all add: nl_def)
  show ?thesis unfolding boot_devices_def boot_handlers_def
    by (rule reaches_bind [OF reaches_timer [OF assms(1)]], rule reaches_bind [OF reaches_keyboard], assumption, rule assms(2),
        rule reaches_bind [OF reaches_mouse], assumption, rule reaches_bind [OF sc], assumption, rule gr, assumption)
qed

text \<open>The services replace the kernel's process table and the files; console and devices stay.\<close>

lemma reaches_services:
  fixes s :: "'s system_scheme"
  assumes "stage s0 k fs hs e s" "ramfs_object fs"
  shows "\<exists>fs' t. boot_services s = Some t \<and> stage t (scheduler_init (process_init k)) fs' hs e t \<and> kept t = kept s0 \<and>
     ramfs_inv fs' \<and> ramfs_lookup fs' = [''welcome.txt'' \<mapsto> to_bytes (butlast welcome_text), ''readme.txt'' \<mapsto> to_bytes (take 136 readme_text)]"
proof -
  have s: "console_ok s" "files s = fs" "kern s = k" "interrupt_handlers s = hs" "interrupts_on s = e" "kept s = kept s0"
    using assms(1) by (simp_all add: stage_def)
  obtain t fs' where t: "boot_services s = Some t" "console_ok t"
      "vga.more t = vga.more (with_files fs' (s\<lparr>kern := scheduler_init (process_init k)\<rparr>))" "ramfs_inv fs'"
      "ramfs_lookup fs' = [''welcome.txt'' \<mapsto> to_bytes (butlast welcome_text), ''readme.txt'' \<mapsto> to_bytes (take 136 readme_text)]"
    using boot_services_spec [OF s(1)] assms(2) s by auto
  have "kept t = kept s" "kern t = scheduler_init (process_init k)" "files t = fs'" "interrupt_handlers t = interrupt_handlers s"
    "interrupts_on t = interrupts_on s"
    using t(3) by (cases s; cases t; simp add: kept_def with_files_def)+
  then show ?thesis using t s by (auto simp: stage_def)
qed

lemma reaches_ready:
  fixes s :: "'s system_scheme"
  assumes "stage s0 k fs hs e s"
  shows "reaches (stage s0 k fs hs True) (boot_ready s)"
proof -
  have p: "reaches (stage s0 k fs hs True) (shell_prompt u)" if "stage s0 k fs hs True u" for u :: "'s system_scheme"
    unfolding shell_prompt_def
    by (rule reaches_printf [OF stage_updates(2) [OF that]]) (simp_all add: reaches_Some stage_updates(2))
  show ?thesis unfolding boot_ready_def
    by (rule reaches_printf [OF assms] reaches_printf [OF stage_updates(5)] reaches_printf [OF stage_updates(2)] reaches_printf
        p [OF stage_updates(2)] | assumption | simp add: nl_def quoted_def)+
qed

section \<open>The whole of start-up\<close>

text \<open>A machine whose boot loader passed no memory map.\<close>

definition powered_system :: system where
  "powered_system = boot_system\<lparr>files := blank_files, device := \<lambda>_ p. if p = 0x3FD then 0x20 else 0x1C\<rparr>"

definition no_info :: multiboot_info where
  "no_info = \<lparr>mb_flags = 0, mb_mem_lower = 0, mb_mem_upper = 0, mb_boot_device = 0, mb_cmdline = 0, mb_mods_count = 0,
     mb_mods_addr = 0, mb_syms = [0, 0, 0, 0], mb_mmap_length = 0, mb_mmap_addr = 0, mb_drives_length = 0, mb_drives_addr = 0,
     mb_config_table = 0, mb_boot_loader_name = 0\<rparr>"

lemma powered_system_loaded: "loaded blank_image powered_system"
proof -
  have "length (page_bitmap sample_pmm) = unat BITMAP_SIZE" using sample_pmm_facts(1) by (simp add: pmm_inv_def pmm_wf_def)
  then have "image_ok blank_image boot_vm"
    by (simp add: image_ok_def blank_image_def boot_vm_def page_ok_def word_norm)
  moreover have "line_ready powered_system" "keyboard_ready powered_system"
    by (auto simp: powered_system_def line_ready_def keyboard_ready_def ready_def)
  moreover have "ramfs_object (files powered_system)" by (simp add: powered_system_def ramfs_object_def blank_files_def)
  moreover have "kern powered_system = static_kernel boot_vm" "mouse_inv powered_system" "events_inv (queue powered_system)"
    "length (vga_buffer powered_system) = 2000" "length (cmd_buffer powered_system) = 256" "cmd_pos powered_system = 0"
    "length (interrupt_handlers powered_system) = 256"
    by (simp_all add: powered_system_def boot_system_def graphics.defs blank_graphics_def devices.defs blank_devices_def cpu.defs
        blank_cpu_def mouse_inv_def events_inv_def)
  ultimately show ?thesis using static_kernel_blank [of boot_vm] by (simp add: loaded_def static_kernel_def blank_process_def)
qed

text \<open>C21: On a machine whose serial line and keyboard controller answer, with a memory map that ends, \<open>kmain\<close> gets to its event
  loop. There interrupts are on, only the idle process exists, the address space and the frame allocator are well formed, the
  handlers registered, the two welcome files exist, the line is empty, and the invariant that every session keeps holds.\<close>

theorem kernel_starts:
  fixes s :: "'s system_scheme"
  assumes "loaded img s" and "map_ends img magic mbi (kvm (kern s))"
  shows "\<exists>t. (\<forall>regs wake n. kmain img regs magic mbi wake n s = main_loop img regs wake n t) \<and> session_inv (2 ^ 32 - 2) t \<and>
     lineup [] (kern t) \<and> interrupts_on t \<and> entered t = [] \<and> interrupt_handlers t = boot_handlers (interrupt_handlers s) \<and>
     ramfs_lookup (files t) = [''welcome.txt'' \<mapsto> to_bytes (butlast welcome_text), ''readme.txt'' \<mapsto> to_bytes (take 136 readme_text)]"
proof -
  note L = assms(1) [unfolded loaded_def]
  let ?k = "(kern s)\<lparr>tss_esp0 := 0x90000\<rparr>" and ?hs = "interrupt_handlers s"
  obtain s1 where s1: "boot_banner s = Some s1" "stage s (kern s) (files s) ?hs (interrupts_on s) s1"
    using reaches_banner [of s] L by (auto simp: reaches_def)
  obtain s2 where s2: "boot_info img magic mbi s1 = Some (has_map magic mbi, s2)" "stage s (kern s) (files s) ?hs (interrupts_on s) s2"
    using reaches_info [OF s1(2)] by blast
  obtain s3 where s3: "boot_tables s2 = Some s3" "stage s ?k (files s) ((cleared ?hs)[14 := Some Page_fault_handler]) (interrupts_on s) s3"
    using reaches_tables [OF s2(2)] by (auto simp: reaches_def)
  have "image_ok img (kvm ?k)" "map_ends img magic mbi (kvm ?k)" using L assms(2) by simp_all
  then obtain v s4 where v: "vm_inv v" "kernel_ok v" "current_pd_phys v = kernel_page_directory v" and s4: "boot_memory img (has_map magic mbi) mbi s3 = Some s4"
      "stage s (with_vm v ?k) (files s) ((cleared ?hs)[14 := Some Page_fault_handler]) (interrupts_on s) s4"
    using reaches_memory [OF s3(2)] unfolding reaches_def by blast
  obtain s5 where s5: "boot_devices s4 = Some s5" "stage s (with_vm v ?k) (files s) (boot_handlers ?hs) (interrupts_on s) s5"
    using reaches_devices [OF s4(2)] L unfolding reaches_def by blast
  let ?k1 = "scheduler_init (process_init (with_vm v ?k))"
  obtain fs s6 where s6: "boot_services s5 = Some s6" "stage s6 ?k1 fs (boot_handlers ?hs) (interrupts_on s) s6" "kept s6 = kept s"
      and fs: "ramfs_inv fs" "ramfs_lookup fs = [''welcome.txt'' \<mapsto> to_bytes (butlast welcome_text), ''readme.txt'' \<mapsto> to_bytes (take 136 readme_text)]"
    using reaches_services [OF s5(2)] L by blast
  obtain t where t: "boot_ready s6 = Some t" "stage s6 ?k1 fs (boot_handlers ?hs) True t"
    using reaches_ready [OF s6(2)] unfolding reaches_def by blast
  have "kmain img regs magic mbi wake n s = main_loop img regs wake n t" for regs wake n
    using s1(1) s2(1) s3(1) s4(1) s5(1) s6(1) t(1) by (simp add: kmain_def)
  moreover have bt: "blank_table (with_vm v ?k)" using L by (simp add: blank_table_def with_vm_def)
  note run = kernel_run_inv [OF kernel_run.start bt]
  have lu: "lineup [] ?k1" by (rule lineup_started [OF bt]) (use L v in \<open>simp_all add: with_vm_def\<close>)
  have len: "length (process_table (with_vm v ?k)) = 32" "next_pid (with_vm v ?k) = 1" using bt by (simp_all add: blank_table_def)
  note pt = process_init_table [OF len(1)]
  have k1: "next_pid ?k1 = 1" using pt len(2) by (simp_all add: scheduler_init_def with_vm_def)
  have T: "console_ok t" "kept t = kept s" "kern t = ?k1" "files t = fs" "interrupt_handlers t = boot_handlers ?hs" "interrupts_on t"
    using t(2) s6(3) by (simp_all add: stage_def)
  moreover have "sys_ok (2 ^ 32 - 2) t" using T fs(1) run k1 by (simp add: sys_ok_def kernel_fine_def)
  then have "session_inv (2 ^ 32 - 2) t"
    using T boot_handlers_ok [of ?hs] L by (simp add: session_inv_def kept_def mouse_inv_def)
  moreover have "entered t = []" using T(2) L by (simp add: entered_def kept_def)
  ultimately show ?thesis using lu fs by (intro exI [of _ t]) simp
qed

theorem kernel_starts_witness:
  "\<exists>t. kmain blank_image blank_regs MULTIBOOT_MAGIC no_info (\<lambda>_ s. s) 0 powered_system = Some (Returns t) \<and> interrupts_on t \<and>
     dom (ramfs_lookup (files t)) = {''readme.txt'', ''welcome.txt''}"
proof -
  have "map_ends blank_image MULTIBOOT_MAGIC no_info (kvm (kern powered_system))"
    by (simp add: map_ends_def has_map_def no_info_def blank_image_def)
  from kernel_starts [OF powered_system_loaded this] show ?thesis by force
qed

end
