(* ===== verification/Os2_Emulator.thy ===== *)
theory Os2_Emulator
  imports Prelude
begin

text \<open>
  The OS/2 calls on Linux of \<open>OS2_Wrapper/os2_emulator.c\<close>: the table that gives OS/2 handles to file
  descriptors, the translation of flags and error codes, and one definition per call. The calls of the host are
  an argument, a record of functions over an arbitrary host state \<open>'h\<close>; a failing call gives its \<open>errno\<close>.
  A result parameter is an option, \<open>None\<close> when the call leaves the caller's variable alone. The messages the
  calls print and the arguments they ignore are left out. \<open>OS2_Wrapper/os2_with_api.c\<close> has calls
  of its own, in the theory \<open>Os2_Api\<close>.
\<close>

section \<open>The host\<close>

record 'h linux =
  sys_open :: "string \<Rightarrow> u32 \<Rightarrow> u32 \<Rightarrow> 'h \<Rightarrow> (int + int) \<times> 'h"
  sys_read :: "int \<Rightarrow> nat \<Rightarrow> 'h \<Rightarrow> (int + u8 list) \<times> 'h"
  sys_write :: "int \<Rightarrow> u8 list \<Rightarrow> 'h \<Rightarrow> (int + nat) \<times> 'h"
  sys_close :: "int \<Rightarrow> 'h \<Rightarrow> (int + unit) \<times> 'h"
  sys_lseek :: "int \<Rightarrow> int \<Rightarrow> u32 \<Rightarrow> 'h \<Rightarrow> (int + int) \<times> 'h"
  sys_fstat :: "int \<Rightarrow> 'h \<Rightarrow> bool \<times> 'h"
  sys_unlink :: "string \<Rightarrow> 'h \<Rightarrow> (int + unit) \<times> 'h"
  sys_usleep :: "u32 \<Rightarrow> 'h \<Rightarrow> 'h"
  sys_malloc :: "u64 \<Rightarrow> 'h \<Rightarrow> u64 option \<times> 'h"
  sys_free :: "u64 \<Rightarrow> 'h \<Rightarrow> 'h"

text \<open>Constants of the Linux headers.\<close>

definition O_RDONLY :: u32 where "O_RDONLY = 0"
definition O_WRONLY :: u32 where "O_WRONLY = 1"
definition O_RDWR :: u32 where "O_RDWR = 2"
definition O_CREAT :: u32 where "O_CREAT = 0x40"
definition O_EXCL :: u32 where "O_EXCL = 0x80"
definition O_TRUNC :: u32 where "O_TRUNC = 0x200"
definition SEEK_SET :: u32 where "SEEK_SET = 0"
definition SEEK_CUR :: u32 where "SEEK_CUR = 1"
definition SEEK_END :: u32 where "SEEK_END = 2"
definition ENOENT :: int where "ENOENT = 2"
definition EBADF :: int where "EBADF = 9"
definition ENOMEM :: int where "ENOMEM = 12"
definition EACCES :: int where "EACCES = 13"
definition EEXIST :: int where "EEXIST = 17"
definition EINVAL :: int where "EINVAL = 22"
definition EMFILE :: int where "EMFILE = 24"

section \<open>Constants of the OS/2 interface\<close>

definition NO_ERROR :: u32 where "NO_ERROR = 0"
definition ERROR_INVALID_FUNCTION :: u32 where "ERROR_INVALID_FUNCTION = 1"
definition ERROR_FILE_NOT_FOUND :: u32 where "ERROR_FILE_NOT_FOUND = 2"
definition ERROR_TOO_MANY_OPEN_FILES :: u32 where "ERROR_TOO_MANY_OPEN_FILES = 4"
definition ERROR_ACCESS_DENIED :: u32 where "ERROR_ACCESS_DENIED = 5"
definition ERROR_INVALID_HANDLE :: u32 where "ERROR_INVALID_HANDLE = 6"
definition ERROR_NOT_ENOUGH_MEMORY :: u32 where "ERROR_NOT_ENOUGH_MEMORY = 8"
definition ERROR_INVALID_PARAMETER :: u32 where "ERROR_INVALID_PARAMETER = 87"
definition OPEN_ACTION_OPEN_IF_EXISTS :: u32 where "OPEN_ACTION_OPEN_IF_EXISTS = 0x0001"
definition OPEN_ACTION_REPLACE_IF_EXISTS :: u32 where "OPEN_ACTION_REPLACE_IF_EXISTS = 0x0002"
definition OPEN_ACTION_CREATE_IF_NEW :: u32 where "OPEN_ACTION_CREATE_IF_NEW = 0x0010"
definition OPEN_ACCESS_READONLY :: u32 where "OPEN_ACCESS_READONLY = 0x0000"
definition OPEN_ACCESS_WRITEONLY :: u32 where "OPEN_ACCESS_WRITEONLY = 0x0001"
definition OPEN_ACCESS_READWRITE :: u32 where "OPEN_ACCESS_READWRITE = 0x0002"
definition FILE_EXISTED :: u32 where "FILE_EXISTED = 1"
definition FILE_CREATED :: u32 where "FILE_CREATED = 2"
definition FILE_TRUNCATED :: u32 where "FILE_TRUNCATED = 3"
definition FILE_BEGIN :: u32 where "FILE_BEGIN = 0"
definition FILE_CURRENT :: u32 where "FILE_CURRENT = 1"
definition FILE_END :: u32 where "FILE_END = 2"

section \<open>The handle table\<close>

definition MAX_HANDLES :: nat where "MAX_HANDLES = 256"

text \<open>The path is the C string in the array of 256 characters.\<close>

record handle_entry =
  linux_fd :: int
  in_use :: bool
  path :: string

record 'h os2 =
  handle_table :: "handle_entry list"
  handle_table_initialized :: bool
  host :: 'h

definition init_handle_table :: "'h os2 \<Rightarrow> 'h os2" where
  "init_handle_table s =
     (if handle_table_initialized s then s
      else let t0 = fold (\<lambda>i t. t[i := \<lparr>linux_fd = -1, in_use = False, path = []\<rparr>]) [0..<MAX_HANDLES] (handle_table s);
               t1 = t0[0 := (t0 ! 0)\<lparr>linux_fd := 0, in_use := True\<rparr>];
               t2 = t1[1 := (t1 ! 1)\<lparr>linux_fd := 1, in_use := True\<rparr>];
               t3 = t2[2 := (t2 ! 2)\<lparr>linux_fd := 2, in_use := True\<rparr>]
           in s\<lparr>handle_table := t3, handle_table_initialized := True\<rparr>)"

text \<open>\<open>strncpy\<close> copies at most 255 characters and the last byte of the array stays 0.\<close>

function allocate_loop :: "nat \<Rightarrow> int \<Rightarrow> string option \<Rightarrow> 'h os2 \<Rightarrow> u32 \<times> 'h os2" where
  "allocate_loop i fd p s =
     (if i < MAX_HANDLES
      then (if \<not> in_use (handle_table s ! i)
            then (of_nat i, s\<lparr>handle_table := (handle_table s)[i :=
                    \<lparr>linux_fd = fd, in_use = True, path = take 255 (case p of Some q \<Rightarrow> q | None \<Rightarrow> [])\<rparr>]\<rparr>)
            else allocate_loop (i + 1) fd p s)
      else (-1, s))"
  by pat_completeness auto
termination by (relation "measure (\<lambda>(i, _, _, _). MAX_HANDLES - i)") auto

declare allocate_loop.simps [simp del]

definition allocate_handle :: "int \<Rightarrow> string option \<Rightarrow> 'h os2 \<Rightarrow> u32 \<times> 'h os2" where
  "allocate_handle fd p s = allocate_loop 3 fd p s"

definition get_linux_fd :: "u32 \<Rightarrow> 'h os2 \<Rightarrow> int" where
  "get_linux_fd handle s =
     (if unat handle \<ge> MAX_HANDLES \<or> \<not> in_use (handle_table s ! unat handle) then -1
      else linux_fd (handle_table s ! unat handle))"

definition free_handle :: "u32 \<Rightarrow> 'h os2 \<Rightarrow> 'h os2" where
  "free_handle handle s =
     (if unat handle < MAX_HANDLES \<and> in_use (handle_table s ! unat handle)
      then s\<lparr>handle_table := (handle_table s)[unat handle := \<lparr>linux_fd = -1, in_use = False, path = []\<rparr>]\<rparr>
      else s)"

definition errno_to_os2 :: "int \<Rightarrow> u32" where
  "errno_to_os2 err =
     (if err = 0 then NO_ERROR
      else if err = ENOENT then ERROR_FILE_NOT_FOUND
      else if err = EACCES then ERROR_ACCESS_DENIED
      else if err = EINVAL then ERROR_INVALID_PARAMETER
      else if err = EMFILE then ERROR_TOO_MANY_OPEN_FILES
      else if err = ENOMEM then ERROR_NOT_ENOUGH_MEMORY
      else if err = EBADF then ERROR_INVALID_HANDLE
      else ERROR_INVALID_FUNCTION)"

section \<open>The calls\<close>

definition open_flags :: "u32 \<Rightarrow> u32 \<Rightarrow> u32" where
  "open_flags ulOpenFlags ulOpenMode =
     (let access = ulOpenMode AND 0x0003;
          flags = (if access = OPEN_ACCESS_READONLY then O_RDONLY
                   else if access = OPEN_ACCESS_WRITEONLY then O_WRONLY
                   else if access = OPEN_ACCESS_READWRITE then O_RDWR
                   else 0);
          open_action = ulOpenFlags AND 0x00FF;
          flags1 = (if open_action AND OPEN_ACTION_CREATE_IF_NEW \<noteq> 0
                    then (if open_action AND OPEN_ACTION_OPEN_IF_EXISTS = 0 then flags OR O_CREAT OR O_EXCL
                          else flags OR O_CREAT)
                    else flags)
      in if open_action AND OPEN_ACTION_REPLACE_IF_EXISTS \<noteq> 0 then flags1 OR O_TRUNC else flags1)"

definition on_host :: "('h \<Rightarrow> 'a \<times> 'h) \<Rightarrow> 'h os2 \<Rightarrow> 'a \<times> 'h os2" where
  "on_host f s = (case f (host s) of (r, h) \<Rightarrow> (r, s\<lparr>host := h\<rparr>))"

definition DosOpen ::
  "'h linux \<Rightarrow> string \<Rightarrow> u32 \<Rightarrow> u32 \<Rightarrow> 'h os2 \<Rightarrow> u32 \<times> u32 option \<times> u32 option \<times> 'h os2" where
  "DosOpen L name ulOpenFlags ulOpenMode s =
     (let s0 = init_handle_table s; flags = open_flags ulOpenFlags ulOpenMode
      in case on_host (sys_open L name flags 0x1A4) s0 of
           (Inl err, s1) \<Rightarrow> (errno_to_os2 err, None, None, s1)
         | (Inr fd, s1) \<Rightarrow>
             (case allocate_handle fd (Some name) s1 of (os2_handle, s2) \<Rightarrow>
                if os2_handle = -1
                then (ERROR_TOO_MANY_OPEN_FILES, None, None, snd (on_host (sys_close L fd) s2))
                else (case on_host (sys_fstat L fd) s2 of (ok, s3) \<Rightarrow>
                  (NO_ERROR, Some os2_handle,
                   (if ok
                    then Some (if flags AND O_CREAT \<noteq> 0
                               then (if flags AND O_EXCL \<noteq> 0 then FILE_CREATED else FILE_EXISTED)
                               else (if flags AND O_TRUNC \<noteq> 0 then FILE_TRUNCATED else FILE_EXISTED))
                    else None), s3))))"

text \<open>The bytes read are the second result, the count written through the pointer the third.\<close>

definition DosRead :: "'h linux \<Rightarrow> u32 \<Rightarrow> u32 \<Rightarrow> 'h os2 \<Rightarrow> u32 \<times> u8 list \<times> u32 option \<times> 'h os2" where
  "DosRead L hFile ulLength s =
     (let fd = get_linux_fd hFile s
      in if fd < 0 then (ERROR_INVALID_HANDLE, [], None, s)
         else case on_host (sys_read L fd (unat ulLength)) s of
             (Inl err, s1) \<Rightarrow> (errno_to_os2 err, [], Some 0, s1)
           | (Inr bytes, s1) \<Rightarrow> (NO_ERROR, bytes, Some (of_nat (length bytes)), s1))"

definition DosWrite_os2 :: "'h linux \<Rightarrow> u32 \<Rightarrow> u8 list \<Rightarrow> 'h os2 \<Rightarrow> u32 \<times> u32 option \<times> 'h os2" where
  "DosWrite_os2 L hFile buffer s =
     (let fd = get_linux_fd hFile s
      in if fd < 0 then (ERROR_INVALID_HANDLE, None, s)
         else case on_host (sys_write L fd buffer) s of
             (Inl err, s1) \<Rightarrow> (errno_to_os2 err, Some 0, s1)
           | (Inr bytes, s1) \<Rightarrow> (NO_ERROR, Some (of_nat bytes), s1))"

definition DosClose :: "'h linux \<Rightarrow> u32 \<Rightarrow> 'h os2 \<Rightarrow> u32 \<times> 'h os2" where
  "DosClose L hFile s =
     (let fd = get_linux_fd hFile s
      in if fd < 0 then (ERROR_INVALID_HANDLE, s)
         else case on_host (sys_close L fd) s of
             (Inl err, s1) \<Rightarrow> (errno_to_os2 err, s1)
           | (Inr _, s1) \<Rightarrow> (NO_ERROR, free_handle hFile s1))"

definition DosSetFilePtr :: "'h linux \<Rightarrow> u32 \<Rightarrow> u32 \<Rightarrow> u32 \<Rightarrow> 'h os2 \<Rightarrow> u32 \<times> u32 option \<times> 'h os2" where
  "DosSetFilePtr L hFile lOffset ulOrigin s =
     (let fd = get_linux_fd hFile s
      in if fd < 0 then (ERROR_INVALID_HANDLE, None, s)
         else case (if ulOrigin = FILE_BEGIN then Some SEEK_SET
                    else if ulOrigin = FILE_CURRENT then Some SEEK_CUR
                    else if ulOrigin = FILE_END then Some SEEK_END else None) of
             None \<Rightarrow> (ERROR_INVALID_PARAMETER, None, s)
           | Some whence \<Rightarrow>
               (case on_host (sys_lseek L fd (sint lOffset) whence) s of
                  (Inl err, s1) \<Rightarrow> (errno_to_os2 err, None, s1)
                | (Inr new_pos, s1) \<Rightarrow> (NO_ERROR, Some (of_int new_pos), s1)))"

definition DosDelete :: "'h linux \<Rightarrow> string \<Rightarrow> 'h os2 \<Rightarrow> u32 \<times> 'h os2" where
  "DosDelete L name s =
     (case on_host (sys_unlink L name) s of
        (Inl err, s1) \<Rightarrow> (errno_to_os2 err, s1)
      | (Inr _, s1) \<Rightarrow> (NO_ERROR, s1))"

text \<open>\<open>DosExit\<close> does not return: its value is the argument of \<open>exit\<close>.\<close>

definition DosExit_os2 :: "u32 \<Rightarrow> u32 \<Rightarrow> int" where
  "DosExit_os2 ulAction ulResult = sint ulResult"

definition DosSleep :: "'h linux \<Rightarrow> u32 \<Rightarrow> 'h os2 \<Rightarrow> u32 \<times> 'h os2" where
  "DosSleep L ulMilliseconds s = (NO_ERROR, s\<lparr>host := sys_usleep L (ulMilliseconds * 1000) (host s)\<rparr>)"

definition DosAllocMem :: "'h linux \<Rightarrow> u32 \<Rightarrow> 'h os2 \<Rightarrow> u32 \<times> u64 option \<times> 'h os2" where
  "DosAllocMem L ulSize s =
     (case on_host (sys_malloc L (ucast ulSize)) s of
        (None, s1) \<Rightarrow> (ERROR_NOT_ENOUGH_MEMORY, None, s1)
      | (Some mem, s1) \<Rightarrow> (NO_ERROR, Some mem, s1))"

definition DosFreeMem :: "'h linux \<Rightarrow> u64 \<Rightarrow> 'h os2 \<Rightarrow> u32 \<times> 'h os2" where
  "DosFreeMem L pBaseAddress s = (NO_ERROR, s\<lparr>host := sys_free L pBaseAddress (host s)\<rparr>)"

section \<open>The export table\<close>

datatype os2_api =
  Api_DosOpen | Api_DosRead | Api_DosWrite | Api_DosClose | Api_DosSetFilePtr | Api_DosDelete |
  Api_DosExit | Api_DosSleep | Api_DosAllocMem | Api_DosFreeMem | Api_DosGetMessage | Api_DosPutMessage

definition api_exports :: "(string \<times> os2_api) list" where
  "api_exports =
     [(''DosOpen'', Api_DosOpen), (''DosRead'', Api_DosRead), (''DosWrite'', Api_DosWrite),
      (''DosClose'', Api_DosClose), (''DosSetFilePtr'', Api_DosSetFilePtr), (''DosDelete'', Api_DosDelete),
      (''DosExit'', Api_DosExit), (''DosSleep'', Api_DosSleep), (''DosAllocMem'', Api_DosAllocMem),
      (''DosFreeMem'', Api_DosFreeMem)]"

fun find_export :: "(string \<times> os2_api) list \<Rightarrow> string \<Rightarrow> os2_api option" where
  "find_export [] name = None"
| "find_export ((n, f) # rest) name = (if n = name then Some f else find_export rest name)"

definition resolve_os2_api :: "string \<Rightarrow> os2_api option" where
  "resolve_os2_api name = find_export api_exports name"

section \<open>The table\<close>

lemma fold_update_prefix:
  "k \<le> length t \<Longrightarrow> fold (\<lambda>i t. t[i := x]) [0..<k] t = replicate k x @ drop k t"
proof (induction k)
  case (Suc k)
  then have "fold (\<lambda>i t. t[i := x]) [0..<Suc k] t = (replicate k x @ drop k t)[k := x]" by simp
  also have "\<dots> = replicate k x @ (drop k t)[0 := x]" by (simp add: list_update_append)
  also have "drop k t = t ! k # drop (Suc k) t" using Suc.prems by (simp add: Cons_nth_drop_Suc)
  finally show ?case by (simp add: replicate_append_same [symmetric])
qed simp

definition standard_entry :: "nat \<Rightarrow> handle_entry" where
  "standard_entry i = (if i < 3 then \<lparr>linux_fd = int i, in_use = True, path = []\<rparr>
                       else \<lparr>linux_fd = -1, in_use = False, path = []\<rparr>)"

lemma init_handle_table_fresh:
  assumes "length (handle_table s) = MAX_HANDLES" "\<not> handle_table_initialized s"
  shows "init_handle_table s = s\<lparr>handle_table := map standard_entry [0..<MAX_HANDLES], handle_table_initialized := True\<rparr>"
proof -
  have "(replicate MAX_HANDLES \<lparr>linux_fd = -1, in_use = False, path = []\<rparr>)
          [0 := \<lparr>linux_fd = 0, in_use = True, path = []\<rparr>, 1 := \<lparr>linux_fd = 1, in_use = True, path = []\<rparr>,
           2 := \<lparr>linux_fd = 2, in_use = True, path = []\<rparr>] = map standard_entry [0..<MAX_HANDLES]"
    by (rule nth_equalityI) (auto simp: standard_entry_def nth_list_update MAX_HANDLES_def)
  then show ?thesis
    using assms by (simp add: init_handle_table_def fold_update_prefix Let_def MAX_HANDLES_def nth_list_update)
qed

lemma init_handle_table_again: "handle_table_initialized s \<Longrightarrow> init_handle_table s = s"
  by (simp add: init_handle_table_def)

lemma init_handle_table_facts [simp]:
  "handle_table_initialized (init_handle_table s)" "host (init_handle_table s) = host s"
  by (simp_all add: init_handle_table_def Let_def)

text \<open>The first unused handle at or above \<open>i\<close>, if there is one.\<close>

lemma allocate_loop_cases:
  obtains (found) k where "i \<le> k" "k < MAX_HANDLES" "\<not> in_use (handle_table s ! k)"
      "\<forall>j. i \<le> j \<and> j < k \<longrightarrow> in_use (handle_table s ! j)"
      "allocate_loop i fd p s = (of_nat k, s\<lparr>handle_table := (handle_table s)[k :=
         \<lparr>linux_fd = fd, in_use = True, path = take 255 (case p of Some q \<Rightarrow> q | None \<Rightarrow> [])\<rparr>]\<rparr>)"
  | (full) "\<forall>j. i \<le> j \<and> j < MAX_HANDLES \<longrightarrow> in_use (handle_table s ! j)" "allocate_loop i fd p s = (-1, s)"
proof (induction i fd p s arbitrary: thesis rule: allocate_loop.induct)
  case (1 i fd p s)
  consider "\<not> i < MAX_HANDLES" | "i < MAX_HANDLES" "\<not> in_use (handle_table s ! i)"
    | "i < MAX_HANDLES" "in_use (handle_table s ! i)" by blast
  then show ?case
  proof cases
    case 1
    then show ?thesis by (intro "1.prems"(2)) (auto simp: allocate_loop.simps)
  next
    case 2
    then show ?thesis by (intro "1.prems"(1) [of i]) (auto simp: allocate_loop.simps)
  next
    case 3
    then have eq: "allocate_loop i fd p s = allocate_loop (i + 1) fd p s" by (simp add: allocate_loop.simps [of i])
    have in_i: "in_use (handle_table s ! j)" if "i \<le> j" "j < i + 1" for j using 3 that by (metis Suc_eq_plus1 le_antisym less_Suc_eq_le)
    show ?thesis
    proof (rule "1.IH")
      show "i < MAX_HANDLES" "\<not> \<not> in_use (handle_table s ! i)" using 3 by simp_all
    next
      fix k assume "i + 1 \<le> k" "k < MAX_HANDLES" "\<not> in_use (handle_table s ! k)"
        "\<forall>j. i + 1 \<le> j \<and> j < k \<longrightarrow> in_use (handle_table s ! j)"
        "allocate_loop (i + 1) fd p s = (of_nat k, s\<lparr>handle_table := (handle_table s)[k :=
           \<lparr>linux_fd = fd, in_use = True, path = take 255 (case p of Some q \<Rightarrow> q | None \<Rightarrow> [])\<rparr>]\<rparr>)"
      then show thesis using "1.prems"(1) [of k] eq in_i by (metis add_leD1 not_less)
    next
      assume "\<forall>j. i + 1 \<le> j \<and> j < MAX_HANDLES \<longrightarrow> in_use (handle_table s ! j)" "allocate_loop (i + 1) fd p s = (- 1, s)"
      then show thesis using "1.prems"(2) eq in_i by (metis not_less)
    qed
  qed
qed

lemma small_handle: "k < MAX_HANDLES \<Longrightarrow> unat (of_nat k :: u32) = k" "k < MAX_HANDLES \<Longrightarrow> (of_nat k :: u32) \<noteq> -1"
proof -
  assume k: "k < MAX_HANDLES"
  then show u: "unat (of_nat k :: u32) = k" by (simp add: unsigned_of_nat take_bit_nat_eq_self MAX_HANDLES_def)
  show "(of_nat k :: u32) \<noteq> -1"
  proof
    assume "(of_nat k :: u32) = -1"
    then have "unat (of_nat k :: u32) = unat (-1 :: u32)" by simp
    also have "unat (-1 :: u32) = 4294967295" by (simp add: unsigned_minus_1_eq_mask mask_eq_exp_minus_1)
    finally show False using u k by (simp add: MAX_HANDLES_def)
  qed
qed

section \<open>What the calls rely on\<close>

text \<open>The documented behaviour of descriptors: \<open>open\<close> returns one that is not open, \<open>close\<close> of an open one
  releases it, also when it reports an error (\<open>EIO\<close>, \<open>EINTR\<close>: Linux has released the descriptor then), and no
  other call opens or closes any.\<close>

definition posix_fds :: "'h linux \<Rightarrow> ('h \<Rightarrow> int set) \<Rightarrow> bool" where
  "posix_fds L fds \<longleftrightarrow>
     (\<forall>name flags mode h fd h'. sys_open L name flags mode h = (Inr fd, h') \<longrightarrow>
        0 \<le> fd \<and> fd \<notin> fds h \<and> fds h' = insert fd (fds h)) \<and>
     (\<forall>name flags mode h err h'. sys_open L name flags mode h = (Inl err, h') \<longrightarrow> fds h' = fds h) \<and>
     (\<forall>fd h. fd \<in> fds h \<longrightarrow> fds (snd (sys_close L fd h)) = fds h - {fd}) \<and>
     (\<forall>fd n h. fds (snd (sys_read L fd n h)) = fds h) \<and>
     (\<forall>fd bs h. fds (snd (sys_write L fd bs h)) = fds h) \<and>
     (\<forall>fd d w h. fds (snd (sys_lseek L fd d w h)) = fds h) \<and>
     (\<forall>fd h. fds (snd (sys_fstat L fd h)) = fds h) \<and>
     (\<forall>name h. fds (snd (sys_unlink L name h)) = fds h) \<and>
     (\<forall>n h. fds (sys_usleep L n h) = fds h) \<and>
     (\<forall>n h. fds (snd (sys_malloc L n h)) = fds h) \<and>
     (\<forall>p h. fds (sys_free L p h) = fds h)"

text \<open>The program's calls, one at a time, and the states they lead to. \<open>DosExit\<close> leaves none.\<close>

datatype os2_call =
  Open string u32 u32 | Read u32 u32 | Write u32 "u8 list" | Close u32 | Seek u32 u32 u32 |
  Delete string | Sleep u32 | Alloc u32 | Free u64

fun os2_do :: "'h linux \<Rightarrow> os2_call \<Rightarrow> 'h os2 \<Rightarrow> 'h os2" where
  "os2_do L (Open name fl md) s = snd (snd (snd (DosOpen L name fl md s)))"
| "os2_do L (Read hn n) s = snd (snd (snd (DosRead L hn n s)))"
| "os2_do L (Write hn bs) s = snd (snd (DosWrite_os2 L hn bs s))"
| "os2_do L (Close hn) s = snd (DosClose L hn s)"
| "os2_do L (Seek hn d w) s = snd (snd (DosSetFilePtr L hn d w s))"
| "os2_do L (Delete name) s = snd (DosDelete L name s)"
| "os2_do L (Sleep n) s = snd (DosSleep L n s)"
| "os2_do L (Alloc n) s = snd (snd (DosAllocMem L n s))"
| "os2_do L (Free p) s = snd (DosFreeMem L p s)"

text \<open>The static table before the first call.\<close>

definition os2_start :: "'h \<Rightarrow> 'h os2" where
  "os2_start h = \<lparr>handle_table = replicate MAX_HANDLES \<lparr>linux_fd = 0, in_use = False, path = []\<rparr>,
                  handle_table_initialized = False, host = h\<rparr>"

text \<open>\<open>DosClose\<close> keeps the handle when the host reports an error, although the descriptor is gone. The runs below
  are those in which that does not happen.\<close>

definition close_error :: "'h linux \<Rightarrow> os2_call \<Rightarrow> 'h os2 \<Rightarrow> bool" where
  "close_error L c s \<longleftrightarrow> (case c of
     Close hn \<Rightarrow> 0 \<le> get_linux_fd hn s \<and> isl (fst (sys_close L (get_linux_fd hn s) (host s)))
   | _ \<Rightarrow> False)"

inductive os2_reaches :: "'h linux \<Rightarrow> 'h os2 \<Rightarrow> 'h os2 \<Rightarrow> bool" for L where
  here: "os2_reaches L s s"
| call: "os2_reaches L s t \<Longrightarrow> \<not> close_error L c t \<Longrightarrow> os2_reaches L s (os2_do L c t)"

definition used :: "'h os2 \<Rightarrow> nat \<Rightarrow> bool" where
  "used s i \<longleftrightarrow> i < MAX_HANDLES \<and> in_use (handle_table s ! i)"

definition fd_of :: "'h os2 \<Rightarrow> nat \<Rightarrow> int" where
  "fd_of s i = linux_fd (handle_table s ! i)"

text \<open>\<open>F\<close> is what was open before the program started.\<close>

definition os2_inv :: "('h \<Rightarrow> int set) \<Rightarrow> int set \<Rightarrow> 'h os2 \<Rightarrow> bool" where
  "os2_inv fds F s \<longleftrightarrow>
     length (handle_table s) = MAX_HANDLES \<and>
     (\<forall>fd\<in>fds (host s). 0 \<le> fd) \<and>
     (handle_table_initialized s \<or> {0, 1, 2} \<subseteq> fds (host s) \<and> (\<forall>i. \<not> used s i)) \<and>
     (\<forall>i. used s i \<longrightarrow> fd_of s i \<in> fds (host s)) \<and>
     (\<forall>i j. used s i \<and> used s j \<and> fd_of s i = fd_of s j \<longrightarrow> i = j) \<and>
     fds (host s) \<subseteq> F \<union> {fd_of s i |i. used s i}"

lemma os2_invI:
  assumes "length (handle_table s) = MAX_HANDLES" "handle_table_initialized s" "\<forall>fd\<in>fds (host s). 0 \<le> fd"
    and "\<And>i. used s i \<Longrightarrow> fd_of s i \<in> fds (host s)"
    and "\<And>i j. used s i \<Longrightarrow> used s j \<Longrightarrow> fd_of s i = fd_of s j \<Longrightarrow> i = j"
    and "fds (host s) \<subseteq> F \<union> {fd_of s i |i. used s i}"
  shows "os2_inv fds F s"
  unfolding os2_inv_def using assms by blast

lemma get_linux_fd_eq: "get_linux_fd hn s = (if used s (unat hn) then fd_of s (unat hn) else -1)"
  by (simp add: get_linux_fd_def used_def fd_of_def not_le)

lemma used_host [simp]:
  "used (s\<lparr>host := h\<rparr>) = used s" "fd_of (s\<lparr>host := h\<rparr>) = fd_of s"
  "used (s\<lparr>host := h, handle_table := tb\<rparr>) = used (s\<lparr>handle_table := tb\<rparr>)"
  "fd_of (s\<lparr>host := h, handle_table := tb\<rparr>) = fd_of (s\<lparr>handle_table := tb\<rparr>)"
  by (simp_all add: used_def fd_of_def fun_eq_iff)

lemma used_update:
  assumes "length (handle_table s) = MAX_HANDLES" "k < MAX_HANDLES"
  shows "used (s\<lparr>handle_table := (handle_table s)[k := e]\<rparr>) i = (if i = k then in_use e else used s i)"
    and "fd_of (s\<lparr>handle_table := (handle_table s)[k := e]\<rparr>) i = (if i = k then linux_fd e else fd_of s i)"
  using assms by (auto simp: used_def fd_of_def nth_list_update)

lemma os2_inv_start:
  assumes "{0, 1, 2} \<subseteq> fds h" "\<forall>fd\<in>fds h. 0 \<le> fd"
  shows "os2_inv fds (fds h) (os2_start h)"
  using assms by (auto simp: os2_inv_def os2_start_def used_def MAX_HANDLES_def)

lemma os2_inv_host:
  assumes "os2_inv fds F s" "fds h = fds (host s)"
  shows "os2_inv fds F (s\<lparr>host := h\<rparr>)"
  using assms by (simp add: os2_inv_def)

lemma os2_inv_init:
  assumes inv: "os2_inv fds F s"
  shows "os2_inv fds F (init_handle_table s)"
proof (cases "handle_table_initialized s")
  case True
  then show ?thesis using inv by (simp add: init_handle_table_again)
next
  case False
  have len: "length (handle_table s) = MAX_HANDLES" and none: "\<And>i. \<not> used s i" and std: "{0, 1, 2} \<subseteq> fds (host s)"
    and sub: "fds (host s) \<subseteq> F" and pos: "\<forall>fd\<in>fds (host s). 0 \<le> fd"
    using inv False by (auto simp: os2_inv_def)
  let ?t = "init_handle_table s"
  have u: "used ?t i \<longleftrightarrow> i < 3" and f: "i < 3 \<Longrightarrow> fd_of ?t i = int i" for i
    unfolding init_handle_table_fresh [OF len False]
    by (auto simp: used_def fd_of_def standard_entry_def MAX_HANDLES_def split: if_splits)
  have fi: "used ?t i \<longrightarrow> fd_of ?t i \<in> fds (host s)" for i
  proof
    assume "used ?t i"
    then have i: "i < 3" using u by simp
    then have "i \<in> {0, 1, 2}" by auto
    then show "fd_of ?t i \<in> fds (host s)" using f [OF i] std by auto
  qed
  have inj: "used ?t i \<and> used ?t j \<and> fd_of ?t i = fd_of ?t j \<longrightarrow> i = j" for i j by (metis u f of_nat_eq_iff)
  have "length (handle_table ?t) = MAX_HANDLES" by (simp add: init_handle_table_fresh [OF len False])
  moreover have "fds (host ?t) \<subseteq> F \<union> {fd_of ?t i |i. used ?t i}" using sub by auto
  ultimately show ?thesis unfolding os2_inv_def using fi inj pos by simp
qed

section \<open>Every call keeps the table consistent\<close>

lemma os2_inv_allocate:
  assumes inv: "os2_inv fds F s" and init: "handle_table_initialized s"
    and h: "fds h = insert fd (fds (host s))" and fresh: "fd \<notin> fds (host s)" and pos: "0 \<le> fd"
    and alloc: "allocate_handle fd p (s\<lparr>host := h\<rparr>) = (hn, t)" and ok: "hn \<noteq> -1"
  shows "os2_inv fds F t" and "host t = h" and "handle_table_initialized t"
proof -
  let ?s = "s\<lparr>host := h\<rparr>"
  obtain k where k: "k < MAX_HANDLES" "\<not> in_use (handle_table s ! k)" and t: "t = ?s\<lparr>handle_table := (handle_table ?s)[k :=
         \<lparr>linux_fd = fd, in_use = True, path = take 255 (case p of Some q \<Rightarrow> q | None \<Rightarrow> [])\<rparr>]\<rparr>"
    by (rule allocate_loop_cases [of 3 ?s fd p]) (use alloc ok in \<open>auto simp: allocate_handle_def\<close>)
  have len: "length (handle_table ?s) = MAX_HANDLES" using inv by (simp add: os2_inv_def)
  note u = used_update [OF len k(1)]
  have "\<not> used s k" using k by (simp add: used_def)
  then show "os2_inv fds F t" "host t = h" "handle_table_initialized t"
    using inv init h fresh pos len unfolding os2_inv_def t u by (auto split: if_splits)
qed

lemma os2_inv_free:
  assumes inv: "os2_inv fds F s" and k: "used s (unat hn)"
    and h: "fds h = fds (host s) - {fd_of s (unat hn)}"
  shows "os2_inv fds F (free_handle hn (s\<lparr>host := h\<rparr>))"
proof -
  let ?s = "s\<lparr>host := h\<rparr>"
  have init: "handle_table_initialized s" and len: "length (handle_table ?s) = MAX_HANDLES" and b: "unat hn < MAX_HANDLES"
    using inv k by (auto simp: os2_inv_def used_def)
  have f: "free_handle hn ?s = ?s\<lparr>handle_table := (handle_table ?s)[unat hn := \<lparr>linux_fd = -1, in_use = False, path = []\<rparr>]\<rparr>"
    using k by (simp add: free_handle_def used_def)
  note u = used_update [OF len b]
  have used: "used (free_handle hn ?s) i \<longleftrightarrow> i \<noteq> unat hn \<and> used s i"
    and fd: "i \<noteq> unat hn \<Longrightarrow> fd_of (free_handle hn ?s) i = fd_of s i" for i
    unfolding f u by simp_all
  have inj: "i = j" if "used s i" "used s j" "fd_of s i = fd_of s j" for i j
    using inv that unfolding os2_inv_def by blast
  have host: "host (free_handle hn ?s) = h" "handle_table_initialized (free_handle hn ?s)"
    "length (handle_table (free_handle hn ?s)) = MAX_HANDLES" using init len by (simp_all add: f)
  have "fd_of (free_handle hn ?s) i \<in> fds h" if "used (free_handle hn ?s) i" for i
  proof -
    have i: "i \<noteq> unat hn" "used s i" using that used by blast+
    have "fd_of s i \<in> fds (host s)" using inv i(2) unfolding os2_inv_def by blast
    moreover have "fd_of s i \<noteq> fd_of s (unat hn)" using inj [OF i(2) k] i(1) by blast
    ultimately show ?thesis using h fd [OF i(1)] by simp
  qed
  moreover have "fds h \<subseteq> F \<union> {fd_of (free_handle hn ?s) i |i. used (free_handle hn ?s) i}"
  proof
    fix x assume "x \<in> fds h"
    then have "x \<in> fds (host s)" "x \<noteq> fd_of s (unat hn)" using h by auto
    moreover have "fds (host s) \<subseteq> F \<union> {fd_of s i |i. used s i}" using inv by (simp add: os2_inv_def)
    ultimately consider "x \<in> F" | i where "used s i" "x = fd_of s i" "i \<noteq> unat hn" by blast
    then show "x \<in> F \<union> {fd_of (free_handle hn ?s) i |i. used (free_handle hn ?s) i}"
    proof cases
      case (2 i)
      then have "used (free_handle hn ?s) i" "x = fd_of (free_handle hn ?s) i" using used fd by simp_all
      then show ?thesis by blast
    qed simp
  qed
  moreover have "\<forall>fd\<in>fds h. 0 \<le> fd" using inv h unfolding os2_inv_def by blast
  moreover have "i = j" if "used (free_handle hn ?s) i" "used (free_handle hn ?s) j"
    "fd_of (free_handle hn ?s) i = fd_of (free_handle hn ?s) j" for i j
    using that inj used fd by metis
  ultimately show ?thesis using host by (intro os2_invI) (simp only: host(1))+
qed

text \<open>A table that is full is left alone, and the descriptor is closed again.\<close>

lemma allocate_handle_full:
  assumes "allocate_handle fd p s = (-1, t)"
  shows "t = s"
  by (rule allocate_loop_cases [of 3 s fd p]) (use assms small_handle(2) in \<open>auto simp: allocate_handle_def\<close>)

lemma os2_inv_open:
  assumes posix: "posix_fds L fds" and inv0: "os2_inv fds F s"
  shows "os2_inv fds F (snd (snd (snd (DosOpen L name fl md s))))"
proof -
  let ?s = "init_handle_table s" and ?flags = "open_flags fl md"
  have inv: "os2_inv fds F ?s" by (rule os2_inv_init [OF inv0])
  obtain r h where o: "sys_open L name ?flags 0x1A4 (host s) = (r, h)" by fastforce
  show ?thesis
  proof (cases r)
    case (Inl err)
    have "fds h = fds (host ?s)" using posix o Inl unfolding posix_fds_def by simp
    then show ?thesis using o Inl os2_inv_host [OF inv] by (simp add: DosOpen_def on_host_def Let_def)
  next
    case (Inr fd)
    have fd: "0 \<le> fd" "fd \<notin> fds (host ?s)" "fds h = insert fd (fds (host ?s))"
      using posix o Inr unfolding posix_fds_def by simp_all
    obtain hn t where a: "allocate_handle fd (Some name) (?s\<lparr>host := h\<rparr>) = (hn, t)" by fastforce
    show ?thesis
    proof (cases "hn = -1")
      case True
      have t: "t = ?s\<lparr>host := h\<rparr>" using allocate_handle_full a True by blast
      have "fds (snd (sys_close L fd h)) = fds (host ?s)" using posix fd unfolding posix_fds_def by auto
      then show ?thesis
        using o Inr a True t os2_inv_host [OF inv, of "snd (sys_close L fd h)"]
        by (simp add: DosOpen_def on_host_def Let_def case_prod_beta)
    next
      case False
      note al = os2_inv_allocate [OF inv _ fd(3) fd(2) fd(1) a False]
      have "fds (snd (sys_fstat L fd (host t))) = fds (host t)" using posix unfolding posix_fds_def by simp
      then show ?thesis
        using o Inr a False al os2_inv_host [of fds F t]
        by (simp add: DosOpen_def on_host_def Let_def case_prod_beta)
    qed
  qed
qed

lemma os2_inv_on_host:
  assumes "os2_inv fds F s" "fds (snd (f (host s))) = fds (host s)"
  shows "os2_inv fds F (snd (on_host f s))"
  using os2_inv_host [OF assms(1) assms(2)] by (simp add: on_host_def case_prod_beta)

lemma on_host_fst: "fst (on_host f s) = fst (f (host s))"
  by (simp add: on_host_def case_prod_beta)

lemma os2_inv_close:
  assumes posix: "posix_fds L fds" and inv: "os2_inv fds F s" and ok: "\<not> close_error L (Close hn) s"
  shows "os2_inv fds F (snd (DosClose L hn s))"
proof (cases "used s (unat hn)")
  case True
  have fd: "fd_of s (unat hn) \<in> fds (host s)" and pos: "0 \<le> fd_of s (unat hn)"
    using inv True by (auto simp: os2_inv_def)
  obtain r h where c0: "sys_close L (fd_of s (unat hn)) (host s) = (r, h)" by fastforce
  have "\<not> isl r" using ok c0 True pos by (simp add: close_error_def get_linux_fd_eq)
  then have c: "sys_close L (fd_of s (unat hn)) (host s) = (Inr (), h)" using c0 by (cases r) simp_all
  have d: "fds h = fds (host s) - {fd_of s (unat hn)}"
    using posix fd c unfolding posix_fds_def by (metis snd_conv)
  then show ?thesis
    using os2_inv_free [OF inv True d] c True pos
    by (simp add: DosClose_def get_linux_fd_eq on_host_def Let_def)
qed (simp add: DosClose_def get_linux_fd_eq Let_def inv)

lemma os2_inv_call:
  assumes posix: "posix_fds L fds" and inv: "os2_inv fds F s" and ok: "\<not> close_error L c s"
  shows "os2_inv fds F (os2_do L c s)"
proof (cases c)
  case (Open name fl md)
  then show ?thesis using os2_inv_open [OF posix inv] by simp
next
  case (Close hn)
  then show ?thesis using os2_inv_close [OF posix inv] ok by simp
next
  case (Read hn n)
  have "os2_inv fds F (snd (on_host (sys_read L fd k) s))" for fd k
    using posix by (intro os2_inv_on_host inv) (simp add: posix_fds_def)
  then show ?thesis using Read inv by (auto simp: DosRead_def Let_def split: prod.splits sum.splits) (metis snd_conv)+
next
  case (Write hn bs)
  have "os2_inv fds F (snd (on_host (sys_write L fd bs) s))" for fd
    using posix by (intro os2_inv_on_host inv) (simp add: posix_fds_def)
  then show ?thesis using Write inv by (auto simp: DosWrite_os2_def Let_def split: prod.splits sum.splits) (metis snd_conv)+
next
  case (Seek hn d w)
  have "os2_inv fds F (snd (on_host (sys_lseek L fd k v) s))" for fd k v
    using posix by (intro os2_inv_on_host inv) (simp add: posix_fds_def)
  then show ?thesis using Seek inv
    by (auto simp: DosSetFilePtr_def Let_def split: prod.splits sum.splits option.splits) (metis snd_conv)+
next
  case (Delete name)
  have "os2_inv fds F (snd (on_host (sys_unlink L name) s))"
    using posix by (intro os2_inv_on_host inv) (simp add: posix_fds_def)
  then show ?thesis using Delete by (auto simp: DosDelete_def split: prod.splits sum.splits)
next
  case (Alloc n)
  have "os2_inv fds F (snd (on_host (sys_malloc L (ucast n)) s))"
    using posix by (intro os2_inv_on_host inv) (simp add: posix_fds_def)
  then show ?thesis using Alloc by (auto simp: DosAllocMem_def split: prod.splits option.splits)
qed (use posix in \<open>auto simp: DosSleep_def DosFreeMem_def posix_fds_def intro!: os2_inv_host inv\<close>)

text \<open>A host for the examples: the open descriptors and the names of the files.\<close>

definition sample_linux :: "(int list \<times> string list) linux" where
  "sample_linux =
     \<lparr>sys_open = (\<lambda>name flags mode (ds, fs).
        if flags AND O_CREAT \<noteq> 0 \<and> flags AND O_EXCL \<noteq> 0 \<and> name \<in> set fs then (Inl EEXIST, (ds, fs))
        else let fd = foldr max ds 2 + 1 in (Inr fd, (fd # ds, name # fs))),
      sys_read = (\<lambda>fd n h. (Inr [], h)),
      sys_write = (\<lambda>fd bs h. (Inr (length bs), h)),
      sys_close = (\<lambda>fd (ds, fs). if fd \<in> set ds then (Inr (), (filter (\<lambda>d. d \<noteq> fd) ds, fs)) else (Inl EBADF, (ds, fs))),
      sys_lseek = (\<lambda>fd d w h. (Inr 0, h)),
      sys_fstat = (\<lambda>fd h. (True, h)),
      sys_unlink = (\<lambda>name h. (Inl ENOENT, h)),
      sys_usleep = (\<lambda>n h. h),
      sys_malloc = (\<lambda>n h. (None, h)),
      sys_free = (\<lambda>p h. h)\<rparr>"

lemma foldr_max_upper: "(x :: int) \<in> set xs \<Longrightarrow> x \<le> foldr max xs b" "b \<le> foldr max xs b"
  by (induction xs) (auto simp: le_max_iff_disj)

lemma sample_posix: "posix_fds sample_linux (\<lambda>(ds, fs). set ds)"
proof -
  have "foldr max ds (2 :: int) + 1 \<notin> set ds" for ds using foldr_max_upper(1) [of "foldr max ds 2 + 1" ds 2] by fastforce
  moreover have "(2 :: int) \<le> foldr max ds 2" for ds by (rule foldr_max_upper(2))
  ultimately show ?thesis
    by (auto simp: posix_fds_def sample_linux_def Let_def split: if_splits) (smt (verit, best))+
qed

section \<open>Properties\<close>

text \<open>C25: In every state a program reaches through these calls, on a host with the documented descriptors
  (\<open>posix_fds\<close>) and as long as the host has reported no error for a \<open>DosClose\<close> of an open handle, two different
  handles never stand for the same file descriptor, every descriptor behind a handle is open, and none is lost: what
  is open was open before or belongs to a handle.\<close>

theorem os2_handles_distinct:
  assumes posix: "posix_fds L fds" and std: "{0, 1, 2} \<subseteq> fds h" "\<forall>fd\<in>fds h. 0 \<le> fd"
    and reach: "os2_reaches L (os2_start h) s"
  shows "(\<forall>a b. a \<noteq> b \<and> 0 \<le> get_linux_fd a s \<longrightarrow> get_linux_fd a s \<noteq> get_linux_fd b s)
       \<and> (\<forall>a. 0 \<le> get_linux_fd a s \<longrightarrow> get_linux_fd a s \<in> fds (host s))
       \<and> fds (host s) \<subseteq> fds h \<union> {get_linux_fd a s |a. 0 \<le> get_linux_fd a s}"
proof -
  have inv: "os2_inv fds (fds h) s"
    using reach
  proof (induction "os2_start h" s rule: os2_reaches.induct)
    case here
    show ?case using std by (rule os2_inv_start [of fds h])
  next
    case (call t c)
    then show ?case by (intro os2_inv_call [OF posix])
  qed
  have get: "get_linux_fd a s = fd_of s (unat a) \<and> used s (unat a)" if "0 \<le> get_linux_fd a s" for a
    using that by (simp add: get_linux_fd_eq split: if_splits)
  have all: "fd_of s i \<in> {get_linux_fd a s |a. 0 \<le> get_linux_fd a s}" if u: "used s i" for i
  proof -
    have "unat (of_nat i :: u32) = i" using u by (simp add: used_def small_handle)
    moreover have "0 \<le> fd_of s i" using inv u by (auto simp: os2_inv_def)
    ultimately show ?thesis using u by (auto simp: get_linux_fd_eq intro!: exI [of _ "of_nat i :: u32"])
  qed
  have "get_linux_fd a s \<noteq> get_linux_fd b s" if "a \<noteq> b" "0 \<le> get_linux_fd a s" for a b
  proof
    assume eq: "get_linux_fd a s = get_linux_fd b s"
    then have "unat a = unat b" using inv get [of a] get [of b] that unfolding os2_inv_def by metis
    then show False using that by (simp add: word_unat_eq_iff)
  qed
  moreover have "get_linux_fd a s \<in> fds (host s)" if "0 \<le> get_linux_fd a s" for a
    using inv get [OF that] unfolding os2_inv_def by metis
  moreover have "fds (host s) \<subseteq> fds h \<union> {get_linux_fd a s |a. 0 \<le> get_linux_fd a s}"
    using inv all unfolding os2_inv_def by blast
  ultimately show ?thesis by blast
qed

theorem os2_handles_distinct_witness:
  "\<exists>s. os2_reaches sample_linux (os2_start ([0, 1, 2], [])) s \<and> get_linux_fd 3 s = 3 \<and> get_linux_fd 3 s \<noteq> get_linux_fd 1 s"
proof -
  let ?s = "os2_do sample_linux (Open ''a'' 0x11 2) (os2_start ([0, 1, 2], []))"
  have r: "os2_reaches sample_linux (os2_start ([0, 1, 2], [])) ?s"
    by (intro os2_reaches.intros) (simp add: close_error_def)
  have pre: "{0, 1, 2} \<subseteq> (case ([0, 1, 2], []) of (ds, fs) \<Rightarrow> set (ds :: int list))"
    "\<forall>fd\<in>(case ([0, 1, 2], []) of (ds, fs) \<Rightarrow> set ds). 0 \<le> (fd :: int)" by auto
  have "get_linux_fd 3 ?s = 3" by code_simp
  moreover have "get_linux_fd 3 ?s \<noteq> get_linux_fd 1 ?s"
    using os2_handles_distinct [OF sample_posix pre r, THEN conjunct1, rule_format, of 3 1] calculation by simp
  ultimately show ?thesis using r by blast
qed

text \<open>After a \<open>DosClose\<close> that the host answers with an error, here \<open>EIO\<close>, this fails: the next \<open>DosOpen\<close> gets
  the released descriptor again, and the old handle 3 and the new handle 4 share it.\<close>

definition sample_eio :: "(int list \<times> string list) linux" where
  "sample_eio = sample_linux\<lparr>sys_close := \<lambda>fd (ds, fs). (Inl 5, (filter (\<lambda>d. d \<noteq> fd) ds, fs))\<rparr>"

lemma close_error_shares_descriptor:
  "posix_fds sample_eio (\<lambda>(ds, fs). set ds)"
  "let s = os2_do sample_eio (Open ''a'' 0x11 2) (os2_start ([0, 1, 2], []));
       t = os2_do sample_eio (Open ''b'' 0x11 2) (os2_do sample_eio (Close 3) s) in
     fst (DosClose sample_eio 3 s) \<noteq> NO_ERROR \<and> get_linux_fd 3 t = 3 \<and> get_linux_fd 4 t = 3"
proof -
  show "posix_fds sample_eio (\<lambda>(ds, fs). set ds)"
    using sample_posix by (auto simp: posix_fds_def sample_eio_def)
qed code_simp

section \<open>Opening and closing\<close>

lemma DosOpen_success:
  assumes inv0: "os2_inv fds F s" and posix: "posix_fds L fds"
    and o: "DosOpen L name fl md s = (NO_ERROR, Some hn, act, t)"
  obtains fd where "0 \<le> fd" "fd \<notin> fds (host s)" "fds (host t) = insert fd (fds (host s))"
    "get_linux_fd hn (init_handle_table s) = -1" "used t (unat hn)" "fd_of t (unat hn) = fd"
    "\<forall>i. i \<noteq> unat hn \<longrightarrow> used t i = used (init_handle_table s) i \<and> fd_of t i = fd_of (init_handle_table s) i"
    "\<forall>i. 3 \<le> i \<and> i < unat hn \<longrightarrow> used (init_handle_table s) i" "3 \<le> unat hn" "unat hn < MAX_HANDLES"
    "length (handle_table t) = MAX_HANDLES"
proof -
  let ?s = "init_handle_table s" and ?flags = "open_flags fl md"
  have inv: "os2_inv fds F ?s" by (rule os2_inv_init [OF inv0])
  have len: "length (handle_table ?s) = MAX_HANDLES" using inv by (simp add: os2_inv_def)
  obtain r h where so: "sys_open L name ?flags 0x1A4 (host s) = (r, h)" by fastforce
  have "\<exists>fd. r = Inr fd" using o so by (cases r) (simp_all add: DosOpen_def on_host_def Let_def)
  then obtain fd where r: "r = Inr fd" by blast
  have fd: "0 \<le> fd" "fd \<notin> fds (host s)" "fds h = insert fd (fds (host s))"
    using posix so r unfolding posix_fds_def by simp_all
  obtain hn' t' where a: "allocate_handle fd (Some name) (?s\<lparr>host := h\<rparr>) = (hn', t')" by fastforce
  have ne: "hn' \<noteq> -1" using o so r a
    by (auto simp: DosOpen_def on_host_def Let_def split: if_splits prod.splits)
  have hn: "hn' = hn" and t: "t = t'\<lparr>host := snd (sys_fstat L fd (host t'))\<rparr>"
    using o so r a ne by (auto simp: DosOpen_def on_host_def Let_def split: if_splits prod.splits)
  obtain k where k: "3 \<le> k" "k < MAX_HANDLES" "\<not> in_use (handle_table ?s ! k)"
      "\<forall>j. 3 \<le> j \<and> j < k \<longrightarrow> in_use (handle_table ?s ! j)" "hn = of_nat k"
    and t': "t' = ?s\<lparr>host := h, handle_table := (handle_table ?s)[k := \<lparr>linux_fd = fd, in_use = True, path = take 255 name\<rparr>]\<rparr>"
    by (rule allocate_loop_cases [of 3 "?s\<lparr>host := h\<rparr>" fd "Some name"]) (use a ne hn in \<open>auto simp: allocate_handle_def\<close>)
  have un: "unat hn = k" using k by (simp add: small_handle)
  have u: "used t i = (if i = k then True else used ?s i)" "fd_of t i = (if i = k then fd else fd_of ?s i)" for i
    using used_update [of ?s k "\<lparr>linux_fd = fd, in_use = True, path = take 255 name\<rparr>" i] len k(2)
    by (simp_all add: t t')
  have ht: "fds (host t) = fds h" using posix unfolding t t' posix_fds_def by simp
  show ?thesis
  proof (rule that [OF fd(1,2)])
    show "fds (host t) = insert fd (fds (host s))" using ht fd by simp
    show "get_linux_fd hn ?s = - 1" using k un by (simp add: get_linux_fd_eq used_def)
    show "length (handle_table t) = MAX_HANDLES" using len by (simp add: t t')
    show "used t (unat hn)" "fd_of t (unat hn) = fd" using u un by simp_all
    show "\<forall>i. i \<noteq> unat hn \<longrightarrow> used t i = used ?s i \<and> fd_of t i = fd_of ?s i" using u un by simp
    show "\<forall>i. 3 \<le> i \<and> i < unat hn \<longrightarrow> used ?s i" using k un by (simp add: used_def)
    show "3 \<le> unat hn" "unat hn < MAX_HANDLES" using k un by simp_all
  qed
qed

text \<open>A handle is good from its opening to its closing: \<open>DosOpen\<close> gives the least unused handle from 3 on and
  disturbs no other; \<open>DosClose\<close> of it succeeds, after which every handle and the open descriptors are as before.\<close>

theorem os2_open_close:
  assumes posix: "posix_fds L fds" and inv: "os2_inv fds F s"
    and o: "DosOpen L name fl md s = (NO_ERROR, Some hn, act, t)" and ok: "\<not> close_error L (Close hn) t"
  shows "0 \<le> get_linux_fd hn t \<and> get_linux_fd hn t \<notin> fds (host s)
       \<and> (\<forall>a. a \<noteq> hn \<longrightarrow> get_linux_fd a t = get_linux_fd a (init_handle_table s))
       \<and> 3 \<le> hn \<and> (\<forall>a. 3 \<le> a \<and> a < hn \<longrightarrow> 0 \<le> get_linux_fd a (init_handle_table s))
       \<and> (\<exists>u. DosClose L hn t = (NO_ERROR, u) \<and> fds (host u) = fds (host s)
            \<and> (\<forall>a. get_linux_fd a u = get_linux_fd a (init_handle_table s)))"
proof -
  obtain fd where fd: "0 \<le> fd" "fd \<notin> fds (host s)" "fds (host t) = insert fd (fds (host s))"
    and free: "get_linux_fd hn (init_handle_table s) = -1" and used: "used t (unat hn)" "fd_of t (unat hn) = fd"
    and other: "\<forall>i. i \<noteq> unat hn \<longrightarrow> used t i = used (init_handle_table s) i \<and> fd_of t i = fd_of (init_handle_table s) i"
    and least: "\<forall>i. 3 \<le> i \<and> i < unat hn \<longrightarrow> used (init_handle_table s) i" "3 \<le> unat hn" "unat hn < MAX_HANDLES"
    and len: "length (handle_table t) = MAX_HANDLES"
    by (rule DosOpen_success [OF inv posix o])
  have g: "get_linux_fd hn t = fd" using used by (simp add: get_linux_fd_eq)
  have go: "get_linux_fd a t = get_linux_fd a (init_handle_table s)" if "a \<noteq> hn" for a
    using other [rule_format, of "unat a"] that by (simp add: get_linux_fd_eq word_unat_eq_iff)
  have inv1: "os2_inv fds F (init_handle_table s)" by (rule os2_inv_init [OF inv])
  have low: "0 \<le> get_linux_fd a (init_handle_table s)" if "3 \<le> a" "a < hn" for a
  proof -
    have "used (init_handle_table s) (unat a)" using least(1) that by (simp add: word_le_nat_alt word_less_nat_alt)
    then show ?thesis using inv1 unfolding os2_inv_def get_linux_fd_eq by auto
  qed
  obtain r h where c0: "sys_close L fd (host t) = (r, h)" by fastforce
  have "\<not> isl r" using ok c0 g fd(1) by (simp add: close_error_def)
  then have c1: "sys_close L fd (host t) = (Inr (), h)" using c0 by (cases r) simp_all
  have c: "sys_close L fd (host t) = (Inr (), h)" "fds h = fds (host t) - {fd}"
    using c1 posix fd(3) unfolding posix_fds_def by (simp, metis insertI1 snd_conv)
  let ?u = "free_handle hn (t\<lparr>host := h\<rparr>)"
  have cl: "DosClose L hn t = (NO_ERROR, ?u)" using c g fd(1) by (simp add: DosClose_def on_host_def Let_def)
  have f: "?u = t\<lparr>host := h, handle_table := (handle_table t)[unat hn := \<lparr>linux_fd = -1, in_use = False, path = []\<rparr>]\<rparr>"
    using used by (simp add: free_handle_def used_def)
  have gu: "get_linux_fd a ?u = get_linux_fd a (init_handle_table s)" for a
    using used_update [of t "unat hn" "\<lparr>linux_fd = -1, in_use = False, path = []\<rparr>" "unat a"] len least(3) free go [of a]
    by (cases "a = hn") (simp_all add: f get_linux_fd_eq word_unat_eq_iff split: if_splits)
  have "fds (host ?u) = fds (host s)" using c(2) fd by (simp add: f)
  then have "\<exists>u. DosClose L hn t = (NO_ERROR, u) \<and> fds (host u) = fds (host s)
            \<and> (\<forall>a. get_linux_fd a u = get_linux_fd a (init_handle_table s))" using cl gu by blast
  moreover have "3 \<le> hn" using least(2) by (simp add: word_le_nat_alt)
  ultimately show ?thesis using g go fd(1,2) low by simp
qed

theorem os2_open_close_witness:
  "\<exists>t act. DosOpen sample_linux ''a'' 0x11 2 (os2_start ([0, 1, 2], [])) = (NO_ERROR, Some 3, act, t)
         \<and> get_linux_fd 3 t = 3 \<and> fst (DosClose sample_linux 3 t) = NO_ERROR"
proof -
  let ?s = "os2_start ([0, 1, 2], []) :: (int list \<times> string list) os2"
  have inv: "os2_inv (\<lambda>(ds, fs). set ds) ({0, 1, 2}) ?s"
    using os2_inv_start [of "\<lambda>(ds, fs). set ds" "([0, 1, 2], []) :: int list \<times> string list"] by auto
  let ?r = "DosOpen sample_linux ''a'' 0x11 2 ?s"
  have o: "?r = (NO_ERROR, Some 3, fst (snd (snd ?r)), snd (snd (snd ?r)))" by code_simp
  have "get_linux_fd 3 (snd (snd (snd ?r))) = 3" by code_simp
  have ok: "\<not> close_error sample_linux (Close 3) (snd (snd (snd ?r)))" by code_simp
  have "get_linux_fd 3 (snd (snd (snd ?r))) = 3" by code_simp
  moreover have "fst (DosClose sample_linux 3 (snd (snd (snd ?r)))) = NO_ERROR"
    using os2_open_close [OF sample_posix inv o ok] by (metis fst_conv)
  ultimately show ?thesis using o by blast
qed

section \<open>Capacity\<close>

fun open_all :: "'h linux \<Rightarrow> u32 \<Rightarrow> u32 \<Rightarrow> string list \<Rightarrow> 'h os2 \<Rightarrow> (u32 \<times> u32 option) list" where
  "open_all L fl md [] s = []"
| "open_all L fl md (name # names) s =
     (case DosOpen L name fl md s of (rc, hn, act, t) \<Rightarrow> (rc, hn) # open_all L fl md names t)"

text \<open>The first \<open>m\<close> handles from 3 on are taken.\<close>

definition filled :: "nat \<Rightarrow> 'h os2 \<Rightarrow> bool" where
  "filled m s \<longleftrightarrow> length (handle_table s) = MAX_HANDLES \<and> handle_table_initialized s
     \<and> (\<forall>i<MAX_HANDLES. in_use (handle_table s ! i) \<longleftrightarrow> i < m + 3)"

lemma filled_host [simp]: "filled m (s\<lparr>host := h\<rparr>) = filled m s"
  by (simp add: filled_def)

lemma filled_allocate:
  assumes "filled m s" "m \<le> 253"
  shows "if m < 253 then \<exists>t. allocate_handle fd p s = (of_nat (m + 3), t) \<and> filled (m + 1) t
         else allocate_handle fd p s = (-1, s)"
proof (rule allocate_loop_cases [of 3 s fd p])
  fix k assume k: "3 \<le> k" "k < MAX_HANDLES" "\<not> in_use (handle_table s ! k)"
    "\<forall>j. 3 \<le> j \<and> j < k \<longrightarrow> in_use (handle_table s ! j)"
    and eq: "allocate_loop 3 fd p s = (of_nat k, s\<lparr>handle_table := (handle_table s)[k :=
         \<lparr>linux_fd = fd, in_use = True, path = take 255 (case p of Some q \<Rightarrow> q | None \<Rightarrow> [])\<rparr>]\<rparr>)"
  have ge: "m + 3 \<le> k" using assms(1) k(2,3) by (simp add: filled_def)
  moreover have "\<not> m + 3 < k"
  proof
    assume "m + 3 < k"
    then have "in_use (handle_table s ! (m + 3))" using k(4) by simp
    then show False using assms(1) \<open>m + 3 < k\<close> k(2) by (simp add: filled_def)
  qed
  ultimately have "k = m + 3" by simp
  moreover have "m < 253" using ge k(2) by (simp add: MAX_HANDLES_def)
  ultimately show ?thesis using assms(1) eq k(2) by (auto simp: allocate_handle_def filled_def nth_list_update)
next
  assume full: "\<forall>j. 3 \<le> j \<and> j < MAX_HANDLES \<longrightarrow> in_use (handle_table s ! j)" "allocate_loop 3 fd p s = (- 1, s)"
  have "\<not> m < 253"
  proof
    assume "m < 253"
    then have "m + 3 < MAX_HANDLES" by (simp add: MAX_HANDLES_def)
    then show False using full(1) [rule_format, of "m + 3"] assms(1) by (simp add: filled_def)
  qed
  then show ?thesis using full(2) by (simp add: allocate_handle_def)
qed

lemma filled_open:
  assumes opens: "\<forall>name flags h. \<not> isl (fst (sys_open L name flags 0x1A4 h))"
    and f: "filled m (init_handle_table s)" "m \<le> 253"
  shows "\<exists>act t. DosOpen L name fl md s =
           (if m < 253 then (NO_ERROR, Some (of_nat (m + 3)), act, t) else (ERROR_TOO_MANY_OPEN_FILES, None, act, t))
         \<and> filled (if m < 253 then m + 1 else m) t"
proof -
  let ?s = "init_handle_table s"
  obtain r h where o: "sys_open L name (open_flags fl md) 0x1A4 (host s) = (r, h)" by fastforce
  moreover have "\<not> isl r" using opens [rule_format, of name "open_flags fl md" "host s"] o by simp
  ultimately obtain fd where o: "sys_open L name (open_flags fl md) 0x1A4 (host s) = (Inr fd, h)" by (cases r) auto
  have fh: "filled m (?s\<lparr>host := h\<rparr>)" using f by simp
  show ?thesis
  proof (cases "m < 253")
    case True
    then obtain t where a: "allocate_handle fd (Some name) (?s\<lparr>host := h\<rparr>) = (of_nat (m + 3), t)" "filled (m + 1) t"
      using filled_allocate [OF fh f(2), of fd "Some name"] by auto
    have "(of_nat (m + 3) :: u32) \<noteq> -1" by (rule small_handle(2)) (use True in \<open>simp add: MAX_HANDLES_def\<close>)
    then show ?thesis using o a True by (simp add: DosOpen_def on_host_def Let_def case_prod_beta)
  next
    case False
    then have "allocate_handle fd (Some name) (?s\<lparr>host := h\<rparr>) = (-1, ?s\<lparr>host := h\<rparr>)"
      using filled_allocate [OF fh f(2), of fd "Some name"] by simp
    then show ?thesis using o False f(1) by (simp add: DosOpen_def on_host_def Let_def case_prod_beta)
  qed
qed

lemma open_all_filled:
  assumes opens: "\<forall>name flags h. \<not> isl (fst (sys_open L name flags 0x1A4 h))"
  shows "filled m (init_handle_table s) \<Longrightarrow> m \<le> 253 \<Longrightarrow>
         open_all L fl md names s =
           map (\<lambda>i. if m + i < 253 then (NO_ERROR, Some (of_nat (m + i + 3))) else (ERROR_TOO_MANY_OPEN_FILES, None))
             [0..<length names]"
proof (induction names arbitrary: m s)
  case (Cons name names)
  obtain act t where o: "DosOpen L name fl md s =
           (if m < 253 then (NO_ERROR, Some (of_nat (m + 3)), act, t) else (ERROR_TOO_MANY_OPEN_FILES, None, act, t))"
    and t: "filled (if m < 253 then m + 1 else m) t"
    using filled_open [OF opens Cons.prems] by blast
  have it: "init_handle_table t = t" using t by (simp add: filled_def init_handle_table_again)
  have up: "map f [0..<length (name # names)] = f 0 # map (\<lambda>i. f (Suc i)) [0..<length names]"
    for f :: "nat \<Rightarrow> u32 \<times> u32 option"
    by (simp only: length_Cons upt_conv_Cons map_Suc_upt [symmetric] list.map list.map_comp zero_less_Suc o_def)
  show ?case
  proof (cases "m < 253")
    case True
    then have "open_all L fl md names t =
        map (\<lambda>i. if m + 1 + i < 253 then (NO_ERROR, Some (of_nat (m + 1 + i + 3))) else (ERROR_TOO_MANY_OPEN_FILES, None))
          [0..<length names]"
      using Cons.IH [of "m + 1" t] t it by simp
    then show ?thesis using o True unfolding up by (simp add: algebra_simps)
  next
    case False
    then have "open_all L fl md names t =
        map (\<lambda>i. if m + i < 253 then (NO_ERROR, Some (of_nat (m + i + 3))) else (ERROR_TOO_MANY_OPEN_FILES, None))
          [0..<length names]"
      using Cons.IH [of m t] t it Cons.prems(2) by simp
    then show ?thesis using o False unfolding up by simp
  qed
qed simp

text \<open>C26: While the host can open files, a program gets exactly 253 of them, with the handles 3 to 255 in order; every
  further \<open>DosOpen\<close> reports too many open files.\<close>

theorem os2_capacity:
  assumes "\<forall>name flags h. \<not> isl (fst (sys_open L name flags 0x1A4 h))"
  shows "open_all L fl md names (os2_start h) =
           map (\<lambda>i. if i < 253 then (NO_ERROR, Some (of_nat (i + 3))) else (ERROR_TOO_MANY_OPEN_FILES, None))
             [0..<length names]"
proof -
  have "filled 0 (init_handle_table (os2_start h))"
    by (subst init_handle_table_fresh) (auto simp: filled_def os2_start_def standard_entry_def MAX_HANDLES_def)
  then show ?thesis using open_all_filled [OF assms, of 0 "os2_start h" fl md names] by simp
qed

theorem os2_capacity_witness:
  "open_all (sample_linux\<lparr>sys_open := \<lambda>name flags mode h. (Inr 7, h)\<rparr>) 1 0 [''a'', ''b''] (os2_start ([], []))
     = [(NO_ERROR, Some 3), (NO_ERROR, Some 4)]"
proof -
  have "\<forall>name flags h. \<not> isl (fst (sys_open (sample_linux\<lparr>sys_open := \<lambda>name flags mode h. (Inr 7, h)\<rparr>) name flags 0x1A4 h))"
    by simp
  from os2_capacity [OF this, of 1 0 "[''a'', ''b'']"] show ?thesis by (simp add: upt_rec)
qed

section \<open>Replacing a file\<close>

text \<open>Asked to replace the file when it exists and to create it when not, \<open>DosOpen\<close> refuses an existing file: it
  adds the flag for exclusive creation unless the program also asks to open existing files. The file stays as it
  is and the program sees an invalid function.\<close>

theorem dos_open_replace:
  assumes excl: "\<forall>name flags mode h. name \<in> files h \<and> flags AND O_CREAT \<noteq> 0 \<and> flags AND O_EXCL \<noteq> 0 \<longrightarrow>
                   sys_open L name flags mode h = (Inl EEXIST, h)"
    and exists: "name \<in> files (host s)"
    and action: "fl AND (OPEN_ACTION_OPEN_IF_EXISTS OR OPEN_ACTION_REPLACE_IF_EXISTS OR OPEN_ACTION_CREATE_IF_NEW)
                   = OPEN_ACTION_REPLACE_IF_EXISTS OR OPEN_ACTION_CREATE_IF_NEW"
  shows "DosOpen L name fl md s = (ERROR_INVALID_FUNCTION, None, None, init_handle_table s)"
proof -
  let ?flags = "open_flags fl md"
  have a: "fl AND 0x13 = 0x12" using action by (simp add: OPEN_ACTION_OPEN_IF_EXISTS_def
    OPEN_ACTION_REPLACE_IF_EXISTS_def OPEN_ACTION_CREATE_IF_NEW_def)
  have "(fl AND 0xFF) AND 0x10 = (fl AND 0x13) AND 0x10" "(fl AND 0xFF) AND 0x01 = (fl AND 0x13) AND 0x01"
    by (simp_all add: and.assoc)
  then have c: "(fl AND 0xFF) AND OPEN_ACTION_CREATE_IF_NEW \<noteq> 0" and e: "(fl AND 0xFF) AND OPEN_ACTION_OPEN_IF_EXISTS = 0"
    unfolding a OPEN_ACTION_OPEN_IF_EXISTS_def OPEN_ACTION_CREATE_IF_NEW_def by simp_all
  have "bit ?flags 6" "bit ?flags 7"
    using c e by (simp_all add: open_flags_def Let_def O_CREAT_def O_EXCL_def bit_or_iff)
  then have "bit (?flags AND O_CREAT) 6" "bit (?flags AND O_EXCL) 7"
    by (simp_all add: O_CREAT_def O_EXCL_def bit_and_iff)
  then have f: "?flags AND O_CREAT \<noteq> 0" "?flags AND O_EXCL \<noteq> 0" by (metis bit_0_eq bot_apply bot_bool_def)+
  have "sys_open L name ?flags 0x1A4 (host s) = (Inl EEXIST, host s)" using excl exists f by blast
  then show ?thesis
    by (simp add: DosOpen_def on_host_def Let_def errno_to_os2_def EEXIST_def ENOENT_def EACCES_def EINVAL_def
        EMFILE_def ENOMEM_def EBADF_def)
qed

theorem dos_open_replace_witness:
  "fst (DosOpen sample_linux ''a'' 0x12 2 (os2_start ([], [''a'']))) = ERROR_INVALID_FUNCTION"
proof -
  have "\<forall>name flags mode h. name \<in> set (snd h) \<and> flags AND O_CREAT \<noteq> 0 \<and> flags AND O_EXCL \<noteq> 0 \<longrightarrow>
          sys_open sample_linux name flags mode h = (Inl EEXIST, h)"
    by (auto simp: sample_linux_def)
  from dos_open_replace [OF this, where name = "''a''" and s = "os2_start ([], [''a''])" and fl = "0x12" and md = "2"] show ?thesis
    by (simp add: os2_start_def OPEN_ACTION_OPEN_IF_EXISTS_def OPEN_ACTION_REPLACE_IF_EXISTS_def OPEN_ACTION_CREATE_IF_NEW_def)
qed

section \<open>Before the first \<open>DosOpen\<close>\<close>

text \<open>The table is set up by \<open>DosOpen\<close> only: until then even the standard handles are refused.\<close>

lemma standard_handles_refused:
  "DosWrite_os2 L hn bs (os2_start h) = (ERROR_INVALID_HANDLE, None, os2_start h)"
  by (auto simp: DosWrite_os2_def get_linux_fd_def os2_start_def)

end
