(* ===== verification/Os2_Api.thy ===== *)
theory Os2_Api
  imports Os2_Emulator
begin

text \<open>
  The OS/2 calls built into the second loader, \<open>OS2_Wrapper/os2_with_api.c\<close>, over the state and the host of the emulation
  layer. The file repeats the calls of \<open>os2_emulator.c\<close>, shortened; they are defined here from its own text. It differs in the
  action \<open>DosOpen\<close> reports, in the path a closed handle keeps, and in two more calls.
\<close>

section \<open>Handles and error codes\<close>

definition init_handle_table_api :: "'h os2 \<Rightarrow> 'h os2" where
  "init_handle_table_api s =
     (if handle_table_initialized s then s
      else let t0 = fold (\<lambda>i t. t[i := \<lparr>linux_fd = -1, in_use = False, path = []\<rparr>]) [0..<MAX_HANDLES] (handle_table s);
               t1 = t0[0 := (t0 ! 0)\<lparr>linux_fd := 0, in_use := True\<rparr>];
               t2 = t1[1 := (t1 ! 1)\<lparr>linux_fd := 1, in_use := True\<rparr>];
               t3 = t2[2 := (t2 ! 2)\<lparr>linux_fd := 2, in_use := True\<rparr>]
           in s\<lparr>handle_table := t3, handle_table_initialized := True\<rparr>)"

text \<open>The loop returns at the first unused entry.\<close>

definition allocate_handle_api :: "int \<Rightarrow> string option \<Rightarrow> 'h os2 \<Rightarrow> u32 \<times> 'h os2" where
  "allocate_handle_api fd p s =
     (case find (\<lambda>i. \<not> in_use (handle_table s ! i)) [3..<MAX_HANDLES] of
        Some i \<Rightarrow> (of_nat i, s\<lparr>handle_table := (handle_table s)[i :=
          \<lparr>linux_fd = fd, in_use = True, path = take 255 (case p of Some q \<Rightarrow> q | None \<Rightarrow> [])\<rparr>]\<rparr>)
      | None \<Rightarrow> (-1, s))"

definition get_linux_fd_api :: "u32 \<Rightarrow> 'h os2 \<Rightarrow> int" where
  "get_linux_fd_api handle s =
     (if unat handle \<ge> MAX_HANDLES \<or> \<not> in_use (handle_table s ! unat handle) then -1
      else linux_fd (handle_table s ! unat handle))"

definition free_handle_api :: "u32 \<Rightarrow> 'h os2 \<Rightarrow> 'h os2" where
  "free_handle_api handle s =
     (if unat handle < MAX_HANDLES \<and> in_use (handle_table s ! unat handle)
      then s\<lparr>handle_table := (handle_table s)[unat handle :=
             (handle_table s ! unat handle)\<lparr>in_use := False, linux_fd := -1\<rparr>]\<rparr>
      else s)"

definition errno_to_os2_api :: "int \<Rightarrow> u32" where
  "errno_to_os2_api err =
     (if err = 0 then NO_ERROR
      else if err = ENOENT then ERROR_FILE_NOT_FOUND
      else if err = EACCES then ERROR_ACCESS_DENIED
      else if err = EINVAL then ERROR_INVALID_PARAMETER
      else if err = EMFILE then ERROR_TOO_MANY_OPEN_FILES
      else if err = ENOMEM then ERROR_NOT_ENOUGH_MEMORY
      else if err = EBADF then ERROR_INVALID_HANDLE
      else ERROR_INVALID_FUNCTION)"

section \<open>The calls\<close>

definition open_flags_api :: "u32 \<Rightarrow> u32 \<Rightarrow> u32" where
  "open_flags_api ulOpenFlags ulOpenMode =
     (let access = ulOpenMode AND 0x0003;
          f0 = (if access = OPEN_ACCESS_READONLY then O_RDONLY
                else if access = OPEN_ACCESS_WRITEONLY then O_WRONLY
                else if access = OPEN_ACCESS_READWRITE then O_RDWR
                else 0);
          open_action = ulOpenFlags AND 0x00FF;
          f1 = (if open_action AND OPEN_ACTION_CREATE_IF_NEW \<noteq> 0
                then let f = f0 OR O_CREAT in if open_action AND OPEN_ACTION_OPEN_IF_EXISTS = 0 then f OR O_EXCL else f
                else f0)
      in if open_action AND OPEN_ACTION_REPLACE_IF_EXISTS \<noteq> 0 then f1 OR O_TRUNC else f1)"

definition DosOpen_api ::
  "('h, 'm) linux_scheme \<Rightarrow> string \<Rightarrow> u32 \<Rightarrow> u32 \<Rightarrow> 'h os2 \<Rightarrow> u32 \<times> u32 option \<times> u32 option \<times> 'h os2" where
  "DosOpen_api L name ulOpenFlags ulOpenMode s =
     (let s0 = init_handle_table_api s; flags = open_flags_api ulOpenFlags ulOpenMode
      in case on_host (sys_open L name flags 0x1A4) s0 of
           (Inl err, s1) \<Rightarrow> (errno_to_os2_api err, None, None, s1)
         | (Inr fd, s1) \<Rightarrow>
             (case allocate_handle_api fd (Some name) s1 of (os2_handle, s2) \<Rightarrow>
                if os2_handle = -1
                then (ERROR_TOO_MANY_OPEN_FILES, None, None, snd (on_host (sys_close L fd) s2))
                else (NO_ERROR, Some os2_handle,
                      Some (if flags AND O_CREAT \<noteq> 0 then FILE_CREATED else FILE_EXISTED), s2)))"

definition DosRead_api :: "('h, 'm) linux_scheme \<Rightarrow> u32 \<Rightarrow> u32 \<Rightarrow> 'h os2 \<Rightarrow> u32 \<times> u8 list \<times> u32 option \<times> 'h os2" where
  "DosRead_api L hFile ulLength s =
     (let fd = get_linux_fd_api hFile s
      in if fd < 0 then (ERROR_INVALID_HANDLE, [], None, s)
         else case on_host (sys_read L fd (unat ulLength)) s of
             (Inl err, s1) \<Rightarrow> (errno_to_os2_api err, [], Some 0, s1)
           | (Inr bytes, s1) \<Rightarrow> (NO_ERROR, bytes, Some (of_nat (length bytes)), s1))"

definition DosWrite_api :: "('h, 'm) linux_scheme \<Rightarrow> u32 \<Rightarrow> u8 list \<Rightarrow> 'h os2 \<Rightarrow> u32 \<times> u32 option \<times> 'h os2" where
  "DosWrite_api L hFile buffer s =
     (let fd = get_linux_fd_api hFile s
      in if fd < 0 then (ERROR_INVALID_HANDLE, None, s)
         else case on_host (sys_write L fd buffer) s of
             (Inl err, s1) \<Rightarrow> (errno_to_os2_api err, Some 0, s1)
           | (Inr bytes, s1) \<Rightarrow> (NO_ERROR, Some (of_nat bytes), s1))"

definition DosClose_api :: "('h, 'm) linux_scheme \<Rightarrow> u32 \<Rightarrow> 'h os2 \<Rightarrow> u32 \<times> 'h os2" where
  "DosClose_api L hFile s =
     (let fd = get_linux_fd_api hFile s
      in if fd < 0 then (ERROR_INVALID_HANDLE, s)
         else case on_host (sys_close L fd) s of
             (Inl err, s1) \<Rightarrow> (errno_to_os2_api err, s1)
           | (Inr _, s1) \<Rightarrow> (NO_ERROR, free_handle_api hFile s1))"

definition DosSetFilePtr_api :: "('h, 'm) linux_scheme \<Rightarrow> u32 \<Rightarrow> u32 \<Rightarrow> u32 \<Rightarrow> 'h os2 \<Rightarrow> u32 \<times> u32 option \<times> 'h os2" where
  "DosSetFilePtr_api L hFile lOffset ulOrigin s =
     (let fd = get_linux_fd_api hFile s
      in if fd < 0 then (ERROR_INVALID_HANDLE, None, s)
         else
           let seek = (\<lambda>whence. case on_host (sys_lseek L fd (sint lOffset) whence) s of
                          (Inl err, s1) \<Rightarrow> (errno_to_os2_api err, None, s1)
                        | (Inr new_pos, s1) \<Rightarrow> (NO_ERROR, Some (of_int new_pos), s1))
           in if ulOrigin = FILE_BEGIN then seek SEEK_SET
              else if ulOrigin = FILE_CURRENT then seek SEEK_CUR
              else if ulOrigin = FILE_END then seek SEEK_END
              else (ERROR_INVALID_PARAMETER, None, s))"

definition DosDelete_api :: "('h, 'm) linux_scheme \<Rightarrow> string \<Rightarrow> 'h os2 \<Rightarrow> u32 \<times> 'h os2" where
  "DosDelete_api L name s =
     (case on_host (sys_unlink L name) s of
        (Inl err, s1) \<Rightarrow> (errno_to_os2_api err, s1)
      | (Inr _, s1) \<Rightarrow> (NO_ERROR, s1))"

text \<open>The argument of \<open>exit\<close>.\<close>

definition DosExit_api :: "u32 \<Rightarrow> u32 \<Rightarrow> int" where
  "DosExit_api ulAction ulResult = sint ulResult"

definition DosSleep_api :: "('h, 'm) linux_scheme \<Rightarrow> u32 \<Rightarrow> 'h os2 \<Rightarrow> u32 \<times> 'h os2" where
  "DosSleep_api L ulMilliseconds s = (NO_ERROR, s\<lparr>host := sys_usleep L (ulMilliseconds * 1000) (host s)\<rparr>)"

definition DosAllocMem_api :: "('h, 'm) linux_scheme \<Rightarrow> u32 \<Rightarrow> 'h os2 \<Rightarrow> u32 \<times> u64 option \<times> 'h os2" where
  "DosAllocMem_api L ulSize s =
     (case on_host (sys_malloc L (ucast ulSize)) s of
        (None, s1) \<Rightarrow> (ERROR_NOT_ENOUGH_MEMORY, None, s1)
      | (Some mem, s1) \<Rightarrow> (NO_ERROR, Some mem, s1))"

definition DosFreeMem_api :: "('h, 'm) linux_scheme \<Rightarrow> u64 \<Rightarrow> 'h os2 \<Rightarrow> u32 \<times> 'h os2" where
  "DosFreeMem_api L pBaseAddress s = (NO_ERROR, s\<lparr>host := sys_free L pBaseAddress (host s)\<rparr>)"

text \<open>The message length, when the caller asks for it.\<close>

definition DosGetMessage :: "bool \<Rightarrow> u32 \<times> u32 option" where
  "DosGetMessage wants_length = (NO_ERROR, if wants_length then Some 0 else None)"

definition DosPutMessage :: "('h, 'm) linux_scheme \<Rightarrow> u32 \<Rightarrow> u8 list \<Rightarrow> 'h os2 \<Rightarrow> u32 \<times> 'h os2" where
  "DosPutMessage L hFile buffer s = (case DosWrite_api L hFile buffer s of (rc, written, s1) \<Rightarrow> (rc, s1))"

section \<open>The repeated helpers\<close>

text \<open>The loop over the table finds the entry the recursion of the emulation layer finds.\<close>

lemma allocate_loop_find:
  "allocate_loop i fd p s =
     (case find (\<lambda>i. \<not> in_use (handle_table s ! i)) [i..<MAX_HANDLES] of
        Some i \<Rightarrow> (of_nat i, s\<lparr>handle_table := (handle_table s)[i :=
          \<lparr>linux_fd = fd, in_use = True, path = take 255 (case p of Some q \<Rightarrow> q | None \<Rightarrow> [])\<rparr>]\<rparr>)
      | None \<Rightarrow> (-1, s))"
proof (induction i fd p s rule: allocate_loop.induct)
  case (1 i fd p s)
  then show ?case by (subst allocate_loop.simps) (simp add: upt_conv_Cons)
qed

lemma allocate_handle_same: "allocate_handle_api = allocate_handle"
  by (intro ext) (simp add: allocate_handle_api_def allocate_handle_def allocate_loop_find)

lemma helpers_same:
  "init_handle_table_api = init_handle_table" "get_linux_fd_api = get_linux_fd" "errno_to_os2_api = errno_to_os2"
  "open_flags_api = open_flags"
  by (intro ext, simp add: init_handle_table_api_def init_handle_table_def get_linux_fd_api_def get_linux_fd_def errno_to_os2_api_def
    errno_to_os2_def open_flags_api_def open_flags_def Let_def or.assoc)+

end
