(* ===== verification/Os2_Loader.thy ===== *)
theory Os2_Loader
  imports Os2_Api "HOL-Library.Char_ord"
begin

text \<open>
  The loaders for OS/2 LE and LX executables: \<open>OS2_Wrapper/os2_loader.c\<close> and its successor with the calls built
  in, \<open>OS2_Wrapper/os2_with_api.c\<close>. The file is a list of bytes; the headers are read from it where the C code
  has structures laid over the buffer, and a read past its end is \<open>None\<close>, as is a fault in a mapped object. What is
  mapped is part of the loaded object: its protection and its bytes. The messages are left out, but what is read
  to print them is not. The memory of the loader's own structures is not tracked.
\<close>

section \<open>Host calls of the loaders\<close>

record 'h loader_host = "'h linux" +
  sys_mmap :: "u64 \<Rightarrow> u32 \<Rightarrow> 'h \<Rightarrow> u64 option \<times> 'h"
  sys_mprotect :: "u64 \<Rightarrow> u64 \<Rightarrow> u32 \<Rightarrow> 'h \<Rightarrow> bool \<times> 'h"
  sys_munmap :: "u64 \<Rightarrow> u64 \<Rightarrow> 'h \<Rightarrow> 'h"

definition PROT_NONE :: u32 where "PROT_NONE = 0"
definition PROT_READ :: u32 where "PROT_READ = 1"
definition PROT_WRITE :: u32 where "PROT_WRITE = 2"
definition PROT_EXEC :: u32 where "PROT_EXEC = 4"

definition OBJREADABLE :: u32 where "OBJREADABLE = 0x0001"
definition OBJWRITEABLE :: u32 where "OBJWRITEABLE = 0x0002"
definition OBJEXECUTABLE :: u32 where "OBJEXECUTABLE = 0x0004"

section \<open>The executable\<close>

definition byte_at :: "u8 list \<Rightarrow> nat \<Rightarrow> u8 option" where
  "byte_at d i = (if i < length d then Some (d ! i) else None)"

definition le16 :: "u8 list \<Rightarrow> nat \<Rightarrow> u16 option" where
  "le16 d i = (if i + 2 \<le> length d then Some (ucast (d ! i) OR push_bit 8 (ucast (d ! (i + 1)))) else None)"

definition le32 :: "u8 list \<Rightarrow> nat \<Rightarrow> u32 option" where
  "le32 d i =
     (if i + 4 \<le> length d
      then Some (ucast (d ! i) OR push_bit 8 (ucast (d ! (i + 1))) OR push_bit 16 (ucast (d ! (i + 2)))
                 OR push_bit 24 (ucast (d ! (i + 3))))
      else None)"

text \<open>An object in memory; \<open>obj_prot\<close> and \<open>obj_mem\<close> are the mapping behind its base.\<close>

record loaded_object =
  obj_base :: u64
  obj_size :: u64
  obj_flags :: u32
  obj_prot :: u32
  obj_mem :: "u8 list"

record os2_exe =
  file_data :: "u8 list"
  exe_objects :: nat
  loaded_objects :: "loaded_object list"
  entry_point :: u64
  le_offset :: u32

definition header32 :: "nat \<Rightarrow> os2_exe \<Rightarrow> u32 option" where
  "header32 k exe = le32 (file_data exe) (unat (le_offset exe) + k)"

text \<open>The fields of the header the loaders use, at their places in the packed structure.\<close>

definition eip_object :: "os2_exe \<Rightarrow> u32 option" where "eip_object = header32 24"
definition eip :: "os2_exe \<Rightarrow> u32 option" where "eip = header32 28"
definition page_size :: "os2_exe \<Rightarrow> u32 option" where "page_size = header32 40"
definition fixup_size :: "os2_exe \<Rightarrow> u32 option" where "fixup_size = header32 48"
definition object_table_offset :: "os2_exe \<Rightarrow> u32 option" where "object_table_offset = header32 64"
definition object_count :: "os2_exe \<Rightarrow> u32 option" where "object_count = header32 68"
definition fixup_page_table_offset :: "os2_exe \<Rightarrow> u32 option" where "fixup_page_table_offset = header32 104"
definition fixup_record_table_offset :: "os2_exe \<Rightarrow> u32 option" where "fixup_record_table_offset = header32 108"
definition imported_modules_offset :: "os2_exe \<Rightarrow> u32 option" where "imported_modules_offset = header32 112"
definition imported_modules_count :: "os2_exe \<Rightarrow> u32 option" where "imported_modules_count = header32 116"
definition data_pages_offset :: "os2_exe \<Rightarrow> u32 option" where "data_pages_offset = header32 128"

text \<open>The entries of the object table, 24 bytes each.\<close>

definition virtual_size :: "os2_exe \<Rightarrow> nat \<Rightarrow> u32 option" where
  "virtual_size exe i = le32 (file_data exe) (exe_objects exe + 24 * i)"

definition reloc_base_addr :: "os2_exe \<Rightarrow> nat \<Rightarrow> u32 option" where
  "reloc_base_addr exe i = le32 (file_data exe) (exe_objects exe + 24 * i + 4)"

definition object_flags :: "os2_exe \<Rightarrow> nat \<Rightarrow> u32 option" where
  "object_flags exe i = le32 (file_data exe) (exe_objects exe + 24 * i + 8)"

definition page_table_index :: "os2_exe \<Rightarrow> nat \<Rightarrow> u32 option" where
  "page_table_index exe i = le32 (file_data exe) (exe_objects exe + 24 * i + 12)"

definition page_table_entries :: "os2_exe \<Rightarrow> nat \<Rightarrow> u32 option" where
  "page_table_entries exe i = le32 (file_data exe) (exe_objects exe + 24 * i + 16)"

section \<open>Reading and parsing\<close>

definition read_file :: "('h, 'm) linux_scheme \<Rightarrow> string \<Rightarrow> 'h \<Rightarrow> u8 list option \<times> 'h" where
  "read_file L filename h0 =
     (case sys_open L filename O_RDONLY 0 h0 of
        (Inl _, h1) \<Rightarrow> (None, h1)
      | (Inr fd, h1) \<Rightarrow>
          (case sys_lseek L fd 0 SEEK_END h1 of
             (Inl _, h2) \<Rightarrow> (None, snd (sys_close L fd h2))
           | (Inr len, h2) \<Rightarrow>
               (let h3 = snd (sys_lseek L fd 0 SEEK_SET h2)
                in case sys_malloc L (of_int len) h3 of
                     (None, h4) \<Rightarrow> (None, snd (sys_close L fd h4))
                   | (Some data, h4) \<Rightarrow>
                       (case sys_read L fd (nat len) h4 of
                          (Inl _, h5) \<Rightarrow> (None, snd (sys_close L fd (sys_free L data h5)))
                        | (Inr bytes, h5) \<Rightarrow>
                            if int (length bytes) \<noteq> len
                            then (None, snd (sys_close L fd (sys_free L data h5)))
                            else (Some bytes, snd (sys_close L fd h5))))))"

text \<open>The other loader tests the allocation and the reading at once; freeing the null pointer does nothing.\<close>

definition read_file_api :: "('h, 'm) linux_scheme \<Rightarrow> string \<Rightarrow> 'h \<Rightarrow> u8 list option \<times> 'h" where
  "read_file_api L filename h0 =
     (case sys_open L filename O_RDONLY 0 h0 of
        (Inl _, h1) \<Rightarrow> (None, h1)
      | (Inr fd, h1) \<Rightarrow>
          (case sys_lseek L fd 0 SEEK_END h1 of
             (Inl _, h2) \<Rightarrow> (None, snd (sys_close L fd h2))
           | (Inr len, h2) \<Rightarrow>
               (let h3 = snd (sys_lseek L fd 0 SEEK_SET h2);
                    (data, h4) = sys_malloc L (of_int len) h3;
                    (got, h5) = (case data of
                        None \<Rightarrow> (None, h4)
                      | Some _ \<Rightarrow> (case sys_read L fd (nat len) h4 of
                            (Inl _, h) \<Rightarrow> (None, h)
                          | (Inr bytes, h) \<Rightarrow> (if int (length bytes) \<noteq> len then None else Some bytes, h)))
                in case got of
                     None \<Rightarrow> (None, snd (sys_close L fd (case data of None \<Rightarrow> h5 | Some p \<Rightarrow> sys_free L p h5)))
                   | Some bytes \<Rightarrow> (Some bytes, snd (sys_close L fd h5)))))"

lemma read_file_same: "read_file_api L name h = read_file L name h"
  by (simp add: read_file_api_def read_file_def Let_def split: prod.split sum.split option.split)

text \<open>The inner \<open>None\<close> is the null pointer: not an executable of this kind.\<close>

definition parse_le_data :: "u8 list \<Rightarrow> os2_exe option option" where
  "parse_le_data d = do {
     e_magic \<leftarrow> le16 d 0;
     (if e_magic \<noteq> 0x5A4D then Some None
      else do {
        e_lfanew \<leftarrow> le32 d 60;
        magic \<leftarrow> le16 d (unat e_lfanew);
        (if magic \<noteq> 0x454C \<and> magic \<noteq> 0x584C then Some None
         else do {
           let exe = \<lparr>file_data = d, exe_objects = 0, loaded_objects = [], entry_point = 0, le_offset = e_lfanew\<rparr>;
           _ \<leftarrow> object_count exe;
           _ \<leftarrow> eip_object exe;
           _ \<leftarrow> eip exe;
           t \<leftarrow> object_table_offset exe;
           Some (Some (exe\<lparr>exe_objects := unat e_lfanew + unat t\<rparr>))
         })
      })
   }"

definition parse_le_exe :: "('h, 'm) linux_scheme \<Rightarrow> string \<Rightarrow> 'h \<Rightarrow> (os2_exe option \<times> 'h) option" where
  "parse_le_exe L filename h =
     (case sys_malloc L 56 h of
        (None, h1) \<Rightarrow> Some (None, h1)
      | (Some _, h1) \<Rightarrow>
          (case read_file_api L filename h1 of
             (None, h2) \<Rightarrow> Some (None, h2)
           | (Some d, h2) \<Rightarrow> map_option (\<lambda>exe. (exe, h2)) (parse_le_data d)))"

section \<open>Loading objects\<close>

text \<open>\<open>memcpy\<close> into the mapping of an object, from the file.\<close>

definition copy_in :: "loaded_object \<Rightarrow> u8 list \<Rightarrow> nat \<Rightarrow> nat \<Rightarrow> loaded_object option" where
  "copy_in ob d off n =
     (if n = 0 then Some ob
      else if obj_prot ob AND PROT_WRITE = 0 \<or> off + n > length d \<or> n > length (obj_mem ob) then None
      else Some (ob\<lparr>obj_mem := take n (drop off d) @ drop n (obj_mem ob)\<rparr>))"

definition page_round :: "u32 \<Rightarrow> u32" where
  "page_round n = (n + 0xFFF) AND NOT 0xFFF"

text \<open>One turn of the loop of \<open>os2_loader.c\<close>; the inner \<open>None\<close> is the return of \<open>-1\<close>.\<close>

definition load_object_plain ::
  "('h, 'm) loader_host_scheme \<Rightarrow> os2_exe \<Rightarrow> u32 \<Rightarrow> nat \<Rightarrow> 'h \<Rightarrow> (loaded_object option \<times> 'h) option" where
  "load_object_plain L exe data_off i h = do {
     vs \<leftarrow> virtual_size exe i;
     _ \<leftarrow> reloc_base_addr exe i;
     flags \<leftarrow> object_flags exe i;
     let prot = PROT_NONE OR (if flags AND OBJREADABLE \<noteq> 0 then PROT_READ else 0)
                  OR (if flags AND OBJWRITEABLE \<noteq> 0 then PROT_WRITE else 0)
                  OR (if flags AND OBJEXECUTABLE \<noteq> 0 then PROT_EXEC else 0);
     let alloc_size = page_round vs;
     (case sys_mmap L (ucast alloc_size) prot h of
        (None, h1) \<Rightarrow> Some (None, h1)
      | (Some mem, h1) \<Rightarrow> do {
          let ob = \<lparr>obj_base = mem, obj_size = ucast alloc_size, obj_flags = flags, obj_prot = prot,
                    obj_mem = replicate (unat alloc_size) 0\<rparr>;
          idx \<leftarrow> page_table_index exe i;
          ps \<leftarrow> page_size exe;
          n \<leftarrow> page_table_entries exe i;
          let page_offset = (idx - 1) * ps;
          let copy_size = (if vs < n * ps then vs else n * ps);
          ob1 \<leftarrow> (if unat (data_off + page_offset + copy_size) \<le> length (file_data exe)
                 then copy_in ob (file_data exe) (unat data_off + unat page_offset) (unat copy_size)
                 else Some ob);
          Some (Some ob1, h1)
        })
   }"

text \<open>The loop of \<open>os2_with_api.c\<close>: an object without file pages stays zero, and a mapping that is not writable is
  made so for the copy.\<close>

definition load_object_api ::
  "('h, 'm) loader_host_scheme \<Rightarrow> os2_exe \<Rightarrow> u32 \<Rightarrow> nat \<Rightarrow> 'h \<Rightarrow> (loaded_object option \<times> 'h) option" where
  "load_object_api L exe data_off i h = do {
     vs \<leftarrow> virtual_size exe i;
     _ \<leftarrow> reloc_base_addr exe i;
     flags \<leftarrow> object_flags exe i;
     idx \<leftarrow> page_table_index exe i;
     n \<leftarrow> page_table_entries exe i;
     let prot = PROT_READ OR (if flags AND OBJWRITEABLE \<noteq> 0 then PROT_WRITE else 0)
                  OR (if flags AND OBJEXECUTABLE \<noteq> 0 then PROT_EXEC else 0);
     let alloc_size = page_round vs;
     (case sys_mmap L (ucast alloc_size) prot h of
        (None, h1) \<Rightarrow> Some (None, h1)
      | (Some mem, h1) \<Rightarrow> do {
          let ob = \<lparr>obj_base = mem, obj_size = ucast alloc_size, obj_flags = flags, obj_prot = prot,
                    obj_mem = replicate (unat alloc_size) 0\<rparr>;
          (if n > 0 \<and> idx > 0
           then do {
             ps \<leftarrow> page_size exe;
             let file_offset = data_off + (idx - 1) * ps;
             (if unat file_offset \<ge> length (file_data exe) then Some (Some ob, h1)
              else do {
                let copy_size = (if unat (file_offset + vs) > length (file_data exe)
                                 then of_nat (length (file_data exe) - unat file_offset) else vs);
                (if copy_size > 0
                 then do {
                   let (ok, h2) = (if prot AND PROT_WRITE = 0
                                   then sys_mprotect L mem (ucast alloc_size) (prot OR PROT_WRITE) h1 else (False, h1));
                   ob1 \<leftarrow> copy_in (if ok then ob\<lparr>obj_prot := prot OR PROT_WRITE\<rparr> else ob)
                            (file_data exe) (unat file_offset) (unat copy_size);
                   let (ok2, h3) = (if prot AND PROT_WRITE = 0
                                    then sys_mprotect L mem (ucast alloc_size) prot h2 else (False, h2));
                   Some (Some (if ok2 then ob1\<lparr>obj_prot := prot\<rparr> else ob1), h3)
                 }
                 else Some (Some ob, h1))
              })
           }
           else Some (Some ob, h1))
        })
   }"

function load_loop ::
  "(nat \<Rightarrow> 'h \<Rightarrow> (loaded_object option \<times> 'h) option) \<Rightarrow> nat \<Rightarrow> nat \<Rightarrow> os2_exe \<Rightarrow> 'h \<Rightarrow> (int \<times> os2_exe \<times> 'h) option" where
  "load_loop step i n exe h =
     (if i < n
      then (case step i h of
              None \<Rightarrow> None
            | Some (None, h1) \<Rightarrow> Some (-1, exe, h1)
            | Some (Some ob, h1) \<Rightarrow>
                load_loop step (i + 1) n (exe\<lparr>loaded_objects := (loaded_objects exe)[i := ob]\<rparr>) h1)
      else Some (0, exe, h))"
  by pat_completeness auto
termination by (relation "measure (\<lambda>(_, i, n, _, _). n - i)") auto

declare load_loop.simps [simp del]

definition set_entry_point :: "os2_exe \<Rightarrow> os2_exe option" where
  "set_entry_point exe = do {
     e \<leftarrow> eip_object exe;
     n \<leftarrow> object_count exe;
     (if e > 0 \<and> e \<le> n
      then do {
        off \<leftarrow> eip exe;
        Some (exe\<lparr>entry_point := obj_base (loaded_objects exe ! (unat e - 1)) + ucast off\<rparr>)
      }
      else Some exe)
   }"

definition null_object :: loaded_object where
  "null_object = \<lparr>obj_base = 0, obj_size = 0, obj_flags = 0, obj_prot = 0, obj_mem = []\<rparr>"

text \<open>What the two versions of \<open>load_objects\<close> share: the table from \<open>calloc\<close>, the loop and the entry point.\<close>

definition load_with ::
  "('h, 'm) loader_host_scheme \<Rightarrow> (os2_exe \<Rightarrow> u32 \<Rightarrow> nat \<Rightarrow> 'h \<Rightarrow> (loaded_object option \<times> 'h) option) \<Rightarrow> os2_exe \<Rightarrow> 'h
   \<Rightarrow> (int \<times> os2_exe \<times> 'h) option" where
  "load_with L step exe h = do {
     n \<leftarrow> object_count exe;
     (case sys_malloc L (24 * ucast n) h of
        (None, h1) \<Rightarrow> Some (-1, exe, h1)
      | (Some _, h1) \<Rightarrow> do {
          data_off \<leftarrow> data_pages_offset exe;
          (rc, exe1, h2) \<leftarrow> load_loop (step exe data_off) 0 (unat n)
                             (exe\<lparr>loaded_objects := replicate (unat n) null_object\<rparr>) h1;
          (if rc < 0 then Some (rc, exe1, h2) else do { exe2 \<leftarrow> set_entry_point exe1; Some (0, exe2, h2) })
        })
   }"

definition load_objects_plain :: "('h, 'm) loader_host_scheme \<Rightarrow> os2_exe \<Rightarrow> 'h \<Rightarrow> (int \<times> os2_exe \<times> 'h) option" where
  "load_objects_plain L = load_with L (load_object_plain L)"

definition load_objects_api :: "('h, 'm) loader_host_scheme \<Rightarrow> os2_exe \<Rightarrow> 'h \<Rightarrow> (int \<times> os2_exe \<times> 'h) option" where
  "load_objects_api L exe h = do { _ \<leftarrow> page_size exe; load_with L (load_object_api L) exe h }"

section \<open>Imports and fixups\<close>

text \<open>The module names: a length byte and as many characters each.\<close>

fun import_names :: "nat \<Rightarrow> nat \<Rightarrow> u8 list \<Rightarrow> u8 list list option" where
  "import_names 0 pos d = Some []"
| "import_names (Suc n) pos d = do {
     name_len \<leftarrow> byte_at d pos;
     (if pos + 1 + unat name_len \<le> length d
      then do {
        rest \<leftarrow> import_names n (pos + 1 + unat name_len) d;
        Some (take (unat name_len) (drop (pos + 1) d) # rest)
      }
      else None)
   }"

definition process_imports :: "os2_exe \<Rightarrow> u8 list list option" where
  "process_imports exe = do {
     n \<leftarrow> imported_modules_count exe;
     (if n = 0 then Some []
      else do {
        t \<leftarrow> imported_modules_offset exe;
        import_names (unat n) (unat (le_offset exe) + unat t) (file_data exe)
      })
   }"

primrec total_pages :: "os2_exe \<Rightarrow> nat \<Rightarrow> u32 option" where
  "total_pages exe 0 = Some 0"
| "total_pages exe (Suc n) = do { t \<leftarrow> total_pages exe n; e \<leftarrow> page_table_entries exe n; Some (t + e) }"

fun read_words :: "u8 list \<Rightarrow> nat \<Rightarrow> nat \<Rightarrow> u32 list option" where
  "read_words d off 0 = Some []"
| "read_words d off (Suc n) = do { w \<leftarrow> le32 d off; rest \<leftarrow> read_words d (off + 4) n; Some (w # rest) }"

fun read_bytes :: "u8 list \<Rightarrow> nat \<Rightarrow> nat \<Rightarrow> u8 list option" where
  "read_bytes d off 0 = Some []"
| "read_bytes d off (Suc n) = do { b \<leftarrow> byte_at d off; rest \<leftarrow> read_bytes d (off + 1) n; Some (b # rest) }"

text \<open>The pages whose entry in the fixup page table is below the next one.\<close>

fun count_fixups :: "u8 list \<Rightarrow> nat \<Rightarrow> nat \<Rightarrow> nat \<Rightarrow> int option" where
  "count_fixups d off page 0 = Some 0"
| "count_fixups d off page (Suc n) = do {
     fixup_start \<leftarrow> le32 d (off + 4 * page);
     fixup_end \<leftarrow> le32 d (off + 4 * (page + 1));
     import_count \<leftarrow> count_fixups d off (page + 1) n;
     Some ((if fixup_start < fixup_end then 1 else 0) + import_count)
   }"

text \<open>The function changes nothing; its result is the count it prints, or \<open>None\<close> inside when it returns before.\<close>

definition apply_fixups :: "os2_exe \<Rightarrow> int option option" where
  "apply_fixups exe = do {
     page_table \<leftarrow> fixup_page_table_offset exe;
     (if page_table = 0 then Some None
      else do {
        record_table \<leftarrow> fixup_record_table_offset exe;
        let d = file_data exe;
        let fixup_page_offset = le_offset exe + page_table;
        let fixup_rec_offset = le_offset exe + record_table;
        (if unat fixup_page_offset \<ge> length d \<or> unat fixup_rec_offset \<ge> length d then Some None
         else do {
           objs \<leftarrow> object_count exe;
           total \<leftarrow> total_pages exe (unat objs);
           fsize \<leftarrow> fixup_size exe;
           (if unat (fixup_page_offset + (total + 1) * 4) > length d then Some None
            else do {
              _ \<leftarrow> read_words d (unat fixup_page_offset) (if total < 5 then unat (total + 1) else 5);
              _ \<leftarrow> read_bytes d (unat fixup_rec_offset) (min 64 (nat (sint fsize)));
              import_count \<leftarrow> count_fixups d (unat fixup_page_offset) 0 (unat total);
              Some (Some import_count)
            })
         })
      })
   }"

section \<open>Running a program\<close>

text \<open>The machine code that is called is the argument \<open>run\<close>; it need not come back.\<close>

definition execute_os2_program :: "(u64 \<Rightarrow> 'h os2 \<Rightarrow> 'h os2 option) \<Rightarrow> os2_exe \<Rightarrow> 'h os2 \<Rightarrow> 'h os2 option" where
  "execute_os2_program run exe s =
     (if entry_point exe = 0 then Some s else run (entry_point exe) (init_handle_table_api s))"

definition free_os2_exe :: "('h, 'm) loader_host_scheme \<Rightarrow> os2_exe \<Rightarrow> 'h \<Rightarrow> 'h" where
  "free_os2_exe L exe h =
     fold (\<lambda>ob h. if obj_base ob \<noteq> 0 then sys_munmap L (obj_base ob) (obj_size ob) h else h) (loaded_objects exe) h"

text \<open>\<open>main\<close> of \<open>os2_with_api.c\<close>: the exit status, and the state of the process after it.\<close>

definition main_api ::
  "('h, 'm) loader_host_scheme \<Rightarrow> (u64 \<Rightarrow> 'h os2 \<Rightarrow> 'h os2 option) \<Rightarrow> string list \<Rightarrow> 'h os2 \<Rightarrow> (int \<times> 'h os2) option" where
  "main_api L run argv s =
     (if length argv < 2 then Some (1, s)
      else do {
        (parsed, h1) \<leftarrow> parse_le_exe L (argv ! 1) (host s);
        (case parsed of
           None \<Rightarrow> Some (1, s\<lparr>host := h1\<rparr>)
         | Some exe \<Rightarrow> do {
             (rc, exe1, h2) \<leftarrow> load_objects_api L exe h1;
             (if rc < 0 then Some (1, s\<lparr>host := free_os2_exe L exe1 h2\<rparr>)
              else do {
                _ \<leftarrow> process_imports exe1;
                _ \<leftarrow> apply_fixups exe1;
                t \<leftarrow> execute_os2_program run exe1 (s\<lparr>host := h2\<rparr>);
                Some (0, t\<lparr>host := free_os2_exe L exe1 (host t)\<rparr>)
              })
           })
      })"

section \<open>The calls built into the loader\<close>

text \<open>The calls themselves are in the theory of the built-in calls; here is the lookup of names.\<close>

definition api_exports_upper :: "(string \<times> os2_api) list" where
  "api_exports_upper =
     [(''DOSOPEN'', Api_DosOpen), (''DOSREAD'', Api_DosRead), (''DOSWRITE'', Api_DosWrite),
      (''DOSCLOSE'', Api_DosClose), (''DOSSETFILEPTR'', Api_DosSetFilePtr), (''DOSDELETE'', Api_DosDelete),
      (''DOSEXIT'', Api_DosExit), (''DOSSLEEP'', Api_DosSleep), (''DOSALLOCMEM'', Api_DosAllocMem),
      (''DOSFREEMEM'', Api_DosFreeMem), (''DOSGETMESSAGE'', Api_DosGetMessage), (''DOSPUTMESSAGE'', Api_DosPutMessage)]"

definition upper_char :: "char \<Rightarrow> char" where
  "upper_char c = (if CHR ''a'' \<le> c \<and> c \<le> CHR ''z'' then char_of (of_char c - 32 :: nat) else c)"

text \<open>\<open>upper\<close> is the local array of 256 characters, with what it held before; the terminator is stored at the
  length of the name, which is outside for longer names.\<close>

definition resolve_os2_api_upper :: "string \<Rightarrow> string \<Rightarrow> os2_api option option" where
  "resolve_os2_api_upper upper name =
     (let filled = fold (\<lambda>i u. u[i := upper_char (name ! i)]) [0..<min (length name) 255] upper
      in if length name \<ge> 256 then None
         else Some (find_export api_exports_upper
                (takeWhile (\<lambda>c. c \<noteq> CHR 0x00) (filled[length name := CHR 0x00]))))"

section \<open>What is loaded\<close>

lemma page_round_ge:
  assumes "unat n \<le> 2 ^ 32 - 4096"
  shows "unat n \<le> unat (page_round n)"
proof -
  have "unat (n + 0xFFF) = unat n + 4095" using assms by (subst unat_add_lem [THEN iffD1]) simp_all
  then show ?thesis unfolding page_round_def unat_page_part
    using div_mult_mod_eq [of "unat n + 4095" 4096] mod_less_divisor [of 4096 "unat n + 4095"] by simp
qed

text \<open>The bytes an object gets from the file: none without pages, and as many as the file still has.\<close>

definition file_image :: "u8 list \<Rightarrow> u32 \<Rightarrow> u32 \<Rightarrow> u32 \<Rightarrow> u32 \<Rightarrow> u8 list" where
  "file_image d off vs idx n = (if n > 0 \<and> idx > 0 then take (unat vs) (drop (unat off) d) else [])"

definition zero_padded :: "u8 list \<Rightarrow> nat \<Rightarrow> u8 list" where
  "zero_padded bs n = bs @ replicate (n - length bs) 0"

definition api_prot :: "u32 \<Rightarrow> u32" where
  "api_prot flags = PROT_READ OR (if flags AND OBJWRITEABLE \<noteq> 0 then PROT_WRITE else 0)
                      OR (if flags AND OBJEXECUTABLE \<noteq> 0 then PROT_EXEC else 0)"

lemma api_prot_write: "api_prot flags AND PROT_WRITE \<noteq> 0 \<longleftrightarrow> flags AND OBJWRITEABLE \<noteq> 0"
  by (simp add: api_prot_def PROT_READ_def PROT_WRITE_def PROT_EXEC_def)

lemma prot_or_write: "(p OR PROT_WRITE) AND PROT_WRITE \<noteq> 0"
proof -
  have "bit ((p OR PROT_WRITE) AND PROT_WRITE) 1" by (simp add: PROT_WRITE_def bit_and_iff bit_or_iff)
  then show ?thesis by (metis bit_0_eq bot_apply bot_bool_def)
qed

text \<open>The object of index \<open>i\<close> has these fields.\<close>

definition object_fields :: "os2_exe \<Rightarrow> nat \<Rightarrow> u32 \<Rightarrow> u32 \<Rightarrow> u32 \<Rightarrow> u32 \<Rightarrow> bool" where
  "object_fields exe i vs flags idx n \<longleftrightarrow>
     virtual_size exe i = Some vs \<and> object_flags exe i = Some flags \<and>
     page_table_index exe i = Some idx \<and> page_table_entries exe i = Some n"

lemma le32_defined: "le32 d i \<noteq> None \<longleftrightarrow> i + 4 \<le> length d"
  by (simp add: le32_def)

lemma base_readable: "object_fields exe i vs flags idx n \<Longrightarrow> \<exists>b. reloc_base_addr exe i = Some b"
  using le32_defined [of "file_data exe" "exe_objects exe + 24 * i + 8"]
  by (auto simp: object_fields_def reloc_base_addr_def object_flags_def le32_def split: if_splits)

lemma copy_in_ok:
  assumes "obj_prot ob AND PROT_WRITE \<noteq> 0" "off + n \<le> length d" "n \<le> length (obj_mem ob)"
  shows "copy_in ob d off n = Some (ob\<lparr>obj_mem := take n (drop off d) @ drop n (obj_mem ob)\<rparr>)"
  using assms by (simp add: copy_in_def)

lemma unat_of_nat_32: "n < 2 ^ 32 \<Longrightarrow> unat (of_nat n :: u32) = n"
  by (simp add: unsigned_of_nat take_bit_nat_eq_self)

lemma unat_ucast64: "unat (ucast w :: u64) = unat w" for w :: u32
proof -
  have "unat w < 2 ^ 64" using unsigned_less [of w, where ?'a = nat] by simp
  then show ?thesis by (simp add: unsigned_ucast_eq take_bit_nat_eq_self)
qed

lemma load_object_api_image:
  assumes f: "object_fields exe i vs flags idx n" and ps: "page_size exe = Some ps"
    and mmap: "sys_mmap L (ucast (page_round vs)) (api_prot flags) h = (Some mem, h1)"
    and mprotect: "\<forall>a sz p h. fst (sys_mprotect L a sz p h)"
    and fits: "unat vs \<le> 2 ^ 32 - 4096" "unat (data_off + (idx - 1) * ps) + unat vs < 2 ^ 32"
    and len: "length (file_data exe) < 2 ^ 32"
  shows "\<exists>h2. load_object_api L exe data_off i h =
    Some (Some \<lparr>obj_base = mem, obj_size = ucast (page_round vs), obj_flags = flags, obj_prot = api_prot flags,
                obj_mem = zero_padded (file_image (file_data exe) (data_off + (idx - 1) * ps) vs idx n)
                            (unat (page_round vs))\<rparr>, h2)"
proof -
  let ?d = "file_data exe" and ?off = "data_off + (idx - 1) * ps" and ?a = "page_round vs"
  let ?ob = "\<lparr>obj_base = mem, obj_size = ucast ?a, obj_flags = flags, obj_prot = api_prot flags,
              obj_mem = replicate (unat ?a) 0\<rparr>"
  obtain b where b: "reloc_base_addr exe i = Some b" using base_readable [OF f] by blast
  note fields = f [unfolded object_fields_def] b mmap [unfolded api_prot_def] ps
  have ge: "unat vs \<le> unat ?a" by (rule page_round_ge [OF fits(1)])
  show ?thesis
  proof (cases "n > 0 \<and> idx > 0 \<and> unat ?off < length ?d \<and> vs \<noteq> 0")
    case False
    then have "file_image ?d ?off vs idx n = []" by (auto simp: file_image_def)
    moreover have "vs = 0 \<and> unat ?off < length ?d \<Longrightarrow> \<not> length ?d < unat (?off + vs)" by simp
    ultimately show ?thesis using False fields
      by (auto simp: load_object_api_def Let_def zero_padded_def api_prot_def)
  next
    case True
    let ?k = "min (unat vs) (length ?d - unat ?off)"
    let ?copy = "if unat (?off + vs) > length ?d then of_nat (length ?d - unat ?off) else vs :: u32"
    have sum: "unat (?off + vs) = unat ?off + unat vs" using fits(2) by (subst unat_add_lem [THEN iffD1]) simp_all
    have copy: "unat ?copy = ?k"
      using sum len True unat_of_nat_32 [of "length ?d - unat ?off"] by (auto simp del: of_nat_diff simp: min_def)
    have pos: "?copy > 0" using copy True by (auto simp: word_less_nat_alt min_def unat_gt_0)
    have img: "file_image ?d ?off vs idx n = take ?k (drop (unat ?off) ?d)"
      using True by (simp add: file_image_def min_def)
    have mem: "take ?k (drop (unat ?off) ?d) @ replicate (unat ?a - ?k) 0 = zero_padded (file_image ?d ?off vs idx n) (unat ?a)"
      unfolding img zero_padded_def by (simp add: min_def)
    have bound: "unat ?off + ?k \<le> length ?d" "?k \<le> unat ?a" using True ge by auto
    show ?thesis
    proof (cases "api_prot flags AND PROT_WRITE = 0")
      case w: False
      have "copy_in ?ob ?d (unat ?off) ?k = Some (?ob\<lparr>obj_mem := zero_padded (file_image ?d ?off vs idx n) (unat ?a)\<rparr>)"
        using w bound by (subst copy_in_ok) (simp_all add: mem)
      then show ?thesis using True fields w pos copy sum
        by (simp add: load_object_api_def Let_def api_prot_def [symmetric])
    next
      case r: True
      obtain h2 where p2: "sys_mprotect L mem (ucast ?a) (api_prot flags OR PROT_WRITE) h1 = (True, h2)"
        using mprotect by (metis prod.collapse)
      obtain h3 where p3: "sys_mprotect L mem (ucast ?a) (api_prot flags) h2 = (True, h3)"
        using mprotect by (metis prod.collapse)
      have "copy_in (?ob\<lparr>obj_prot := api_prot flags OR PROT_WRITE\<rparr>) ?d (unat ?off) ?k =
          Some (?ob\<lparr>obj_prot := api_prot flags OR PROT_WRITE, obj_mem := zero_padded (file_image ?d ?off vs idx n) (unat ?a)\<rparr>)"
        using bound prot_or_write by (subst copy_in_ok) (simp_all add: mem)
      then show ?thesis using True fields r pos copy sum p2 p3
        by (simp add: load_object_api_def Let_def api_prot_def [symmetric])
    qed
  qed
qed

lemma load_loop_all:
  assumes step: "\<And>i h. i < n \<Longrightarrow> \<exists>ob h1. step i h = Some (Some ob, h1) \<and> P i ob"
  shows "length (loaded_objects exe) = n \<Longrightarrow> i \<le> n \<Longrightarrow> \<forall>j<i. P j (loaded_objects exe ! j) \<Longrightarrow>
    \<exists>obs h'. load_loop step i n exe h = Some (0, exe\<lparr>loaded_objects := obs\<rparr>, h')
           \<and> length obs = n \<and> (\<forall>j<n. P j (obs ! j))"
proof (induction "n - i" arbitrary: i exe h)
  case 0
  then show ?case by (auto simp: load_loop.simps intro: exI [of _ "loaded_objects exe"])
next
  case (Suc m)
  then have i: "i < n" by simp
  obtain ob h1 where s: "step i h = Some (Some ob, h1)" "P i ob" using step [OF i] by blast
  let ?exe = "exe\<lparr>loaded_objects := (loaded_objects exe)[i := ob]\<rparr>"
  have "\<exists>obs h'. load_loop step (i + 1) n ?exe h1 = Some (0, ?exe\<lparr>loaded_objects := obs\<rparr>, h')
           \<and> length obs = n \<and> (\<forall>j<n. P j (obs ! j))"
  proof (rule Suc.hyps(1))
    show "m = n - (i + 1)" "i + 1 \<le> n" using Suc.hyps(2) i by simp_all
    show "length (loaded_objects ?exe) = n" using Suc.prems(1) by simp
    show "\<forall>j<i + 1. P j (loaded_objects ?exe ! j)" using Suc.prems i s by (auto simp: nth_list_update less_Suc_eq)
  qed
  then show ?case using i s by (simp add: load_loop.simps [of _ i])
qed

lemma step_ignores_objects:
  "object_fields (exe\<lparr>loaded_objects := obs\<rparr>) = object_fields exe"
  "eip_object (exe\<lparr>loaded_objects := obs\<rparr>) = eip_object exe" "eip (exe\<lparr>loaded_objects := obs\<rparr>) = eip exe"
  "object_count (exe\<lparr>loaded_objects := obs\<rparr>) = object_count exe"
  by (simp_all add: fun_eq_iff object_fields_def virtual_size_def object_flags_def page_table_index_def
      page_table_entries_def eip_object_def eip_def object_count_def header32_def)

text \<open>C27: The loader puts every object of an executable at its place: the bytes of the file from the object's first page
  on, as far as the file goes, zeros up to the whole page, and the protection its flags ask for. Then the entry
  point lies at its offset in its object. It holds for a file of less than \<open>2 ^ 32\<close> bytes whose objects are not
  empty and small enough that no 32-bit offset wraps around, whose entry object is one of its objects, and on a host
  that grants every allocation, every mapping of a positive size and every change of protection.\<close>

theorem load_objects_image:
  assumes count: "object_count exe = Some count" and ps: "page_size exe = Some ps"
    and data: "data_pages_offset exe = Some data_off"
    and entry: "eip_object exe = Some e" "eip exe = Some off" "0 < e" "e \<le> count"
    and objects: "\<forall>i<unat count. \<exists>vs flags idx n. object_fields exe i vs flags idx n \<and> 0 < vs
                    \<and> unat vs \<le> 2 ^ 32 - 4096 \<and> unat (data_off + (idx - 1) * ps) + unat vs < 2 ^ 32"
    and len: "length (file_data exe) < 2 ^ 32"
    and malloc: "\<forall>n h. fst (sys_malloc L n h) \<noteq> None"
    and mmap: "\<forall>sz prot h. sz \<noteq> 0 \<longrightarrow> fst (sys_mmap L sz prot h) \<noteq> None"
    and mprotect: "\<forall>a sz prot h. fst (sys_mprotect L a sz prot h)"
  shows "\<exists>obs h'. load_objects_api L exe h =
           Some (0, exe\<lparr>loaded_objects := obs, entry_point := obj_base (obs ! (unat e - 1)) + ucast off\<rparr>, h')
         \<and> length obs = unat count
         \<and> (\<forall>i<unat count. \<forall>vs flags idx n. object_fields exe i vs flags idx n \<longrightarrow>
              obj_mem (obs ! i) = zero_padded (file_image (file_data exe) (data_off + (idx - 1) * ps) vs idx n)
                                    (unat (page_round vs))
            \<and> obj_prot (obs ! i) = api_prot flags \<and> obj_size (obs ! i) = ucast (page_round vs))"
proof -
  let ?P = "\<lambda>i ob. \<forall>vs flags idx n. object_fields exe i vs flags idx n \<longrightarrow>
              obj_mem ob = zero_padded (file_image (file_data exe) (data_off + (idx - 1) * ps) vs idx n) (unat (page_round vs))
            \<and> obj_prot ob = api_prot flags \<and> obj_size ob = ucast (page_round vs)"
  have step: "\<exists>ob h1. load_object_api L exe data_off i h = Some (Some ob, h1) \<and> ?P i ob" if i: "i < unat count" for i h
  proof -
    obtain vs flags idx n where f: "object_fields exe i vs flags idx n" and fits: "0 < vs" "unat vs \<le> 2 ^ 32 - 4096"
        "unat (data_off + (idx - 1) * ps) + unat vs < 2 ^ 32"
      using objects i by blast
    have "0 < unat (page_round vs)" using page_round_ge [OF fits(2)] fits(1) by (simp add: word_less_nat_alt)
    then have "0 < unat (ucast (page_round vs) :: u64)" by (simp add: unat_ucast64)
    then have "(ucast (page_round vs) :: u64) \<noteq> 0" by (simp add: unat_gt_0)
    then obtain mem h1 where m: "sys_mmap L (ucast (page_round vs)) (api_prot flags) h = (Some mem, h1)"
      using mmap by (metis option.collapse prod.collapse)
    have same: "vs' = vs \<and> flags' = flags \<and> idx' = idx \<and> n' = n" if "object_fields exe i vs' flags' idx' n'"
      for vs' flags' idx' n' using that f by (simp add: object_fields_def)
    show ?thesis using load_object_api_image [OF f ps m mprotect fits(2,3) len] same by fastforce
  qed
  obtain p h1 where p: "sys_malloc L (24 * ucast count) h = (Some p, h1)" using malloc by (metis option.collapse prod.collapse)
  let ?exe = "exe\<lparr>loaded_objects := replicate (unat count) null_object\<rparr>"
  obtain obs h2 where l: "load_loop (load_object_api L exe data_off) 0 (unat count) ?exe h1
        = Some (0, ?exe\<lparr>loaded_objects := obs\<rparr>, h2)" "length obs = unat count" "\<forall>j<unat count. ?P j (obs ! j)"
    using load_loop_all [of "unat count" "load_object_api L exe data_off" ?P ?exe 0 h1] step by auto
  have "load_objects_api L exe h =
      Some (0, exe\<lparr>loaded_objects := obs, entry_point := obj_base (obs ! (unat e - 1)) + ucast off\<rparr>, h2)"
    using p l(1) count ps data entry
    by (simp add: load_objects_api_def load_with_def set_entry_point_def step_ignores_objects)
  then show ?thesis using l by blast
qed

text \<open>A small executable and a host for the examples.\<close>

definition sample_exe :: os2_exe where
  "sample_exe =
     \<lparr>file_data = (replicate 160 0)[24 := 1, 41 := 0x10, 68 := 1, 128 := 156, 132 := 4, 140 := 5, 144 := 1, 148 := 1,
        156 := 1, 157 := 2, 158 := 3, 159 := 4],
      exe_objects = 132, loaded_objects = [], entry_point = 0, le_offset = 0\<rparr>"

definition sample_loader_host :: "(int list \<times> string list) loader_host" where
  "sample_loader_host =
     \<lparr>sys_open = sys_open sample_linux, sys_read = sys_read sample_linux, sys_write = sys_write sample_linux,
      sys_close = sys_close sample_linux, sys_lseek = sys_lseek sample_linux, sys_fstat = sys_fstat sample_linux,
      sys_unlink = sys_unlink sample_linux, sys_usleep = sys_usleep sample_linux,
      sys_malloc = (\<lambda>n h. (Some 0x1000, h)), sys_free = sys_free sample_linux,
      sys_mmap = (\<lambda>n p h. (if n = 0 then None else Some 0x40000000, h)),
      sys_mprotect = (\<lambda>a n p h. (True, h)), sys_munmap = (\<lambda>a n h. h)\<rparr>"

lemma sample_exe_fields:
  "object_count sample_exe = Some 1" "page_size sample_exe = Some 4096" "data_pages_offset sample_exe = Some 156"
  "eip_object sample_exe = Some 1" "eip sample_exe = Some 0" "length (file_data sample_exe) = 160"
  "object_fields sample_exe 0 4 5 1 1"
  by code_simp+

theorem load_objects_image_witness:
  "\<exists>obs h'. load_objects_api sample_loader_host sample_exe ([], []) =
      Some (0, sample_exe\<lparr>loaded_objects := obs, entry_point := obj_base (obs ! 0)\<rparr>, h')
    \<and> take 5 (obj_mem (obs ! 0)) = [1, 2, 3, 4, 0] \<and> obj_prot (obs ! 0) = PROT_READ OR PROT_EXEC"
proof -
  have objs: "\<forall>i<unat (1 :: u32). \<exists>vs flags idx n. object_fields sample_exe i vs flags idx n \<and> 0 < vs
                \<and> unat vs \<le> 2 ^ 32 - 4096 \<and> unat (156 + (idx - 1) * 4096 :: u32) + unat vs < 2 ^ 32"
  proof (intro allI impI)
    fix i assume "i < unat (1 :: u32)"
    then have "object_fields sample_exe i 4 5 1 1 \<and> (0 :: u32) < 4 \<and> unat (4 :: u32) \<le> 2 ^ 32 - 4096
        \<and> unat (156 + (1 - 1) * 4096 :: u32) + unat (4 :: u32) < 2 ^ 32"
      using sample_exe_fields(7) by simp
    then show "\<exists>vs flags idx n. object_fields sample_exe i vs flags idx n \<and> 0 < vs
                \<and> unat vs \<le> 2 ^ 32 - 4096 \<and> unat (156 + (idx - 1) * 4096 :: u32) + unat vs < 2 ^ 32" by blast
  qed
  have img: "file_image (file_data sample_exe) (156 + (1 - 1) * 4096) 4 1 1 = [1, 2, 3, 4]" by code_simp
  obtain obs h' where o: "load_objects_api sample_loader_host sample_exe ([], []) =
      Some (0, sample_exe\<lparr>loaded_objects := obs, entry_point := obj_base (obs ! (unat (1 :: u32) - 1)) + ucast (0 :: u32)\<rparr>, h')"
    and m: "\<forall>i<unat (1 :: u32). \<forall>vs flags idx n. object_fields sample_exe i vs flags idx n \<longrightarrow>
              obj_mem (obs ! i) = zero_padded (file_image (file_data sample_exe) (156 + (idx - 1) * 4096) vs idx n) (unat (page_round vs))
            \<and> obj_prot (obs ! i) = api_prot flags \<and> obj_size (obs ! i) = ucast (page_round vs)"
    using load_objects_image [of sample_exe 1 4096 156 1 0 sample_loader_host "([], [])", OF sample_exe_fields(1-5) _ _ objs]
      sample_exe_fields(6) by (auto simp: sample_loader_host_def)
  have "obj_mem (obs ! 0) = zero_padded [1, 2, 3, 4] (unat (page_round 4))" "obj_prot (obs ! 0) = api_prot 5"
    using m sample_exe_fields(7) img by fastforce+
  then have "take 5 (obj_mem (obs ! 0)) = [1, 2, 3, 4, 0] \<and> obj_prot (obs ! 0) = PROT_READ OR PROT_EXEC"
    by (simp add: zero_padded_def page_round_def api_prot_def OBJWRITEABLE_def OBJEXECUTABLE_def PROT_EXEC_def)
  then show ?thesis using o by auto
qed

section \<open>Where loading fails\<close>

text \<open>The check that an object lies in the file is done with 32-bit sums. When offset and size together pass
  \<open>2 ^ 32\<close>, the sum wraps around, the check is satisfied, and the copy runs past the end of the buffer.\<close>

theorem load_object_wraps:
  assumes f: "object_fields exe i vs flags idx n" and ps: "page_size exe = Some ps"
    and mmap: "fst (sys_mmap L (ucast (page_round vs)) (api_prot flags) h) \<noteq> None"
    and paged: "0 < n" "0 < idx" and inside: "unat (data_off + (idx - 1) * ps) < length (file_data exe)"
    and len: "length (file_data exe) < 2 ^ 32"
    and wrap: "2 ^ 32 \<le> unat (data_off + (idx - 1) * ps) + unat vs"
  shows "load_object_api L exe data_off i h = None"
proof -
  let ?d = "file_data exe" and ?off = "data_off + (idx - 1) * ps" and ?a = "page_round vs"
  obtain b where b: "reloc_base_addr exe i = Some b" using base_readable [OF f] by blast
  obtain mem h1 where m: "sys_mmap L (ucast ?a) (api_prot flags) h = (Some mem, h1)" using mmap by (metis option.collapse prod.collapse)
  note fields = f [unfolded object_fields_def] b m [unfolded api_prot_def] ps
  have v: "unat vs < 2 ^ 32" "unat ?off < 2 ^ 32" using unsigned_less [where ?'a = nat and ?'b = 32] by simp_all
  have "unat (?off + vs) = (unat ?off + unat vs) mod 2 ^ 32" by (simp add: unat_word_ariths)
  also have "\<dots> = unat ?off + unat vs - 2 ^ 32" using wrap v by (simp add: mod_if)
  finally have sum: "\<not> length ?d < unat (?off + vs)" using inside v by simp
  have pos: "vs > 0" using wrap v(2) by (cases "vs = 0") (auto simp: word_gt_0)
  have past: "copy_in ob ?d (unat ?off) (unat vs) = None" for ob
    using pos wrap len inside by (auto simp: copy_in_def unat_eq_zero)
  show ?thesis
    using paged inside fields sum pos past by (auto simp: load_object_api_def Let_def split: prod.splits)
qed

definition wrapping_exe :: os2_exe where
  "wrapping_exe = sample_exe\<lparr>file_data :=
     (file_data sample_exe)[132 := 0, 133 := 0xF0, 134 := 0xFF, 135 := 0xFF] @ replicate 4096 0\<rparr>"

theorem load_object_wraps_witness:
  "length (file_data wrapping_exe) = 4256 \<and> load_object_api sample_loader_host wrapping_exe 4200 0 ([], []) = None"
proof -
  have f: "object_fields wrapping_exe 0 0xFFFFF000 5 1 1" "page_size wrapping_exe = Some 4096" by code_simp+
  have l: "length (file_data wrapping_exe) = 4256" by (simp add: wrapping_exe_def sample_exe_def)
  have "fst (sys_mmap sample_loader_host (ucast (page_round 0xFFFFF000)) (api_prot 5) ([], [])) \<noteq> None"
    by (simp add: sample_loader_host_def page_round_def)
  from load_object_wraps [OF f this, of 4200] show ?thesis using l by simp
qed

text \<open>The first loader cannot load an ordinary program: it maps each object with its final protection and copies into
  it afterwards, so the copy into a first object that is not writable, as code is, faults.\<close>

theorem plain_loader_faults:
  assumes count: "object_count exe = Some count" "0 < count" and data: "data_pages_offset exe = Some data_off"
    and f: "object_fields exe 0 vs flags idx n" and ps: "page_size exe = Some ps"
    and readonly: "flags AND OBJWRITEABLE = 0"
    and paged: "0 < vs" "0 < n * ps"
    and inside: "unat (data_off + (idx - 1) * ps + min vs (n * ps)) \<le> length (file_data exe)"
    and host: "\<forall>sz h. fst (sys_malloc L sz h) \<noteq> None" "\<forall>prot h. fst (sys_mmap L (ucast (page_round vs)) prot h) \<noteq> None"
  shows "load_objects_plain L exe h = None"
proof -
  obtain b where b: "reloc_base_addr exe 0 = Some b" using base_readable [OF f] by blast
  have step: "load_object_plain L exe data_off 0 h1 = None" for h1
  proof -
    let ?prot = "PROT_NONE OR (if flags AND OBJREADABLE \<noteq> 0 then PROT_READ else 0) OR 0 OR
                 (if flags AND OBJEXECUTABLE \<noteq> 0 then PROT_EXEC else 0)"
    have w: "?prot AND PROT_WRITE = 0"
      by (simp add: PROT_NONE_def PROT_READ_def PROT_WRITE_def PROT_EXEC_def)
    obtain mem h2 where m: "sys_mmap L (ucast (page_round vs)) ?prot h1 = (Some mem, h2)"
      using host(2) by (metis option.collapse prod.collapse)
    have copy: "(if vs < n * ps then vs else n * ps) = min vs (n * ps)" by (auto simp: min_def not_less)
    have in2: "unat (data_off + (idx - 1) * ps + (if vs < n * ps then vs else n * ps)) \<le> length (file_data exe)"
      using inside unfolding copy .
    have pos: "unat (min vs (n * ps)) \<noteq> 0" using paged by (auto simp: min_def unat_eq_zero)
    have "copy_in ob (file_data exe) x (unat (if vs < n * ps then vs else n * ps)) = None" if "obj_prot ob = ?prot" for ob x
      using that w pos unfolding copy by (simp add: copy_in_def)
    then show ?thesis
      using f [unfolded object_fields_def] b ps m readonly in2 by (simp add: load_object_plain_def Let_def del: if_split)
  qed
  obtain p h1 where p: "sys_malloc L (24 * ucast count) h = (Some p, h1)" using host(1) by (metis option.collapse prod.collapse)
  have "load_loop (load_object_plain L exe data_off) 0 (unat count) e h1 = None" for e
    using step count(2) by (subst load_loop.simps) (simp add: word_less_nat_alt)
  then show ?thesis using count data p by (simp add: load_objects_plain_def load_with_def)
qed

theorem plain_loader_faults_witness: "load_objects_plain sample_loader_host sample_exe ([], []) = None"
proof -
  have "\<forall>prot h. fst (sys_mmap sample_loader_host (ucast (page_round 4)) prot h) \<noteq> None"
    by (simp add: sample_loader_host_def page_round_def)
  moreover have "\<forall>sz h. fst (sys_malloc sample_loader_host sz h) \<noteq> None" by (simp add: sample_loader_host_def)
  ultimately show ?thesis
    using plain_loader_faults [OF sample_exe_fields(1) _ sample_exe_fields(3,7,2), of sample_loader_host "([], [])"]
    by (simp add: OBJWRITEABLE_def sample_exe_fields(6))
qed

text \<open>C28: For an object that is readable and writable, has file pages for its whole size and lies in the file, the two
  loaders do the same.\<close>

theorem loaders_agree:
  assumes f: "object_fields exe i vs flags idx n" and ps: "page_size exe = Some ps"
    and flags: "flags AND OBJREADABLE \<noteq> 0" "flags AND OBJWRITEABLE \<noteq> 0"
    and paged: "0 < n" "0 < idx" "vs \<le> n * ps"
    and inside: "unat data_off + unat ((idx - 1) * ps) + unat vs \<le> length (file_data exe)"
    and len: "length (file_data exe) < 2 ^ 32"
  shows "load_object_plain L exe data_off i h = load_object_api L exe data_off i h"
proof -
  let ?d = "file_data exe" and ?p = "(idx - 1) * ps"
  obtain b where b: "reloc_base_addr exe i = Some b" using base_readable [OF f] by blast
  have off: "unat (data_off + ?p) = unat data_off + unat ?p"
    using inside len by (subst unat_add_lem [THEN iffD1]) simp_all
  have sum: "unat (data_off + ?p + vs) = unat data_off + unat ?p + unat vs"
    using inside len off by (subst unat_add_lem [THEN iffD1]) simp_all
  obtain r h1 where m: "sys_mmap L (ucast (page_round vs)) (api_prot flags) h = (r, h1)" by fastforce
  have prot: "PROT_NONE OR PROT_READ OR PROT_WRITE OR (if flags AND OBJEXECUTABLE \<noteq> 0 then PROT_EXEC else 0) = api_prot flags"
    using flags by (simp add: api_prot_def PROT_NONE_def)
  have w: "api_prot flags AND PROT_WRITE \<noteq> 0" using flags api_prot_write by blast
  have zero: "copy_in ob ?d x 0 = Some ob" for ob x by (simp add: copy_in_def)
  have pos: "0 < vs \<longleftrightarrow> vs \<noteq> 0" by (simp add: word_gt_0)
  have lt: "vs = 0 \<or> unat data_off + unat ?p < length ?d" using inside unat_gt_0 [of vs] by linarith
  have plain: "load_object_plain L exe data_off i h =
      (case r of None \<Rightarrow> Some (None, h1)
       | Some mem \<Rightarrow> map_option (\<lambda>ob. (Some ob, h1))
           (copy_in \<lparr>obj_base = mem, obj_size = ucast (page_round vs), obj_flags = flags, obj_prot = api_prot flags,
                     obj_mem = replicate (unat (page_round vs)) 0\<rparr> ?d (unat data_off + unat ?p) (unat vs)))"
  proof (cases "vs < n * ps")
    case True
    then show ?thesis using f [unfolded object_fields_def] b ps m flags inside prot sum
      by (cases r) (auto simp: load_object_plain_def Let_def map_option_case split: option.splits)
  next
    case False
    then have e: "n * ps = vs" using paged(3) by simp
    show ?thesis using f [unfolded object_fields_def] b ps m flags inside prot sum
      by (cases r) (auto simp: load_object_plain_def Let_def map_option_case e split: option.splits)
  qed
  have api: "load_object_api L exe data_off i h =
      (case r of None \<Rightarrow> Some (None, h1)
       | Some mem \<Rightarrow> map_option (\<lambda>ob. (Some ob, h1))
           (copy_in \<lparr>obj_base = mem, obj_size = ucast (page_round vs), obj_flags = flags, obj_prot = api_prot flags,
                     obj_mem = replicate (unat (page_round vs)) 0\<rparr> ?d (unat data_off + unat ?p) (unat vs)))"
    using f [unfolded object_fields_def] b ps m w paged(1,2) off sum inside lt
    unfolding load_object_api_def Let_def api_prot_def [symmetric]
    by (cases r) (auto simp: map_option_case zero pos split: option.splits)
  show ?thesis unfolding plain api ..
qed

theorem loaders_agree_witness:
  "load_object_plain sample_loader_host (sample_exe\<lparr>file_data := (file_data sample_exe)[140 := 3]\<rparr>) 156 0 ([], [])
   = load_object_api sample_loader_host (sample_exe\<lparr>file_data := (file_data sample_exe)[140 := 3]\<rparr>) 156 0 ([], [])"
proof -
  let ?e = "sample_exe\<lparr>file_data := (file_data sample_exe)[140 := 3]\<rparr>"
  have f: "object_fields ?e 0 4 3 1 1" "page_size ?e = Some 4096" by code_simp+
  show ?thesis
    by (rule loaders_agree [OF f]) (simp_all add: OBJREADABLE_def OBJWRITEABLE_def sample_exe_fields(6))
qed

section \<open>Looking up a call\<close>

lemma fold_prefix_update:
  "k \<le> length u \<Longrightarrow> fold (\<lambda>i u. u[i := f i]) [0..<k] u = map f [0..<k] @ drop k u"
proof (induction k)
  case (Suc k)
  then have "fold (\<lambda>i u. u[i := f i]) [0..<Suc k] u = (map f [0..<k] @ drop k u)[k := f k]" by simp
  also have "\<dots> = map f [0..<k] @ (drop k u)[0 := f k]" by (simp add: list_update_append)
  also have "drop k u = u ! k # drop (Suc k) u" using Suc.prems by (simp add: Cons_nth_drop_Suc)
  finally show ?case by simp
qed simp

lemma upper_char_nonzero: "c \<noteq> CHR 0x00 \<Longrightarrow> upper_char c \<noteq> CHR 0x00"
proof (cases "CHR ''a'' \<le> c \<and> c \<le> CHR ''z''")
  case True
  then have n: "97 \<le> (of_char c :: nat)" "(of_char c :: nat) \<le> 122" by (simp_all add: less_eq_char_def)
  then have "of_char (upper_char c) = (of_char c - 32 :: nat)" using True by (simp add: upper_char_def)
  then have "(of_char (upper_char c) :: nat) \<noteq> 0" using n by linarith
  then show "upper_char c \<noteq> CHR 0x00" by auto
qed (auto simp: upper_char_def)

text \<open>A name of at most 255 characters is looked up regardless of case and of what the local array held: the result
  is the entry whose name is the name in capitals. A longer name is written to outside the array.\<close>

theorem resolve_ignores_case:
  assumes "length upper = 256" "CHR 0x00 \<notin> set name"
  shows "resolve_os2_api_upper upper name =
           (if length name \<le> 255 then Some (find_export api_exports_upper (map upper_char name)) else None)"
proof (cases "length name \<le> 255")
  case True
  let ?rest = "drop (Suc (length name)) upper"
  have "map (\<lambda>i. upper_char (name ! i)) [0..<length name] = map upper_char name" by (rule nth_equalityI) simp_all
  moreover have "min (length name) 255 = length name" using True by simp
  ultimately have filled: "fold (\<lambda>i u. u[i := upper_char (name ! i)]) [0..<min (length name) 255] upper
      = map upper_char name @ drop (length name) upper"
    using fold_prefix_update [of "length name" upper "\<lambda>i. upper_char (name ! i)"] True assms(1) by simp
  have "drop (length name) upper = upper ! length name # ?rest"
    using True assms(1) by (simp add: Cons_nth_drop_Suc)
  then have ended: "(map upper_char name @ drop (length name) upper)[length name := CHR 0x00]
      = map upper_char name @ CHR 0x00 # ?rest"
    by (simp add: list_update_append)
  have nonzero: "\<forall>c\<in>set (map upper_char name). c \<noteq> CHR 0x00"
    using assms(2) upper_char_nonzero by (metis (no_types, lifting) image_iff list.set_map)
  have "takeWhile (\<lambda>c. c \<noteq> CHR 0x00) (map upper_char name @ CHR 0x00 # ?rest) = map upper_char name"
    using nonzero by (subst takeWhile_append2) auto
  then show ?thesis using True unfolding resolve_os2_api_upper_def Let_def filled ended by simp
next
  case False
  then show ?thesis by (simp add: resolve_os2_api_upper_def)
qed

theorem resolve_ignores_case_witness:
  "resolve_os2_api_upper (replicate 256 CHR ''x'') ''DosWrite'' = Some (Some Api_DosWrite)
   \<and> resolve_os2_api_upper (replicate 256 CHR ''x'') ''dosbeep'' = Some None"
proof -
  have "find_export api_exports_upper (map upper_char ''DosWrite'') = Some Api_DosWrite"
    "find_export api_exports_upper (map upper_char ''dosbeep'') = None" by code_simp+
  then show ?thesis
    using resolve_ignores_case [of "replicate 256 CHR ''x''" "''DosWrite''"]
      resolve_ignores_case [of "replicate 256 CHR ''x''" "''dosbeep''"] by simp
qed

section \<open>The scan of the fixup table\<close>

lemma le32_some: "i + 4 \<le> length d \<Longrightarrow> \<exists>w. le32 d i = Some w"
  by (simp add: le32_def)

lemma read_words_defined: "off + 4 * n \<le> length d \<Longrightarrow> \<exists>ws. read_words d off n = Some ws"
proof (induction n arbitrary: off)
  case (Suc n)
  then have "off + 4 \<le> length d" "off + 4 + 4 * n \<le> length d" by simp_all
  with Suc.IH [of "off + 4"] le32_some show ?case by fastforce
qed simp

lemma read_bytes_defined: "off + n \<le> length d \<Longrightarrow> \<exists>bs. read_bytes d off n = Some bs"
proof (induction n arbitrary: off)
  case (Suc n)
  then have "off < length d" "off + 1 + n \<le> length d" by simp_all
  with Suc.IH [of "off + 1"] show ?case by (fastforce simp: byte_at_def)
qed simp

definition has_fixups :: "u8 list \<Rightarrow> nat \<Rightarrow> nat \<Rightarrow> bool" where
  "has_fixups d off p = (the (le32 d (off + 4 * p)) < the (le32 d (off + 4 * (p + 1))))"

lemma count_fixups_eq:
  "off + 4 * (page + n + 1) \<le> length d \<Longrightarrow>
   count_fixups d off page n = Some (int (length (filter (has_fixups d off) [page..<page + n])))"
proof (induction n arbitrary: page)
  case (Suc n)
  obtain a b where "le32 d (off + 4 * page) = Some a" "le32 d (off + 4 * (page + 1)) = Some b"
    using le32_some [of "off + 4 * page" d] le32_some [of "off + 4 * (page + 1)" d] Suc.prems by auto
  moreover have "count_fixups d off (page + 1) n = Some (int (length (filter (has_fixups d off) [page + 1..<page + 1 + n])))"
    using Suc.prems by (intro Suc.IH) simp
  moreover have "[page..<page + Suc n] = page # [page + 1..<page + 1 + n]" by (simp add: upt_conv_Cons)
  moreover have "has_fixups d off page \<longleftrightarrow> a < b" using calculation(1,2) by (simp add: has_fixups_def)
  ultimately show ?case by (simp del: upt_Suc)
qed simp

lemma count_fixups_past: "0 < n \<Longrightarrow> length d < off + 4 * (page + n + 1) \<Longrightarrow> count_fixups d off page n = None"
proof (induction n arbitrary: page)
  case (Suc n)
  show ?case
  proof (cases "n = 0")
    case True
    then show ?thesis using Suc.prems by (simp add: le32_def)
  next
    case False
    then have "count_fixups d off (page + 1) n = None" using Suc.prems by (intro Suc.IH) simp_all
    then show ?thesis by simp
  qed
qed simp

text \<open>With tables inside the file the scan counts the pages that have fixups.\<close>

lemma apply_fixups_scan:
  assumes "fixup_page_table_offset exe = Some pt" "pt \<noteq> 0" "fixup_record_table_offset exe = Some rt"
    and "object_count exe = Some objs" "total_pages exe (unat objs) = Some pages" "fixup_size exe = Some fsize"
    and tables: "unat (le_offset exe + pt) + 4 * (unat pages + 1) \<le> length (file_data exe)"
      "unat (le_offset exe + rt) + 64 \<le> length (file_data exe)"
    and len: "length (file_data exe) < 2 ^ 32"
  shows "apply_fixups exe = Some (Some (int (length (filter (has_fixups (file_data exe) (unat (le_offset exe + pt))) [0..<unat pages]))))"
proof -
  let ?d = "file_data exe" and ?off = "unat (le_offset exe + pt)"
  have small: "unat (pages + 1) = unat pages + 1" using tables(1) len by (subst unat_add_lem [THEN iffD1]) simp_all
  have "unat ((pages + 1) * 4) = 4 * (unat pages + 1)"
    using tables(1) len small by (subst unat_mult_lem [THEN iffD1]) (simp_all add: small)
  then have check: "\<not> length ?d < unat (le_offset exe + pt + (pages + 1) * 4)"
    using tables(1) len by (subst unat_add_lem [THEN iffD1]) simp_all
  have "(if pages < 5 then unat (pages + 1) else 5) \<le> unat pages + 1" using small by (auto simp: word_less_nat_alt)
  then obtain ws where ws: "read_words ?d ?off (if pages < 5 then unat (pages + 1) else 5) = Some ws"
    using read_words_defined [of ?off "if pages < 5 then unat (pages + 1) else 5" ?d] tables(1) by fastforce
  obtain bs where bs: "read_bytes ?d (unat (le_offset exe + rt)) (min 64 (nat (sint fsize))) = Some bs"
    using read_bytes_defined [of "unat (le_offset exe + rt)" "min 64 (nat (sint fsize))" ?d] tables(2) by fastforce
  show ?thesis
    using assms(1-6) tables check ws bs count_fixups_eq [of ?off 0 "unat pages" ?d]
    by (simp add: apply_fixups_def Let_def)
qed

text \<open>The bound check of the fixup scan is a 32-bit product: \<open>0x3FFFFFFF\<close> pages pass it for any table offset, and the
  scan then reads past the end of the file.\<close>

theorem apply_fixups_wraps:
  assumes "fixup_page_table_offset exe = Some pt" "pt \<noteq> 0" "fixup_record_table_offset exe = Some rt"
    and "object_count exe = Some objs" "total_pages exe (unat objs) = Some 0x3FFFFFFF" "fixup_size exe = Some fsize"
    and tables: "unat (le_offset exe + pt) < length (file_data exe)" "unat (le_offset exe + rt) < length (file_data exe)"
    and len: "length (file_data exe) < 2 ^ 32"
  shows "apply_fixups exe = None"
proof -
  have "count_fixups (file_data exe) (unat (le_offset exe + pt)) 0 (unat (0x3FFFFFFF :: u32)) = None"
    by (rule count_fixups_past) (use len in simp_all)
  moreover have "\<not> length (file_data exe) < unat (le_offset exe + pt + (0x3FFFFFFF + 1) * 4)"
  proof -
    have "(0x3FFFFFFF + 1) * 4 = (0 :: u32)" by code_simp
    then show ?thesis using tables(1) by (simp only: add_0_right not_less less_imp_le)
  qed
  ultimately show ?thesis using assms(1-6) tables
    by (simp add: apply_fixups_def Let_def bind_eq_None_conv)
qed

theorem apply_fixups_wraps_witness:
  "apply_fixups (sample_exe\<lparr>file_data :=
     (file_data sample_exe)[104 := 8, 108 := 8, 148 := 0xFF, 149 := 0xFF, 150 := 0xFF, 151 := 0x3F]\<rparr>) = None"
  (is "apply_fixups ?e = None")
proof -
  have "fixup_page_table_offset ?e = Some 8" "fixup_record_table_offset ?e = Some 8" "object_count ?e = Some 1"
    "total_pages ?e (unat (1 :: u32)) = Some 0x3FFFFFFF" "fixup_size ?e = Some 0"
    by code_simp+
  from apply_fixups_wraps [OF this(1) _ this(2-5)] show ?thesis by (simp add: sample_exe_def)
qed

section \<open>The parser trusts the file\<close>

text \<open>An MZ file whose header is cut short, or whose pointer to the new header leads out of it, is read beyond its end.\<close>

lemma parse_out_of_file:
  assumes "le16 d 0 = Some 0x5A4D" and "\<forall>off. le32 d 60 = Some off \<longrightarrow> length d < unat off + 2"
  shows "parse_le_data d = None"
  using assms by (cases "le32 d 60") (auto simp: parse_le_data_def le16_def split: if_splits)

text \<open>What is not an MZ file is rejected.\<close>

lemma parse_not_mz: "le16 d 0 = Some m \<Longrightarrow> m \<noteq> 0x5A4D \<Longrightarrow> parse_le_data d = Some None"
  by (simp add: parse_le_data_def)

text \<open>The sleep is given in microseconds with a 32-bit product: a little over 71 minutes become 704 microseconds.\<close>

lemma dos_sleep_wraps: "DosSleep L 4294968 s = (NO_ERROR, s\<lparr>host := sys_usleep L 704 (host s)\<rparr>)"
proof -
  have "(4294968 * 1000 :: u32) = 704" by code_simp
  then show ?thesis by (simp only: DosSleep_def)
qed

text \<open>A new file is reported as one that existed when the program allowed both: the action is guessed from the flags.\<close>

lemma dos_open_action_guessed:
  assumes "DosOpen L name 0x11 md s = (NO_ERROR, h, act, t)" "act \<noteq> None"
  shows "act = Some FILE_EXISTED"
proof -
  have "open_flags 0x11 md AND O_CREAT \<noteq> 0" and "open_flags 0x11 md AND O_EXCL = 0"
    by (auto simp: open_flags_def Let_def O_CREAT_def O_EXCL_def O_RDONLY_def O_WRONLY_def O_RDWR_def
        OPEN_ACTION_OPEN_IF_EXISTS_def OPEN_ACTION_REPLACE_IF_EXISTS_def OPEN_ACTION_CREATE_IF_NEW_def)
  then show ?thesis using assms
    by (auto simp: DosOpen_def Let_def errno_to_os2_def split: prod.splits sum.splits if_splits)
qed

end
