(* ===== verification/Os2_Programs.thy ===== *)
theory Os2_Programs
  imports Os2_Loader
begin

text \<open>
  The two other programs built from the emulation layer: the first loader, whose \<open>main\<close> waits for a key before it runs
  the program, and the test program of \<open>os2_emulator.c\<close>, here proved to do what it announces on any host whose files
  behave as documented. What the test program prints is its result.
\<close>

section \<open>The first loader\<close>

definition cpu_type :: "os2_exe \<Rightarrow> u16 option" where
  "cpu_type exe = le16 (file_data exe) (unat (le_offset exe) + 8)"

definition target_os :: "os2_exe \<Rightarrow> u16 option" where
  "target_os exe = le16 (file_data exe) (unat (le_offset exe) + 10)"

definition parse_le_data_plain :: "u8 list \<Rightarrow> os2_exe option option" where
  "parse_le_data_plain d = do {
     e_magic \<leftarrow> le16 d 0;
     (if e_magic \<noteq> 0x5A4D then Some None
      else do {
        e_lfanew \<leftarrow> le32 d 60;
        magic \<leftarrow> le16 d (unat e_lfanew);
        (if magic \<noteq> 0x454C \<and> magic \<noteq> 0x584C then Some None
         else do {
           let exe = \<lparr>file_data = d, exe_objects = 0, loaded_objects = [], entry_point = 0, le_offset = e_lfanew\<rparr>;
           _ \<leftarrow> cpu_type exe;
           _ \<leftarrow> target_os exe;
           _ \<leftarrow> object_count exe;
           _ \<leftarrow> eip_object exe;
           _ \<leftarrow> eip exe;
           t \<leftarrow> object_table_offset exe;
           Some (Some (exe\<lparr>exe_objects := unat e_lfanew + unat t\<rparr>))
         })
      })
   }"

text \<open>\<open>calloc\<close> is asked for the 48 bytes of the structure.\<close>

definition parse_le_exe_plain :: "('h, 'm) linux_scheme \<Rightarrow> string \<Rightarrow> 'h \<Rightarrow> (os2_exe option \<times> 'h) option" where
  "parse_le_exe_plain L filename h =
     (case sys_malloc L 48 h of
        (None, h1) \<Rightarrow> Some (None, h1)
      | (Some _, h1) \<Rightarrow>
          (case read_file L filename h1 of
             (None, h2) \<Rightarrow> Some (None, h2)
           | (Some d, h2) \<Rightarrow> map_option (\<lambda>exe. (exe, h2)) (parse_le_data_plain d)))"

definition execute_plain :: "(u64 \<Rightarrow> 'h \<Rightarrow> 'h option) \<Rightarrow> os2_exe \<Rightarrow> 'h \<Rightarrow> 'h option" where
  "execute_plain run exe h = (if entry_point exe = 0 then Some h else run (entry_point exe) h)"

text \<open>\<open>key\<close> is the effect of \<open>getchar\<close> on the host.\<close>

definition main_plain ::
  "('h, 'm) loader_host_scheme \<Rightarrow> ('h \<Rightarrow> 'h) \<Rightarrow> (u64 \<Rightarrow> 'h \<Rightarrow> 'h option) \<Rightarrow> string list \<Rightarrow> 'h \<Rightarrow> (int \<times> 'h) option" where
  "main_plain L key run argv h =
     (if length argv < 2 then Some (1, h)
      else do {
        (parsed, h1) \<leftarrow> parse_le_exe_plain L (argv ! 1) h;
        (case parsed of
           None \<Rightarrow> Some (1, h1)
         | Some exe \<Rightarrow> do {
             (rc, exe1, h2) \<leftarrow> load_objects_plain L exe h1;
             (if rc < 0 then Some (1, free_os2_exe L exe1 h2)
              else do {
                h3 \<leftarrow> execute_plain run exe1 (key h2);
                Some (0, free_os2_exe L exe1 h3)
              })
           })
      })"

text \<open>The two parsers accept the same files, but for files too short to hold what the first one prints.\<close>

lemma parsers_agree:
  "parse_le_data_plain d \<noteq> None \<Longrightarrow> parse_le_data_plain d = parse_le_data d"
  by (auto simp: parse_le_data_plain_def parse_le_data_def bind_eq_None_conv bind_eq_Some_conv Let_def split: if_splits)

section \<open>The test program\<close>

definition OPEN_SHARE_DENYNONE :: u32 where "OPEN_SHARE_DENYNONE = 0x0040"

definition newline :: string where "newline = [CHR 0x0A]"

definition to_bytes :: "string \<Rightarrow> u8 list" where "to_bytes str = map of_char str"

definition test_message :: string where "test_message = ''Hello from OS/2 API!'' @ newline"

definition test_write :: "'h linux \<Rightarrow> 'h os2 \<Rightarrow> (string \<times> 'h os2) option" where
  "test_write L s =
     (case DosOpen L ''test.txt'' (OPEN_ACTION_CREATE_IF_NEW OR OPEN_ACTION_OPEN_IF_EXISTS)
              (OPEN_ACCESS_READWRITE OR OPEN_SHARE_DENYNONE) s of
        (rc, hFile, _, s1) \<Rightarrow>
          if rc = NO_ERROR
          then (case hFile of
                  None \<Rightarrow> None
                | Some hn \<Rightarrow>
                    (case DosWrite_os2 L hn (to_bytes test_message) s1 of
                       (_, _, s2) \<Rightarrow> Some (''Success!'' @ newline @ newline, snd (DosClose L hn s2))))
          else Some ([], s1))"

text \<open>\<open>buffer[bytesRead] = 0\<close> and \<open>%s\<close>: the bytes up to the first zero. Without a count it is an undefined store.\<close>

definition test_read :: "'h linux \<Rightarrow> 'h os2 \<Rightarrow> (string \<times> 'h os2) option" where
  "test_read L s =
     (case DosOpen L ''test.txt'' OPEN_ACTION_OPEN_IF_EXISTS (OPEN_ACCESS_READONLY OR OPEN_SHARE_DENYNONE) s of
        (rc, hFile, _, s1) \<Rightarrow>
          if rc = NO_ERROR
          then (case hFile of
                  None \<Rightarrow> None
                | Some hn \<Rightarrow>
                    (case DosRead L hn 255 s1 of
                       (_, buffer, bytesRead, s2) \<Rightarrow>
                         (case bytesRead of
                            None \<Rightarrow> None
                          | Some n \<Rightarrow>
                              Some (''Read: '' @ map (\<lambda>b. char_of (unat b)) (takeWhile (\<lambda>b. b \<noteq> 0) (take (unat n) buffer)) @
                                    ''Success!'' @ newline @ newline, snd (DosClose L hn s2)))))
          else Some ([], s1))"

definition test_memory :: "'h linux \<Rightarrow> 'h os2 \<Rightarrow> (string \<times> 'h os2) option" where
  "test_memory L s =
     (case DosAllocMem L 1024 s of
        (rc, mem, s1) \<Rightarrow>
          if rc = NO_ERROR
          then (case mem of
                  None \<Rightarrow> None
                | Some p \<Rightarrow> Some (''Memory content: Memory test'' @ newline @ ''Success!'' @ newline @ newline, snd (DosFreeMem L p s1)))
          else Some ([], s1))"

definition transcript :: "string \<Rightarrow> string \<Rightarrow> string \<Rightarrow> string" where
  "transcript out1 out2 out3 =
     ''OS/2 API Emulation Layer Test'' @ newline @ ''=============================='' @ newline @ newline @
     ''Test 1: Create and write to file'' @ newline @ out1 @
     ''Test 2: Read from file'' @ newline @ out2 @
     ''Test 3: Memory allocation'' @ newline @ out3 @
     ''All tests passed!'' @ newline"

definition test_api_main :: "'h linux \<Rightarrow> 'h os2 \<Rightarrow> (string \<times> int \<times> 'h os2) option" where
  "test_api_main L s = do {
     (out1, s1) \<leftarrow> test_write L (init_handle_table s);
     (out2, s2) \<leftarrow> test_read L s1;
     (out3, s3) \<leftarrow> test_memory L s2;
     Some (transcript out1 out2 out3, 0, s3)
   }"

text \<open>A test that fails prints nothing of its own, but the last line always comes.\<close>

lemma always_passes:
  assumes "test_api_main L s = Some (out, rc, t)"
  shows "\<exists>front. out = front @ ''All tests passed!'' @ newline"
  using assms by (auto simp: test_api_main_def transcript_def bind_eq_Some_conv)

section \<open>Hosts with files\<close>

text \<open>\<open>overwrite c o bs\<close> is the file after a write at place \<open>o\<close>.\<close>

definition overwrite :: "u8 list \<Rightarrow> nat \<Rightarrow> u8 list \<Rightarrow> u8 list" where
  "overwrite c off bs = take off c @ bs @ drop (off + length bs) c"

text \<open>The documented behaviour of files: \<open>files\<close> gives their content, \<open>open_at\<close> the file and the place of each open
  descriptor. \<open>open\<close> may be refused, \<open>write\<close> and \<open>read\<close> may fail or be short; what is said is the effect of what they
  report. \<open>close\<close> releases the descriptor whatever it reports.\<close>

type_synonym 'h contents = "'h \<Rightarrow> string \<rightharpoonup> u8 list"
type_synonym 'h places = "'h \<Rightarrow> int \<rightharpoonup> string \<times> nat"

definition opens_files :: "'h linux \<Rightarrow> 'h contents \<Rightarrow> 'h places \<Rightarrow> bool" where
  "opens_files L files open_at \<longleftrightarrow>
     (\<forall>name flags mode h fd h'. sys_open L name flags mode h = (Inr fd, h') \<longrightarrow> flags AND (O_EXCL OR O_TRUNC) = 0 \<longrightarrow>
        0 \<le> fd \<and> open_at h fd = None \<and>
        files h' = (files h)(name \<mapsto> case files h name of None \<Rightarrow> [] | Some c \<Rightarrow> c) \<and>
        open_at h' = (open_at h)(fd \<mapsto> (name, 0)))"

definition writes_files :: "'h linux \<Rightarrow> 'h contents \<Rightarrow> 'h places \<Rightarrow> bool" where
  "writes_files L files open_at \<longleftrightarrow>
     (\<forall>fd bs h k h' name off c. sys_write L fd bs h = (Inr k, h') \<longrightarrow> open_at h fd = Some (name, off) \<longrightarrow>
        files h name = Some c \<longrightarrow> off \<le> length c \<longrightarrow>
        k \<le> length bs \<and> files h' = (files h)(name \<mapsto> overwrite c off (take k bs)) \<and>
        open_at h' = (open_at h)(fd \<mapsto> (name, off + k)))"

definition reads_files :: "'h linux \<Rightarrow> 'h contents \<Rightarrow> 'h places \<Rightarrow> bool" where
  "reads_files L files open_at \<longleftrightarrow>
     (\<forall>fd n h bs h' name off c. sys_read L fd n h = (Inr bs, h') \<longrightarrow> open_at h fd = Some (name, off) \<longrightarrow>
        files h name = Some c \<longrightarrow>
        length bs \<le> n \<and> bs = take (length bs) (drop off c) \<and> files h' = files h \<and>
        open_at h' = (open_at h)(fd \<mapsto> (name, off + length bs)))"

definition closes_files :: "'h linux \<Rightarrow> 'h contents \<Rightarrow> 'h places \<Rightarrow> bool" where
  "closes_files L files open_at \<longleftrightarrow>
     (\<forall>fd h. open_at h fd \<noteq> None \<longrightarrow>
        files (snd (sys_close L fd h)) = files h \<and> open_at (snd (sys_close L fd h)) = (open_at h)(fd := None))"

definition keeps_files :: "'h linux \<Rightarrow> 'h contents \<Rightarrow> 'h places \<Rightarrow> bool" where
  "keeps_files L files open_at \<longleftrightarrow>
     (\<forall>fd h. files (snd (sys_fstat L fd h)) = files h \<and> open_at (snd (sys_fstat L fd h)) = open_at h) \<and>
     (\<forall>n h. files (snd (sys_malloc L n h)) = files h \<and> open_at (snd (sys_malloc L n h)) = open_at h) \<and>
     (\<forall>p h. files (sys_free L p h) = files h \<and> open_at (sys_free L p h) = open_at h)"

definition posix_files :: "'h linux \<Rightarrow> 'h contents \<Rightarrow> 'h places \<Rightarrow> bool" where
  "posix_files L files open_at \<longleftrightarrow>
     opens_files L files open_at \<and> writes_files L files open_at \<and> reads_files L files open_at \<and>
     closes_files L files open_at \<and> keeps_files L files open_at"

lemma posix_filesD:
  assumes "posix_files L files open_at"
  shows "sys_open L name flags mode h = (Inr fd, h') \<Longrightarrow> flags AND (O_EXCL OR O_TRUNC) = 0 \<Longrightarrow>
        0 \<le> fd \<and> open_at h fd = None \<and> files h' = (files h)(name \<mapsto> case files h name of None \<Rightarrow> [] | Some c \<Rightarrow> c) \<and>
           open_at h' = (open_at h)(fd \<mapsto> (name, 0))"
    and "sys_write L fd bs h = (Inr (length bs), h') \<Longrightarrow> open_at h fd = Some (name, off) \<Longrightarrow> files h name = Some c \<Longrightarrow>
        off \<le> length c \<Longrightarrow>
        files h' = (files h)(name \<mapsto> overwrite c off bs) \<and> open_at h' = (open_at h)(fd \<mapsto> (name, off + length bs))"
    and "sys_read L fd n h = (Inr bs, h') \<Longrightarrow> open_at h fd = Some (name, off) \<Longrightarrow> files h name = Some c \<Longrightarrow>
        bs = take (length bs) (drop off c) \<and> files h' = files h \<and> open_at h' = (open_at h)(fd \<mapsto> (name, off + length bs))"
    and "sys_close L fd h = (r, h') \<Longrightarrow> open_at h fd \<noteq> None \<Longrightarrow> files h' = files h \<and> open_at h' = (open_at h)(fd := None)"
    and "files (snd (sys_fstat L fd h)) = files h" "open_at (snd (sys_fstat L fd h)) = open_at h"
    and "sys_malloc L m h = (p, h') \<Longrightarrow> files h' = files h \<and> open_at h' = open_at h"
    and "files (sys_free L q h) = files h" "open_at (sys_free L q h) = open_at h"
proof -
  have laws: "opens_files L files open_at" "writes_files L files open_at" "reads_files L files open_at"
    "closes_files L files open_at" "keeps_files L files open_at" using assms by (simp_all add: posix_files_def)
  show "sys_open L name flags mode h = (Inr fd, h') \<Longrightarrow> flags AND (O_EXCL OR O_TRUNC) = 0 \<Longrightarrow>
        0 \<le> fd \<and> open_at h fd = None \<and> files h' = (files h)(name \<mapsto> case files h name of None \<Rightarrow> [] | Some c \<Rightarrow> c) \<and>
           open_at h' = (open_at h)(fd \<mapsto> (name, 0))"
    using laws(1) unfolding opens_files_def by blast
  show "sys_write L fd bs h = (Inr (length bs), h') \<Longrightarrow> open_at h fd = Some (name, off) \<Longrightarrow> files h name = Some c \<Longrightarrow>
        off \<le> length c \<Longrightarrow>
        files h' = (files h)(name \<mapsto> overwrite c off bs) \<and> open_at h' = (open_at h)(fd \<mapsto> (name, off + length bs))"
    using laws(2) unfolding writes_files_def by (metis order_refl take_all)
  show "sys_read L fd n h = (Inr bs, h') \<Longrightarrow> open_at h fd = Some (name, off) \<Longrightarrow> files h name = Some c \<Longrightarrow>
        bs = take (length bs) (drop off c) \<and> files h' = files h \<and> open_at h' = (open_at h)(fd \<mapsto> (name, off + length bs))"
    using laws(3) unfolding reads_files_def by blast
  show "sys_close L fd h = (r, h') \<Longrightarrow> open_at h fd \<noteq> None \<Longrightarrow> files h' = files h \<and> open_at h' = (open_at h)(fd := None)"
    using laws(4) unfolding closes_files_def by (metis snd_conv)
  show "files (snd (sys_fstat L fd h)) = files h" "open_at (snd (sys_fstat L fd h)) = open_at h"
    "files (sys_free L q h) = files h" "open_at (sys_free L q h) = open_at h"
    using laws(5) unfolding keeps_files_def by blast+
  show "sys_malloc L m h = (p, h') \<Longrightarrow> files h' = files h \<and> open_at h' = open_at h"
    using laws(5) unfolding keeps_files_def by (metis snd_conv)
qed

text \<open>The calls the test program makes, from \<open>h\<close> on, when the host refuses none of them and neither the write nor the
  read falls short: what is read at last, and the host after it, with memory for the third test.\<close>

definition granted_write :: "'h linux \<Rightarrow> 'h \<Rightarrow> 'h option" where
  "granted_write L h =
     (case sys_open L ''test.txt'' (O_RDWR OR O_CREAT) 0x1A4 h of
        (Inl e, h1) \<Rightarrow> None
      | (Inr fd, h1) \<Rightarrow> (case sys_write L fd (to_bytes test_message) (snd (sys_fstat L fd h1)) of
          (Inl e, h2) \<Rightarrow> None
        | (Inr k, h2) \<Rightarrow> (case sys_close L fd h2 of
            (Inl e, h3) \<Rightarrow> None
          | (Inr u, h3) \<Rightarrow> if k = length (to_bytes test_message) then Some h3 else None)))"

definition granted_read :: "'h linux \<Rightarrow> 'h \<Rightarrow> (u8 list \<times> 'h) option" where
  "granted_read L h =
     (case sys_open L ''test.txt'' O_RDONLY 0x1A4 h of
        (Inl e, h1) \<Rightarrow> None
      | (Inr fd, h1) \<Rightarrow> (case sys_read L fd 255 (snd (sys_fstat L fd h1)) of
          (Inl e, h2) \<Rightarrow> None
        | (Inr bs, h2) \<Rightarrow> (case sys_close L fd h2 of
            (Inl e, h3) \<Rightarrow> None
          | (Inr u, h3) \<Rightarrow> Some (bs, h3))))"

definition grants_test :: "'h linux \<Rightarrow> 'h contents \<Rightarrow> 'h \<Rightarrow> bool" where
  "grants_test L files h \<longleftrightarrow>
     (case granted_write L h of
        None \<Rightarrow> False
      | Some h1 \<Rightarrow> (case granted_read L h1 of
          None \<Rightarrow> False
        | Some (bs, h2) \<Rightarrow> map_option (min 255 \<circ> length) (files h1 ''test.txt'') = Some (length bs) \<and>
            fst (sys_malloc L 1024 h2) \<noteq> None))"

section \<open>The test program succeeds\<close>

text \<open>A table whose handle 3 is the first unused one.\<close>

definition third_free :: "'h os2 \<Rightarrow> bool" where
  "third_free s \<longleftrightarrow> handle_table_initialized s \<and> length (handle_table s) = MAX_HANDLES \<and> \<not> in_use (handle_table s ! 3)"

lemma third_free_start: "third_free (init_handle_table (os2_start h))"
  using init_handle_table_fresh [of "os2_start h"]
  by (simp add: third_free_def os2_start_def standard_entry_def MAX_HANDLES_def)

lemma third_free_host [simp]: "third_free (s\<lparr>host := h\<rparr>) = third_free s"
  by (simp add: third_free_def)

definition taken :: "int \<Rightarrow> string \<Rightarrow> 'h \<Rightarrow> 'h os2 \<Rightarrow> 'h os2" where
  "taken fd name h s = s\<lparr>handle_table := (handle_table s)[3 := \<lparr>linux_fd = fd, in_use = True, path = take 255 name\<rparr>], host := h\<rparr>"

lemma open_third:
  assumes "third_free s" "sys_open L name (open_flags fl md) 0x1A4 (host s) = (Inr fd, h)"
  shows "\<exists>act. DosOpen L name fl md s = (NO_ERROR, Some 3, act, taken fd name (snd (sys_fstat L fd h)) s)"
proof -
  have "init_handle_table s = s" using assms(1) by (simp add: third_free_def init_handle_table_again)
  moreover have "allocate_handle fd (Some name) (s\<lparr>host := h\<rparr>) = (3, taken fd name h s)"
    using assms(1) by (simp add: allocate_handle_def allocate_loop.simps third_free_def taken_def MAX_HANDLES_def)
  ultimately show ?thesis using assms(2) by (simp add: DosOpen_def on_host_def Let_def case_prod_beta taken_def)
qed

lemma taken_fd:
  assumes "third_free s"
  shows "get_linux_fd 3 (taken fd name h s) = fd" "host (taken fd name h s) = h"
    "(taken fd name h s)\<lparr>host := h'\<rparr> = taken fd name h' s"
  using assms by (simp_all add: taken_def get_linux_fd_def third_free_def MAX_HANDLES_def)

lemma close_third:
  fixes fd :: int
  assumes "third_free s" "0 \<le> fd" "sys_close L fd h = (Inr (), h')"
  obtains t where "DosClose L 3 (taken fd name h s) = (NO_ERROR, t)" "third_free t" "host t = h'"
proof -
  let ?t = "(taken fd name h' s)\<lparr>handle_table := (handle_table s)[3 := \<lparr>linux_fd = -1, in_use = False, path = []\<rparr>]\<rparr>"
  have "DosClose L 3 (taken fd name h s) = (NO_ERROR, ?t)"
    using assms taken_fd [OF assms(1)]
    by (simp add: DosClose_def on_host_def free_handle_def taken_def third_free_def MAX_HANDLES_def Let_def)
  moreover have "third_free ?t" using assms(1) by (simp add: third_free_def taken_def MAX_HANDLES_def)
  ultimately show thesis using that by (simp add: taken_def)
qed

lemma test_flags:
  "open_flags (OPEN_ACTION_CREATE_IF_NEW OR OPEN_ACTION_OPEN_IF_EXISTS) (OPEN_ACCESS_READWRITE OR OPEN_SHARE_DENYNONE) = O_RDWR OR O_CREAT"
  "open_flags OPEN_ACTION_OPEN_IF_EXISTS (OPEN_ACCESS_READONLY OR OPEN_SHARE_DENYNONE) = O_RDONLY"
  by (simp_all add: open_flags_def OPEN_ACTION_CREATE_IF_NEW_def OPEN_ACTION_OPEN_IF_EXISTS_def OPEN_ACTION_REPLACE_IF_EXISTS_def
      OPEN_ACCESS_READWRITE_def OPEN_ACCESS_READONLY_def OPEN_ACCESS_WRITEONLY_def OPEN_SHARE_DENYNONE_def
      O_RDWR_def O_RDONLY_def O_CREAT_def O_WRONLY_def Let_def)

definition old_content :: "('h \<Rightarrow> string \<rightharpoonup> u8 list) \<Rightarrow> 'h \<Rightarrow> u8 list" where
  "old_content files h = (case files h ''test.txt'' of None \<Rightarrow> [] | Some c \<Rightarrow> c)"

lemma test_write_works:
  assumes posix: "posix_files L files open_at" and s: "third_free s" and granted: "granted_write L (host s) = Some g"
  obtains t where "test_write L s = Some (''Success!'' @ newline @ newline, t)" "third_free t"
    "files (host t) = (files (host s))(''test.txt'' \<mapsto> overwrite (old_content files (host s)) 0 (to_bytes test_message))"
    "open_at (host t) = open_at (host s)" "host t = g"
proof -
  note D = posix_filesD [OF posix]
  have flags: "(O_RDWR OR O_CREAT) AND (O_EXCL OR O_TRUNC) = 0" "(O_RDWR OR O_CREAT) AND O_CREAT \<noteq> 0"
    by (simp_all add: O_RDWR_def O_CREAT_def O_EXCL_def O_TRUNC_def)
  obtain fd h1 h3 where o1: "sys_open L ''test.txt'' (O_RDWR OR O_CREAT) 0x1A4 (host s) = (Inr fd, h1)"
    and w1: "sys_write L fd (to_bytes test_message) (snd (sys_fstat L fd h1)) = (Inr (length (to_bytes test_message)), h3)"
    and c1: "sys_close L fd h3 = (Inr (), g)"
    using granted unfolding granted_write_def by (auto split: prod.splits sum.splits if_splits)
  have o: "sys_open L ''test.txt'' (O_RDWR OR O_CREAT) 0x1A4 (host s) = (Inr fd, h1)" "0 \<le> fd" "open_at (host s) fd = None"
    "files h1 = (files (host s))(''test.txt'' \<mapsto> old_content files (host s))" "open_at h1 = (open_at (host s))(fd \<mapsto> (''test.txt'', 0))"
    using D(1) [OF o1 flags(1)] o1 by (simp_all add: old_content_def)
  let ?h2 = "snd (sys_fstat L fd h1)"
  obtain act where d: "DosOpen L ''test.txt'' (OPEN_ACTION_CREATE_IF_NEW OR OPEN_ACTION_OPEN_IF_EXISTS)
      (OPEN_ACCESS_READWRITE OR OPEN_SHARE_DENYNONE) s = (NO_ERROR, Some 3, act, taken fd ''test.txt'' ?h2 s)"
    using open_third [OF s, of L "''test.txt''"] o(1) test_flags(1) by metis
  have h2: "files ?h2 = files h1" "open_at ?h2 = open_at h1" using D(5,6) by simp_all
  have w: "sys_write L fd (to_bytes test_message) ?h2 = (Inr (length (to_bytes test_message)), h3)"
    "files h3 = (files ?h2)(''test.txt'' \<mapsto> overwrite (old_content files (host s)) 0 (to_bytes test_message))"
    "open_at h3 = (open_at ?h2)(fd \<mapsto> (''test.txt'', length (to_bytes test_message)))"
    using w1 D(2) [OF w1, of "''test.txt''" 0 "old_content files (host s)"] h2 o(4,5) by simp_all
  have c: "sys_close L fd h3 = (Inr (), g)" "files g = files h3" "open_at g = (open_at h3)(fd := None)"
    using c1 D(4) [OF c1] w(3) by simp_all
  obtain t where t: "DosClose L 3 (taken fd ''test.txt'' h3 s) = (NO_ERROR, t)" "third_free t" "host t = g"
    by (rule close_third [OF s o(2) c(1)])
  have "DosWrite_os2 L 3 (to_bytes test_message) (taken fd ''test.txt'' ?h2 s) =
      (NO_ERROR, Some (of_nat (length (to_bytes test_message))), taken fd ''test.txt'' h3 s)"
    using w(1) o(2) taken_fd [OF s] by (simp add: DosWrite_os2_def on_host_def Let_def)
  then have "test_write L s = Some (''Success!'' @ newline @ newline, t)" using d t(1) by (simp add: test_write_def)
  moreover have "files (host t) = (files (host s))(''test.txt'' \<mapsto> overwrite (old_content files (host s)) 0 (to_bytes test_message))"
    using t(3) c(2) w(2) h2(1) o(4) by simp
  moreover have "open_at (host t) = open_at (host s)" using t(3) c(3) w(3) h2(2) o(3,5) by (simp add: fun_upd_idem)
  ultimately show thesis using that t(2,3) by blast
qed

lemma test_read_works:
  assumes posix: "posix_files L files open_at" and s: "third_free s" and f: "files (host s) ''test.txt'' = Some c"
    and granted: "granted_read L (host s) = Some (bs, g)" and len: "length bs = min 255 (length c)"
  obtains t where "test_read L s = Some (''Read: '' @ map (\<lambda>b. char_of (unat b)) (takeWhile (\<lambda>b. b \<noteq> 0) (take 255 c)) @
      ''Success!'' @ newline @ newline, t)" "third_free t"
    "files (host t) = files (host s)" "open_at (host t) = open_at (host s)" "host t = g"
proof -
  note D = posix_filesD [OF posix]
  have flags: "O_RDONLY AND (O_EXCL OR O_TRUNC) = 0" by (simp add: O_RDONLY_def)
  obtain fd h1 h3 where o1: "sys_open L ''test.txt'' O_RDONLY 0x1A4 (host s) = (Inr fd, h1)"
    and r1: "sys_read L fd 255 (snd (sys_fstat L fd h1)) = (Inr bs, h3)" and c1: "sys_close L fd h3 = (Inr (), g)"
    using granted unfolding granted_read_def by (auto split: prod.splits sum.splits if_splits)
  have o: "sys_open L ''test.txt'' O_RDONLY 0x1A4 (host s) = (Inr fd, h1)" "0 \<le> fd" "open_at (host s) fd = None"
    "files h1 = files (host s)" "open_at h1 = (open_at (host s))(fd \<mapsto> (''test.txt'', 0))"
    using o1 D(1) [OF o1 flags] f by (simp_all add: fun_upd_idem)
  let ?h2 = "snd (sys_fstat L fd h1)"
  obtain act where d: "DosOpen L ''test.txt'' OPEN_ACTION_OPEN_IF_EXISTS (OPEN_ACCESS_READONLY OR OPEN_SHARE_DENYNONE) s =
      (NO_ERROR, Some 3, act, taken fd ''test.txt'' ?h2 s)"
    using open_third [OF s, of L "''test.txt''"] o(1) test_flags(2) by metis
  have h2: "files ?h2 = files h1" "open_at ?h2 = open_at h1" using D(5,6) by simp_all
  have min_take: "take (min 255 (length c)) c = take 255 c" by (cases "length c \<le> 255") simp_all
  have bs: "bs = take 255 c"
    using D(3) [OF r1, of "''test.txt''" 0 c] h2 o(4,5) f by (simp add: len min_take)
  have r: "sys_read L fd 255 ?h2 = (Inr (take 255 c), h3)" "files h3 = files ?h2"
    "open_at h3 = (open_at ?h2)(fd \<mapsto> (''test.txt'', length (take 255 c)))"
    using r1 D(3) [OF r1, of "''test.txt''" 0 c] h2 o(4,5) f unfolding bs by simp_all
  have cl: "sys_close L fd h3 = (Inr (), g)" "files g = files h3" "open_at g = (open_at h3)(fd := None)"
    using c1 D(4) [OF c1] r(3) by simp_all
  obtain t where t: "DosClose L 3 (taken fd ''test.txt'' h3 s) = (NO_ERROR, t)" "third_free t" "host t = g"
    by (rule close_third [OF s o(2) cl(1)])
  have take_min: "take (min (length c) 255) c = take 255 c" by (cases "length c \<le> 255") simp_all
  have "unat (of_nat (length (take 255 c)) :: u32) = length (take 255 c)"
    by (simp add: unsigned_of_nat take_bit_nat_eq_self min_def)
  moreover have "DosRead L 3 255 (taken fd ''test.txt'' ?h2 s) =
      (NO_ERROR, take 255 c, Some (of_nat (length (take 255 c))), taken fd ''test.txt'' h3 s)"
    using r(1) o(2) taken_fd [OF s] by (simp add: DosRead_def on_host_def Let_def)
  ultimately have "test_read L s = Some (''Read: '' @ map (\<lambda>b. char_of (unat b)) (takeWhile (\<lambda>b. b \<noteq> 0) (take 255 c)) @
      ''Success!'' @ newline @ newline, t)"
    using d t(1) take_min by (simp add: test_read_def)
  moreover have "open_at (host t) = open_at (host s)" using t(3) cl(3) r(3) h2(2) o(3,5) by (simp add: fun_upd_idem)
  ultimately show thesis using that t(2,3) cl(2) r(2) h2(1) o(4) by simp
qed

definition success :: string where "success = ''Success!'' @ newline @ newline"

definition all_passed :: "u8 list \<Rightarrow> string" where
  "all_passed c = transcript success
     (''Read: '' @ map (\<lambda>b. char_of (unat b)) (takeWhile (\<lambda>b. b \<noteq> 0) (take 255 c)) @ success)
     (''Memory content: Memory test'' @ newline @ success)"

text \<open>C37: On any host whose files behave as documented (\<open>posix_files\<close>) and that in this run refuses none of the calls,
  writes and reads as much as it is asked to and has memory (\<open>grants_test\<close>), the test program returns 0 and reports
  success of every step: what it reads back through a second handle is what it wrote through the first, followed by what an older, longer file held;
  nothing but that file has changed and no descriptor is left open.\<close>

theorem test_api_main_succeeds:
  assumes "posix_files L files open_at" "grants_test L files h"
  shows "\<exists>t. test_api_main L (os2_start h) = Some (all_passed (overwrite (old_content files h) 0 (to_bytes test_message)), 0, t) \<and>
    files (host t) = (files h)(''test.txt'' \<mapsto> overwrite (old_content files h) 0 (to_bytes test_message)) \<and>
    open_at (host t) = open_at h"
proof -
  let ?c = "overwrite (old_content files h) 0 (to_bytes test_message)"
  have h: "host (init_handle_table (os2_start h)) = h" by (simp add: os2_start_def)
  obtain h1 bs h2 p h3 where g: "granted_write L h = Some h1" "granted_read L h1 = Some (bs, h2)"
    and len: "map_option (min 255 \<circ> length) (files h1 ''test.txt'') = Some (length bs)" and p: "sys_malloc L 1024 h2 = (Some p, h3)"
    using assms(2) unfolding grants_test_def by (auto split: option.splits) (metis prod.collapse)
  obtain s1 where s1: "test_write L (init_handle_table (os2_start h)) = Some (''Success!'' @ newline @ newline, s1)" "third_free s1"
    "files (host s1) = (files h)(''test.txt'' \<mapsto> ?c)" "open_at (host s1) = open_at h"
    "host s1 = h1"
    by (rule test_write_works [OF assms(1) third_free_start [of h], unfolded h, OF g(1)], rule that)
  have f: "files (host s1) ''test.txt'' = Some ?c" using s1(3) by simp
  have bs: "length bs = min 255 (length ?c)" using len f s1(5) by simp
  obtain s2 where s2: "test_read L s1 = Some (''Read: '' @ map (\<lambda>b. char_of (unat b)) (takeWhile (\<lambda>b. b \<noteq> 0) (take 255 ?c)) @
      ''Success!'' @ newline @ newline, s2)" "third_free s2" "files (host s2) = files (host s1)" "open_at (host s2) = open_at (host s1)"
    "host s2 = h2"
    by (rule test_read_works [OF assms(1) s1(2) f g(2) [folded s1(5)] bs], rule that)
  have m: "sys_malloc L (ucast (1024 :: u32)) (host s2) = (Some p, h3)" "files h3 = files (host s2)" "open_at h3 = open_at (host s2)"
    using p posix_filesD(7) [OF assms(1) p] s2(5) by simp_all
  have "test_memory L s2 = Some (''Memory content: Memory test'' @ newline @ ''Success!'' @ newline @ newline,
      s2\<lparr>host := sys_free L p h3\<rparr>)"
    using m(1) by (simp add: test_memory_def DosAllocMem_def DosFreeMem_def on_host_def)
  then have "test_api_main L (os2_start h) = Some (all_passed ?c, 0, s2\<lparr>host := sys_free L p h3\<rparr>)"
    using s1(1) s2(1) by (simp only: test_api_main_def all_passed_def success_def Option.bind_lunit prod.case)
  then show ?thesis using s1(3,4) s2(3,4) m(2,3) posix_filesD(8,9) [OF assms(1), of p h3] by auto
qed

text \<open>A host with files.\<close>

type_synonym disk = "(string \<rightharpoonup> u8 list) \<times> (int \<times> string \<times> nat) list"

definition disk_linux :: "disk linux" where
  "disk_linux =
     \<lparr>sys_open = (\<lambda>name flags mode (fs, ds).
        if fs name = None \<and> flags AND O_CREAT = 0 then (Inl ENOENT, (fs, ds))
        else let fd = foldr max (map fst ds) 2 + 1
             in (Inr fd, (fs(name \<mapsto> case fs name of None \<Rightarrow> [] | Some c \<Rightarrow> c), (fd, name, 0) # ds))),
      sys_read = (\<lambda>fd n (fs, ds). case map_of ds fd of
          None \<Rightarrow> (Inl EBADF, (fs, ds))
        | Some (name, off) \<Rightarrow> (let bs = take n (drop off (case fs name of None \<Rightarrow> [] | Some c \<Rightarrow> c))
                              in (Inr bs, (fs, (fd, name, off + length bs) # ds)))),
      sys_write = (\<lambda>fd bs (fs, ds). case map_of ds fd of
          None \<Rightarrow> (Inl EBADF, (fs, ds))
        | Some (name, off) \<Rightarrow> (Inr (length bs), (fs(name \<mapsto> overwrite (case fs name of None \<Rightarrow> [] | Some c \<Rightarrow> c) off bs),
                              (fd, name, off + length bs) # ds))),
      sys_close = (\<lambda>fd (fs, ds). if map_of ds fd = None then (Inl EBADF, (fs, ds))
                                 else (Inr (), (fs, filter (\<lambda>d. fst d \<noteq> fd) ds))),
      sys_lseek = (\<lambda>fd d w h. (Inr 0, h)),
      sys_fstat = (\<lambda>fd h. (True, h)),
      sys_unlink = (\<lambda>name h. (Inl ENOENT, h)),
      sys_usleep = (\<lambda>n h. h),
      sys_malloc = (\<lambda>n h. (Some 0x1000, h)),
      sys_free = (\<lambda>p h. h)\<rparr>"

lemma fresh_descriptor: "map_of ds (foldr max (map fst ds) (2 :: int) + 1) = None"
proof -
  have "foldr max (map fst ds) 2 + 1 \<notin> set (map fst ds)"
    using foldr_max_upper(1) [of "foldr max (map fst ds) 2 + 1" "map fst ds" 2] by fastforce
  then show ?thesis by (simp add: map_of_eq_None_iff)
qed

lemma map_of_closed: "map_of (filter (\<lambda>d. fst d \<noteq> k) ds) = (map_of ds)(k := None)"
  by (induction ds) auto

lemma disk_posix: "posix_files disk_linux fst (\<lambda>(fs, ds). map_of ds)"
proof -
  have short: "take (min (length c - off) n) (drop off c) = take n (drop off c)" for c :: "u8 list" and off n
    by (cases "length c - off \<le> n") simp_all
  have low: "(0 :: int) \<le> foldr max xs 2 + 1" for xs using foldr_max_upper(2) [of 2 xs] by simp
  have "opens_files disk_linux fst (\<lambda>(fs, ds). map_of ds)"
    unfolding opens_files_def using fresh_descriptor low by (auto simp: disk_linux_def Let_def)
  moreover have "writes_files disk_linux fst (\<lambda>(fs, ds). map_of ds)" "reads_files disk_linux fst (\<lambda>(fs, ds). map_of ds)"
    by (auto simp: writes_files_def reads_files_def disk_linux_def Let_def short)
  moreover have "closes_files disk_linux fst (\<lambda>(fs, ds). map_of ds)"
    by (auto simp: closes_files_def disk_linux_def map_of_closed)
  moreover have "keeps_files disk_linux fst (\<lambda>(fs, ds). map_of ds)" by (auto simp: keeps_files_def disk_linux_def)
  ultimately show ?thesis by (simp add: posix_files_def)
qed

theorem test_api_main_succeeds_witness:
  "\<exists>t. test_api_main disk_linux (os2_start (Map.empty, [])) = Some (all_passed (to_bytes test_message), 0, t) \<and>
     fst (host t) ''test.txt'' = Some (to_bytes test_message)"
proof -
  have "grants_test disk_linux fst (Map.empty, [])" by code_simp
  from test_api_main_succeeds [OF disk_posix this] show ?thesis by (auto simp: old_content_def overwrite_def)
qed

end
