(* ===== verification/Os2_Calls.thy ===== *)
theory Os2_Calls
  imports Os2_Api
begin

text \<open>
  The calls of \<open>os2_emulator.c\<close> and those built into the loader \<open>os2_with_api.c\<close>, compared: whatever a program calls,
  it gets the same answers from both, but for the action \<open>DosOpen\<close> reports.
\<close>

section \<open>Answers\<close>

text \<open>The return code, the bytes read, and the handle, count, position or address given back. The action of \<open>DosOpen\<close> is
  not among them.\<close>

type_synonym answer = "u32 \<times> u8 list \<times> u64 option"

fun os2_answer :: "'h linux \<Rightarrow> os2_call \<Rightarrow> 'h os2 \<Rightarrow> answer \<times> 'h os2" where
  "os2_answer L (Open name fl md) s = (case DosOpen L name fl md s of (rc, hn, act, t) \<Rightarrow> ((rc, [], map_option ucast hn), t))"
| "os2_answer L (Read hn n) s = (case DosRead L hn n s of (rc, bs, k, t) \<Rightarrow> ((rc, bs, map_option ucast k), t))"
| "os2_answer L (Write hn bs) s = (case DosWrite_os2 L hn bs s of (rc, k, t) \<Rightarrow> ((rc, [], map_option ucast k), t))"
| "os2_answer L (Close hn) s = (case DosClose L hn s of (rc, t) \<Rightarrow> ((rc, [], None), t))"
| "os2_answer L (Seek hn d w) s = (case DosSetFilePtr L hn d w s of (rc, k, t) \<Rightarrow> ((rc, [], map_option ucast k), t))"
| "os2_answer L (Delete name) s = (case DosDelete L name s of (rc, t) \<Rightarrow> ((rc, [], None), t))"
| "os2_answer L (Sleep n) s = (case DosSleep L n s of (rc, t) \<Rightarrow> ((rc, [], None), t))"
| "os2_answer L (Alloc n) s = (case DosAllocMem L n s of (rc, p, t) \<Rightarrow> ((rc, [], p), t))"
| "os2_answer L (Free p) s = (case DosFreeMem L p s of (rc, t) \<Rightarrow> ((rc, [], None), t))"

fun api_answer :: "'h linux \<Rightarrow> os2_call \<Rightarrow> 'h os2 \<Rightarrow> answer \<times> 'h os2" where
  "api_answer L (Open name fl md) s =
     (case DosOpen_api L name fl md s of (rc, hn, act, t) \<Rightarrow> ((rc, [], map_option ucast hn), t))"
| "api_answer L (Read hn n) s = (case DosRead_api L hn n s of (rc, bs, k, t) \<Rightarrow> ((rc, bs, map_option ucast k), t))"
| "api_answer L (Write hn bs) s = (case DosWrite_api L hn bs s of (rc, k, t) \<Rightarrow> ((rc, [], map_option ucast k), t))"
| "api_answer L (Close hn) s = (case DosClose_api L hn s of (rc, t) \<Rightarrow> ((rc, [], None), t))"
| "api_answer L (Seek hn d w) s = (case DosSetFilePtr_api L hn d w s of (rc, k, t) \<Rightarrow> ((rc, [], map_option ucast k), t))"
| "api_answer L (Delete name) s = (case DosDelete_api L name s of (rc, t) \<Rightarrow> ((rc, [], None), t))"
| "api_answer L (Sleep n) s = (case DosSleep_api L n s of (rc, t) \<Rightarrow> ((rc, [], None), t))"
| "api_answer L (Alloc n) s = (case DosAllocMem_api L n s of (rc, p, t) \<Rightarrow> ((rc, [], p), t))"
| "api_answer L (Free p) s = (case DosFreeMem_api L p s of (rc, t) \<Rightarrow> ((rc, [], None), t))"

fun run_calls :: "('c \<Rightarrow> 's \<Rightarrow> 'a \<times> 's) \<Rightarrow> 'c list \<Rightarrow> 's \<Rightarrow> 'a list \<times> 's" where
  "run_calls step [] s = ([], s)"
| "run_calls step (c # cs) s = (case step c s of (a, t) \<Rightarrow> case run_calls step cs t of (as, u) \<Rightarrow> (a # as, u))"

lemma os2_answer_do: "snd (os2_answer L c s) = os2_do L c s"
  by (cases c) (simp_all split: prod.splits)

section \<open>States that answer alike\<close>

text \<open>The path a handle was opened with is kept for debugging only.\<close>

definition forget :: "'h os2 \<Rightarrow> 'h os2" where
  "forget s = s\<lparr>handle_table := map (\<lambda>e. e\<lparr>path := []\<rparr>) (handle_table s)\<rparr>"

lemma forget_eqD:
  assumes "forget s = forget t"
  shows "host s = host t" "handle_table_initialized s = handle_table_initialized t" "length (handle_table s) = length (handle_table t)"
    "i < length (handle_table t) \<Longrightarrow> in_use (handle_table s ! i) = in_use (handle_table t ! i)"
    "i < length (handle_table t) \<Longrightarrow> linux_fd (handle_table s ! i) = linux_fd (handle_table t ! i)"
proof -
  have tab: "map (\<lambda>e. e\<lparr>path := []\<rparr>) (handle_table s) = map (\<lambda>e. e\<lparr>path := []\<rparr>) (handle_table t)"
    using arg_cong [OF assms, of handle_table] by (simp add: forget_def)
  show "host s = host t" "handle_table_initialized s = handle_table_initialized t"
    using arg_cong [OF assms, of host] arg_cong [OF assms, of handle_table_initialized] by (simp_all add: forget_def)
  show len: "length (handle_table s) = length (handle_table t)" using map_eq_imp_length_eq [OF tab] .
  show "in_use (handle_table s ! i) = in_use (handle_table t ! i)" "linux_fd (handle_table s ! i) = linux_fd (handle_table t ! i)"
    if "i < length (handle_table t)"
  proof -
    have "(handle_table s ! i)\<lparr>path := []\<rparr> = (handle_table t ! i)\<lparr>path := []\<rparr>"
      using arg_cong [OF tab, of "\<lambda>l. l ! i"] that len by simp
    then show "in_use (handle_table s ! i) = in_use (handle_table t ! i)" "linux_fd (handle_table s ! i) = linux_fd (handle_table t ! i)"
      by (cases "handle_table s ! i", cases "handle_table t ! i", simp)+
  qed
qed

lemma forget_eqI:
  assumes "forget s = forget t" "e\<lparr>path := []\<rparr> = f\<lparr>path := []\<rparr>"
  shows "forget (s\<lparr>handle_table := (handle_table s)[i := e]\<rparr>) = forget (t\<lparr>handle_table := (handle_table t)[i := f]\<rparr>)"
  using assms by (cases s, cases t) (simp add: forget_def map_update)

lemma forget_host: "forget s = forget t \<Longrightarrow> forget (s\<lparr>host := h\<rparr>) = forget (t\<lparr>host := h\<rparr>)"
  by (cases s, cases t) (simp add: forget_def)

lemma forget_on_host:
  assumes "forget s = forget t"
  shows "fst (on_host f s) = fst (on_host f t)" "forget (snd (on_host f s)) = forget (snd (on_host f t))"
  using forget_host [OF assms] forget_eqD(1) [OF assms] by (simp_all add: on_host_def split: prod.split)

lemma forget_init:
  assumes "forget s = forget t" "length (handle_table t) = MAX_HANDLES"
  shows "forget (init_handle_table s) = forget (init_handle_table t)"
proof (cases "handle_table_initialized t")
  case True
  then show ?thesis using assms(1) forget_eqD(2) [OF assms(1)] by (simp add: init_handle_table_again)
next
  case False
  then have "\<not> handle_table_initialized s" "length (handle_table s) = MAX_HANDLES"
    using forget_eqD(2,3) [OF assms(1)] assms(2) by simp_all
  then show ?thesis
    using False assms(2) forget_eqD(1) [OF assms(1)] by (cases s, cases t) (simp add: init_handle_table_fresh forget_def)
qed

lemma get_linux_fd_forget:
  "forget s = forget t \<Longrightarrow> length (handle_table t) = MAX_HANDLES \<Longrightarrow> get_linux_fd hn s = get_linux_fd hn t"
  using forget_eqD(4,5) [of s t "unat hn"] by (cases "unat hn < MAX_HANDLES") (simp_all add: get_linux_fd_def)

lemma allocate_forget:
  assumes "forget s = forget t" "length (handle_table t) = MAX_HANDLES"
  shows "fst (allocate_loop i fd p s) = fst (allocate_loop i fd p t) \<and>
    forget (snd (allocate_loop i fd p s)) = forget (snd (allocate_loop i fd p t)) \<and>
    length (handle_table (snd (allocate_loop i fd p t))) = MAX_HANDLES"
  using assms
proof (induction i fd p t rule: allocate_loop.induct)
  case (1 i fd p t)
  show ?case
  proof (cases "i < MAX_HANDLES \<and> in_use (handle_table t ! i)")
    case True
    then show ?thesis
      using 1 forget_eqD(4) [OF "1.prems"(1), of i] by (simp add: allocate_loop.simps [of i])
  next
    case False
    then show ?thesis
      using "1.prems" forget_eqD(4) [OF "1.prems"(1), of i] forget_eqI [OF "1.prems"(1)]
      by (auto simp: allocate_loop.simps [of i])
  qed
qed

section \<open>The same answers\<close>

lemma free_forget:
  assumes "forget s = forget t" "length (handle_table t) = MAX_HANDLES"
  shows "forget (free_handle hn s) = forget (free_handle_api hn t)" "length (handle_table (free_handle_api hn t)) = MAX_HANDLES"
  using assms forget_eqD(4) [OF assms(1), of "unat hn"] forget_eqI [OF assms(1)]
  by (auto simp: free_handle_def free_handle_api_def)

definition open_step :: "'h linux \<Rightarrow> string \<Rightarrow> u32 \<Rightarrow> u32 \<Rightarrow> 'h os2 \<Rightarrow> answer \<times> 'h os2" where
  "open_step L name fl md s =
     (let s0 = init_handle_table s
      in case sys_open L name (open_flags fl md) 0x1A4 (host s0) of
           (Inl err, h) \<Rightarrow> ((errno_to_os2 err, [], None), s0\<lparr>host := h\<rparr>)
         | (Inr fd, h) \<Rightarrow>
             let (os2_handle, s2) = allocate_handle fd (Some name) (s0\<lparr>host := h\<rparr>)
             in if os2_handle = -1 then ((ERROR_TOO_MANY_OPEN_FILES, [], None), snd (on_host (sys_close L fd) s2))
                else ((NO_ERROR, [], Some (ucast os2_handle)), s2))"

lemma open_steps:
  assumes "\<And>fd h. snd (sys_fstat L fd h) = h"
  shows "os2_answer L (Open name fl md) s = open_step L name fl md s" "api_answer L (Open name fl md) s = open_step L name fl md s"
proof -
  let ?s = "init_handle_table s"
  have stat: "\<exists>ok. on_host (sys_fstat L fd) u = (ok, u)" for fd u
    using assms [of fd "host u"] by (cases "sys_fstat L fd (host u)") (simp add: on_host_def)
  obtain r h where o: "sys_open L name (open_flags fl md) 0x1A4 (host s) = (r, h)" by fastforce
  have "os2_answer L (Open name fl md) s = open_step L name fl md s \<and> api_answer L (Open name fl md) s = open_step L name fl md s"
  proof (cases r)
    case (Inl err)
    then show ?thesis using o by (simp add: DosOpen_def DosOpen_api_def helpers_same open_step_def on_host_def Let_def)
  next
    case (Inr fd)
    obtain hn u where a: "allocate_handle fd (Some name) (?s\<lparr>host := h\<rparr>) = (hn, u)" by fastforce
    obtain ok where "on_host (sys_fstat L fd) u = (ok, u)" using stat by blast
    then show ?thesis using o a Inr
      by (simp add: DosOpen_def DosOpen_api_def helpers_same allocate_handle_same open_step_def on_host_def [of "sys_open _ _ _ _"] Let_def)
  qed
  then show "os2_answer L (Open name fl md) s = open_step L name fl md s" "api_answer L (Open name fl md) s = open_step L name fl md s"
    by simp_all
qed

lemma open_step_forget:
  assumes "forget s = forget t" "length (handle_table t) = MAX_HANDLES"
  shows "fst (open_step L name fl md s) = fst (open_step L name fl md t) \<and>
    forget (snd (open_step L name fl md s)) = forget (snd (open_step L name fl md t)) \<and>
    length (handle_table (snd (open_step L name fl md t))) = MAX_HANDLES"
proof -
  let ?s = "init_handle_table s" and ?t = "init_handle_table t"
  have i: "forget ?s = forget ?t" "host ?s = host ?t" by (rule forget_init [OF assms]) (use forget_eqD(1) [OF assms(1)] in simp)
  have len: "length (handle_table ?t) = MAX_HANDLES"
    using assms(2) by (cases "handle_table_initialized t") (simp_all add: init_handle_table_again init_handle_table_fresh)
  have alloc: "fst (allocate_handle fd p (?s\<lparr>host := h\<rparr>)) = fst (allocate_handle fd p (?t\<lparr>host := h\<rparr>)) \<and>
      forget (snd (allocate_handle fd p (?s\<lparr>host := h\<rparr>))) = forget (snd (allocate_handle fd p (?t\<lparr>host := h\<rparr>))) \<and>
      length (handle_table (snd (allocate_handle fd p (?t\<lparr>host := h\<rparr>)))) = MAX_HANDLES" for fd p h
    using allocate_forget [OF forget_host [OF i(1)], of h] len by (simp add: allocate_handle_def)
  obtain r h where o: "sys_open L name (open_flags fl md) 0x1A4 (host ?t) = (r, h)" by fastforce
  show ?thesis
  proof (cases r)
    case (Inl err)
    then show ?thesis using o i(2) forget_host [OF i(1), of h] len by (simp add: open_step_def)
  next
    case (Inr fd)
    obtain hn u where a: "allocate_handle fd (Some name) (?s\<lparr>host := h\<rparr>) = (hn, u)" by fastforce
    obtain hn' v where b: "allocate_handle fd (Some name) (?t\<lparr>host := h\<rparr>) = (hn', v)" by fastforce
    have uv: "hn = hn'" "forget u = forget v" "length (handle_table v) = MAX_HANDLES"
      using alloc [of fd "Some name" h] a b by simp_all
    have "length (handle_table (snd (on_host (sys_close L fd) v))) = MAX_HANDLES"
      using uv(3) by (simp add: on_host_def split: prod.split)
    then show ?thesis using o i(2) Inr a b uv forget_on_host(2) [OF uv(2), of "sys_close L fd"] by (simp add: open_step_def)
  qed
qed

lemma answers_step:
  assumes stat: "\<And>fd h. snd (sys_fstat L fd h) = h" and same: "forget s = forget t" "length (handle_table t) = MAX_HANDLES"
  shows "fst (os2_answer L c s) = fst (api_answer L c t) \<and> forget (snd (os2_answer L c s)) = forget (snd (api_answer L c t)) \<and>
    length (handle_table (snd (api_answer L c t))) = MAX_HANDLES"
proof -
  note host = forget_eqD(1) [OF same(1)] and fd = get_linux_fd_forget [OF same] and upd = forget_host [OF same(1)]
  have free: "forget (free_handle hn (s\<lparr>host := h\<rparr>)) = forget (free_handle_api hn (t\<lparr>host := h\<rparr>))"
    "length (handle_table (free_handle_api hn (t\<lparr>host := h\<rparr>))) = MAX_HANDLES" for hn h
    by (rule free_forget [OF upd]; simp add: same(2))+
  show ?thesis
  proof (cases c)
    case (Open name fl md)
    show ?thesis unfolding Open open_steps(1) [OF stat] open_steps(2) [OF stat] by (rule open_step_forget [OF same])
  next
    case (Close hn)
    then show ?thesis using same free upd
      by (simp add: DosClose_def DosClose_api_def helpers_same on_host_def host fd Let_def split: prod.split sum.split)
  qed (use same upd in \<open>simp_all add: DosRead_def DosWrite_os2_def DosSetFilePtr_def DosDelete_def DosSleep_def DosAllocMem_def
      DosFreeMem_def DosRead_api_def DosWrite_api_def DosSetFilePtr_api_def DosDelete_api_def DosSleep_api_def DosAllocMem_api_def
      DosFreeMem_api_def helpers_same on_host_def host fd Let_def split: prod.split sum.split option.split\<close>)
qed

lemma run_calls_same:
  assumes stat: "\<And>fd h. snd (sys_fstat L fd h) = h" and same: "forget s = forget t" "length (handle_table t) = MAX_HANDLES"
  shows "fst (run_calls (os2_answer L) cs s) = fst (run_calls (api_answer L) cs t) \<and>
    host (snd (run_calls (os2_answer L) cs s)) = host (snd (run_calls (api_answer L) cs t))"
  using same
proof (induction cs arbitrary: s t)
  case Nil
  then show ?case using forget_eqD(1) [OF Nil(1)] by simp
next
  case (Cons c cs)
  obtain a u where u: "os2_answer L c s = (a, u)" by fastforce
  obtain b v where v: "api_answer L c t = (b, v)" by fastforce
  have uv: "a = b" "forget u = forget v" "length (handle_table v) = MAX_HANDLES"
    using answers_step [OF stat Cons.prems, of c] u v by simp_all
  show ?case using Cons.IH [OF uv(2,3)] u v uv(1)
    by (cases "run_calls (os2_answer L) cs u", cases "run_calls (api_answer L) cs v") simp
qed

text \<open>C38: The calls built into the second loader answer like those of the emulation layer: for every sequence of the shared
  calls from the start of a program, return codes, bytes, handles, counts, positions and addresses are the same, and so is what has
  become of the host. Only the action \<open>DosOpen\<close> reports differs.\<close>

theorem builtin_calls_agree:
  assumes "\<And>fd h. snd (sys_fstat L fd h) = h"
  shows "fst (run_calls (os2_answer L) cs (os2_start h)) = fst (run_calls (api_answer L) cs (os2_start h)) \<and>
    host (snd (run_calls (os2_answer L) cs (os2_start h))) = host (snd (run_calls (api_answer L) cs (os2_start h)))"
  by (rule run_calls_same [OF assms]) (simp_all add: os2_start_def)

text \<open>A file is created by both; the first reports that it existed, the second that it was created.\<close>

theorem builtin_calls_agree_witness:
  "fst (run_calls (os2_answer sample_linux) [Open ''a'' 0x11 2, Close 3, Close 3] (os2_start ([0, 1, 2], []))) =
     [(NO_ERROR, [], Some 3), (NO_ERROR, [], None), (ERROR_INVALID_HANDLE, [], None)] \<and>
   fst (run_calls (api_answer sample_linux) [Open ''a'' 0x11 2, Close 3, Close 3] (os2_start ([0, 1, 2], []))) =
     [(NO_ERROR, [], Some 3), (NO_ERROR, [], None), (ERROR_INVALID_HANDLE, [], None)]"
proof -
  have a: "fst (run_calls (os2_answer sample_linux) [Open ''a'' 0x11 2, Close 3, Close 3] (os2_start ([0, 1, 2], []))) =
     [(NO_ERROR, [], Some 3), (NO_ERROR, [], None), (ERROR_INVALID_HANDLE, [], None)]" by code_simp
  have "snd (sys_fstat sample_linux fd h) = h" for fd h by (simp add: sample_linux_def)
  then show ?thesis using builtin_calls_agree [of sample_linux "[Open ''a'' 0x11 2, Close 3, Close 3]" "([0, 1, 2], [])"] a by simp
qed

lemma actions_differ:
  "fst (snd (snd (DosOpen sample_linux ''a'' 0x11 2 (os2_start ([0, 1, 2], []))))) = Some FILE_EXISTED"
  "fst (snd (snd (DosOpen_api sample_linux ''a'' 0x11 2 (os2_start ([0, 1, 2], []))))) = Some FILE_CREATED"
  by code_simp+

end
