(* ===== verification/Smp_Scheduler.thy ===== *)
theory Smp_Scheduler
  imports Prelude
begin

text \<open>
  The multiprocessor scheduler \<open>side_project/SMPScheduler.cpp\<close>: run queues per processor with a doubly linked list
  per priority. Threads are objects behind pointers, run queues the slots of an array; reading or writing outside an
  object, an undefined shift and waiting for ever are \<open>None\<close>. The functions run to their end one at a time; the
  spinlock itself is also given as a step relation, for processors that run in between each other.
\<close>

section \<open>Priorities\<close>

type_synonym s8 = "8 word"

definition PRTYC_NOCHANGE :: u8 where "PRTYC_NOCHANGE = 0"
definition PRTYC_IDLETIME :: u8 where "PRTYC_IDLETIME = 1"
definition PRTYC_REGULAR :: u8 where "PRTYC_REGULAR = 2"
definition PRTYC_TIMECRITICAL :: u8 where "PRTYC_TIMECRITICAL = 3"
definition PRTYC_FOREGROUNDSERVER :: u8 where "PRTYC_FOREGROUNDSERVER = 4"

definition MAX_CPUS :: nat where "MAX_CPUS = 256"
definition MAX_PRIORITY :: nat where "MAX_PRIORITY = 127"
definition TIME_SLICE_MS :: u64 where "TIME_SLICE_MS = 10"

definition base_priority :: "u8 \<Rightarrow> int" where
  "base_priority cls =
     (if cls = PRTYC_IDLETIME then 0
      else if cls = PRTYC_REGULAR then 32
      else if cls = PRTYC_FOREGROUNDSERVER then 64
      else if cls = PRTYC_TIMECRITICAL then 96
      else 32)"

definition calculate_priority :: "u8 \<Rightarrow> s8 \<Rightarrow> u8" where
  "calculate_priority cls delta =
     (let priority0 = base_priority cls + 16 + sint delta;
          class_min = base_priority cls;
          class_max = base_priority cls + 31;
          priority1 = (if priority0 < class_min then class_min else priority0);
          priority2 = (if priority1 > class_max then class_max else priority1)
      in of_int priority2)"

section \<open>State\<close>

datatype thread_state =
  THREAD_STATE_READY | THREAD_STATE_RUNNING | THREAD_STATE_BLOCKED | THREAD_STATE_SUSPENDED | THREAD_STATE_TERMINATED

type_synonym tptr = nat

record thread =
  tid :: u32
  th_pid :: u32
  priority_class :: u8
  priority_delta :: s8
  effective_priority :: u8
  th_state :: thread_state
  th_cpu_id :: u32
  cpu_affinity_mask :: u32
  time_slice_remaining :: u64
  total_runtime :: u64
  last_scheduled :: u64
  th_next :: "tptr option"
  th_prev :: "tptr option"
  th_numa_node :: u32
  is_16bit :: bool
  is_dos :: bool
  is_win16 :: bool
  th_context :: "nat option"

record cpu_runqueue =
  rq_cpu_id :: u32
  rq_lock :: bool
  queues :: "tptr option list"
  queue_bitmap :: "u32 list"
  rq_current :: "tptr option"
  num_threads :: u32
  rq_load :: u64
  total_switches :: u64
  idle_time :: u64
  rq_numa_node :: u32

record smp =
  threads :: "tptr \<Rightarrow> thread option"
  runqueues :: "cpu_runqueue list"
  num_cpus :: u32
  smp_initialized :: bool
  next_tid :: u32

text \<open>\<open>g_scheduler = {0}\<close>, with no threads.\<close>

definition runqueue0 :: cpu_runqueue where
  "runqueue0 = \<lparr>rq_cpu_id = 0, rq_lock = False, queues = replicate (MAX_PRIORITY + 1) None, queue_bitmap = replicate 4 0,
     rq_current = None, num_threads = 0, rq_load = 0, total_switches = 0, idle_time = 0, rq_numa_node = 0\<rparr>"

definition g_scheduler :: smp where
  "g_scheduler = \<lparr>threads = (\<lambda>_. None), runqueues = replicate MAX_CPUS runqueue0, num_cpus = 0, smp_initialized = False,
     next_tid = 0\<rparr>"

text \<open>Access through pointers.\<close>

definition on_thread :: "(thread \<Rightarrow> thread) \<Rightarrow> tptr \<Rightarrow> smp \<Rightarrow> smp option" where
  "on_thread f p s =
     (case threads s p of None \<Rightarrow> None | Some t \<Rightarrow> Some (s\<lparr>threads := (threads s)(p \<mapsto> f t)\<rparr>))"

definition runqueue :: "nat \<Rightarrow> smp \<Rightarrow> cpu_runqueue option" where
  "runqueue q s = (if q < length (runqueues s) then Some (runqueues s ! q) else None)"

definition on_runqueue :: "(cpu_runqueue \<Rightarrow> cpu_runqueue) \<Rightarrow> nat \<Rightarrow> smp \<Rightarrow> smp option" where
  "on_runqueue f q s =
     (if q < length (runqueues s) then Some (s\<lparr>runqueues := (runqueues s)[q := f (runqueues s ! q)]\<rparr>) else None)"

definition queue_head :: "nat \<Rightarrow> nat \<Rightarrow> smp \<Rightarrow> tptr option option" where
  "queue_head q prio s = do {
     rq \<leftarrow> runqueue q s;
     (if prio < length (queues rq) then Some (queues rq ! prio) else None) }"

definition set_queue_head :: "tptr option \<Rightarrow> nat \<Rightarrow> nat \<Rightarrow> smp \<Rightarrow> smp option" where
  "set_queue_head p q prio s = do {
     rq \<leftarrow> runqueue q s;
     (if prio < length (queues rq) then on_runqueue (\<lambda>rq. rq\<lparr>queues := (queues rq)[prio := p]\<rparr>) q s else None) }"

definition bit_mask :: "nat \<Rightarrow> u32 option" where
  "bit_mask n = (if n < 32 then Some (push_bit n 1) else None)"

definition on_bitmap :: "(u32 \<Rightarrow> u32) \<Rightarrow> nat \<Rightarrow> nat \<Rightarrow> smp \<Rightarrow> smp option" where
  "on_bitmap f q w s = do {
     rq \<leftarrow> runqueue q s;
     (if w < length (queue_bitmap rq)
      then on_runqueue (\<lambda>rq. rq\<lparr>queue_bitmap := (queue_bitmap rq)[w := f (queue_bitmap rq ! w)]\<rparr>) q s else None) }"

section \<open>Affinity\<close>

definition cpu_in_affinity :: "thread \<Rightarrow> nat \<Rightarrow> bool option" where
  "cpu_in_affinity t cpu = map_option (\<lambda>m. cpu_affinity_mask t AND m \<noteq> 0) (bit_mask cpu)"

text \<open>The loop of \<open>find_best_cpu\<close> from \<open>i\<close> on, with \<open>best_cpu\<close> and \<open>min_load\<close>.\<close>

fun best_cpu_loop :: "nat list \<Rightarrow> u32 \<Rightarrow> u32 \<Rightarrow> thread \<Rightarrow> smp \<Rightarrow> u32 option" where
  "best_cpu_loop [] best_cpu min_load t s = Some best_cpu"
| "best_cpu_loop (i # is) best_cpu min_load t s = do {
     inside \<leftarrow> cpu_in_affinity t i;
     (if \<not> inside then best_cpu_loop is best_cpu min_load t s
      else do {
        rq \<leftarrow> runqueue i s;
        let ld = (if rq_numa_node rq = th_numa_node t then (num_threads rq * 3) div 4 else num_threads rq);
        (if ld < min_load then best_cpu_loop is (of_nat i) ld t s else best_cpu_loop is best_cpu min_load t s)
      })
   }"

definition find_best_cpu :: "tptr \<Rightarrow> smp \<Rightarrow> u32 option" where
  "find_best_cpu p s = do { t \<leftarrow> threads s p; best_cpu_loop [0..<unat (num_cpus s)] 0 (- 1) t s }"

section \<open>Queues\<close>

text \<open>A lock that is taken is never given back while the function spins.\<close>

definition acquire_runqueue_lock :: "nat \<Rightarrow> smp \<Rightarrow> smp option" where
  "acquire_runqueue_lock q s = do {
     rq \<leftarrow> runqueue q s;
     (if rq_lock rq then None else on_runqueue (\<lambda>rq. rq\<lparr>rq_lock := True\<rparr>) q s) }"

definition release_runqueue_lock :: "nat \<Rightarrow> smp \<Rightarrow> smp option" where
  "release_runqueue_lock q s = on_runqueue (\<lambda>rq. rq\<lparr>rq_lock := False\<rparr>) q s"

definition enqueue_thread :: "nat \<Rightarrow> tptr \<Rightarrow> smp \<Rightarrow> smp option" where
  "enqueue_thread q p s0 = do {
     s1 \<leftarrow> acquire_runqueue_lock q s0;
     t \<leftarrow> threads s1 p;
     let prio = unat (effective_priority t);
     head \<leftarrow> queue_head q prio s1;
     s2 \<leftarrow> on_thread (\<lambda>t. t\<lparr>th_next := head, th_prev := None\<rparr>) p s1;
     head2 \<leftarrow> queue_head q prio s2;
     s3 \<leftarrow> (case head2 of None \<Rightarrow> Some s2 | Some h \<Rightarrow> on_thread (\<lambda>t. t\<lparr>th_prev := Some p\<rparr>) h s2);
     s4 \<leftarrow> set_queue_head (Some p) q prio s3;
     m \<leftarrow> bit_mask (prio mod 32);
     s5 \<leftarrow> on_bitmap (\<lambda>b. b OR m) q (prio div 32) s4;
     s6 \<leftarrow> on_runqueue (\<lambda>rq. rq\<lparr>num_threads := num_threads rq + 1\<rparr>) q s5;
     s7 \<leftarrow> on_thread (\<lambda>t. t\<lparr>th_state := THREAD_STATE_READY\<rparr>) p s6;
     release_runqueue_lock q s7
   }"

text \<open>What is done to the queue at \<open>prio\<close> when its first thread \<open>p\<close> is taken out.\<close>

definition take_first :: "nat \<Rightarrow> nat \<Rightarrow> nat \<Rightarrow> tptr \<Rightarrow> smp \<Rightarrow> smp option" where
  "take_first q word b p s0 = do {
     let prio = word * 32 + b;
     t \<leftarrow> threads s0 p;
     s1 \<leftarrow> set_queue_head (th_next t) q prio s0;
     s2 \<leftarrow> (case th_next t of None \<Rightarrow> Some s1 | Some n \<Rightarrow> on_thread (\<lambda>t. t\<lparr>th_prev := None\<rparr>) n s1);
     head \<leftarrow> queue_head q prio s2;
     m \<leftarrow> bit_mask b;
     s3 \<leftarrow> (if head = None then on_bitmap (\<lambda>b. b AND NOT m) q word s2 else Some s2);
     s4 \<leftarrow> on_runqueue (\<lambda>rq. rq\<lparr>num_threads := num_threads rq - 1\<rparr>) q s3;
     on_thread (\<lambda>t. t\<lparr>th_next := None, th_prev := None\<rparr>) p s4
   }"

text \<open>The inner loop for \<open>bit = n - 1, \<dots>, 0\<close> and the outer one for \<open>word = n - 1, \<dots>, 0\<close>.\<close>

fun dequeue_bits :: "nat \<Rightarrow> nat \<Rightarrow> u32 \<Rightarrow> nat \<Rightarrow> smp \<Rightarrow> (tptr option \<times> smp) option" where
  "dequeue_bits q word bitmap 0 s = Some (None, s)"
| "dequeue_bits q word bitmap (Suc b) s = do {
     m \<leftarrow> bit_mask b;
     (if bitmap AND m \<noteq> 0
      then do {
        head \<leftarrow> queue_head q (word * 32 + b) s;
        (case head of
           None \<Rightarrow> dequeue_bits q word bitmap b s
         | Some p \<Rightarrow> do { t \<leftarrow> take_first q word b p s; Some (Some p, t) })
      }
      else dequeue_bits q word bitmap b s)
   }"

fun dequeue_words :: "nat \<Rightarrow> nat \<Rightarrow> smp \<Rightarrow> (tptr option \<times> smp) option" where
  "dequeue_words q 0 s = Some (None, s)"
| "dequeue_words q (Suc word) s = do {
     rq \<leftarrow> runqueue q s;
     bitmap \<leftarrow> (if word < length (queue_bitmap rq) then Some (queue_bitmap rq ! word) else None);
     (if bitmap = 0 then dequeue_words q word s
      else do {
        (p, t) \<leftarrow> dequeue_bits q word bitmap 32 s;
        (if p \<noteq> None then Some (p, t) else dequeue_words q word t)
      })
   }"

definition dequeue_highest_priority :: "nat \<Rightarrow> smp \<Rightarrow> (tptr option \<times> smp) option" where
  "dequeue_highest_priority q s0 = do {
     s1 \<leftarrow> acquire_runqueue_lock q s0;
     (p, s2) \<leftarrow> dequeue_words q 4 s1;
     s3 \<leftarrow> release_runqueue_lock q s2;
     Some (p, s3)
   }"

section \<open>Operations\<close>

text \<open>\<open>numa_topology\<close> is an array or the null pointer.\<close>

fun init_runqueues :: "nat list \<Rightarrow> u32 list option \<Rightarrow> smp \<Rightarrow> smp option" where
  "init_runqueues [] numa_topology s = Some s"
| "init_runqueues (i # is) numa_topology s = do {
     node \<leftarrow> (case numa_topology of
                None \<Rightarrow> Some 0
              | Some nodes \<Rightarrow> if i < length nodes then Some (nodes ! i) else None);
     t \<leftarrow> on_runqueue (\<lambda>rq. rq\<lparr>rq_cpu_id := of_nat i, rq_lock := False, num_threads := 0, rq_load := 0, rq_numa_node := node,
            rq_current := None, queues := replicate (MAX_PRIORITY + 1) None, queue_bitmap := replicate 4 0\<rparr>) i s;
     init_runqueues is numa_topology t
   }"

definition sched_init :: "u32 \<Rightarrow> u32 list option \<Rightarrow> smp \<Rightarrow> smp option" where
  "sched_init n numa_topology s =
     (if smp_initialized s then Some s
      else do {
        t \<leftarrow> init_runqueues [0..<unat n] numa_topology (s\<lparr>num_cpus := n\<rparr>);
        Some (t\<lparr>next_tid := 1, smp_initialized := True\<rparr>)
      })"

text \<open>\<open>mem\<close> is what \<open>malloc\<close> returns: an address with whatever the object there holds, or the null pointer.\<close>

definition sched_create_thread ::
  "(tptr \<times> thread) option \<Rightarrow> u32 \<Rightarrow> u8 \<Rightarrow> s8 \<Rightarrow> u32 \<Rightarrow> smp \<Rightarrow> (tptr option \<times> smp) option" where
  "sched_create_thread mem pid cls delta affinity_mask s0 =
     (case mem of
        None \<Rightarrow> Some (None, s0)
      | Some (p, garbage) \<Rightarrow> do {
          let t1 = garbage\<lparr>tid := next_tid s0, th_pid := pid, priority_class := cls, priority_delta := delta,
                     effective_priority := calculate_priority cls delta, th_state := THREAD_STATE_READY\<rparr>;
          let s1 = s0\<lparr>next_tid := next_tid s0 + 1\<rparr>;
          mask \<leftarrow> (if affinity_mask = 0 then map_option (\<lambda>m. m - 1) (bit_mask (unat (num_cpus s1)))
                   else Some affinity_mask);
          let s2 = s1\<lparr>threads := (threads s1)(p \<mapsto> t1\<lparr>cpu_affinity_mask := mask\<rparr>)\<rparr>;
          cpu \<leftarrow> find_best_cpu p s2;
          s3 \<leftarrow> on_thread (\<lambda>t. t\<lparr>th_cpu_id := cpu\<rparr>) p s2;
          rq \<leftarrow> runqueue (unat cpu) s3;
          s4 \<leftarrow> on_thread (\<lambda>t. t\<lparr>th_numa_node := rq_numa_node rq, time_slice_remaining := TIME_SLICE_MS * 1000000,
                  total_runtime := 0, last_scheduled := 0, th_next := None, th_prev := None, is_16bit := False,
                  is_dos := False, is_win16 := False, th_context := None\<rparr>) p s3;
          s5 \<leftarrow> enqueue_thread (unat cpu) p s4;
          Some (Some p, s5)
        })"

definition sched_set_priority :: "tptr option \<Rightarrow> u8 \<Rightarrow> s8 \<Rightarrow> smp \<Rightarrow> (int \<times> smp) option" where
  "sched_set_priority ptr cls delta s0 =
     (case ptr of
        None \<Rightarrow> Some (- 1, s0)
      | Some p \<Rightarrow> do {
          s1 \<leftarrow> (if cls \<noteq> PRTYC_NOCHANGE then on_thread (\<lambda>t. t\<lparr>priority_class := cls\<rparr>) p s0 else Some s0);
          s2 \<leftarrow> on_thread (\<lambda>t. t\<lparr>priority_delta := delta\<rparr>) p s1;
          s3 \<leftarrow> on_thread (\<lambda>t. t\<lparr>effective_priority := calculate_priority (priority_class t) (priority_delta t)\<rparr>) p s2;
          t \<leftarrow> threads s3 p;
          s4 \<leftarrow> (if th_state t = THREAD_STATE_READY then enqueue_thread (unat (th_cpu_id t)) p s3 else Some s3);
          Some (0, s4)
        })"

text \<open>\<open>tsc\<close> is the value of the time stamp counter.\<close>

definition sched_schedule :: "u64 \<Rightarrow> u32 \<Rightarrow> smp \<Rightarrow> (tptr option \<times> smp) option" where
  "sched_schedule tsc cpu_id s0 = do {
     let q = unat cpu_id;
     rq \<leftarrow> runqueue q s0;
     s1 \<leftarrow> (case rq_current rq of
              None \<Rightarrow> Some s0
            | Some p \<Rightarrow> do {
                t \<leftarrow> threads s0 p;
                (if th_state t = THREAD_STATE_RUNNING
                 then do {
                   s \<leftarrow> on_thread (\<lambda>t. t\<lparr>th_state := THREAD_STATE_READY,
                          time_slice_remaining := TIME_SLICE_MS * 1000000\<rparr>) p s0;
                   enqueue_thread q p s
                 }
                 else Some s0) });
     (next, s2) \<leftarrow> dequeue_highest_priority q s1;
     (case next of
        None \<Rightarrow> do { s3 \<leftarrow> on_runqueue (\<lambda>rq. rq\<lparr>rq_current := None\<rparr>) q s2; Some (None, s3) }
      | Some p \<Rightarrow> do {
          s3 \<leftarrow> on_thread (\<lambda>t. t\<lparr>th_state := THREAD_STATE_RUNNING, th_cpu_id := cpu_id, last_scheduled := tsc\<rparr>) p s2;
          s4 \<leftarrow> on_runqueue (\<lambda>rq. rq\<lparr>rq_current := Some p, total_switches := total_switches rq + 1\<rparr>) q s3;
          Some (Some p, s4)
        })
   }"

definition sched_yield :: "u32 \<Rightarrow> smp \<Rightarrow> smp option" where
  "sched_yield cpu_id s0 = do {
     let q = unat cpu_id;
     rq \<leftarrow> runqueue q s0;
     (case rq_current rq of
        None \<Rightarrow> Some s0
      | Some p \<Rightarrow> do {
          s1 \<leftarrow> on_thread (\<lambda>t. t\<lparr>th_state := THREAD_STATE_READY\<rparr>) p s0;
          s2 \<leftarrow> enqueue_thread q p s1;
          on_runqueue (\<lambda>rq. rq\<lparr>rq_current := None\<rparr>) q s2
        })
   }"

definition sched_block :: "u32 \<Rightarrow> smp \<Rightarrow> smp option" where
  "sched_block cpu_id s0 = do {
     let q = unat cpu_id;
     rq \<leftarrow> runqueue q s0;
     (case rq_current rq of
        None \<Rightarrow> Some s0
      | Some p \<Rightarrow> do {
          s1 \<leftarrow> on_thread (\<lambda>t. t\<lparr>th_state := THREAD_STATE_BLOCKED\<rparr>) p s0;
          on_runqueue (\<lambda>rq. rq\<lparr>rq_current := None\<rparr>) q s1
        })
   }"

definition sched_unblock :: "tptr option \<Rightarrow> smp \<Rightarrow> smp option" where
  "sched_unblock ptr s0 =
     (case ptr of
        None \<Rightarrow> Some s0
      | Some p \<Rightarrow> do {
          t \<leftarrow> threads s0 p;
          (if th_state t \<noteq> THREAD_STATE_BLOCKED then Some s0
           else do {
             cpu \<leftarrow> find_best_cpu p s0;
             s1 \<leftarrow> on_thread (\<lambda>t. t\<lparr>th_cpu_id := cpu\<rparr>) p s0;
             enqueue_thread (unat cpu) p s1
           })
        })"

section \<open>Stealing\<close>

text \<open>The candidate \<open>p\<close> with predecessor \<open>prev\<close> is taken out of the list.\<close>

definition unlink_candidate :: "nat \<Rightarrow> nat \<Rightarrow> tptr option \<Rightarrow> tptr \<Rightarrow> smp \<Rightarrow> smp option" where
  "unlink_candidate q prio prev p s0 = do {
     t \<leftarrow> threads s0 p;
     s1 \<leftarrow> (case prev of
              Some pr \<Rightarrow> on_thread (\<lambda>u. u\<lparr>th_next := th_next t\<rparr>) pr s0
            | None \<Rightarrow> set_queue_head (th_next t) q prio s0);
     t1 \<leftarrow> threads s1 p;
     s2 \<leftarrow> (case th_next t1 of None \<Rightarrow> Some s1 | Some n \<Rightarrow> on_thread (\<lambda>u. u\<lparr>th_prev := prev\<rparr>) n s1);
     head \<leftarrow> queue_head q prio s2;
     m \<leftarrow> bit_mask (prio mod 32);
     s3 \<leftarrow> (if head = None then on_bitmap (\<lambda>b. b AND NOT m) q (prio div 32) s2 else Some s2);
     s4 \<leftarrow> on_runqueue (\<lambda>rq. rq\<lparr>num_threads := num_threads rq - 1\<rparr>) q s3;
     on_thread (\<lambda>u. u\<lparr>th_next := None, th_prev := None\<rparr>) p s4
   }"

text \<open>\<open>while (t)\<close> along one list. It need not end: lists may be cyclic.\<close>

partial_function (option) steal_walk ::
  "nat \<Rightarrow> nat \<Rightarrow> nat \<Rightarrow> tptr option \<Rightarrow> tptr option \<Rightarrow> smp \<Rightarrow> (tptr option \<times> smp) option" where
  "steal_walk thief q prio prev ptr s =
     (case ptr of
        None \<Rightarrow> Some (None, s)
      | Some p \<Rightarrow> do {
          t \<leftarrow> threads s p;
          inside \<leftarrow> cpu_in_affinity t thief;
          (if inside then do { u \<leftarrow> unlink_candidate q prio prev p s; Some (Some p, u) }
           else steal_walk thief q prio (Some p) (th_next t) s)
        })"

fun steal_prios :: "nat \<Rightarrow> nat \<Rightarrow> nat list \<Rightarrow> smp \<Rightarrow> (tptr option \<times> smp) option" where
  "steal_prios thief q [] s = Some (None, s)"
| "steal_prios thief q (prio # prios) s = do {
     head \<leftarrow> queue_head q prio s;
     (p, t) \<leftarrow> steal_walk thief q prio None head s;
     (if p \<noteq> None then Some (p, t) else steal_prios thief q prios t)
   }"

fun steal_cpus :: "u32 \<Rightarrow> u32 \<Rightarrow> nat list \<Rightarrow> smp \<Rightarrow> (tptr option \<times> smp) option" where
  "steal_cpus thief thief_load [] s = Some (None, s)"
| "steal_cpus thief thief_load (i # is) s =
     (if of_nat i = thief then steal_cpus thief thief_load is s
      else do {
        rq \<leftarrow> runqueue i s;
        (if num_threads rq < thief_load + 2 then steal_cpus thief thief_load is s
         else do {
           s1 \<leftarrow> acquire_runqueue_lock i s;
           (p, s2) \<leftarrow> steal_prios (unat thief) i [0..<MAX_PRIORITY + 1] s1;
           s3 \<leftarrow> release_runqueue_lock i s2;
           (if p \<noteq> None then Some (p, s3) else steal_cpus thief thief_load is s3)
         })
      })"

definition steal_thread :: "nat \<Rightarrow> smp \<Rightarrow> (tptr option \<times> smp) option" where
  "steal_thread q s = do {
     rq \<leftarrow> runqueue q s;
     steal_cpus (rq_cpu_id rq) (num_threads rq) [0..<unat (num_cpus s)] s
   }"

definition sched_balance_load :: "u32 \<Rightarrow> smp \<Rightarrow> smp option" where
  "sched_balance_load cpu_id s0 = do {
     let q = unat cpu_id;
     rq \<leftarrow> runqueue q s0;
     (if num_threads rq < 2
      then do {
        (stolen, s1) \<leftarrow> steal_thread q s0;
        (case stolen of
           None \<Rightarrow> Some s1
         | Some p \<Rightarrow> do {
             s2 \<leftarrow> on_thread (\<lambda>t. t\<lparr>th_cpu_id := cpu_id\<rparr>) p s1;
             enqueue_thread q p s2
           })
      }
      else Some s0)
   }"

end
