(* ===== verification/Smp_Queues.thy ===== *)
theory Smp_Queues
  imports Smp_Scheduler Interfaces
begin

text \<open>
  The run queues of \<open>side_project/SMPScheduler.cpp\<close> as lists of threads. \<open>smp_abs s Q\<close> says that the linked lists,
  bitmaps and counters of \<open>s\<close> stand for the lists \<open>Q cpu priority\<close>; every operation is then described on the lists.
\<close>

section \<open>Lists in the heap\<close>

type_synonym heap = "tptr \<Rightarrow> thread option"

text \<open>\<open>dseg h pr first ps stop\<close>: from \<open>first\<close>, whose predecessor is \<open>pr\<close>, the links lead through \<open>ps\<close> to \<open>stop\<close>.\<close>

fun dseg :: "heap \<Rightarrow> tptr option \<Rightarrow> tptr option \<Rightarrow> tptr list \<Rightarrow> tptr option \<Rightarrow> bool" where
  "dseg h pr first [] stop \<longleftrightarrow> first = stop"
| "dseg h pr first (p # ps) stop \<longleftrightarrow>
     first = Some p \<and> (\<exists>t. h p = Some t \<and> th_prev t = pr \<and> dseg h (Some p) (th_next t) ps stop)"

definition before :: "tptr option \<Rightarrow> tptr list \<Rightarrow> tptr option" where
  "before pr ps = (if ps = [] then pr else Some (last ps))"

lemma before_simps [simp]: "before pr [] = pr" "before pr (p # ps) = before (Some p) ps"
  by (simp_all add: before_def)

lemma before_in: "before None ps = Some p \<Longrightarrow> p \<in> set ps"
  by (auto simp: before_def split: if_splits)

abbreviation dll :: "heap \<Rightarrow> tptr option \<Rightarrow> tptr list \<Rightarrow> bool" where
  "dll h first ps \<equiv> dseg h None first ps None"

lemma dseg_append: "dseg h pr first (ps @ qs) stop \<longleftrightarrow> (\<exists>m. dseg h pr first ps m \<and> dseg h (before pr ps) m qs stop)"
  by (induction ps arbitrary: pr first) auto

definition links :: "heap \<Rightarrow> tptr \<Rightarrow> (tptr option \<times> tptr option) option" where
  "links h p = map_option (\<lambda>t. (th_next t, th_prev t)) (h p)"

lemma dseg_Cons_links:
  "dseg h pr first (p # ps) stop \<longleftrightarrow> first = Some p \<and> (\<exists>n. links h p = Some (n, pr) \<and> dseg h (Some p) n ps stop)"
  by (auto simp: links_def)

lemma dseg_cong:
  "(\<And>p. p \<in> set ps \<Longrightarrow> links h p = links h' p) \<Longrightarrow> dseg h pr first ps stop = dseg h' pr first ps stop"
  by (induction ps arbitrary: pr first) (simp_all add: dseg_Cons_links del: dseg.simps(2))

lemma dll_first: "dll h first ps \<Longrightarrow> first = (if ps = [] then None else Some (hd ps))"
  by (cases ps) simp_all

lemma links_upd: "links (h(p \<mapsto> t)) x = (if x = p then Some (th_next t, th_prev t) else links h x)"
  by (simp add: links_def)

section \<open>Run queues as lists\<close>

definition queued :: "heap \<Rightarrow> nat \<Rightarrow> nat \<Rightarrow> tptr \<Rightarrow> bool" where
  "queued h q k p \<longleftrightarrow>
     (\<exists>t. h p = Some t \<and> th_state t = THREAD_STATE_READY \<and> unat (effective_priority t) = k \<and> unat (th_cpu_id t) = q)"

definition queue_ok :: "heap \<Rightarrow> nat \<Rightarrow> cpu_runqueue \<Rightarrow> (nat \<Rightarrow> tptr list) \<Rightarrow> bool" where
  "queue_ok h q rq Qs \<longleftrightarrow>
     length (queues rq) = 128 \<and> length (queue_bitmap rq) = 4 \<and>
     num_threads rq = of_nat (\<Sum>k<128. length (Qs k)) \<and>
     (\<forall>k<128. dll h (queues rq ! k) (Qs k) \<and> distinct (Qs k) \<and> (\<forall>p\<in>set (Qs k). queued h q k p) \<and>
        (bit (queue_bitmap rq ! (k div 32)) (k mod 32) \<longleftrightarrow> Qs k \<noteq> []))"

definition smp_view :: "smp \<Rightarrow> (nat \<Rightarrow> nat \<Rightarrow> tptr list) \<Rightarrow> bool" where
  "smp_view s Q \<longleftrightarrow> length (runqueues s) = 256 \<and> (\<forall>q<256. queue_ok (threads s) q (runqueues s ! q) (Q q))"

definition smp_abs :: "smp \<Rightarrow> (nat \<Rightarrow> nat \<Rightarrow> tptr list) \<Rightarrow> bool" where
  "smp_abs s Q \<longleftrightarrow> smp_view s Q \<and> (\<forall>q<256. \<not> rq_lock (runqueues s ! q))"

lemma queued_unique: "queued h q k p \<Longrightarrow> queued h q' k' p \<Longrightarrow> q' = q \<and> k' = k"
  by (auto simp: queued_def)

lemma queue_okD:
  assumes "queue_ok h q rq Qs"
  shows "length (queues rq) = 128" "length (queue_bitmap rq) = 4"
    "num_threads rq = of_nat (\<Sum>k<128. length (Qs k))"
    "k < 128 \<Longrightarrow> dll h (queues rq ! k) (Qs k)" "k < 128 \<Longrightarrow> distinct (Qs k)"
    "k < 128 \<Longrightarrow> p \<in> set (Qs k) \<Longrightarrow> queued h q k p"
    "k < 128 \<Longrightarrow> bit (queue_bitmap rq ! (k div 32)) (k mod 32) \<longleftrightarrow> Qs k \<noteq> []"
  using assms by (auto simp: queue_ok_def)

lemma smp_viewD:
  assumes "smp_view s Q"
  shows "length (runqueues s) = 256" "q < 256 \<Longrightarrow> queue_ok (threads s) q (runqueues s ! q) (Q q)"
  using assms by (auto simp: smp_view_def)

lemma smp_absD:
  assumes "smp_abs s Q"
  shows "length (runqueues s) = 256" "q < 256 \<Longrightarrow> \<not> rq_lock (runqueues s ! q)"
    "q < 256 \<Longrightarrow> queue_ok (threads s) q (runqueues s ! q) (Q q)"
  using assms by (auto simp: smp_abs_def smp_view_def)

text \<open>Threads outside a queue, and links apart, do not matter to it.\<close>

lemma queue_ok_cong:
  assumes "queue_ok h q rq Qs"
    and "\<And>k p. k < 128 \<Longrightarrow> p \<in> set (Qs k) \<Longrightarrow> links h' p = links h p \<and> (queued h q k p \<longrightarrow> queued h' q k p)"
  shows "queue_ok h' q rq Qs"
  unfolding queue_ok_def
proof (intro conjI allI impI)
  fix k assume k: "k < (128 :: nat)"
  show "dll h' (queues rq ! k) (Qs k)"
    using queue_okD(4) [OF assms(1) k] dseg_cong [of "Qs k" h' h] assms(2) [OF k] by blast
  show "\<forall>p\<in>set (Qs k). queued h' q k p" using queue_okD(6) [OF assms(1) k] assms(2) [OF k] by blast
qed (use queue_okD [OF assms(1)] in auto)

text \<open>One queue of one processor changes.\<close>

lemma queue_ok_change:
  assumes "queue_ok h q rq Qs" "k < 128"
    and "\<And>j p. j < 128 \<Longrightarrow> j \<noteq> k \<Longrightarrow> p \<in> set (Qs j) \<Longrightarrow> links h' p = links h p \<and> (queued h q j p \<longrightarrow> queued h' q j p)"
    and "dll h' first ps" "distinct ps" "\<And>p. p \<in> set ps \<Longrightarrow> queued h' q k p"
    and "n + of_nat (length (Qs k)) = num_threads rq + of_nat (length ps)"
    and "\<And>j. j < 32 \<Longrightarrow> bit w j \<longleftrightarrow> (if j = k mod 32 then ps \<noteq> [] else bit (queue_bitmap rq ! (k div 32)) j)"
  shows "queue_ok h' q (rq\<lparr>queues := (queues rq)[k := first], queue_bitmap := (queue_bitmap rq)[k div 32 := w],
           num_threads := n\<rparr>) (Qs(k := ps))"
    (is "queue_ok h' q ?rq ?Qs")
proof -
  have "(\<Sum>j<128. length (?Qs j)) + length (Qs k) = (\<Sum>j<128. length (Qs j)) + length ps"
    using assms(2) by (simp add: sum.remove [where x = k])
  then have "(of_nat (\<Sum>j<128. length (?Qs j)) :: u32) + of_nat (length (Qs k)) =
      of_nat (\<Sum>j<128. length (Qs j)) + of_nat (length ps)"
    by (metis of_nat_add)
  then have num: "n = of_nat (\<Sum>j<128. length (?Qs j))"
    using assms(7) queue_okD(3) [OF assms(1)] by (metis add_right_cancel)
  have rows: "dll h' (queues ?rq ! j) (?Qs j) \<and> distinct (?Qs j) \<and> (\<forall>p\<in>set (?Qs j). queued h' q j p) \<and>
      (bit (queue_bitmap ?rq ! (j div 32)) (j mod 32) \<longleftrightarrow> ?Qs j \<noteq> [])" if j: "j < 128" for j
  proof (cases "j = k")
    case True
    have "k div 32 < 4" using assms(2) by (simp add: less_mult_imp_div_less)
    then show ?thesis using True assms(2,4,5,6) assms(8) [of "k mod 32"] queue_okD(1,2) [OF assms(1)] by simp
  next
    case False
    have "dll h' (queues rq ! j) (Qs j)"
      using queue_okD(4) [OF assms(1) j] dseg_cong [of "Qs j" h' h] assms(3) [OF j False] by blast
    moreover have "\<forall>p\<in>set (Qs j). queued h' q j p"
      using queue_okD(6) [OF assms(1) j] assms(3) [OF j False] by blast
    moreover have "bit (queue_bitmap ?rq ! (j div 32)) (j mod 32) \<longleftrightarrow> bit (queue_bitmap rq ! (j div 32)) (j mod 32)"
    proof (cases "j div 32 = k div 32")
      case True
      have "j mod 32 \<noteq> k mod 32"
        using True False by (metis div_mult_mod_eq)
      moreover have "k div 32 < 4" using assms(2) by (simp add: less_mult_imp_div_less)
      ultimately show ?thesis using True assms(8) [of "j mod 32"] queue_okD(2) [OF assms(1)] by simp
    qed simp
    ultimately show ?thesis using False queue_okD(5,7) [OF assms(1) j] by simp
  qed
  show ?thesis unfolding queue_ok_def using rows num queue_okD(1,2) [OF assms(1)] by simp
qed

section \<open>Taking and giving\<close>

lemmas smp_access = on_thread_def runqueue_def on_runqueue_def queue_head_def set_queue_head_def bit_mask_def on_bitmap_def
  acquire_runqueue_lock_def release_runqueue_lock_def

lemma unlocked_rq: "\<not> rq_lock rq \<Longrightarrow> rq\<lparr>rq_lock := False\<rparr> = rq"
  by (cases rq) simp

definition push_heap :: "heap \<Rightarrow> tptr \<Rightarrow> thread \<Rightarrow> tptr option \<Rightarrow> heap" where
  "push_heap h p t first =
     (let h1 = h(p \<mapsto> t\<lparr>th_next := first, th_prev := None, th_state := THREAD_STATE_READY\<rparr>)
      in case first of None \<Rightarrow> h1 | Some x \<Rightarrow> h1(x \<mapsto> (the (h x))\<lparr>th_prev := Some p\<rparr>))"

definition push_rq :: "cpu_runqueue \<Rightarrow> nat \<Rightarrow> tptr \<Rightarrow> cpu_runqueue" where
  "push_rq rq k p = rq\<lparr>queues := (queues rq)[k := Some p],
     queue_bitmap := (queue_bitmap rq)[k div 32 := queue_bitmap rq ! (k div 32) OR push_bit (k mod 32) 1],
     num_threads := num_threads rq + 1\<rparr>"

lemma enqueue_closed:
  assumes "q < length (runqueues s)" "runqueues s ! q = rq" "\<not> rq_lock rq" "length (queues rq) = 128" "length (queue_bitmap rq) = 4"
    "threads s p = Some t" "unat (effective_priority t) = k" "k < 128" "queues rq ! k = first" "first \<noteq> Some p"
    "\<And>x. first = Some x \<Longrightarrow> threads s x \<noteq> None"
  shows "enqueue_thread q p s =
    Some (s\<lparr>threads := push_heap (threads s) p t first, runqueues := (runqueues s)[q := push_rq rq k p]\<rparr>)"
proof (cases first)
  case None
  have "k div 32 < 4" using assms(8) by (simp add: less_mult_imp_div_less)
  then show ?thesis using assms None
    by (simp add: enqueue_thread_def smp_access Let_def push_heap_def push_rq_def unlocked_rq)
next
  case (Some x)
  then obtain tx where "threads s x = Some tx" using assms(11) by blast
  moreover have "k div 32 < 4" using assms(8) by (simp add: less_mult_imp_div_less)
  ultimately show ?thesis using assms(1-10) Some
    by (simp add: enqueue_thread_def smp_access Let_def push_heap_def push_rq_def unlocked_rq fun_upd_twist [of x p])
qed

lemma smp_view_change:
  assumes "smp_view s Q" "q < 256" "queue_ok h q rq Qs"
    and "\<And>j k p. j < 256 \<Longrightarrow> j \<noteq> q \<Longrightarrow> k < 128 \<Longrightarrow> p \<in> set (Q j k) \<Longrightarrow>
      links h p = links (threads s) p \<and> (queued (threads s) j k p \<longrightarrow> queued h j k p)"
  shows "smp_view (s\<lparr>threads := h, runqueues := (runqueues s)[q := rq]\<rparr>) (Q(q := Qs))"
proof -
  have "queue_ok h j (runqueues s ! j) (Q j)" if "j < 256" "j \<noteq> q" for j
    using smp_viewD(2) [OF assms(1) that(1)] assms(4) [OF that] by (rule queue_ok_cong)
  then show ?thesis using assms(2,3) smp_viewD(1) [OF assms(1)]
    by (auto simp: smp_view_def nth_list_update)
qed

text \<open>A thread without its links, and a run queue without its lists.\<close>

definition core :: "thread \<Rightarrow> thread" where
  "core t = t\<lparr>th_next := None, th_prev := None\<rparr>"

definition rq_rest :: "cpu_runqueue \<Rightarrow> cpu_runqueue" where
  "rq_rest rq = rq\<lparr>queues := [], queue_bitmap := [], num_threads := 0\<rparr>"

lemma core_fields [simp]:
  "th_state (core t) = th_state t" "effective_priority (core t) = effective_priority t" "th_cpu_id (core t) = th_cpu_id t"
  "cpu_affinity_mask (core t) = cpu_affinity_mask t"
  by (simp_all add: core_def)

lemma queued_alt:
  "queued h q k p \<longleftrightarrow>
     (\<exists>t. map_option core (h p) = Some t \<and> th_state t = THREAD_STATE_READY \<and> unat (effective_priority t) = k \<and>
        unat (th_cpu_id t) = q)"
  unfolding queued_def by (cases "h p") auto

lemma queued_core: "map_option core (h p) = map_option core (h' p) \<Longrightarrow> queued h q k p \<longleftrightarrow> queued h' q k p"
  by (simp only: queued_alt)

lemma push_heap_links:
  assumes "first \<noteq> Some p" "\<And>x. first = Some x \<Longrightarrow> h x \<noteq> None"
  shows "links (push_heap h p t first) y =
    (if y = p then Some (first, None) else if first = Some y then map_option (\<lambda>(n, _). (n, Some p)) (links h y) else links h y)"
  using assms by (auto simp: push_heap_def links_def Let_def split: option.splits)

lemma push_heap_core:
  assumes "first \<noteq> Some p" "\<And>x. first = Some x \<Longrightarrow> h x \<noteq> None"
  shows "map_option core (push_heap h p t first y) =
    (if y = p then Some (core (t\<lparr>th_state := THREAD_STATE_READY\<rparr>)) else map_option core (h y))"
  using assms by (auto simp: push_heap_def core_def Let_def split: option.splits)

lemma dll_push:
  assumes "dll h first ps" "distinct ps" "p \<notin> set ps" "\<And>x. first = Some x \<Longrightarrow> h x \<noteq> None"
  shows "dll (push_heap h p t first) (Some p) (p # ps)"
proof -
  have fp: "first \<noteq> Some p" using assms(1,3) by (cases ps) auto
  note L = push_heap_links [of first p h t, OF fp assms(4)]
  have "dseg (push_heap h p t first) (Some p) first ps None"
  proof (cases ps)
    case Nil
    then show ?thesis using assms(1) by simp
  next
    case (Cons x xs)
    then have x: "first = Some x" "p \<noteq> x" using assms(1,3) by auto
    obtain n where n: "links h x = Some (n, None)" "dseg h (Some x) n xs None"
      using assms(1) Cons by (auto simp: links_def)
    have "links (push_heap h p t first) y = links h y" if "y \<in> set xs" for y
      using that assms(2,3) Cons x L [of y] by auto
    then have "dseg (push_heap h p t first) (Some x) n xs None = dseg h (Some x) n xs None"
      by (rule dseg_cong)
    then show ?thesis using n x Cons L [of x] by (simp add: dseg_Cons_links del: dseg.simps(2))
  qed
  then show ?thesis by (simp add: dseg_Cons_links L del: dseg.simps(2))
qed

lemma bit_or_push:
  fixes w :: u32
  shows "j < 32 \<Longrightarrow> i < 32 \<Longrightarrow> bit (w OR 2 ^ i) j \<longleftrightarrow> j = i \<or> bit w j"
    and "j < 32 \<Longrightarrow> i < 32 \<Longrightarrow> bit (w AND NOT (2 ^ i)) j \<longleftrightarrow> j \<noteq> i \<and> bit w j"
  unfolding push_bit_of_1 [symmetric] by (auto simp: bit_simps)

theorem enqueue_abs:
  assumes abs: "smp_abs s Q" and q: "q < 256" and p: "threads s p = Some t" "unat (effective_priority t) = k" "k < 128"
    "unat (th_cpu_id t) = q" "p \<notin> set (Q q k)"
  shows "\<exists>h rq. enqueue_thread q p s = Some (s\<lparr>threads := h, runqueues := (runqueues s)[q := rq]\<rparr>) \<and>
    smp_abs (s\<lparr>threads := h, runqueues := (runqueues s)[q := rq]\<rparr>) (Q(q := (Q q)(k := p # Q q k))) \<and>
    (\<forall>y. map_option core (h y) =
       (if y = p then Some (core (t\<lparr>th_state := THREAD_STATE_READY\<rparr>)) else map_option core (threads s y))) \<and>
    rq_rest rq = rq_rest (runqueues s ! q)"
proof -
  let ?rq = "runqueues s ! q"
  note ok = smp_absD(3) [OF abs q]
  define first where "first = queues ?rq ! k"
  have list: "dll (threads s) first (Q q k)" using queue_okD(4) [OF ok p(3)] by (simp add: first_def)
  have fp: "first \<noteq> Some p" using list p(5) by (cases "Q q k") auto
  have fx: "first = Some x \<Longrightarrow> threads s x \<noteq> None" for x using list by (cases "Q q k") auto
  let ?h = "push_heap (threads s) p t first" and ?rq' = "push_rq ?rq k p"
  note L = push_heap_links [of first p "threads s" t, OF fp fx] and C = push_heap_core [of first p "threads s" t, OF fp fx]
  have notin: "p \<notin> set (Q j l)" if "j < 256" "l < 128" for j l
    using queue_okD(6) [OF smp_absD(3) [OF abs that(1)] that(2), of p] p by (auto simp: queued_def)
  have only: "y \<notin> set (Q j l)" if "first = Some y" "j < 256" "l < 128" "j \<noteq> q \<or> l \<noteq> k" for y j l
  proof
    assume "y \<in> set (Q j l)"
    then have "queued (threads s) j l y" using queue_okD(6) [OF smp_absD(3) [OF abs that(2)] that(3)] by blast
    moreover have "y \<in> set (Q q k)" using list that(1) by (cases "Q q k") auto
    then have "queued (threads s) q k y" using queue_okD(6) [OF ok p(3)] by blast
    ultimately show False using queued_unique that(4) by blast
  qed
  have keep: "links ?h y = links (threads s) y \<and> (queued (threads s) j l y \<longrightarrow> queued ?h j l y)"
    if "j < 256" "l < 128" "j \<noteq> q \<or> l \<noteq> k" "y \<in> set (Q j l)" for j l y
    using notin [OF that(1,2)] only [OF _ that(1-3)] that(4) L [of y] C [of y] queued_core [of ?h y "threads s" j l] by auto
  have new: "queue_ok ?h q ?rq' ((Q q)(k := p # Q q k))"
    unfolding push_rq_def
  proof (rule queue_ok_change [OF ok p(3)])
    show "dll ?h (Some p) (p # Q q k)" by (rule dll_push [OF list queue_okD(5) [OF ok p(3)] p(5) fx])
    show "queued ?h q k y" if "y \<in> set (p # Q q k)" for y
    proof (cases "y = p")
      case True
      then show ?thesis using p C [of p] by (auto simp: queued_alt core_def)
    next
      case False
      then have "queued (threads s) q k y" using that queue_okD(6) [OF ok p(3)] by auto
      then show ?thesis using False C [of y] queued_core [of ?h y "threads s"] by simp
    qed
  qed (use keep [OF q] p(5) queue_okD(5) [OF ok p(3)] in \<open>auto simp: bit_or_push(1)\<close>)
  have "enqueue_thread q p s = Some (s\<lparr>threads := ?h, runqueues := (runqueues s)[q := ?rq']\<rparr>)"
    using enqueue_closed [of q s ?rq p t k first] q p fp fx smp_absD(1,2) [OF abs] queue_okD(1,2) [OF ok] first_def by simp
  moreover have "smp_abs (s\<lparr>threads := ?h, runqueues := (runqueues s)[q := ?rq']\<rparr>) (Q(q := (Q q)(k := p # Q q k)))"
    unfolding smp_abs_def
  proof (intro conjI allI impI)
    show "smp_view (s\<lparr>threads := ?h, runqueues := (runqueues s)[q := ?rq']\<rparr>) (Q(q := (Q q)(k := p # Q q k)))"
      by (rule smp_view_change [OF _ q new]) (use keep abs in \<open>auto simp: smp_abs_def\<close>)
  qed (use q smp_absD(1,2) [OF abs] in \<open>auto simp: push_rq_def nth_list_update\<close>)
  moreover have "rq_rest ?rq' = rq_rest ?rq" by (simp add: push_rq_def rq_rest_def)
  ultimately show ?thesis using C by blast
qed

section \<open>Taking a thread out\<close>

definition unlink_heap :: "heap \<Rightarrow> tptr \<Rightarrow> thread \<Rightarrow> tptr option \<Rightarrow> heap" where
  "unlink_heap h p t pr =
     (let h1 = (case pr of None \<Rightarrow> h | Some x \<Rightarrow> h(x \<mapsto> (the (h x))\<lparr>th_next := th_next t\<rparr>));
          h2 = (case th_next t of None \<Rightarrow> h1 | Some y \<Rightarrow> h1(y \<mapsto> (the (h1 y))\<lparr>th_prev := pr\<rparr>))
      in h2(p \<mapsto> t\<lparr>th_next := None, th_prev := None\<rparr>))"

definition unlink_rq :: "cpu_runqueue \<Rightarrow> nat \<Rightarrow> tptr option \<Rightarrow> cpu_runqueue" where
  "unlink_rq rq k first = rq\<lparr>queues := (queues rq)[k := first],
     queue_bitmap := (if first = None
        then (queue_bitmap rq)[k div 32 := queue_bitmap rq ! (k div 32) AND NOT (push_bit (k mod 32) 1)] else queue_bitmap rq),
     num_threads := num_threads rq - 1\<rparr>"

lemma unlink_closed:
  assumes "q < length (runqueues s)" "runqueues s ! q = rq" "length (queues rq) = 128" "length (queue_bitmap rq) = 4"
    "threads s p = Some t" "k < 128" "th_next t \<noteq> Some p" "\<And>y. th_next t = Some y \<Longrightarrow> threads s y \<noteq> None"
  shows "take_first q (k div 32) (k mod 32) p s =
      Some (s\<lparr>threads := unlink_heap (threads s) p t None, runqueues := (runqueues s)[q := unlink_rq rq k (th_next t)]\<rparr>)"
    and "unlink_candidate q k None p s =
      Some (s\<lparr>threads := unlink_heap (threads s) p t None, runqueues := (runqueues s)[q := unlink_rq rq k (th_next t)]\<rparr>)"
proof -
  have k: "k div 32 < 4" "k div 32 * 32 + k mod 32 = k" using assms(6) by (simp_all add: less_mult_imp_div_less)
  have "(rq\<lparr>queues := (queues rq)[k := th_next t], num_threads := num_threads rq - 1\<rparr>) =
      rq\<lparr>queues := (queues rq)[k := th_next t], queue_bitmap := queue_bitmap rq, num_threads := num_threads rq - 1\<rparr>"
    by (cases rq) simp
  then show "take_first q (k div 32) (k mod 32) p s =
      Some (s\<lparr>threads := unlink_heap (threads s) p t None, runqueues := (runqueues s)[q := unlink_rq rq k (th_next t)]\<rparr>)"
      "unlink_candidate q k None p s =
      Some (s\<lparr>threads := unlink_heap (threads s) p t None, runqueues := (runqueues s)[q := unlink_rq rq k (th_next t)]\<rparr>)"
    using assms k
    by (cases "th_next t"; auto simp: take_first_def unlink_candidate_def smp_access Let_def unlink_heap_def unlink_rq_def)+
qed

lemma unlink_middle_closed:
  assumes "q < length (runqueues s)" "runqueues s ! q = rq" "length (queues rq) = 128" "length (queue_bitmap rq) = 4"
    "threads s p = Some t" "k < 128" "queues rq ! k = Some first" "threads s x \<noteq> None" "x \<noteq> p" "th_next t \<noteq> Some p" "th_next t \<noteq> Some x"
    "\<And>y. th_next t = Some y \<Longrightarrow> threads s y \<noteq> None"
  shows "unlink_candidate q k (Some x) p s =
    Some (s\<lparr>threads := unlink_heap (threads s) p t (Some x), runqueues := (runqueues s)[q := unlink_rq rq k (Some first)]\<rparr>)"
proof -
  have k: "k div 32 < 4" using assms(6) by (simp_all add: less_mult_imp_div_less)
  have "(rq\<lparr>num_threads := num_threads rq - 1\<rparr>) =
      rq\<lparr>queues := (queues rq)[k := Some first], queue_bitmap := queue_bitmap rq, num_threads := num_threads rq - 1\<rparr>"
    using assms(7) list_update_id [of "queues rq" k] by (cases rq) simp
  then show ?thesis
    using assms k
    by (cases "th_next t"; auto simp: unlink_candidate_def smp_access Let_def unlink_heap_def unlink_rq_def)+
qed

lemma unlink_heap_links:
  assumes "pr \<noteq> Some p" "th_next t \<noteq> Some p" "th_next t = None \<or> th_next t \<noteq> pr"
    "\<And>x. pr = Some x \<Longrightarrow> h x \<noteq> None" "\<And>y. th_next t = Some y \<Longrightarrow> h y \<noteq> None"
  shows "links (unlink_heap h p t pr) y =
    (if y = p then Some (None, None)
     else if pr = Some y then map_option (\<lambda>(_, v). (th_next t, v)) (links h y)
     else if th_next t = Some y then map_option (\<lambda>(n, _). (n, pr)) (links h y) else links h y)"
  using assms by (auto simp: unlink_heap_def links_def Let_def split: option.splits)

lemma unlink_heap_core:
  assumes "h p = Some t" "pr \<noteq> Some p" "th_next t \<noteq> Some p" "th_next t = None \<or> th_next t \<noteq> pr"
    "\<And>x. pr = Some x \<Longrightarrow> h x \<noteq> None" "\<And>y. th_next t = Some y \<Longrightarrow> h y \<noteq> None"
  shows "map_option core (unlink_heap h p t pr y) = map_option core (h y)"
  using assms by (auto simp: unlink_heap_def core_def Let_def split: option.splits)

lemma dseg_redirect:
  assumes "dseg h pr first (as @ [x]) m" "distinct (as @ [x])"
    and "\<And>y. y \<in> set as \<Longrightarrow> links h' y = links h y" "\<And>l v. links h x = Some (l, v) \<Longrightarrow> links h' x = Some (n, v)"
  shows "dseg h' pr first (as @ [x]) n"
proof -
  obtain i where i: "dseg h pr first as i" "dseg h (before pr as) i [x] m" using assms(1) by (auto simp: dseg_append)
  have "dseg h' pr first as i" using i(1) dseg_cong [of as h' h] assms(3) by blast
  moreover have "dseg h' (before pr as) i [x] n"
    using i(2) assms(4) by (auto simp: dseg_Cons_links simp del: dseg.simps(2))
  ultimately show ?thesis unfolding dseg_append by blast
qed

lemma dll_unlink:
  assumes list: "dll h first (as @ p # bs)" and dis: "distinct (as @ p # bs)" and t: "h p = Some t"
  defines "h' \<equiv> unlink_heap h p t (before None as)"
  shows "dll h' (if as = [] then th_next t else first) (as @ bs)"
    and "y \<notin> set (as @ p # bs) \<Longrightarrow> links h' y = links h y"
    and "map_option core (h' y) = map_option core (h y)"
    and "th_next t \<noteq> Some p" "\<And>y. th_next t = Some y \<Longrightarrow> h y \<noteq> None"
    and "as \<noteq> [] \<Longrightarrow> h (last as) \<noteq> None \<and> last as \<noteq> p \<and> th_next t \<noteq> Some (last as) \<and> first \<noteq> None"
proof -
  have a: "dseg h None first as (Some p)" and b: "dseg h (Some p) (th_next t) bs None"
    using list t by (auto simp: dseg_append)
  have n: "th_next t = (if bs = [] then None else Some (hd bs))" using b by (cases bs) auto
  show np: "th_next t \<noteq> Some p" using dis n by (cases bs) auto
  show ny: "h y \<noteq> None" if "th_next t = Some y" for y using b n that by (cases bs) auto
  have last: "h (last as) \<noteq> None" if "as \<noteq> []"
    using a append_butlast_last_id [OF that] dseg_append [of h None first "butlast as" "[last as]"] by auto
  show last_all: "h (last as) \<noteq> None \<and> last as \<noteq> p \<and> th_next t \<noteq> Some (last as) \<and> first \<noteq> None" if "as \<noteq> []"
  proof -
    have "last as \<in> set as" using that by simp
    then have "last as \<noteq> p" "last as \<notin> set bs" using dis by auto
    moreover have "first \<noteq> None" using a that by (cases as) auto
    ultimately show ?thesis using last [OF that] n by (cases bs) auto
  qed
  have pr: "before None as \<noteq> Some p" "th_next t = None \<or> th_next t \<noteq> before None as"
    "\<And>x. before None as = Some x \<Longrightarrow> h x \<noteq> None"
    using last_all by (auto simp: before_def split: if_splits)
  note L = unlink_heap_links [of "before None as" p t h, OF pr(1) np pr(2,3) ny, folded h'_def]
  show "map_option core (h' y) = map_option core (h y)"
    unfolding h'_def by (rule unlink_heap_core) (use t pr np ny in blast)+
  show "links h' y = links h y" if "y \<notin> set (as @ p # bs)"
  proof -
    have "before None as \<noteq> Some y" using that by (auto simp: before_def split: if_splits)
    moreover have "th_next t \<noteq> Some y" using that n by (cases bs) auto
    ultimately show ?thesis using that L [of y] by simp
  qed
  have tail: "dseg h' (before None as) (th_next t) bs None"
  proof (cases bs)
    case Nil
    then show ?thesis using n by simp
  next
    case (Cons x xs)
    then have x: "th_next t = Some x" "x \<noteq> p" "before None as \<noteq> Some x" using n dis by (auto simp: before_def)
    obtain m where m: "links h x = Some (m, Some p)" "dseg h (Some x) m xs None"
      using b Cons by (auto simp: dseg_Cons_links simp del: dseg.simps(2))
    have "links h' y = links h y" if "y \<in> set xs" for y
      using that dis Cons x L [of y] by (auto dest: before_in)
    then have "dseg h' (Some x) m xs None" using m(2) dseg_cong [of xs h' h] by blast
    then show ?thesis using Cons x m L [of x] by (simp add: dseg_Cons_links del: dseg.simps(2))
  qed
  show "dll h' (if as = [] then th_next t else first) (as @ bs)"
  proof (cases "as = []")
    case True
    then show ?thesis using tail by simp
  next
    case False
    then obtain cs x where as: "as = cs @ [x]" using append_butlast_last_id [of as] by metis
    have "dseg h' None first (cs @ [x]) (th_next t)"
    proof (rule dseg_redirect [where m = "Some p" and h = h])
      show "links h' y = links h y" if "y \<in> set cs" for y
        using that dis as L [of y] n by (cases bs) (auto simp: before_def)
      show "links h' x = Some (th_next t, v)" if "links h x = Some (l, v)" for l v
        using that dis as L [of x] by (auto simp: before_def)
    qed (use a dis as in auto)
    then have "dseg h' None first as (th_next t)" by (simp only: as)
    then have "dll h' first (as @ bs)" using tail unfolding dseg_append by blast
    then show ?thesis using False by simp
  qed
qed

lemma unlink_view:
  assumes view: "smp_view s Q" and q: "q < 256" "k < 128" and mid: "Q q k = as @ p # bs" and t: "threads s p = Some t"
  defines "first \<equiv> queues (runqueues s ! q) ! k"
  defines "h \<equiv> unlink_heap (threads s) p t (before None as)"
  defines "rq \<equiv> unlink_rq (runqueues s ! q) k (if as = [] then th_next t else first)"
  shows "smp_view (s\<lparr>threads := h, runqueues := (runqueues s)[q := rq]\<rparr>) (Q(q := (Q q)(k := as @ bs)))"
    and "map_option core (h y) = map_option core (threads s y)"
proof -
  note ok = smp_viewD(2) [OF view q(1)]
  have list: "dll (threads s) first (as @ p # bs)" and dis: "distinct (as @ p # bs)"
    using queue_okD(4,5) [OF ok q(2)] mid by (simp_all add: first_def)
  note U = dll_unlink [OF list dis t, folded h_def]
  have C: "map_option core (h z) = map_option core (threads s z)" for z by (rule U(3))
  then show "map_option core (h y) = map_option core (threads s y)" .
  have QC: "queued h j l z = queued (threads s) j l z" for j l z by (rule queued_core) (rule C)
  have keep: "links h y = links (threads s) y \<and> (queued (threads s) j l y \<longrightarrow> queued h j l y)"
    if "j < 256" "l < 128" "j \<noteq> q \<or> l \<noteq> k" "y \<in> set (Q j l)" for j l y
  proof -
    have "queued (threads s) j l y" using queue_okD(6) [OF smp_viewD(2) [OF view that(1)] that(2,4)] .
    then have "y \<notin> set (Q q k)" using queue_okD(6) [OF ok q(2)] queued_unique that(3) by blast
    then show ?thesis using U(2) [where y = y] mid QC [of j l y] by simp
  qed
  have empty: "(if as = [] then th_next t else first) = None \<longleftrightarrow> as @ bs = []"
    using U(1) dll_first [OF U(1)] by (auto split: if_splits)
  have "queue_ok h q rq ((Q q)(k := as @ bs))"
    unfolding rq_def unlink_rq_def
  proof -
    let ?rq = "runqueues s ! q" and ?f = "if as = [] then th_next t else first"
    let ?w = "if ?f = None then queue_bitmap ?rq ! (k div 32) AND NOT (push_bit (k mod 32) 1) else queue_bitmap ?rq ! (k div 32)"
    have "(if ?f = None then (queue_bitmap ?rq)[k div 32 := queue_bitmap ?rq ! (k div 32) AND NOT (push_bit (k mod 32) 1)]
        else queue_bitmap ?rq) = (queue_bitmap ?rq)[k div 32 := ?w]"
      by simp
    moreover have "queue_ok h q (?rq\<lparr>queues := (queues ?rq)[k := ?f], queue_bitmap := (queue_bitmap ?rq)[k div 32 := ?w],
        num_threads := num_threads ?rq - 1\<rparr>) ((Q q)(k := as @ bs))"
    proof (rule queue_ok_change [OF ok q(2)])
      show "dll h ?f (as @ bs)" by (rule U(1))
      show "queued h q k y" if "y \<in> set (as @ bs)" for y
        using queue_okD(6) [OF ok q(2), of y] mid that QC [of q k y] by auto
      show "bit ?w j \<longleftrightarrow> (if j = k mod 32 then as @ bs \<noteq> [] else bit (queue_bitmap ?rq ! (k div 32)) j)" if "j < 32" for j
        using that empty queue_okD(7) [OF ok q(2)] mid by (auto simp: bit_or_push(2))
      show "num_threads ?rq - 1 + of_nat (length (Q q k)) = num_threads ?rq + of_nat (length (as @ bs))"
        using mid by simp
    qed (use keep [OF q(1)] dis in auto)
    ultimately show "queue_ok h q (?rq\<lparr>queues := (queues ?rq)[k := ?f],
        queue_bitmap := (if ?f = None then (queue_bitmap ?rq)[k div 32 := queue_bitmap ?rq ! (k div 32) AND NOT (push_bit (k mod 32) 1)]
          else queue_bitmap ?rq), num_threads := num_threads ?rq - 1\<rparr>) ((Q q)(k := as @ bs))"
      by simp
  qed
  then show "smp_view (s\<lparr>threads := h, runqueues := (runqueues s)[q := rq]\<rparr>) (Q(q := (Q q)(k := as @ bs)))"
    using keep by (intro smp_view_change [OF view q(1)]) auto
qed

section \<open>The queue served next\<close>

lemma bitmap_bit:
  fixes w :: u32
  shows "w AND push_bit b 1 \<noteq> 0 \<longleftrightarrow> bit w b"
  by (simp add: bit_iff_and_push_bit_not_eq_0)

lemma dequeue_bits_spec:
  assumes "smp_view s Q" "q < 256" "word < 4" "n \<le> 32"
  shows "dequeue_bits q word (queue_bitmap (runqueues s ! q) ! word) n s =
    (case highest (\<lambda>b. Q q (word * 32 + b)) n of
       None \<Rightarrow> Some (None, s)
     | Some b \<Rightarrow> map_option (\<lambda>t. (Some (hd (Q q (word * 32 + b))), t))
                  (take_first q word b (hd (Q q (word * 32 + b))) s))"
  using assms(4)
proof (induction n)
  case (Suc b)
  note ok = smp_viewD(2) [OF assms(1,2)]
  let ?k = "word * 32 + b"
  have k: "?k < 128" "?k div 32 = word" "?k mod 32 = b" using Suc.prems assms(3) by simp_all
  have "bit (queue_bitmap (runqueues s ! q) ! word) b \<longleftrightarrow> Q q ?k \<noteq> []" using queue_okD(7) [OF ok k(1)] k by simp
  moreover have "queues (runqueues s ! q) ! ?k = (if Q q ?k = [] then None else Some (hd (Q q ?k)))"
    using dll_first [OF queue_okD(4) [OF ok k(1)]] .
  ultimately show ?case using Suc k queue_okD(1) [OF ok] smp_viewD(1) [OF assms(1)] assms(2)
    by (simp add: bit_mask_def queue_head_def runqueue_def bitmap_bit del: push_bit_of_1) (auto simp: map_conv_bind_option comp_def split: option.splits)
qed simp

lemma dequeue_words_spec:
  assumes "smp_view s Q" "q < 256" "n \<le> 4"
  shows "dequeue_words q n s =
    (case highest (Q q) (n * 32) of
       None \<Rightarrow> Some (None, s)
     | Some k \<Rightarrow> map_option (\<lambda>t. (Some (hd (Q q k)), t)) (take_first q (k div 32) (k mod 32) (hd (Q q k)) s))"
  using assms(3)
proof (induction n)
  case (Suc word)
  note ok = smp_viewD(2) [OF assms(1,2)]
  let ?bm = "queue_bitmap (runqueues s ! q) ! word"
  have w: "word < 4" using Suc.prems by simp
  have bits: "bit ?bm b \<longleftrightarrow> Q q (word * 32 + b) \<noteq> []" if "b < 32" for b
    using queue_okD(7) [OF ok, of "word * 32 + b"] w that by simp
  have run: "runqueue q s = Some (runqueues s ! q)" using smp_viewD(1) [OF assms(1)] assms(2) by (simp add: runqueue_def)
  have len: "word < length (queue_bitmap (runqueues s ! q))" using queue_okD(2) [OF ok] w by simp
  show ?case
  proof (cases "highest (\<lambda>b. Q q (word * 32 + b)) 32")
    case None
    then have empty: "Q q (word * 32 + b) = []" if "b < 32" for b using that by (simp add: highest_None)
    have "?bm = 0" by (rule bit_eqI) (use bits empty in \<open>auto dest: bit_imp_le_length\<close>)
    moreover have "highest (Q q) (Suc word * 32) = highest (Q q) (word * 32)"
    proof (rule highest_skip)
      show "Q q k = []" if "word * 32 \<le> k" "k < Suc word * 32" for k
        using empty [of "k - word * 32"] that by simp
    qed simp
    ultimately show ?thesis using Suc run len by simp
  next
    case (Some b)
    then have b: "b < 32" "Q q (word * 32 + b) \<noteq> []" "\<And>j. b < j \<Longrightarrow> j < 32 \<Longrightarrow> Q q (word * 32 + j) = []"
      by (auto simp: highest_Some)
    have "?bm \<noteq> 0" using bits [OF b(1)] b(2) by auto
    moreover have "highest (Q q) (Suc word * 32) = Some (word * 32 + b)"
      unfolding highest_Some
    proof (intro conjI allI impI)
      show "Q q j = []" if "word * 32 + b < j \<and> j < Suc word * 32" for j
      proof -
        define i where "i = j - word * 32"
        have "j = word * 32 + i" "b < i" "i < 32" using that unfolding i_def by auto
        then show ?thesis using b(3) [of i] by simp
      qed
    qed (use b in auto)
    ultimately show ?thesis using run len dequeue_bits_spec [OF assms(1,2) w, of 32] Some b(1)
      by (cases "take_first q word b (hd (Q q (word * 32 + b))) s") simp_all
  qed
qed simp

text \<open>The lock apart, a state and its lists.\<close>

definition lock_to :: "bool \<Rightarrow> nat \<Rightarrow> smp \<Rightarrow> smp" where
  "lock_to b q s = s\<lparr>runqueues := (runqueues s)[q := (runqueues s ! q)\<lparr>rq_lock := b\<rparr>]\<rparr>"

lemma view_lock: "smp_view (lock_to b q s) Q \<longleftrightarrow> smp_view s Q"
proof -
  have "queue_ok h j (runqueues (lock_to b q s) ! j) Qs \<longleftrightarrow> queue_ok h j (runqueues s ! j) Qs" for h j Qs
    by (cases "j = q"; cases "q < length (runqueues s)") (simp_all add: lock_to_def queue_ok_def list_update_beyond)
  moreover have "length (runqueues (lock_to b q s)) = length (runqueues s)" "threads (lock_to b q s) = threads s"
    by (simp_all add: lock_to_def)
  ultimately show ?thesis by (simp only: smp_view_def)
qed

lemma unlink_rq_lock [simp]:
  "unlink_rq (rq\<lparr>rq_lock := b\<rparr>) k f = (unlink_rq rq k f)\<lparr>rq_lock := b\<rparr>" "rq_lock (unlink_rq rq k f) = rq_lock rq"
  by (simp_all add: unlink_rq_def)

lemma acquire_abs: "smp_abs s Q \<Longrightarrow> q < 256 \<Longrightarrow> acquire_runqueue_lock q s = Some (lock_to True q s)"
  by (simp add: acquire_runqueue_lock_def smp_absD lock_to_def runqueue_def on_runqueue_def)

lemma release_view: "smp_view s Q \<Longrightarrow> q < 256 \<Longrightarrow> release_runqueue_lock q s = Some (lock_to False q s)"
  by (simp add: release_runqueue_lock_def smp_viewD lock_to_def on_runqueue_def)

theorem dequeue_abs:
  assumes abs: "smp_abs s Q" and q: "q < 256"
  shows "case highest (Q q) 128 of
      None \<Rightarrow> dequeue_highest_priority q s = Some (None, s)
    | Some k \<Rightarrow> \<exists>h rq. dequeue_highest_priority q s =
          Some (Some (hd (Q q k)), s\<lparr>threads := h, runqueues := (runqueues s)[q := rq]\<rparr>) \<and>
        smp_abs (s\<lparr>threads := h, runqueues := (runqueues s)[q := rq]\<rparr>) (Q(q := (Q q)(k := tl (Q q k)))) \<and>
        (\<forall>y. map_option core (h y) = map_option core (threads s y)) \<and> rq_rest rq = rq_rest (runqueues s ! q)"
proof -
  let ?s1 = "lock_to True q s" and ?rq = "runqueues s ! q"
  have view: "smp_view s Q" and view1: "smp_view ?s1 Q" using abs q by (simp_all add: smp_abs_def view_lock)
  note ok = smp_viewD(2) [OF view q] and len = smp_viewD(1) [OF view]
  have unlocked: "lock_to False q ?s1 = s"
    using smp_absD(2) [OF abs q] len q
    by (cases s) (simp add: lock_to_def unlocked_rq list_update_id)
  show ?thesis
  proof (cases "highest (Q q) 128")
    case None
    then show ?thesis
      using dequeue_words_spec [OF view1 q, of 4] acquire_abs [OF abs q] release_view [OF view1 q] unlocked
      by (simp add: dequeue_highest_priority_def)
  next
    case (Some k)
    then have k: "k < 128" "Q q k \<noteq> []" by (auto simp: highest_Some)
    define p where "p = hd (Q q k)"
    have Qk: "Q q k = [] @ p # tl (Q q k)" using k(2) by (simp add: p_def)
    have list: "dll (threads s) (queues ?rq ! k) ([] @ p # tl (Q q k))" "distinct ([] @ p # tl (Q q k))"
      using queue_okD(4,5) [OF ok k(1)] by (simp_all only: Qk [symmetric])
    then obtain t where t: "threads s p = Some t" by auto
    note U = dll_unlink [OF list t]
    let ?h = "unlink_heap (threads s) p t None" and ?rq1 = "?rq\<lparr>rq_lock := True\<rparr>"
    let ?u = "s\<lparr>threads := ?h, runqueues := (runqueues s)[q := unlink_rq ?rq1 k (th_next t)]\<rparr>"
    have len1: "length (runqueues ?s1) = 256" "runqueues ?s1 ! q = ?rq1" "threads ?s1 = threads s"
      using len q by (simp_all add: lock_to_def)
    have take: "take_first q (k div 32) (k mod 32) p ?s1 = Some ?u"
      using unlink_closed(1) [of q ?s1 ?rq1 p t k] len1 q queue_okD(1,2) [OF ok] t k(1) U(4,5)
      by (simp add: lock_to_def)
    have viewu: "smp_view ?u (Q(q := (Q q)(k := tl (Q q k))))"
      using unlink_view(1) [of ?s1 Q q k "[]" p "tl (Q q k)" t] view1 q k(1) Qk t len1 by (simp add: lock_to_def)
    have core: "map_option core (?h y) = map_option core (threads s y)" for y
      using unlink_view(2) [of ?s1 Q q k "[]" p "tl (Q q k)" t] view1 q k(1) Qk t len1 by simp
    let ?rq2 = "unlink_rq ?rq k (th_next t)"
    have rel: "lock_to False q ?u = s\<lparr>threads := ?h, runqueues := (runqueues s)[q := ?rq2]\<rparr>"
      using smp_absD(2) [OF abs q] len q by (simp add: lock_to_def unlocked_rq)
    have deq: "dequeue_highest_priority q s = Some (Some p, s\<lparr>threads := ?h, runqueues := (runqueues s)[q := ?rq2]\<rparr>)"
      using dequeue_words_spec [OF view1 q, of 4] acquire_abs [OF abs q] release_view [OF viewu q] rel take Some
      by (simp add: dequeue_highest_priority_def p_def)
    have "smp_abs (lock_to False q ?u) (Q(q := (Q q)(k := tl (Q q k))))"
      using viewu view_lock [of False q ?u] smp_absD(2) [OF abs] len q
      by (auto simp: smp_abs_def lock_to_def nth_list_update)
    moreover have "rq_rest ?rq2 = rq_rest ?rq" by (simp add: unlink_rq_def rq_rest_def)
    ultimately show ?thesis using Some deq core rel p_def by auto
  qed
qed

section \<open>The run queue as an interface\<close>

text \<open>The lists of processor \<open>q\<close>, and a thread that may be entered into its list \<open>k\<close>.\<close>

definition rq_lists :: "nat \<Rightarrow> smp \<Rightarrow> (nat \<Rightarrow> tptr list) \<Rightarrow> bool" where
  "rq_lists q s C \<longleftrightarrow> q < 256 \<and> (\<exists>Q. smp_abs s Q \<and> Q q = C)"

definition rq_fits :: "nat \<Rightarrow> smp \<Rightarrow> tptr \<Rightarrow> nat \<Rightarrow> bool" where
  "rq_fits q s p k \<longleftrightarrow> k < 128 \<and> (\<exists>t. threads s p = Some t \<and> unat (effective_priority t) = k \<and> unat (th_cpu_id t) = q)"

interpretation rq: run_queue enqueue_thread dequeue_highest_priority rq_lists rq_fits 128
proof
  show "k < 128" if "rq_fits q s p k" for q s p k using that by (simp add: rq_fits_def)
next
  fix q s C p k
  assume "rq_lists q s C" "rq_fits q s p k" "p \<notin> set (C k)"
  then show "\<exists>t. enqueue_thread q p s = Some t \<and> rq_lists q t (C(k := p # C k))"
    using enqueue_abs by (fastforce simp: rq_lists_def rq_fits_def)
next
  fix q s C
  assume "rq_lists q s C" "highest C 128 = None"
  then show "dequeue_highest_priority q s = Some (None, s)"
    using dequeue_abs by (fastforce simp: rq_lists_def)
next
  fix q s C k
  assume "rq_lists q s C" "highest C 128 = Some k"
  then show "\<exists>t. dequeue_highest_priority q s = Some (Some (hd (C k)), t) \<and> rq_lists q t (C(k := tl (C k)))"
    using dequeue_abs by (fastforce simp: rq_lists_def)
qed

text \<open>Taking threads until none is left gives every waiting one once, the priorities descending and the newest first.\<close>

lemma dequeue_drains:
  assumes "smp_abs s Q" "q < 256"
  shows "\<exists>t. drain_queue (dequeue_highest_priority q) (\<Sum>k<128. length (Q q k)) s =
      Some (concat (map (Q q) (rev [0..<128])), t) \<and> dequeue_highest_priority q t = Some (None, t)"
  using rq.drain_order [of q s "Q q"] assms by (auto simp: rq_lists_def)

end
