(* ===== verification/Smp_Operations.thy ===== *)
theory Smp_Operations
  imports Smp_Queues
begin

text \<open>
  What the operations of \<open>side_project/SMPScheduler.cpp\<close> do to the queues: no operation loses a thread, runs one twice or
  breaks a list, as long as the priority of a waiting thread is left alone; which thread runs next; and what goes wrong
  otherwise.
\<close>

section \<open>Views of the state\<close>

definition cores :: "smp \<Rightarrow> heap" where
  "cores s p = map_option core (threads s p)"

definition rest :: "smp \<Rightarrow> smp" where
  "rest s = s\<lparr>threads := \<lambda>_. None, runqueues := map rq_rest (runqueues s)\<rparr>"

definition currents :: "smp \<Rightarrow> nat \<Rightarrow> tptr option" where
  "currents s q = (if q < length (runqueues s) then rq_current (runqueues s ! q) else None)"

lemma currents_rest: "currents (rest s) = currents s"
  by (auto simp: currents_def rest_def rq_rest_def fun_eq_iff)

lemma rest_eqD:
  assumes "rest t = rest s"
  shows "currents t = currents s" "num_cpus t = num_cpus s" "length (runqueues t) = length (runqueues s)"
    "q < length (runqueues s) \<Longrightarrow> rq_cpu_id (runqueues t ! q) = rq_cpu_id (runqueues s ! q)"
    "next_tid t = next_tid s" "smp_initialized t = smp_initialized s"
proof -
  show "currents t = currents s" using assms currents_rest by metis
  have n: "runqueues (rest t) = runqueues (rest s)" "num_cpus (rest t) = num_cpus (rest s)"
    "next_tid (rest t) = next_tid (rest s)" "smp_initialized (rest t) = smp_initialized (rest s)"
    using assms by simp_all
  then have m: "map rq_rest (runqueues t) = map rq_rest (runqueues s)" by (simp add: rest_def)
  show l: "length (runqueues t) = length (runqueues s)" using m map_eq_imp_length_eq by blast
  show "num_cpus t = num_cpus s" "next_tid t = next_tid s" "smp_initialized t = smp_initialized s"
    using n by (simp_all add: rest_def)
  show "rq_cpu_id (runqueues t ! q) = rq_cpu_id (runqueues s ! q)" if "q < length (runqueues s)"
  proof -
    have "rq_rest (runqueues t ! q) = rq_rest (runqueues s ! q)" using m l that by (metis nth_map)
    then have "rq_cpu_id (rq_rest (runqueues t ! q)) = rq_cpu_id (rq_rest (runqueues s ! q))" by simp
    then show ?thesis by (simp add: rq_rest_def)
  qed
qed

lemma rest_one:
  assumes "rq_rest rq = rq_rest (runqueues s ! q)"
  shows "rest (s\<lparr>threads := h, runqueues := (runqueues s)[q := rq]\<rparr>) = rest s"
proof -
  have "map rq_rest ((runqueues s)[q := rq]) = map rq_rest (runqueues s)"
    using assms by (metis list_update_id map_update)
  then show ?thesis by (simp add: rest_def)
qed

text \<open>The operations on queues once more, in these terms.\<close>

lemma enqueue_step:
  assumes "smp_abs s Q" "q < 256" "threads s p = Some t" "unat (effective_priority t) = k" "k < 128"
    "unat (th_cpu_id t) = q" "p \<notin> set (Q q k)"
  obtains u where "enqueue_thread q p s = Some u" "smp_abs u (Q(q := (Q q)(k := p # Q q k)))"
    "cores u = (cores s)(p \<mapsto> core (t\<lparr>th_state := THREAD_STATE_READY\<rparr>))" "rest u = rest s"
proof -
  obtain h rq where u: "enqueue_thread q p s = Some (s\<lparr>threads := h, runqueues := (runqueues s)[q := rq]\<rparr>)"
    "smp_abs (s\<lparr>threads := h, runqueues := (runqueues s)[q := rq]\<rparr>) (Q(q := (Q q)(k := p # Q q k)))"
    "\<And>y. map_option core (h y) =
       (if y = p then Some (core (t\<lparr>th_state := THREAD_STATE_READY\<rparr>)) else map_option core (threads s y))"
    "rq_rest rq = rq_rest (runqueues s ! q)"
    using enqueue_abs [OF assms] by blast
  have "cores (s\<lparr>threads := h, runqueues := (runqueues s)[q := rq]\<rparr>) =
      (cores s)(p \<mapsto> core (t\<lparr>th_state := THREAD_STATE_READY\<rparr>))"
    using u(3) by (auto simp: cores_def fun_eq_iff)
  then show thesis using that u rest_one by blast
qed

lemma dequeue_step:
  assumes "smp_abs s Q" "q < 256" "highest (Q q) 128 = Some k"
  obtains u where "dequeue_highest_priority q s = Some (Some (hd (Q q k)), u)" "smp_abs u (Q(q := (Q q)(k := tl (Q q k))))"
    "cores u = cores s" "rest u = rest s"
proof -
  obtain h rq where u: "dequeue_highest_priority q s =
        Some (Some (hd (Q q k)), s\<lparr>threads := h, runqueues := (runqueues s)[q := rq]\<rparr>)"
      "smp_abs (s\<lparr>threads := h, runqueues := (runqueues s)[q := rq]\<rparr>) (Q(q := (Q q)(k := tl (Q q k))))"
      "\<And>y. map_option core (h y) = map_option core (threads s y)" "rq_rest rq = rq_rest (runqueues s ! q)"
    using dequeue_abs [OF assms(1,2)] assms(3) by auto
  have "cores (s\<lparr>threads := h, runqueues := (runqueues s)[q := rq]\<rparr>) = cores s"
    using u(3) by (simp add: cores_def fun_eq_iff)
  then show thesis using that u rest_one by blast
qed

text \<open>A change to a thread that is in no queue, and to what of a run queue is no list.\<close>

lemma on_thread_step:
  assumes "smp_abs s Q" "threads s p = Some t" "th_next (f t) = th_next t" "th_prev (f t) = th_prev t"
    "\<And>q k. q < 256 \<Longrightarrow> k < 128 \<Longrightarrow> p \<notin> set (Q q k)"
  obtains u where "on_thread f p s = Some u" "smp_abs u Q" "cores u = (cores s)(p \<mapsto> core (f t))" "rest u = rest s"
    "threads u p = Some (f t)"
proof -
  let ?u = "s\<lparr>threads := (threads s)(p \<mapsto> f t)\<rparr>"
  have "queue_ok ((threads s)(p \<mapsto> f t)) q (runqueues s ! q) (Q q)" if "q < 256" for q
    using smp_absD(3) [OF assms(1) that]
  proof (rule queue_ok_cong)
    fix k x assume "k < 128" "x \<in> set (Q q k)"
    then have "x \<noteq> p" using assms(5) [OF that] by blast
    then show "links ((threads s)(p \<mapsto> f t)) x = links (threads s) x \<and>
        (queued (threads s) q k x \<longrightarrow> queued ((threads s)(p \<mapsto> f t)) q k x)"
      by (simp add: links_def queued_def)
  qed
  then have "smp_abs ?u Q" using assms(1) by (simp add: smp_abs_def smp_view_def)
  moreover have "cores ?u = (cores s)(p \<mapsto> core (f t))" "rest ?u = rest s" by (auto simp: cores_def rest_def)
  ultimately show thesis using that [of ?u] assms(2) by (simp add: on_thread_def)
qed

lemma on_runqueue_step:
  assumes "smp_abs s Q" "q < 256" "\<And>rq. queues (f rq) = queues rq" "\<And>rq. queue_bitmap (f rq) = queue_bitmap rq"
    "\<And>rq. num_threads (f rq) = num_threads rq" "\<And>rq. rq_lock (f rq) = rq_lock rq" "\<And>rq. rq_cpu_id (f rq) = rq_cpu_id rq"
  obtains u where "on_runqueue f q s = Some u" "smp_abs u Q" "cores u = cores s" "threads u = threads s"
    "num_cpus u = num_cpus s" "currents u = (currents s)(q := rq_current (f (runqueues s ! q)))"
    "\<And>j. j < 256 \<Longrightarrow> rq_cpu_id (runqueues u ! j) = rq_cpu_id (runqueues s ! j)" "smp_initialized u = smp_initialized s"
proof -
  let ?u = "s\<lparr>runqueues := (runqueues s)[q := f (runqueues s ! q)]\<rparr>"
  have len: "length (runqueues s) = 256" using smp_absD(1) [OF assms(1)] .
  have "queue_ok h j (f rq) Qs = queue_ok h j rq Qs" for h j rq Qs by (simp add: queue_ok_def assms(3-5))
  then have "smp_abs ?u Q"
    using assms(1,2,6) len by (auto simp: smp_abs_def smp_view_def nth_list_update)
  moreover have "currents ?u = (currents s)(q := rq_current (f (runqueues s ! q)))"
    using assms(2) len by (auto simp: currents_def fun_eq_iff nth_list_update)
  moreover have "rq_cpu_id (runqueues ?u ! j) = rq_cpu_id (runqueues s ! j)" if "j < 256" for j
    using assms(2,7) len that by (simp add: nth_list_update)
  ultimately show thesis using that [of ?u] assms(2) len by (simp add: on_runqueue_def cores_def fun_eq_iff)
qed

section \<open>The invariant\<close>

text \<open>
  Every thread marked ready is in the queue of its processor and priority, every thread marked running is the current one
  of its processor, and nothing else is current.
\<close>

definition waiting :: "heap \<Rightarrow> (nat \<Rightarrow> nat \<Rightarrow> tptr list) \<Rightarrow> bool" where
  "waiting c Q \<longleftrightarrow> (\<forall>p t. c p = Some t \<longrightarrow> unat (effective_priority t) < 128 \<and> unat (th_cpu_id t) < 256 \<and>
     (th_state t = THREAD_STATE_READY \<longrightarrow> p \<in> set (Q (unat (th_cpu_id t)) (unat (effective_priority t)))))"

definition running :: "heap \<Rightarrow> (nat \<Rightarrow> tptr option) \<Rightarrow> bool" where
  "running c cur \<longleftrightarrow> (\<forall>q p. cur q = Some p \<longleftrightarrow>
     (\<exists>t. c p = Some t \<and> th_state t = THREAD_STATE_RUNNING \<and> unat (th_cpu_id t) = q))"

definition smp_inv :: "smp \<Rightarrow> (nat \<Rightarrow> nat \<Rightarrow> tptr list) \<Rightarrow> bool" where
  "smp_inv s Q \<longleftrightarrow> smp_abs s Q \<and> waiting (cores s) Q \<and> running (cores s) (currents s) \<and>
     unat (num_cpus s) < 32 \<and> (\<forall>q<unat (num_cpus s). rq_cpu_id (runqueues s ! q) = of_nat q)"

lemma notin_queues:
  assumes "smp_abs s Q" "threads s p = Some t" "th_state t \<noteq> THREAD_STATE_READY" "q < 256" "k < 128"
  shows "p \<notin> set (Q q k)"
  using queue_okD(6) [OF smp_absD(3) [OF assms(1,4)] assms(5), of p] assms(2,3) by (auto simp: queued_def)

lemma cores_Some: "cores s p = Some c \<longleftrightarrow> (\<exists>t. threads s p = Some t \<and> c = core t)"
  by (auto simp: cores_def)

lemma waitingD:
  assumes "waiting c Q" "c p = Some t"
  shows "unat (effective_priority t) < 128" "unat (th_cpu_id t) < 256"
    "th_state t = THREAD_STATE_READY \<Longrightarrow> p \<in> set (Q (unat (th_cpu_id t)) (unat (effective_priority t)))"
  using assms unfolding waiting_def by blast+

lemma runningD:
  assumes "running c cur" "cur q = Some p"
  shows "\<exists>t. c p = Some t \<and> th_state t = THREAD_STATE_RUNNING \<and> unat (th_cpu_id t) = q"
  using assms unfolding running_def by blast

lemma waiting_upd:
  assumes "waiting c Q" "unat (effective_priority t) < 128" "unat (th_cpu_id t) < 256"
    "th_state t = THREAD_STATE_READY \<Longrightarrow> p \<in> set (Q' (unat (th_cpu_id t)) (unat (effective_priority t)))"
    "\<And>j k. set (Q j k) - {p} \<subseteq> set (Q' j k)"
  shows "waiting (c(p \<mapsto> t)) Q'"
  unfolding waiting_def
proof (intro allI impI)
  fix x u assume u: "(c(p \<mapsto> t)) x = Some u"
  show "unat (effective_priority u) < 128 \<and> unat (th_cpu_id u) < 256 \<and>
     (th_state u = THREAD_STATE_READY \<longrightarrow> x \<in> set (Q' (unat (th_cpu_id u)) (unat (effective_priority u))))"
  proof (cases "x = p")
    case True
    then show ?thesis using u assms(2-4) by simp
  next
    case False
    then have "c x = Some u" using u by simp
    then show ?thesis using waitingD [OF assms(1)] assms(5) False by blast
  qed
qed

lemma running_iff:
  "running c cur \<Longrightarrow> cur q = Some p \<longleftrightarrow> (\<exists>t. c p = Some t \<and> th_state t = THREAD_STATE_RUNNING \<and> unat (th_cpu_id t) = q)"
  unfolding running_def by blast

lemma running_unique: "running c cur \<Longrightarrow> cur q = Some p \<Longrightarrow> cur j = Some p \<Longrightarrow> j = q"
  by (auto simp: running_iff)

lemma running_stop:
  assumes "running c cur" "cur q = Some p" "th_state t \<noteq> THREAD_STATE_RUNNING"
  shows "running (c(p \<mapsto> t)) (cur(q := None))"
  unfolding running_def
proof (intro allI)
  fix j x
  show "(cur(q := None)) j = Some x \<longleftrightarrow>
      (\<exists>u. (c(p \<mapsto> t)) x = Some u \<and> th_state u = THREAD_STATE_RUNNING \<and> unat (th_cpu_id u) = j)"
  proof (cases "x = p")
    case True
    then show ?thesis using running_unique [OF assms(1,2)] assms(3) by auto
  next
    case False
    then show ?thesis using running_iff [OF assms(1), of j x] assms(2) by auto
  qed
qed

lemma running_other:
  assumes "running c cur" "\<And>q. cur q \<noteq> Some p" "th_state t \<noteq> THREAD_STATE_RUNNING"
  shows "running (c(p \<mapsto> t)) cur"
  using assms unfolding running_def by auto

lemma running_start:
  assumes "running c cur" "cur q = None" "\<And>j. cur j \<noteq> Some p" "th_state t = THREAD_STATE_RUNNING" "unat (th_cpu_id t) = q"
  shows "running (c(p \<mapsto> t)) (cur(q := Some p))"
  unfolding running_def
proof (intro allI)
  fix j x
  show "(cur(q := Some p)) j = Some x \<longleftrightarrow>
      (\<exists>u. (c(p \<mapsto> t)) x = Some u \<and> th_state u = THREAD_STATE_RUNNING \<and> unat (th_cpu_id u) = j)"
  proof (cases "x = p")
    case True
    then show ?thesis using assms(3-5) by auto
  next
    case False
    then show ?thesis using running_iff [OF assms(1), of j x] assms(2) by auto
  qed
qed

lemma running_not_current:
  assumes "running c cur" "c p = Some t" "th_state t \<noteq> THREAD_STATE_RUNNING"
  shows "cur q \<noteq> Some p"
  using runningD [OF assms(1), of q p] assms(2,3) by auto

lemma smp_invD:
  assumes "smp_inv s Q"
  shows "smp_abs s Q" "waiting (cores s) Q" "running (cores s) (currents s)" "unat (num_cpus s) < 32"
    "q < unat (num_cpus s) \<Longrightarrow> rq_cpu_id (runqueues s ! q) = of_nat q"
  using assms by (auto simp: smp_inv_def)

lemma core_eqD:
  assumes "core t = core u"
  shows "th_state t = th_state u" "effective_priority t = effective_priority u" "th_cpu_id t = th_cpu_id u"
    "cpu_affinity_mask t = cpu_affinity_mask u"
  using assms by (metis core_fields)+

lemma smp_invI:
  assumes "smp_inv s Q" "smp_abs u Q'" "waiting (cores u) Q'" "running (cores u) (currents u)" "num_cpus u = num_cpus s"
    "\<And>j. j < 256 \<Longrightarrow> rq_cpu_id (runqueues u ! j) = rq_cpu_id (runqueues s ! j)"
  shows "smp_inv u Q'"
proof -
  have "rq_cpu_id (runqueues u ! q) = of_nat q" if "q < unat (num_cpus s)" for q
    using that assms(6) [of q] smp_invD(4,5) [OF assms(1)] by simp
  then show ?thesis using assms(2-5) smp_invD(4) [OF assms(1)] by (simp add: smp_inv_def)
qed

section \<open>Scheduling\<close>

text \<open>The queues of processor \<open>q\<close> once its current thread is back, in front of those of its priority.\<close>

definition requeued :: "smp \<Rightarrow> nat \<Rightarrow> (nat \<Rightarrow> nat \<Rightarrow> tptr list) \<Rightarrow> nat \<Rightarrow> tptr list" where
  "requeued s q Q =
     (case currents s q of
        None \<Rightarrow> Q q
      | Some p \<Rightarrow> (case threads s p of
            None \<Rightarrow> Q q
          | Some t \<Rightarrow> (Q q)(unat (effective_priority t) := p # Q q (unat (effective_priority t)))))"

definition put_back :: "nat \<Rightarrow> smp \<Rightarrow> smp option" where
  "put_back q s0 = do {
     rq \<leftarrow> runqueue q s0;
     (case rq_current rq of
        None \<Rightarrow> Some s0
      | Some p \<Rightarrow> do {
          t \<leftarrow> threads s0 p;
          (if th_state t = THREAD_STATE_RUNNING
           then do {
             s \<leftarrow> on_thread (\<lambda>t. t\<lparr>th_state := THREAD_STATE_READY,
                    time_slice_remaining := TIME_SLICE_MS * 1000000\<rparr>) p s0;
             enqueue_thread q p s
           }
           else Some s0) })
   }"

lemma schedule_split:
  "sched_schedule tsc cpu_id s0 = do {
     s1 \<leftarrow> put_back (unat cpu_id) s0;
     (next, s2) \<leftarrow> dequeue_highest_priority (unat cpu_id) s1;
     (case next of
        None \<Rightarrow> do { s3 \<leftarrow> on_runqueue (\<lambda>rq. rq\<lparr>rq_current := None\<rparr>) (unat cpu_id) s2; Some (None, s3) }
      | Some p \<Rightarrow> do {
          s3 \<leftarrow> on_thread (\<lambda>t. t\<lparr>th_state := THREAD_STATE_RUNNING, th_cpu_id := cpu_id, last_scheduled := tsc\<rparr>) p s2;
          s4 \<leftarrow> on_runqueue (\<lambda>rq. rq\<lparr>rq_current := Some p, total_switches := total_switches rq + 1\<rparr>) (unat cpu_id) s3;
          Some (Some p, s4)
        })
   }"
  unfolding sched_schedule_def put_back_def Let_def
  by (cases "runqueue (unat cpu_id) s0") (simp_all split: option.splits)

text \<open>The current thread goes back into its queue.\<close>

lemma requeue_step:
  assumes inv: "smp_inv s Q" and q: "q < 256" and cur: "currents s q = Some p"
    and f: "\<And>t. th_state (f t) = THREAD_STATE_READY" "\<And>t. effective_priority (f t) = effective_priority t"
      "\<And>t. th_cpu_id (f t) = th_cpu_id t" "\<And>t. th_next (f t) = th_next t" "\<And>t. th_prev (f t) = th_prev t"
  obtains t s1 u where "threads s p = Some t" "th_state t = THREAD_STATE_RUNNING" "on_thread f p s = Some s1"
    "enqueue_thread q p s1 = Some u" "smp_abs u (Q(q := requeued s q Q))" "waiting (cores u) (Q(q := requeued s q Q))"
    "running (cores u) ((currents s)(q := None))" "rest u = rest s" "cores u = (cores s)(p \<mapsto> core (f t))"
proof -
  note abs = smp_invD(1) [OF inv]
  obtain t where t: "threads s p = Some t" "th_state t = THREAD_STATE_RUNNING" "unat (th_cpu_id t) = q"
    using runningD [OF smp_invD(3) [OF inv] cur] by (auto simp: cores_Some)
  let ?k = "unat (effective_priority t)"
  have k: "?k < 128" using waitingD(1) [OF smp_invD(2) [OF inv], of p "core t"] t(1) by (simp add: cores_Some)
  have free: "p \<notin> set (Q j l)" if "j < 256" "l < 128" for j l
    using notin_queues [OF abs t(1) _ that] t(2) by simp
  obtain s1 where s1: "on_thread f p s = Some s1" "smp_abs s1 Q" "cores s1 = (cores s)(p \<mapsto> core (f t))" "rest s1 = rest s"
      "threads s1 p = Some (f t)"
    by (rule on_thread_step [OF abs t(1), of f]) (use free f in auto)
  obtain u where u: "enqueue_thread q p s1 = Some u" "smp_abs u (Q(q := (Q q)(?k := p # Q q ?k)))"
      "cores u = (cores s1)(p \<mapsto> core ((f t)\<lparr>th_state := THREAD_STATE_READY\<rparr>))" "rest u = rest s1"
    by (rule enqueue_step [OF s1(2) q s1(5), of ?k]) (use k t free [OF q] f in auto)
  have req: "requeued s q Q = (Q q)(?k := p # Q q ?k)" using cur t(1) by (simp add: requeued_def)
  have "(f t)\<lparr>th_state := THREAD_STATE_READY\<rparr> = f t" using f(1) [of t] by (cases "f t") simp
  then have c: "cores u = (cores s)(p \<mapsto> core (f t))" using u(3) s1(3) by (simp only: fun_upd_upd)
  have wait: "waiting (cores u) (Q(q := requeued s q Q))" unfolding c req
    by (rule waiting_upd [OF smp_invD(2) [OF inv]]) (use k t(3) q f in \<open>auto simp: core_def\<close>)
  have run: "running (cores u) ((currents s)(q := None))" unfolding c
    by (rule running_stop [OF smp_invD(3) [OF inv] cur]) (simp add: f)
  show thesis by (rule that [OF t(1,2) s1(1) u(1) _ wait run _ c]) (use u req s1(4) in auto)
qed

lemma put_back_step:
  assumes inv: "smp_inv s Q" and q: "q < 256"
  obtains u where "put_back q s = Some u" "smp_abs u (Q(q := requeued s q Q))" "waiting (cores u) (Q(q := requeued s q Q))"
    "running (cores u) ((currents s)(q := None))" "rest u = rest s" "\<And>x. currents s q \<noteq> Some x \<Longrightarrow> cores u x = cores s x"
    "\<And>x. map_option effective_priority (cores u x) = map_option effective_priority (cores s x)"
proof (cases "currents s q")
  case None
  have "length (runqueues s) = 256" using smp_absD(1) [OF smp_invD(1) [OF inv]] .
  then have "put_back q s = Some s" using q None by (simp add: put_back_def runqueue_def currents_def)
  moreover have "(currents s)(q := None) = currents s" using None by auto
  ultimately show thesis using that [of s] smp_invD [OF inv] None by (simp add: requeued_def)
next
  case (Some p)
  have len: "length (runqueues s) = 256" using smp_absD(1) [OF smp_invD(1) [OF inv]] .
  let ?f = "\<lambda>t. t\<lparr>th_state := THREAD_STATE_READY, time_slice_remaining := TIME_SLICE_MS * 1000000\<rparr>"
  obtain t s1 u where t: "threads s p = Some t" "th_state t = THREAD_STATE_RUNNING" and s1: "on_thread ?f p s = Some s1"
    and u: "enqueue_thread q p s1 = Some u" "smp_abs u (Q(q := requeued s q Q))" "waiting (cores u) (Q(q := requeued s q Q))"
    "running (cores u) ((currents s)(q := None))" "rest u = rest s" "cores u = (cores s)(p \<mapsto> core (?f t))"
    by (rule requeue_step [OF inv q Some, of ?f]) auto
  show thesis
  proof (rule that [of u])
    show "put_back q s = Some u" using q len Some t s1 u(1) by (simp add: put_back_def runqueue_def currents_def)
    show "cores u x = cores s x" if "currents s q \<noteq> Some x" for x using that Some u(6) by auto
    show "map_option effective_priority (cores u x) = map_option effective_priority (cores s x)" for x
      using t(1) by (simp add: u(6) cores_def)
  qed (use u in auto)
qed

text \<open>
  \<open>sched_schedule\<close> puts the running thread back in front of the threads of its priority and then takes the first
  thread of the highest priority that waits. No thread is lost or queued twice, and nothing else changes.
\<close>

lemma schedule_step:
  assumes inv: "smp_inv s Q" and q: "unat cpu_id = q" "q < 256"
  defines "Qs \<equiv> requeued s q Q"
  defines "chosen \<equiv> map_option (\<lambda>k. hd (Qs k)) (highest Qs 128)"
  defines "Qs' \<equiv> (case highest Qs 128 of None \<Rightarrow> Qs | Some k \<Rightarrow> Qs(k := tl (Qs k)))"
  shows "\<exists>u. sched_schedule tsc cpu_id s = Some (chosen, u) \<and> smp_inv u (Q(q := Qs')) \<and>
    currents u = (currents s)(q := chosen) \<and>
    (\<forall>x. currents s q \<noteq> Some x \<and> chosen \<noteq> Some x \<longrightarrow> cores u x = cores s x) \<and>
    (\<forall>x. map_option effective_priority (cores u x) = map_option effective_priority (cores s x))"
proof -
  obtain s1 where s1: "put_back q s = Some s1" "smp_abs s1 (Q(q := Qs))" "waiting (cores s1) (Q(q := Qs))"
    "running (cores s1) ((currents s)(q := None))" "rest s1 = rest s" "\<And>x. currents s q \<noteq> Some x \<Longrightarrow> cores s1 x = cores s x"
    "\<And>x. map_option effective_priority (cores s1 x) = map_option effective_priority (cores s x)"
    using put_back_step [OF inv q(2)] unfolding Qs_def by blast
  have len: "length (runqueues s) = 256" using smp_absD(1) [OF smp_invD(1) [OF inv]] .
  note r1 = rest_eqD [OF s1(5)]
  show ?thesis
  proof (cases "highest Qs 128")
    case None
    have deq: "dequeue_highest_priority q s1 = Some (None, s1)" using dequeue_abs [OF s1(2) q(2)] None by simp
    obtain u where u: "on_runqueue (\<lambda>rq. rq\<lparr>rq_current := None\<rparr>) q s1 = Some u" "smp_abs u (Q(q := Qs))" "cores u = cores s1"
        "num_cpus u = num_cpus s1" "currents u = (currents s1)(q := None)"
        "\<And>j. j < 256 \<Longrightarrow> rq_cpu_id (runqueues u ! j) = rq_cpu_id (runqueues s1 ! j)"
      using on_runqueue_step [OF s1(2) q(2), of "\<lambda>rq. rq\<lparr>rq_current := None\<rparr>"] by auto
    have "sched_schedule tsc cpu_id s = Some (chosen, u)"
      using s1(1) deq u(1) q(1) None by (simp add: schedule_split chosen_def)
    moreover have "smp_inv u (Q(q := Qs'))"
      by (rule smp_invI [OF inv]) (use u s1(3,4) r1(1,2,4) len None in \<open>simp_all add: Qs'_def\<close>)
    ultimately show ?thesis using u(3,5) r1(1) s1(6,7) None by (auto simp: chosen_def)
  next
    case (Some k)
    then have k: "k < 128" "Qs k \<noteq> []" by (auto simp: highest_Some)
    define p where "p = hd (Qs k)"
    have nx: "chosen = Some p" "Qs' = Qs(k := tl (Qs k))" using Some by (simp_all add: chosen_def Qs'_def p_def)
    obtain s2 where s2: "dequeue_highest_priority q s1 = Some (Some p, s2)" "smp_abs s2 (Q(q := Qs'))"
        "cores s2 = cores s1" "rest s2 = rest s1"
      using dequeue_step [OF s1(2) q(2)] Some unfolding p_def nx(2) by auto
    have "p \<in> set ((Q(q := Qs)) q k)" using k(2) by (simp add: p_def)
    then have queued: "queued (threads s1) q k p" using queue_okD(6) [OF smp_absD(3) [OF s1(2) q(2)] k(1)] by blast
    then have "map_option core (threads s2 p) = map_option core (threads s1 p)" using s2(3) by (simp add: cores_def fun_eq_iff)
    then have "queued (threads s2) q k p" using queued queued_core by blast
    then obtain t where t: "threads s2 p = Some t" "th_state t = THREAD_STATE_READY" "unat (effective_priority t) = k"
      by (auto simp: queued_def)
    have gone: "p \<notin> set ((Q(q := Qs')) j l)" if "j < 256" "l < 128" for j l
    proof
      assume "p \<in> set ((Q(q := Qs')) j l)"
      moreover from this have "queued (threads s2) j l p"
        using queue_okD(6) [OF smp_absD(3) [OF s2(2) that(1)] that(2)] by blast
      then have "j = q \<and> l = k" using \<open>queued (threads s2) q k p\<close> queued_unique by blast
      ultimately have "p \<in> set (tl (Qs k))" by (simp add: nx(2))
      moreover have "distinct (Qs k)" using queue_okD(5) [OF smp_absD(3) [OF s1(2) q(2)] k(1)] by simp
      ultimately show False using k(2) unfolding p_def by (cases "Qs k") auto
    qed
    let ?f = "\<lambda>t. t\<lparr>th_state := THREAD_STATE_RUNNING, th_cpu_id := cpu_id, last_scheduled := tsc\<rparr>"
    obtain s3 where s3: "on_thread ?f p s2 = Some s3" "smp_abs s3 (Q(q := Qs'))" "cores s3 = (cores s2)(p \<mapsto> core (?f t))"
        "rest s3 = rest s2"
      by (rule on_thread_step [OF s2(2) t(1), of ?f]) (use gone in auto)
    let ?g = "\<lambda>rq. rq\<lparr>rq_current := Some p, total_switches := total_switches rq + 1\<rparr>"
    obtain u where u: "on_runqueue ?g q s3 = Some u" "smp_abs u (Q(q := Qs'))" "cores u = cores s3"
        "num_cpus u = num_cpus s3" "currents u = (currents s3)(q := Some p)"
        "\<And>j. j < 256 \<Longrightarrow> rq_cpu_id (runqueues u ! j) = rq_cpu_id (runqueues s3 ! j)"
      using on_runqueue_step [OF s3(2) q(2), of ?g] by auto
    have r: "rest s3 = rest s" using s1(5) s2(4) s3(4) by simp
    have sch: "sched_schedule tsc cpu_id s = Some (chosen, u)"
      using s1(1) s2(1) s3(1) u(1) q(1) by (simp add: schedule_split nx(1))
    have notcur: "((currents s)(q := None)) j \<noteq> Some p" for j
    proof -
      have "cores s1 p = Some (core t)" using t(1) s2(3) by (metis cores_Some)
      then show ?thesis by (rule running_not_current [OF s1(4)]) (simp add: t(2))
    qed
    have wait: "waiting (cores u) (Q(q := Qs'))" unfolding u(3) s3(3) s2(3)
    proof (rule waiting_upd [OF s1(3)])
      show "set ((Q(q := Qs)) j l) - {p} \<subseteq> set ((Q(q := Qs')) j l)" for j l
      proof (cases "j = q \<and> l = k")
        case True
        then show ?thesis using k(2) unfolding p_def nx(2) by (cases "Qs k") auto
      next
        case False
        then show ?thesis by (auto simp: nx(2))
      qed
    qed (use t k q in \<open>auto simp: core_def\<close>)
    have cur: "currents u = (currents s)(q := Some p)" using u(5) rest_eqD(1) [OF r] by simp
    have "running (cores u) (((currents s)(q := None))(q := Some p))" unfolding u(3) s3(3) s2(3)
      by (rule running_start [OF s1(4)]) (use notcur q in auto)
    then have run: "running (cores u) (currents u)" using cur by simp
    have "smp_inv u (Q(q := Qs'))"
      by (rule smp_invI [OF inv u(2) wait run]) (use u(4,6) rest_eqD(2,4) [OF r] len in simp_all)
    moreover have "cores u x = cores s x" if "currents s q \<noteq> Some x" "chosen \<noteq> Some x" for x
      using that s1(6) u(3) s3(3) s2(3) by (simp add: nx(1))
    moreover have "map_option effective_priority (cores u x) = map_option effective_priority (cores s x)" for x
    proof -
      have "cores s1 p = Some (core t)" using t(1) s2(3) by (metis cores_Some)
      then have "map_option effective_priority (cores u x) = map_option effective_priority (cores s1 x)"
        using u(3) s3(3) s2(3) by simp
      then show ?thesis using s1(7) by simp
    qed
    ultimately show ?thesis using sch cur nx(1) by blast
  qed
qed

text \<open>The threads that may run on processor \<open>q\<close>.\<close>

definition may_run :: "smp \<Rightarrow> nat \<Rightarrow> tptr \<Rightarrow> thread \<Rightarrow> bool" where
  "may_run s q p t \<longleftrightarrow> threads s p = Some t \<and> unat (th_cpu_id t) = q \<and>
     (th_state t = THREAD_STATE_READY \<or> th_state t = THREAD_STATE_RUNNING)"

lemma requeued_iff:
  assumes "smp_inv s Q" "q < 256" "k < 128"
  shows "p \<in> set (requeued s q Q k) \<longleftrightarrow> (\<exists>t. may_run s q p t \<and> unat (effective_priority t) = k)"
proof -
  have ready: "p \<in> set (Q q k) \<longleftrightarrow>
      (\<exists>t. threads s p = Some t \<and> unat (th_cpu_id t) = q \<and> th_state t = THREAD_STATE_READY \<and> unat (effective_priority t) = k)"
  proof
    assume "p \<in> set (Q q k)"
    then have "queued (threads s) q k p" using queue_okD(6) [OF smp_absD(3) [OF smp_invD(1) [OF assms(1)] assms(2)] assms(3)] by blast
    then show "\<exists>t. threads s p = Some t \<and> unat (th_cpu_id t) = q \<and> th_state t = THREAD_STATE_READY \<and> unat (effective_priority t) = k"
      unfolding queued_def by blast
  next
    assume "\<exists>t. threads s p = Some t \<and> unat (th_cpu_id t) = q \<and> th_state t = THREAD_STATE_READY \<and> unat (effective_priority t) = k"
    then obtain t where "threads s p = Some t" "unat (th_cpu_id t) = q" "th_state t = THREAD_STATE_READY" "unat (effective_priority t) = k"
      by blast
    then show "p \<in> set (Q q k)" using waitingD(3) [OF smp_invD(2) [OF assms(1)], of p "core t"] by (simp add: cores_def)
  qed
  have cur: "currents s q = Some p \<longleftrightarrow>
      (\<exists>t. threads s p = Some t \<and> unat (th_cpu_id t) = q \<and> th_state t = THREAD_STATE_RUNNING)"
    using running_iff [OF smp_invD(3) [OF assms(1)], of q p] by (auto simp: cores_Some)
  show ?thesis
  proof (cases "currents s q")
    case None
    then have "\<not> (\<exists>t. threads s p = Some t \<and> unat (th_cpu_id t) = q \<and> th_state t = THREAD_STATE_RUNNING)" using cur by simp
    then show ?thesis using ready None by (auto simp: requeued_def may_run_def)
  next
    case (Some x)
    then obtain tx where tx: "threads s x = Some tx" "unat (th_cpu_id tx) = q" "th_state tx = THREAD_STATE_RUNNING"
      using runningD [OF smp_invD(3) [OF assms(1)] Some] by (auto simp: cores_Some)
    show ?thesis
    proof (cases "p = x")
      case True
      then show ?thesis using tx Some ready by (auto simp: requeued_def may_run_def)
    next
      case False
      then have "\<not> (\<exists>t. threads s p = Some t \<and> unat (th_cpu_id t) = q \<and> th_state t = THREAD_STATE_RUNNING)"
        using cur Some by simp
      then show ?thesis using tx(1) Some ready False by (auto simp: requeued_def may_run_def)
    qed
  qed
qed

text \<open>C30: \<open>sched_schedule\<close> makes a thread of the highest effective priority among those that may run on the processor its
  current one, or leaves it idle if there is none.\<close>

theorem sched_schedule_highest:
  assumes inv: "smp_inv s Q" and q: "unat cpu_id = q" "q < 256"
  shows "\<exists>chosen u. sched_schedule tsc cpu_id s = Some (chosen, u) \<and> currents u = (currents s)(q := chosen) \<and>
    (case chosen of
       None \<Rightarrow> (\<forall>p t. \<not> may_run s q p t)
     | Some p \<Rightarrow> \<exists>t. may_run s q p t \<and> (\<forall>x v. may_run s q x v \<longrightarrow> effective_priority v \<le> effective_priority t))"
proof -
  let ?Qs = "requeued s q Q"
  let ?chosen = "map_option (\<lambda>k. hd (?Qs k)) (highest ?Qs 128)"
  obtain u where u: "sched_schedule tsc cpu_id s = Some (?chosen, u)" "currents u = (currents s)(q := ?chosen)"
    using schedule_step [OF inv q, of tsc] by blast
  have bound: "unat (effective_priority t) < 128" if "may_run s q p t" for p t
    using waitingD(1) [OF smp_invD(2) [OF inv], of p "core t"] that by (simp add: may_run_def cores_def)
  have "case ?chosen of
       None \<Rightarrow> (\<forall>p t. \<not> may_run s q p t)
     | Some p \<Rightarrow> \<exists>t. may_run s q p t \<and> (\<forall>x v. may_run s q x v \<longrightarrow> effective_priority v \<le> effective_priority t)"
  proof (cases "highest ?Qs 128")
    case None
    then have "\<not> may_run s q p t" for p t
      using bound [of p t] requeued_iff [OF inv q(2), of "unat (effective_priority t)" p] by (auto simp: highest_None)
    then show ?thesis using None by simp
  next
    case (Some k)
    then have k: "k < 128" "?Qs k \<noteq> []" "\<And>j. k < j \<Longrightarrow> j < 128 \<Longrightarrow> ?Qs j = []" by (auto simp: highest_Some)
    have "hd (?Qs k) \<in> set (?Qs k)" using k(2) by simp
    then obtain t where t: "may_run s q (hd (?Qs k)) t" "unat (effective_priority t) = k"
      using requeued_iff [OF inv q(2) k(1)] by blast
    have "effective_priority v \<le> effective_priority t" if v: "may_run s q x v" for x v
    proof (rule ccontr)
      assume "\<not> effective_priority v \<le> effective_priority t"
      then have "k < unat (effective_priority v)" using t(2) by (simp add: word_le_nat_alt)
      then have "?Qs (unat (effective_priority v)) = []" using k(3) bound [OF v] by blast
      then show False using requeued_iff [OF inv q(2) bound [OF v], of x] v by auto
    qed
    then show ?thesis using t(1) Some by auto
  qed
  then show ?thesis using u by blast
qed

text \<open>Timer ticks on one processor, with the readings of the time stamp counter.\<close>

primrec sched_rounds :: "u32 \<Rightarrow> u64 list \<Rightarrow> smp \<Rightarrow> (tptr option list \<times> smp) option" where
  "sched_rounds cpu_id [] s = Some ([], s)"
| "sched_rounds cpu_id (tsc # tscs) s = do {
     (p, t) \<leftarrow> sched_schedule tsc cpu_id s;
     (ps, u) \<leftarrow> sched_rounds cpu_id tscs t;
     Some (p # ps, u) }"

text \<open>C31: A thread is never preempted by one of its own priority: as long as none of higher priority becomes ready, every
  time slice goes to the thread that already runs, however long others of its priority wait.\<close>

theorem sched_no_rotation:
  assumes "smp_inv s Q" "unat cpu_id = q" "q < 256" "currents s q = Some p" "threads s p = Some t"
    and "\<forall>x v. may_run s q x v \<longrightarrow> effective_priority v \<le> effective_priority t"
  shows "\<exists>u. sched_rounds cpu_id tscs s = Some (replicate (length tscs) (Some p), u)"
  using assms
proof (induction tscs arbitrary: s t)
  case (Cons tsc tscs)
  let ?k = "unat (effective_priority t)" and ?Qs = "requeued s q Q"
  have k: "?k < 128" using waitingD(1) [OF smp_invD(2) [OF Cons.prems(1)], of p "core t"] Cons.prems(5) by (simp add: cores_def)
  have Qs: "?Qs = (Q q)(?k := p # Q q ?k)" using Cons.prems(4,5) by (simp add: requeued_def)
  have above: "?Qs j = []" if j: "?k < j" "j < 128" for j
  proof -
    have "x \<notin> set (?Qs j)" for x
    proof
      assume "x \<in> set (?Qs j)"
      then obtain v where v: "may_run s q x v" "unat (effective_priority v) = j"
        using requeued_iff [OF Cons.prems(1,3) j(2)] by blast
      then have "effective_priority v \<le> effective_priority t" using Cons.prems(6) by blast
      then show False using v(2) j(1) by (simp add: word_le_nat_alt)
    qed
    then show ?thesis by (cases "?Qs j") auto
  qed
  have "?Qs ?k \<noteq> []" using Qs by simp
  then have high: "highest ?Qs 128 = Some ?k" using above k by (simp add: highest_Some)
  have same: "Q(q := ?Qs(?k := tl (?Qs ?k))) = Q" by (simp add: Qs fun_eq_iff)
  obtain u where u: "sched_schedule tsc cpu_id s = Some (Some p, u)" "smp_inv u Q" "currents u = (currents s)(q := Some p)"
      "\<And>x. x \<noteq> p \<Longrightarrow> cores u x = cores s x" "\<And>x. map_option effective_priority (cores u x) = map_option effective_priority (cores s x)"
    using schedule_step [OF Cons.prems(1-3), of tsc] high same Qs Cons.prems(4) by auto
  obtain t' where t': "threads u p = Some t'" "effective_priority t' = effective_priority t"
    using u(5) [of p] Cons.prems(5) by (auto simp: cores_def)
  have "effective_priority v \<le> effective_priority t'" if r: "may_run u q x v" for x v
  proof (cases "x = p")
    case True
    then show ?thesis using r t' by (simp add: may_run_def)
  next
    case False
    have "cores u x = Some (core v)" using r by (simp add: cores_def may_run_def)
    then obtain v' where "threads s x = Some v'" "core v' = core v" using u(4) [OF False] by (metis cores_Some)
    then have "may_run s q x v'" "effective_priority v' = effective_priority v"
      using r core_eqD [of v' v] by (auto simp: may_run_def)
    then show ?thesis using Cons.prems(6) t'(2) by metis
  qed
  then obtain w where "sched_rounds cpu_id tscs u = Some (replicate (length tscs) (Some p), w)"
    using Cons.IH [OF u(2) Cons.prems(2,3) _ t'(1)] u(3) by auto
  then show ?case using u(1) by simp
qed simp

end
