(* ===== verification/Smp_Reach.thy ===== *)
theory Smp_Reach
  imports Smp_Operations
begin

text \<open>
  The other operations of \<open>side_project/SMPScheduler.cpp\<close>, work stealing, the states that can be reached, and the two
  ways out of the invariant: a new priority for a waiting thread, and more processors than a mask has bits.
\<close>

section \<open>Choosing a processor\<close>

lemma best_cpu_loop_total:
  assumes "set is \<subseteq> {..<32}" "length (runqueues s) = 256"
  shows "\<exists>c. best_cpu_loop is best m t s = Some c \<and> (c = best \<or> (\<exists>i\<in>set is. c = of_nat i))"
  using assms
proof (induction "is" arbitrary: best m)
  case (Cons i "is")
  have i: "i < 32" "set is \<subseteq> {..<32}" using Cons.prems(1) by auto
  have run: "runqueue i s = Some (runqueues s ! i)" using i Cons.prems(2) by (simp add: runqueue_def)
  have aff: "cpu_in_affinity t i = Some (cpu_affinity_mask t AND push_bit i 1 \<noteq> 0)"
    using i by (simp add: cpu_in_affinity_def bit_mask_def)
  let ?ld = "if rq_numa_node (runqueues s ! i) = th_numa_node t then (num_threads (runqueues s ! i) * 3) div 4
      else num_threads (runqueues s ! i)"
  let ?A = "cpu_affinity_mask t AND push_bit i 1 \<noteq> 0 \<and> ?ld < m"
  obtain c1 c2 where c: "best_cpu_loop is best m t s = Some c1" "c1 = best \<or> (\<exists>i\<in>set is. c1 = of_nat i)"
      "best_cpu_loop is (of_nat i) ?ld t s = Some c2" "c2 = of_nat i \<or> (\<exists>i\<in>set is. c2 = of_nat i)"
    using Cons.IH [OF i(2) Cons.prems(2)] by meson
  have "best_cpu_loop (i # is) best m t s = Some (if ?A then c2 else c1)"
    using run aff c(1,3) by (simp add: Let_def)
  moreover have "(if ?A then c2 else c1) = best \<or> (\<exists>i\<in>set (i # is). (if ?A then c2 else c1) = of_nat i)"
    using c(2,4) by (cases ?A) auto
  ultimately show ?case by blast
qed simp

lemma find_best_cpu_total:
  assumes "unat (num_cpus s) < 32" "length (runqueues s) = 256" "threads s p \<noteq> None"
  obtains c where "find_best_cpu p s = Some c" "unat c < 32" "c = 0 \<or> unat c < unat (num_cpus s)"
proof -
  obtain t where t: "threads s p = Some t" using assms(3) by blast
  have "set [0..<unat (num_cpus s)] \<subseteq> {..<32}" using assms(1) by auto
  then obtain c where c: "best_cpu_loop [0..<unat (num_cpus s)] 0 (- 1) t s = Some c"
      "c = 0 \<or> (\<exists>i\<in>set [0..<unat (num_cpus s)]. c = of_nat i)"
    using best_cpu_loop_total [OF _ assms(2)] by blast
  have "c = 0 \<or> unat c < unat (num_cpus s)" using c(2) assms(1) by (auto simp: unsigned_of_nat take_bit_nat_eq_self)
  then show thesis using that [of c] c(1) t assms(1) by (auto simp: find_best_cpu_def)
qed

section \<open>The simpler operations\<close>

lemma current_run: "smp_inv s Q \<Longrightarrow> q < 256 \<Longrightarrow> runqueue q s = Some (runqueues s ! q) \<and> rq_current (runqueues s ! q) = currents s q"
  using smp_absD(1) [OF smp_invD(1), of s Q] by (simp add: runqueue_def currents_def)

lemma yield_step:
  assumes inv: "smp_inv s Q" and q: "unat cpu_id = q" "q < 256"
  obtains u where "sched_yield cpu_id s = Some u" "smp_inv u (Q(q := requeued s q Q))" "currents u = (currents s)(q := None)"
proof (cases "currents s q")
  case None
  then have "sched_yield cpu_id s = Some s" using current_run [OF inv q(2)] q(1) by (simp add: sched_yield_def)
  moreover have "(currents s)(q := None) = currents s" "requeued s q Q = Q q" using None by (auto simp: requeued_def)
  ultimately show thesis using that inv by simp
next
  case (Some p)
  let ?f = "\<lambda>t. t\<lparr>th_state := THREAD_STATE_READY\<rparr>"
  obtain t s1 s2 where s: "on_thread ?f p s = Some s1" "enqueue_thread q p s1 = Some s2" "smp_abs s2 (Q(q := requeued s q Q))"
      "waiting (cores s2) (Q(q := requeued s q Q))" "running (cores s2) ((currents s)(q := None))" "rest s2 = rest s"
    by (rule requeue_step [OF inv q(2) Some, of ?f]) auto
  note r = rest_eqD [OF s(6)]
  obtain u where u: "on_runqueue (\<lambda>rq. rq\<lparr>rq_current := None\<rparr>) q s2 = Some u" "smp_abs u (Q(q := requeued s q Q))"
      "cores u = cores s2" "num_cpus u = num_cpus s2" "currents u = (currents s2)(q := None)"
      "\<And>j. j < 256 \<Longrightarrow> rq_cpu_id (runqueues u ! j) = rq_cpu_id (runqueues s2 ! j)"
    using on_runqueue_step [OF s(3) q(2), of "\<lambda>rq. rq\<lparr>rq_current := None\<rparr>"] by auto
  have "sched_yield cpu_id s = Some u" using current_run [OF inv q(2)] q(1) Some s(1,2) u(1) by (simp add: sched_yield_def)
  moreover have "smp_inv u (Q(q := requeued s q Q))"
    by (rule smp_invI [OF inv u(2)]) (use u s r smp_absD(1) [OF smp_invD(1) [OF inv]] in simp_all)
  ultimately show thesis using that u(5) r(1) by simp
qed

lemma block_step:
  assumes inv: "smp_inv s Q" and q: "unat cpu_id = q" "q < 256"
  obtains u where "sched_block cpu_id s = Some u" "smp_inv u Q" "currents u = (currents s)(q := None)"
proof (cases "currents s q")
  case None
  then have "sched_block cpu_id s = Some s" using current_run [OF inv q(2)] q(1) by (simp add: sched_block_def)
  moreover have "(currents s)(q := None) = currents s" using None by auto
  ultimately show thesis using that inv by simp
next
  case (Some p)
  note abs = smp_invD(1) [OF inv]
  obtain t where t: "threads s p = Some t" "th_state t = THREAD_STATE_RUNNING" "unat (th_cpu_id t) = q"
    using runningD [OF smp_invD(3) [OF inv] Some] by (auto simp: cores_Some)
  let ?f = "\<lambda>t. t\<lparr>th_state := THREAD_STATE_BLOCKED\<rparr>"
  obtain s1 where s1: "on_thread ?f p s = Some s1" "smp_abs s1 Q" "cores s1 = (cores s)(p \<mapsto> core (?f t))" "rest s1 = rest s"
    by (rule on_thread_step [OF abs t(1), of ?f]) (use notin_queues [OF abs t(1)] t(2) in auto)
  note r = rest_eqD [OF s1(4)]
  obtain u where u: "on_runqueue (\<lambda>rq. rq\<lparr>rq_current := None\<rparr>) q s1 = Some u" "smp_abs u Q"
      "cores u = cores s1" "num_cpus u = num_cpus s1" "currents u = (currents s1)(q := None)"
      "\<And>j. j < 256 \<Longrightarrow> rq_cpu_id (runqueues u ! j) = rq_cpu_id (runqueues s1 ! j)"
    using on_runqueue_step [OF s1(2) q(2), of "\<lambda>rq. rq\<lparr>rq_current := None\<rparr>"] by auto
  have "waiting (cores u) Q" unfolding u(3) s1(3)
    using waitingD [OF smp_invD(2) [OF inv], of p "core t"] t
    by (intro waiting_upd [OF smp_invD(2) [OF inv]]) (auto simp: core_def cores_def)
  moreover have "running (cores u) (currents u)" unfolding u(3,5) s1(3) r(1)
    by (rule running_stop [OF smp_invD(3) [OF inv] Some]) simp
  ultimately have "smp_inv u Q"
    using u(4,6) r smp_absD(1) [OF abs] by (intro smp_invI [OF inv u(2)]) auto
  moreover have "sched_block cpu_id s = Some u" using current_run [OF inv q(2)] q(1) Some s1(1) u(1) by (simp add: sched_block_def)
  ultimately show thesis using that u(5) r(1) by simp
qed

text \<open>A thread in no queue gets a processor and joins its queue.\<close>

lemma join_step:
  assumes inv: "smp_inv s0 Q" and abs: "smp_abs s Q'" and wait: "waiting (cores s) Qw" and run: "running (cores s) (currents s0)"
    and same: "rest s = rest s0" and p: "threads s p = Some t" "th_state t \<noteq> THREAD_STATE_RUNNING"
      "\<And>j l. j < 256 \<Longrightarrow> l < 128 \<Longrightarrow> p \<notin> set (Q' j l)"
    and sub: "\<And>j l. set (Qw j l) - {p} \<subseteq> set (Q' j l)"
    and f: "\<And>t. effective_priority (f t) = effective_priority t" "unat (th_cpu_id (f t)) = q" "q < 256"
      "\<And>t. th_next (f t) = th_next t" "\<And>t. th_prev (f t) = th_prev t"
  defines "k \<equiv> unat (effective_priority t)"
  obtains s1 u where "on_thread f p s = Some s1" "enqueue_thread q p s1 = Some u" "smp_inv u (Q'(q := (Q' q)(k := p # Q' q k)))"
    "currents u = currents s0" "\<And>x. x \<noteq> p \<Longrightarrow> cores u x = cores s x"
proof -
  obtain s1 where s1: "on_thread f p s = Some s1" "smp_abs s1 Q'" "cores s1 = (cores s)(p \<mapsto> core (f t))" "rest s1 = rest s"
      "threads s1 p = Some (f t)"
    by (rule on_thread_step [OF abs p(1), of f]) (use p f in auto)
  have k: "k < 128" using waitingD(1) [OF wait, of p "core t"] p(1) by (simp add: cores_def k_def)
  obtain u where u: "enqueue_thread q p s1 = Some u" "smp_abs u (Q'(q := (Q' q)(k := p # Q' q k)))"
      "cores u = (cores s1)(p \<mapsto> core ((f t)\<lparr>th_state := THREAD_STATE_READY\<rparr>))" "rest u = rest s1"
    by (rule enqueue_step [OF s1(2) f(3) s1(5), of k]) (use k f p(3) [OF f(3)] in \<open>auto simp: k_def\<close>)
  have c: "cores u = (cores s)(p \<mapsto> core ((f t)\<lparr>th_state := THREAD_STATE_READY\<rparr>))" using u(3) s1(3) by simp
  have r: "rest u = rest s0" using u(4) s1(4) same by simp
  have notcur: "currents s0 j \<noteq> Some p" for j
    using running_not_current [OF run, of p "core t"] p by (simp add: cores_def)
  have "waiting (cores u) (Q'(q := (Q' q)(k := p # Q' q k)))" unfolding c
  proof (rule waiting_upd [OF wait])
    show "set (Qw j l) - {p} \<subseteq> set ((Q'(q := (Q' q)(k := p # Q' q k))) j l)" for j l using sub [of j l] by auto
  qed (use k f in \<open>auto simp: core_def k_def\<close>)
  moreover have "running (cores u) (currents u)" unfolding c rest_eqD(1) [OF r]
    by (rule running_other [OF run notcur]) simp
  ultimately have "smp_inv u (Q'(q := (Q' q)(k := p # Q' q k)))"
    by (rule smp_invI [OF inv u(2)]) (use rest_eqD [OF r] smp_absD(1) [OF smp_invD(1) [OF inv]] in auto)
  then show thesis using that s1(1) u(1) rest_eqD(1) [OF r] c by simp
qed

lemma unblock_step:
  assumes inv: "smp_inv s Q" and p: "threads s p \<noteq> None"
  obtains u Q' where "sched_unblock (Some p) s = Some u" "smp_inv u Q'" "currents u = currents s"
proof -
  note abs = smp_invD(1) [OF inv]
  obtain t where t: "threads s p = Some t" using p by blast
  show thesis
  proof (cases "th_state t = THREAD_STATE_BLOCKED")
    case False
    then have "sched_unblock (Some p) s = Some s" using t by (simp add: sched_unblock_def)
    then show thesis using that inv by blast
  next
    case True
    obtain c where c: "find_best_cpu p s = Some c" "unat c < 32"
      using find_best_cpu_total [OF smp_invD(4) [OF inv] smp_absD(1) [OF abs] p] .
    obtain s1 u where u: "on_thread (\<lambda>t. t\<lparr>th_cpu_id := c\<rparr>) p s = Some s1" "enqueue_thread (unat c) p s1 = Some u"
        "smp_inv u (Q(unat c := (Q (unat c))(unat (effective_priority t) := p # Q (unat c) (unat (effective_priority t)))))"
        "currents u = currents s"
      by (rule join_step [OF inv abs smp_invD(2,3) [OF inv] refl t, of "\<lambda>t. t\<lparr>th_cpu_id := c\<rparr>" "unat c"])
        (use True c(2) notin_queues [OF abs t] in auto)
    have "sched_unblock (Some p) s = Some u" using t True c(1) u(1,2) by (simp add: sched_unblock_def)
    then show thesis using that u(3,4) by blast
  qed
qed

lemma base_priority_cases: "base_priority cls \<in> {0, 32, 64, 96}"
  by (auto simp: base_priority_def)

text \<open>The effective priority is the middle of its class plus the delta, cut off at the ends of the class, for every
  class and delta; so a delta above 15 counts as 15, one below -16 as -16, and classes never overlap.\<close>

theorem calculate_priority_clamps:
  "int (unat (calculate_priority cls delta)) = base_priority cls + 16 + max (- 16) (min 15 (sint delta))"
proof -
  have "\<bar>sint delta\<bar> \<le> 128"
    using sint_greater_eq [of delta] sint_less [of delta] by simp
  then show ?thesis using base_priority_cases [of cls]
    by (auto simp: calculate_priority_def Let_def unsigned_of_int take_bit_int_eq_self min_def max_def)
qed

lemma calculate_priority_less: "unat (calculate_priority cls delta) < 128"
proof -
  have "\<bar>sint delta\<bar> \<le> 128"
    using sint_greater_eq [of delta] sint_less [of delta] by simp
  then have "int (unat (calculate_priority cls delta)) < int 128" using base_priority_cases [of cls]
    by (auto simp: calculate_priority_def Let_def unsigned_of_int take_bit_int_eq_self)
  then show ?thesis by (simp only: of_nat_less_iff)
qed

lemma abs_fresh:
  assumes "smp_abs s Q" "threads s p = None"
  shows "smp_abs (s\<lparr>next_tid := n, threads := (threads s)(p \<mapsto> t)\<rparr>) Q"
    and "\<And>q k. q < 256 \<Longrightarrow> k < 128 \<Longrightarrow> p \<notin> set (Q q k)"
proof -
  show free: "p \<notin> set (Q q k)" if "q < 256" "k < 128" for q k
    using queue_okD(6) [OF smp_absD(3) [OF assms(1) that(1)] that(2), of p] assms(2) by (auto simp: queued_def)
  have "queue_ok ((threads s)(p \<mapsto> t)) q (runqueues s ! q) (Q q)" if "q < 256" for q
    by (rule queue_ok_cong [OF smp_absD(3) [OF assms(1) that]]) (use free [OF that] in \<open>auto simp: links_def queued_def\<close>)
  then show "smp_abs (s\<lparr>next_tid := n, threads := (threads s)(p \<mapsto> t)\<rparr>) Q"
    using assms(1) by (simp add: smp_abs_def smp_view_def)
qed

lemma create_step:
  assumes inv: "smp_inv s Q" and p: "threads s p = None"
  obtains c u t where "sched_create_thread (Some (p, garbage)) pid cls delta aff s = Some (Some p, u)" "unat c < 32"
    "c = 0 \<or> unat c < unat (num_cpus s)"
    "smp_inv u (Q(unat c := (Q (unat c))(unat (calculate_priority cls delta) := p # Q (unat c) (unat (calculate_priority cls delta)))))"
    "currents u = currents s" "cores u = (cores s)(p \<mapsto> t)" "tid t = next_tid s" "th_cpu_id t = c"
    "th_state t = THREAD_STATE_READY" "effective_priority t = calculate_priority cls delta" "num_cpus u = num_cpus s"
proof -
  note abs = smp_invD(1) [OF inv]
  have n: "unat (num_cpus s) < 32" "length (runqueues s) = 256" using smp_invD(4) [OF inv] smp_absD(1) [OF abs] by auto
  let ?s1 = "s\<lparr>next_tid := next_tid s + 1\<rparr>"
  let ?t1 = "garbage\<lparr>tid := next_tid s, th_pid := pid, priority_class := cls, priority_delta := delta,
                     effective_priority := calculate_priority cls delta, th_state := THREAD_STATE_READY\<rparr>"
  obtain m where m: "(if aff = 0 then map_option (\<lambda>m. m - 1) (bit_mask (unat (num_cpus ?s1))) else Some aff) = Some m"
    using n(1) by (cases "aff = 0") (auto simp: bit_mask_def)
  let ?s2 = "?s1\<lparr>threads := (threads ?s1)(p \<mapsto> ?t1\<lparr>cpu_affinity_mask := m\<rparr>)\<rparr>"
  obtain c where c: "find_best_cpu p ?s2 = Some c" "unat c < 32" "c = 0 \<or> unat c < unat (num_cpus ?s2)"
    by (rule find_best_cpu_total [of ?s2 p]) (use n in auto)
  have run: "runqueue (unat c) ?s2 = Some (runqueues s ! unat c)" using c(2) n(2) by (simp add: runqueue_def)
  define t4 where "t4 = ?t1\<lparr>cpu_affinity_mask := m, th_cpu_id := c, th_numa_node := rq_numa_node (runqueues s ! unat c),
     time_slice_remaining := TIME_SLICE_MS * 1000000, total_runtime := 0, last_scheduled := 0, th_next := None, th_prev := None,
     is_16bit := False, is_dos := False, is_win16 := False, th_context := None\<rparr>"
  let ?s4 = "s\<lparr>next_tid := next_tid s + 1, threads := (threads s)(p \<mapsto> t4)\<rparr>"
  let ?k = "unat (calculate_priority cls delta)"
  note fresh = abs_fresh [OF abs p]
  have t4: "effective_priority t4 = calculate_priority cls delta" "th_state t4 = THREAD_STATE_READY" "th_cpu_id t4 = c"
    "tid t4 = next_tid s" by (simp_all add: t4_def)
  obtain u where u: "enqueue_thread (unat c) p ?s4 = Some u" "smp_abs u (Q(unat c := (Q (unat c))(?k := p # Q (unat c) ?k)))"
      "cores u = (cores ?s4)(p \<mapsto> core (t4\<lparr>th_state := THREAD_STATE_READY\<rparr>))" "rest u = rest ?s4"
    by (rule enqueue_step [where s = ?s4 and Q = Q and q = "unat c" and p = p and t = t4 and k = ?k])
      (use fresh(1) [where n = "next_tid s + 1" and t = t4] c(2) t4 calculate_priority_less fresh(2) in auto)
  have cores: "cores u = (cores s)(p \<mapsto> core (t4\<lparr>th_state := THREAD_STATE_READY\<rparr>))"
    using u(3) by (auto simp: cores_def fun_eq_iff)
  have r: "currents u = currents s" "num_cpus u = num_cpus s"
    "\<And>j. j < 256 \<Longrightarrow> rq_cpu_id (runqueues u ! j) = rq_cpu_id (runqueues s ! j)"
    using rest_eqD [OF u(4)] n(2) by (simp_all add: currents_def fun_eq_iff)
  have "currents s j \<noteq> Some p" for j using runningD [OF smp_invD(3) [OF inv], of j p] p by (auto simp: cores_def)
  then have "running (cores u) (currents u)" unfolding cores r(1) by (intro running_other [OF smp_invD(3) [OF inv]]) simp_all
  moreover have "waiting (cores u) (Q(unat c := (Q (unat c))(?k := p # Q (unat c) ?k)))" unfolding cores
    by (rule waiting_upd [OF smp_invD(2) [OF inv]]) (use t4 c(2) calculate_priority_less in \<open>auto simp: core_def\<close>)
  ultimately have inv': "smp_inv u (Q(unat c := (Q (unat c))(?k := p # Q (unat c) ?k)))"
    using r by (intro smp_invI [OF inv u(2)]) auto
  have "sched_create_thread (Some (p, garbage)) pid cls delta aff s = Some (Some p, u)"
    using m c(1) run u(1) unfolding t4_def sched_create_thread_def
    by (simp add: Let_def on_thread_def runqueue_def cong: if_cong)
  then show thesis using that [of u c "core (t4\<lparr>th_state := THREAD_STATE_READY\<rparr>)"] c(2,3) inv' r(1,2) cores t4
    by (simp add: core_def)
qed

section \<open>Changing priorities\<close>

definition with_priority :: "u8 \<Rightarrow> s8 \<Rightarrow> thread \<Rightarrow> thread" where
  "with_priority cls delta t =
     (let c = (if cls \<noteq> PRTYC_NOCHANGE then cls else priority_class t)
      in t\<lparr>priority_class := c, priority_delta := delta, effective_priority := calculate_priority c delta\<rparr>)"

lemma with_priority_simps [simp]:
  "th_state (with_priority cls delta t) = th_state t" "th_cpu_id (with_priority cls delta t) = th_cpu_id t"
  "th_next (with_priority cls delta t) = th_next t" "th_prev (with_priority cls delta t) = th_prev t"
  "unat (effective_priority (with_priority cls delta t)) < 128"
  by (simp_all add: with_priority_def Let_def calculate_priority_less)

lemma set_priority_eq:
  assumes "threads s p = Some t" "s3 = s\<lparr>threads := (threads s)(p \<mapsto> with_priority cls delta t)\<rparr>"
  shows "sched_set_priority (Some p) cls delta s =
    (if th_state t = THREAD_STATE_READY then map_option (Pair 0) (enqueue_thread (unat (th_cpu_id t)) p s3) else Some (0, s3))"
  using assms
  by (auto simp: sched_set_priority_def on_thread_def with_priority_def Let_def map_conv_bind_option comp_def)

lemma set_priority_step:
  assumes inv: "smp_inv s Q" and t: "threads s p = Some t" "th_state t \<noteq> THREAD_STATE_READY"
  obtains u where "sched_set_priority (Some p) cls delta s = Some (0, u)" "smp_inv u Q" "currents u = currents s"
proof -
  note abs = smp_invD(1) [OF inv]
  obtain u where u: "on_thread (with_priority cls delta) p s = Some u" "smp_abs u Q"
      "cores u = (cores s)(p \<mapsto> core (with_priority cls delta t))" "rest u = rest s"
    by (rule on_thread_step [OF abs t(1), of "with_priority cls delta"]) (use notin_queues [OF abs t] in auto)
  have c: "cores s p = Some (core t)" using t(1) by (simp add: cores_def)
  have wait: "waiting (cores u) Q" unfolding u(3)
    using waitingD [OF smp_invD(2) [OF inv] c] t(2) by (intro waiting_upd [OF smp_invD(2) [OF inv]]) auto
  have run: "running (cores u) (currents u)" unfolding u(3) rest_eqD(1) [OF u(4)]
  proof (cases "th_state t = THREAD_STATE_RUNNING")
    case True
    show "running ((cores s)(p \<mapsto> core (with_priority cls delta t))) (currents s)"
      unfolding running_def
    proof (intro allI)
      fix q x
      show "(currents s q = Some x) = (\<exists>v. ((cores s)(p \<mapsto> core (with_priority cls delta t))) x = Some v \<and>
          th_state v = THREAD_STATE_RUNNING \<and> unat (th_cpu_id v) = q)"
        using running_iff [OF smp_invD(3) [OF inv], of q x] c by (cases "x = p") simp_all
    qed
  next
    case False
    then have "currents s j \<noteq> Some p" for j using running_not_current [OF smp_invD(3) [OF inv] c] by simp
    then show "running ((cores s)(p \<mapsto> core (with_priority cls delta t))) (currents s)"
      using False by (intro running_other [OF smp_invD(3) [OF inv]]) simp_all
  qed
  have "smp_inv u Q"
    by (rule smp_invI [OF inv u(2) wait run]) (use rest_eqD [OF u(4)] smp_absD(1) [OF abs] in auto)
  moreover have "sched_set_priority (Some p) cls delta s = Some (0, u)"
    using set_priority_eq [OF t(1) refl] t(2) u(1) t(1) by (simp add: on_thread_def)
  ultimately show thesis using that rest_eqD(1) [OF u(4)] by blast
qed

text \<open>The links to the next thread alone.\<close>

fun npath :: "heap \<Rightarrow> tptr option \<Rightarrow> tptr list \<Rightarrow> tptr option \<Rightarrow> bool" where
  "npath h first [] stop \<longleftrightarrow> first = stop"
| "npath h first (p # ps) stop \<longleftrightarrow> first = Some p \<and> (\<exists>t. h p = Some t \<and> npath h (th_next t) ps stop)"

lemma dseg_npath: "dseg h pr first ps stop \<Longrightarrow> npath h first ps stop"
  by (induction ps arbitrary: pr first) auto

lemma npath_cong:
  "(\<And>p. p \<in> set ps \<Longrightarrow> map_option th_next (h p) = map_option th_next (h' p)) \<Longrightarrow> npath h first ps stop \<Longrightarrow> npath h' first ps stop"
proof (induction ps arbitrary: first)
  case (Cons p ps)
  obtain t where t: "h p = Some t" "npath h (th_next t) ps stop" "first = Some p" using Cons.prems(2) by auto
  then obtain t' where "h' p = Some t'" "th_next t' = th_next t" using Cons.prems(1) [of p] by (cases "h' p") auto
  then show ?case using Cons t by auto
qed simp

lemma npath_prefix:
  "npath h first as (Some p) \<Longrightarrow> npath h first ps None \<Longrightarrow> \<exists>qs. ps = as @ p # qs"
proof (induction as arbitrary: first ps)
  case Nil
  then show ?case by (cases ps) auto
next
  case (Cons a as)
  then show ?case by (cases ps) auto
qed

lemma enqueue_raw:
  assumes "q < length (runqueues s)" "\<not> rq_lock (runqueues s ! q)" "length (queues (runqueues s ! q)) = 128"
    "length (queue_bitmap (runqueues s ! q)) = 4" "threads s p = Some t" "unat (effective_priority t) = k" "k < 128"
    "queues (runqueues s ! q) ! k = first" "\<And>x. first = Some x \<Longrightarrow> threads s x \<noteq> None"
  obtains u where "enqueue_thread q p s = Some u" "queues (runqueues u ! q) = (queues (runqueues s ! q))[k := Some p]"
    "\<And>x. map_option th_next (threads u x) = (if x = p then Some first else map_option th_next (threads s x))"
    "map_option effective_priority (threads u p) = Some (effective_priority t)"
    "num_threads (runqueues u ! q) = num_threads (runqueues s ! q) + 1"
proof (cases "first = Some p")
  case True
  have "k div 32 < 4" using assms(7) by (simp add: less_mult_imp_div_less)
  then have "\<exists>u. enqueue_thread q p s = Some u \<and> queues (runqueues u ! q) = (queues (runqueues s ! q))[k := Some p] \<and>
      (\<forall>x. map_option th_next (threads u x) = (if x = p then Some first else map_option th_next (threads s x))) \<and>
      map_option effective_priority (threads u p) = Some (effective_priority t) \<and>
      num_threads (runqueues u ! q) = num_threads (runqueues s ! q) + 1"
    using assms True by (simp add: enqueue_thread_def smp_access Let_def)
  then show thesis using that by blast
next
  case False
  let ?u = "s\<lparr>threads := push_heap (threads s) p t first, runqueues := (runqueues s)[q := push_rq (runqueues s ! q) k p]\<rparr>"
  have e: "enqueue_thread q p s = Some ?u"
    using assms False by (intro enqueue_closed) auto
  show thesis
  proof (rule that [OF e])
    show "queues (runqueues ?u ! q) = (queues (runqueues s ! q))[k := Some p]" using assms(1) by (simp add: push_rq_def)
    show "map_option th_next (threads ?u x) = (if x = p then Some first else map_option th_next (threads s x))" for x
      using assms(9) False by (auto simp: push_heap_def Let_def split: option.splits)
    show "map_option effective_priority (threads ?u p) = Some (effective_priority t)"
      using False by (auto simp: push_heap_def Let_def split: option.splits)
    show "num_threads (runqueues ?u ! q) = num_threads (runqueues s ! q) + 1" using assms(1) by (simp add: push_rq_def)
  qed
qed

text \<open>C32: \<open>sched_set_priority\<close> on a waiting thread returns 0 and enqueues the thread a second time without taking it out of
  its queue first. The thread becomes the head of the queue of its new priority. It also stays in the queue of its
  old priority: that queue's head is as before, and following the links from it, through the threads that were before
  it, leads to it (and from there into the other queue); when the priority is the same, the links run in a circle. The
  processor's count of threads, in which it was already counted, is one higher than before. The links, bitmaps and
  counters no longer describe any queues.\<close>

theorem sched_set_priority_corrupts:
  assumes inv: "smp_inv s Q" and t: "threads s p = Some t" "th_state t = THREAD_STATE_READY"
  shows "\<exists>u as bs. sched_set_priority (Some p) cls delta s = Some (0, u) \<and>
    (let q = unat (th_cpu_id t); old = unat (effective_priority t);
         new = unat (calculate_priority (if cls \<noteq> PRTYC_NOCHANGE then cls else priority_class t) delta);
         before = queues (runqueues s ! q); after = queues (runqueues u ! q)
     in after ! new = Some p \<and> map_option th_next (threads u p) = Some (before ! new) \<and>
        Q q old = as @ p # bs \<and>
        (if new = old then npath (threads u) (Some p) (p # as) (Some p)
         else after ! old = before ! old \<and> npath (threads u) (after ! old) as (Some p)) \<and>
        num_threads (runqueues u ! q) = num_threads (runqueues s ! q) + 1) \<and>
    (\<nexists>Q'. smp_abs u Q')"
proof -
  note abs = smp_invD(1) [OF inv]
  let ?q = "unat (th_cpu_id t)" and ?k = "unat (effective_priority t)"
  let ?t' = "with_priority cls delta t"
  let ?s3 = "s\<lparr>threads := (threads s)(p \<mapsto> ?t')\<rparr>" and ?k' = "unat (effective_priority ?t')"
  have c: "cores s p = Some (core t)" using t(1) by (simp add: cores_def)
  have q: "?q < 256" and k: "?k < 128" and pin: "p \<in> set (Q ?q ?k)"
    using waitingD [OF smp_invD(2) [OF inv] c] t(2) by simp_all
  note ok = smp_absD(3) [OF abs q]
  let ?first = "queues (runqueues s ! ?q) ! ?k'"
  have len: "length (runqueues s) = 256" by (rule smp_absD(1) [OF abs])
  have alloc: "threads ?s3 x \<noteq> None" if "?first = Some x" for x
  proof -
    have "dll (threads s) ?first (Q ?q ?k')" using queue_okD(4) [OF ok] by simp
    then show ?thesis using that by (cases "Q ?q ?k'") auto
  qed
  obtain u where u: "enqueue_thread ?q p ?s3 = Some u" "queues (runqueues u ! ?q) = (queues (runqueues s ! ?q))[?k' := Some p]"
      "\<And>x. map_option th_next (threads u x) = (if x = p then Some ?first else map_option th_next (threads ?s3 x))"
      "map_option effective_priority (threads u p) = Some (effective_priority ?t')"
      "num_threads (runqueues u ! ?q) = num_threads (runqueues s ! ?q) + 1"
    by (rule enqueue_raw [of ?q ?s3 p ?t' ?k' ?first]) (use q len ok smp_absD(2) [OF abs q] queue_okD(1,2) [OF ok] alloc in auto)
  obtain as bs where split: "Q ?q ?k = as @ p # bs" "p \<notin> set as" using pin by (meson split_list_first)
  have old: "npath (threads s) (queues (runqueues s ! ?q) ! ?k) as (Some p)"
    using queue_okD(4) [OF ok k] unfolding split(1) dseg_append by (auto intro: dseg_npath)
  have path: "npath (threads u) (queues (runqueues s ! ?q) ! ?k) as (Some p)"
    using old by (rule npath_cong [rotated]) (use u(3) split(2) in auto)
  have new: "?k' = unat (calculate_priority (if cls \<noteq> PRTYC_NOCHANGE then cls else priority_class t) delta)"
    by (simp add: with_priority_def Let_def)
  have head: "queues (runqueues u ! ?q) ! ?k' = Some p" using queue_okD(1) [OF ok] by (simp add: u(2))
  have link: "map_option th_next (threads u p) = Some ?first" using u(3) by simp
  have circle: "npath (threads u) (Some p) (p # as) (Some p)" if "?k' = ?k"
  proof -
    obtain v where "threads u p = Some v" "th_next v = ?first" using link by (cases "threads u p") auto
    then show ?thesis using path that by simp
  qed
  have stays: "queues (runqueues u ! ?q) ! ?k = queues (runqueues s ! ?q) ! ?k" if "?k' \<noteq> ?k" using that by (simp add: u(2))
  have no_abs: "\<not> smp_abs u Q'" for Q'
  proof
    assume abs': "smp_abs u Q'"
    note ok' = smp_absD(3) [OF abs' q]
    have list: "npath (threads u) (queues (runqueues u ! ?q) ! ?k) (Q' ?q ?k) None"
      using queue_okD(4) [OF ok' k] by (rule dseg_npath)
    show False
    proof (cases "?k' = ?k")
      case True
      obtain qs where "Q' ?q ?k = (p # as) @ p # qs" using npath_prefix [OF circle [OF True]] list head True by metis
      then show False using queue_okD(5) [OF ok' k] by simp
    next
      case False
      then obtain qs where "Q' ?q ?k = as @ p # qs" using npath_prefix [OF path] list stays by metis
      then have "queued (threads u) ?q ?k p" using queue_okD(6) [OF ok' k, of p] by simp
      then show False using u(4) False by (auto simp: queued_def)
    qed
  qed
  have r: "sched_set_priority (Some p) cls delta s = Some (0, u)"
    using set_priority_eq [OF t(1) refl] t(2) u(1) by simp
  show ?thesis
    by (intro exI [of _ u] exI [of _ as] exI [of _ bs] conjI r)
      (use head link split(1) circle stays path u(5) no_abs in \<open>auto simp: Let_def new [symmetric]\<close>)
qed

section \<open>Stealing\<close>

definition allowed :: "smp \<Rightarrow> nat \<Rightarrow> tptr \<Rightarrow> bool" where
  "allowed s cpu p = (case threads s p of None \<Rightarrow> False | Some t \<Rightarrow> cpu_in_affinity t cpu = Some True)"

lemma allowed_cores: "cores u = cores s \<Longrightarrow> allowed u cpu p = allowed s cpu p"
proof -
  assume "cores u = cores s"
  then have "map_option core (threads u p) = map_option core (threads s p)" by (simp add: cores_def fun_eq_iff)
  then show ?thesis
    by (cases "threads u p"; cases "threads s p") (auto simp: allowed_def cpu_in_affinity_def dest: core_eqD)
qed

lemma rest_rq: "rest (s\<lparr>threads := h, runqueues := (runqueues s)[q := unlink_rq (runqueues s ! q) k f]\<rparr>) = rest s"
  by (rule rest_one) (simp add: unlink_rq_def rq_rest_def)

lemma unlink_step:
  assumes view: "smp_view s Q" and q: "q < 256" "k < 128" and mid: "Q q k = as @ p # bs"
  obtains u where "unlink_candidate q k (before None as) p s = Some u" "smp_view u (Q(q := (Q q)(k := as @ bs)))"
    "cores u = cores s" "rest u = rest s"
proof -
  let ?rq = "runqueues s ! q"
  note ok = smp_viewD(2) [OF view q(1)]
  have list: "dll (threads s) (queues ?rq ! k) (as @ p # bs)" and dis: "distinct (as @ p # bs)"
    using queue_okD(4,5) [OF ok q(2)] mid by simp_all
  have "queued (threads s) q k p" using queue_okD(6) [OF ok q(2), of p] mid by simp
  then obtain t where t: "threads s p = Some t" by (auto simp: queued_def)
  note U = dll_unlink [OF list dis t]
  let ?f = "if as = [] then th_next t else queues ?rq ! k"
  let ?u = "s\<lparr>threads := unlink_heap (threads s) p t (before None as), runqueues := (runqueues s)[q := unlink_rq ?rq k ?f]\<rparr>"
  have len: "q < length (runqueues s)" using smp_viewD(1) [OF view] q(1) by simp
  have "unlink_candidate q k (before None as) p s = Some ?u"
  proof (cases "as = []")
    case True
    then show ?thesis
      using unlink_closed(2) [OF len refl queue_okD(1,2) [OF ok] t q(2) U(4,5)] by simp
  next
    case False
    then obtain f where "queues ?rq ! k = Some f" using U(6) by auto
    then show ?thesis
      using unlink_middle_closed [OF len refl queue_okD(1,2) [OF ok] t q(2), of f "last as"] U(4,5) U(6) [OF False] False
      by (simp add: before_def)
  qed
  moreover have "smp_view ?u (Q(q := (Q q)(k := as @ bs)))" by (rule unlink_view(1) [OF view q mid t])
  moreover have "cores ?u = cores s" using unlink_view(2) [OF view q mid t] by (simp add: cores_def fun_eq_iff)
  ultimately show thesis using that rest_rq by blast
qed

text \<open>The walk along one list: the first thread the thief may run is taken out.\<close>

lemma steal_walk_spec:
  assumes view: "smp_view s Q" and q: "q < 256" "k < 128" and thief: "thief < 32"
  shows "Q q k = as @ bs \<Longrightarrow> dseg (threads s) (before None as) first bs None \<Longrightarrow>
    (case List.find (allowed s thief) bs of
       None \<Rightarrow> steal_walk thief q k (before None as) first s = Some (None, s)
     | Some p \<Rightarrow> \<exists>cs ds u. bs = cs @ p # ds \<and> p \<notin> set cs \<and> steal_walk thief q k (before None as) first s = Some (Some p, u) \<and>
         smp_view u (Q(q := (Q q)(k := as @ cs @ ds))) \<and> cores u = cores s \<and> rest u = rest s)"
proof (induction bs arbitrary: as first)
  case Nil
  then show ?case by (simp add: steal_walk.simps [of thief q k "before None as"])
next
  case (Cons p bs)
  obtain t where t: "first = Some p" "threads s p = Some t" "dseg (threads s) (Some p) (th_next t) bs None"
    using Cons.prems(2) by auto
  obtain b where b: "cpu_in_affinity t thief = Some b" using thief by (simp add: cpu_in_affinity_def bit_mask_def)
  show ?case
  proof (cases b)
    case True
    obtain u where "unlink_candidate q k (before None as) p s = Some u" "smp_view u (Q(q := (Q q)(k := as @ bs)))"
        "cores u = cores s" "rest u = rest s"
      using unlink_step [OF view q Cons.prems(1)] by blast
    moreover from this have "steal_walk thief q k (before None as) first s = Some (Some p, u)"
      using t b True by (simp add: steal_walk.simps [of thief q k "before None as"])
    moreover have "allowed s thief p" using t b True by (simp add: allowed_def)
    ultimately show ?thesis by force
  next
    case False
    then have no: "\<not> allowed s thief p" using t b by (simp add: allowed_def)
    have walk: "steal_walk thief q k (before None as) first s = steal_walk thief q k (before None (as @ [p])) (th_next t) s"
      using t b False by (subst steal_walk.simps) (simp add: before_def)
    have IH: "case List.find (allowed s thief) bs of
       None \<Rightarrow> steal_walk thief q k (before None (as @ [p])) (th_next t) s = Some (None, s)
     | Some x \<Rightarrow> \<exists>cs ds u. bs = cs @ x # ds \<and> x \<notin> set cs \<and>
         steal_walk thief q k (before None (as @ [p])) (th_next t) s = Some (Some x, u) \<and>
         smp_view u (Q(q := (Q q)(k := (as @ [p]) @ cs @ ds))) \<and> cores u = cores s \<and> rest u = rest s"
      by (rule Cons.IH) (use Cons.prems(1) t(3) in \<open>simp_all add: before_def\<close>)
    show ?thesis
    proof (cases "List.find (allowed s thief) bs")
      case None
      then show ?thesis using IH no walk by simp
    next
      case (Some x)
      then obtain cs ds u where "bs = cs @ x # ds" "x \<notin> set cs"
          "steal_walk thief q k (before None (as @ [p])) (th_next t) s = Some (Some x, u)"
          "smp_view u (Q(q := (Q q)(k := (as @ [p]) @ cs @ ds)))" "cores u = cores s" "rest u = rest s"
        using IH by auto
      moreover have "x \<noteq> p" using Some no by (auto simp: find_Some_iff)
      ultimately show ?thesis using Some no walk by (force intro: exI [of _ "p # cs"])
    qed
  qed
qed

lemma find_append: "List.find P (xs @ ys) = (case List.find P xs of None \<Rightarrow> List.find P ys | Some x \<Rightarrow> Some x)"
  by (induction xs) auto

lemma steal_prios_spec:
  assumes view: "smp_view s Q" and q: "q < 256" and thief: "thief < 32"
  shows "set ks \<subseteq> {..<128} \<Longrightarrow>
    (case List.find (allowed s thief) (concat (map (Q q) ks)) of
       None \<Rightarrow> steal_prios thief q ks s = Some (None, s)
     | Some p \<Rightarrow> \<exists>k<128. \<exists>u. p \<in> set (Q q k) \<and> steal_prios thief q ks s = Some (Some p, u) \<and>
         smp_view u (Q(q := (Q q)(k := remove1 p (Q q k)))) \<and> cores u = cores s \<and> rest u = rest s)"
proof (induction ks)
  case (Cons k ks)
  have k: "k < 128" using Cons.prems by simp
  note ok = smp_viewD(2) [OF view q]
  have head: "queue_head q k s = Some (queues (runqueues s ! q) ! k)"
    using smp_viewD(1) [OF view] q queue_okD(1) [OF ok] k by (simp add: queue_head_def runqueue_def)
  note W = steal_walk_spec [OF view q k thief, of "[]" "Q q k" "queues (runqueues s ! q) ! k"]
  have list: "dseg (threads s) (before None []) (queues (runqueues s ! q) ! k) (Q q k) None"
    using queue_okD(4) [OF ok k] by simp
  show ?case
  proof (cases "List.find (allowed s thief) (Q q k)")
    case None
    then have "steal_walk thief q k None (queues (runqueues s ! q) ! k) s = Some (None, s)" using W list by simp
    then have "steal_prios thief q (k # ks) s = steal_prios thief q ks s" using head by simp
    then show ?thesis using Cons None by (simp add: find_append del: steal_prios.simps cong: option.case_cong)
  next
    case (Some p)
    then obtain cs ds u where w: "Q q k = cs @ p # ds" "p \<notin> set cs"
        "steal_walk thief q k None (queues (runqueues s ! q) ! k) s = Some (Some p, u)"
        "smp_view u (Q(q := (Q q)(k := cs @ ds)))" "cores u = cores s" "rest u = rest s"
      using W list by auto
    have "remove1 p (Q q k) = cs @ ds" using w(1,2) by (simp add: remove1_append)
    then have v: "smp_view u (Q(q := (Q q)(k := remove1 p (Q q k))))" using w(4) by simp
    have "List.find (allowed s thief) (concat (map (Q q) (k # ks))) = Some p" using Some by (simp add: find_append)
    moreover have "steal_prios thief q (k # ks) s = Some (Some p, u)" using w(3) head by simp
    moreover have "p \<in> set (Q q k)" using w(1) by simp
    ultimately show ?thesis using k v w(5,6) by (simp only: option.case) blast
  qed
qed simp

definition victims :: "smp \<Rightarrow> u32 \<Rightarrow> u32 \<Rightarrow> nat list \<Rightarrow> nat list" where
  "victims s thief thief_load is =
     filter (\<lambda>i. of_nat i \<noteq> thief \<and> \<not> num_threads (runqueues s ! i) < thief_load + 2) is"

lemma rest_lock: "rest (lock_to b q s) = lock_to b q (rest s)"
proof (cases "q < length (runqueues s)")
  case True
  have "rq_rest (rq\<lparr>rq_lock := b\<rparr>) = (rq_rest rq)\<lparr>rq_lock := b\<rparr>" for rq by (simp add: rq_rest_def)
  then show ?thesis using True by (simp add: rest_def lock_to_def map_update)
qed (simp add: rest_def lock_to_def list_update_beyond)

lemma lock_unlock: "\<not> rq_lock (runqueues s ! q) \<Longrightarrow> q < length (runqueues s) \<Longrightarrow> lock_to False q (lock_to b q s) = s"
  by (cases s) (simp add: lock_to_def unlocked_rq list_update_id)

lemma rest_unlocked:
  assumes "rest u = rest s" "j < length (runqueues s)"
  shows "rq_lock (runqueues u ! j) = rq_lock (runqueues s ! j)"
proof -
  have "map rq_rest (runqueues u) = map rq_rest (runqueues s)"
    using arg_cong [OF assms(1), of runqueues] by (simp add: rest_def)
  then have "rq_rest (runqueues u ! j) = rq_rest (runqueues s ! j)"
    using assms(2) by (metis length_map nth_map)
  then have "rq_lock (rq_rest (runqueues u ! j)) = rq_lock (rq_rest (runqueues s ! j))" by simp
  then show ?thesis by (simp add: rq_rest_def)
qed

lemma steal_cpus_spec:
  assumes abs: "smp_abs s Q" and thief: "unat thief < 32"
  shows "set is \<subseteq> {..<256} \<Longrightarrow>
    (case List.find (allowed s (unat thief)) (concat (map (\<lambda>i. concat (map (Q i) [0..<128])) (victims s thief ld is))) of
       None \<Rightarrow> steal_cpus thief ld is s = Some (None, s)
     | Some p \<Rightarrow> \<exists>i\<in>set (victims s thief ld is). \<exists>k<128. \<exists>u. p \<in> set (Q i k) \<and> steal_cpus thief ld is s = Some (Some p, u) \<and>
         smp_abs u (Q(i := (Q i)(k := remove1 p (Q i k)))) \<and> cores u = cores s \<and> rest u = rest s)"
proof (induction "is")
  case (Cons i "is")
  have i: "i < 256" and len: "length (runqueues s) = 256" using Cons.prems smp_absD(1) [OF abs] by auto
  have run: "runqueue i s = Some (runqueues s ! i)" using i len by (simp add: runqueue_def)
  show ?case
  proof (cases "of_nat i \<noteq> thief \<and> \<not> num_threads (runqueues s ! i) < ld + 2")
    case False
    then have "steal_cpus thief ld (i # is) s = steal_cpus thief ld is s" using run by auto
    moreover have "victims s thief ld (i # is) = victims s thief ld is" using False by (auto simp: victims_def)
    ultimately show ?thesis using Cons by (simp del: steal_cpus.simps cong: option.case_cong)
  next
    case True
    then have v: "victims s thief ld (i # is) = i # victims s thief ld is" by (simp add: victims_def)
    let ?s1 = "lock_to True i s"
    have view1: "smp_view ?s1 Q" using abs by (simp add: smp_abs_def view_lock)
    have c1: "cores ?s1 = cores s" by (simp add: cores_def lock_to_def fun_eq_iff)
    have unlock: "lock_to False i ?s1 = s" using lock_unlock smp_absD(2) [OF abs i] i len by simp
    note acq = acquire_abs [OF abs i]
    have step: "steal_cpus thief ld (i # is) s = do {
           (p, s2) \<leftarrow> steal_prios (unat thief) i [0..<128] ?s1;
           s3 \<leftarrow> release_runqueue_lock i s2;
           (if p \<noteq> None then Some (p, s3) else steal_cpus thief ld is s3) }"
      using True run acq by (simp add: MAX_PRIORITY_def del: upt_Suc)
    have al: "allowed ?s1 (unat thief) = allowed s (unat thief)" using allowed_cores [OF c1] by (simp add: fun_eq_iff)
    have sub: "set [0..<128] \<subseteq> {..<128 :: nat}" by auto
    note P = steal_prios_spec [OF view1 i thief sub, unfolded al]
    show ?thesis
    proof (cases "List.find (allowed s (unat thief)) (concat (map (Q i) [0..<128]))")
      case None
      then have "steal_prios (unat thief) i [0..<128] ?s1 = Some (None, ?s1)" using P by (simp del: upt_Suc)
      then have "steal_cpus thief ld (i # is) s = steal_cpus thief ld is s"
        using step release_view [OF view1 i] unlock by (simp del: steal_cpus.simps)
      moreover have "List.find (allowed s (unat thief)) (concat (map (\<lambda>i. concat (map (Q i) [0..<128])) (victims s thief ld (i # is)))) =
          List.find (allowed s (unat thief)) (concat (map (\<lambda>i. concat (map (Q i) [0..<128])) (victims s thief ld is)))"
        using None v by (simp add: find_append del: upt_Suc)
      moreover have "set is \<subseteq> {..<256}" using Cons.prems by simp
      note Cons.IH [OF this]
      moreover have "set (victims s thief ld is) \<subseteq> set (victims s thief ld (i # is))" using v by auto
      ultimately show ?thesis
        by (cases "List.find (allowed s (unat thief)) (concat (map (\<lambda>i. concat (map (Q i) [0..<128])) (victims s thief ld is)))")
          (simp_all only: option.case, blast)
    next
      case (Some p)
      then obtain k u where u: "k < 128" "p \<in> set (Q i k)" "steal_prios (unat thief) i [0..<128] ?s1 = Some (Some p, u)"
          "smp_view u (Q(i := (Q i)(k := remove1 p (Q i k))))" "cores u = cores ?s1" "rest u = rest ?s1"
        using P by (auto simp del: upt_Suc)
      have r: "rest (lock_to False i u) = rest s" using u(6) unlock by (metis rest_lock)
      have "smp_abs (lock_to False i u) (Q(i := (Q i)(k := remove1 p (Q i k))))"
        using u(4) view_lock rest_unlocked [OF r] len smp_absD(2) [OF abs] by (simp add: smp_abs_def)
      moreover have "cores (lock_to False i u) = cores s" using u(5) c1 by (simp add: cores_def lock_to_def fun_eq_iff)
      moreover have "steal_cpus thief ld (i # is) s = Some (Some p, lock_to False i u)"
        using step u(3) release_view [OF u(4) i] by (simp del: steal_cpus.simps)
      ultimately show ?thesis using u(1,2) v Some r by (auto simp: find_append simp del: upt_Suc steal_cpus.simps)
    qed
  qed
qed (simp add: victims_def)

lemma join_queues:
  assumes "smp_abs s Q" "i < 256" "k < 128" "p \<in> set (Q i k)" "smp_abs u (Q(i := (Q i)(k := remove1 p (Q i k))))" "cores u = cores s"
  shows "threads s p \<noteq> None" "j < 256 \<Longrightarrow> l < 128 \<Longrightarrow> p \<notin> set ((Q(i := (Q i)(k := remove1 p (Q i k)))) j l)"
    "queued (threads s) i k p"
proof -
  show q: "queued (threads s) i k p" using queue_okD(6) [OF smp_absD(3) [OF assms(1,2)] assms(3,4)] .
  then show "threads s p \<noteq> None" by (auto simp: queued_def)
  show "p \<notin> set ((Q(i := (Q i)(k := remove1 p (Q i k)))) j l)" if "j < 256" "l < 128"
  proof (cases "j = i \<and> l = k")
    case True
    have "distinct (Q i k)" using queue_okD(5) [OF smp_absD(3) [OF assms(1,2)] assms(3)] .
    then show ?thesis using True by simp
  next
    case False
    have "p \<notin> set (Q j l)"
      using queue_okD(6) [OF smp_absD(3) [OF assms(1) that(1)] that(2), of p] queued_unique [OF q] False by blast
    then show ?thesis using False by auto
  qed
qed

text \<open>The thread \<open>sched_balance_load\<close> looks for: the first one that the processor may run, in the queues of the processors
  with at least two threads more, from the lowest priority up.\<close>

definition loot :: "smp \<Rightarrow> nat \<Rightarrow> u32 \<Rightarrow> (nat \<Rightarrow> nat \<Rightarrow> tptr list) \<Rightarrow> tptr option" where
  "loot s q cpu_id Q =
     (if num_threads (runqueues s ! q) < 2
      then List.find (allowed s q) (concat (map (\<lambda>i. concat (map (Q i) [0..<128]))
             (victims s cpu_id (num_threads (runqueues s ! q)) [0..<unat (num_cpus s)])))
      else None)"

lemma balance_step:
  assumes inv: "smp_inv s Q" and q: "unat cpu_id = q" "q < unat (num_cpus s)"
  shows "case loot s q cpu_id Q of
      None \<Rightarrow> sched_balance_load cpu_id s = Some s
    | Some p \<Rightarrow> \<exists>u i k. sched_balance_load cpu_id s = Some u \<and> i < 256 \<and> i \<noteq> q \<and> k < 128 \<and> p \<in> set (Q i k) \<and>
        (let Q' = Q(i := (Q i)(k := remove1 p (Q i k))) in smp_inv u (Q'(q := (Q' q)(k := p # Q' q k)))) \<and>
        currents u = currents s \<and> (\<forall>x. x \<noteq> p \<longrightarrow> cores u x = cores s x)"
proof -
  note abs = smp_invD(1) [OF inv]
  have q256: "q < 32" "q < 256" using q(2) smp_invD(4) [OF inv] by auto
  have len: "length (runqueues s) = 256" by (rule smp_absD(1) [OF abs])
  have run: "runqueue q s = Some (runqueues s ! q)" using q256 len by (simp add: runqueue_def)
  have id: "rq_cpu_id (runqueues s ! q) = cpu_id" using smp_invD(5) [OF inv q(2)] q(1) by auto
  have "set [0..<unat (num_cpus s)] \<subseteq> {..<256}" using smp_invD(4) [OF inv] by auto
  note S = steal_cpus_spec [OF abs _ this, of cpu_id "num_threads (runqueues s ! q)", unfolded q(1), OF q256(1)]
  have steal: "steal_thread q s = steal_cpus cpu_id (num_threads (runqueues s ! q)) [0..<unat (num_cpus s)] s"
    using run id by (simp add: steal_thread_def)
  show ?thesis
  proof (cases "loot s q cpu_id Q")
    case None
    then show ?thesis using S steal run q(1)
      by (cases "num_threads (runqueues s ! q) < 2") (simp_all add: loot_def sched_balance_load_def)
  next
    case (Some p)
    then have few: "num_threads (runqueues s ! q) < 2" by (simp add: loot_def split: if_splits)
    let ?v = "victims s cpu_id (num_threads (runqueues s ! q)) [0..<unat (num_cpus s)]"
    have find: "List.find (allowed s q) (concat (map (\<lambda>i. concat (map (Q i) [0..<128])) ?v)) = Some p"
      using Some few by (simp add: loot_def)
    obtain i k u where u: "i \<in> set ?v" "k < 128" "p \<in> set (Q i k)" "steal_thread q s = Some (Some p, u)"
        "smp_abs u (Q(i := (Q i)(k := remove1 p (Q i k))))" "cores u = cores s" "rest u = rest s"
      using S unfolding find steal by (simp only: option.case) blast
    have i: "i < 256" "i \<noteq> q" using u(1) q smp_invD(4) [OF inv] by (auto simp: victims_def)
    note J = join_queues [OF abs i(1) u(2,3,5,6)]
    have "map_option core (threads u p) = map_option core (threads s p)" using u(6) by (simp add: cores_def fun_eq_iff)
    then obtain t where t: "threads u p = Some t" using J(1) by (cases "threads u p") auto
    have "queued (threads u) i k p"
      using J(3) queued_core [of "threads u" p "threads s" i k] u(6) by (simp add: cores_def fun_eq_iff)
    then have tk: "th_state t = THREAD_STATE_READY" "unat (effective_priority t) = k" using t by (auto simp: queued_def)
    let ?Q' = "Q(i := (Q i)(k := remove1 p (Q i k)))"
    have wait: "waiting (cores u) Q" and run1: "running (cores u) (currents s)" using smp_invD(2,3) [OF inv] u(6) by simp_all
    have "x \<in> set (?Q' j l)" if "x \<in> set (Q j l)" "x \<noteq> p" for x j l using that by auto
    then have sub: "set (Q j l) - {p} \<subseteq> set (?Q' j l)" for j l by blast
    obtain s1 w where w: "on_thread (\<lambda>t. t\<lparr>th_cpu_id := cpu_id\<rparr>) p u = Some s1" "enqueue_thread q p s1 = Some w"
        "smp_inv w (?Q'(q := (?Q' q)(k := p # ?Q' q k)))" "currents w = currents s" "\<And>x. x \<noteq> p \<Longrightarrow> cores w x = cores u x"
      by (rule join_step [OF inv u(5) wait run1 u(7) t, of "\<lambda>t. t\<lparr>th_cpu_id := cpu_id\<rparr>" q])
        (use tk J(2) sub q(1) q256 in auto)
    have b: "sched_balance_load cpu_id s = Some w"
      using run few u(4) w(1,2) q(1) by (simp add: sched_balance_load_def)
    show ?thesis unfolding Some option.case Let_def
      by (rule exI [of _ w], rule exI [of _ i], rule exI [of _ k]) (use b i u(2,3,6) w(3,4,5) in simp)
  qed
qed

section \<open>Start, reachable states\<close>

definition no_queues :: "nat \<Rightarrow> nat \<Rightarrow> tptr list" where
  "no_queues q k = []"

lemma init_runqueues_spec:
  assumes "set is \<subseteq> {..<256}" "\<And>nodes. topo = Some nodes \<Longrightarrow> set is \<subseteq> {..<length nodes}" "length (runqueues s) = 256"
  shows "\<exists>u. init_runqueues is topo s = Some u \<and> length (runqueues u) = 256 \<and> threads u = threads s \<and> num_cpus u = num_cpus s \<and>
    (\<forall>j<256. queues (runqueues u ! j) = (if j \<in> set is then replicate 128 None else queues (runqueues s ! j)) \<and>
       queue_bitmap (runqueues u ! j) = (if j \<in> set is then replicate 4 0 else queue_bitmap (runqueues s ! j)) \<and>
       num_threads (runqueues u ! j) = (if j \<in> set is then 0 else num_threads (runqueues s ! j)) \<and>
       rq_lock (runqueues u ! j) = (if j \<in> set is then False else rq_lock (runqueues s ! j)) \<and>
       rq_current (runqueues u ! j) = (if j \<in> set is then None else rq_current (runqueues s ! j)) \<and>
       rq_cpu_id (runqueues u ! j) = (if j \<in> set is then of_nat j else rq_cpu_id (runqueues s ! j)))"
  using assms
proof (induction "is" arbitrary: s)
  case (Cons i "is")
  obtain node where node: "(case topo of None \<Rightarrow> Some 0 | Some nodes \<Rightarrow> if i < length nodes then Some (nodes ! i) else None) = Some node"
    using Cons.prems(2) by (cases topo) auto
  let ?f = "\<lambda>rq. rq\<lparr>rq_cpu_id := of_nat i, rq_lock := False, num_threads := 0, rq_load := 0, rq_numa_node := node,
            rq_current := None, queues := replicate 128 None, queue_bitmap := replicate 4 0\<rparr>"
  let ?t = "s\<lparr>runqueues := (runqueues s)[i := ?f (runqueues s ! i)]\<rparr>"
  have i: "i < 256" using Cons.prems(1) by simp
  have max: "MAX_PRIORITY + 1 = 128" by (simp add: MAX_PRIORITY_def)
  have e: "init_runqueues (i # is) topo s = init_runqueues is topo ?t"
    using node i Cons.prems(3) unfolding init_runqueues.simps max by (simp add: on_runqueue_def)
  have at: "runqueues ?t ! j = (if j = i then ?f (runqueues s ! i) else runqueues s ! j)" for j
    using i Cons.prems(3) by simp
  have "\<exists>u. init_runqueues is topo ?t = Some u \<and> length (runqueues u) = 256 \<and> threads u = threads ?t \<and> num_cpus u = num_cpus ?t \<and>
    (\<forall>j<256. queues (runqueues u ! j) = (if j \<in> set is then replicate 128 None else queues (runqueues ?t ! j)) \<and>
       queue_bitmap (runqueues u ! j) = (if j \<in> set is then replicate 4 0 else queue_bitmap (runqueues ?t ! j)) \<and>
       num_threads (runqueues u ! j) = (if j \<in> set is then 0 else num_threads (runqueues ?t ! j)) \<and>
       rq_lock (runqueues u ! j) = (if j \<in> set is then False else rq_lock (runqueues ?t ! j)) \<and>
       rq_current (runqueues u ! j) = (if j \<in> set is then None else rq_current (runqueues ?t ! j)) \<and>
       rq_cpu_id (runqueues u ! j) = (if j \<in> set is then of_nat j else rq_cpu_id (runqueues ?t ! j)))"
    by (rule Cons.IH) (use Cons.prems in auto)
  then obtain u where u: "init_runqueues is topo ?t = Some u" "length (runqueues u) = 256" "threads u = threads s" "num_cpus u = num_cpus s"
    and f: "\<And>j. j < 256 \<Longrightarrow> queues (runqueues u ! j) = (if j \<in> set is then replicate 128 None else queues (runqueues ?t ! j))"
      "\<And>j. j < 256 \<Longrightarrow> queue_bitmap (runqueues u ! j) = (if j \<in> set is then replicate 4 0 else queue_bitmap (runqueues ?t ! j))"
      "\<And>j. j < 256 \<Longrightarrow> num_threads (runqueues u ! j) = (if j \<in> set is then 0 else num_threads (runqueues ?t ! j))"
      "\<And>j. j < 256 \<Longrightarrow> rq_lock (runqueues u ! j) = (if j \<in> set is then False else rq_lock (runqueues ?t ! j))"
      "\<And>j. j < 256 \<Longrightarrow> rq_current (runqueues u ! j) = (if j \<in> set is then None else rq_current (runqueues ?t ! j))"
      "\<And>j. j < 256 \<Longrightarrow> rq_cpu_id (runqueues u ! j) = (if j \<in> set is then of_nat j else rq_cpu_id (runqueues ?t ! j))"
    by auto
  show ?case unfolding e
    by (rule exI [of _ u]) (use u i Cons.prems(3) in \<open>simp add: f nth_list_update\<close>)
qed simp

text \<open>The arguments with which the scheduler may be started: fewer than 32 processors and a node for each.\<close>

definition init_ok :: "u32 \<Rightarrow> u32 list option \<Rightarrow> bool" where
  "init_ok n topo \<longleftrightarrow> unat n < 32 \<and> (case topo of None \<Rightarrow> True | Some nodes \<Rightarrow> unat n \<le> length nodes)"

lemma init_step:
  assumes "init_ok n topo"
  obtains u where "sched_init n topo g_scheduler = Some u" "smp_inv u no_queues" "num_cpus u = n" "\<And>p. threads u p = None"
proof -
  let ?g = "g_scheduler\<lparr>num_cpus := n\<rparr>"
  have len: "length (runqueues ?g) = 256" by (simp add: g_scheduler_def MAX_CPUS_def)
  have "set [0..<unat n] \<subseteq> {..<256}" "topo = Some nodes \<Longrightarrow> set [0..<unat n] \<subseteq> {..<length nodes}" for nodes
    using assms by (auto simp: init_ok_def)
  note init = init_runqueues_spec [of "[0..<unat n]" topo ?g, OF this len]
  from init obtain t where t: "init_runqueues [0..<unat n] topo ?g = Some t" "length (runqueues t) = 256" "threads t = threads ?g" "num_cpus t = n"
    and f: "\<And>j. j < 256 \<Longrightarrow> queues (runqueues t ! j) = (if j < unat n then replicate 128 None else queues (runqueues ?g ! j))"
      "\<And>j. j < 256 \<Longrightarrow> queue_bitmap (runqueues t ! j) = (if j < unat n then replicate 4 0 else queue_bitmap (runqueues ?g ! j))"
      "\<And>j. j < 256 \<Longrightarrow> num_threads (runqueues t ! j) = (if j < unat n then 0 else num_threads (runqueues ?g ! j))"
      "\<And>j. j < 256 \<Longrightarrow> rq_lock (runqueues t ! j) = (if j < unat n then False else rq_lock (runqueues ?g ! j))"
      "\<And>j. j < 256 \<Longrightarrow> rq_current (runqueues t ! j) = (if j < unat n then None else rq_current (runqueues ?g ! j))"
      "\<And>j. j < 256 \<Longrightarrow> rq_cpu_id (runqueues t ! j) = (if j < unat n then of_nat j else rq_cpu_id (runqueues ?g ! j))"
    by auto
  let ?u = "t\<lparr>next_tid := 1, smp_initialized := True\<rparr>"
  have g: "runqueues ?g ! j = runqueue0" if "j < 256" for j using that by (simp add: g_scheduler_def MAX_CPUS_def)
  have r0: "queues runqueue0 = replicate 128 None" "queue_bitmap runqueue0 = replicate 4 0" "num_threads runqueue0 = 0"
    "\<not> rq_lock runqueue0" "rq_current runqueue0 = None" by (simp_all add: runqueue0_def MAX_PRIORITY_def)
  have "queue_ok (threads ?u) j (runqueues ?u ! j) (no_queues j)" if "j < 256" for j
    using f(1-3) [OF that] g [OF that] r0
    by (auto simp: queue_ok_def no_queues_def less_mult_imp_div_less)
  then have "smp_abs ?u no_queues"
    using t(2) f(4) g r0(4) by (simp add: smp_abs_def smp_view_def)
  moreover have empty: "threads ?u p = None" for p using t(3) by (simp add: g_scheduler_def)
  moreover have "currents ?u = (\<lambda>_. None)" using t(2) f(5) g r0(5) by (auto simp: currents_def fun_eq_iff)
  ultimately have "smp_inv ?u no_queues"
    using assms t(4) f(6) by (auto simp: smp_inv_def waiting_def running_def cores_def init_ok_def)
  moreover have "sched_init n topo g_scheduler = Some ?u" using t(1) by (simp add: sched_init_def g_scheduler_def)
  ultimately show thesis using that empty t(4) by simp
qed

inductive smp_reach :: "smp \<Rightarrow> bool" where
  start: "init_ok n topo \<Longrightarrow> sched_init n topo g_scheduler = Some s \<Longrightarrow> smp_reach s"
| create: "smp_reach s \<Longrightarrow> threads s p = None \<Longrightarrow>
    sched_create_thread (Some (p, garbage)) pid cls delta aff s = Some (r, u) \<Longrightarrow> smp_reach u"
| set_priority: "smp_reach s \<Longrightarrow> threads s p = Some t \<Longrightarrow> th_state t \<noteq> THREAD_STATE_READY \<Longrightarrow>
    sched_set_priority (Some p) cls delta s = Some (v, u) \<Longrightarrow> smp_reach u"
| schedule: "smp_reach s \<Longrightarrow> unat cpu_id < 256 \<Longrightarrow> sched_schedule tsc cpu_id s = Some (r, u) \<Longrightarrow> smp_reach u"
| yield: "smp_reach s \<Longrightarrow> unat cpu_id < 256 \<Longrightarrow> sched_yield cpu_id s = Some u \<Longrightarrow> smp_reach u"
| block: "smp_reach s \<Longrightarrow> unat cpu_id < 256 \<Longrightarrow> sched_block cpu_id s = Some u \<Longrightarrow> smp_reach u"
| unblock: "smp_reach s \<Longrightarrow> threads s p \<noteq> None \<Longrightarrow> sched_unblock (Some p) s = Some u \<Longrightarrow> smp_reach u"
| balance: "smp_reach s \<Longrightarrow> unat cpu_id < unat (num_cpus s) \<Longrightarrow> sched_balance_load cpu_id s = Some u \<Longrightarrow> smp_reach u"

lemma balance_inv:
  assumes "smp_inv s Q" "unat cpu_id < unat (num_cpus s)"
  shows "\<exists>u Q'. sched_balance_load cpu_id s = Some u \<and> smp_inv u Q'"
  using balance_step [OF assms(1) refl assms(2)] assms(1)
  by (cases "loot s (unat cpu_id) cpu_id Q") (simp, blast, auto simp: Let_def)

lemma smp_reach_inv: "smp_reach s \<Longrightarrow> \<exists>Q. smp_inv s Q"
proof (induction rule: smp_reach.induct)
  case (start n topo s)
  show ?case by (rule init_step [OF start.hyps(1)]) (use start.hyps(2) in auto)
next
  case (create s p garbage pid cls delta aff r u)
  then obtain Q where "smp_inv s Q" by blast
  then show ?case by (rule create_step [OF _ create.hyps(2), of Q garbage pid cls delta aff]) (use create.hyps(3) in auto)
next
  case (set_priority s p t cls delta v u)
  then obtain Q where "smp_inv s Q" by blast
  then show ?case by (rule set_priority_step [OF _ set_priority.hyps(2,3), of Q cls delta]) (use set_priority.hyps(4) in auto)
next
  case (schedule s cpu_id tsc r u)
  then obtain Q where "smp_inv s Q" by blast
  from schedule_step [OF this refl schedule.hyps(2), of tsc] show ?case using schedule.hyps(3) by auto
next
  case (yield s cpu_id u)
  then obtain Q where "smp_inv s Q" by blast
  then show ?case by (rule yield_step [OF _ refl yield.hyps(2)]) (use yield.hyps(3) in auto)
next
  case (block s cpu_id u)
  then obtain Q where "smp_inv s Q" by blast
  then show ?case by (rule block_step [OF _ refl block.hyps(2)]) (use block.hyps(3) in auto)
next
  case (unblock s p u)
  then obtain Q where "smp_inv s Q" by blast
  then show ?case by (rule unblock_step [OF _ unblock.hyps(2)]) (use unblock.hyps(3) in auto)
next
  case (balance s cpu_id u)
  then obtain Q where "smp_inv s Q" by blast
  from balance_inv [OF this balance.hyps(2)] show ?case using balance.hyps(3) by auto
qed

text \<open>C29: Started with fewer than 32 processors, in every state the scheduler reaches, as long as the priority of a waiting
  thread is not changed, the lists, bitmaps and counters are consistent, each ready thread is in exactly the queue of
  its processor and priority, each running thread is the current one of its processor, and every operation returns.\<close>

theorem sched_operations_safe:
  assumes "smp_reach s" "unat cpu_id < unat (num_cpus s)"
  shows "(\<exists>Q. smp_inv s Q) \<and> sched_schedule tsc cpu_id s \<noteq> None \<and> sched_yield cpu_id s \<noteq> None \<and>
    sched_block cpu_id s \<noteq> None \<and> sched_balance_load cpu_id s \<noteq> None \<and>
    (case threads s p of
       None \<Rightarrow> sched_create_thread (Some (p, garbage)) pid cls delta aff s \<noteq> None
     | Some t \<Rightarrow> sched_unblock (Some p) s \<noteq> None \<and>
         (th_state t \<noteq> THREAD_STATE_READY \<longrightarrow> sched_set_priority (Some p) cls delta s \<noteq> None))"
proof -
  obtain Q where inv: "smp_inv s Q" using smp_reach_inv [OF assms(1)] by blast
  have q: "unat cpu_id < 256" using assms(2) smp_invD(4) [OF inv] by simp
  have "sched_schedule tsc cpu_id s \<noteq> None" using schedule_step [OF inv refl q, of tsc] by auto
  moreover have "sched_yield cpu_id s \<noteq> None" by (rule yield_step [OF inv refl q]) auto
  moreover have "sched_block cpu_id s \<noteq> None" by (rule block_step [OF inv refl q]) auto
  moreover have "sched_balance_load cpu_id s \<noteq> None" using balance_inv [OF inv assms(2)] by auto
  moreover have "sched_create_thread (Some (p, garbage)) pid cls delta aff s \<noteq> None" if "threads s p = None"
    by (rule create_step [OF inv that, of garbage pid cls delta aff]) auto
  moreover have "sched_unblock (Some p) s \<noteq> None" if "threads s p \<noteq> None"
    by (rule unblock_step [OF inv that]) auto
  moreover have "sched_set_priority (Some p) cls delta s \<noteq> None" if "threads s p = Some t" "th_state t \<noteq> THREAD_STATE_READY" for t
    by (rule set_priority_step [OF inv that, of cls delta]) auto
  ultimately show ?thesis using inv by (cases "threads s p") auto
qed

definition blank_thread :: thread where
  "blank_thread = \<lparr>tid = 0, th_pid = 0, priority_class = 0, priority_delta = 0, effective_priority = 0,
     th_state = THREAD_STATE_TERMINATED, th_cpu_id = 0, cpu_affinity_mask = 0, time_slice_remaining = 0, total_runtime = 0,
     last_scheduled = 0, th_next = None, th_prev = None, th_numa_node = 0, is_16bit = False, is_dos = False, is_win16 = False,
     th_context = None\<rparr>"

section \<open>More processors than bits\<close>

lemma best_cpu_loop_undefined: "32 \<in> set is \<Longrightarrow> best_cpu_loop is best m t s = None"
proof (induction "is" arbitrary: best m)
  case (Cons i "is")
  show ?case
  proof (cases "i = 32")
    case True
    then show ?thesis by (simp add: cpu_in_affinity_def bit_mask_def)
  next
    case False
    then have "32 \<in> set is" using Cons.prems by simp
    then have "best_cpu_loop is b n t s = None" for b n by (rule Cons.IH)
    then show ?thesis by (cases "cpu_in_affinity t i"; cases "runqueue i s") (simp_all add: Let_def)
  qed
qed simp

text \<open>With more than 32 processors, fewer than the 256 the tables hold, no processor can be chosen for a thread: the loop
  shifts by 32 or more. With exactly 32 this still holds for a thread created without an affinity mask.\<close>

theorem find_best_cpu_undefined:
  assumes "32 \<le> unat (num_cpus s)"
  shows "sched_create_thread (Some (p, garbage)) pid cls delta 0 s = None \<and>
    (32 < unat (num_cpus s) \<longrightarrow> find_best_cpu p s = None \<and> sched_create_thread (Some (p, garbage)) pid cls delta aff s = None)"
proof -
  have "find_best_cpu x u = None" if "32 < unat (num_cpus u)" for x u
  proof -
    have "32 \<in> set [0..<unat (num_cpus u)]" using that by simp
    from best_cpu_loop_undefined [OF this] show ?thesis by (cases "threads u x") (simp_all add: find_best_cpu_def)
  qed
  then show ?thesis using assms by (simp add: sched_create_thread_def bit_mask_def Let_def)
qed

theorem find_best_cpu_undefined_witness:
  "sched_create_thread (Some (1, blank_thread)) 7 2 0 0 (g_scheduler\<lparr>num_cpus := 64\<rparr>) = None"
  using find_best_cpu_undefined [of "g_scheduler\<lparr>num_cpus := 64\<rparr>" 1 blank_thread 7 2 0] by simp

section \<open>A small system\<close>

text \<open>One processor and two regular threads; then the second one runs.\<close>

definition smp1 :: smp where "smp1 = the (sched_init 1 None g_scheduler)"
definition smp2 :: smp where "smp2 = snd (the (sched_create_thread (Some (1, blank_thread)) 7 2 0 0 smp1))"
definition smp3 :: smp where "smp3 = snd (the (sched_create_thread (Some (2, blank_thread)) 7 2 0 0 smp2))"
definition smp4 :: smp where "smp4 = snd (the (sched_schedule 5 0 smp3))"

lemma smp1_facts: "smp_inv smp1 no_queues" "num_cpus smp1 = 1" "threads smp1 p = None" "smp_reach smp1" "currents smp1 = (\<lambda>_. None)"
proof -
  have ok: "init_ok 1 None" by (simp add: init_ok_def)
  obtain u where u: "sched_init 1 None g_scheduler = Some u" "smp_inv u no_queues" "num_cpus u = 1" "\<And>p. threads u p = None"
    by (rule init_step [OF ok], rule that)
  then have e: "smp1 = u" by (simp add: smp1_def)
  show "smp_inv smp1 no_queues" "num_cpus smp1 = 1" "threads smp1 p = None" using u(2-4) e by simp_all
  show "smp_reach smp1" using smp_reach.start [OF ok u(1)] e by simp
  have "cores u p = None" for p using u(4) by (simp add: cores_def)
  then show "currents smp1 = (\<lambda>_. None)" using runningD [OF smp_invD(3) [OF u(2)]] e by (fastforce simp: fun_eq_iff)
qed

lemma regular_priority: "calculate_priority 2 0 = 48"
  by (simp add: calculate_priority_def base_priority_def Let_def PRTYC_IDLETIME_def PRTYC_REGULAR_def)

text \<open>A regular thread joins the only processor.\<close>

lemma create_one:
  assumes inv: "smp_inv s (no_queues(0 := (no_queues 0)(48 := ps)))" and one: "num_cpus s = 1" and p: "threads s p = None"
    and cur: "currents s = (\<lambda>_. None)"
  defines "u \<equiv> snd (the (sched_create_thread (Some (p, blank_thread)) 7 2 0 0 s))"
  shows "smp_inv u (no_queues(0 := (no_queues 0)(48 := p # ps)))" "num_cpus u = 1" "currents u = (\<lambda>_. None)"
    "threads u x = None \<longleftrightarrow> x \<noteq> p \<and> threads s x = None" "smp_reach s \<Longrightarrow> smp_reach u"
    "\<exists>t. threads u p = Some t \<and> th_state t = THREAD_STATE_READY \<and> effective_priority t = 48 \<and> th_cpu_id t = 0"
    "(\<And>y t. threads s y = Some t \<Longrightarrow> effective_priority t = 48) \<Longrightarrow> threads u x = Some t \<Longrightarrow> effective_priority t = 48"
proof -
  let ?Q = "no_queues(0 := (no_queues 0)(48 := ps))"
  obtain c w t where w: "sched_create_thread (Some (p, blank_thread)) 7 2 0 0 s = Some (Some p, w)"
    "c = 0 \<or> unat c < unat (num_cpus s)" "smp_inv w (?Q(unat c := (?Q (unat c))(48 := p # ?Q (unat c) 48)))"
    "currents w = currents s" "cores w = (cores s)(p \<mapsto> t)" "th_cpu_id t = c"
    "th_state t = THREAD_STATE_READY" "effective_priority t = 48" "num_cpus w = num_cpus s"
    by (rule create_step [OF inv p, of blank_thread 7 2 0 0]) (simp add: regular_priority)
  have e: "u = w" using w(1) by (simp add: u_def)
  have c: "c = 0" using w(2) one by (auto simp: unat_eq_zero)
  have k: "map_option core (threads w x) = (if x = p then Some t else map_option core (threads s x))" for x
    using w(5) by (simp add: cores_def fun_eq_iff)
  have "?Q(0 := (?Q 0)(48 := p # ?Q 0 48)) = no_queues(0 := (no_queues 0)(48 := p # ps))" by (simp add: fun_eq_iff)
  then show "smp_inv u (no_queues(0 := (no_queues 0)(48 := p # ps)))" using w(3) c e by simp
  show "num_cpus u = 1" "currents u = (\<lambda>_. None)" using w(4,9) one cur e by simp_all
  show "threads u x = None \<longleftrightarrow> x \<noteq> p \<and> threads s x = None" using k [of x] e by (auto split: if_splits)
  show "smp_reach u" if "smp_reach s" using smp_reach.create [OF that p w(1)] e by simp
  show "\<exists>t. threads u p = Some t \<and> th_state t = THREAD_STATE_READY \<and> effective_priority t = 48 \<and> th_cpu_id t = 0"
    using k [of p] w(6-8) c e by auto
  show "effective_priority v = 48" 
    if all: "\<And>y t. threads s y = Some t \<Longrightarrow> effective_priority t = 48" and x: "threads u x = Some v" for v
  proof (cases "x = p")
    case True
    then have "core v = t" using k [of x] x e by simp
    then show ?thesis using w(8) by auto
  next
    case False
    then obtain v' where "threads s x = Some v'" "core v' = core v" using k [of x] x e by (cases "threads s x") auto
    then show ?thesis using all core_eqD(2) by metis
  qed
qed

lemma no_queues_upd: "no_queues(0 := (no_queues 0)(48 := [])) = no_queues"
  by (simp add: no_queues_def fun_eq_iff)

lemma smp1_inv: "smp_inv smp1 (no_queues(0 := (no_queues 0)(48 := [])))"
  unfolding no_queues_upd by (rule smp1_facts(1))

lemmas smp2_facts = create_one [OF smp1_inv smp1_facts(2) smp1_facts(3) [of 1] smp1_facts(5), folded smp2_def]

lemma smp2_free: "threads smp2 2 = None"
  using smp2_facts(4) [of 2] smp1_facts(3) by simp

lemmas smp3_facts = create_one [OF smp2_facts(1,2) smp2_free smp2_facts(3), folded smp3_def]

theorem sched_operations_safe_witness:
  "sched_schedule 9 0 smp3 \<noteq> None \<and> sched_unblock (Some 2) smp3 \<noteq> None"
proof -
  have r: "smp_reach smp3" by (rule smp3_facts(5) [OF smp2_facts(5) [OF smp1_facts(4)]])
  obtain t where "threads smp3 2 = Some t" using smp3_facts(6) by blast
  then show ?thesis
    using sched_operations_safe [OF r, of 0 9 2 blank_thread 7 2 0 0] smp3_facts(2) by simp
qed

theorem sched_schedule_highest_witness:
  "\<exists>chosen u. sched_schedule 9 0 smp3 = Some (chosen, u) \<and> currents u = (currents smp3)(0 := chosen)"
  using sched_schedule_highest [OF smp3_facts(1), of 0 0 9] by auto

theorem sched_set_priority_corrupts_witness:
  "\<exists>u. sched_set_priority (Some 2) 3 0 smp3 = Some (0, u)
     \<and> queues (runqueues u ! 0) ! unat (calculate_priority 3 0) = Some 2
     \<and> num_threads (runqueues u ! 0) = num_threads (runqueues smp3 ! 0) + 1 \<and> (\<nexists>Q'. smp_abs u Q')"
proof -
  obtain t where t: "threads smp3 2 = Some t" "th_state t = THREAD_STATE_READY" "unat (th_cpu_id t) = 0"
    using smp3_facts(6) by auto
  then show ?thesis using sched_set_priority_corrupts [OF smp3_facts(1) t(1,2), of 3 0] by (auto simp: Let_def PRTYC_NOCHANGE_def)
qed

lemma smp4_facts: "\<exists>Q. smp_inv smp4 Q" "currents smp4 0 = Some 2" "\<exists>t. threads smp4 2 = Some t"
  "threads smp4 x = Some v \<Longrightarrow> effective_priority v = 48"
proof -
  let ?Q = "no_queues(0 := (no_queues 0)(48 := [2, 1]))"
  have req: "requeued smp3 0 ?Q = ?Q 0" by (simp add: requeued_def smp3_facts(3))
  have "highest (?Q 0) 128 = Some 48" by (simp add: highest_Some no_queues_def)
  then obtain u Q' where u: "sched_schedule 5 0 smp3 = Some (Some 2, u)" "smp_inv u Q'" "currents u = (currents smp3)(0 := Some 2)"
      "\<And>x. map_option effective_priority (cores u x) = map_option effective_priority (cores smp3 x)"
    using schedule_step [OF smp3_facts(1), of 0 0 5] unfolding req by auto
  have e: "smp4 = u" using u(1) by (simp add: smp4_def)
  show "\<exists>Q. smp_inv smp4 Q" "currents smp4 0 = Some 2" using u(2,3) e by auto
  show "\<exists>t. threads smp4 2 = Some t" using u(4) [of 2] smp3_facts(6) e by (auto simp: cores_def)
  show "effective_priority v = 48" if x: "threads smp4 x = Some v"
  proof -
    obtain v' where v': "threads smp3 x = Some v'" "effective_priority v' = effective_priority v"
      using u(4) [of x] x e by (cases "threads smp3 x") (auto simp: cores_def)
    have "effective_priority w = 48" if "threads smp2 y = Some w" for y w
      using smp2_facts(7) [OF _ that] smp1_facts(3) by simp
    then show ?thesis using smp3_facts(7) v' by metis
  qed
qed

theorem sched_no_rotation_witness:
  "\<exists>u. sched_rounds 0 [6, 7, 8] smp4 = Some ([Some 2, Some 2, Some 2], u)"
proof -
  obtain Q t where Q: "smp_inv smp4 Q" "threads smp4 2 = Some t" using smp4_facts(1,3) by blast
  have "\<forall>x v. may_run smp4 0 x v \<longrightarrow> effective_priority v \<le> effective_priority t"
    using smp4_facts(4) Q(2) by (auto simp: may_run_def)
  from sched_no_rotation [OF Q(1) _ _ smp4_facts(2) Q(2) this, of 0 "[6, 7, 8]"]
  show ?thesis by (simp add: numeral_eq_Suc)
qed

end
