(* ===== verification/Smp_Lock.thy ===== *)
theory Smp_Lock
  imports Smp_Reach
begin

text \<open>
  Several processors on one run queue of \<open>side_project/SMPScheduler.cpp\<close>. The bodies of \<open>enqueue_thread\<close> and
  \<open>dequeue_highest_priority\<close> are cut into their statements here; the statements of different processors, and their
  attempts to take the lock with \<open>acquire_runqueue_lock\<close>, interleave in any order. The result is always that of
  the whole calls, as \<open>Smp_Scheduler\<close> has them, one after the other. The memory is taken to be sequentially consistent,
  which the atomic operations of the lock ask for.
\<close>

section \<open>Code as statements\<close>

text \<open>What is left to do of a call, with its result at the end. A statement that cannot be executed gives \<open>None\<close>.\<close>

datatype code = Done "tptr option" | Stmt "smp \<Rightarrow> (smp \<times> code) option"

primrec run :: "code \<Rightarrow> smp \<Rightarrow> (tptr option \<times> smp) option" where
  "run (Done r) s = Some (r, s)"
| "run (Stmt f) s = (case map_option (map_prod id run) (f s) of None \<Rightarrow> None | Some (t, g) \<Rightarrow> g t)"

definition change :: "(smp \<Rightarrow> smp option) \<Rightarrow> code \<Rightarrow> code" where
  "change f c = Stmt (\<lambda>s. map_option (\<lambda>t. (t, c)) (f s))"

definition fetch :: "(smp \<Rightarrow> 'a option) \<Rightarrow> ('a \<Rightarrow> code) \<Rightarrow> code" where
  "fetch f k = Stmt (\<lambda>s. map_option (\<lambda>a. (s, k a)) (f s))"

lemma run_change [simp]: "run (change f c) = (\<lambda>s. Option.bind (f s) (run c))"
  by (auto simp: change_def fun_eq_iff split: option.split)

lemma run_fetch [simp]: "run (fetch f k) = (\<lambda>s. Option.bind (f s) (\<lambda>a. run (k a) s))"
  by (auto simp: fetch_def fun_eq_iff split: option.split)

lemma run_if: "run ((if b then change f else (\<lambda>c. c)) c) = (\<lambda>s. Option.bind (if b then f s else Some s) (run c))"
  by (auto simp: fun_eq_iff)

lemma run_case:
  "run ((case x of None \<Rightarrow> (\<lambda>c. c) | Some a \<Rightarrow> change (f a)) c) =
    (\<lambda>s. Option.bind (case x of None \<Rightarrow> Some s | Some a \<Rightarrow> f a s) (run c))"
  by (auto simp: fun_eq_iff split: option.split)

lemma bind_map_option: "Option.bind (map_option g x) k = Option.bind x (\<lambda>a. k (g a))"
  by (cases x) simp_all

lemma map_bind: "map_option g (Option.bind x k) = Option.bind x (\<lambda>a. map_option g (k a))"
  by (cases x) simp_all

lemma bind_Some_map: "Option.bind x (\<lambda>a. Some (g a)) = map_option g x"
  by (cases x) simp_all

text \<open>\<open>enqueue_thread\<close> between taking and giving back the lock.\<close>

definition enqueue_code :: "nat \<Rightarrow> tptr \<Rightarrow> code" where
  "enqueue_code q p =
     fetch (\<lambda>s. map_option (\<lambda>t. unat (effective_priority t)) (threads s p)) (\<lambda>prio.
     fetch (queue_head q prio) (\<lambda>head.
     change (on_thread (\<lambda>t. t\<lparr>th_next := head\<rparr>) p) (
     change (on_thread (\<lambda>t. t\<lparr>th_prev := None\<rparr>) p) (
     fetch (queue_head q prio) (\<lambda>head2.
     (case head2 of None \<Rightarrow> (\<lambda>c. c) | Some h \<Rightarrow> change (on_thread (\<lambda>t. t\<lparr>th_prev := Some p\<rparr>) h)) (
     change (set_queue_head (Some p) q prio) (
     change (\<lambda>s. Option.bind (bit_mask (prio mod 32)) (\<lambda>m. on_bitmap (\<lambda>b. b OR m) q (prio div 32) s)) (
     change (on_runqueue (\<lambda>rq. rq\<lparr>num_threads := num_threads rq + 1\<rparr>) q) (
     change (on_thread (\<lambda>t. t\<lparr>th_state := THREAD_STATE_READY\<rparr>) p) (
     Done None))))))))))"

text \<open>\<open>dequeue_highest_priority\<close> likewise: taking out the first thread \<open>p\<close>, the inner and the outer loop.\<close>

definition take_code :: "nat \<Rightarrow> nat \<Rightarrow> nat \<Rightarrow> tptr \<Rightarrow> code \<Rightarrow> code" where
  "take_code q word b p c =
     fetch (\<lambda>s. map_option th_next (threads s p)) (\<lambda>nxt.
     change (set_queue_head nxt q (word * 32 + b)) (
     (case nxt of None \<Rightarrow> (\<lambda>c. c) | Some n \<Rightarrow> change (on_thread (\<lambda>t. t\<lparr>th_prev := None\<rparr>) n)) (
     fetch (queue_head q (word * 32 + b)) (\<lambda>head.
     (if head = None
      then change (\<lambda>s. Option.bind (bit_mask b) (\<lambda>m. on_bitmap (\<lambda>b. b AND NOT m) q word s))
      else (\<lambda>c. c)) (
     change (on_runqueue (\<lambda>rq. rq\<lparr>num_threads := num_threads rq - 1\<rparr>) q) (
     change (on_thread (\<lambda>t. t\<lparr>th_prev := None\<rparr>) p) (
     change (on_thread (\<lambda>t. t\<lparr>th_next := None\<rparr>) p) c)))))))"

fun bits_code :: "nat \<Rightarrow> nat \<Rightarrow> u32 \<Rightarrow> nat \<Rightarrow> (tptr option \<Rightarrow> code) \<Rightarrow> code" where
  "bits_code q word bitmap 0 k = k None"
| "bits_code q word bitmap (Suc b) k =
     fetch (\<lambda>s. bit_mask b) (\<lambda>m.
     if bitmap AND m \<noteq> 0
     then fetch (queue_head q (word * 32 + b)) (\<lambda>head.
       case head of None \<Rightarrow> bits_code q word bitmap b k | Some p \<Rightarrow> take_code q word b p (k (Some p)))
     else bits_code q word bitmap b k)"

fun words_code :: "nat \<Rightarrow> nat \<Rightarrow> code" where
  "words_code q 0 = Done None"
| "words_code q (Suc word) =
     fetch (\<lambda>s. Option.bind (runqueue q s) (\<lambda>rq.
              if word < length (queue_bitmap rq) then Some (queue_bitmap rq ! word) else None)) (\<lambda>bitmap.
     if bitmap = 0 then words_code q word
     else bits_code q word bitmap 32 (\<lambda>p. if p \<noteq> None then Done p else words_code q word))"

datatype rq_call = Enqueue tptr | Dequeue

fun body :: "nat \<Rightarrow> rq_call \<Rightarrow> code" where
  "body q (Enqueue p) = enqueue_code q p"
| "body q Dequeue = words_code q 4"

text \<open>The whole call.\<close>

fun whole :: "nat \<Rightarrow> rq_call \<Rightarrow> smp \<Rightarrow> (tptr option \<times> smp) option" where
  "whole q (Enqueue p) s = map_option (Pair None) (enqueue_thread q p s)"
| "whole q Dequeue s = dequeue_highest_priority q s"

lemma on_thread_twice:
  "Option.bind (on_thread f p s) (\<lambda>t. Option.bind (on_thread g p t) k) = Option.bind (on_thread (\<lambda>t. g (f t)) p s) k"
  by (simp add: on_thread_def split: option.split)

lemma run_enqueue:
  "Option.bind (run (enqueue_code q p) s1) (\<lambda>(r, s2). Option.bind (release_runqueue_lock q s2) (\<lambda>t. Some (r, t))) =
   map_option (Pair None) (do {
     t \<leftarrow> threads s1 p;
     let prio = unat (effective_priority t);
     head \<leftarrow> queue_head q prio s1;
     s2 \<leftarrow> on_thread (\<lambda>t. t\<lparr>th_next := head, th_prev := None\<rparr>) p s1;
     head2 \<leftarrow> queue_head q prio s2;
     s3 \<leftarrow> (case head2 of None \<Rightarrow> Some s2 | Some h \<Rightarrow> on_thread (\<lambda>t. t\<lparr>th_prev := Some p\<rparr>) h s2);
     s4 \<leftarrow> set_queue_head (Some p) q prio s3;
     m \<leftarrow> bit_mask (prio mod 32);
     s5 \<leftarrow> on_bitmap (\<lambda>b. b OR m) q (prio div 32) s4;
     s6 \<leftarrow> on_runqueue (\<lambda>rq. rq\<lparr>num_threads := num_threads rq + 1\<rparr>) q s5;
     s7 \<leftarrow> on_thread (\<lambda>t. t\<lparr>th_state := THREAD_STATE_READY\<rparr>) p s6;
     release_runqueue_lock q s7 })"
  by (simp add: enqueue_code_def on_thread_twice Let_def bind_map_option map_bind bind_Some_map run_case)

lemma run_take:
  assumes "bit_mask b = Some m"
  shows "run (take_code q word b p c) s = Option.bind (take_first q word b p s) (run c)"
proof -
  have "Option.bind (on_thread (\<lambda>t. t\<lparr>th_prev := None\<rparr>) p u) (\<lambda>t. Option.bind (on_thread (\<lambda>t. t\<lparr>th_next := None\<rparr>) p t) k)
      = Option.bind (on_thread (\<lambda>t. t\<lparr>th_next := None, th_prev := None\<rparr>) p u) k" for u k
  proof -
    have "(\<lambda>t. t\<lparr>th_prev := None, th_next := None\<rparr>) = (\<lambda>t :: thread. t\<lparr>th_next := None, th_prev := None\<rparr>)" by auto
    then show ?thesis by (simp only: on_thread_twice)
  qed
  note fuse = this
  show ?thesis
    using assms by (simp add: take_code_def take_first_def Let_def bind_map_option run_if run_case fuse cong: if_cong)
qed

lemma run_bits:
  "run (bits_code q word bitmap n k) s = Option.bind (dequeue_bits q word bitmap n s) (\<lambda>(p, t). run (k p) t)"
proof (induction n)
  case (Suc b)
  show ?case
  proof (cases "bit_mask b")
    case (Some m)
    show ?thesis
      using Suc Some run_take [OF Some] by (auto split: option.split bind_splits)
  qed simp
qed simp

lemma run_words: "run (words_code q n) s = dequeue_words q n s"
  by (induction n arbitrary: s) (auto simp: run_bits split: option.split bind_splits)


lemma whole_body:
  "whole q c s = do {
     t \<leftarrow> acquire_runqueue_lock q s;
     (r, u) \<leftarrow> run (body q c) t;
     v \<leftarrow> release_runqueue_lock q u;
     Some (r, v) }"
proof (cases c)
  case (Enqueue p)
  show ?thesis
  proof (cases "acquire_runqueue_lock q s")
    case (Some t)
    show ?thesis unfolding Enqueue by (simp add: Some run_enqueue enqueue_thread_def)
  qed (simp add: Enqueue enqueue_thread_def)
next
  case Dequeue
  then show ?thesis by (simp add: dequeue_highest_priority_def run_words)
qed

section \<open>No statement touches the lock\<close>

definition lock_of :: "nat \<Rightarrow> smp \<Rightarrow> bool" where
  "lock_of q s = rq_lock (runqueues s ! q)"

inductive keeps_lock :: "nat \<Rightarrow> code \<Rightarrow> bool" for q where
  finished: "keeps_lock q (Done r)"
| statement: "(\<And>s t c. f s = Some (t, c) \<Longrightarrow> lock_of q t = lock_of q s \<and> keeps_lock q c) \<Longrightarrow> keeps_lock q (Stmt f)"

inductive_cases keeps_lock_StmtE: "keeps_lock q (Stmt f)"

lemma keeps_change:
  "(\<And>s t. f s = Some t \<Longrightarrow> lock_of q t = lock_of q s) \<Longrightarrow> keeps_lock q c \<Longrightarrow> keeps_lock q (change f c)"
  unfolding change_def by (rule keeps_lock.statement) auto

lemma keeps_fetch: "(\<And>a. keeps_lock q (k a)) \<Longrightarrow> keeps_lock q (fetch f k)"
  unfolding fetch_def by (rule keeps_lock.statement) auto

lemma lock_on_thread: "on_thread f p s = Some t \<Longrightarrow> lock_of q t = lock_of q s"
  by (auto simp: on_thread_def lock_of_def split: option.splits)

lemma lock_on_runqueue:
  assumes "on_runqueue f j s = Some t" and f: "\<And>rq. rq_lock (f rq) = rq_lock rq"
  shows "lock_of q t = lock_of q s"
proof -
  have "j < length (runqueues s)" "t = s\<lparr>runqueues := (runqueues s)[j := f (runqueues s ! j)]\<rparr>"
    using assms(1) by (simp_all add: on_runqueue_def split: if_splits)
  then show ?thesis using f [of "runqueues s ! j"] by (cases "j = q") (simp_all add: lock_of_def)
qed

lemma lock_set_head: "set_queue_head p j k s = Some t \<Longrightarrow> lock_of q t = lock_of q s"
  unfolding set_queue_head_def
  by (cases "runqueue j s") (simp_all add: lock_on_runqueue split: if_splits)

lemma lock_on_bitmap: "on_bitmap f j w s = Some t \<Longrightarrow> lock_of q t = lock_of q s"
  unfolding on_bitmap_def
  by (cases "runqueue j s") (simp_all add: lock_on_runqueue split: if_splits)

lemma keeps_changes:
  assumes "keeps_lock q c"
  shows "keeps_lock q (change (on_thread f p) c)" "keeps_lock q (change (set_queue_head h j k) c)"
    "keeps_lock q (change (\<lambda>s. Option.bind m (\<lambda>x. on_bitmap (g x) j w s)) c)"
    "(\<And>rq. rq_lock (e rq) = rq_lock rq) \<Longrightarrow> keeps_lock q (change (on_runqueue e j) c)"
proof -
  show "keeps_lock q (change (on_thread f p) c)" by (rule keeps_change [OF lock_on_thread assms])
  show "keeps_lock q (change (set_queue_head h j k) c)" by (rule keeps_change [OF lock_set_head assms])
  show "keeps_lock q (change (\<lambda>s. Option.bind m (\<lambda>x. on_bitmap (g x) j w s)) c)"
    by (rule keeps_change [OF _ assms]) (use lock_on_bitmap in \<open>cases m; simp\<close>)
  show "keeps_lock q (change (on_runqueue e j) c)" if "\<And>rq. rq_lock (e rq) = rq_lock rq"
    by (rule keeps_change [OF lock_on_runqueue [OF _ that] assms])
qed

lemma keeps_optional:
  "keeps_lock q c \<Longrightarrow> keeps_lock q ((case x of None \<Rightarrow> (\<lambda>c. c) | Some n \<Rightarrow> change (on_thread (f n) (g n))) c)"
  "keeps_lock q c \<Longrightarrow> keeps_lock q ((if b then change (\<lambda>s. Option.bind m (\<lambda>x. on_bitmap (h x) j w s)) else (\<lambda>c. c)) c)"
  by (auto simp: keeps_changes split: option.split)

lemmas keeps_intros = keeps_lock.finished keeps_fetch keeps_changes keeps_optional

lemma keeps_enqueue: "keeps_lock q (enqueue_code q p)"
  unfolding enqueue_code_def by (intro keeps_intros) simp

lemma keeps_take: "keeps_lock q c \<Longrightarrow> keeps_lock q (take_code q word b p c)"
  unfolding take_code_def by (intro keeps_intros) simp_all

lemma keeps_bits: "(\<And>p. keeps_lock q (k p)) \<Longrightarrow> keeps_lock q (bits_code q word bitmap n k)"
  by (induction n) (auto intro!: keeps_fetch keeps_take split: option.split)

lemma keeps_words: "keeps_lock q (words_code q n)"
  by (induction n) (auto intro!: keeps_intros keeps_bits)

lemma keeps_body: "keeps_lock q (body q c)"
  by (cases c) (simp_all add: keeps_enqueue keeps_words)

section \<open>Interleaved processors\<close>

datatype phase = Outside | Spinning rq_call | Inside rq_call code

text \<open>The state, where each processor is, and the finished calls: processor, call and result. A compare-and-exchange
  takes the lock or fails (also without a reason), a processor that has it executes its statements, and gives it back.\<close>

type_synonym machine = "smp \<times> (nat \<Rightarrow> phase) \<times> (nat \<times> rq_call \<times> tptr option) list"

inductive rq_step :: "nat \<Rightarrow> machine \<Rightarrow> machine \<Rightarrow> bool" for q where
  call: "pc i = Outside \<Longrightarrow> rq_step q (s, pc, rs) (s, pc(i := Spinning c), rs)"
| lost: "pc i = Spinning c \<Longrightarrow> rq_step q (s, pc, rs) (s, pc, rs)"
| won: "pc i = Spinning c \<Longrightarrow> acquire_runqueue_lock q s = Some t \<Longrightarrow>
    rq_step q (s, pc, rs) (t, pc(i := Inside c (body q c)), rs)"
| work: "pc i = Inside c (Stmt f) \<Longrightarrow> f s = Some (t, k) \<Longrightarrow> rq_step q (s, pc, rs) (t, pc(i := Inside c k), rs)"
| leave: "pc i = Inside c (Done r) \<Longrightarrow> release_runqueue_lock q s = Some t \<Longrightarrow>
    rq_step q (s, pc, rs) (t, pc(i := Outside), rs @ [(i, c, r)])"

definition inside :: "phase \<Rightarrow> bool" where
  "inside ph \<longleftrightarrow> (\<exists>c k. ph = Inside c k)"

text \<open>The calls one after the other, each with the given result.\<close>

fun in_order :: "nat \<Rightarrow> (nat \<times> rq_call \<times> tptr option) list \<Rightarrow> smp \<Rightarrow> smp option" where
  "in_order q [] s = Some s"
| "in_order q ((i, c, r) # rs) s =
     (case whole q c s of None \<Rightarrow> None | Some (r', t) \<Rightarrow> if r' = r then in_order q rs t else None)"

lemma in_order_append: "in_order q (rs @ qs) s = Option.bind (in_order q rs s) (in_order q qs)"
  by (induction q rs s rule: in_order.induct) (auto split: option.split)

text \<open>What is left of a call inside, up to its return.\<close>

definition remaining :: "nat \<Rightarrow> code \<Rightarrow> smp \<Rightarrow> (tptr option \<times> smp) option" where
  "remaining q k s = do { (r, u) \<leftarrow> run k s; v \<leftarrow> release_runqueue_lock q u; Some (r, v) }"

lemma remaining_simps:
  "remaining q (Done r) s = map_option (Pair r) (release_runqueue_lock q s)"
  "f s = Some (t, k) \<Longrightarrow> remaining q (Stmt f) s = remaining q k t"
  by (simp_all add: remaining_def bind_Some_map)

lemma acquire_lock:
  assumes "acquire_runqueue_lock q s = Some t"
  shows "\<not> lock_of q s" "lock_of q t" "whole q c s = remaining q (body q c) t"
proof -
  have "q < length (runqueues s)" "\<not> rq_lock (runqueues s ! q)"
    "t = s\<lparr>runqueues := (runqueues s)[q := (runqueues s ! q)\<lparr>rq_lock := True\<rparr>]\<rparr>"
    using assms by (auto simp: acquire_runqueue_lock_def runqueue_def on_runqueue_def split: if_splits)
  then show "\<not> lock_of q s" "lock_of q t" by (simp_all add: lock_of_def)
  show "whole q c s = remaining q (body q c) t" using assms by (simp add: whole_body remaining_def)
qed

lemma release_lock: "release_runqueue_lock q s = Some t \<Longrightarrow> \<not> lock_of q t"
  by (auto simp: release_runqueue_lock_def on_runqueue_def lock_of_def split: if_splits)

text \<open>Either nobody is inside, the lock is free, and the calls so far give the state; or one is, the lock is taken, and
  what is left of its call leads to what the whole call does after those.\<close>

definition rq_inv :: "nat \<Rightarrow> smp \<Rightarrow> machine \<Rightarrow> bool" where
  "rq_inv q s0 = (\<lambda>(s, pc, rs).
     (\<forall>i. \<not> inside (pc i)) \<and> \<not> lock_of q s \<and> in_order q rs s0 = Some s \<or>
     (\<exists>i c k b. pc i = Inside c k \<and> (\<forall>j. j \<noteq> i \<longrightarrow> \<not> inside (pc j)) \<and> lock_of q s \<and> keeps_lock q k \<and>
        in_order q rs s0 = Some b \<and> whole q c b = remaining q k s))"

lemma rq_inv_cases:
  assumes "rq_inv q s0 (s, pc, rs)"
  obtains (free) "\<And>i. \<not> inside (pc i)" "\<not> lock_of q s" "in_order q rs s0 = Some s"
  | (taken) i c k b where "pc i = Inside c k" "\<And>j. j \<noteq> i \<Longrightarrow> \<not> inside (pc j)" "lock_of q s" "keeps_lock q k"
      "in_order q rs s0 = Some b" "whole q c b = remaining q k s"
  using assms unfolding rq_inv_def by blast

lemma inside_simps [simp]: "\<not> inside Outside" "\<not> inside (Spinning c)" "inside (Inside c k)"
  by (simp_all add: inside_def)

lemma rq_inv_takenI:
  assumes "pc i = Inside c k" "\<And>j. j \<noteq> i \<Longrightarrow> \<not> inside (pc j)" "lock_of q s" "keeps_lock q k"
    "in_order q rs s0 = Some b" "whole q c b = remaining q k s"
  shows "rq_inv q s0 (s, pc, rs)"
  using assms unfolding rq_inv_def by blast

lemma rq_inv_quiet:
  assumes "rq_inv q s0 (s, pc, rs)" "\<not> inside (pc i)" "\<not> inside ph"
  shows "rq_inv q s0 (s, pc(i := ph), rs)"
  using assms(1)
proof (cases rule: rq_inv_cases)
  case free
  then show ?thesis using assms(3) by (simp add: rq_inv_def)
next
  case (taken j c k b)
  then have "i \<noteq> j" using assms(2) by auto
  show ?thesis by (rule rq_inv_takenI [OF _ _ taken(3-6)]) (use taken(1,2) assms(3) \<open>i \<noteq> j\<close> in auto)
qed

lemma rq_step_inv: "rq_step q m m' \<Longrightarrow> rq_inv q s0 m \<Longrightarrow> rq_inv q s0 m'"
proof (induction rule: rq_step.induct)
  case (call pc i s rs c)
  then show ?case by (intro rq_inv_quiet) simp_all
next
  case (won pc i c s t rs)
  note a = acquire_lock [OF won.hyps(2)]
  from won.prems show ?case
  proof (cases rule: rq_inv_cases)
    case free
    show ?thesis
      by (rule rq_inv_takenI [where i = i and c = c and k = "body q c" and b = s])
        (use free a keeps_body in simp_all)
  qed (use a in simp)
next
  case (work pc i c f s t k rs)
  from work.prems show ?case
  proof (cases rule: rq_inv_cases)
    case (taken j c' k' b)
    have j: "j = i" using taken(2) work.hyps(1) by fastforce
    then have k': "c' = c" "k' = Stmt f" using taken(1) work.hyps(1) by simp_all
    have "lock_of q t = lock_of q s \<and> keeps_lock q k"
      using taken(4) work.hyps(2) unfolding k' by (blast elim: keeps_lock_StmtE)
    then show ?thesis
      by (intro rq_inv_takenI [where i = i and c = c and k = k and b = b])
        (use taken(2,3,5,6) work.hyps(2) j k' in \<open>simp_all add: remaining_simps\<close>)
  qed (use work.hyps(1) in \<open>metis inside_simps(3)\<close>)
next
  case (leave pc i c r s t rs)
  from leave.prems show ?case
  proof (cases rule: rq_inv_cases)
    case (taken j c' k' b)
    have j: "j = i" using taken(2) leave.hyps(1) by fastforce
    then have k': "c' = c" "k' = Done r" using taken(1) leave.hyps(1) by simp_all
    have "whole q c b = Some (r, t)" using taken(6) leave.hyps(2) k' by (simp add: remaining_simps)
    then have "in_order q (rs @ [(i, c, r)]) s0 = Some t" using taken(5) by (simp add: in_order_append)
    then show ?thesis using taken(2) release_lock [OF leave.hyps(2)] j by (simp add: rq_inv_def)
  qed (use leave.hyps(1) in \<open>metis inside_simps(3)\<close>)
qed

section \<open>Properties\<close>

text \<open>C33: Processors call \<open>enqueue_thread\<close> and \<open>dequeue_highest_priority\<close> on one run queue, and their statements interleave
  in any order. At most one of them is between \<open>acquire_runqueue_lock\<close> and \<open>release_runqueue_lock\<close>, and the flag is set
  exactly while one is. The finished calls, in the order in which they gave the lock back, had the results and have
  the effect of the whole calls made one after the other; and what is left of a call inside leads to what the whole
  call would do after those.\<close>

theorem runqueue_lock_serializes:
  assumes "(rq_step q)\<^sup>*\<^sup>* (s0, \<lambda>_. Outside, []) (s, pc, rs)" "\<not> rq_lock (runqueues s0 ! q)"
  shows "(\<forall>i j. inside (pc i) \<and> inside (pc j) \<longrightarrow> i = j) \<and> (rq_lock (runqueues s ! q) \<longleftrightarrow> (\<exists>i. inside (pc i))) \<and>
    (\<exists>b. in_order q rs s0 = Some b \<and> ((\<forall>i. \<not> inside (pc i)) \<longrightarrow> s = b) \<and>
       (\<forall>i c k. pc i = Inside c k \<longrightarrow> whole q c b = remaining q k s))"
proof -
  have "rq_inv q s0 (s0, \<lambda>_. Outside, [])" using assms(2) by (simp add: rq_inv_def lock_of_def)
  with assms(1) have "rq_inv q s0 (s, pc, rs)" by (induction rule: rtranclp_induct) (blast intro: rq_step_inv)+
  then show ?thesis
  proof (cases rule: rq_inv_cases)
    case free
    moreover have "pc i \<noteq> Inside c k" for i c k using free(1) by (metis inside_simps(3))
    ultimately show ?thesis by (simp add: lock_of_def)
  next
    case (taken i c k b)
    have only: "j = i" if "inside (pc j)" for j using taken(2) that by blast
    have one: "inside (pc i)" using taken(1) by simp
    have "whole q c' b = remaining q k' s" if "pc j = Inside c' k'" for j c' k'
      using only [of j] that taken(1,6) by simp
    moreover have "j = k" if "inside (pc j) \<and> inside (pc k)" for j k using only that by blast
    moreover have "rq_lock (runqueues s ! q)" using taken(3) by (simp add: lock_of_def)
    ultimately show ?thesis using taken(5) one by blast
  qed
qed

lemma run_inside:
  "run k s = Some (r, u) \<Longrightarrow> pc i = Inside c k \<Longrightarrow>
   (rq_step q)\<^sup>*\<^sup>* (s, pc, rs) (u, pc(i := Inside c (Done r)), rs)"
proof (induction k arbitrary: s pc)
  case (Stmt f)
  obtain t k where f: "f s = Some (t, k)" using Stmt.prems(1) by (cases "f s") auto
  have "run k t = Some (r, u)" using Stmt.prems(1) f by simp
  then have "(rq_step q)\<^sup>*\<^sup>* (t, pc(i := Inside c k), rs) (u, (pc(i := Inside c k))(i := Inside c (Done r)), rs)"
  proof (rule Stmt.IH [rotated 3])
    show "Some (t, k) \<in> range f" using f by (metis rangeI)
    show "k \<in> Basic_BNFs.snds (t, k)" by (metis Basic_BNFs.snds.intros snd_conv)
  qed simp_all
  moreover have "rq_step q (s, pc, rs) (t, pc(i := Inside c k), rs)"
    using Stmt.prems(2) f by (rule rq_step.work)
  ultimately show ?case unfolding fun_upd_upd by (metis converse_rtranclp_into_rtranclp)
qed (auto simp: fun_upd_idem)

lemma steps_chain: "r a b \<Longrightarrow> r b c \<Longrightarrow> r c d \<Longrightarrow> r\<^sup>*\<^sup>* d e \<Longrightarrow> r e f \<Longrightarrow> r\<^sup>*\<^sup>* a f"
  by (meson converse_rtranclp_into_rtranclp rtranclp.rtrancl_into_rtrancl)

text \<open>Of two processors that both want a thread, number 5 takes the lock while number 6 spins, and gets thread 2.\<close>

theorem runqueue_lock_serializes_witness:
  "\<exists>s pc. (rq_step 0)\<^sup>*\<^sup>* (smp3, \<lambda>_. Outside, []) (s, pc, [(5, Dequeue, Some 2)]) \<and> pc 6 = Spinning Dequeue \<and>
     dequeue_highest_priority 0 smp3 = Some (Some 2, s)"
proof -
  let ?Q = "no_queues(0 := (no_queues 0)(48 := [2, 1]))"
  have abs: "smp_abs smp3 ?Q" by (rule smp_invD(1) [OF smp3_facts(1)])
  have "highest (?Q 0) 128 = Some 48" by (simp add: highest_Some no_queues_def)
  then obtain v where v: "whole 0 Dequeue smp3 = Some (Some 2, v)" using dequeue_abs [OF abs, of 0] by auto
  obtain t where t: "acquire_runqueue_lock 0 smp3 = Some t" using v unfolding whole_body by (auto split: bind_splits)
  then have "remaining 0 (body 0 Dequeue) t = Some (Some 2, v)" using acquire_lock(3) [OF t] v by metis
  then obtain u where u: "run (body 0 Dequeue) t = Some (Some 2, u)" "release_runqueue_lock 0 u = Some v"
    by (auto simp: remaining_def split: bind_splits)
  let ?p1 = "(\<lambda>_. Outside)(5 := Spinning Dequeue)"
  let ?p2 = "?p1(5 := Inside Dequeue (body 0 Dequeue))"
  let ?p3 = "?p2(6 := Spinning Dequeue)"
  let ?p4 = "?p3(5 := Inside Dequeue (Done (Some 2)))"
  have free: "\<not> rq_lock (runqueues smp3 ! 0)" by (rule smp_absD(2) [OF abs]) simp
  have a: "rq_step 0 (smp3, \<lambda>_. Outside, []) (smp3, ?p1, [])" by (rule rq_step.call) simp
  have b: "rq_step 0 (smp3, ?p1, []) (t, ?p2, [])" by (rule rq_step.won [OF _ t]) simp
  have c: "rq_step 0 (t, ?p2, []) (t, ?p3, [])" by (rule rq_step.call) simp
  have d: "(rq_step 0)\<^sup>*\<^sup>* (t, ?p3, []) (u, ?p4, [])" by (rule run_inside [OF u(1)]) simp
  have e: "rq_step 0 (u, ?p4, []) (v, ?p4(5 := Outside), [] @ [(5, Dequeue, Some 2)])"
    by (rule rq_step.leave [OF _ u(2)]) simp
  have run: "(rq_step 0)\<^sup>*\<^sup>* (smp3, \<lambda>_. Outside, []) (v, ?p4(5 := Outside), [(5, Dequeue, Some 2)])"
    using steps_chain [of "rq_step 0", OF a b c d e] by (simp only: append_Nil)
  have "\<not> inside ((?p4(5 := Outside)) i)" for i by simp
  then have "in_order 0 [(5, Dequeue, Some 2)] smp3 = Some v"
    using runqueue_lock_serializes [OF run free] by metis
  then have "dequeue_highest_priority 0 smp3 = Some (Some 2, v)" by (simp split: option.splits prod.splits if_splits)
  then show ?thesis using run by (intro exI [of _ v] exI [of _ "?p4(5 := Outside)"]) simp
qed

end
