(* ===== verification/Opus_String.thy ===== *)
theory Opus_String
  imports Printf "HOL-Library.Char_ord"
begin

text \<open>
  The string functions of \<open>OPUS4.5/kernel/string.cpp\<close>. A pointer is the part of its array from there on; reading or
  writing beyond the array is \<open>None\<close>, and so is undefined integer arithmetic. Characters are compared as the
  source does, unsigned where it casts.
\<close>

definition nul :: char where "nul = CHR 0x00"

section \<open>Strings\<close>

fun strlen :: "string \<Rightarrow> nat option" where
  "strlen [] = None"
| "strlen (c # str) = (if c \<noteq> nul then map_option Suc (strlen str) else Some 0)"

fun strcmp :: "string \<Rightarrow> string \<Rightarrow> int option" where
  "strcmp (a # s1) (b # s2) = (if a \<noteq> nul \<and> a = b then strcmp s1 s2 else Some (of_char a - of_char b))"
| "strcmp _ _ = None"

fun strncmp :: "string \<Rightarrow> string \<Rightarrow> nat \<Rightarrow> int option" where
  "strncmp _ _ 0 = Some 0"
| "strncmp (a # s1) (b # s2) (Suc n) = (if a \<noteq> nul \<and> a = b then strncmp s1 s2 n else Some (of_char a - of_char b))"
| "strncmp _ _ (Suc n) = None"

fun strcpy :: "string \<Rightarrow> string \<Rightarrow> string option" where
  "strcpy (d # dest) (s # src) = (if s \<noteq> nul then map_option ((#) s) (strcpy dest src) else Some (nul # dest))"
| "strcpy _ _ = None"

text \<open>The second loop of \<open>strncpy\<close>.\<close>

fun fill_nul :: "string \<Rightarrow> nat \<Rightarrow> string option" where
  "fill_nul dest 0 = Some dest"
| "fill_nul (d # dest) (Suc n) = map_option ((#) nul) (fill_nul dest n)"
| "fill_nul [] (Suc n) = None"

fun strncpy :: "string \<Rightarrow> string \<Rightarrow> nat \<Rightarrow> string option" where
  "strncpy dest src 0 = Some dest"
| "strncpy (d # dest) (s # src) (Suc n) =
     (if s \<noteq> nul then map_option ((#) s) (strncpy dest src n) else map_option ((#) nul) (fill_nul dest (Suc n)))"
| "strncpy _ _ (Suc n) = None"

fun strcat :: "string \<Rightarrow> string \<Rightarrow> string option" where
  "strcat [] src = None"
| "strcat (d # dest) src = (if d \<noteq> nul then map_option ((#) d) (strcat dest src) else strcpy (d # dest) src)"

text \<open>The result is the pointer into the string.\<close>

fun strchr :: "string \<Rightarrow> int \<Rightarrow> string option option" where
  "strchr [] c = None"
| "strchr (a # str) c =
     (if a = nul then Some None
      else if sint (of_char a :: u8) = c then Some (Some (a # str))
      else strchr str c)"

section \<open>Bytes\<close>

fun memset :: "u8 list \<Rightarrow> int \<Rightarrow> nat \<Rightarrow> u8 list option" where
  "memset p v 0 = Some p"
| "memset (b # p) v (Suc num) = map_option ((#) (of_int v)) (memset p v num)"
| "memset [] v (Suc num) = None"

fun memcpy :: "u8 list \<Rightarrow> u8 list \<Rightarrow> nat \<Rightarrow> u8 list option" where
  "memcpy d s 0 = Some d"
| "memcpy (a # d) (b # s) (Suc num) = map_option ((#) b) (memcpy d s num)"
| "memcpy _ _ (Suc num) = None"

fun memcmp :: "u8 list \<Rightarrow> u8 list \<Rightarrow> nat \<Rightarrow> int option" where
  "memcmp p1 p2 0 = Some 0"
| "memcmp (a # p1) (b # p2) (Suc n) = (if a \<noteq> b then Some (uint a - uint b) else memcmp p1 p2 n)"
| "memcmp _ _ (Suc n) = None"

section \<open>Numbers\<close>

text \<open>Arithmetic on \<open>int\<close>: overflow is undefined.\<close>

definition c_int :: "int \<Rightarrow> int option" where
  "c_int v = (if - (2 ^ 31) \<le> v \<and> v < 2 ^ 31 then Some v else None)"

fun atoi_digits :: "int \<Rightarrow> string \<Rightarrow> int option" where
  "atoi_digits result [] = None"
| "atoi_digits result (c # str) =
     (if CHR ''0'' \<le> c \<and> c \<le> CHR ''9''
      then do { tens \<leftarrow> c_int (result * 10); r \<leftarrow> c_int (tens + (of_char c - 48)); atoi_digits r str }
      else Some result)"

fun skip_spaces :: "string \<Rightarrow> string option" where
  "skip_spaces [] = None"
| "skip_spaces (c # str) = (if c = CHR '' '' then skip_spaces str else Some (c # str))"

definition atoi :: "string \<Rightarrow> int option" where
  "atoi str0 = do {
     str \<leftarrow> skip_spaces str0;
     (case str of
        [] \<Rightarrow> None
      | c # rest \<Rightarrow>
          if c = CHR ''-'' then map_option (\<lambda>r. - r) (atoi_digits 0 rest)
          else if c = CHR ''+'' then atoi_digits 0 rest
          else atoi_digits 0 str)
   }"

text \<open>Division of C rounds towards 0.\<close>

definition c_div :: "int \<Rightarrow> int \<Rightarrow> int" where
  "c_div a b = sgn a * sgn b * (\<bar>a\<bar> div \<bar>b\<bar>)"

definition digit_table :: string where
  "digit_table = ''0123456789ABCDEF'' @ [nul]"

text \<open>\<open>do \<dots> while (value)\<close>, least digit first.\<close>

partial_function (option) itoa_loop :: "int \<Rightarrow> int \<Rightarrow> string option" where
  "itoa_loop value base =
     (if base = 0 then None
      else let q = c_div value base; r = value - q * base
           in if r < 0 \<or> 16 < r then None
              else if q = 0 then Some [digit_table ! nat r]
              else do { rest \<leftarrow> itoa_loop q base; Some (digit_table ! nat r # rest) })"

text \<open>The swaps between the ends.\<close>

function swap_loop :: "nat \<Rightarrow> nat \<Rightarrow> string \<Rightarrow> string" where
  "swap_loop ptr1 ptr str =
     (if ptr1 < ptr then swap_loop (ptr1 + 1) (ptr - 1) (str[ptr := str ! ptr1, ptr1 := str ! ptr]) else str)"
  by pat_completeness auto
termination by (relation "measure (\<lambda>(ptr1, ptr, _). ptr - ptr1)") auto

declare swap_loop.simps [simp del]

text \<open>\<open>str\<close> is the caller's array.\<close>

definition itoa_opus :: "int \<Rightarrow> string \<Rightarrow> int \<Rightarrow> string option" where
  "itoa_opus v str base = do {
     value \<leftarrow> (if v < 0 \<and> base = 10 then c_int (- v) else Some v);
     digits \<leftarrow> itoa_loop value base;
     let out = (if v < 0 \<and> base = 10 then [CHR ''-''] else []) @ swap_loop 0 (length digits - 1) digits @ [nul];
     (if length out \<le> length str then Some (out @ drop (length out) str) else None)
   }"

section \<open>Copying\<close>

lemma fill_nul_eq:
  "fill_nul dest n = (if n \<le> length dest then Some (replicate n nul @ drop n dest) else None)"
  by (induction dest n rule: fill_nul.induct) auto

text \<open>\<open>strncpy\<close> with a source shorter than \<open>n\<close> writes \<open>n + 1\<close> bytes, one more than it may: the terminator it copies
  is not counted. With a longer source it writes the first \<open>n\<close> characters and no terminator.\<close>

theorem strncpy_writes:
  assumes "nul \<notin> set str"
  shows "strncpy dest (str @ nul # rest) n =
    (if length str < n
     then (if n + 1 \<le> length dest then Some (str @ replicate (n + 1 - length str) nul @ drop (n + 1) dest) else None)
     else (if n \<le> length dest then Some (take n str @ drop n dest) else None))"
  using assms
proof (induction str arbitrary: dest n)
  case Nil
  then show ?case
    by (cases n; cases dest) (auto simp: fill_nul_eq)
next
  case (Cons c str)
  then show ?case
    by (cases n; cases dest) (auto simp: Suc_diff_le)
qed

theorem strncpy_writes_witness: "strncpy ''abcdef'' (''xy'' @ nul # []) 4 = Some (''xy'' @ [nul, nul, nul] @ ''f'')"
  using strncpy_writes [of "''xy''" "''abcdef''" "[]" 4] by (simp add: nul_def numeral_eq_Suc)

section \<open>Numbers and back\<close>

lemma c_div_nonneg: "0 \<le> a \<Longrightarrow> 0 < b \<Longrightarrow> c_div a b = a div b"
  by (cases "a = 0") (simp_all add: c_div_def sgn_if)

text \<open>The digits of a number, least first.\<close>

function digits_of :: "nat \<Rightarrow> nat list" where
  "digits_of v = (if v < 10 then [v] else v mod 10 # digits_of (v div 10))"
  by pat_completeness auto
termination by (relation "measure id") auto

declare digits_of.simps [simp del]

definition decimal_char :: "nat \<Rightarrow> char" where
  "decimal_char d = char_of (48 + d)"

lemma digit_table_nth: "d < 10 \<Longrightarrow> digit_table ! d = decimal_char d"
proof -
  have "\<forall>d<10. digit_table ! d = decimal_char d" unfolding digit_table_def decimal_char_def by code_simp
  then show "d < 10 \<Longrightarrow> digit_table ! d = decimal_char d" by blast
qed

lemma itoa_loop_digits: "itoa_loop (int v) 10 = Some (map decimal_char (digits_of v))"
proof (induction v rule: digits_of.induct)
  case (1 v)
  have q: "c_div (int v) 10 = int (v div 10)" by (simp add: c_div_nonneg zdiv_int)
  have r: "int v - int (v div 10) * 10 = int (v mod 10)"
    by (simp add: zdiv_int zmod_int minus_div_mult_eq_mod)
  have lt: "\<not> int v < int (v div 10) * 10" "\<not> 16 < v mod 10"
    using r mod_less_divisor [of 10 v] by linarith+
  have m: "digit_table ! (v mod 10) = decimal_char (v mod 10)" by (rule digit_table_nth) simp
  show ?case
  proof (cases "v < 10")
    case True
    then show ?thesis using m by (subst itoa_loop.simps) (simp add: q r lt Let_def digits_of.simps [of v])
  next
    case False
    then have "int (v div 10) \<noteq> 0" by simp
    then show ?thesis using 1 [OF False] m False
      by (subst itoa_loop.simps) (simp add: q r lt Let_def digits_of.simps [of v])
  qed
qed

lemma swap_loop_eq: "ptr < length str \<Longrightarrow> swap_loop ptr1 ptr str = reverse_loop ptr1 ptr str"
proof (induction ptr1 ptr str rule: swap_loop.induct)
  case (1 ptr1 ptr str)
  have "str[ptr := str ! ptr1, ptr1 := str ! ptr] = str[ptr1 := str ! ptr, ptr := str ! ptr1]" if "ptr1 < ptr"
    using that by (intro list_update_swap) simp
  then show ?case using 1
    by (cases "ptr1 < ptr") (simp_all add: swap_loop.simps [of ptr1 ptr] reverse_loop.simps [of ptr1 ptr])
qed

lemma digits_of_nonempty [simp]: "digits_of v \<noteq> []"
  by (simp add: digits_of.simps [of v])

lemma digits_of_small: "d \<in> set (digits_of v) \<Longrightarrow> d < 10"
proof (induction v rule: digits_of.induct)
  case (1 v)
  then show ?case by (cases "v < 10") (auto simp: digits_of.simps [of v])
qed

lemma digits_of_value: "foldl (\<lambda>a d. 10 * a + d) 0 (rev (digits_of v)) = v"
proof (induction v rule: digits_of.induct)
  case (1 v)
  then show ?case by (cases "v < 10") (simp_all add: digits_of.simps [of v])
qed

lemma itoa_opus_nonneg:
  assumes "length (digits_of v) + 1 \<le> length str"
  shows "itoa_opus (int v) str 10 =
    Some (map decimal_char (rev (digits_of v)) @ [nul] @ drop (length (digits_of v) + 1) str)"
proof -
  let ?ds = "map decimal_char (digits_of v)"
  have "swap_loop 0 (length ?ds - 1) ?ds = rev ?ds"
    by (subst swap_loop_eq) (simp_all add: reverse_loop_rev del: length_map One_nat_def)
  then show ?thesis using assms by (simp add: itoa_opus_def itoa_loop_digits rev_map)
qed

lemma decimal_char_range:
  assumes "d < 10"
  shows "CHR ''0'' \<le> decimal_char d \<and> decimal_char d \<le> CHR ''9'' \<and> (of_char (decimal_char d) :: int) = 48 + int d"
proof -
  have "\<forall>d<10. CHR ''0'' \<le> decimal_char d \<and> decimal_char d \<le> CHR ''9'' \<and> (of_char (decimal_char d) :: int) = 48 + int d"
    unfolding decimal_char_def by code_simp
  then show ?thesis using assms by blast
qed

lemma foldl_digits_mono: "(a :: nat) \<le> foldl (\<lambda>a d. 10 * a + d) a xs"
proof (induction xs arbitrary: a)
  case (Cons d xs)
  have "10 * a + d \<le> foldl (\<lambda>a d. 10 * a + d) (10 * a + d) xs" by (rule Cons.IH)
  then show ?case by simp
qed simp

lemma atoi_digits_map:
  assumes "\<forall>d\<in>set xs. d < 10" "foldl (\<lambda>a d. 10 * a + d) a xs < 2 ^ 31"
  shows "atoi_digits (int a) (map decimal_char xs @ nul # rest) = Some (int (foldl (\<lambda>a d. 10 * a + d) a xs))"
  using assms
proof (induction xs arbitrary: a)
  case Nil
  then show ?case by (simp add: nul_def less_eq_char_def)
next
  case (Cons d xs)
  have le: "10 * a + d < 2 ^ 31" using Cons.prems(2) foldl_digits_mono [of "10 * a + d" xs] by simp
  have "c_int (int a * 10) = Some (int a * 10)" "c_int (int a * 10 + int d) = Some (int (10 * a + d))"
    using le by (auto simp: c_int_def)
  then show ?case using Cons.IH [of "10 * a + d"] Cons.prems decimal_char_range [of d] by (simp add: algebra_simps)
qed

lemma skip_spaces_first: "c \<noteq> CHR '' '' \<Longrightarrow> skip_spaces (c # str) = Some (c # str)"
  by simp

text \<open>Reading back what \<open>itoa\<close> writes in base 10 gives the number, for every \<open>int\<close> but the smallest, whose negation
  overflows.\<close>

theorem atoi_itoa:
  assumes "- (2 ^ 31) < v" "v < 2 ^ 31" "length (digits_of (nat \<bar>v\<bar>)) + 2 \<le> length str"
  shows "\<exists>text. itoa_opus v str 10 = Some text \<and> atoi text = Some v"
proof -
  let ?ds = "rev (digits_of (nat \<bar>v\<bar>))" and ?n = "length (digits_of (nat \<bar>v\<bar>))"
  have val: "atoi_digits 0 (map decimal_char ?ds @ nul # rest) = Some \<bar>v\<bar>" for rest
    using atoi_digits_map [of ?ds 0 rest] assms(1,2) digits_of_small [of _ "nat \<bar>v\<bar>"] digits_of_value [of "nat \<bar>v\<bar>"] by simp
  obtain d ds where d: "?ds = d # ds" by (cases ?ds) simp_all
  have "d \<in> set (digits_of (nat \<bar>v\<bar>))" using d by (metis list.set_intros(1) set_rev)
  then have "d < 10" by (rule digits_of_small)
  then have first: "decimal_char d \<noteq> CHR '' ''" "decimal_char d \<noteq> CHR ''-''" "decimal_char d \<noteq> CHR ''+''"
    using decimal_char_range [of d] by (auto simp: less_eq_char_def)
  show ?thesis
  proof (cases "v < 0")
    case False
    then have "itoa_opus v str 10 = Some (map decimal_char ?ds @ nul # drop (?n + 1) str)"
      using itoa_opus_nonneg [of "nat v" str] assms(3) by simp
    moreover have "atoi (map decimal_char ?ds @ nul # drop (?n + 1) str) = Some v"
      using val [of "drop (?n + 1) str"] first False unfolding d by (simp add: atoi_def)
    ultimately show ?thesis by blast
  next
    case True
    have "c_int (- v) = Some (int (nat (- v)))" using True assms(1) by (simp add: c_int_def)
    moreover have "swap_loop 0 (?n - 1) (map decimal_char (digits_of (nat (- v)))) = map decimal_char ?ds"
      using swap_loop_eq [of "?n - 1" "map decimal_char (digits_of (nat (- v)))" 0]
        reverse_loop_rev [of "map decimal_char (digits_of (nat (- v)))"] True by (simp add: rev_map)
    ultimately have "itoa_opus v str 10 = Some (CHR ''-'' # map decimal_char ?ds @ nul # drop (?n + 2) str)"
      using True assms(3) itoa_loop_digits [of "nat (- v)"] by (simp add: itoa_opus_def rev_map)
    moreover have "atoi (CHR ''-'' # map decimal_char ?ds @ nul # drop (?n + 2) str) = Some v"
      using val [of "drop (?n + 2) str"] True by (simp add: atoi_def)
    ultimately show ?thesis by blast
  qed
qed

theorem atoi_itoa_witness: "\<exists>text. itoa_opus (- 42) (replicate 16 nul) 10 = Some text \<and> atoi text = Some (- 42)"
  by (rule atoi_itoa) (simp_all add: digits_of.simps)

end
