(* ===== verification/Opus_Drivers.thy ===== *)
theory Opus_Drivers
  imports Opus_String
begin

text \<open>
  The screen and keyboard classes of \<open>OPUS4.5/drivers\<close>: \<open>vga.cpp\<close> and \<open>keyboard.cpp\<close>. Both objects and the shell
  object are global, so their members are one record, over the ports. A method \<open>C::m\<close> is called \<open>C_m\<close>. A store
  outside the screen is \<open>None\<close>, and so is waiting for ever.
\<close>

section \<open>State\<close>

definition VGA_BLACK :: u8 where "VGA_BLACK = 0"
definition VGA_BLUE :: u8 where "VGA_BLUE = 1"
definition VGA_LIGHT_GREY :: u8 where "VGA_LIGHT_GREY = 7"
definition VGA_LIGHT_BLUE :: u8 where "VGA_LIGHT_BLUE = 9"
definition VGA_LIGHT_GREEN :: u8 where "VGA_LIGHT_GREEN = 10"
definition VGA_LIGHT_CYAN :: u8 where "VGA_LIGHT_CYAN = 11"
definition VGA_LIGHT_RED :: u8 where "VGA_LIGHT_RED = 12"
definition VGA_YELLOW :: u8 where "VGA_YELLOW = 14"
definition VGA_WHITE :: u8 where "VGA_WHITE = 15"

definition WIDTH :: int where "WIDTH = 80"
definition HEIGHT :: int where "HEIGHT = 25"

record opus = hw +
  video_memory :: "u16 list"
  cursor_x :: int
  cursor_y :: int
  current_color :: u8
  kbd_shift :: bool
  kbd_ctrl :: bool
  kbd_alt :: bool
  kbd_caps :: bool
  cmd_buffer :: string
  cmd_pos :: int
  current_dir :: string

section \<open>The screen\<close>

definition VGA_makeColor :: "u8 \<Rightarrow> u8 \<Rightarrow> u8" where
  "VGA_makeColor fg bg = fg OR push_bit 4 bg"

definition VGA_makeEntry :: "char \<Rightarrow> u8 \<Rightarrow> u16" where
  "VGA_makeEntry c color = scast (of_char c :: u8) OR push_bit 8 (ucast color)"

definition VGA_setColor :: "u8 \<Rightarrow> u8 \<Rightarrow> opus \<Rightarrow> opus" where
  "VGA_setColor fg bg s = s\<lparr>current_color := VGA_makeColor fg bg\<rparr>"

definition VGA_updateCursor :: "opus \<Rightarrow> opus" where
  "VGA_updateCursor s =
     (let pos = (of_int (cursor_y s * WIDTH + cursor_x s) :: u16)
      in outb 0x3D5 (ucast (drop_bit 8 pos AND 0xFF)) (outb 0x3D4 0x0E
           (outb 0x3D5 (ucast (pos AND 0xFF)) (outb 0x3D4 0x0F s))))"

definition store_cell :: "int \<Rightarrow> u16 \<Rightarrow> opus \<Rightarrow> opus option" where
  "store_cell i v s =
     (if 0 \<le> i \<and> i < int (length (video_memory s)) then Some (s\<lparr>video_memory := (video_memory s)[nat i := v]\<rparr>) else None)"

definition load_cell :: "int \<Rightarrow> opus \<Rightarrow> u16 option" where
  "load_cell i s = (if 0 \<le> i \<and> i < int (length (video_memory s)) then Some (video_memory s ! nat i) else None)"

definition VGA_clear :: "opus \<Rightarrow> opus option" where
  "VGA_clear s = do {
     t \<leftarrow> for_int 0 HEIGHT (\<lambda>y. for_int 0 WIDTH (\<lambda>x t.
            store_cell (y * WIDTH + x) (VGA_makeEntry CHR '' '' (current_color t)) t)) s;
     Some (VGA_updateCursor (t\<lparr>cursor_x := 0, cursor_y := 0\<rparr>))
   }"

definition VGA_init :: "opus \<Rightarrow> opus option" where
  "VGA_init s = VGA_clear (s\<lparr>cursor_x := 0, cursor_y := 0, current_color := VGA_makeColor VGA_LIGHT_GREY VGA_BLACK\<rparr>)"

definition VGA_scroll :: "opus \<Rightarrow> opus option" where
  "VGA_scroll s = do {
     t \<leftarrow> for_int 0 (HEIGHT - 1) (\<lambda>y. for_int 0 WIDTH (\<lambda>x t. do {
            v \<leftarrow> load_cell ((y + 1) * WIDTH + x) t;
            store_cell (y * WIDTH + x) v t })) s;
     u \<leftarrow> for_int 0 WIDTH (\<lambda>x t.
            store_cell ((HEIGHT - 1) * WIDTH + x) (VGA_makeEntry CHR '' '' (current_color t)) t) t;
     Some (u\<lparr>cursor_y := HEIGHT - 1\<rparr>)
   }"

definition VGA_backspace :: "opus \<Rightarrow> opus option" where
  "VGA_backspace s = do {
     t \<leftarrow> (if cursor_x s > 0
          then let u = s\<lparr>cursor_x := cursor_x s - 1\<rparr>
               in store_cell (cursor_y u * WIDTH + cursor_x u) (VGA_makeEntry CHR '' '' (current_color u)) u
          else if cursor_y s > 0
          then let u = s\<lparr>cursor_y := cursor_y s - 1, cursor_x := WIDTH - 1\<rparr>
               in store_cell (cursor_y u * WIDTH + cursor_x u) (VGA_makeEntry CHR '' '' (current_color u)) u
          else Some s);
     Some (VGA_updateCursor t)
   }"

definition VGA_putchar :: "char \<Rightarrow> opus \<Rightarrow> opus option" where
  "VGA_putchar c s =
     (if c = CHR 0x08 then VGA_backspace s
      else do {
        s1 \<leftarrow> (if c = CHR 0x0A then Some (s\<lparr>cursor_x := 0, cursor_y := cursor_y s + 1\<rparr>)
              else if c = CHR 0x0D then Some (s\<lparr>cursor_x := 0\<rparr>)
              else if c = CHR 0x09 then Some (s\<lparr>cursor_x := (cursor_x s + 8) AND NOT 7\<rparr>)
              else do {
                t \<leftarrow> store_cell (cursor_y s * WIDTH + cursor_x s) (VGA_makeEntry c (current_color s)) s;
                Some (t\<lparr>cursor_x := cursor_x t + 1\<rparr>)
              });
        let s2 = (if cursor_x s1 \<ge> WIDTH then s1\<lparr>cursor_x := 0, cursor_y := cursor_y s1 + 1\<rparr> else s1);
        s3 \<leftarrow> (if cursor_y s2 \<ge> HEIGHT then VGA_scroll s2 else Some s2);
        Some (VGA_updateCursor s3)
      })"

fun VGA_puts :: "string \<Rightarrow> opus \<Rightarrow> opus option" where
  "VGA_puts [] s = None"
| "VGA_puts (c # str) s = (if c \<noteq> nul then do { t \<leftarrow> VGA_putchar c s; VGA_puts str t } else Some s)"

definition VGA_setCursor :: "int \<Rightarrow> int \<Rightarrow> opus \<Rightarrow> opus" where
  "VGA_setCursor x y s = VGA_updateCursor (s\<lparr>cursor_x := x, cursor_y := y\<rparr>)"

definition VGA_getX :: "opus \<Rightarrow> int" where "VGA_getX s = cursor_x s"
definition VGA_getY :: "opus \<Rightarrow> int" where "VGA_getY s = cursor_y s"

section \<open>The keyboard\<close>

definition scan_ascii :: string where
  "scan_ascii =
     [CHR 0x00, CHR 0x1B] @ ''1234567890-='' @ [CHR 0x08, CHR 0x09] @ ''qwertyuiop[]'' @ [CHR 0x0A, CHR 0x00] @
     ''asdfghjkl;'' @ [CHR 0x27, CHR 0x60, CHR 0x00, CHR 0x5C] @ ''zxcvbnm,./'' @ [CHR 0x00, CHR ''*'', CHR 0x00, CHR '' '', CHR 0x00]"

definition scan_ascii_shift :: string where
  "scan_ascii_shift =
     [CHR 0x00, CHR 0x1B] @ ''!@#$%^&*()_+'' @ [CHR 0x08, CHR 0x09] @ ''QWERTYUIOP{}'' @ [CHR 0x0A, CHR 0x00] @
     ''ASDFGHJKL:'' @ [CHR 0x22, CHR ''~'', CHR 0x00, CHR ''|''] @ ''ZXCVBNM<>?'' @ [CHR 0x00, CHR ''*'', CHR 0x00, CHR '' '', CHR 0x00]"

definition Keyboard_init :: "opus \<Rightarrow> opus option" where
  "Keyboard_init s = spin_until 0x64 (\<lambda>v. v AND 0x02 = 0)
     (s\<lparr>kbd_shift := False, kbd_ctrl := False, kbd_alt := False, kbd_caps := False\<rparr>)"

definition Keyboard_hasKey :: "opus \<Rightarrow> bool \<times> opus" where
  "Keyboard_hasKey s = (case inb 0x64 s of (v, t) \<Rightarrow> (v AND 0x01 \<noteq> 0, t))"

definition Keyboard_scanToChar :: "u8 \<Rightarrow> opus \<Rightarrow> char" where
  "Keyboard_scanToChar scancode s =
     (if unat scancode \<ge> length scan_ascii then CHR 0x00
      else let c = scan_ascii ! unat scancode;
               use_shift = (if kbd_caps s \<and> CHR ''a'' \<le> c \<and> c \<le> CHR ''z'' then \<not> kbd_shift s else kbd_shift s)
           in if use_shift then scan_ascii_shift ! unat scancode else c)"

text \<open>One turn of the outer loop after the byte has been read: a character to return, or \<open>None\<close> to go on.\<close>

definition key_byte :: "u8 \<Rightarrow> opus \<Rightarrow> char option \<times> opus" where
  "key_byte scancode s =
     (if scancode AND 0x80 \<noteq> 0
      then let sc = scancode AND 0x7F
           in (None, if sc = 0x2A \<or> sc = 0x36 then s\<lparr>kbd_shift := False\<rparr>
                     else if sc = 0x1D then s\<lparr>kbd_ctrl := False\<rparr>
                     else if sc = 0x38 then s\<lparr>kbd_alt := False\<rparr> else s)
      else if scancode = 0x2A \<or> scancode = 0x36 then (None, s\<lparr>kbd_shift := True\<rparr>)
      else if scancode = 0x1D then (None, s\<lparr>kbd_ctrl := True\<rparr>)
      else if scancode = 0x38 then (None, s\<lparr>kbd_alt := True\<rparr>)
      else if scancode = 0x3A then (None, s\<lparr>kbd_caps := \<not> kbd_caps s\<rparr>)
      else let c = Keyboard_scanToChar scancode s in (if c \<noteq> CHR 0x00 then Some c else None, s))"

partial_function (option) Keyboard_getchar :: "opus \<Rightarrow> (char \<times> opus) option" where
  "Keyboard_getchar s = do {
     s1 \<leftarrow> spin_until 0x64 (\<lambda>v. v AND 0x01 \<noteq> 0) s;
     (case inb 0x60 s1 of (scancode, s2) \<Rightarrow>
        (case key_byte scancode s2 of
           (Some c, s3) \<Rightarrow> Some (c, s3)
         | (None, s3) \<Rightarrow> Keyboard_getchar s3))
   }"

section \<open>Loops\<close>

lemma for_int_end [simp]: "n \<le> a \<Longrightarrow> for_int a n f s = Some s"
  by (simp add: for_int.simps)

lemma for_int_split:
  assumes "a \<le> b" "b \<le> c"
  shows "for_int a c f s = for_int a b f s \<bind> for_int b c f"
  using assms
proof (induction a b f s rule: for_int.induct)
  case (1 i n f s)
  show ?case
  proof (cases "i < n")
    case True
    then show ?thesis using 1 by (cases "f i s") (simp_all add: for_int.simps [of i])
  next
    case False
    then show ?thesis using 1 by (simp add: for_int.simps [of i n])
  qed
qed

lemma for_int_shift: "for_int a b (\<lambda>x. f (k + x)) s = for_int (k + a) (k + b) f s"
proof (induction a b "\<lambda>x. f (k + x)" s rule: for_int.induct)
  case (1 i n s)
  show ?case
  proof (cases "i < n")
    case True
    then show ?thesis using 1 by (cases "f (k + i) s") (simp_all add: for_int.simps [of i] for_int.simps [of "k + i"] add.assoc)
  qed simp
qed

text \<open>Rows of 80 cells, one after the other.\<close>

lemma for_int_rows:
  "for_int 0 (int h) (\<lambda>y. for_int 0 80 (\<lambda>x. f (y * 80 + x))) s = for_int 0 (int h * 80) f s"
proof (induction h)
  case (Suc h)
  let ?row = "\<lambda>y. for_int 0 80 (\<lambda>x. f (y * 80 + x))"
  have "for_int 0 (int (Suc h)) ?row s = for_int 0 (int h) ?row s \<bind> for_int (int h) (int (Suc h)) ?row"
    by (rule for_int_split) simp_all
  also have "for_int (int h) (int (Suc h)) ?row = (\<lambda>t. for_int (int h * 80) (int (Suc h) * 80) f t)"
  proof
    fix t
    show "for_int (int h) (int (Suc h)) ?row t = for_int (int h * 80) (int (Suc h) * 80) f t"
      using for_int_shift [of 0 80 f "int h * 80" t]
      by (subst for_int.simps) (simp add: option.case_eq_if algebra_simps)
  qed
  also have "for_int 0 (int h) ?row s \<bind> (\<lambda>t. for_int (int h * 80) (int (Suc h) * 80) f t) = for_int 0 (int (Suc h) * 80) f s"
    unfolding Suc by (rule for_int_split [symmetric]) simp_all
  finally show ?case .
qed simp

text \<open>A loop under a view of the state.\<close>

lemma for_int_view:
  assumes "\<And>i s. map_option v (f i s) = g i (v s)"
  shows "map_option v (for_int a n f s) = for_int a n g (v s)"
  using assms
proof (induction a n f s rule: for_int.induct)
  case (1 i n f s)
  show ?case
  proof (cases "i < n")
    case True
    have step: "map_option v (f i s) = g i (v s)" by (rule "1.prems")
    show ?thesis
    proof (cases "f i s")
      case None
      then show ?thesis using True step by (simp add: for_int.simps [of i] split: option.splits)
    next
      case (Some t)
      then have "g i (v s) = Some (v t)" using step by simp
      then show ?thesis using True Some "1.IH" [OF True Some "1.prems"] by (simp add: for_int.simps [of i])
    qed
  qed simp
qed

section \<open>The two screen drivers\<close>

text \<open>The state as the console driver of the other kernel has it; what it does not know is the rest of the record.\<close>

definition rest_of :: "opus \<Rightarrow> bool \<times> bool \<times> bool \<times> bool \<times> string \<times> int \<times> string" where
  "rest_of s = (kbd_shift s, kbd_ctrl s, kbd_alt s, kbd_caps s, cmd_buffer s, cmd_pos s, current_dir s)"

definition screen_of :: "opus \<Rightarrow> (bool \<times> bool \<times> bool \<times> bool \<times> string \<times> int \<times> string) vga_scheme" where
  "screen_of s =
     \<lparr>device = device s, clock = clock s, port_writes = port_writes s, vga_buffer = video_memory s,
      vga_row = cursor_y s, vga_col = cursor_x s, vga_color_attr = current_color s, \<dots> = rest_of s\<rparr>"

lemma screen_of_simps [simp]:
  "vga_buffer (screen_of s) = video_memory s" "vga_row (screen_of s) = cursor_y s" "vga_col (screen_of s) = cursor_x s"
  "vga_color_attr (screen_of s) = current_color s" "vga.more (screen_of s) = rest_of s"
  "device (screen_of s) = device s" "clock (screen_of s) = clock s" "port_writes (screen_of s) = port_writes s"
  by (simp_all add: screen_of_def)

lemma screen_of_updates:
  "screen_of (s\<lparr>video_memory := b\<rparr>) = (screen_of s)\<lparr>vga_buffer := b\<rparr>"
  "screen_of (s\<lparr>cursor_x := x\<rparr>) = (screen_of s)\<lparr>vga_col := x\<rparr>"
  "screen_of (s\<lparr>cursor_y := y\<rparr>) = (screen_of s)\<lparr>vga_row := y\<rparr>"
  "screen_of (s\<lparr>current_color := c\<rparr>) = (screen_of s)\<lparr>vga_color_attr := c\<rparr>"
  "screen_of (outb p v s) = outb p v (screen_of s)"
  by (simp_all add: screen_of_def rest_of_def outb_def)

lemma screen_of_inject: "screen_of s = screen_of t \<longleftrightarrow> s = t"
  by (auto simp: screen_of_def rest_of_def)

lemma entry_same: "VGA_makeEntry = vga_entry" "VGA_makeColor = vga_color"
  by (simp_all add: fun_eq_iff VGA_makeEntry_def vga_entry_def signed_char_def VGA_makeColor_def vga_color_def)

lemma cells_view:
  "map_option screen_of (store_cell i v s) = vga_store i v (screen_of s)" "load_cell i s = vga_load i (screen_of s)"
  by (simp_all add: store_cell_def vga_store_def load_cell_def vga_load_def screen_of_updates)

lemma updateCursor_view: "screen_of (VGA_updateCursor s) = update_cursor (screen_of s)"
  by (simp add: VGA_updateCursor_def update_cursor_def Let_def screen_of_updates WIDTH_def VGA_WIDTH_def)

lemma map_option_bind_view:
  assumes "map_option v m = m'" "\<And>t. map_option v (f t) = g (v t)"
  shows "map_option v (m \<bind> f) = m' \<bind> g"
  using assms by (cases m) auto

lemma VGA_clear_view: "map_option screen_of (VGA_clear s) = vga_clear (screen_of s)"
proof -
  have "map_option screen_of (for_int 0 HEIGHT (\<lambda>y. for_int 0 WIDTH (\<lambda>x t.
            store_cell (y * WIDTH + x) (VGA_makeEntry CHR '' '' (current_color t)) t)) s) =
        for_int 0 (VGA_WIDTH * VGA_HEIGHT) (\<lambda>i t. vga_store i (vga_entry CHR '' '' (vga_color_attr t)) t) (screen_of s)"
    using for_int_rows [of 25 "\<lambda>i t. store_cell i (VGA_makeEntry CHR '' '' (current_color t)) t" s]
      for_int_view [of screen_of "\<lambda>i t. store_cell i (VGA_makeEntry CHR '' '' (current_color t)) t"
        "\<lambda>i t. vga_store i (vga_entry CHR '' '' (vga_color_attr t)) t" 0 2000 s]
    by (simp add: WIDTH_def HEIGHT_def VGA_WIDTH_def VGA_HEIGHT_def cells_view entry_same)
  then show ?thesis unfolding VGA_clear_def vga_clear_def
  proof (rule map_option_bind_view)
    fix t
    have "update_cursor ((screen_of t)\<lparr>vga_col := 0, vga_row := 0\<rparr>) = update_cursor ((screen_of t)\<lparr>vga_row := 0, vga_col := 0\<rparr>)"
      by (rule arg_cong [where f = update_cursor]) simp
    then show "map_option screen_of (Some (VGA_updateCursor (t\<lparr>cursor_x := 0, cursor_y := 0\<rparr>))) =
        Some (update_cursor ((screen_of t)\<lparr>vga_row := 0, vga_col := 0\<rparr>))"
      by (simp add: updateCursor_view screen_of_updates)
  qed
qed

lemma VGA_scroll_view:
  "cursor_y s \<ge> HEIGHT \<Longrightarrow> map_option screen_of (VGA_scroll s) = scroll (screen_of s)"
proof -
  assume low: "cursor_y s \<ge> HEIGHT"
  let ?move = "\<lambda>i t. do { v \<leftarrow> load_cell (i + 80) t; store_cell i v t }"
  let ?fill = "\<lambda>i t. store_cell i (VGA_makeEntry CHR '' '' (current_color t)) t"
  have "map_option screen_of (?move i t) = do { v \<leftarrow> vga_load (i + 80) (screen_of t); vga_store i v (screen_of t) }" for i t
    by (cases "load_cell (i + 80) t") (simp_all add: cells_view)
  then have move: "map_option screen_of (for_int 0 1920 ?move s) =
      for_int 0 1920 (\<lambda>i t. do { v \<leftarrow> vga_load (i + 80) t; vga_store i v t }) (screen_of s)"
    by (rule for_int_view)
  have fill: "map_option screen_of (for_int 1920 2000 ?fill t) =
      for_int 1920 2000 (\<lambda>i t. vga_store i (vga_entry CHR '' '' (vga_color_attr t)) t) (screen_of t)" for t
    by (rule for_int_view) (simp add: cells_view entry_same)
  have rows: "for_int 0 24 (\<lambda>y. for_int 0 80 (\<lambda>x t. do { v \<leftarrow> load_cell ((y + 1) * 80 + x) t; store_cell (y * 80 + x) v t })) s
      = for_int 0 1920 ?move s"
    using for_int_rows [of 24 ?move s] by (simp add: algebra_simps)
  have last: "for_int 0 80 (\<lambda>x t. store_cell (1920 + x) (VGA_makeEntry CHR '' '' (current_color t)) t) t = for_int 1920 2000 ?fill t" for t
    using for_int_shift [of 0 80 ?fill 1920 t] by simp
  show ?thesis using low
    unfolding VGA_scroll_def scroll_def WIDTH_def HEIGHT_def VGA_WIDTH_def VGA_HEIGHT_def
    using rows last
    by (simp) (intro map_option_bind_view move fill; simp add: screen_of_updates)
qed

lemma same_putchar:
  assumes "c \<noteq> CHR 0x08 \<or> 0 < cursor_x s" and "vga_inv (screen_of s)"
  shows "map_option screen_of (VGA_putchar c s) = vga_putchar c (screen_of s)"
proof (cases "c = CHR 0x08")
  case True
  then have x: "0 < cursor_x s" using assms(1) by simp
  let ?u = "s\<lparr>cursor_x := cursor_x s - 1\<rparr>"
  let ?store = "store_cell (cursor_y s * 80 + (cursor_x s - 1)) (VGA_makeEntry CHR '' '' (current_color s)) ?u"
  let ?w = "vga_store (cursor_y s * 80 + (cursor_x s - 1)) (vga_entry CHR '' '' (current_color s)) (screen_of ?u)"
  have v: "map_option screen_of ?store = ?w" by (simp add: cells_view entry_same)
  have inside: "vga_col w < 80 \<and> vga_row w < 25" if "?w = Some w" for w
    using that assms(2) x by (auto simp: vga_store_def screen_of_updates vga_inv_def split: if_splits)
  have "vga_putchar c (screen_of s) = ?w \<bind> (\<lambda>t. Some (update_cursor t))"
    using True x inside
    by (cases ?w) (auto simp: vga_putchar_def Let_def VGA_WIDTH_def VGA_HEIGHT_def screen_of_updates scroll_def)
  also have "\<dots> = map_option screen_of (VGA_putchar c s)"
    using True x unfolding VGA_putchar_def VGA_backspace_def
    by (simp add: WIDTH_def Let_def) (intro map_option_bind_view [symmetric] v, simp add: updateCursor_view)
  finally show ?thesis ..
next
  case False
  let ?first = "if c = CHR 0x0A then Some (s\<lparr>cursor_x := 0, cursor_y := cursor_y s + 1\<rparr>)
              else if c = CHR 0x0D then Some (s\<lparr>cursor_x := 0\<rparr>)
              else if c = CHR 0x09 then Some (s\<lparr>cursor_x := (cursor_x s + 8) AND NOT 7\<rparr>)
              else do {
                t \<leftarrow> store_cell (cursor_y s * WIDTH + cursor_x s) (VGA_makeEntry c (current_color s)) s;
                Some (t\<lparr>cursor_x := cursor_x t + 1\<rparr>)
              }"
  let ?first' = "if c = CHR 0x0A then Some ((screen_of s)\<lparr>vga_col := 0, vga_row := vga_row (screen_of s) + 1\<rparr>)
           else if c = CHR 0x0D then Some ((screen_of s)\<lparr>vga_col := 0\<rparr>)
           else if c = CHR 0x09 then Some ((screen_of s)\<lparr>vga_col := (vga_col (screen_of s) + 8) AND NOT 7\<rparr>)
           else do {
             t \<leftarrow> vga_store (vga_row (screen_of s) * VGA_WIDTH + vga_col (screen_of s))
                  (vga_entry c (vga_color_attr (screen_of s))) (screen_of s);
             Some (t\<lparr>vga_col := vga_col t + 1\<rparr>)
           }"
  have first: "map_option screen_of ?first = ?first'"
  proof -
    have "map_option screen_of (do {
                t \<leftarrow> store_cell (cursor_y s * WIDTH + cursor_x s) (VGA_makeEntry c (current_color s)) s;
                Some (t\<lparr>cursor_x := cursor_x t + 1\<rparr>)}) =
          do { t \<leftarrow> vga_store (vga_row (screen_of s) * VGA_WIDTH + vga_col (screen_of s))
                  (vga_entry c (vga_color_attr (screen_of s))) (screen_of s);
             Some (t\<lparr>vga_col := vga_col t + 1\<rparr>) }"
      by (rule map_option_bind_view) (simp_all add: cells_view entry_same WIDTH_def VGA_WIDTH_def screen_of_updates)
    then show ?thesis by (simp add: screen_of_updates)
  qed
  let ?wrap = "\<lambda>t. if cursor_x t \<ge> WIDTH then t\<lparr>cursor_x := 0, cursor_y := cursor_y t + 1\<rparr> else t"
  have step: "map_option screen_of (let s2 = ?wrap t in (if cursor_y s2 \<ge> HEIGHT then VGA_scroll s2 else Some s2)
                \<bind> (\<lambda>s3. Some (VGA_updateCursor s3))) =
      (let s2 = (if vga_col (screen_of t) \<ge> VGA_WIDTH
                 then (screen_of t)\<lparr>vga_col := 0, vga_row := vga_row (screen_of t) + 1\<rparr> else screen_of t)
       in scroll s2 \<bind> (\<lambda>s3. Some (update_cursor s3)))" for t
  proof -
    have w: "(if vga_col (screen_of t) \<ge> VGA_WIDTH
             then (screen_of t)\<lparr>vga_col := 0, vga_row := vga_row (screen_of t) + 1\<rparr> else screen_of t) = screen_of (?wrap t)"
      by (simp add: WIDTH_def VGA_WIDTH_def screen_of_updates)
    have sc: "map_option screen_of (if cursor_y u \<ge> HEIGHT then VGA_scroll u else Some u) = scroll (screen_of u)" for u
      using VGA_scroll_view [of u] by (simp add: HEIGHT_def scroll_def VGA_HEIGHT_def)
    show ?thesis unfolding w Let_def by (intro map_option_bind_view sc) (simp add: updateCursor_view)
  qed
  show ?thesis using False unfolding VGA_putchar_def vga_putchar_def
    by (simp only: if_False) (intro map_option_bind_view first step)
qed

definition blank_opus :: opus where
  "blank_opus = \<lparr>device = \<lambda>n p. 0, clock = 0, port_writes = [], video_memory = replicate 2000 0, cursor_x = 0, cursor_y = 0,
     current_color = 0x0F, kbd_shift = False, kbd_ctrl = False, kbd_alt = False, kbd_caps = False,
     cmd_buffer = replicate 256 nul, cmd_pos = 0, current_dir = replicate 64 nul\<rparr>"

lemma blank_opus_inv: "vga_inv (screen_of blank_opus)"
  by (simp add: vga_inv_def blank_opus_def)

section \<open>The class as a terminal\<close>

definition opus_cells :: "opus \<Rightarrow> u16 screen" where
  "opus_cells s = screen_cells (screen_of s)"

lemma putchar_view:
  assumes "printable c" "vga_inv (screen_of s)"
  obtains t where "VGA_putchar c s = Some t" "vga_putchar c (screen_of s) = Some (screen_of t)"
proof -
  obtain w where "vga_putchar c (screen_of s) = Some w" by (rule vga_putchar_spec [OF assms(2), of c])
  then show thesis using that same_putchar [of c s] assms by (auto simp: printable_def)
qed

interpretation ot: terminal VGA_putchar "\<lambda>s. vga_inv (screen_of s)" opus_cells "\<lambda>c s. VGA_makeEntry c (current_color s)" current_color
proof
  fix s c
  assume s: "vga_inv (screen_of s)"
  then show "on_screen (opus_cells s)" using vt.inside [OF s] by (simp add: opus_cells_def)
  assume c: "printable c"
  obtain t where t: "VGA_putchar c s = Some t" "vga_putchar c (screen_of s) = Some (screen_of t)"
    by (rule putchar_view [OF c s])
  then show "\<exists>t. VGA_putchar c s = Some t \<and> vga_inv (screen_of t) \<and> opus_cells t =
      settled (VGA_makeEntry CHR '' '' (current_color s)) (placed (VGA_makeEntry c (current_color s)) (opus_cells s)) \<and>
      current_color t = current_color s"
    using vt.put [OF s c] by (auto simp: opus_cells_def entry_same)
qed simp

lemma VGA_puts_text: "nul \<notin> set str \<Longrightarrow> VGA_puts (str @ nul # rest) s = put_text VGA_putchar str s"
proof (induction str arbitrary: s)
  case (Cons c str)
  then show ?case by (cases "VGA_putchar c s") auto
qed simp

text \<open>A text of printable characters that fits on the line is put on the screen by \<open>puts\<close> cell by cell from the cursor
  on, in the current colour; nothing else on the screen changes, and what lies behind the terminator does not matter.\<close>

theorem VGA_puts_line:
  assumes "vga_inv (screen_of s)" "\<forall>c\<in>set str. printable c" "nul \<notin> set str" "cursor_x s + int (length str) < 80"
  shows "\<exists>t. VGA_puts (str @ nul # rest) s = Some t \<and> vga_inv (screen_of t) \<and> current_color t = current_color s \<and>
    (let p = nat (80 * cursor_y s + cursor_x s)
     in opus_cells t = (take p (video_memory s) @ map (\<lambda>c. VGA_makeEntry c (current_color s)) str @
          drop (p + length str) (video_memory s), cursor_y s, cursor_x s + int (length str)))"
  using ot.text_on_line [OF assms(1,2), of "video_memory s" "cursor_y s" "cursor_x s"] assms(4)
  by (simp add: VGA_puts_text [OF assms(3)] opus_cells_def screen_cells_def Let_def)

theorem VGA_puts_line_witness:
  "\<exists>t. VGA_puts (''OS/2'' @ nul # ''junk'') blank_opus = Some t \<and>
     video_memory t = [0x0F4F, 0x0F53, 0x0F2F, 0x0F32] @ replicate 1996 0"
proof -
  have "\<forall>c\<in>set ''OS/2''. printable c" "nul \<notin> set ''OS/2''" "cursor_x blank_opus + int (length ''OS/2'') < 80"
    by (simp_all add: printable_def nul_def blank_opus_def)
  from VGA_puts_line [OF blank_opus_inv this, of "''junk''"] show ?thesis
    by (auto simp: blank_opus_def entry_same vga_entry_def signed_char_def opus_cells_def screen_cells_def Let_def)
qed

section \<open>Code that only prints\<close>

definition prints :: "(opus \<Rightarrow> opus option) \<Rightarrow> bool" where
  "prints p \<longleftrightarrow> (\<forall>s. vga_inv (screen_of s) \<longrightarrow>
     (\<exists>t. p s = Some t \<and> vga_inv (screen_of t) \<and> rest_of t = rest_of s \<and> device t = device s \<and> clock t = clock s))"

lemma prints_putchar: "prints (VGA_putchar c)"
  unfolding prints_def
proof (intro allI impI)
  fix s assume inv: "vga_inv (screen_of s)"
  show "\<exists>t. VGA_putchar c s = Some t \<and> vga_inv (screen_of t) \<and> rest_of t = rest_of s \<and> device t = device s \<and> clock t = clock s"
  proof (cases "c \<noteq> CHR 0x08 \<or> 0 < cursor_x s")
    case True
    obtain w where w: "vga_putchar c (screen_of s) = Some w" "vga_inv w" "device w = device s" "clock w = clock s"
        "vga.more w = rest_of s"
      by (rule vga_putchar_spec [OF inv, of c]) simp
    then show ?thesis using same_putchar [OF True inv] by (auto simp: map_option_case split: option.splits)
  next
    case False
    then have "cursor_x s = 0" using inv by (auto simp: vga_inv_def)
    then show ?thesis using False inv
      by (auto simp: VGA_putchar_def VGA_backspace_def Let_def store_cell_def WIDTH_def vga_inv_def VGA_updateCursor_def
          outb_def rest_of_def)
  qed
qed

text \<open>C34: Called with the cursor on the screen, \<open>putchar\<close> of the screen class returns for every character, without an
  access outside the video memory, keeps the cursor on the screen and leaves keyboard and buffers alone. Its result is
  that of the console driver of the other kernel, scrolling loops included, except for a backspace at the start of a
  line, which here steps back to the line above.\<close>

theorem VGA_putchar_refines:
  assumes "vga_inv (screen_of s)"
  shows "\<exists>t. VGA_putchar c s = Some t \<and> vga_inv (screen_of t) \<and> rest_of t = rest_of s \<and>
    (c \<noteq> CHR 0x08 \<or> 0 < cursor_x s \<longrightarrow> vga_putchar c (screen_of s) = Some (screen_of t))"
proof -
  obtain t where t: "VGA_putchar c s = Some t" "vga_inv (screen_of t)" "rest_of t = rest_of s"
    using prints_putchar [of c] assms unfolding prints_def by blast
  then show ?thesis using same_putchar [of c s] assms by auto
qed

theorem VGA_putchar_refines_witness:
  "\<exists>t. VGA_putchar CHR ''A'' blank_opus = Some t \<and> vga_putchar CHR ''A'' (screen_of blank_opus) = Some (screen_of t)"
  using VGA_putchar_refines [OF blank_opus_inv, of "CHR ''A''"] by auto

lemma prints_bind: "prints p \<Longrightarrow> (\<And>x. prints q) \<Longrightarrow> prints (\<lambda>s. p s \<bind> q)"
  unfolding prints_def by (metis bind.bind_lunit)

lemma prints_Some: "prints Some"
  by (simp add: prints_def)

lemma prints_puts: "nul \<in> set str \<Longrightarrow> prints (VGA_puts str)"
proof (induction str)
  case (Cons c str)
  then show ?case using prints_bind [OF prints_putchar] by (cases "c = nul") (simp_all add: prints_def)
qed simp

lemma prints_setColor: "prints (\<lambda>s. Some (VGA_setColor fg bg s))"
  by (simp add: prints_def VGA_setColor_def screen_of_updates vga_inv_def rest_of_def)

lemma prints_setCursor:
  "0 \<le> x \<Longrightarrow> x < 80 \<Longrightarrow> 0 \<le> y \<Longrightarrow> y < 25 \<Longrightarrow> prints (\<lambda>s. Some (VGA_setCursor x y s))"
  by (simp add: prints_def VGA_setCursor_def vga_inv_def VGA_updateCursor_def rest_of_def Let_def outb_def)

lemma prints_clear: "prints VGA_clear"
  unfolding prints_def
proof (intro allI impI)
  fix s assume inv: "vga_inv (screen_of s)"
  then have len: "length (vga_buffer (screen_of s)) = 2000" by (simp add: vga_inv_def)
  have more: "vga.more w = vga.more r" if "vga_clear r = Some w" "length (vga_buffer r) = 2000" for r w
    using that fill_cells [of r 0 2000] by (auto simp: vga_clear_def VGA_WIDTH_def VGA_HEIGHT_def)
  obtain w where w: "vga_clear (screen_of s) = Some w" "vga_inv w" "device w = device s" "clock w = clock s"
    using vga_clear_spec [OF len] by auto
  then show "\<exists>t. VGA_clear s = Some t \<and> vga_inv (screen_of t) \<and> rest_of t = rest_of s \<and> device t = device s \<and> clock t = clock s"
    using VGA_clear_view [of s] more [OF w(1) len] by (auto simp: map_option_case split: option.splits)
qed

text \<open>A block of output as the list of its steps.\<close>

fun steps :: "(opus \<Rightarrow> opus option) list \<Rightarrow> opus \<Rightarrow> opus option" where
  "steps [] s = Some s"
| "steps (p # ps) s = p s \<bind> steps ps"

lemma prints_steps: "list_all prints ps \<Longrightarrow> prints (steps ps)"
proof (induction ps)
  case (Cons p ps)
  then show ?case using prints_bind by simp
qed (simp add: prints_def)

lemmas prints_intros = prints_putchar prints_puts prints_setColor prints_setCursor prints_clear prints_Some

lemma printsD:
  assumes "prints p" "vga_inv (screen_of s)"
  obtains t where "p s = Some t" "vga_inv (screen_of t)" "rest_of t = rest_of s" "device t = device s" "clock t = clock s"
  using assms unfolding prints_def by blast

end
