(* ===== verification/Opus_Shell.thy ===== *)
theory Opus_Shell
  imports Opus_Drivers
begin

text \<open>
  The command shell of \<open>OPUS4.5/shell/shell.cpp\<close> and the start of \<open>OPUS4.5/kernel/kernel.cpp\<close>. Commands are functions on
  the state that may fail; \<open>None\<close> is an access outside an array, an overflow, or waiting for a key for ever. The uninitialised
  arrays of the functions are the arguments \<open>local\<close> (64 characters) and \<open>buf\<close> (16).
\<close>

section \<open>Output\<close>

definition lf :: string where "lf = [CHR 0x0A]"
definition bslash :: string where "bslash = [CHR 0x5C]"

text \<open>A string literal with its terminator.\<close>

definition c_str :: "string \<Rightarrow> string" where "c_str str = str @ [nul]"

definition say :: "string \<Rightarrow> opus \<Rightarrow> opus option" where
  "say str = VGA_puts (c_str str)"

definition color :: "u8 \<Rightarrow> u8 \<Rightarrow> opus \<Rightarrow> opus option" where
  "color fg bg s = Some (VGA_setColor fg bg s)"

definition at_xy :: "int \<Rightarrow> int \<Rightarrow> opus \<Rightarrow> opus option" where
  "at_xy x y s = Some (VGA_setCursor x y s)"

section \<open>The simulated files\<close>

record file_entry =
  fe_name :: string
  fe_content :: "string option"
  fe_is_dir :: bool

definition root_files :: "file_entry list" where
  "root_files =
    [\<lparr>fe_name = c_str ''OS2'', fe_content = None, fe_is_dir = True\<rparr>,
     \<lparr>fe_name = c_str ''DOCS'', fe_content = None, fe_is_dir = True\<rparr>,
     \<lparr>fe_name = c_str ''CONFIG.SYS'', fe_content = Some (c_str (''PROTSHELL=C:'' @ bslash @ ''OS2'' @ bslash @ ''CMD.EXE'' @ lf @ ''SET PATH=C:'' @ bslash @ ''OS2;C:'' @ bslash @ ''OS2'' @ bslash @ ''SYSTEM'' @ lf @ ''SET DPATH=C:'' @ bslash @ ''OS2;C:'' @ bslash @ ''OS2'' @ bslash @ ''SYSTEM'' @ lf @ ''SET LIBPATH=.;C:'' @ bslash @ ''OS2'' @ bslash @ ''DLL'' @ lf)), fe_is_dir = False\<rparr>,
     \<lparr>fe_name = c_str ''AUTOEXEC.BAT'', fe_content = Some (c_str (''@ECHO OFF'' @ lf @ ''ECHO Welcome to OS/2 Clone!'' @ lf @ ''SET PROMPT=$P$G'' @ lf)), fe_is_dir = False\<rparr>,
     \<lparr>fe_name = c_str ''README.TXT'', fe_content = Some (c_str (''OS/2 Clone Operating System'' @ lf @ ''==========================='' @ lf @ lf @ ''This is a minimal OS/2-style operating system clone.'' @ lf @ ''Built for educational purposes.'' @ lf @ lf @ ''Type HELP for a list of commands.'' @ lf)), fe_is_dir = False\<rparr>]"

section \<open>Reading and taking apart a line\<close>

definition MAX_CMD_LENGTH :: nat where "MAX_CMD_LENGTH = 256"
definition MAX_ARGS :: nat where "MAX_ARGS = 16"

definition store_char :: "nat \<Rightarrow> char \<Rightarrow> string \<Rightarrow> string option" where
  "store_char i c str = (if i < length str then Some (str[i := c]) else None)"

definition Shell_init :: "opus \<Rightarrow> opus option" where
  "Shell_init s = do {
     b \<leftarrow> fill_nul (cmd_buffer s) MAX_CMD_LENGTH;
     d \<leftarrow> strcpy (current_dir s) (c_str (''C:'' @ bslash));
     Some (s\<lparr>cmd_pos := 0, cmd_buffer := b, current_dir := d\<rparr>)
   }"

definition Shell_printPrompt :: "opus \<Rightarrow> opus option" where
  "Shell_printPrompt = steps
    [color VGA_LIGHT_CYAN VGA_BLACK,
     say ''['',
     color VGA_WHITE VGA_BLACK,
     (\<lambda>s. VGA_puts (current_dir s) s),
     color VGA_LIGHT_CYAN VGA_BLACK,
     say '']'',
     color VGA_YELLOW VGA_BLACK,
     say ''$ '',
     color VGA_LIGHT_GREY VGA_BLACK]"

text \<open>One key typed: \<open>None\<close> in the first component to go on, or the line is complete.\<close>

definition line_key :: "char \<Rightarrow> opus \<Rightarrow> (bool \<times> opus) option" where
  "line_key c s =
     (if c = CHR 0x0A then do { t \<leftarrow> VGA_putchar (CHR 0x0A) s; Some (True, t) }
      else if c = CHR 0x08
      then (if cmd_pos s > 0
            then do {
              let s1 = s\<lparr>cmd_pos := cmd_pos s - 1\<rparr>;
              b \<leftarrow> store_char (nat (cmd_pos s1)) nul (cmd_buffer s1);
              t \<leftarrow> VGA_putchar (CHR 0x08) (s1\<lparr>cmd_buffer := b\<rparr>);
              Some (False, t)
            }
            else Some (False, s))
      else if CHR '' '' \<le> c \<and> c < CHR 0x7F \<and> cmd_pos s < int MAX_CMD_LENGTH - 1
      then do {
        b \<leftarrow> store_char (nat (cmd_pos s)) c (cmd_buffer s);
        t \<leftarrow> VGA_putchar c (s\<lparr>cmd_buffer := b, cmd_pos := cmd_pos s + 1\<rparr>);
        Some (False, t)
      }
      else Some (False, s))"

partial_function (option) read_loop :: "opus \<Rightarrow> opus option" where
  "read_loop s = do {
     (c, s1) \<leftarrow> Keyboard_getchar s;
     (finished, s2) \<leftarrow> line_key c s1;
     (if finished then Some s2 else read_loop s2)
   }"

definition Shell_readLine :: "opus \<Rightarrow> opus option" where
  "Shell_readLine s = do {
     b \<leftarrow> fill_nul (cmd_buffer s) MAX_CMD_LENGTH;
     read_loop (s\<lparr>cmd_pos := 0, cmd_buffer := b\<rparr>)
   }"

text \<open>The loop of \<open>parseCommand\<close> at index \<open>token\<close>, with the arguments found so far and the buffer.\<close>

function parse_loop :: "nat \<Rightarrow> bool \<Rightarrow> nat list \<Rightarrow> string \<Rightarrow> (nat list \<times> string) option" where
  "parse_loop token in_token args b =
     (if token \<ge> length b then None
      else if \<not> (b ! token \<noteq> nul \<and> length args < MAX_ARGS) then Some (args, b)
      else if b ! token = CHR '' '' \<or> b ! token = CHR 0x09
      then (if in_token then parse_loop (token + 1) False args (b[token := nul])
            else parse_loop (token + 1) in_token args b)
      else (if \<not> in_token then parse_loop (token + 1) True (args @ [token]) b
            else parse_loop (token + 1) in_token args b))"
  by pat_completeness auto
termination by (relation "measure (\<lambda>(token, _, _, b). length b - token)") auto

declare parse_loop.simps [simp del]

text \<open>The arguments as pointers into the buffer.\<close>

definition Shell_parseCommand :: "opus \<Rightarrow> (string list \<times> opus) option" where
  "Shell_parseCommand s = do {
     (args, b) \<leftarrow> parse_loop 0 False [] (cmd_buffer s);
     Some (map (\<lambda>i. drop i b) args, s\<lparr>cmd_buffer := b\<rparr>)
   }"

fun Shell_to_upper :: "string \<Rightarrow> string option" where
  "Shell_to_upper [] = None"
| "Shell_to_upper (c # str) =
     (if c \<noteq> nul
      then map_option ((#) (if CHR ''a'' \<le> c \<and> c \<le> CHR ''z'' then char_of ((of_char c :: nat) - 32) else c)) (Shell_to_upper str)
      else Some (c # str))"

text \<open>The copy in capitals that four functions make in a local array.\<close>

definition upper_copy :: "string \<Rightarrow> string \<Rightarrow> string option" where
  "upper_copy local src = do {
     a \<leftarrow> strncpy local src 63;
     b \<leftarrow> store_char 63 nul a;
     Shell_to_upper b
   }"

definition matches :: "string \<Rightarrow> string \<Rightarrow> bool option" where
  "matches str1 str2 = map_option (\<lambda>r. r = 0) (strcmp str1 str2)"

section \<open>Commands\<close>

definition Shell_cmd_help :: "opus \<Rightarrow> opus option" where
  "Shell_cmd_help = steps
    [color VGA_LIGHT_GREEN VGA_BLACK,
     say (lf @ '' OS/2 Clone Command Reference'' @ lf),
     say ('' ============================'' @ lf @ lf),
     color VGA_WHITE VGA_BLACK,
     say ('' CLS      - Clear the screen'' @ lf),
     say ('' VER      - Display version information'' @ lf),
     say ('' HELP     - Display this help message'' @ lf),
     say ('' ECHO     - Display a message'' @ lf),
     say ('' DIR      - List directory contents'' @ lf),
     say ('' TYPE     - Display contents of a file'' @ lf),
     say ('' CD       - Change directory'' @ lf),
     say ('' DATE     - Display current date'' @ lf),
     say ('' TIME     - Display current time'' @ lf),
     say ('' MEM      - Display memory information'' @ lf),
     say ('' COPY     - Copy files (simulated)'' @ lf),
     say ('' DEL      - Delete files (simulated)'' @ lf),
     say ('' MD       - Make directory (simulated)'' @ lf),
     say ('' RD       - Remove directory (simulated)'' @ lf),
     say ('' SET      - Display environment variables'' @ lf),
     say ('' COLOR    - Change text color'' @ lf),
     say ('' SYSINFO  - Display system information'' @ lf),
     say ('' EXIT     - Halt the system'' @ lf @ lf),
     color VGA_LIGHT_GREY VGA_BLACK]"

definition Shell_cmd_cls :: "opus \<Rightarrow> opus option" where
  "Shell_cmd_cls = VGA_clear"

definition Shell_cmd_ver :: "opus \<Rightarrow> opus option" where
  "Shell_cmd_ver = steps
    [color VGA_LIGHT_CYAN VGA_BLACK,
     say (lf),
     say (''  ___  ____   ______   ____ _                 '' @ lf),
     say ('' / _ '' @ bslash @ ''/ ___| / /___ '' @ bslash @ '' / ___| | ___  _ __   ___ '' @ lf),
     say (''| | | '' @ bslash @ ''___ '' @ bslash @ ''/ /  __) | |   | |/ _ '' @ bslash @ ''| '_ '' @ bslash @ '' / _ '' @ bslash @ lf),
     say (''| |_| |___) / /  / __/| |___| | (_) | | | |  __/'' @ lf),
     say ('' '' @ bslash @ ''___/|____/_/  |_____|'' @ bslash @ ''____|_|'' @ bslash @ ''___/|_| |_|'' @ bslash @ ''___|'' @ lf),
     say (lf),
     color VGA_WHITE VGA_BLACK,
     say ('' OS/2 Clone Operating System [Version 1.0.0]'' @ lf),
     say ('' (c) 2024 Educational Purposes Only'' @ lf),
     say ('' Based on IBM OS/2 Command Interface'' @ lf @ lf),
     color VGA_LIGHT_GREY VGA_BLACK]"

fun echo_loop :: "string list \<Rightarrow> opus \<Rightarrow> opus option" where
  "echo_loop [] s = Some s"
| "echo_loop (a # as) s = do {
     t \<leftarrow> VGA_puts a s;
     u \<leftarrow> (if as \<noteq> [] then VGA_putchar (CHR '' '') t else Some t);
     echo_loop as u }"

definition Shell_cmd_echo :: "string list \<Rightarrow> opus \<Rightarrow> opus option" where
  "Shell_cmd_echo args s = do { t \<leftarrow> echo_loop (drop 1 args) s; VGA_putchar (CHR 0x0A) t }"

fun dir_loop :: "file_entry list \<Rightarrow> int \<Rightarrow> int \<Rightarrow> opus \<Rightarrow> (int \<times> int \<times> opus) option" where
  "dir_loop [] file_count dir_count s = Some (file_count, dir_count, s)"
| "dir_loop (f # fs) file_count dir_count s = do {
     t \<leftarrow> steps [say '' '',
            color (if fe_is_dir f then VGA_LIGHT_BLUE else VGA_LIGHT_GREY) VGA_BLACK,
            say (if fe_is_dir f then ''<DIR>     '' else ''          ''),
            color VGA_WHITE VGA_BLACK,
            VGA_puts (fe_name f),
            say lf] s;
     dir_loop fs (if fe_is_dir f then file_count else file_count + 1) (if fe_is_dir f then dir_count + 1 else dir_count) t }"

definition Shell_cmd_dir :: "string \<Rightarrow> opus \<Rightarrow> opus option" where
  "Shell_cmd_dir buf s = do {
     s1 \<leftarrow> steps
       [color VGA_WHITE VGA_BLACK,
        say (lf @ '' Volume in drive C has no label'' @ lf),
        say '' Directory of '',
        (\<lambda>s. VGA_puts (current_dir s) s),
        say (lf @ lf)] s;
     (file_count, dir_count, s2) \<leftarrow> dir_loop root_files 0 0 s1;
     s3 \<leftarrow> color VGA_LIGHT_GREY VGA_BLACK s2;
     buf1 \<leftarrow> itoa_opus file_count buf 10;
     s4 \<leftarrow> steps [say (lf @ ''        ''), VGA_puts buf1, say ('' file(s)'' @ lf)] s3;
     buf2 \<leftarrow> itoa_opus dir_count buf1 10;
     steps [say ''        '', VGA_puts buf2, say ('' dir(s)'' @ lf @ lf)] s4
   }"

text \<open>The first entry that is a candidate and whose name in capitals is \<open>filename\<close>.\<close>

fun find_entry :: "(file_entry \<Rightarrow> bool) \<Rightarrow> string \<Rightarrow> string \<Rightarrow> file_entry list \<Rightarrow> file_entry option option" where
  "find_entry cand local filename [] = Some None"
| "find_entry cand local filename (f # fs) = do {
     name_upper \<leftarrow> upper_copy local (fe_name f);
     same \<leftarrow> (if cand f then matches filename name_upper else Some False);
     (if same then Some (Some f) else find_entry cand local filename fs) }"

definition complain :: "string \<Rightarrow> string \<Rightarrow> opus \<Rightarrow> opus option" where
  "complain msg arg = steps
    [color VGA_LIGHT_RED VGA_BLACK, say msg, VGA_puts arg, say lf, color VGA_LIGHT_GREY VGA_BLACK]"

definition Shell_cmd_type :: "string \<Rightarrow> string list \<Rightarrow> opus \<Rightarrow> opus option" where
  "Shell_cmd_type local args s =
     (if length args < 2 then say (''Usage: TYPE <filename>'' @ lf) s
      else do {
        filename \<leftarrow> upper_copy local (args ! 1);
        found \<leftarrow> find_entry (\<lambda>_. True) local filename root_files;
        (case found of
           Some f \<Rightarrow>
             if fe_is_dir f
             then steps [say ''Access denied - '', VGA_puts (args ! 1), say ('' is a directory'' @ lf)] s
             else (case fe_content f of Some content \<Rightarrow> VGA_puts content s | None \<Rightarrow> Some s)
         | None \<Rightarrow> complain ''File not found: '' (args ! 1) s)
      })"

definition set_dir :: "string \<Rightarrow> opus \<Rightarrow> opus option" where
  "set_dir str s = do { d \<leftarrow> strcpy (current_dir s) str; Some (s\<lparr>current_dir := d\<rparr>) }"

definition add_dir :: "string \<Rightarrow> opus \<Rightarrow> opus option" where
  "add_dir str s = do { d \<leftarrow> strcat (current_dir s) str; Some (s\<lparr>current_dir := d\<rparr>) }"

definition Shell_cmd_cd :: "string \<Rightarrow> string list \<Rightarrow> opus \<Rightarrow> opus option" where
  "Shell_cmd_cd local args s =
     (if length args < 2 then steps [(\<lambda>s. VGA_puts (current_dir s) s), say lf] s
      else do {
        up \<leftarrow> matches (args ! 1) (c_str ''..'');
        (if up then set_dir (c_str (''C:'' @ bslash)) s
         else do {
           root1 \<leftarrow> matches (args ! 1) (c_str bslash);
           root2 \<leftarrow> (if root1 then Some True else matches (args ! 1) (c_str ''/''));
           (if root2 then set_dir (c_str (''C:'' @ bslash)) s
            else do {
              dirname \<leftarrow> upper_copy local (args ! 1);
              found \<leftarrow> find_entry fe_is_dir local dirname root_files;
              (case found of
                 Some f \<Rightarrow> steps [set_dir (c_str (''C:'' @ bslash)), add_dir (fe_name f), add_dir (c_str bslash)] s
               | None \<Rightarrow> complain ''Directory not found: '' (args ! 1) s)
            })
         })
      })"

definition Shell_cmd_date :: "opus \<Rightarrow> opus option" where
  "Shell_cmd_date = steps
    [say (''Current date: Mon 01-01-2024'' @ lf),
     say (''(Date cannot be changed in this environment)'' @ lf)]"

definition Shell_cmd_time :: "opus \<Rightarrow> opus option" where
  "Shell_cmd_time = steps
    [say (''Current time: 12:00:00.00'' @ lf),
     say (''(Time cannot be changed in this environment)'' @ lf)]"

definition Shell_cmd_mem :: "opus \<Rightarrow> opus option" where
  "Shell_cmd_mem = steps
    [color VGA_WHITE VGA_BLACK,
     say (lf @ '' Memory Information'' @ lf),
     say ('' =================='' @ lf @ lf),
     color VGA_LIGHT_GREY VGA_BLACK,
     say ('' Extended Memory:     16384 KB'' @ lf),
     say ('' Conventional Memory:   640 KB'' @ lf),
     say ('' Total System Memory: 17024 KB'' @ lf),
     say (lf @ '' Kernel Memory Usage:   128 KB'' @ lf),
     say ('' Available Memory:    16896 KB'' @ lf @ lf)]"

definition Shell_cmd_copy :: "string list \<Rightarrow> opus \<Rightarrow> opus option" where
  "Shell_cmd_copy args =
     (if length args < 3 then say (''Usage: COPY <source> <destination>'' @ lf)
      else say (''        1 file(s) copied. (simulated)'' @ lf))"

definition Shell_cmd_del :: "string list \<Rightarrow> opus \<Rightarrow> opus option" where
  "Shell_cmd_del args =
     (if length args < 2 then say (''Usage: DEL <filename>'' @ lf) else say (''File deleted. (simulated)'' @ lf))"

definition Shell_cmd_md :: "string list \<Rightarrow> opus \<Rightarrow> opus option" where
  "Shell_cmd_md args =
     (if length args < 2 then say (''Usage: MD <directory>'' @ lf) else say (''Directory created. (simulated)'' @ lf))"

definition Shell_cmd_rd :: "string list \<Rightarrow> opus \<Rightarrow> opus option" where
  "Shell_cmd_rd args =
     (if length args < 2 then say (''Usage: RD <directory>'' @ lf) else say (''Directory removed. (simulated)'' @ lf))"

definition Shell_cmd_set :: "opus \<Rightarrow> opus option" where
  "Shell_cmd_set = steps
    [say (lf @ '' Environment Variables:'' @ lf),
     say ('' ======================'' @ lf @ lf),
     say ('' PATH=C:'' @ bslash @ ''OS2;C:'' @ bslash @ ''OS2'' @ bslash @ ''SYSTEM'' @ lf),
     say ('' DPATH=C:'' @ bslash @ ''OS2;C:'' @ bslash @ ''OS2'' @ bslash @ ''SYSTEM'' @ lf),
     say ('' LIBPATH=.;C:'' @ bslash @ ''OS2'' @ bslash @ ''DLL'' @ lf),
     say ('' PROMPT=$P$G'' @ lf),
     say ('' COMSPEC=C:'' @ bslash @ ''OS2'' @ bslash @ ''CMD.EXE'' @ lf),
     say ('' OS=OS2_CLONE'' @ lf),
     say ('' PROCESSOR=386'' @ lf @ lf)]"

text \<open>After \<open>cmd_exit\<close> the processor is halted with interrupts off.\<close>

definition Shell_cmd_exit :: "opus \<Rightarrow> opus option" where
  "Shell_cmd_exit = steps
    [color VGA_YELLOW VGA_BLACK,
     say (lf @ '' System halted. You may now turn off your computer.'' @ lf),
     say ('' (Or close the QEMU window)'' @ lf),
     color VGA_LIGHT_GREY VGA_BLACK]"

definition color_of :: "char \<Rightarrow> int" where
  "color_of c =
     (if CHR ''0'' \<le> c \<and> c \<le> CHR ''9'' then of_char c - 48
      else if CHR ''A'' \<le> c \<and> c \<le> CHR ''F'' then of_char c - 65 + 10
      else if CHR ''a'' \<le> c \<and> c \<le> CHR ''f'' then of_char c - 97 + 10
      else 7)"

definition Shell_cmd_color :: "string list \<Rightarrow> opus \<Rightarrow> opus option" where
  "Shell_cmd_color args s =
     (if length args < 2 then steps
    [say (''Usage: COLOR <0-F>'' @ lf),
     say (''  0=Black, 1=Blue, 2=Green, 3=Cyan'' @ lf),
     say (''  4=Red, 5=Magenta, 6=Brown, 7=LightGrey'' @ lf),
     say (''  8=DarkGrey, 9=LightBlue, A=LightGreen'' @ lf),
     say (''  B=LightCyan, C=LightRed, D=LightMagenta'' @ lf),
     say (''  E=Yellow, F=White'' @ lf)] s
      else (case args ! 1 of [] \<Rightarrow> None | c # _ \<Rightarrow> color (of_int (color_of c)) VGA_BLACK s))"

definition Shell_cmd_sysinfo :: "opus \<Rightarrow> opus option" where
  "Shell_cmd_sysinfo = steps
    [color VGA_LIGHT_GREEN VGA_BLACK,
     say (lf @ '' System Information'' @ lf),
     say ('' =================='' @ lf @ lf),
     color VGA_WHITE VGA_BLACK,
     say ('' OS Name:           OS/2 Clone'' @ lf),
     say ('' Version:           1.0.0'' @ lf),
     say ('' Architecture:      i386 (32-bit Protected Mode)'' @ lf),
     say ('' Processor:         Intel 386 compatible'' @ lf),
     say ('' Video Mode:        VGA 80x25 Text Mode'' @ lf),
     say ('' Kernel Type:       Monolithic'' @ lf),
     say ('' Boot Method:       BIOS -> Bootloader -> Kernel'' @ lf),
     say ('' Shell:             CMD.EXE Clone'' @ lf @ lf),
     color VGA_LIGHT_GREY VGA_BLACK]"

section \<open>The shell\<close>

datatype turn = Goes_on | Halted

definition goes :: "(opus \<Rightarrow> opus option) \<Rightarrow> opus \<Rightarrow> (turn \<times> opus) option" where
  "goes p s = map_option (Pair Goes_on) (p s)"

text \<open>The chain of comparisons: the first entry with a matching name, or the last \<open>else\<close>.\<close>

fun is_one_of :: "string \<Rightarrow> string list \<Rightarrow> bool option" where
  "is_one_of cmd [] = Some False"
| "is_one_of cmd (n # ns) = do { same \<leftarrow> matches cmd (c_str n); (if same then Some True else is_one_of cmd ns) }"

fun select :: "string \<Rightarrow> (string list \<times> 'a) list \<Rightarrow> 'a \<Rightarrow> 'a option" where
  "select cmd [] otherwise = Some otherwise"
| "select cmd ((ns, c) # cs) otherwise = do { same \<leftarrow> is_one_of cmd ns; (if same then Some c else select cmd cs otherwise) }"

definition commands :: "string \<Rightarrow> string \<Rightarrow> string list \<Rightarrow> (string list \<times> (opus \<Rightarrow> (turn \<times> opus) option)) list" where
  "commands local buf args =
    [([''HELP'', ''?''], goes Shell_cmd_help),
     ([''CLS''], goes Shell_cmd_cls),
     ([''VER''], goes Shell_cmd_ver),
     ([''ECHO''], goes (Shell_cmd_echo args)),
     ([''DIR''], goes (Shell_cmd_dir buf)),
     ([''TYPE''], goes (Shell_cmd_type local args)),
     ([''CD''], goes (Shell_cmd_cd local args)),
     ([''DATE''], goes Shell_cmd_date),
     ([''TIME''], goes Shell_cmd_time),
     ([''MEM''], goes Shell_cmd_mem),
     ([''COPY''], goes (Shell_cmd_copy args)),
     ([''DEL'', ''ERASE''], goes (Shell_cmd_del args)),
     ([''MD'', ''MKDIR''], goes (Shell_cmd_md args)),
     ([''RD'', ''RMDIR''], goes (Shell_cmd_rd args)),
     ([''SET''], goes Shell_cmd_set),
     ([''EXIT''], (\<lambda>s. map_option (Pair Halted) (Shell_cmd_exit s))),
     ([''COLOR''], goes (Shell_cmd_color args)),
     ([''SYSINFO''], goes Shell_cmd_sysinfo)]"

definition Shell_executeCommand :: "string \<Rightarrow> string \<Rightarrow> opus \<Rightarrow> (turn \<times> opus) option" where
  "Shell_executeCommand local buf s =
     (case cmd_buffer s of
        [] \<Rightarrow> None
      | c # _ \<Rightarrow>
          if c = nul then Some (Goes_on, s)
          else do {
            (args, t) \<leftarrow> Shell_parseCommand s;
            (if args = [] then Some (Goes_on, t)
             else do {
               cmd_upper \<leftarrow> upper_copy local (args ! 0);
               cmd \<leftarrow> select cmd_upper (commands local buf args) (goes (complain ''Bad command or file name: '' (args ! 0)));
               cmd t
             })
          })"

partial_function (option) Shell_run :: "string \<Rightarrow> string \<Rightarrow> opus \<Rightarrow> opus option" where
  "Shell_run local buf s = do {
     s1 \<leftarrow> Shell_printPrompt s;
     s2 \<leftarrow> Shell_readLine s1;
     (e, s3) \<leftarrow> Shell_executeCommand local buf s2;
     (case e of Goes_on \<Rightarrow> Shell_run local buf s3 | Halted \<Rightarrow> Some s3)
   }"

section \<open>Start\<close>

definition border :: "opus \<Rightarrow> opus option" where
  "border = for_int 0 80 (\<lambda>i. VGA_putchar (CHR 0xCD))"

definition draw_boot_screen :: "opus \<Rightarrow> opus option" where
  "draw_boot_screen s = do {
     t \<leftarrow> steps
    [color VGA_LIGHT_CYAN VGA_BLUE,
     VGA_clear,
     at_xy 0 0,
     border,
     at_xy 20 2,
     color VGA_WHITE VGA_BLUE,
     say (''OS/2 Clone Operating System''),
     at_xy 25 3,
     color VGA_LIGHT_CYAN VGA_BLUE,
     say (''Version 1.0.0''),
     at_xy 5 6,
     color VGA_YELLOW VGA_BLUE,
     say (''System Initialization''),
     color VGA_WHITE VGA_BLUE,
     at_xy 5 8,
     say (''[*] Protected Mode................ OK''),
     at_xy 5 9,
     say (''[*] VGA Text Driver............... OK''),
     at_xy 5 10,
     say (''[*] Keyboard Driver............... OK''),
     at_xy 5 11,
     say (''[*] Memory Manager................ OK''),
     at_xy 5 12,
     say (''[*] Command Shell................. OK''),
     at_xy 5 14,
     color VGA_LIGHT_GREEN VGA_BLUE,
     say (''System initialization complete!''),
     at_xy 5 16,
     color VGA_LIGHT_CYAN VGA_BLUE,
     say (''Press any key to continue...''),
     at_xy 0 24,
     color VGA_LIGHT_CYAN VGA_BLUE,
     border] s;
     (c, u) \<leftarrow> Keyboard_getchar t;
     Some u
   }"

definition print_welcome :: "opus \<Rightarrow> opus option" where
  "print_welcome = steps
    [color VGA_LIGHT_CYAN VGA_BLACK,
     say (lf),
     say (''  ___  ____   ______   ____ _                 '' @ lf),
     say ('' / _ '' @ bslash @ ''/ ___| / /___ '' @ bslash @ '' / ___| | ___  _ __   ___ '' @ lf),
     say (''| | | '' @ bslash @ ''___ '' @ bslash @ ''/ /  __) | |   | |/ _ '' @ bslash @ ''| '_ '' @ bslash @ '' / _ '' @ bslash @ lf),
     say (''| |_| |___) / /  / __/| |___| | (_) | | | |  __/'' @ lf),
     say ('' '' @ bslash @ ''___/|____/_/  |_____|'' @ bslash @ ''____|_|'' @ bslash @ ''___/|_| |_|'' @ bslash @ ''___|'' @ lf),
     say (lf),
     color VGA_WHITE VGA_BLACK,
     say ('' OS/2 Clone Operating System [Version 1.0.0]'' @ lf),
     say ('' (c) 2024 Educational Purposes Only'' @ lf @ lf),
     color VGA_LIGHT_GREEN VGA_BLACK,
     say ('' Type HELP for a list of available commands.'' @ lf @ lf),
     color VGA_LIGHT_GREY VGA_BLACK]"

definition kernel_main :: "string \<Rightarrow> string \<Rightarrow> opus \<Rightarrow> opus option" where
  "kernel_main local buf s0 = do {
     s1 \<leftarrow> VGA_init s0;
     s2 \<leftarrow> Keyboard_init s1;
     s3 \<leftarrow> draw_boot_screen s2;
     s4 \<leftarrow> VGA_clear (VGA_setColor VGA_LIGHT_GREY VGA_BLACK s3);
     s5 \<leftarrow> print_welcome s4;
     s6 \<leftarrow> Shell_init s5;
     Shell_run local buf s6
   }"

end
