(* ===== verification/Opus_Shell_Props.thy ===== *)
theory Opus_Shell_Props
  imports Opus_Shell
begin

text \<open>
  What the OPUS4.5 shell guarantees: every command line is taken apart as specified, and no command line makes a command
  leave its arrays, hang, or leave the three directories there are.
\<close>

section \<open>Taking a line apart\<close>

definition is_sep :: "char \<Rightarrow> bool" where
  "is_sep c \<longleftrightarrow> c = CHR '' '' \<or> c = CHR 0x09"

definition text_of :: "string \<Rightarrow> string" where
  "text_of str = takeWhile (\<lambda>c. c \<noteq> nul) str"

text \<open>At most \<open>n\<close> words of a line; the last one allowed is all that is left.\<close>

fun split_args :: "nat \<Rightarrow> string \<Rightarrow> string list" where
  "split_args 0 line = []"
| "split_args (Suc n) line =
     (let cs = dropWhile is_sep line
      in if cs = [] then []
         else if n = 0 then [cs]
         else takeWhile (\<lambda>c. \<not> is_sep c) cs # split_args n (dropWhile (\<lambda>c. \<not> is_sep c) cs))"

lemma split_args_sep: "is_sep c \<Longrightarrow> split_args n (c # cs) = split_args n cs"
  by (cases n) simp_all

lemma text_of_append: "nul \<notin> set cs \<Longrightarrow> text_of (cs @ nul # rest) = cs"
  unfolding text_of_def by (induction cs) auto

lemma parse_loop_split:
  assumes "nul \<notin> set cs" "length args \<le> 16"
  shows "\<exists>new cs'. parse_loop (length pre) it args (pre @ cs @ nul # rest) = Some (args @ new, pre @ cs' @ nul # rest) \<and>
    length cs' = length cs \<and> (\<forall>i\<in>set new. i < length pre + length cs) \<and>
    map (\<lambda>i. text_of (drop i (pre @ cs' @ nul # rest))) new =
      split_args (16 - length args) (if it then dropWhile (\<lambda>c. \<not> is_sep c) cs else cs) \<and>
    (it \<longrightarrow> text_of (cs' @ nul # rest) = (if length args = 16 then cs else takeWhile (\<lambda>c. \<not> is_sep c) cs))"
  using assms
proof (induction cs arbitrary: pre args it)
  case Nil
  have "split_args n [] = []" for n by (cases n) simp_all
  then show ?case
    by (subst parse_loop.simps) (auto simp: nth_append text_of_def intro!: exI [of _ "[]"])
next
  case (Cons c cs)
  let ?b = "pre @ (c # cs) @ nul # rest"
  have c: "c \<noteq> nul" "nul \<notin> set cs" using Cons.prems(1) by auto
  have at: "?b ! length pre = c" "length pre < length ?b" by (simp_all add: nth_append)
  show ?case
  proof (cases "length args = 16")
    case True
    have "parse_loop (length pre) it args ?b = Some (args @ [], pre @ (c # cs) @ nul # rest)"
      using at c True by (subst parse_loop.simps) (simp add: MAX_ARGS_def)
    moreover have "text_of ((c # cs) @ nul # rest) = c # cs"
      using Cons.prems(1) by (rule text_of_append)
    ultimately show ?thesis using True by (intro exI [of _ "[]"] exI [of _ "c # cs"]) simp
  next
    case False
    then have len: "length args < 16" using Cons.prems(2) by simp
    show ?thesis
    proof (cases "is_sep c")
      case sep: True
      let ?c = "if it then nul else c"
      have "parse_loop (length pre) it args ?b = parse_loop (length (pre @ [?c])) False args ((pre @ [?c]) @ cs @ nul # rest)"
        using at c len sep
        by (subst parse_loop.simps) (auto simp: MAX_ARGS_def is_sep_def list_update_append nth_append)
      moreover obtain new cs' where "parse_loop (length (pre @ [?c])) False args ((pre @ [?c]) @ cs @ nul # rest) =
            Some (args @ new, (pre @ [?c]) @ cs' @ nul # rest)" "length cs' = length cs"
          "\<forall>i\<in>set new. i < length (pre @ [?c]) + length cs"
          "map (\<lambda>i. text_of (drop i ((pre @ [?c]) @ cs' @ nul # rest))) new = split_args (16 - length args) cs"
        using Cons.IH [OF c(2) Cons.prems(2), of "pre @ [?c]" False] by auto
      moreover have "split_args (16 - length args) (if it then dropWhile (\<lambda>c. \<not> is_sep c) (c # cs) else c # cs) =
          split_args (16 - length args) cs" using sep by (simp add: split_args_sep)
      moreover have "it \<longrightarrow> text_of ((?c # cs') @ nul # rest) =
          (if length args = 16 then c # cs else takeWhile (\<lambda>c. \<not> is_sep c) (c # cs))"
        using sep len by (simp add: text_of_def)
      ultimately show ?thesis by (intro exI [of _ new] exI [of _ "?c # cs'"]) simp
    next
      case word: False
      let ?args = "if it then args else args @ [length pre]"
      have la: "length ?args \<le> 16" using len by simp
      have "parse_loop (length pre) it args ?b = parse_loop (length (pre @ [c])) True ?args ((pre @ [c]) @ cs @ nul # rest)"
        using at c len word by (subst parse_loop.simps) (auto simp: MAX_ARGS_def is_sep_def)
      moreover obtain new cs' where new: "parse_loop (length (pre @ [c])) True ?args ((pre @ [c]) @ cs @ nul # rest) =
            Some (?args @ new, (pre @ [c]) @ cs' @ nul # rest)" "length cs' = length cs"
          "\<forall>i\<in>set new. i < length (pre @ [c]) + length cs"
          "map (\<lambda>i. text_of (drop i ((pre @ [c]) @ cs' @ nul # rest))) new =
             split_args (16 - length ?args) (dropWhile (\<lambda>c. \<not> is_sep c) cs)"
          "text_of (cs' @ nul # rest) = (if length ?args = 16 then cs else takeWhile (\<lambda>c. \<not> is_sep c) cs)"
        using Cons.IH [OF c(2) la, of "pre @ [c]" True] by auto
      have own: "text_of ((c # cs') @ nul # rest) = c # (if length ?args = 16 then cs else takeWhile (\<lambda>c. \<not> is_sep c) cs)"
        using new(5) c by (simp add: text_of_def)
      show ?thesis
      proof (cases it)
        case True
        then show ?thesis using calculation new(1-4) own word len
          by (intro exI [of _ new] exI [of _ "c # cs'"]) simp
      next
        case no: False
        obtain n where n: "16 - length args = Suc n" "n = 16 - length ?args" using len no by (cases "16 - length args") auto
        have "n = 0 \<longleftrightarrow> length ?args = 16" using n(2) len no by auto
        then have "map (\<lambda>i. text_of (drop i (pre @ (c # cs') @ nul # rest))) (length pre # new) = split_args (Suc n) (c # cs)"
          using new(4) own word n(2) by (cases "n = 0") simp_all
        then show ?thesis using calculation new(1-3) no n(1)
          by (intro exI [of _ "length pre # new"] exI [of _ "c # cs'"]) simp
      qed
    qed
  qed
qed

text \<open>C35: \<open>parseCommand\<close> finds the words of the line between blanks and tabs, at most 16; the sixteenth is not cut off but
  is the whole rest of the line.\<close>

theorem parseCommand_splits:
  assumes "cmd_buffer s = line @ nul # rest" "nul \<notin> set line"
  shows "\<exists>args t. Shell_parseCommand s = Some (args, t) \<and> map text_of args = split_args 16 line"
proof -
  obtain new cs' where "parse_loop 0 False [] (line @ nul # rest) = Some (new, cs' @ nul # rest)"
      "map (\<lambda>i. text_of (drop i (cs' @ nul # rest))) new = split_args 16 line"
    using parse_loop_split [OF assms(2), of "[]" "[]" False rest] by auto
  then show ?thesis using assms(1) by (simp add: Shell_parseCommand_def comp_def)
qed

theorem parseCommand_splits_witness:
  "\<exists>args t. Shell_parseCommand (blank_opus\<lparr>cmd_buffer := ''copy  a b'' @ nul # replicate 3 nul\<rparr>) = Some (args, t) \<and>
     map text_of args = [''copy'', ''a'', ''b'']"
proof -
  have n: "nul \<notin> set ''copy  a b''" by (simp add: nul_def)
  have "split_args 16 ''copy  a b'' = [''copy'', ''a'', ''b'']" by (simp add: numeral_eq_Suc is_sep_def Let_def)
  then show ?thesis using parseCommand_splits [of "blank_opus\<lparr>cmd_buffer := ''copy  a b'' @ nul # replicate 3 nul\<rparr>", OF _ n] by simp
qed

section \<open>Strings stay strings\<close>

lemma strcpy_text:
  "nul \<notin> set str \<Longrightarrow> length str < length dest \<Longrightarrow>
   \<exists>r. strcpy dest (c_str str) = Some r \<and> length r = length dest \<and> text_of r = str"
proof (induction str arbitrary: dest)
  case Nil
  then show ?case by (cases dest) (simp_all add: c_str_def text_of_def)
next
  case (Cons c str)
  then obtain d ds where d: "dest = d # ds" by (cases dest) auto
  then obtain r where "strcpy ds (c_str str) = Some r" "length r = length ds" "text_of r = str"
    using Cons.IH [of ds] Cons.prems by auto
  then show ?case using Cons.prems d by (auto simp: c_str_def text_of_def)
qed

lemma strcat_text:
  "nul \<in> set dest \<Longrightarrow> nul \<notin> set str \<Longrightarrow> length (text_of dest) + length str < length dest \<Longrightarrow>
   \<exists>r. strcat dest (c_str str) = Some r \<and> length r = length dest \<and> text_of r = text_of dest @ str"
proof (induction dest)
  case (Cons d dest)
  show ?case
  proof (cases "d = nul")
    case True
    then show ?thesis using strcpy_text [OF Cons.prems(2), of "d # dest"] Cons.prems(3) by (simp add: text_of_def)
  next
    case False
    then obtain r where "strcat dest (c_str str) = Some r" "length r = length dest" "text_of r = text_of dest @ str"
      using Cons by (auto simp: text_of_def)
    then show ?thesis using False by (simp add: text_of_def)
  qed
qed simp

lemma strcmp_total: "nul \<in> set a \<Longrightarrow> nul \<in> set b \<Longrightarrow> \<exists>r. strcmp a b = Some r"
proof (induction a b rule: strcmp.induct)
  case (1 a s1 b s2)
  then show ?case by (cases "a \<noteq> nul \<and> a = b") auto
qed auto

lemma matches_total: "nul \<in> set a \<Longrightarrow> nul \<in> set b \<Longrightarrow> \<exists>r. matches a b = Some r"
  using strcmp_total by (fastforce simp: matches_def)

lemma strncpy_total: "nul \<in> set src \<Longrightarrow> n < length dest \<Longrightarrow> \<exists>r. strncpy dest src n = Some r \<and> length r = length dest"
proof (induction dest src n rule: strncpy.induct)
  case (2 d dest s src n)
  then show ?case
  proof (cases "s = nul")
    case True
    then show ?thesis using 2 by (auto simp: fill_nul_eq)
  next
    case False
    then show ?thesis using 2 by auto
  qed
qed auto

lemma to_upper_total: "nul \<in> set str \<Longrightarrow> \<exists>r. Shell_to_upper str = Some r \<and> nul \<in> set r"
proof (induction str)
  case (Cons c str)
  then show ?case by (cases "c = nul") auto
qed simp

lemma upper_copy_total:
  assumes "length local = 64" "nul \<in> set src"
  shows "\<exists>r. upper_copy local src = Some r \<and> nul \<in> set r"
proof -
  obtain a where a: "strncpy local src 63 = Some a" "length a = 64" using strncpy_total [OF assms(2), of 63 local] assms(1) by auto
  then have "nul \<in> set (a[63 := nul])" by (simp add: set_update_memI)
  then show ?thesis using to_upper_total a by (simp add: upper_copy_def store_char_def)
qed

lemma nul_c_str [simp]: "nul \<in> set (c_str str)"
  by (simp add: c_str_def)

lemma find_entry_total:
  assumes "length local = 64" "nul \<in> set filename" "\<forall>f\<in>set files. nul \<in> set (fe_name f)"
  shows "\<exists>r. find_entry cand local filename files = Some r \<and> (\<forall>f. r = Some f \<longrightarrow> f \<in> set files \<and> cand f)"
  using assms(3)
proof (induction files)
  case (Cons f files)
  obtain u where u: "upper_copy local (fe_name f) = Some u" "nul \<in> set u"
    using upper_copy_total [OF assms(1)] Cons.prems by auto
  obtain b where "matches filename u = Some b" using matches_total [OF assms(2) u(2)] by blast
  then show ?case using Cons u(1) by (cases "cand f"; cases b) auto
qed simp

lemma root_files_names: "f \<in> set root_files \<Longrightarrow> nul \<in> set (fe_name f)"
  "f \<in> set root_files \<Longrightarrow> fe_content f = Some text \<Longrightarrow> nul \<in> set text"
  by (auto simp: root_files_def)

section \<open>Safety\<close>

definition dirs :: "string set" where
  "dirs = {''C:'' @ bslash, ''C:'' @ bslash @ ''OS2'' @ bslash, ''C:'' @ bslash @ ''DOCS'' @ bslash}"

definition shell_inv :: "opus \<Rightarrow> bool" where
  "shell_inv s \<longleftrightarrow> vga_inv (screen_of s) \<and> length (cmd_buffer s) = 256 \<and> cmd_buffer s ! 255 = nul \<and>
     0 \<le> cmd_pos s \<and> cmd_pos s \<le> 255 \<and> length (current_dir s) = 64 \<and> text_of (current_dir s) \<in> dirs"

definition keeps :: "(opus \<Rightarrow> opus option) \<Rightarrow> bool" where
  "keeps p \<longleftrightarrow> (\<forall>s. shell_inv s \<longrightarrow> (\<exists>t. p s = Some t \<and> shell_inv t))"

lemma prints_keeps: "prints p \<Longrightarrow> keeps p"
  unfolding prints_def keeps_def shell_inv_def rest_of_def by fastforce

lemma keeps_steps: "list_all keeps ps \<Longrightarrow> keeps (steps ps)"
proof (induction ps)
  case (Cons p ps)
  then show ?case unfolding keeps_def by fastforce
qed (simp add: keeps_def)

lemma nul_in_text: "length (text_of d) < length d \<Longrightarrow> nul \<in> set d"
  unfolding text_of_def by (induction d) (auto split: if_splits)

lemma dirs_short: "d \<in> dirs \<Longrightarrow> length d \<le> 8 \<and> nul \<notin> set d"
  by (auto simp: dirs_def bslash_def nul_def)

lemma current_dir_nul: "shell_inv s \<Longrightarrow> nul \<in> set (current_dir s)"
  by (rule nul_in_text) (auto simp: shell_inv_def dest: dirs_short)

lemma keeps_say: "keeps (say str)"
  by (rule prints_keeps) (simp add: say_def prints_puts)

lemma keeps_puts: "nul \<in> set str \<Longrightarrow> keeps (VGA_puts str)"
  by (rule prints_keeps) (rule prints_puts)

lemma keeps_color: "keeps (color fg bg)"
  unfolding color_def [abs_def] by (rule prints_keeps) (rule prints_setColor)

lemma keeps_putchar: "keeps (VGA_putchar c)"
  by (rule prints_keeps) (rule prints_putchar)

lemma keeps_puts_dir: "keeps (\<lambda>s. VGA_puts (current_dir s) s)"
  using keeps_puts current_dir_nul unfolding keeps_def by blast

lemma keeps_Some: "keeps Some"
  by (simp add: keeps_def)

lemma keepsD: "keeps p \<Longrightarrow> shell_inv s \<Longrightarrow> \<exists>t. p s = Some t \<and> shell_inv t"
  by (simp add: keeps_def)

lemmas keeps_intros = keeps_say keeps_color keeps_putchar keeps_puts_dir keeps_Some

lemma keeps_complain: "nul \<in> set arg \<Longrightarrow> keeps (complain msg arg)"
  unfolding complain_def by (rule keeps_steps) (simp add: keeps_intros keeps_puts)

lemma keeps_texts:
  "keeps Shell_cmd_help" "keeps Shell_cmd_ver" "keeps Shell_cmd_date" "keeps Shell_cmd_time" "keeps Shell_cmd_mem"
  "keeps Shell_cmd_set" "keeps Shell_cmd_exit" "keeps Shell_cmd_sysinfo"
  unfolding Shell_cmd_help_def Shell_cmd_ver_def Shell_cmd_date_def Shell_cmd_time_def Shell_cmd_mem_def
    Shell_cmd_set_def Shell_cmd_exit_def Shell_cmd_sysinfo_def
  by (rule keeps_steps, simp add: keeps_intros)+

lemma keeps_cls: "keeps Shell_cmd_cls"
  unfolding Shell_cmd_cls_def by (rule prints_keeps) (rule prints_clear)

lemma keeps_counted:
  "keeps (Shell_cmd_copy args)" "keeps (Shell_cmd_del args)" "keeps (Shell_cmd_md args)" "keeps (Shell_cmd_rd args)"
  by (simp_all add: Shell_cmd_copy_def Shell_cmd_del_def Shell_cmd_md_def Shell_cmd_rd_def keeps_say)

lemma keeps_echo: "\<forall>a\<in>set args. nul \<in> set a \<Longrightarrow> keeps (Shell_cmd_echo args)"
proof -
  have "keeps (echo_loop as)" if "\<forall>a\<in>set as. nul \<in> set a" for as
    using that
  proof (induction as)
    case (Cons a as)
    then have "keeps (VGA_puts a)" "keeps (echo_loop as)" by (auto intro: keeps_puts)
    then show ?case using keeps_putchar [of "CHR '' ''"] unfolding keeps_def by fastforce
  qed (simp add: keeps_def)
  moreover assume "\<forall>a\<in>set args. nul \<in> set a"
  ultimately have "keeps (echo_loop (drop 1 args))" by (meson in_set_dropD)
  then show ?thesis using keeps_putchar [of "CHR 0x0A"] unfolding keeps_def Shell_cmd_echo_def by fastforce
qed

lemma dir_loop_keeps:
  assumes "\<forall>f\<in>set fs. nul \<in> set (fe_name f)" "shell_inv s"
  shows "\<exists>t. dir_loop fs m n s = Some (m + int (length (filter (\<lambda>f. \<not> fe_is_dir f) fs)), n + int (length (filter fe_is_dir fs)), t) \<and>
    shell_inv t"
  using assms
proof (induction fs arbitrary: m n s)
  case (Cons f fs)
  have "keeps (steps [say '' '', color (if fe_is_dir f then VGA_LIGHT_BLUE else VGA_LIGHT_GREY) VGA_BLACK,
      say (if fe_is_dir f then ''<DIR>     '' else ''          ''), color VGA_WHITE VGA_BLACK, VGA_puts (fe_name f), say lf])"
    by (rule keeps_steps) (simp add: keeps_intros keeps_puts Cons.prems(1))
  then obtain t where t: "steps [say '' '', color (if fe_is_dir f then VGA_LIGHT_BLUE else VGA_LIGHT_GREY) VGA_BLACK,
      say (if fe_is_dir f then ''<DIR>     '' else ''          ''), color VGA_WHITE VGA_BLACK, VGA_puts (fe_name f), say lf] s = Some t"
    "shell_inv t" using keepsD Cons.prems(2) by blast
  let ?m = "if fe_is_dir f then m else m + 1" and ?n = "if fe_is_dir f then n + 1 else n"
  obtain u where "dir_loop fs ?m ?n t = Some (?m + int (length (filter (\<lambda>f. \<not> fe_is_dir f) fs)),
      ?n + int (length (filter fe_is_dir fs)), u)" "shell_inv u"
    using Cons.IH [OF _ t(2), of ?m ?n] Cons.prems(1) by auto
  then show ?case using t(1) by (cases "fe_is_dir f") (simp_all del: steps.simps)
qed simp

lemma itoa_digit:
  assumes "2 \<le> length buf" "v < 10"
  obtains b where "itoa_opus (int v) buf 10 = Some b" "nul \<in> set b" "length b = length buf"
proof -
  have "digits_of v = [v]" using assms(2) by (simp add: digits_of.simps [of v])
  then show thesis using that itoa_opus_nonneg [of v buf] assms(1) by simp
qed

lemma keeps_dir:
  assumes "16 \<le> length buf"
  shows "keeps (Shell_cmd_dir buf)"
  unfolding keeps_def
proof (intro allI impI)
  fix s assume inv: "shell_inv s"
  have "keeps (steps [color VGA_WHITE VGA_BLACK, say (lf @ '' Volume in drive C has no label'' @ lf), say '' Directory of '',
      (\<lambda>s. VGA_puts (current_dir s) s), say (lf @ lf)])"
    by (rule keeps_steps) (simp add: keeps_intros)
  from keepsD [OF this inv] obtain s1 where s1: "steps [color VGA_WHITE VGA_BLACK, say (lf @ '' Volume in drive C has no label'' @ lf),
      say '' Directory of '', (\<lambda>s. VGA_puts (current_dir s) s), say (lf @ lf)] s = Some s1" "shell_inv s1"
    by blast
  obtain s2 where s2: "dir_loop root_files 0 0 s1 = Some (int 3, int 2, s2)" "shell_inv s2"
    using dir_loop_keeps [OF _ s1(2), of root_files 0 0] root_files_names(1) by (auto simp: root_files_def)
  obtain s3 where s3: "color VGA_LIGHT_GREY VGA_BLACK s2 = Some s3" "shell_inv s3" using keepsD [OF keeps_color s2(2)] by blast
  obtain b1 where b1: "itoa_opus (int 3) buf 10 = Some b1" "nul \<in> set b1" "length b1 = length buf"
    by (rule itoa_digit [of buf 3]) (use assms in auto)
  have "keeps (steps [say (lf @ ''        ''), VGA_puts b1, say ('' file(s)'' @ lf)])"
    by (rule keeps_steps) (simp add: keeps_intros keeps_puts b1(2))
  from keepsD [OF this s3(2)] obtain s4 where s4: "steps [say (lf @ ''        ''), VGA_puts b1, say ('' file(s)'' @ lf)] s3 = Some s4"
    "shell_inv s4" by blast
  obtain b2 where b2: "itoa_opus (int 2) b1 10 = Some b2" "nul \<in> set b2"
    by (rule itoa_digit [of b1 2]) (use assms b1(3) in auto)
  have "keeps (steps [say ''        '', VGA_puts b2, say ('' dir(s)'' @ lf @ lf)])"
    by (rule keeps_steps) (simp add: keeps_intros keeps_puts b2(2))
  from keepsD [OF this s4(2)] obtain t where "steps [say ''        '', VGA_puts b2, say ('' dir(s)'' @ lf @ lf)] s4 = Some t"
    "shell_inv t" by blast
  then have "Shell_cmd_dir buf s = Some t"
    using s1(1) s2(1) s3(1) s4(1) b1(1) b2(1) unfolding Shell_cmd_dir_def by (simp del: steps.simps)
  then show "\<exists>t. Shell_cmd_dir buf s = Some t \<and> shell_inv t" using \<open>shell_inv t\<close> by blast
qed

lemma keeps_type:
  assumes "length local = 64" "\<forall>a\<in>set args. nul \<in> set a"
  shows "keeps (Shell_cmd_type local args)"
proof (cases "length args < 2")
  case True
  then show ?thesis using keeps_say by (simp add: Shell_cmd_type_def [abs_def])
next
  case False
  then have arg: "nul \<in> set (args ! 1)" using assms(2) by simp
  obtain u where u: "upper_copy local (args ! 1) = Some u" "nul \<in> set u" using upper_copy_total [OF assms(1) arg] by blast
  obtain r where r: "find_entry (\<lambda>_. True) local u root_files = Some r" "\<forall>f. r = Some f \<longrightarrow> f \<in> set root_files"
    using find_entry_total [OF assms(1) u(2)] root_files_names(1) by metis
  have "keeps (\<lambda>s. case r of
           Some f \<Rightarrow>
             if fe_is_dir f
             then steps [say ''Access denied - '', VGA_puts (args ! 1), say ('' is a directory'' @ lf)] s
             else (case fe_content f of Some content \<Rightarrow> VGA_puts content s | None \<Rightarrow> Some s)
         | None \<Rightarrow> complain ''File not found: '' (args ! 1) s)"
  proof (cases r)
    case None
    then show ?thesis using keeps_complain [OF arg] by simp
  next
    case (Some f)
    have "keeps (steps [say ''Access denied - '', VGA_puts (args ! 1), say ('' is a directory'' @ lf)])"
      by (rule keeps_steps) (simp add: keeps_intros keeps_puts arg del: One_nat_def)
    moreover have "keeps (\<lambda>s. case fe_content f of Some content \<Rightarrow> VGA_puts content s | None \<Rightarrow> Some s)"
      using keeps_puts root_files_names(2) [of f] r(2) Some keeps_Some by (cases "fe_content f") auto
    ultimately show ?thesis using Some by (cases "fe_is_dir f") (simp_all del: steps.simps)
  qed
  then show ?thesis using False u(1) r(1)
    by (simp add: Shell_cmd_type_def [abs_def] del: One_nat_def steps.simps append.simps)
qed

lemma set_dir_step:
  assumes "length (current_dir s) = 64" "length d < 64" "nul \<notin> set d"
  obtains r where "set_dir (c_str d) s = Some (s\<lparr>current_dir := r\<rparr>)" "length r = 64" "text_of r = d"
  using strcpy_text [OF assms(3), of "current_dir s"] assms(1,2) by (auto simp: set_dir_def)

lemma add_dir_step:
  assumes "length (current_dir s) = 64" "length (text_of (current_dir s)) + length d < 64" "nul \<notin> set d"
  obtains r where "add_dir (c_str d) s = Some (s\<lparr>current_dir := r\<rparr>)" "length r = 64" "text_of r = text_of (current_dir s) @ d"
proof -
  have "nul \<in> set (current_dir s)" by (rule nul_in_text) (use assms in simp)
  then show thesis using that strcat_text [OF _ assms(3), of "current_dir s"] assms(1,2) by (auto simp: add_dir_def)
qed

lemma inv_dir: "shell_inv s \<Longrightarrow> length r = 64 \<Longrightarrow> text_of r \<in> dirs \<Longrightarrow> shell_inv (s\<lparr>current_dir := r\<rparr>)"
  by (simp add: shell_inv_def screen_of_def vga_inv_def)

lemma keeps_root: "keeps (set_dir (c_str (''C:'' @ bslash)))"
  unfolding keeps_def
proof (intro allI impI)
  fix s assume inv: "shell_inv s"
  obtain r where "set_dir (c_str (''C:'' @ bslash)) s = Some (s\<lparr>current_dir := r\<rparr>)" "length r = 64" "text_of r = ''C:'' @ bslash"
    by (rule set_dir_step [of s "''C:'' @ bslash"]) (use inv in \<open>auto simp: shell_inv_def bslash_def nul_def\<close>)
  then show "\<exists>t. set_dir (c_str (''C:'' @ bslash)) s = Some t \<and> shell_inv t"
    using inv_dir [OF inv, of r] by (auto simp: dirs_def)
qed

lemma keeps_subdir:
  assumes "n \<in> {''OS2'', ''DOCS''}"
  shows "keeps (steps [set_dir (c_str (''C:'' @ bslash)), add_dir (c_str n), add_dir (c_str bslash)])"
  unfolding keeps_def
proof (intro allI impI)
  fix s assume inv: "shell_inv s"
  have n: "length n \<le> 4" "nul \<notin> set n" using assms by (auto simp: nul_def)
  obtain r1 where r1: "set_dir (c_str (''C:'' @ bslash)) s = Some (s\<lparr>current_dir := r1\<rparr>)" "length r1 = 64" "text_of r1 = ''C:'' @ bslash"
    by (rule set_dir_step [of s "''C:'' @ bslash"]) (use inv in \<open>auto simp: shell_inv_def bslash_def nul_def\<close>)
  obtain r2 where r2: "add_dir (c_str n) (s\<lparr>current_dir := r1\<rparr>) = Some (s\<lparr>current_dir := r2\<rparr>)" "length r2 = 64"
      "text_of r2 = (''C:'' @ bslash) @ n"
    by (rule add_dir_step [of "s\<lparr>current_dir := r1\<rparr>" n]) (use r1(2,3) n in \<open>auto simp: bslash_def\<close>)
  obtain r3 where r3: "add_dir (c_str bslash) (s\<lparr>current_dir := r2\<rparr>) = Some (s\<lparr>current_dir := r3\<rparr>)" "length r3 = 64"
      "text_of r3 = ((''C:'' @ bslash) @ n) @ bslash"
    by (rule add_dir_step [of "s\<lparr>current_dir := r2\<rparr>" bslash]) (use r2(2,3) n in \<open>auto simp: bslash_def nul_def\<close>)
  have "text_of r3 \<in> dirs" using r3(3) assms by (auto simp: dirs_def)
  then show "\<exists>t. steps [set_dir (c_str (''C:'' @ bslash)), add_dir (c_str n), add_dir (c_str bslash)] s = Some t \<and> shell_inv t"
    using r1(1) r2(1) r3(1,2) inv_dir [OF inv, of r3] by simp
qed

lemma keeps_cd:
  assumes "length local = 64" "\<forall>a\<in>set args. nul \<in> set a"
  shows "keeps (Shell_cmd_cd local args)"
proof (cases "length args < 2")
  case True
  have "keeps (steps [(\<lambda>s. VGA_puts (current_dir s) s), say lf])" by (rule keeps_steps) (simp add: keeps_intros)
  then show ?thesis using True by (simp add: Shell_cmd_cd_def [abs_def] del: steps.simps)
next
  case False
  then have arg: "nul \<in> set (args ! 1)" using assms(2) by simp
  obtain b1 b2 b3 where b: "matches (args ! 1) (c_str ''..'') = Some b1" "matches (args ! 1) (c_str bslash) = Some b2"
      "matches (args ! 1) (c_str ''/'') = Some b3"
    using matches_total [OF arg] nul_c_str by metis
  obtain u where u: "upper_copy local (args ! 1) = Some u" "nul \<in> set u" using upper_copy_total [OF assms(1) arg] by blast
  obtain r where r: "find_entry fe_is_dir local u root_files = Some r" "\<forall>f. r = Some f \<longrightarrow> f \<in> set root_files \<and> fe_is_dir f"
    using find_entry_total [OF assms(1) u(2)] root_files_names(1) by metis
  have last: "keeps (\<lambda>s. case r of
                 Some f \<Rightarrow> steps [set_dir (c_str (''C:'' @ bslash)), add_dir (fe_name f), add_dir (c_str bslash)] s
               | None \<Rightarrow> complain ''Directory not found: '' (args ! 1) s)"
  proof (cases r)
    case None
    then show ?thesis using keeps_complain [OF arg] by simp
  next
    case (Some f)
    then have "fe_name f = c_str ''OS2'' \<or> fe_name f = c_str ''DOCS''" using r(2) by (auto simp: root_files_def)
    then show ?thesis using Some keeps_subdir [of "''OS2''"] keeps_subdir [of "''DOCS''"] by (auto simp del: steps.simps)
  qed
  show ?thesis
    using False b u(1) r(1) last keeps_root
    by (cases b1; cases b2; cases b3) (simp_all add: Shell_cmd_cd_def [abs_def] del: steps.simps One_nat_def append.simps)
qed

lemma keeps_color_cmd:
  assumes "\<forall>a\<in>set args. nul \<in> set a"
  shows "keeps (Shell_cmd_color args)"
proof (cases "length args < 2")
  case True
  have "keeps (steps
    [say (''Usage: COLOR <0-F>'' @ lf),
     say (''  0=Black, 1=Blue, 2=Green, 3=Cyan'' @ lf),
     say (''  4=Red, 5=Magenta, 6=Brown, 7=LightGrey'' @ lf),
     say (''  8=DarkGrey, 9=LightBlue, A=LightGreen'' @ lf),
     say (''  B=LightCyan, C=LightRed, D=LightMagenta'' @ lf),
     say (''  E=Yellow, F=White'' @ lf)])"
    by (rule keeps_steps) (simp add: keeps_say)
  then show ?thesis using True by (simp add: Shell_cmd_color_def [abs_def] del: steps.simps)
next
  case False
  then have "nul \<in> set (args ! 1)" using assms by simp
  then obtain c cs where "args ! 1 = c # cs" by (cases "args ! 1") auto
  then show ?thesis using False keeps_color by (simp add: Shell_cmd_color_def [abs_def])
qed

definition ok_cmd :: "(opus \<Rightarrow> (turn \<times> opus) option) \<Rightarrow> bool" where
  "ok_cmd p \<longleftrightarrow> (\<forall>s. shell_inv s \<longrightarrow> (\<exists>r t. p s = Some (r, t) \<and> shell_inv t))"

lemma ok_goes: "keeps p \<Longrightarrow> ok_cmd (goes p)"
  unfolding keeps_def ok_cmd_def goes_def by fastforce

lemma is_one_of_total: "nul \<in> set cmd \<Longrightarrow> \<exists>b. is_one_of cmd ns = Some b"
proof (induction ns)
  case (Cons n ns)
  obtain b where "matches cmd (c_str n) = Some b" using matches_total [OF Cons.prems nul_c_str] by blast
  then show ?case using Cons.IH [OF Cons.prems] by (cases b) auto
qed auto

lemma select_total: "nul \<in> set cmd \<Longrightarrow> \<exists>c. select cmd cs otherwise = Some c \<and> c \<in> insert otherwise (snd ` set cs)"
proof (induction cs)
  case (Cons e cs)
  obtain ns c where e: "e = (ns, c)" by (cases e)
  obtain b where "is_one_of cmd ns = Some b" using is_one_of_total [OF Cons.prems] by blast
  then show ?case using Cons e by (cases b) auto
qed simp

lemma select_ok:
  assumes "nul \<in> set cmd" "ok_cmd otherwise" "\<forall>c\<in>snd ` set cs. ok_cmd c"
  obtains c where "select cmd cs otherwise = Some c" "ok_cmd c"
  using select_total [OF assms(1), of cs otherwise] assms(2,3) by blast

lemma ok_commands:
  assumes "length local = 64" "16 \<le> length buf" "\<forall>a\<in>set args. nul \<in> set a"
  shows "\<forall>c\<in>snd ` set (commands local buf args). ok_cmd c"
proof -
  have "ok_cmd (\<lambda>s. map_option (Pair Halted) (Shell_cmd_exit s))"
    using keeps_texts(7) unfolding keeps_def ok_cmd_def by fastforce
  then show ?thesis
    using keeps_texts keeps_cls keeps_counted [of args] keeps_echo [OF assms(3)] keeps_dir [OF assms(2)]
      keeps_type [OF assms(1,3)] keeps_cd [OF assms(1,3)] keeps_color_cmd [OF assms(3)]
    by (simp add: commands_def ok_goes)
qed

lemma parse_keeps:
  assumes "shell_inv s"
  obtains args t where "Shell_parseCommand s = Some (args, t)" "shell_inv t" "\<forall>a\<in>set args. nul \<in> set a"
proof -
  let ?b = "cmd_buffer s"
  have len: "length ?b = 256" "?b ! 255 = nul" using assms by (auto simp: shell_inv_def)
  then have "nul \<in> set ?b" using nth_mem [of 255 ?b] by simp
  then obtain line rest where split: "?b = line @ nul # rest" "nul \<notin> set line" by (meson split_list_first)
  obtain new cs' where p: "parse_loop 0 False [] (line @ nul # rest) = Some (new, cs' @ nul # rest)" "length cs' = length line"
      "\<forall>i\<in>set new. i < length line"
    using parse_loop_split [OF split(2), of "[]" "[]" False rest] by auto
  let ?b' = "cs' @ nul # rest" and ?args = "map (\<lambda>i. drop i (cs' @ nul # rest)) new"
  have "?b' ! 255 = nul" using len split(1) p(2) by (simp add: nth_append nth_Cons split: if_splits nat.splits)
  moreover have "length ?b' = 256" using len(1) split(1) p(2) by simp
  ultimately have "shell_inv (s\<lparr>cmd_buffer := ?b'\<rparr>)"
    using assms by (simp add: shell_inv_def screen_of_def vga_inv_def)
  moreover have "\<forall>a\<in>set ?args. nul \<in> set a" using p(2,3) by auto
  moreover have "Shell_parseCommand s = Some (?args, s\<lparr>cmd_buffer := ?b'\<rparr>)"
    using p(1) split(1) by (simp add: Shell_parseCommand_def)
  ultimately show thesis using that by blast
qed

text \<open>C36: Whatever the line in the buffer, \<open>executeCommand\<close> returns without touching anything outside its arrays, keeps the
  buffers terminated and the cursor on the screen, and leaves the current directory one of the three that exist.\<close>

theorem executeCommand_safe:
  assumes "shell_inv s" "length local = 64" "16 \<le> length buf"
  shows "\<exists>r t. Shell_executeCommand local buf s = Some (r, t) \<and> shell_inv t"
proof -
  obtain c cs where c: "cmd_buffer s = c # cs" using assms(1) by (cases "cmd_buffer s") (auto simp: shell_inv_def)
  show ?thesis
  proof (cases "c = nul")
    case True
    then show ?thesis using c assms(1) by (simp add: Shell_executeCommand_def)
  next
    case False
    obtain args t where p: "Shell_parseCommand s = Some (args, t)" "shell_inv t" "\<forall>a\<in>set args. nul \<in> set a"
      using parse_keeps [OF assms(1)] .
    show ?thesis
    proof (cases "args = []")
      case True
      then show ?thesis using c False p by (simp add: Shell_executeCommand_def)
    next
      case some: False
      then have arg: "nul \<in> set (args ! 0)" using p(3) by simp
      obtain u where u: "upper_copy local (args ! 0) = Some u" "nul \<in> set u" using upper_copy_total [OF assms(2) arg] by blast
      obtain cmd where cmd: "select u (commands local buf args) (goes (complain ''Bad command or file name: '' (args ! 0))) = Some cmd"
          "ok_cmd cmd"
        by (rule select_ok [OF u(2) ok_goes [OF keeps_complain [OF arg]] ok_commands [OF assms(2,3) p(3)]])
      obtain r v where r: "cmd t = Some (r, v)" "shell_inv v" using cmd(2) p(2) unfolding ok_cmd_def by (elim allE impE exE conjE) blast
      have "Shell_executeCommand local buf s = Some (r, v)"
        unfolding Shell_executeCommand_def c list.case p(1) 
        by (simp only: False some if_False Option.bind_lunit prod.case u(1) cmd(1) r(1))
      then show ?thesis using r(2) by (intro exI conjI)
    qed
  qed
qed

definition opus_ready :: opus where
  "opus_ready = blank_opus\<lparr>current_dir := ''C:'' @ bslash @ replicate 61 nul, cmd_buffer := ''cd docs'' @ replicate 249 nul\<rparr>"

lemma opus_ready_inv: "shell_inv opus_ready"
proof -
  have "text_of (''C:'' @ bslash @ replicate 61 nul) = ''C:'' @ bslash"
    by (simp add: text_of_def bslash_def nul_def)
  then have "text_of (current_dir opus_ready) \<in> dirs" by (simp add: opus_ready_def dirs_def)
  moreover have "vga_inv (screen_of opus_ready)" using blank_opus_inv by (simp add: opus_ready_def screen_of_def vga_inv_def)
  moreover have "cmd_buffer opus_ready ! 255 = nul" by (simp add: opus_ready_def nth_append nth_Cons')
  moreover have "length (cmd_buffer opus_ready) = 256" "length (current_dir opus_ready) = 64" "cmd_pos opus_ready = 0"
    by (simp_all add: opus_ready_def bslash_def blank_opus_def)
  ultimately show ?thesis by (simp add: shell_inv_def)
qed

theorem executeCommand_safe_witness:
  "\<exists>r t. Shell_executeCommand (replicate 64 CHR ''x'') (replicate 16 CHR ''x'') opus_ready = Some (r, t) \<and> shell_inv t"
  by (rule executeCommand_safe [OF opus_ready_inv]) simp_all

end
