(* ===== verification/Hal.thy ===== *)
theory Hal
  imports Prelude
begin

text \<open>
  The hardware abstraction layer \<open>side_project/AbstractLayer.cpp\<close>: processor features and topology from \<open>cpuid\<close>, the
  interrupt controller through model specific or memory-mapped registers, the ACPI tables, the time stamp counter and the
  start of further processors. The answers of \<open>cpuid\<close> and the address of the start code are arguments; the readings of
  the counter are a sequence in the state, and every register write is logged with the number of readings before it.
  \<open>None\<close> is an access through the null pointer or outside an array or table, a division by zero, or an endless loop.
\<close>

section \<open>Processor features\<close>

type_synonym regs4 = "u32 \<times> u32 \<times> u32 \<times> u32"

text \<open>Leaf and subleaf give \<open>eax\<close>, \<open>ebx\<close>, \<open>ecx\<close> and \<open>edx\<close>.\<close>

type_synonym cpuid_fn = "u32 \<Rightarrow> u32 \<Rightarrow> regs4"

record cpu_features =
  f_fpu :: bool
  f_tsc :: bool
  f_msr :: bool
  f_apic :: bool
  f_mtrr :: bool
  f_sse :: bool
  f_sse2 :: bool
  f_sse3 :: bool
  f_ssse3 :: bool
  f_sse4_1 :: bool
  f_sse4_2 :: bool
  f_avx :: bool
  f_avx2 :: bool
  f_avx512f :: bool
  f_x2apic :: bool
  f_pcid :: bool
  f_invpcid :: bool
  f_smep :: bool
  f_smap :: bool
  f_gbpages :: bool
  f_rdtscp :: bool
  f_invariant_tsc :: bool
  f_hypervisor :: bool
  f_vendor :: "u8 list"
  f_family :: u32
  f_model :: u32
  f_stepping :: u32
  f_max_cpuid :: u32

definition flag :: "nat \<Rightarrow> u32 \<Rightarrow> bool" where "flag n w \<longleftrightarrow> w AND push_bit n 1 \<noteq> 0"

text \<open>The bytes a 32-bit store leaves in memory.\<close>

definition dword_bytes :: "u32 \<Rightarrow> u8 list" where
  "dword_bytes w = [ucast w, ucast (drop_bit 8 w), ucast (drop_bit 16 w), ucast (drop_bit 24 w)]"

definition detect_vendor :: "cpuid_fn \<Rightarrow> cpu_features \<Rightarrow> cpu_features" where
  "detect_vendor cpuid f =
     (case cpuid 0 0 of (eax, ebx, ecx, edx) \<Rightarrow>
        f\<lparr>f_max_cpuid := eax, f_vendor := dword_bytes ebx @ dword_bytes edx @ dword_bytes ecx @ [0]\<rparr>)"

definition detect_basic :: "cpuid_fn \<Rightarrow> cpu_features \<Rightarrow> cpu_features" where
  "detect_basic cpuid f =
     (case cpuid 1 0 of (eax, ebx, ecx, edx) \<Rightarrow>
        f\<lparr>f_family := (drop_bit 8 eax AND 0xF) + (drop_bit 20 eax AND 0xFF),
          f_model := (drop_bit 4 eax AND 0xF) OR push_bit 4 (drop_bit 16 eax AND 0xF),
          f_stepping := eax AND 0xF,
          f_fpu := flag 0 edx, f_tsc := flag 4 edx, f_msr := flag 5 edx, f_apic := flag 9 edx, f_mtrr := flag 12 edx,
          f_sse := flag 25 edx, f_sse2 := flag 26 edx,
          f_sse3 := flag 0 ecx, f_ssse3 := flag 9 ecx, f_sse4_1 := flag 19 ecx, f_sse4_2 := flag 20 ecx,
          f_x2apic := flag 21 ecx, f_avx := flag 28 ecx, f_hypervisor := flag 31 ecx\<rparr>)"

definition detect_leaf7 :: "cpuid_fn \<Rightarrow> cpu_features \<Rightarrow> cpu_features" where
  "detect_leaf7 cpuid f =
     (if 7 \<le> f_max_cpuid f
      then (case cpuid 7 0 of (eax, ebx, ecx, edx) \<Rightarrow>
        f\<lparr>f_avx2 := flag 5 ebx, f_smep := flag 7 ebx, f_avx512f := flag 16 ebx, f_smap := flag 20 ebx, f_invpcid := flag 10 ebx\<rparr>)
      else f)"

definition detect_extended :: "cpuid_fn \<Rightarrow> cpu_features \<Rightarrow> cpu_features" where
  "detect_extended cpuid f =
     (case cpuid 0x80000001 0 of (eax, ebx, ecx, edx) \<Rightarrow>
      case cpuid 0x80000007 0 of (eax', ebx', ecx', edx') \<Rightarrow>
        f\<lparr>f_gbpages := flag 26 edx, f_rdtscp := flag 27 edx, f_pcid := flag 1 ecx, f_invariant_tsc := flag 8 edx'\<rparr>)"

definition hal_detect_cpu_features :: "cpuid_fn \<Rightarrow> cpu_features \<Rightarrow> cpu_features" where
  "hal_detect_cpu_features cpuid f =
     detect_extended cpuid (detect_leaf7 cpuid (detect_basic cpuid (detect_vendor cpuid f)))"

section \<open>Topology\<close>

record cpu_info =
  cpu_apic_id :: u32
  cpu_package_id :: u32
  cpu_core_id :: u32
  cpu_thread_id :: u32
  cpu_numa_node :: u32

record cpu_topology =
  num_cores :: u32
  num_threads :: u32
  num_packages :: u32
  threads_per_core :: u32
  cores_per_package :: u32
  cpus :: "cpu_info list"

definition topology_ids :: "u32 \<Rightarrow> u32 \<Rightarrow> cpu_info \<Rightarrow> cpu_info" where
  "topology_ids eax0 eax1 c =
     (let apic = cpu_apic_id c;
          shift = unat (eax0 AND 0x1F);
          thread_mask = push_bit shift 1 - 1;
          core_shift = unat (eax1 AND 0x1F);
          core_mask = push_bit core_shift 1 - 1
      in c\<lparr>cpu_thread_id := apic AND thread_mask,
           cpu_core_id := drop_bit shift apic AND drop_bit shift core_mask,
           cpu_package_id := drop_bit core_shift apic\<rparr>)"

definition update_cpu :: "u32 \<Rightarrow> (cpu_info \<Rightarrow> cpu_info) \<Rightarrow> cpu_topology \<Rightarrow> cpu_topology option" where
  "update_cpu i f topo =
     (if unat i < length (cpus topo) then Some (topo\<lparr>cpus := (cpus topo)[unat i := f (cpus topo ! unat i)]\<rparr>) else None)"

definition count_processors :: "cpuid_fn \<Rightarrow> cpu_topology \<Rightarrow> cpu_topology" where
  "count_processors cpuid topo =
     (case cpuid 1 0 of (eax1, ebx1, ecx1, edx1) \<Rightarrow>
      case cpuid 4 0 of (eax4, ebx4, ecx4, edx4) \<Rightarrow>
        let logical_processors = drop_bit 16 ebx1 AND 0xFF;
            per_package = (drop_bit 26 eax4 AND 0x3F) + 1
        in topo\<lparr>num_threads := logical_processors, cores_per_package := per_package,
                threads_per_core := logical_processors div per_package, num_packages := 1, num_cores := per_package\<rparr>)"

definition hal_detect_cpu_topology :: "cpuid_fn \<Rightarrow> cpu_topology \<Rightarrow> cpu_topology option" where
  "hal_detect_cpu_topology cpuid topo =
     (let t = count_processors cpuid topo in
      case cpuid 0xB 0 of (eax, ebx, ecx, edx) \<Rightarrow>
        if ebx \<noteq> 0
        then (case cpuid 0xB 1 of (eax', ebx', ecx', edx') \<Rightarrow>
                for_try 0 (num_threads t) (\<lambda>i. update_cpu i (topology_ids eax eax')) t)
        else Some t)"

section \<open>The interrupt controller\<close>

definition APIC_BASE_MSR :: u32 where "APIC_BASE_MSR = 0x1B"
definition APIC_ID :: u32 where "APIC_ID = 0x20"
definition APIC_EOI :: u32 where "APIC_EOI = 0xB0"
definition APIC_SPURIOUS :: u32 where "APIC_SPURIOUS = 0xF0"
definition APIC_ICR_LOW :: u32 where "APIC_ICR_LOW = 0x300"
definition APIC_ICR_HIGH :: u32 where "APIC_ICR_HIGH = 0x310"

datatype reg_write = Msr u32 u64 | Mmio u64 u32

record hal =
  msrs :: "u32 \<Rightarrow> u64"
  mmio :: "u64 \<Rightarrow> u32"
  writes :: "(nat \<times> reg_write) list"
  clock :: "nat \<Rightarrow> u64"
  reads :: nat
  apic_base_phys :: u64
  apic_base_virt :: u64
  x2apic_mode :: bool
  tsc_frequency :: u64
  g_features :: cpu_features
  g_topology :: cpu_topology
  g_tsc_frequency :: u64
  g_x2apic_enabled :: bool

definition rdmsr :: "u32 \<Rightarrow> hal \<Rightarrow> u64" where
  "rdmsr msr s = msrs s msr"

definition wrmsr :: "u32 \<Rightarrow> u64 \<Rightarrow> hal \<Rightarrow> hal" where
  "wrmsr msr v s = s\<lparr>msrs := (msrs s)(msr := v), writes := writes s @ [(reads s, Msr msr v)]\<rparr>"

definition apic_read :: "u32 \<Rightarrow> hal \<Rightarrow> u32 option" where
  "apic_read reg s =
     (if x2apic_mode s then Some (ucast (rdmsr (0x800 + drop_bit 4 reg) s))
      else if apic_base_virt s = 0 then None
      else Some (mmio s (apic_base_virt s + ucast reg)))"

definition apic_write :: "u32 \<Rightarrow> u32 \<Rightarrow> hal \<Rightarrow> hal option" where
  "apic_write reg v s =
     (if x2apic_mode s then Some (wrmsr (0x800 + drop_bit 4 reg) (ucast v) s)
      else if apic_base_virt s = 0 then None
      else let a = apic_base_virt s + ucast reg
           in Some (s\<lparr>mmio := (mmio s)(a := v), writes := writes s @ [(reads s, Mmio a v)]\<rparr>))"

definition hal_apic_init :: "cpu_features \<Rightarrow> hal \<Rightarrow> hal option" where
  "hal_apic_init features s =
     (let apic_base = rdmsr APIC_BASE_MSR s;
          s1 = s\<lparr>apic_base_phys := apic_base AND 0xFFFFF000\<rparr>;
          s2 = (if f_x2apic features
                then (wrmsr APIC_BASE_MSR (apic_base OR push_bit 11 1 OR push_bit 10 1) s1)\<lparr>x2apic_mode := True\<rparr>
                else wrmsr APIC_BASE_MSR (apic_base OR push_bit 11 1) s1)
      in do {
        spurious \<leftarrow> apic_read APIC_SPURIOUS s2;
        apic_write APIC_SPURIOUS (spurious OR 0x1FF) s2
      })"

definition hal_apic_get_id :: "hal \<Rightarrow> u32 option" where
  "hal_apic_get_id s =
     (if x2apic_mode s then Some (ucast (rdmsr 0x802 s)) else map_option (drop_bit 24) (apic_read APIC_ID s))"

definition hal_apic_send_eoi :: "hal \<Rightarrow> hal option" where
  "hal_apic_send_eoi = apic_write APIC_EOI 0"

definition hal_apic_send_ipi :: "u32 \<Rightarrow> u32 \<Rightarrow> hal \<Rightarrow> hal option" where
  "hal_apic_send_ipi dest_apic_id vector s =
     (if x2apic_mode s then Some (wrmsr 0x830 (push_bit 32 (ucast dest_apic_id) OR ucast vector) s)
      else do {
        t \<leftarrow> apic_write APIC_ICR_HIGH (push_bit 24 dest_apic_id) s;
        apic_write APIC_ICR_LOW vector t
      })"

section \<open>ACPI tables\<close>

text \<open>A table is the list of its bytes.\<close>

definition table_byte :: "u8 list \<Rightarrow> nat \<Rightarrow> u8 option" where
  "table_byte tab i = (if i < length tab then Some (tab ! i) else None)"

definition table_dword :: "u8 list \<Rightarrow> nat \<Rightarrow> u32 option" where
  "table_dword tab i = do {
     b0 \<leftarrow> table_byte tab i;
     b1 \<leftarrow> table_byte tab (i + 1);
     b2 \<leftarrow> table_byte tab (i + 2);
     b3 \<leftarrow> table_byte tab (i + 3);
     Some (ucast b0 OR push_bit 8 (ucast b1) OR push_bit 16 (ucast b2) OR push_bit 24 (ucast b3))
   }"

definition hal_acpi_find_table :: "string \<Rightarrow> u8 list option" where
  "hal_acpi_find_table signature = None"

definition madt_lapic :: "u8 list \<Rightarrow> nat \<Rightarrow> u32 \<times> cpu_topology \<Rightarrow> (u32 \<times> cpu_topology) option" where
  "madt_lapic tab ptr = (\<lambda>(cpu_count, topo). do {
     flags \<leftarrow> table_dword tab (ptr + 4);
     (if flags AND 1 \<noteq> 0
      then do {
        apic_id \<leftarrow> table_byte tab (ptr + 3);
        t \<leftarrow> update_cpu cpu_count (\<lambda>c. c\<lparr>cpu_apic_id := ucast apic_id\<rparr>) topo;
        Some (cpu_count + 1, t)
      }
      else Some (cpu_count, topo))
   })"

partial_function (option) madt_loop ::
    "u8 list \<Rightarrow> nat \<Rightarrow> nat \<Rightarrow> u32 \<times> cpu_topology \<Rightarrow> (u32 \<times> cpu_topology) option" where
  "madt_loop tab end_ptr ptr a =
     (if ptr < end_ptr
      then do {
        type \<leftarrow> table_byte tab ptr;
        entry_length \<leftarrow> table_byte tab (ptr + 1);
        b \<leftarrow> (if type = 0 then madt_lapic tab ptr a else Some a);
        madt_loop tab end_ptr (ptr + unat entry_length) b
      }
      else Some a)"

definition parse_madt :: "u8 list \<Rightarrow> cpu_topology \<Rightarrow> cpu_topology option" where
  "parse_madt madt topo = do {
     table_length \<leftarrow> table_dword madt 4;
     (cpu_count, t) \<leftarrow> madt_loop madt (unat table_length) 44 (0, topo);
     Some (t\<lparr>num_threads := cpu_count\<rparr>)
   }"

definition hal_parse_madt :: "cpu_topology \<Rightarrow> cpu_topology option" where
  "hal_parse_madt topo =
     (case hal_acpi_find_table ''APIC'' of None \<Rightarrow> Some topo | Some madt \<Rightarrow> parse_madt madt topo)"

text \<open>The first processor with the number gets the node.\<close>

fun set_numa_node :: "u32 \<Rightarrow> u32 \<Rightarrow> nat list \<Rightarrow> cpu_info list \<Rightarrow> cpu_info list option" where
  "set_numa_node apic_id domain [] cs = Some cs"
| "set_numa_node apic_id domain (i # is) cs =
     (if length cs \<le> i then None
      else if cpu_apic_id (cs ! i) = apic_id then Some (cs[i := (cs ! i)\<lparr>cpu_numa_node := domain\<rparr>])
      else set_numa_node apic_id domain is cs)"

definition srat_lapic :: "u8 list \<Rightarrow> nat \<Rightarrow> cpu_topology \<Rightarrow> cpu_topology option" where
  "srat_lapic tab ptr topo = do {
     low \<leftarrow> table_byte tab (ptr + 2);
     h0 \<leftarrow> table_byte tab (ptr + 9);
     h1 \<leftarrow> table_byte tab (ptr + 10);
     h2 \<leftarrow> table_byte tab (ptr + 11);
     apic_id \<leftarrow> table_byte tab (ptr + 3);
     cs \<leftarrow> set_numa_node (ucast apic_id)
        (ucast low OR push_bit 8 (ucast h0) OR push_bit 16 (ucast h1) OR push_bit 24 (ucast h2))
        [0..<unat (num_threads topo)] (cpus topo);
     Some (topo\<lparr>cpus := cs\<rparr>)
   }"

partial_function (option) srat_loop :: "u8 list \<Rightarrow> nat \<Rightarrow> nat \<Rightarrow> cpu_topology \<Rightarrow> cpu_topology option" where
  "srat_loop tab end_ptr ptr topo =
     (if ptr < end_ptr
      then do {
        type \<leftarrow> table_byte tab ptr;
        entry_length \<leftarrow> table_byte tab (ptr + 1);
        t \<leftarrow> (if type = 0 then srat_lapic tab ptr topo else Some topo);
        srat_loop tab end_ptr (ptr + unat entry_length) t
      }
      else Some topo)"

definition parse_srat :: "u8 list \<Rightarrow> cpu_topology \<Rightarrow> cpu_topology option" where
  "parse_srat srat topo = do {
     table_length \<leftarrow> table_dword srat 4;
     srat_loop srat (unat table_length) 48 topo
   }"

definition hal_parse_srat :: "cpu_topology \<Rightarrow> cpu_topology option" where
  "hal_parse_srat topo =
     (case hal_acpi_find_table ''SRAT'' of None \<Rightarrow> Some topo | Some srat \<Rightarrow> parse_srat srat topo)"

section \<open>Time\<close>

definition rdtsc :: "hal \<Rightarrow> u64 \<times> hal" where
  "rdtsc s = (clock s (reads s), s\<lparr>reads := Suc (reads s)\<rparr>)"

definition hal_calibrate_tsc :: "cpuid_fn \<Rightarrow> hal \<Rightarrow> hal" where
  "hal_calibrate_tsc cpuid s =
     (case cpuid 0x15 0 of (eax, ebx, ecx, edx) \<Rightarrow>
        if eax \<noteq> 0 \<and> ebx \<noteq> 0 \<and> ecx \<noteq> 0
        then s\<lparr>tsc_frequency := (ucast ecx * ucast ebx) div ucast eax\<rparr>
        else s\<lparr>tsc_frequency := 2400000000\<rparr>)"

definition hal_get_tsc_frequency :: "hal \<Rightarrow> u64" where
  "hal_get_tsc_frequency s = tsc_frequency s"

definition hal_get_nanoseconds :: "hal \<Rightarrow> (u64 \<times> hal) option" where
  "hal_get_nanoseconds s =
     (case rdtsc s of (tsc, t) \<Rightarrow>
        if tsc_frequency t = 0 then None else Some ((tsc * 1000000000) div tsc_frequency t, t))"

section \<open>Starting processors\<close>

partial_function (option) ns_wait_loop :: "u64 \<Rightarrow> u64 \<Rightarrow> hal \<Rightarrow> hal option" where
  "ns_wait_loop duration start s = do {
     (now, t) \<leftarrow> hal_get_nanoseconds s;
     (if now - start < duration then ns_wait_loop duration start t else Some t)
   }"

definition wait_ns :: "u64 \<Rightarrow> hal \<Rightarrow> hal option" where
  "wait_ns duration s = do {
     (start, t) \<leftarrow> hal_get_nanoseconds s;
     ns_wait_loop duration start t
   }"

text \<open>\<open>ap_startup_code\<close> is the address of the start code.\<close>

definition hal_start_ap :: "u64 \<Rightarrow> u32 \<Rightarrow> hal \<Rightarrow> hal option" where
  "hal_start_ap ap_startup_code apic_id s = do {
     s1 \<leftarrow> hal_apic_send_ipi apic_id 0x4500 s;
     s2 \<leftarrow> wait_ns 10000000 s1;
     (let vector = ucast (drop_bit 12 ap_startup_code AND 0xFF) in do {
       s3 \<leftarrow> hal_apic_send_ipi apic_id (0x4600 OR vector) s2;
       s4 \<leftarrow> wait_ns 200000 s3;
       hal_apic_send_ipi apic_id (0x4600 OR vector) s4
     })
   }"

definition start_unless :: "u64 \<Rightarrow> u32 \<Rightarrow> cpu_topology \<Rightarrow> u32 \<Rightarrow> hal \<Rightarrow> hal option" where
  "start_unless ap_startup_code bsp_apic_id topo i s =
     (if length (cpus topo) \<le> unat i then None
      else if cpu_apic_id (cpus topo ! unat i) \<noteq> bsp_apic_id
      then hal_start_ap ap_startup_code (cpu_apic_id (cpus topo ! unat i)) s
      else Some s)"

definition hal_smp_init :: "u64 \<Rightarrow> cpu_topology \<Rightarrow> hal \<Rightarrow> hal option" where
  "hal_smp_init ap_startup_code topo s = do {
     bsp_apic_id \<leftarrow> hal_apic_get_id s;
     for_try 0 (num_threads topo) (start_unless ap_startup_code bsp_apic_id topo) s
   }"

section \<open>Initialisation\<close>

definition hal_initialize :: "cpuid_fn \<Rightarrow> hal \<Rightarrow> hal option" where
  "hal_initialize cpuid s = do {
     let s0 = s\<lparr>g_features := hal_detect_cpu_features cpuid (g_features s)\<rparr>;
     s1 \<leftarrow> hal_apic_init (g_features s0) s0;
     let s2 = s1\<lparr>g_x2apic_enabled := x2apic_mode s1\<rparr>;
     t1 \<leftarrow> hal_detect_cpu_topology cpuid (g_topology s2);
     t2 \<leftarrow> hal_parse_madt t1;
     t3 \<leftarrow> hal_parse_srat t2;
     let s3 = hal_calibrate_tsc cpuid (s2\<lparr>g_topology := t3\<rparr>);
     Some (s3\<lparr>g_tsc_frequency := tsc_frequency s3\<rparr>)
   }"

definition hal_get_info :: "hal \<Rightarrow> cpu_features \<times> cpu_topology \<times> u64 \<times> bool" where
  "hal_get_info s = (g_features s, g_topology s, g_tsc_frequency s, g_x2apic_enabled s)"

end
