(* ===== verification/Hal_Props.thy ===== *)
theory Hal_Props
  imports Hal
begin

text \<open>
  What the hardware abstraction layer does: the places of processors rebuilt from their numbers, the ACPI tables read as
  lists of entries, time in nanoseconds and the waits built on it, the messages that start processors, and the state after
  \<open>hal_initialize\<close>.
\<close>

section \<open>Topology\<close>

lemma low_bits_mask: "push_bit n 1 - 1 = (mask n :: u32)"
  by (simp add: mask_eq_exp_minus_1 push_bit_eq_mult)

lemma shift_less: "unat (w AND 0x1F :: u32) < 32"
  using word_and_le1 [of w "0x1F"] by (simp add: word_le_nat_alt)

definition place :: "u32 \<Rightarrow> u32 \<Rightarrow> cpu_info \<Rightarrow> u32" where
  "place eax0 eax1 c =
     push_bit (unat (eax1 AND 0x1F)) (cpu_package_id c) OR push_bit (unat (eax0 AND 0x1F)) (cpu_core_id c) OR cpu_thread_id c"

lemma place_topology_ids:
  assumes "eax0 AND 0x1F \<le> eax1 AND 0x1F"
  shows "place eax0 eax1 (topology_ids eax0 eax1 c) = cpu_apic_id c"
proof (rule bit_word_eqI)
  fix i assume i: "i < LENGTH(32)"
  have "unat (eax0 AND 0x1F) \<le> unat (eax1 AND 0x1F)" using assms by (simp add: word_le_nat_alt)
  then show "bit (place eax0 eax1 (topology_ids eax0 eax1 c)) i \<longleftrightarrow> bit (cpu_apic_id c) i"
    using i unfolding place_def topology_ids_def Let_def low_bits_mask
    by (cases "i < unat (eax0 AND 0x1F)"; cases "i < unat (eax1 AND 0x1F)")
       (auto simp: bit_or_iff bit_and_iff bit_push_bit_iff bit_drop_bit_eq bit_mask_iff)
qed

lemma count_processors_bound: "unat (num_threads (count_processors cpuid topo)) \<le> 255"
proof -
  have "unat (w AND 0xFF :: u32) \<le> 255" for w using word_and_le1 [of w "0xFF"] by (simp add: word_le_nat_alt)
  then show ?thesis by (simp add: count_processors_def Let_def split: prod.splits)
qed

lemma count_processors_cpus [simp]: "cpus (count_processors cpuid topo) = cpus topo"
  by (simp add: count_processors_def Let_def split: prod.splits)

lemma update_all:
  assumes "unat n \<le> length (cpus t)"
  shows "for_try 0 n (\<lambda>i. update_cpu i f) t =
    Some (t\<lparr>cpus := map f (take (unat n) (cpus t)) @ drop (unat n) (cpus t)\<rparr>)"
proof -
  let ?t = "\<lambda>k. t\<lparr>cpus := map f (take k (cpus t)) @ drop k (cpus t)\<rparr>"
  have "\<exists>v. update_cpu i f u = Some v \<and> v = ?t (unat (i + 1))" if i: "i < n" and u: "u = ?t (unat i)" for i u
  proof -
    have k: "unat i < length (cpus t)" using i assms by (simp add: word_less_nat_alt)
    have "update_cpu i f u = Some (?t (Suc (unat i)))"
      using k u by (simp add: update_cpu_def nth_append list_update_append take_Suc_conv_app_nth
          Cons_nth_drop_Suc [symmetric] del: Cons_nth_drop_Suc)
    then show ?thesis using unat_inc_less [OF i] by simp
  qed
  then have "\<exists>v. for_try 0 n (\<lambda>i. update_cpu i f) t = Some v \<and> v = ?t (unat (max 0 n))"
    by (intro for_try_rule [where P = "\<lambda>i u. u = ?t (unat i)"]) simp_all
  then show ?thesis by simp
qed

definition ids_of :: "cpuid_fn \<Rightarrow> cpu_info \<Rightarrow> cpu_info" where
  "ids_of cpuid =
     (case cpuid 0xB 0 of (eax, ebx, _) \<Rightarrow>
        if ebx \<noteq> 0 then (case cpuid 0xB 1 of (eax', _) \<Rightarrow> topology_ids eax eax') else id)"

lemma detect_topology:
  assumes "length (cpus topo) = 256"
  shows "hal_detect_cpu_topology cpuid topo =
    (let t = count_processors cpuid topo; n = unat (num_threads t)
     in Some (t\<lparr>cpus := map (ids_of cpuid) (take n (cpus topo)) @ drop n (cpus topo)\<rparr>))"
proof -
  let ?t = "count_processors cpuid topo"
  obtain a b c d a' b' c' d' where r: "cpuid 0xB 0 = (a, b, c, d)" "cpuid 0xB 1 = (a', b', c', d')"
    by (metis prod_cases4)
  have n: "unat (num_threads ?t) \<le> length (cpus ?t)" using count_processors_bound [of cpuid topo] assms by simp
  have "?t = ?t\<lparr>cpus := cpus topo\<rparr>" using count_processors_cpus [of cpuid topo] by (metis cpu_topology.surjective cpu_topology.update_convs(6))
  then show ?thesis using update_all [OF n] r by (simp add: hal_detect_cpu_topology_def ids_of_def Let_def)
qed

text \<open>On a processor with extended topology leaves, \<open>hal_detect_cpu_topology\<close> stays inside the table and gives every
  counted processor a package, core and thread number from which its APIC number can be rebuilt, so no two processors with
  different numbers get the same place; the other entries are left alone.\<close>

theorem hal_detect_cpu_topology_places:
  assumes "length (cpus topo) = 256" "cpuid 0xB 0 = (a, b, c, d)" "b \<noteq> 0" "cpuid 0xB 1 = (a', b', c', d')"
    and "a AND 0x1F \<le> a' AND 0x1F"
  shows "\<exists>t. hal_detect_cpu_topology cpuid topo = Some t \<and> unat (num_threads t) \<le> 255 \<and> length (cpus t) = 256 \<and>
    (\<forall>i. i < unat (num_threads t) \<longrightarrow> cpu_apic_id (cpus t ! i) = cpu_apic_id (cpus topo ! i) \<and>
       place a a' (cpus t ! i) = cpu_apic_id (cpus topo ! i)) \<and>
    (\<forall>i. unat (num_threads t) \<le> i \<and> i < 256 \<longrightarrow> cpus t ! i = cpus topo ! i)"
proof -
  let ?n = "unat (num_threads (count_processors cpuid topo))"
  have f: "hal_detect_cpu_topology cpuid topo = Some ((count_processors cpuid topo)
       \<lparr>cpus := map (topology_ids a a') (take ?n (cpus topo)) @ drop ?n (cpus topo)\<rparr>)"
    using detect_topology [OF assms(1), of cpuid] assms(2-4) by (simp add: ids_of_def Let_def)
  have "cpu_apic_id (topology_ids a a' c) = cpu_apic_id c" for c by (simp add: topology_ids_def Let_def)
  then show ?thesis
    using f place_topology_ids [OF assms(5)] count_processors_bound [of cpuid topo] assms(1)
    by (auto simp: nth_append)
qed

definition blank_entry :: cpu_info where
  "blank_entry = \<lparr>cpu_apic_id = 0, cpu_package_id = 0, cpu_core_id = 0, cpu_thread_id = 0, cpu_numa_node = 0\<rparr>"

definition blank_topology :: cpu_topology where
  "blank_topology = \<lparr>num_cores = 0, num_threads = 0, num_packages = 0, threads_per_core = 0, cores_per_package = 0,
     cpus = replicate 256 blank_entry\<rparr>"

text \<open>A processor with eight threads, two per core.\<close>

definition sample_cpuid :: "bool \<Rightarrow> cpuid_fn" where
  "sample_cpuid x2apic leaf subleaf =
     (if leaf = 0 then (0x16, 0x756E6547, 0x6C65746E, 0x49656E69)
      else if leaf = 1 then (0x000906EA, 0x00080800, if x2apic then 0x00200000 else 0, 0x00000211)
      else if leaf = 4 then (0x0C000121, 0, 0, 0)
      else if leaf = 0xB then (if subleaf = 0 then (1, 2, 0x100, 0) else (3, 8, 0x201, 0))
      else (0, 0, 0, 0))"

definition numbered :: cpu_topology where
  "numbered = blank_topology\<lparr>cpus := map (\<lambda>i. blank_entry\<lparr>cpu_apic_id := of_nat i\<rparr>) [0..<256]\<rparr>"

theorem hal_detect_cpu_topology_places_witness:
  "\<exists>t. hal_detect_cpu_topology (sample_cpuid True) numbered = Some t \<and> unat (num_threads t) \<le> 255 \<and>
     (5 < unat (num_threads t) \<longrightarrow> place 1 3 (cpus t ! 5) = 5)"
proof -
  have r: "sample_cpuid True 0xB 0 = (1, 2, 0x100, 0)" "sample_cpuid True 0xB 1 = (3, 8, 0x201, 0)"
    by (simp_all add: sample_cpuid_def)
  have len: "length (cpus numbered) = 256" by (simp add: numbered_def)
  show ?thesis
    using hal_detect_cpu_topology_places [where cpuid = "sample_cpuid True" and topo = numbered and a = 1 and b = 2
        and c = 256 and d = 0 and a' = 3 and b' = 8 and c' = 513 and d' = 0] r len by (auto simp: numbered_def)
qed

section \<open>ACPI tables\<close>

lemma table_byte_append: "table_byte (pre @ bs) (length pre + i) = table_byte bs i"
  by (simp add: table_byte_def)

lemma table_dword_append: "table_dword (pre @ bs) (length pre + i) = table_dword bs i"
  by (simp only: table_dword_def table_byte_append add.assoc)

lemma length_dword_bytes [simp]: "length (dword_bytes w) = 4"
  by (simp add: dword_bytes_def)

lemma dword_bytes_at: "table_dword (dword_bytes w @ bs) 0 = Some w"
proof -
  have "(ucast (ucast w :: u8) :: u32) OR push_bit 8 (ucast (ucast (drop_bit 8 w) :: u8)) OR
      push_bit 16 (ucast (ucast (drop_bit 16 w) :: u8)) OR push_bit 24 (ucast (ucast (drop_bit 24 w) :: u8)) = w" (is "?v = w")
  proof (rule bit_word_eqI)
    fix n assume "n < LENGTH(32)"
    then show "bit ?v n \<longleftrightarrow> bit w n"
      by (cases "n < 8"; cases "n < 16"; cases "n < 24")
         (auto simp: bit_or_iff bit_push_bit_iff bit_unsigned_iff bit_drop_bit_eq)
  qed
  then show ?thesis by (simp add: table_dword_def table_byte_def dword_bytes_def)
qed

text \<open>The entries of the interrupt controller table: local controllers, and others the code steps over.\<close>

datatype madt_entry = Lapic u8 u8 u32 | Other u8 "u8 list"

fun madt_bytes :: "madt_entry \<Rightarrow> u8 list" where
  "madt_bytes (Lapic processor_id apic_id flags) = [0, 8, processor_id, apic_id] @ dword_bytes flags"
| "madt_bytes (Other type body) = [type, of_nat (length body + 2)] @ body"

fun madt_ok :: "madt_entry \<Rightarrow> bool" where
  "madt_ok (Lapic _ _ _) = True"
| "madt_ok (Other type body) \<longleftrightarrow> type \<noteq> 0 \<and> length body \<le> 253"

fun enabled_id :: "madt_entry \<Rightarrow> u8 option" where
  "enabled_id (Lapic _ apic_id flags) = (if flags AND 1 \<noteq> 0 then Some apic_id else None)"
| "enabled_id (Other _ _) = None"

definition enabled_ids :: "madt_entry list \<Rightarrow> u8 list" where
  "enabled_ids es = map the (filter (\<lambda>x. x \<noteq> None) (map enabled_id es))"

text \<open>The table after numbers have been entered from position \<open>k\<close> on.\<close>

fun enter_ids :: "nat \<Rightarrow> u8 list \<Rightarrow> cpu_info list \<Rightarrow> cpu_info list" where
  "enter_ids k [] cs = cs"
| "enter_ids k (a # as) cs = enter_ids (Suc k) as (cs[k := (cs ! k)\<lparr>cpu_apic_id := ucast a\<rparr>])"

lemma length_enter_ids [simp]: "length (enter_ids k as cs) = length cs"
  by (induction k as cs rule: enter_ids.induct) auto

lemma enter_ids_nth:
  "k + length as \<le> length cs \<Longrightarrow>
   enter_ids k as cs ! i = (if k \<le> i \<and> i < k + length as then (cs ! i)\<lparr>cpu_apic_id := ucast (as ! (i - k))\<rparr> else cs ! i)"
proof (induction k as cs rule: enter_ids.induct)
  case (2 k a as cs)
  then show ?case by (auto simp: nth_list_update nth_Cons' Suc_diff_Suc)
qed auto

lemma madt_loop_step:
  assumes "ptr < e" "table_byte tab ptr = Some ty" "table_byte tab (ptr + 1) = Some len"
    "(if ty = 0 then madt_lapic tab ptr a else Some a) = Some b"
  shows "madt_loop tab e ptr a = madt_loop tab e (ptr + unat len) b"
  using assms by (simp add: madt_loop.simps [of tab e ptr a])

lemma madt_bytes_length:
  assumes "madt_ok e"
  shows "unat (of_nat (length (madt_bytes e)) :: u8) = length (madt_bytes e)" "2 \<le> length (madt_bytes e)"
proof -
  have "length (madt_bytes e) < 2 ^ 8" using assms by (cases e) simp_all
  then show "unat (of_nat (length (madt_bytes e)) :: u8) = length (madt_bytes e)"
    by (simp add: unsigned_of_nat take_bit_nat_eq_self)
  show "2 \<le> length (madt_bytes e)" by (cases e) simp_all
qed

lemma madt_bytes_at:
  shows "table_byte (pre @ madt_bytes e @ rest) (length pre) = Some (madt_bytes e ! 0)"
    and "table_byte (pre @ madt_bytes e @ rest) (Suc (length pre)) = Some (of_nat (length (madt_bytes e)))"
proof -
  have "table_byte (madt_bytes e @ rest) 0 = Some (madt_bytes e ! 0)"
      "table_byte (madt_bytes e @ rest) 1 = Some (of_nat (length (madt_bytes e)))"
    by (cases e; simp add: table_byte_def)+
  then show "table_byte (pre @ madt_bytes e @ rest) (length pre) = Some (madt_bytes e ! 0)"
      "table_byte (pre @ madt_bytes e @ rest) (Suc (length pre)) = Some (of_nat (length (madt_bytes e)))"
    using table_byte_append [of pre "madt_bytes e @ rest" 0] table_byte_append [of pre "madt_bytes e @ rest" 1] by simp_all
qed

lemma lapic_flags: "table_dword (pre @ madt_bytes (Lapic p a f) @ rest) (length pre + 4) = Some f"
proof -
  have "table_dword ([0, 8, p, a] @ dword_bytes f @ rest) (length [0, 8, p, a] + 0) = Some f"
    by (simp only: table_dword_append dword_bytes_at)
  then have "table_dword (madt_bytes (Lapic p a f) @ rest) 4 = Some f" by (simp add: numeral_eq_Suc)
  then show ?thesis using table_dword_append [of pre "madt_bytes (Lapic p a f) @ rest" 4] by simp
qed

lemma madt_loop_entries:
  assumes "\<forall>e\<in>set es. madt_ok e" "k + length (enabled_ids es) \<le> length (cpus topo)" "length (cpus topo) \<le> 256"
  shows "madt_loop (pre @ concat (map madt_bytes es)) (length pre + length (concat (map madt_bytes es))) (length pre)
      (of_nat k, topo) =
    Some (of_nat (k + length (enabled_ids es)), topo\<lparr>cpus := enter_ids k (enabled_ids es) (cpus topo)\<rparr>)"
  using assms
proof (induction es arbitrary: pre k topo)
  case Nil
  then show ?case by (simp add: madt_loop.simps enabled_ids_def)
next
  case (Cons e es)
  let ?rest = "concat (map madt_bytes es)" and ?bs = "madt_bytes e"
  have ok: "madt_ok e" using Cons.prems(1) by simp
  note n = madt_bytes_length [OF ok] and bs = madt_bytes_at [of pre e ?rest]
  have IH: "madt_loop (pre @ ?bs @ ?rest) (length pre + (length ?bs + length ?rest)) (length pre + length ?bs) (of_nat j, u) =
      Some (of_nat (j + length (enabled_ids es)), u\<lparr>cpus := enter_ids j (enabled_ids es) (cpus u)\<rparr>)"
    if "j + length (enabled_ids es) \<le> length (cpus u)" "length (cpus u) \<le> 256" for j u
    using Cons.IH [of j u "pre @ ?bs"] that Cons.prems(1) by (simp add: add.assoc)
  have step: "madt_loop (pre @ ?bs @ ?rest) (length pre + (length ?bs + length ?rest)) (length pre) (of_nat k, topo) =
      madt_loop (pre @ ?bs @ ?rest) (length pre + (length ?bs + length ?rest)) (length pre + length ?bs) b"
    if "(if ?bs ! 0 = 0 then madt_lapic (pre @ ?bs @ ?rest) (length pre) (of_nat k, topo) else Some (of_nat k, topo)) = Some b"
    for b
  proof -
    have "length pre < length pre + (length ?bs + length ?rest)" using n(2) by linarith
    from madt_loop_step [OF this bs(1) _ that, of "of_nat (length ?bs)"] bs(2) n(1) show ?thesis by simp
  qed
  show ?case
  proof (cases "enabled_id e")
    case None
    then have "enabled_ids (e # es) = enabled_ids es" by (simp add: enabled_ids_def)
    moreover have "(if ?bs ! 0 = 0 then madt_lapic (pre @ ?bs @ ?rest) (length pre) (of_nat k, topo) else Some (of_nat k, topo)) =
        Some (of_nat k, topo)"
    proof (cases e)
      case (Lapic p a f)
      then have "table_dword (pre @ ?bs @ ?rest) (length pre + 4) = Some f"
        using lapic_flags [of pre p a f ?rest] by simp
      then show ?thesis using None Lapic by (simp add: madt_lapic_def split: if_splits)
    next
      case (Other ty body)
      then show ?thesis using Cons.prems(1) by simp
    qed
    moreover note step [OF this]
    ultimately show ?thesis using IH [of k topo] Cons.prems(2,3) by simp
  next
    case (Some a)
    then obtain p f where e: "e = Lapic p a f" "f AND 1 \<noteq> 0" by (cases e) (auto split: if_splits)
    then have ids: "enabled_ids (e # es) = a # enabled_ids es" by (simp add: enabled_ids_def)
    then have k: "k < length (cpus topo)" "unat (of_nat k :: u32) = k"
      using Cons.prems(2,3) by (auto simp: unsigned_of_nat take_bit_nat_eq_self)
    let ?u = "topo\<lparr>cpus := (cpus topo)[k := (cpus topo ! k)\<lparr>cpu_apic_id := ucast a\<rparr>]\<rparr>"
    have "table_dword (pre @ ?bs @ ?rest) (length pre + 4) = Some f"
      using lapic_flags [of pre p a f ?rest] e(1) by simp
    moreover have "table_byte (pre @ ?bs @ ?rest) (length pre + 3) = Some a"
      using table_byte_append [of pre "?bs @ ?rest" 3] e(1) by (simp add: table_byte_def)
    ultimately have "madt_lapic (pre @ ?bs @ ?rest) (length pre) (of_nat k, topo) = Some (of_nat (Suc k), ?u)"
      using e(2) k by (simp add: madt_lapic_def update_cpu_def)
    then have b: "(if ?bs ! 0 = 0 then madt_lapic (pre @ ?bs @ ?rest) (length pre) (of_nat k, topo) else Some (of_nat k, topo)) =
        Some (of_nat (Suc k), ?u)" using e(1) by simp
    have "length (enabled_ids (e # es)) = Suc (length (enabled_ids es))"
        "enter_ids k (enabled_ids (e # es)) (cpus topo) = enter_ids (Suc k) (enabled_ids es) (cpus ?u)"
      by (simp_all add: ids)
    then show ?thesis using IH [of "Suc k" ?u] Cons.prems(2,3) step [OF b] by simp
  qed
qed

definition acpi_table :: "u8 list \<Rightarrow> u8 list \<Rightarrow> u8 list \<Rightarrow> u8 list" where
  "acpi_table signature header entries =
     signature @ dword_bytes (of_nat (8 + length header + length entries)) @ header @ entries"

lemma acpi_table_length:
  assumes "length signature = 4" "8 + length header + length entries < 2 ^ 32"
  obtains n where "table_dword (acpi_table signature header entries) 4 = Some n" "unat n = 8 + length header + length entries"
proof -
  let ?n = "of_nat (8 + length header + length entries) :: u32"
  have "unat ?n = 8 + length header + length entries"
    using assms(2) by (simp add: unsigned_of_nat take_bit_nat_eq_self del: of_nat_add)
  moreover have "table_dword (acpi_table signature header entries) 4 = Some ?n"
    using dword_bytes_at [of ?n "header @ entries"] table_dword_append [of signature "dword_bytes ?n @ header @ entries" 0] assms(1)
    by (simp add: acpi_table_def)
  ultimately show thesis using that by blast
qed

text \<open>From a table of well-formed entries the code takes exactly the numbers of the enabled local controllers, in the
  order of the table, into the first slots of the processor table, and counts them; every other field keeps its value.\<close>

theorem parse_madt_entries:
  assumes "\<forall>e\<in>set es. madt_ok e" "length (enabled_ids es) \<le> 256" "length (cpus topo) = 256"
    and "length signature = 4" "length header = 36" "44 + length (concat (map madt_bytes es)) < 2 ^ 32"
  shows "parse_madt (acpi_table signature header (concat (map madt_bytes es))) topo =
      Some (topo\<lparr>cpus := enter_ids 0 (enabled_ids es) (cpus topo), num_threads := of_nat (length (enabled_ids es))\<rparr>) \<and>
    (\<forall>i < length (enabled_ids es). enter_ids 0 (enabled_ids es) (cpus topo) ! i =
      (cpus topo ! i)\<lparr>cpu_apic_id := ucast (enabled_ids es ! i)\<rparr>)"
proof -
  let ?bs = "concat (map madt_bytes es)"
  obtain n where n: "table_dword (acpi_table signature header ?bs) 4 = Some n" "unat n = 44 + length ?bs"
    using acpi_table_length [OF assms(4), of header ?bs] assms(5,6) by auto
  obtain pre where pre: "acpi_table signature header ?bs = pre @ ?bs" "length pre = 44"
    using assms(4,5) that [of "signature @ dword_bytes (of_nat (8 + length header + length ?bs)) @ header"]
    by (simp add: acpi_table_def)
  then have "madt_loop (acpi_table signature header ?bs) (44 + length ?bs) 44 (0, topo) =
      Some (of_nat (length (enabled_ids es)), topo\<lparr>cpus := enter_ids 0 (enabled_ids es) (cpus topo)\<rparr>)"
    using madt_loop_entries [OF assms(1), of 0 topo pre] assms(2,3) by simp
  then show ?thesis using n enter_ids_nth [of 0 "enabled_ids es" "cpus topo"] assms(2,3) by (simp add: parse_madt_def)
qed

definition sample_madt :: "madt_entry list" where
  "sample_madt = [Lapic 0 0 1, Other 1 (replicate 10 0), Lapic 1 2 1, Lapic 2 4 0]"

theorem parse_madt_entries_witness:
  "\<exists>t. parse_madt (acpi_table [0x41, 0x50, 0x49, 0x43] (replicate 36 0) (concat (map madt_bytes sample_madt))) blank_topology =
     Some t \<and> num_threads t = 2 \<and> cpu_apic_id (cpus t ! 1) = 2"
proof -
  have ids: "enabled_ids sample_madt = [0, 2]" by (simp add: enabled_ids_def sample_madt_def)
  have ok: "\<forall>e\<in>set sample_madt. madt_ok e" "length (concat (map madt_bytes sample_madt)) = 36"
    by (simp_all add: sample_madt_def)
  have len: "length (cpus blank_topology) = 256" by (simp add: blank_topology_def)
  show ?thesis
    using parse_madt_entries [OF ok(1) _ len, of "[0x41, 0x50, 0x49, 0x43]" "replicate 36 0"] ids ok(2) by auto
qed

text \<open>An entry of length zero, at any place the code reaches, and it never gets past it.\<close>

lemma madt_loop_moves:
  assumes "madt_loop tab e ptr a = Some b"
  shows "\<not> (ptr < e \<and> table_byte tab (ptr + 1) = Some 0)"
proof (rule madt_loop.raw_induct [OF _ assms])
  fix f tab e ptr a b
  assume IH: "\<And>tab e ptr a b. f tab e ptr a = Some b \<Longrightarrow> \<not> (ptr < e \<and> table_byte tab (ptr + 1) = Some 0)"
    and step: "(if ptr < e
      then do {
        type \<leftarrow> table_byte tab ptr;
        entry_length \<leftarrow> table_byte tab (ptr + 1);
        b \<leftarrow> (if type = 0 then madt_lapic tab ptr a else Some a);
        f tab e (ptr + unat entry_length) b
      }
      else Some a) = Some b"
  show "\<not> (ptr < e \<and> table_byte tab (ptr + 1) = Some 0)"
  proof
    assume stuck: "ptr < e \<and> table_byte tab (ptr + 1) = Some 0"
    then obtain c where "f tab e (ptr + unat (0 :: u8)) c = Some b"
      using step by (auto simp: bind_eq_Some_conv simp del: unat_0 split: if_splits)
    then show False using IH [of tab e ptr c b] stuck by simp
  qed
qed

lemma madt_loop_stuck: "ptr < e \<Longrightarrow> table_byte tab (ptr + 1) = Some 0 \<Longrightarrow> madt_loop tab e ptr a = None"
  using madt_loop_moves by (cases "madt_loop tab e ptr a") auto

section \<open>Time\<close>

definition ns_at :: "hal \<Rightarrow> nat \<Rightarrow> u64" where
  "ns_at s n = (clock s n * 1000000000) div tsc_frequency s"

lemma get_nanoseconds:
  "tsc_frequency s \<noteq> 0 \<Longrightarrow> hal_get_nanoseconds s = Some (ns_at s (reads s), s\<lparr>reads := Suc (reads s)\<rparr>)"
  by (simp add: hal_get_nanoseconds_def rdtsc_def ns_at_def)

lemma ns_at_reads [simp]: "ns_at (s\<lparr>reads := k\<rparr>) n = ns_at s n"
  by (simp add: ns_at_def)

lemma unat_ns_at:
  assumes "unat (clock s n) * 1000000000 < 2 ^ 64"
  shows "unat (ns_at s n) = unat (clock s n) * 1000000000 div unat (tsc_frequency s)"
  using assms by (simp add: ns_at_def unat_div unat_word_ariths)

text \<open>A wait ends with the first reading that is late enough, and only with such a reading.\<close>

lemma wait_loop_returns:
  assumes "tsc_frequency s \<noteq> 0" "reads s \<le> m" "d \<le> ns_at s m - start"
    and "\<And>n. reads s \<le> n \<Longrightarrow> n < m \<Longrightarrow> ns_at s n - start < d"
  shows "ns_wait_loop d start s = Some (s\<lparr>reads := Suc m\<rparr>)"
  using assms
proof (induction "m - reads s" arbitrary: s)
  case 0
  then have m: "m = reads s" by simp
  then have "\<not> ns_at s (reads s) - start < d" using "0.prems" by (simp add: not_less)
  then show ?case using "0.prems"(1) m by (subst ns_wait_loop.simps) (simp add: get_nanoseconds)
next
  case (Suc k)
  let ?t = "s\<lparr>reads := Suc (reads s)\<rparr>"
  have "reads s < m" "k = m - reads ?t" using Suc.hyps(2) by simp_all
  moreover have "ns_wait_loop d start ?t = Some (?t\<lparr>reads := Suc m\<rparr>)"
    by (rule Suc.hyps(1)) (use Suc.prems calculation in simp_all)
  ultimately show ?case using Suc.prems by (subst ns_wait_loop.simps) (simp add: get_nanoseconds)
qed

lemma wait_loop_late:
  assumes "ns_wait_loop d start s = Some t"
  shows "tsc_frequency s \<noteq> 0 \<and> (\<exists>m \<ge> reads s. d \<le> ns_at s m - start)"
proof (rule ns_wait_loop.raw_induct [OF _ assms])
  fix f d start s t
  assume IH: "\<And>d start s t. f d start s = Some t \<Longrightarrow> tsc_frequency s \<noteq> 0 \<and> (\<exists>m \<ge> reads s. d \<le> ns_at s m - start)"
    and step: "do {
     (now, t) \<leftarrow> hal_get_nanoseconds s;
     (if now - start < d then f d start t else Some t) } = Some t"
  then have nz: "tsc_frequency s \<noteq> 0" by (auto simp: hal_get_nanoseconds_def rdtsc_def split: if_splits)
  show "tsc_frequency s \<noteq> 0 \<and> (\<exists>m \<ge> reads s. d \<le> ns_at s m - start)"
  proof (cases "ns_at s (reads s) - start < d")
    case True
    then have "f d start (s\<lparr>reads := Suc (reads s)\<rparr>) = Some t" using step nz by (simp add: get_nanoseconds)
    from IH [OF this] obtain m where "Suc (reads s) \<le> m" "d \<le> ns_at s m - start" by auto
    then show ?thesis using nz Suc_leD by blast
  next
    case False
    then show ?thesis using nz not_less by blast
  qed
qed

definition late :: "hal \<Rightarrow> u64 \<Rightarrow> nat \<Rightarrow> nat \<Rightarrow> bool" where
  "late s d n m \<longleftrightarrow> n < m \<and> d \<le> ns_at s m - ns_at s n"

lemma wait_ns_returns:
  assumes "tsc_frequency s \<noteq> 0" "late s d (reads s) k"
  obtains m where "wait_ns d s = Some (s\<lparr>reads := Suc m\<rparr>)" "late s d (reads s) m" "\<And>n. late s d (reads s) n \<Longrightarrow> m \<le> n"
proof -
  let ?m = "LEAST m. late s d (reads s) m" and ?t = "s\<lparr>reads := Suc (reads s)\<rparr>"
  have m: "late s d (reads s) ?m" by (rule LeastI) (rule assms(2))
  have first: "ns_at s n - ns_at s (reads s) < d" if "Suc (reads s) \<le> n" "n < ?m" for n
    using not_less_Least [OF that(2)] that(1) by (simp add: late_def not_le)
  have "ns_wait_loop d (ns_at s (reads s)) ?t = Some (?t\<lparr>reads := Suc ?m\<rparr>)"
    by (rule wait_loop_returns) (use assms(1) m first in \<open>simp_all add: late_def\<close>)
  then have "wait_ns d s = Some (s\<lparr>reads := Suc ?m\<rparr>)" using assms(1) by (simp add: wait_ns_def get_nanoseconds)
  then show thesis using that m Least_le by blast
qed

lemma nat_gap: "d \<le> v - u \<Longrightarrow> v \<le> b \<Longrightarrow> a < u + f \<Longrightarrow> x + f = d \<Longrightarrow> 0 < f \<Longrightarrow> x < b - a" for d :: nat
  by linarith

text \<open>A wait returns exactly if some later reading shows the time to have passed, and ends with the first such reading;
  as long as the product of the counter and a thousand million fits into 64 bits, the true time has then passed up to a
  nanosecond.\<close>

theorem wait_ns_exact:
  assumes "tsc_frequency s \<noteq> 0"
  shows "(wait_ns d s \<noteq> None \<longleftrightarrow> (\<exists>m. late s d (reads s) m)) \<and>
    (\<forall>t. wait_ns d s = Some t \<longrightarrow>
      (\<exists>m. t = s\<lparr>reads := Suc m\<rparr> \<and> late s d (reads s) m \<and> (\<forall>n. late s d (reads s) n \<longrightarrow> m \<le> n) \<and>
        (0 < d \<and> clock s (reads s) \<le> clock s m \<and> unat (clock s m) * 1000000000 < 2 ^ 64 \<longrightarrow>
          (unat d - 1) * unat (tsc_frequency s) < (unat (clock s m) - unat (clock s (reads s))) * 1000000000)))"
proof -
  have time: "(unat d - 1) * unat (tsc_frequency s) < (unat (clock s m) - unat (clock s (reads s))) * 1000000000"
    if "late s d (reads s) m" "0 < d" "clock s (reads s) \<le> clock s m" "unat (clock s m) * 1000000000 < 2 ^ 64" for m
  proof -
    let ?a = "unat (clock s (reads s)) * 1000000000" and ?b = "unat (clock s m) * 1000000000" and ?f = "unat (tsc_frequency s)"
    have le: "?a \<le> ?b" using that(3) by (simp add: word_le_nat_alt)
    then have ns: "unat (ns_at s (reads s)) = ?a div ?f" "unat (ns_at s m) = ?b div ?f"
      using unat_ns_at [of s "reads s"] unat_ns_at [of s m] that(4) by simp_all
    then have "ns_at s (reads s) \<le> ns_at s m" using div_le_mono [OF le] by (simp add: word_le_nat_alt)
    then have "unat d \<le> ?b div ?f - ?a div ?f"
      using that(1) ns unat_sub [of "ns_at s (reads s)" "ns_at s m"] by (simp add: late_def word_le_nat_alt)
    then have "unat d * ?f \<le> (?b div ?f) * ?f - (?a div ?f) * ?f" by (metis diff_mult_distrib mult_le_mono1)
    moreover have "(?b div ?f) * ?f \<le> ?b" by simp
    moreover have "?a < (?a div ?f) * ?f + ?f" using dividend_less_div_times [of ?f ?a] assms by (simp add: unat_gt_0)
    moreover have "(unat d - 1) * ?f + ?f = unat d * ?f" using that(2) by (cases "unat d") (simp_all add: word_less_nat_alt)
    ultimately have "(unat d - 1) * ?f < ?b - ?a" by (rule nat_gap) (use assms in \<open>simp add: unat_gt_0\<close>)
    then show ?thesis by (simp only: diff_mult_distrib)
  qed
  show ?thesis
  proof (cases "\<exists>m. late s d (reads s) m")
    case True
    then obtain k where k: "late s d (reads s) k" by blast
    obtain m where m: "wait_ns d s = Some (s\<lparr>reads := Suc m\<rparr>)"
      "late s d (reads s) m" "\<And>n. late s d (reads s) n \<Longrightarrow> m \<le> n"
      by (rule wait_ns_returns [OF assms k], rule that)
    then show ?thesis using time [OF m(2)] True by auto
  next
    case False
    have "wait_ns d s = None"
    proof (cases "wait_ns d s")
      case (Some t)
      then have "ns_wait_loop d (ns_at s (reads s)) (s\<lparr>reads := Suc (reads s)\<rparr>) = Some t"
        using assms by (simp add: wait_ns_def get_nanoseconds)
      from wait_loop_late [OF this] show ?thesis using False by (auto simp: late_def Suc_le_eq)
    qed
    then show ?thesis using False by simp
  qed
qed

text \<open>When the product wraps around, the time goes back and every wait is over at once.\<close>

lemma wait_cut_short:
  assumes "1 < tsc_frequency s" "ns_at s (Suc (reads s)) < ns_at s (reads s)" "d \<le> 2 ^ 63"
  shows "wait_ns d s = Some (s\<lparr>reads := Suc (Suc (reads s))\<rparr>)"
proof -
  let ?x = "ns_at s (reads s)" and ?y = "ns_at s (Suc (reads s))"
  have f: "2 \<le> unat (tsc_frequency s)" using assms(1) by (simp add: word_less_nat_alt)
  have "unat ?x \<le> 2 ^ 63"
  proof -
    let ?p = "clock s (reads s) * 1000000000"
    have "unat ?x = unat ?p div unat (tsc_frequency s)" by (simp only: ns_at_def unat_div)
    also have "\<dots> \<le> unat ?p div 2" using f by (intro div_le_mono2) simp_all
    also have "\<dots> \<le> 2 ^ 63" using unsigned_less [of ?p, where ?'a = nat] by simp
    finally show ?thesis .
  qed
  moreover have "unat (?y - ?x) = 2 ^ 64 - (unat ?x - unat ?y)"
    using assms(2) unsigned_less [of ?x, where ?'a = nat] by (simp add: unat_sub_if' word_less_nat_alt)
  ultimately have "d \<le> ?y - ?x" using assms(3) by (simp add: word_le_nat_alt)
  then have "ns_wait_loop d ?x (s\<lparr>reads := Suc (reads s)\<rparr>) = Some (s\<lparr>reads := Suc (Suc (reads s))\<rparr>)"
    using assms(1) wait_loop_returns [of "s\<lparr>reads := Suc (reads s)\<rparr>" "Suc (reads s)" d ?x] by (force)
  moreover have "tsc_frequency s \<noteq> 0" using f by auto
  ultimately show ?thesis by (simp add: wait_ns_def get_nanoseconds)
qed

text \<open>A counter at 2.4 GHz read every ten milliseconds, and one read just before and after the wrap of the product.\<close>

definition blank_features :: cpu_features where
  "blank_features = \<lparr>f_fpu = False, f_tsc = False, f_msr = False, f_apic = False, f_mtrr = False, f_sse = False,
     f_sse2 = False, f_sse3 = False, f_ssse3 = False, f_sse4_1 = False, f_sse4_2 = False, f_avx = False, f_avx2 = False,
     f_avx512f = False, f_x2apic = False, f_pcid = False, f_invpcid = False, f_smep = False, f_smap = False,
     f_gbpages = False, f_rdtscp = False, f_invariant_tsc = False, f_hypervisor = False, f_vendor = replicate 13 0,
     f_family = 0, f_model = 0, f_stepping = 0, f_max_cpuid = 0\<rparr>"

definition hal_at :: "(nat \<Rightarrow> u64) \<Rightarrow> hal" where
  "hal_at readings = \<lparr>msrs = (\<lambda>_. 0), mmio = (\<lambda>_. 0), writes = [], clock = readings, reads = 0, apic_base_phys = 0,
     apic_base_virt = 0, x2apic_mode = False, tsc_frequency = 2400000000, g_features = blank_features,
     g_topology = blank_topology, g_tsc_frequency = 0, g_x2apic_enabled = False\<rparr>"

theorem wait_ns_exact_witness:
  "\<exists>m. wait_ns 10000000 (hal_at (\<lambda>n. of_nat n * 24000000)) = Some ((hal_at (\<lambda>n. of_nat n * 24000000))\<lparr>reads := Suc m\<rparr>)"
proof -
  let ?s = "hal_at (\<lambda>n. of_nat n * 24000000)"
  have f: "tsc_frequency ?s \<noteq> 0" by (simp add: hal_at_def)
  have "late ?s 10000000 (reads ?s) 1" by (simp add: late_def ns_at_def hal_at_def)
  then have "wait_ns 10000000 ?s \<noteq> None" using wait_ns_exact [OF f, of 10000000] by blast
  then show ?thesis using wait_ns_exact [OF f, of 10000000] by blast
qed

lemma wait_cut_short_example:
  "wait_ns 10000000 (hal_at (\<lambda>n. 18446744073 + of_nat n)) = Some ((hal_at (\<lambda>n. 18446744073 + of_nat n))\<lparr>reads := 2\<rparr>)"
proof -
  let ?s = "hal_at (\<lambda>n. 18446744073 + of_nat n)"
  have "ns_at ?s (Suc (reads ?s)) < ns_at ?s (reads ?s)" by (simp add: ns_at_def hal_at_def)
  then have "wait_ns 10000000 ?s = Some (?s\<lparr>reads := Suc (Suc (reads ?s))\<rparr>)"
    by (intro wait_cut_short) (simp_all add: hal_at_def)
  then show ?thesis by (simp add: hal_at_def numeral_2_eq_2)
qed

section \<open>Starting processors\<close>

definition init_ipi :: "u32 \<Rightarrow> reg_write" where
  "init_ipi apic_id = Msr 0x830 (push_bit 32 (ucast apic_id) OR 0x4500)"

definition startup_ipi :: "u64 \<Rightarrow> u32 \<Rightarrow> reg_write" where
  "startup_ipi code apic_id =
     Msr 0x830 (push_bit 32 (ucast apic_id) OR ucast (0x4600 OR ucast (drop_bit 12 code AND 0xFF) :: u32))"

definition same_time :: "hal \<Rightarrow> hal \<Rightarrow> bool" where
  "same_time s t \<longleftrightarrow> clock t = clock s \<and> tsc_frequency t = tsc_frequency s \<and> x2apic_mode t = x2apic_mode s"

lemma same_time_ns: "same_time s t \<Longrightarrow> ns_at t = ns_at s"
  by (simp add: same_time_def ns_at_def fun_eq_iff)

text \<open>The clock keeps running: some later reading is ten milliseconds on.\<close>

definition clock_ticks :: "hal \<Rightarrow> bool" where
  "clock_ticks s \<longleftrightarrow> tsc_frequency s \<noteq> 0 \<and> (\<forall>n. \<exists>m. late s 10000000 n m)"

lemma same_time_clock: "same_time s t \<Longrightarrow> clock_ticks s \<Longrightarrow> clock_ticks t"
  using same_time_ns [of s t] by (simp add: clock_ticks_def late_def same_time_def)

lemma send_ipi_x2:
  "x2apic_mode s \<Longrightarrow> hal_apic_send_ipi dest vector s = Some (wrmsr 0x830 (push_bit 32 (ucast dest) OR ucast vector) s)"
  by (simp add: hal_apic_send_ipi_def)

lemma wrmsr_simps [simp]:
  "same_time s (wrmsr msr v s)" "reads (wrmsr msr v s) = reads s"
  "writes (wrmsr msr v s) = writes s @ [(reads s, Msr msr v)]" "x2apic_mode (wrmsr msr v s) = x2apic_mode s"
  "tsc_frequency (wrmsr msr v s) = tsc_frequency s" "clock (wrmsr msr v s) = clock s"
  by (simp_all add: wrmsr_def same_time_def)

lemma ns_at_wrmsr [simp]: "ns_at (wrmsr msr v s) = ns_at s"
  by (simp add: ns_at_def fun_eq_iff)

lemma late_frame [simp]: "late (s\<lparr>reads := k\<rparr>) = late s" "late (wrmsr msr v s) = late s"
  by (simp_all add: late_def fun_eq_iff)

lemma start_ap_returns:
  assumes "x2apic_mode s" "clock_ticks s"
  obtains t m1 m2 where "hal_start_ap code apic_id s = Some t" "same_time s t" "reads t = Suc m2"
    "writes t = writes s @ [(reads s, init_ipi apic_id), (Suc m1, startup_ipi code apic_id), (Suc m2, startup_ipi code apic_id)]"
    "late s 10000000 (reads s) m1" "late s 200000 (Suc m1) m2"
proof -
  let ?v = "0x4600 OR ucast (drop_bit 12 code AND 0xFF) :: u32"
  let ?s1 = "wrmsr 0x830 (push_bit 32 (ucast apic_id) OR 0x4500) s"
  have f: "tsc_frequency s \<noteq> 0" and tick: "\<exists>m. late s 10000000 n m" for n using assms(2) by (simp_all add: clock_ticks_def)
  obtain k1 where k1: "late ?s1 10000000 (reads ?s1) k1" using tick [of "reads s"] by auto
  obtain m1 where m1: "wait_ns 10000000 ?s1 = Some (?s1\<lparr>reads := Suc m1\<rparr>)" "late ?s1 10000000 (reads ?s1) m1"
    by (rule wait_ns_returns [OF _ k1]) (use f in auto)
  let ?s3 = "wrmsr 0x830 (push_bit 32 (ucast apic_id) OR ucast ?v) (?s1\<lparr>reads := Suc m1\<rparr>)"
  obtain k2 where "late s 10000000 (Suc m1) k2" using tick by blast
  then have k2: "late ?s3 200000 (reads ?s3) k2" by (simp add: late_def word_le_nat_alt)
  obtain m2 where m2: "wait_ns 200000 ?s3 = Some (?s3\<lparr>reads := Suc m2\<rparr>)" "late ?s3 200000 (reads ?s3) m2"
    by (rule wait_ns_returns [OF _ k2]) (use f in auto)
  let ?t = "wrmsr 0x830 (push_bit 32 (ucast apic_id) OR ucast ?v) (?s3\<lparr>reads := Suc m2\<rparr>)"
  have "hal_start_ap code apic_id s = Some ?t"
    using assms(1) m1(1) m2(1) by (simp add: hal_start_ap_def send_ipi_x2 Let_def)
  moreover have "same_time s ?t" by (simp add: same_time_def)
  moreover have "writes ?t = writes s @ [(reads s, init_ipi apic_id), (Suc m1, startup_ipi code apic_id), (Suc m2, startup_ipi code apic_id)]"
    by (simp add: init_ipi_def startup_ipi_def)
  ultimately show thesis using that [of ?t m2 m1] m1(2) m2(2) by simp
qed

text \<open>On a clock_ticks clock \<open>hal_start_ap\<close> returns after sending to the one processor first INIT, then twice STARTUP with the
  page of the start code, with a wait of ten milliseconds and one of two hundred microseconds in between.\<close>

theorem hal_start_ap_protocol:
  assumes "x2apic_mode s" "clock_ticks s"
  shows "\<exists>t m1 m2. hal_start_ap code apic_id s = Some t \<and> same_time s t \<and> reads t = Suc m2 \<and>
    writes t = writes s @ [(reads s, init_ipi apic_id), (Suc m1, startup_ipi code apic_id), (Suc m2, startup_ipi code apic_id)] \<and>
    late s 10000000 (reads s) m1 \<and> late s 200000 (Suc m1) m2"
  by (rule start_ap_returns [OF assms, of code apic_id]) blast

theorem hal_start_ap_protocol_witness:
  "\<exists>t m1 m2. hal_start_ap 0x8000 3 ((hal_at (\<lambda>n. if even n then 0 else 24000000))\<lparr>x2apic_mode := True\<rparr>) = Some t \<and>
     map snd (writes t) = [Msr 0x830 0x300004500, Msr 0x830 0x300004608, Msr 0x830 0x300004608] \<and>
     late t 10000000 0 m1 \<and> late t 200000 (Suc m1) m2"
proof -
  let ?s = "(hal_at (\<lambda>n. if even n then 0 else 24000000))\<lparr>x2apic_mode := True\<rparr>"
  have "late ?s 10000000 n (Suc n)" for n by (simp add: late_def ns_at_def hal_at_def)
  then have tick: "clock_ticks ?s" by (auto simp: clock_ticks_def hal_at_def)
  have x: "x2apic_mode ?s" by simp
  obtain t m1 m2 where t: "hal_start_ap 0x8000 3 ?s = Some t" "same_time ?s t"
    "writes t = writes ?s @ [(reads ?s, init_ipi 3), (Suc m1, startup_ipi 0x8000 3), (Suc m2, startup_ipi 0x8000 3)]"
    "late ?s 10000000 (reads ?s) m1" "late ?s 200000 (Suc m1) m2"
    using hal_start_ap_protocol [OF x tick, of "0x8000" 3] by blast
  have "late t = late ?s" using same_time_ns [OF t(2)] by (simp add: late_def fun_eq_iff)
  then show ?thesis using t
    by (intro exI [of _ t] exI [of _ m1] exI [of _ m2]) (simp add: init_ipi_def startup_ipi_def hal_at_def)
qed

lemma hal_start_ap_ok:
  assumes "x2apic_mode s" "clock_ticks s"
  obtains t where "hal_start_ap code apic_id s = Some t" "same_time s t"
    "map snd (writes t) = map snd (writes s) @ [init_ipi apic_id, startup_ipi code apic_id, startup_ipi code apic_id]"
  by (rule start_ap_returns [OF assms, of code apic_id], rule that, assumption, assumption) simp

text \<open>C40: With the interrupt controller in x2APIC mode (without it the messages would go to the unmapped register block), a
  frequency of the time stamp counter that is not zero, and a counter that after every reading comes to show 10
  milliseconds more, \<open>hal_smp_init\<close> returns and has sent INIT and twice STARTUP to every listed processor but the one it
  runs on, one after the other in the order of the table, and to no other.\<close>

theorem hal_smp_init_starts_all:
  assumes "x2apic_mode s" "clock_ticks s" "unat (num_threads topo) \<le> length (cpus topo)"
  shows "\<exists>t. hal_smp_init code topo s = Some t \<and> map snd (writes t) = map snd (writes s) @
    concat (map (\<lambda>apic_id. [init_ipi apic_id, startup_ipi code apic_id, startup_ipi code apic_id])
      (filter (\<lambda>apic_id. apic_id \<noteq> ucast (msrs s 0x802)) (map cpu_apic_id (take (unat (num_threads topo)) (cpus topo)))))"
proof -
  let ?bsp = "ucast (msrs s 0x802) :: u32" and ?cs = "cpus topo"
  let ?msgs = "\<lambda>k. concat (map (\<lambda>apic_id. [init_ipi apic_id, startup_ipi code apic_id, startup_ipi code apic_id])
      (filter (\<lambda>apic_id. apic_id \<noteq> ?bsp) (map cpu_apic_id (take k ?cs))))"
  let ?P = "\<lambda>i u. same_time s u \<and> map snd (writes u) = map snd (writes s) @ ?msgs (unat i)"
  have "\<exists>v. start_unless code ?bsp topo i u = Some v \<and> ?P (i + 1) v" if i: "i < num_threads topo" and u: "?P i u" for i u
  proof -
    have k: "unat i < length ?cs" using i assms(3) by (simp add: word_less_nat_alt)
    have suc: "?msgs (unat (i + 1)) = ?msgs (unat i) @ (if cpu_apic_id (?cs ! unat i) = ?bsp then [] else
        [init_ipi (cpu_apic_id (?cs ! unat i)), startup_ipi code (cpu_apic_id (?cs ! unat i)), startup_ipi code (cpu_apic_id (?cs ! unat i))])"
      using k by (simp add: unat_inc_less [OF i] take_Suc_conv_app_nth)
    show ?thesis
    proof (cases "cpu_apic_id (?cs ! unat i) = ?bsp")
      case True
      then show ?thesis using k u suc by (simp add: start_unless_def)
    next
      case False
      have x: "x2apic_mode u" "clock_ticks u" using u assms(1,2) same_time_clock by (auto simp: same_time_def)
      obtain v where v: "hal_start_ap code (cpu_apic_id (?cs ! unat i)) u = Some v" "same_time u v"
        "map snd (writes v) = map snd (writes u) @ [init_ipi (cpu_apic_id (?cs ! unat i)),
           startup_ipi code (cpu_apic_id (?cs ! unat i)), startup_ipi code (cpu_apic_id (?cs ! unat i))]"
        by (rule hal_start_ap_ok [OF x], rule that)
      then show ?thesis using k u suc False by (intro exI [of _ v]) (simp add: start_unless_def same_time_def)
    qed
  qed
  then have "\<exists>v. for_try 0 (num_threads topo) (start_unless code ?bsp topo) s = Some v \<and> ?P (max 0 (num_threads topo)) v"
    by (intro for_try_rule) (simp_all add: same_time_def)
  then show ?thesis using assms(1) by (simp add: hal_smp_init_def hal_apic_get_id_def rdmsr_def) blast
qed

theorem hal_smp_init_starts_all_witness:
  "\<exists>t. hal_smp_init 0x8000 (numbered\<lparr>num_threads := 3\<rparr>) ((hal_at (\<lambda>n. if even n then 0 else 24000000))\<lparr>x2apic_mode := True\<rparr>) =
     Some t \<and> map snd (writes t) =
     [init_ipi 1, startup_ipi 0x8000 1, startup_ipi 0x8000 1, init_ipi 2, startup_ipi 0x8000 2, startup_ipi 0x8000 2]"
proof -
  let ?s = "(hal_at (\<lambda>n. if even n then 0 else 24000000))\<lparr>x2apic_mode := True\<rparr>"
  have "late ?s 10000000 n (Suc n)" for n by (simp add: late_def ns_at_def hal_at_def)
  then have tick: "clock_ticks ?s" by (auto simp: clock_ticks_def hal_at_def)
  have x: "x2apic_mode ?s" by simp
  have n: "unat (num_threads (numbered\<lparr>num_threads := 3\<rparr>)) \<le> length (cpus (numbered\<lparr>num_threads := 3\<rparr>))"
    by (simp add: numbered_def)
  have "take 3 (cpus numbered) = map (\<lambda>i. blank_entry\<lparr>cpu_apic_id := of_nat i\<rparr>) [0, 1, 2]"
  proof -
    have "[0..<3] = [0, 1, 2::nat]" by (simp add: upt_conv_Cons)
    then show ?thesis by (simp add: numbered_def take_map)
  qed
  then show ?thesis using hal_smp_init_starts_all [OF x tick n, of "0x8000"] by (simp add: hal_at_def)
qed

section \<open>Initialisation\<close>

lemma parse_placeholders [simp]: "hal_parse_madt topo = Some topo" "hal_parse_srat topo = Some topo"
  by (simp_all add: hal_parse_madt_def hal_parse_srat_def hal_acpi_find_table_def)

lemma x2apic_detected: "f_x2apic (hal_detect_cpu_features cpuid f) \<longleftrightarrow> flag 21 (fst (snd (snd (cpuid 1 0))))"
  by (simp add: hal_detect_cpu_features_def detect_extended_def detect_leaf7_def detect_basic_def split: prod.splits)

lemma ids_of_blank: "ids_of cpuid blank_entry = blank_entry"
  by (simp add: ids_of_def topology_ids_def blank_entry_def Let_def split: prod.splits)

lemma detect_blank:
  obtains t where "hal_detect_cpu_topology cpuid blank_topology = Some t" "cpus t = replicate 256 blank_entry"
    "num_threads t = num_threads (count_processors cpuid blank_topology)"
proof -
  have len: "length (cpus blank_topology) = 256" by (simp add: blank_topology_def)
  have "map (ids_of cpuid) (take n (replicate 256 blank_entry)) @ drop n (replicate 256 blank_entry) = replicate 256 blank_entry" for n
    by (cases "n \<le> 256") (simp_all add: ids_of_blank min_def replicate_add [symmetric])
  then show thesis using that detect_topology [OF len, of cpuid] by (simp add: blank_topology_def Let_def)
qed

lemma apic_init_x2:
  assumes "f_x2apic f"
  shows "hal_apic_init f s = Some (wrmsr 0x80F (ucast ((ucast (msrs s 0x80F) :: u32) OR 0x1FF))
    ((wrmsr APIC_BASE_MSR (msrs s APIC_BASE_MSR OR 0xC00) (s\<lparr>apic_base_phys := msrs s APIC_BASE_MSR AND 0xFFFFF000\<rparr>))
      \<lparr>x2apic_mode := True\<rparr>))"
proof -
  have "push_bit 11 1 OR push_bit 10 1 = (0xC00 :: u64)" by simp
  then show ?thesis using assms
    by (simp add: hal_apic_init_def apic_read_def apic_write_def rdmsr_def APIC_SPURIOUS_def APIC_BASE_MSR_def wrmsr_def
        Let_def or.assoc)
qed

lemma apic_init_null:
  assumes "\<not> f_x2apic f" "apic_base_virt s = 0" "\<not> x2apic_mode s"
  shows "hal_apic_init f s = None"
  using assms by (simp add: hal_apic_init_def apic_read_def wrmsr_def Let_def)


lemma initialize_cases:
  assumes "g_topology s = blank_topology" "apic_base_virt s = 0" "\<not> x2apic_mode s"
  shows "(hal_initialize cpuid s \<noteq> None \<longleftrightarrow> flag 21 (fst (snd (snd (cpuid 1 0))))) \<and>
    (\<forall>t. hal_initialize cpuid s = Some t \<longrightarrow>
      x2apic_mode t \<and> g_x2apic_enabled t \<and> msrs t = (msrs s)
        (0x1B := msrs s 0x1B OR 0xC00, 0x80F := ucast ((ucast (msrs s 0x80F) :: u32) OR 0x1FF)) \<and>
      cpus (g_topology t) = replicate 256 blank_entry \<and> unat (num_threads (g_topology t)) \<le> 255 \<and>
      g_tsc_frequency t = tsc_frequency t)"
proof -
  let ?f = "hal_detect_cpu_features cpuid (g_features s)"
  let ?s0 = "s\<lparr>g_features := ?f\<rparr>"
  obtain u where u: "hal_detect_cpu_topology cpuid blank_topology = Some u" "cpus u = replicate 256 blank_entry"
    "num_threads u = num_threads (count_processors cpuid blank_topology)"
    by (rule detect_blank)
  have calib: "msrs (hal_calibrate_tsc cpuid t) = msrs t" "x2apic_mode (hal_calibrate_tsc cpuid t) = x2apic_mode t"
    "g_topology (hal_calibrate_tsc cpuid t) = g_topology t" "g_x2apic_enabled (hal_calibrate_tsc cpuid t) = g_x2apic_enabled t" for t
    by (simp_all add: hal_calibrate_tsc_def split: prod.splits)
  show ?thesis
  proof (cases "f_x2apic ?f")
    case True
    note i = apic_init_x2 [OF True, of ?s0]
    then show ?thesis
      using True u assms(1) x2apic_detected [of cpuid "g_features s"] count_processors_bound [of cpuid blank_topology]
      by (simp add: hal_initialize_def calib Let_def wrmsr_def APIC_BASE_MSR_def)
  next
    case False
    then have "hal_apic_init ?f ?s0 = None" by (rule apic_init_null) (use assms in simp_all)
    then show ?thesis using False x2apic_detected [of cpuid "g_features s"] by (simp add: hal_initialize_def Let_def)
  qed
qed

text \<open>From its static state \<open>hal_initialize\<close> returns exactly on a processor with x2APIC, because the registers are never
  mapped: it then has switched the controller on in that mode and set its spurious vector. Since the topology is read before
  the tables that would give the numbers of the processors, every entry is left with number and place zero.\<close>

theorem hal_initialize_outcome:
  assumes "g_topology s = blank_topology" "apic_base_virt s = 0" "\<not> x2apic_mode s"
  shows "(hal_initialize cpuid s \<noteq> None \<longleftrightarrow> flag 21 (fst (snd (snd (cpuid 1 0))))) \<and>
    (\<forall>t. hal_initialize cpuid s = Some t \<longrightarrow>
      x2apic_mode t \<and> g_x2apic_enabled t \<and> msrs t = (msrs s)
        (0x1B := msrs s 0x1B OR 0xC00, 0x80F := ucast ((ucast (msrs s 0x80F) :: u32) OR 0x1FF)) \<and>
      cpus (g_topology t) = replicate 256 blank_entry \<and> unat (num_threads (g_topology t)) \<le> 255 \<and>
      g_tsc_frequency t = tsc_frequency t)"
  by (rule initialize_cases [OF assms])

theorem hal_initialize_outcome_witness:
  "\<exists>t. hal_initialize (sample_cpuid True) (hal_at (\<lambda>_. 0)) = Some t \<and> cpus (g_topology t) = replicate 256 blank_entry"
proof -
  have "flag 21 (fst (snd (snd (sample_cpuid True 1 0))))" by (simp add: sample_cpuid_def flag_def)
  then show ?thesis using hal_initialize_outcome [of "hal_at (\<lambda>_. 0)" "sample_cpuid True"] by (auto simp: hal_at_def)
qed

lemma no_start:
  assumes "cpus topo = replicate 256 blank_entry" "unat (num_threads topo) \<le> 255" "hal_apic_get_id t = Some 0"
  shows "hal_smp_init code topo t = Some t"
proof -
  have "\<exists>u. for_try 0 (num_threads topo) (start_unless code 0 topo) t = Some u \<and> u = t"
    using assms(1,2) by (intro for_try_rule [where P = "\<lambda>_ u. u = t"])
      (auto simp: start_unless_def word_less_nat_alt blank_entry_def)
  then show ?thesis using assms(3) by (simp add: hal_smp_init_def)
qed

text \<open>So after \<open>hal_initialize\<close> no further processor is ever started when the boot processor has the number zero,
  as it usually has: \<open>hal_smp_init\<close> does nothing at all.\<close>

theorem hal_smp_init_starts_none:
  assumes "g_topology s = blank_topology" "apic_base_virt s = 0" "\<not> x2apic_mode s" "ucast (msrs s 0x802) = (0 :: u32)"
    and "hal_initialize cpuid s = Some t"
  shows "hal_smp_init code (g_topology t) t = Some t"
proof (rule no_start)
  have t: "x2apic_mode t" "msrs t = (msrs s) (0x1B := msrs s 0x1B OR 0xC00, 0x80F := ucast ((ucast (msrs s 0x80F) :: u32) OR 0x1FF))"
    "cpus (g_topology t) = replicate 256 blank_entry" "unat (num_threads (g_topology t)) \<le> 255"
    using initialize_cases [OF assms(1-3), of cpuid] assms(5) by blast+
  show "cpus (g_topology t) = replicate 256 blank_entry" "unat (num_threads (g_topology t)) \<le> 255" by (rule t)+
  show "hal_apic_get_id t = Some 0" using t(1,2) assms(4) by (simp add: hal_apic_get_id_def rdmsr_def)
qed

theorem hal_smp_init_starts_none_witness:
  "\<exists>t. hal_initialize (sample_cpuid True) (hal_at (\<lambda>_. 0)) = Some t \<and> hal_smp_init 0x8000 (g_topology t) t = Some t"
proof -
  have s: "g_topology (hal_at (\<lambda>_. 0)) = blank_topology" "apic_base_virt (hal_at (\<lambda>_. 0)) = 0"
    "\<not> x2apic_mode (hal_at (\<lambda>_. 0))" "ucast (msrs (hal_at (\<lambda>_. 0)) 0x802) = (0 :: u32)" by (simp_all add: hal_at_def)
  have "flag 21 (fst (snd (snd (sample_cpuid True 1 0))))" by (simp add: sample_cpuid_def flag_def)
  then obtain t where t: "hal_initialize (sample_cpuid True) (hal_at (\<lambda>_. 0)) = Some t"
    using initialize_cases [OF s(1-3), of "sample_cpuid True"] by blast
  then show ?thesis using hal_smp_init_starts_none [OF s t] by blast
qed

end
