(* ===== verification/Lx_Analyzer.thy ===== *)
theory Lx_Analyzer
  imports Os2_Loader
begin

text \<open>
  The two programs that read the import table of an executable: \<open>newcode.cpp\<close>, which lists it, and
  \<open>dependency_analyzer.cpp\<close>, which judges the program by it. The file is a list of bytes, \<open>open\<close> and \<open>fstat\<close> are an
  argument, and what a program prints is the value it returns; a failure it reports is a value as well. \<open>None\<close> is
  undefined behaviour: text functions running past the end of an array, or given a negative \<open>char\<close>. The arrays
  the code does not initialise are arguments.
\<close>

section \<open>Reading\<close>

datatype failure =
    Usage | Open_failed | Stat_failed | Read_failed nat nat
  | Not_mz | Bad_header_offset | Not_lx | Table_beyond_file

text \<open>\<open>lseek\<close> and \<open>read\<close> on a regular file: short only at its end.\<close>

definition read_at :: "u8 list \<Rightarrow> nat \<Rightarrow> nat \<Rightarrow> failure + u8 list" where
  "read_at d offset n =
     (if offset + n \<le> length d then Inr (take n (drop offset d)) else Inl (Read_failed n offset))"

definition DOS_HEADER_SIZE :: nat where "DOS_HEADER_SIZE = 64"
definition LX_HEADER_SIZE :: nat where "LX_HEADER_SIZE = 176"

definition lfanew :: "u8 list \<Rightarrow> u32 option" where "lfanew dos_hdr = le32 dos_hdr 60"

text \<open>Fields of \<open>LX_HEADER\<close>, at their places in the packed structure.\<close>

definition lx_format_level :: "u8 list \<Rightarrow> u32 option" where "lx_format_level h = le32 h 4"
definition lx_cpu_type :: "u8 list \<Rightarrow> u32 option" where "lx_cpu_type h = le32 h 8"
definition lx_module_flags :: "u8 list \<Rightarrow> u32 option" where "lx_module_flags h = le32 h 20"
definition lx_import_module_table_offset :: "u8 list \<Rightarrow> u32 option" where "lx_import_module_table_offset h = le32 h 116"
definition lx_import_module_table_count :: "u8 list \<Rightarrow> u32 option" where "lx_import_module_table_count h = le32 h 120"

definition is_mz :: "u8 list \<Rightarrow> bool" where "is_mz h \<longleftrightarrow> h ! 0 = 0x4D \<and> h ! 1 = 0x5A"
definition is_lx :: "u8 list \<Rightarrow> bool" where "is_lx h \<longleftrightarrow> h ! 0 = 0x4C \<and> h ! 1 = 0x58"

section \<open>Listing the imports\<close>

datatype listed = Empty_name nat | Module_name nat "u8 list" | No_length_byte nat | Short_name nat

text \<open>What \<open>printf\<close> shows of an array for \<open>%s\<close>.\<close>

definition shown :: "u8 list \<Rightarrow> u8 list option" where
  "shown str = (if 0 \<in> set str then Some (takeWhile (\<lambda>c. c \<noteq> 0) str) else None)"

fun list_imports :: "u8 list \<Rightarrow> nat \<Rightarrow> nat \<Rightarrow> nat \<Rightarrow> listed list option" where
  "list_imports d 0 i pos = Some []"
| "list_imports d (Suc n) i pos =
     (if length d \<le> pos then Some [No_length_byte (i + 1)]
      else let len = unat (d ! pos) in
        if len = 0 then map_option (Cons (Empty_name (i + 1))) (list_imports d n (i + 1) (pos + 1))
        else let read_len = (if 255 < len then 255 else len);
                 bytes = take read_len (drop (pos + 1) d) in
          if length bytes \<noteq> read_len then Some [Short_name (i + 1)]
          else do {
            name \<leftarrow> shown (bytes @ [0]);
            rest \<leftarrow> list_imports d n (i + 1) (pos + 1 + len);
            Some (Module_name (i + 1) name # rest)
          })"

definition list_file :: "u8 list \<Rightarrow> (failure + listed list) option" where
  "list_file d =
     (case read_at d 0 DOS_HEADER_SIZE of
        Inl e \<Rightarrow> Some (Inl e)
      | Inr dos_hdr \<Rightarrow>
          if \<not> is_mz dos_hdr then Some (Inl Not_mz)
          else do {
            lf \<leftarrow> lfanew dos_hdr;
            (if length d \<le> unat lf \<or> length d < unat lf + LX_HEADER_SIZE then Some (Inl Bad_header_offset)
             else case read_at d (unat lf) LX_HEADER_SIZE of
                 Inl e \<Rightarrow> Some (Inl e)
               | Inr lx_hdr \<Rightarrow>
                   if \<not> is_lx lx_hdr then Some (Inl Not_lx)
                   else do {
                     n \<leftarrow> lx_import_module_table_count lx_hdr;
                     off \<leftarrow> lx_import_module_table_offset lx_hdr;
                     (if n = 0 then Some (Inr [])
                      else let table_offset = unat (lf + off) in
                        if length d \<le> table_offset then Some (Inl Table_beyond_file)
                        else map_option Inr (list_imports d (unat n) 0 table_offset))
                   })
          })"

text \<open>The answer of \<open>open\<close>: nothing, or whether \<open>fstat\<close> works and the bytes of the file.\<close>

type_synonym opener = "string \<Rightarrow> (bool \<times> u8 list) option"

definition with_file :: "opener \<Rightarrow> string list \<Rightarrow> (u8 list \<Rightarrow> (failure + 'a) option) \<Rightarrow> (failure + 'a) option" where
  "with_file opens argv body =
     (case argv of
        _ # filename # _ \<Rightarrow>
          (case opens filename of
             None \<Rightarrow> Some (Inl Open_failed)
           | Some (stat_ok, d) \<Rightarrow> if stat_ok then body d else Some (Inl Stat_failed))
      | _ \<Rightarrow> Some (Inl Usage))"

definition newcode_main :: "opener \<Rightarrow> string list \<Rightarrow> (failure + listed list) option" where
  "newcode_main opens argv = with_file opens argv list_file"

section \<open>Judging the imports\<close>

datatype app_type = APP_CONSOLE | APP_GUI_PM | APP_DOS | APP_UNKNOWN

text \<open>\<open>toupper\<close> in the C locale. A byte above 127 is a negative \<open>char\<close>, for which the function is not defined.\<close>

definition to_upper_byte :: "u8 \<Rightarrow> u8 option" where
  "to_upper_byte c = (if 127 < c then None else Some (if 97 \<le> c \<and> c \<le> 122 then c - 32 else c))"

fun upper_loop :: "nat \<Rightarrow> u8 list \<Rightarrow> u8 list \<Rightarrow> u8 list option" where
  "upper_loop i [] upper = None"
| "upper_loop i (c # cs) upper =
     (if c \<noteq> 0 \<and> i < 255
      then (case to_upper_byte c of
              None \<Rightarrow> None
            | Some u \<Rightarrow> if i < length upper then upper_loop (Suc i) cs (upper[i := u]) else None)
      else Some upper)"

definition bytes_of :: "string \<Rightarrow> u8 list" where "bytes_of str = map of_char str"

fun is_prefix :: "u8 list \<Rightarrow> u8 list \<Rightarrow> bool" where
  "is_prefix [] ys = True"
| "is_prefix (x # xs) [] = False"
| "is_prefix (x # xs) (y # ys) = (x = y \<and> is_prefix xs ys)"

fun contains :: "u8 list \<Rightarrow> u8 list \<Rightarrow> bool" where
  "contains [] needle = is_prefix needle []"
| "contains (y # ys) needle = (is_prefix needle (y # ys) \<or> contains ys needle)"

definition strstr :: "u8 list \<Rightarrow> string \<Rightarrow> bool option" where
  "strstr str needle = map_option (\<lambda>text. contains text (bytes_of needle)) (shown str)"

fun any_in :: "u8 list \<Rightarrow> string list \<Rightarrow> bool option" where
  "any_in str [] = Some False"
| "any_in str (n # ns) = do { b \<leftarrow> strstr str n; (if b then Some True else any_in str ns) }"

definition get_module_type :: "u8 list \<Rightarrow> u8 list \<Rightarrow> string option" where
  "get_module_type upper dll_name = do {
     up \<leftarrow> upper_loop 0 dll_name upper;
     pm \<leftarrow> any_in up [''PMWIN'', ''PMGPI'', ''PMSHAPI'', ''PMVIOP''];
     (if pm then Some ''GUI (Presentation Manager)'' else do {
       dos \<leftarrow> any_in up [''DOSCALL'', ''DOS''];
       (if dos then Some ''System/DOS calls'' else do {
         vio \<leftarrow> any_in up [''VIOCALLS'', ''KBDCALLS'', ''MOUCALLS''];
         (if vio then Some ''Console/VIO'' else do {
           rexx \<leftarrow> any_in up [''REXX''];
           (if rexx then Some ''REXX scripting'' else do {
             net \<leftarrow> any_in up [''TCP'', ''SOCKET''];
             (if net then Some ''Networking'' else do {
               media \<leftarrow> any_in up [''MMPM'', ''MCIAPI''];
               Some (if media then ''Multimedia'' else ''Other'')
             })
           })
         })
       })
     })
   }"

text \<open>\<open>uppers i\<close> is what the array holds when iteration \<open>i\<close> begins.\<close>

fun app_flags :: "(nat \<Rightarrow> u8 list) \<Rightarrow> u8 list list \<Rightarrow> nat list \<Rightarrow> bool \<times> bool \<Rightarrow> (bool \<times> bool) option" where
  "app_flags uppers imports [] a = Some a"
| "app_flags uppers imports (i # is) (has_pm, has_vio) = do {
     up \<leftarrow> upper_loop 0 (imports ! i) (uppers i);
     pm \<leftarrow> any_in up [''PMWIN'', ''PMGPI''];
     vio \<leftarrow> any_in up [''VIO'', ''KBD'', ''MOU''];
     app_flags uppers imports is (has_pm \<or> pm, has_vio \<or> vio)
   }"

definition detect_app_type :: "(nat \<Rightarrow> u8 list) \<Rightarrow> u8 list list \<Rightarrow> nat \<Rightarrow> app_type option" where
  "detect_app_type uppers imports import_count = do {
     (has_pm, has_vio) \<leftarrow> app_flags uppers imports [0..<import_count] (False, False);
     Some (if has_pm then APP_GUI_PM else if has_vio then APP_CONSOLE else APP_UNKNOWN)
   }"

text \<open>State of the reading loop: the place in the file, the array of names and the number of names.\<close>

definition read_import :: "u8 list \<Rightarrow> nat \<Rightarrow> nat \<times> u8 list list \<times> nat \<Rightarrow> nat \<times> u8 list list \<times> nat" where
  "read_import d i = (\<lambda>(pos, imports, import_count).
     if length d \<le> pos then (pos, imports, import_count)
     else let len = unat (d ! pos) in
       if 0 < len \<and> len < 255
       then let bytes = take len (drop (pos + 1) d);
                row = bytes @ drop (length bytes) (imports ! i)
            in if length bytes = len
               then (pos + 1 + len, imports[i := row[len := 0]], import_count + 1)
               else (pos + 1 + length bytes, imports[i := row], import_count)
       else (pos + 1, imports, import_count))"

definition read_imports :: "u8 list \<Rightarrow> nat \<Rightarrow> nat \<Rightarrow> u8 list list \<Rightarrow> u8 list list \<times> nat" where
  "read_imports d n pos imports =
     snd (fold (read_import d) [0..<min n 256] (pos, imports, 0))"

record report =
  r_size :: nat
  r_format_level :: u32
  r_cpu_type :: u32
  r_module_flags :: u32
  r_is_dll :: bool
  r_is_pm :: bool
  r_imports :: "(u8 list \<times> string) list"
  r_app_type :: app_type
  r_status :: string

fun show_imports :: "(nat \<Rightarrow> u8 list) \<Rightarrow> u8 list list \<Rightarrow> nat list \<Rightarrow> (u8 list \<times> string) list option" where
  "show_imports uppers imports [] = Some []"
| "show_imports uppers imports (i # is) = do {
     name \<leftarrow> shown (imports ! i);
     kind \<leftarrow> get_module_type (uppers i) (imports ! i);
     rest \<leftarrow> show_imports uppers imports is;
     Some ((name, kind) # rest)
   }"

definition compatibility :: "app_type \<Rightarrow> string" where
  "compatibility t = (case t of
     APP_GUI_PM \<Rightarrow> ''INCOMPATIBLE'' | APP_CONSOLE \<Rightarrow> ''POSSIBLY COMPATIBLE'' | _ \<Rightarrow> ''UNKNOWN'')"

text \<open>\<open>uppers\<close> and \<open>uppers'\<close> are the arrays of \<open>get_module_type\<close> and \<open>detect_app_type\<close>, \<open>imports0\<close> is the array of \<open>main\<close>.\<close>

definition analyze_imports ::
    "(nat \<Rightarrow> u8 list) \<Rightarrow> (nat \<Rightarrow> u8 list) \<Rightarrow> u8 list list \<Rightarrow> u8 list \<Rightarrow> u32 \<Rightarrow> u8 list \<Rightarrow> report option" where
  "analyze_imports uppers uppers' imports0 d lf lx_hdr = do {
     level \<leftarrow> lx_format_level lx_hdr;
     cpu \<leftarrow> lx_cpu_type lx_hdr;
     flags \<leftarrow> lx_module_flags lx_hdr;
     n \<leftarrow> lx_import_module_table_count lx_hdr;
     off \<leftarrow> lx_import_module_table_offset lx_hdr;
     let table_offset = unat (lf + off);
     (imports, import_count) \<leftarrow>
       Some (if n \<noteq> 0 \<and> table_offset < length d then read_imports d (unat n) table_offset imports0 else (imports0, 0));
     names \<leftarrow> show_imports uppers imports [0..<import_count];
     app \<leftarrow> detect_app_type uppers' imports import_count;
     Some \<lparr>r_size = length d, r_format_level = level, r_cpu_type = cpu, r_module_flags = flags,
       r_is_dll = (flags AND 0x8000 \<noteq> 0), r_is_pm = (flags AND 0x0300 \<noteq> 0), r_imports = names, r_app_type = app,
       r_status = compatibility app\<rparr>
   }"

definition analyze_file ::
    "(nat \<Rightarrow> u8 list) \<Rightarrow> (nat \<Rightarrow> u8 list) \<Rightarrow> u8 list list \<Rightarrow> u8 list \<Rightarrow> (failure + report) option" where
  "analyze_file uppers uppers' imports0 d =
     (case read_at d 0 DOS_HEADER_SIZE of
        Inl e \<Rightarrow> Some (Inl e)
      | Inr dos_hdr \<Rightarrow>
          if \<not> is_mz dos_hdr then Some (Inl Not_mz)
          else do {
            lf \<leftarrow> lfanew dos_hdr;
            (if length d \<le> unat lf then Some (Inl Bad_header_offset)
             else case read_at d (unat lf) LX_HEADER_SIZE of
                 Inl e \<Rightarrow> Some (Inl e)
               | Inr lx_hdr \<Rightarrow>
                   if \<not> is_lx lx_hdr then Some (Inl Not_lx)
                   else map_option Inr (analyze_imports uppers uppers' imports0 d lf lx_hdr))
          })"

definition analyzer_main ::
    "opener \<Rightarrow> (nat \<Rightarrow> u8 list) \<Rightarrow> (nat \<Rightarrow> u8 list) \<Rightarrow> u8 list list \<Rightarrow> string list \<Rightarrow> (failure + report) option" where
  "analyzer_main opens uppers uppers' imports0 argv = with_file opens argv (analyze_file uppers uppers' imports0)"

end
