(* ===== verification/Lx_Props.thy ===== *)
theory Lx_Props
  imports Lx_Analyzer
begin

text \<open>
  What the import readers do: on a well-formed table both list the same names; the judgement of a name is that of its
  capitals followed by whatever the local array held behind them; and the header they read is not the loader's.
\<close>

section \<open>Tables of names\<close>

definition pascal :: "u8 list \<Rightarrow> u8 list" where "pascal name = of_nat (length name) # name"

definition name_ok :: "u8 list \<Rightarrow> bool" where
  "name_ok name \<longleftrightarrow> name \<noteq> [] \<and> length name \<le> 254 \<and> (\<forall>c\<in>set name. c \<noteq> 0 \<and> c \<le> 127)"

lemma name_okD:
  "name_ok name \<Longrightarrow> 0 < length name" "name_ok name \<Longrightarrow> length name < 255"
  "name_ok name \<Longrightarrow> 0 \<notin> set name" "name_ok name \<Longrightarrow> unat (of_nat (length name) :: u8) = length name"
  by (auto simp: name_ok_def unsigned_of_nat take_bit_nat_eq_self)

lemma shown_terminated: "0 \<notin> set name \<Longrightarrow> shown (name @ 0 # rest) = Some name"
  by (simp add: shown_def takeWhile_append)

lemma upt_more: "[i..<i + length (n # ns)] = i # [Suc i..<Suc i + length ns]"
  by (subst upt_rec) (simp del: upt_Suc)

lemma list_imports_step:
  assumes "pos < length d" "d ! pos = of_nat (length n)" "take (length n) (drop (Suc pos) d) = n" "name_ok n"
  shows "list_imports d (Suc m) i pos = map_option (Cons (Module_name (i + 1) n)) (list_imports d m (i + 1) (pos + 1 + length n))"
proof -
  have "min (length d - Suc pos) (length n) = length n" by (metis assms(3) length_drop length_take)
  then show ?thesis using assms(1-3) name_okD [OF assms(4)] shown_terminated [OF name_okD(3) [OF assms(4)], of "[]"]
    by (simp add: Let_def map_option_case split: option.splits)
qed

lemma list_imports_table:
  assumes "\<forall>n\<in>set names. name_ok n"
  shows "list_imports (pre @ concat (map pascal names) @ post) (length names) i (length pre) =
    Some (map2 Module_name [i + 1..<i + 1 + length names] names)"
  using assms
proof (induction names arbitrary: pre i)
  case (Cons n ns)
  have n: "name_ok n" using Cons.prems by simp
  let ?d = "pre @ concat (map pascal (n # ns)) @ post"
  have "length pre < length ?d" "?d ! length pre = of_nat (length n)"
      "take (length n) (drop (Suc (length pre)) ?d) = n"
    by (simp_all add: pascal_def [of n] nth_append)
  moreover have "list_imports ?d (length ns) (i + 1) (length pre + 1 + length n) =
      Some (map2 Module_name [i + 1 + 1..<i + 1 + 1 + length ns] ns)"
    using Cons.IH [of "pre @ pascal n" "i + 1"] Cons.prems by (simp add: pascal_def [of n] del: upt_Suc)
  moreover have "[i + 1..<i + 1 + length (n # ns)] = (i + 1) # [i + 1 + 1..<i + 1 + 1 + length ns]"
    using upt_more [of "i + 1" n ns] by simp
  ultimately show ?case using list_imports_step [OF _ _ _ n, of "length pre" ?d "length ns" i] by (simp del: upt_Suc)
qed simp

text \<open>The same table read into the array of the analyzer.\<close>

definition fill_row :: "u8 list \<Rightarrow> u8 list \<Rightarrow> u8 list" where
  "fill_row name row = name @ 0 # drop (Suc (length name)) row"

fun fill_rows :: "nat \<Rightarrow> u8 list list \<Rightarrow> u8 list list \<Rightarrow> u8 list list" where
  "fill_rows i [] rows = rows"
| "fill_rows i (n # ns) rows = fill_rows (Suc i) ns (rows[i := fill_row n (rows ! i)])"

lemma length_fill_rows [simp]: "length (fill_rows i ns rows) = length rows"
  by (induction i ns rows rule: fill_rows.induct) auto

lemma fill_rows_nth:
  "i + length ns \<le> length rows \<Longrightarrow>
   fill_rows i ns rows ! j = (if i \<le> j \<and> j < i + length ns then fill_row (ns ! (j - i)) (rows ! j) else rows ! j)"
proof (induction i ns rows rule: fill_rows.induct)
  case (2 i n ns rows)
  then show ?case by (auto simp: nth_list_update nth_Cons' Suc_diff_Suc)
qed auto

lemma read_import_name:
  assumes "name_ok n" "i < length rows" "length (rows ! i) = 256"
  shows "read_import (pre @ pascal n @ post) i (length pre, rows, k) =
    (length pre + length (pascal n), rows[i := fill_row n (rows ! i)], k + 1)"
proof -
  have "(n @ drop (length n) (rows ! i))[length n := 0] = fill_row n (rows ! i)"
    using assms name_okD(2) [OF assms(1)] by (simp add: fill_row_def list_update_append Cons_nth_drop_Suc [symmetric] del: Cons_nth_drop_Suc)
  then show ?thesis using name_okD [OF assms(1)] by (simp add: read_import_def pascal_def nth_append Let_def)
qed

lemma read_imports_table:
  assumes "\<forall>n\<in>set names. name_ok n" "i + length names \<le> length rows" "\<forall>r\<in>set rows. length r = 256"
  shows "fold (read_import (pre @ concat (map pascal names) @ post)) [i..<i + length names] (length pre, rows, k) =
    (length pre + length (concat (map pascal names)), fill_rows i names rows, k + length names)"
  using assms
proof (induction names arbitrary: pre rows i k)
  case (Cons n ns)
  have n: "name_ok n" and i: "i < length rows" "length (rows ! i) = 256" using Cons.prems by auto
  let ?rows = "rows[i := fill_row n (rows ! i)]"
  have "length (fill_row n (rows ! i)) = 256" using i name_okD(2) [OF n] by (simp add: fill_row_def)
  then have "\<forall>r\<in>set ?rows. length r = 256" using Cons.prems(3) set_update_subset_insert [of rows i] by blast
  then have "fold (read_import (pre @ pascal n @ concat (map pascal ns) @ post)) [Suc i..<Suc i + length ns]
      (length pre + length (pascal n), ?rows, k + 1) =
      (length pre + length (pascal n) + length (concat (map pascal ns)), fill_rows (Suc i) ns ?rows, k + 1 + length ns)"
    using Cons.IH [of "Suc i" ?rows "pre @ pascal n" "k + 1"] Cons.prems by simp
  moreover note upt_more [of i n ns]
  ultimately show ?case using read_import_name [OF n i, of pre "concat (map pascal ns) @ post" k]
    by (simp add: add.assoc del: upt_Suc)
qed simp

section \<open>Capitals and the array behind them\<close>

definition capital :: "u8 \<Rightarrow> u8" where "capital c = (if 97 \<le> c \<and> c \<le> 122 then c - 32 else c)"

lemma capital_nonzero: "c \<noteq> 0 \<Longrightarrow> capital c \<noteq> 0"
  by (auto simp: capital_def)

lemma upper_loop_name:
  assumes "\<forall>c\<in>set name. c \<noteq> 0 \<and> c \<le> 127" "i + length name \<le> 255" "length upper = 256"
  shows "upper_loop i (name @ 0 # rest) upper = Some (take i upper @ map capital name @ drop (i + length name) upper)"
  using assms
proof (induction name arbitrary: i upper)
  case (Cons c cs)
  have "to_upper_byte c = Some (capital c)" using Cons.prems(1) by (auto simp: to_upper_byte_def capital_def not_less)
  moreover have "upper_loop (Suc i) (cs @ 0 # rest) (upper[i := capital c]) =
      Some (take (Suc i) (upper[i := capital c]) @ map capital cs @ drop (Suc i + length cs) (upper[i := capital c]))"
    by (rule Cons.IH) (use Cons.prems in simp_all)
  ultimately show ?case using Cons.prems by (simp add: take_Suc_conv_app_nth)
qed simp

lemma shown_capitals:
  assumes "0 \<notin> set name"
  shows "shown (map capital name @ g) =
    (if 0 \<in> set g then Some (map capital name @ takeWhile (\<lambda>c. c \<noteq> 0) g) else None)"
proof -
  have "capital c \<noteq> 0" if "c \<in> set name" for c using that assms capital_nonzero [of c] by auto
  then have z: "0 \<notin> set (map capital name)" by auto
  then have "takeWhile (\<lambda>c. c \<noteq> 0) (map capital name @ g) = map capital name @ takeWhile (\<lambda>c. c \<noteq> 0) g"
    by (intro takeWhile_append2) auto
  then show ?thesis using z by (simp add: shown_def)
qed

lemma is_prefix_iff: "is_prefix xs ys \<longleftrightarrow> (\<exists>zs. ys = xs @ zs)"
  by (induction xs ys rule: is_prefix.induct) auto

lemma contains_iff: "contains hay needle \<longleftrightarrow> (\<exists>a b. hay = a @ needle @ b)"
proof (induction hay)
  case (Cons y ys)
  have "(\<exists>a b. y # ys = a @ needle @ b) \<longleftrightarrow> (\<exists>b. y # ys = needle @ b) \<or> (\<exists>a b. ys = a @ needle @ b)"
    by (metis append_Cons append_Nil list.sel(3) neq_Nil_conv)
  then show ?case using Cons by (simp add: is_prefix_iff)
qed (simp add: is_prefix_iff)

definition mentions :: "u8 list \<Rightarrow> string list \<Rightarrow> bool" where
  "mentions text ns \<longleftrightarrow> (\<exists>n\<in>set ns. \<exists>a b. text = a @ bytes_of n @ b)"

lemma any_in_shown: "shown str = Some text \<Longrightarrow> any_in str ns = Some (mentions text ns)"
  by (induction ns) (auto simp: strstr_def mentions_def contains_iff)

lemma any_in_unterminated: "shown str = None \<Longrightarrow> ns \<noteq> [] \<Longrightarrow> any_in str ns = None"
  by (cases ns) (simp_all add: strstr_def)

definition kind_of :: "u8 list \<Rightarrow> string" where
  "kind_of text =
     (if mentions text [''PMWIN'', ''PMGPI'', ''PMSHAPI'', ''PMVIOP''] then ''GUI (Presentation Manager)''
      else if mentions text [''DOSCALL'', ''DOS''] then ''System/DOS calls''
      else if mentions text [''VIOCALLS'', ''KBDCALLS'', ''MOUCALLS''] then ''Console/VIO''
      else if mentions text [''REXX''] then ''REXX scripting''
      else if mentions text [''TCP'', ''SOCKET''] then ''Networking''
      else if mentions text [''MMPM'', ''MCIAPI''] then ''Multimedia''
      else ''Other'')"

definition seen :: "u8 list \<Rightarrow> u8 list \<Rightarrow> u8 list" where
  "seen upper name = map capital name @ takeWhile (\<lambda>c. c \<noteq> 0) (drop (length name) upper)"

lemma seen_zeroed: "seen (replicate n 0) name = map capital name"
  by (auto simp: seen_def takeWhile_eq_Nil_iff hd_drop_conv_nth)

lemma upper_shown:
  assumes "name_ok name" "length upper = 256"
  obtains up where "upper_loop 0 (name @ 0 # rest) upper = Some up"
    "shown up = (if 0 \<in> set (drop (length name) upper) then Some (seen upper name) else None)"
proof -
  have "upper_loop 0 (name @ 0 # rest) upper = Some (map capital name @ drop (length name) upper)"
    using upper_loop_name [of name 0 upper rest] assms by (simp add: name_ok_def)
  then show thesis using that shown_capitals [OF name_okD(3) [OF assms(1)]] by (simp add: seen_def)
qed

lemma module_kind:
  assumes "name_ok name" "length upper = 256"
  shows "get_module_type upper (name @ 0 # rest) =
    (if 0 \<in> set (drop (length name) upper) then Some (kind_of (seen upper name)) else None)"
proof -
  obtain up where up: "upper_loop 0 (name @ 0 # rest) upper = Some up"
    "shown up = (if 0 \<in> set (drop (length name) upper) then Some (seen upper name) else None)"
    by (rule upper_shown [OF assms])
  show ?thesis
  proof (cases "0 \<in> set (drop (length name) upper)")
    case True
    then show ?thesis using up any_in_shown [of up "seen upper name"] by (simp add: get_module_type_def kind_of_def del: any_in.simps)
  next
    case False
    then show ?thesis using up any_in_unterminated [of up] by (simp add: get_module_type_def del: any_in.simps)
  qed
qed

text \<open>The category of a module is that of its capital letters followed by what the local array, which is not
  initialised and whose copy is not terminated, happened to hold behind them; without a terminator there the search runs
  off the array.\<close>

theorem get_module_type_reads_leftovers:
  assumes "name_ok name" "length upper = 256"
  shows "get_module_type upper (name @ 0 # rest) =
    (if 0 \<in> set (drop (length name) upper) then Some (kind_of (seen upper name)) else None)"
  by (rule module_kind [OF assms])

theorem get_module_type_reads_leftovers_witness:
  "get_module_type (replicate 256 0) (bytes_of ''nls'' @ 0 # replicate 10 0) = Some ''Other'' \<and>
   get_module_type ([0, 0, 0] @ bytes_of '' REXX'' @ replicate 248 0) (bytes_of ''nls'' @ 0 # replicate 10 0) = Some ''REXX scripting''"
proof -
  have ok: "name_ok (bytes_of ''nls'')" by (simp add: name_ok_def bytes_of_def)
  have seen: "seen (replicate 256 0) (bytes_of ''nls'') = bytes_of ''NLS''"
    "seen ([0, 0, 0] @ bytes_of '' REXX'' @ replicate 248 0) (bytes_of ''nls'') = bytes_of ''NLS REXX''"
    by (simp_all add: seen_def bytes_of_def capital_def takeWhile_append)
  have has: "mentions t ns \<longleftrightarrow> (\<exists>n\<in>set ns. contains t (bytes_of n))" for t ns by (simp add: mentions_def contains_iff)
  have "kind_of (bytes_of ''NLS'') = ''Other''" "kind_of (bytes_of ''NLS REXX'') = ''REXX scripting''"
    by (simp_all add: kind_of_def has bytes_of_def)
  then show ?thesis
    using get_module_type_reads_leftovers [OF ok, of "replicate 256 0" "replicate 10 0"]
      get_module_type_reads_leftovers [OF ok, of "[0, 0, 0] @ bytes_of '' REXX'' @ replicate 248 0" "replicate 10 0"] seen
    by (simp add: bytes_of_def)
qed

section \<open>Whole files\<close>

text \<open>A file with both headers and a table of names where the header says.\<close>

definition lx_file :: "u8 list \<Rightarrow> u8 list \<Rightarrow> u32 \<Rightarrow> u8 list list \<Rightarrow> bool" where
  "lx_file d lx_hdr lf names \<longleftrightarrow> (\<exists>dos_hdr.
     read_at d 0 DOS_HEADER_SIZE = Inr dos_hdr \<and> is_mz dos_hdr \<and> lfanew dos_hdr = Some lf \<and>
     read_at d (unat lf) LX_HEADER_SIZE = Inr lx_hdr \<and> is_lx lx_hdr) \<and>
   (\<exists>n off pre post. lx_import_module_table_count lx_hdr = Some n \<and> lx_import_module_table_offset lx_hdr = Some off \<and>
     unat n = length names \<and> d = pre @ concat (map pascal names) @ post \<and> length pre = unat (lf + off)) \<and>
   (\<forall>n\<in>set names. name_ok n)"

lemma le32_inside: "i + 4 \<le> length d \<Longrightarrow> \<exists>w. le32 d i = Some w"
  by (simp add: le32_def)

lemma read_at_length: "read_at d o' n = Inr h \<Longrightarrow> length h = n \<and> o' + n \<le> length d \<and> h = take n (drop o' d)"
  by (auto simp: read_at_def split: if_splits)

lemma list_file_names:
  assumes "lx_file d lx_hdr lf names"
  shows "list_file d = Some (Inr (map2 Module_name [1..<1 + length names] names))"
proof -
  obtain dos_hdr n off pre post where f: "read_at d 0 DOS_HEADER_SIZE = Inr dos_hdr" "is_mz dos_hdr" "lfanew dos_hdr = Some lf"
    "read_at d (unat lf) LX_HEADER_SIZE = Inr lx_hdr" "is_lx lx_hdr" "lx_import_module_table_count lx_hdr = Some n"
    "lx_import_module_table_offset lx_hdr = Some off" "unat n = length names" "d = pre @ concat (map pascal names) @ post"
    "length pre = unat (lf + off)" "\<forall>n\<in>set names. name_ok n"
    using assms unfolding lx_file_def by blast
  have size: "unat lf + 176 \<le> length d" using read_at_length [OF f(4)] by (simp add: LX_HEADER_SIZE_def)
  show ?thesis
  proof (cases "names = []")
    case True
    then have "n = 0" using f(8) by (simp add: unat_eq_zero)
    then show ?thesis using f size True by (simp add: list_file_def LX_HEADER_SIZE_def)
  next
    case False
    then have "n \<noteq> 0" "length pre < length d" using f(8,9) by (auto simp: pascal_def neq_Nil_conv)
    moreover have "list_imports d (unat n) 0 (unat (lf + off)) = Some (map2 Module_name [1..<1 + length names] names)"
      using list_imports_table [OF f(11), of pre post 0] f(8-10) by simp
    ultimately show ?thesis using f(1-7,10) size by (simp add: list_file_def LX_HEADER_SIZE_def del: upt_Suc)
  qed
qed

lemma app_flags_rows:
  assumes "\<forall>i\<in>set is. \<exists>up. upper_loop 0 (rows ! i) (uppers i) = Some up \<and> shown up = Some (text i)"
  shows "app_flags uppers rows is (p, v) =
    Some (p \<or> (\<exists>i\<in>set is. mentions (text i) [''PMWIN'', ''PMGPI'']), v \<or> (\<exists>i\<in>set is. mentions (text i) [''VIO'', ''KBD'', ''MOU'']))"
  using assms
proof (induction "is" arbitrary: p v)
  case (Cons i "is")
  then obtain up where "upper_loop 0 (rows ! i) (uppers i) = Some up" "shown up = Some (text i)" by auto
  then show ?case using Cons by (simp add: any_in_shown disj_ac del: any_in.simps)
qed simp

lemma show_imports_rows:
  assumes "\<forall>i\<in>set is. shown (rows ! i) = Some (name i) \<and> get_module_type (uppers i) (rows ! i) = Some (kind i)"
  shows "show_imports uppers rows is = Some (map (\<lambda>i. (name i, kind i)) is)"
  using assms by (induction "is") simp_all

definition verdict :: "u8 list list \<Rightarrow> app_type" where
  "verdict texts =
     (if \<exists>t\<in>set texts. mentions t [''PMWIN'', ''PMGPI''] then APP_GUI_PM
      else if \<exists>t\<in>set texts. mentions t [''VIO'', ''KBD'', ''MOU''] then APP_CONSOLE
      else APP_UNKNOWN)"

definition terminated :: "u8 list \<Rightarrow> bool" where "terminated a \<longleftrightarrow> length a = 256 \<and> a ! 255 = 0"

lemma terminated_behind: "terminated a \<Longrightarrow> name_ok name \<Longrightarrow> 0 \<in> set (drop (length name) a)"
proof -
  assume a: "terminated a" "name_ok name"
  then have "length name \<le> 254" by (simp add: name_ok_def)
  then have "drop (length name) a ! (255 - length name) = 0" "255 - length name < length (drop (length name) a)"
    using a(1) by (simp_all add: terminated_def)
  then show ?thesis by (metis nth_mem)
qed

text \<open>C39: On a well-formed file with at most 256 imports the two programs agree: \<open>newcode\<close> lists exactly the names of the
  table, and the analyzer reports the same names in the same order, each with the category of what its array \<open>upper\<close>
  then shows, and calls the program graphical as soon as one of these texts mentions PMWIN or PMGPI, and else textual if
  one mentions VIO, KBD or MOU. The array is not initialised and the capitals are not terminated, so the text is the
  capitals of the name followed by the bytes the array held behind them, up to the first zero (\<open>seen\<close>); these are the
  capitals alone when the array was zero (\<open>seen_zeroed\<close>). It is assumed that every such array of 256 bytes ends in a
  zero, without which the search runs out of it.\<close>

theorem imports_agree:
  assumes lxf: "lx_file d lx_hdr lf names" and n: "length names \<le> 256"
    and rows: "length imports0 = 256" "\<forall>r\<in>set imports0. length r = 256"
    and uppers: "\<forall>i. terminated (uppers i) \<and> terminated (uppers' i)"
  shows "list_file d = Some (Inr (map2 Module_name [1..<1 + length names] names)) \<and>
    (\<exists>r. analyze_file uppers uppers' imports0 d = Some (Inr r) \<and>
      r_imports r = map (\<lambda>i. (names ! i, kind_of (seen (uppers i) (names ! i)))) [0..<length names] \<and>
      r_app_type r = verdict (map (\<lambda>i. seen (uppers' i) (names ! i)) [0..<length names]))"
proof -
  obtain dos_hdr k off pre post where f: "read_at d 0 DOS_HEADER_SIZE = Inr dos_hdr" "is_mz dos_hdr" "lfanew dos_hdr = Some lf"
    "read_at d (unat lf) LX_HEADER_SIZE = Inr lx_hdr" "is_lx lx_hdr" "lx_import_module_table_count lx_hdr = Some k"
    "lx_import_module_table_offset lx_hdr = Some off" "unat k = length names" "d = pre @ concat (map pascal names) @ post"
    "length pre = unat (lf + off)" and ok: "\<forall>n\<in>set names. name_ok n"
    using lxf unfolding lx_file_def by blast
  have hdr: "unat lf + 176 \<le> length d" "length lx_hdr = 176" using read_at_length [OF f(4)] unfolding LX_HEADER_SIZE_def by blast+
  obtain level cpu flags where lx: "lx_format_level lx_hdr = Some level" "lx_cpu_type lx_hdr = Some cpu"
    "lx_module_flags lx_hdr = Some flags"
    using le32_inside [of 4 lx_hdr] le32_inside [of 8 lx_hdr] le32_inside [of 20 lx_hdr] hdr(2)
    by (auto simp: lx_format_level_def lx_cpu_type_def lx_module_flags_def)
  let ?rows = "fill_rows 0 names imports0"
  have row: "?rows ! i = names ! i @ 0 # drop (Suc (length (names ! i))) (imports0 ! i)" if "i < length names" for i
    using fill_rows_nth [of 0 names imports0 i] that n rows(1) by (simp add: fill_row_def)
  have name: "name_ok (names ! i)" if "i < length names" for i using ok that by simp
  have read: "(if k \<noteq> 0 \<and> unat (lf + off) < length d then read_imports d (unat k) (unat (lf + off)) imports0 else (imports0, 0)) =
      (?rows, length names)"
  proof (cases "names = []")
    case False
    then have "k \<noteq> 0" "length pre < length d" using f(8,9) by (auto simp: pascal_def neq_Nil_conv)
    moreover have "read_imports d (unat k) (unat (lf + off)) imports0 = (?rows, length names)"
      using read_imports_table [OF ok, of 0 imports0 pre post 0] f(8-10) n rows by (simp add: read_imports_def min_absorb1)
    ultimately show ?thesis using f(10) by simp
  qed (use f(8) in \<open>simp add: unat_eq_zero\<close>)
  have listing: "show_imports uppers ?rows [0..<length names] =
      Some (map (\<lambda>i. (names ! i, kind_of (seen (uppers i) (names ! i)))) [0..<length names])"
  proof (rule show_imports_rows, rule ballI)
    fix i assume "i \<in> set [0..<length names]"
    then have i: "i < length names" by simp
    have "length (uppers i) = 256" "0 \<in> set (drop (length (names ! i)) (uppers i))"
      using uppers terminated_behind [OF _ name [OF i]] by (auto simp: terminated_def)
    then show "shown (?rows ! i) = Some (names ! i) \<and>
        get_module_type (uppers i) (?rows ! i) = Some (kind_of (seen (uppers i) (names ! i)))"
      using row [OF i] shown_terminated [OF name_okD(3) [OF name [OF i]]] module_kind [OF name [OF i]] by simp
  qed
  have "app_flags uppers' ?rows [0..<length names] (False, False) =
      Some (False \<or> (\<exists>i\<in>set [0..<length names]. mentions (seen (uppers' i) (names ! i)) [''PMWIN'', ''PMGPI'']),
        False \<or> (\<exists>i\<in>set [0..<length names]. mentions (seen (uppers' i) (names ! i)) [''VIO'', ''KBD'', ''MOU'']))"
  proof (rule app_flags_rows, rule ballI)
    fix i assume "i \<in> set [0..<length names]"
    then have i: "i < length names" by simp
    have t: "length (uppers' i) = 256" "0 \<in> set (drop (length (names ! i)) (uppers' i))"
      using uppers terminated_behind [OF _ name [OF i]] by (auto simp: terminated_def)
    show "\<exists>up. upper_loop 0 (?rows ! i) (uppers' i) = Some up \<and> shown up = Some (seen (uppers' i) (names ! i))"
      by (rule upper_shown [OF name [OF i] t(1)]) (use t(2) row [OF i] in auto)
  qed
  then have app: "detect_app_type uppers' ?rows (length names) = Some (verdict (map (\<lambda>i. seen (uppers' i) (names ! i)) [0..<length names]))"
    by (simp add: detect_app_type_def verdict_def)
  have "\<exists>r. analyze_imports uppers uppers' imports0 d lf lx_hdr = Some r \<and>
      r_imports r = map (\<lambda>i. (names ! i, kind_of (seen (uppers i) (names ! i)))) [0..<length names] \<and>
      r_app_type r = verdict (map (\<lambda>i. seen (uppers' i) (names ! i)) [0..<length names])"
    unfolding analyze_imports_def lx f(6,7) Option.bind_lunit Let_def read prod.case listing app by simp
  moreover have "analyze_file uppers uppers' imports0 d = map_option Inr (analyze_imports uppers uppers' imports0 d lf lx_hdr)"
    using f(1-5) hdr(1) by (simp add: analyze_file_def)
  ultimately show ?thesis using list_file_names [OF lxf] by auto
qed

definition sample_dos :: "u8 list" where
  "sample_dos = [0x4D, 0x5A] @ replicate 58 0 @ [64, 0, 0, 0]"

definition sample_lx :: "u8 list" where
  "sample_lx = [0x4C, 0x58] @ replicate 114 0 @ [176, 0, 0, 0, 2, 0, 0, 0] @ replicate 52 0"

definition sample_names :: "u8 list list" where
  "sample_names = [bytes_of ''DOSCALLS'', bytes_of ''PMWIN'']"

lemma sample_file: "lx_file (sample_dos @ sample_lx @ concat (map pascal sample_names)) sample_lx 64 sample_names"
proof -
  let ?d = "sample_dos @ sample_lx @ concat (map pascal sample_names)"
  have len: "length sample_dos = 64" "length sample_lx = 176" by (simp_all add: sample_dos_def sample_lx_def)
  have "read_at ?d 0 DOS_HEADER_SIZE = Inr sample_dos" "read_at ?d (unat (64 :: u32)) LX_HEADER_SIZE = Inr sample_lx"
    using len by (simp_all add: read_at_def DOS_HEADER_SIZE_def LX_HEADER_SIZE_def)
  moreover have "is_mz sample_dos" "lfanew sample_dos = Some 64" "is_lx sample_lx"
    by (simp_all add: is_mz_def is_lx_def lfanew_def sample_dos_def sample_lx_def le32_def nth_append)
  moreover have "lx_import_module_table_count sample_lx = Some 2" "lx_import_module_table_offset sample_lx = Some 176"
    by (simp_all add: lx_import_module_table_count_def lx_import_module_table_offset_def sample_lx_def le32_def nth_append)
  moreover have "\<forall>n\<in>set sample_names. name_ok n" by (simp add: sample_names_def name_ok_def bytes_of_def)
  moreover have "\<exists>pre post. ?d = pre @ concat (map pascal sample_names) @ post \<and> length pre = unat (64 + 176 :: u32)"
    by (intro exI [of _ "sample_dos @ sample_lx"] exI [of _ "[]"]) (simp add: len)
  ultimately show ?thesis unfolding lx_file_def
    by (intro conjI) (blast, auto simp: sample_names_def)
qed

theorem imports_agree_witness:
  "\<exists>r. analyze_file (\<lambda>_. replicate 256 0) (\<lambda>_. replicate 256 0) (replicate 256 (replicate 256 7))
      (sample_dos @ sample_lx @ concat (map pascal sample_names)) = Some (Inr r) \<and>
    map fst (r_imports r) = sample_names \<and> r_app_type r = APP_GUI_PM"
proof -
  have n: "length sample_names = 2" by (simp add: sample_names_def)
  have texts: "seen (replicate 256 0) (sample_names ! 0) = bytes_of ''DOSCALLS''" "seen (replicate 256 0) (sample_names ! 1) = bytes_of ''PMWIN''"
    by (simp_all add: seen_def sample_names_def bytes_of_def capital_def)
  have "mentions (bytes_of ''PMWIN'') [''PMWIN'', ''PMGPI'']" by (auto simp: mentions_def intro!: exI [of _ "[]"])
  then have v: "verdict (map (\<lambda>i. seen (replicate 256 0) (sample_names ! i)) [0..<length sample_names]) = APP_GUI_PM"
    using texts by (simp add: verdict_def n upt_conv_Cons)
  have names: "map (\<lambda>i. sample_names ! i) [0..<length sample_names] = sample_names" by (rule map_nth)
  have t: "terminated (replicate 256 0)" by (simp add: terminated_def)
  show ?thesis
    using imports_agree [OF sample_file, of "replicate 256 (replicate 256 7)" "\<lambda>_. replicate 256 0" "\<lambda>_. replicate 256 0"] n v names t
    by (auto simp: comp_def)
qed

section \<open>What goes wrong\<close>

text \<open>The header of both programs has \<open>cpu_type\<close> and \<open>os_type\<close> twice as wide as the loader's \<open>le_header_t\<close>, so everything
  behind them is read four bytes too far: on the same file they take the loader's number of imported modules for the place
  of the table, and look for the module flags where the loader has the number of pages.\<close>

theorem import_header_shifted:
  assumes "read_at (file_data exe) (unat (le_offset exe)) LX_HEADER_SIZE = Inr h"
  shows "lx_import_module_table_offset h = imported_modules_count exe \<and>
    lx_import_module_table_count h = header32 120 exe \<and> lx_module_flags h = header32 20 exe \<and>
    imported_modules_offset exe = le32 h 112"
proof -
  have h: "length h = 176" "unat (le_offset exe) + 176 \<le> length (file_data exe)" "h = take 176 (drop (unat (le_offset exe)) (file_data exe))"
    using read_at_length [OF assms] unfolding LX_HEADER_SIZE_def by blast+
  have "le32 h k = header32 k exe" if "k + 4 \<le> 176" for k
  proof -
    have "h ! j = file_data exe ! (unat (le_offset exe) + j)" if "j < 176" for j using that h(2) by (simp add: h(3))
    then show ?thesis using that h(1,2) by (simp add: le32_def header32_def add.assoc)
  qed
  then show ?thesis
    by (simp add: lx_import_module_table_offset_def lx_import_module_table_count_def lx_module_flags_def
        imported_modules_count_def imported_modules_offset_def)
qed

theorem import_header_shifted_witness:
  "lx_import_module_table_offset sample_lx =
     imported_modules_count \<lparr>file_data = sample_dos @ sample_lx, exe_objects = 0, loaded_objects = [], entry_point = 0, le_offset = 64\<rparr>"
proof -
  let ?exe = "\<lparr>file_data = sample_dos @ sample_lx, exe_objects = 0, loaded_objects = [], entry_point = 0, le_offset = 64\<rparr>"
  have "length sample_dos = 64" "length sample_lx = 176" by (simp_all add: sample_dos_def sample_lx_def)
  then have "read_at (file_data ?exe) (unat (le_offset ?exe)) LX_HEADER_SIZE = Inr sample_lx"
    by (simp add: read_at_def LX_HEADER_SIZE_def)
  then show ?thesis using import_header_shifted [of ?exe sample_lx] by simp
qed

text \<open>A name of length zero is counted out but keeps its row: the row, still uninitialised, is shown and the last name is not.\<close>

lemma empty_name_shifts_rows:
  assumes "length (rows ! 0) = 256" "length (rows ! 2) = 256"
  shows "read_imports [1, 65, 0, 1, 66] 3 0 rows = (rows[0 := fill_row [65] (rows ! 0), 2 := fill_row [66] (rows ! 2)], 2)"
proof -
  have "(drop (Suc 0) r)[0 := 0] = 0 # drop 2 r" if "length r = 256" for r :: "u8 list"
    using that by (cases r; cases "tl r") auto
  then show ?thesis using assms
    by (simp add: read_imports_def read_import_def fill_row_def upt_conv_Cons Let_def numeral_2_eq_2)
qed

end
