(* ===== verification/Spec2Isabelle.thy ===== *)
theory Spec2Isabelle
  imports Power_On Os2_Programs Os2_Calls Smp_Lock Opus_Shell_Props Hal_Props Lx_Props
begin

text \<open>
  The repository holds several programs around an OS/2-like system, and this development models all their C and C++
  code. (1) SimpleOS, \<open>simpleos-main/simpleos\<close>: a 32-bit kernel with frame allocator, paging, processes, a round-robin
  scheduler, drivers, a RAM file system and a command shell. (2) OPUS4.5: a smaller kernel in C++ with console, keyboard
  and shell. (3) \<open>OS2_Wrapper\<close>: OS/2 calls on Linux, two loaders for OS/2 executables, and two programs in \<open>newcode\<close>
  that read import tables. (4) \<open>side_project\<close>: a scheduler for several processors and a hardware abstraction layer.
  The programs do not call each other; (2) repeats a driver of (1), and the files of (3) share data formats and calls.

  \<^bold>\<open>Theories and files.\<close> Definitions carry the names of the source (a suffix where two files use one name).

  \<^item> \<open>Prelude\<close>: words, loops, collections of facts. \<open>Interfaces\<close>: the contracts between components, as locales.
  \<^item> \<open>Pmm\<close>: \<open>pmm.c\<close>. \<open>Vmm\<close>, \<open>Address_Spaces\<close>: \<open>vmm.c\<close>, its operations and what they do to an address space. \<open>Process\<close>,
    \<open>Process_Life\<close>: \<open>process.c\<close>. \<open>Scheduler\<close>: \<open>scheduler.c\<close>. Their states nest: \<open>pmm\<close> in \<open>vmm\<close> in \<open>kernel\<close>.
  \<^item> \<open>Ports\<close>: \<open>inb\<close> and \<open>outb\<close>. \<open>Console\<close>: \<open>vga.c\<close>. \<open>Printf\<close>: \<open>printf.c\<close>. \<open>Cpu\<close>: \<open>gdt.c\<close>, \<open>idt.c\<close>. \<open>Devices\<close>: \<open>timer.c\<close>,
    \<open>keyboard.c\<close>, \<open>mouse.c\<close>. \<open>Events\<close>: \<open>events.c\<close>. \<open>Syscalls\<close>: \<open>syscall.c\<close>, \<open>usermode.c\<close>, \<open>dosapi.c\<close>. \<open>Graphics\<close>:
    \<open>graphics.c\<close>. \<open>Ramfs\<close>: \<open>ramfs.c\<close>. \<open>Shell\<close>, \<open>Boot\<close>: \<open>kernel.c\<close>, \<open>test_proc.c\<close>. \<open>Session\<close>: the
    event loop and the interrupts as a step relation. \<open>Test_Run\<close>: the command \<open>testproc\<close>. \<open>Power_On\<close>: \<open>kmain\<close> as a
    whole. The static variables of these files are one record, extended from theory to theory: \<open>hw\<close>, \<open>vga\<close>, \<open>cpu\<close>, \<open>devices\<close>, \<open>graphics\<close>, \<open>system\<close>; \<open>devices\<close> holds the
    event queue, \<open>cpu\<close> the kernel state, \<open>system\<close> the files. An operation of one file thus runs on the state of all later.
  \<^item> \<open>Os2_Emulator\<close>: \<open>os2_emulator.c\<close>. \<open>Os2_Api\<close>: the calls built into \<open>os2_with_api.c\<close>. \<open>Os2_Loader\<close>:
    \<open>os2_loader.c\<close> and \<open>os2_with_api.c\<close>. \<open>Os2_Programs\<close>: their \<open>main\<close> programs. \<open>Os2_Calls\<close>: the calls of the two compared. \<open>Lx_Analyzer\<close>, \<open>Lx_Props\<close>: \<open>newcode.cpp\<close>, \<open>dependency_analyzer.cpp\<close>.
  \<^item> \<open>Opus_String\<close>, \<open>Opus_Drivers\<close>, \<open>Opus_Shell\<close>, \<open>Opus_Shell_Props\<close>: \<open>OPUS4.5\<close>, over \<open>hw\<close> extended to \<open>opus\<close>.
  \<^item> \<open>Smp_Scheduler\<close> (operations), \<open>Smp_Queues\<close> (run queues as lists), \<open>Smp_Operations\<close>, \<open>Smp_Reach\<close> (what they do),
    \<open>Smp_Lock\<close> (interleaved processors): \<open>SMPScheduler.cpp\<close>. \<open>Hal\<close>, \<open>Hal_Props\<close>: \<open>AbstractLayer.cpp\<close>.

  \<^bold>\<open>Conventions.\<close> Integers are words of their C width, so they wrap; a signed \<open>int\<close> whose overflow C leaves undefined is
  an \<open>int\<close> where it stays small (screen positions, table indices) and checked where it may not (\<open>draw_line\<close>). \<open>uint_fast32_t\<close> is taken as 32 bits. A result
  \<open>None\<close> is undefined behaviour (an access outside an object or through the null pointer, an undefined shift), a page
  fault, or a loop that never ends; an error the code reports is a value of its result. Functions that do not return say so
  in their result (a halted machine, an exit code). Arrays are lists, a pointer into an array of objects is an index, and
  linked threads are a partial map from pointers. What C leaves uninitialised and what lies outside the source is an
  argument: the contents of new memory or local arrays (\<open>mem\<close>, \<open>garbage\<close>, \<open>local\<close>, \<open>buf\<close>, \<open>junk\<close>, \<open>upper\<close>), the answers of devices,
  \<open>cpuid\<close> and the time stamp counter, the calls of the host (records \<open>linux\<close> and \<open>loader_host\<close>). What is used of the
  host is a hypothesis: its documented descriptors and files (\<open>posix_fds\<close>, \<open>posix_files\<close>: any call may be refused or fall
  short, and \<open>close\<close> releases a descriptor whatever it reports), and, where a theorem says that a program succeeds, that the
  host grants what it is asked for in that run (\<open>grants_test\<close>, the allocations of \<open>load_objects_image\<close>, the calls to
  \<open>open\<close> of \<open>os2_capacity\<close>). The sample hosts of the witnesses satisfy them.

  \<^bold>\<open>Loops and bounds.\<close> Counting loops are folds or structural recursion; a loop that may not end is a \<open>partial_function\<close>
  into \<open>option\<close>, and that it ends is a theorem where it does (sleeps, waits, lines, numbers, tables, lists). No fuel is
  used; only the bodies of the endless test processes take a number of rounds. Table sizes are those of the source: 32 processes
  and files, 256 events, handles and processors, 128 priorities.

  \<^bold>\<open>Contracts.\<close> \<open>frame_allocator\<close> is interpreted on \<open>pmm.c\<close> (\<open>fa\<close>), \<open>bounded_queue\<close> on \<open>events.c\<close> (\<open>eq\<close>), \<open>file_store\<close> on
  \<open>ramfs.c\<close> (\<open>fs\<close>), \<open>terminal\<close> on both consoles (\<open>vt\<close>, \<open>ot\<close>), and \<open>run_queue\<close> on the queues of \<open>SMPScheduler.cpp\<close>
  (\<open>rq\<close>). Client lemmas are proved in the locale and reach the code's operations through these.

  \<^bold>\<open>What is proved.\<close>

  \<^item> Memory: first fit and contiguous allocation, the frames free after start-up, and that no later sequence of
    allocations and releases hands out one of the kernel's; the outcome of mapping in each situation of the allocator, and what a new directory shares with the kernel.
  \<^item> Processes: the table is consistent in every reachable state, creation on every outcome, at most one process runs,
    scheduling is a round robin and fair while slots and numbers agree.
  \<^item> The kernel as a whole: \<open>kmain\<close> reaches its event loop on a machine whose devices answer, and from there no interrupt
    and no turn of the loop fails, whatever is typed, but those that run one of seven commands; everything stays well
    formed, until the timer hands the processor to another process. The command \<open>testproc\<close> makes three processes that then take turns with the timer.
  \<^item> Input and output: the queue keeps the newest events in order; the gates after start-up; when \<open>printf\<close> returns; lines
    end inside the screen while their arithmetic fits an \<open>int\<close>; files read back as written, the limits of the table, and batches of files.
  \<^item> The shell: editing is a bounded string, which the screen shows, \<open>write\<close> and \<open>cat\<close> are inverse, and a key press goes from the port to the line.
  \<^item> OS/2 layer: handles never alias and none is lost while no close reports an error, capacity, both versions of the calls give the same answers, objects
    are loaded as the headers say, the two loaders agree where both work, the test program succeeds where
    the host grants its calls, and the two import readers agree.
  \<^item> Several processors, fewer than 32: no operation but a change of a waiting thread's priority breaks the queues, the highest
    priority runs next, equal priorities never take turns, and with the lock the interleaved statements of
    processors on one queue have the effect of whole calls in some order.
  \<^item> OPUS4.5: the console simulates the one of SimpleOS, a command line is split as specified, and no command leaves its
    arrays. Hardware layer: tables read as lists of entries, time and waits, start of processors, state after start.
  \<^item> Besides, lemmas exhibit where the code goes wrong: shared kernel pages freed on exit, colours lost, a format
    that takes numbers for strings, products that wrap, waits without end, reads past the file or past an array.

  \<^bold>\<open>Not modelled.\<close> Assembly (\<open>*.asm\<close>: boot sectors, entry and interrupt stubs, port access, the context switch) and build files:
  their effect as the C code relies on it is a primitive of the model. The translation buffer of paging, so a missing
  \<open>invlpg\<close> would not show. Memory ordering, and interleaving of processors outside \<open>enqueue_thread\<close> and
  \<open>dequeue_highest_priority\<close> of one queue: the other functions of \<open>Smp_Scheduler\<close> run one at a time. Interrupts arrive between
  operations, not inside them. A switch to another process is recorded (\<open>switched_to\<close>), not followed: \<open>switch.asm\<close> leaves
  by \<open>iret\<close> and never returns to its caller, in which nothing is left to do on any path, and a session ends there. Messages printed by the memory and process functions and by the OS/2 calls;
  what a program prints is modelled where it is its purpose (shell, \<open>printf\<close>, consoles, readers). Directories without C code
  (documents, samples, images) are no part of the model.
\<close>

end
